(* ===== verification/Prelude.thy ===== *)
theory Prelude
  imports Main "HOL-Library.Multiset" "HOL-Library.Word"
begin

text \<open>
  Shared vocabulary of the development: the faults a C++ operation of the program can end in,
  the type of an operation that may fault, machine-integer bounds, and the generic lemmas on
  lists, association lists and multisets that several components use.
\<close>

section \<open>Faults and outcomes\<close>

text \<open>
  \<open>NotEnoughSpace\<close> is the exception of \<open>src/src/objectModel/headers/Allocator.h\<close>.
  \<open>WildAccess\<close> is an access outside the storage an object owns (undefined behaviour in C++),
  \<open>NullDeref\<close> an access through a null handle, \<open>DivByZero\<close> a zero divisor, \<open>FatalExit\<close> a call of
  \<open>exit\<close>, \<open>Stuck\<close> a thread that blocks or spins with nobody left to release it, and
  \<open>BadUnlock\<close> the release of a lock that is not held (undefined behaviour), and \<open>OutOfRange\<close> the
  exception of \<open>vector::at\<close>, which no caller catches.
\<close>

datatype fault = NotEnoughSpace | WildAccess | NullDeref | DivByZero | FatalExit int | Stuck | BadUnlock | OutOfRange

type_synonym 'a outcome = "fault + 'a"

definition andThen :: "'a outcome \<Rightarrow> ('a \<Rightarrow> 'b outcome) \<Rightarrow> 'b outcome" where
  "andThen r f = (case r of Inl e \<Rightarrow> Inl e | Inr x \<Rightarrow> f x)"

lemma andThen_simps [simp]:
  "andThen (Inl e) f = Inl e"
  "andThen (Inr x) f = f x"
  by (simp_all add: andThen_def)

lemma andThen_Inr_iff: "andThen r f = Inr y \<longleftrightarrow> (\<exists>x. r = Inr x \<and> f x = Inr y)"
  by (cases r) auto

lemma andThen_assoc: "andThen (andThen r f) g = andThen r (\<lambda>x. andThen (f x) g)"
  by (cases r) auto

section \<open>What holds when an operation succeeds\<close>

definition onInr :: "('a \<Rightarrow> bool) \<Rightarrow> 'a outcome \<Rightarrow> bool" where
  "onInr P r = (case r of Inl e \<Rightarrow> True | Inr x \<Rightarrow> P x)"

named_theorems succeeds \<open>rules for what holds when an operation succeeds\<close>

lemma onInrI: "(\<And>x. r = Inr x \<Longrightarrow> P x) \<Longrightarrow> onInr P r"
  by (cases r) (simp_all add: onInr_def)

lemma onInrD: "onInr P r \<Longrightarrow> r = Inr x \<Longrightarrow> P x"
  by (simp add: onInr_def)

lemma onInr_mono: "onInr Q r \<Longrightarrow> (\<And>x. Q x \<Longrightarrow> P x) \<Longrightarrow> onInr P r"
  by (cases r) (simp_all add: onInr_def)

lemma onInr_Inr [succeeds]: "P x \<Longrightarrow> onInr P (Inr x)"
  by (simp add: onInr_def)

lemma onInr_Inl [succeeds]: "onInr P (Inl e)"
  by (simp add: onInr_def)

lemma onInr_if [succeeds]: "(b \<Longrightarrow> onInr P x) \<Longrightarrow> (\<not> b \<Longrightarrow> onInr P y) \<Longrightarrow> onInr P (if b then x else y)"
  by simp

lemma onInr_Let [succeeds]: "(\<And>x. x = e \<Longrightarrow> onInr P (f x)) \<Longrightarrow> onInr P (Let e f)"
  by simp

lemma onInr_prod [succeeds]: "(\<And>a b. x = (a, b) \<Longrightarrow> onInr P (f a b)) \<Longrightarrow> onInr P (case x of (a, b) \<Rightarrow> f a b)"
  by (cases x) simp

lemma onInr_andThen: "onInr Q r \<Longrightarrow> (\<And>x. Q x \<Longrightarrow> onInr P (f x)) \<Longrightarrow> onInr P (andThen r f)"
  by (cases r) (simp_all add: onInr_def)

lemma onInr_andThen_any: "(\<And>x. r = Inr x \<Longrightarrow> onInr P (f x)) \<Longrightarrow> onInr P (andThen r f)"
  by (cases r) (simp_all add: onInr_def)

section \<open>Machine integers as bounded naturals\<close>

text \<open>\<open>uint32_t\<close> and \<open>size_t\<close> arithmetic is written on \<open>nat\<close> with the wrap-around explicit.\<close>

definition u32 :: "nat \<Rightarrow> nat" where
  "u32 n = n mod 2 ^ 32"

definition u64 :: "nat \<Rightarrow> nat" where
  "u64 n = n mod 2 ^ 64"

lemma u32_less [simp]: "u32 n < 4294967296"
  by (simp add: u32_def)

lemma u32_id [simp]: "n < 4294967296 \<Longrightarrow> u32 n = n"
  by (simp add: u32_def)

lemma u64_id [simp]: "n < 18446744073709551616 \<Longrightarrow> u64 n = n"
  by (simp add: u64_def)

lemma u32_u32 [simp]: "u32 (u32 n) = u32 n"
  by (simp add: u32_def)

section \<open>Join types\<close>

text \<open>The enumeration of \<open>src/src/conf/headers/DataTypes.h\<close> that planner and join sinks share.\<close>

datatype join_type = HashPartitionedJoin | BroadcastJoin | LocalJoin | CrossProduct | UnknownJoin

section \<open>Lists\<close>

named_theorems component_simps \<open>unfolding rules of the component operations\<close>

lemma take_list_update_at [simp]:
  "i < length xs \<Longrightarrow> take (Suc i) (xs[i := y]) = take i xs @ [y]"
  by (simp add: take_Suc_conv_app_nth)

lemma set_take_nth: "i < n \<Longrightarrow> n \<le> length xs \<Longrightarrow> xs ! i \<in> set (take n xs)"
  by (metis in_set_conv_nth length_take min.absorb2 nth_take)

lemma map_the_take_list_update:
  "i < n \<Longrightarrow> n \<le> length xs \<Longrightarrow>
   map the (take n (xs[i := Some y])) = (map the (take n xs))[i := y]"
  by (simp add: take_update_swap map_update)

lemma mset_swap_list:
  "i < length xs \<Longrightarrow> j < length xs \<Longrightarrow> mset (xs[i := xs ! j, j := xs ! i]) = mset xs"
  by (rule Multiset.mset_swap)

end
