(* ===== verification/PdbVector.thy ===== *)
theory PdbVector
  imports Prelude
begin

text \<open>
  The object model's variable-length array and vector
  (\<open>src/src/builtInPDBObjects/headers/Array.cc\<close> and \<open>PDBVector.cc\<close>): an \<open>Array\<close> is a block of
  \<open>numSlots\<close> cells of which the first \<open>usedSlots\<close> hold constructed objects; a \<open>Vector\<close> is a
  handle to an array that is replaced by a larger one when a push finds it full.
  A cell is \<open>None\<close> while it is raw memory. The argument \<open>room\<close> says whether the allocator can
  serve an array of that many cells; otherwise it throws \<open>NotEnoughSpace\<close>. Copying one element
  is taken not to throw (it does not for the plain types).
\<close>

section \<open>Array\<close>

record 'a arr =
  numSlots :: nat
  usedSlots :: nat
  cells :: "'a option list"

definition arr_new :: "nat \<Rightarrow> 'a arr" where
  "arr_new n = \<lparr>numSlots = n, usedSlots = 0, cells = replicate n None\<rparr>"

definition arr_new_used :: "'a \<Rightarrow> nat \<Rightarrow> nat \<Rightarrow> 'a arr outcome" where
  "arr_new_used dflt n u =
     (if u \<le> n
      then Inr \<lparr>numSlots = n, usedSlots = u,
                 cells = replicate u (Some dflt) @ replicate (n - u) None\<rparr>
      else Inl WildAccess)"

definition read_cell :: "nat \<Rightarrow> 'a arr \<Rightarrow> 'a outcome" where
  "read_cell i a =
     (if i < length (cells a)
      then (case cells a ! i of None \<Rightarrow> Inl WildAccess | Some x \<Rightarrow> Inr x)
      else Inl WildAccess)"

definition write_cell :: "nat \<Rightarrow> 'a \<Rightarrow> 'a arr \<Rightarrow> 'a arr outcome" where
  "write_cell i x a =
     (if i < length (cells a) then Inr (a\<lparr>cells := (cells a)[i := Some x]\<rparr>)
      else Inl WildAccess)"

definition destroy_cell :: "nat \<Rightarrow> 'a arr \<Rightarrow> 'a arr outcome" where
  "destroy_cell i a =
     (if i < length (cells a) then Inr (a\<lparr>cells := (cells a)[i := None]\<rparr>)
      else Inl WildAccess)"

definition arr_isFull :: "'a arr \<Rightarrow> bool" where
  "arr_isFull a \<longleftrightarrow> usedSlots a = numSlots a"

definition arr_numUsedSlots :: "'a arr \<Rightarrow> nat" where
  "arr_numUsedSlots a = usedSlots a"

definition arr_setUsed :: "nat \<Rightarrow> 'a arr \<Rightarrow> 'a arr" where
  "arr_setUsed n a = a\<lparr>usedSlots := n\<rparr>"

definition arr_getObj :: "'a arr \<Rightarrow> nat \<Rightarrow> 'a outcome" where
  "arr_getObj a i = read_cell i a"

text \<open>The guard of \<open>assign\<close> is \<open>which > usedSlots\<close>; a rejected write only prints a message.\<close>

definition arr_assign :: "'a arr \<Rightarrow> nat \<Rightarrow> 'a \<Rightarrow> 'a arr outcome" where
  "arr_assign a which x = (if usedSlots a < which then Inr a else write_cell which x a)"

definition arr_push_back :: "'a arr \<Rightarrow> 'a \<Rightarrow> 'a arr outcome" where
  "arr_push_back a x =
     andThen (write_cell (usedSlots a) x a)
       (\<lambda>a'. Inr (a'\<lparr>usedSlots := u32 (usedSlots a + 1)\<rparr>))"

definition arr_push_back_empty :: "'a \<Rightarrow> 'a arr \<Rightarrow> 'a arr outcome" where
  "arr_push_back_empty dflt a = arr_push_back a dflt"

definition arr_pop_back :: "'a arr \<Rightarrow> 'a arr outcome" where
  "arr_pop_back a =
     (if usedSlots a \<noteq> 0
      then andThen (destroy_cell (usedSlots a - 1) a)
             (\<lambda>a'. Inr (a'\<lparr>usedSlots := usedSlots a - 1\<rparr>))
      else Inr a)"

text \<open>
  The loop of \<open>resize\<close>: the first \<open>mn\<close> elements are copied into the new array, the rest are
  destroyed in the old one, whose \<open>usedSlots\<close> is decremented for each.
\<close>

function resize_loop ::
  "nat \<Rightarrow> nat \<Rightarrow> nat \<Rightarrow> 'a arr \<Rightarrow> 'a arr \<Rightarrow> ('a arr \<times> 'a arr) outcome" where
  "resize_loop i mn my old new =
     (if i < mn \<or> i < my then
        (if i < mn
         then andThen (read_cell i old) (\<lambda>x.
              andThen (write_cell i x new) (\<lambda>new'.
              resize_loop (Suc i) mn my old new'))
         else andThen (destroy_cell i old) (\<lambda>old'.
              resize_loop (Suc i) mn my (old'\<lparr>usedSlots := usedSlots old' - 1\<rparr>) new))
      else Inr (old, new))"
  by pat_completeness auto
termination
  by (relation "measure (\<lambda>(i, mn, my, _). max mn my - i)") auto

declare resize_loop.simps [simp del]

definition arr_resize :: "(nat \<Rightarrow> bool) \<Rightarrow> nat \<Rightarrow> 'a arr \<Rightarrow> ('a arr \<times> 'a arr) outcome" where
  "arr_resize room howMany a =
     (if \<not> room howMany then Inl NotEnoughSpace
      else let mn = (if usedSlots a > howMany then howMany else usedSlots a);
               new = (arr_new howMany)\<lparr>usedSlots := mn\<rparr>
           in resize_loop 0 mn (usedSlots a) a new)"

definition arr_doubleSize :: "(nat \<Rightarrow> bool) \<Rightarrow> 'a arr \<Rightarrow> ('a arr \<times> 'a arr) outcome" where
  "arr_doubleSize room a = arr_resize room (u32 (numSlots a * 2)) a"

text \<open>
  \<open>setUpAndCopyFrom\<close>: the copy takes over both counters, then copies the used elements one by
  one with the element type's own deep copy \<open>cp\<close>; when that throws at element \<open>i\<close>, the copy's
  \<open>usedSlots\<close> is set to \<open>i\<close> and the exception is thrown on. The state of the copy is returned
  together with the exception, because the caller still owns it.
\<close>

fun copy_loop ::
  "('a \<Rightarrow> 'a outcome) \<Rightarrow> nat \<Rightarrow> nat \<Rightarrow> 'a arr \<Rightarrow> 'a arr \<Rightarrow> 'a arr \<times> fault option" where
  "copy_loop cp i 0 src dst = (dst, None)"
| "copy_loop cp i (Suc n) src dst =
     (case andThen (read_cell i src) cp of
        Inl e \<Rightarrow> (dst\<lparr>usedSlots := i\<rparr>, Some e)
      | Inr x \<Rightarrow>
          (case write_cell i x dst of
             Inl e \<Rightarrow> (dst\<lparr>usedSlots := i\<rparr>, Some e)
           | Inr dst' \<Rightarrow> copy_loop cp (Suc i) n src dst'))"

definition arr_setUpAndCopyFrom :: "('a \<Rightarrow> 'a outcome) \<Rightarrow> 'a arr \<Rightarrow> 'a arr \<times> fault option" where
  "arr_setUpAndCopyFrom cp src =
     copy_loop cp 0 (usedSlots src) src
       \<lparr>numSlots = numSlots src, usedSlots = usedSlots src,
        cells = replicate (numSlots src) None\<rparr>"

section \<open>Vector\<close>

record 'a vec =
  myArray :: "'a arr"

definition vec_new_sized :: "(nat \<Rightarrow> bool) \<Rightarrow> nat \<Rightarrow> 'a vec outcome" where
  "vec_new_sized room n = (if room n then Inr \<lparr>myArray = arr_new n\<rparr> else Inl NotEnoughSpace)"

definition vec_new_used :: "(nat \<Rightarrow> bool) \<Rightarrow> 'a \<Rightarrow> nat \<Rightarrow> nat \<Rightarrow> 'a vec outcome" where
  "vec_new_used room dflt n u =
     (if room n then andThen (arr_new_used dflt n u) (\<lambda>a. Inr \<lparr>myArray = a\<rparr>)
      else Inl NotEnoughSpace)"

definition vec_new :: "(nat \<Rightarrow> bool) \<Rightarrow> 'a vec outcome" where
  "vec_new room = (if room 1 then Inr \<lparr>myArray = arr_new 1\<rparr> else Inl NotEnoughSpace)"

definition vec_size :: "'a vec \<Rightarrow> nat" where
  "vec_size v = arr_numUsedSlots (myArray v)"

definition vec_get :: "'a vec \<Rightarrow> nat \<Rightarrow> 'a outcome" where
  "vec_get v i = arr_getObj (myArray v) i"

definition vec_assign :: "'a vec \<Rightarrow> nat \<Rightarrow> 'a \<Rightarrow> 'a vec outcome" where
  "vec_assign v i x = andThen (arr_assign (myArray v) i x) (\<lambda>a. Inr (v\<lparr>myArray := a\<rparr>))"

definition vec_push_back :: "(nat \<Rightarrow> bool) \<Rightarrow> 'a vec \<Rightarrow> 'a \<Rightarrow> 'a vec outcome" where
  "vec_push_back room v x =
     andThen (if arr_isFull (myArray v)
              then andThen (arr_doubleSize room (myArray v)) (\<lambda>(_, new). Inr (v\<lparr>myArray := new\<rparr>))
              else Inr v)
       (\<lambda>v'. andThen (arr_push_back (myArray v') x) (\<lambda>a. Inr (v'\<lparr>myArray := a\<rparr>)))"

definition vec_push_back_empty :: "(nat \<Rightarrow> bool) \<Rightarrow> 'a \<Rightarrow> 'a vec \<Rightarrow> 'a vec outcome" where
  "vec_push_back_empty room dflt v =
     andThen (if arr_isFull (myArray v)
              then andThen (arr_doubleSize room (myArray v)) (\<lambda>(_, new). Inr (v\<lparr>myArray := new\<rparr>))
              else Inr v)
       (\<lambda>v'. andThen (arr_push_back_empty dflt (myArray v')) (\<lambda>a. Inr (v'\<lparr>myArray := a\<rparr>)))"

definition vec_pop_back :: "'a vec \<Rightarrow> 'a vec outcome" where
  "vec_pop_back v = andThen (arr_pop_back (myArray v)) (\<lambda>a. Inr (v\<lparr>myArray := a\<rparr>))"

definition vec_clear :: "(nat \<Rightarrow> bool) \<Rightarrow> 'a vec \<Rightarrow> 'a vec outcome" where
  "vec_clear room v = (if room 1 then Inr (v\<lparr>myArray := arr_new 1\<rparr>) else Inl NotEnoughSpace)"

definition vec_resize :: "(nat \<Rightarrow> bool) \<Rightarrow> nat \<Rightarrow> 'a vec \<Rightarrow> 'a vec outcome" where
  "vec_resize room n v =
     andThen (arr_resize room n (myArray v)) (\<lambda>(_, new). Inr (v\<lparr>myArray := new\<rparr>))"

text \<open>\<open>fill\<close> writes through \<open>c_ptr\<close>, one cell after the other, \<open>size\<close> of them.\<close>

fun fill_loop :: "nat \<Rightarrow> nat \<Rightarrow> 'a \<Rightarrow> 'a arr \<Rightarrow> 'a arr outcome" where
  "fill_loop i 0 x a = Inr a"
| "fill_loop i (Suc n) x a = andThen (write_cell i x a) (fill_loop (Suc i) n x)"

definition vec_fill :: "'a vec \<Rightarrow> 'a \<Rightarrow> 'a vec outcome" where
  "vec_fill v x =
     andThen (fill_loop 0 (vec_size v) x (myArray v)) (\<lambda>a. Inr (v\<lparr>myArray := a\<rparr>))"

definition vec_push_all :: "(nat \<Rightarrow> bool) \<Rightarrow> 'a vec \<Rightarrow> 'a list \<Rightarrow> 'a vec outcome" where
  "vec_push_all room v xs = foldl (\<lambda>r x. andThen r (\<lambda>v'. vec_push_back room v' x)) (Inr v) xs"

section \<open>Invariant and contents\<close>

definition arr_inv :: "'a arr \<Rightarrow> bool" where
  "arr_inv a \<longleftrightarrow>
     usedSlots a \<le> numSlots a \<and> length (cells a) = numSlots a \<and> numSlots a < 2 ^ 32 \<and>
     (\<forall>i < usedSlots a. cells a ! i \<noteq> None)"

definition arr_elems :: "'a arr \<Rightarrow> 'a list" where
  "arr_elems a = map the (take (usedSlots a) (cells a))"

definition vec_inv :: "'a vec \<Rightarrow> bool" where
  "vec_inv v \<longleftrightarrow> arr_inv (myArray v) \<and> 0 < numSlots (myArray v)"

definition vec_elems :: "'a vec \<Rightarrow> 'a list" where
  "vec_elems v = arr_elems (myArray v)"


section \<open>Array lemmas\<close>

lemmas arr_ops = read_cell_def write_cell_def destroy_cell_def arr_getObj_def
  arr_isFull_def arr_numUsedSlots_def

lemma arr_inv_new [simp]: "n < 4294967296 \<Longrightarrow> arr_inv (arr_new n)"
  by (simp add: arr_inv_def arr_new_def)

lemma arr_elems_new [simp]: "arr_elems (arr_new n) = []"
  by (simp add: arr_elems_def arr_new_def)

lemma numSlots_new [simp]: "numSlots (arr_new n) = n"
  by (simp add: arr_new_def)

lemma length_arr_elems: "arr_inv a \<Longrightarrow> length (arr_elems a) = usedSlots a"
  by (simp add: arr_inv_def arr_elems_def)

lemma arr_elems_nth:
  "arr_inv a \<Longrightarrow> i < usedSlots a \<Longrightarrow> cells a ! i = Some (arr_elems a ! i)"
  by (auto simp: arr_inv_def arr_elems_def)

lemma read_cell_elems: "arr_inv a \<Longrightarrow> i < usedSlots a \<Longrightarrow> read_cell i a = Inr (arr_elems a ! i)"
  using arr_elems_nth[of a i] by (simp add: read_cell_def arr_inv_def)

lemma arr_push_back_ok:
  assumes "arr_inv a" and "usedSlots a < numSlots a"
  shows "\<exists>a'. arr_push_back a x = Inr a' \<and> arr_inv a' \<and> numSlots a' = numSlots a \<and>
              arr_elems a' = arr_elems a @ [x]"
  using assms
  by (auto simp: arr_push_back_def write_cell_def arr_inv_def arr_elems_def
      take_Suc_conv_app_nth nth_list_update less_Suc_eq)

lemma arr_push_back_outside:
  "length (cells a) \<le> usedSlots a \<Longrightarrow> arr_push_back a x = Inl WildAccess"
  by (simp add: arr_push_back_def write_cell_def)

lemma arr_pop_back_ok:
  assumes "arr_inv a"
  shows "\<exists>a'. arr_pop_back a = Inr a' \<and> arr_inv a' \<and> numSlots a' = numSlots a \<and>
              arr_elems a' = butlast (arr_elems a)"
proof (cases "usedSlots a")
  case 0
  with assms show ?thesis by (simp add: arr_pop_back_def arr_elems_def)
next
  case (Suc n)
  with assms show ?thesis
    by (auto simp: arr_pop_back_def destroy_cell_def arr_inv_def arr_elems_def
        take_Suc_conv_app_nth butlast_append nth_list_update)
qed

lemma write_cell_elems:
  assumes "arr_inv a" and "i < usedSlots a"
  shows "\<exists>a'. write_cell i x a = Inr a' \<and> arr_inv a' \<and> numSlots a' = numSlots a \<and>
              usedSlots a' = usedSlots a \<and> arr_elems a' = (arr_elems a)[i := x]"
  using assms
  by (auto simp: write_cell_def arr_inv_def arr_elems_def map_the_take_list_update
      nth_list_update)

lemma resize_loop_spec:
  assumes "i \<le> mn" and "mn \<le> my" and "my \<le> length (cells old)" and "mn \<le> length (cells new)"
    and "\<forall>j < mn. cells old ! j \<noteq> None"
  shows "\<exists>old' new'. resize_loop i mn my old new = Inr (old', new') \<and>
     numSlots new' = numSlots new \<and> usedSlots new' = usedSlots new \<and>
     cells new' = take i (cells new) @ take (mn - i) (drop i (cells old)) @ drop mn (cells new)"
  using assms
proof (induction "mn - i" arbitrary: i new)
  case 0
  have destroy: "\<exists>old'. resize_loop j mn my o1 new = Inr (old', new)"
    if "mn \<le> j" and "my \<le> length (cells o1)" for j o1
    using that
  proof (induction "my - j" arbitrary: j o1)
    case 0
    then show ?case by (subst resize_loop.simps) simp
  next
    case (Suc k)
    define o2 where "o2 = o1\<lparr>cells := (cells o1)[j := None], usedSlots := usedSlots o1 - 1\<rparr>"
    have "k = my - Suc j" and "my \<le> length (cells o2)"
      using Suc.hyps(2) Suc.prems by (auto simp: o2_def)
    then obtain old' where "resize_loop (Suc j) mn my o2 new = Inr (old', new)"
      using Suc.hyps(1)[of "Suc j" o2] Suc.prems(1) by auto
    with Suc.hyps(2) Suc.prems show ?case
      by (subst resize_loop.simps) (simp add: destroy_cell_def o2_def)
  qed
  from 0 have "i = mn" by simp
  with destroy[of mn old] 0 show ?case by auto
next
  case (Suc k)
  from Suc.hyps(2) have i: "i < mn" by simp
  with Suc.prems obtain x where x: "cells old ! i = Some x" by blast
  define n2 where "n2 = new\<lparr>cells := (cells new)[i := Some x]\<rparr>"
  have step: "resize_loop i mn my old new = resize_loop (Suc i) mn my old n2"
    using i Suc.prems x
    by (subst resize_loop.simps) (simp add: read_cell_def write_cell_def n2_def)
  have "k = mn - Suc i" and "Suc i \<le> mn" using Suc.hyps(2) by auto
  with Suc.hyps(1)[of "Suc i" n2] Suc.prems step obtain old' new' where
    "resize_loop i mn my old new = Inr (old', new')"
    "numSlots new' = numSlots new" "usedSlots new' = usedSlots new"
    "cells new' = take (Suc i) (cells n2) @ take (mn - Suc i) (drop (Suc i) (cells old)) @
       drop mn (cells n2)"
    by (auto simp: n2_def)
  moreover have "take (mn - i) (drop i (cells old)) =
      Some x # take (mn - Suc i) (drop (Suc i) (cells old))"
    using i Suc.prems x
    by (metis Cons_nth_drop_Suc Suc_diff_Suc order_less_le_trans take_Suc_Cons)
  ultimately show ?case
    using i Suc.prems by (simp add: n2_def)
qed

lemma arr_resize_ok:
  assumes "arr_inv a" and "room n" and "n < 4294967296"
  shows "\<exists>old new. arr_resize room n a = Inr (old, new) \<and> arr_inv new \<and> numSlots new = n \<and>
     arr_elems new = take n (arr_elems a)"
proof -
  define mn where "mn = min n (usedSlots a)"
  define new :: "'a arr" where "new = (arr_new n)\<lparr>usedSlots := mn\<rparr>"
  have pre: "(0::nat) \<le> mn" "mn \<le> usedSlots a" "usedSlots a \<le> length (cells a)"
    "mn \<le> length (cells new)" "\<forall>j < mn. cells a ! j \<noteq> None"
    using assms by (auto simp: mn_def new_def arr_new_def arr_inv_def)
  have call: "arr_resize room n a = resize_loop 0 mn (usedSlots a) a new"
    using assms(2) by (auto simp: arr_resize_def mn_def new_def min_def Let_def)
  from resize_loop_spec[OF pre] call obtain old new' where
    r: "arr_resize room n a = Inr (old, new')" "numSlots new' = n" "usedSlots new' = mn"
       "cells new' = take mn (cells a) @ drop mn (replicate n None)"
    by (auto simp: new_def arr_new_def)
  have "arr_inv new'"
    using r assms pre by (auto simp: arr_inv_def nth_append mn_def)
  moreover have "arr_elems new' = take n (arr_elems a)"
    using r assms by (simp add: arr_elems_def mn_def take_map min_def arr_inv_def)
  ultimately show ?thesis using r by blast
qed

lemma arr_resize_no_room: "\<not> room n \<Longrightarrow> arr_resize room n a = Inl NotEnoughSpace"
  by (simp add: arr_resize_def)

lemma copy_loop_spec:
  assumes "arr_inv src" and "i + n = usedSlots src"
    and "numSlots dst = numSlots src" and "usedSlots dst = usedSlots src"
    and "length (cells dst) = numSlots src"
    and "\<forall>j < i. cells dst ! j \<noteq> None"
    and "copy_loop cp i n src dst = (dst', err)"
  shows "arr_inv dst' \<and> numSlots dst' = numSlots src \<and>
         (err = None \<longrightarrow> usedSlots dst' = usedSlots src \<and>
            (\<forall>j < usedSlots src. i \<le> j \<longrightarrow> cp (arr_elems src ! j) = Inr (the (cells dst' ! j))) \<and>
            (\<forall>j < i. cells dst' ! j = cells dst ! j))"
  using assms
proof (induction n arbitrary: i dst)
  case 0
  then show ?case by (auto simp: arr_inv_def)
next
  case (Suc n)
  have rd: "read_cell i src = Inr (arr_elems src ! i)"
    using Suc.prems by (intro read_cell_elems) auto
  have i: "i < length (cells dst)" using Suc.prems by (auto simp: arr_inv_def)
  show ?case
  proof (cases "cp (arr_elems src ! i)")
    case (Inl e)
    with Suc.prems rd show ?thesis by (auto simp: arr_inv_def)
  next
    case (Inr x)
    define d2 where "d2 = dst\<lparr>cells := (cells dst)[i := Some x]\<rparr>"
    have "copy_loop cp (Suc i) n src d2 = (dst', err)"
      using Suc.prems(7) rd Inr i by (simp add: write_cell_def d2_def)
    from Suc.IH[OF Suc.prems(1) _ _ _ _ _ this] have
      "arr_inv dst' \<and> numSlots dst' = numSlots src \<and> (err = None \<longrightarrow> usedSlots dst' = usedSlots src \<and>
        (\<forall>j < usedSlots src. Suc i \<le> j \<longrightarrow> cp (arr_elems src ! j) = Inr (the (cells dst' ! j))) \<and>
        (\<forall>j < Suc i. cells dst' ! j = cells d2 ! j))"
      using Suc.prems i by (auto simp: d2_def nth_list_update)
    moreover have "cells d2 ! i = Some x" "\<forall>j < i. cells d2 ! j = cells dst ! j"
      using i by (auto simp: d2_def)
    ultimately show ?thesis
      using Inr by (auto simp: le_less Suc_le_eq)
  qed
qed

section \<open>Vector lemmas\<close>

lemma vec_inv_new: "vec_new room = Inr v \<Longrightarrow> vec_inv v \<and> vec_elems v = []"
  by (auto simp: vec_new_def vec_inv_def vec_elems_def split: if_splits)

lemma vec_size_elems: "vec_inv v \<Longrightarrow> vec_size v = length (vec_elems v)"
  by (simp add: vec_size_def vec_elems_def vec_inv_def length_arr_elems arr_numUsedSlots_def)

lemma vec_get_elems: "vec_inv v \<Longrightarrow> i < vec_size v \<Longrightarrow> vec_get v i = Inr (vec_elems v ! i)"
  by (simp add: vec_get_def vec_inv_def vec_elems_def vec_size_def arr_getObj_def
      arr_numUsedSlots_def read_cell_elems)

lemma vec_push_back_cases:
  assumes inv: "vec_inv v" and small: "vec_size v < 2 ^ 31"
  shows "vec_push_back room v x = Inl NotEnoughSpace \<or>
         (\<exists>v'. vec_push_back room v x = Inr v' \<and> vec_inv v' \<and> vec_elems v' = vec_elems v @ [x] \<and>
               numSlots (myArray v') =
                 (if vec_size v = numSlots (myArray v) then 2 * numSlots (myArray v)
                  else numSlots (myArray v)))"
proof (cases "usedSlots (myArray v) = numSlots (myArray v)")
  case False
  with inv have "usedSlots (myArray v) < numSlots (myArray v)"
    by (auto simp: vec_inv_def arr_inv_def)
  with inv False arr_push_back_ok[of "myArray v" x] show ?thesis
    by (auto simp: vec_push_back_def arr_isFull_def vec_inv_def vec_elems_def vec_size_def
        arr_numUsedSlots_def)
next
  case True
  define n where "n = numSlots (myArray v) * 2"
  have n: "u32 (numSlots (myArray v) * 2) = n" "n < 4294967296" "0 < n"
    using True small inv by (auto simp: n_def vec_size_def arr_numUsedSlots_def vec_inv_def)
  show ?thesis
  proof (cases "room n")
    case False
    with True n show ?thesis
      by (simp add: vec_push_back_def arr_isFull_def arr_doubleSize_def arr_resize_no_room)
  next
    case room: True
    with inv n obtain old new where r: "arr_resize room n (myArray v) = Inr (old, new)"
      "arr_inv new" "numSlots new = n" "arr_elems new = take n (arr_elems (myArray v))"
      using arr_resize_ok[of "myArray v" room n] by (auto simp: vec_inv_def)
    have len: "length (arr_elems (myArray v)) = numSlots (myArray v)"
      using inv True by (simp add: length_arr_elems vec_inv_def)
    with r n have elems: "arr_elems new = arr_elems (myArray v)" by (simp add: n_def)
    have "usedSlots new = length (arr_elems new)" using r(2) by (simp add: length_arr_elems)
    with elems len r(3) n have "usedSlots new < numSlots new" by (simp add: n_def)
    with arr_push_back_ok[OF r(2), of x] obtain a' where
      a': "arr_push_back new x = Inr a'" "arr_inv a'" "numSlots a' = n"
          "arr_elems a' = arr_elems (myArray v) @ [x]"
      using elems r(3) by auto
    have "vec_push_back room v x = Inr (v\<lparr>myArray := a'\<rparr>)"
      using True n r(1) a'(1) by (simp add: vec_push_back_def arr_isFull_def arr_doubleSize_def)
    with a' n True show ?thesis
      by (simp add: vec_inv_def vec_elems_def vec_size_def arr_numUsedSlots_def n_def)
  qed
qed

lemma vec_pop_back_ok:
  "vec_inv v \<Longrightarrow> \<exists>v'. vec_pop_back v = Inr v' \<and> vec_inv v' \<and> vec_elems v' = butlast (vec_elems v)"
  using arr_pop_back_ok[of "myArray v"]
  by (auto simp: vec_pop_back_def vec_inv_def vec_elems_def)

section \<open>The interface of a growable sequence\<close>

text \<open>
  What the users of a vector rely on: a push either throws \<open>NotEnoughSpace\<close> or appends, below a
  size limit; a pop removes the last element.
\<close>

locale growable =
  fixes inv :: "'v \<Rightarrow> bool"
    and elems :: "'v \<Rightarrow> 'a list"
    and push :: "'v \<Rightarrow> 'a \<Rightarrow> 'v outcome"
    and pop :: "'v \<Rightarrow> 'v outcome"
    and limit :: nat
  assumes push_cases: "inv v \<Longrightarrow> length (elems v) < limit \<Longrightarrow>
      push v x = Inl NotEnoughSpace \<or>
      (\<exists>v'. push v x = Inr v' \<and> inv v' \<and> elems v' = elems v @ [x])"
    and pop_ok: "inv v \<Longrightarrow> \<exists>v'. pop v = Inr v' \<and> inv v' \<and> elems v' = butlast (elems v)"
begin

lemma push_okD: "inv v \<Longrightarrow> length (elems v) < limit \<Longrightarrow> push v x = Inr v' \<Longrightarrow>
    inv v' \<and> elems v' = elems v @ [x]"
  using push_cases[of v x] by auto

lemma fold_push_fault: "foldl (\<lambda>r x. andThen r (\<lambda>v'. push v' x)) (Inl e) xs = Inl e"
  by (induction xs) auto

lemma fold_push_cases:
  assumes "inv v" and "length (elems v) + length xs \<le> limit"
  shows "foldl (\<lambda>r x. andThen r (\<lambda>v'. push v' x)) (Inr v) xs = Inl NotEnoughSpace \<or>
    (\<exists>v'. foldl (\<lambda>r x. andThen r (\<lambda>v'. push v' x)) (Inr v) xs = Inr v' \<and> inv v' \<and>
          elems v' = elems v @ xs)"
  using assms
proof (induction xs arbitrary: v)
  case Nil
  then show ?case by simp
next
  case (Cons x xs)
  from Cons.prems have "length (elems v) < limit" by simp
  with Cons.prems(1) consider "push v x = Inl NotEnoughSpace"
    | v' where "push v x = Inr v'" "inv v'" "elems v' = elems v @ [x]"
    using push_cases by blast
  then show ?case
  proof cases
    case 1
    then show ?thesis by (simp add: fold_push_fault)
  next
    case (2 v')
    with Cons.IH[of v'] Cons.prems(2) show ?thesis by simp
  qed
qed

lemma push_then_pop:
  "inv v \<Longrightarrow> length (elems v) < limit \<Longrightarrow> push v x = Inr v' \<Longrightarrow>
   \<exists>v''. pop v' = Inr v'' \<and> inv v'' \<and> elems v'' = elems v"
  using push_okD[of v x v'] pop_ok[of v'] by auto

end

interpretation vec: growable vec_inv vec_elems "vec_push_back room" vec_pop_back "2 ^ 31"
  for room
proof unfold_locales
  fix v :: "'a vec" and x
  assume "vec_inv v" and "length (vec_elems v) < 2 ^ 31"
  then show "vec_push_back room v x = Inl NotEnoughSpace \<or>
      (\<exists>v'. vec_push_back room v x = Inr v' \<and> vec_inv v' \<and> vec_elems v' = vec_elems v @ [x])"
    using vec_push_back_cases[of v room x] by (auto simp: vec_size_elems)
qed (rule vec_pop_back_ok)

section \<open>Properties\<close>

lemma vec_push_back_room:
  assumes "vec_inv v" and "vec_size v < 2 ^ 31" and "\<forall>n. room n"
  shows "vec_push_back room v x \<noteq> Inl NotEnoughSpace"
proof -
  have "arr_inv (myArray v)" "u32 (numSlots (myArray v) * 2) < 4294967296"
    using assms(1) by (auto simp: vec_inv_def)
  from arr_resize_ok[OF this(1) _ this(2), of room] assms(3)
  obtain old new where "arr_doubleSize room (myArray v) = Inr (old, new)"
    by (auto simp: arr_doubleSize_def)
  then show ?thesis
    by (auto simp: vec_push_back_def arr_push_back_def write_cell_def)
qed

lemma vec_push_all_room:
  assumes "vec_inv v" and "length (vec_elems v) + length xs \<le> 2 ^ 31" and "\<forall>n. room n"
  shows "vec_push_all room v xs \<noteq> Inl NotEnoughSpace"
  using assms(1,2)
proof (induction xs arbitrary: v)
  case Nil
  then show ?case by (simp add: vec_push_all_def)
next
  case (Cons x xs)
  then have small: "vec_size v < 2 ^ 31" by (simp add: vec_size_elems)
  with vec_push_back_cases[OF Cons.prems(1) small, of room x]
    vec_push_back_room[OF Cons.prems(1) small assms(3), of x]
  obtain v' where "vec_push_back room v x = Inr v'" "vec_inv v'" "vec_elems v' = vec_elems v @ [x]"
    by blast
  with Cons.IH[of v'] Cons.prems(2) show ?case by (simp add: vec_push_all_def)
qed

text \<open>Pushing a list of at most \<open>2^31\<close> values onto a new vector either throws
  \<open>NotEnoughSpace\<close> (never when the allocator has room) or leaves a well-formed vector that holds
  exactly these values in order: \<open>size\<close> is their number and \<open>operator[]\<close> reads each back,
  through every doubling of the underlying array.\<close>

theorem vec_push_all_contents:
  assumes "vec_new room = Inr v" and "length xs \<le> 2 ^ 31"
  shows "(vec_push_all room v xs = Inl NotEnoughSpace \<and> (\<exists>n. \<not> room n)) \<or>
         (\<exists>v'. vec_push_all room v xs = Inr v' \<and> vec_inv v' \<and> vec_size v' = length xs \<and>
               (\<forall>i < length xs. vec_get v' i = Inr (xs ! i)))"
proof -
  have v: "vec_inv v" "vec_elems v = []" using vec_inv_new[OF assms(1)] by auto
  consider "vec_push_all room v xs = Inl NotEnoughSpace"
    | v' where "vec_push_all room v xs = Inr v'" "vec_inv v'" "vec_elems v' = xs"
    using vec.fold_push_cases[OF v(1), of xs room] v(2) assms(2)
    by (auto simp: vec_push_all_def)
  then show ?thesis
  proof cases
    case 1
    with vec_push_all_room[OF v(1), of xs room] v(2) assms(2) show ?thesis by auto
  next
    case (2 v')
    then show ?thesis by (auto simp: vec_size_elems vec_get_elems)
  qed
qed

theorem vec_push_all_contents_witness:
  "\<exists>v v'. vec_new (\<lambda>_. True) = Inr v \<and> length [7, 8, 9 :: nat] \<le> 2 ^ 31 \<and>
     vec_push_all (\<lambda>_. True) v [7, 8, 9 :: nat] = Inr v' \<and> vec_get v' 2 = Inr 9"
proof -
  have h: "vec_new (\<lambda>_. True) = Inr \<lparr>myArray = arr_new 1\<rparr>" by (simp add: vec_new_def)
  show ?thesis using vec_push_all_contents[OF h, of "[7, 8, 9 :: nat]"] h by force
qed

text \<open>A vector whose array has no slots (\<open>Vector (0)\<close>, or any vector after \<open>resize (0)\<close>) cannot
  be pushed to: doubling zero slots gives zero slots, so \<open>push_back\<close> constructs the element past
  the end of the array's storage.\<close>

theorem vec_zero_capacity_push:
  assumes "vec_new_sized room 0 = Inr v \<or> (vec_inv w \<and> vec_resize room 0 w = Inr v)"
  shows "vec_push_back room v x = Inl WildAccess"
proof -
  have room: "room 0" and v: "numSlots (myArray v) = 0" "arr_inv (myArray v)"
    using assms arr_resize_ok[of "myArray w" room 0] arr_resize_no_room[of room 0 "myArray w"]
    by (cases "room 0";
        auto simp: vec_new_sized_def vec_inv_def vec_resize_def split: if_splits)+
  then obtain old new where r: "arr_resize room 0 (myArray v) = Inr (old, new)"
    "arr_inv new" "numSlots new = 0"
    using arr_resize_ok[of "myArray v" room 0] by auto
  then have "arr_push_back new x = Inl WildAccess"
    by (intro arr_push_back_outside) (auto simp: arr_inv_def)
  with r v show ?thesis
    by (auto simp: vec_push_back_def arr_isFull_def arr_doubleSize_def arr_inv_def)
qed

theorem vec_zero_capacity_push_witness:
  "vec_new_sized (\<lambda>_. True) 0 = Inr \<lparr>myArray = arr_new 0\<rparr> \<and>
   vec_push_back (\<lambda>_. True) \<lparr>myArray = arr_new 0\<rparr> (5 :: nat) = Inl WildAccess"
proof -
  have h: "vec_new_sized (\<lambda>_. True) 0 = Inr \<lparr>myArray = arr_new 0\<rparr>"
    by (simp add: vec_new_sized_def)
  show ?thesis
    using h vec_zero_capacity_push[OF disjI1, OF h, of "5 :: nat"] by simp
qed

text \<open>The deep copy of an array is exception safe: whatever element copy throws, the copy it leaves
  behind is a well-formed array that claims only elements that were really constructed; when no
  copy throws, it holds the copied value of every element of the source.\<close>

theorem arr_deep_copy_safe:
  assumes "arr_inv src" and "arr_setUpAndCopyFrom cp src = (dst, err)"
  shows "arr_inv dst \<and> numSlots dst = numSlots src \<and>
         (err = None \<longrightarrow> map cp (arr_elems src) = map Inr (arr_elems dst))"
proof -
  define d0 :: "'a arr" where
    "d0 = \<lparr>numSlots = numSlots src, usedSlots = usedSlots src,
           cells = replicate (numSlots src) None\<rparr>"
  have run: "copy_loop cp 0 (usedSlots src) src d0 = (dst, err)"
    using assms(2) by (simp add: arr_setUpAndCopyFrom_def d0_def)
  from copy_loop_spec[OF assms(1) _ _ _ _ _ run]
  have inv: "arr_inv dst \<and> numSlots dst = numSlots src"
    and ok: "err = None \<Longrightarrow> usedSlots dst = usedSlots src \<and>
            (\<forall>j < usedSlots src. cp (arr_elems src ! j) = Inr (the (cells dst ! j)))"
    by (auto simp: d0_def)
  have "map cp (arr_elems src) = map Inr (arr_elems dst)" if "err = None"
    using ok[OF that] inv assms(1)
    by (auto simp: list_eq_iff_nth_eq length_arr_elems arr_elems_nth)
  with inv show ?thesis by blast
qed

theorem arr_deep_copy_safe_witness:
  "\<exists>dst. arr_setUpAndCopyFrom Inr
     \<lparr>numSlots = 3, usedSlots = 2, cells = [Some 3, Some 4, None]\<rparr> = (dst, None) \<and>
     arr_inv dst \<and> arr_elems dst = [3, 4 :: nat]"
proof -
  define src :: "nat arr" where
    "src = \<lparr>numSlots = 3, usedSlots = 2, cells = [Some 3, Some 4, None]\<rparr>"
  have inv: "arr_inv src" by (auto simp: src_def arr_inv_def dest!: less_2_cases)
  have run: "arr_setUpAndCopyFrom Inr src = (src, None)"
    by (simp add: src_def arr_setUpAndCopyFrom_def read_cell_def write_cell_def numeral_2_eq_2
        numeral_3_eq_3)
  from arr_deep_copy_safe[OF inv run] run show ?thesis
    by (auto simp: src_def arr_elems_def)
qed

end
