(* ===== verification/TopKQueues.thy ===== *)
theory TopKQueues
  imports PdbVector
begin

text \<open>
  The aggregation value \<open>TopKQueue\<close> (\<open>src/src/builtInPDBObjects/headers/TopKQueue.cc\<close>): it keeps
  the \<open>k\<close> best of the (score, value) pairs inserted, a single pair in place and more than one in
  two parallel vectors that form a binary min-heap on the scores.
  \<open>roomS\<close> and \<open>roomV\<close> say whether the allocator has room for a score or value array of that many
  cells. An operation returns the queue together with the exception it threw, if any.
\<close>

section \<open>The queue and its operations\<close>

record ('s, 'v) topk =
  isEmpty :: bool
  allScores :: "'s vec option"
  allValues :: "'v vec option"
  limitK :: nat
  tempScore :: 's
  tempValue :: 'v

definition topk_new :: "nat \<Rightarrow> 's \<Rightarrow> 'v \<Rightarrow> ('s, 'v) topk" where
  "topk_new kIn s0 v0 = \<lparr>isEmpty = True, allScores = None, allValues = None, limitK = kIn,
     tempScore = s0, tempValue = v0\<rparr>"

definition topk_default :: "'s \<Rightarrow> 'v \<Rightarrow> ('s, 'v) topk" where
  "topk_default s0 v0 = topk_new 1 s0 v0"

definition topk_singleton :: "nat \<Rightarrow> 's \<Rightarrow> 'v \<Rightarrow> ('s, 'v) topk" where
  "topk_singleton kIn s v = (topk_new kIn s v)\<lparr>isEmpty := False\<rparr>"

text \<open>
  The arrays behind \<open>c_ptr ()\<close> of the two vectors, with the two temporaries that \<open>swap\<close> goes
  through: scores, values, temporary score, temporary value.
\<close>

type_synonym ('s, 'v) heap_arrays = "'s list \<times> 'v list \<times> 's \<times> 'v"

fun heap_swap :: "nat \<Rightarrow> nat \<Rightarrow> ('s, 'v) heap_arrays \<Rightarrow> ('s, 'v) heap_arrays" where
  "heap_swap i j (ss, vs, ts, tv) =
     (let ts' = ss ! i; tv' = vs ! i;
          ss1 = ss[i := ss ! j]; vs1 = vs[i := vs ! j]
      in (ss1[j := ts'], vs1[j := tv'], ts', tv'))"

function sift_up :: "nat \<Rightarrow> ('s::linorder, 'v) heap_arrays \<Rightarrow> ('s, 'v) heap_arrays" where
  "sift_up current h =
     (if current > 0 \<and> fst h ! current < fst h ! ((current - 1) div 2)
      then sift_up ((current - 1) div 2) (heap_swap current ((current - 1) div 2) h)
      else h)"
  by pat_completeness auto
termination
  by (relation "measure fst") auto

declare sift_up.simps [simp del]

function sift_down :: "nat \<Rightarrow> nat \<Rightarrow> ('s::linorder, 'v) heap_arrays \<Rightarrow> ('s, 'v) heap_arrays" where
  "sift_down current lim h =
     (if current * 2 + 2 < lim then
        (let smallPos = (if fst h ! (current * 2 + 1) < fst h ! (current * 2 + 2)
                         then current * 2 + 1 else current * 2 + 2)
         in if fst h ! smallPos < fst h ! current
            then sift_down smallPos lim (heap_swap smallPos current h) else h)
      else if current * 2 + 1 < lim then
        (if fst h ! (current * 2 + 1) < fst h ! current
         then sift_down (current * 2 + 1) lim (heap_swap (current * 2 + 1) current h) else h)
      else h)"
  by pat_completeness auto
termination
  by (relation "measure (\<lambda>(c, l, h). l - c)") (auto simp: Let_def)

declare sift_down.simps [simp del]

text \<open>Writing back through \<open>c_ptr ()\<close>: the used cells of the vector's array are replaced.\<close>

definition store_elems :: "'a list \<Rightarrow> 'a vec \<Rightarrow> 'a vec" where
  "store_elems xs v = v\<lparr>myArray := (myArray v)
     \<lparr>cells := map Some xs @ drop (length xs) (cells (myArray v))\<rparr>\<rparr>"

definition topk_put :: "('s, 'v) topk \<Rightarrow> 's vec \<Rightarrow> 'v vec \<Rightarrow> ('s, 'v) heap_arrays \<Rightarrow> ('s, 'v) topk"
  where
  "topk_put q sv vv h =
     (case h of (ss, vs, ts, tv) \<Rightarrow>
        q\<lparr>allScores := Some (store_elems ss sv), allValues := Some (store_elems vs vv),
          tempScore := ts, tempValue := tv\<rparr>)"

text \<open>The switch from the in-place pair to the two vectors.\<close>

definition topk_make_vectors ::
  "(nat \<Rightarrow> bool) \<Rightarrow> (nat \<Rightarrow> bool) \<Rightarrow> ('s, 'v) topk \<Rightarrow> ('s, 'v) topk \<times> fault option" where
  "topk_make_vectors roomS roomV q =
     (case vec_new roomS of
        Inl e \<Rightarrow> (q, Some e)
      | Inr sv \<Rightarrow>
         (case vec_new roomV of
            Inl e \<Rightarrow> (q\<lparr>allScores := Some sv\<rparr>, Some e)
          | Inr vv \<Rightarrow>
             (case vec_push_back roomS sv (tempScore q) of
                Inl e \<Rightarrow> (q\<lparr>allScores := Some sv, allValues := Some vv\<rparr>, Some e)
              | Inr sv' \<Rightarrow>
                 (case vec_push_back roomV vv (tempValue q) of
                    Inl e \<Rightarrow> (q\<lparr>allScores := Some sv', allValues := Some vv\<rparr>, Some e)
                  | Inr vv' \<Rightarrow> (q\<lparr>allScores := Some sv', allValues := Some vv'\<rparr>, None)))))"

text \<open>
  The end of \<open>insert\<close> once the pair has been pushed onto both vectors: sift the new entry up; if
  there are now more than \<open>k\<close> entries, overwrite the root by the last entry, drop the last entry
  and sift the root down.
\<close>

definition topk_settle :: "('s::linorder, 'v) topk \<Rightarrow> 's vec \<Rightarrow> 'v vec \<Rightarrow> ('s, 'v) topk \<times> fault option"
  where
  "topk_settle q sv vv =
     (let h = sift_up (vec_size sv - 1) (vec_elems sv, vec_elems vv, tempScore q, tempValue q)
      in if vec_size sv \<le> limitK q then (topk_put q sv vv h, None)
         else
           (case h of (ss, vs, ts, tv) \<Rightarrow>
              let n = vec_size sv;
                  sv1 = store_elems (ss[0 := ss ! (n - 1)]) sv;
                  vv1 = store_elems (vs[0 := vs ! (n - 1)]) vv
              in (case vec_pop_back sv1 of
                    Inl e \<Rightarrow> (topk_put q sv vv h, Some e)
                  | Inr sv2 \<Rightarrow>
                     (case vec_pop_back vv1 of
                        Inl e \<Rightarrow> (topk_put q sv vv h, Some e)
                      | Inr vv2 \<Rightarrow>
                          (topk_put q sv2 vv2
                             (sift_down 0 (vec_size sv2) (vec_elems sv2, vec_elems vv2, ts, tv)),
                           None)))))"

definition topk_insert_vec ::
  "(nat \<Rightarrow> bool) \<Rightarrow> (nat \<Rightarrow> bool) \<Rightarrow> 's \<Rightarrow> 'v \<Rightarrow> ('s::linorder, 'v) topk
     \<Rightarrow> ('s, 'v) topk \<times> fault option" where
  "topk_insert_vec roomS roomV score value q =
     (case (allScores q, allValues q) of
        (Some sv, Some vv) \<Rightarrow>
          (case vec_get sv 0 of
             Inl e \<Rightarrow> (q, Some e)
           | Inr s0 \<Rightarrow>
              if score < s0 \<and> limitK q \<le> vec_size sv then (q, None)
              else
                (case vec_push_back roomS sv score of
                   Inl e \<Rightarrow> (q, Some e)
                 | Inr sv' \<Rightarrow>
                    (case vec_push_back roomV vv value of
                       Inl e \<Rightarrow> (q\<lparr>allScores := Some sv'\<rparr>, Some e)
                     | Inr vv' \<Rightarrow> topk_settle q sv' vv')))
      | _ \<Rightarrow> (q, Some NullDeref))"

definition topk_insert ::
  "(nat \<Rightarrow> bool) \<Rightarrow> (nat \<Rightarrow> bool) \<Rightarrow> 's \<Rightarrow> 'v \<Rightarrow> ('s::linorder, 'v) topk
     \<Rightarrow> ('s, 'v) topk \<times> fault option" where
  "topk_insert roomS roomV score value q =
     (if isEmpty q
      then (q\<lparr>tempScore := score, tempValue := value, isEmpty := False\<rparr>, None)
      else if allScores q = None then
        (case topk_make_vectors roomS roomV q of
           (q', Some e) \<Rightarrow> (q', Some e)
         | (q', None) \<Rightarrow> topk_insert_vec roomS roomV score value q')
      else topk_insert_vec roomS roomV score value q)"

fun topk_insert_all ::
  "(nat \<Rightarrow> bool) \<Rightarrow> (nat \<Rightarrow> bool) \<Rightarrow> ('s \<times> 'v) list \<Rightarrow> ('s::linorder, 'v) topk
     \<Rightarrow> ('s, 'v) topk \<times> fault option" where
  "topk_insert_all roomS roomV [] q = (q, None)"
| "topk_insert_all roomS roomV ((s, v) # ps) q =
     (case topk_insert roomS roomV s v q of
        (q', Some e) \<Rightarrow> (q', Some e)
      | (q', None) \<Rightarrow> topk_insert_all roomS roomV ps q')"

text \<open>\<open>operator+\<close> inserts the other queue's pairs; \<open>allValues\<close> is null there only if the other
  queue was left inconsistent.\<close>

definition topk_plus ::
  "(nat \<Rightarrow> bool) \<Rightarrow> (nat \<Rightarrow> bool) \<Rightarrow> ('s::linorder, 'v) topk \<Rightarrow> ('s, 'v) topk
     \<Rightarrow> ('s, 'v) topk \<times> fault option" where
  "topk_plus roomS roomV q addMeIn =
     (if isEmpty addMeIn then (q, None)
      else (case allScores addMeIn of
              None \<Rightarrow> topk_insert roomS roomV (tempScore addMeIn) (tempValue addMeIn) q
            | Some sv \<Rightarrow>
                (case allValues addMeIn of
                   None \<Rightarrow> (q, Some NullDeref)
                 | Some vv \<Rightarrow>
                     topk_insert_all roomS roomV (zip (vec_elems sv) (vec_elems vv)) q)))"

definition topk_size :: "('s, 'v) topk \<Rightarrow> nat outcome" where
  "topk_size q = (case allValues q of None \<Rightarrow> Inl NullDeref | Some vv \<Rightarrow> Inr (vec_size vv))"

definition topk_get :: "('s, 'v) topk \<Rightarrow> nat \<Rightarrow> ('s \<times> 'v) outcome" where
  "topk_get q i =
     (if isEmpty q then Inl (FatalExit 1)
      else (case allValues q of
              None \<Rightarrow> if i = 0 then Inr (tempScore q, tempValue q) else Inl (FatalExit 1)
            | Some vv \<Rightarrow>
                if i < vec_size vv
                then (case allScores q of
                        None \<Rightarrow> Inl NullDeref
                      | Some sv \<Rightarrow> andThen (vec_get sv i) (\<lambda>s. andThen (vec_get vv i) (\<lambda>v. Inr (s, v))))
                else Inl (FatalExit 1)))"

section \<open>The heap loops\<close>

definition heap_ok :: "'s::linorder list \<Rightarrow> bool" where
  "heap_ok ss \<longleftrightarrow> (\<forall>i < length ss. 0 < i \<longrightarrow> ss ! ((i - 1) div 2) \<le> ss ! i)"

text \<open>The heap order with a hole at \<open>c\<close>: towards its parent, or towards its children.\<close>

definition up_ok :: "nat \<Rightarrow> 's::linorder list \<Rightarrow> bool" where
  "up_ok c ss \<longleftrightarrow>
     (\<forall>i < length ss. 0 < i \<and> i \<noteq> c \<longrightarrow> ss ! ((i - 1) div 2) \<le> ss ! i) \<and>
     (\<forall>i < length ss. 0 < i \<and> (i - 1) div 2 = c \<and> 0 < c \<longrightarrow> ss ! ((c - 1) div 2) \<le> ss ! i)"

definition down_ok :: "nat \<Rightarrow> 's::linorder list \<Rightarrow> bool" where
  "down_ok c ss \<longleftrightarrow>
     (\<forall>i < length ss. 0 < i \<and> (i - 1) div 2 \<noteq> c \<longrightarrow> ss ! ((i - 1) div 2) \<le> ss ! i) \<and>
     (\<forall>i < length ss. 0 < i \<and> (i - 1) div 2 = c \<and> 0 < c \<longrightarrow> ss ! ((c - 1) div 2) \<le> ss ! i)"

lemma children: "0 < i \<and> (i - 1) div 2 = c \<longleftrightarrow> i = 2 * c + 1 \<or> i = 2 * c + (2::nat)"
  by (auto; presburger)

lemma parent_less: "0 < (i::nat) \<Longrightarrow> (i - 1) div 2 < i"
  by auto

lemma swap_nth:
  "i < length ss \<Longrightarrow> j < length ss \<Longrightarrow> m < length ss \<Longrightarrow>
   ss[i := ss ! j, j := ss ! i] ! m = (if m = j then ss ! i else if m = i then ss ! j else ss ! m)"
  by (auto simp: nth_list_update)

lemma up_ok_step:
  assumes "up_ok c ss" and "c < length ss" and "0 < c" and "ss ! c < ss ! ((c - 1) div 2)"
  shows "up_ok ((c - 1) div 2) (ss[c := ss ! ((c - 1) div 2), (c - 1) div 2 := ss ! c])"
proof -
  define p where "p = (c - 1) div 2"
  have p: "p < c" "p < length ss" using assms by (auto simp: p_def)
  have A: "\<And>i. i < length ss \<Longrightarrow> 0 < i \<Longrightarrow> i \<noteq> c \<Longrightarrow> ss ! ((i - 1) div 2) \<le> ss ! i"
    and B: "\<And>i. i < length ss \<Longrightarrow> 0 < i \<Longrightarrow> (i - 1) div 2 = c \<Longrightarrow> ss ! p \<le> ss ! i"
    using assms(1,3) by (auto simp: up_ok_def p_def)
  let ?t = "ss[c := ss ! p, p := ss ! c]"
  have t: "?t ! m = (if m = p then ss ! c else if m = c then ss ! p else ss ! m)"
    if "m < length ss" for m
    using swap_nth[OF assms(2) p(2) that] by simp
  have lt: "ss ! c < ss ! p" using assms(4) by (simp add: p_def)
  have "?t ! ((i - 1) div 2) \<le> ?t ! i" if "i < length ss" "0 < i" "i \<noteq> p" for i
    using t[of i] t[of "(i - 1) div 2"] that A[of i] B[of i] lt p parent_less[of i]
    by (auto simp: p_def)
  moreover have "?t ! ((p - 1) div 2) \<le> ?t ! i"
    if "i < length ss" "0 < i" "(i - 1) div 2 = p" "0 < p" for i
    using t[of i] t[of "(p - 1) div 2"] that A[of i] A[of p] p parent_less[of p] parent_less[of i]
    by (auto intro: order_trans)
  ultimately show ?thesis unfolding up_ok_def p_def[symmetric] length_list_update by blast
qed

lemma heap_swap_props:
  assumes "length ss = length vs" and "i < length ss" and "j < length ss"
    and "heap_swap i j (ss, vs, ts, tv) = (ss', vs', ts', tv')"
  shows "ss' = ss[i := ss ! j, j := ss ! i] \<and> length vs' = length vs \<and>
         mset (zip ss' vs') = mset (zip ss vs)"
proof -
  have z: "zip ss' vs' = (zip ss vs)[i := zip ss vs ! j, j := zip ss vs ! i]"
    using assms by (auto simp: Let_def update_zip)
  have "mset (zip ss' vs') = mset (zip ss vs)"
    unfolding z using assms(1-3) by (intro mset_swap_list) auto
  with assms show ?thesis by (auto simp: Let_def)
qed

lemma up_ok_done:
  assumes "up_ok c ss" and "c < length ss" and "\<not> (0 < c \<and> ss ! c < ss ! ((c - 1) div 2))"
  shows "heap_ok ss"
  using assms by (auto simp: up_ok_def heap_ok_def not_less)

lemma sift_up_spec:
  assumes "up_ok c (fst h)" and "c < length (fst h)" and "length (fst h) = length (fst (snd h))"
  shows "heap_ok (fst (sift_up c h)) \<and> length (fst (sift_up c h)) = length (fst h) \<and>
         length (fst (snd (sift_up c h))) = length (fst h) \<and>
         mset (zip (fst (sift_up c h)) (fst (snd (sift_up c h)))) = mset (zip (fst h) (fst (snd h)))"
  using assms
proof (induction c h rule: sift_up.induct)
  case (1 c h)
  obtain ss vs ts tv where h: "h = (ss, vs, ts, tv)" by (metis prod_cases4)
  show ?case
  proof (cases "c > 0 \<and> fst h ! c < fst h ! ((c - 1) div 2)")
    case False
    have "sift_up c h = h" by (simp only: sift_up.simps[of c h] False if_False)
    with up_ok_done[OF "1.prems"(1,2) False] "1.prems" show ?thesis by simp
  next
    case True
    obtain ss' vs' ts' tv' where w: "heap_swap c ((c - 1) div 2) h = (ss', vs', ts', tv')"
      by (metis prod_cases4)
    have p: "(c - 1) div 2 < length ss" "c < length ss" "length ss = length vs"
      using "1.prems" h by auto
    from heap_swap_props[OF p(3,2,1) w[unfolded h]] have
      s': "ss' = ss[c := ss ! ((c - 1) div 2), (c - 1) div 2 := ss ! c]"
      and l: "length vs' = length vs" and m: "mset (zip ss' vs') = mset (zip ss vs)" by auto
    have "up_ok ((c - 1) div 2) ss'"
      unfolding s' by (rule up_ok_step) (use "1.prems" True h in auto)
    moreover have "sift_up c h = sift_up ((c - 1) div 2) (ss', vs', ts', tv')"
      by (simp only: sift_up.simps[of c h] True w if_True simp_thms)
    ultimately show ?thesis
      using "1.IH"[OF True, unfolded w] s' l m p h by simp
  qed
qed

lemma down_ok_step:
  assumes "down_ok c ss" and "sp < length ss" and "0 < sp" and "(sp - 1) div 2 = c"
    and "ss ! sp < ss ! c"
    and "\<And>i. i < length ss \<Longrightarrow> 0 < i \<Longrightarrow> (i - 1) div 2 = c \<Longrightarrow> ss ! sp \<le> ss ! i"
  shows "down_ok sp (ss[sp := ss ! c, c := ss ! sp])"
proof -
  have c: "c < sp" "c < length ss" using assms(2-4) by auto
  have A: "\<And>i. i < length ss \<Longrightarrow> 0 < i \<Longrightarrow> (i - 1) div 2 \<noteq> c \<Longrightarrow> ss ! ((i - 1) div 2) \<le> ss ! i"
    and B: "\<And>i. i < length ss \<Longrightarrow> 0 < i \<Longrightarrow> (i - 1) div 2 = c \<Longrightarrow> 0 < c \<Longrightarrow>
              ss ! ((c - 1) div 2) \<le> ss ! i"
    using assms(1) by (auto simp: down_ok_def)
  let ?t = "ss[sp := ss ! c, c := ss ! sp]"
  have t: "?t ! m = (if m = c then ss ! sp else if m = sp then ss ! c else ss ! m)"
    if "m < length ss" for m
    using swap_nth[OF assms(2) c(2) that] by simp
  have "?t ! ((i - 1) div 2) \<le> ?t ! i" if i: "i < length ss" "0 < i" "(i - 1) div 2 \<noteq> sp" for i
  proof (cases "(i - 1) div 2 = c")
    case True
    then show ?thesis
      using t[of i] t[of c] i c assms(5) assms(6)[of i] parent_less[of i] by auto
  next
    case False
    then show ?thesis
      using t[of i] t[of "(i - 1) div 2"] i c A[of i] B[of sp] assms(2-4) parent_less[of i]
      by auto
  qed
  moreover have "?t ! ((sp - 1) div 2) \<le> ?t ! i"
    if "i < length ss" "0 < i" "(i - 1) div 2 = sp" for i
    using t[of i] t[of c] that A[of i] c assms(4) parent_less[of i] by auto
  ultimately show ?thesis unfolding down_ok_def by simp
qed

lemma down_ok_done:
  assumes "down_ok c ss"
    and "\<And>i. i < length ss \<Longrightarrow> 0 < i \<Longrightarrow> (i - 1) div 2 = c \<Longrightarrow> ss ! c \<le> ss ! i"
  shows "heap_ok ss"
  using assms unfolding down_ok_def heap_ok_def by blast

text \<open>The child the loop of \<open>insert\<close> swaps with, when it swaps.\<close>

definition down_child :: "nat \<Rightarrow> nat \<Rightarrow> 's::linorder list \<Rightarrow> nat option" where
  "down_child c lim ss =
     (if c * 2 + 2 < lim then
        (let sp = (if ss ! (c * 2 + 1) < ss ! (c * 2 + 2) then c * 2 + 1 else c * 2 + 2)
         in if ss ! sp < ss ! c then Some sp else None)
      else if c * 2 + 1 < lim then
        (if ss ! (c * 2 + 1) < ss ! c then Some (c * 2 + 1) else None)
      else None)"

lemma sift_down_child:
  "sift_down c lim h =
     (case down_child c lim (fst h) of None \<Rightarrow> h | Some sp \<Rightarrow> sift_down sp lim (heap_swap sp c h))"
  by (subst sift_down.simps) (simp add: down_child_def Let_def)

lemma down_child_Some:
  assumes "down_child c (length ss) ss = Some sp"
  shows "sp < length ss" and "0 < sp" and "(sp - 1) div 2 = c" and "ss ! sp < ss ! c"
    and "\<And>i. i < length ss \<Longrightarrow> 0 < i \<Longrightarrow> (i - 1) div 2 = c \<Longrightarrow> ss ! sp \<le> ss ! i"
proof -
  show "sp < length ss" "0 < sp" "(sp - 1) div 2 = c" "ss ! sp < ss ! c"
    using assms by (auto simp: down_child_def Let_def split: if_splits)
  fix i
  assume "i < length ss" "0 < i" "(i - 1) div 2 = c"
  then have "i = 2 * c + 1 \<or> i = 2 * c + 2" using children by blast
  then show "ss ! sp \<le> ss ! i"
    using assms \<open>i < length ss\<close>
    by (auto simp: down_child_def Let_def mult.commute split: if_splits)
qed

lemma down_child_None:
  assumes "down_child c (length ss) ss = None"
    and "i < length ss" and "0 < i" and "(i - 1) div 2 = c"
  shows "ss ! c \<le> ss ! i"
proof -
  have "i = 2 * c + 1 \<or> i = 2 * c + 2" using assms(3,4) children by blast
  then show ?thesis
    using assms(1,2) by (auto simp: down_child_def Let_def mult.commute split: if_splits)
qed

lemma sift_down_spec:
  assumes "down_ok c (fst h)" and "length (fst h) = n" and "length (fst (snd h)) = n"
    and "c < n"
  shows "heap_ok (fst (sift_down c n h)) \<and> length (fst (sift_down c n h)) = n \<and>
         length (fst (snd (sift_down c n h))) = n \<and>
         mset (zip (fst (sift_down c n h)) (fst (snd (sift_down c n h)))) =
           mset (zip (fst h) (fst (snd h)))"
  using assms
proof (induction "n - c" arbitrary: c h rule: less_induct)
  case less
  obtain ss vs ts tv where h: "h = (ss, vs, ts, tv)" by (metis prod_cases4)
  have len: "length ss = n" "length vs = n" using less.prems h by auto
  show ?case
  proof (cases "down_child c n ss")
    case None
    then have "sift_down c n h = h" using sift_down_child[of c n h] h by simp
    moreover have "heap_ok ss"
      using down_ok_done less.prems(1) h down_child_None None len by (metis fst_conv)
    ultimately show ?thesis using less.prems h by simp
  next
    case (Some sp)
    note ch = down_child_Some[OF Some[folded len(1)]]
    obtain ss' vs' ts' tv' where w: "heap_swap sp c h = (ss', vs', ts', tv')"
      by (metis prod_cases4)
    have "c < length ss" "c < sp" using ch(1-3) by auto
    from heap_swap_props[OF _ ch(1) this(1) w[unfolded h]] len have
      s': "ss' = ss[sp := ss ! c, c := ss ! sp]" "length vs' = n"
      and m: "mset (zip ss' vs') = mset (zip ss vs)" by auto
    have "down_ok sp ss'"
      unfolding s' using down_ok_step[OF _ ch] less.prems(1) h by simp
    moreover have "sift_down c n h = sift_down sp n (ss', vs', ts', tv')"
      using sift_down_child[of c n h] Some w h by simp
    moreover have "n - sp < n - c" "length ss' = n" "sp < n"
      using ch(1) \<open>c < sp\<close> len s' by auto
    ultimately show ?thesis
      using less.hyps[of sp "(ss', vs', ts', tv')"] s' m h by simp
  qed
qed

section \<open>What the queue must hold\<close>

text \<open>\<open>S\<close> holds the \<open>k\<close> best of the pairs \<open>H\<close>: as many as there are, up to \<open>k\<close>, and none left out
  that beats one kept.\<close>

definition keeps_best :: "nat \<Rightarrow> ('s::linorder \<times> 'v) multiset \<Rightarrow> ('s \<times> 'v) multiset \<Rightarrow> bool" where
  "keeps_best k S H \<longleftrightarrow>
     S \<subseteq># H \<and> size S = min k (size H) \<and> (\<forall>p \<in># S. \<forall>h \<in># H - S. fst h \<le> fst p)"

lemma keeps_best_all: "keeps_best k S H \<Longrightarrow> size S < k \<Longrightarrow> S = H"
  unfolding keeps_best_def by (metis min_less_iff_conj min.absorb_iff2 mset_subset_size
      nless_le subset_mset.le_less order.strict_iff_not not_le min_def)

lemma keeps_best_add:
  assumes "keeps_best k S H" and "size S < k"
  shows "keeps_best k (add_mset p S) (add_mset p H)"
  using keeps_best_all[OF assms] assms(2) by (simp add: keeps_best_def)

lemma keeps_best_drop:
  assumes "keeps_best k S H" and "size S = k" and "\<forall>q \<in># S. fst p \<le> fst q"
  shows "keeps_best k S (add_mset p H)"
proof -
  have sub: "S \<subseteq># H" using assms(1) by (simp add: keeps_best_def)
  then have "add_mset p H - S = add_mset p (H - S)"
    by (metis add_mset_add_single multiset_diff_union_assoc union_commute)
  moreover have "S \<subseteq># add_mset p H"
    using sub by (metis add_mset_add_single mset_subset_eq_add_left subset_mset.order_trans)
  moreover have "k \<le> size H"
    using assms(1,2) by (auto simp: keeps_best_def min_def split: if_splits)
  ultimately show ?thesis
    using assms unfolding keeps_best_def by auto
qed

lemma keeps_best_replace:
  assumes kb: "keeps_best k S H" and sz: "size S = k" and k: "0 < k"
    and m: "m \<in># add_mset p S" "\<forall>q \<in># add_mset p S. fst m \<le> fst q"
    and s0: "s0 \<in># S" "fst s0 \<le> fst p"
  shows "keeps_best k (add_mset p S - {#m#}) (add_mset p H)"
proof -
  define T where "T = add_mset p S - {#m#}"
  have sub: "S \<subseteq># H" and best: "\<And>a h. a \<in># S \<Longrightarrow> h \<in># H - S \<Longrightarrow> fst h \<le> fst a"
    and szH: "size S = min k (size H)"
    using kb by (auto simp: keeps_best_def)
  have PT: "add_mset p S = add_mset m T" using m(1) by (simp add: T_def)
  have "add_mset p H = add_mset p S + (H - S)" using sub by simp
  then have H: "add_mset p H = T + add_mset m (H - S)" using PT by simp
  have "fst h \<le> fst a" if a: "a \<in># T" and h: "h \<in># add_mset m (H - S)" for a h
  proof (cases "h = m")
    case True
    with a m(2) PT show ?thesis by auto
  next
    case False
    with h have hS: "h \<in># H - S" by auto
    have "a \<in># add_mset p S" using a PT by auto
    then consider "a = p" | "a \<in># S" by auto
    then show ?thesis
    proof cases
      case 1
      from best[OF s0(1) hS] s0(2) have "fst h \<le> fst p" by (rule order_trans)
      with 1 show ?thesis by simp
    qed (rule best[OF _ hS])
  qed
  moreover have "size T = k" using PT sz by (metis add_left_cancel plus_1_eq_Suc size_add_mset)
  moreover have "k \<le> size H" using sz szH by (auto simp: min_def split: if_splits)
  ultimately show ?thesis
    unfolding T_def[symmetric] keeps_best_def by (simp add: H)
qed

lemma heap_root_least:
  "heap_ok ss \<Longrightarrow> i < length ss \<Longrightarrow> ss ! 0 \<le> ss ! i"
proof (induction i rule: less_induct)
  case (less i)
  show ?case
  proof (cases "i = 0")
    case False
    then have "(i - 1) div 2 < i" by auto
    with less have "ss ! 0 \<le> ss ! ((i - 1) div 2)" by auto
    also have "\<dots> \<le> ss ! i" using less.prems False unfolding heap_ok_def by blast
    finally show ?thesis .
  qed simp
qed

lemma store_elems_ok:
  assumes "vec_inv v" and "length xs = length (vec_elems v)"
  shows "vec_inv (store_elems xs v) \<and> vec_elems (store_elems xs v) = xs"
proof -
  have "length (vec_elems v) = usedSlots (myArray v)"
    using assms(1) by (simp add: vec_elems_def vec_inv_def length_arr_elems)
  with assms show ?thesis
    by (auto simp: store_elems_def vec_inv_def vec_elems_def arr_inv_def arr_elems_def nth_append)
qed

lemma vec_pop_back_elems:
  assumes "vec_inv v"
  obtains v' where "vec_pop_back v = Inr v'" "vec_inv v'" "vec_elems v' = butlast (vec_elems v)"
  using vec.pop_ok[OF assms] by blast

lemma mset_drop_root:
  assumes "1 < length z"
  shows "mset (butlast (z[0 := z ! (length z - 1)])) = mset z - {#z ! 0#}"
proof -
  obtain x ys y where z: "z = x # ys @ [y]"
    using assms by (cases z; cases "tl z" rule: rev_cases) auto
  have "z ! (length z - 1) = y" using z by (simp add: nth_append)
  then show ?thesis using z by (simp add: butlast_append)
qed

lemma zip_butlast: "length xs = length ys \<Longrightarrow> zip (butlast xs) (butlast ys) = butlast (zip xs ys)"
  by (simp add: butlast_conv_take take_zip)

lemma down_ok_root:
  assumes "heap_ok ss"
  shows "down_ok 0 (butlast (ss[0 := x]))"
  unfolding down_ok_def
proof (intro conjI allI impI)
  fix i
  assume i: "i < length (butlast (ss[0 := x]))" and h: "0 < i \<and> (i - 1) div 2 \<noteq> 0"
  then have "ss ! ((i - 1) div 2) \<le> ss ! i" using assms unfolding heap_ok_def by auto
  moreover have "(i - 1) div 2 < length (butlast (ss[0 := x]))" using i by auto
  ultimately show "butlast (ss[0 := x]) ! ((i - 1) div 2) \<le> butlast (ss[0 := x]) ! i"
    using i h by (simp add: nth_butlast)
qed auto

section \<open>Representation\<close>

definition topk_pairs :: "('s, 'v) topk \<Rightarrow> ('s \<times> 'v) list" where
  "topk_pairs q =
     (if isEmpty q then []
      else (case (allScores q, allValues q) of
              (Some sv, Some vv) \<Rightarrow> zip (vec_elems sv) (vec_elems vv)
            | _ \<Rightarrow> [(tempScore q, tempValue q)]))"

definition vectors_ok :: "'s::linorder vec \<Rightarrow> 'v vec \<Rightarrow> bool" where
  "vectors_ok sv vv \<longleftrightarrow>
     vec_inv sv \<and> vec_inv vv \<and> length (vec_elems sv) = length (vec_elems vv) \<and>
     vec_elems sv \<noteq> [] \<and> heap_ok (vec_elems sv)"

definition topk_inv :: "('s::linorder, 'v) topk \<Rightarrow> bool" where
  "topk_inv q \<longleftrightarrow>
     (case allScores q of
        None \<Rightarrow> allValues q = None
      | Some sv \<Rightarrow> \<not> isEmpty q \<and> (\<exists>vv. allValues q = Some vv \<and> vectors_ok sv vv))"

definition topk_represents :: "('s::linorder, 'v) topk \<Rightarrow> ('s \<times> 'v) multiset \<Rightarrow> bool" where
  "topk_represents q H \<longleftrightarrow> topk_inv q \<and> keeps_best (limitK q) (mset (topk_pairs q)) H"

lemma topk_settle_spec:
  assumes sv: "vec_inv sv" and vv: "vec_inv vv"
    and len: "length (vec_elems sv) = n" "length (vec_elems vv) = n" "1 < n"
    and up: "up_ok (n - 1) (vec_elems sv)"
  shows "\<exists>q' sv' vv'. topk_settle q sv vv = (q', None) \<and> allScores q' = Some sv' \<and>
     allValues q' = Some vv' \<and> isEmpty q' = isEmpty q \<and> limitK q' = limitK q \<and>
     vectors_ok sv' vv' \<and>
     (if n \<le> limitK q
      then mset (zip (vec_elems sv') (vec_elems vv')) = mset (zip (vec_elems sv) (vec_elems vv))
      else \<exists>m \<in># mset (zip (vec_elems sv) (vec_elems vv)).
             (\<forall>p \<in># mset (zip (vec_elems sv) (vec_elems vv)). fst m \<le> fst p) \<and>
             mset (zip (vec_elems sv') (vec_elems vv')) =
               mset (zip (vec_elems sv) (vec_elems vv)) - {#m#})"
proof -
  define h0 where "h0 = (vec_elems sv, vec_elems vv, tempScore q, tempValue q)"
  obtain ss vs ts tv where h: "sift_up (n - 1) h0 = (ss, vs, ts, tv)" by (metis prod_cases4)
  have size: "vec_size sv = n" using sv len by (simp add: vec_size_elems)
  from sift_up_spec[of "n - 1" h0] up len h
  have hs: "heap_ok ss" "length ss = n" "length vs = n"
    and m: "mset (zip ss vs) = mset (zip (vec_elems sv) (vec_elems vv))"
    by (auto simp: h0_def)
  show ?thesis
  proof (cases "n \<le> limitK q")
    case True
    have "topk_settle q sv vv = (topk_put q sv vv (ss, vs, ts, tv), None)"
      using True size h by (simp add: topk_settle_def h0_def Let_def)
    moreover have "vectors_ok (store_elems ss sv) (store_elems vs vv)"
      using store_elems_ok[OF sv, of ss] store_elems_ok[OF vv, of vs] hs len
      by (auto simp: vectors_ok_def)
    ultimately show ?thesis
      using True m store_elems_ok[OF sv, of ss] store_elems_ok[OF vv, of vs] hs len
      by (simp add: topk_put_def)
  next
    case False
    define z where "z = zip ss vs"
    have z: "length z = n" "z ! 0 = (ss ! 0, vs ! 0)" "z ! (n - 1) = (ss ! (n - 1), vs ! (n - 1))"
      using hs len by (auto simp: z_def)
    define ss1 vs1 where "ss1 = ss[0 := ss ! (n - 1)]" and "vs1 = vs[0 := vs ! (n - 1)]"
    have st: "vec_inv (store_elems ss1 sv)" "vec_elems (store_elems ss1 sv) = ss1"
             "vec_inv (store_elems vs1 vv)" "vec_elems (store_elems vs1 vv) = vs1"
      using store_elems_ok[OF sv, of ss1] store_elems_ok[OF vv, of vs1] hs len
      by (auto simp: ss1_def vs1_def)
    obtain sv2 where sv2: "vec_pop_back (store_elems ss1 sv) = Inr sv2" "vec_inv sv2"
      "vec_elems sv2 = butlast ss1" using vec_pop_back_elems[OF st(1)] st(2) by metis
    obtain vv2 where vv2: "vec_pop_back (store_elems vs1 vv) = Inr vv2" "vec_inv vv2"
      "vec_elems vv2 = butlast vs1" using vec_pop_back_elems[OF st(3)] st(4) by metis
    have l2: "length (butlast ss1) = n - 1" "length (butlast vs1) = n - 1"
      using hs by (simp_all add: ss1_def vs1_def)
    obtain ss3 vs3 ts3 tv3 where
      h3: "sift_down 0 (n - 1) (butlast ss1, butlast vs1, ts, tv) = (ss3, vs3, ts3, tv3)"
      by (metis prod_cases4)
    have down: "down_ok 0 (butlast ss1)" unfolding ss1_def using hs(1) by (rule down_ok_root)
    from sift_down_spec[of 0 "(butlast ss1, butlast vs1, ts, tv)" "n - 1"] down l2 len(3) h3
    have hs3: "heap_ok ss3" "length ss3 = n - 1" "length vs3 = n - 1"
      and m3: "mset (zip ss3 vs3) = mset (zip (butlast ss1) (butlast vs1))"
      by auto
    have "zip (butlast ss1) (butlast vs1) = butlast (z[0 := z ! (n - 1)])"
      using hs z(3) by (simp add: zip_butlast ss1_def vs1_def z_def update_zip)
    then have m4: "mset (zip ss3 vs3) = mset z - {#z ! 0#}"
      using mset_drop_root[of z] z len(3) m3 by simp
    have run: "topk_settle q sv vv = (topk_put q sv2 vv2 (ss3, vs3, ts3, tv3), None)"
      using False size h sv2 vv2 h3 l2
      by (simp add: topk_settle_def h0_def Let_def ss1_def vs1_def vec_size_elems)
    have st3: "vec_inv (store_elems ss3 sv2)" "vec_elems (store_elems ss3 sv2) = ss3"
              "vec_inv (store_elems vs3 vv2)" "vec_elems (store_elems vs3 vv2) = vs3"
      using store_elems_ok[OF sv2(2), of ss3] store_elems_ok[OF vv2(2), of vs3] sv2 vv2 hs3 l2
      by auto
    have least: "fst (z ! 0) \<le> fst p" if "p \<in> set z" for p
      using that hs heap_root_least[OF hs(1)] z(2)
      by (auto simp: z_def in_set_zip) metis
    have zs: "set (zip (vec_elems sv) (vec_elems vv)) = set z"
      using m by (metis z_def mset_eq_setD)
    have "z ! 0 \<in> set z" using z len(3) by (intro nth_mem) simp
    moreover have "vectors_ok (store_elems ss3 sv2) (store_elems vs3 vv2)"
      using st3 hs3 len(3) by (auto simp: vectors_ok_def)
    ultimately show ?thesis
      using run st3 m4 m False least zs
      by (auto simp: topk_put_def z_def[symmetric] intro!: bexI[of _ "z ! 0"])
  qed
qed

lemma vec_push_back_room_cases:
  assumes "vec_inv v" and "length (vec_elems v) < 2 ^ 31"
  shows "(vec_push_back room v x = Inl NotEnoughSpace \<and> (\<exists>n. \<not> room n)) \<or>
         (\<exists>v'. vec_push_back room v x = Inr v' \<and> vec_inv v' \<and> vec_elems v' = vec_elems v @ [x])"
  using vec.push_cases[OF assms, of room x] vec_push_back_room[of v room x] assms
  by (auto simp: vec_size_elems)

lemma up_ok_snoc:
  assumes "heap_ok ss"
  shows "up_ok (length ss) (ss @ [x])"
  unfolding up_ok_def
proof (intro conjI allI impI)
  fix i
  assume "i < length (ss @ [x])" and "0 < i \<and> i \<noteq> length ss"
  then have i: "i < length ss" "0 < i" "(i - 1) div 2 < length ss" by auto
  then show "(ss @ [x]) ! ((i - 1) div 2) \<le> (ss @ [x]) ! i"
    using assms by (simp add: heap_ok_def nth_append del: One_nat_def)
next
  fix i
  assume i: "i < length (ss @ [x])" and c: "0 < i \<and> (i - 1) div 2 = length ss \<and> 0 < length ss"
  then have "(i - 1) div 2 < length ss" by auto
  with c show "(ss @ [x]) ! ((length ss - 1) div 2) \<le> (ss @ [x]) ! i" by simp
qed

lemma topk_insert_vec_spec:
  assumes q: "allScores q = Some sv" "allValues q = Some vv" "\<not> isEmpty q"
    and ok: "vectors_ok sv vv" and small: "length (vec_elems sv) < 2 ^ 31"
    and kb: "keeps_best (limitK q) (mset (zip (vec_elems sv) (vec_elems vv))) H"
    and k: "0 < limitK q"
  shows "\<exists>q' err. topk_insert_vec roomS roomV s v q = (q', err) \<and>
           (err = None \<longrightarrow> topk_represents q' (add_mset (s, v) H) \<and> limitK q' = limitK q) \<and>
           ((\<forall>n. roomS n) \<and> (\<forall>n. roomV n) \<longrightarrow> err = None)"
proof -
  define ss vs where "ss = vec_elems sv" and "vs = vec_elems vv"
  define S where "S = mset (zip ss vs)"
  have inv: "vec_inv sv" "vec_inv vv" "length vs = length ss" "ss \<noteq> []" "heap_ok ss"
    using ok by (auto simp: vectors_ok_def ss_def vs_def)
  have szS: "size S = length ss" and get0: "vec_get sv 0 = Inr (ss ! 0)"
    and len: "vec_size sv = length ss"
    using inv by (auto simp: S_def vec_get_elems vec_size_elems ss_def)
  have least: "ss ! 0 \<le> fst p" if "p \<in># S" for p
  proof -
    from that obtain i where "i < length ss" "p = (ss ! i, vs ! i)"
      by (auto simp: S_def in_set_zip prod_eq_iff)
    with heap_root_least[OF inv(5)] show ?thesis by simp
  qed
  have kb: "keeps_best (limitK q) S H" using kb by (simp add: S_def ss_def vs_def)
  show ?thesis
  proof (cases "s < ss ! 0 \<and> limitK q \<le> length ss")
    case True
    have "size S \<le> limitK q" using kb by (simp add: keeps_best_def)
    with True szS have "size S = limitK q" by simp
    moreover have "\<forall>p \<in># S. fst (s, v) \<le> fst p"
      using least True by (metis fst_conv less_le_trans order.strict_implies_order)
    ultimately have "keeps_best (limitK q) S (add_mset (s, v) H)" by (rule keeps_best_drop[OF kb])
    with True q ok get0 len show ?thesis
      by (auto simp: topk_insert_vec_def topk_represents_def topk_inv_def topk_pairs_def
          S_def ss_def vs_def)
  next
    case False
    have run: "topk_insert_vec roomS roomV s v q =
       (case vec_push_back roomS sv s of
          Inl e \<Rightarrow> (q, Some e)
        | Inr sv' \<Rightarrow>
            (case vec_push_back roomV vv v of
               Inl e \<Rightarrow> (q\<lparr>allScores := Some sv'\<rparr>, Some e)
             | Inr vv' \<Rightarrow> topk_settle q sv' vv'))"
      using False q get0 len by (auto simp: topk_insert_vec_def)
    have smallv: "length (vec_elems vv) < 2 ^ 31" using small inv by (simp add: ss_def vs_def)
    consider (fault) "vec_push_back roomS sv s = Inl NotEnoughSpace" "\<exists>n. \<not> roomS n"
      | (pushed) sv' where "vec_push_back roomS sv s = Inr sv'" "vec_inv sv'"
          "vec_elems sv' = vec_elems sv @ [s]"
      using vec_push_back_room_cases[OF inv(1) small] by blast
    then show ?thesis
    proof cases
      case fault
      then show ?thesis using run by auto
    next
      case s': (pushed sv')
      consider (fault) "vec_push_back roomV vv v = Inl NotEnoughSpace" "\<exists>n. \<not> roomV n"
        | (pushed) vv' where "vec_push_back roomV vv v = Inr vv'" "vec_inv vv'"
            "vec_elems vv' = vec_elems vv @ [v]"
        using vec_push_back_room_cases[OF inv(2) smallv] by blast
      then show ?thesis
      proof cases
        case fault
        then show ?thesis using run s' by auto
      next
        case v': (pushed vv')
        have elems: "vec_elems sv' = ss @ [s]" "vec_elems vv' = vs @ [v]"
          using s' v' by (auto simp: ss_def vs_def)
        define n where "n = Suc (length ss)"
        have up: "up_ok (n - 1) (vec_elems sv')"
          using up_ok_snoc[OF inv(5)] elems by (simp add: n_def)
        have len': "length (vec_elems sv') = n" "length (vec_elems vv') = n" "1 < n"
          using elems inv by (auto simp: n_def)
        have Z: "mset (zip (vec_elems sv') (vec_elems vv')) = add_mset (s, v) S"
          using elems inv by (simp add: S_def)
        obtain q' sv2 vv2 where
          settle: "topk_settle q sv' vv' = (q', None)" and q': "allScores q' = Some sv2"
            "allValues q' = Some vv2" "isEmpty q' = isEmpty q" "limitK q' = limitK q"
            "vectors_ok sv2 vv2"
          and Z': "if n \<le> limitK q
             then mset (zip (vec_elems sv2) (vec_elems vv2)) = add_mset (s, v) S
             else \<exists>m \<in># add_mset (s, v) S. (\<forall>p \<in># add_mset (s, v) S. fst m \<le> fst p) \<and>
                    mset (zip (vec_elems sv2) (vec_elems vv2)) = add_mset (s, v) S - {#m#}"
          using topk_settle_spec[OF s'(2) v'(2) len' up, of q, unfolded Z] by blast
        have "keeps_best (limitK q) (mset (zip (vec_elems sv2) (vec_elems vv2))) (add_mset (s, v) H)"
        proof (cases "n \<le> limitK q")
          case True
          with Z' keeps_best_add[OF kb] szS show ?thesis by (simp add: n_def)
        next
          case full: False
          have sz: "size S = limitK q"
            using kb full szS by (auto simp: keeps_best_def n_def)
          have root: "(ss ! 0, vs ! 0) \<in># S" "fst (ss ! 0, vs ! 0) \<le> fst (s, v)"
            using inv False full by (auto simp: S_def n_def in_set_zip not_less)
          obtain m where m: "m \<in># add_mset (s, v) S" "\<forall>p \<in># add_mset (s, v) S. fst m \<le> fst p"
            and eq: "mset (zip (vec_elems sv2) (vec_elems vv2)) = add_mset (s, v) S - {#m#}"
            using Z' unfolding if_not_P[OF full] by blast
          show ?thesis unfolding eq by (rule keeps_best_replace[OF kb sz k m root])
        qed
        with run s' v' settle q' q(3) show ?thesis
          by (auto simp: topk_represents_def topk_inv_def topk_pairs_def)
      qed
    qed
  qed
qed

lemma topk_make_vectors_spec:
  assumes "topk_make_vectors roomS roomV q = (q', err)" and "allScores q = None"
    and "allValues q = None"
  shows "(err = None \<longrightarrow> (\<exists>sv vv. allScores q' = Some sv \<and> allValues q' = Some vv \<and>
            vectors_ok sv vv \<and> vec_elems sv = [tempScore q] \<and> vec_elems vv = [tempValue q]) \<and>
            isEmpty q' = isEmpty q \<and> limitK q' = limitK q) \<and>
         ((\<forall>n. roomS n) \<and> (\<forall>n. roomV n) \<longrightarrow> err = None)"
proof -
  have push: "(\<exists>w. vec_push_back room v x = Inr w \<and> vec_inv w \<and> vec_elems w = [x]) \<or>
      (\<exists>n. \<not> room n)"
    if "vec_new room = Inr v" for room and v :: "'z vec" and x
    using vec_push_back_room_cases[of v room x] vec_inv_new[OF that] by auto
  have single: "vectors_ok sv vv"
    if "vec_inv sv" "vec_inv vv" "vec_elems sv = [x]" "vec_elems vv = [y]"
    for sv :: "'a vec" and vv :: "'b vec" and x y
    using that by (auto simp: vectors_ok_def heap_ok_def)
  have inv: "vec_inv w \<and> vec_elems w = [x]"
    if "vec_new room = Inr v" "vec_push_back room v x = Inr w" for room and v w :: "'z vec" and x
    using vec_push_back_room_cases[of v room x] vec_inv_new[OF that(1)] that(2) by auto
  show ?thesis
    using assms push[of roomS _ "tempScore q"] push[of roomV _ "tempValue q"] single
      inv[of roomS _ "tempScore q"] inv[of roomV _ "tempValue q"]
    by (fastforce simp: topk_make_vectors_def vec_new_def split: sum.splits if_splits)
qed

lemma topk_insert_spec:
  assumes rep: "topk_represents q H" and k: "0 < limitK q" and small: "size H < 2 ^ 31"
  shows "\<exists>q' err. topk_insert roomS roomV s v q = (q', err) \<and>
           (err = None \<longrightarrow> topk_represents q' (add_mset (s, v) H) \<and> limitK q' = limitK q) \<and>
           ((\<forall>n. roomS n) \<and> (\<forall>n. roomV n) \<longrightarrow> err = None)"
proof -
  have inv: "topk_inv q" and kb: "keeps_best (limitK q) (mset (topk_pairs q)) H"
    using rep by (auto simp: topk_represents_def)
  have szle: "length (topk_pairs q) < 2 ^ 31"
    using kb small by (auto simp: keeps_best_def)
  show ?thesis
  proof (cases "isEmpty q")
    case True
    then have "keeps_best (limitK q) {#(s, v)#} (add_mset (s, v) H)"
      using keeps_best_add[OF kb] k by (simp add: topk_pairs_def)
    with True inv show ?thesis
      by (auto simp: topk_insert_def topk_represents_def topk_inv_def topk_pairs_def
          split: option.splits)
  next
    case ne: False
    show ?thesis
    proof (cases "allScores q")
      case None
      then have nv: "allValues q = None" using inv by (simp add: topk_inv_def)
      obtain q1 err1 where mk: "topk_make_vectors roomS roomV q = (q1, err1)" by fastforce
      from topk_make_vectors_spec[OF mk None nv] have
        tot: "(\<forall>n. roomS n) \<and> (\<forall>n. roomV n) \<Longrightarrow> err1 = None"
        and ok: "err1 = None \<Longrightarrow> \<exists>sv vv. allScores q1 = Some sv \<and> allValues q1 = Some vv \<and>
            vectors_ok sv vv \<and> vec_elems sv = [tempScore q] \<and> vec_elems vv = [tempValue q] \<and>
            isEmpty q1 = isEmpty q \<and> limitK q1 = limitK q"
        by auto
      show ?thesis
      proof (cases err1)
        case (Some e)
        with tot mk ne None show ?thesis by (auto simp: topk_insert_def)
      next
        case e: None
        from ok[OF this] obtain sv vv where v: "allScores q1 = Some sv" "allValues q1 = Some vv"
          "vectors_ok sv vv" "vec_elems sv = [tempScore q]" "vec_elems vv = [tempValue q]"
          "isEmpty q1 = isEmpty q" "limitK q1 = limitK q" by blast
        have "mset (topk_pairs q) = mset (zip (vec_elems sv) (vec_elems vv))"
          using ne None v by (simp add: topk_pairs_def)
        with topk_insert_vec_spec[OF v(1,2) _ v(3), of H roomS roomV s v] kb k ne v None e mk
        show ?thesis by (auto simp: topk_insert_def)
      qed
    next
      case (Some sv)
      with inv obtain vv where vv: "allValues q = Some vv" "vectors_ok sv vv"
        by (auto simp: topk_inv_def)
      then have p: "topk_pairs q = zip (vec_elems sv) (vec_elems vv)"
        using Some ne by (simp add: topk_pairs_def)
      have "length (vec_elems sv) < 2 ^ 31"
        using szle vv(2) unfolding p vectors_ok_def by simp
      with topk_insert_vec_spec[OF Some vv(1) ne vv(2)] kb k p Some ne show ?thesis
        by (simp add: topk_insert_def)
    qed
  qed
qed

lemma topk_insert_all_spec:
  assumes "topk_represents q H" and "0 < limitK q" and "size H + length ps < 2 ^ 31"
  shows "\<exists>q' err. topk_insert_all roomS roomV ps q = (q', err) \<and>
           (err = None \<longrightarrow> topk_represents q' (H + mset ps) \<and> limitK q' = limitK q) \<and>
           ((\<forall>n. roomS n) \<and> (\<forall>n. roomV n) \<longrightarrow> err = None)"
  using assms
proof (induction ps arbitrary: q H)
  case Nil
  then show ?case by simp
next
  case (Cons p ps)
  obtain s v where p: "p = (s, v)" by fastforce
  from Cons.prems have small: "size H < 2 ^ 31" by simp
  from topk_insert_spec[OF Cons.prems(1,2) small, of roomS roomV s v] obtain q1 err1 where
    q1: "topk_insert roomS roomV s v q = (q1, err1)"
      "err1 = None \<longrightarrow> topk_represents q1 (add_mset (s, v) H) \<and> limitK q1 = limitK q"
      "(\<forall>n. roomS n) \<and> (\<forall>n. roomV n) \<longrightarrow> err1 = None" by blast
  show ?case
  proof (cases err1)
    case (Some e)
    with q1 p show ?thesis by auto
  next
    case None
    with q1 Cons.IH[of q1 "add_mset (s, v) H"] Cons.prems p show ?thesis by auto
  qed
qed

section \<open>Merging\<close>

lemma keeps_best_merge:
  assumes a: "keeps_best k S (H1 + S2)" and b: "keeps_best k2 S2 H2" and k: "k \<le> k2"
  shows "keeps_best k S (H1 + H2)"
proof -
  have sub2: "S2 \<subseteq># H2" and sub: "S \<subseteq># H1 + S2" and sz2: "size S2 = min k2 (size H2)"
    and sz: "size S = min k (size (H1 + S2))"
    and best2: "\<And>p h. p \<in># S2 \<Longrightarrow> h \<in># H2 - S2 \<Longrightarrow> fst h \<le> fst p"
    and best: "\<And>p h. p \<in># S \<Longrightarrow> h \<in># H1 + S2 - S \<Longrightarrow> fst h \<le> fst p"
    using a b by (auto simp: keeps_best_def)
  have split: "H1 + H2 - S = (H1 + S2 - S) + (H2 - S2)"
  proof (rule multiset_eqI)
    fix x
    show "count (H1 + H2 - S) x = count (H1 + S2 - S + (H2 - S2)) x"
      using mset_subset_eq_count[OF sub, of x] mset_subset_eq_count[OF sub2, of x] by simp
  qed
  have "fst h \<le> fst p" if p: "p \<in># S" and h: "h \<in># H2 - S2" for p h
  proof (rule ccontr)
    assume "\<not> fst h \<le> fst p"
    then have lt: "fst p < fst h" by simp
    have "size H2 > size S2"
      using h size_Diff_submset[OF sub2] by (cases "H2 - S2") auto
    then have s2: "size S2 = k2" using sz2 by simp
    have "count S2 x \<le> count S x" for x
    proof (cases "x \<in># S2")
      case True
      have "x \<notin># H1 + S2 - S"
      proof
        assume "x \<in># H1 + S2 - S"
        then have "fst x \<le> fst p" using best[OF p] by blast
        with best2[OF True h] lt show False by auto
      qed
      then have "count (H1 + S2) x \<le> count S x" by (simp add: in_diff_count not_less)
      then show ?thesis by simp
    qed (simp add: not_in_iff)
    then have "S2 \<subseteq># S" by (simp add: mset_subset_eqI)
    moreover have "size S \<le> size S2" using sz s2 k by simp
    ultimately have "S2 = S"
      using mset_subset_size[of S2 S] by (auto simp: subset_mset.le_less)
    then have "fst h \<le> fst p" using best2[OF _ h, of p] p by simp
    with lt show False by simp
  qed
  with best split have "\<forall>p \<in># S. \<forall>h \<in># H1 + H2 - S. fst h \<le> fst p" by auto
  moreover have "S \<subseteq># H1 + H2"
    using sub subset_mset.add_left_mono[OF sub2, of H1] by (rule subset_mset.order_trans)
  moreover have "size S = min k (size (H1 + H2))"
    using sz sz2 k size_mset_mono[OF sub2] by auto
  ultimately show ?thesis by (simp add: keeps_best_def)
qed

lemma topk_pairs_represents_plus:
  assumes "topk_represents q2 H2" and "\<not> isEmpty q2"
  shows "topk_plus roomS roomV q q2 = topk_insert_all roomS roomV (topk_pairs q2) q"
  using assms
  by (auto simp: topk_plus_def topk_pairs_def topk_represents_def topk_inv_def
      split: option.splits prod.splits)

section \<open>Properties\<close>

text \<open>C21: whatever pairs are inserted into a new queue for \<open>k \<ge> 1\<close> pairs, in whatever order, an
  insertion sequence that throws nothing leaves the \<open>k\<close> best of them: the stored pairs are a
  sub-multiset of the inserted ones (each score still with its own value), there are
  \<open>min k n\<close> of them and no pair left out has a larger score than one kept. With room in the
  allocator the sequence throws nothing.\<close>

theorem topk_insert_all_keeps_best:
  assumes "0 < kIn" and "length ps < 2 ^ 31"
    and "topk_insert_all roomS roomV ps (topk_new kIn s0 v0) = (q, err)"
  shows "(err = None \<longrightarrow> topk_inv q \<and> keeps_best kIn (mset (topk_pairs q)) (mset ps)) \<and>
         ((\<forall>n. roomS n) \<and> (\<forall>n. roomV n) \<longrightarrow> err = None)"
proof -
  have "topk_represents (topk_new kIn s0 v0) {#}"
    by (simp add: topk_represents_def topk_new_def topk_inv_def topk_pairs_def keeps_best_def)
  moreover have "limitK (topk_new kIn s0 v0) = kIn" by (simp add: topk_new_def)
  ultimately show ?thesis
    using topk_insert_all_spec[of "topk_new kIn s0 v0" "{#}" ps roomS roomV] assms
    by (auto simp: topk_represents_def)
qed

theorem topk_insert_all_keeps_best_witness:
  "\<exists>q err. topk_insert_all (\<lambda>_. True) (\<lambda>_. True) [(3, ''c''), (1, ''a''), (2, ''b'')]
       (topk_new 2 (0::nat) []) = (q, err) \<and> err = None \<and>
     keeps_best 2 (mset (topk_pairs q)) (mset [(3, ''c''), (1, ''a''), (2, ''b'')])"
proof -
  obtain q err where run: "topk_insert_all (\<lambda>_. True) (\<lambda>_. True)
      [(3, ''c''), (1, ''a''), (2, ''b'')] (topk_new 2 (0::nat) []) = (q, err)" by fastforce
  from topk_insert_all_keeps_best[OF _ _ run] run show ?thesis by auto
qed

text \<open>Merging is sound: if the left queue holds the \<open>k\<close> best of \<open>H1\<close> and the right one the
  \<open>k2\<close> best of \<open>H2\<close>, with \<open>k \<le> k2\<close>, then \<open>operator+\<close> leaves the left queue with the \<open>k\<close> best of
  all of \<open>H1\<close> and \<open>H2\<close>, although the right queue has already forgotten part of \<open>H2\<close>.\<close>

theorem topk_plus_merges:
  assumes "topk_represents q H1" and "topk_represents q2 H2"
    and "0 < limitK q" and "limitK q \<le> limitK q2" and "size H1 + size H2 < 2 ^ 31"
    and "topk_plus roomS roomV q q2 = (q', None)"
  shows "topk_represents q' (H1 + H2)"
proof (cases "isEmpty q2")
  case True
  then have "H2 = {#}"
    using assms(2-4) by (auto simp: topk_represents_def topk_pairs_def keeps_best_def min_def
        split: if_splits)
  with True assms(1,6) show ?thesis by (simp add: topk_plus_def)
next
  case False
  have kb2: "keeps_best (limitK q2) (mset (topk_pairs q2)) H2"
    using assms(2) by (simp add: topk_represents_def)
  then have "length (topk_pairs q2) \<le> size H2" by (auto simp: keeps_best_def)
  then have small: "size H1 + length (topk_pairs q2) < 2 ^ 31" using assms(5) by linarith
  have "topk_insert_all roomS roomV (topk_pairs q2) q = (q', None)"
    using assms(6) topk_pairs_represents_plus[OF assms(2) False] by simp
  with topk_insert_all_spec[OF assms(1,3) small, of roomS roomV]
  have "topk_represents q' (H1 + mset (topk_pairs q2))" "limitK q' = limitK q" by auto
  with keeps_best_merge[OF _ kb2] assms(4) show ?thesis by (simp add: topk_represents_def)
qed

theorem topk_plus_merges_witness:
  "topk_represents
     (fst (topk_plus (\<lambda>_. True) (\<lambda>_. True) (topk_singleton 1 (5::nat) ''x'') (topk_singleton 1 7 ''y'')))
     {#(5, ''x''), (7, ''y'')#}"
proof -
  let ?q = "topk_singleton 1 (5::nat) ''x''" and ?q2 = "topk_singleton 1 (7::nat) ''y''"
  have reps: "topk_represents ?q {#(5, ''x'')#}" "topk_represents ?q2 {#(7, ''y'')#}"
    by (simp_all add: topk_represents_def topk_singleton_def topk_new_def topk_inv_def
        topk_pairs_def keeps_best_def)
  have k: "limitK ?q = 1" "limitK ?q2 = 1"
    by (simp_all add: topk_singleton_def topk_new_def)
  obtain q' err where run: "topk_plus (\<lambda>_. True) (\<lambda>_. True) ?q ?q2 = (q', err)" by fastforce
  have same: "topk_plus (\<lambda>_. True) (\<lambda>_. True) ?q ?q2 =
      topk_insert (\<lambda>_. True) (\<lambda>_. True) 7 ''y'' ?q"
    by (simp add: topk_plus_def topk_singleton_def topk_new_def)
  have "\<exists>r. topk_insert (\<lambda>_. True) (\<lambda>_. True) 7 ''y'' ?q = (r, None)"
    using topk_insert_spec[OF reps(1), of "\<lambda>_. True" "\<lambda>_. True" 7 "''y''"] k by auto
  then have "err = None" using run same by auto
  with run topk_plus_merges[OF reps, of "\<lambda>_. True" "\<lambda>_. True" q'] k show ?thesis
    by (simp add: add_mset_commute)
qed

end
