(* ===== verification/HashMaps.thy ===== *)
theory HashMaps
  imports Prelude
begin

text \<open>
  The object model's hash table: \<open>PairArray\<close> (\<open>PairArray.cc\<close>, open addressing with linear
  probing), \<open>Map\<close> (\<open>PDBMap.cc\<close>, which doubles the array when it is over-full) and the iterator
  over its entries, all under \<open>src/src/builtInPDBObjects/headers\<close>.

  A slot holds a hash word and, when that word is not \<open>UNUSED\<close>, a constructed key and value.
  What the key and value types and the allocator contribute is gathered in an environment: the key
  type's hash function, the default-constructed value, whether the allocator can serve an array of
  that many slots, and whether constructing a slot's key from the argument of \<open>operator[]\<close>
  (\<open>roomKey\<close>), from a key of the array being doubled (\<open>roomMove\<close>: that key is already in the
  allocation block) or copying its value (\<open>roomVal\<close>) into this array succeeds. An operation that can throw after changing the table returns the table together
  with its result.  The number of bytes of an array is a product of \<open>uint32_t\<close>; that it can wrap
  around for tables of billions of bytes is not modelled, \<open>roomArr\<close> decides on the number of slots.
\<close>

section \<open>PairArray\<close>

record ('k, 'v) slot =
  hashv :: nat
  pair :: "('k \<times> 'v) option"

record ('k, 'v) parray =
  paUsed :: nat
  paNum :: nat
  paMax :: nat
  paData :: "('k, 'v) slot list"

record ('k, 'v) menv =
  khash :: "'k \<Rightarrow> nat"
  freshVal :: 'v
  roomArr :: "nat \<Rightarrow> bool"
  roomKey :: "('k, 'v) parray \<Rightarrow> 'k \<Rightarrow> bool"
  roomMove :: "('k, 'v) parray \<Rightarrow> 'k \<Rightarrow> bool"
  roomVal :: "('k, 'v) parray \<Rightarrow> 'v \<Rightarrow> bool"

definition UNUSED :: nat where
  "UNUSED = 493295393"

definition unused_slot :: "('k, 'v) slot" where
  "unused_slot = \<lparr>hashv = UNUSED, pair = None\<rparr>"

text \<open>No hash value may equal the mark of an unused slot.\<close>

definition hasher :: "('k \<Rightarrow> nat) \<Rightarrow> 'k \<Rightarrow> nat" where
  "hasher hf k = (if hf k = UNUSED then 858931273 else hf k)"

text \<open>\<open>numSlotsIn * FILL_FACTOR\<close> truncated to \<open>uint32_t\<close>, with \<open>FILL_FACTOR\<close> \<open>.667\<close>: the double
  nearest to \<open>.667\<close> is not below it and the product of a \<open>uint32_t\<close> with it stays below the next
  integer, so the truncation is that of the exact product.\<close>

definition fill_limit :: "nat \<Rightarrow> nat" where
  "fill_limit n = n * 667 div 1000"

text \<open>The constructor looks for a power of two up to \<open>2 ^ 31\<close> that is at least the requested size.\<close>

fun got_power :: "nat \<Rightarrow> nat \<Rightarrow> nat \<Rightarrow> bool" where
  "got_power n val 0 = False"
| "got_power n val (Suc i) = (if n \<le> val then True else got_power n (u32 (val * 2)) i)"

definition pa_new :: "nat \<Rightarrow> ('k, 'v) parray outcome" where
  "pa_new n =
     (if \<not> got_power n 1 32 then Inl (FatalExit 1)
      else Inr \<lparr>paUsed = 0, paNum = n, paMax = fill_limit n, paData = replicate n unused_slot\<rparr>)"

definition pa_isOverFull :: "('k, 'v) parray \<Rightarrow> bool" where
  "pa_isOverFull pa \<longleftrightarrow> paMax pa \<le> paUsed pa"

definition pa_numUsedSlots :: "('k, 'v) parray \<Rightarrow> nat" where
  "pa_numUsedSlots pa = paUsed pa"

text \<open>The probe loop that \<open>count\<close>, \<open>setUnused\<close> and \<open>operator[]\<close> share: at most \<open>numSlots\<close> slots are
  looked at, wrapping at the end, until an unused slot or the key is found.\<close>

datatype probe_result = EmptySlot nat | FoundSlot nat | RanOff

fun probe ::
  "('k, 'v) slot list \<Rightarrow> nat \<Rightarrow> nat \<Rightarrow> 'k \<Rightarrow> nat \<Rightarrow> nat \<Rightarrow> probe_result outcome" where
  "probe d num hv me slot 0 = Inr RanOff"
| "probe d num hv me slot (Suc n) =
     (if slot < length d then
        (if hashv (d ! slot) = UNUSED then Inr (EmptySlot slot)
         else (case pair (d ! slot) of
                 None \<Rightarrow> Inl WildAccess
               | Some (k, v) \<Rightarrow>
                   if hashv (d ! slot) = hv \<and> k = me then Inr (FoundSlot slot)
                   else probe d num hv me (if slot = num - 1 then 0 else slot + 1) n))
      else Inl WildAccess)"

definition pa_probe :: "('k, 'v) menv \<Rightarrow> ('k, 'v) parray \<Rightarrow> 'k \<Rightarrow> probe_result outcome" where
  "pa_probe E pa me =
     (if paNum pa = 1 then Inl DivByZero
      else probe (paData pa) (paNum pa) (hasher (khash E) me) me
             (hasher (khash E) me mod u32 (paNum pa + 4294967295)) (paNum pa))"

definition pa_count :: "('k, 'v) menv \<Rightarrow> ('k, 'v) parray \<Rightarrow> 'k \<Rightarrow> nat outcome" where
  "pa_count E pa me =
     andThen (pa_probe E pa me)
       (\<lambda>r. Inr (case r of EmptySlot _ \<Rightarrow> 0 | FoundSlot _ \<Rightarrow> 1 | RanOff \<Rightarrow> 0))"

definition pa_setUnused :: "('k, 'v) menv \<Rightarrow> ('k, 'v) parray \<Rightarrow> 'k \<Rightarrow> ('k, 'v) parray outcome" where
  "pa_setUnused E pa me =
     andThen (pa_probe E pa me)
       (\<lambda>r. Inr (case r of
                   FoundSlot s \<Rightarrow> pa\<lparr>paData := (paData pa)[s := unused_slot]\<rparr>
                 | _ \<Rightarrow> pa))"

text \<open>\<open>operator[]\<close> returns a reference to the value; here, the number of the slot it is in. When
  the key copy throws, the slot's hash word is still \<open>UNUSED\<close>.\<close>

definition pa_index ::
  "('k, 'v) menv \<Rightarrow> ('k, 'v) parray \<Rightarrow> 'k \<Rightarrow> ('k, 'v) parray \<times> nat outcome" where
  "pa_index E pa me =
     (case pa_probe E pa me of
        Inl e \<Rightarrow> (pa, Inl e)
      | Inr RanOff \<Rightarrow> (pa, Inl (FatalExit 1))
      | Inr (FoundSlot s) \<Rightarrow> (pa, Inr s)
      | Inr (EmptySlot s) \<Rightarrow>
          if roomKey E pa me
          then (pa\<lparr>paData := (paData pa)[s := \<lparr>hashv = hasher (khash E) me, pair = Some (me, freshVal E)\<rparr>],
                   paUsed := u32 (paUsed pa + 1)\<rparr>, Inr s)
          else (pa, Inl NotEnoughSpace))"

definition pa_load :: "('k, 'v) parray \<Rightarrow> nat \<Rightarrow> 'v outcome" where
  "pa_load pa s =
     (if s < length (paData pa)
      then (case pair (paData pa ! s) of None \<Rightarrow> Inl WildAccess | Some (k, v) \<Rightarrow> Inr v)
      else Inl WildAccess)"

definition pa_store :: "('k, 'v) parray \<Rightarrow> nat \<Rightarrow> 'v \<Rightarrow> ('k, 'v) parray" where
  "pa_store pa s v =
     pa\<lparr>paData := (paData pa)[s := (paData pa ! s)
          \<lparr>pair := map_option (\<lambda>(k, _). (k, v)) (pair (paData pa ! s))\<rparr>]\<rparr>"

text \<open>The loop of \<open>doubleArray\<close>: every used slot is copied into the new array and then marked unused
  in the old one, so an exception leaves the entries copied so far in neither.\<close>

fun rehash_loop ::
  "('k, 'v) menv \<Rightarrow> nat \<Rightarrow> nat \<Rightarrow> ('k, 'v) parray \<Rightarrow> ('k, 'v) parray
     \<Rightarrow> ('k, 'v) parray \<times> ('k, 'v) parray outcome" where
  "rehash_loop E i 0 old new = (old, Inr new)"
| "rehash_loop E i (Suc n) old new =
     (if hashv (paData old ! i) \<noteq> UNUSED then
        (case pair (paData old ! i) of
           None \<Rightarrow> (old, Inl WildAccess)
         | Some (k, v) \<Rightarrow>
             (case pa_index (E\<lparr>roomKey := roomMove E\<rparr>) new k of
                (new', Inl e) \<Rightarrow> (old, Inl e)
              | (new', Inr s) \<Rightarrow>
                  if roomVal E new' v then
                    rehash_loop E (Suc i) n
                      (old\<lparr>paData := (paData old)[i := unused_slot]\<rparr>) (pa_store new' s v)
                  else (old, Inl NotEnoughSpace)))
      else rehash_loop E (Suc i) n old new)"

definition pa_doubleArray ::
  "('k, 'v) menv \<Rightarrow> ('k, 'v) parray \<Rightarrow> ('k, 'v) parray \<times> ('k, 'v) parray outcome" where
  "pa_doubleArray E pa =
     (let howMany = u32 (paNum pa * 2) in
      if \<not> roomArr E howMany then (pa, Inl NotEnoughSpace)
      else (case pa_new howMany of
              Inl e \<Rightarrow> (pa, Inl e)
            | Inr new \<Rightarrow> rehash_loop E 0 (paNum pa) pa new))"

text \<open>The deep copy. \<open>raw\<close> is what the target's storage happens to hold, \<open>room\<close> says whether the key and
  the value of that slot can be copied; when they cannot, the target's slots from there on are marked
  unused and its destructor is disabled (the boolean in the result).\<close>

fun pa_copy_loop ::
  "(('k, 'v) slot \<Rightarrow> bool) \<Rightarrow> nat \<Rightarrow> nat \<Rightarrow> ('k, 'v) slot list \<Rightarrow> ('k, 'v) slot list
     \<Rightarrow> ('k, 'v) slot list \<times> unit outcome" where
  "pa_copy_loop room i 0 src dst = (dst, Inr ())"
| "pa_copy_loop room i (Suc n) src dst =
     (if hashv (src ! i) = UNUSED
      then pa_copy_loop room (Suc i) n src (dst[i := unused_slot])
      else if room (src ! i)
      then pa_copy_loop room (Suc i) n src (dst[i := src ! i])
      else (take i dst @ replicate (Suc n) unused_slot, Inl NotEnoughSpace))"

definition pa_setUpAndCopyFrom ::
  "bool \<Rightarrow> (('k, 'v) slot \<Rightarrow> bool) \<Rightarrow> ('k, 'v) slot list \<Rightarrow> ('k, 'v) parray
     \<Rightarrow> ('k, 'v) parray \<times> bool \<times> unit outcome" where
  "pa_setUpAndCopyFrom primitive room raw src =
     (if primitive then (src, False, Inr ())
      else (case pa_copy_loop room 0 (paNum src) (paData src) raw of
              (d, r) \<Rightarrow> (src\<lparr>paData := d\<rparr>, r \<noteq> Inr (), r)))"

section \<open>Map\<close>

record ('k, 'v) pmap =
  mapArray :: "('k, 'v) parray"

definition map_new_sized :: "('k, 'v) menv \<Rightarrow> nat \<Rightarrow> ('k, 'v) pmap outcome" where
  "map_new_sized E initSize =
     (let n = (if initSize < 2 then 2 else initSize) in
      if \<not> roomArr E n then Inl NotEnoughSpace
      else andThen (pa_new n) (\<lambda>pa. Inr \<lparr>mapArray = pa\<rparr>))"

definition map_new :: "('k, 'v) menv \<Rightarrow> ('k, 'v) pmap outcome" where
  "map_new E =
     (if \<not> roomArr E 2 then Inl NotEnoughSpace else andThen (pa_new 2) (\<lambda>pa. Inr \<lparr>mapArray = pa\<rparr>))"

definition map_count :: "('k, 'v) menv \<Rightarrow> ('k, 'v) pmap \<Rightarrow> 'k \<Rightarrow> nat outcome" where
  "map_count E m k = pa_count E (mapArray m) k"

definition map_setUnused :: "('k, 'v) menv \<Rightarrow> ('k, 'v) pmap \<Rightarrow> 'k \<Rightarrow> ('k, 'v) pmap outcome" where
  "map_setUnused E m k = andThen (pa_setUnused E (mapArray m) k) (\<lambda>pa. Inr (m\<lparr>mapArray := pa\<rparr>))"

definition map_size :: "('k, 'v) pmap \<Rightarrow> nat" where
  "map_size m = pa_numUsedSlots (mapArray m)"

definition map_index ::
  "('k, 'v) menv \<Rightarrow> ('k, 'v) pmap \<Rightarrow> 'k \<Rightarrow> ('k, 'v) pmap \<times> nat outcome" where
  "map_index E m k =
     (case pa_count E (mapArray m) k of
        Inl e \<Rightarrow> (m, Inl e)
      | Inr c \<Rightarrow>
          if c = 0 \<and> pa_isOverFull (mapArray m) then
            (case pa_doubleArray E (mapArray m) of
               (old, Inl e) \<Rightarrow> (m\<lparr>mapArray := old\<rparr>, Inl e)
             | (old, Inr new) \<Rightarrow>
                 (case pa_index E new k of
                    (pa, r) \<Rightarrow> (m\<lparr>mapArray := pa\<rparr>, r)))
          else (case pa_index E (mapArray m) k of
                  (pa, r) \<Rightarrow> (m\<lparr>mapArray := pa\<rparr>, r)))"

definition map_load :: "('k, 'v) pmap \<Rightarrow> nat \<Rightarrow> 'v outcome" where
  "map_load m s = pa_load (mapArray m) s"

definition map_store :: "('k, 'v) pmap \<Rightarrow> nat \<Rightarrow> 'v \<Rightarrow> ('k, 'v) pmap" where
  "map_store m s v = m\<lparr>mapArray := pa_store (mapArray m) s v\<rparr>"

section \<open>Iterator\<close>

record map_iter =
  itSlot :: nat
  itDone :: bool

function iter_skip :: "('k, 'v) parray \<Rightarrow> nat \<Rightarrow> nat" where
  "iter_skip pa s =
     (if s < paNum pa \<and> hashv (paData pa ! s) = UNUSED then iter_skip pa (Suc s) else s)"
  by pat_completeness auto
termination by (relation "measure (\<lambda>(pa, s). paNum pa - s)") auto

declare iter_skip.simps [simp del]

definition iter_begin :: "('k, 'v) parray \<Rightarrow> map_iter" where
  "iter_begin pa = (let s = iter_skip pa 0 in \<lparr>itSlot = s, itDone = (s = paNum pa)\<rparr>)"

definition iter_next :: "('k, 'v) parray \<Rightarrow> map_iter \<Rightarrow> map_iter" where
  "iter_next pa it =
     (let s0 = (if itDone it then itSlot it else itSlot it + 1);
          s = iter_skip pa s0
      in \<lparr>itSlot = s, itDone = (itDone it \<or> s = paNum pa)\<rparr>)"

definition iter_deref :: "('k, 'v) parray \<Rightarrow> map_iter \<Rightarrow> ('k, 'v) slot outcome" where
  "iter_deref pa it =
     (if itSlot it < length (paData pa) then Inr (paData pa ! itSlot it) else Inl WildAccess)"

text \<open>The \<open>for\<close> loop from \<open>begin ()\<close> to \<open>end ()\<close>; \<open>n\<close> bounds the number of its rounds.\<close>

fun iter_collect :: "nat \<Rightarrow> ('k, 'v) parray \<Rightarrow> map_iter \<Rightarrow> ('k, 'v) slot list option" where
  "iter_collect n pa it =
     (if itDone it then Some []
      else (case n of
              0 \<Rightarrow> None
            | Suc n' \<Rightarrow>
                (case iter_deref pa it of
                   Inl e \<Rightarrow> None
                 | Inr sl \<Rightarrow> map_option ((#) sl) (iter_collect n' pa (iter_next pa it)))))"

section \<open>The table invariant\<close>

text \<open>\<open>startOf\<close> is the slot a probe starts at. A slot list is well formed for a hash function when
  each slot is unused or holds an entry under its hash, no key is held twice, and every entry is
  reachable: the slots from its start up to it, in cyclic order, are all in use.\<close>

definition startOf :: "('k, 'v) menv \<Rightarrow> nat \<Rightarrow> 'k \<Rightarrow> nat" where
  "startOf E n k = hasher (khash E) k mod (n - 1)"

definition holdsAt :: "('k, 'v) slot list \<Rightarrow> nat \<Rightarrow> 'k \<Rightarrow> 'v \<Rightarrow> bool" where
  "holdsAt d i k v \<longleftrightarrow> i < length d \<and> pair (d ! i) = Some (k, v)"

definition slot_ok :: "('k, 'v) menv \<Rightarrow> ('k, 'v) slot \<Rightarrow> bool" where
  "slot_ok E s \<longleftrightarrow>
     (case pair s of None \<Rightarrow> hashv s = UNUSED | Some p \<Rightarrow> hashv s = hasher (khash E) (fst p))"

definition slots_ok :: "('k, 'v) menv \<Rightarrow> ('k, 'v) slot list \<Rightarrow> bool" where
  "slots_ok E d \<longleftrightarrow> (\<forall>i < length d. slot_ok E (d ! i))"

definition keys_once :: "('k, 'v) slot list \<Rightarrow> bool" where
  "keys_once d \<longleftrightarrow> (\<forall>i j k v w. holdsAt d i k v \<longrightarrow> holdsAt d j k w \<longrightarrow> i = j)"

definition path_used :: "('k, 'v) slot list \<Rightarrow> nat \<Rightarrow> nat \<Rightarrow> bool" where
  "path_used d s n \<longleftrightarrow> (\<forall>m < n. pair (d ! ((s + m) mod length d)) \<noteq> None)"

definition reachable_slots :: "('k, 'v) menv \<Rightarrow> ('k, 'v) slot list \<Rightarrow> bool" where
  "reachable_slots E d \<longleftrightarrow> (\<forall>i k v. holdsAt d i k v \<longrightarrow>
     (\<exists>n < length d. i = (startOf E (length d) k + n) mod length d
        \<and> path_used d (startOf E (length d) k) n))"

definition used_set :: "('k, 'v) slot list \<Rightarrow> nat set" where
  "used_set d = {i. i < length d \<and> pair (d ! i) \<noteq> None}"

definition pa_inv :: "('k, 'v) menv \<Rightarrow> ('k, 'v) parray \<Rightarrow> bool" where
  "pa_inv E pa \<longleftrightarrow>
     length (paData pa) = paNum pa \<and> 2 \<le> paNum pa \<and> paNum pa \<le> 2 ^ 31
     \<and> paMax pa = fill_limit (paNum pa) \<and> card (used_set (paData pa)) \<le> paUsed pa
     \<and> paUsed pa \<le> paMax pa
     \<and> slots_ok E (paData pa) \<and> keys_once (paData pa) \<and> reachable_slots E (paData pa)"

text \<open>The contents of a table, as a finite map.\<close>

definition pa_entries :: "('k, 'v) parray \<Rightarrow> ('k \<times> 'v) list" where
  "pa_entries pa = List.map_filter pair (paData pa)"

definition pa_map :: "('k, 'v) parray \<Rightarrow> 'k \<Rightarrow> 'v option" where
  "pa_map pa = map_of (pa_entries pa)"

lemma hasher_not_UNUSED [simp]: "hasher h k \<noteq> UNUSED" "UNUSED \<noteq> hasher h k"
  by (simp_all add: hasher_def UNUSED_def)

lemma fill_limit_bounds:
  "n \<ge> 2 \<Longrightarrow> 0 < fill_limit n"
  "n \<ge> 2 \<Longrightarrow> fill_limit n < n"
  "n \<ge> 2 \<Longrightarrow> fill_limit n < fill_limit (2 * n)"
  unfolding fill_limit_def by linarith+

lemma holdsAt_less [dest]: "holdsAt d i k v \<Longrightarrow> i < length d"
  by (simp add: holdsAt_def)

lemma slots_ok_used:
  assumes "slots_ok E d" "i < length d"
  shows "hashv (d ! i) = UNUSED \<longleftrightarrow> pair (d ! i) = None"
  using assms by (cases "pair (d ! i)") (auto simp: slots_ok_def slot_ok_def dest!: spec[of _ i])

lemma slots_ok_hash:
  assumes "slots_ok E d" "i < length d" "pair (d ! i) = Some (k, v)"
  shows "hashv (d ! i) = hasher (khash E) k"
  using assms by (auto simp: slots_ok_def slot_ok_def split: option.splits dest!: spec[of _ i])

lemma finite_used_set [simp]: "finite (used_set d)"
  by (simp add: used_set_def)

lemma set_map_filter_pair: "(k, v) \<in> set (List.map_filter pair d) \<longleftrightarrow> (\<exists>i. holdsAt d i k v)"
  by (force simp: holdsAt_def in_set_conv_nth map_filter_def)

lemma distinct_entries:
  "keys_once d \<Longrightarrow> distinct (map fst (List.map_filter pair d))"
proof (induction d)
  case Nil
  then show ?case by (simp add: map_filter_def)
next
  case (Cons s d)
  have sh: "holdsAt (s # d) (Suc i) k v \<longleftrightarrow> holdsAt d i k v" for i k v
    by (simp add: holdsAt_def)
  have "keys_once d"
    using Cons.prems unfolding keys_once_def sh[symmetric] by blast
  then have IH: "distinct (map fst (List.map_filter pair d))" by (rule Cons.IH)
  show ?case
  proof (cases "pair s")
    case None
    with IH show ?thesis by (simp add: map_filter_simps)
  next
    case (Some p)
    obtain k v where p: "p = (k, v)" by (cases p)
    have "k \<notin> fst ` set (List.map_filter pair d)"
    proof
      assume "k \<in> fst ` set (List.map_filter pair d)"
      then obtain w i where "holdsAt d i k w"
        by (auto simp: set_map_filter_pair)
      then have "holdsAt (s # d) (Suc i) k w" by (simp add: sh)
      moreover have "holdsAt (s # d) 0 k v" using Some p by (simp add: holdsAt_def)
      ultimately show False using Cons.prems unfolding keys_once_def by blast
    qed
    with IH Some p show ?thesis by (simp add: map_filter_simps)
  qed
qed

lemma pa_map_iff:
  assumes "keys_once (paData pa)"
  shows "pa_map pa k = Some v \<longleftrightarrow> (\<exists>i. holdsAt (paData pa) i k v)"
  unfolding pa_map_def pa_entries_def set_map_filter_pair[symmetric]
  using distinct_entries[OF assms] by simp

lemma pa_map_None:
  assumes "keys_once (paData pa)"
  shows "pa_map pa k = None \<longleftrightarrow> (\<forall>i v. \<not> holdsAt (paData pa) i k v)"
  by (metis assms not_None_eq pa_map_iff)

lemma card_used_dom:
  assumes "keys_once (paData pa)"
  shows "card (dom (pa_map pa)) = card (used_set (paData pa))"
proof -
  let ?d = "paData pa"
  let ?f = "\<lambda>i. fst (the (pair (?d ! i)))"
  have "inj_on ?f (used_set ?d)"
    using assms unfolding inj_on_def keys_once_def used_set_def holdsAt_def by force
  moreover have "?f ` used_set ?d = dom (pa_map pa)"
  proof (intro subset_antisym subsetI)
    fix k assume "k \<in> ?f ` used_set ?d"
    then obtain i where i: "i < length ?d" "pair (?d ! i) \<noteq> None" "k = ?f i"
      by (auto simp: used_set_def)
    then have "holdsAt ?d i k (snd (the (pair (?d ! i))))" by (auto simp: holdsAt_def)
    then show "k \<in> dom (pa_map pa)" using pa_map_iff[OF assms] by blast
  next
    fix k assume "k \<in> dom (pa_map pa)"
    then obtain i v where "holdsAt ?d i k v" using pa_map_iff[OF assms] by blast
    then have "i \<in> used_set ?d" "?f i = k" by (auto simp: used_set_def holdsAt_def)
    then show "k \<in> ?f ` used_set ?d" by blast
  qed
  ultimately show ?thesis by (metis card_image)
qed

section \<open>Probing\<close>

lemma probe_run:
  assumes "slots_ok E d" "length d = num" "0 < num" "s < num" "t < n"
    and "\<forall>m < t. \<exists>k v. pair (d ! ((s + m) mod num)) = Some (k, v) \<and> k \<noteq> me"
  shows "pair (d ! ((s + t) mod num)) = None \<Longrightarrow>
           probe d num (hasher (khash E) me) me s n = Inr (EmptySlot ((s + t) mod num))"
    and "pair (d ! ((s + t) mod num)) = Some (me, v) \<Longrightarrow>
           probe d num (hasher (khash E) me) me s n = Inr (FoundSlot ((s + t) mod num))"
proof -
  have "(pair (d ! ((s + t) mod num)) = None \<longrightarrow>
           probe d num (hasher (khash E) me) me s n = Inr (EmptySlot ((s + t) mod num)))
      \<and> (pair (d ! ((s + t) mod num)) = Some (me, v) \<longrightarrow>
           probe d num (hasher (khash E) me) me s n = Inr (FoundSlot ((s + t) mod num)))"
    using assms
  proof (induction t arbitrary: s n)
    case 0
    then obtain n' where n: "n = Suc n'" by (cases n) auto
    have "hashv (d ! s) = UNUSED \<longleftrightarrow> pair (d ! s) = None"
      using slots_ok_used[OF 0(1), of s] 0(2,4) by simp
    moreover have "pair (d ! s) = Some (me, v) \<longrightarrow> hashv (d ! s) = hasher (khash E) me"
      using slots_ok_hash[OF 0(1), of s] 0(2,4) by simp
    moreover have "(s + 0) mod num = s" using 0(4) by simp
    ultimately show ?case using 0(2,4) n by (cases "pair (d ! s)") auto
  next
    case (Suc t)
    then obtain n' where n: "n = Suc n'" "t < n'" by (cases n) auto
    obtain k w where kw: "pair (d ! s) = Some (k, w)" "k \<noteq> me"
      using spec[OF Suc.prems(6), of 0] Suc.prems(4) by auto
    have nu: "hashv (d ! s) \<noteq> UNUSED"
      using kw(1) Suc.prems(2,4) slots_ok_used[OF Suc.prems(1), of s] by simp
    define s' where "s' = (if s = num - 1 then 0 else s + 1)"
    have s'_less: "s' < num" using Suc.prems(3,4) by (auto simp: s'_def)
    have step: "(s' + m) mod num = (s + Suc m) mod num" for m
    proof (cases "s = num - 1")
      case True
      then have "s + Suc m = num + m" "s' = 0" using Suc.prems(3) by (auto simp: s'_def)
      then show ?thesis by (simp only: add_0 mod_add_self1)
    qed (simp add: s'_def)
    have "\<forall>m < t. \<exists>k v. pair (d ! ((s' + m) mod num)) = Some (k, v) \<and> k \<noteq> me"
      unfolding step using Suc.prems(6) by blast
    note IH = Suc.IH[OF Suc.prems(1,2,3) s'_less n(2) this, unfolded step]
    have "probe d num (hasher (khash E) me) me s n = probe d num (hasher (khash E) me) me s' n'"
      using n kw nu Suc.prems(2,4) by (simp add: s'_def)
    then show ?case using IH by simp
  qed
  then show "pair (d ! ((s + t) mod num)) = None \<Longrightarrow>
           probe d num (hasher (khash E) me) me s n = Inr (EmptySlot ((s + t) mod num))"
    and "pair (d ! ((s + t) mod num)) = Some (me, v) \<Longrightarrow>
           probe d num (hasher (khash E) me) me s n = Inr (FoundSlot ((s + t) mod num))"
    by blast+
qed

lemma start_less: "2 \<le> n \<Longrightarrow> startOf E n k < n"
proof -
  assume "2 \<le> n"
  then have "hasher (khash E) k mod (n - 1) < n - 1" by (intro mod_less_divisor) simp
  then show "startOf E n k < n" by (simp add: startOf_def)
qed

lemma u32_pred: "2 \<le> n \<Longrightarrow> n \<le> 2 ^ 31 \<Longrightarrow> u32 (n + 4294967295) = n - 1"
  by (simp add: u32_def mod_if)

lemma pa_probe_eq:
  assumes "pa_inv E pa"
  shows "pa_probe E pa k =
    probe (paData pa) (paNum pa) (hasher (khash E) k) k (startOf E (paNum pa) k) (paNum pa)"
  using assms by (simp add: pa_probe_def pa_inv_def u32_pred startOf_def)

lemma cyclic_inj:
  assumes "(s + a) mod n = (s + b) mod n" "a < n" "b < (n::nat)"
  shows "a = b"
proof -
  have "x = y" if "(s + x) mod n = (s + y) mod n" "x \<le> y" "y < n" for x y :: nat
  proof -
    have "n dvd (s + y) - (s + x)"
      using that(1,2) by (metis add_le_cancel_left mod_eq_dvd_iff_nat)
    then have "n dvd y - x" by simp
    with that(2,3) show "x = y" using nat_dvd_not_less[of "y - x" n] by linarith
  qed
  then show ?thesis using assms by (metis le_cases)
qed

lemma probe_present:
  assumes inv: "pa_inv E pa" and h: "holdsAt (paData pa) i k v"
  shows "pa_probe E pa k = Inr (FoundSlot i)"
proof -
  let ?d = "paData pa" and ?N = "paNum pa" and ?s = "startOf E (paNum pa) k"
  have len: "length ?d = ?N" and N: "2 \<le> ?N" using inv by (auto simp: pa_inv_def)
  obtain n where n: "n < ?N" "i = (?s + n) mod ?N" and pth: "path_used ?d ?s n"
    using inv h by (metis pa_inv_def reachable_slots_def)
  have "\<exists>k' v'. pair (?d ! ((?s + m) mod ?N)) = Some (k', v') \<and> k' \<noteq> k" if "m < n" for m
  proof -
    let ?j = "(?s + m) mod ?N"
    have "pair (?d ! ?j) \<noteq> None" using pth that len by (simp add: path_used_def)
    then obtain k' v' where kv: "pair (?d ! ?j) = Some (k', v')" by auto
    have jl: "?j < length ?d" using len N by simp
    have "?j \<noteq> i" using cyclic_inj[of ?s m ?N n] that n by auto
    then have "k' \<noteq> k" using inv h kv jl by (auto simp: pa_inv_def keys_once_def holdsAt_def)
    with kv show ?thesis by blast
  qed
  then have "\<forall>m < n. \<exists>k' v'. pair (?d ! ((?s + m) mod ?N)) = Some (k', v') \<and> k' \<noteq> k" by blast
  moreover have "slots_ok E ?d" using inv by (simp add: pa_inv_def)
  ultimately have "probe ?d ?N (hasher (khash E) k) k ?s ?N = Inr (FoundSlot ((?s + n) mod ?N))"
    using probe_run(2)[of E ?d ?N ?s n ?N k v, OF _ len _ start_less[OF N] n(1)] n h N
    by (simp add: holdsAt_def)
  then show ?thesis using pa_probe_eq[OF inv] n by simp
qed

lemma probe_absent:
  assumes inv: "pa_inv E pa" and h: "\<And>i v. \<not> holdsAt (paData pa) i k v"
  obtains t where "t < paNum pa"
    "pa_probe E pa k = Inr (EmptySlot ((startOf E (paNum pa) k + t) mod paNum pa))"
    "path_used (paData pa) (startOf E (paNum pa) k) t"
    "pair (paData pa ! ((startOf E (paNum pa) k + t) mod paNum pa)) = None"
proof -
  let ?d = "paData pa" and ?N = "paNum pa" and ?s = "startOf E (paNum pa) k"
  have len: "length ?d = ?N" and N: "2 \<le> ?N" and ok: "slots_ok E ?d"
    using inv by (auto simp: pa_inv_def)
  let ?P = "\<lambda>t. pair (?d ! ((?s + t) mod ?N)) = None"
  have "card (used_set ?d) < ?N"
    using inv fill_limit_bounds(2)[OF N] by (simp add: pa_inv_def)
  then have "used_set ?d \<noteq> {..<?N}" by (metis card_lessThan nat_neq_iff)
  then obtain j where j: "j < ?N" "pair (?d ! j) = None"
    using len by (force simp: used_set_def)
  have "(?s + (j + ?N - ?s) mod ?N) mod ?N = j"
    using start_less[OF N, of E k] j by (simp add: mod_add_right_eq)
  then have ex: "?P ((j + ?N - ?s) mod ?N)" using j by simp
  define t where "t = (LEAST t. ?P t)"
  have Pt: "?P t" unfolding t_def using ex by (rule LeastI)
  have "t \<le> (j + ?N - ?s) mod ?N" unfolding t_def using ex by (rule Least_le)
  also have "\<dots> < ?N" using N by simp
  finally have tN: "t < ?N" .
  have pth: "path_used ?d ?s t"
    unfolding path_used_def len using not_less_Least[of _ ?P] by (auto simp: t_def)
  have "\<exists>k' v'. pair (?d ! ((?s + m) mod ?N)) = Some (k', v') \<and> k' \<noteq> k" if "m < t" for m
  proof -
    have "pair (?d ! ((?s + m) mod ?N)) \<noteq> None"
      using pth that len by (simp add: path_used_def)
    then obtain k' v' where kv: "pair (?d ! ((?s + m) mod ?N)) = Some (k', v')" by auto
    then have "holdsAt ?d ((?s + m) mod ?N) k' v'" using len N by (simp add: holdsAt_def)
    then show ?thesis using h kv by blast
  qed
  then have "probe ?d ?N (hasher (khash E) k) k ?s ?N = Inr (EmptySlot ((?s + t) mod ?N))"
    using probe_run(1)[OF ok len _ start_less[OF N, of E k] tN, where me = k] Pt N by simp
  then show thesis using that[OF tN] pa_probe_eq[OF inv] pth Pt by simp
qed

section \<open>Insertion, assignment and rehashing\<close>

lemma holdsAt_update:
  assumes "s < length d"
  shows "holdsAt (d[s := x]) i k v \<longleftrightarrow>
    (if i = s then pair x = Some (k, v) else holdsAt d i k v)"
  using assms by (auto simp: holdsAt_def nth_list_update)

lemma slots_ok_update:
  assumes "slots_ok E d" "slot_ok E x"
  shows "slots_ok E (d[s := x])"
  unfolding slots_ok_def
proof (intro allI impI)
  fix i assume "i < length (d[s := x])"
  then show "slot_ok E (d[s := x] ! i)"
    using assms unfolding slots_ok_def by (cases "s = i") simp_all
qed

lemma path_used_update:
  assumes "path_used d a n" "pair x \<noteq> None"
  shows "path_used (d[s := x]) a n"
  using assms unfolding path_used_def
  by (metis length_list_update list_update_beyond not_le_imp_less nth_list_update)

lemma used_set_update:
  assumes "s < length d" "pair x \<noteq> None"
  shows "used_set (d[s := x]) = insert s (used_set d)"
  using assms by (auto simp: used_set_def nth_list_update)

lemma reachable_update:
  assumes "reachable_slots E d" "s < length d" "pair x = Some (k, v)"
    and "holdsAt d s k w \<or> (n < length d \<and> s = (startOf E (length d) k + n) mod length d
           \<and> path_used d (startOf E (length d) k) n)"
  shows "reachable_slots E (d[s := x])"
  unfolding reachable_slots_def
proof (intro allI impI)
  fix i k' v' assume h: "holdsAt (d[s := x]) i k' v'"
  have "\<exists>n < length d. i = (startOf E (length d) k' + n) mod length d
          \<and> path_used d (startOf E (length d) k') n"
  proof (cases "i = s")
    case True
    then have "k' = k" using h assms(2,3) by (simp add: holdsAt_update)
    then show ?thesis
      using assms(1,4) True unfolding reachable_slots_def by blast
  next
    case False
    then show ?thesis using h assms(1,2) unfolding reachable_slots_def
      by (simp add: holdsAt_update) blast
  qed
  then show "\<exists>n < length (d[s := x]).
       i = (startOf E (length (d[s := x])) k' + n) mod length (d[s := x])
       \<and> path_used (d[s := x]) (startOf E (length (d[s := x])) k') n"
    using path_used_update assms(3) by (metis length_list_update option.distinct(1))
qed

lemma pa_inv_keys: "pa_inv E pa \<Longrightarrow> keys_once (paData pa)"
  by (simp add: pa_inv_def)

lemma pa_inv_max: "pa_inv E pa \<Longrightarrow> paMax pa = fill_limit (paNum pa)"
  by (simp add: pa_inv_def)

lemma pa_map_present:
  assumes "pa_inv E pa" "pa_map pa k \<noteq> None"
  obtains i v where "holdsAt (paData pa) i k v" "pa_map pa k = Some v"
    "pa_probe E pa k = Inr (FoundSlot i)"
proof -
  obtain v where v: "pa_map pa k = Some v" using assms(2) by auto
  then obtain i where "holdsAt (paData pa) i k v"
    using pa_map_iff[OF pa_inv_keys[OF assms(1)]] by blast
  then show thesis using that v probe_present[OF assms(1)] by blast
qed

text \<open>\<open>operator[]\<close> on a key the table holds, and on a new key with room left.\<close>

lemma pa_index_present:
  assumes "pa_inv E pa" "holdsAt (paData pa) i k v"
  shows "pa_index E pa k = (pa, Inr i)"
  using probe_present[OF assms] by (simp add: pa_index_def)

lemma pa_index_absent_full:
  assumes "pa_inv E pa" "pa_map pa k = None" "\<not> roomKey E pa k"
  shows "pa_index E pa k = (pa, Inl NotEnoughSpace)"
proof -
  have "\<And>i v. \<not> holdsAt (paData pa) i k v"
    using pa_map_None[OF pa_inv_keys[OF assms(1)], of k] assms(2) by blast
  then obtain t where
    "pa_probe E pa k = Inr (EmptySlot ((startOf E (paNum pa) k + t) mod paNum pa))"
    using probe_absent[OF assms(1)] by blast
  then show ?thesis using assms(3) by (simp add: pa_index_def)
qed

lemma pa_index_absent:
  assumes inv: "pa_inv E pa" and k: "pa_map pa k = None" and room: "roomKey E pa k"
    and notfull: "\<not> pa_isOverFull pa"
  obtains pa' s where "pa_index E pa k = (pa', Inr s)" "pa_inv E pa'"
    "pa_map pa' = (pa_map pa)(k \<mapsto> freshVal E)" "holdsAt (paData pa') s k (freshVal E)"
    "paUsed pa' = Suc (paUsed pa)" "paNum pa' = paNum pa" "pair (paData pa ! s) = None" "s < length (paData pa)"
    "card (used_set (paData pa')) = Suc (card (used_set (paData pa)))"
    "pa' = pa\<lparr>paData := (paData pa)[s := \<lparr>hashv = hasher (khash E) k, pair = Some (k, freshVal E)\<rparr>],
              paUsed := Suc (paUsed pa)\<rparr>"
proof -
  let ?d = "paData pa" and ?N = "paNum pa"
  let ?x = "\<lparr>hashv = hasher (khash E) k, pair = Some (k, freshVal E)\<rparr>"
  have len: "length ?d = ?N" and N: "2 \<le> ?N" and ok: "slots_ok E ?d" and once: "keys_once ?d"
    using inv by (auto simp: pa_inv_def)
  have new: "\<not> holdsAt ?d i k v" for i v using k pa_map_None[OF once] by blast
  obtain t where t: "t < ?N" "path_used ?d (startOf E ?N k) t"
    "pa_probe E pa k = Inr (EmptySlot ((startOf E ?N k + t) mod ?N))"
    "pair (?d ! ((startOf E ?N k + t) mod ?N)) = None"
    using probe_absent[OF inv new] by blast
  define s where "s = (startOf E ?N k + t) mod ?N"
  have s: "s < length ?d" using N len by (simp add: s_def)
  have us: "s \<notin> used_set ?d" using t(4) by (simp add: used_set_def s_def)
  define pa' where "pa' = pa\<lparr>paData := ?d[s := ?x], paUsed := Suc (paUsed pa)\<rparr>"
  have small: "paUsed pa < 2 ^ 31"
    using inv fill_limit_bounds(2)[OF N] by (simp add: pa_inv_def)
  then have ix: "pa_index E pa k = (pa', Inr s)"
    using t(3) room by (simp add: pa_index_def pa'_def s_def[symmetric])
  have cu: "card (used_set (paData pa')) = Suc (card (used_set ?d))"
    using s us by (simp add: pa'_def used_set_update)
  have once': "keys_once (paData pa')"
    unfolding keys_once_def
  proof (intro allI impI)
    fix i j a v w assume "holdsAt (paData pa') i a v" "holdsAt (paData pa') j a w"
    then show "i = j"
      using once new s unfolding keys_once_def
      by (auto simp: pa'_def holdsAt_update split: if_splits)
  qed
  have "reachable_slots E (paData pa')"
    using inv s t(1,2) unfolding pa'_def
    by (simp, intro reachable_update) (auto simp: pa_inv_def len s_def)
  moreover have "slots_ok E (paData pa')"
    using slots_ok_update[OF ok] by (simp add: pa'_def slot_ok_def)
  ultimately have inv': "pa_inv E pa'"
    using inv notfull cu once' by (simp add: pa_inv_def pa'_def pa_isOverFull_def)
  have "pa_map pa' a = ((pa_map pa)(k \<mapsto> freshVal E)) a" for a
  proof -
    have "pa_map pa' a = Some v \<longleftrightarrow> ((pa_map pa)(k \<mapsto> freshVal E)) a = Some v" for v
      unfolding pa_map_iff[OF once'] using s us pa_map_iff[OF once, of a v] new
      unfolding pa'_def by (simp add: holdsAt_update used_set_def) (metis holdsAt_def option.distinct(1))
    then show ?thesis by (metis not_None_eq)
  qed
  then have mp: "pa_map pa' = (pa_map pa)(k \<mapsto> freshVal E)" by blast
  have "holdsAt (paData pa') s k (freshVal E)"
    using s by (simp add: pa'_def holdsAt_update)
  moreover have "pair (?d ! s) = None" using t(4) by (simp add: s_def)
  ultimately show thesis using that ix inv' mp cu pa'_def s by simp
qed

text \<open>Assigning through the reference \<open>operator[]\<close> returned.\<close>

lemma pa_load_holds: "holdsAt (paData pa) s k v \<Longrightarrow> pa_load pa s = Inr v"
  by (simp add: holdsAt_def pa_load_def)

lemma pa_store_spec:
  assumes inv: "pa_inv E pa" and h: "holdsAt (paData pa) s k v"
  shows "pa_inv E (pa_store pa s w)" "pa_map (pa_store pa s w) = (pa_map pa)(k \<mapsto> w)"
    "holdsAt (paData (pa_store pa s w)) s k w"
    "used_set (paData (pa_store pa s w)) = used_set (paData pa)"
    "paUsed (pa_store pa s w) = paUsed pa" "paNum (pa_store pa s w) = paNum pa"
    "paMax (pa_store pa s w) = paMax pa"
proof -
  let ?d = "paData pa" and ?pa = "pa_store pa s w"
  let ?x = "(?d ! s)\<lparr>pair := Some (k, w)\<rparr>"
  have once: "keys_once ?d" and ok: "slots_ok E ?d" using inv by (auto simp: pa_inv_def)
  have s: "s < length ?d" and ps: "pair (?d ! s) = Some (k, v)" using h by (auto simp: holdsAt_def)
  have D: "paData ?pa = ?d[s := ?x]" using ps by (simp add: pa_store_def)
  have H: "holdsAt (paData ?pa) i a u \<longleftrightarrow> (if i = s then a = k \<and> u = w else holdsAt ?d i a u)" for i a u
    unfolding D using s by (auto simp: holdsAt_update)
  have hh: "hashv (?d ! s) = hasher (khash E) k" using slots_ok_hash[OF ok s ps] .
  show us: "used_set (paData ?pa) = used_set ?d"
    unfolding D using s ps by (subst used_set_update) (auto simp: used_set_def)
  have once': "keys_once (paData ?pa)"
    unfolding keys_once_def
  proof (intro allI impI)
    fix i j a u u' assume "holdsAt (paData ?pa) i a u" "holdsAt (paData ?pa) j a u'"
    then show "i = j" using once h unfolding keys_once_def H by (metis (full_types))
  qed
  have "slots_ok E (paData ?pa)" unfolding D using slots_ok_update[OF ok] hh by (simp add: slot_ok_def)
  moreover have "reachable_slots E (paData ?pa)"
    unfolding D using inv h s by (intro reachable_update[where w = v]) (auto simp: pa_inv_def)
  ultimately show "pa_inv E ?pa"
    using inv once' us by (simp add: pa_inv_def pa_store_def)
  have "pa_map ?pa a = ((pa_map pa)(k \<mapsto> w)) a" for a
  proof -
    have "pa_map ?pa a = Some u \<longleftrightarrow> ((pa_map pa)(k \<mapsto> w)) a = Some u" for u
    proof (cases "a = k")
      case True
      have "\<not> holdsAt ?d i k u'" if "i \<noteq> s" for i u'
        using once h that unfolding keys_once_def by blast
      then show ?thesis unfolding pa_map_iff[OF once'] H using True by auto
    next
      case False
      have "holdsAt ?d s a u \<Longrightarrow> False" using False ps by (simp add: holdsAt_def)
      then show ?thesis unfolding pa_map_iff[OF once'] H using False pa_map_iff[OF once, of a u]
        by (metis fun_upd_other)
    qed
    then show ?thesis by (metis not_None_eq)
  qed
  then show "pa_map ?pa = (pa_map pa)(k \<mapsto> w)" by blast
  show "holdsAt (paData ?pa) s k w" unfolding H by simp
qed (simp_all add: pa_store_def)

lemma slot_ok_roomKey [simp]: "slot_ok (E\<lparr>roomKey := f\<rparr>) s = slot_ok E s"
  by (simp add: slot_ok_def split: option.split)

lemma inv_roomKey [simp]: "pa_inv (E\<lparr>roomKey := f\<rparr>) pa = pa_inv E pa"
  by (simp add: pa_inv_def slots_ok_def reachable_slots_def startOf_def)

lemma slot_ok_unused [simp]: "slot_ok E unused_slot"
  by (simp add: slot_ok_def unused_slot_def)

lemma got_power_iff:
  "i + j = 32 \<Longrightarrow> got_power n (2 ^ j) i \<longleftrightarrow> 0 < i \<and> n \<le> 2 ^ 31"
proof (induction i arbitrary: j)
  case (Suc i)
  then have j: "j \<le> 31" by simp
  then have p: "(2::nat) ^ j \<le> 2 ^ 31" by (intro power_increasing) auto
  show ?case
  proof (cases "i = 0")
    case True
    with Suc.prems have "j = 31" by simp
    with True show ?thesis by simp
  next
    case False
    then have "(2::nat) ^ Suc j \<le> 2 ^ 31" using Suc.prems by (intro power_increasing) auto
    then have "u32 (2 ^ j * 2) = 2 ^ Suc j" by simp
    then show ?thesis using Suc.IH[of "Suc j"] Suc.prems False p by auto
  qed
qed simp

lemma got_power_32: "got_power n 1 32 \<longleftrightarrow> n \<le> 2 ^ 31"
  using got_power_iff[of 32 0 n] by simp

lemma pa_new_ok:
  assumes "2 \<le> n" "n \<le> 2 ^ 31"
  obtains pa where "pa_new n = Inr pa" "pa_inv E pa" "pa_map pa = Map.empty" "paUsed pa = 0"
    "paNum pa = n" "paMax pa = fill_limit n"
proof -
  let ?pa = "\<lparr>paUsed = 0, paNum = n, paMax = fill_limit n,
              paData = replicate n unused_slot\<rparr> :: ('a, 'b) parray"
  have none: "\<not> holdsAt (replicate n (unused_slot :: ('a, 'b) slot)) i k v" for i k v
    by (auto simp: holdsAt_def unused_slot_def)
  then have "pa_map ?pa = Map.empty"
    using pa_map_None[of ?pa] by (auto simp: keys_once_def)
  moreover have "used_set (replicate n (unused_slot :: ('a, 'b) slot)) = {}"
    by (auto simp: used_set_def unused_slot_def)
  then have "pa_inv E ?pa"
    using assms none by (simp add: pa_inv_def keys_once_def reachable_slots_def slots_ok_def)
  ultimately show thesis using that[of ?pa] assms
    by (simp add: pa_new_def got_power_32 del: One_nat_def)
qed

text \<open>Whether the copies made while doubling always succeed.\<close>

definition moves_ok :: "('k, 'v) menv \<Rightarrow> bool" where
  "moves_ok E \<longleftrightarrow> (\<forall>pa k v. roomMove E pa k \<and> roomVal E pa v)"

definition rehash_result ::
  "('k, 'v) menv \<Rightarrow> nat \<Rightarrow> ('k, 'v) parray \<Rightarrow> ('k, 'v) parray
     \<Rightarrow> ('k, 'v) parray \<times> ('k, 'v) parray outcome \<Rightarrow> bool" where
  "rehash_result E i old new r \<longleftrightarrow>
     (case r of
        (old', Inr new') \<Rightarrow>
          pa_inv E new' \<and> paNum new' = paNum new
          \<and> pa_map new' = pa_map new ++ map_of (List.map_filter pair (drop i (paData old)))
          \<and> paUsed new' = paUsed new + length (List.map_filter pair (drop i (paData old)))
      | (old', Inl e) \<Rightarrow>
          e = NotEnoughSpace \<and> \<not> moves_ok E
          \<and> (\<exists>j. i \<le> j \<and> j < length (paData old) \<and> paUsed old' = paUsed old
               \<and> paNum old' = paNum old \<and> paMax old' = paMax old
               \<and> paData old' = take i (paData old) @ replicate (j - i) unused_slot
                                 @ drop j (paData old)))"

lemma drop_at_map_filter:
  assumes "i < length d"
  shows "List.map_filter pair (drop i d) =
    (case pair (d ! i) of None \<Rightarrow> [] | Some p \<Rightarrow> [p]) @ List.map_filter pair (drop (Suc i) d)"
  using assms by (simp add: Cons_nth_drop_Suc[symmetric] map_filter_simps split: option.split)

lemma rehash_result_unused:
  assumes "i < length (paData old)" "pair (paData old ! i) = None"
    "slots_ok E (paData old)" "rehash_result E (Suc i) old new r"
  shows "rehash_result E i old new r"
proof -
  have mf: "List.map_filter pair (drop i (paData old)) =
        List.map_filter pair (drop (Suc i) (paData old))"
    using drop_at_map_filter[OF assms(1)] assms(2) by simp
  have "hashv (paData old ! i) = UNUSED" using slots_ok_used assms(1,2,3) by blast
  then have x: "paData old ! i = unused_slot" using assms(2) by (simp add: unused_slot_def)
  have "take (Suc i) (paData old) @ replicate (j - Suc i) unused_slot =
        take i (paData old) @ replicate (j - i) unused_slot" if "Suc i \<le> j" for j
  proof -
    have "j - i = Suc (j - Suc i)" using that by simp
    then show ?thesis using assms(1) x by (simp add: take_Suc_conv_app_nth)
  qed
  then show ?thesis
    using assms(4) unfolding rehash_result_def mf
    by (auto split: prod.splits sum.splits) (metis Suc_leD append.assoc)
qed

lemma rehash_result_moved:
  assumes "i < length (paData old)" "pair (paData old ! i) = Some (k, v)"
    "pa_map new' = (pa_map new)(k \<mapsto> v)" "paUsed new' = Suc (paUsed new)"
    "paNum new' = paNum new" "k \<notin> fst ` set (List.map_filter pair (drop (Suc i) (paData old)))"
    "rehash_result E (Suc i) (old\<lparr>paData := (paData old)[i := unused_slot]\<rparr>) new' r"
  shows "rehash_result E i old new r"
proof -
  have mf: "List.map_filter pair (drop i (paData old)) =
        (k, v) # List.map_filter pair (drop (Suc i) (paData old))"
    using drop_at_map_filter[OF assms(1)] assms(2) by simp
  have dr: "drop (Suc i) ((paData old)[i := unused_slot]) = drop (Suc i) (paData old)" by simp
  have "map_of (List.map_filter pair (drop (Suc i) (paData old))) k = None"
    using assms(6) by (simp add: map_of_eq_None_iff)
  then have mp: "pa_map new' ++ map_of (List.map_filter pair (drop (Suc i) (paData old))) =
        pa_map new ++ map_of (List.map_filter pair (drop i (paData old)))"
    unfolding mf assms(3) by (auto simp: map_add_def fun_eq_iff split: option.splits)
  show ?thesis
  proof (cases r)
    case (Pair old' o')
    show ?thesis
    proof (cases o')
      case (Inr new'')
      then show ?thesis using assms(4,5,7) Pair unfolding rehash_result_def
        by (simp add: mp mf)
    next
      case (Inl e)
      then obtain j where j: "Suc i \<le> j" "j < length (paData old)" "e = NotEnoughSpace"
        "\<not> moves_ok E" "paUsed old' = paUsed old" "paNum old' = paNum old"
        "paMax old' = paMax old"
        "paData old' = take (Suc i) ((paData old)[i := unused_slot])
           @ replicate (j - Suc i) unused_slot @ drop j ((paData old)[i := unused_slot])"
        using assms(7) Pair unfolding rehash_result_def by auto
      have "j - i = Suc (j - Suc i)" using j(1) by simp
      then have "paData old' = take i (paData old) @ replicate (j - i) unused_slot
          @ drop j (paData old)"
        using j(1,8) assms(1) by simp
      then show ?thesis using Pair Inl j(1-7) unfolding rehash_result_def
        by (auto intro!: exI[of _ j])
    qed
  qed
qed

lemma rehash_loop_spec:
  assumes "slots_ok E (paData old)" "i + n = length (paData old)"
    and "distinct (map fst (List.map_filter pair (drop i (paData old))))"
    and "fst ` set (List.map_filter pair (drop i (paData old))) \<inter> dom (pa_map new) = {}"
    and "pa_inv E new"
    and "paUsed new + length (List.map_filter pair (drop i (paData old))) \<le> paMax new"
  shows "rehash_result E i old new (rehash_loop E i n old new)"
  using assms
proof (induction n arbitrary: i old new)
  case 0
  then show ?case by (simp add: rehash_result_def map_filter_simps)
next
  case (Suc n)
  let ?d = "paData old"
  let ?E = "E\<lparr>roomKey := roomMove E\<rparr>"
  have i: "i < length ?d" and i': "Suc i + n = length ?d" using Suc.prems(2) by auto
  show ?case
  proof (cases "pair (?d ! i)")
    case None
    have mf: "List.map_filter pair (drop i ?d) = List.map_filter pair (drop (Suc i) ?d)"
      using drop_at_map_filter[OF i] None by simp
    have "hashv (?d ! i) = UNUSED" using slots_ok_used[OF Suc.prems(1) i] None by simp
    moreover have "rehash_result E (Suc i) old new (rehash_loop E (Suc i) n old new)"
      using Suc.IH[OF Suc.prems(1) i'] Suc.prems(3-6) unfolding mf by blast
    ultimately show ?thesis
      using rehash_result_unused[OF i None Suc.prems(1)] by simp
  next
    case (Some p)
    obtain k v where p: "p = (k, v)" by (cases p)
    have mf: "List.map_filter pair (drop i ?d) = (k, v) # List.map_filter pair (drop (Suc i) ?d)"
      using drop_at_map_filter[OF i] Some p by simp
    have h: "hashv (?d ! i) \<noteq> UNUSED" using slots_ok_used[OF Suc.prems(1) i] Some by simp
    have knew: "pa_map new k = None" using Suc.prems(4) unfolding mf by auto
    have nf: "\<not> pa_isOverFull new" using Suc.prems(6) unfolding mf pa_isOverFull_def by simp
    have inv: "pa_inv ?E new" using Suc.prems(5) by simp
    show ?thesis
    proof (cases "roomMove E new k")
      case False
      then have "pa_index ?E new k = (new, Inl NotEnoughSpace)"
        using pa_index_absent_full[OF inv knew] by simp
      then have "rehash_loop E i (Suc n) old new = (old, Inl NotEnoughSpace)"
        using h Some p by simp
      moreover have "\<not> moves_ok E" using False by (auto simp: moves_ok_def)
      ultimately show ?thesis using i by (auto simp: rehash_result_def)
    next
      case True
      then obtain new' s where new': "pa_index ?E new k = (new', Inr s)" "pa_inv E new'"
        "pa_map new' = (pa_map new)(k \<mapsto> freshVal E)" "holdsAt (paData new') s k (freshVal E)"
        "paUsed new' = Suc (paUsed new)" "paNum new' = paNum new"
        using pa_index_absent[OF inv knew _ nf] by (metis inv_roomKey menv.select_convs(2,4)
          menv.simps(11) menv.surjective menv.update_convs(4))
      show ?thesis
      proof (cases "roomVal E new' v")
        case False
        then have "rehash_loop E i (Suc n) old new = (old, Inl NotEnoughSpace)"
          using h Some p new'(1) by simp
        moreover have "\<not> moves_ok E" using False by (auto simp: moves_ok_def)
        ultimately show ?thesis using i by (auto simp: rehash_result_def)
      next
        case True
        let ?old = "old\<lparr>paData := ?d[i := unused_slot]\<rparr>"
        let ?new = "pa_store new' s v"
        note st = pa_store_spec[OF new'(2,4), where w = v]
        have eq: "rehash_loop E i (Suc n) old new = rehash_loop E (Suc i) n ?old ?new"
          using h Some p new'(1) True by simp
        have mp: "pa_map ?new = (pa_map new)(k \<mapsto> v)" using st(2) new'(3) by simp
        have kr: "k \<notin> fst ` set (List.map_filter pair (drop (Suc i) ?d))"
          using Suc.prems(3) unfolding mf by simp
        have "paMax ?new = paMax new"
          using pa_inv_max[OF st(1)] pa_inv_max[OF Suc.prems(5)] st(6) new'(6) by simp
        then have mx: "paUsed ?new + length (List.map_filter pair (drop (Suc i) ?d)) \<le> paMax ?new"
          using Suc.prems(6) st(5) new'(5) unfolding mf by simp
        have "rehash_result E (Suc i) ?old ?new (rehash_loop E (Suc i) n ?old ?new)"
        proof (rule Suc.IH)
          show "slots_ok E (paData ?old)"
            using slots_ok_update[OF Suc.prems(1) slot_ok_unused] by simp
          show "fst ` set (List.map_filter pair (drop (Suc i) (paData ?old))) \<inter> dom (pa_map ?new) = {}"
            using Suc.prems(4) kr unfolding mp mf by auto
        qed (use i' Suc.prems(3) st(1) mx in \<open>simp_all add: mf\<close>)
        then show ?thesis
          unfolding eq using rehash_result_moved[OF i _ mp _ _ kr] Some p st(5,6) new'(5,6)
          by simp
      qed
    qed
  qed
qed

lemma length_entries:
  fixes pa :: "('k, 'v) parray"
  assumes "keys_once (paData pa)"
  shows "length (List.map_filter pair (paData pa)) = card (used_set (paData pa))"
proof -
  let ?l = "List.map_filter pair (paData pa)"
  have "card (dom (pa_map pa)) = card (set (map fst ?l))"
    unfolding pa_map_def pa_entries_def by (simp add: dom_map_of_conv_image_fst)
  also have "\<dots> = length ?l"
    using distinct_card[OF distinct_entries[OF assms]] by simp
  finally show ?thesis using card_used_dom[OF assms] by simp
qed

lemma pa_doubleArray_cases:
  assumes inv: "pa_inv E pa" and sz: "paNum pa \<le> 2 ^ 30"
  obtains
    (room) "\<not> roomArr E (2 * paNum pa)" "pa_doubleArray E pa = (pa, Inl NotEnoughSpace)"
  | (fails) old where "pa_doubleArray E pa = (old, Inl NotEnoughSpace)" "\<not> moves_ok E"
  | (doubled) old new where "pa_doubleArray E pa = (old, Inr new)" "pa_inv E new"
      "pa_map new = pa_map pa" "\<not> pa_isOverFull new" "paNum new = 2 * paNum pa"
      "paUsed new = card (used_set (paData pa))"
proof (cases "roomArr E (2 * paNum pa)")
  case False
  have "u32 (paNum pa * 2) = 2 * paNum pa" using sz by simp
  with False show thesis using room by (simp add: pa_doubleArray_def)
next
  case True
  have u: "u32 (paNum pa * 2) = 2 * paNum pa" using sz by simp
  have N: "2 \<le> paNum pa" and len: "length (paData pa) = paNum pa" and ok: "slots_ok E (paData pa)"
    and once: "keys_once (paData pa)" and c: "card (used_set (paData pa)) \<le> fill_limit (paNum pa)"
    using inv by (auto simp: pa_inv_def)
  have "2 \<le> 2 * paNum pa" "2 * paNum pa \<le> 2 ^ 31" using N sz by auto
  then obtain n0 where n0: "pa_new (2 * paNum pa) = Inr n0" "pa_inv E n0" "pa_map n0 = Map.empty"
    "paUsed n0 = 0" "paNum n0 = 2 * paNum pa" "paMax n0 = fill_limit (2 * paNum pa)"
    by (rule pa_new_ok[where 'a = 'a and 'b = 'b])
  have D: "pa_doubleArray E pa = rehash_loop E 0 (paNum pa) pa n0"
    using True u n0(1) by (simp add: pa_doubleArray_def)
  have R: "rehash_result E 0 pa n0 (pa_doubleArray E pa)"
    unfolding D using distinct_entries[OF once] n0 c fill_limit_bounds(3)[OF N]
      length_entries[OF once]
    by (intro rehash_loop_spec[OF ok]) (simp_all add: len)
  show thesis
  proof (cases "pa_doubleArray E pa")
    case (Pair old r)
    show thesis
    proof (cases r)
      case (Inl e)
      then show thesis using fails Pair R by (simp add: rehash_result_def)
    next
      case (Inr new)
      then have n: "pa_inv E new" "paNum new = 2 * paNum pa" "pa_map new = pa_map pa"
        "paUsed new = card (used_set (paData pa))"
        using R Pair n0 length_entries[OF once]
        by (simp_all add: rehash_result_def pa_map_def[of pa] pa_entries_def)
      have "paUsed new < paMax new"
        using pa_inv_max[OF n(1)] n(2,4) c fill_limit_bounds(3)[OF N] by simp
      then show thesis using doubled Pair Inr n by (simp add: pa_isOverFull_def)
    qed
  qed
qed

text \<open>Removing a key just inserted: the slot was unused before, so no other entry's path is cut.\<close>

lemma setUnused_after_insert:
  assumes inv: "pa_inv E pa" and k: "pa_map pa k = None" and nf: "\<not> pa_isOverFull pa"
    and ix: "pa_index E pa k = (pa', Inr s)" and room: "roomKey E pa k"
  shows "pa_setUnused E (pa_store pa' s w) k = Inr (pa\<lparr>paUsed := Suc (paUsed pa)\<rparr>)"
    "pa_setUnused E pa' k = Inr (pa\<lparr>paUsed := Suc (paUsed pa)\<rparr>)"
    "pa_inv E (pa\<lparr>paUsed := Suc (paUsed pa)\<rparr>)"
    "pa_map (pa\<lparr>paUsed := Suc (paUsed pa)\<rparr>) = pa_map pa"
proof -
  obtain pa1 s1 where a: "pa_index E pa k = (pa1, Inr s1)" "pa_inv E pa1"
    "holdsAt (paData pa1) s1 k (freshVal E)" "pair (paData pa ! s1) = None"
    "s1 < length (paData pa)"
    "pa1 = pa\<lparr>paData := (paData pa)[s1 := \<lparr>hashv = hasher (khash E) k, pair = Some (k, freshVal E)\<rparr>],
              paUsed := Suc (paUsed pa)\<rparr>"
    by (rule pa_index_absent[OF inv k room nf])
  have e: "pa1 = pa'" "s1 = s" using a(1) ix by auto
  have s: "s < length (paData pa)" and "pair (paData pa ! s) = None" using a(4,5) e by auto
  moreover have "hashv (paData pa ! s) = UNUSED \<longleftrightarrow> pair (paData pa ! s) = None"
    using slots_ok_used[of E "paData pa" s] inv s by (simp add: pa_inv_def)
  ultimately have x: "paData pa ! s = unused_slot" by (simp add: unused_slot_def)
  then have u: "(paData pa)[s := unused_slot] = paData pa" by (metis list_update_id)
  have "pa_probe E pa' k = Inr (FoundSlot s)" using probe_present[OF a(2,3)] e by simp
  then show "pa_setUnused E pa' k = Inr (pa\<lparr>paUsed := Suc (paUsed pa)\<rparr>)"
    using a(6) e u by (simp add: pa_setUnused_def)
  have "pa_probe E (pa_store pa' s w) k = Inr (FoundSlot s)"
    using probe_present[OF pa_store_spec(1,3)[OF a(2,3)]] e by simp
  then show "pa_setUnused E (pa_store pa' s w) k = Inr (pa\<lparr>paUsed := Suc (paUsed pa)\<rparr>)"
    using a(6) e u by (simp add: pa_setUnused_def pa_store_def)
  show "pa_inv E (pa\<lparr>paUsed := Suc (paUsed pa)\<rparr>)"
    using inv nf by (simp add: pa_inv_def pa_isOverFull_def)
  show "pa_map (pa\<lparr>paUsed := Suc (paUsed pa)\<rparr>) = pa_map pa"
    by (simp add: pa_map_def pa_entries_def)
qed

section \<open>Iterating\<close>

lemma iter_skip_spec:
  "s \<le> paNum pa \<Longrightarrow> length (paData pa) = paNum pa \<Longrightarrow>
   s \<le> iter_skip pa s \<and> iter_skip pa s \<le> paNum pa
   \<and> filter (\<lambda>x. hashv x \<noteq> UNUSED) (drop s (paData pa))
      = filter (\<lambda>x. hashv x \<noteq> UNUSED) (drop (iter_skip pa s) (paData pa))
   \<and> (iter_skip pa s < paNum pa \<longrightarrow> hashv (paData pa ! iter_skip pa s) \<noteq> UNUSED)"
proof (induction pa s rule: iter_skip.induct)
  case (1 pa s)
  show ?case
  proof (cases "s < paNum pa \<and> hashv (paData pa ! s) = UNUSED")
    case True
    then have "drop s (paData pa) = paData pa ! s # drop (Suc s) (paData pa)"
      using 1 by (simp add: Cons_nth_drop_Suc)
    with 1 True show ?thesis by (subst (1 2 3 4 5) iter_skip.simps) simp
  next
    case False
    then have "iter_skip pa s = s" by (subst iter_skip.simps) auto
    then show ?thesis using False 1(2,3) by auto
  qed
qed

declare iter_collect.simps [simp del]

lemma iter_collect_from:
  assumes "s \<le> paNum pa" "length (paData pa) = paNum pa"
    "length (filter (\<lambda>x. hashv x \<noteq> UNUSED) (drop s (paData pa))) \<le> n"
  shows "iter_collect n pa \<lparr>itSlot = iter_skip pa s, itDone = (iter_skip pa s = paNum pa)\<rparr>
    = Some (filter (\<lambda>x. hashv x \<noteq> UNUSED) (drop s (paData pa)))"
  using assms
proof (induction "paNum pa - s" arbitrary: s n rule: less_induct)
  case less
  let ?t = "iter_skip pa s" and ?d = "paData pa"
  note sk = iter_skip_spec[OF less.prems(1,2)]
  show ?case
  proof (cases "?t = paNum pa")
    case True
    then show ?thesis using sk less.prems(2) by (simp add: iter_collect.simps)
  next
    case False
    then have t: "?t < paNum pa" "hashv (?d ! ?t) \<noteq> UNUSED" using sk by auto
    have f: "filter (\<lambda>x. hashv x \<noteq> UNUSED) (drop s ?d)
        = ?d ! ?t # filter (\<lambda>x. hashv x \<noteq> UNUSED) (drop (Suc ?t) ?d)"
    proof -
      have "drop ?t ?d = ?d ! ?t # drop (Suc ?t) ?d"
        using t less.prems(2) by (simp add: Cons_nth_drop_Suc)
      then show ?thesis using sk t(2) by simp
    qed
    then obtain n' where n: "n = Suc n'"
      "length (filter (\<lambda>x. hashv x \<noteq> UNUSED) (drop (Suc ?t) ?d)) \<le> n'"
      using less.prems(3) by (cases n) auto
    have nx: "iter_next pa \<lparr>itSlot = ?t, itDone = False\<rparr>
        = \<lparr>itSlot = iter_skip pa (Suc ?t), itDone = (iter_skip pa (Suc ?t) = paNum pa)\<rparr>"
      by (simp add: iter_next_def Let_def)
    have "paNum pa - Suc ?t < paNum pa - s" "Suc ?t \<le> paNum pa" using t sk by auto
    note IH = less.hyps[OF this less.prems(2) n(2)]
    show ?thesis
      using False t IH less.prems(2)
      by (subst iter_collect.simps) (simp add: n iter_deref_def nx f)
  qed
qed

section \<open>The contract of the table\<close>

text \<open>What a client of the hash table relies on. \<open>cell m r k\<close> says that the reference \<open>r\<close> designates
  the value of \<open>k\<close>. A failed \<open>index\<close> leaves the contents as they were, and a key inserted by
  \<open>index\<close> can be taken out again with \<open>unset\<close>, whatever has been stored in its cell.\<close>

record ('m, 'k, 'v, 'r) table_ops =
  tCount :: "'m \<Rightarrow> 'k \<Rightarrow> nat outcome"
  tIndex :: "'m \<Rightarrow> 'k \<Rightarrow> 'm \<times> 'r outcome"
  tLoad :: "'m \<Rightarrow> 'r \<Rightarrow> 'v outcome"
  tStore :: "'m \<Rightarrow> 'r \<Rightarrow> 'v \<Rightarrow> 'm"
  tUnset :: "'m \<Rightarrow> 'k \<Rightarrow> 'm outcome"

locale key_table =
  fixes T :: "('m, 'k, 'v, 'r) table_ops"
    and inv :: "'m \<Rightarrow> bool"
    and contents :: "'m \<Rightarrow> 'k \<Rightarrow> 'v option"
    and cell :: "'m \<Rightarrow> 'r \<Rightarrow> 'k \<Rightarrow> bool"
    and fresh :: 'v
  assumes count_law: "inv m \<Longrightarrow> tCount T m k = Inr (if contents m k = None then 0 else 1)"
    and index_hit: "inv m \<Longrightarrow> contents m k \<noteq> None \<Longrightarrow> \<exists>r. tIndex T m k = (m, Inr r) \<and> cell m r k"
    and index_miss: "inv m \<Longrightarrow> contents m k = None \<Longrightarrow>
      (\<exists>m'. tIndex T m k = (m', Inl NotEnoughSpace) \<and> inv m' \<and> contents m' = contents m)
      \<or> (\<exists>m' r. tIndex T m k = (m', Inr r) \<and> inv m' \<and> cell m' r k
           \<and> contents m' = (contents m)(k \<mapsto> fresh)
           \<and> (\<exists>m''. tUnset T m' k = Inr m'' \<and> inv m'' \<and> contents m'' = contents m))"
    and load_law: "inv m \<Longrightarrow> cell m r k \<Longrightarrow> contents m k = Some v \<Longrightarrow> tLoad T m r = Inr v"
    and store_inv: "inv m \<Longrightarrow> cell m r k \<Longrightarrow> inv (tStore T m r v)"
    and store_contents: "inv m \<Longrightarrow> cell m r k \<Longrightarrow> contents (tStore T m r v) = (contents m)(k \<mapsto> v)"
begin

lemma index_cases:
  assumes "inv m"
  obtains (hit) r v where "contents m k = Some v" "tCount T m k = Inr 1" "tIndex T m k = (m, Inr r)"
      "cell m r k" "tLoad T m r = Inr v"
  | (refused) m' where "contents m k = None" "tCount T m k = Inr 0"
      "tIndex T m k = (m', Inl NotEnoughSpace)" "inv m'" "contents m' = contents m"
  | (added) m' r m'' where "contents m k = None" "tCount T m k = Inr 0" "tIndex T m k = (m', Inr r)"
      "inv m'" "cell m' r k" "contents m' = (contents m)(k \<mapsto> fresh)"
      "tUnset T m' k = Inr m''" "inv m''" "contents m'' = contents m"
proof (cases "contents m k")
  case None
  with count_law[OF assms, of k] index_miss[OF assms None] show thesis
    using refused added by auto
next
  case (Some v)
  with count_law[OF assms, of k] index_hit[OF assms, of k] show thesis
    using hit load_law[OF assms _ Some] by auto
qed

end

definition map_ops :: "('k, 'v) menv \<Rightarrow> (('k, 'v) pmap, 'k, 'v, nat) table_ops" where
  "map_ops E = \<lparr>tCount = map_count E, tIndex = map_index E, tLoad = map_load, tStore = map_store,
                tUnset = map_setUnused E\<rparr>"

text \<open>A slot takes at least 16 bytes and a chunk size is a 32-bit number, so no array of more than
  \<open>2 ^ 30\<close> slots can be allocated.\<close>

definition map_inv :: "('k, 'v) menv \<Rightarrow> ('k, 'v) pmap \<Rightarrow> bool" where
  "map_inv E m \<longleftrightarrow> pa_inv E (mapArray m) \<and> paNum (mapArray m) \<le> 2 ^ 30
     \<and> (\<forall>n > 2 ^ 30. \<not> roomArr E n)"

definition map_contents :: "('k, 'v) pmap \<Rightarrow> 'k \<Rightarrow> 'v option" where
  "map_contents m = pa_map (mapArray m)"

definition map_cell :: "('k, 'v) pmap \<Rightarrow> nat \<Rightarrow> 'k \<Rightarrow> bool" where
  "map_cell m s k \<longleftrightarrow> (\<exists>v. holdsAt (paData (mapArray m)) s k v)"

lemma map_count_eq:
  assumes "map_inv E m"
  shows "map_count E m k = Inr (if map_contents m k = None then 0 else 1)"
proof (cases "map_contents m k")
  case None
  have i: "pa_inv E (mapArray m)" using assms by (simp add: map_inv_def)
  have "\<not> holdsAt (paData (mapArray m)) i k v" for i v
    using pa_map_None[OF pa_inv_keys[OF i], of k] None by (simp add: map_contents_def)
  then obtain t where "pa_probe E (mapArray m) k =
      Inr (EmptySlot ((startOf E (paNum (mapArray m)) k + t) mod paNum (mapArray m)))"
    using probe_absent[OF i] by blast
  then show ?thesis using None by (simp add: map_count_def pa_count_def)
next
  case (Some v)
  have i: "pa_inv E (mapArray m)" using assms by (simp add: map_inv_def)
  obtain s where "pa_probe E (mapArray m) k = Inr (FoundSlot s)"
    using pa_map_present[OF i, of k] Some by (auto simp: map_contents_def)
  then show ?thesis using Some by (simp add: map_count_def pa_count_def)
qed

lemma map_index_hit:
  assumes "map_inv E m" "map_contents m k \<noteq> None"
  shows "\<exists>s. map_index E m k = (m, Inr s) \<and> map_cell m s k"
proof -
  have i: "pa_inv E (mapArray m)" using assms by (simp add: map_inv_def)
  have "pa_map (mapArray m) k \<noteq> None" using assms(2) by (simp add: map_contents_def)
  from i this obtain s v where s: "holdsAt (paData (mapArray m)) s k v"
    by (rule pa_map_present)
  have "map_index E m k = (m, Inr s)"
    using map_count_eq[OF assms(1), of k] assms(2) pa_index_present[OF i s]
    by (simp add: map_index_def map_count_def)
  then show ?thesis using s by (auto simp: map_cell_def)
qed

text \<open>A missing key: the map may first be doubled (\<open>base\<close>), and only then is the key put in.\<close>

definition map_added :: "('k, 'v) menv \<Rightarrow> ('k, 'v) pmap \<Rightarrow> 'k \<Rightarrow> ('k, 'v) pmap \<Rightarrow> nat \<Rightarrow> bool" where
  "map_added E m k m' s \<longleftrightarrow>
     map_inv E m' \<and> map_cell m' s k \<and> map_contents m' = (map_contents m)(k \<mapsto> freshVal E)
     \<and> (\<exists>m''. map_setUnused E m' k = Inr m'' \<and> map_inv E m'' \<and> map_contents m'' = map_contents m)"

lemma map_added_at:
  assumes "map_inv E m" "map_contents m k = None" "\<not> pa_isOverFull (mapArray m)"
  shows "pa_index E (mapArray m) k = (mapArray m, Inl NotEnoughSpace)
    \<or> (\<exists>pa s. pa_index E (mapArray m) k = (pa, Inr s) \<and> map_added E m k (m\<lparr>mapArray := pa\<rparr>) s)"
proof (cases "roomKey E (mapArray m) k")
  case False
  then show ?thesis
    using pa_index_absent_full assms by (auto simp: map_inv_def map_contents_def)
next
  case True
  have i: "pa_inv E (mapArray m)" and n: "pa_map (mapArray m) k = None"
    using assms by (auto simp: map_inv_def map_contents_def)
  obtain pa s where a: "pa_index E (mapArray m) k = (pa, Inr s)" "pa_inv E pa"
    "pa_map pa = (pa_map (mapArray m))(k \<mapsto> freshVal E)" "holdsAt (paData pa) s k (freshVal E)"
    "paNum pa = paNum (mapArray m)"
    by (rule pa_index_absent[OF i n True assms(3)])
  note u = setUnused_after_insert[OF i n assms(3) a(1) True]
  have "map_added E m k (m\<lparr>mapArray := pa\<rparr>) s"
    using a assms(1) u(2,3,4)
    by (auto simp: map_added_def map_inv_def map_cell_def map_contents_def map_setUnused_def)
  then show ?thesis using a(1) by blast
qed

lemma map_index_miss:
  assumes "map_inv E m" "map_contents m k = None"
  shows "(\<exists>m'. map_index E m k = (m', Inl NotEnoughSpace)
            \<and> (moves_ok E \<longrightarrow> map_inv E m' \<and> map_contents m' = map_contents m))
    \<or> (\<exists>m' s. map_index E m k = (m', Inr s) \<and> map_added E m k m' s)"
proof -
  have c: "pa_count E (mapArray m) k = Inr 0"
    using map_count_eq[OF assms(1), of k] assms(2) by (simp add: map_count_def)
  show ?thesis
  proof (cases "pa_isOverFull (mapArray m)")
    case False
    then have eq: "map_index E m k = (case pa_index E (mapArray m) k of
        (pa, r) \<Rightarrow> (m\<lparr>mapArray := pa\<rparr>, r))"
      using c by (simp add: map_index_def)
    show ?thesis using map_added_at[OF assms False] assms(1) unfolding eq by auto
  next
    case True
    have i: "pa_inv E (mapArray m)" and sz: "paNum (mapArray m) \<le> 2 ^ 30"
      using assms by (auto simp: map_inv_def)
    from i sz show ?thesis
    proof (cases rule: pa_doubleArray_cases)
      case room
      then show ?thesis using c True assms(1) by (simp add: map_index_def)
    next
      case (fails old)
      then show ?thesis using c True by (simp add: map_index_def)
    next
      case (doubled old new)
      let ?m = "m\<lparr>mapArray := new\<rparr>"
      have "roomArr E (2 * paNum (mapArray m))"
      proof (rule ccontr)
        assume "\<not> roomArr E (2 * paNum (mapArray m))"
        moreover have "u32 (paNum (mapArray m) * 2) = 2 * paNum (mapArray m)" using sz by simp
        ultimately show False using doubled(1) by (simp add: pa_doubleArray_def)
      qed
      then have m: "map_inv E ?m"
        using assms(1) doubled(2,5) by (auto simp: map_inv_def not_less[symmetric])
      have cm: "map_contents ?m = map_contents m" using doubled(3) by (simp add: map_contents_def)
      have eq: "map_index E m k = (case pa_index E new k of (pa, r) \<Rightarrow> (m\<lparr>mapArray := pa\<rparr>, r))"
        using c True doubled(1) by (simp add: map_index_def)
      have "map_contents ?m k = None" using cm assms(2) by simp
      from map_added_at[OF m this] doubled(4) m cm show ?thesis
        unfolding eq map_added_def by auto
    qed
  qed
qed

interpretation hmap: key_table "map_ops E" "\<lambda>m. map_inv E m \<and> moves_ok E" map_contents map_cell
    "freshVal E"
  for E :: "('k, 'v) menv"
proof
  fix m :: "('k, 'v) pmap" and k :: 'k and s :: nat and v :: 'v
  assume "map_inv E m \<and> moves_ok E"
  then have m: "map_inv E m" and ok: "moves_ok E" by auto
  show "tCount (map_ops E) m k = Inr (if map_contents m k = None then 0 else 1)"
    using map_count_eq[OF m] by (simp add: map_ops_def)
  show "\<exists>r. tIndex (map_ops E) m k = (m, Inr r) \<and> map_cell m r k" if "map_contents m k \<noteq> None"
    using map_index_hit[OF m that] by (simp add: map_ops_def)
  show "(\<exists>m'. tIndex (map_ops E) m k = (m', Inl NotEnoughSpace)
            \<and> (map_inv E m' \<and> moves_ok E) \<and> map_contents m' = map_contents m)
      \<or> (\<exists>m' r. tIndex (map_ops E) m k = (m', Inr r) \<and> (map_inv E m' \<and> moves_ok E)
           \<and> map_cell m' r k \<and> map_contents m' = (map_contents m)(k \<mapsto> freshVal E)
           \<and> (\<exists>m''. tUnset (map_ops E) m' k = Inr m'' \<and> (map_inv E m'' \<and> moves_ok E)
                \<and> map_contents m'' = map_contents m))"
    if "map_contents m k = None"
    using map_index_miss[OF m that] ok by (auto simp: map_ops_def map_added_def)
  show "tLoad (map_ops E) m s = Inr v" if "map_cell m s k" "map_contents m k = Some v"
  proof -
    have once: "keys_once (paData (mapArray m))" using m by (simp add: map_inv_def pa_inv_def)
    from that(1) obtain w where w: "holdsAt (paData (mapArray m)) s k w" by (auto simp: map_cell_def)
    then have "pa_map (mapArray m) k = Some w" using pa_map_iff[OF once] by blast
    then have "w = v" using that(2) by (simp add: map_contents_def)
    then show ?thesis using pa_load_holds[OF w] by (simp add: map_ops_def map_load_def)
  qed
  show "map_inv E (tStore (map_ops E) m s v) \<and> moves_ok E"
    "map_contents (tStore (map_ops E) m s v) = (map_contents m)(k \<mapsto> v)" if "map_cell m s k"
  proof -
    from that obtain w where w: "holdsAt (paData (mapArray m)) s k w" by (auto simp: map_cell_def)
    have i: "pa_inv E (mapArray m)" using m by (simp add: map_inv_def)
    note st = pa_store_spec[OF i w]
    show "map_inv E (tStore (map_ops E) m s v) \<and> moves_ok E"
      using st(1,6) m ok by (simp add: map_ops_def map_inv_def map_store_def)
    show "map_contents (tStore (map_ops E) m s v) = (map_contents m)(k \<mapsto> v)"
      using st(2) by (simp add: map_ops_def map_contents_def map_store_def)
  qed
qed

section \<open>Properties\<close>

text \<open>C5: \<open>Map::operator[]\<close> implements a finite map: on a key that is present it changes nothing and
  returns that key's value; on a missing key it either adds the key with a default value (doubling
  and rehashing the array first when it is over-full) or throws \<open>NotEnoughSpace\<close>; storing through
  the returned reference sets that key and no other. A throw keeps the contents as long as the
  copies made by the doubling itself do not throw.\<close>

theorem map_index_refines:
  assumes "map_inv E m"
  shows "case map_index E m k of
      (m', Inr s) \<Rightarrow>
        map_inv E m'
        \<and> map_contents m' = (case map_contents m k of None \<Rightarrow> (map_contents m)(k \<mapsto> freshVal E)
                              | Some v \<Rightarrow> map_contents m)
        \<and> (map_contents m k \<noteq> None \<longrightarrow> m' = m)
        \<and> map_load m' s = Inr (case map_contents m k of None \<Rightarrow> freshVal E | Some v \<Rightarrow> v)
        \<and> map_inv E (map_store m' s w)
        \<and> map_contents (map_store m' s w) = (map_contents m)(k \<mapsto> w)
    | (m', Inl e) \<Rightarrow>
        e = NotEnoughSpace \<and> map_contents m k = None
        \<and> (moves_ok E \<longrightarrow> map_inv E m' \<and> map_contents m' = map_contents m)"
proof -
  have st: "map_load m' s = Inr (the (map_contents m' k)) \<and> map_inv E (map_store m' s w)
      \<and> map_contents (map_store m' s w) = (map_contents m')(k \<mapsto> w)"
    if mi: "map_inv E m'" and mc: "map_cell m' s k" for m' s
  proof -
    have i: "pa_inv E (mapArray m')" using mi by (simp add: map_inv_def)
    obtain v where v: "holdsAt (paData (mapArray m')) s k v" using mc by (auto simp: map_cell_def)
    then have "map_contents m' k = Some v"
      using pa_map_iff[OF pa_inv_keys[OF i]] by (auto simp: map_contents_def)
    then show ?thesis
      using pa_store_spec(1,2,6)[OF i v] pa_load_holds[OF v] mi
      by (simp add: map_load_def map_store_def map_inv_def map_contents_def)
  qed
  show ?thesis
  proof (cases "map_contents m k")
    case (Some v)
    then obtain s where "map_index E m k = (m, Inr s)" "map_cell m s k"
      using map_index_hit[OF assms] by blast
    then show ?thesis using st[OF assms] Some assms by simp
  next
    case None
    from map_index_miss[OF assms None] show ?thesis
    proof (elim disjE exE conjE)
      fix m' s assume "map_index E m k = (m', Inr s)" "map_added E m k m' s"
      then show ?thesis using st[of m' s] None by (auto simp: map_added_def)
    qed (use None in simp)
  qed
qed

text \<open>Concrete environments for the instances below.\<close>

definition demo_env :: "(nat, nat) menv" where
  "demo_env = \<lparr>khash = (\<lambda>k. k), freshVal = 0, roomArr = (\<lambda>n. n \<le> 64), roomKey = (\<lambda>_ _. True),
               roomMove = (\<lambda>_ _. True), roomVal = (\<lambda>_ _. True)\<rparr>"

definition demo_map :: "(nat, nat) pmap" where
  "demo_map = \<lparr>mapArray = \<lparr>paUsed = 2, paNum = 4, paMax = 2,
     paData = [\<lparr>hashv = 3, pair = Some (3, 30)\<rparr>, \<lparr>hashv = 6, pair = Some (6, 60)\<rparr>,
               unused_slot, unused_slot]\<rparr>\<rparr>"

lemma nth_cases4: "i < Suc (Suc (Suc (Suc 0))) \<Longrightarrow> i = 0 \<or> i = 1 \<or> i = 2 \<or> i = 3"
  by linarith

text \<open>Evaluation of the fuelled loops at numerals.\<close>

lemma probe_numeral:
  "probe d num hv me slot (numeral n) =
     (if slot < length d then
        (if hashv (d ! slot) = UNUSED then Inr (EmptySlot slot)
         else (case pair (d ! slot) of
                 None \<Rightarrow> Inl WildAccess
               | Some (k, v) \<Rightarrow>
                   if hashv (d ! slot) = hv \<and> k = me then Inr (FoundSlot slot)
                   else probe d num hv me (if slot = num - 1 then 0 else slot + 1) (pred_numeral n)))
      else Inl WildAccess)"
  by (simp add: numeral_eq_Suc)

lemma rehash_numeral:
  "rehash_loop E i (numeral n) old new =
     (if hashv (paData old ! i) \<noteq> UNUSED then
        (case pair (paData old ! i) of
           None \<Rightarrow> (old, Inl WildAccess)
         | Some (k, v) \<Rightarrow>
             (case pa_index (E\<lparr>roomKey := roomMove E\<rparr>) new k of
                (new', Inl e) \<Rightarrow> (old, Inl e)
              | (new', Inr s) \<Rightarrow>
                  if roomVal E new' v then
                    rehash_loop E (Suc i) (pred_numeral n)
                      (old\<lparr>paData := (paData old)[i := unused_slot]\<rparr>) (pa_store new' s v)
                  else (old, Inl NotEnoughSpace)))
      else rehash_loop E (Suc i) (pred_numeral n) old new)"
  by (simp add: numeral_eq_Suc)

lemma update_numeral: "(x # xs)[numeral n := y] = x # xs[pred_numeral n := y]"
  by (simp add: numeral_eq_Suc)

lemma replicate_num: "replicate (numeral n) x = x # replicate (pred_numeral n) x"
  by (simp add: numeral_eq_Suc)

lemma UNUSED_neq [simp]: "3 \<noteq> UNUSED" "6 \<noteq> UNUSED" "9 \<noteq> UNUSED" "UNUSED \<noteq> 3" "UNUSED \<noteq> 6" "UNUSED \<noteq> 9"
  by (simp_all add: UNUSED_def)

lemma pa_new_8: "pa_new 8 = Inr \<lparr>paUsed = 0, paNum = 8, paMax = 5, paData = replicate 8 unused_slot\<rparr>"
  by (simp add: pa_new_def got_power_32 fill_limit_def del: One_nat_def)

lemmas table_eval = map_index_def pa_count_def pa_probe_def pa_isOverFull_def pa_doubleArray_def
  pa_new_8 pa_index_def pa_store_def demo_env_def demo_map_def unused_slot_def hasher_def u32_def
  probe_numeral rehash_numeral update_numeral replicate_num

lemma demo_map_holds:
  "holdsAt (paData (mapArray demo_map)) i k v \<longleftrightarrow>
     i = 0 \<and> k = 3 \<and> v = 30 \<or> i = 1 \<and> k = 6 \<and> v = 60"
  by (auto simp: holdsAt_def demo_map_def unused_slot_def dest!: nth_cases4)

lemma demo_map_inv: "map_inv (demo_env\<lparr>roomMove := f\<rparr>) demo_map"
proof -
  let ?d = "paData (mapArray demo_map)"
  have "used_set ?d \<subseteq> {0, 1}"
    by (auto simp: used_set_def demo_map_def unused_slot_def dest!: nth_cases4)
  then have "card (used_set ?d) \<le> 2"
    using card_mono[of "{0, 1::nat}" "used_set ?d"] by (simp add: numeral_2_eq_2)
  moreover have "slots_ok (demo_env\<lparr>roomMove := f\<rparr>) ?d"
    by (auto simp: slots_ok_def slot_ok_def demo_map_def unused_slot_def demo_env_def hasher_def
      UNUSED_def dest!: nth_cases4)
  moreover have "keys_once ?d" unfolding keys_once_def demo_map_holds by auto
  moreover have "reachable_slots (demo_env\<lparr>roomMove := f\<rparr>) ?d"
    unfolding reachable_slots_def demo_map_holds
    by (auto simp: demo_map_def startOf_def demo_env_def hasher_def UNUSED_def path_used_def)
  ultimately show ?thesis
    by (simp add: map_inv_def pa_inv_def demo_env_def demo_map_def fill_limit_def)
qed

theorem map_index_refines_witness:
  "case map_index demo_env demo_map 9 of
     (m', Inr s) \<Rightarrow> map_contents (map_store m' s 90) = (map_contents demo_map)(9 \<mapsto> 90)
       \<and> map_load m' s = Inr 0
   | (m', Inl e) \<Rightarrow> False"
proof -
  have inv: "map_inv demo_env demo_map"
    using demo_map_inv[of "roomMove demo_env"] by (simp add: demo_env_def)
  have n: "map_contents demo_map 9 = None"
    by (simp add: map_contents_def pa_map_def pa_entries_def demo_map_def unused_slot_def
      map_filter_simps)
  have "\<exists>m' s. map_index demo_env demo_map 9 = (m', Inr s)"
    by (simp add: table_eval)
  then show ?thesis
    using map_index_refines[OF inv, of 9 90] n
    by (auto simp: demo_env_def split: prod.splits sum.splits)
qed

text \<open>A doubling that throws loses entries. \<open>doubleArray\<close> destroys each slot of the old array right
  after copying it, and the new array is dropped with the exception: when a copy throws at slot
  \<open>j\<close>, every entry in the slots before \<open>j\<close> is in neither array, and the map goes on with the old one.\<close>

theorem double_array_throw_loses:
  assumes "pa_inv E pa" "paNum pa \<le> 2 ^ 30" "roomArr E (2 * paNum pa)"
    and "pa_doubleArray E pa = (old, Inl e)"
  shows "e = NotEnoughSpace \<and> (\<exists>j < paNum pa.
      paData old = replicate j unused_slot @ drop j (paData pa)
      \<and> (\<forall>i k v. i < j \<longrightarrow> holdsAt (paData pa) i k v \<longrightarrow> (\<forall>i' v'. \<not> holdsAt (paData old) i' k v')))"
proof -
  have ok: "slots_ok E (paData pa)" and once: "keys_once (paData pa)"
    and len: "length (paData pa) = paNum pa" and N: "2 \<le> paNum pa"
    and c: "card (used_set (paData pa)) \<le> fill_limit (paNum pa)"
    using assms(1) by (auto simp: pa_inv_def)
  have u: "u32 (paNum pa * 2) = 2 * paNum pa" using assms(2) by simp
  have "2 \<le> 2 * paNum pa" "2 * paNum pa \<le> 2 ^ 31" using N assms(2) by auto
  then obtain n0 where n0: "pa_new (2 * paNum pa) = Inr n0" "pa_inv E n0" "pa_map n0 = Map.empty"
    "paUsed n0 = 0" "paMax n0 = fill_limit (2 * paNum pa)"
    by (rule pa_new_ok[where 'a = 'a and 'b = 'b])
  have D: "pa_doubleArray E pa = rehash_loop E 0 (paNum pa) pa n0"
    using assms(3) u n0(1) by (simp add: pa_doubleArray_def)
  have "rehash_result E 0 pa n0 (pa_doubleArray E pa)"
    unfolding D using distinct_entries[OF once] n0 c fill_limit_bounds(3)[OF N]
      length_entries[OF once]
    by (intro rehash_loop_spec[OF ok]) (simp_all add: len)
  then obtain j where j: "e = NotEnoughSpace" "j < paNum pa"
    "paData old = replicate j unused_slot @ drop j (paData pa)"
    using assms(4) len by (auto simp: rehash_result_def)
  have gone: "\<not> holdsAt (paData old) i' k v'" if h: "i < j" "holdsAt (paData pa) i k v" for i i' k v v'
  proof
    assume a: "holdsAt (paData old) i' k v'"
    have "\<not> i' < j" using a j(3) by (auto simp: holdsAt_def nth_append unused_slot_def)
    then have "holdsAt (paData pa) i' k v'"
      using a j len by (simp add: holdsAt_def nth_append)
    then have "i = i'" using once h(2) unfolding keys_once_def by blast
    with \<open>\<not> i' < j\<close> h(1) show False by simp
  qed
  then show ?thesis using j by blast
qed

theorem double_array_throw_loses_witness:
  "\<exists>old. pa_doubleArray (demo_env\<lparr>roomMove := \<lambda>_ k. k \<noteq> 6\<rparr>) (mapArray demo_map) = (old, Inl NotEnoughSpace)
     \<and> holdsAt (paData (mapArray demo_map)) 0 3 30 \<and> \<not> holdsAt (paData old) 0 3 30"
proof -
  let ?E = "demo_env\<lparr>roomMove := \<lambda>_ k. k \<noteq> 6\<rparr>"
  have inv: "pa_inv ?E (mapArray demo_map)" using demo_map_inv by (simp add: map_inv_def)
  obtain old where r: "pa_doubleArray ?E (mapArray demo_map) = (old, Inl NotEnoughSpace)"
    "paData old ! 0 = unused_slot"
    by (simp add: table_eval)
  have "NotEnoughSpace = NotEnoughSpace \<and> (\<exists>j < paNum (mapArray demo_map).
      paData old = replicate j unused_slot @ drop j (paData (mapArray demo_map))
      \<and> (\<forall>i k v. i < j \<longrightarrow> holdsAt (paData (mapArray demo_map)) i k v \<longrightarrow>
            (\<forall>i' v'. \<not> holdsAt (paData old) i' k v')))"
    by (rule double_array_throw_loses[OF inv _ _ r(1)]) (simp_all add: demo_map_def demo_env_def)
  then have "\<not> holdsAt (paData old) 0 3 30"
    using r(2) by (auto simp: holdsAt_def unused_slot_def)
  then show ?thesis using r(1) demo_map_holds by blast
qed

text \<open>\<open>setUnused\<close> marks the slot unused and leaves no tombstone: when the slot of the removed key
  \<open>a\<close> lies on the probe path of another key \<open>b\<close>, that key's entry is still stored but \<open>count\<close> no
  longer finds it.\<close>

theorem setUnused_hides_entries:
  assumes inv: "pa_inv E pa"
    and a: "holdsAt (paData pa) ((startOf E (paNum pa) b + p) mod paNum pa) a va"
    and b: "holdsAt (paData pa) ((startOf E (paNum pa) b + q) mod paNum pa) b vb"
    and pq: "p < q" "q < paNum pa"
    and pth: "path_used (paData pa) (startOf E (paNum pa) b) p"
  shows "\<exists>pa'. pa_setUnused E pa a = Inr pa'
      \<and> holdsAt (paData pa') ((startOf E (paNum pa) b + q) mod paNum pa) b vb
      \<and> pa_count E pa' b = Inr 0"
proof -
  let ?N = "paNum pa" and ?d = "paData pa" and ?s = "startOf E (paNum pa) b"
  let ?i = "(?s + p) mod ?N" and ?j = "(?s + q) mod ?N"
  let ?pa = "pa\<lparr>paData := ?d[?i := unused_slot]\<rparr>"
  have len: "length ?d = ?N" and N: "2 \<le> ?N" "?N \<le> 2 ^ 31" and ok: "slots_ok E ?d" and once: "keys_once ?d"
    using inv by (auto simp: pa_inv_def)
  have ne: "?i \<noteq> ?j" using cyclic_inj[of ?s p ?N q] pq by auto
  have il: "?i < length ?d" using a by auto
  have st: "pa_setUnused E pa a = Inr ?pa"
    using probe_present[OF inv a] by (simp add: pa_setUnused_def)
  have hb: "holdsAt (paData ?pa) ?j b vb"
    using b ne il by (simp add: holdsAt_update)
  have ok': "slots_ok E (paData ?pa)" using slots_ok_update[OF ok slot_ok_unused] by simp
  have "\<exists>k v. pair (paData ?pa ! ((?s + m) mod ?N)) = Some (k, v) \<and> k \<noteq> b" if m: "m < p" for m
  proof -
    let ?l = "(?s + m) mod ?N"
    have li: "?l \<noteq> ?i" "?l \<noteq> ?j"
      using cyclic_inj[of ?s m ?N p] cyclic_inj[of ?s m ?N q] pq m by auto
    have "pair (?d ! ?l) \<noteq> None" using pth m len by (simp add: path_used_def)
    then obtain k v where kv: "pair (?d ! ?l) = Some (k, v)" by auto
    moreover have "?l < length ?d" using len N by simp
    ultimately have "holdsAt ?d ?l k v" by (simp add: holdsAt_def)
    then have "k \<noteq> b" using once b li(2) unfolding keys_once_def by blast
    then show ?thesis using kv li(1) by simp
  qed
  then have M: "\<forall>m < p. \<exists>k v. pair (paData ?pa ! ((?s + m) mod ?N)) = Some (k, v) \<and> k \<noteq> b"
    by blast
  have "probe (paData ?pa) ?N (hasher (khash E) b) b ?s ?N = Inr (EmptySlot ?i)"
    by (rule probe_run(1)[OF ok' _ _ start_less[OF N(1)] _ M])
      (use len N pq il in \<open>simp_all add: unused_slot_def\<close>)
  then have "pa_probe E ?pa b = Inr (EmptySlot ?i)"
    using N by (simp add: pa_probe_def u32_pred startOf_def)
  then have "pa_count E ?pa b = Inr 0" by (simp add: pa_count_def)
  with st hb show ?thesis by blast
qed

theorem setUnused_hides_entries_witness:
  "\<exists>pa'. pa_setUnused demo_env (mapArray demo_map) 3 = Inr pa'
     \<and> holdsAt (paData pa') 1 6 60 \<and> pa_count demo_env pa' 6 = Inr 0"
proof -
  have inv: "pa_inv demo_env (mapArray demo_map)"
    using demo_map_inv[of "roomMove demo_env"] by (simp add: demo_env_def map_inv_def)
  have s: "startOf demo_env (paNum (mapArray demo_map)) 6 = 0" "paNum (mapArray demo_map) = 4"
    by (simp_all add: startOf_def demo_env_def hasher_def demo_map_def)
  show ?thesis
    using setUnused_hides_entries[OF inv, where b = 6 and p = 0 and q = 1 and a = 3] s
    by (auto simp: demo_map_holds path_used_def)
qed

text \<open>C38: the iteration from \<open>begin ()\<close> to \<open>end ()\<close> ends and visits every entry of the map exactly
  once.\<close>

theorem iteration_visits_each_entry_once:
  assumes "pa_inv E pa"
  shows "\<exists>ss. iter_collect (paNum pa) pa (iter_begin pa) = Some ss
     \<and> distinct (map (fst \<circ> the \<circ> pair) ss)
     \<and> (\<forall>k v. pa_map pa k = Some v \<longleftrightarrow> (\<exists>s \<in> set ss. pair s = Some (k, v)))"
proof -
  let ?d = "paData pa"
  let ?ss = "filter (\<lambda>x. hashv x \<noteq> UNUSED) ?d"
  have len: "length ?d = paNum pa" and ok: "slots_ok E ?d" and once: "keys_once ?d"
    using assms by (auto simp: pa_inv_def)
  have u: "hashv x \<noteq> UNUSED \<longleftrightarrow> pair x \<noteq> None" if "x \<in> set ?d" for x
    using that slots_ok_used[OF ok] by (auto simp: in_set_conv_nth)
  have "map (the \<circ> pair) ?ss = List.map_filter pair ?d"
    using u unfolding map_filter_def by (simp cong: filter_cong)
  then have "map (fst \<circ> the \<circ> pair) ?ss = map fst (List.map_filter pair ?d)"
    by (metis comp_assoc map_map)
  then have "distinct (map (fst \<circ> the \<circ> pair) ?ss)" using distinct_entries[OF once] by simp
  moreover have "pa_map pa k = Some v \<longleftrightarrow> (\<exists>s \<in> set ?ss. pair s = Some (k, v))" for k v
    unfolding pa_map_iff[OF once] holdsAt_def using u by (auto simp: in_set_conv_nth)
  moreover have "iter_collect (paNum pa) pa (iter_begin pa) = Some ?ss"
    using iter_collect_from[of 0 pa "paNum pa"] len length_filter_le[of "\<lambda>x. hashv x \<noteq> UNUSED" ?d]
    by (simp add: iter_begin_def Let_def)
  ultimately show ?thesis by blast
qed

theorem iteration_visits_each_entry_once_witness:
  "\<exists>ss. iter_collect 4 (mapArray demo_map) (iter_begin (mapArray demo_map)) = Some ss
     \<and> (\<exists>s \<in> set ss. pair s = Some (6, 60))"
proof -
  have inv: "pa_inv demo_env (mapArray demo_map)"
    using demo_map_inv[of "roomMove demo_env"] by (simp add: demo_env_def map_inv_def)
  have "pa_map (mapArray demo_map) 6 = Some 60"
    by (simp add: pa_map_def pa_entries_def demo_map_def map_filter_simps)
  moreover have "paNum (mapArray demo_map) = 4" by (simp add: demo_map_def)
  ultimately show ?thesis using iteration_visits_each_entry_once[OF inv] by metis
qed

lemma pa_copy_loop_spec:
  assumes "slots_ok E src" "length dst = length src" "i + n = length src" "take i dst = take i src"
  shows "pa_copy_loop room i n src dst = (src, Inr ())
    \<or> (\<exists>j < length src. \<not> room (src ! j) \<and> pa_copy_loop room i n src dst =
          (take j src @ replicate (length src - j) unused_slot, Inl NotEnoughSpace))"
  using assms
proof (induction n arbitrary: i dst)
  case (Suc n)
  have i: "i < length src" "i < length dst" and i': "Suc i + n = length src"
    using Suc.prems by auto
  have pre: "take (Suc i) (dst[i := src ! i]) = take (Suc i) src"
    using Suc.prems(4) i by (simp add: take_Suc_conv_app_nth)
  show ?case
  proof (cases "hashv (src ! i) = UNUSED")
    case True
    then have "pair (src ! i) = None" using slots_ok_used[OF Suc.prems(1) i(1)] by simp
    then have "src ! i = unused_slot" using True by (simp add: unused_slot_def)
    then show ?thesis using Suc.IH[OF Suc.prems(1) _ i' pre] True Suc.prems(2) by simp
  next
    case False
    have n: "length src - i = Suc n" using Suc.prems(3) by simp
    show ?thesis
    proof (cases "room (src ! i)")
      case True
      then show ?thesis using Suc.IH[OF Suc.prems(1) _ i' pre] False Suc.prems(2) by simp
    next
      case noroom: False
      then show ?thesis using False Suc.prems(4) i(1) n by (intro disjI2 exI[of _ i]) simp
    qed
  qed
qed simp

text \<open>The deep copy of a hash table is all or a clean prefix: either the target equals the source,
  or a copy threw at some slot \<open>j\<close>, and then the target has the source's slots before \<open>j\<close>, unused
  slots from \<open>j\<close> on (never one that was not constructed), and a disabled destructor.\<close>

theorem table_deep_copy_safe:
  assumes "pa_inv E pa" "length raw = paNum pa"
  shows "pa_setUpAndCopyFrom primitive room raw pa = (pa, False, Inr ())
    \<or> (\<exists>j < paNum pa. \<not> room (paData pa ! j) \<and> \<not> primitive \<and>
         pa_setUpAndCopyFrom primitive room raw pa =
           (pa\<lparr>paData := take j (paData pa) @ replicate (paNum pa - j) unused_slot\<rparr>,
            True, Inl NotEnoughSpace))"
proof -
  have ok: "slots_ok E (paData pa)" and len: "length (paData pa) = paNum pa"
    using assms(1) by (auto simp: pa_inv_def)
  show ?thesis
    using pa_copy_loop_spec[OF ok, of raw 0 "paNum pa" room] assms(2) len
    by (auto simp: pa_setUpAndCopyFrom_def)
qed

theorem table_deep_copy_safe_witness:
  "\<exists>pa. pa_setUpAndCopyFrom False (\<lambda>s. pair s \<noteq> Some (6, 60)) (replicate 4 \<lparr>hashv = 7, pair = None\<rparr>)
      (mapArray demo_map) = (pa, True, Inl NotEnoughSpace)"
proof -
  have inv: "pa_inv demo_env (mapArray demo_map)"
    using demo_map_inv[of "roomMove demo_env"] by (simp add: demo_env_def map_inv_def)
  have "snd (pa_copy_loop (\<lambda>s. pair s \<noteq> Some (6, 60)) 0 (Suc (Suc (Suc (Suc 0))))
      (paData (mapArray demo_map)) (replicate 4 \<lparr>hashv = 7, pair = None\<rparr>)) = Inl NotEnoughSpace"
    by (simp add: demo_map_def)
  moreover have "paNum (mapArray demo_map) = Suc (Suc (Suc (Suc 0)))" by (simp add: demo_map_def)
  ultimately have "snd (snd (pa_setUpAndCopyFrom False (\<lambda>s. pair s \<noteq> Some (6, 60))
      (replicate 4 \<lparr>hashv = 7, pair = None\<rparr>) (mapArray demo_map))) = Inl NotEnoughSpace"
    by (simp add: pa_setUpAndCopyFrom_def split_def del: pa_copy_loop.simps)
  then show ?thesis
    using table_deep_copy_safe[OF inv, of "replicate 4 \<lparr>hashv = 7, pair = None\<rparr>" False
      "\<lambda>s. pair s \<noteq> Some (6, 60)"] by (auto simp del: pa_copy_loop.simps simp: demo_map_def)
qed

end
