(* ===== verification/HashSinks.thy ===== *)
theory HashSinks
  imports HashMaps
begin

text \<open>
  The aggregation sink: \<open>HashSink::writeOut\<close> (\<open>src/src/lambdas/headers/HashSink.h\<close>), which folds a
  column of keys and a column of values into the hash table of the output page and, when that page is
  full, drops the rows it has processed from the columns so that the caller can go on with a new page.

  The loop is written over the table's operations and used with those of \<open>HashMaps\<close>. Parameters:
  \<open>addV\<close> is the value type's \<open>operator+\<close>; \<open>roomPut\<close> and \<open>roomSum\<close> say whether the assignment of a
  value, or of a sum, through the table's reference succeeds.
\<close>

record ('m, 'v) sink_env =
  addV :: "'v \<Rightarrow> 'v \<Rightarrow> 'v"
  roomPut :: "'m \<Rightarrow> 'v \<Rightarrow> bool"
  roomSum :: "'m \<Rightarrow> 'v \<Rightarrow> bool"

text \<open>One row. A thrown \<open>NotEnoughSpace\<close> is an \<open>Inl\<close>; the handlers' repairs of the table are done.\<close>

definition write_row ::
  "('m, 'k, 'v, 'r) table_ops \<Rightarrow> ('m, 'v) sink_env \<Rightarrow> 'm \<Rightarrow> 'k \<Rightarrow> 'v \<Rightarrow> 'm \<times> unit outcome" where
  "write_row T S m k v =
     (case tCount T m k of
        Inl e \<Rightarrow> (m, Inl e)
      | Inr c \<Rightarrow>
          if c = 0 then
            (case tIndex T m k of
               (m', Inl e) \<Rightarrow> (m', Inl e)
             | (m', Inr r) \<Rightarrow>
                 if roomPut S m' v then (tStore T m' r v, Inr ())
                 else (case tUnset T m' k of
                         Inl e \<Rightarrow> (m', Inl e)
                       | Inr m'' \<Rightarrow> (m'', Inl NotEnoughSpace)))
          else
            (case tIndex T m k of
               (m', Inl e) \<Rightarrow> (m', Inl e)
             | (m', Inr r) \<Rightarrow>
                 (case tLoad T m' r of
                    Inl e \<Rightarrow> (m', Inl e)
                  | Inr copy \<Rightarrow>
                      if roomSum S m' (addV S copy v) then (tStore T m' r (addV S copy v), Inr ())
                      else (tStore T m' r copy, Inl NotEnoughSpace))))"

text \<open>The loop, from row \<open>i\<close> on with \<open>n\<close> rows to go; the columns are erased up to the failing row
  by the handlers of \<open>NotEnoughSpace\<close>.\<close>

fun write_rows ::
  "('m, 'k, 'v, 'r) table_ops \<Rightarrow> ('m, 'v) sink_env \<Rightarrow> nat \<Rightarrow> nat \<Rightarrow> 'm \<Rightarrow> 'k list \<Rightarrow> 'v list
     \<Rightarrow> 'm \<times> 'k list \<times> 'v list \<times> unit outcome" where
  "write_rows T S i 0 m ks vs = (m, ks, vs, Inr ())"
| "write_rows T S i (Suc n) m ks vs =
     (if i < length ks \<and> i < length vs then
        (case write_row T S m (ks ! i) (vs ! i) of
           (m', Inr _) \<Rightarrow> write_rows T S (Suc i) n m' ks vs
         | (m', Inl NotEnoughSpace) \<Rightarrow> (m', drop i ks, drop i vs, Inl NotEnoughSpace)
         | (m', Inl e) \<Rightarrow> (m', ks, vs, Inl e))
      else (m, ks, vs, Inl WildAccess))"

definition hash_sink_writeOut ::
  "('k, 'v) menv \<Rightarrow> (('k, 'v) pmap, 'v) sink_env \<Rightarrow> ('k, 'v) pmap \<Rightarrow> 'k list \<Rightarrow> 'v list
     \<Rightarrow> ('k, 'v) pmap \<times> 'k list \<times> 'v list \<times> unit outcome" where
  "hash_sink_writeOut E S m ks vs = write_rows (map_ops E) S 0 (length ks) m ks vs"

definition hash_sink_new :: "('k, 'v) menv \<Rightarrow> ('k, 'v) pmap outcome" where
  "hash_sink_new E = map_new E"

section \<open>The aggregate\<close>

text \<open>What the rows add up to on top of the contents \<open>c\<close>.\<close>

definition agg_row :: "('v \<Rightarrow> 'v \<Rightarrow> 'v) \<Rightarrow> ('k \<Rightarrow> 'v option) \<Rightarrow> 'k \<times> 'v \<Rightarrow> 'k \<Rightarrow> 'v option" where
  "agg_row f c kv = c(fst kv \<mapsto> (case c (fst kv) of None \<Rightarrow> snd kv | Some w \<Rightarrow> f w (snd kv)))"

definition aggregate ::
  "('v \<Rightarrow> 'v \<Rightarrow> 'v) \<Rightarrow> ('k \<Rightarrow> 'v option) \<Rightarrow> ('k \<times> 'v) list \<Rightarrow> 'k \<Rightarrow> 'v option" where
  "aggregate f c kvs = foldl (agg_row f) c kvs"

context key_table
begin

lemma write_row_cases:
  assumes "inv m"
  obtains (written) m' where "write_row T S m k v = (m', Inr ())" "inv m'"
      "contents m' = agg_row (addV S) (contents m) (k, v)"
  | (full) m' where "write_row T S m k v = (m', Inl NotEnoughSpace)" "inv m'"
      "contents m' = contents m"
  using assms
proof (cases rule: index_cases[of m k])
  case (hit r w)
  let ?s = "addV S w v"
  have "write_row T S m k v =
      (if roomSum S m ?s then (tStore T m r ?s, Inr ()) else (tStore T m r w, Inl NotEnoughSpace))"
    using hit by (simp add: write_row_def)
  moreover have "contents (tStore T m r w) = contents m"
    using store_contents[OF assms hit(4)] hit(1) by auto
  ultimately show thesis
    using that(1)[of "tStore T m r ?s"] that(2)[of "tStore T m r w"] store_inv[OF assms hit(4)]
      store_contents[OF assms hit(4)] hit(1) by (auto simp: agg_row_def split: if_splits)
next
  case (refused m')
  then have "write_row T S m k v = (m', Inl NotEnoughSpace)" by (simp add: write_row_def)
  then show thesis using that(2) refused by blast
next
  case (added m' r m'')
  then have "write_row T S m k v =
      (if roomPut S m' v then (tStore T m' r v, Inr ()) else (m'', Inl NotEnoughSpace))"
    by (simp add: write_row_def)
  then show thesis
    using that(1)[of "tStore T m' r v"] that(2)[of m''] store_inv[OF added(4,5)]
      store_contents[OF added(4,5)] added by (auto simp: agg_row_def split: if_splits)
qed

lemma write_rows_cases:
  assumes "inv m" "length ks = length vs" "i + n = length ks"
  shows "(\<exists>m'. write_rows T S i n m ks vs = (m', ks, vs, Inr ()) \<and> inv m'
            \<and> contents m' = aggregate (addV S) (contents m) (drop i (zip ks vs)))
    \<or> (\<exists>m' j. i \<le> j \<and> j < length ks
            \<and> write_rows T S i n m ks vs = (m', drop j ks, drop j vs, Inl NotEnoughSpace) \<and> inv m'
            \<and> contents m' = aggregate (addV S) (contents m) (take (j - i) (drop i (zip ks vs))))"
  using assms
proof (induction n arbitrary: i m)
  case 0
  then show ?case by (simp add: aggregate_def)
next
  case (Suc n)
  have i: "i < length ks" "i < length vs" using Suc.prems by auto
  have dz: "drop i (zip ks vs) = (ks ! i, vs ! i) # drop (Suc i) (zip ks vs)"
    using i by (simp add: Cons_nth_drop_Suc[symmetric])
  show ?case
  proof (cases rule: write_row_cases[OF Suc.prems(1), of S "ks ! i" "vs ! i"])
    case (1 m')
    then have eq: "write_rows T S i (Suc n) m ks vs = write_rows T S (Suc i) n m' ks vs"
      using i by simp
    have ag: "aggregate (addV S) (contents m) ((ks ! i, vs ! i) # r) =
        aggregate (addV S) (contents m') r" for r
      using 1(3) by (simp add: aggregate_def)
    have "Suc i + n = length ks" using Suc.prems(3) by simp
    from Suc.IH[OF 1(2) Suc.prems(2) this] show ?thesis
    proof (elim disjE exE conjE)
      fix m1 j assume "Suc i \<le> j" and a: "j < length ks"
        "write_rows T S (Suc i) n m' ks vs = (m1, drop j ks, drop j vs, Inl NotEnoughSpace)" "inv m1"
        "contents m1 = aggregate (addV S) (contents m') (take (j - Suc i) (drop (Suc i) (zip ks vs)))"
      then have ji: "j - i = Suc (j - Suc i)" "i \<le> j" by auto
      have "contents m1 = aggregate (addV S) (contents m) (take (j - i) (drop i (zip ks vs)))"
        unfolding dz ji(1) take_Suc_Cons ag using a(4) .
      then show ?thesis unfolding eq using a ji(2) by blast
    next
      fix m1
      assume "write_rows T S (Suc i) n m' ks vs = (m1, ks, vs, Inr ())" "inv m1"
        "contents m1 = aggregate (addV S) (contents m') (drop (Suc i) (zip ks vs))"
      then show ?thesis unfolding eq dz ag by blast
    qed
  next
    case (2 m')
    then have "write_rows T S i (Suc n) m ks vs = (m', drop i ks, drop i vs, Inl NotEnoughSpace)"
      using i by simp
    moreover have "contents m' = aggregate (addV S) (contents m) (take (i - i) (drop i (zip ks vs)))"
      using 2 by (simp add: aggregate_def)
    ultimately show ?thesis using 2(2) i(1) by blast
  qed
qed

end

section \<open>Properties\<close>

text \<open>C17: \<open>HashSink::writeOut\<close> is resumable, provided that moving the entries of the map into
  an array of twice the size never throws (\<open>moves_ok\<close>; \<open>PairArray::doubleArray\<close> loses entries when it
  does). Either all rows are aggregated into the map, or it throws
  \<open>NotEnoughSpace\<close> at some row \<open>j\<close>: then the map holds exactly the aggregate of the rows before \<open>j\<close>
  (the half-added or half-updated key is undone) and the columns hold exactly the rows from \<open>j\<close> on, so
  that aggregating the rest elsewhere loses and repeats no row.\<close>

theorem writeOut_resumable:
  assumes "map_inv E m" "moves_ok E" "length ks = length vs"
  shows "case hash_sink_writeOut E S m ks vs of
      (m', ks', vs', Inr _) \<Rightarrow>
        map_inv E m' \<and> map_contents m' = aggregate (addV S) (map_contents m) (zip ks vs)
    | (m', ks', vs', Inl e) \<Rightarrow>
        e = NotEnoughSpace \<and> map_inv E m'
        \<and> (\<exists>j < length ks. ks' = drop j ks \<and> vs' = drop j vs
             \<and> map_contents m' = aggregate (addV S) (map_contents m) (take j (zip ks vs))
             \<and> aggregate (addV S) (map_contents m') (zip ks' vs')
                 = aggregate (addV S) (map_contents m) (zip ks vs))"
proof -
  have m: "map_inv E m \<and> moves_ok E" using assms by simp
  have rest: "aggregate f (aggregate f c (take j (zip ks vs))) (zip (drop j ks) (drop j vs))
      = aggregate f c (zip ks vs)" for f j and c :: "'a \<Rightarrow> 'b option"
    unfolding aggregate_def foldl_append[symmetric] drop_zip[symmetric] by simp
  from hmap.write_rows_cases[OF m assms(3) add_0, of S] show ?thesis
    unfolding hash_sink_writeOut_def
    by (elim disjE exE conjE) (auto simp: rest)
qed

definition demo_sink :: "((nat, nat) pmap, nat) sink_env" where
  "demo_sink = \<lparr>addV = (+), roomPut = (\<lambda>_ v. v < 100), roomSum = (\<lambda>_ v. v < 100)\<rparr>"

theorem writeOut_resumable_witness:
  "\<exists>m'. hash_sink_writeOut demo_env demo_sink demo_map [6, 3, 6] [5, 80, 7]
      = (m', [3, 6], [80, 7], Inl NotEnoughSpace)
    \<and> map_contents m' = aggregate (+) (map_contents demo_map) [(6, 5)]"
proof -
  have inv: "map_inv demo_env demo_map"
    using demo_map_inv[of "roomMove demo_env"] by (simp add: demo_env_def)
  have mv: "moves_ok demo_env" by (simp add: moves_ok_def demo_env_def)
  obtain m' where r: "hash_sink_writeOut demo_env demo_sink demo_map [6, 3, 6] [5, 80, 7]
      = (m', [3, 6], [80, 7], Inl NotEnoughSpace)"
    by (simp add: hash_sink_writeOut_def write_row_def demo_sink_def map_ops_def table_eval
      map_count_def map_load_def map_store_def pa_load_def)
  have "NotEnoughSpace = NotEnoughSpace \<and> map_inv demo_env m'
      \<and> (\<exists>j < length [6, 3, 6::nat]. [3, 6] = drop j [6, 3, 6::nat] \<and> [80, 7] = drop j [5, 80, 7::nat]
           \<and> map_contents m' = aggregate (addV demo_sink) (map_contents demo_map)
                (take j (zip [6, 3, 6] [5, 80, 7]))
           \<and> aggregate (addV demo_sink) (map_contents m') (zip [3, 6] [80, 7])
                 = aggregate (addV demo_sink) (map_contents demo_map) (zip [6, 3, 6] [5, 80, 7]))"
    using writeOut_resumable[OF inv mv, of "[6, 3, 6]" "[5, 80, 7]" demo_sink] unfolding r by simp
  then obtain j where j: "[3, 6] = drop j [6, 3, 6::nat]" "j < 3"
    "map_contents m' = aggregate (addV demo_sink) (map_contents demo_map)
       (take j (zip [6, 3, 6] [5, 80, 7]))" by auto
  have "j = 1" using arg_cong[OF j(1), of length] j(2) by simp
  then show ?thesis using r j(3) by (simp add: demo_sink_def)
qed

end
