(* ===== verification/BlockAllocator.thy ===== *)
theory BlockAllocator
  imports Prelude
begin

text \<open>
  The block allocator of the object model (\<open>src/src/objectModel/headers/Allocator.h\<close> and
  \<open>Allocator.cc\<close>): one active allocation block that objects are carved from, free chunks in 32
  buckets by size, inactive blocks that are given back when their last object dies, allocation
  policies, and the temporary switch to another block.

  Addresses are numbers, 0 the null pointer. The bytes the allocator reads and writes are two maps:
  \<open>blk\<close> gives the header at a block's start (bytes used, offset of the root object, number of active
  objects) and \<open>csize\<close> the length stored in front of a chunk. \<open>released\<close> lists the blocks handed to
  \<open>free ()\<close>. What \<open>malloc\<close> returns is an argument of the operations that call it.
\<close>

section \<open>State\<close>

record block_hdr =
  lastUsed :: nat
  rootOffset :: nat
  refCnt :: nat

record astate =
  activeRAM :: nat
  numBytes :: nat
  throwExc :: bool
  userSupplied :: bool
  chunks :: "nat list list"

datatype apolicy = DefaultAllocator | NoReuseAllocator | NoReferenceCountAllocator

record allocator =
  policies :: "(apolicy \<times> bool) list"
  my :: astate
  inactives :: "(nat \<times> nat) list"
  blk :: "nat \<Rightarrow> block_hdr"
  csize :: "nat \<Rightarrow> nat"
  released :: "nat list"

definition HEADER_SIZE :: nat where "HEADER_SIZE = 20"

definition CHUNK_HEADER_SIZE :: nat where "CHUNK_HEADER_SIZE = 4"

definition upd_blk :: "nat \<Rightarrow> (block_hdr \<Rightarrow> block_hdr) \<Rightarrow> allocator \<Rightarrow> allocator" where
  "upd_blk s f a = a\<lparr>blk := (blk a)(s := f (blk a s))\<rparr>"

definition inc_ref :: "block_hdr \<Rightarrow> block_hdr" where
  "inc_ref h = h\<lparr>refCnt := u32 (refCnt h + 1)\<rparr>"

definition dec_ref :: "block_hdr \<Rightarrow> block_hdr" where
  "dec_ref h = h\<lparr>refCnt := u32 (refCnt h + 4294967295)\<rparr>"

section \<open>Getting and freeing RAM\<close>

text \<open>\<open>31 - __builtin_clz (n)\<close> for a positive \<open>n\<close>: the position of its highest bit.\<close>

fun bucket :: "nat \<Rightarrow> nat" where
  "bucket n = (if n \<le> 1 then 0 else Suc (bucket (n div 2)))"

declare bucket.simps [simp del]

definition bytes_needed :: "nat \<Rightarrow> nat" where
  "bytes_needed howMuch =
     (let b = u32 (CHUNK_HEADER_SIZE + howMuch)
      in if b mod 4 \<noteq> 0 then u32 (b + (4 - b mod 4)) else b)"

text \<open>One bucket is searched from its last chunk to its first, the buckets upwards.\<close>

fun scan_bucket :: "(nat \<Rightarrow> nat) \<Rightarrow> nat \<Rightarrow> nat list \<Rightarrow> nat \<Rightarrow> nat option" where
  "scan_bucket cs need c 0 = None"
| "scan_bucket cs need c (Suc j) =
     (if need \<le> cs (c ! j) then Some j else scan_bucket cs need c j)"

fun scan_buckets :: "(nat \<Rightarrow> nat) \<Rightarrow> nat \<Rightarrow> nat list list \<Rightarrow> nat \<Rightarrow> nat \<Rightarrow> (nat \<times> nat) option" where
  "scan_buckets cs need b i 0 = None"
| "scan_buckets cs need b i (Suc n) =
     (case scan_bucket cs need (b ! i) (length (b ! i)) of
        Some j \<Rightarrow> Some (i, j)
      | None \<Rightarrow> scan_buckets cs need b (Suc i) n)"

definition erase_at :: "nat \<Rightarrow> 'a list \<Rightarrow> 'a list" where
  "erase_at j c = take j c @ drop (Suc j) c"

text \<open>Carving a chunk off the end of the active block.\<close>

definition carve :: "nat \<Rightarrow> allocator \<Rightarrow> allocator \<times> nat outcome" where
  "carve need a =
     (let s = activeRAM (my a); used = lastUsed (blk a s)
      in if numBytes (my a) < u64 (used + need)
         then (a, if throwExc (my a) then Inl NotEnoughSpace else Inr 0)
         else (upd_blk s (\<lambda>h. inc_ref (h\<lparr>lastUsed := used + need\<rparr>)) a
                 \<lparr>csize := (csize a)(s + used := need)\<rparr>,
               Inr (s + used + CHUNK_HEADER_SIZE)))"

definition default_getRAM :: "nat \<Rightarrow> allocator \<Rightarrow> allocator \<times> nat outcome" where
  "default_getRAM howMuch a =
     (let need = bytes_needed howMuch; b = chunks (my a) in
      if need = 0 then (a, Inl WildAccess)
      else (case scan_buckets (csize a) need b (bucket need) (32 - bucket need) of
              Some (i, j) \<Rightarrow>
                (upd_blk (activeRAM (my a)) inc_ref
                   (a\<lparr>my := (my a)\<lparr>chunks := b[i := erase_at j (b ! i)]\<rparr>\<rparr>),
                 Inr (b ! i ! j + CHUNK_HEADER_SIZE))
            | None \<Rightarrow> carve need a))"

definition fast_getRAM :: "nat \<Rightarrow> allocator \<Rightarrow> allocator \<times> nat outcome" where
  "fast_getRAM howMuch a = carve (bytes_needed howMuch) a"

text \<open>\<open>std::lower_bound\<close> on the inactive blocks, which are sorted by their ends.\<close>

definition lower_bound :: "nat \<Rightarrow> (nat \<times> nat) list \<Rightarrow> nat" where
  "lower_bound here l = length (takeWhile (\<lambda>b. snd b < here) l)"

definition find_inactive :: "nat \<Rightarrow> allocator \<Rightarrow> nat option" where
  "find_inactive here a =
     (let i = lower_bound here (inactives a)
      in if i < length (inactives a) \<and> \<not> here < fst (inactives a ! i) then Some i else None)"

definition default_freeRAM :: "bool \<Rightarrow> nat \<Rightarrow> allocator \<Rightarrow> allocator outcome" where
  "default_freeRAM isContained here a =
     (if isContained then
        (let c = here - CHUNK_HEADER_SIZE; k = bucket (csize a c); b = chunks (my a) in
         if csize a c = 0 then Inl WildAccess
         else Inr (upd_blk (activeRAM (my a)) dec_ref
                (a\<lparr>my := (my a)\<lparr>chunks := b[k := b ! k @ [c]]\<rparr>\<rparr>)))
      else
        (case find_inactive here a of
           None \<Rightarrow> Inr a
         | Some i \<Rightarrow>
             (let s = fst (inactives a ! i); a1 = upd_blk s dec_ref a in
              if refCnt (blk a1 s) = 0
              then Inr (a1\<lparr>released := s # released a1, inactives := erase_at i (inactives a1)\<rparr>)
              else Inr a1)))"

section \<open>Policies\<close>

fun unset_policy :: "(apolicy \<times> bool) list \<Rightarrow> (apolicy \<times> bool) list" where
  "unset_policy [] = []"
| "unset_policy ((q, u) # r) = (q, False) # unset_policy r"

fun set_policy :: "apolicy \<Rightarrow> (apolicy \<times> bool) list \<Rightarrow> (apolicy \<times> bool) list" where
  "set_policy p [] = []"
| "set_policy p ((q, u) # r) =
     (if q = p then (q, True) # unset_policy r else (q, False) # set_policy p r)"

fun policy_getRAM :: "(apolicy \<times> bool) list \<Rightarrow> nat \<Rightarrow> allocator \<Rightarrow> allocator \<times> nat outcome" where
  "policy_getRAM [] howMuch a = (a, Inr 0)"
| "policy_getRAM ((q, u) # r) howMuch a =
     (if u then
        (case q of
           DefaultAllocator \<Rightarrow> default_getRAM howMuch a
         | NoReuseAllocator \<Rightarrow> fast_getRAM howMuch a
         | NoReferenceCountAllocator \<Rightarrow> default_getRAM howMuch a)
      else policy_getRAM r howMuch a)"

fun policy_freeRAM :: "(apolicy \<times> bool) list \<Rightarrow> bool \<Rightarrow> nat \<Rightarrow> allocator \<Rightarrow> allocator outcome" where
  "policy_freeRAM [] c here a = Inr a"
| "policy_freeRAM ((q, u) # r) c here a =
     (if u then
        (case q of
           DefaultAllocator \<Rightarrow> default_freeRAM c here a
         | NoReuseAllocator \<Rightarrow> default_freeRAM c here a
         | NoReferenceCountAllocator \<Rightarrow> Inr a)
      else policy_freeRAM r c here a)"

definition setPolicy :: "apolicy \<Rightarrow> allocator \<Rightarrow> allocator" where
  "setPolicy p a = a\<lparr>policies := set_policy p (policies a)\<rparr>"

section \<open>The allocator's interface\<close>

definition contains :: "allocator \<Rightarrow> nat \<Rightarrow> bool" where
  "contains a here \<longleftrightarrow>
     activeRAM (my a) \<le> here \<and> here < activeRAM (my a) + numBytes (my a)"

definition getRAM :: "nat \<Rightarrow> allocator \<Rightarrow> allocator \<times> nat outcome" where
  "getRAM howMuch a = policy_getRAM (policies a) howMuch a"

definition freeRAM :: "nat \<Rightarrow> allocator \<Rightarrow> allocator outcome" where
  "freeRAM here a = policy_freeRAM (policies a) (contains a here) here a"

definition isManaged :: "allocator \<Rightarrow> nat \<Rightarrow> bool" where
  "isManaged a here \<longleftrightarrow> contains a here \<or> find_inactive here a \<noteq> None"

definition emptyOutBlock :: "nat \<Rightarrow> allocator \<Rightarrow> allocator" where
  "emptyOutBlock here a =
     (if contains a here
      then upd_blk (activeRAM (my a)) (\<lambda>h. h\<lparr>refCnt := 0\<rparr>)
             (a\<lparr>my := (my a)\<lparr>chunks := map (\<lambda>_. []) (chunks (my a))\<rparr>\<rparr>)
      else (case find_inactive here a of
              Some i \<Rightarrow> a\<lparr>inactives := erase_at i (inactives a)\<rparr>
            | None \<Rightarrow> a))"

definition bytesAvailable :: "allocator \<Rightarrow> nat" where
  "bytesAvailable a =
     u64 (numBytes (my a) + (18446744073709551616 - lastUsed (blk a (activeRAM (my a))))
          + u32 (sum_list (map (csize a) (concat (chunks (my a))))))"

definition numObjectsCurrent :: "allocator \<Rightarrow> nat" where
  "numObjectsCurrent a = refCnt (blk a (activeRAM (my a)))"

definition numObjectsIn :: "nat \<Rightarrow> allocator \<Rightarrow> nat" where
  "numObjectsIn here a =
     (if contains a here then numObjectsCurrent a
      else (case find_inactive here a of
              Some i \<Rightarrow> refCnt (blk a (fst (inactives a ! i)))
            | None \<Rightarrow> 0))"

text \<open>Putting the current block among the inactive ones, or giving it back when it has no object;
  shared by \<open>setupBlock\<close> and \<open>restoreAllocationBlock\<close>.\<close>

definition retire :: "allocator \<Rightarrow> allocator" where
  "retire a =
     (let s = activeRAM (my a) in
      if refCnt (blk a s) \<noteq> 0
      then a\<lparr>inactives := sort_key snd (inactives a @ [(s, s + numBytes (my a))])\<rparr>
      else a\<lparr>released := s # released a\<rparr>)"

definition setupBlock :: "nat \<Rightarrow> nat \<Rightarrow> bool \<Rightarrow> allocator \<Rightarrow> allocator outcome" where
  "setupBlock wher numBytesIn throwOnFail a =
     (if numBytesIn < HEADER_SIZE then Inl (FatalExit 1)
      else if wher = 0 then Inl (FatalExit 1)
      else
        (let a1 = (if activeRAM (my a) \<noteq> 0 \<and> \<not> userSupplied (my a) then retire a else a);
             m = (my a)\<lparr>throwExc := throwOnFail, chunks := map (\<lambda>_. []) (chunks (my a)),
                        activeRAM := wher, numBytes := numBytesIn, userSupplied := False\<rparr>
         in Inr (upd_blk wher (\<lambda>h. h\<lparr>lastUsed := HEADER_SIZE, refCnt := 0\<rparr>) (a1\<lparr>my := m\<rparr>))))"

definition setupUserSuppliedBlock :: "nat \<Rightarrow> nat \<Rightarrow> bool \<Rightarrow> allocator \<Rightarrow> allocator outcome" where
  "setupUserSuppliedBlock wher numBytesIn throwOnFail a =
     andThen (setupBlock wher numBytesIn throwOnFail a)
       (\<lambda>a. Inr (a\<lparr>my := (my a)\<lparr>userSupplied := True\<rparr>\<rparr>))"

definition allocator_new :: "nat \<Rightarrow> nat \<Rightarrow> allocator outcome" where
  "allocator_new putMeHere numBytesIn =
     (if putMeHere = 0 then Inl (FatalExit (-1))
      else andThen
        (setupBlock putMeHere numBytesIn True
           \<lparr>policies = [(DefaultAllocator, False), (NoReuseAllocator, False),
                        (NoReferenceCountAllocator, False)],
            my = \<lparr>activeRAM = 0, numBytes = 0, throwExc = True, userSupplied = False,
                  chunks = replicate 32 []\<rparr>,
            inactives = [], blk = (\<lambda>_. \<lparr>lastUsed = 0, rootOffset = 0, refCnt = 0\<rparr>),
            csize = (\<lambda>_. 0), released = []\<rparr>)
        (\<lambda>a. Inr (setPolicy DefaultAllocator a)))"

definition allocator_delete :: "allocator \<Rightarrow> allocator" where
  "allocator_delete a =
     (if activeRAM (my a) \<noteq> 0 \<and> \<not> userSupplied (my a)
      then a\<lparr>released := activeRAM (my a) # released a\<rparr> else a)"

definition getAllocationBlock :: "nat \<Rightarrow> allocator \<Rightarrow> allocator \<times> nat" where
  "getAllocationBlock here a =
     (if contains a here
      then (upd_blk (activeRAM (my a)) (\<lambda>h. h\<lparr>rootOffset := here - activeRAM (my a)\<rparr>) a,
            activeRAM (my a))
      else (case find_inactive here a of
              Some i \<Rightarrow>
                (let s = fst (inactives a ! i)
                 in (upd_blk s (\<lambda>h. h\<lparr>rootOffset := here - s\<rparr>) a, s))
            | None \<Rightarrow> (a, 0)))"

text \<open>The switch to a caller's block and to one from \<open>malloc\<close>; both return the state to restore.\<close>

definition phantom :: "allocator \<Rightarrow> allocator" where
  "phantom a = upd_blk (activeRAM (my a)) inc_ref (a\<lparr>my := (my a)\<lparr>userSupplied := False\<rparr>\<rparr>)"

definition temporarilyUseBlock :: "nat \<Rightarrow> nat \<Rightarrow> allocator \<Rightarrow> (astate \<times> allocator) outcome" where
  "temporarilyUseBlock putMeHere numBytesAvailable a =
     andThen (setupUserSuppliedBlock putMeHere numBytesAvailable True (phantom a))
       (\<lambda>a'. Inr (my a, a'))"

definition temporarilyUseNewBlock :: "nat \<Rightarrow> nat \<Rightarrow> allocator \<Rightarrow> (astate \<times> allocator) outcome" where
  "temporarilyUseNewBlock putMeHere numBytesAvailable a =
     (if putMeHere = 0 then Inl (FatalExit (-1))
      else andThen (setupBlock putMeHere numBytesAvailable True (phantom a)) (\<lambda>a'. Inr (my a, a')))"

fun erase_start :: "nat \<Rightarrow> (nat \<times> nat) list \<Rightarrow> (nat \<times> nat) list" where
  "erase_start s [] = []"
| "erase_start s (b # l) = (if fst b = s then l else b # erase_start s l)"

definition restoreAllocationBlock :: "astate \<Rightarrow> allocator \<Rightarrow> allocator" where
  "restoreAllocationBlock useMe a =
     (let a1 = (if \<not> userSupplied (my a) then retire a else a);
          s = activeRAM useMe
      in upd_blk s dec_ref (a1\<lparr>my := useMe, inactives := erase_start s (inactives a1)\<rparr>))"

definition cleanInactiveBlocks :: "allocator \<Rightarrow> allocator" where
  "cleanInactiveBlocks a =
     a\<lparr>released := rev (map fst (inactives a)) @ released a, inactives := []\<rparr>"

definition cleanInactiveBlocksOf :: "nat \<Rightarrow> allocator \<Rightarrow> allocator" where
  "cleanInactiveBlocksOf sz a =
     a\<lparr>released := rev (map fst (filter (\<lambda>b. snd b - fst b = sz) (inactives a))) @ released a,
       inactives := filter (\<lambda>b. snd b - fst b \<noteq> sz) (inactives a)\<rparr>"

section \<open>Arithmetic of sizes and buckets\<close>

lemma bucket_less: "n < 2 ^ Suc k \<Longrightarrow> bucket n \<le> k"
proof (induction k arbitrary: n)
  case 0
  then show ?case by (subst bucket.simps) auto
next
  case (Suc k)
  then have "n div 2 < 2 ^ Suc k" by simp
  then show ?case using Suc.IH[of "n div 2"] by (subst bucket.simps) auto
qed

lemma bucket_32: "n < 4294967296 \<Longrightarrow> bucket n < 32"
  using bucket_less[of n 31] by simp

lemma bucket_mono: "m \<le> n \<Longrightarrow> bucket m \<le> bucket n"
proof (induction n arbitrary: m rule: bucket.induct)
  case (1 n)
  show ?case
  proof (cases "m \<le> 1")
    case True
    then show ?thesis by (subst bucket.simps) simp
  next
    case False
    then have "\<not> n \<le> 1" "m div 2 \<le> n div 2" using 1(2) by (auto simp: div_le_mono)
    then show ?thesis using 1(1) False by (subst (1 2) bucket.simps) simp
  qed
qed

lemma bytes_needed_less: "bytes_needed n < 4294967296"
  by (simp add: bytes_needed_def Let_def)

lemma bytes_needed_bounds:
  assumes "n + 7 < 4294967296"
  shows "n + 4 \<le> bytes_needed n" "bytes_needed n < n + 8" "bytes_needed n mod 4 = 0"
    "0 < n \<Longrightarrow> 8 \<le> bytes_needed n"
proof -
  have u: "u32 (4 + n) = n + 4" using assms by simp
  let ?b = "n + 4"
  have up: "?b mod 4 \<noteq> 0 \<Longrightarrow> (?b + (4 - ?b mod 4)) mod 4 = 0" by presburger
  have lt: "n mod 4 < 4" by simp
  show "n + 4 \<le> bytes_needed n"
    using assms lt by (simp add: bytes_needed_def CHUNK_HEADER_SIZE_def u Let_def) linarith?
  show "bytes_needed n < n + 8"
    using assms lt by (simp add: bytes_needed_def CHUNK_HEADER_SIZE_def u Let_def) linarith?
  show m: "bytes_needed n mod 4 = 0"
    using assms lt up by (simp add: bytes_needed_def CHUNK_HEADER_SIZE_def u Let_def)
  show "8 \<le> bytes_needed n" if "0 < n"
    using \<open>n + 4 \<le> bytes_needed n\<close> m that by presburger
qed

section \<open>Searching the free chunks\<close>

lemma scan_bucket_Some:
  "scan_bucket cs need c n = Some j \<Longrightarrow> j < n \<and> need \<le> cs (c ! j)"
  by (induction n) (auto split: if_splits)

lemma scan_bucket_None:
  "scan_bucket cs need c n = None \<longleftrightarrow> (\<forall>j < n. cs (c ! j) < need)"
  by (induction n) (auto simp: less_Suc_eq)

lemma scan_buckets_Some:
  "scan_buckets cs need b i n = Some (k, j) \<Longrightarrow>
     i \<le> k \<and> k < i + n \<and> j < length (b ! k) \<and> need \<le> cs (b ! k ! j)"
  by (induction n arbitrary: i) (force split: option.splits dest: scan_bucket_Some)+

lemma scan_buckets_None:
  assumes "scan_buckets cs need b i n = None" "i \<le> k" "k < i + n" "c \<in> set (b ! k)"
  shows "cs c < need"
  using assms
proof (induction n arbitrary: i)
  case (Suc n)
  show ?case
  proof (cases "k = i")
    case True
    then show ?thesis using Suc.prems scan_bucket_None[of cs need "b ! i" "length (b ! i)"]
      by (auto simp: in_set_conv_nth split: option.splits)
  next
    case False
    then show ?thesis using Suc.IH[of "Suc i"] Suc.prems by (auto split: option.splits)
  qed
qed simp

lemma mset_erase_at: "j < length c \<Longrightarrow> mset c = add_mset (c ! j) (mset (erase_at j c))"
  unfolding erase_at_def using id_take_nth_drop[of j c]
  by (metis mset.simps(2) mset_append union_mset_add_mset_right)

lemma set_erase_at: "set (erase_at j c) \<subseteq> set c"
  by (auto simp: erase_at_def dest: in_set_takeD in_set_dropD)

lemma mset_concat_update:
  "i < length b \<Longrightarrow> mset (concat (b[i := x])) + mset (b ! i) = mset (concat b) + mset x"
proof (induction b arbitrary: i)
  case (Cons y b)
  then show ?case by (cases i) (auto simp: ac_simps)
qed simp

lemma length_concat_update:
  "i < length b \<Longrightarrow> length (concat (b[i := x])) + length (b ! i) = length (concat b) + length x"
  using arg_cong[OF mset_concat_update[of i b x], of size] by simp

section \<open>Tilings\<close>

text \<open>The chunks carved so far, one directly after the other.\<close>

fun tiles :: "(nat \<Rightarrow> nat) \<Rightarrow> nat \<Rightarrow> nat list \<Rightarrow> nat \<Rightarrow> bool" where
  "tiles cs s [] e \<longleftrightarrow> s = e"
| "tiles cs s (c # l) e \<longleftrightarrow>
     c = s \<and> 8 \<le> cs c \<and> cs c < 4294967296 \<and> tiles cs (s + cs c) l e"

lemma tiles_snoc:
  "tiles cs s (l @ [c]) e \<longleftrightarrow>
     (\<exists>m. tiles cs s l m \<and> c = m \<and> 8 \<le> cs c \<and> cs c < 4294967296 \<and> e = m + cs c)"
  by (induction l arbitrary: s) auto

lemma tiles_cong: "(\<And>c. c \<in> set l \<Longrightarrow> cs c = cs' c) \<Longrightarrow> tiles cs s l e = tiles cs' s l e"
  by (induction l arbitrary: s) auto

lemma tiles_in:
  "tiles cs s l e \<Longrightarrow> c \<in> set l \<Longrightarrow>
     s \<le> c \<and> c + cs c \<le> e \<and> 8 \<le> cs c \<and> cs c < 4294967296"
proof (induction l arbitrary: s)
  case (Cons d l)
  have le: "tiles cs a l e \<Longrightarrow> a \<le> e" for a by (induction l arbitrary: a) fastforce+
  show ?case using Cons le[of "s + cs d"] by fastforce
qed simp

lemma tiles_length: "tiles cs s l e \<Longrightarrow> s + 4 * length l \<le> e"
  by (induction l arbitrary: s) fastforce+

lemma tiles_disjoint:
  "tiles cs s l e \<Longrightarrow> c \<in> set l \<Longrightarrow> d \<in> set l \<Longrightarrow> c \<noteq> d \<Longrightarrow> c + cs c \<le> d \<or> d + cs d \<le> c"
proof (induction l arbitrary: s)
  case (Cons x l)
  show ?case using Cons tiles_in[of cs "s + cs x" l e] by fastforce
qed simp

lemma tiles_distinct: "tiles cs s l e \<Longrightarrow> distinct l"
proof (induction l arbitrary: s)
  case (Cons x l)
  show ?case using Cons tiles_in[of cs "s + cs x" l e x] by fastforce
qed simp

section \<open>The invariant of the active block\<close>

text \<open>\<open>L\<close> lists the chunks in use. The chunks carved tile the used part of the block after its
  header; each is in use, free in the bucket of its size, or forgotten by a policy that does not
  count; the block's reference count is the number of chunks not in a bucket.\<close>

definition active_inv :: "allocator \<Rightarrow> nat list \<Rightarrow> bool" where
  "active_inv a L \<longleftrightarrow>
     (let s = activeRAM (my a); h = blk a s; b = chunks (my a) in
      \<exists>carved. tiles (csize a) (s + HEADER_SIZE) carved (s + lastUsed h)
        \<and> mset L + mset (concat b) \<subseteq># mset carved
        \<and> refCnt h + length (concat b) = length carved
        \<and> lastUsed h \<le> numBytes (my a) \<and> numBytes (my a) \<le> 2 ^ 34
        \<and> length b = 32 \<and> (\<forall>i < 32. \<forall>c \<in> set (b ! i). bucket (csize a c) = i))"

lemma active_invE:
  assumes "active_inv a L"
  obtains carved where
    "tiles (csize a) (activeRAM (my a) + 20) carved
       (activeRAM (my a) + lastUsed (blk a (activeRAM (my a))))"
    "mset L + mset (concat (chunks (my a))) \<subseteq># mset carved"
    "refCnt (blk a (activeRAM (my a))) + length (concat (chunks (my a))) = length carved"
    "lastUsed (blk a (activeRAM (my a))) \<le> numBytes (my a)" "numBytes (my a) \<le> 2 ^ 34"
    "length (chunks (my a)) = 32"
    "\<And>i c. i < 32 \<Longrightarrow> c \<in> set (chunks (my a) ! i) \<Longrightarrow> bucket (csize a c) = i"
    "length carved < 2 ^ 32"
proof -
  from assms obtain carved where c: "tiles (csize a) (activeRAM (my a) + 20) carved
       (activeRAM (my a) + lastUsed (blk a (activeRAM (my a))))"
    "mset L + mset (concat (chunks (my a))) \<subseteq># mset carved"
    "refCnt (blk a (activeRAM (my a))) + length (concat (chunks (my a))) = length carved"
    "lastUsed (blk a (activeRAM (my a))) \<le> numBytes (my a)" "numBytes (my a) \<le> 2 ^ 34"
    "length (chunks (my a)) = 32"
    "\<forall>i < 32. \<forall>c \<in> set (chunks (my a) ! i). bucket (csize a c) = i"
    unfolding active_inv_def Let_def HEADER_SIZE_def by blast
  have "length carved < 2 ^ 32" using tiles_length[OF c(1)] c(4,5) by simp
  then show thesis using that c by blast
qed

lemma active_invI:
  assumes "activeRAM (my a) = s" "lastUsed (blk a s) = u" "refCnt (blk a s) = n" "chunks (my a) = b"
    and "tiles (csize a) (s + 20) carved (s + u)" "mset L + mset (concat b) \<subseteq># mset carved"
    and "n + length (concat b) = length carved" "u \<le> numBytes (my a)" "numBytes (my a) \<le> 2 ^ 34"
    and "length b = 32" "\<forall>i < 32. \<forall>c \<in> set (b ! i). bucket (csize a c) = i"
  shows "active_inv a L"
  unfolding active_inv_def Let_def HEADER_SIZE_def using assms by blast

lemma active_inv_live:
  assumes "active_inv a L" "c \<in> set L"
  shows "activeRAM (my a) + 20 \<le> c" "c + csize a c \<le> activeRAM (my a) + numBytes (my a)"
    "8 \<le> csize a c" "csize a c < 4294967296"
proof -
  obtain carved where c: "tiles (csize a) (activeRAM (my a) + 20) carved
       (activeRAM (my a) + lastUsed (blk a (activeRAM (my a))))"
    "mset L + mset (concat (chunks (my a))) \<subseteq># mset carved"
    "lastUsed (blk a (activeRAM (my a))) \<le> numBytes (my a)"
    using active_invE[OF assms(1)] by metis
  have "set L \<subseteq> set carved" using set_mset_mono[OF c(2)] by simp
  then have "c \<in> set carved" using assms(2) by blast
  then show "activeRAM (my a) + 20 \<le> c" "c + csize a c \<le> activeRAM (my a) + numBytes (my a)"
    "8 \<le> csize a c" "csize a c < 4294967296"
    using tiles_in[OF c(1)] c(3) by fastforce+
qed

lemma active_inv_disjoint:
  assumes "active_inv a L"
  shows "distinct L" and "c \<in> set L \<Longrightarrow> d \<in> set L \<Longrightarrow> c \<noteq> d \<Longrightarrow>
    c + csize a c \<le> d \<or> d + csize a d \<le> c"
proof -
  obtain carved where c: "tiles (csize a) (activeRAM (my a) + 20) carved
       (activeRAM (my a) + lastUsed (blk a (activeRAM (my a))))"
    "mset L + mset (concat (chunks (my a))) \<subseteq># mset carved"
    using active_invE[OF assms(1)] by metis
  have sub: "mset L \<subseteq># mset carved" using c(2) by (meson mset_subset_eq_add_left subset_mset.trans)
  then have "set L \<subseteq> set carved" by (metis set_mset_mono set_mset_mset)
  then show "c \<in> set L \<Longrightarrow> d \<in> set L \<Longrightarrow> c \<noteq> d \<Longrightarrow> c + csize a c \<le> d \<or> d + csize a d \<le> c"
    using tiles_disjoint[OF c(1)] by blast
  obtain R where "mset carved = mset L + R" using sub by (metis subset_mset.le_iff_add)
  moreover obtain r where "mset r = R" using ex_mset by blast
  ultimately have "mset carved = mset (L @ r)" by simp
  then have "distinct (L @ r)" using tiles_distinct[OF c(1)] mset_eq_imp_distinct_iff by blast
  then show "distinct L" by simp
qed

lemma buckets_update:
  assumes "\<forall>i < 32. \<forall>c \<in> set (b ! i). f c = i" "length b = 32" "\<forall>c \<in> set y. f c = (k :: nat)"
  shows "\<forall>i < 32. \<forall>c \<in> set (b[k := y] ! i). f c = i"
proof (intro allI impI)
  fix i :: nat assume "i < 32"
  then show "\<forall>c \<in> set (b[k := y] ! i). f c = i" using assms by (cases "i = k") auto
qed

section \<open>Getting RAM keeps the invariant\<close>

definition gets :: "allocator \<Rightarrow> nat list \<Rightarrow> nat \<Rightarrow> allocator \<times> nat outcome \<Rightarrow> bool" where
  "gets a L need r \<longleftrightarrow>
     (case r of
        (a', Inl e) \<Rightarrow> e = NotEnoughSpace \<and> a' = a
      | (a', Inr p) \<Rightarrow>
          p = 0 \<and> a' = a
          \<or> 4 \<le> p \<and> active_inv a' ((p - 4) # L) \<and> need \<le> csize a' (p - 4)
            \<and> activeRAM (my a') = activeRAM (my a) \<and> numBytes (my a') = numBytes (my a)
            \<and> (\<forall>c \<in> set L. csize a' c = csize a c) \<and> policies a' = policies a
            \<and> inactives a' = inactives a \<and> released a' = released a
            \<and> numObjectsCurrent a' = Suc (numObjectsCurrent a))"

lemma carve_gets:
  assumes inv: "active_inv a L" and need: "8 \<le> need" "need < 4294967296"
  shows "gets a L need (carve need a)"
proof -
  let ?s = "activeRAM (my a)" and ?b = "chunks (my a)"
  let ?used = "lastUsed (blk a ?s)"
  obtain carved where c: "tiles (csize a) (?s + 20) carved (?s + ?used)"
    "mset L + mset (concat ?b) \<subseteq># mset carved" "refCnt (blk a ?s) + length (concat ?b) = length carved"
    "?used \<le> numBytes (my a)" "numBytes (my a) \<le> 2 ^ 34" "length ?b = 32"
    "\<And>i c. i < 32 \<Longrightarrow> c \<in> set (?b ! i) \<Longrightarrow> bucket (csize a c) = i" "length carved < 2 ^ 32"
    using active_invE[OF inv] by blast
  have u: "u64 (?used + need) = ?used + need" using c(4,5) need(2) by simp
  show ?thesis
  proof (cases "numBytes (my a) < ?used + need")
    case True
    then show ?thesis by (simp add: carve_def Let_def u gets_def)
  next
    case False
    let ?c = "?s + ?used"
    let ?cs = "(csize a)(?c := need)"
    have old: "x \<noteq> ?c" if "x \<in> set carved" for x using tiles_in[OF c(1) that] by linarith
    have t1: "tiles ?cs (?s + 20) carved ?c"
      using c(1) old by (subst tiles_cong[where cs' = "csize a"]) auto
    have t2: "tiles ?cs (?s + 20) (carved @ [?c]) (?s + (?used + need))"
      using t1 need by (simp add: tiles_snoc add.assoc)
    have small: "length carved + 1 < 2 ^ 32"
      using tiles_length[OF t2] False c(5) by simp
    have ru: "u32 (refCnt (blk a ?s) + 1) = refCnt (blk a ?s) + 1" using c(3) small by simp
    have insub: "x \<in> set carved" if "i < 32" "x \<in> set (?b ! i)" for i x
    proof -
      have "x \<in> set (concat ?b)" using that c(6) by (auto intro: nth_mem)
      then show ?thesis using set_mset_mono[OF c(2)] by auto
    qed
    let ?a = "upd_blk ?s (\<lambda>h. inc_ref (h\<lparr>lastUsed := ?used + need\<rparr>)) a\<lparr>csize := ?cs\<rparr>"
    have ex: "tiles ?cs (?s + 20) (carved @ [?c]) (?s + (?used + need))
        \<and> mset (?c # L) + mset (concat ?b) \<subseteq># mset (carved @ [?c])
        \<and> refCnt (blk a ?s) + 1 + length (concat ?b) = length (carved @ [?c])"
      using t2 c(2,3) by simp
    have bk: "\<forall>i < 32. \<forall>x \<in> set (?b ! i). bucket (?cs x) = i" using insub old c(7) by fastforce
    have "active_inv ?a (?c # L)"
      unfolding active_inv_def Let_def HEADER_SIZE_def
      using ex bk False c(5,6) ru by (auto simp: upd_blk_def inc_ref_def intro!: exI[of _ "carved @ [?c]"])
    moreover have "csize ?a x = csize a x" if "x \<in> set L" for x
    proof -
      have "x \<in> set carved" using set_mset_mono[OF c(2)] that by auto
      then show ?thesis using old by simp
    qed
    ultimately show ?thesis
      using False u ru unfolding gets_def carve_def Let_def CHUNK_HEADER_SIZE_def numObjectsCurrent_def
      by (simp add: upd_blk_def inc_ref_def)
  qed
qed

lemma default_getRAM_gets:
  assumes inv: "active_inv a L" and h: "0 < h" "h + 7 < 4294967296"
  shows "gets a L (bytes_needed h) (default_getRAM h a)"
proof -
  let ?s = "activeRAM (my a)" and ?b = "chunks (my a)" and ?need = "bytes_needed h"
  have need: "8 \<le> ?need" "?need < 4294967296" using bytes_needed_bounds(4)[OF h(2,1)] bytes_needed_less by auto
  show ?thesis
  proof (cases "scan_buckets (csize a) ?need ?b (bucket ?need) (32 - bucket ?need)")
    case None
    then have "default_getRAM h a = carve ?need a"
      using need by (simp add: default_getRAM_def Let_def)
    then show ?thesis using carve_gets[OF inv need] by simp
  next
    case (Some ij)
    obtain i j where ij: "ij = (i, j)" by (cases ij)
    have "bucket ?need < 32" using bucket_32 need by blast
    then have i: "i < 32" and j: "j < length (?b ! i)" and sz: "?need \<le> csize a (?b ! i ! j)"
      using scan_buckets_Some[OF Some[unfolded ij]] by auto
    let ?c = "?b ! i ! j" and ?b' = "?b[i := erase_at j (?b ! i)]"
    let ?a = "upd_blk ?s inc_ref (a\<lparr>my := (my a)\<lparr>chunks := ?b'\<rparr>\<rparr>)"
    have eq: "default_getRAM h a = (?a, Inr (?c + 4))"
      using need Some ij by (simp add: default_getRAM_def Let_def CHUNK_HEADER_SIZE_def)
    obtain carved where c: "tiles (csize a) (?s + 20) carved (?s + lastUsed (blk a ?s))"
      "mset L + mset (concat ?b) \<subseteq># mset carved" "refCnt (blk a ?s) + length (concat ?b) = length carved"
      "lastUsed (blk a ?s) \<le> numBytes (my a)" "numBytes (my a) \<le> 2 ^ 34" "length ?b = 32"
      "\<And>i c. i < 32 \<Longrightarrow> c \<in> set (?b ! i) \<Longrightarrow> bucket (csize a c) = i" "length carved < 2 ^ 32"
      using active_invE[OF inv] by blast
    have ib: "i < length ?b" using i c(6) by simp
    have "mset (concat ?b') + mset (?b ! i) = mset (concat ?b) + mset (erase_at j (?b ! i))"
      using mset_concat_update[OF ib] .
    then have m: "mset (concat ?b) = add_mset ?c (mset (concat ?b'))"
      using mset_erase_at[OF j] by simp
    have len: "length (concat ?b) = Suc (length (concat ?b'))"
      using arg_cong[OF m, of size] by simp
    have ru: "u32 (refCnt (blk a ?s) + 1) = refCnt (blk a ?s) + 1" using c(3,8) len by simp
    have bk: "\<forall>k < 32. \<forall>x \<in> set (?b' ! k). bucket (csize a x) = k"
      using c(6,7) i set_erase_at[of j "?b ! i"] by (intro buckets_update) auto
    have "active_inv ?a (?c # L)"
      unfolding active_inv_def Let_def HEADER_SIZE_def
      using c(1,2,3,4,5,6) m len ru bk
      by (auto simp: upd_blk_def inc_ref_def intro!: exI[of _ carved])
    then show ?thesis
      using ru sz unfolding eq gets_def numObjectsCurrent_def by (simp add: upd_blk_def inc_ref_def)
  qed
qed

lemma fast_getRAM_gets:
  assumes "active_inv a L" "0 < h" "h + 7 < 4294967296"
  shows "gets a L (bytes_needed h) (fast_getRAM h a)"
  using carve_gets[OF assms(1), of "bytes_needed h"] bytes_needed_bounds(4)[OF assms(3,2)] bytes_needed_less
  by (simp add: fast_getRAM_def)

lemma getRAM_gets:
  assumes "active_inv a L" "0 < h" "h + 7 < 4294967296"
  shows "gets a L (bytes_needed h) (getRAM h a)"
proof -
  have "gets a L (bytes_needed h) (policy_getRAM ps h a)" for ps
    by (induction ps) (auto simp: gets_def[of _ _ _ "(_, Inr 0)"] default_getRAM_gets[OF assms]
      fast_getRAM_gets[OF assms] split: apolicy.split)
  then show ?thesis by (simp add: getRAM_def)
qed

section \<open>Freeing RAM keeps the invariant\<close>

lemma default_freeRAM_inv:
  assumes inv: "active_inv a (p # L)" and p: "r = p + 4"
  shows "\<exists>a'. default_freeRAM True r a = Inr a' \<and> active_inv a' L
    \<and> a' = upd_blk (activeRAM (my a)) dec_ref
        (a\<lparr>my := (my a)\<lparr>chunks := (chunks (my a))[bucket (csize a p) := chunks (my a) ! bucket (csize a p) @ [p]]\<rparr>\<rparr>)
    \<and> numObjectsCurrent a = Suc (numObjectsCurrent a')"
proof -
  let ?s = "activeRAM (my a)" and ?b = "chunks (my a)"
  let ?k = "bucket (csize a p)"
  let ?b' = "?b[?k := ?b ! ?k @ [p]]"
  let ?a = "upd_blk ?s dec_ref (a\<lparr>my := (my a)\<lparr>chunks := ?b'\<rparr>\<rparr>)"
  obtain carved where c: "tiles (csize a) (?s + 20) carved (?s + lastUsed (blk a ?s))"
    "mset (p # L) + mset (concat ?b) \<subseteq># mset carved" "refCnt (blk a ?s) + length (concat ?b) = length carved"
    "lastUsed (blk a ?s) \<le> numBytes (my a)" "numBytes (my a) \<le> 2 ^ 34" "length ?b = 32"
    "\<And>i c. i < 32 \<Longrightarrow> c \<in> set (?b ! i) \<Longrightarrow> bucket (csize a c) = i" "length carved < 2 ^ 32"
    using active_invE[OF inv] by blast
  have sz: "8 \<le> csize a p" "csize a p < 4294967296" using active_inv_live[OF inv] by auto
  have k: "?k < 32" using bucket_32 sz by blast
  then have kb: "?k < length ?b" using c(6) by simp
  have m: "mset (concat ?b') = add_mset p (mset (concat ?b))"
    using mset_concat_update[OF kb, of "?b ! ?k @ [p]"] by simp
  have len: "length (concat ?b') = Suc (length (concat ?b))" using arg_cong[OF m, of size] by simp
  have "size (mset (p # L) + mset (concat ?b)) \<le> size (mset carved)"
    using c(2) by (rule size_mset_mono)
  then have pos: "0 < refCnt (blk a ?s)" using c(3) by simp
  have rd: "u32 (refCnt (blk a ?s) + 4294967295) = refCnt (blk a ?s) - 1"
    using pos c(3,8) by (simp add: u32_def mod_if)
  have bk: "\<forall>i < 32. \<forall>x \<in> set (?b' ! i). bucket (csize a x) = i"
    using c(6,7) k by (intro buckets_update) auto
  have sub: "mset L + mset (concat ?b') \<subseteq># mset carved" using c(2) m by simp
  have cnt: "refCnt (blk a ?s) - 1 + length (concat ?b') = length carved" using c(3) len pos by linarith
  have "active_inv ?a L"
  proof (rule active_invI[OF _ _ _ _ _ sub cnt])
    show "tiles (csize ?a) (?s + 20) carved (?s + lastUsed (blk a ?s))"
      using c(1) by (simp add: upd_blk_def)
    have cz: "csize ?a = csize a" by (simp add: upd_blk_def)
    show "\<forall>i < 32. \<forall>x \<in> set (?b' ! i). bucket (csize ?a x) = i" unfolding cz by (rule bk)
    show "refCnt (blk ?a ?s) = refCnt (blk a ?s) - 1"
      unfolding rd[symmetric] by (simp add: upd_blk_def dec_ref_def)
  qed (use c(4,5,6) in \<open>simp_all add: upd_blk_def dec_ref_def\<close>)
  then show ?thesis
    using sz rd pos unfolding p by (simp add: default_freeRAM_def CHUNK_HEADER_SIZE_def Let_def
      numObjectsCurrent_def upd_blk_def dec_ref_def)
qed

lemma contains_live:
  assumes "active_inv a L" "c \<in> set L"
  shows "contains a (c + 4)"
  using active_inv_live[OF assms] by (auto simp: contains_def)

lemma active_inv_permute:
  "active_inv a L \<Longrightarrow> mset L' = mset L \<Longrightarrow> active_inv a L'"
  unfolding active_inv_def Let_def by simp

lemma active_inv_drop:
  assumes "active_inv a (c # L)"
  shows "active_inv a L"
proof -
  have "mset L + X \<subseteq># Y" if "add_mset c (mset L + X) \<subseteq># Y" for X Y
    using mset_subset_eq_insertD[OF that] by (simp add: subset_mset.less_imp_le)
  then show ?thesis using assms unfolding active_inv_def Let_def by auto
qed

lemma freeRAM_inv:
  assumes inv: "active_inv a L" and c: "c \<in> set L"
  shows "\<exists>a'. freeRAM (c + 4) a = Inr a' \<and> active_inv a' (remove1 c L)
    \<and> activeRAM (my a') = activeRAM (my a) \<and> numBytes (my a') = numBytes (my a)
    \<and> csize a' = csize a \<and> policies a' = policies a"
proof -
  have i: "active_inv a (c # remove1 c L)"
    using active_inv_permute[OF inv, of "c # remove1 c L"] c by simp
  have one: "\<exists>a'. default_freeRAM True (c + 4) a = Inr a' \<and> active_inv a' (remove1 c L)
    \<and> activeRAM (my a') = activeRAM (my a) \<and> numBytes (my a') = numBytes (my a)
    \<and> csize a' = csize a \<and> policies a' = policies a"
    using default_freeRAM_inv[OF i refl] by (auto simp: upd_blk_def)
  have none: "active_inv a (remove1 c L)" using active_inv_drop[OF i] .
  have "\<exists>a'. policy_freeRAM ps True (c + 4) a = Inr a' \<and> active_inv a' (remove1 c L)
    \<and> activeRAM (my a') = activeRAM (my a) \<and> numBytes (my a') = numBytes (my a)
    \<and> csize a' = csize a \<and> policies a' = policies a" for ps
    by (induction ps) (auto simp: one none split: apolicy.split)
  then show ?thesis using contains_live[OF inv c] by (simp add: freeRAM_def)
qed

section \<open>Reachable states of the active block\<close>

definition default_policies :: "(apolicy \<times> bool) list" where
  "default_policies = [(DefaultAllocator, True), (NoReuseAllocator, False),
                       (NoReferenceCountAllocator, False)]"

lemma default_policies_eq:
  "set_policy DefaultAllocator [(DefaultAllocator, u), (NoReuseAllocator, v),
     (NoReferenceCountAllocator, w)] = default_policies"
  by (simp add: default_policies_def)

lemma setupBlock_cases:
  assumes "setupBlock w n thr a = Inr a'"
  shows "20 \<le> n" "w \<noteq> 0" "activeRAM (my a') = w" "numBytes (my a') = n" "throwExc (my a') = thr"
    "userSupplied (my a') = False" "chunks (my a') = map (\<lambda>_. []) (chunks (my a))"
    "lastUsed (blk a' w) = 20" "refCnt (blk a' w) = 0" "policies a' = policies a"
    "csize a' = csize a" "\<And>s. s \<noteq> w \<Longrightarrow> blk a' s = blk a s"
  using assms by (auto simp: setupBlock_def HEADER_SIZE_def upd_blk_def retire_def Let_def
    split: if_splits)

lemma setupBlock_inv:
  assumes s: "setupBlock w n thr a = Inr a'" and n: "n \<le> 2 ^ 34" and l: "length (chunks (my a)) = 32"
  shows "active_inv a' []"
proof -
  note c = setupBlock_cases[OF s]
  have z: "concat (map (\<lambda>_. []) (chunks (my a))) = []" by (induction "chunks (my a)") auto
  show ?thesis
    by (rule active_invI[OF c(3,8,9,7), where carved = "[]"]) (use c n l z in simp_all)
qed

text \<open>The life of an allocator: created, asked for RAM, given chunks back, switched to other policies
  and blocks. The list has the objects of the active block, as address and requested size.\<close>

inductive alloc_reach :: "allocator \<Rightarrow> (nat \<times> nat) list \<Rightarrow> bool" where
  start: "allocator_new w n = Inr a \<Longrightarrow> n \<le> 2 ^ 34 \<Longrightarrow> alloc_reach a []"
| get: "alloc_reach a L \<Longrightarrow> 0 < h \<Longrightarrow> h + 7 < 4294967296 \<Longrightarrow> getRAM h a = (a', Inr r) \<Longrightarrow> r \<noteq> 0
    \<Longrightarrow> alloc_reach a' ((r, h) # L)"
| refused: "alloc_reach a L \<Longrightarrow> 0 < h \<Longrightarrow> h + 7 < 4294967296 \<Longrightarrow> getRAM h a = (a', Inl e)
    \<Longrightarrow> alloc_reach a' L"
| free: "alloc_reach a L \<Longrightarrow> (r, h) \<in> set L \<Longrightarrow> freeRAM r a = Inr a'
    \<Longrightarrow> alloc_reach a' (remove1 (r, h) L)"
| policy: "alloc_reach a L \<Longrightarrow> alloc_reach (setPolicy p a) L"
| switch: "alloc_reach a L \<Longrightarrow> setupBlock w n thr a = Inr a' \<Longrightarrow> n \<le> 2 ^ 34 \<Longrightarrow> alloc_reach a' []"

definition objects_ok :: "allocator \<Rightarrow> (nat \<times> nat) list \<Rightarrow> bool" where
  "objects_ok a L \<longleftrightarrow> active_inv a (map (\<lambda>(r, h). r - 4) L)
     \<and> (\<forall>(r, h) \<in> set L. 4 \<le> r \<and> h + 4 \<le> csize a (r - 4))"

lemma active_inv_len: "active_inv a L \<Longrightarrow> length (chunks (my a)) = 32"
  by (auto simp: active_inv_def Let_def)

lemma objects_ok_free:
  assumes ok: "objects_ok a L" and m: "(r, h) \<in> set L" and f: "freeRAM r a = Inr a'"
  shows "objects_ok a' (remove1 (r, h) L)"
proof -
  let ?f = "\<lambda>(r, h :: nat). r - (4 :: nat)"
  have inv: "active_inv a (map ?f L)" and r: "4 \<le> r" using ok m by (auto simp: objects_ok_def)
  have "r - 4 \<in> set (map ?f L)" using m by force
  from freeRAM_inv[OF inv this] r f
  have a': "active_inv a' (remove1 (r - 4) (map ?f L))" "csize a' = csize a" by auto
  have "mset (map ?f (remove1 (r, h) L)) = mset (remove1 (r - 4) (map ?f L))"
    using m by (simp add: image_mset_Diff)
  then have "active_inv a' (map ?f (remove1 (r, h) L))" using active_inv_permute[OF a'(1)] by simp
  moreover have "set (remove1 (r, h) L) \<subseteq> set L" by (rule set_remove1_subset)
  ultimately show ?thesis using ok a'(2) unfolding objects_ok_def by auto
qed

lemma setPolicy_active_inv [simp]: "active_inv (setPolicy p a) L = active_inv a L"
  by (simp add: active_inv_def setPolicy_def)

lemma alloc_reach_ok: "alloc_reach a L \<Longrightarrow> objects_ok a L"
proof (induction rule: alloc_reach.induct)
  case (start w n a)
  then obtain b where b: "setupBlock w n True
           \<lparr>policies = [(DefaultAllocator, False), (NoReuseAllocator, False),
                        (NoReferenceCountAllocator, False)],
            my = \<lparr>activeRAM = 0, numBytes = 0, throwExc = True, userSupplied = False,
                  chunks = replicate 32 []\<rparr>,
            inactives = [], blk = (\<lambda>_. \<lparr>lastUsed = 0, rootOffset = 0, refCnt = 0\<rparr>),
            csize = (\<lambda>_. 0), released = []\<rparr> = Inr b" "a = setPolicy DefaultAllocator b"
    by (auto simp: allocator_new_def andThen_Inr_iff split: if_splits)
  have "active_inv b []" by (rule setupBlock_inv[OF b(1) start(2)]) simp
  then show ?case using b(2) by (simp add: objects_ok_def)
next
  case (get a L h a' r)
  let ?f = "\<lambda>(r, h :: nat). r - (4 :: nat)"
  have inv: "active_inv a (map ?f L)" using get.IH by (simp add: objects_ok_def)
  have g: "4 \<le> r" "active_inv a' ((r - 4) # map ?f L)" "bytes_needed h \<le> csize a' (r - 4)"
    "\<forall>c \<in> set (map ?f L). csize a' c = csize a c"
    using getRAM_gets[OF inv get.hyps(2,3)] get.hyps(4,5) by (auto simp: gets_def)
  have "h + 4 \<le> csize a' (r - 4)" using bytes_needed_bounds(1)[OF get.hyps(3)] g(3) by linarith
  moreover have "y + 4 \<le> csize a' (x - 4) \<and> 4 \<le> x" if "(x, y) \<in> set L" for x y
    using g(4) get.IH that unfolding objects_ok_def by fastforce
  ultimately show ?case using g(1,2) unfolding objects_ok_def by auto
next
  case (refused a L h a' e)
  have inv: "active_inv a (map (\<lambda>(r, h). r - 4) L)" using refused.IH by (simp add: objects_ok_def)
  then have "a' = a" using getRAM_gets[OF inv refused.hyps(2,3)] refused.hyps(4) by (simp add: gets_def)
  then show ?case using refused.IH by simp
next
  case (free a L r h a')
  then show ?case using objects_ok_free by blast
next
  case (policy a L p)
  then show ?case unfolding objects_ok_def setPolicy_active_inv by (simp add: setPolicy_def)
next
  case (switch a L w n thr a')
  have "length (chunks (my a)) = 32" using switch.IH active_inv_len by (auto simp: objects_ok_def)
  then have "active_inv a' []" using setupBlock_inv[OF switch.hyps(2,3)] by blast
  then show ?case by (simp add: objects_ok_def)
qed

section \<open>Inactive blocks\<close>

definition inact_wf :: "(nat \<times> nat) list \<Rightarrow> bool" where
  "inact_wf l \<longleftrightarrow> sorted_wrt (\<lambda>x y. snd x < fst y) l \<and> (\<forall>b \<in> set l. fst b \<le> snd b)"

lemma takeWhile_before:
  "inact_wf l \<Longrightarrow> i < length l \<Longrightarrow> fst (l ! i) \<le> h \<Longrightarrow> h \<le> snd (l ! i) \<Longrightarrow>
     length (takeWhile (\<lambda>b. snd b < h) l) = i"
proof (induction l arbitrary: i)
  case (Cons b l)
  show ?case
  proof (cases i)
    case 0
    then show ?thesis using Cons.prems by simp
  next
    case (Suc j)
    have "snd b < fst (l ! j)" using Cons.prems Suc by (auto simp: inact_wf_def)
    then have "snd b < h" using Cons.prems Suc by simp
    then show ?thesis using Cons Suc by (simp add: inact_wf_def)
  qed
qed simp

lemma find_inactive_in:
  assumes "inact_wf (inactives a)" "i < length (inactives a)"
    "fst (inactives a ! i) \<le> h" "h \<le> snd (inactives a ! i)"
  shows "find_inactive h a = Some i"
  using takeWhile_before[OF assms] assms(2,3)
  by (simp add: find_inactive_def lower_bound_def Let_def)

fun freeRAMs :: "nat list \<Rightarrow> allocator \<Rightarrow> allocator outcome" where
  "freeRAMs [] a = Inr a"
| "freeRAMs (h # hs) a = andThen (freeRAM h a) (freeRAMs hs)"

lemma freeRAM_inactive:
  assumes "inact_wf (inactives a)" "i < length (inactives a)" "inactives a ! i = (s, e)"
    and "s \<le> h" "h \<le> e" "\<not> contains a h" "policies a = default_policies"
    and "refCnt (blk a s) = Suc n" "n < 4294967295"
  shows "freeRAM h a = Inr (if n = 0
      then upd_blk s dec_ref a\<lparr>released := s # released a, inactives := erase_at i (inactives a)\<rparr>
      else upd_blk s dec_ref a)"
    and "refCnt (blk (upd_blk s dec_ref a) s) = n"
proof -
  have f: "find_inactive h a = Some i" using find_inactive_in assms(1-5) by simp
  show r: "refCnt (blk (upd_blk s dec_ref a) s) = n"
    using assms(8,9) by (simp add: upd_blk_def dec_ref_def u32_def mod_if)
  show "freeRAM h a = Inr (if n = 0
      then upd_blk s dec_ref a\<lparr>released := s # released a, inactives := erase_at i (inactives a)\<rparr>
      else upd_blk s dec_ref a)"
    using f r assms(3,6,7)
    by (simp add: freeRAM_def default_policies_def default_freeRAM_def Let_def) (simp add: upd_blk_def)
qed

lemma freeRAMs_inactive:
  assumes "inact_wf (inactives a)" "i < length (inactives a)" "inactives a ! i = (s, e)"
    and "\<forall>h \<in> set hs. s \<le> h \<and> h \<le> e \<and> \<not> contains a h" "policies a = default_policies"
    and "refCnt (blk a s) = length hs + n" "length hs + n < 4294967296" "0 < n"
  shows "\<exists>a'. freeRAMs hs a = Inr a' \<and> inactives a' = inactives a \<and> released a' = released a
      \<and> refCnt (blk a' s) = n \<and> my a' = my a \<and> policies a' = policies a"
  using assms
proof (induction hs arbitrary: a)
  case (Cons h hs)
  let ?a = "upd_blk s dec_ref a"
  have f: "freeRAM h a = Inr ?a" "refCnt (blk ?a s) = length hs + n"
    using freeRAM_inactive[of a i s e h "length hs + n"] Cons.prems by auto
  have same: "inactives ?a = inactives a" "released ?a = released a" "my ?a = my a"
    "policies ?a = policies a" by (simp_all add: upd_blk_def)
  have "\<exists>a'. freeRAMs hs ?a = Inr a' \<and> inactives a' = inactives ?a \<and> released a' = released ?a
      \<and> refCnt (blk a' s) = n \<and> my a' = my ?a \<and> policies a' = policies ?a"
    by (rule Cons.IH) (use Cons.prems f(2) same in \<open>auto simp: contains_def\<close>)
  then show ?case using f(1) same by simp
qed simp

section \<open>Properties\<close>

text \<open>C6: the objects an allocator has handed out from its active block never overlap: in every
  reachable state, whatever the sequence of requests, frees and policy changes, each object lies
  inside the block after its header and has at least the requested bytes to itself, and two distinct
  objects are disjoint.\<close>

theorem objects_never_overlap:
  assumes "alloc_reach a L" and "(r, h) \<in> set L"
  shows "activeRAM (my a) + 24 \<le> r \<and> r + h \<le> activeRAM (my a) + numBytes (my a)
    \<and> contains a r \<and> distinct (map fst L)
    \<and> (\<forall>(r', h') \<in> set L. r' \<noteq> r \<longrightarrow> {r ..< r + h} \<inter> {r' ..< r' + h'} = {})"
proof -
  let ?f = "\<lambda>(r, h :: nat). r - (4 :: nat)"
  have ok: "objects_ok a L" using alloc_reach_ok[OF assms(1)] .
  have inv: "active_inv a (map ?f L)" using ok by (simp add: objects_ok_def)
  have m: "r - 4 \<in> set (map ?f L)" and r: "4 \<le> r" "h + 4 \<le> csize a (r - 4)"
    using ok assms(2) by (force simp: objects_ok_def)+
  have lv: "activeRAM (my a) + 20 \<le> r - 4"
    "r - 4 + csize a (r - 4) \<le> activeRAM (my a) + numBytes (my a)"
    using active_inv_live[OF inv m] by auto
  have "contains a r" using contains_live[OF inv m] r by simp
  have "distinct (map ?f L)" using active_inv_disjoint(1)[OF inv] .
  then have d: "distinct (map fst L)"
    by (auto simp: distinct_map inj_on_def split_beta)
  have "{r ..< r + h} \<inter> {r' ..< r' + h'} = {}" if m': "(r', h') \<in> set L" and ne: "r' \<noteq> r" for r' h'
  proof -
    have r': "4 \<le> r'" "h' + 4 \<le> csize a (r' - 4)" using ok m' by (auto simp: objects_ok_def)
    have "r' - 4 \<in> set (map ?f L)" using m' by force
    then have "r - 4 + csize a (r - 4) \<le> r' - 4 \<or> r' - 4 + csize a (r' - 4) \<le> r - 4"
      using active_inv_disjoint(2)[OF inv m] ne r(1) r'(1) by (metis le_add_diff_inverse2)
    then show ?thesis using r r' by auto
  qed
  then show ?thesis using lv r \<open>contains a r\<close> d by auto
qed

lemma allocator_new_128: "\<exists>a. allocator_new 1000 128 = Inr a \<and> policies a = default_policies
    \<and> my a = \<lparr>activeRAM = 1000, numBytes = 128, throwExc = True, userSupplied = False,
              chunks = map (\<lambda>_. []) (replicate 32 ([] :: nat list))\<rparr>
    \<and> lastUsed (blk a 1000) = 20 \<and> refCnt (blk a 1000) = 0 \<and> inactives a = [] \<and> released a = []"
  by (simp add: allocator_new_def setupBlock_def setPolicy_def HEADER_SIZE_def upd_blk_def
    default_policies_def)

lemma bucket_eval: "bucket 12 = 3" "bucket 16 = 4"
  by (simp_all add: bucket.simps)

lemma scan_empty: "i + n \<le> 32 \<Longrightarrow> scan_buckets cs need (replicate 32 []) i n = None"
  by (induction n arbitrary: i) auto

theorem objects_never_overlap_witness:
  "\<exists>a. alloc_reach a [(1036, 8), (1024, 8)] \<and> {1036 ..< 1036 + 8} \<inter> {1024 ..< 1024 + 8 :: nat} = {}"
proof -
  obtain a where a: "allocator_new 1000 128 = Inr a" "policies a = default_policies"
    "my a = \<lparr>activeRAM = 1000, numBytes = 128, throwExc = True, userSupplied = False,
              chunks = map (\<lambda>_. []) (replicate 32 ([] :: nat list))\<rparr>"
    "lastUsed (blk a 1000) = 20" "refCnt (blk a 1000) = 0"
    using allocator_new_128 by blast
  have need: "bytes_needed 8 = 12" by (simp add: bytes_needed_def CHUNK_HEADER_SIZE_def)
  have e: "map (\<lambda>_. []) (replicate 32 ([] :: nat list)) = (replicate 32 [] :: nat list list)"
    by (simp add: map_replicate)
  obtain a1 where a1: "getRAM 8 a = (a1, Inr 1024)" "policies a1 = default_policies"
    "my a1 = my a" "lastUsed (blk a1 1000) = 32"
    using a by (simp add: getRAM_def default_policies_def default_getRAM_def need bucket_eval
      Let_def scan_empty carve_def upd_blk_def inc_ref_def CHUNK_HEADER_SIZE_def e)
  obtain a2 where a2: "getRAM 8 a1 = (a2, Inr 1036)"
    using a a1(2-4) by (simp add: getRAM_def default_policies_def default_getRAM_def need bucket_eval
      Let_def scan_empty carve_def upd_blk_def inc_ref_def CHUNK_HEADER_SIZE_def e)
  have "alloc_reach a2 [(1036, 8), (1024, 8)]"
    using alloc_reach.get[OF alloc_reach.get[OF alloc_reach.start[OF a(1)] _ _ a1(1)] _ _ a2] by simp
  from this objects_never_overlap[OF this, of 1036 8] show ?thesis by fastforce
qed

lemma getRAM_default: "policies a = default_policies \<Longrightarrow> getRAM h a = default_getRAM h a"
  by (simp add: getRAM_def default_policies_def)

lemma freeRAM_default:
  "policies a = default_policies \<Longrightarrow> freeRAM r a = default_freeRAM (contains a r) r a"
  by (simp add: freeRAM_def default_policies_def)

lemma scan_buckets_first:
  assumes "0 < n" "c = xs @ [p]" "b ! i = c" "need \<le> cs p"
  shows "scan_buckets cs need b i n = Some (i, length xs)"
  using assms by (cases n) (auto simp: nth_append)

text \<open>A block of 128 bytes at address 1000 with one object of 8 bytes, for the instances below.\<close>

definition demo_alloc :: allocator where
  "demo_alloc =
     \<lparr>policies = default_policies,
      my = \<lparr>activeRAM = 1000, numBytes = 128, throwExc = True, userSupplied = False,
            chunks = replicate 32 []\<rparr>,
      inactives = [(200, 300), (400, 500)],
      blk = (\<lambda>s. if s = 1000 then \<lparr>lastUsed = 32, rootOffset = 0, refCnt = 1\<rparr>
                 else \<lparr>lastUsed = 100, rootOffset = 0, refCnt = 2\<rparr>),
      csize = (\<lambda>_. 12), released = []\<rparr>"

lemma demo_alloc_inv: "active_inv demo_alloc [1020]"
  by (rule active_invI[where s = 1000 and u = 32 and n = 1 and b = "replicate 32 []" and carved = "[1020]"])
    (simp_all add: demo_alloc_def)

text \<open>C40: freed space is reused at once: under the default policy, freeing an object and asking for a
  size that needs exactly its chunk gives back the same address and restores the allocator's state
  completely, without taking anything from the free end of the block. For an object that got a new
  chunk this is its own size (rounded up); one that was placed in a larger reused chunk has to be
  asked for with the size of that chunk.\<close>

theorem free_then_get_restores:
  assumes inv: "active_inv a L" and p: "r - 4 \<in> set L" "4 \<le> r"
    and pol: "policies a = default_policies"
    and h: "bytes_needed h = csize a (r - 4)"
  shows "\<exists>a1. freeRAM r a = Inr a1 \<and> active_inv a1 (remove1 (r - 4) L) \<and> getRAM h a1 = (a, Inr r)"
proof -
  let ?p = "r - 4" and ?s = "activeRAM (my a)" and ?b = "chunks (my a)"
  let ?k = "bucket (csize a ?p)"
  let ?a1 = "upd_blk ?s dec_ref (a\<lparr>my := (my a)\<lparr>chunks := ?b[?k := ?b ! ?k @ [?p]]\<rparr>\<rparr>)"
  have i: "active_inv a (?p # remove1 ?p L)"
    using active_inv_permute[OF inv, of "?p # remove1 ?p L"] p by simp
  have r: "r = ?p + 4" using p by simp
  have f: "default_freeRAM True r a = Inr ?a1" "active_inv ?a1 (remove1 ?p L)"
    "numObjectsCurrent a = Suc (numObjectsCurrent ?a1)"
    using default_freeRAM_inv[OF i r] by auto
  have "contains a r" using contains_live[OF inv p(1)] r by simp
  then have fr: "freeRAM r a = Inr ?a1" using f(1) pol by (simp add: freeRAM_default)
  have sz: "8 \<le> csize a ?p" "csize a ?p < 4294967296" using active_inv_live[OF inv p(1)] by auto
  have k: "?k < 32" using bucket_32 sz by blast
  have kb: "?k < length ?b" using k active_inv_len[OF inv] by simp
  let ?b1 = "?b[?k := ?b ! ?k @ [?p]]"
  have sc: "scan_buckets (csize a) (csize a ?p) ?b1 ?k (32 - ?k) = Some (?k, length (?b ! ?k))"
    by (rule scan_buckets_first[where c = "?b ! ?k @ [?p]" and p = ?p]) (use k kb in \<open>auto\<close>)
  have undo: "?b1[?k := erase_at (length (?b ! ?k)) (?b1 ! ?k)] = ?b"
    using kb by (simp add: erase_at_def)
  obtain carved :: "nat list" where
    "refCnt (blk a ?s) + length (concat ?b) = length carved" "length carved < 2 ^ 32"
    by (rule active_invE[OF inv])
  then have "refCnt (blk a ?s) < 4294967296" by simp
  moreover have "0 < refCnt (blk a ?s)" using f(3) by (simp add: numObjectsCurrent_def)
  ultimately have ref: "inc_ref (dec_ref (blk a ?s)) = blk a ?s"
    by (cases "blk a ?s") (simp add: inc_ref_def dec_ref_def u32_def mod_if, linarith)
  have "getRAM h ?a1 = default_getRAM h ?a1" using pol by (simp add: getRAM_default upd_blk_def)
  also have "\<dots> = (a, Inr r)"
    using sc undo ref sz p(2) kb
    by (simp add: default_getRAM_def h Let_def upd_blk_def CHUNK_HEADER_SIZE_def)
  finally show ?thesis using fr f(2) by blast
qed

theorem free_then_get_restores_witness:
  "\<exists>a1. freeRAM 1024 demo_alloc = Inr a1 \<and> getRAM 8 a1 = (demo_alloc, Inr 1024)"
  using free_then_get_restores[OF demo_alloc_inv, of 1024 8]
  by (auto simp: demo_alloc_def bytes_needed_def CHUNK_HEADER_SIZE_def)

text \<open>C37: the default policy refuses a request exactly when it must: it throws iff the block is in
  throwing mode, no free chunk of the block is large enough, and the free end is too short.\<close>

theorem refuses_only_when_full:
  assumes inv: "active_inv a L" and pol: "policies a = default_policies"
    and h: "0 < h" "h + 7 < 4294967296"
  shows "getRAM h a = (a, Inl NotEnoughSpace) \<longleftrightarrow>
    throwExc (my a) \<and> (\<forall>c \<in> set (concat (chunks (my a))). csize a c < bytes_needed h)
    \<and> numBytes (my a) < lastUsed (blk a (activeRAM (my a))) + bytes_needed h"
proof -
  let ?b = "chunks (my a)" and ?need = "bytes_needed h"
  have need: "8 \<le> ?need" "?need < 4294967296"
    using bytes_needed_bounds(4)[OF h(2,1)] bytes_needed_less by auto
  have bn: "bucket ?need < 32" using bucket_32 need by blast
  obtain carved where c: "lastUsed (blk a (activeRAM (my a))) \<le> numBytes (my a)"
    "numBytes (my a) \<le> 2 ^ 34" "length ?b = 32"
    "\<And>i c. i < 32 \<Longrightarrow> c \<in> set (?b ! i) \<Longrightarrow> bucket (csize a c) = i"
    using active_invE[OF inv] by metis
  have u: "u64 (lastUsed (blk a (activeRAM (my a))) + ?need) =
      lastUsed (blk a (activeRAM (my a))) + ?need" using c(1,2) need by simp
  have "scan_buckets (csize a) ?need ?b (bucket ?need) (32 - bucket ?need) = None \<longleftrightarrow>
      (\<forall>c \<in> set (concat ?b). csize a c < ?need)"
  proof
    assume n: "scan_buckets (csize a) ?need ?b (bucket ?need) (32 - bucket ?need) = None"
    show "\<forall>c \<in> set (concat ?b). csize a c < ?need"
    proof (rule ballI, rule ccontr)
      fix x assume x: "x \<in> set (concat ?b)" and big: "\<not> csize a x < ?need"
      then obtain i where i: "i < 32" "x \<in> set (?b ! i)"
        using c(3) by (auto simp: in_set_conv_nth[of _ ?b])
      then have "bucket (csize a x) = i" using c(4) by blast
      then have "bucket ?need \<le> i" using bucket_mono[of ?need "csize a x"] big by simp
      then show False using scan_buckets_None[OF n _ _ i(2)] i(1) big by simp
    qed
  next
    assume all: "\<forall>c \<in> set (concat ?b). csize a c < ?need"
    show "scan_buckets (csize a) ?need ?b (bucket ?need) (32 - bucket ?need) = None"
    proof (rule ccontr)
      assume "\<not> ?thesis"
      then obtain i j where "scan_buckets (csize a) ?need ?b (bucket ?need) (32 - bucket ?need) = Some (i, j)"
        by auto
      from scan_buckets_Some[OF this] have "i < 32" "j < length (?b ! i)" "?need \<le> csize a (?b ! i ! j)"
        using bn by auto
      moreover from this have "?b ! i ! j \<in> set (concat ?b)" using c(3) by (auto intro!: bexI[of _ "?b ! i"])
      ultimately show False using all by fastforce
    qed
  qed
  then show ?thesis
    using need u
    by (auto simp: getRAM_default[OF pol] default_getRAM_def Let_def carve_def split: option.splits)
qed

theorem refuses_only_when_full_witness:
  "getRAM 100 demo_alloc = (demo_alloc, Inl NotEnoughSpace)"
  using refuses_only_when_full[OF demo_alloc_inv, of 100]
  by (simp add: demo_alloc_def bytes_needed_def CHUNK_HEADER_SIZE_def)

text \<open>C24: an inactive block lives exactly as long as its objects: with as many frees as the block has
  references, in any order, every proper prefix leaves it in place and the last one releases it to
  the system, once, and removes it from the list, leaving the other blocks there.\<close>

theorem inactive_block_lifetime:
  assumes "inact_wf (inactives a)" "i < length (inactives a)" "inactives a ! i = (s, e)"
    and "\<forall>h \<in> set hs. s \<le> h \<and> h \<le> e \<and> \<not> contains a h" "policies a = default_policies"
    and "refCnt (blk a s) = length hs" "length hs < 4294967296" "hs \<noteq> []"
  shows "(\<forall>n < length hs. \<exists>a'. freeRAMs (take n hs) a = Inr a' \<and> inactives a' = inactives a
            \<and> released a' = released a)
    \<and> (\<exists>a'. freeRAMs hs a = Inr a' \<and> inactives a' = erase_at i (inactives a)
            \<and> released a' = s # released a)"
proof
  have pre: "\<exists>a'. freeRAMs (take n hs) a = Inr a' \<and> inactives a' = inactives a
      \<and> released a' = released a \<and> refCnt (blk a' s) = length hs - n \<and> my a' = my a
      \<and> policies a' = policies a" if "n < length hs" for n
    by (rule freeRAMs_inactive[OF assms(1-3)]) (use assms(4-7) that in \<open>auto dest: in_set_takeD\<close>)
  then show "\<forall>n < length hs. \<exists>a'. freeRAMs (take n hs) a = Inr a' \<and> inactives a' = inactives a
            \<and> released a' = released a" by blast
  let ?n = "length hs - 1"
  have n: "?n < length hs" using assms(8) by simp
  obtain a1 where a1: "freeRAMs (take ?n hs) a = Inr a1" "inactives a1 = inactives a"
    "released a1 = released a" "refCnt (blk a1 s) = Suc 0" "my a1 = my a" "policies a1 = policies a"
    using pre[OF n] assms(8) by (cases hs rule: rev_cases) auto
  have hs: "hs = take ?n hs @ [last hs]" using assms(8) append_butlast_last_id[OF assms(8)] by (simp add: butlast_conv_take)
  have app: "freeRAMs (xs @ [y]) b = andThen (freeRAMs xs b) (freeRAM y)" for xs y b
    by (induction xs arbitrary: b) (auto simp: andThen_assoc andThen_def split: sum.splits)
  have l: "s \<le> last hs" "last hs \<le> e" "\<not> contains a1 (last hs)"
    using assms(4,8) a1(5) by (auto simp: contains_def)
  have "freeRAM (last hs) a1 = Inr (upd_blk s dec_ref a1
      \<lparr>released := s # released a1, inactives := erase_at i (inactives a1)\<rparr>)"
    using freeRAM_inactive(1)[of a1 i s e "last hs" 0] assms(1,2,3,5) a1 l by simp
  then have "freeRAMs hs a = Inr (upd_blk s dec_ref a1
      \<lparr>released := s # released a1, inactives := erase_at i (inactives a1)\<rparr>)"
    by (subst hs) (simp add: app a1(1) del: One_nat_def)
  then show "\<exists>a'. freeRAMs hs a = Inr a' \<and> inactives a' = erase_at i (inactives a)
            \<and> released a' = s # released a"
    using a1(2,3) by simp
qed

theorem inactive_block_lifetime_witness:
  "\<exists>a'. freeRAMs [404, 440] demo_alloc = Inr a' \<and> inactives a' = [(200, 300)] \<and> released a' = [400]"
proof -
  have i: "inactives demo_alloc = [(200, 300), (400, 500)]" "policies demo_alloc = default_policies"
    "released demo_alloc = []" "refCnt (blk demo_alloc 400) = 2"
    by (simp_all add: demo_alloc_def)
  have "\<forall>h \<in> set [404, 440]. 400 \<le> h \<and> h \<le> 500 \<and> \<not> contains demo_alloc h"
    by (simp add: contains_def demo_alloc_def)
  then show ?thesis
    using inactive_block_lifetime[of demo_alloc 1 400 500 "[404, 440]"] i
    by (simp add: inact_wf_def erase_at_def)
qed

text \<open>Switching to a caller's block and back.\<close>

lemma sort_key_snoc:
  assumes "sorted (map f l)" "f x \<notin> f ` set l"
  shows "sort_key f (l @ [x]) = insort_key f x l"
proof (rule properties_for_sort_key)
  fix k assume "k \<in> set (insort_key f x l)"
  show "filter (\<lambda>y. f k = f y) (insort_key f x l) = filter (\<lambda>y. f k = f y) (l @ [x])"
  proof (cases "f k = f x")
    case True
    then have e: "filter (\<lambda>y. f k = f y) l = []" using assms(2) by (auto simp: filter_empty_conv)
    show ?thesis using True e filter_insort[OF assms(1), of "\<lambda>y. f k = f y" x] by simp
  next
    case False
    then show ?thesis by (simp add: filter_insort_triv)
  qed
qed (simp_all add: assms(1) sorted_insort_key)

lemma erase_start_insort:
  "s \<notin> fst ` set l \<Longrightarrow> erase_start s (insort_key snd (s, e) l) = l"
  by (induction l) auto

lemma inact_wf_sorted: "inact_wf l \<Longrightarrow> sorted (map snd l)"
  by (induction l) (fastforce simp: inact_wf_def)+

text \<open>A temporary switch to a caller's block is undone by \<open>restoreAllocationBlock\<close>: while the
  caller's block is in use the old one is kept alive among the inactive blocks by a phantom reference,
  and afterwards the active state, the list of inactive blocks and the old block's reference count are
  what they were, provided no object of the old block was freed meanwhile, and nothing was released.\<close>

theorem temporary_block_restores:
  assumes wf: "inact_wf (inactives a)" and act: "activeRAM (my a) \<noteq> 0"
    and new: "activeRAM (my a) \<notin> fst ` set (inactives a)"
      "activeRAM (my a) + numBytes (my a) \<notin> snd ` set (inactives a)"
    and ref: "numObjectsCurrent a < 4294967295" and ne: "w \<noteq> activeRAM (my a)"
    and sw: "temporarilyUseBlock w n a = Inr (old, a1)"
    and mid: "userSupplied (my a2)" "inactives a2 = inactives a1"
      "refCnt (blk a2 (activeRAM (my a))) = refCnt (blk a1 (activeRAM (my a)))"
      "released a2 = released a1"
  shows "contains a1 w
    \<and> (activeRAM (my a), activeRAM (my a) + numBytes (my a)) \<in> set (inactives a1)
    \<and> my (restoreAllocationBlock old a2) = my a
    \<and> inactives (restoreAllocationBlock old a2) = inactives a
    \<and> released (restoreAllocationBlock old a2) = released a
    \<and> numObjectsCurrent (restoreAllocationBlock old a2) = numObjectsCurrent a"
proof -
  let ?s = "activeRAM (my a)"
  let ?blk = "(?s, ?s + numBytes (my a))"
  have r0: "refCnt (blk a ?s) < 4294967295" using ref by (simp add: numObjectsCurrent_def)
  then have ph: "refCnt (blk (phantom a) ?s) = Suc (refCnt (blk a ?s))"
    by (simp add: phantom_def upd_blk_def inc_ref_def)
  obtain b where b: "setupBlock w n True (phantom a) = Inr b" "old = my a"
    "a1 = b\<lparr>my := (my b)\<lparr>userSupplied := True\<rparr>\<rparr>"
    using sw by (auto simp: temporarilyUseBlock_def setupUserSuppliedBlock_def andThen_Inr_iff)
  note sb = setupBlock_cases[OF b(1)]
  have ina: "inactives b = insort_key snd ?blk (inactives a)" "released b = released a"
    using b(1) act ph sort_key_snoc[OF inact_wf_sorted[OF wf], of ?blk] new(2)
    by (auto simp: setupBlock_def retire_def phantom_def upd_blk_def Let_def split: if_splits)
  have "blk b ?s = blk (phantom a) ?s" using sb(12)[of ?s] ne by simp
  then have rc: "refCnt (blk a2 ?s) = Suc (refCnt (blk a ?s))" using mid(3) b(3) ph by simp
  have c: "contains a1 w" using sb(1,3,4) b(3) by (simp add: contains_def)
  have "?blk \<in> set (inactives a1)" using b(3) ina by (simp add: set_insort_key)
  moreover have "my (restoreAllocationBlock old a2) = my a"
    using b(2) by (simp add: restoreAllocationBlock_def Let_def upd_blk_def)
  moreover have "inactives (restoreAllocationBlock old a2) = inactives a"
    using b(2,3) mid(1,2) ina(1) erase_start_insort[OF new(1), of "?s + numBytes (my a)"]
    by (simp add: restoreAllocationBlock_def Let_def upd_blk_def)
  moreover have "released (restoreAllocationBlock old a2) = released a"
    using b(2,3) mid(1,4) ina(2) by (simp add: restoreAllocationBlock_def Let_def upd_blk_def)
  moreover have "numObjectsCurrent (restoreAllocationBlock old a2) = numObjectsCurrent a"
    using b(2) rc r0 mid(1)
    by (simp add: restoreAllocationBlock_def Let_def upd_blk_def dec_ref_def numObjectsCurrent_def u32_def)
  ultimately show ?thesis using c by simp
qed

theorem temporary_block_restores_witness:
  "\<exists>old a1. temporarilyUseBlock 320 64 demo_alloc = Inr (old, a1) \<and> my a1 \<noteq> my demo_alloc
     \<and> my (restoreAllocationBlock old a1) = my demo_alloc
     \<and> inactives (restoreAllocationBlock old a1) = inactives demo_alloc"
proof -
  have d: "activeRAM (my demo_alloc) = 1000" "numBytes (my demo_alloc) = 128"
    "inactives demo_alloc = [(200, 300), (400, 500)]" "numObjectsCurrent demo_alloc = 1"
    by (simp_all add: demo_alloc_def numObjectsCurrent_def)
  obtain old a1 where r: "temporarilyUseBlock 320 64 demo_alloc = Inr (old, a1)"
    "activeRAM (my a1) = 320" "userSupplied (my a1)"
    by (simp add: temporarilyUseBlock_def setupUserSuppliedBlock_def setupBlock_def HEADER_SIZE_def
      upd_blk_def Let_def)
  show ?thesis
    using temporary_block_restores[OF _ _ _ _ _ _ r(1) r(3) refl refl refl] r d
    by (intro exI[of _ old] exI[of _ a1]) (auto simp: inact_wf_def)
qed

lemma bytes_needed_truncates: "bytes_needed (4294967296 + k) = bytes_needed k"
proof -
  have "(4 + (4294967296 + k)) mod 4294967296 = (4 + k) mod 4294967296"
    by (metis add.left_commute mod_add_self1)
  then show ?thesis by (simp add: bytes_needed_def CHUNK_HEADER_SIZE_def u32_def)
qed

text \<open>The number of bytes asked for is cut to 32 bits: under the default policy a request of
  \<open>2 ^ 32 + k\<close> bytes is served like one of \<open>k\<close> bytes, and when no freed chunk is reused the chunk
  handed out has fewer than \<open>k + 8\<close> bytes.\<close>

theorem request_size_truncated:
  assumes "active_inv a L" "0 < k" "k + 7 < 4294967296" "policies a = default_policies"
    and "concat (chunks (my a)) = []" and "getRAM (4294967296 + k) a = (a', Inr r)" "r \<noteq> 0"
  shows "getRAM k a = (a', Inr r) \<and> csize a' (r - 4) < k + 8"
proof -
  have b: "bytes_needed (4294967296 + k) = bytes_needed k" by (rule bytes_needed_truncates)
  have same: "getRAM (4294967296 + k) a = getRAM k a"
    using b by (simp add: getRAM_default[OF assms(4)] default_getRAM_def)
  have need: "8 \<le> bytes_needed k" "bytes_needed k < 4294967296"
    using bytes_needed_bounds(4)[OF assms(3,2)] bytes_needed_less by auto
  have len: "length (chunks (my a)) = 32" using active_inv_len assms(1) .
  have "scan_buckets (csize a) (bytes_needed k) (chunks (my a)) (bucket (bytes_needed k))
      (32 - bucket (bytes_needed k)) = None"
  proof (rule ccontr)
    assume "\<not> ?thesis"
    then obtain i j where "scan_buckets (csize a) (bytes_needed k) (chunks (my a))
        (bucket (bytes_needed k)) (32 - bucket (bytes_needed k)) = Some (i, j)" by auto
    from scan_buckets_Some[OF this] have "i < length (chunks (my a))" "j < length (chunks (my a) ! i)"
      using bucket_32[OF need(2)] len by auto
    then have "chunks (my a) ! i ! j \<in> set (concat (chunks (my a)))" by (auto intro!: bexI[of _ "chunks (my a) ! i"])
    then show False using assms(5) by simp
  qed
  then have "default_getRAM k a = carve (bytes_needed k) a"
    using need by (simp add: default_getRAM_def Let_def)
  then have "carve (bytes_needed k) a = (a', Inr r)"
    using assms(6) same by (simp add: getRAM_default[OF assms(4)])
  then have "csize a' (r - 4) = bytes_needed k"
    using assms(7) by (auto simp: carve_def Let_def CHUNK_HEADER_SIZE_def split: if_splits)
  then show ?thesis using bytes_needed_bounds(2)[OF assms(3)] same assms(6) by simp
qed

theorem request_size_truncated_witness:
  "\<exists>a'. getRAM 4294967304 demo_alloc = (a', Inr 1036) \<and> csize a' 1032 < 16"
proof -
  have n: "bytes_needed 4294967304 = 12"
    by (simp add: bytes_needed_def CHUNK_HEADER_SIZE_def u32_def)
  obtain a' where r: "getRAM 4294967304 demo_alloc = (a', Inr 1036)"
    by (simp add: getRAM_def demo_alloc_def default_policies_def default_getRAM_def n bucket_eval
      Let_def scan_empty carve_def upd_blk_def inc_ref_def CHUNK_HEADER_SIZE_def)
  show ?thesis
    using request_size_truncated[OF demo_alloc_inv, of 8 a' 1036] r
    by (simp add: demo_alloc_def)
qed

end
