(* ===== verification/Handles.thy ===== *)
theory Handles
  imports BlockAllocator
begin

text \<open>
  Reference-counted objects and the handles that point to them: \<open>RefCountedObject.cc\<close>,
  \<open>Handle.cc\<close>, and the functions that make objects and records in \<open>InterfaceFunctions.cc\<close>, under
  \<open>src/src/objectModel/headers\<close>.

  A reference-counted object at address \<open>p\<close> is a 32-bit count followed by the object at \<open>p + 4\<close>. A
  handle at address \<open>me\<close> is an offset relative to its own address, \<open>-1\<close> for null, and a type code;
  the position-independent offset is what lets a block be moved as bytes. What the stored types do
  themselves (their sizes, their deep copies, their destructors, dispatched by type code) is the
  environment \<open>tenv\<close>. An operation returns the world together with the exception it ended in, if any.
\<close>

section \<open>The world\<close>

record world =
  alloc :: allocator
  rcnt :: "nat \<Rightarrow> nat"
  hoff :: "nat \<Rightarrow> int"
  htype :: "nat \<Rightarrow> int"

type_synonym wres = "world \<times> unit outcome"

record tenv =
  classSize :: "int \<Rightarrow> nat"
  objSize :: "world \<Rightarrow> int \<Rightarrow> nat \<Rightarrow> nat"
  copyObj :: "int \<Rightarrow> nat \<Rightarrow> nat \<Rightarrow> world \<Rightarrow> wres"
  deleteObj :: "int \<Rightarrow> nat \<Rightarrow> world \<Rightarrow> wres"

definition PREAMBLE :: nat where "PREAMBLE = 4"

definition andDo :: "wres \<Rightarrow> (world \<Rightarrow> wres) \<Rightarrow> wres" where
  "andDo r f = (case r of (w, Inl e) \<Rightarrow> (w, Inl e) | (w, Inr _) \<Rightarrow> f w)"

text \<open>\<open>catch (NotEnoughSpace& n)\<close> with a handler that ends by throwing again.\<close>

definition onFull :: "wres \<Rightarrow> (world \<Rightarrow> wres) \<Rightarrow> wres" where
  "onFull r f =
     (case r of
        (w, Inl NotEnoughSpace) \<Rightarrow> andDo (f w) (\<lambda>w. (w, Inl NotEnoughSpace))
      | (w, r) \<Rightarrow> (w, r))"

definition w_getRAM :: "nat \<Rightarrow> world \<Rightarrow> world \<times> nat outcome" where
  "w_getRAM n w = (case getRAM n (alloc w) of (a, r) \<Rightarrow> (w\<lparr>alloc := a\<rparr>, r))"

definition w_freeRAM :: "nat \<Rightarrow> world \<Rightarrow> wres" where
  "w_freeRAM p w =
     (case freeRAM p (alloc w) of Inl e \<Rightarrow> (w, Inl e) | Inr a \<Rightarrow> (w\<lparr>alloc := a\<rparr>, Inr ()))"

section \<open>Reference counts\<close>

definition setRefCount :: "nat \<Rightarrow> nat \<Rightarrow> world \<Rightarrow> world" where
  "setRefCount p n w = (if isManaged (alloc w) p then w\<lparr>rcnt := (rcnt w)(p := n)\<rparr> else w)"

definition getRefCount :: "nat \<Rightarrow> world \<Rightarrow> nat" where
  "getRefCount p w = (if isManaged (alloc w) p then rcnt w p else 4294967295)"

definition incRefCount :: "nat \<Rightarrow> world \<Rightarrow> world" where
  "incRefCount p w =
     (if isManaged (alloc w) p then w\<lparr>rcnt := (rcnt w)(p := u32 (rcnt w p + 1))\<rparr> else w)"

definition decRefCount :: "tenv \<Rightarrow> int \<Rightarrow> nat \<Rightarrow> world \<Rightarrow> wres" where
  "decRefCount E ty p w =
     (if \<not> isManaged (alloc w) p then (w, Inr ())
      else
        (let w1 = w\<lparr>rcnt := (rcnt w)(p := u32 (rcnt w p + 4294967295))\<rparr>
         in if rcnt w1 p = 0 then andDo (deleteObj E ty (p + PREAMBLE) w1) (w_freeRAM p)
            else (w1, Inr ())))"

section \<open>Handles\<close>

definition isNullPtr :: "world \<Rightarrow> nat \<Rightarrow> bool" where
  "isNullPtr w me \<longleftrightarrow> hoff w me = -1"

definition getTarget :: "world \<Rightarrow> nat \<Rightarrow> nat" where
  "getTarget w me = nat (int me + hoff w me)"

definition setOff :: "nat \<Rightarrow> int \<Rightarrow> world \<Rightarrow> world" where
  "setOff me n w = w\<lparr>hoff := (hoff w)(me := n)\<rparr>"

definition setType :: "nat \<Rightarrow> int \<Rightarrow> world \<Rightarrow> world" where
  "setType me ty w = w\<lparr>htype := (htype w)(me := ty)\<rparr>"

definition point :: "nat \<Rightarrow> nat \<Rightarrow> world \<Rightarrow> world" where
  "point me p w = setOff me (int p - int me) w"

definition handle_new :: "nat \<Rightarrow> int \<Rightarrow> world \<Rightarrow> world" where
  "handle_new me ty w = setOff me (-1) (setType me ty w)"

definition handle_destroy :: "tenv \<Rightarrow> nat \<Rightarrow> world \<Rightarrow> wres" where
  "handle_destroy E me w =
     (if \<not> isNullPtr w me \<and> isManaged (alloc w) (getTarget w me)
      then decRefCount E (htype w me) (getTarget w me) w
      else (w, Inr ()))"

definition handle_getRefCount :: "nat \<Rightarrow> world \<Rightarrow> nat" where
  "handle_getRefCount me w =
     (if \<not> isNullPtr w me \<and> isManaged (alloc w) (getTarget w me)
      then getRefCount (getTarget w me) w else 9999999)"

definition handle_emptyOut :: "nat \<Rightarrow> world \<Rightarrow> world" where
  "handle_emptyOut me w =
     (if \<not> isNullPtr w me
      then setOff me (-1) (w\<lparr>alloc := emptyOutBlock (getTarget w me) (alloc w)\<rparr>) else w)"

text \<open>\<open>GET_OLD_TARGET\<close> and \<open>DEC_OLD_REF_COUNT\<close>.\<close>

definition old_target :: "world \<Rightarrow> nat \<Rightarrow> nat option \<times> int" where
  "old_target w me = (if isNullPtr w me then None else Some (getTarget w me), htype w me)"

definition dec_old :: "tenv \<Rightarrow> nat option \<times> int \<Rightarrow> world \<Rightarrow> wres" where
  "dec_old E old w =
     (case old of (None, ty) \<Rightarrow> (w, Inr ()) | (Some p, ty) \<Rightarrow> decRefCount E ty p w)"

definition assign_null :: "tenv \<Rightarrow> nat \<Rightarrow> world \<Rightarrow> wres" where
  "assign_null E me w = andDo (dec_old E (old_target w me) w) (\<lambda>w. (setOff me (-1) w, Inr ()))"

text \<open>The deep copy the constructors and assignments share: room for \<open>sz\<close> bytes after the count is
  asked for, the handle is pointed there with a count of one, and the object at \<open>src\<close>, which is
  looked up only now, is copied. An exception of \<open>getRAM\<close> itself goes straight to the caller; a null result and a copy that runs out of
  space null the handle. \<open>after\<close> gives up the old target, before (\<open>oldFirst\<close>) or after the new one.\<close>

definition deep_copy ::
  "tenv \<Rightarrow> bool \<Rightarrow> (world \<Rightarrow> wres) \<Rightarrow> nat \<Rightarrow> int \<Rightarrow> nat \<Rightarrow> (world \<Rightarrow> nat) \<Rightarrow> world \<Rightarrow> wres" where
  "deep_copy E oldFirst after me ty sz src w =
     (case w_getRAM (PREAMBLE + sz) w of
        (w1, Inl e) \<Rightarrow> (w1, Inl e)
      | (w1, Inr space) \<Rightarrow>
          if space = 0
          then andDo (after w1) (\<lambda>w. (setOff me (-1) w, Inl NotEnoughSpace))
          else
            andDo
              (onFull
                 (let w2 = setRefCount space 1 (point me space w1)
                  in copyObj E ty (space + PREAMBLE) (src w2 + PREAMBLE) w2)
                 (\<lambda>w. andDo
                    (if oldFirst then andDo (after w) (decRefCount E ty space)
                     else andDo (decRefCount E ty space w) after)
                    (\<lambda>w. (setOff me (-1) w, Inr ()))))
              after)"

definition shallow :: "(world \<Rightarrow> wres) \<Rightarrow> nat \<Rightarrow> nat \<Rightarrow> world \<Rightarrow> wres" where
  "shallow after me p w = after (incRefCount p (point me p w))"

definition must_copy :: "world \<Rightarrow> nat \<Rightarrow> nat \<Rightarrow> bool" where
  "must_copy w p me \<longleftrightarrow> \<not> contains (alloc w) p \<and> contains (alloc w) me"

definition no_old :: "world \<Rightarrow> wres" where
  "no_old w = (w, Inr ())"

text \<open>The constructors, from an object of type \<open>ty\<close> at \<open>p\<close> (0 for null), and from a handle.\<close>

definition construct_from_object :: "tenv \<Rightarrow> int \<Rightarrow> nat \<Rightarrow> nat \<Rightarrow> world \<Rightarrow> wres" where
  "construct_from_object E ty p me w0 =
     (let w = handle_new me ty w0 in
      if p = 0 then (setOff me (-1) w, Inr ())
      else if must_copy w p me then deep_copy E False no_old me ty (classSize E ty) (\<lambda>_. p) w
      else shallow no_old me p w)"

definition construct_from_handle :: "tenv \<Rightarrow> nat \<Rightarrow> nat \<Rightarrow> world \<Rightarrow> wres" where
  "construct_from_handle E from me w0 =
     (if isNullPtr w0 from then (setOff me (-1) (setType me 0 w0), Inr ())
      else
        (let p = getTarget w0 from; ty = htype w0 from; w = handle_new me ty w0 in
         if must_copy w p me
         then deep_copy E False no_old me ty (objSize E w ty (p + PREAMBLE)) (\<lambda>w. getTarget w from) w
         else shallow no_old me p w))"

text \<open>The assignments.\<close>

definition assign_from_object :: "tenv \<Rightarrow> int \<Rightarrow> nat \<Rightarrow> nat \<Rightarrow> world \<Rightarrow> wres" where
  "assign_from_object E ty p me w0 =
     (let old = old_target w0 me; w = setType me ty w0 in
      if p = 0 then andDo (dec_old E old w) (\<lambda>w. (setOff me (-1) w, Inr ()))
      else if must_copy w p me then deep_copy E True (dec_old E old) me ty (classSize E ty) (\<lambda>_. p) w
      else shallow (dec_old E old) me p w)"

definition assign_from_other_object :: "tenv \<Rightarrow> int \<Rightarrow> nat \<Rightarrow> nat \<Rightarrow> world \<Rightarrow> wres" where
  "assign_from_other_object E ty p me w0 =
     (let old = old_target w0 me; w = setType me ty w0 in
      if p = 0 then andDo (dec_old E old w) (\<lambda>w. (setOff me (-1) w, Inr ()))
      else if must_copy w p me then deep_copy E False (dec_old E old) me ty (classSize E ty) (\<lambda>_. p) w
      else shallow (dec_old E old) me p w)"

definition assign_from_handle :: "tenv \<Rightarrow> nat \<Rightarrow> nat \<Rightarrow> world \<Rightarrow> wres" where
  "assign_from_handle E from me w0 =
     (let old = old_target w0 me in
      if isNullPtr w0 from then andDo (dec_old E old w0) (\<lambda>w. (setOff me (-1) w, Inr ()))
      else
        (let p = getTarget w0 from; ty = htype w0 from; w = setType me ty w0 in
         if must_copy w p me
         then deep_copy E False (dec_old E old) me ty (objSize E w ty (p + PREAMBLE)) (\<lambda>w. getTarget w from) w
         else shallow (dec_old E old) me p w))"

definition assign_from_other_handle :: "tenv \<Rightarrow> nat \<Rightarrow> nat \<Rightarrow> world \<Rightarrow> wres" where
  "assign_from_other_handle E from me w0 =
     (let old = old_target w0 me in
      if isNullPtr w0 from then andDo (dec_old E old w0) (\<lambda>w. (setOff me (-1) w, Inr ()))
      else
        (let p = getTarget w0 from; ty = htype w0 from; w = setType me ty w0 in
         if must_copy w p me
         then deep_copy E False (dec_old E old) me ty (objSize E w ty (p + PREAMBLE)) (\<lambda>w. getTarget w from) w
         else shallow (dec_old E old) me p w))"

definition shallow_assign :: "tenv \<Rightarrow> nat \<Rightarrow> nat \<Rightarrow> world \<Rightarrow> wres" where
  "shallow_assign E from me w0 =
     (let old = old_target w0 me in
      if isNullPtr w0 from then andDo (dec_old E old w0) (\<lambda>w. (setOff me (-1) w, Inr ()))
      else shallow (dec_old E old) me (getTarget w0 from) (setType me (htype w0 from) w0))"

definition copyTargetToCurrentAllocationBlock :: "tenv \<Rightarrow> nat \<Rightarrow> nat \<Rightarrow> world \<Rightarrow> wres" where
  "copyTargetToCurrentAllocationBlock E me ret w0 =
     (if contains (alloc w0) (getTarget w0 me) then construct_from_handle E me ret w0
      else
        (let w = handle_new ret (htype w0 me) w0; ty = htype w0 me; src = getTarget w0 me in
         case w_getRAM (PREAMBLE + classSize E ty) w of
           (w1, Inl e) \<Rightarrow> (w1, Inl e)
         | (w1, Inr space) \<Rightarrow>
             if space = 0 then (setOff ret (-1) w1, Inl NotEnoughSpace)
             else
               onFull (copyObj E ty (space + PREAMBLE) (src + PREAMBLE)
                         (setRefCount space 1 (point ret space w1)))
                 (\<lambda>w. andDo (decRefCount E ty space w) (\<lambda>w. (setOff ret (-1) w, Inr ())))))"

section \<open>Making objects\<close>

text \<open>A new current block from \<open>malloc\<close>, whose result is \<open>space\<close>, or from the caller.\<close>

definition makeObjectAllocatorBlock :: "nat \<Rightarrow> nat \<Rightarrow> bool \<Rightarrow> world \<Rightarrow> world outcome" where
  "makeObjectAllocatorBlock space numBytesIn throwOnFail w =
     (if space = 0 then Inl (FatalExit (-1))
      else andThen (setupBlock space numBytesIn throwOnFail (alloc w)) (\<lambda>a. Inr (w\<lparr>alloc := a\<rparr>)))"

definition makeObjectAllocatorBlockAt :: "nat \<Rightarrow> nat \<Rightarrow> bool \<Rightarrow> world \<Rightarrow> world outcome" where
  "makeObjectAllocatorBlockAt space numBytesIn throwOnFail w =
     andThen (setupUserSuppliedBlock space numBytesIn throwOnFail (alloc w))
       (\<lambda>a. Inr (w\<lparr>alloc := a\<rparr>))"

text \<open>\<open>ctor\<close> is the constructor placed at the new object; \<open>tmp\<close> is the address of the local handle of
  \<open>makeObject\<close>'s exception handler. The result is the new object's address, 0 for the null pointer.\<close>

definition makeObject :: "tenv \<Rightarrow> int \<Rightarrow> (nat \<Rightarrow> world \<Rightarrow> wres) \<Rightarrow> nat \<Rightarrow> world \<Rightarrow> world \<times> nat outcome" where
  "makeObject E ty ctor tmp w0 =
     (case w_getRAM (classSize E ty + PREAMBLE) w0 of
        (w, Inl e) \<Rightarrow> (w, Inl e)
      | (w, Inr p) \<Rightarrow>
          if p = 0 then (w, Inr 0)
          else
            (case onFull (ctor (p + PREAMBLE) w)
                    (\<lambda>w. andDo (construct_from_object E ty p tmp w)
                       (\<lambda>w. andDo (w_freeRAM p w) (handle_destroy E tmp))) of
               (w, Inl e) \<Rightarrow> (w, Inl e)
             | (w, Inr _) \<Rightarrow> (setRefCount p 0 w, Inr p)))"

definition makeObjectWithExtraStorage ::
  "tenv \<Rightarrow> int \<Rightarrow> nat \<Rightarrow> (nat \<Rightarrow> world \<Rightarrow> wres) \<Rightarrow> world \<Rightarrow> world \<times> nat outcome" where
  "makeObjectWithExtraStorage E ty extra ctor w0 =
     (case w_getRAM (extra + classSize E ty + PREAMBLE) w0 of
        (w, Inl e) \<Rightarrow> (w, Inl e)
      | (w, Inr p) \<Rightarrow>
          if p = 0 then (w, Inr 0)
          else
            (case onFull (ctor (p + PREAMBLE) w) (w_freeRAM p) of
               (w, Inl e) \<Rightarrow> (w, Inl e)
             | (w, Inr _) \<Rightarrow> (setRefCount p 0 w, Inr p)))"

definition getHandle :: "tenv \<Rightarrow> int \<Rightarrow> nat \<Rightarrow> world \<Rightarrow> world \<times> nat outcome" where
  "getHandle E ty obj w0 =
     (if contains (alloc w0) obj then (w0, Inr (obj - PREAMBLE))
      else
        (case w_getRAM (objSize E w0 ty obj + PREAMBLE) w0 of
           (w, Inl e) \<Rightarrow> (w, Inl e)
         | (w, Inr p) \<Rightarrow>
             if p = 0 then (w, Inl NotEnoughSpace)
             else
               (case onFull (copyObj E ty (p + PREAMBLE) obj (setRefCount p 0 w)) (w_freeRAM p) of
                  (w, Inl e) \<Rightarrow> (w, Inl e)
                | (w, Inr _) \<Rightarrow> (w, Inr p))))"

definition unsafeCast :: "nat \<Rightarrow> nat \<Rightarrow> world \<Rightarrow> world" where
  "unsafeCast castMe result w0 =
     (let w = setOff result (hoff w0 castMe + (int castMe - int result)) w0;
          w1 = setType result (htype w0 castMe) w
      in incRefCount (getTarget w1 result) w1)"

definition getRecord :: "nat \<Rightarrow> world \<Rightarrow> world \<times> nat" where
  "getRecord forMe w =
     (case getAllocationBlock (getTarget w forMe) (alloc w) of (a, b) \<Rightarrow> (w\<lparr>alloc := a\<rparr>, b))"

text \<open>\<open>getRecord\<close> into the caller's memory: \<open>temp\<close> and \<open>ret\<close> are the local handle and the handle
  \<open>copyTargetToCurrentAllocationBlock\<close> returns, both on the stack; the returned one is destroyed
  after the assignment and the local one when the function ends.\<close>

definition getRecordInto ::
  "tenv \<Rightarrow> int \<Rightarrow> nat \<Rightarrow> nat \<Rightarrow> nat \<Rightarrow> nat \<Rightarrow> nat \<Rightarrow> world \<Rightarrow> world \<times> nat outcome" where
  "getRecordInto E ty forMe putMeHere n temp ret w0 =
     (case temporarilyUseBlock putMeHere n (alloc w0) of
        Inl e \<Rightarrow> (w0, Inl e)
      | Inr (old, a) \<Rightarrow>
          (let w = handle_new temp ty (w0\<lparr>alloc := a\<rparr>) in
           case andDo (copyTargetToCurrentAllocationBlock E forMe ret w)
                  (\<lambda>w. andDo (assign_from_handle E ret temp w) (handle_destroy E ret)) of
             (w, Inl NotEnoughSpace) \<Rightarrow>
               (case handle_destroy E temp (w\<lparr>alloc := restoreAllocationBlock old (alloc w)\<rparr>) of
                  (w, Inl e) \<Rightarrow> (w, Inl e) | (w, Inr _) \<Rightarrow> (w, Inl NotEnoughSpace))
           | (w, Inl e) \<Rightarrow> (w, Inl e)
           | (w, Inr _) \<Rightarrow>
               (case getAllocationBlock (getTarget w temp) (alloc w) of
                  (a, res) \<Rightarrow>
                    (case handle_destroy E temp
                            (w\<lparr>alloc := restoreAllocationBlock old a\<rparr>) of
                       (w, Inl e) \<Rightarrow> (w, Inl e)
                     | (w, Inr _) \<Rightarrow> (w, Inr res)))))"

section \<open>The object store behind the handles\<close>

text \<open>What the handles need of an allocator: a granted request lies in the active block, and no
  operation moves that block.\<close>

locale object_store =
  fixes ok :: "'s \<Rightarrow> bool"
    and get :: "nat \<Rightarrow> 's \<Rightarrow> 's \<times> nat outcome"
    and give :: "nat \<Rightarrow> 's \<Rightarrow> 's outcome"
    and inside :: "'s \<Rightarrow> nat \<Rightarrow> bool"
  assumes get_law: "ok s \<Longrightarrow> 0 < n \<Longrightarrow> n + 7 < 4294967296 \<Longrightarrow> get n s = (s', Inr p) \<Longrightarrow> p \<noteq> 0
      \<Longrightarrow> ok s' \<and> inside s' p \<and> inside s' = inside s"
    and refuse_law: "ok s \<Longrightarrow> 0 < n \<Longrightarrow> n + 7 < 4294967296 \<Longrightarrow> get n s = (s', r) \<Longrightarrow> r = Inl e \<or> r = Inr 0
      \<Longrightarrow> s' = s \<and> (r = Inl e \<longrightarrow> e = NotEnoughSpace)"
    and give_law: "give p s = Inr s' \<Longrightarrow> inside s' = inside s"
begin

lemma get_cases:
  assumes "ok s" "0 < n" "n + 7 < 4294967296"
  obtains (refused) "get n s = (s, Inl NotEnoughSpace)"
  | (null) "get n s = (s, Inr 0)"
  | (granted) s' p where "get n s = (s', Inr p)" "p \<noteq> 0" "ok s'" "inside s' p" "inside s' = inside s"
proof (cases "get n s")
  case (Pair s' r)
  show thesis
  proof (cases r)
    case (Inl e)
    then show thesis using refuse_law[OF assms, of s' r e] Pair refused by simp
  next
    case (Inr p)
    then show thesis
      using refuse_law[OF assms, of s' r undefined] get_law[OF assms, of s' p] Pair null granted
      by (cases "p = 0") auto
  qed
qed

end

lemma freeRAM_block:
  assumes "freeRAM p a = Inr a'"
  shows "activeRAM (my a') = activeRAM (my a) \<and> numBytes (my a') = numBytes (my a)"
proof -
  have d: "default_freeRAM c p a = Inr a' \<Longrightarrow>
      activeRAM (my a') = activeRAM (my a) \<and> numBytes (my a') = numBytes (my a)" for c
    by (auto simp: default_freeRAM_def Let_def upd_blk_def split: if_splits option.splits)
  have "policy_freeRAM ps c p a = Inr a' \<Longrightarrow>
      activeRAM (my a') = activeRAM (my a) \<and> numBytes (my a') = numBytes (my a)" for ps c
    by (induction ps) (auto simp: d split: if_splits apolicy.splits)
  then show ?thesis using assms by (auto simp: freeRAM_def)
qed

lemma contains_cong:
  "activeRAM (my a) = activeRAM (my b) \<Longrightarrow> numBytes (my a) = numBytes (my b) \<Longrightarrow> contains a = contains b"
  by (auto simp: contains_def)

interpretation store: object_store "\<lambda>a. \<exists>L. active_inv a L" getRAM freeRAM contains
proof
  fix a n a' p
  assume "\<exists>L. active_inv a L" and n: "0 < n" "n + 7 < 4294967296"
    and g: "getRAM n a = (a', Inr p)" "p \<noteq> (0 :: nat)"
  then obtain L where inv: "active_inv a L" by blast
  have r: "4 \<le> p" "active_inv a' ((p - 4) # L)" "activeRAM (my a') = activeRAM (my a)"
    "numBytes (my a') = numBytes (my a)"
    using getRAM_gets[OF inv n] g by (auto simp: gets_def)
  have "contains a' p" using contains_live[OF r(2), of "p - 4"] r(1) by simp
  then show "(\<exists>L. active_inv a' L) \<and> contains a' p \<and> contains a' = contains a"
    using r contains_cong by blast
next
  fix a n a' r e
  assume "\<exists>L. active_inv a L" and n: "0 < n" "n + 7 < 4294967296"
    and g: "getRAM n a = (a', r)" "r = Inl e \<or> r = Inr (0 :: nat)"
  then obtain L where inv: "active_inv a L" by blast
  show "a' = a \<and> (r = Inl e \<longrightarrow> e = NotEnoughSpace)"
    using getRAM_gets[OF inv n] g by (auto simp: gets_def)
next
  show "contains a' = contains a" if "freeRAM p a = Inr a'" for p a a'
    using freeRAM_block[OF that] contains_cong by blast
qed

section \<open>Handles stay in their block\<close>

text \<open>What the copies and destructors of the stored types do not do: move the active block, or touch
  the handle \<open>me\<close>, which is not part of the objects they work on.\<close>

definition same_frame :: "nat \<Rightarrow> world \<Rightarrow> world \<Rightarrow> bool" where
  "same_frame me w w' \<longleftrightarrow> contains (alloc w') = contains (alloc w) \<and> hoff w' me = hoff w me"

definition env_frames :: "tenv \<Rightarrow> nat \<Rightarrow> bool" where
  "env_frames E me \<longleftrightarrow> (\<forall>ty d s w. same_frame me w (fst (copyObj E ty d s w)))
     \<and> (\<forall>ty d w. same_frame me w (fst (deleteObj E ty d w)))"

lemma same_frame_refl [simp]: "same_frame me w w"
  by (simp add: same_frame_def)

lemma same_frame_trans: "same_frame me a b \<Longrightarrow> same_frame me b c \<Longrightarrow> same_frame me a c"
  by (simp add: same_frame_def)

lemma w_freeRAM_frame: "same_frame me w (fst (w_freeRAM p w))"
  by (auto simp: w_freeRAM_def same_frame_def store.give_law split: sum.split)

lemma andDo_frame:
  assumes "same_frame me w (fst r)" "\<And>w'. same_frame me w' (fst (f w'))"
  shows "same_frame me w (fst (andDo r f))"
  using assms by (cases r) (auto simp: andDo_def intro: same_frame_trans split: sum.split)

lemma decRefCount_frame:
  assumes "env_frames E me"
  shows "same_frame me w (fst (decRefCount E ty p w))"
proof -
  let ?w1 = "w\<lparr>rcnt := (rcnt w)(p := u32 (rcnt w p + 4294967295))\<rparr>"
  have "same_frame me w ?w1" by (simp add: same_frame_def)
  moreover have "same_frame me ?w1 (fst (andDo (deleteObj E ty (p + PREAMBLE) ?w1) (w_freeRAM p)))"
    by (rule andDo_frame) (use assms w_freeRAM_frame in \<open>auto simp: env_frames_def\<close>)
  ultimately show ?thesis
    unfolding decRefCount_def Let_def by (auto intro: same_frame_trans)
qed

lemma dec_old_frame: "env_frames E me \<Longrightarrow> same_frame me w (fst (dec_old E old w))"
  using decRefCount_frame by (auto simp: dec_old_def split: prod.split option.split)

lemma incRefCount_frame: "same_frame me w (incRefCount p w)"
  by (simp add: incRefCount_def same_frame_def)

lemma setRefCount_frame: "same_frame me w (setRefCount p n w)"
  by (simp add: setRefCount_def same_frame_def)

lemma getTarget_point [simp]: "getTarget (point me p w) me = p"
  by (simp add: getTarget_def point_def setOff_def)

lemma getTarget_frame: "same_frame me w w' \<Longrightarrow> getTarget w' me = getTarget w me"
  by (simp add: same_frame_def getTarget_def)

text \<open>\<open>lands\<close>: when the operation does not throw, the handle is null or points into the active block.\<close>

definition lands :: "nat \<Rightarrow> wres \<Rightarrow> bool" where
  "lands me r \<longleftrightarrow> (case r of
     (w, Inl e) \<Rightarrow> True
   | (w, Inr _) \<Rightarrow> isNullPtr w me \<or> contains (alloc w) (getTarget w me))"

lemma lands_point:
  assumes "contains (alloc w) p" "same_frame me (point me p w) (fst r)"
  shows "lands me r"
proof (cases r)
  case (Pair w' o')
  have "getTarget w' me = p" using getTarget_frame[OF assms(2)] Pair by simp
  moreover have "contains (alloc w') = contains (alloc w)"
    using assms(2) Pair by (simp add: same_frame_def point_def setOff_def)
  ultimately show ?thesis using assms(1) Pair by (simp add: lands_def split: sum.split)
qed

lemma shallow_lands:
  assumes "contains (alloc w) p" "\<And>w. same_frame me w (fst (after w))"
  shows "lands me (shallow after me p w)"
  using lands_point[OF assms(1)] incRefCount_frame assms(2) same_frame_trans
  unfolding shallow_def by blast

lemma onFull_Inr: "onFull r f = (w, Inr x) \<Longrightarrow> r = (w, Inr x)"
  by (cases r) (auto simp: onFull_def andDo_def split: sum.splits fault.splits prod.splits)

lemma deep_copy_lands:
  assumes env: "env_frames E me" and after: "\<And>w. same_frame me w (fst (after w))"
    and inv: "active_inv (alloc w) L" and sz: "sz + 11 < 4294967296"
  shows "lands me (deep_copy E oldFirst after me ty sz src w)"
proof -
  have n: "0 < PREAMBLE + sz" "PREAMBLE + sz + 7 < 4294967296" using sz by (auto simp: PREAMBLE_def)
  have "\<exists>L. active_inv (alloc w) L" using inv by blast
  from this n show ?thesis
  proof (cases rule: store.get_cases)
    case refused
    then show ?thesis by (simp add: deep_copy_def w_getRAM_def lands_def)
  next
    case null
    then show ?thesis
      by (auto simp: deep_copy_def w_getRAM_def lands_def andDo_def split: prod.splits sum.splits)
  next
    case (granted a' p)
    let ?w1 = "w\<lparr>alloc := a'\<rparr>"
    let ?w2 = "setRefCount p 1 (point me p ?w1)"
    let ?c = "copyObj E ty (p + PREAMBLE) (src ?w2 + PREAMBLE) ?w2"
    let ?h = "\<lambda>w. andDo (if oldFirst then andDo (after w) (decRefCount E ty p)
                     else andDo (decRefCount E ty p w) after) (\<lambda>w. (setOff me (-1) w, Inr ()))"
    have eq: "deep_copy E oldFirst after me ty sz src w = andDo (onFull ?c ?h) after"
      using granted by (simp add: deep_copy_def w_getRAM_def Let_def)
    have c: "same_frame me (point me p ?w1) (fst ?c)"
      using env setRefCount_frame same_frame_trans unfolding env_frames_def by blast
    show ?thesis
    proof (cases "andDo (onFull ?c ?h) after")
      case (Pair w' o')
      show ?thesis
      proof (cases o')
        case (Inl e)
        then show ?thesis unfolding eq Pair by (simp add: lands_def)
      next
        case (Inr u)
        obtain v x where v: "onFull ?c ?h = (v, Inr x)" "after v = (w', Inr u)"
          using Pair Inr by (auto simp: andDo_def split: prod.splits sum.splits)
        have "same_frame me (point me p ?w1) v" using c onFull_Inr[OF v(1)] by simp
        then have "same_frame me (point me p ?w1) (fst (andDo (onFull ?c ?h) after))"
          using after[of v] v Pair same_frame_trans by fastforce
        then show ?thesis unfolding eq using lands_point[of ?w1 p me] granted(4) by simp
      qed
    qed
  qed
qed

lemma lands_nulled: "lands me (andDo r (\<lambda>w. (setOff me (-1) w, Inr ())))"
  by (cases r) (auto simp: andDo_def lands_def isNullPtr_def setOff_def split: sum.split)

lemma no_old_frame: "same_frame me w (fst (no_old w))"
  by (simp add: no_old_def)

definition sizes_small :: "tenv \<Rightarrow> bool" where
  "sizes_small E \<longleftrightarrow> (\<forall>ty. classSize E ty + 11 < 4294967296)
     \<and> (\<forall>w ty obj. objSize E w ty obj + 11 < 4294967296)"

lemma branch_lands:
  assumes "env_frames E me" "\<And>w. same_frame me w (fst (after w))" "active_inv (alloc w) L"
    and "sz + 11 < 4294967296" "contains (alloc w) me"
  shows "lands me (if must_copy w p me then deep_copy E oldFirst after me ty sz src w
     else shallow after me p w)"
  using assms deep_copy_lands[OF assms(1,2,3,4)] shallow_lands[OF _ assms(2)]
  by (auto simp: must_copy_def)

section \<open>Handles and counts\<close>

lemma assign_from_other_handle_eq: "assign_from_other_handle = assign_from_handle"
  by (simp add: fun_eq_iff assign_from_other_handle_def assign_from_handle_def)

lemma isManaged_contains: "contains a p \<Longrightarrow> isManaged a p"
  by (simp add: isManaged_def)

lemma shallow_counts:
  assumes "isManaged (alloc w) p" "rcnt w p < 4294967295"
  shows "incRefCount p (point me p w) =
    w\<lparr>rcnt := (rcnt w)(p := Suc (rcnt w p)), hoff := (hoff w)(me := int p - int me)\<rparr>"
  using assms by (simp add: incRefCount_def point_def setOff_def)

lemma decRefCount_alive:
  assumes "isManaged (alloc w) p" "rcnt w p = Suc (Suc n)" "n < 4294967294"
  shows "decRefCount E ty p w = (w\<lparr>rcnt := (rcnt w)(p := Suc n)\<rparr>, Inr ())"
  using assms by (simp add: decRefCount_def Let_def u32_def mod_if)

lemma decRefCount_last:
  assumes "isManaged (alloc w) p" "rcnt w p = Suc 0"
  shows "decRefCount E ty p w =
    andDo (deleteObj E ty (p + 4) (w\<lparr>rcnt := (rcnt w)(p := 0)\<rparr>)) (w_freeRAM p)"
  using assms by (simp add: decRefCount_def Let_def u32_def PREAMBLE_def)

fun destroy_all :: "tenv \<Rightarrow> nat list \<Rightarrow> world \<Rightarrow> wres" where
  "destroy_all E [] w = (w, Inr ())"
| "destroy_all E (me # hs) w = andDo (handle_destroy E me w) (destroy_all E hs)"

lemma destroy_some:
  assumes "\<forall>me \<in> set hs. \<not> isNullPtr w me \<and> getTarget w me = p" "isManaged (alloc w) p"
    and "rcnt w p = length hs + Suc n" "length hs + Suc n < 4294967296"
  shows "destroy_all E hs w = (w\<lparr>rcnt := (rcnt w)(p := Suc n)\<rparr>, Inr ())"
  using assms
proof (induction hs arbitrary: w)
  case Nil
  then have "(rcnt w)(p := Suc n) = rcnt w" by auto
  then show ?case by simp
next
  case (Cons me hs)
  let ?w = "w\<lparr>rcnt := (rcnt w)(p := Suc (length hs + n))\<rparr>"
  have "handle_destroy E me w = (?w, Inr ())"
    using Cons.prems decRefCount_alive[of w p "length hs + n" E "htype w me"]
    by (simp add: handle_destroy_def)
  moreover have "destroy_all E hs ?w = (?w\<lparr>rcnt := (rcnt ?w)(p := Suc n)\<rparr>, Inr ())"
    by (rule Cons.IH) (use Cons.prems in \<open>auto simp: isNullPtr_def getTarget_def\<close>)
  ultimately show ?case by (simp add: andDo_def fun_upd_def cong: if_cong)
qed

section \<open>Properties\<close>

text \<open>C26: position independence: a handle that lives in the active block never ends up pointing out of
  it. After any assignment or construction that does not throw, from a handle or an object wherever it
  lives, the handle is null or its target is in the active block (deep-copied there when it was
  elsewhere), so a block can be moved as bytes.\<close>

theorem handle_targets_stay_in_block:
  assumes "active_inv (alloc w) L" "contains (alloc w) me" "env_frames E me" "sizes_small E"
    and "r = assign_from_handle E from me w \<or> r = assign_from_other_handle E from me w
      \<or> r = assign_from_object E ty p me w
      \<or> r = assign_from_other_object E ty p me w
      \<or> r = construct_from_handle E from me w \<or> r = construct_from_object E ty p me w"
  shows "lands me r"
proof -
  have f: "\<And>w old. same_frame me w (fst (dec_old E old w))" using dec_old_frame[OF assms(3)] .
  have sz: "classSize E ty + 11 < 4294967296" "\<And>w ty obj. objSize E w ty obj + 11 < 4294967296"
    using assms(4) by (auto simp: sizes_small_def)
  have ty: "active_inv (alloc (setType me ty' w)) L" "contains (alloc (setType me ty' w)) me"
    "active_inv (alloc (handle_new me ty' w)) L" "contains (alloc (handle_new me ty' w)) me" for ty'
    using assms(1,2) by (auto simp: setType_def handle_new_def setOff_def)
  note br = branch_lands[OF assms(3)]
  have null: "lands me (setOff me (-1) v, Inr ())" for v
    by (simp add: lands_def isNullPtr_def setOff_def)
  have "lands me (assign_from_handle E from me w)"
    using lands_nulled br[OF f ty(1) sz(2) ty(2)] unfolding assign_from_handle_def Let_def
    by (cases "isNullPtr w from") simp_all
  moreover have "lands me (assign_from_object E ty p me w)"
    using lands_nulled br[OF f ty(1) sz(1) ty(2)] unfolding assign_from_object_def Let_def
    by (cases "p = 0") simp_all
  moreover have "lands me (assign_from_other_object E ty p me w)"
    using lands_nulled br[OF f ty(1) sz(1) ty(2)] unfolding assign_from_other_object_def Let_def
    by (cases "p = 0") simp_all
  moreover have "lands me (construct_from_handle E from me w)"
    using null br[OF no_old_frame ty(3) sz(2) ty(4)] unfolding construct_from_handle_def Let_def
    by (cases "isNullPtr w from") simp_all
  moreover have "lands me (construct_from_object E ty p me w)"
    using null br[OF no_old_frame ty(3) sz(1) ty(4)] unfolding construct_from_object_def Let_def
    by (cases "p = 0") simp_all
  ultimately show ?thesis using assms(5) unfolding assign_from_other_handle_eq by blast
qed

text \<open>A world for the instances: the allocator of \<open>demo_alloc\<close>, whose object at 1024 holds a handle at
  1028, and a handle at 5000 outside the block that points to an object at 7000.\<close>

definition demo_tenv :: tenv where
  "demo_tenv = \<lparr>classSize = (\<lambda>_. 8), objSize = (\<lambda>_ _ _. 8), copyObj = (\<lambda>_ _ _ w. (w, Inr ())),
                deleteObj = (\<lambda>_ _ w. (w, Inr ()))\<rparr>"

definition demo_world :: world where
  "demo_world = \<lparr>alloc = demo_alloc, rcnt = (\<lambda>p. if p = 1024 then 2 else 0),
     hoff = (\<lambda>m. if m = 5000 then 2000 else if m = 6000 then -4976 else if m = 6100 then -5076
                 else -1),
     htype = (\<lambda>m. if m = 5000 then 77 else 33)\<rparr>"

lemma demo_env_ok: "env_frames demo_tenv me" "sizes_small demo_tenv"
  by (simp_all add: env_frames_def sizes_small_def demo_tenv_def)

lemma demo_contains: "contains demo_alloc x \<longleftrightarrow> 1000 \<le> x \<and> x < 1128"
  by (simp add: contains_def demo_alloc_def)

lemma demo_getRAM_12: "getRAM 12 demo_alloc =
    (upd_blk 1000 (\<lambda>h. inc_ref (h\<lparr>lastUsed := 48\<rparr>)) demo_alloc\<lparr>csize := (csize demo_alloc)(1032 := 16)\<rparr>,
     Inr 1036)"
  by (simp add: getRAM_def demo_alloc_def default_policies_def default_getRAM_def bytes_needed_def
    bucket_eval Let_def scan_empty carve_def upd_blk_def inc_ref_def CHUNK_HEADER_SIZE_def)

theorem handle_targets_stay_in_block_witness:
  "\<exists>w'. assign_from_handle demo_tenv 5000 1028 demo_world = (w', Inr ())
     \<and> \<not> contains demo_alloc (getTarget demo_world 5000) \<and> contains (alloc w') (getTarget w' 1028)"
proof -
  have inv: "active_inv (alloc demo_world) [1020]" using demo_alloc_inv by (simp add: demo_world_def)
  have c: "contains (alloc demo_world) 1028" by (simp add: demo_world_def demo_contains)
  obtain w' where r: "assign_from_handle demo_tenv 5000 1028 demo_world = (w', Inr ())"
    "\<not> isNullPtr w' 1028"
    by (simp add: assign_from_handle_def isNullPtr_def demo_world_def getTarget_def must_copy_def
      demo_contains deep_copy_def w_getRAM_def demo_tenv_def PREAMBLE_def demo_getRAM_12 Let_def
      old_target_def dec_old_def onFull_def andDo_def setType_def setRefCount_def point_def setOff_def)
  have "lands 1028 (assign_from_handle demo_tenv 5000 1028 demo_world)"
    using handle_targets_stay_in_block[OF inv c demo_env_ok] by blast
  then show ?thesis
    using r by (simp add: lands_def demo_contains) (simp add: getTarget_def demo_world_def)
qed

text \<open>C7: an object dies with its last handle: when \<open>n\<close> handles point to a managed object whose count
  is \<open>n\<close>, destroying any proper prefix of them only lowers the count, and destroying the last one runs
  the object's destructor exactly once and then frees its chunk.\<close>

theorem object_dies_with_last_handle:
  assumes "\<forall>me \<in> set hs. \<not> isNullPtr w me \<and> getTarget w me = p" "isManaged (alloc w) p"
    and "rcnt w p = length hs" "length hs < 4294967296" "hs \<noteq> []"
  shows "(\<forall>n < length hs. destroy_all E (take n hs) w =
            (w\<lparr>rcnt := (rcnt w)(p := length hs - n)\<rparr>, Inr ()))
    \<and> destroy_all E hs w =
        andDo (deleteObj E (htype w (last hs)) (p + 4) (w\<lparr>rcnt := (rcnt w)(p := 0)\<rparr>)) (w_freeRAM p)"
proof
  have pre: "destroy_all E (take n hs) w = (w\<lparr>rcnt := (rcnt w)(p := length hs - n)\<rparr>, Inr ())"
    if "n < length hs" for n
  proof -
    have "Suc (length hs - n - 1) = length hs - n" using that by simp
    moreover have "\<forall>me \<in> set (take n hs). \<not> isNullPtr w me \<and> getTarget w me = p"
      using assms(1) by (auto dest: in_set_takeD)
    ultimately show ?thesis
      using destroy_some[of "take n hs" w p "length hs - n - 1" E] assms(2-4) that by simp
  qed
  then show "\<forall>n < length hs. destroy_all E (take n hs) w =
            (w\<lparr>rcnt := (rcnt w)(p := length hs - n)\<rparr>, Inr ())" by blast
  obtain bs l where hs: "hs = bs @ [l]" using assms(5) by (cases hs rule: rev_cases) auto
  have app: "destroy_all E (xs @ [y]) v = andDo (destroy_all E xs v) (handle_destroy E y)" for xs y v
    by (induction xs arbitrary: v) (auto simp: andDo_def split: prod.splits sum.splits)
  have one: "destroy_all E bs w = (w\<lparr>rcnt := (rcnt w)(p := Suc 0)\<rparr>, Inr ())"
    using pre[of "length bs"] hs by simp
  let ?w = "w\<lparr>rcnt := (rcnt w)(p := Suc 0)\<rparr>"
  have "handle_destroy E l ?w =
      andDo (deleteObj E (htype w l) (p + 4) (w\<lparr>rcnt := (rcnt w)(p := 0)\<rparr>)) (w_freeRAM p)"
    using assms(1,2) decRefCount_last[of ?w p E "htype w l"] hs
    by (simp add: handle_destroy_def isNullPtr_def getTarget_def)
  then show "destroy_all E hs w =
        andDo (deleteObj E (htype w (last hs)) (p + 4) (w\<lparr>rcnt := (rcnt w)(p := 0)\<rparr>)) (w_freeRAM p)"
    by (simp add: hs app one andDo_def)
qed

theorem object_dies_with_last_handle_witness:
  "destroy_all demo_tenv [6000, 6100] demo_world =
     w_freeRAM 1024 (demo_world\<lparr>rcnt := (rcnt demo_world)(1024 := 0)\<rparr>)"
proof -
  have "\<forall>me \<in> set [6000, 6100]. \<not> isNullPtr demo_world me \<and> getTarget demo_world me = 1024"
    by (simp add: demo_world_def isNullPtr_def getTarget_def)
  moreover have "isManaged (alloc demo_world) 1024"
    by (simp add: demo_world_def isManaged_contains demo_contains)
  moreover have "rcnt demo_world 1024 = length [6000, 6100 :: nat]" by (simp add: demo_world_def)
  ultimately have "destroy_all demo_tenv [6000, 6100] demo_world =
      andDo (deleteObj demo_tenv (htype demo_world (last [6000, 6100])) (1024 + 4)
               (demo_world\<lparr>rcnt := (rcnt demo_world)(1024 := 0)\<rparr>)) (w_freeRAM 1024)"
    by (rule object_dies_with_last_handle[THEN conjunct2]) simp_all
  then show ?thesis by (simp add: demo_tenv_def andDo_def)
qed

text \<open>Self-assignment is harmless: assigning a handle to itself, when no deep copy is called for,
  leaves the whole world as it was, even when it is the last handle of its object.\<close>

theorem self_assignment_unchanged:
  assumes "\<not> isNullPtr w me" "0 \<le> int me + hoff w me" "isManaged (alloc w) (getTarget w me)"
    and "\<not> must_copy w (getTarget w me) me"
    and "0 < rcnt w (getTarget w me)" "rcnt w (getTarget w me) < 4294967295"
  shows "assign_from_handle E me me w = (w, Inr ())"
proof -
  let ?p = "getTarget w me"
  obtain n where n: "rcnt w ?p = Suc n" using assms(5) by (cases "rcnt w ?p") auto
  have same: "setType me (htype w me) w = w" by (simp add: setType_def)
  have pt: "int ?p - int me = hoff w me" using assms(2) by (simp add: getTarget_def)
  have "assign_from_handle E me me w = decRefCount E (htype w me) ?p (incRefCount ?p (point me ?p w))"
    using assms(1,4) same
    by (simp add: assign_from_handle_def Let_def shallow_def old_target_def dec_old_def)
  also have "incRefCount ?p (point me ?p w) = w\<lparr>rcnt := (rcnt w)(?p := Suc (Suc n))\<rparr>"
    using shallow_counts[OF assms(3,6)] n pt by simp
  also have "decRefCount E (htype w me) ?p (w\<lparr>rcnt := (rcnt w)(?p := Suc (Suc n))\<rparr>) =
      (w\<lparr>rcnt := (rcnt w)(?p := Suc n)\<rparr>, Inr ())"
    using decRefCount_alive[of "w\<lparr>rcnt := (rcnt w)(?p := Suc (Suc n))\<rparr>" ?p n E "htype w me"]
      assms(3,6) n by simp
  also have "(rcnt w)(?p := Suc n) = rcnt w" using n by auto
  finally show ?thesis by simp
qed

theorem self_assignment_unchanged_witness:
  "assign_from_handle demo_tenv 6000 6000 demo_world = (demo_world, Inr ())"
  by (rule self_assignment_unchanged)
    (simp_all add: demo_world_def isNullPtr_def getTarget_def isManaged_contains demo_contains must_copy_def)

text \<open>Type confusion after a refused deep copy: the assignment changes the handle's type code
  before it asks for RAM, and the exception of \<open>getRAM\<close> is not caught, so the handle then points to
  its old object under the type code of the object it was to be assigned.\<close>

theorem refused_assignment_confuses_type:
  assumes "\<not> isNullPtr w from" "must_copy w (getTarget w from) me"
    and "getRAM (PREAMBLE + objSize E (setType me (htype w from) w) (htype w from) (getTarget w from + PREAMBLE))
           (alloc w) = (alloc w, Inl NotEnoughSpace)"
  shows "\<exists>w'. assign_from_handle E from me w = (w', Inl NotEnoughSpace)
    \<and> getTarget w' me = getTarget w me \<and> isNullPtr w' me = isNullPtr w me
    \<and> htype w' me = htype w from \<and> rcnt w' = rcnt w"
proof -
  let ?w = "setType me (htype w from) w"
  have mc: "must_copy ?w (getTarget w from) me"
    using assms(2) by (simp add: must_copy_def setType_def)
  have "alloc ?w = alloc w" by (simp add: setType_def)
  then have "assign_from_handle E from me w = (?w\<lparr>alloc := alloc w\<rparr>, Inl NotEnoughSpace)"
    using assms(1,3) mc by (simp add: assign_from_handle_def Let_def deep_copy_def w_getRAM_def)
  then show ?thesis by (simp add: setType_def getTarget_def isNullPtr_def)
qed

definition big_tenv :: tenv where
  "big_tenv = demo_tenv\<lparr>objSize := (\<lambda>_ _ _. 100)\<rparr>"

lemma demo_getRAM_104: "getRAM 104 demo_alloc = (demo_alloc, Inl NotEnoughSpace)"
  by (simp add: getRAM_def demo_alloc_def default_policies_def default_getRAM_def bytes_needed_def
    Let_def scan_empty carve_def CHUNK_HEADER_SIZE_def bucket.simps)

theorem refused_assignment_confuses_type_witness:
  "\<exists>w'. assign_from_handle big_tenv 5000 1028 (setOff 1028 (-4) demo_world) = (w', Inl NotEnoughSpace)
    \<and> getTarget w' 1028 = 1024 \<and> htype w' 1028 = 77 \<and> htype demo_world 1028 = 33"
proof -
  let ?w = "setOff 1028 (-4) demo_world"
  have "\<not> isNullPtr ?w 5000" "must_copy ?w (getTarget ?w 5000) 1028" "alloc ?w = demo_alloc"
    "getTarget ?w 1028 = 1024" "htype ?w 5000 = 77" "htype demo_world 1028 = 33"
    by (simp_all add: isNullPtr_def setOff_def demo_world_def must_copy_def getTarget_def demo_contains)
  then show ?thesis
    using refused_assignment_confuses_type[of ?w 5000 1028 big_tenv] demo_getRAM_104
    by (auto simp: big_tenv_def PREAMBLE_def)
qed

text \<open>Casting a null handle with \<open>unsafeCast\<close> gives a handle that is not null: the sentinel offset
  is shifted by the distance of the two handles like any other offset.\<close>

theorem unsafeCast_of_null_not_null:
  assumes "isNullPtr w castMe" "result \<noteq> castMe"
  shows "\<not> isNullPtr (unsafeCast castMe result w) result
    \<and> (0 < castMe \<longrightarrow> getTarget (unsafeCast castMe result w) result = castMe - 1)"
  using assms by (auto simp: unsafeCast_def Let_def isNullPtr_def setOff_def setType_def
    incRefCount_def getTarget_def)

theorem unsafeCast_of_null_not_null_witness:
  "\<not> isNullPtr (unsafeCast 1040 6200 demo_world) 6200
   \<and> getTarget (unsafeCast 1040 6200 demo_world) 6200 = 1039"
  using unsafeCast_of_null_not_null[of demo_world 1040 6200]
  by (simp add: isNullPtr_def demo_world_def)

text \<open>\<open>makeObjectWithExtraStorage\<close> is exception safe: when the constructor throws
  \<open>NotEnoughSpace\<close>, the chunk taken for the object is given back, once, and the block has exactly the
  objects the constructor left in it.\<close>

theorem makeObjectWithExtraStorage_safe:
  assumes "w_getRAM (extra + classSize E ty + PREAMBLE) w = (w1, Inr p)" "4 \<le> p"
    and "ctor (p + PREAMBLE) w1 = (w2, Inl NotEnoughSpace)"
    and "active_inv (alloc w2) ((p - 4) # L)" "policies (alloc w2) = default_policies"
  shows "\<exists>w'. makeObjectWithExtraStorage E ty extra ctor w = (w', Inl NotEnoughSpace)
    \<and> active_inv (alloc w') L \<and> numObjectsCurrent (alloc w2) = Suc (numObjectsCurrent (alloc w'))"
proof -
  have p: "p = (p - 4) + 4" using assms(2) by simp
  obtain a where a: "default_freeRAM True p (alloc w2) = Inr a" "active_inv a L"
    "numObjectsCurrent (alloc w2) = Suc (numObjectsCurrent a)"
    using default_freeRAM_inv[OF assms(4) p] by blast
  have "contains (alloc w2) p" using contains_live[OF assms(4), of "p - 4"] p by simp
  then have "w_freeRAM p w2 = (w2\<lparr>alloc := a\<rparr>, Inr ())"
    using a(1) assms(5) by (simp add: w_freeRAM_def freeRAM_default)
  then have "makeObjectWithExtraStorage E ty extra ctor w = (w2\<lparr>alloc := a\<rparr>, Inl NotEnoughSpace)"
    using assms(1,2,3) by (simp add: makeObjectWithExtraStorage_def onFull_def andDo_def)
  then show ?thesis using a by simp
qed

text \<open>\<open>makeObject\<close> frees twice: when the constructor throws \<open>NotEnoughSpace\<close> and the word under the
  reference count happened to be 0, as it is in every chunk that held an object before, the handler
  frees the chunk and then destroys a handle to it, whose count falls to 0 and frees it again. The
  chunk is then twice among the free ones, so that two later objects get the same address, and the
  block's reference count is one too low.\<close>

theorem makeObject_frees_twice:
  assumes inv: "active_inv (alloc w1) ((p - 4) # L)" "policies (alloc w1) = default_policies" "4 \<le> p"
    and got: "w_getRAM (classSize E ty + PREAMBLE) w = (w1, Inr p)"
    and stale: "rcnt w1 p = 0"
    and ctor: "ctor (p + PREAMBLE) w1 = (w1, Inl NotEnoughSpace)"
    and tmp: "tmp \<noteq> p + 1"
    and del: "\<And>v. deleteObj E ty (p + PREAMBLE) v = (v, Inr ())"
  shows "\<exists>w'. makeObject E ty ctor tmp w = (w', Inl NotEnoughSpace)
    \<and> 2 \<le> count (mset (concat (chunks (my (alloc w'))))) (p - 4)
    \<and> numObjectsCurrent (alloc w1) = Suc (u32 (numObjectsCurrent (alloc w') + 1))"
proof -
  let ?c = "p - 4" and ?a = "alloc w1"
  let ?k = "bucket (csize ?a ?c)" and ?s = "activeRAM (my ?a)"
  have p: "p = ?c + 4" using inv(3) by simp
  have sz: "8 \<le> csize ?a ?c" "csize ?a ?c < 4294967296" using active_inv_live[OF inv(1)] by auto
  have cp: "contains ?a p" using contains_live[OF inv(1), of ?c] p by simp
  define a1 where "a1 = upd_blk ?s dec_ref
        (?a\<lparr>my := (my ?a)\<lparr>chunks := (chunks (my ?a))[?k := chunks (my ?a) ! ?k @ [?c]]\<rparr>\<rparr>)"
  have f1: "default_freeRAM True p ?a = Inr a1" "active_inv a1 L"
    "numObjectsCurrent ?a = Suc (numObjectsCurrent a1)"
    using default_freeRAM_inv[OF inv(1) p] unfolding a1_def by auto
  have a1: "contains a1 p" "csize a1 = csize ?a" "policies a1 = default_policies"
    "chunks (my a1) = (chunks (my ?a))[?k := chunks (my ?a) ! ?k @ [?c]]" "activeRAM (my a1) = ?s"
    using cp inv(2) by (auto simp: a1_def upd_blk_def contains_def)
  define a2 where "a2 = upd_blk ?s dec_ref
        (a1\<lparr>my := (my a1)\<lparr>chunks := (chunks (my a1))[?k := chunks (my a1) ! ?k @ [?c]]\<rparr>\<rparr>)"
  have f2: "default_freeRAM True p a1 = Inr a2"
    using sz a1(2,5) by (simp add: default_freeRAM_def CHUNK_HEADER_SIZE_def Let_def a2_def)
  have k: "?k < length (chunks (my ?a))" using bucket_32[OF sz(2)] active_inv_len[OF inv(1)] by simp
  have c2: "2 \<le> count (mset (concat (chunks (my a2)))) ?c"
  proof -
    have "chunks (my a2) = (chunks (my a1))[?k := chunks (my a1) ! ?k @ [?c]]"
      by (simp add: a2_def upd_blk_def)
    moreover have "?k < length (chunks (my a1))" using k a1(4) by simp
    ultimately have m2: "mset (concat (chunks (my a2))) = add_mset ?c (mset (concat (chunks (my a1))))"
      using mset_concat_update[of ?k "chunks (my a1)" "chunks (my a1) ! ?k @ [?c]"] by simp
    have "mset (concat (chunks (my a1))) = add_mset ?c (mset (concat (chunks (my ?a))))"
      using mset_concat_update[OF k, of "chunks (my ?a) ! ?k @ [?c]"] a1(4) by simp
    then show ?thesis unfolding m2 by simp
  qed
  obtain carved :: "nat list" where "refCnt (blk a1 ?s) + length (concat (chunks (my a1))) = length carved"
    "length carved < 2 ^ 32"
    using active_invE[OF f1(2)] a1(5) by metis
  then have lt: "numObjectsCurrent a1 < 4294967296" using a1(5) by (simp add: numObjectsCurrent_def)
  have "numObjectsCurrent a2 = u32 (numObjectsCurrent a1 + 4294967295)"
    using a1(5) by (simp add: numObjectsCurrent_def a2_def upd_blk_def dec_ref_def)
  then have n2: "u32 (numObjectsCurrent a2 + 1) = numObjectsCurrent a1"
    using lt by (simp add: u32_def mod_Suc_eq mod_simps)
  let ?w2 = "(point tmp p (handle_new tmp ty w1))\<lparr>rcnt := (rcnt w1)(p := 1)\<rparr>"
  have al: "alloc ?w2 = ?a" by (simp add: point_def handle_new_def setOff_def setType_def)
  have con: "construct_from_object E ty p tmp w1 = (?w2, Inr ())"
    using cp inv(3) stale
    by (simp add: construct_from_object_def Let_def must_copy_def handle_new_def setOff_def setType_def
      shallow_def no_old_def incRefCount_def point_def isManaged_contains)
  let ?w3 = "?w2\<lparr>alloc := a1\<rparr>"
  have fr1: "w_freeRAM p ?w2 = (?w3, Inr ())"
    using f1(1) cp inv(2) al by (simp add: w_freeRAM_def freeRAM_default)
  have tg: "getTarget ?w3 tmp = p" "\<not> isNullPtr ?w3 tmp" "htype ?w3 tmp = ty"
  proof -
    show "getTarget ?w3 tmp = p" by (simp add: getTarget_def point_def setOff_def)
    show "htype ?w3 tmp = ty" by (simp add: point_def handle_new_def setOff_def setType_def)
    show "\<not> isNullPtr ?w3 tmp" using tmp by (simp add: isNullPtr_def point_def setOff_def)
  qed
  have m3: "isManaged (alloc ?w3) p" using a1(1) by (simp add: isManaged_contains)
  have "handle_destroy E tmp ?w3 = decRefCount E ty p ?w3"
    using tg m3 by (simp add: handle_destroy_def)
  also have "\<dots> = andDo (deleteObj E ty (p + 4) (?w3\<lparr>rcnt := (rcnt ?w3)(p := 0)\<rparr>)) (w_freeRAM p)"
    by (rule decRefCount_last[OF m3]) simp
  also have "\<dots> = w_freeRAM p (?w3\<lparr>rcnt := (rcnt ?w3)(p := 0)\<rparr>)"
    using del[unfolded PREAMBLE_def] by (simp add: andDo_def)
  also have "\<dots> = (?w3\<lparr>rcnt := (rcnt ?w3)(p := 0), alloc := a2\<rparr>, Inr ())"
    using f2 a1(1,3) by (simp add: w_freeRAM_def freeRAM_default)
  finally have ds: "handle_destroy E tmp ?w3 =
      (?w3\<lparr>rcnt := (rcnt ?w3)(p := 0), alloc := a2\<rparr>, Inr ())" .
  have "makeObject E ty ctor tmp w =
      (?w3\<lparr>rcnt := (rcnt ?w3)(p := 0), alloc := a2\<rparr>, Inl NotEnoughSpace)"
    using got inv(3) ctor con fr1 ds by (simp add: makeObject_def onFull_def andDo_def)
  then show ?thesis using c2 f1(3) n2 by simp
qed

lemma demo_store_12:
  "w_getRAM 12 demo_world =
     (demo_world\<lparr>alloc := upd_blk 1000 (\<lambda>h. inc_ref (h\<lparr>lastUsed := 48\<rparr>)) demo_alloc
        \<lparr>csize := (csize demo_alloc)(1032 := 16)\<rparr>\<rparr>, Inr 1036)"
  by (simp add: w_getRAM_def demo_world_def demo_getRAM_12)

lemma demo_store_inv:
  "active_inv (upd_blk 1000 (\<lambda>h. inc_ref (h\<lparr>lastUsed := 48\<rparr>)) demo_alloc
     \<lparr>csize := (csize demo_alloc)(1032 := 16)\<rparr>) [1032, 1020]"
  using getRAM_gets[OF demo_alloc_inv, of 12] demo_getRAM_12 by (simp add: gets_def)

lemma demo_store_policies:
  "policies (upd_blk 1000 (\<lambda>h. inc_ref (h\<lparr>lastUsed := 48\<rparr>)) demo_alloc
     \<lparr>csize := (csize demo_alloc)(1032 := 16)\<rparr>) = default_policies"
  by (simp add: upd_blk_def demo_alloc_def)

theorem makeObjectWithExtraStorage_safe_witness:
  "\<exists>w'. makeObjectWithExtraStorage demo_tenv 5 0 (\<lambda>_ w. (w, Inl NotEnoughSpace)) demo_world
      = (w', Inl NotEnoughSpace) \<and> active_inv (alloc w') [1020]"
proof -
  have g: "w_getRAM (0 + classSize demo_tenv 5 + PREAMBLE) demo_world = (demo_world\<lparr>alloc :=
      upd_blk 1000 (\<lambda>h. inc_ref (h\<lparr>lastUsed := 48\<rparr>)) demo_alloc\<lparr>csize := (csize demo_alloc)(1032 := 16)\<rparr>\<rparr>,
      Inr 1036)"
    using demo_store_12 by (simp add: demo_tenv_def PREAMBLE_def)
  show ?thesis
    using makeObjectWithExtraStorage_safe[OF g, where L = "[1020]"
      and ctor = "\<lambda>_ w. (w, Inl NotEnoughSpace)"] demo_store_inv demo_store_policies
    by auto
qed

theorem makeObject_frees_twice_witness:
  "\<exists>w'. makeObject demo_tenv 5 (\<lambda>_ w. (w, Inl NotEnoughSpace)) 9000 demo_world = (w', Inl NotEnoughSpace)
     \<and> 2 \<le> count (mset (concat (chunks (my (alloc w'))))) 1032"
proof -
  let ?w1 = "demo_world\<lparr>alloc := upd_blk 1000 (\<lambda>h. inc_ref (h\<lparr>lastUsed := 48\<rparr>)) demo_alloc
      \<lparr>csize := (csize demo_alloc)(1032 := 16)\<rparr>\<rparr>"
  have i: "active_inv (alloc ?w1) ((1036 - 4) # [1020])" "policies (alloc ?w1) = default_policies"
    using demo_store_inv demo_store_policies by simp_all
  have "w_getRAM (classSize demo_tenv 5 + PREAMBLE) demo_world = (?w1, Inr 1036)"
    using demo_store_12 by (simp add: demo_tenv_def PREAMBLE_def)
  moreover have "rcnt ?w1 1036 = 0" by (simp add: demo_world_def)
  moreover have "(9000 :: nat) \<noteq> 1036 + 1" by simp
  moreover have "deleteObj demo_tenv 5 (1036 + PREAMBLE) v = (v, Inr ())" for v
    by (simp add: demo_tenv_def)
  ultimately show ?thesis
    using makeObject_frees_twice[OF i, of demo_tenv 5 demo_world "\<lambda>_ w. (w, Inl NotEnoughSpace)" 9000]
    by auto
qed

end
