(* ===== verification/PageHeaders.thy ===== *)
theory PageHeaders
  imports Prelude
begin

text \<open>
  The page of the storage manager (\<open>src/src/storage/source/PDBPage.cc\<close>,
  \<open>src/src/storage/headers/PDBPage.h\<close>): a fixed-size piece of shared memory with a 36-byte header
  and a body to which small areas are appended.  The raw bytes are a list of \<open>8 word\<close>, the header
  cells are read and written little-endian at the offsets the code computes, and \<open>size_t\<close> and
  \<open>unsigned int\<close> values are words, so every sum wraps as in the source.
\<close>

section \<open>Bytes\<close>

type_synonym byte = "8 word"

fun bytes_of :: "nat \<Rightarrow> nat \<Rightarrow> byte list" where
  "bytes_of 0 v = []"
| "bytes_of (Suc n) v = of_nat v # bytes_of n (v div 256)"

fun num_of :: "byte list \<Rightarrow> nat" where
  "num_of [] = 0"
| "num_of (b # bs) = unat b + 256 * num_of bs"

definition peek :: "nat \<Rightarrow> nat \<Rightarrow> byte list \<Rightarrow> nat outcome" where
  "peek n pos m = (if pos + n \<le> length m then Inr (num_of (take n (drop pos m))) else Inl WildAccess)"

definition poke :: "nat \<Rightarrow> nat \<Rightarrow> nat \<Rightarrow> byte list \<Rightarrow> byte list outcome" where
  "poke n pos v m = (if pos + n \<le> length m
      then Inr (take pos m @ bytes_of n v @ drop (pos + n) m) else Inl WildAccess)"

definition peek32 :: "nat \<Rightarrow> byte list \<Rightarrow> 32 word outcome" where
  "peek32 pos m = andThen (peek 4 pos m) (\<lambda>v. Inr (of_nat v))"

definition peek64 :: "nat \<Rightarrow> byte list \<Rightarrow> 64 word outcome" where
  "peek64 pos m = andThen (peek 8 pos m) (\<lambda>v. Inr (of_nat v))"

definition poke32 :: "nat \<Rightarrow> 32 word \<Rightarrow> byte list \<Rightarrow> byte list outcome" where
  "poke32 pos w m = poke 4 pos (unat w) m"

definition poke64 :: "nat \<Rightarrow> 64 word \<Rightarrow> byte list \<Rightarrow> byte list outcome" where
  "poke64 pos w m = poke 8 pos (unat w) m"

lemma length_bytes_of [simp]: "length (bytes_of n v) = n"
  by (induction n arbitrary: v) auto

lemma unat_of_nat_byte: "unat (of_nat v :: byte) = v mod 256"
  by (simp add: unat_of_nat)

lemma num_of_bytes_of: "num_of (bytes_of n v) = v mod 256 ^ n"
proof (induction n arbitrary: v)
  case (Suc n)
  show ?case by (simp add: Suc unat_of_nat_byte mod_mult2_eq)
qed simp

lemma num_of_append: "num_of (xs @ ys) = num_of xs + 256 ^ length xs * num_of ys"
  by (induction xs) (auto simp: algebra_simps)

lemma num_of_less: "num_of bs < 256 ^ length bs"
proof (induction bs)
  case (Cons b bs)
  have "unat b < 256" using unsigned_less [of b, where 'a = nat] by simp
  with Cons show ?case by simp
qed simp

lemma poke_length: "poke n pos v m = Inr m' \<Longrightarrow> length m' = length m"
  by (auto simp: poke_def split: if_splits)

lemma poke_total: "pos + n \<le> length m \<Longrightarrow> \<exists>m'. poke n pos v m = Inr m'"
  by (simp add: poke_def)

lemma peek_poke_same: "poke n pos v m = Inr m' \<Longrightarrow> peek n pos m' = Inr (v mod 256 ^ n)"
  by (auto simp: poke_def peek_def num_of_bytes_of split: if_splits)

lemma poke_take_drop_other:
  assumes "poke n pos v m = Inr m'" and "q + k \<le> pos \<or> pos + n \<le> q"
  shows "take k (drop q m') = take k (drop q m)"
proof -
  from assms(1) have b: "pos + n \<le> length m"
    and m': "m' = take pos m @ bytes_of n v @ drop (pos + n) m"
    by (auto simp: poke_def split: if_splits)
  from b m' have len: "length m' = length m" by simp
  show ?thesis
  proof (rule nth_equalityI)
    show "length (take k (drop q m')) = length (take k (drop q m))" using len by simp
  next
    fix i assume "i < length (take k (drop q m'))"
    then have i: "i < k" "q + i < length m" using len by auto
    show "take k (drop q m') ! i = take k (drop q m) ! i"
      using i b assms(2) len by (auto simp: m' nth_append)
  qed
qed

lemma peek_poke_other:
  assumes "poke n pos v m = Inr m'" and "q + k \<le> pos \<or> pos + n \<le> q"
  shows "peek k q m' = peek k q m"
  using poke_length [OF assms(1)] poke_take_drop_other [OF assms] by (simp add: peek_def)

lemma poke32_length: "poke32 pos w m = Inr m' \<Longrightarrow> length m' = length m"
  by (simp add: poke32_def poke_length)

lemma poke64_length: "poke64 pos w m = Inr m' \<Longrightarrow> length m' = length m"
  by (simp add: poke64_def poke_length)

lemma unat_mod_4: "unat (w :: 32 word) mod 256 ^ 4 = unat w"
  using unsigned_less [of w, where 'a = nat] by simp

lemma unat_mod_8: "unat (w :: 64 word) mod 256 ^ 8 = unat w"
  using unsigned_less [of w, where 'a = nat] by simp

lemma peek32_poke32: "poke32 pos w m = Inr m' \<Longrightarrow> peek32 pos m' = Inr w"
  unfolding poke32_def peek32_def by (drule peek_poke_same) (simp only: unat_mod_4, simp)

lemma peek64_poke64: "poke64 pos w m = Inr m' \<Longrightarrow> peek64 pos m' = Inr w"
  unfolding poke64_def peek64_def by (drule peek_poke_same) (simp only: unat_mod_8, simp)

lemma peek32_other:
  "poke32 pos w m = Inr m' \<Longrightarrow> q + 4 \<le> pos \<or> pos + 4 \<le> q \<Longrightarrow> peek32 q m' = peek32 q m"
  "poke64 pos x m = Inr m' \<Longrightarrow> q + 4 \<le> pos \<or> pos + 8 \<le> q \<Longrightarrow> peek32 q m' = peek32 q m"
  by (auto simp: poke32_def poke64_def peek32_def dest!: peek_poke_other [of _ _ _ _ _ q 4])

lemma peek64_other:
  "poke32 pos w m = Inr m' \<Longrightarrow> q + 8 \<le> pos \<or> pos + 4 \<le> q \<Longrightarrow> peek64 q m' = peek64 q m"
  "poke64 pos x m = Inr m' \<Longrightarrow> q + 8 \<le> pos \<or> pos + 8 \<le> q \<Longrightarrow> peek64 q m' = peek64 q m"
  by (auto simp: poke32_def poke64_def peek64_def dest!: peek_poke_other [of _ _ _ _ _ q 8])

lemma poke32_total: "pos + 4 \<le> length m \<Longrightarrow> \<exists>m'. poke32 pos w m = Inr m'"
  by (simp add: poke32_def poke_total)

lemma poke64_total: "pos + 8 \<le> length m \<Longrightarrow> \<exists>m'. poke64 pos w m = Inr m'"
  by (simp add: poke64_def poke_total)

section \<open>The page object\<close>

text \<open>
  One process's view of a page.  \<open>rawBytes = None\<close> is the null pointer; \<open>refCount\<close> is the source's
  \<open>int\<close>, which a program keeps far from its bounds.  The four mini-page fields, which no code
  reads, are left out.  A constructor starts from a record of whatever the memory held, because it
  leaves \<open>accessSequenceId\<close> and \<open>inEviction\<close> uninitialised.
\<close>

record page =
  rawBytes :: "byte list option"
  nodeID :: "32 word"
  dbID :: "32 word"
  typeID :: "32 word"
  setID :: "32 word"
  pageID :: "32 word"
  psize :: "64 word"
  offset :: "64 word"
  numOwners :: "32 word"
  numObjects :: "32 word"
  curAppendOffset :: "64 word"
  refCount :: int
  pinned :: bool
  dirty :: bool
  inFlush :: bool
  inEviction :: bool
  partitionId :: "32 word"
  pageSeqInPartition :: "32 word"
  internalOffset :: "32 word"
  accessSequenceId :: int

definition header_size :: nat where
  "header_size = 4 + 4 + 4 + 4 + 4 + 4 + 8 + 4"

definition page_new :: "page \<Rightarrow> byte list \<Rightarrow> 32 word \<Rightarrow> 32 word \<Rightarrow> 32 word \<Rightarrow> 32 word \<Rightarrow> 32 word \<Rightarrow>
    64 word \<Rightarrow> 64 word \<Rightarrow> 32 word \<Rightarrow> 32 word \<Rightarrow> 32 word \<Rightarrow> page outcome" where
  "page_new raw dataIn nid did tid sid pid dataSize shmOffset iOffset numObjectsIn sharedCounts =
     andThen (poke32 20 numObjectsIn dataIn) (\<lambda>m.
     andThen (poke64 24 dataSize m) (\<lambda>m.
     andThen (poke32 32 sharedCounts m) (\<lambda>m.
       Inr (raw\<lparr>rawBytes := Some m, nodeID := nid, dbID := did, typeID := tid, setID := sid,
                pageID := pid, psize := dataSize, offset := shmOffset, numOwners := sharedCounts,
                numObjects := numObjectsIn, curAppendOffset := of_nat header_size, refCount := 0,
                pinned := True, dirty := False, inFlush := False, partitionId := -1,
                pageSeqInPartition := -1, internalOffset := iOffset\<rparr>))))"

definition page_load :: "page \<Rightarrow> byte list \<Rightarrow> 64 word \<Rightarrow> 32 word \<Rightarrow> page outcome" where
  "page_load raw dataIn off iOffset =
     andThen (peek32 0 dataIn) (\<lambda>nid. andThen (peek32 4 dataIn) (\<lambda>did.
     andThen (peek32 8 dataIn) (\<lambda>tid. andThen (peek32 12 dataIn) (\<lambda>sid.
     andThen (peek32 16 dataIn) (\<lambda>pid. andThen (peek32 20 dataIn) (\<lambda>n.
     andThen (peek64 24 dataIn) (\<lambda>sz. andThen (peek32 (24 + 4) dataIn) (\<lambda>owners.
       Inr (raw\<lparr>rawBytes := Some dataIn, nodeID := nid, dbID := did, typeID := tid, setID := sid,
                pageID := pid, psize := sz, offset := off, numOwners := owners, numObjects := n,
                curAppendOffset := of_nat header_size, refCount := 0, pinned := True,
                dirty := False, inFlush := False, partitionId := -1, pageSeqInPartition := -1,
                internalOffset := iOffset\<rparr>)))))))))"

definition preparePage :: "page \<Rightarrow> page outcome" where
  "preparePage p = (case rawBytes p of None \<Rightarrow> Inl NullDeref | Some m \<Rightarrow>
     andThen (poke32 0 (nodeID p) m) (\<lambda>m. andThen (poke32 4 (dbID p) m) (\<lambda>m.
     andThen (poke32 8 (typeID p) m) (\<lambda>m. andThen (poke32 12 (setID p) m) (\<lambda>m.
     andThen (poke32 16 (pageID p) m) (\<lambda>m. andThen (poke32 20 0 m) (\<lambda>m.
     andThen (poke64 24 (psize p) m) (\<lambda>m. andThen (poke32 32 (numOwners p) m) (\<lambda>m.
       Inr (p\<lparr>rawBytes := Some m, curAppendOffset := of_nat header_size\<rparr>))))))))))"

definition getSize :: "page \<Rightarrow> 64 word" where
  "getSize p = psize p - of_nat header_size"

definition page_freePage :: "page \<Rightarrow> page" where
  "page_freePage p = p\<lparr>rawBytes := None, nodeID := -1, dbID := -1, typeID := -1, setID := -1,
     pageID := -1, offset := 0, psize := 0, numObjects := 0, internalOffset := 0, numOwners := 0\<rparr>"

subsection \<open>Reference counts\<close>

definition incRefCount :: "page \<Rightarrow> page" where
  "incRefCount p = p\<lparr>refCount := refCount p + 1, pinned := True\<rparr>"

definition decRefCount :: "page \<Rightarrow> page" where
  "decRefCount p = (let c = refCount p - 1 in
     if c < 0 then p\<lparr>refCount := 0, pinned := False\<rparr>
     else if c = 0 then p\<lparr>refCount := c, pinned := False\<rparr>
     else p\<lparr>refCount := c\<rparr>)"

definition decAndGetRefCount :: "page \<Rightarrow> page \<times> int" where
  "decAndGetRefCount p =
     (let ret = refCount p - 1; c = (if ret < 0 then 0 else ret) in
      (if c = 0 then p\<lparr>refCount := c, pinned := False\<rparr> else p\<lparr>refCount := c\<rparr>, ret))"

subsection \<open>Embedded counts and appending\<close>

definition getEmbeddedNumObjects :: "page \<Rightarrow> 32 word outcome" where
  "getEmbeddedNumObjects p = (case rawBytes p of None \<Rightarrow> Inl NullDeref | Some m \<Rightarrow> peek32 20 m)"

definition getEmbeddedNumOwners :: "page \<Rightarrow> 32 word outcome" where
  "getEmbeddedNumOwners p = (case rawBytes p of None \<Rightarrow> Inl NullDeref | Some m \<Rightarrow> peek32 32 m)"

definition incEmbeddedNumObjects :: "page \<Rightarrow> (page \<times> 32 word) outcome" where
  "incEmbeddedNumObjects p = (case rawBytes p of None \<Rightarrow> Inl NullDeref | Some m \<Rightarrow>
     andThen (peek32 20 m) (\<lambda>n. andThen (poke32 20 (n + 1) m) (\<lambda>m'.
       Inr (p\<lparr>rawBytes := Some m'\<rparr>, n + 1))))"

definition addFixedBytes :: "64 word \<Rightarrow> page \<Rightarrow> (page \<times> nat option) outcome" where
  "addFixedBytes n p =
     (if psize p - curAppendOffset p < n then Inr (p, None)
      else andThen (incEmbeddedNumObjects (p\<lparr>curAppendOffset := curAppendOffset p + n\<rparr>)) (\<lambda>(p', _).
             Inr (p', Some (unat (curAppendOffset p)))))"

definition addRemainBytes :: "page \<Rightarrow> (page \<times> 64 word \<times> nat option) outcome" where
  "addRemainBytes p = (let n = psize p - curAppendOffset p in
     if n = 0 then Inr (p, n, None)
     else andThen (incEmbeddedNumObjects (p\<lparr>curAppendOffset := curAppendOffset p + n\<rparr>)) (\<lambda>(p', _).
            Inr (p', n, Some (unat (curAppendOffset p)))))"

definition addVariableBytes :: "64 word \<Rightarrow> page \<Rightarrow> (page \<times> nat option) outcome" where
  "addVariableBytes n p =
     (if psize p - curAppendOffset p < n + 8 then Inr (p, None)
      else case rawBytes p of None \<Rightarrow> Inl NullDeref | Some m \<Rightarrow>
        andThen (poke64 (unat (curAppendOffset p)) n m) (\<lambda>m'.
        andThen (incEmbeddedNumObjects
                   (p\<lparr>rawBytes := Some m', curAppendOffset := curAppendOffset p + 8 + n\<rparr>)) (\<lambda>(p', _).
          Inr (p', Some (unat (curAppendOffset p) + 8)))))"

section \<open>The header survives a trip through shared memory\<close>

lemma bytes_of_add: "bytes_of (n + k) v = bytes_of n v @ bytes_of k (v div 256 ^ n)"
  by (induction n arbitrary: v) (auto simp: div_mult2_eq)

lemma peek_high_half:
  assumes "poke64 pos w m = Inr m'" shows "peek32 (pos + 4) m' = Inr (of_nat (unat w div 2 ^ 32))"
proof -
  from assms have b: "pos + 8 \<le> length m"
    and m': "m' = take pos m @ bytes_of 8 (unat w) @ drop (pos + 8) m"
    by (auto simp: poke64_def poke_def split: if_splits)
  have split: "bytes_of 8 (unat w) = bytes_of 4 (unat w) @ bytes_of 4 (unat w div 256 ^ 4)"
    using bytes_of_add [of 4 4 "unat w"] by simp
  have "unat w < 18446744073709551616" using unsigned_less [of w, where 'a = nat] by simp
  then have "unat w div 256 ^ 4 mod 256 ^ 4 = unat w div 2 ^ 32" by simp
  moreover have "take 4 (drop (pos + 4) m') = bytes_of 4 (unat w div 256 ^ 4)"
    using b by (simp add: m' split)
  ultimately show ?thesis
    using b by (simp add: peek32_def peek_def m' num_of_bytes_of)
qed

lemma page_new_total:
  assumes "header_size \<le> length dataIn"
  shows "\<exists>p m. page_new raw dataIn nid did tid sid pid sz off io nobj owners = Inr p \<and>
    rawBytes p = Some m \<and> length m = length dataIn \<and> nodeID p = nid \<and> dbID p = did \<and>
    typeID p = tid \<and> setID p = sid \<and> pageID p = pid \<and> psize p = sz \<and> numOwners p = owners"
proof -
  obtain m1 where m1: "poke32 20 nobj dataIn = Inr m1"
    using poke32_total [of 20 dataIn nobj] assms by (auto simp: header_size_def)
  obtain m2 where m2: "poke64 24 sz m1 = Inr m2"
    using poke64_total [of 24 m1 sz] poke32_length [OF m1] assms by (auto simp: header_size_def)
  obtain m3 where m3: "poke32 32 owners m2 = Inr m3"
    using poke32_total [of 32 m2 owners] poke32_length [OF m1] poke64_length [OF m2] assms
    by (auto simp: header_size_def)
  show ?thesis
    using poke32_length [OF m1] poke64_length [OF m2] poke32_length [OF m3]
    by (simp add: page_new_def m1 m2 m3)
qed

lemma preparePage_cells:
  assumes "rawBytes p = Some m" and "header_size \<le> length m"
  shows "\<exists>p' m'. preparePage p = Inr p' \<and>
    p' = p\<lparr>rawBytes := Some m', curAppendOffset := of_nat header_size\<rparr> \<and> length m' = length m \<and>
    peek32 0 m' = Inr (nodeID p) \<and> peek32 4 m' = Inr (dbID p) \<and> peek32 8 m' = Inr (typeID p) \<and>
    peek32 12 m' = Inr (setID p) \<and> peek32 16 m' = Inr (pageID p) \<and> peek32 20 m' = Inr 0 \<and>
    peek64 24 m' = Inr (psize p) \<and> peek32 32 m' = Inr (numOwners p) \<and>
    peek32 28 m' = Inr (of_nat (unat (psize p) div 2 ^ 32))"
proof -
  note lens = poke32_length poke64_length
  note [simp] = header_size_def
  obtain m1 where m1: "poke32 0 (nodeID p) m = Inr m1"
    using poke32_total [of 0 m "nodeID p"] assms by auto
  obtain m2 where m2: "poke32 4 (dbID p) m1 = Inr m2"
    using poke32_total [of 4 m1 "dbID p"] lens(1) [OF m1] assms by auto
  obtain m3 where m3: "poke32 8 (typeID p) m2 = Inr m3"
    using poke32_total [of 8 m2 "typeID p"] lens(1) [OF m1] lens(1) [OF m2] assms by auto
  have l3: "length m3 = length m" using lens(1) [OF m1] lens(1) [OF m2] lens(1) [OF m3] by simp
  obtain m4 where m4: "poke32 12 (setID p) m3 = Inr m4"
    using poke32_total [of 12 m3 "setID p"] l3 assms by auto
  obtain m5 where m5: "poke32 16 (pageID p) m4 = Inr m5"
    using poke32_total [of 16 m4 "pageID p"] lens(1) [OF m4] l3 assms by auto
  obtain m6 where m6: "poke32 20 0 m5 = Inr m6"
    using poke32_total [of 20 m5 0] lens(1) [OF m4] lens(1) [OF m5] l3 assms by auto
  have l6: "length m6 = length m" using lens(1) [OF m4] lens(1) [OF m5] lens(1) [OF m6] l3 by simp
  obtain m7 where m7: "poke64 24 (psize p) m6 = Inr m7"
    using poke64_total [of 24 m6 "psize p"] l6 assms by auto
  obtain m8 where m8: "poke32 32 (numOwners p) m7 = Inr m8"
    using poke32_total [of 32 m7 "numOwners p"] lens(2) [OF m7] l6 assms by auto
  note own = peek32_poke32 [OF m1] peek32_poke32 [OF m2] peek32_poke32 [OF m3]
    peek32_poke32 [OF m4] peek32_poke32 [OF m5] peek32_poke32 [OF m6] peek64_poke64 [OF m7]
    peek32_poke32 [OF m8] peek_high_half [OF m7, simplified]
  note others = peek32_other(1) [OF m2] peek32_other(1) [OF m3] peek32_other(1) [OF m4]
    peek32_other(1) [OF m5] peek32_other(1) [OF m6] peek32_other(2) [OF m7] peek32_other(1) [OF m8]
    peek64_other(1) [OF m8]
  have l8: "length m8 = length m" using lens(1) [OF m8] lens(2) [OF m7] l6 by simp
  show ?thesis
    by (rule exI [of _ "p\<lparr>rawBytes := Some m8, curAppendOffset := of_nat header_size\<rparr>"],
        rule exI [of _ m8])
       (simp add: preparePage_def assms(1) m1 m2 m3 m4 m5 m6 m7 m8 others l8 own del: One_nat_def)
qed

text \<open>A page that was created, prepared and handed to another process as raw bytes is rebuilt there
  with the same node, database, type, set and page ids, the same size and no objects.  The owner
  count is lost: the constructor advances by \<open>sizeof(unsigned int)\<close> instead of \<open>sizeof(size_t)\<close>
  after the size, so it takes the high half of the size for the count, although the bytes hold it.\<close>

theorem page_header_roundtrip:
  assumes "header_size \<le> length dataIn"
  shows "\<exists>p p' m q. page_new raw dataIn nid did tid sid pid sz off io nobj owners = Inr p \<and>
    preparePage p = Inr p' \<and> rawBytes p' = Some m \<and> page_load raw' m off' io' = Inr q \<and>
    nodeID q = nid \<and> dbID q = did \<and> typeID q = tid \<and> setID q = sid \<and> pageID q = pid \<and>
    psize q = sz \<and> numObjects q = 0 \<and> getEmbeddedNumOwners q = Inr owners \<and>
    numOwners q = of_nat (unat sz div 2 ^ 32)"
proof -
  obtain p m where p: "page_new raw dataIn nid did tid sid pid sz off io nobj owners = Inr p"
      "rawBytes p = Some m" "length m = length dataIn"
    and f: "nodeID p = nid" "dbID p = did" "typeID p = tid" "setID p = sid" "pageID p = pid"
      "psize p = sz" "numOwners p = owners"
    using page_new_total [OF assms, of raw nid did tid sid pid sz off io nobj owners] by blast
  obtain p' m' where "preparePage p = Inr p'"
      "p' = p\<lparr>rawBytes := Some m', curAppendOffset := of_nat header_size\<rparr>"
    and cells: "peek32 0 m' = Inr nid" "peek32 4 m' = Inr did" "peek32 8 m' = Inr tid"
      "peek32 12 m' = Inr sid" "peek32 16 m' = Inr pid" "peek32 20 m' = Inr 0"
      "peek64 24 m' = Inr sz" "peek32 32 m' = Inr owners"
      "peek32 28 m' = Inr (of_nat (unat sz div 2 ^ 32))"
    using preparePage_cells [OF p(2)] p(3) assms f by auto
  then show ?thesis
    using p by (simp add: page_load_def getEmbeddedNumOwners_def cells)
qed

lemma page_header_roundtrip_witness:
  "\<exists>p p' m q. page_new undefined (replicate 64 0) 1 2 3 4 5 64 0 0 0 7 = Inr p \<and>
    preparePage p = Inr p' \<and> rawBytes p' = Some m \<and> page_load undefined m 0 0 = Inr q \<and>
    pageID q = 5 \<and> psize q = 64 \<and> getEmbeddedNumOwners q = Inr 7 \<and> numOwners q = 0"
  using page_header_roundtrip [of "replicate 64 0" undefined 1 2 3 4 5 64 0 0 0 7 undefined 0 0]
  by (auto simp: header_size_def)

section \<open>Appending areas\<close>

text \<open>
  The specification of the page body.  \<open>append_all\<close> is a client that asks for an area for each of
  its records and writes the record there; \<open>walk\<close> reads \<open>n\<close> areas back, each preceded by its size;
  \<open>fitting\<close> selects the records that fit when each takes 8 bytes more than its length.
\<close>

definition write_area :: "nat \<Rightarrow> byte list \<Rightarrow> page \<Rightarrow> page outcome" where
  "write_area pos d p = (case rawBytes p of None \<Rightarrow> Inl NullDeref | Some m \<Rightarrow>
     if pos + length d \<le> length m
     then Inr (p\<lparr>rawBytes := Some (take pos m @ d @ drop (pos + length d) m)\<rparr>) else Inl WildAccess)"

fun append_all :: "byte list list \<Rightarrow> page \<Rightarrow> page outcome" where
  "append_all [] p = Inr p"
| "append_all (d # ds) p = andThen (addVariableBytes (of_nat (length d)) p) (\<lambda>(p', area).
     case area of None \<Rightarrow> append_all ds p'
     | Some pos \<Rightarrow> andThen (write_area pos d p') (append_all ds))"

fun walk :: "nat \<Rightarrow> nat \<Rightarrow> byte list \<Rightarrow> byte list list outcome" where
  "walk 0 pos m = Inr []"
| "walk (Suc n) pos m = andThen (peek64 pos m) (\<lambda>s.
     if pos + 8 + unat s \<le> length m
     then andThen (walk n (pos + 8 + unat s) m) (\<lambda>ds. Inr (take (unat s) (drop (pos + 8) m) # ds))
     else Inl WildAccess)"

fun fitting :: "nat \<Rightarrow> byte list list \<Rightarrow> byte list list" where
  "fitting r [] = []"
| "fitting r (d # ds) = (if length d + 8 \<le> r then d # fitting (r - (length d + 8)) ds else fitting r ds)"

definition span :: "byte list list \<Rightarrow> nat" where
  "span ds = (\<Sum>d\<leftarrow>ds. 8 + length d)"

definition body_inv :: "page \<Rightarrow> byte list list \<Rightarrow> bool" where
  "body_inv p acc \<longleftrightarrow> (\<exists>m. rawBytes p = Some m \<and> length m = unat (psize p) \<and>
     unat (curAppendOffset p) = header_size + span acc \<and> header_size + span acc \<le> length m \<and>
     peek32 20 m = Inr (of_nat (length acc)) \<and> walk (length acc) header_size m = Inr acc)"

lemma span_simps [simp]: "span [] = 0" "span (xs @ ys) = span xs + span ys" "span (d # ds) = 8 + length d + span ds"
  by (simp_all add: span_def)

lemma walk_frame:
  assumes "walk n pos m = Inr acc" and "length m' = length m"
    and "\<And>q k. pos \<le> q \<Longrightarrow> q + k \<le> pos + span acc \<Longrightarrow> take k (drop q m') = take k (drop q m)"
  shows "walk n pos m' = Inr acc"
  using assms
proof (induction n arbitrary: pos acc)
  case (Suc n)
  from Suc.prems(1) obtain s ds where s: "peek64 pos m = Inr s" "pos + 8 + unat s \<le> length m"
    "walk n (pos + 8 + unat s) m = Inr ds" and acc: "acc = take (unat s) (drop (pos + 8) m) # ds"
    by (auto simp: andThen_Inr_iff split: if_splits)
  have sp: "span acc = 8 + unat s + span ds" using s acc by simp
  have "peek64 pos m' = Inr s"
    using s(1) Suc.prems(3) [of pos 8] sp Suc.prems(2)
    by (simp add: peek64_def peek_def split: if_splits)
  moreover have "walk n (pos + 8 + unat s) m' = Inr ds"
    by (rule Suc.IH [OF s(3) Suc.prems(2)]) (rule Suc.prems(3), use sp in auto)
  moreover have "take (unat s) (drop (pos + 8) m') = take (unat s) (drop (pos + 8) m)"
    by (rule Suc.prems(3)) (use sp in auto)
  ultimately show ?case using s(2) acc Suc.prems(2) by simp
qed simp

lemma walk_snoc:
  assumes "walk n pos m = Inr acc" and "peek64 (pos + span acc) m = Inr s"
    and "pos + span acc + 8 + unat s \<le> length m"
  shows "walk (Suc n) pos m = Inr (acc @ [take (unat s) (drop (pos + span acc + 8) m)])"
  using assms
proof (induction n arbitrary: pos acc)
  case (Suc n)
  from Suc.prems(1) obtain r ds where r: "peek64 pos m = Inr r" "pos + 8 + unat r \<le> length m"
    "walk n (pos + 8 + unat r) m = Inr ds" and acc: "acc = take (unat r) (drop (pos + 8) m) # ds"
    by (auto simp: andThen_Inr_iff split: if_splits)
  have sp: "pos + span acc = pos + 8 + unat r + span ds" using r acc by simp
  have "walk (Suc n) (pos + 8 + unat r) m =
      Inr (ds @ [take (unat s) (drop (pos + 8 + unat r + span ds + 8) m)])"
    by (rule Suc.IH [OF r(3)]) (use Suc.prems sp in auto)
  then show ?case using r acc sp by (simp add: add.assoc)
qed (simp add: add.commute)

lemma incEmbeddedNumObjects_step:
  assumes "rawBytes p = Some m" "24 \<le> length m" "peek32 20 m = Inr n"
  obtains m' where "incEmbeddedNumObjects p = Inr (p\<lparr>rawBytes := Some m'\<rparr>, n + 1)"
    "length m' = length m" "peek32 20 m' = Inr (n + 1)"
    "\<And>q k. 24 \<le> q \<Longrightarrow> take k (drop q m') = take k (drop q m)"
proof -
  obtain m' where m': "poke32 20 (n + 1) m = Inr m'"
    using poke32_total [of 20 m "n + 1"] assms by auto
  show ?thesis
  proof
    show "incEmbeddedNumObjects p = Inr (p\<lparr>rawBytes := Some m'\<rparr>, n + 1)"
      using assms m' by (simp add: incEmbeddedNumObjects_def)
    show "length m' = length m" using m' by (rule poke32_length)
    show "peek32 20 m' = Inr (n + 1)" using m' by (rule peek32_poke32)
    show "take k (drop q m') = take k (drop q m)" if "24 \<le> q" for q k
      using m' that unfolding poke32_def by (intro poke_take_drop_other) auto
  qed
qed

lemma unat_add_small: "unat (a :: 64 word) + unat b < 2 ^ 64 \<Longrightarrow> unat (a + b) = unat a + unat b"
  by (simp add: unat_word_ariths)

lemma unat_diff_le: "unat (b :: 64 word) \<le> unat a \<Longrightarrow> unat (a - b) = unat a - unat b"
  by (simp add: unat_sub word_le_nat_alt)

lemma unat_of_length: "n < 2 ^ 64 \<Longrightarrow> unat (of_nat n :: 64 word) = n"
  by (simp add: unat_of_nat)

lemma write_area_step:
  assumes "rawBytes p = Some m" "pos + length d \<le> length m"
  obtains m' where "write_area pos d p = Inr (p\<lparr>rawBytes := Some m'\<rparr>)" "length m' = length m"
    "take (length d) (drop pos m') = d"
    "\<And>q k. q + k \<le> pos \<Longrightarrow> take k (drop q m') = take k (drop q m)"
proof -
  define m' where "m' = take pos m @ d @ drop (pos + length d) m"
  have len: "length m' = length m" using assms by (simp add: m'_def)
  have "take k (drop q m') = take k (drop q m)" if "q + k \<le> pos" for q k
  proof (rule nth_equalityI)
    show "length (take k (drop q m')) = length (take k (drop q m))" using len by simp
    show "take k (drop q m') ! i = take k (drop q m) ! i" if "i < length (take k (drop q m'))" for i
      using that \<open>q + k \<le> pos\<close> assms(2) len by (auto simp: m'_def nth_append)
  qed
  moreover have "write_area pos d p = Inr (p\<lparr>rawBytes := Some m'\<rparr>)"
    using assms by (simp add: write_area_def m'_def)
  moreover have "take (length d) (drop pos m') = d" using assms by (simp add: m'_def)
  ultimately show thesis by (intro that [of m'] len)
qed

lemma addVariableBytes_refuses:
  assumes "body_inv p acc" and "length d < 2 ^ 63"
    and "\<not> length d + 8 \<le> unat (psize p) - (header_size + span acc)"
  shows "addVariableBytes (of_nat (length d)) p = Inr (p, None)"
proof -
  from assms(1) have cur: "unat (curAppendOffset p) = header_size + span acc"
    "unat (curAppendOffset p) \<le> unat (psize p)" by (auto simp: body_inv_def)
  have n: "unat (of_nat (length d) + 8 :: 64 word) = length d + 8"
    using assms(2) by (subst unat_add_small) (simp_all add: unat_of_length)
  have "psize p - curAppendOffset p < of_nat (length d) + 8"
    using assms(3) cur n by (simp add: word_less_nat_alt unat_diff_le)
  then show ?thesis by (simp add: addVariableBytes_def)
qed

lemma addVariableBytes_accepts:
  assumes inv: "body_inv p acc" and "length d < 2 ^ 63"
    and fit: "length d + 8 \<le> unat (psize p) - (header_size + span acc)"
  shows "\<exists>p1 p2 pos. addVariableBytes (of_nat (length d)) p = Inr (p1, Some pos) \<and>
    write_area pos d p1 = Inr p2 \<and> body_inv p2 (acc @ [d]) \<and> psize p2 = psize p"
proof -
  from inv obtain m where m: "rawBytes p = Some m" "length m = unat (psize p)"
    and cur: "unat (curAppendOffset p) = header_size + span acc" "header_size + span acc \<le> length m"
    and cnt: "peek32 20 m = Inr (of_nat (length acc))"
    and wk: "walk (length acc) header_size m = Inr acc" by (auto simp: body_inv_def)
  define c where "c = header_size + span acc"
  have c24: "24 \<le> c" by (simp add: c_def header_size_def)
  have room: "c + 8 + length d \<le> length m" using fit cur m(2) by (simp add: c_def)
  have n: "unat (of_nat (length d) :: 64 word) = length d" using assms(2) by (simp add: unat_of_length)
  have n8: "unat (of_nat (length d) + 8 :: 64 word) = length d + 8"
    using assms(2) n by (subst unat_add_small) simp_all
  have bound: "length m < 2 ^ 64" using unsigned_less [of "psize p", where 'a = nat] m(2) by simp
  have cur': "unat (curAppendOffset p + 8 + of_nat (length d)) = c + 8 + length d"
    using cur room bound n
    by (simp add: unat_add_small c_def [symmetric] add.assoc)
  have pass: "\<not> psize p - curAppendOffset p < of_nat (length d) + 8"
    using fit cur m(2) n8 by (simp add: word_less_nat_alt unat_diff_le not_less)
  obtain m1 where m1: "poke64 c (of_nat (length d)) m = Inr m1"
    using poke64_total [of c m] room by auto
  have l1: "length m1 = length m" using m1 by (rule poke64_length)
  have cnt1: "peek32 20 m1 = Inr (of_nat (length acc))"
    using peek32_other(2) [OF m1, of 20] c24 cnt by simp
  define pa where "pa = p\<lparr>rawBytes := Some m1, curAppendOffset := curAppendOffset p + 8 + of_nat (length d)\<rparr>"
  obtain m2 where m2: "incEmbeddedNumObjects pa = Inr (pa\<lparr>rawBytes := Some m2\<rparr>, of_nat (length acc) + 1)"
    "length m2 = length m1" "peek32 20 m2 = Inr (of_nat (length acc) + 1)"
    "\<And>q k. 24 \<le> q \<Longrightarrow> take k (drop q m2) = take k (drop q m1)"
    by (rule incEmbeddedNumObjects_step [of pa m1 "of_nat (length acc)"])
      (use cnt1 l1 room c24 in \<open>auto simp: pa_def\<close>)
  let ?p1 = "pa\<lparr>rawBytes := Some m2\<rparr>"
  obtain m3 where m3: "write_area (c + 8) d ?p1 = Inr (?p1\<lparr>rawBytes := Some m3\<rparr>)"
    "length m3 = length m2" "take (length d) (drop (c + 8) m3) = d"
    "\<And>q k. q + k \<le> c + 8 \<Longrightarrow> take k (drop q m3) = take k (drop q m2)"
    by (rule write_area_step [of ?p1 m2 "c + 8" d]) (use l1 m2(2) room in auto)
  have len3: "length m3 = length m" using m3(2) m2(2) l1 by simp
  have sz: "peek64 c m3 = Inr (of_nat (length d))"
    using peek64_poke64 [OF m1] m3(4) [of c 8] m2(4) [of c 8] c24 len3 l1
    by (simp add: peek64_def peek_def split: if_splits)
  have wk3: "walk (length acc) header_size m3 = Inr acc"
  proof (rule walk_frame [OF wk len3])
    fix q k assume q: "header_size \<le> q" "q + k \<le> header_size + span acc"
    have "take k (drop q m1) = take k (drop q m)"
      using m1 q unfolding poke64_def by (intro poke_take_drop_other) (auto simp: c_def)
    then show "take k (drop q m3) = take k (drop q m)"
      using m3(4) [of q k] m2(4) [of q k] q by (simp add: c_def header_size_def)
  qed
  have wk4: "walk (Suc (length acc)) header_size m3 = Inr (acc @ [d])"
    using walk_snoc [OF wk3, of "of_nat (length d)"] sz room len3 n m3(3)
    by (simp add: c_def)
  have cnt3: "peek32 20 m3 = Inr (of_nat (length acc) + 1)"
    using m2(3) m3(4) [of 20 4] c24 m3(2)
    by (simp add: peek32_def peek_def split: if_splits)
  have "body_inv (?p1\<lparr>rawBytes := Some m3\<rparr>) (acc @ [d])"
    using len3 m(2) cur' room wk4 cnt3 by (simp add: body_inv_def pa_def c_def add.assoc add.commute)
  moreover have "addVariableBytes (of_nat (length d)) p = Inr (?p1, Some (c + 8))"
    using pass m(1) m1 m2(1) cur(1) by (simp add: addVariableBytes_def c_def pa_def)
  ultimately show ?thesis using m3(1) by (auto simp: pa_def)
qed

lemma append_all_body:
  assumes "body_inv p acc" and "\<forall>d \<in> set ds. length d < 2 ^ 63"
  shows "\<exists>p'. append_all ds p = Inr p' \<and>
    body_inv p' (acc @ fitting (unat (psize p) - (header_size + span acc)) ds) \<and> psize p' = psize p"
  using assms
proof (induction ds arbitrary: p acc)
  case (Cons d ds)
  have len: "length d < 2 ^ 63" using Cons.prems(2) by simp
  show ?case
  proof (cases "length d + 8 \<le> unat (psize p) - (header_size + span acc)")
    case True
    obtain p1 p2 pos where st: "addVariableBytes (of_nat (length d)) p = Inr (p1, Some pos)"
      "write_area pos d p1 = Inr p2" "body_inv p2 (acc @ [d])" "psize p2 = psize p"
      using addVariableBytes_accepts [OF Cons.prems(1) len True] by blast
    have rest: "unat (psize p) - (header_size + span (acc @ [d]))
        = unat (psize p) - (header_size + span acc) - (length d + 8)" by simp
    show ?thesis
      using Cons.IH [OF st(3)] Cons.prems(2) True st by (simp add: rest del: span_simps)
  next
    case False
    then show ?thesis
      using Cons.IH [OF Cons.prems(1)] Cons.prems(2)
        addVariableBytes_refuses [OF Cons.prems(1) len False] by simp
  qed
qed simp

text \<open>C23: On a prepared page the body behaves as a list of records.  Whatever records a client appends
  (each shorter than 2^63 bytes), the page accepts exactly those that still fit with their 8-byte
  size cell, counts them in its header, and reading the page from the first byte after the header
  gives back the accepted records, unchanged and in order: no area overlaps another, the header or
  the end of the page.\<close>

theorem appended_areas_read_back:
  assumes "rawBytes p = Some m" and "length m = unat (psize p)" and "header_size \<le> length m"
    and "\<forall>d \<in> set ds. length d < 2 ^ 63"
  shows "\<exists>p0 p' m' acc. preparePage p = Inr p0 \<and> append_all ds p0 = Inr p' \<and>
    acc = fitting (unat (getSize p)) ds \<and> rawBytes p' = Some m' \<and> length m' = length m \<and>
    getEmbeddedNumObjects p' = Inr (of_nat (length acc)) \<and> walk (length acc) header_size m' = Inr acc"
proof -
  obtain p0 m0 where p0: "preparePage p = Inr p0"
    "p0 = p\<lparr>rawBytes := Some m0, curAppendOffset := of_nat header_size\<rparr>"
    and m0: "length m0 = length m" "peek32 20 m0 = Inr 0"
    using preparePage_cells [OF assms(1,3)] by blast
  have "body_inv p0 []"
    using p0(2) m0 assms(2,3) by (auto simp: body_inv_def header_size_def)
  from append_all_body [OF this assms(4)] obtain p' where p': "append_all ds p0 = Inr p'"
    "body_inv p' (fitting (unat (psize p) - header_size) ds)" "psize p' = psize p"
    by (auto simp: p0(2))
  have size: "unat (getSize p) = unat (psize p) - header_size"
    using assms(2,3) unfolding getSize_def by (subst unat_diff_le) (simp_all add: header_size_def)
  show ?thesis
    using p0(1) p' assms(2) by (auto simp: size body_inv_def getEmbeddedNumObjects_def)
qed

definition demo_page :: page where
  "demo_page = \<lparr>rawBytes = Some (replicate 64 0), nodeID = 0, dbID = 1, typeID = 2, setID = 3,
     pageID = 4, psize = 64, offset = 0, numOwners = 0, numObjects = 0, curAppendOffset = 36,
     refCount = 0, pinned = True, dirty = False, inFlush = False, inEviction = False,
     partitionId = -1, pageSeqInPartition = -1, internalOffset = 0, accessSequenceId = 0\<rparr>"

lemma appended_areas_read_back_witness:
  "\<exists>p0 p' m'. preparePage demo_page = Inr p0 \<and>
    append_all [[1, 2, 3], replicate 10 7, [5, 5]] p0 = Inr p' \<and> rawBytes p' = Some m' \<and>
    walk 2 36 m' = Inr [[1, 2, 3], [5, 5]]"
proof -
  let ?ds = "[[1, 2, 3], replicate 10 7, [5, 5]] :: byte list list"
  have size: "unat (getSize demo_page) = 28" by (simp add: getSize_def demo_page_def header_size_def)
  have fit: "fitting 28 ?ds = [[1, 2, 3], [5, 5]]" by simp
  have "\<exists>p0 p' m' acc. preparePage demo_page = Inr p0 \<and> append_all ?ds p0 = Inr p' \<and>
      acc = fitting (unat (getSize demo_page)) ?ds \<and> rawBytes p' = Some m' \<and>
      length m' = length (replicate 64 (0 :: byte)) \<and>
      getEmbeddedNumObjects p' = Inr (of_nat (length acc)) \<and> walk (length acc) header_size m' = Inr acc"
    by (rule appended_areas_read_back) (simp_all add: demo_page_def header_size_def)
  then obtain p0 p' m' where "preparePage demo_page = Inr p0" "append_all ?ds p0 = Inr p'"
    "rawBytes p' = Some m'" "walk (length [[1, 2, 3], [5, 5 :: byte]]) header_size m' = Inr [[1, 2, 3], [5, 5]]"
    unfolding size fit by blast
  moreover have "length [[1, 2, 3], [5, 5 :: byte]] = 2" by simp
  moreover have "header_size = 36" by (simp add: header_size_def)
  ultimately show ?thesis by metis
qed

section \<open>Reference counts and pins\<close>

definition pin_inv :: "page \<Rightarrow> bool" where
  "pin_inv p \<longleftrightarrow> 0 \<le> refCount p \<and> (refCount p > 0 \<longrightarrow> pinned p)"

lemma pin_inv_ops [intro]:
  "pin_inv p \<Longrightarrow> pin_inv (incRefCount p)"
  "pin_inv p \<Longrightarrow> pin_inv (decRefCount p)"
  "pin_inv p \<Longrightarrow> pin_inv (fst (decAndGetRefCount p))"
  by (auto simp: pin_inv_def incRefCount_def decRefCount_def decAndGetRefCount_def Let_def)

lemma dec_inc_refCount:
  "0 \<le> refCount p \<Longrightarrow> pinned p = (0 < refCount p) \<Longrightarrow> decRefCount (incRefCount p) = p"
  by (auto simp: decRefCount_def incRefCount_def Let_def)

end
