(* ===== verification/LocalitySets.thy ===== *)
theory LocalitySets
  imports Complex_Main PageHeaders
begin

text \<open>
  A locality set (\<open>src/src/storage/source/LocalitySet.cc\<close>): the list of the cached pages of one data set
  in the order of their last access, its replacement policy, and the choice of the pages to evict.
  A \<open>PDBPagePtr\<close> is a reference (a \<open>nat\<close>) into a store of pages, so that the set, the cache and the
  flush buffer share the page objects as the source's shared pointers do.
\<close>

datatype LocalityType = JobData | ShuffleData | HashPartitionData | PartialAggregationData
datatype LocalitySetReplacementPolicy = LRU | MRU | Random
datatype OperationType = Read | RepeatedRead | Write
datatype DurabilityType = TryCache | CacheThrough
datatype PersistenceType = Transient | Persistent

record locset =
  cachedPages :: "nat list"
  localityType :: LocalityType
  replacementPolicy :: LocalitySetReplacementPolicy
  operationType :: OperationType
  durabilityType :: DurabilityType
  persistenceType :: PersistenceType
  lifetimeEnded :: bool
  desiredSize :: "64 word"
  numCachedPages :: "32 word"
  isShared :: bool
  writeCost :: rat
  readCost :: rat
  setAccessId :: int

definition locset_new :: "LocalityType \<Rightarrow> LocalitySetReplacementPolicy \<Rightarrow> OperationType \<Rightarrow> DurabilityType \<Rightarrow>
    PersistenceType \<Rightarrow> 64 word \<Rightarrow> bool \<Rightarrow> locset" where
  "locset_new lt rp ot dt pt ds sh = \<lparr>cachedPages = [], localityType = lt, replacementPolicy = rp,
     operationType = ot, durabilityType = dt, persistenceType = pt, lifetimeEnded = False,
     desiredSize = ds, numCachedPages = 0, isShared = sh, writeCost = 0, readCost = 0, setAccessId = 0\<rparr>"

definition addCachedPage :: "nat \<Rightarrow> locset \<Rightarrow> locset" where
  "addCachedPage r s = s\<lparr>cachedPages := cachedPages s @ [r]\<rparr>"

definition updateCachedPage :: "nat \<Rightarrow> locset \<Rightarrow> locset" where
  "updateCachedPage r s = s\<lparr>cachedPages := remove1 r (cachedPages s) @ [r]\<rparr>"

definition removeCachedPage :: "nat \<Rightarrow> locset \<Rightarrow> locset" where
  "removeCachedPage r s = s\<lparr>cachedPages := remove1 r (cachedPages s)\<rparr>"

definition ls_pin :: "LocalitySetReplacementPolicy \<Rightarrow> OperationType \<Rightarrow> locset \<Rightarrow> locset" where
  "ls_pin policy op s = s\<lparr>replacementPolicy := policy, operationType := op, lifetimeEnded := False\<rparr>"

definition ls_unpin :: "locset \<Rightarrow> locset" where
  "ls_unpin s = s\<lparr>lifetimeEnded := True\<rparr>"

section \<open>Choosing pages to evict\<close>

text \<open>
  \<open>select_loop\<close> is the loop of \<open>selectPagesForReplacement\<close> over the pages in the order of the policy;
  \<open>n\<close> is \<open>numPages\<close> and \<open>stop\<close> the test made after each page taken.  \<open>threshold\<close> stands for the double
  \<open>1 - EVICT_STOP_THRESHOLD\<close>, a build option; the quotient is compared exactly.
\<close>

fun select_loop :: "(nat \<Rightarrow> page) \<Rightarrow> (nat \<Rightarrow> bool) \<Rightarrow> nat \<Rightarrow> nat list \<Rightarrow> nat list" where
  "select_loop pg stop n [] = []"
| "select_loop pg stop n (r # rs) =
     (if refCount (pg r) = 0
      then r # (if stop (n + 1) then [] else select_loop pg stop (n + 1) rs)
      else select_loop pg stop n rs)"

definition eviction_order :: "locset \<Rightarrow> nat list" where
  "eviction_order s = (if replacementPolicy s = MRU then rev (cachedPages s) else cachedPages s)"

definition selectPageForReplacement :: "(nat \<Rightarrow> page) \<Rightarrow> locset \<Rightarrow> nat option" where
  "selectPageForReplacement pg s = List.find (\<lambda>r. refCount (pg r) = 0) (eviction_order s)"

definition selectPagesForReplacement :: "rat \<Rightarrow> (nat \<Rightarrow> page) \<Rightarrow> locset \<Rightarrow> nat list option" where
  "selectPagesForReplacement threshold pg s =
     (let totalPages = length (cachedPages s) in
      if totalPages = 0 then None
      else let ret = (if replacementPolicy s = MRU
             then select_loop pg (\<lambda>n. operationType s = Write \<or> n = 1) 0 (rev (cachedPages s))
             else select_loop pg (\<lambda>n. operationType s = Write \<or>
                                      of_nat n / of_nat totalPages \<ge> threshold) 0 (cachedPages s))
           in if ret = [] then None else Some ret)"

abbreviation idle :: "(nat \<Rightarrow> page) \<Rightarrow> nat list \<Rightarrow> nat list" where
  "idle pg rs \<equiv> filter (\<lambda>r. refCount (pg r) = 0) rs"

definition quota :: "rat \<Rightarrow> locset \<Rightarrow> nat" where
  "quota threshold s = (if replacementPolicy s = MRU \<or> operationType s = Write then 1
     else max 1 (nat \<lceil>threshold * of_nat (length (cachedPages s))\<rceil>))"

lemma select_loop_take:
  assumes "\<And>m. 0 < m \<Longrightarrow> m \<le> q \<Longrightarrow> stop m \<longleftrightarrow> q \<le> m" and "n < q"
  shows "select_loop pg stop n rs = take (q - n) (idle pg rs)"
  using assms(2)
proof (induction rs arbitrary: n)
  case (Cons r rs)
  show ?case
  proof (cases "refCount (pg r) = 0")
    case True
    have "q - n = Suc (q - (n + 1))" using Cons.prems by simp
    with True Cons assms(1) [of "n + 1"] show ?thesis by (cases "n + 1 < q") auto
  next
    case False
    with Cons show ?thesis by simp
  qed
qed simp

lemma find_filter: "List.find P xs = (case filter P xs of [] \<Rightarrow> None | x # ys \<Rightarrow> Some x)"
  by (induction xs) auto

lemma quotient_reaches: "0 < T \<Longrightarrow> threshold \<le> of_nat m / of_nat T \<longleftrightarrow> nat \<lceil>threshold * of_nat T :: rat\<rceil> \<le> m"
  by (simp add: pos_le_divide_eq nat_le_iff ceiling_le_iff)

text \<open>The choice of victims in a locality set.  The victims are the unreferenced pages in the order of
  the policy (most recent access first under MRU, oldest first otherwise): the first of them for a
  single eviction, the first one again under MRU or while the set is being written, and otherwise
  just enough to reach the threshold share of the set's cached pages, or all of them if there are not
  so many.  No page is chosen exactly when none is unreferenced.\<close>

theorem locality_set_selection:
  "selectPageForReplacement pg s =
     (case idle pg (eviction_order s) of [] \<Rightarrow> None | r # rs \<Rightarrow> Some r) \<and>
   selectPagesForReplacement threshold pg s =
     (if idle pg (eviction_order s) = [] then None
      else Some (take (quota threshold s) (idle pg (eviction_order s))))"
proof
  show "selectPageForReplacement pg s =
      (case idle pg (eviction_order s) of [] \<Rightarrow> None | r # rs \<Rightarrow> Some r)"
    unfolding selectPageForReplacement_def by (rule find_filter)
next
  let ?T = "length (cachedPages s)"
  have q: "0 < quota threshold s" by (simp add: quota_def less_max_iff_disj)
  show "selectPagesForReplacement threshold pg s =
     (if idle pg (eviction_order s) = [] then None
      else Some (take (quota threshold s) (idle pg (eviction_order s))))"
  proof (cases "?T = 0")
    case True
    then show ?thesis by (simp add: selectPagesForReplacement_def eviction_order_def)
  next
    case False
    show ?thesis
    proof (cases "replacementPolicy s = MRU")
      case True
      have "select_loop pg (\<lambda>n. operationType s = Write \<or> n = 1) 0 rs = take (1 - 0) (idle pg rs)" for rs
        by (rule select_loop_take) auto
      with True False q show ?thesis
        by (simp add: selectPagesForReplacement_def eviction_order_def quota_def Let_def)
    next
      case nomru: False
      have "select_loop pg (\<lambda>n. operationType s = Write \<or> of_nat n / of_nat ?T \<ge> threshold) 0 rs
          = take (quota threshold s - 0) (idle pg rs)" for rs
        by (rule select_loop_take)
          (use False nomru quotient_reaches [of ?T] in \<open>auto simp: quota_def\<close>)
      with nomru False q show ?thesis
        by (simp add: selectPagesForReplacement_def eviction_order_def Let_def)
    qed
  qed
qed

end
