(* ===== verification/CircularBuffer.thy ===== *)
theory CircularBuffer
  imports Prelude
begin

text \<open>
  The blocking queue between the page cache and the flushing threads
  (\<open>src/src/storage/source/PageCircularBuffer.cc\<close>): an array of \<open>bufferSize + 1\<close> slots with a head and a
  tail index that run round it.  A producer that finds the buffer full spins until a consumer has
  popped, and a consumer that finds it empty waits: an add to a full buffer is \<open>None\<close> here, a pop from
  an empty one gives no page and leaves the buffer as it is.  The index arithmetic is
  \<open>unsigned int\<close> arithmetic.

  Producers exclude each other by one mutex and consumers by another, so an add and a pop can
  overlap.  \<open>cb_addPageToTail\<close> and \<open>cb_popPageFromHead\<close> are calls that run without an overlapping call; the
  section on overlapping calls splits both at their two writes and lets the parts interleave.
\<close>

record 'a cbuf =
  pageArray :: "'a option list"
  pageArrayHead :: nat
  pageArrayTail :: nat
  maxArraySize :: nat
  closed :: bool

definition cb_new :: "nat \<Rightarrow> 'a cbuf" where
  "cb_new bufferSize = \<lparr>pageArray = replicate (u32 (bufferSize + 1)) None, pageArrayHead = 0,
     pageArrayTail = 0, maxArraySize = u32 (bufferSize + 1), closed = False\<rparr>"

definition cb_isFull :: "'a cbuf \<Rightarrow> bool" where
  "cb_isFull b \<longleftrightarrow> pageArrayHead b = u32 (pageArrayTail b + 1) mod maxArraySize b"

definition cb_isEmpty :: "'a cbuf \<Rightarrow> bool" where
  "cb_isEmpty b \<longleftrightarrow> pageArrayHead b = pageArrayTail b"

definition cb_getSize :: "'a cbuf \<Rightarrow> nat" where
  "cb_getSize b = u32 (pageArrayTail b + 2 ^ 32 - pageArrayHead b + maxArraySize b) mod maxArraySize b"

definition cb_addPageToTail :: "'a \<Rightarrow> 'a cbuf \<Rightarrow> 'a cbuf option" where
  "cb_addPageToTail page b =
     (if cb_isFull b then None
      else let t = u32 (pageArrayTail b + 1) mod maxArraySize b in
        Some (b\<lparr>pageArrayTail := t, pageArray := (pageArray b)[t := Some page]\<rparr>))"

definition cb_popPageFromHead :: "'a cbuf \<Rightarrow> 'a cbuf \<times> 'a option" where
  "cb_popPageFromHead b =
     (if cb_isEmpty b then (b, None)
      else let h = u32 (pageArrayHead b + 1) mod maxArraySize b in
        (b\<lparr>pageArrayHead := h, pageArray := (pageArray b)[h := None]\<rparr>, pageArray b ! h))"

definition cb_close :: "'a cbuf \<Rightarrow> 'a cbuf" where
  "cb_close b = b\<lparr>closed := True\<rparr>"

definition cb_open :: "'a cbuf \<Rightarrow> 'a cbuf" where
  "cb_open b = b\<lparr>closed := False\<rparr>"

section \<open>The queue the ring implements\<close>

text \<open>
  \<open>fifo\<close> is the contract of a bounded queue: what an accepted add and a pop do to the contents.  The
  client lemma says that in any sequence of whole adds and pops the values come out in the order they
  went in, each exactly once.
\<close>

datatype 'a bop = Add 'a | Pop

locale fifo =
  fixes ok :: "'s \<Rightarrow> bool"
    and contents :: "'s \<Rightarrow> 'a list"
    and capacity :: "'s \<Rightarrow> nat"
    and add :: "'a \<Rightarrow> 's \<Rightarrow> 's option"
    and pop :: "'s \<Rightarrow> 's \<times> 'a option"
  assumes add_room: "ok s \<Longrightarrow> length (contents s) < capacity s \<Longrightarrow>
      \<exists>s'. add x s = Some s' \<and> ok s' \<and> contents s' = contents s @ [x] \<and> capacity s' = capacity s"
    and add_full: "ok s \<Longrightarrow> \<not> length (contents s) < capacity s \<Longrightarrow> add x s = None"
    and pop_nonempty: "ok s \<Longrightarrow> contents s = x # xs \<Longrightarrow>
      \<exists>s'. pop s = (s', Some x) \<and> ok s' \<and> contents s' = xs \<and> capacity s' = capacity s"
    and pop_empty: "ok s \<Longrightarrow> contents s = [] \<Longrightarrow> pop s = (s, None)"
    and bounded: "ok s \<Longrightarrow> length (contents s) \<le> capacity s"
begin

fun run :: "'a bop list \<Rightarrow> 's \<Rightarrow> 's \<times> 'a list \<times> 'a list" where
  "run [] s = (s, [], [])"
| "run (Add x # ops) s = (case add x s of
     None \<Rightarrow> run ops s
   | Some s' \<Rightarrow> (case run ops s' of (t, ins, outs) \<Rightarrow> (t, x # ins, outs)))"
| "run (Pop # ops) s = (case pop s of (s', r) \<Rightarrow> case run ops s' of (t, ins, outs) \<Rightarrow>
     (t, ins, (case r of None \<Rightarrow> outs | Some x \<Rightarrow> x # outs)))"

lemma run_fifo:
  "ok s \<Longrightarrow> run ops s = (t, ins, outs) \<Longrightarrow>
   ok t \<and> outs @ contents t = contents s @ ins \<and> capacity t = capacity s"
proof (induction ops arbitrary: s t ins outs)
  case (Cons op ops)
  show ?case
  proof (cases op)
    case (Add x)
    show ?thesis
    proof (cases "length (contents s) < capacity s")
      case True
      then obtain s' where "add x s = Some s'" "ok s'" "contents s' = contents s @ [x]"
        "capacity s' = capacity s" using add_room Cons.prems(1) by blast
      with Add Cons.prems(2) Cons.IH [of s'] show ?thesis by (auto split: prod.splits)
    next
      case False
      with Add Cons.prems Cons.IH [of s] add_full show ?thesis by auto
    qed
  next
    case Pop
    show ?thesis
    proof (cases "contents s")
      case Nil
      with Pop Cons.prems Cons.IH [of s] pop_empty show ?thesis by (auto split: prod.splits)
    next
      case (Cons x xs)
      then obtain s' where "pop s = (s', Some x)" "ok s'" "contents s' = xs" "capacity s' = capacity s"
        using pop_nonempty Cons.prems(1) by blast
      with Pop Cons Cons.prems(2) Cons.IH [of s'] show ?thesis by (auto split: prod.splits)
    qed
  qed
qed simp

end

section \<open>The ring is a bounded queue\<close>

definition cb_len :: "'a cbuf \<Rightarrow> nat" where
  "cb_len b = (pageArrayTail b + maxArraySize b - pageArrayHead b) mod maxArraySize b"

definition cb_contents :: "'a cbuf \<Rightarrow> 'a list" where
  "cb_contents b = map (\<lambda>i. the (pageArray b ! ((pageArrayHead b + 1 + i) mod maxArraySize b))) [0..<cb_len b]"

definition cb_ok :: "'a cbuf \<Rightarrow> bool" where
  "cb_ok b \<longleftrightarrow> 0 < maxArraySize b \<and> maxArraySize b < 2 ^ 32 \<and> length (pageArray b) = maxArraySize b \<and>
     pageArrayHead b < maxArraySize b \<and> pageArrayTail b < maxArraySize b \<and>
     (\<forall>i < cb_len b. pageArray b ! ((pageArrayHead b + 1 + i) mod maxArraySize b) \<noteq> None)"

definition cb_capacity :: "'a cbuf \<Rightarrow> nat" where
  "cb_capacity b = maxArraySize b - 1"

lemma length_cb_contents [simp]: "length (cb_contents b) = cb_len b"
  by (simp add: cb_contents_def)

lemma cb_new_ok:
  assumes "n + 1 < 2 ^ 32" shows "cb_ok (cb_new n)" "cb_contents (cb_new n) = []" "cb_capacity (cb_new n) = n"
  using assms by (simp_all add: cb_ok_def cb_new_def cb_len_def cb_contents_def cb_capacity_def)

text \<open>Index arithmetic of a ring of \<open>m\<close> slots.\<close>

lemma ring_len:
  assumes "h < m" "t < (m :: nat)"
  shows "(t + m - h) mod m = (if h \<le> t then t - h else t + m - h)"
  using assms by (auto simp: mod_if)

lemma ring_tail:
  assumes "h < m" "t < (m :: nat)" shows "(h + (t + m - h) mod m) mod m = t"
  using assms by (simp add: ring_len mod_if)

lemma ring_full:
  assumes "h < m" "t < (m :: nat)" shows "h = (t + 1) mod m \<longleftrightarrow> (t + m - h) mod m = m - 1"
  using assms by (auto simp: ring_len mod_if)

lemma ring_len_step:
  assumes "h < m" "t < (m :: nat)" "h \<noteq> (t + 1) mod m"
  shows "((t + 1) mod m + m - h) mod m = (t + m - h) mod m + 1"
  using assms by (auto simp: mod_if)

lemma ring_len_pop:
  assumes "h < m" "t < (m :: nat)" "h \<noteq> t"
  shows "(t + m - (h + 1) mod m) mod m = (t + m - h) mod m - 1" "0 < (t + m - h) mod m"
  using assms by (auto simp: mod_if)

lemma ring_distinct:
  assumes "i < m" "j < (m :: nat)" "(h + 1 + i) mod m = (h + 1 + j) mod m" shows "i = j"
proof -
  define a where "a = (h + 1) mod m"
  have "(a + i) mod m = (a + j) mod m" using assms(3) unfolding a_def by (simp only: mod_add_left_eq)
  moreover have am: "a < m" using assms(1) by (simp add: a_def)
  have "(a + k) mod m = (if a + k < m then a + k else a + k - m)" if "k < m" for k
    using am that by (simp add: mod_if [of "a + k"])
  ultimately show ?thesis using assms(1,2) am by (simp split: if_splits)
qed

lemma cb_step_u32:
  assumes "cb_ok b" shows "u32 (pageArrayTail b + 1) = pageArrayTail b + 1"
    "u32 (pageArrayHead b + 1) = pageArrayHead b + 1"
  using assms by (simp_all add: cb_ok_def)

lemma cb_full_iff: "cb_ok b \<Longrightarrow> cb_isFull b \<longleftrightarrow> cb_len b = cb_capacity b"
  unfolding cb_isFull_def by (simp only: cb_step_u32) (simp only: cb_ok_def cb_len_def cb_capacity_def ring_full)

lemma cb_len_le: "cb_ok b \<Longrightarrow> cb_len b \<le> cb_capacity b"
proof -
  assume "cb_ok b"
  then have "cb_len b < maxArraySize b" by (simp add: cb_ok_def cb_len_def)
  then show ?thesis by (simp add: cb_capacity_def)
qed

lemma cb_getSize_len:
  assumes "cb_ok b" "maxArraySize b \<le> 2 ^ 31" shows "cb_getSize b = length (cb_contents b)"
proof -
  let ?h = "pageArrayHead b" and ?t = "pageArrayTail b" and ?m = "maxArraySize b"
  have b: "?h < ?m" "?t < ?m" using assms(1) by (auto simp: cb_ok_def)
  have "?t + 2 ^ 32 - ?h + ?m = (?t + ?m - ?h) + 2 ^ 32" using b assms(2) by simp
  moreover have "?t + ?m - ?h < 2 ^ 32" using b assms(2) by simp
  ultimately have "u32 (?t + 2 ^ 32 - ?h + ?m) = ?t + ?m - ?h" by (simp add: u32_def)
  then show ?thesis by (simp add: cb_getSize_def cb_len_def)
qed

lemma cb_add_room:
  assumes ok: "cb_ok b" and room: "length (cb_contents b) < cb_capacity b"
  shows "\<exists>b'. cb_addPageToTail x b = Some b' \<and> cb_ok b' \<and> cb_contents b' = cb_contents b @ [x] \<and>
    cb_capacity b' = cb_capacity b"
proof -
  let ?h = "pageArrayHead b" and ?t = "pageArrayTail b" and ?m = "maxArraySize b" and ?n = "cb_len b"
  have b: "?h < ?m" "?t < ?m" "?m < 2 ^ 32" "length (pageArray b) = ?m" using ok by (auto simp: cb_ok_def)
  define t where "t = (?t + 1) mod ?m"
  define b' where "b' = b\<lparr>pageArrayTail := t, pageArray := (pageArray b)[t := Some x]\<rparr>"
  have nf: "?h \<noteq> (?t + 1) mod ?m"
    using room ring_full [OF b(1,2)] by (simp add: cb_capacity_def cb_len_def)
  have add: "cb_addPageToTail x b = Some b'"
    using cb_full_iff [OF ok] room cb_step_u32 [OF ok]
    by (simp add: cb_addPageToTail_def b'_def t_def Let_def)
  have tm: "t < ?m" using b(1) by (simp add: t_def)
  have len': "cb_len b' = ?n + 1"
    using ring_len_step [OF b(1,2) nf] by (simp add: cb_len_def b'_def t_def)
  have nm: "?n + 1 < ?m" using room by (simp add: cb_capacity_def)
  have last: "(?h + 1 + ?n) mod ?m = t"
  proof -
    have "(?h + 1 + ?n) mod ?m = ((?h + ?n) mod ?m + 1) mod ?m" by (simp add: mod_Suc_eq)
    then show ?thesis using ring_tail [OF b(1,2)] by (simp add: cb_len_def t_def)
  qed
  have other: "(?h + 1 + i) mod ?m \<noteq> t" if "i < ?n" for i
    using ring_distinct [of i ?m ?n ?h] that nm last by auto
  have "cb_contents b' = cb_contents b @ [x]"
  proof (rule nth_equalityI)
    show "length (cb_contents b') = length (cb_contents b @ [x])" using len' by simp
    show "cb_contents b' ! i = (cb_contents b @ [x]) ! i" if "i < length (cb_contents b')" for i
    proof (cases "i = ?n")
      case True
      have "cb_contents b' ! i = x"
        unfolding cb_contents_def len' using True last tm b(4) by (simp add: b'_def nth_append)
      then show ?thesis using True by (simp add: nth_append)
    next
      case False
      then have i: "i < ?n" using that len' by simp
      then have "cb_contents b' ! i = the (pageArray b ! ((?h + 1 + i) mod ?m))"
        unfolding cb_contents_def len' using other [OF i] by (simp add: b'_def nth_append)
      then show ?thesis using i by (simp add: nth_append cb_contents_def)
    qed
  qed
  moreover have "cb_ok b'"
  proof -
    have "pageArray b' ! ((?h + 1 + i) mod ?m) \<noteq> None" if "i < ?n + 1" for i
    proof (cases "i = ?n")
      case True
      then show ?thesis using last tm b(4) by (simp add: b'_def)
    next
      case False
      then have "i < ?n" using that by simp
      with other [of i] ok show ?thesis by (simp add: b'_def cb_ok_def)
    qed
    then show ?thesis using b tm len' by (simp add: cb_ok_def) (simp add: b'_def)
  qed
  ultimately show ?thesis using add by (simp add: b'_def cb_capacity_def)
qed

lemma cb_pop_nonempty:
  assumes ok: "cb_ok b" and ne: "cb_contents b = x # xs"
  shows "\<exists>b'. cb_popPageFromHead b = (b', Some x) \<and> cb_ok b' \<and> cb_contents b' = xs \<and>
    cb_capacity b' = cb_capacity b"
proof -
  let ?h = "pageArrayHead b" and ?t = "pageArrayTail b" and ?m = "maxArraySize b" and ?n = "cb_len b"
  have b: "?h < ?m" "?t < ?m" "?m < 2 ^ 32" "length (pageArray b) = ?m" using ok by (auto simp: cb_ok_def)
  have n: "?n = Suc (length xs)" using arg_cong [OF ne, of length] by simp
  have ht: "?h \<noteq> ?t" using n b(1) by (auto simp: cb_len_def)
  define h where "h = (?h + 1) mod ?m"
  define b' where "b' = b\<lparr>pageArrayHead := h, pageArray := (pageArray b)[h := None]\<rparr>"
  have hm: "h < ?m" using b(1) by (simp add: h_def)
  have x: "pageArray b ! h = Some x"
  proof -
    have "cb_contents b ! 0 = the (pageArray b ! h)" using n by (simp add: cb_contents_def h_def del: upt_Suc)
    moreover have "pageArray b ! h \<noteq> None" using ok n by (simp add: cb_ok_def h_def) (metis add_0_right zero_less_Suc)
    ultimately show ?thesis using ne by auto
  qed
  have pop: "cb_popPageFromHead b = (b', Some x)"
    using ht x cb_step_u32 [OF ok] by (simp add: cb_popPageFromHead_def cb_isEmpty_def b'_def h_def Let_def)
  have len': "cb_len b' = length xs"
    using ring_len_pop [OF b(1,2) ht] n by (simp add: cb_len_def b'_def h_def)
  have idx: "(h + 1 + i) mod ?m = (?h + 1 + Suc i) mod ?m" for i
    using mod_add_left_eq [of "?h + 1" ?m "1 + i"] by (simp add: h_def add.assoc)
  have nm: "?n < ?m" using b(1) by (simp add: cb_len_def)
  have other: "(?h + 1 + Suc i) mod ?m \<noteq> h" if "i < length xs" for i
    using ring_distinct [of "Suc i" ?m 0 ?h] that n nm by (auto simp: h_def)
  have "cb_contents b' = xs"
  proof (rule nth_equalityI)
    show "length (cb_contents b') = length xs" using len' by simp
    show "cb_contents b' ! i = xs ! i" if "i < length (cb_contents b')" for i
    proof -
      have i: "i < length xs" using that len' by simp
      have at: "(pageArrayHead b' + 1 + i) mod maxArraySize b' = (?h + 1 + Suc i) mod ?m"
        using idx [of i] by (simp add: b'_def)
      have "cb_contents b' ! i = the (pageArray b' ! ((pageArrayHead b' + 1 + i) mod maxArraySize b'))"
        using i len' by (simp add: cb_contents_def)
      also have "\<dots> = the (pageArray b ! ((?h + 1 + Suc i) mod ?m))"
        unfolding at using other [OF i] by (simp add: b'_def)
      also have "\<dots> = cb_contents b ! Suc i" using i n by (simp add: cb_contents_def del: upt_Suc)
      finally show ?thesis using ne by simp
    qed
  qed
  moreover have "cb_ok b'"
  proof -
    have "pageArray b' ! ((h + 1 + i) mod ?m) \<noteq> None" if "i < length xs" for i
    proof -
      have "pageArray b ! ((?h + 1 + Suc i) mod ?m) \<noteq> None"
        using ok n that unfolding cb_ok_def by (metis Suc_less_eq)
      then show ?thesis unfolding idx using other [OF that] by (simp add: b'_def)
    qed
    then show ?thesis using b hm len' by (simp add: cb_ok_def) (simp add: b'_def)
  qed
  ultimately show ?thesis using pop by (simp add: b'_def cb_capacity_def)
qed

lemma cb_pop_empty: "cb_ok b \<Longrightarrow> cb_contents b = [] \<Longrightarrow> cb_popPageFromHead b = (b, None)"
proof -
  assume ok: "cb_ok b" and e: "cb_contents b = []"
  have "cb_len b = 0" using arg_cong [OF e, of length] by simp
  then have "pageArrayHead b = pageArrayTail b"
    using ok ring_len_pop(2) [of "pageArrayHead b" "maxArraySize b" "pageArrayTail b"]
    by (fastforce simp: cb_len_def cb_ok_def)
  then show ?thesis by (simp add: cb_popPageFromHead_def cb_isEmpty_def)
qed

interpretation ring: fifo cb_ok cb_contents cb_capacity cb_addPageToTail cb_popPageFromHead
proof unfold_locales
  show "cb_addPageToTail x b = None" if "cb_ok b" "\<not> length (cb_contents b) < cb_capacity b"
    for b :: "'a cbuf" and x
    using that cb_full_iff [of b] cb_len_le [of b] by (simp add: cb_addPageToTail_def)
qed (simp_all add: cb_add_room cb_pop_nonempty cb_pop_empty cb_len_le)

text \<open>
  \<open>cb_run\<close> performs adds (skipped while the buffer is full) and pops (without effect while it is empty) in
  the given order and records what went in and what came out.
\<close>

fun cb_run :: "'a bop list \<Rightarrow> 'a cbuf \<Rightarrow> 'a cbuf \<times> 'a list \<times> 'a list" where
  "cb_run [] s = (s, [], [])"
| "cb_run (Add x # ops) s = (case cb_addPageToTail x s of
     None \<Rightarrow> cb_run ops s
   | Some s' \<Rightarrow> (case cb_run ops s' of (t, ins, outs) \<Rightarrow> (t, x # ins, outs)))"
| "cb_run (Pop # ops) s = (case cb_popPageFromHead s of (s', r) \<Rightarrow>
     case cb_run ops s' of (t, ins, outs) \<Rightarrow> (t, ins, (case r of None \<Rightarrow> outs | Some x \<Rightarrow> x # outs)))"

lemma cb_run_is_run: "cb_run ops s = ring.run ops s"
  by (induction ops s rule: cb_run.induct) (auto split: option.splits prod.splits)

text \<open>Calls made one after the other deliver the pages in the order they were accepted.\<close>

lemma calls_in_turn_fifo:
  assumes "bufferSize + 1 \<le> 2 ^ 31" and "cb_run ops (cb_new bufferSize) = (t, ins, outs)"
  shows "outs @ cb_contents t = ins \<and> length (cb_contents t) \<le> bufferSize \<and>
    cb_getSize t = length (cb_contents t)"
proof -
  have lt: "bufferSize + 1 < 2 ^ 32" using assms(1) by simp
  have t: "cb_ok t" "outs @ cb_contents t = ins" "cb_capacity t = bufferSize"
    using ring.run_fifo [OF cb_new_ok(1) [OF lt] assms(2) [unfolded cb_run_is_run]] cb_new_ok(2,3) [OF lt]
    by auto
  then have "maxArraySize t \<le> 2 ^ 31" using assms(1) by (auto simp: cb_capacity_def)
  with t show ?thesis using cb_len_le [OF t(1)] cb_getSize_len [OF t(1)] by simp
qed

section \<open>Overlapping calls\<close>

text \<open>
  An add moves the tail and then stores the page in the slot the tail now names; a pop moves the head
  and then takes the page out of the slot.  \<open>adding\<close> is the page of the producer that holds
  \<open>addPageMutex\<close> and has moved the tail only, \<open>taking\<close> says that the consumer that holds \<open>mutex\<close> has moved
  the head only.  A step that its mutex or the state of the buffer forbids does nothing.  Each step
  is one access to the shared indices or slots, and accesses take effect in the order of the steps.
\<close>

definition cb_moveTail :: "'a cbuf \<Rightarrow> 'a cbuf" where
  "cb_moveTail b = b\<lparr>pageArrayTail := u32 (pageArrayTail b + 1) mod maxArraySize b\<rparr>"

definition cb_storeSlot :: "'a \<Rightarrow> 'a cbuf \<Rightarrow> 'a cbuf" where
  "cb_storeSlot page b = b\<lparr>pageArray := (pageArray b)[pageArrayTail b := Some page]\<rparr>"

definition cb_moveHead :: "'a cbuf \<Rightarrow> 'a cbuf" where
  "cb_moveHead b = b\<lparr>pageArrayHead := u32 (pageArrayHead b + 1) mod maxArraySize b\<rparr>"

definition cb_takeSlot :: "'a cbuf \<Rightarrow> 'a cbuf \<times> 'a option" where
  "cb_takeSlot b =
     (b\<lparr>pageArray := (pageArray b)[pageArrayHead b := None]\<rparr>, pageArray b ! pageArrayHead b)"

lemma cb_add_parts:
  "cb_addPageToTail x b = (if cb_isFull b then None else Some (cb_storeSlot x (cb_moveTail b)))"
  by (simp add: cb_addPageToTail_def cb_storeSlot_def cb_moveTail_def Let_def)

lemma cb_pop_parts:
  "cb_popPageFromHead b = (if cb_isEmpty b then (b, None) else cb_takeSlot (cb_moveHead b))"
  by (simp add: cb_popPageFromHead_def cb_takeSlot_def cb_moveHead_def Let_def)

record 'a cshared =
  rbuf :: "'a cbuf"
  adding :: "'a option"
  taking :: bool

datatype 'a cstep = MoveTail 'a | StoreSlot | MoveHead | TakeSlot

fun cs_step :: "'a cstep \<Rightarrow> 'a cshared \<Rightarrow> 'a cshared \<times> 'a list \<times> 'a option list" where
  "cs_step (MoveTail x) s =
     (if adding s \<noteq> None \<or> cb_isFull (rbuf s) then (s, [], [])
      else (s\<lparr>rbuf := cb_moveTail (rbuf s), adding := Some x\<rparr>, [x], []))"
| "cs_step StoreSlot s = (case adding s of
     None \<Rightarrow> (s, [], [])
   | Some x \<Rightarrow> (s\<lparr>rbuf := cb_storeSlot x (rbuf s), adding := None\<rparr>, [], []))"
| "cs_step MoveHead s =
     (if taking s \<or> cb_isEmpty (rbuf s) then (s, [], [])
      else (s\<lparr>rbuf := cb_moveHead (rbuf s), taking := True\<rparr>, [], []))"
| "cs_step TakeSlot s =
     (if taking s then (case cb_takeSlot (rbuf s) of (b, r) \<Rightarrow> (s\<lparr>rbuf := b, taking := False\<rparr>, [], [r]))
      else (s, [], []))"

fun cs_run :: "'a cstep list \<Rightarrow> 'a cshared \<Rightarrow> 'a cshared \<times> 'a list \<times> 'a option list" where
  "cs_run [] s = (s, [], [])"
| "cs_run (a # acts) s = (case cs_step a s of (s', i, p) \<Rightarrow>
     case cs_run acts s' of (t, ins, outs) \<Rightarrow> (t, i @ ins, p @ outs))"

definition cs_new :: "nat \<Rightarrow> 'a cshared" where
  "cs_new bufferSize = \<lparr>rbuf = cb_new bufferSize, adding = None, taking = False\<rparr>"

text \<open>
  \<open>cs_full\<close> is the buffer once a running add has stored its page, \<open>cs_held\<close> the page of a running pop.
\<close>

definition cs_full :: "'a cshared \<Rightarrow> 'a cbuf" where
  "cs_full s = (case adding s of None \<Rightarrow> rbuf s | Some x \<Rightarrow> cb_storeSlot x (rbuf s))"

definition cs_held :: "'a cshared \<Rightarrow> 'a list" where
  "cs_held s = (if taking s then [the (pageArray (cs_full s) ! pageArrayHead (rbuf s))] else [])"

definition cs_contents :: "'a cshared \<Rightarrow> 'a list" where
  "cs_contents s = cs_held s @ cb_contents (cs_full s)"

definition cs_ok :: "'a cshared \<Rightarrow> bool" where
  "cs_ok s \<longleftrightarrow> cb_ok (cs_full s) \<and>
     (taking s \<longrightarrow> pageArray (cs_full s) ! pageArrayHead (rbuf s) \<noteq> None) \<and>
     (adding s \<noteq> None \<longrightarrow> pageArray (rbuf s) ! pageArrayTail (rbuf s) = None \<and>
        (taking s \<or> cb_len (rbuf s) \<noteq> 0)) \<and>
     (\<forall>i. cb_len (rbuf s) \<le> i \<longrightarrow> i + (if taking s then 1 else 0) < maxArraySize (rbuf s) \<longrightarrow>
        pageArray (rbuf s) ! ((pageArrayHead (rbuf s) + 1 + i) mod maxArraySize (rbuf s)) = None)"

lemma cs_full_sel [simp]:
  "pageArrayHead (cs_full s) = pageArrayHead (rbuf s)" "pageArrayTail (cs_full s) = pageArrayTail (rbuf s)"
  "maxArraySize (cs_full s) = maxArraySize (rbuf s)" "cb_len (cs_full s) = cb_len (rbuf s)"
  "cb_isFull (cs_full s) = cb_isFull (rbuf s)" "cb_isEmpty (cs_full s) = cb_isEmpty (rbuf s)"
  "cb_getSize (cs_full s) = cb_getSize (rbuf s)" "cb_capacity (cs_full s) = cb_capacity (rbuf s)"
  "length (pageArray (cs_full s)) = length (pageArray (rbuf s))"
  by (simp_all add: cs_full_def cb_storeSlot_def cb_len_def cb_isFull_def cb_isEmpty_def cb_getSize_def
      cb_capacity_def split: option.splits)

lemma cs_full_nth:
  "j \<noteq> pageArrayTail (rbuf s) \<or> adding s = None \<Longrightarrow> pageArray (cs_full s) ! j = pageArray (rbuf s) ! j"
  by (auto simp: cs_full_def cb_storeSlot_def split: option.splits)

lemma cs_ok_bounds:
  assumes "cs_ok s"
  shows "pageArrayHead (rbuf s) < maxArraySize (rbuf s)" "pageArrayTail (rbuf s) < maxArraySize (rbuf s)"
    "maxArraySize (rbuf s) < 2 ^ 32" "length (pageArray (rbuf s)) = maxArraySize (rbuf s)"
  using assms by (auto simp: cs_ok_def cb_ok_def)

lemma cs_new_ok:
  assumes "n + 1 < 2 ^ 32"
  shows "cs_ok (cs_new n)" "cs_contents (cs_new n) = []" "cb_capacity (rbuf (cs_new n)) = n"
  using assms cb_new_ok [OF assms]
  by (simp_all add: cs_ok_def cs_new_def cs_full_def cs_contents_def cs_held_def cb_new_def del: replicate_Suc)

lemma ring_behind:
  assumes "h < m" "i < m - (1 :: nat)" shows "(h + 1 + i) mod m \<noteq> h"
  using assms by (auto simp: mod_if)

text \<open>Each step keeps the invariant and moves the contents as a queue would.\<close>

lemma cs_moveTail:
  assumes ok: "cs_ok s" and free: "adding s = None" "\<not> cb_isFull (rbuf s)"
    and s': "s' = s\<lparr>rbuf := cb_moveTail (rbuf s), adding := Some x\<rparr>"
  shows "cs_ok s'" "cs_contents s' = cs_contents s @ [x]" "cb_capacity (rbuf s') = cb_capacity (rbuf s)"
proof -
  let ?b = "rbuf s" and ?h = "pageArrayHead (rbuf s)" and ?m = "maxArraySize (rbuf s)"
  define t where "t = (pageArrayTail ?b + 1) mod ?m"
  note b = cs_ok_bounds [OF ok]
  have okb: "cb_ok ?b" and full: "cs_full s = ?b" using ok free(1) by (simp_all add: cs_ok_def cs_full_def)
  have t: "pageArrayTail (rbuf s') = t" "pageArrayHead (rbuf s') = ?h" "maxArraySize (rbuf s') = ?m"
    "pageArray (rbuf s') = pageArray ?b" "taking s' = taking s"
    using cb_step_u32 [OF okb] by (simp_all add: s' cb_moveTail_def t_def)
  have ne: "?h \<noteq> t" using free(2) cb_step_u32 [OF okb] by (simp add: cb_isFull_def t_def)
  have room: "cb_len ?b < ?m - 1"
    using cb_full_iff [OF okb] cb_len_le [OF okb] free(2) by (simp add: cb_capacity_def)
  have add: "cb_addPageToTail x ?b = Some (cs_full s')"
    using free(2) by (simp add: cb_add_parts cs_full_def s')
  obtain b' where b': "cb_addPageToTail x ?b = Some b'" "cb_ok b'" "cb_contents b' = cb_contents ?b @ [x]"
    "cb_capacity b' = cb_capacity ?b"
    using cb_add_room [OF okb, of x] room by (auto simp: cb_capacity_def)
  have beq: "b' = cs_full s'" using b'(1) add by simp
  have len: "cb_len (rbuf s') = cb_len ?b + 1"
    using arg_cong [OF b'(3), of length] by (simp add: beq)
  have head: "pageArray (cs_full s') ! ?h = pageArray (cs_full s) ! ?h"
    using cs_full_nth [of ?h s'] ne full t by simp
  have last: "(?h + 1 + cb_len ?b) mod ?m = t"
  proof -
    have "(?h + 1 + cb_len ?b) mod ?m = ((?h + cb_len ?b) mod ?m + 1) mod ?m" by (simp add: mod_Suc_eq)
    then show ?thesis using ring_tail [OF b(1,2)] by (simp add: cb_len_def t_def)
  qed
  have slots: "pageArray ?b ! ((?h + 1 + i) mod ?m) = None"
    if "cb_len ?b \<le> i" "i + (if taking s then 1 else 0) < ?m" for i
    using ok that by (simp add: cs_ok_def)
  have "pageArray ?b ! t = None" using slots [of "cb_len ?b"] room last by (cases "taking s") simp_all
  then show "cs_ok s'"
    using ok b'(2) slots len head t full unfolding cs_ok_def beq by (simp split del: if_split)
  show "cs_contents s' = cs_contents s @ [x]"
    using b'(3) head t full by (simp add: cs_contents_def cs_held_def beq)
  show "cb_capacity (rbuf s') = cb_capacity ?b" by (simp add: cb_capacity_def t)
qed

lemma cs_storeSlot:
  assumes ok: "cs_ok s" and x: "adding s = Some x"
    and s': "s' = s\<lparr>rbuf := cb_storeSlot x (rbuf s), adding := None\<rparr>"
  shows "cs_ok s'" "cs_contents s' = cs_contents s" "cb_capacity (rbuf s') = cb_capacity (rbuf s)"
proof -
  let ?b = "rbuf s" and ?h = "pageArrayHead (rbuf s)" and ?m = "maxArraySize (rbuf s)"
  note b = cs_ok_bounds [OF ok]
  have full: "cs_full s' = cs_full s" by (simp add: cs_full_def s' x)
  have sel: "pageArrayHead (rbuf s') = ?h" "maxArraySize (rbuf s') = ?m" "taking s' = taking s"
    "cb_len (rbuf s') = cb_len ?b" "adding s' = None"
    "pageArray (rbuf s') = (pageArray ?b)[pageArrayTail ?b := Some x]"
    by (simp_all add: s' cb_storeSlot_def cb_len_def)
  have ne: "(?h + 1 + i) mod ?m \<noteq> pageArrayTail ?b"
    if i: "cb_len ?b \<le> i" "i + (if taking s then 1 else 0) < ?m" for i
  proof (cases "cb_len ?b")
    case 0
    then have th: "pageArrayTail ?b = ?h" using ring_len_pop(2) [OF b(1,2)] by (fastforce simp: cb_len_def)
    have "i < ?m - 1" using ok x 0 i by (auto simp: cs_ok_def)
    then show ?thesis using ring_behind [OF b(1)] th by simp
  next
    case (Suc n)
    have "(?h + 1 + n) mod ?m = pageArrayTail ?b"
      using ring_tail [OF b(1,2)] Suc by (simp add: cb_len_def)
    moreover have "n < ?m" using Suc b(1) by (metis cb_len_def Suc_lessD mod_less_divisor not_less_zero neq0_conv)
    ultimately show ?thesis using ring_distinct [of i ?m n ?h] i Suc by (auto split: if_splits)
  qed
  have "(pageArray ?b)[pageArrayTail ?b := Some x] ! ((?h + 1 + i) mod ?m) = None"
    if "cb_len ?b \<le> i" "i + (if taking s then 1 else 0) < ?m" for i
    using ok that ne [OF that] by (simp add: cs_ok_def)
  then show "cs_ok s'" using ok by (simp add: cs_ok_def full sel split del: if_split)
  show "cs_contents s' = cs_contents s" by (simp add: cs_contents_def cs_held_def full sel)
  show "cb_capacity (rbuf s') = cb_capacity ?b" by (simp add: cb_capacity_def sel)
qed

lemma cs_moveHead:
  assumes ok: "cs_ok s" and free: "\<not> taking s" "\<not> cb_isEmpty (rbuf s)"
    and s': "s' = s\<lparr>rbuf := cb_moveHead (rbuf s), taking := True\<rparr>"
  shows "cs_ok s'" "cs_contents s' = cs_contents s" "cb_capacity (rbuf s') = cb_capacity (rbuf s)"
proof -
  let ?b = "rbuf s" and ?h = "pageArrayHead (rbuf s)" and ?m = "maxArraySize (rbuf s)" and ?n = "cb_len (rbuf s)"
  define h where "h = (?h + 1) mod ?m"
  note b = cs_ok_bounds [OF ok]
  have okf: "cb_ok (cs_full s)" using ok by (simp add: cs_ok_def)
  have sel: "pageArrayHead (rbuf s') = h" "maxArraySize (rbuf s') = ?m" "taking s'" "adding s' = adding s"
    "pageArrayTail (rbuf s') = pageArrayTail ?b" "pageArray (rbuf s') = pageArray ?b"
    "pageArray (cs_full s') = pageArray (cs_full s)"
    using b(1,3) by (simp_all add: s' cb_moveHead_def h_def u32_def cs_full_def cb_storeSlot_def split: option.splits)
  have ne: "?h \<noteq> pageArrayTail ?b" using free(2) by (simp add: cb_isEmpty_def)
  have len: "cb_len (rbuf s') = ?n - 1" "0 < ?n"
    using ring_len_pop [OF b(1,2) ne] by (simp_all add: cb_len_def sel h_def)
  have hm: "h < ?m" using b(1) by (simp add: h_def)
  have idx: "(h + 1 + i) mod ?m = (?h + 1 + Suc i) mod ?m" for i
    using mod_add_left_eq [of "?h + 1" ?m "1 + i"] by (simp add: h_def add.assoc)
  have slot: "pageArray (cs_full s) ! ((?h + 1 + i) mod ?m) \<noteq> None" if "i < ?n" for i
    using okf that by (simp add: cb_ok_def)
  have "pageArray (cs_full s) ! ((h + 1 + i) mod ?m) \<noteq> None" if "i < ?n - 1" for i
    unfolding idx using slot [of "Suc i"] that by simp
  then have "cb_ok (cs_full s')" using b hm len by (simp add: cb_ok_def sel)
  moreover have "pageArray (cs_full s') ! h \<noteq> None" using slot [of 0] len by (simp add: sel h_def)
  moreover have "pageArray ?b ! ((h + 1 + i) mod ?m) = None" if "?n - 1 \<le> i" "i + 1 < ?m" for i
    unfolding idx using ok that len free(1) by (simp add: cs_ok_def del: add_Suc_right)
  ultimately show "cs_ok s'" using ok len by (simp add: cs_ok_def sel del: add_Suc_right)
  have "cs_contents s' = the (pageArray (cs_full s) ! ((?h + 1 + 0) mod ?m)) #
      map (\<lambda>i. the (pageArray (cs_full s) ! ((?h + 1 + Suc i) mod ?m))) [0..<?n - 1]"
    by (simp only: cs_contents_def cs_held_def cb_contents_def sel len idx cs_full_sel if_True
        append_Cons append_Nil add_0_right) (simp only: h_def)
  also have "\<dots> = map (\<lambda>i. the (pageArray (cs_full s) ! ((?h + 1 + i) mod ?m))) (0 # map Suc [0..<?n - 1])"
    by (simp add: comp_def)
  also have "0 # map Suc [0..<?n - 1] = [0..<?n]" using len(2) by (simp add: map_Suc_upt upt_conv_Cons)
  finally show "cs_contents s' = cs_contents s" by (simp add: cs_contents_def cs_held_def cb_contents_def free(1))
  show "cb_capacity (rbuf s') = cb_capacity ?b" by (simp add: cb_capacity_def sel)
qed

lemma cs_takeSlot:
  assumes ok: "cs_ok s" and tk: "taking s" and got: "cb_takeSlot (rbuf s) = (b', Some x)"
    and s': "s' = s\<lparr>rbuf := b', taking := False\<rparr>"
  shows "cs_ok s'" "cs_contents s = x # cs_contents s'" "cb_capacity (rbuf s') = cb_capacity (rbuf s)"
proof -
  let ?b = "rbuf s" and ?h = "pageArrayHead (rbuf s)" and ?m = "maxArraySize (rbuf s)" and ?n = "cb_len (rbuf s)"
  note b = cs_ok_bounds [OF ok]
  have okf: "cb_ok (cs_full s)" using ok by (simp add: cs_ok_def)
  have x: "pageArray ?b ! ?h = Some x" using got by (simp add: cb_takeSlot_def)
  have sel: "pageArrayHead (rbuf s') = ?h" "maxArraySize (rbuf s') = ?m" "\<not> taking s'" "adding s' = adding s"
    "pageArrayTail (rbuf s') = pageArrayTail ?b" "pageArray (rbuf s') = (pageArray ?b)[?h := None]"
    "cb_len (rbuf s') = ?n"
    using got by (auto simp: s' cb_takeSlot_def cb_len_def)
  have nt: "pageArrayTail ?b \<noteq> ?h \<or> adding s = None" using ok x by (auto simp: cs_ok_def)
  have full: "pageArray (cs_full s') = (pageArray (cs_full s))[?h := None]"
    using nt sel by (auto simp: cs_full_def cb_storeSlot_def list_update_swap split: option.splits)
  have nm: "?n < ?m" using b(1) by (simp add: cb_len_def)
  have other: "(?h + 1 + i) mod ?m \<noteq> ?h" if "i < ?m - 1" for i
    by (rule ring_behind [OF b(1) that])
  have slot: "pageArray (cs_full s') ! ((?h + 1 + i) mod ?m) = pageArray (cs_full s) ! ((?h + 1 + i) mod ?m)"
    if "i < ?n" for i
  proof -
    have "i < ?m - 1" using cb_len_le [OF okf] that by (simp add: cb_capacity_def)
    from other [OF this] show ?thesis by (simp add: full)
  qed
  have "cb_ok (cs_full s')" using okf slot by (simp add: cb_ok_def sel full)
  moreover have "pageArray (rbuf s') ! ((?h + 1 + i) mod ?m) = None" if "?n \<le> i" "i < ?m" for i
  proof (cases "i < ?m - 1")
    case True
    then show ?thesis using ok tk that other [OF True] by (simp add: sel cs_ok_def)
  next
    case False
    then have "?h + 1 + i = ?h + ?m" using that by simp
    then have "(?h + 1 + i) mod ?m = ?h" using b(1) by (simp only: mod_add_self2 mod_less)
    then show ?thesis using b by (simp add: sel)
  qed
  moreover have "pageArrayTail ?b \<noteq> ?h \<and> ?n \<noteq> 0 \<and> pageArray ?b ! pageArrayTail ?b = None" if "adding s \<noteq> None"
    using nt that ring_len_pop(2) [OF b(1,2)] ok by (auto simp: cb_len_def cs_ok_def)
  ultimately show "cs_ok s'" by (auto simp: cs_ok_def sel)
  have "cb_contents (cs_full s') = cb_contents (cs_full s)"
    using slot by (simp add: cb_contents_def sel cong: map_cong)
  then show "cs_contents s = x # cs_contents s'"
    using x nt cs_full_nth [of ?h s] tk by (auto simp: cs_contents_def cs_held_def sel)
  show "cb_capacity (rbuf s') = cb_capacity ?b" by (simp add: cb_capacity_def sel)
qed

lemma cs_step_fifo:
  assumes "cs_ok s" and "cs_step a s = (s', ins, outs)" and "None \<notin> set outs"
  shows "cs_ok s' \<and> map the outs @ cs_contents s' = cs_contents s @ ins \<and>
    cb_capacity (rbuf s') = cb_capacity (rbuf s)"
proof (cases a)
  case (MoveTail x)
  with assms cs_moveTail [OF assms(1) _ _ refl, of x] show ?thesis by (auto split: if_splits)
next
  case StoreSlot
  with assms cs_storeSlot [OF assms(1) _ refl] show ?thesis by (auto split: option.splits)
next
  case MoveHead
  with assms cs_moveHead [OF assms(1) _ _ refl] show ?thesis by (auto split: if_splits)
next
  case TakeSlot
  show ?thesis
  proof (cases "taking s")
    case True
    obtain b r where t: "cb_takeSlot (rbuf s) = (b, r)" by (cases "cb_takeSlot (rbuf s)")
    then obtain x where "r = Some x" using True TakeSlot assms(2,3) by (cases r) auto
    with cs_takeSlot [OF assms(1) True _ refl, of b x] t True TakeSlot assms(2) show ?thesis by auto
  qed (use TakeSlot assms in auto)
qed

lemma cs_run_fifo:
  "cs_ok s \<Longrightarrow> cs_run acts s = (t, ins, outs) \<Longrightarrow> None \<notin> set outs \<Longrightarrow>
   cs_ok t \<and> map the outs @ cs_contents t = cs_contents s @ ins \<and>
   cb_capacity (rbuf t) = cb_capacity (rbuf s)"
proof (induction acts arbitrary: s t ins outs)
  case (Cons a acts)
  obtain s' i p where st: "cs_step a s = (s', i, p)" by (cases "cs_step a s") auto
  obtain t' js ps where r: "cs_run acts s' = (t', js, ps)" by (cases "cs_run acts s'") auto
  have eq: "t = t'" "ins = i @ js" "outs = p @ ps" using Cons.prems(2) by (simp_all add: st r)
  have s': "cs_ok s'" "map the p @ cs_contents s' = cs_contents s @ i" "cb_capacity (rbuf s') = cb_capacity (rbuf s)"
    using cs_step_fifo [OF Cons.prems(1) st] Cons.prems(3) by (simp_all add: eq)
  have t: "cs_ok t'" "map the ps @ cs_contents t' = cs_contents s' @ js" "cb_capacity (rbuf t') = cb_capacity (rbuf s')"
    using Cons.IH [OF s'(1) r] Cons.prems(3) by (simp_all add: eq)
  have "map the (p @ ps) @ cs_contents t' = cs_contents s @ i @ js"
    using t(2) s'(2) by (metis append_assoc map_append)
  then show ?case using t s' by (simp add: eq)
qed simp

text \<open>C32: However the steps of producers and consumers interleave - an add and a pop may overlap, two
  adds or two pops may not - as long as no pop that found the buffer non-empty comes back with null,
  the flush buffer delivers the pages in the order they were accepted, each exactly once: what came
  out, the page in the hands of a running pop, and what is still inside make up what went in.  Never
  more than \<open>bufferSize\<close> pages are inside, and for \<open>bufferSize < 2^31\<close> that number is what \<open>getSize\<close>
  reports.  A pop does come back with null when it overtakes an add between its two writes; see
  \<open>overtaking_pop_loses_page\<close>.\<close>

theorem flush_buffer_fifo:
  assumes "bufferSize + 1 \<le> 2 ^ 31" and "cs_run acts (cs_new bufferSize) = (t, ins, outs)"
    and "None \<notin> set outs"
  shows "map the outs @ cs_held t @ cb_contents (cs_full t) = ins \<and>
    length (cb_contents (cs_full t)) \<le> bufferSize \<and>
    cb_getSize (rbuf t) = length (cb_contents (cs_full t))"
proof -
  have lt: "bufferSize + 1 < 2 ^ 32" using assms(1) by simp
  have t: "cs_ok t" "map the outs @ cs_contents t = ins" "cb_capacity (rbuf t) = bufferSize"
    using cs_run_fifo [OF cs_new_ok(1) [OF lt] assms(2,3)] cs_new_ok(2,3) [OF lt] by auto
  have okf: "cb_ok (cs_full t)" using t(1) by (simp add: cs_ok_def)
  have "maxArraySize (cs_full t) \<le> 2 ^ 31" using t(3) assms(1) by (auto simp: cb_capacity_def)
  from cb_getSize_len [OF okf this] cb_len_le [OF okf] t(2,3) show ?thesis
    by (simp add: cs_contents_def)
qed

text \<open>The steps of two adds and two pops that overlap.\<close>

lemma cs_new_2: "cs_new 2 = \<lparr>rbuf = \<lparr>pageArray = [None, None, None], pageArrayHead = 0, pageArrayTail = 0,
    maxArraySize = 3, closed = False\<rparr>, adding = None, taking = False\<rparr>"
  by (simp add: cs_new_def cb_new_def numeral_3_eq_3)

lemmas cs_eval = cs_new_2 cb_moveTail_def cb_storeSlot_def cb_moveHead_def cb_takeSlot_def
  cb_isFull_def cb_isEmpty_def

lemma flush_buffer_fifo_witness:
  "\<exists>t. cs_run [MoveTail (1 :: nat), StoreSlot, MoveTail 2, MoveHead, StoreSlot, MoveTail 4, TakeSlot, MoveHead]
      (cs_new 2) = (t, [1, 2, 4], [Some 1]) \<and> cs_held t @ cb_contents (cs_full t) = [2, 4]"
proof -
  have "\<exists>t. cs_run [MoveTail (1 :: nat), StoreSlot, MoveTail 2, MoveHead, StoreSlot, MoveTail 4, TakeSlot, MoveHead]
      (cs_new 2) = (t, [1, 2, 4], [Some 1])"
    by (simp add: cs_eval)
  then obtain t where r: "cs_run [MoveTail (1 :: nat), StoreSlot, MoveTail 2, MoveHead, StoreSlot, MoveTail 4,
      TakeSlot, MoveHead] (cs_new 2) = (t, [1, 2, 4], [Some 1])" ..
  with flush_buffer_fifo [OF _ r] show ?thesis by auto
qed

text \<open>
  A pop that overtakes an add takes null out of the slot the add has reserved; the page then lands
  behind the head, where no pop looks for it, although the buffer says it is empty.
\<close>

lemma overtaking_pop_loses_page:
  "\<exists>t. cs_run [MoveTail (1 :: nat), MoveHead, TakeSlot, StoreSlot, MoveHead] (cs_new 2) = (t, [1], [None]) \<and>
    cb_isEmpty (rbuf t) \<and> adding t = None \<and> \<not> taking t \<and> pageArray (rbuf t) ! 1 = Some 1"
  by (simp add: cs_eval)

end
