(* ===== verification/PageCaching.thy ===== *)
theory PageCaching
  imports LocalitySets CircularBuffer
begin

text \<open>
  The page cache of a storage node (\<open>src/src/storage/source/PageCache.cc\<close>) and the thread that writes
  evicted pages to disk (\<open>src/src/storage/source/PDBFlushConsumerWork.cc\<close>): every operation as a function
  on the cache's state.  The locks are part of the state: to take a lock that is held is \<open>Stuck\<close>, so a
  function that returns without giving back a lock shows in the next operation.  Shared memory and
  the files are arguments (the records \<open>cenv\<close> and \<open>pfile\<close>).  An operation is one step; in particular a
  page is added to the flush buffer without a pop of the flushing thread in between (\<open>CircularBuffer\<close>
  shows what a pop that overtakes an add does).
\<close>

section \<open>State\<close>

datatype CacheStrategy = UnifiedLRU | UnifiedMRU | UnifiedCost | UnifiedIntelligent | UnifiedDBMIN

type_synonym key = "32 word \<times> 32 word \<times> 32 word \<times> 32 word"

datatype rwlock = Unlocked | Writer | Readers nat

text \<open>
  \<open>pages\<close> and \<open>sets\<close> are the page and os objects by reference; \<open>nextPage\<close> is the next reference
  \<open>make_shared\<close> gives out.  \<open>cache\<close> is the hash map in its iteration order; \<open>cachePage\<close> dereferences
  the page it inserts, so no null page is in it and the tests for one are dead.  \<open>evicting\<close> is the
  cache's own \<open>inEviction\<close> flag.  \<open>written\<close> records what the flushing thread has appended to files.
\<close>

record 'h cstate =
  pages :: "nat \<Rightarrow> page"
  nextPage :: nat
  sets :: "nat \<Rightarrow> locset"
  cache :: "(key \<times> nat) list"
  csize :: "64 word"
  accessCount :: int
  evicting :: bool
  evictStopSize :: "64 word"
  strategy :: CacheStrategy
  priorityList :: "nat list list"
  flushBuf :: "nat cbuf"
  evictionMutex :: bool
  cacheMutex :: bool
  evictionAndFlushLock :: rwlock
  shm :: 'h
  numHits :: int
  numMisses :: int
  numEvicted :: int
  numCached :: int
  written :: "(key \<times> byte list) list"

text \<open>
  \<open>shm_malloc h n\<close> is \<open>SharedMem::mallocAlign\<close> of \<open>n\<close> bytes aligned to 512: the offset of the aligned
  frame and its distance from the start of the chunk; \<open>shm_free\<close> takes the chunk's offset and size;
  \<open>garbage\<close> is what a frame holds before it is written; \<open>rounds\<close> bounds the allocation loop.
\<close>

record 'h cenv =
  shm_malloc :: "'h \<Rightarrow> 64 word \<Rightarrow> 'h \<times> (64 word \<times> 32 word) option"
  shm_free :: "64 word \<Rightarrow> 64 word \<Rightarrow> 'h \<Rightarrow> 'h"
  garbage :: "64 word \<Rightarrow> nat \<Rightarrow> byte"
  raw_page :: page
  stop_share :: rat
  rounds :: nat

definition cache_new :: "64 word \<Rightarrow> CacheStrategy \<Rightarrow> nat cbuf \<Rightarrow> (nat \<Rightarrow> page) \<Rightarrow> (nat \<Rightarrow> locset) \<Rightarrow> 'h \<Rightarrow> 'h cstate" where
  "cache_new stopSize st buf pg ls h = \<lparr>pages = pg, nextPage = 0, sets = ls, cache = [], csize = 0,
     accessCount = 0, evicting = False, evictStopSize = stopSize, strategy = st,
     priorityList = replicate 6 [], flushBuf = buf, evictionMutex = False, cacheMutex = False,
     evictionAndFlushLock = Unlocked, shm = h, numHits = 0, numMisses = 0, numEvicted = 0,
     numCached = 0, written = []\<rparr>"

text \<open>The stop size the constructor computes from the sizes of the configuration; \<open>share\<close> is
  \<open>(maxSize) * EVICT_STOP_THRESHOLD\<close>, a product of a \<open>size_t\<close> and a double.\<close>

definition stop_size :: "64 word \<Rightarrow> 64 word \<Rightarrow> 64 word \<Rightarrow> 64 word" where
  "stop_size share shmSize maxPageSize =
     (if share \<ge> shmSize - 6 * maxPageSize
      then if shmSize - 6 * maxPageSize \<le> maxPageSize then maxPageSize else shmSize - 6 * maxPageSize
      else share)"

definition upd_page :: "nat \<Rightarrow> (page \<Rightarrow> page) \<Rightarrow> 'h cstate \<Rightarrow> 'h cstate" where
  "upd_page r f s = s\<lparr>pages := (pages s)(r := f (pages s r))\<rparr>"

definition upd_set :: "nat \<Rightarrow> (locset \<Rightarrow> locset) \<Rightarrow> 'h cstate \<Rightarrow> 'h cstate" where
  "upd_set l f s = s\<lparr>sets := (sets s)(l := f (sets s l))\<rparr>"

definition on_set :: "nat option \<Rightarrow> (locset \<Rightarrow> locset) \<Rightarrow> 'h cstate \<Rightarrow> 'h cstate" where
  "on_set os f s = (case os of None \<Rightarrow> s | Some l \<Rightarrow> upd_set l f s)"

definition key_of :: "page \<Rightarrow> key" where
  "key_of p = (dbID p, typeID p, setID p, pageID p)"

section \<open>Locks\<close>

definition lock_eviction_mutex :: "'h cstate \<Rightarrow> 'h cstate outcome" where
  "lock_eviction_mutex s = (if evictionMutex s then Inl Stuck else Inr (s\<lparr>evictionMutex := True\<rparr>))"

definition unlock_eviction_mutex :: "'h cstate \<Rightarrow> 'h cstate outcome" where
  "unlock_eviction_mutex s = (if evictionMutex s then Inr (s\<lparr>evictionMutex := False\<rparr>) else Inl BadUnlock)"

definition lock_cache_mutex :: "'h cstate \<Rightarrow> 'h cstate outcome" where
  "lock_cache_mutex s = (if cacheMutex s then Inl Stuck else Inr (s\<lparr>cacheMutex := True\<rparr>))"

definition unlock_cache_mutex :: "'h cstate \<Rightarrow> 'h cstate outcome" where
  "unlock_cache_mutex s = (if cacheMutex s then Inr (s\<lparr>cacheMutex := False\<rparr>) else Inl BadUnlock)"

definition evictionLock :: "'h cstate \<Rightarrow> 'h cstate outcome" where
  "evictionLock s = (if evictionAndFlushLock s = Unlocked
     then Inr (s\<lparr>evictionAndFlushLock := Writer\<rparr>) else Inl Stuck)"

definition flushLock :: "'h cstate \<Rightarrow> 'h cstate outcome" where
  "flushLock s = (case evictionAndFlushLock s of
     Unlocked \<Rightarrow> Inr (s\<lparr>evictionAndFlushLock := Readers 1\<rparr>)
   | Readers n \<Rightarrow> Inr (s\<lparr>evictionAndFlushLock := Readers (n + 1)\<rparr>)
   | Writer \<Rightarrow> Inl Stuck)"

definition rw_unlock :: "'h cstate \<Rightarrow> 'h cstate outcome" where
  "rw_unlock s = (case evictionAndFlushLock s of
     Unlocked \<Rightarrow> Inl BadUnlock
   | Writer \<Rightarrow> Inr (s\<lparr>evictionAndFlushLock := Unlocked\<rparr>)
   | Readers n \<Rightarrow> Inr (s\<lparr>evictionAndFlushLock := (if n \<le> 1 then Unlocked else Readers (n - 1))\<rparr>))"

section \<open>Inserting and removing\<close>

definition containsPage :: "key \<Rightarrow> 'h cstate \<Rightarrow> bool" where
  "containsPage k s \<longleftrightarrow> map_of (cache s) k \<noteq> None"

definition cachePage :: "nat option \<Rightarrow> nat option \<Rightarrow> 'h cstate \<Rightarrow> 'h cstate outcome" where
  "cachePage page os s = (case page of None \<Rightarrow> Inl NullDeref | Some r \<Rightarrow>
     (let k = key_of (pages s r) in
      andThen (lock_cache_mutex s) (\<lambda>s.
        let s = (if containsPage k s then s
                 else on_set (if strategy s = UnifiedDBMIN then os else None)
                        (\<lambda>l. l\<lparr>numCachedPages := numCachedPages l + 1\<rparr>)
                        (s\<lparr>cache := cache s @ [(k, r)], csize := csize s + (psize (pages s r) + 512),
                           numCached := numCached s + 1\<rparr>))
        in unlock_cache_mutex (on_set os (addCachedPage r) s))))"

definition erase_page :: "key \<Rightarrow> nat \<Rightarrow> 'h cstate \<Rightarrow> 'h cstate" where
  "erase_page k r s = s\<lparr>cache := filter (\<lambda>(k', _). k' \<noteq> k) (cache s),
     csize := csize s - (psize (pages s r) + 512)\<rparr>"

definition removePage :: "key \<Rightarrow> 'h cstate \<Rightarrow> ('h cstate \<times> bool) outcome" where
  "removePage k s = andThen (lock_cache_mutex s) (\<lambda>s.
     case map_of (cache s) k of
       None \<Rightarrow> andThen (unlock_cache_mutex s) (\<lambda>s. Inr (s, False))
     | Some r \<Rightarrow> andThen (unlock_cache_mutex (erase_page k r s)) (\<lambda>s. Inr (s, True)))"

text \<open>Handing a page's frame back: \<open>shm->free(rawBytes - internalOffset, ...)\<close>, then the page object
  forgets the frame.  The flushing thread passes another size than the cache does.\<close>

definition release_frame :: "'h cenv \<Rightarrow> nat \<Rightarrow> 64 word \<Rightarrow> 'h cstate \<Rightarrow> 'h cstate outcome" where
  "release_frame env r n s = (case rawBytes (pages s r) of None \<Rightarrow> Inl WildAccess | Some _ \<Rightarrow>
     Inr (upd_page r (\<lambda>p. p\<lparr>offset := 0, rawBytes := None\<rparr>)
       (s\<lparr>shm := shm_free env (offset (pages s r) - scast (internalOffset (pages s r))) n (shm s)\<rparr>)))"

definition freePage :: "'h cenv \<Rightarrow> nat \<Rightarrow> 'h cstate \<Rightarrow> ('h cstate \<times> bool) outcome" where
  "freePage env r s = (let k = key_of (pages s r) in
     andThen (lock_cache_mutex s) (\<lambda>s.
       case map_of (cache s) k of
         None \<Rightarrow> andThen (unlock_cache_mutex s) (\<lambda>s. Inr (s, False))
       | Some r' \<Rightarrow> andThen (unlock_cache_mutex (erase_page k r' s)) (\<lambda>s.
           andThen (release_frame env r (psize (pages s r) + 512) s) (\<lambda>s. Inr (s, True)))))"

section \<open>Evicting one page\<close>

definition enqueue_flush :: "nat \<Rightarrow> 'h cstate \<Rightarrow> 'h cstate outcome" where
  "enqueue_flush r s = (case cb_addPageToTail r (flushBuf s) of None \<Rightarrow> Inl Stuck
     | Some b \<Rightarrow> Inr (s\<lparr>flushBuf := b\<rparr>))"

definition flushPageWithoutEviction :: "key \<Rightarrow> 'h cstate \<Rightarrow> ('h cstate \<times> bool) outcome" where
  "flushPageWithoutEviction k s = (case map_of (cache s) k of None \<Rightarrow> Inr (s, False) | Some r \<Rightarrow>
     if dirty (pages s r) \<and> \<not> inFlush (pages s r)
     then andThen (enqueue_flush r (upd_page r (\<lambda>p. p\<lparr>inFlush := True, inEviction := False\<rparr>) s)) (\<lambda>s.
            Inr (s, True))
     else Inr (s, False))"

definition must_flush :: "bool \<Rightarrow> page \<Rightarrow> bool" where
  "must_flush tryFlush p \<longleftrightarrow> tryFlush \<and> dirty p \<and> \<not> inFlush p \<and>
     (dbID p \<noteq> 0 \<or> typeID p \<noteq> 1) \<and> (dbID p \<noteq> 0 \<or> typeID p \<noteq> 2)"

definition evictPage :: "'h cenv \<Rightarrow> key \<Rightarrow> bool \<Rightarrow> 'h cstate \<Rightarrow> ('h cstate \<times> bool) outcome" where
  "evictPage env k tryFlush s = (case map_of (cache s) k of None \<Rightarrow> Inr (s, False) | Some r \<Rightarrow>
     if refCount (pages s r) > 0 then Inr (s, False)
     else let s = upd_page r (\<lambda>p. p\<lparr>pinned := False\<rparr>) s in
       andThen
         (if must_flush tryFlush (pages s r)
          then enqueue_flush r (upd_page r (\<lambda>p. p\<lparr>inFlush := True, inEviction := True\<rparr>) s)
          else if inFlush (pages s r)
          then Inr (upd_page r (\<lambda>p. p\<lparr>inEviction := True\<rparr>) s)
          else andThen (flushLock s) (\<lambda>s.
               andThen (release_frame env r (psize (pages s r) + 512) s) (\<lambda>s.
               andThen (removePage k s) (\<lambda>(s, _). rw_unlock s))))
         (\<lambda>s. Inr (s\<lparr>numEvicted := numEvicted s + 1\<rparr>, True)))"

definition evictPage_of_set :: "'h cenv \<Rightarrow> nat \<Rightarrow> nat option \<Rightarrow> 'h cstate \<Rightarrow> ('h cstate \<times> bool) outcome" where
  "evictPage_of_set env r os s =
     andThen (evictPage env (key_of (pages s r)) True s) (\<lambda>(s, ret).
       if ret
       then let s = on_set os (removeCachedPage r) s in
         Inr (on_set (if strategy s = UnifiedDBMIN then os else None)
                (\<lambda>l. l\<lparr>numCachedPages := numCachedPages l - 1\<rparr>) s, ret)
       else Inr (s, ret))"

section \<open>Eviction\<close>

text \<open>
  \<open>dbmin_loop\<close> is the loop of \<open>evictForDBMIN\<close>; its first argument is fuel, one more than the number of
  pages in the set, each round taking one page out of the set.  \<open>getNumCachedPages\<close> is an \<open>int\<close> that
  is compared with a \<open>size_t\<close>, so it is sign-extended and read unsigned.
\<close>

fun dbmin_loop :: "nat \<Rightarrow> 'h cenv \<Rightarrow> nat \<Rightarrow> 'h cstate \<Rightarrow> 'h cstate outcome" where
  "dbmin_loop 0 env l s = Inl Stuck"
| "dbmin_loop (Suc n) env l s =
     (if (scast (numCachedPages (sets s l)) :: 64 word) \<ge> desiredSize (sets s l)
      then case selectPageForReplacement (pages s) (sets s l) of
          None \<Rightarrow> Inr s
        | Some r \<Rightarrow> andThen (rw_unlock s) (\<lambda>s.
            andThen (evictPage_of_set env r (Some l) s) (\<lambda>(s, ret).
              if \<not> ret then Inr s
              else andThen (evictionLock s) (dbmin_loop n env l)))
      else Inr s)"

definition evictForDBMIN :: "'h cenv \<Rightarrow> nat option \<Rightarrow> 'h cstate \<Rightarrow> 'h cstate outcome" where
  "evictForDBMIN env os s = (case os of None \<Rightarrow> Inl NullDeref | Some l \<Rightarrow>
     andThen (evictionLock s) (\<lambda>s.
     andThen (dbmin_loop (Suc (length (cachedPages (sets s l)))) env l s) rw_unlock))"

text \<open>\<open>evict_pages\<close> evicts the pages chosen in one set and counts the successes.\<close>

fun evict_pages :: "'h cenv \<Rightarrow> nat option \<Rightarrow> nat list \<Rightarrow> 'h cstate \<Rightarrow> ('h cstate \<times> nat) outcome" where
  "evict_pages env os [] s = Inr (s, 0)"
| "evict_pages env os (r # rs) s = andThen (evictPage_of_set env r os s) (\<lambda>(s, ret).
     andThen (evict_pages env os rs s) (\<lambda>(s, n). Inr (s, if ret then n + 1 else n)))"

definition evict_from_set :: "'h cenv \<Rightarrow> nat \<Rightarrow> 'h cstate \<Rightarrow> ('h cstate \<times> nat) outcome" where
  "evict_from_set env l s =
     (case selectPagesForReplacement (stop_share env) (pages s) (sets s l) of
        None \<Rightarrow> Inr (s, 0)
      | Some rs \<Rightarrow> andThen (rw_unlock s) (\<lambda>s. andThen (evict_pages env (Some l) rs s) (\<lambda>(s, n).
          andThen (evictionLock s) (\<lambda>s. Inr (s, n)))))"

text \<open>\<open>UnifiedIntelligent\<close>: the sets of the six priority lists in turn, until a page has been evicted.\<close>

fun evict_sets :: "'h cenv \<Rightarrow> nat list \<Rightarrow> 'h cstate \<Rightarrow> 'h cstate outcome" where
  "evict_sets env [] s = Inr s"
| "evict_sets env (l # ls) s = andThen (evict_from_set env l s) (\<lambda>(s, n).
     if n > 0 then Inr s else evict_sets env ls s)"

definition evict_intelligent :: "'h cenv \<Rightarrow> 'h cstate \<Rightarrow> 'h cstate outcome" where
  "evict_intelligent env s = andThen (evictionLock s) (\<lambda>s.
     andThen (evict_sets env (concat (take 6 (priorityList s))) s) rw_unlock)"

text \<open>
  \<open>UnifiedCost\<close>: every set with a page to evict gets the costs of its priority list and is pushed on a
  heap ordered by the cost of evicting its next page; the cheapest sets are tried until a page has
  been evicted.  The costs are exact rationals here, and sets of equal cost are taken in the order
  of the pushes, which the source leaves to the heap.
\<close>

definition profiledWriteCosts :: "rat list" where
  "profiledWriteCosts = [0, 0, 0, 630 / 100, 630 / 100, 1282 / 100]"

definition profiledReadCosts :: "rat list" where
  "profiledReadCosts = [0, 0, 426 / 100, 426 / 100, 426 / 100, 807 / 100]"

fun push_level :: "nat \<Rightarrow> nat list \<Rightarrow> 'h cstate \<times> nat list \<Rightarrow> 'h cstate \<times> nat list" where
  "push_level i [] (s, q) = (s, q)"
| "push_level i (l # ls) (s, q) =
     (if selectPageForReplacement (pages s) (sets s l) \<noteq> None
      then push_level i ls (upd_set l (\<lambda>x.
             x\<lparr>writeCost := (if isShared x then 99 else profiledWriteCosts ! i),
               readCost := (if isShared x then 99 else profiledReadCosts ! i),
               setAccessId := accessCount s + 1\<rparr>) s, q @ [l])
      else push_level i ls (s, q))"

definition evict_cost :: "'h cstate \<Rightarrow> nat \<Rightarrow> rat" where
  "evict_cost s l = (case selectPageForReplacement (pages s) (sets s l) of
     None \<Rightarrow> 0
   | Some r \<Rightarrow> writeCost (sets s l) +
       1 / of_int (setAccessId (sets s l) - accessSequenceId (pages s r)) * readCost (sets s l))"

fun cheapest :: "('a \<Rightarrow> rat) \<Rightarrow> 'a \<Rightarrow> 'a list \<Rightarrow> 'a" where
  "cheapest cost x [] = x"
| "cheapest cost x (y # ys) = (if cost y < cost x then cheapest cost y ys else cheapest cost x ys)"

fun evict_cheapest :: "nat \<Rightarrow> 'h cenv \<Rightarrow> nat list \<Rightarrow> 'h cstate \<Rightarrow> 'h cstate outcome" where
  "evict_cheapest 0 env q s = Inr s"
| "evict_cheapest (Suc n) env q s = (case q of [] \<Rightarrow> Inr s | x # xs \<Rightarrow>
     (let l = cheapest (evict_cost s) x xs in
      andThen (evict_from_set env l s) (\<lambda>(s, k).
        if k > 0 then Inr s else evict_cheapest n env (remove1 l q) s)))"

definition push_all :: "'h cstate \<Rightarrow> 'h cstate \<times> nat list" where
  "push_all s = fold (\<lambda>i. push_level i (rev (priorityList s ! i))) [0..<6] (s, [])"

definition evict_by_cost :: "'h cenv \<Rightarrow> 'h cstate \<Rightarrow> 'h cstate outcome" where
  "evict_by_cost env s = andThen (evictionLock s) (\<lambda>s. case push_all s of (s, q) \<Rightarrow>
     andThen (evict_cheapest (length q) env q s) rw_unlock)"

text \<open>
  \<open>UnifiedMRU\<close> and \<open>UnifiedLRU\<close>: all evictable pages, most recently accessed first, until the cache is
  no larger than its stop size.
\<close>

definition evictable :: "page \<Rightarrow> bool" where
  "evictable p \<longleftrightarrow> refCount p = 0 \<and> (\<not> dirty p \<or> (dirty p \<and> \<not> inFlush p))"

definition mru_queue :: "'h cstate \<Rightarrow> nat list" where
  "mru_queue s = sort_key (\<lambda>r. - accessSequenceId (pages s r))
     (filter (\<lambda>r. evictable (pages s r)) (map snd (cache s)))"

fun evict_queue :: "'h cenv \<Rightarrow> nat list \<Rightarrow> 'h cstate \<Rightarrow> 'h cstate outcome" where
  "evict_queue env [] s = Inr s"
| "evict_queue env (r # rs) s =
     (if csize s > evictStopSize s
      then andThen (evictPage_of_set env r None s) (\<lambda>(s, _). evict_queue env rs s)
      else Inr s)"

definition evict_mru :: "'h cenv \<Rightarrow> 'h cstate \<Rightarrow> 'h cstate outcome" where
  "evict_mru env s = andThen (evictionLock s) (\<lambda>s. let q = mru_queue s in
     andThen (rw_unlock s) (evict_queue env q))"

definition evict :: "'h cenv \<Rightarrow> 'h cstate \<Rightarrow> 'h cstate outcome" where
  "evict env s =
     (if evicting s then Inr s
      else andThen (lock_eviction_mutex s) (\<lambda>s. let s = s\<lparr>evicting := True\<rparr> in
        if strategy s = UnifiedDBMIN then Inr s
        else andThen (if strategy s = UnifiedCost then evict_by_cost env s
                      else if strategy s = UnifiedIntelligent then evict_intelligent env s
                      else evict_mru env s)
               (\<lambda>s. unlock_eviction_mutex (s\<lparr>evicting := False\<rparr>))))"

subsection \<open>All dirty pages\<close>

text \<open>\<open>while (page->getRefCount() > 0) page->decRefCount()\<close>.\<close>

definition zero_ref :: "page \<Rightarrow> page" where
  "zero_ref p = (decRefCount ^^ nat (refCount p)) p"

definition evict_all_with :: "bool \<Rightarrow> 'h cenv \<Rightarrow> 'h cstate \<Rightarrow> ('h cstate \<times> nat) outcome" where
  "evict_all_with unpin_first env s =
     (if evicting s then Inr (s, 0)
      else andThen (lock_eviction_mutex s) (\<lambda>s. let s = s\<lparr>evicting := True\<rparr> in
        andThen (evictionLock s) (\<lambda>s.
          let q = filter (\<lambda>r. dirty (pages s r) \<and> \<not> inFlush (pages s r) \<and>
                    (unpin_first \<or> refCount (pages s r) = 0)) (map snd (cache s));
              s = (if unpin_first then fold (\<lambda>r. upd_page r zero_ref) q s else s)
          in andThen (rw_unlock s) (\<lambda>s.
             andThen (evict_pages env None q s) (\<lambda>(s, n).
             andThen (unlock_eviction_mutex (s\<lparr>evicting := False\<rparr>)) (\<lambda>s. Inr (s, n)))))))"

definition unpinAndEvictAllDirtyPages :: "'h cenv \<Rightarrow> 'h cstate \<Rightarrow> ('h cstate \<times> nat) outcome" where
  "unpinAndEvictAllDirtyPages = evict_all_with True"

definition evictAllDirtyPages :: "'h cenv \<Rightarrow> 'h cstate \<Rightarrow> ('h cstate \<times> nat) outcome" where
  "evictAllDirtyPages = evict_all_with False"

section \<open>Getting pages\<close>

text \<open>\<open>allocate\<close> is the loop of \<open>allocateBufferFromSharedMemoryBlocking\<close>.  With the flag \<open>evicting\<close> set
  the thread only yields: in a run of one thread nobody will clear it.\<close>

fun allocate :: "nat \<Rightarrow> 'h cenv \<Rightarrow> 64 word \<Rightarrow> 'h cstate \<Rightarrow> ('h cstate \<times> 64 word \<times> 32 word) outcome" where
  "allocate 0 env n s = Inl Stuck"
| "allocate (Suc k) env n s = (case shm_malloc env (shm s) n of
     (h, Some (off, align)) \<Rightarrow> Inr (s\<lparr>shm := h\<rparr>, off, align)
   | (h, None) \<Rightarrow> andThen (if evicting s then Inr (s\<lparr>shm := h\<rparr>) else evict env (s\<lparr>shm := h\<rparr>))
       (allocate k env n))"

definition allocateBlocking :: "'h cenv \<Rightarrow> 64 word \<Rightarrow> 'h cstate \<Rightarrow>
    ('h cstate \<times> byte list \<times> 64 word \<times> 32 word) outcome" where
  "allocateBlocking env n s = andThen (allocate (rounds env) env n s) (\<lambda>(s, off, align).
     Inr (s, replicate (unat n) 0, off, align))"

definition tryAllocate :: "'h cenv \<Rightarrow> 64 word \<Rightarrow> 'h cstate \<Rightarrow>
    ('h cstate \<times> (byte list \<times> 64 word \<times> 32 word) option) outcome" where
  "tryAllocate env n s =
     (let frame = (\<lambda>off align. (map (garbage env off) [0..<unat n], off, align)) in
      case shm_malloc env (shm s) n of
        (h, Some (off, align)) \<Rightarrow> Inr (s\<lparr>shm := h\<rparr>, Some (frame off align))
      | (h, None) \<Rightarrow> andThen (evict env (s\<lparr>shm := h\<rparr>)) (\<lambda>s. case shm_malloc env (shm s) n of
          (h, Some (off, align)) \<Rightarrow> Inr (s\<lparr>shm := h\<rparr>, Some (frame off align))
        | (h, None) \<Rightarrow> Inr (s\<lparr>shm := h\<rparr>, None)))"

definition new_page :: "page \<Rightarrow> 'h cstate \<Rightarrow> 'h cstate \<times> nat" where
  "new_page p s = (s\<lparr>pages := (pages s)(nextPage s := p), nextPage := nextPage s + 1\<rparr>, nextPage s)"

definition stamp :: "nat \<Rightarrow> 'h cstate \<Rightarrow> 'h cstate" where
  "stamp r s = (upd_page r (\<lambda>p. p\<lparr>accessSequenceId := accessCount s\<rparr>) s)\<lparr>accessCount := accessCount s + 1\<rparr>"

text \<open>What the cache reads of a \<open>PDBFile\<close>: its ids, its page size, and its pages.\<close>

record pfile =
  f_sequence :: bool
  f_node :: "32 word"
  f_db :: "32 word"
  f_type :: "32 word"
  f_set :: "32 word"
  f_pageSize :: "64 word"
  f_numPages :: "32 word \<Rightarrow> 32 word"
  f_lastFlushed :: "32 word"
  f_index :: "32 word \<Rightarrow> 32 word \<times> 32 word"
  f_contents :: "32 word \<Rightarrow> 32 word \<Rightarrow> byte list"

definition buildPage :: "'h cenv \<Rightarrow> pfile \<Rightarrow> byte list \<Rightarrow> 64 word \<Rightarrow> 32 word \<Rightarrow> 32 word \<Rightarrow> 32 word \<Rightarrow>
    'h cstate \<Rightarrow> ('h cstate \<times> nat) outcome" where
  "buildPage env f m off align part seqno s =
     andThen (peek32 16 m) (\<lambda>pid. andThen (peek32 20 m) (\<lambda>n.
     andThen (page_new (raw_page env) m (f_node f) (f_db f) (f_type f) (f_set f) pid (f_pageSize f)
                off align n 0) (\<lambda>p.
       Inr (new_page (p\<lparr>numObjects := n, partitionId := part, pageSeqInPartition := seqno\<rparr>) s))))"

text \<open>Reading a page from a file overwrites the start of the zeroed frame.\<close>

definition read_into :: "byte list \<Rightarrow> byte list \<Rightarrow> byte list" where
  "read_into m d = take (length m) d @ drop (length d) m"

definition loadPage :: "'h cenv \<Rightarrow> pfile \<Rightarrow> 32 word \<Rightarrow> 32 word \<Rightarrow> 'h cstate \<Rightarrow>
    ('h cstate \<times> nat option) outcome" where
  "loadPage env f part seqno s =
     (if (if f_sequence f then seqno > f_lastFlushed f else seqno \<ge> f_numPages f part)
      then Inr (s, None)
      else andThen (allocateBlocking env (f_pageSize f) s) (\<lambda>(s, m, off, align).
             let part' = (if f_sequence f then 0 else part) in
             andThen (buildPage env f (read_into m (f_contents f part' seqno)) off align part' seqno s)
               (\<lambda>(s, r). Inr (s, Some r))))"

definition with_dbmin :: "'h cenv \<Rightarrow> nat option \<Rightarrow> 'h cstate \<Rightarrow> 'h cstate outcome" where
  "with_dbmin env os s =
     (if strategy s = UnifiedDBMIN
      then andThen (lock_eviction_mutex s) (\<lambda>s. andThen (evictForDBMIN env os s) unlock_eviction_mutex)
      else Inr s)"

definition getPage :: "'h cenv \<Rightarrow> pfile \<Rightarrow> 32 word \<Rightarrow> 32 word \<Rightarrow> 32 word \<Rightarrow> nat option \<Rightarrow> 'h cstate \<Rightarrow>
    ('h cstate \<times> nat option) outcome" where
  "getPage env f part seqno pid os s =
     andThen (with_dbmin env os s) (\<lambda>s.
     let k = (f_db f, f_type f, f_set f, pid);
         (part, seqno) = (if part = -1 \<or> seqno = -1 then f_index f pid else (part, seqno)) in
     andThen (lock_eviction_mutex s) (\<lambda>s. andThen (evictionLock s) (\<lambda>s.
     andThen (lock_cache_mutex s) (\<lambda>s. case map_of (cache s) k of
       None \<Rightarrow>
         andThen (unlock_cache_mutex (s\<lparr>numMisses := numMisses s + 1\<rparr>)) (\<lambda>s.
         andThen (rw_unlock s) (\<lambda>s. andThen (unlock_eviction_mutex s) (\<lambda>s.
         andThen (loadPage env f part seqno s) (\<lambda>(s, page). case page of
           None \<Rightarrow> Inr (s, None)
         | Some r \<Rightarrow>
             andThen (lock_eviction_mutex (stamp r s)) (\<lambda>s.
             andThen (cachePage (Some r) os s) (\<lambda>s.
             andThen (unlock_eviction_mutex
                        (upd_page r (\<lambda>p. incRefCount (p\<lparr>pinned := True, dirty := False\<rparr>)) s)) (\<lambda>s.
               Inr (s, Some r))))))))
     | Some r \<Rightarrow>
         andThen (unlock_cache_mutex s) (\<lambda>s.
         andThen (rw_unlock (upd_page r (\<lambda>p. incRefCount (p\<lparr>pinned := True\<rparr>)) s)) (\<lambda>s.
         andThen (unlock_eviction_mutex s) (\<lambda>s.
           let s = on_set os (updateCachedPage r) (stamp r s) in
           Inr (s\<lparr>numHits := numHits s + 1\<rparr>, Some r))))))))"

definition getCachedPage :: "key \<Rightarrow> nat option \<Rightarrow> 'h cstate \<Rightarrow> ('h cstate \<times> nat option) outcome" where
  "getCachedPage k os s = andThen (lock_cache_mutex s) (\<lambda>s. case map_of (cache s) k of
     None \<Rightarrow> andThen (unlock_cache_mutex s) (\<lambda>s. Inr (s, None))
   | Some r \<Rightarrow> andThen (unlock_cache_mutex (upd_page r incRefCount s)) (\<lambda>s.
       Inr (on_set os (updateCachedPage r) (stamp r s), Some r)))"

definition getPage1 :: "key \<Rightarrow> nat option \<Rightarrow> 'h cstate \<Rightarrow> ('h cstate \<times> nat option) outcome" where
  "getPage1 k os s = andThen (getCachedPage k os s) (\<lambda>(s, page).
     Inr (if page = None then s else s\<lparr>numHits := numHits s + 1\<rparr>, page))"

definition build_new :: "'h cenv \<Rightarrow> 32 word \<Rightarrow> key \<Rightarrow> nat option \<Rightarrow> 64 word \<Rightarrow> byte list \<Rightarrow> 64 word \<Rightarrow> 32 word \<Rightarrow>
    'h cstate \<Rightarrow> ('h cstate \<times> nat option) outcome" where
  "build_new env node k os n m off align s = (case k of (db, ty, st, pid) \<Rightarrow>
     andThen (page_new (raw_page env) m node db ty st pid n off align 0 0) (\<lambda>p.
     case new_page p s of (s, r) \<Rightarrow>
       andThen (lock_eviction_mutex (upd_page r (\<lambda>p. p\<lparr>pinned := True, dirty := True\<rparr>) (stamp r s))) (\<lambda>s.
       andThen (evictionLock s) (\<lambda>s.
       andThen (cachePage (Some r) os s) (\<lambda>s.
       andThen (rw_unlock (upd_page r incRefCount s)) (\<lambda>s.
       andThen (unlock_eviction_mutex s) (\<lambda>s. Inr (s, Some r))))))))"

definition getNewPage :: "'h cenv \<Rightarrow> 32 word \<Rightarrow> key \<Rightarrow> nat option \<Rightarrow> 64 word \<Rightarrow> 'h cstate \<Rightarrow>
    ('h cstate \<times> nat option) outcome" where
  "getNewPage env node k os n s =
     andThen (lock_eviction_mutex s) (\<lambda>s.
     andThen (if strategy s = UnifiedDBMIN then evictForDBMIN env os s else Inr s) (\<lambda>s.
     andThen (unlock_eviction_mutex s) (\<lambda>s.
       if containsPage k s then Inr (s, None)
       else andThen (allocateBlocking env n s) (\<lambda>(s, m, off, align). build_new env node k os n m off align s))))"

definition getNewPageNonBlocking :: "'h cenv \<Rightarrow> 32 word \<Rightarrow> key \<Rightarrow> nat option \<Rightarrow> 64 word \<Rightarrow> 'h cstate \<Rightarrow>
    ('h cstate \<times> nat option) outcome" where
  "getNewPageNonBlocking env node k os n s =
     andThen (with_dbmin env os s) (\<lambda>s.
       if containsPage k s then Inr (s, None)
       else andThen (tryAllocate env n s) (\<lambda>(s, frame). case frame of
           None \<Rightarrow> Inr (s, None)
         | Some (m, off, align) \<Rightarrow> build_new env node k os n m off align s))"

definition decPageRefCount :: "key \<Rightarrow> 'h cstate \<Rightarrow> 'h cstate \<times> bool" where
  "decPageRefCount k s = (case map_of (cache s) k of None \<Rightarrow> (s, False)
     | Some r \<Rightarrow> (upd_page r decRefCount s, True))"

section \<open>Priority lists\<close>

datatype PriorityLevel = TransientLifetimeEnded | PersistentLifetimeEnded | PersistentLifetimeNotEnded
  | TransientLifetimeNotEndedPartialData | TransientLifetimeNotEndedShuffleData
  | TransientLifetimeNotEndedHashData

fun level_no :: "PriorityLevel \<Rightarrow> nat" where
  "level_no TransientLifetimeEnded = 0"
| "level_no PersistentLifetimeEnded = 1"
| "level_no PersistentLifetimeNotEnded = 2"
| "level_no TransientLifetimeNotEndedPartialData = 3"
| "level_no TransientLifetimeNotEndedShuffleData = 4"
| "level_no TransientLifetimeNotEndedHashData = 5"

definition addToPriorityList :: "nat \<Rightarrow> PriorityLevel \<Rightarrow> 'h cstate \<Rightarrow> 'h cstate" where
  "addToPriorityList l lv s = (let i = level_no lv in
     s\<lparr>priorityList := (priorityList s)[i := priorityList s ! i @ [l]]\<rparr>)"

definition removeFromPriorityList :: "nat \<Rightarrow> PriorityLevel \<Rightarrow> 'h cstate \<Rightarrow> 'h cstate" where
  "removeFromPriorityList l lv s = (let i = level_no lv in
     s\<lparr>priorityList := (priorityList s)[i := removeAll l (priorityList s ! i)]\<rparr>)"

definition alive_level :: "locset \<Rightarrow> PriorityLevel" where
  "alive_level x = (if persistenceType x = Transient
     then if localityType x = ShuffleData then TransientLifetimeNotEndedShuffleData
          else if localityType x = HashPartitionData then TransientLifetimeNotEndedHashData
          else TransientLifetimeNotEndedPartialData
     else PersistentLifetimeNotEnded)"

definition ended_level :: "locset \<Rightarrow> PriorityLevel" where
  "ended_level x = (if persistenceType x = Transient then TransientLifetimeEnded else PersistentLifetimeEnded)"

definition cache_pin :: "nat \<Rightarrow> LocalitySetReplacementPolicy \<Rightarrow> OperationType \<Rightarrow> 'h cstate \<Rightarrow> 'h cstate" where
  "cache_pin l policy op s = (let s = upd_set l (ls_pin policy op) s in
     addToPriorityList l (alive_level (sets s l)) s)"

definition cache_unpin :: "nat \<Rightarrow> 'h cstate \<Rightarrow> 'h cstate" where
  "cache_unpin l s = (let s = upd_set l ls_unpin s;
       s = removeFromPriorityList l (alive_level (sets s l)) s in
     addToPriorityList l (ended_level (sets s l)) s)"

section \<open>The flushing thread\<close>

text \<open>
  One round of the loop of \<open>PDBFlushConsumerWork::execute\<close>.  \<open>known\<close> says whether the page's set still
  exists, \<open>stored\<close> whether \<open>appendPage\<close> could write the page (its result is only printed).
\<close>

definition flush_round :: "'h cenv \<Rightarrow> bool \<Rightarrow> bool \<Rightarrow> 'h cstate \<Rightarrow> 'h cstate outcome" where
  "flush_round env known stored s = (case cb_popPageFromHead (flushBuf s) of
     (b, None) \<Rightarrow> Inr (s\<lparr>flushBuf := b\<rparr>)
   | (b, Some r) \<Rightarrow> (let s = s\<lparr>flushBuf := b\<rparr>; k = key_of (pages s r) in
      andThen (flushLock s) (\<lambda>s.
      let s = (case rawBytes (pages s r) of
                 Some m \<Rightarrow> if known \<and> stored then s\<lparr>written := written s @ [(k, m)]\<rparr> else s
               | None \<Rightarrow> s) in
      andThen (if rawBytes (pages s r) \<noteq> None \<and> refCount (pages s r) = 0 \<and> inEviction (pages s r)
               then release_frame env r (getSize (pages s r) + 512) s else Inr s) (\<lambda>s.
      andThen (if refCount (pages s r) = 0 \<and> inEviction (pages s r)
               then andThen (removePage k s) (\<lambda>(s, _). Inr s) else Inr s) (\<lambda>s.
        rw_unlock (upd_page r (\<lambda>p. p\<lparr>inFlush := False, dirty := False\<rparr>) s))))))"

end
