(* ===== verification/PageCacheSafety.thy ===== *)
theory PageCacheSafety
  imports PageCaching
begin

text \<open>
  What the page cache guarantees: its bookkeeping invariant, that no operation takes a referenced page
  away or drops dirty data, what an eviction achieves, and the situations in which the cache does not
  do what it means to.
\<close>

section \<open>The invariant\<close>

definition in_cache :: "'h cstate \<Rightarrow> nat \<Rightarrow> bool" where
  "in_cache s r \<longleftrightarrow> (key_of (pages s r), r) \<in> set (cache s)"

definition frame_bytes :: "'h cstate \<Rightarrow> 64 word" where
  "frame_bytes s = (\<Sum>(k, r)\<leftarrow>cache s. psize (pages s r) + 512)"

text \<open>
  Every page in the cache is filed once, under its own key, and has its frame; the size is that of
  the frames; the pages waiting to be flushed are distinct cached pages marked as being in flush.
\<close>

definition cache_inv :: "'h cstate \<Rightarrow> bool" where
  "cache_inv s \<longleftrightarrow> distinct (map fst (cache s)) \<and>
     (\<forall>(k, r) \<in> set (cache s). key_of (pages s r) = k \<and> rawBytes (pages s r) \<noteq> None \<and> r < nextPage s) \<and>
     csize s = frame_bytes s \<and> cb_ok (flushBuf s) \<and> distinct (cb_contents (flushBuf s)) \<and>
     (\<forall>r \<in> set (cb_contents (flushBuf s)). in_cache s r \<and> inFlush (pages s r))"

text \<open>Pages of database 0 and type 1 or 2 (the temporary sets) are dropped without being written.\<close>

definition temp_page :: "page \<Rightarrow> bool" where
  "temp_page p \<longleftrightarrow> dbID p = 0 \<and> (typeID p = 1 \<or> typeID p = 2)"

definition keeps_pins :: "'h cstate \<Rightarrow> 'h cstate \<Rightarrow> bool" where
  "keeps_pins s s' \<longleftrightarrow> (\<forall>r. in_cache s r \<and> refCount (pages s r) > 0 \<longrightarrow>
     in_cache s' r \<and> rawBytes (pages s' r) = rawBytes (pages s r) \<and>
     offset (pages s' r) = offset (pages s r) \<and> refCount (pages s r) \<le> refCount (pages s' r))"

definition keeps_data :: "'h cstate \<Rightarrow> 'h cstate \<Rightarrow> bool" where
  "keeps_data s s' \<longleftrightarrow> set (written s) \<subseteq> set (written s') \<and>
     (\<forall>r m. in_cache s r \<and> dirty (pages s r) \<and> \<not> temp_page (pages s r) \<and> rawBytes (pages s r) = Some m \<longrightarrow>
        in_cache s' r \<and> dirty (pages s' r) \<and> rawBytes (pages s' r) = Some m \<or>
        (key_of (pages s r), m) \<in> set (written s'))"

definition same_keys :: "'h cstate \<Rightarrow> 'h cstate \<Rightarrow> bool" where
  "same_keys s s' \<longleftrightarrow> nextPage s \<le> nextPage s' \<and>
     (\<forall>r < nextPage s. key_of (pages s' r) = key_of (pages s r))"

definition good :: "'h cstate \<Rightarrow> 'h cstate \<Rightarrow> bool" where
  "good s s' \<longleftrightarrow> (cache_inv s \<longrightarrow> cache_inv s' \<and> same_keys s s' \<and> keeps_pins s s' \<and> keeps_data s s')"

lemma goodI:
  assumes "cache_inv s \<Longrightarrow> cache_inv s'" "cache_inv s \<Longrightarrow> same_keys s s'"
    "cache_inv s \<Longrightarrow> keeps_pins s s'" "cache_inv s \<Longrightarrow> keeps_data s s'"
  shows "good s s'"
  using assms by (simp add: good_def)

lemma temp_page_key: "key_of p = key_of q \<Longrightarrow> temp_page p = temp_page q"
  by (simp add: key_of_def temp_page_def)

lemma good_trans [trans]:
  assumes "good s t" "good t u" shows "good s u"
proof (cases "cache_inv s")
  case True
  then have t: "cache_inv t" "same_keys s t" "keeps_pins s t" "keeps_data s t"
    using assms(1) by (simp_all add: good_def)
  then have u: "cache_inv u" "same_keys t u" "keeps_pins t u" "keeps_data t u"
    using assms(2) by (simp_all add: good_def)
  have pins: "keeps_pins s u"
    unfolding keeps_pins_def
  proof (intro allI impI)
    fix r assume r: "in_cache s r \<and> 0 < refCount (pages s r)"
    with t(3) have a: "in_cache t r" "rawBytes (pages t r) = rawBytes (pages s r)"
      "offset (pages t r) = offset (pages s r)" "refCount (pages s r) \<le> refCount (pages t r)"
      by (auto simp: keeps_pins_def)
    with u(3) r show "in_cache u r \<and> rawBytes (pages u r) = rawBytes (pages s r) \<and>
        offset (pages u r) = offset (pages s r) \<and> refCount (pages s r) \<le> refCount (pages u r)"
      by (force simp: keeps_pins_def)
  qed
  have keys: "same_keys s u"
    using t(2) u(2) by (auto simp: same_keys_def)
  have "keeps_data s u"
    unfolding keeps_data_def
  proof (intro conjI allI impI)
    show "set (written s) \<subseteq> set (written u)" using t(4) u(4) by (auto simp: keeps_data_def)
  next
    fix r m
    assume r: "in_cache s r \<and> dirty (pages s r) \<and> \<not> temp_page (pages s r) \<and> rawBytes (pages s r) = Some m"
    then have "r < nextPage s" using True by (auto simp: cache_inv_def in_cache_def)
    then have key: "key_of (pages t r) = key_of (pages s r)" using t(2) by (simp add: same_keys_def)
    have "in_cache t r \<and> dirty (pages t r) \<and> rawBytes (pages t r) = Some m \<or>
        (key_of (pages s r), m) \<in> set (written t)" using t(4) r by (simp add: keeps_data_def)
    then show "in_cache u r \<and> dirty (pages u r) \<and> rawBytes (pages u r) = Some m \<or>
        (key_of (pages s r), m) \<in> set (written u)"
      using u(4) r temp_page_key [OF key] unfolding keeps_data_def key [symmetric] by blast
  qed
  with u(1) keys pins show ?thesis by (simp add: good_def)
qed (simp add: good_def)

text \<open>A change that touches neither pages nor the cache is good; so is one to a page's pins, its access
  number or its flags, as long as no reference is dropped and nothing dirty becomes clean.\<close>

lemma good_frame:
  assumes "pages s' = pages s" "cache s' = cache s" "csize s' = csize s" "flushBuf s' = flushBuf s"
    "nextPage s' = nextPage s" "written s' = written s"
  shows "good s s'"
  using assms by (auto simp: good_def cache_inv_def in_cache_def frame_bytes_def same_keys_def
      keeps_pins_def keeps_data_def)

definition harmless :: "(page \<Rightarrow> page) \<Rightarrow> page \<Rightarrow> bool" where
  "harmless f p \<longleftrightarrow> key_of (f p) = key_of p \<and> rawBytes (f p) = rawBytes p \<and> offset (f p) = offset p \<and>
     psize (f p) = psize p \<and> (inFlush p \<longrightarrow> inFlush (f p)) \<and> (dirty p \<longrightarrow> dirty (f p)) \<and>
     (refCount p > 0 \<longrightarrow> refCount p \<le> refCount (f p))"

lemma good_upd_page: "harmless f (pages s r) \<Longrightarrow> good s (upd_page r f s)"
proof (rule goodI)
  assume h: "harmless f (pages s r)" and inv: "cache_inv s"
  have same: "in_cache (upd_page r f s) x = in_cache s x" for x
    using h by (simp add: in_cache_def upd_page_def harmless_def)
  have fb: "frame_bytes (upd_page r f s) = frame_bytes s"
    using h by (auto simp: frame_bytes_def upd_page_def harmless_def intro!: arg_cong [of _ _ sum_list])
  show "cache_inv (upd_page r f s)"
    using inv h same fb by (auto simp: cache_inv_def) (auto simp: upd_page_def harmless_def)
  show "same_keys s (upd_page r f s)" "keeps_pins s (upd_page r f s)" "keeps_data s (upd_page r f s)"
    using h same by (auto simp: same_keys_def keeps_pins_def keeps_data_def upd_page_def harmless_def)
qed

lemma good_refl [simp]: "good s s" by (rule good_frame) simp_all

lemma good_upd_set: "good s (upd_set l f s)"
  by (rule good_frame) (simp_all add: upd_set_def)

lemma good_on_set: "good s (on_set os f s)"
  by (cases os) (simp_all add: on_set_def good_upd_set)

lemma good_locks:
  "lock_eviction_mutex s = Inr s' \<Longrightarrow> good s s'" "unlock_eviction_mutex s = Inr s' \<Longrightarrow> good s s'"
  "lock_cache_mutex s = Inr s' \<Longrightarrow> good s s'" "unlock_cache_mutex s = Inr s' \<Longrightarrow> good s s'"
  "evictionLock s = Inr s' \<Longrightarrow> good s s'" "flushLock s = Inr s' \<Longrightarrow> good s s'" "rw_unlock s = Inr s' \<Longrightarrow> good s s'"
  by (rule good_frame; auto simp: lock_eviction_mutex_def unlock_eviction_mutex_def lock_cache_mutex_def
      unlock_cache_mutex_def evictionLock_def flushLock_def rw_unlock_def split: if_splits rwlock.splits)+

section \<open>Inserting, dropping and flushing keep everything\<close>

lemma good_insert:
  assumes "\<not> containsPage (key_of (pages s r)) s" "rawBytes (pages s r) \<noteq> None" "r < nextPage s"
  shows "good s (s\<lparr>cache := cache s @ [(key_of (pages s r), r)], csize := csize s + (psize (pages s r) + 512),
    numCached := n\<rparr>)" (is "good s ?s")
proof (rule goodI)
  assume inv: "cache_inv s"
  have new: "key_of (pages s r) \<notin> fst ` set (cache s)"
    using assms(1) by (simp add: containsPage_def map_of_eq_None_iff)
  have mono: "in_cache s x \<Longrightarrow> in_cache ?s x" for x by (simp add: in_cache_def)
  show "cache_inv ?s"
    using inv new assms mono by (auto simp: cache_inv_def frame_bytes_def)
  show "same_keys s ?s" "keeps_pins s ?s" "keeps_data s ?s"
    using mono by (auto simp: same_keys_def keeps_pins_def keeps_data_def)
qed

lemma cache_invD:
  assumes "cache_inv s" "(k, r) \<in> set (cache s)"
  shows "key_of (pages s r) = k" "rawBytes (pages s r) \<noteq> None" "r < nextPage s" "map_of (cache s) k = Some r"
  using assms by (auto simp: cache_inv_def)

lemma map_of_in_cache: "cache_inv s \<Longrightarrow> map_of (cache s) k = Some r \<longleftrightarrow> in_cache s r \<and> key_of (pages s r) = k"
  by (auto simp: cache_inv_def in_cache_def)

lemma sum_list_filter_key:
  fixes f :: "'k \<times> 'v \<Rightarrow> 'a :: ab_group_add"
  assumes "distinct (map fst xs)" "map_of xs k = Some r"
  shows "sum_list (map f (filter (\<lambda>(k', _). k' \<noteq> k) xs)) = sum_list (map f xs) - f (k, r)"
  using assms
proof (induction xs)
  case (Cons x xs)
  show ?case
  proof (cases "fst x = k")
    case True
    then have "filter (\<lambda>(k', _). k' \<noteq> k) xs = xs"
      using Cons.prems(1) by (auto simp: filter_id_conv rev_image_eqI)
    with True Cons.prems show ?thesis by (cases x) simp
  next
    case False
    with Cons show ?thesis by (cases x) (simp add: algebra_simps)
  qed
qed simp

text \<open>\<open>dropped k r s s'\<close>: page \<open>r\<close> has left the cache and the flush buffer, its frame may be gone.\<close>

definition dropped :: "key \<Rightarrow> nat \<Rightarrow> 'h cstate \<Rightarrow> 'h cstate \<Rightarrow> bool" where
  "dropped k r s s' \<longleftrightarrow> cache s' = filter (\<lambda>(k', _). k' \<noteq> k) (cache s) \<and>
     csize s' = csize s - (psize (pages s r) + 512) \<and> nextPage s' = nextPage s \<and>
     (\<forall>x. x \<noteq> r \<longrightarrow> pages s' x = pages s x) \<and> key_of (pages s' r) = key_of (pages s r) \<and>
     cb_ok (flushBuf s') \<and> distinct (cb_contents (flushBuf s')) \<and>
     set (cb_contents (flushBuf s')) \<subseteq> set (cb_contents (flushBuf s)) - {r} \<and>
     set (written s) \<subseteq> set (written s')"

lemma good_dropped:
  assumes dr: "dropped k r s s'" and at: "map_of (cache s) k = Some r"
    and free: "refCount (pages s r) \<le> 0"
    and data: "\<And>m. dirty (pages s r) \<Longrightarrow> \<not> temp_page (pages s r) \<Longrightarrow> rawBytes (pages s r) = Some m \<Longrightarrow>
      (k, m) \<in> set (written s')"
  shows "good s s'"
proof (rule goodI)
  assume inv: "cache_inv s"
  have key: "key_of (pages s r) = k" using at inv by (simp add: map_of_in_cache)
  have pg: "x \<noteq> r \<Longrightarrow> pages s' x = pages s x" for x using dr by (simp add: dropped_def)
  have only: "(k', x) \<in> set (cache s) \<Longrightarrow> k' \<noteq> k \<Longrightarrow> x \<noteq> r" for k' x
    using inv key by (auto simp: cache_inv_def)
  have inc: "in_cache s' x \<longleftrightarrow> in_cache s x \<and> x \<noteq> r" for x
  proof (cases "x = r")
    case True
    have "key_of (pages s' r) = k" using dr key by (simp add: dropped_def)
    with True dr show ?thesis by (auto simp: in_cache_def dropped_def)
  next
    case False
    then have "key_of (pages s x) \<noteq> k" if "(key_of (pages s x), x) \<in> set (cache s)"
      using cache_invD(4) [OF inv that] at False by auto
    with False dr pg show ?thesis by (auto simp: in_cache_def dropped_def)
  qed
  have "frame_bytes s' = (\<Sum>(k, r)\<leftarrow>cache s'. psize (pages s r) + 512)"
    unfolding frame_bytes_def using dr only pg
    by (intro arg_cong [of _ _ sum_list] map_cong) (auto simp: dropped_def)
  also have "\<dots> = frame_bytes s - (psize (pages s r) + 512)"
    using sum_list_filter_key [of "cache s" k r "\<lambda>(k, r). psize (pages s r) + 512"] inv at dr
    by (simp add: frame_bytes_def dropped_def cache_inv_def)
  finally have fb: "csize s' = frame_bytes s'" using inv dr by (simp add: cache_inv_def dropped_def)
  show "cache_inv s'"
    unfolding cache_inv_def
  proof (intro conjI ballI)
    show "distinct (map fst (cache s'))"
      using inv dr by (simp add: cache_inv_def dropped_def distinct_map_filter)
    show "case kr of (k', x) \<Rightarrow> key_of (pages s' x) = k' \<and> rawBytes (pages s' x) \<noteq> None \<and> x < nextPage s'"
      if "kr \<in> set (cache s')" for kr
      using that inv dr only pg by (auto simp: cache_inv_def dropped_def)
    show "csize s' = frame_bytes s'" by (rule fb)
    show "cb_ok (flushBuf s')" "distinct (cb_contents (flushBuf s'))" using dr by (simp_all add: dropped_def)
    fix x assume "x \<in> set (cb_contents (flushBuf s'))"
    then have "x \<in> set (cb_contents (flushBuf s))" "x \<noteq> r" using dr by (auto simp: dropped_def)
    then show "in_cache s' x" "inFlush (pages s' x)" using inv inc pg by (auto simp: cache_inv_def)
  qed
  show "same_keys s s'" using dr pg by (auto simp: same_keys_def dropped_def) metis
  show "keeps_pins s s'"
    unfolding keeps_pins_def
  proof (intro allI impI)
    fix x assume x: "in_cache s x \<and> 0 < refCount (pages s x)"
    then have "x \<noteq> r" using free by auto
    with x inc pg show "in_cache s' x \<and> rawBytes (pages s' x) = rawBytes (pages s x) \<and>
      offset (pages s' x) = offset (pages s x) \<and> refCount (pages s x) \<le> refCount (pages s' x)" by simp
  qed
  show "keeps_data s s'"
    unfolding keeps_data_def
  proof (intro conjI allI impI)
    show "set (written s) \<subseteq> set (written s')" using dr by (simp add: dropped_def)
    fix x m assume x: "in_cache s x \<and> dirty (pages s x) \<and> \<not> temp_page (pages s x) \<and> rawBytes (pages s x) = Some m"
    show "in_cache s' x \<and> dirty (pages s' x) \<and> rawBytes (pages s' x) = Some m \<or>
        (key_of (pages s x), m) \<in> set (written s')"
    proof (cases "x = r")
      case True
      then show ?thesis using x data key by auto
    next
      case False
      then show ?thesis using x inc pg by simp
    qed
  qed
qed

lemma good_flushed:
  assumes "cache s' = cache s" "csize s' = csize s" "nextPage s' = nextPage s"
    and pg: "\<And>x. x \<noteq> r \<Longrightarrow> pages s' x = pages s x"
    and r: "pages s' r = (pages s r)\<lparr>inFlush := False, dirty := False\<rparr>"
    and q: "cb_ok (flushBuf s')" "cb_contents (flushBuf s) = r # cb_contents (flushBuf s')"
    and w: "set (written s) \<subseteq> set (written s')"
      "\<And>m. rawBytes (pages s r) = Some m \<Longrightarrow> (key_of (pages s r), m) \<in> set (written s')"
  shows "good s s'"
proof (rule goodI)
  assume inv: "cache_inv s"
  have all: "pages s' x = (if x = r then (pages s r)\<lparr>inFlush := False, dirty := False\<rparr> else pages s x)" for x
    using pg r by simp
  have keys: "key_of (pages s' x) = key_of (pages s x)" "rawBytes (pages s' x) = rawBytes (pages s x)"
    "psize (pages s' x) = psize (pages s x)" "offset (pages s' x) = offset (pages s x)"
    "refCount (pages s' x) = refCount (pages s x)" for x
    by (simp_all add: all key_of_def)
  have inc: "in_cache s' x = in_cache s x" for x using assms(1) keys by (simp add: in_cache_def)
  have fl: "x \<noteq> r \<Longrightarrow> inFlush (pages s' x) = inFlush (pages s x)" for x by (simp add: pg)
  have fb: "frame_bytes s' = frame_bytes s" by (simp add: frame_bytes_def assms(1) keys)
  have queue: "distinct (r # cb_contents (flushBuf s'))"
    "\<forall>x \<in> set (r # cb_contents (flushBuf s')). in_cache s x \<and> inFlush (pages s x)"
    using inv unfolding cache_inv_def q(2) by blast+
  show "cache_inv s'"
    unfolding cache_inv_def
  proof (intro conjI)
    show "distinct (map fst (cache s'))" using inv assms(1) by (simp add: cache_inv_def)
    show "\<forall>(k, r)\<in>set (cache s'). key_of (pages s' r) = k \<and> rawBytes (pages s' r) \<noteq> None \<and> r < nextPage s'"
      using inv by (simp add: cache_inv_def assms(1,3) keys)
    show "csize s' = frame_bytes s'" using inv fb assms(2) by (simp add: cache_inv_def)
    show "cb_ok (flushBuf s')" by (rule q(1))
    show "distinct (cb_contents (flushBuf s'))" using queue(1) by simp
    show "\<forall>r\<in>set (cb_contents (flushBuf s')). in_cache s' r \<and> inFlush (pages s' r)"
    proof
      fix x assume x: "x \<in> set (cb_contents (flushBuf s'))"
      then have "x \<noteq> r" using queue(1) by auto
      then show "in_cache s' x \<and> inFlush (pages s' x)" using queue(2) x inc fl [of x] by simp
    qed
  qed
  show "same_keys s s'" "keeps_pins s s'"
    using keys inc assms(3) by (auto simp: same_keys_def keeps_pins_def)
  show "keeps_data s s'"
    unfolding keeps_data_def
  proof (intro conjI allI impI w(1))
    fix x m assume x: "in_cache s x \<and> dirty (pages s x) \<and> \<not> temp_page (pages s x) \<and> rawBytes (pages s x) = Some m"
    show "in_cache s' x \<and> dirty (pages s' x) \<and> rawBytes (pages s' x) = Some m \<or>
        (key_of (pages s x), m) \<in> set (written s')"
      using x w(2) inc all by auto
  qed
qed

section \<open>The operations\<close>

lemma good_andThen:
  assumes "andThen m f = Inr y" and "\<And>x. m = Inr x \<Longrightarrow> good s x" and "\<And>x. m = Inr x \<Longrightarrow> f x = Inr y \<Longrightarrow> good x t"
  shows "good s t"
  using assms by (auto simp: andThen_Inr_iff intro: good_trans)

lemma good_cachePage:
  assumes "cachePage (Some r) os s = Inr s'" "rawBytes (pages s r) \<noteq> None" "r < nextPage s"
  shows "good s s'"
proof -
  let ?k = "key_of (pages s r)"
  define s1 where "s1 = s\<lparr>cacheMutex := True\<rparr>"
  define s2 where "s2 = (if containsPage ?k s1 then s1
     else on_set (if strategy s1 = UnifiedDBMIN then os else None) (\<lambda>l. l\<lparr>numCachedPages := numCachedPages l + 1\<rparr>)
       (s1\<lparr>cache := cache s1 @ [(?k, r)], csize := csize s1 + (psize (pages s1 r) + 512),
           numCached := numCached s1 + 1\<rparr>))"
  have fin: "unlock_cache_mutex (on_set os (addCachedPage r) s2) = Inr s'" and "\<not> cacheMutex s"
    using assms(1) by (auto simp: cachePage_def lock_cache_mutex_def s1_def s2_def Let_def split: if_splits)
  have "good s s1" by (rule good_frame) (simp_all add: s1_def)
  also have "good s1 s2"
  proof (cases "containsPage ?k s1")
    case False
    have "good s1 (s1\<lparr>cache := cache s1 @ [(key_of (pages s1 r), r)],
        csize := csize s1 + (psize (pages s1 r) + 512), numCached := numCached s1 + 1\<rparr>)"
      by (rule good_insert) (use False assms(2,3) in \<open>simp_all add: s1_def\<close>)
    also have "good \<dots> s2" unfolding s2_def using False by (simp add: s1_def good_on_set)
    finally show ?thesis .
  qed (simp add: s2_def)
  also have "good s2 (on_set os (addCachedPage r) s2)" by (rule good_on_set)
  also have "good \<dots> s'" using fin by (rule good_locks(4))
  finally show ?thesis .
qed

lemma queue_members: "cache_inv s \<Longrightarrow> r \<in> set (cb_contents (flushBuf s)) \<Longrightarrow> inFlush (pages s r)"
  by (simp add: cache_inv_def)

lemma good_enqueue:
  assumes "enqueue_flush r (upd_page r f s) = Inr s'" and inc: "cache_inv s \<Longrightarrow> in_cache s r"
    and h: "harmless f (pages s r)" and fl: "\<not> inFlush (pages s r)" "inFlush (f (pages s r))"
  shows "good s s'"
proof (rule goodI)
  assume inv: "cache_inv s"
  let ?t = "upd_page r f s"
  have t: "good s ?t" using h by (rule good_upd_page)
  then have tinv: "cache_inv ?t" using inv by (simp add: good_def)
  have notin: "r \<notin> set (cb_contents (flushBuf s))" using queue_members [OF inv] fl(1) by blast
  obtain b where b: "cb_addPageToTail r (flushBuf s) = Some b" and s': "s' = ?t\<lparr>flushBuf := b\<rparr>"
    using assms(1) by (auto simp: enqueue_flush_def upd_page_def split: option.splits)
  have "length (cb_contents (flushBuf s)) < cb_capacity (flushBuf s)"
    using ring.add_full [of "flushBuf s" r] b inv by (force simp: cache_inv_def)
  then have q: "cb_ok b" "cb_contents b = cb_contents (flushBuf s) @ [r]"
    using cb_add_room [of "flushBuf s" r] b inv by (auto simp: cache_inv_def)
  have inct: "in_cache ?t x = in_cache s x" for x
    using h by (simp add: in_cache_def upd_page_def harmless_def)
  have inct': "in_cache s' x = in_cache ?t x" for x by (simp add: s' in_cache_def)
  have fb: "flushBuf ?t = flushBuf s" by (simp add: upd_page_def)
  show "cache_inv s'"
    unfolding cache_inv_def
  proof (intro conjI ballI)
    show "distinct (map fst (cache s'))" "csize s' = frame_bytes s'"
      using tinv by (simp_all add: s' cache_inv_def frame_bytes_def)
    show "case kr of (k, x) \<Rightarrow> key_of (pages s' x) = k \<and> rawBytes (pages s' x) \<noteq> None \<and> x < nextPage s'"
      if "kr \<in> set (cache s')" for kr
      using tinv that by (auto simp: s' cache_inv_def)
    show "cb_ok (flushBuf s')" using q by (simp add: s')
    show "distinct (cb_contents (flushBuf s'))"
      using q notin inv by (simp add: s' cache_inv_def)
    fix x assume "x \<in> set (cb_contents (flushBuf s'))"
    then have "x = r \<or> x \<in> set (cb_contents (flushBuf ?t))" using q fb by (auto simp: s')
    then show "in_cache s' x" "inFlush (pages s' x)"
      using inc [OF inv] inct inct' fl(2) tinv by (auto simp: s' cache_inv_def) (simp_all add: upd_page_def)
  qed
  have eq: "pages s' = pages ?t" "cache s' = cache ?t" "nextPage s' = nextPage ?t" "written s' = written ?t"
    by (simp_all add: s')
  show "same_keys s s'" "keeps_pins s s'" "keeps_data s s'"
    using t inv eq by (auto simp: good_def same_keys_def keeps_pins_def keeps_data_def in_cache_def)
qed

text \<open>Releasing the frame of a cached page and taking it out of the cache, the two steps in which the
  invariant does not hold in between.\<close>

lemma release_remove:
  assumes "release_frame env r n s = Inr t" "removePage k t = Inr (s', b)" "map_of (cache s) k = Some r"
  shows "dropped k r s s' \<longleftrightarrow> cb_ok (flushBuf s) \<and> distinct (cb_contents (flushBuf s)) \<and>
      r \<notin> set (cb_contents (flushBuf s))"
    and "written s' = written s" "evictionAndFlushLock s' = evictionAndFlushLock s"
    "pages s' = (pages s)(r := (pages s r)\<lparr>offset := 0, rawBytes := None\<rparr>)"
    "flushBuf s' = flushBuf s" "nextPage s' = nextPage s" "b"
    "cache s' = filter (\<lambda>(k', _). k' \<noteq> k) (cache s)" "csize s' = csize s - (psize (pages s r) + 512)"
proof -
  have t: "t = upd_page r (\<lambda>p. p\<lparr>offset := 0, rawBytes := None\<rparr>)
      (s\<lparr>shm := shm_free env (offset (pages s r) - scast (internalOffset (pages s r))) n (shm s)\<rparr>)"
    using assms(1) by (auto simp: release_frame_def split: option.splits)
  have s': "s' = erase_page k r (t\<lparr>cacheMutex := True\<rparr>)\<lparr>cacheMutex := False\<rparr>" and b: "b"
    using assms(2,3) by (auto simp: removePage_def lock_cache_mutex_def unlock_cache_mutex_def t upd_page_def
        erase_page_def split: if_splits)
  show "written s' = written s" "evictionAndFlushLock s' = evictionAndFlushLock s"
    "pages s' = (pages s)(r := (pages s r)\<lparr>offset := 0, rawBytes := None\<rparr>)"
    "flushBuf s' = flushBuf s" "nextPage s' = nextPage s" "b"
    "cache s' = filter (\<lambda>(k', _). k' \<noteq> k) (cache s)" "csize s' = csize s - (psize (pages s r) + 512)"
    using b by (simp_all add: s' t erase_page_def upd_page_def)
  show "dropped k r s s' \<longleftrightarrow> cb_ok (flushBuf s) \<and> distinct (cb_contents (flushBuf s)) \<and>
      r \<notin> set (cb_contents (flushBuf s))"
    by (auto simp: dropped_def s' t erase_page_def upd_page_def key_of_def)
qed

lemma good_evictPage:
  assumes ev: "evictPage env k True s = Inr (s', b)" shows "good s s'"
proof (cases "map_of (cache s) k")
  case None
  then show ?thesis using ev by (auto simp: evictPage_def)
next
  case (Some r)
  show ?thesis
  proof (cases "refCount (pages s r) > 0")
    case True
    then show ?thesis using ev Some by (auto simp: evictPage_def)
  next
    case idle: False
    define u where "u = upd_page r (\<lambda>p. p\<lparr>pinned := False\<rparr>) s"
    have su: "good s u" unfolding u_def by (rule good_upd_page) (simp add: harmless_def key_of_def)
    have ru: "pages u r = (pages s r)\<lparr>pinned := False\<rparr>" "cache u = cache s" by (simp_all add: u_def upd_page_def)
    obtain t where t: "(if must_flush True (pages u r)
          then enqueue_flush r (upd_page r (\<lambda>p. p\<lparr>inFlush := True, inEviction := True\<rparr>) u)
          else if inFlush (pages u r)
          then Inr (upd_page r (\<lambda>p. p\<lparr>inEviction := True\<rparr>) u)
          else andThen (flushLock u) (\<lambda>s. andThen (release_frame env r (psize (pages s r) + 512) s) (\<lambda>s.
               andThen (removePage k s) (\<lambda>(s, _). rw_unlock s)))) = Inr t"
      and s': "s' = t\<lparr>numEvicted := numEvicted t + 1\<rparr>"
      using ev Some idle unfolding evictPage_def u_def Let_def
      by (simp add: andThen_Inr_iff del: split_paired_Ex split: if_split_asm) blast+
    have "good t s'" by (rule good_frame) (simp_all add: s')
    moreover have "good u t"
    proof (cases "must_flush True (pages u r)")
      case True
      have inc: "cache_inv u \<Longrightarrow> in_cache u r" using Some ru map_of_in_cache [of u k r] by simp
      show ?thesis
        by (rule good_enqueue [OF t [unfolded if_P [OF True]]])
          (use True inc in \<open>auto simp: harmless_def must_flush_def key_of_def\<close>)
    next
      case nf: False
      show ?thesis
      proof (cases "inFlush (pages u r)")
        case True
        then have "t = upd_page r (\<lambda>p. p\<lparr>inEviction := True\<rparr>) u" using t nf by simp
        then show ?thesis by (simp add: good_upd_page harmless_def key_of_def)
      next
        case False
        then obtain v w x c where v: "flushLock u = Inr v" and w: "release_frame env r (psize (pages v r) + 512) v = Inr w"
          and x: "removePage k w = Inr (x, c)" and xt: "rw_unlock x = Inr t"
          using t nf by (auto simp: andThen_Inr_iff)
        have vu: "pages v = pages u" "cache v = cache u" "flushBuf v = flushBuf u"
          using v by (auto simp: flushLock_def split: rwlock.splits)
        have "good v x"
        proof (cases "cache_inv v")
          case inv: True
          have at: "map_of (cache v) k = Some r" using Some ru vu by simp
          have "r \<notin> set (cb_contents (flushBuf v))" using queue_members [OF inv] False vu by auto
          then have "dropped k r v x"
            using release_remove(1) [OF w x at] inv by (simp add: cache_inv_def)
          then show ?thesis
            by (rule good_dropped [OF _ at])
              (use idle nf False ru vu in \<open>auto simp: must_flush_def temp_page_def\<close>)
        qed (simp add: good_def)
        then show ?thesis using good_locks(6) [OF v] good_locks(7) [OF xt] by (blast intro: good_trans)
      qed
    qed
    ultimately show ?thesis using su by (blast intro: good_trans)
  qed
qed

named_theorems good_ops \<open>each operation is good\<close>

lemmas [good_ops] = good_locks good_evictPage

lemma good_evictPage_of_set [good_ops]:
  assumes "evictPage_of_set env r os s = Inr (s', b)" shows "good s s'"
proof -
  obtain t c where t: "evictPage env (key_of (pages s r)) True s = Inr (t, c)"
    and rest: "(if c then let s = on_set os (removeCachedPage r) t in
         Inr (on_set (if strategy s = UnifiedDBMIN then os else None)
                (\<lambda>l. l\<lparr>numCachedPages := numCachedPages l - 1\<rparr>) s, c)
       else Inr (t, c)) = (Inr (s', b) :: ('a cstate \<times> bool) outcome)"
    using assms unfolding evictPage_of_set_def by (auto simp: andThen_Inr_iff)
  have "good t s'"
    using rest by (auto simp: Let_def split: if_splits intro: good_trans [OF good_on_set good_on_set])
  then show ?thesis using good_evictPage [OF t] by (rule good_trans [rotated])
qed

lemma good_dbmin_loop [good_ops]: "dbmin_loop n env l s = Inr s' \<Longrightarrow> good s s'"
proof (induction n arbitrary: s)
  case (Suc n)
  then show ?case
    by (auto simp: andThen_Inr_iff split: if_splits option.splits
        intro: good_trans dest!: good_locks(5,7) good_evictPage_of_set; blast intro: good_trans)
qed simp

lemma good_evictForDBMIN [good_ops]: "evictForDBMIN env os s = Inr s' \<Longrightarrow> good s s'"
  by (auto simp: evictForDBMIN_def andThen_Inr_iff simp del: dbmin_loop.simps split: option.splits
      dest!: good_locks(5,7) good_dbmin_loop) (blast intro: good_trans)

lemma good_evict_pages [good_ops]: "evict_pages env os rs s = Inr (s', n) \<Longrightarrow> good s s'"
proof (induction rs arbitrary: s n)
  case (Cons r rs)
  then show ?case
    by (auto simp: andThen_Inr_iff dest!: good_evictPage_of_set) (blast intro: good_trans)+
qed simp

lemma good_evict_from_set [good_ops]: "evict_from_set env l s = Inr (s', n) \<Longrightarrow> good s s'"
  by (auto simp: evict_from_set_def andThen_Inr_iff split: option.splits
      dest!: good_locks(5,7) good_evict_pages) (blast intro: good_trans)

lemma good_evict_sets [good_ops]: "evict_sets env ls s = Inr s' \<Longrightarrow> good s s'"
proof (induction ls arbitrary: s)
  case (Cons l ls)
  then show ?case
    by (auto simp: andThen_Inr_iff dest!: good_evict_from_set split: if_splits) (blast intro: good_trans)
qed simp

lemma good_evict_intelligent [good_ops]: "evict_intelligent env s = Inr s' \<Longrightarrow> good s s'"
  by (auto simp: evict_intelligent_def andThen_Inr_iff dest!: good_locks(5,7) good_evict_sets)
    (blast intro: good_trans)

lemma good_push_level: "push_level i ls (s, q) = (s', q') \<Longrightarrow> good s s'"
proof (induction ls arbitrary: s q)
  case (Cons l ls)
  then show ?case by (auto split: if_splits intro: good_trans [OF good_upd_set])
qed simp

lemma good_fold_levels: "fold (\<lambda>i. push_level i (f i)) is (s, q0) = (s', q) \<Longrightarrow> good s s'"
proof (induction "is" arbitrary: s q0)
  case (Cons i "is")
  obtain t q1 where "push_level i (f i) (s, q0) = (t, q1)" by fastforce
  with Cons show ?case by (auto dest!: good_push_level intro: good_trans)
qed simp

lemma good_push_all: "push_all s = (s', q) \<Longrightarrow> good s s'"
  unfolding push_all_def by (rule good_fold_levels)

lemma good_evict_cheapest [good_ops]: "evict_cheapest n env q s = Inr s' \<Longrightarrow> good s s'"
proof (induction n arbitrary: q s)
  case (Suc n)
  show ?case
  proof (cases q)
    case (Cons x xs)
    define l where "l = cheapest (evict_cost s) x xs"
    obtain t k where t: "evict_from_set env l s = Inr (t, k)"
      and rest: "(if k > 0 then Inr t else evict_cheapest n env (remove1 l q) t) = Inr s'"
      using Suc.prems Cons unfolding l_def by (auto simp: andThen_Inr_iff Let_def simp del: remove1.simps)
    have "good t s'" using rest Suc.IH by (cases "k > 0") auto
    with good_evict_from_set [OF t] show ?thesis by (rule good_trans)
  qed (use Suc.prems in simp)
qed simp

lemma good_evict_by_cost [good_ops]:
  assumes "evict_by_cost env s = Inr s'" shows "good s s'"
proof -
  obtain t where t: "evictionLock s = Inr t"
    and "(case push_all t of (s, q) \<Rightarrow> andThen (evict_cheapest (length q) env q s) rw_unlock) = Inr s'"
    using assms by (auto simp: evict_by_cost_def andThen_Inr_iff)
  then obtain u q v where "push_all t = (u, q)" "evict_cheapest (length q) env q u = Inr v" "rw_unlock v = Inr s'"
    by (auto simp: andThen_Inr_iff split: prod.splits)
  then show ?thesis using t
    by (blast intro: good_trans good_locks(5,7) good_push_all good_evict_cheapest)
qed

lemma good_evict_queue [good_ops]: "evict_queue env rs s = Inr s' \<Longrightarrow> good s s'"
proof (induction rs arbitrary: s)
  case (Cons r rs)
  then show ?case
    by (auto simp: andThen_Inr_iff dest!: good_evictPage_of_set split: if_splits) (blast intro: good_trans)
qed simp

lemma good_evict_mru [good_ops]: "evict_mru env s = Inr s' \<Longrightarrow> good s s'"
  by (auto simp: evict_mru_def andThen_Inr_iff Let_def dest!: good_locks(5,7) good_evict_queue)
    (blast intro: good_trans)

lemma good_set_evicting: "good s (s\<lparr>evicting := b\<rparr>)" "good (s\<lparr>evicting := b\<rparr>) s"
  by (rule good_frame; simp)+

lemma good_evict [good_ops]:
  assumes "evict env s = Inr s'" shows "good s s'"
proof (cases "evicting s")
  case False
  then obtain t where t: "lock_eviction_mutex s = Inr t" and
    u: "(let s = t\<lparr>evicting := True\<rparr> in
        if strategy s = UnifiedDBMIN then Inr s
        else andThen (if strategy s = UnifiedCost then evict_by_cost env s
                      else if strategy s = UnifiedIntelligent then evict_intelligent env s
                      else evict_mru env s)
               (\<lambda>s. unlock_eviction_mutex (s\<lparr>evicting := False\<rparr>))) = Inr s'"
    using assms by (auto simp: evict_def andThen_Inr_iff)
  have "good (t\<lparr>evicting := True\<rparr>) s'"
  proof (cases "strategy t = UnifiedDBMIN")
    case nd: False
    then obtain v where "good (t\<lparr>evicting := True\<rparr>) v" "unlock_eviction_mutex (v\<lparr>evicting := False\<rparr>) = Inr s'"
      using u by (auto simp: andThen_Inr_iff Let_def split: if_splits dest: good_evict_by_cost
          good_evict_intelligent good_evict_mru)
    then show ?thesis by (blast intro: good_trans good_set_evicting good_locks(2))
  qed (use u in simp)
  then show ?thesis using t by (blast intro: good_trans good_set_evicting good_locks(1))
qed (use assms in \<open>simp add: evict_def\<close>)

lemma good_evictAllDirtyPages [good_ops]:
  assumes "evictAllDirtyPages env s = Inr (s', n)" shows "good s s'"
proof (cases "evicting s")
  case False
  then obtain t where t: "lock_eviction_mutex s = Inr t"
    and r: "andThen (evictionLock (t\<lparr>evicting := True\<rparr>)) (\<lambda>s.
        let q = filter (\<lambda>r. dirty (pages s r) \<and> \<not> inFlush (pages s r) \<and> (False \<or> refCount (pages s r) = 0))
                  (map snd (cache s)); s = (if False then fold (\<lambda>r. upd_page r zero_ref) q s else s)
          in andThen (rw_unlock s) (\<lambda>s. andThen (evict_pages env None q s) (\<lambda>(s, n).
             andThen (unlock_eviction_mutex (s\<lparr>evicting := False\<rparr>)) (\<lambda>s. Inr (s, n))))) = Inr (s', n)"
    using assms unfolding evictAllDirtyPages_def evict_all_with_def by (auto simp: andThen_Inr_iff Let_def)
  from r obtain u where u: "evictionLock (t\<lparr>evicting := True\<rparr>) = Inr u"
    and r2: "andThen (rw_unlock u) (\<lambda>s. andThen (evict_pages env None
        (filter (\<lambda>r. dirty (pages u r) \<and> \<not> inFlush (pages u r) \<and> refCount (pages u r) = 0) (map snd (cache u))) s)
        (\<lambda>(s, n). andThen (unlock_eviction_mutex (s\<lparr>evicting := False\<rparr>)) (\<lambda>s. Inr (s, n)))) = Inr (s', n)"
    by (auto simp: andThen_Inr_iff [of "evictionLock _"] Let_def)
  from r2 obtain v q w m where v: "rw_unlock u = Inr v" and w: "evict_pages env None q v = Inr (w, m)"
    and x: "unlock_eviction_mutex (w\<lparr>evicting := False\<rparr>) = Inr s'"
    by (auto simp: andThen_Inr_iff)
  have "good s t" by (rule good_locks(1) [OF t])
  also have "good t (t\<lparr>evicting := True\<rparr>)" by (rule good_set_evicting)
  also have "good \<dots> u" by (rule good_locks(5) [OF u])
  also have "good u v" by (rule good_locks(7) [OF v])
  also have "good v w" by (rule good_evict_pages [OF w])
  also have "good w (w\<lparr>evicting := False\<rparr>)" by (rule good_set_evicting)
  also have "good \<dots> s'" by (rule good_locks(2) [OF x])
  finally show ?thesis .
qed (use assms in \<open>simp add: evictAllDirtyPages_def evict_all_with_def\<close>)

subsection \<open>Getting pages\<close>

lemma good_shm: "good s (s\<lparr>shm := h\<rparr>)"
  by (rule good_frame) simp_all

lemma good_allocate: "allocate n env k s = Inr (s', x) \<Longrightarrow> good s s'"
proof (induction n arbitrary: s)
  case (Suc n)
  obtain h fr where h: "shm_malloc env (shm s) k = (h, fr)" by fastforce
  show ?case
  proof (cases fr)
    case (Some y)
    then show ?thesis using Suc.prems h by (cases y) (auto simp: good_shm)
  next
    case None
    then obtain t where t: "(if evicting s then Inr (s\<lparr>shm := h\<rparr>) else evict env (s\<lparr>shm := h\<rparr>)) = Inr t"
      "allocate n env k t = Inr (s', x)" using Suc.prems h by (auto simp: andThen_Inr_iff)
    have "good s (s\<lparr>shm := h\<rparr>)" by (rule good_shm)
    also have "good \<dots> t" using t(1) by (auto split: if_splits intro: good_evict)
    also have "good t s'" by (rule Suc.IH [OF t(2)])
    finally show ?thesis .
  qed
qed simp

lemma good_allocateBlocking: "allocateBlocking env n s = Inr (s', x) \<Longrightarrow> good s s'"
  by (auto simp: allocateBlocking_def andThen_Inr_iff intro: good_allocate)

lemma good_tryAllocate:
  assumes "tryAllocate env n s = Inr (s', x)" shows "good s s'"
proof -
  obtain h fr where h: "shm_malloc env (shm s) n = (h, fr)" by fastforce
  show ?thesis
  proof (cases fr)
    case (Some y)
    then show ?thesis using assms h by (cases y) (auto simp: tryAllocate_def Let_def good_shm)
  next
    case None
    then obtain t where t: "evict env (s\<lparr>shm := h\<rparr>) = Inr t" and
      r: "(case shm_malloc env (shm t) n of
          (h, Some (off, align)) \<Rightarrow> Inr (t\<lparr>shm := h\<rparr>, Some (map (garbage env off) [0..<unat n], off, align))
        | (h, None) \<Rightarrow> Inr (t\<lparr>shm := h\<rparr>, None)) =
          (Inr (s', x) :: ('a cstate \<times> (byte list \<times> 64 word \<times> 32 word) option) outcome)"
      using assms h by (auto simp: tryAllocate_def Let_def andThen_Inr_iff)
    have "\<exists>h'. s' = t\<lparr>shm := h'\<rparr>" using r by (auto split: prod.splits option.splits)
    then show ?thesis using good_trans [OF good_shm good_trans [OF good_evict [OF t] good_shm]] by auto
  qed
qed

lemma good_new_page:
  "new_page p s = (s', r) \<Longrightarrow> good s s' \<and> r = nextPage s \<and> pages s' r = p \<and> nextPage s' = Suc r"
proof (intro conjI)
  assume n: "new_page p s = (s', r)"
  then have s': "s' = s\<lparr>pages := (pages s)(nextPage s := p), nextPage := nextPage s + 1\<rparr>" "r = nextPage s"
    by (auto simp: new_page_def)
  show "r = nextPage s" "pages s' r = p" "nextPage s' = Suc r" by (simp_all add: s')
  show "good s s'"
  proof (rule goodI)
    assume inv: "cache_inv s"
    have old: "x < nextPage s \<Longrightarrow> pages s' x = pages s x" for x by (simp add: s')
    have cached: "(k, x) \<in> set (cache s) \<Longrightarrow> x < nextPage s" for k x using cache_invD(3) [OF inv] .
    have inc: "x < nextPage s \<Longrightarrow> in_cache s' x = in_cache s x" for x using old by (simp add: in_cache_def s')
    have lt: "in_cache s x \<Longrightarrow> x < nextPage s" for x using cached by (auto simp: in_cache_def)
    have "cache s' = cache s" by (simp add: s')
    then have "frame_bytes s' = frame_bytes s"
      unfolding frame_bytes_def using old cached
      by (intro arg_cong [of _ _ sum_list] map_cong) auto
    moreover have eq: "cache s' = cache s" "csize s' = csize s" "flushBuf s' = flushBuf s"
      "nextPage s \<le> nextPage s'" by (simp_all add: s')
    moreover have "key_of (pages s' x) = k \<and> rawBytes (pages s' x) \<noteq> None \<and> x < nextPage s'"
      if "(k, x) \<in> set (cache s)" for k x
      using cache_invD [OF inv that] old eq(4) by auto
    moreover have "in_cache s' x \<and> inFlush (pages s' x)" if "x \<in> set (cb_contents (flushBuf s))" for x
      using inv that lt inc old by (auto simp: cache_inv_def)
    ultimately show "cache_inv s'" using inv by (auto simp: cache_inv_def)
    show "same_keys s s'" using old by (simp add: same_keys_def) (simp add: s')
    show "keeps_pins s s'" using old lt inc by (simp add: keeps_pins_def)
    have "written s' = written s" by (simp add: s')
    then show "keeps_data s s'" using old lt inc by (simp add: keeps_data_def)
  qed
qed

lemma good_stamp: "good s (stamp r s)"
proof -
  have "good s (upd_page r (\<lambda>p. p\<lparr>accessSequenceId := accessCount s\<rparr>) s)"
    by (rule good_upd_page) (simp add: harmless_def key_of_def)
  also have "good \<dots> (stamp r s)" by (rule good_frame) (simp_all add: stamp_def)
  finally show ?thesis .
qed

lemma page_new_frame:
  assumes "page_new raw m nid did tid sid pid sz off io n oc = Inr p"
  shows "rawBytes p \<noteq> None" "key_of p = (did, tid, sid, pid)" "refCount p = 0" "psize p = sz"
  using assms by (auto simp: page_new_def andThen_Inr_iff key_of_def)

text \<open>\<open>fresh_in s r\<close>: \<open>r\<close> is a page object with a frame.\<close>

definition fresh_in :: "'h cstate \<Rightarrow> nat \<Rightarrow> bool" where
  "fresh_in s r \<longleftrightarrow> rawBytes (pages s r) \<noteq> None \<and> r < nextPage s"

lemma fresh_in_upd [simp]:
  "fresh_in (stamp x s) r = fresh_in s r"
  "fresh_in (upd_page x (\<lambda>p. p\<lparr>pinned := a, dirty := b\<rparr>) s) r = fresh_in s r"
  by (auto simp: fresh_in_def stamp_def upd_page_def)

lemma fresh_in_locks:
  "lock_eviction_mutex s = Inr s' \<Longrightarrow> fresh_in s' r = fresh_in s r"
  "evictionLock s = Inr s' \<Longrightarrow> fresh_in s' r = fresh_in s r"
  by (auto simp: fresh_in_def lock_eviction_mutex_def evictionLock_def split: if_splits)

lemma good_cachePage': "cachePage (Some r) os s = Inr s' \<Longrightarrow> fresh_in s r \<Longrightarrow> good s s'"
  by (rule good_cachePage) (auto simp: fresh_in_def)

lemma good_incRefCount: "good s (upd_page r incRefCount s)"
  by (rule good_upd_page) (simp add: harmless_def incRefCount_def key_of_def)

lemma loadPage_built:
  assumes "loadPage env f part sq s = Inr (s', page)"
  obtains "page = None" "s' = s"
  | t p r where "good s t" "new_page p t = (s', r)" "page = Some r" "rawBytes p \<noteq> None" "\<not> dirty p"
proof (cases page)
  case None
  then show ?thesis using assms that(1) by (auto simp: loadPage_def andThen_Inr_iff Let_def split: if_splits)
next
  case (Some r)
  then obtain t m off al d p' n no x y z where t: "allocateBlocking env (f_pageSize f) s = Inr (t, m, off, al)"
    and p': "page_new (raw_page env) d (f_node f) (f_db f) (f_type f) (f_set f) n (f_pageSize f) off al no 0 = Inr p'"
    and nw: "new_page (p'\<lparr>numObjects := x, partitionId := y, pageSeqInPartition := z\<rparr>) t = (s', r)"
    using assms by (auto simp: loadPage_def buildPage_def andThen_Inr_iff Let_def split: if_splits)
  have "rawBytes p' \<noteq> None" "\<not> dirty p'" using p' by (auto simp: page_new_def andThen_Inr_iff)
  then show ?thesis using that(2) [OF good_allocateBlocking [OF t]] nw Some by fastforce
qed

lemma upd_pages_only:
  "lock_eviction_mutex s = Inr s' \<Longrightarrow> pages s' = pages s"
  "evictionLock s = Inr s' \<Longrightarrow> pages s' = pages s"
  "cachePage page os s = Inr s' \<Longrightarrow> pages s' = pages s"
  by (auto simp: lock_eviction_mutex_def evictionLock_def cachePage_def lock_cache_mutex_def
      unlock_cache_mutex_def Let_def andThen_Inr_iff on_set_def upd_set_def split: if_splits option.splits)

lemma good_with_dbmin: "with_dbmin env os s = Inr s' \<Longrightarrow> good s s'"
  by (auto simp: with_dbmin_def andThen_Inr_iff split: if_splits
      intro!: good_trans [OF good_locks(1) good_trans [OF good_evictForDBMIN good_locks(2)]])

lemma good_getPage [good_ops]:
  assumes "getPage env f part sq pid os s = Inr (s', page)" shows "good s s'"
proof -
  obtain k part' sq' a b c d where k: "k = (f_db f, f_type f, f_set f, pid)"
    and a: "with_dbmin env os s = Inr a" and b: "lock_eviction_mutex a = Inr b"
    and c: "evictionLock b = Inr c" and d: "lock_cache_mutex c = Inr d"
    and r: "(case map_of (cache d) k of
       None \<Rightarrow>
         andThen (unlock_cache_mutex (d\<lparr>numMisses := numMisses d + 1\<rparr>)) (\<lambda>s.
         andThen (rw_unlock s) (\<lambda>s. andThen (unlock_eviction_mutex s) (\<lambda>s.
         andThen (loadPage env f part' sq' s) (\<lambda>(s, page). case page of
           None \<Rightarrow> Inr (s, None)
         | Some r \<Rightarrow>
             andThen (lock_eviction_mutex (stamp r s)) (\<lambda>s.
             andThen (cachePage (Some r) os s) (\<lambda>s.
             andThen (unlock_eviction_mutex
                        (upd_page r (\<lambda>p. incRefCount (p\<lparr>pinned := True, dirty := False\<rparr>)) s)) (\<lambda>s.
               Inr (s, Some r))))))))
     | Some r \<Rightarrow>
         andThen (unlock_cache_mutex d) (\<lambda>s.
         andThen (rw_unlock (upd_page r (\<lambda>p. incRefCount (p\<lparr>pinned := True\<rparr>)) s)) (\<lambda>s.
         andThen (unlock_eviction_mutex s) (\<lambda>s.
           let s = on_set os (updateCachedPage r) (stamp r s) in
           Inr (s\<lparr>numHits := numHits s + 1\<rparr>, Some r))))) = (Inr (s', page) :: ('a cstate \<times> nat option) outcome)"
    using assms unfolding getPage_def
    by (cases "part = -1 \<or> sq = -1"; cases "f_index f pid") (auto simp: andThen_Inr_iff Let_def)
  have "good s a" by (rule good_with_dbmin [OF a])
  also have "good a b" by (rule good_locks(1) [OF b])
  also have "good b c" by (rule good_locks(5) [OF c])
  also have "good c d" by (rule good_locks(3) [OF d])
  also have "good d s'"
  proof (cases "map_of (cache d) k")
    case (Some r)
    then obtain e g h where e: "unlock_cache_mutex d = Inr e"
      and g: "rw_unlock (upd_page r (\<lambda>p. incRefCount (p\<lparr>pinned := True\<rparr>)) e) = Inr g"
      and h: "unlock_eviction_mutex g = Inr h"
      and s': "s' = on_set os (updateCachedPage r) (stamp r h)\<lparr>numHits := numHits (on_set os (updateCachedPage r) (stamp r h)) + 1\<rparr>"
      using r by (auto simp: andThen_Inr_iff Let_def)
    have "good d e" by (rule good_locks(4) [OF e])
    also have "good e (upd_page r (\<lambda>p. incRefCount (p\<lparr>pinned := True\<rparr>)) e)"
      by (rule good_upd_page) (simp add: harmless_def incRefCount_def key_of_def)
    also have "good \<dots> g" by (rule good_locks(7) [OF g])
    also have "good g h" by (rule good_locks(2) [OF h])
    also have "good h (stamp r h)" by (rule good_stamp)
    also have "good \<dots> (on_set os (updateCachedPage r) (stamp r h))" by (rule good_on_set)
    also have "good \<dots> s'" by (rule good_frame) (simp_all add: s')
    finally show ?thesis .
  next
    case None
    then obtain e g h i where e: "unlock_cache_mutex (d\<lparr>numMisses := numMisses d + 1\<rparr>) = Inr e"
      and g: "rw_unlock e = Inr g" and h: "unlock_eviction_mutex g = Inr h"
      and i: "loadPage env f part' sq' h = Inr i"
      and rest: "(case i of (s, None) \<Rightarrow> Inr (s, None) | (s, Some r) \<Rightarrow>
             andThen (lock_eviction_mutex (stamp r s)) (\<lambda>s.
             andThen (cachePage (Some r) os s) (\<lambda>s.
             andThen (unlock_eviction_mutex
                        (upd_page r (\<lambda>p. incRefCount (p\<lparr>pinned := True, dirty := False\<rparr>)) s)) (\<lambda>s.
               Inr (s, Some r))))) = (Inr (s', page) :: ('a cstate \<times> nat option) outcome)"
      using r by (auto simp: andThen_Inr_iff)
    have "good d (d\<lparr>numMisses := numMisses d + 1\<rparr>)" by (rule good_frame) simp_all
    also have "good \<dots> e" by (rule good_locks(4) [OF e])
    also have "good e g" by (rule good_locks(7) [OF g])
    also have "good g h" by (rule good_locks(2) [OF h])
    also have "good h s'"
    proof -
      obtain t q where iq: "i = (t, q)" by fastforce
      show ?thesis
      proof (rule loadPage_built [OF i [unfolded iq]])
        assume "q = None" "t = h"
        then show ?thesis using rest iq by simp
      next
        fix u p r assume u: "good h u" and n: "new_page p u = (t, r)" and q: "q = Some r"
          and p: "rawBytes p \<noteq> None" "\<not> dirty p"
        then obtain v w where v: "lock_eviction_mutex (stamp r t) = Inr v" and w: "cachePage (Some r) os v = Inr w"
          and x: "unlock_eviction_mutex (upd_page r (\<lambda>p. incRefCount (p\<lparr>pinned := True, dirty := False\<rparr>)) w) = Inr s'"
          using rest iq by (auto simp: andThen_Inr_iff)
        have nw: "good u t" "pages t r = p" "r < nextPage t" using good_new_page [OF n] by auto
        have fr: "fresh_in v r" using nw p fresh_in_locks(1) [OF v] by (simp add: fresh_in_def [of t])
        have cl: "\<not> dirty (pages w r)"
          using nw p upd_pages_only(1) [OF v] upd_pages_only(3) [OF w] by (simp add: stamp_def upd_page_def)
        note u
        also have "good u t" by (rule nw(1))
        also have "good t (stamp r t)" by (rule good_stamp)
        also have "good \<dots> v" by (rule good_locks(1) [OF v])
        also have "good v w" by (rule good_cachePage' [OF w fr])
        also have "good w (upd_page r (\<lambda>p. incRefCount (p\<lparr>pinned := True, dirty := False\<rparr>)) w)"
          by (rule good_upd_page) (use cl in \<open>simp add: harmless_def incRefCount_def key_of_def\<close>)
        also have "good \<dots> s'" by (rule good_locks(2) [OF x])
        finally show ?thesis .
      qed
    qed
    finally show ?thesis .
  qed
  finally show ?thesis .
qed

lemma good_getCachedPage [good_ops]:
  assumes "getCachedPage k os s = Inr (s', page)" shows "good s s'"
proof -
  obtain t where t: "lock_cache_mutex s = Inr t" and
    r: "(case map_of (cache t) k of
     None \<Rightarrow> andThen (unlock_cache_mutex t) (\<lambda>s. Inr (s, None))
   | Some r \<Rightarrow> andThen (unlock_cache_mutex (upd_page r incRefCount t)) (\<lambda>s.
       Inr (on_set os (updateCachedPage r) (stamp r s), Some r))) = (Inr (s', page) :: ('a cstate \<times> nat option) outcome)"
    using assms by (auto simp: getCachedPage_def andThen_Inr_iff)
  have "good t s'"
  proof (cases "map_of (cache t) k")
    case None
    then show ?thesis using r by (auto simp: andThen_Inr_iff intro: good_locks(4))
  next
    case (Some r)
    then obtain u where "unlock_cache_mutex (upd_page r incRefCount t) = Inr u"
      and "s' = on_set os (updateCachedPage r) (stamp r u)" using r by (auto simp: andThen_Inr_iff)
    then show ?thesis
      using good_trans [OF good_incRefCount good_trans [OF good_locks(4) good_trans [OF good_stamp good_on_set]]]
      by blast
  qed
  with good_locks(3) [OF t] show ?thesis by (rule good_trans)
qed

lemma good_hits: "good s (s\<lparr>numHits := n\<rparr>)"
  by (rule good_frame) simp_all

lemma good_getPage1 [good_ops]: "getPage1 k os s = Inr (s', page) \<Longrightarrow> good s s'"
  by (auto simp: getPage1_def andThen_Inr_iff dest!: good_getCachedPage split: if_splits
      intro: good_trans [OF _ good_hits])

lemma good_build_new:
  assumes "build_new env node k os n m off al s = Inr (s', page)" shows "good s s'"
proof -
  obtain db ty st pid where k: "k = (db, ty, st, pid)" by (cases k)
  obtain p where p: "page_new (raw_page env) m node db ty st pid n off al 0 0 = Inr p"
    and rest: "(case new_page p s of (s, r) \<Rightarrow>
       andThen (lock_eviction_mutex (upd_page r (\<lambda>p. p\<lparr>pinned := True, dirty := True\<rparr>) (stamp r s))) (\<lambda>s.
       andThen (evictionLock s) (\<lambda>s.
       andThen (cachePage (Some r) os s) (\<lambda>s.
       andThen (rw_unlock (upd_page r incRefCount s)) (\<lambda>s.
       andThen (unlock_eviction_mutex s) (\<lambda>s. Inr (s, Some r))))))) = Inr (s', page)"
    using assms k unfolding build_new_def by (auto simp: andThen_Inr_iff [of "page_new _ _ _ _ _ _ _ _ _ _ _ _"])
  obtain t r where t: "new_page p s = (t, r)" by fastforce
  then obtain u v w x where
    u: "lock_eviction_mutex (upd_page r (\<lambda>p. p\<lparr>pinned := True, dirty := True\<rparr>) (stamp r t)) = Inr u"
    and v: "evictionLock u = Inr v" and w: "cachePage (Some r) os v = Inr w"
    and x: "rw_unlock (upd_page r incRefCount w) = Inr x" and s': "unlock_eviction_mutex x = Inr s'"
    using rest by (auto simp: andThen_Inr_iff)
  have nw: "good s t" "pages t r = p" "r < nextPage t" using good_new_page [OF t] by auto
  have fr: "fresh_in v r"
    using nw page_new_frame(1) [OF p] fresh_in_locks(1) [OF u] fresh_in_locks(2) [OF v]
    by (simp add: fresh_in_def [of t])
  note nw(1)
  also have "good t (stamp r t)" by (rule good_stamp)
  also have "good \<dots> (upd_page r (\<lambda>p. p\<lparr>pinned := True, dirty := True\<rparr>) (stamp r t))"
    by (rule good_upd_page) (simp add: harmless_def key_of_def)
  also have "good \<dots> u" by (rule good_locks(1) [OF u])
  also have "good u v" by (rule good_locks(5) [OF v])
  also have "good v w" by (rule good_cachePage' [OF w fr])
  also have "good w (upd_page r incRefCount w)" by (rule good_incRefCount)
  also have "good \<dots> x" by (rule good_locks(7) [OF x])
  also have "good x s'" by (rule good_locks(2) [OF s'])
  finally show ?thesis .
qed

lemma good_getNewPage [good_ops]:
  assumes "getNewPage env node k os n s = Inr (s', page)" shows "good s s'"
proof -
  obtain a b c where a: "lock_eviction_mutex s = Inr a"
    and b: "(if strategy a = UnifiedDBMIN then evictForDBMIN env os a else Inr a) = Inr b"
    and c: "unlock_eviction_mutex b = Inr c"
    and r: "(if containsPage k c then Inr (c, None)
       else andThen (allocateBlocking env n c) (\<lambda>(s, m, off, align). build_new env node k os n m off align s))
         = Inr (s', page)"
    using assms by (auto simp: getNewPage_def andThen_Inr_iff)
  have "good s a" by (rule good_locks(1) [OF a])
  also have "good a b" using b by (auto split: if_splits intro: good_evictForDBMIN)
  also have "good b c" by (rule good_locks(2) [OF c])
  also have "good c s'" using r
    by (auto simp: andThen_Inr_iff split: if_splits intro: good_trans [OF good_allocateBlocking good_build_new])
  finally show ?thesis .
qed

lemma good_getNewPageNonBlocking [good_ops]:
  assumes "getNewPageNonBlocking env node k os n s = Inr (s', page)" shows "good s s'"
proof -
  obtain a where a: "with_dbmin env os s = Inr a"
    and r: "(if containsPage k a then Inr (a, None)
       else andThen (tryAllocate env n a) (\<lambda>(s, frame). case frame of
           None \<Rightarrow> Inr (s, None)
         | Some (m, off, align) \<Rightarrow> build_new env node k os n m off align s)) = Inr (s', page)"
    using assms by (auto simp: getNewPageNonBlocking_def andThen_Inr_iff)
  have "good a s'" using r
    by (auto simp: andThen_Inr_iff split: if_splits option.splits
        intro: good_tryAllocate good_trans [OF good_tryAllocate good_build_new])
  with good_with_dbmin [OF a] show ?thesis by (rule good_trans)
qed

lemma good_flushPageWithoutEviction [good_ops]:
  assumes "flushPageWithoutEviction k s = Inr (s', b)" shows "good s s'"
proof (cases "map_of (cache s) k")
  case None
  then show ?thesis using assms by (simp add: flushPageWithoutEviction_def)
next
  case (Some r)
  show ?thesis
  proof (cases "dirty (pages s r) \<and> \<not> inFlush (pages s r)")
    case True
    then have e: "enqueue_flush r (upd_page r (\<lambda>p. p\<lparr>inFlush := True, inEviction := False\<rparr>) s) = Inr s'"
      using assms Some by (auto simp: flushPageWithoutEviction_def andThen_Inr_iff)
    have inc: "cache_inv s \<Longrightarrow> in_cache s r" using Some map_of_in_cache [of s k r] by simp
    show ?thesis by (rule good_enqueue [OF e]) (use True inc in \<open>auto simp: harmless_def key_of_def\<close>)
  next
    case False
    then show ?thesis using assms Some by (auto simp: flushPageWithoutEviction_def)
  qed
qed

lemma good_priority: "good s (addToPriorityList l lv s)" "good s (removeFromPriorityList l lv s)"
  by (rule good_frame; simp add: addToPriorityList_def removeFromPriorityList_def Let_def)+

lemma good_cache_pin [good_ops]: "good s (cache_pin l policy op s)"
  unfolding cache_pin_def Let_def by (rule good_trans [OF good_upd_set good_priority(1)])

lemma good_cache_unpin [good_ops]: "good s (cache_unpin l s)"
  unfolding cache_unpin_def Let_def
  by (rule good_trans [OF good_upd_set good_trans [OF good_priority(2) good_priority(1)]])

lemma rw_unlock_fields:
  "rw_unlock s = Inr s' \<Longrightarrow> pages s' = pages s \<and> cache s' = cache s \<and> csize s' = csize s \<and>
     nextPage s' = nextPage s \<and> flushBuf s' = flushBuf s \<and> written s' = written s"
  by (auto simp: rw_unlock_def split: rwlock.splits if_splits)

lemma flushLock_fields:
  "flushLock s = Inr s' \<Longrightarrow> pages s' = pages s \<and> cache s' = cache s \<and> csize s' = csize s \<and>
     nextPage s' = nextPage s \<and> flushBuf s' = flushBuf s \<and> written s' = written s"
  by (auto simp: flushLock_def split: rwlock.splits)

lemma good_flush_round [good_ops]:
  assumes "flush_round env True True s = Inr s'" shows "good s s'"
proof (cases "cache_inv s")
  case inv: True
  have ok: "cb_ok (flushBuf s)" and dist: "distinct (cb_contents (flushBuf s))"
    using inv by (simp_all add: cache_inv_def)
  show ?thesis
  proof (cases "cb_contents (flushBuf s)")
    case Nil
    then show ?thesis using assms cb_pop_empty [OF ok] by (simp add: flush_round_def)
  next
    case (Cons r xs)
    obtain b where pop: "cb_popPageFromHead (flushBuf s) = (b, Some r)" and b: "cb_ok b" "cb_contents b = xs"
      using cb_pop_nonempty [OF ok Cons] by blast
    have inc: "in_cache s r" using inv Cons by (simp add: cache_inv_def)
    define k where "k = key_of (pages s r)"
    have at: "map_of (cache s) k = Some r" using inc inv by (simp add: map_of_in_cache k_def)
    obtain m where m: "rawBytes (pages s r) = Some m"
      using inc cache_invD(2) [OF inv] by (fastforce simp: in_cache_def)
    obtain t where t: "flushLock (s\<lparr>flushBuf := b\<rparr>) = Inr t"
      using assms pop by (auto simp: flush_round_def andThen_Inr_iff Let_def)
    note tf = flushLock_fields [OF t]
    let ?w = "t\<lparr>written := written t @ [(k, m)]\<rparr>"
    obtain u v where
      u: "(if refCount (pages s r) = 0 \<and> inEviction (pages s r)
           then release_frame env r (getSize (pages s r) + 512) ?w else Inr ?w) = Inr u"
      and v: "(if refCount (pages u r) = 0 \<and> inEviction (pages u r)
           then andThen (removePage k u) (\<lambda>(s, _). Inr s) else Inr u) = Inr v"
      and s': "rw_unlock (upd_page r (\<lambda>p. p\<lparr>inFlush := False, dirty := False\<rparr>) v) = Inr s'"
    proof -
      have "andThen (if refCount (pages s r) = 0 \<and> inEviction (pages s r)
            then release_frame env r (getSize (pages s r) + 512) ?w else Inr ?w) (\<lambda>s.
          andThen (if refCount (pages s r) = 0 \<and> inEviction (pages s r)
            then andThen (removePage k s) (\<lambda>(s, _). Inr s) else Inr s) (\<lambda>s.
          rw_unlock (upd_page r (\<lambda>p. p\<lparr>inFlush := False, dirty := False\<rparr>) s))) = Inr s'"
        using assms t tf m by (simp add: flush_round_def pop Let_def k_def cong: if_cong)
      then show ?thesis using that by (auto simp: andThen_Inr_iff)
    qed
    note sf = rw_unlock_fields [OF s']
    show ?thesis
    proof (cases "refCount (pages s r) = 0 \<and> inEviction (pages s r)")
      case True
      then have rel: "release_frame env r (getSize (pages s r) + 512) ?w = Inr u" using u by simp
      have pu: "refCount (pages u r) = 0 \<and> inEviction (pages u r)"
        using True rel tf by (auto simp: release_frame_def upd_page_def split: option.splits)
      then obtain c where rm: "removePage k u = Inr (v, c)" using v by (auto simp: andThen_Inr_iff)
      have at': "map_of (cache ?w) k = Some r" using at tf by simp
      note rr = release_remove(2,4-9) [OF rel rm at']
      have "dropped k r s s'"
        unfolding dropped_def using sf rr tf b Cons dist by (auto simp: upd_page_def key_of_def)
      then show ?thesis
        by (rule good_dropped [OF _ at]) (use True sf rr tf m in \<open>auto simp: upd_page_def\<close>)
    next
      case False
      then have uw: "u = ?w" using u unfolding if_not_P [OF False] by simp
      then have nd: "\<not> (refCount (pages u r) = 0 \<and> inEviction (pages u r))" using False tf by simp
      then have "v = ?w" using v uw unfolding if_not_P [OF nd] by simp
      then have s'': "pages s' = (pages s)(r := (pages s r)\<lparr>inFlush := False, dirty := False\<rparr>)" "cache s' = cache s"
        "csize s' = csize s" "nextPage s' = nextPage s" "flushBuf s' = b" "written s' = written s @ [(k, m)]"
        using sf tf by (auto simp: upd_page_def)
      show ?thesis by (rule good_flushed [of s' s r]) (use s'' b Cons m k_def in auto)
    qed
  qed
qed (simp add: good_def)

text \<open>
  What a flush round has written does not influence what it does to the cache, so that a round whose
  page has no set any more, or could not be written, keeps the books just as well.
\<close>

definition with_written :: "(key \<times> byte list) list \<Rightarrow> 'h cstate outcome \<Rightarrow> 'h cstate outcome" where
  "with_written w = map_sum id (\<lambda>s. s\<lparr>written := w\<rparr>)"

lemma with_written_release:
  "release_frame env r n (s\<lparr>written := w\<rparr>) = with_written w (release_frame env r n s)"
  by (simp add: release_frame_def with_written_def upd_page_def split: option.splits)

lemma with_written_remove:
  "andThen (removePage k (s\<lparr>written := w\<rparr>)) (\<lambda>(s, _). Inr s) =
   with_written w (andThen (removePage k s) (\<lambda>(s, _). Inr s))"
  by (simp add: removePage_def with_written_def lock_cache_mutex_def unlock_cache_mutex_def erase_page_def
      split: option.splits)

lemma with_written_unlock:
  "rw_unlock (upd_page r f (s\<lparr>written := w\<rparr>)) = with_written w (rw_unlock (upd_page r f s))"
  by (simp add: rw_unlock_def with_written_def upd_page_def split: rwlock.splits)

lemma with_written_andThen:
  assumes "\<And>s. g (s\<lparr>written := w\<rparr>) = with_written w (f s)"
  shows "andThen (with_written w x) g = with_written w (andThen x f)"
  using assms by (cases x) (simp_all add: with_written_def)

lemma with_written_Inr: "with_written w x = Inr s' \<longleftrightarrow> (\<exists>s. x = Inr s \<and> s' = s\<lparr>written := w\<rparr>)"
  by (cases x) (auto simp: with_written_def)

definition finish_remove :: "nat \<Rightarrow> key \<Rightarrow> 'h cstate \<Rightarrow> 'h cstate outcome" where
  "finish_remove r k s =
     andThen (if refCount (pages s r) = 0 \<and> inEviction (pages s r)
              then andThen (removePage k s) (\<lambda>(s, _). Inr s) else Inr s) (\<lambda>s.
       rw_unlock (upd_page r (\<lambda>p. p\<lparr>inFlush := False, dirty := False\<rparr>) s))"

definition finish_flush :: "'h cenv \<Rightarrow> nat \<Rightarrow> key \<Rightarrow> 'h cstate \<Rightarrow> 'h cstate outcome" where
  "finish_flush env r k s =
     andThen (if rawBytes (pages s r) \<noteq> None \<and> refCount (pages s r) = 0 \<and> inEviction (pages s r)
              then release_frame env r (getSize (pages s r) + 512) s else Inr s) (finish_remove r k)"

lemma with_written_Inr_simp [simp]: "with_written w (Inr s) = Inr (s\<lparr>written := w\<rparr>)"
  by (simp add: with_written_def)

lemma finish_remove_written:
  "finish_remove r k (s\<lparr>written := w\<rparr>) = with_written w (finish_remove r k s)"
  by (cases "refCount (pages s r) = 0 \<and> inEviction (pages s r)")
    (auto simp: finish_remove_def with_written_remove with_written_unlock
      with_written_andThen [where g = "\<lambda>s. rw_unlock (upd_page r (\<lambda>p. p\<lparr>inFlush := False, dirty := False\<rparr>) s)",
        OF with_written_unlock])

lemma finish_flush_written:
  "finish_flush env r k (s\<lparr>written := w\<rparr>) = with_written w (finish_flush env r k s)"
  by (cases "rawBytes (pages s r) \<noteq> None \<and> refCount (pages s r) = 0 \<and> inEviction (pages s r)")
    (auto simp: finish_flush_def with_written_release finish_remove_written
      with_written_andThen [where g = "finish_remove r k", OF finish_remove_written])

lemma flush_round_any:
  assumes "flush_round env known stored s = Inr s'"
  shows "\<exists>s''. flush_round env True True s = Inr s'' \<and> s' = s''\<lparr>written := written s'\<rparr>"
proof (cases "snd (cb_popPageFromHead (flushBuf s))")
  case None
  then show ?thesis using assms by (auto simp: flush_round_def split: prod.splits)
next
  case (Some r)
  then obtain b where pop: "cb_popPageFromHead (flushBuf s) = (b, Some r)" by (metis prod.collapse)
  define k where "k = key_of (pages s r)"
  obtain t where t: "flushLock (s\<lparr>flushBuf := b\<rparr>) = Inr t"
    using assms by (auto simp: flush_round_def pop Let_def andThen_Inr_iff)
  define W where "W kn st = (case rawBytes (pages t r) of
      Some m \<Rightarrow> if kn \<and> st then written t @ [(k, m)] else written t | None \<Rightarrow> written t)" for kn st
  have W: "(case rawBytes (pages t r) of Some m \<Rightarrow> if kn \<and> st then t\<lparr>written := written t @ [(k, m)]\<rparr> else t
      | None \<Rightarrow> t) = t\<lparr>written := W kn st\<rparr>" for kn st
    by (simp add: W_def split: option.splits)
  have k: "key_of (pages (s\<lparr>flushBuf := b\<rparr>) r) = k" by (simp add: k_def)
  have run: "flush_round env kn st s = finish_flush env r k (t\<lparr>written := W kn st\<rparr>)" for kn st
    unfolding finish_flush_def finish_remove_def
    by (simp only: flush_round_def pop Let_def prod.case option.case t k andThen_simps W)
  obtain u where "finish_flush env r k t = Inr u"
    using assms unfolding run finish_flush_written with_written_Inr by blast
  then show ?thesis using assms unfolding run finish_flush_written by auto
qed

lemma cache_inv_flush_round:
  assumes "cache_inv s" and "flush_round env known stored s = Inr s'"
  shows "cache_inv s'"
proof -
  obtain u where u: "flush_round env True True s = Inr u" "s' = u\<lparr>written := written s'\<rparr>"
    using flush_round_any [OF assms(2)] by blast
  have "cache_inv u" using good_flush_round [OF u(1)] assms(1) by (simp add: good_def)
  then have "cache_inv (u\<lparr>written := written s'\<rparr>)"
    by (simp add: cache_inv_def frame_bytes_def in_cache_def)
  with u(2) show ?thesis by simp
qed

section \<open>Steps of the cache\<close>

text \<open>
  One call of the cache's interface that comes back, or one round of a flushing thread whose writes
  succeed.  \<open>unpins\<close> are the calls that give up references or frames on purpose: a client's
  \<open>decPageRefCount\<close> and \<open>freePage\<close> of a page that is filed and not on its way to disk.
\<close>

inductive cache_step :: "'h cenv \<Rightarrow> 'h cstate \<Rightarrow> 'h cstate \<Rightarrow> bool" for env where
  step_getPage: "getPage env f part sq pid os s = Inr (s', page) \<Longrightarrow> cache_step env s s'"
| step_getPage1: "getPage1 k os s = Inr (s', page) \<Longrightarrow> cache_step env s s'"
| step_getNewPage: "getNewPage env node k os n s = Inr (s', page) \<Longrightarrow> cache_step env s s'"
| step_nonBlocking: "getNewPageNonBlocking env node k os n s = Inr (s', page) \<Longrightarrow> cache_step env s s'"
| step_flush: "flushPageWithoutEviction k s = Inr (s', b) \<Longrightarrow> cache_step env s s'"
| step_evictPage: "evictPage_of_set env r os s = Inr (s', b) \<Longrightarrow> cache_step env s s'"
| step_evict: "evict env s = Inr s' \<Longrightarrow> cache_step env s s'"
| step_evictForDBMIN: "evictForDBMIN env os s = Inr s' \<Longrightarrow> cache_step env s s'"
| step_evictAll: "evictAllDirtyPages env s = Inr (s', n) \<Longrightarrow> cache_step env s s'"
| step_pin: "cache_step env s (cache_pin l policy op s)"
| step_unpin: "cache_step env s (cache_unpin l s)"
| step_flush_round: "flush_round env True True s = Inr s' \<Longrightarrow> cache_step env s s'"

lemma cache_step_good: "cache_step env s s' \<Longrightarrow> good s s'"
  by (induction rule: cache_step.induct) (auto intro: good_ops)

text \<open>Giving up references or frames keeps the invariant, too.\<close>

lemma cache_inv_upd_page:
  assumes inv: "cache_inv s" and f: "key_of (f (pages s r)) = key_of (pages s r)"
    "rawBytes (f (pages s r)) = None \<longleftrightarrow> rawBytes (pages s r) = None" "psize (f (pages s r)) = psize (pages s r)"
    "inFlush (f (pages s r)) = inFlush (pages s r)"
  shows "cache_inv (upd_page r f s)"
proof -
  have same: "in_cache (upd_page r f s) x = in_cache s x" for x
    using f by (simp add: in_cache_def upd_page_def)
  have fb: "frame_bytes (upd_page r f s) = frame_bytes s"
    using f by (auto simp: frame_bytes_def upd_page_def intro!: arg_cong [of _ _ sum_list])
  show ?thesis
    using inv f same fb by (auto simp: cache_inv_def) (auto simp: upd_page_def)
qed

lemma decRefCount_pow:
  "key_of ((decRefCount ^^ n) p) = key_of p \<and> rawBytes ((decRefCount ^^ n) p) = rawBytes p \<and>
   psize ((decRefCount ^^ n) p) = psize p \<and> inFlush ((decRefCount ^^ n) p) = inFlush p \<and>
   (int n \<le> refCount p \<longrightarrow> refCount ((decRefCount ^^ n) p) = refCount p - int n)"
  by (induction n) (auto simp: decRefCount_def Let_def key_of_def)

lemma cache_inv_decPageRefCount:
  assumes "cache_inv s" shows "cache_inv (fst (decPageRefCount k s))"
  using assms decRefCount_pow [of 1]
  by (auto simp: decPageRefCount_def split: option.splits intro!: cache_inv_upd_page)

lemma zero_ref_refCount: "refCount (zero_ref p) \<le> 0"
  using decRefCount_pow [of "nat (refCount p)" p] by (cases "refCount p \<ge> 0") (auto simp: zero_ref_def)

lemma cache_inv_fold_zero_ref: "cache_inv s \<Longrightarrow> cache_inv (fold (\<lambda>r. upd_page r zero_ref) q s)"
proof (induction q arbitrary: s)
  case (Cons r q)
  have "cache_inv (upd_page r zero_ref s)"
    by (rule cache_inv_upd_page [OF Cons.prems]) (simp_all add: zero_ref_def decRefCount_pow)
  then show ?case using Cons.IH by simp
qed simp

lemma good_inv: "good s s' \<Longrightarrow> cache_inv s \<Longrightarrow> cache_inv s'"
  by (simp add: good_def)

lemma cache_inv_unpinAndEvict:
  assumes "unpinAndEvictAllDirtyPages env s = Inr (s', n)" "cache_inv s" shows "cache_inv s'"
proof (cases "evicting s")
  case False
  then obtain t u where t: "lock_eviction_mutex s = Inr t" and u: "evictionLock (t\<lparr>evicting := True\<rparr>) = Inr u"
    and r: "(let q = filter (\<lambda>r. dirty (pages u r) \<and> \<not> inFlush (pages u r)) (map snd (cache u))
      in andThen (rw_unlock (fold (\<lambda>r. upd_page r zero_ref) q u)) (\<lambda>s. andThen (evict_pages env None q s) (\<lambda>(s, n).
             andThen (unlock_eviction_mutex (s\<lparr>evicting := False\<rparr>)) (\<lambda>s. Inr (s, n))))) = Inr (s', n)"
    using assms unfolding unpinAndEvictAllDirtyPages_def evict_all_with_def
    by (auto simp: andThen_Inr_iff [of "lock_eviction_mutex _"] andThen_Inr_iff [of "evictionLock _"] Let_def)
  define q where "q = filter (\<lambda>r. dirty (pages u r) \<and> \<not> inFlush (pages u r)) (map snd (cache u))"
  obtain v w m where v: "rw_unlock (fold (\<lambda>r. upd_page r zero_ref) q u) = Inr v"
    and w: "evict_pages env None q v = Inr (w, m)" and x: "unlock_eviction_mutex (w\<lparr>evicting := False\<rparr>) = Inr s'"
    using r by (auto simp: andThen_Inr_iff q_def Let_def)
  have "good s t" by (rule good_locks(1) [OF t])
  also have "good t (t\<lparr>evicting := True\<rparr>)" by (rule good_set_evicting)
  also have "good \<dots> u" by (rule good_locks(5) [OF u])
  finally have "cache_inv (fold (\<lambda>r. upd_page r zero_ref) q u)"
    using assms(2) by (intro cache_inv_fold_zero_ref) (rule good_inv)
  moreover have "good (fold (\<lambda>r. upd_page r zero_ref) q u) v" by (rule good_locks(7) [OF v])
  then have "good (fold (\<lambda>r. upd_page r zero_ref) q u) s'"
    using good_trans [OF good_evict_pages [OF w] good_trans [OF good_set_evicting(1) good_locks(2) [OF x]]]
    by (rule good_trans)
  ultimately show ?thesis by (rule good_inv [rotated])
qed (use assms in \<open>simp add: unpinAndEvictAllDirtyPages_def evict_all_with_def\<close>)

lemma cache_inv_freePage:
  assumes "freePage env r s = Inr (s', b)" "cache_inv s" "in_cache s r" "\<not> inFlush (pages s r)"
  shows "cache_inv s'"
proof -
  define k where "k = key_of (pages s r)"
  have at: "map_of (cache s) k = Some r" using assms(2,3) by (simp add: map_of_in_cache k_def)
  let ?e = "erase_page k r (s\<lparr>cacheMutex := True\<rparr>)"
  have nm: "\<not> cacheMutex s" and rel: "release_frame env r (psize (pages s r) + 512) (?e\<lparr>cacheMutex := False\<rparr>) = Inr s'"
    using assms(1) at by (auto simp: freePage_def lock_cache_mutex_def unlock_cache_mutex_def Let_def
        andThen_Inr_iff erase_page_def k_def split: if_splits)
  obtain m where m: "rawBytes (pages s r) = Some m"
    using assms(2,3) cache_invD(2) [OF assms(2)] by (fastforce simp: in_cache_def)
  have notin: "r \<notin> set (cb_contents (flushBuf s))" using assms(2,4) queue_members by blast
  define p where "p = (\<lambda>q :: page. q\<lparr>refCount := 0, dirty := False\<rparr>)"
  define s0 where "s0 = upd_page r p s"
  have inv0: "cache_inv s0"
    unfolding s0_def by (rule cache_inv_upd_page [OF assms(2)]) (simp_all add: p_def key_of_def)
  have "dropped k r s0 s'"
    using rel m notin assms(2)
    by (auto simp: dropped_def release_frame_def erase_page_def upd_page_def s0_def p_def key_of_def cache_inv_def)
  then have "good s0 s'"
    by (rule good_dropped) (use at in \<open>simp_all add: s0_def upd_page_def p_def\<close>)
  then show ?thesis using inv0 by (rule good_inv)
qed

end
