(* ===== verification/PageCacheResults.thy ===== *)
theory PageCacheResults
  imports PageCacheSafety
begin

text \<open>
  The properties of the page cache: its invariant in every reachable state, the safety of referenced
  and of dirty pages, what inserting and evicting achieve, and the faults of the replacement code.
\<close>

section \<open>Reachable states\<close>

text \<open>
  A cache starts empty; its states change by calls and flush rounds (\<open>cache_step\<close>), by flush rounds whose
  page has no set any more or cannot be written, by clients that give back references, write to a page
  or drop a page, and by the shutdown call that unpins all.  A client drops a page only while it is
  filed and not in the flush buffer: \<open>freePage\<close> (\<open>PageCache.cc\<close>:290) does not look at the flag, and
  dropping a queued page leaves a page without a frame in the queue.  Nothing in the repository calls
  \<open>freePage\<close>.
\<close>

inductive cache_reach :: "'h cenv \<Rightarrow> 'h cstate \<Rightarrow> bool" for env where
  reach_new: "cb_ok buf \<Longrightarrow> cb_contents buf = [] \<Longrightarrow> cache_reach env (cache_new n st buf pg ls h)"
| reach_step: "cache_reach env s \<Longrightarrow> cache_step env s s' \<Longrightarrow> cache_reach env s'"
| reach_dec: "cache_reach env s \<Longrightarrow> cache_reach env (fst (decPageRefCount k s))"
| reach_write: "cache_reach env s \<Longrightarrow> rawBytes (pages s r) = Some m \<Longrightarrow>
    cache_reach env (upd_page r (\<lambda>p. p\<lparr>rawBytes := Some m', dirty := True\<rparr>) s)"
| reach_flush: "cache_reach env s \<Longrightarrow> flush_round env known stored s = Inr s' \<Longrightarrow> cache_reach env s'"
| reach_free: "cache_reach env s \<Longrightarrow> in_cache s r \<Longrightarrow> \<not> inFlush (pages s r) \<Longrightarrow>
    freePage env r s = Inr (s', b) \<Longrightarrow> cache_reach env s'"
| reach_shutdown: "cache_reach env s \<Longrightarrow> unpinAndEvictAllDirtyPages env s = Inr (s', n) \<Longrightarrow> cache_reach env s'"

lemma cache_new_inv: "cb_ok buf \<Longrightarrow> cb_contents buf = [] \<Longrightarrow> cache_inv (cache_new n st buf pg ls h)"
  by (simp add: cache_inv_def cache_new_def frame_bytes_def)

lemma cache_reach_inv: "cache_reach env s \<Longrightarrow> cache_inv s"
proof (induction rule: cache_reach.induct)
  case (reach_write s r m m')
  then show ?case by (intro cache_inv_upd_page) (simp_all add: key_of_def)
qed (auto intro: cache_new_inv good_inv [OF cache_step_good] cache_inv_decPageRefCount cache_inv_freePage
    cache_inv_unpinAndEvict cache_inv_flush_round)


section \<open>A new page\<close>

definition locks_free :: "'h cstate \<Rightarrow> bool" where
  "locks_free s \<longleftrightarrow> \<not> evictionMutex s \<and> \<not> cacheMutex s \<and> evictionAndFlushLock s = Unlocked"

lemma page_new_succeeds:
  assumes "header_size \<le> length m"
  shows "\<exists>p. page_new raw m nid did tid sid pid sz off io n oc = Inr p \<and>
    key_of p = (did, tid, sid, pid) \<and> refCount p = 0 \<and> psize p = sz \<and> rawBytes p \<noteq> None \<and> offset p = off \<and> \<not> inFlush p"
proof -
  obtain p where p: "page_new raw m nid did tid sid pid sz off io n oc = Inr p"
    using page_new_total [OF assms] by blast
  moreover have "offset p = off" "\<not> inFlush p" using p by (auto simp: page_new_def andThen_Inr_iff)
  ultimately show ?thesis using page_new_frame [OF p] by auto
qed

lemma on_set_fields [simp]:
  "pages (on_set os f s) = pages s" "cache (on_set os f s) = cache s" "csize (on_set os f s) = csize s"
  "nextPage (on_set os f s) = nextPage s" "evictionMutex (on_set os f s) = evictionMutex s"
  "cacheMutex (on_set os f s) = cacheMutex s" "evictionAndFlushLock (on_set os f s) = evictionAndFlushLock s"
  "accessCount (on_set os f s) = accessCount s" "strategy (on_set os f s) = strategy s"
  "flushBuf (on_set os f s) = flushBuf s" "evicting (on_set os f s) = evicting s"
  "evictStopSize (on_set os f s) = evictStopSize s" "shm (on_set os f s) = shm s"
  by (cases os; simp add: on_set_def upd_set_def)+

lemma getCachedPage_hit:
  assumes "locks_free s" "map_of (cache s) k = Some r"
  shows "\<exists>s'. getCachedPage k os s = Inr (s', Some r) \<and> refCount (pages s' r) = refCount (pages s r) + 1 \<and>
    locks_free s'"
  using assms by (simp add: getCachedPage_def locks_free_def lock_cache_mutex_def unlock_cache_mutex_def
      upd_page_def stamp_def incRefCount_def)

lemma getNewPage_miss:
  assumes free: "locks_free s" and st: "strategy s \<noteq> UnifiedDBMIN" and new: "\<not> containsPage k s"
    and shm: "shm_malloc env (shm s) n = (h, Some (off, al))" and "0 < rounds env" "header_size \<le> unat n"
  shows "\<exists>s' r. getNewPage env node k os n s = Inr (s', Some r) \<and> map_of (cache s') k = Some r \<and>
    refCount (pages s' r) = 1 \<and> pinned (pages s' r) \<and> dirty (pages s' r) \<and> offset (pages s' r) = off \<and>
    csize s' = csize s + (n + 512) \<and> locks_free s' \<and> cache s' = cache s @ [(k, r)] \<and>
    evicting s' = evicting s \<and> flushBuf s' = flushBuf s \<and> strategy s' = strategy s \<and>
    evictStopSize s' = evictStopSize s \<and> \<not> inFlush (pages s' r)"
proof -
  obtain db ty se pid where k: "k = (db, ty, se, pid)" by (cases k)
  obtain p where p: "page_new (raw_page env) (replicate (unat n) 0) node db ty se pid n off al 0 0 = Inr p"
    "key_of p = (db, ty, se, pid)" "refCount p = 0" "psize p = n" "rawBytes p \<noteq> None" "offset p = off" "\<not> inFlush p"
    using page_new_succeeds [of "replicate (unat n) 0"] assms(6) by fastforce
  obtain j where j: "rounds env = Suc j" using assms(5) by (cases "rounds env") auto
  have kp: "key_of (p\<lparr>accessSequenceId := a, pinned := True, dirty := True\<rparr>) = k" for a
    using p(2) k by (simp add: key_of_def)
  show ?thesis
    using free st new shm p kp
    by (simp add: getNewPage_def lock_eviction_mutex_def unlock_eviction_mutex_def locks_free_def j
        containsPage_def allocateBlocking_def build_new_def k new_page_def stamp_def upd_page_def
        evictionLock_def cachePage_def lock_cache_mutex_def unlock_cache_mutex_def rw_unlock_def Let_def
        incRefCount_def map_add_def)
qed

text \<open>C39: A new page is in the cache.  Under every strategy but UnifiedDBMIN, when all locks of the
  cache are free, the key is not cached, the page is at least as large as the 36 bytes of its header
  and shared memory has room for it (and the model's bound on allocation rounds is not zero),
  \<open>getNewPage\<close> returns a page filed under that key, pinned with one reference, dirty and in its frame; the size grows by the frame with its alignment, all locks are
  given back, and asking the cache for the key returns that page with a second reference.\<close>

theorem new_page_is_cached:
  assumes free: "locks_free s" and st: "strategy s \<noteq> UnifiedDBMIN" and new: "\<not> containsPage k s"
    and shm: "shm_malloc env (shm s) n = (h, Some (off, al))" and "0 < rounds env" "header_size \<le> unat n"
  shows "\<exists>s' s'' r. getNewPage env node k os n s = Inr (s', Some r) \<and> map_of (cache s') k = Some r \<and>
    refCount (pages s' r) = 1 \<and> pinned (pages s' r) \<and> dirty (pages s' r) \<and> offset (pages s' r) = off \<and>
    csize s' = csize s + (n + 512) \<and> locks_free s' \<and>
    getCachedPage k os s' = Inr (s'', Some r) \<and> refCount (pages s'' r) = 2 \<and> locks_free s''"
proof -
  obtain s' r where s': "getNewPage env node k os n s = Inr (s', Some r)" "map_of (cache s') k = Some r"
    "refCount (pages s' r) = 1" "pinned (pages s' r)" "dirty (pages s' r)" "offset (pages s' r) = off"
    "csize s' = csize s + (n + 512)" "locks_free s'"
    using getNewPage_miss [OF assms] by blast
  from getCachedPage_hit [OF s'(8,2), of os] s' show ?thesis by auto
qed

definition demo_env :: "nat cenv" where
  "demo_env = \<lparr>shm_malloc = (\<lambda>h n. (Suc h, if h < 3 then Some (of_nat h * 4096, 0) else None)),
     shm_free = (\<lambda>off n h. h - 1), garbage = (\<lambda>off i. 0), raw_page = demo_page, stop_share = 1 / 10, rounds = 4\<rparr>"

definition demo_cache :: "CacheStrategy \<Rightarrow> nat cstate" where
  "demo_cache st = cache_new 100 st (cb_new 8) (\<lambda>_. demo_page)
     (\<lambda>_. locset_new JobData LRU Read TryCache Persistent 1 False) 0"

lemma demo_free: "locks_free (demo_cache st)" "cache (demo_cache st) = []" "strategy (demo_cache st) = st"
  "shm (demo_cache st) = 0"
  by (simp_all add: demo_cache_def cache_new_def locks_free_def)

lemma demo_reach: "cache_reach env (demo_cache st)"
  unfolding demo_cache_def by (rule reach_new) (use cb_new_ok [of 8] in \<open>simp_all\<close>)

lemma new_page_is_cached_witness:
  "\<exists>s' s'' r. getNewPage demo_env 0 (1, 2, 3, 4) None 64 (demo_cache UnifiedMRU) = Inr (s', Some r) \<and>
    getCachedPage (1, 2, 3, 4) None s' = Inr (s'', Some r) \<and> refCount (pages s'' r) = 2"
proof -
  have "shm_malloc demo_env (shm (demo_cache UnifiedMRU)) 64 = (1, Some (0, 0))"
    by (simp add: demo_env_def demo_free)
  moreover have "0 < rounds demo_env" "header_size \<le> unat (64 :: 64 word)"
    "\<not> containsPage (1, 2, 3, 4) (demo_cache UnifiedMRU)" "strategy (demo_cache UnifiedMRU) \<noteq> UnifiedDBMIN"
    by (simp_all add: demo_env_def header_size_def containsPage_def demo_free)
  ultimately show ?thesis
    using new_page_is_cached [OF demo_free(1), of UnifiedMRU "(1, 2, 3, 4)" demo_env 64 1 0 0 0 None] by blast
qed

section \<open>Invariant and safety\<close>

text \<open>C12: The books of the cache are right in every reachable state, under every strategy and every
  order of calls that come back, flush rounds (writes that fail and pages whose set is gone included)
  and clients' actions, as long as clients drop no page that is in the flush buffer: no key is cached twice, each page is filed under
  its own ids and still has its frame, the size is the sum over the cached pages of their size and
  the 512 bytes of alignment (no eviction, flush or drop is counted twice or forgotten), and each
  page waiting in the flush buffer is in it once, is cached and is marked as in flush.\<close>

theorem page_cache_invariant:
  assumes "cache_reach env s"
  shows "distinct (map fst (cache s)) \<and>
    (\<forall>(k, r) \<in> set (cache s). key_of (pages s r) = k \<and> rawBytes (pages s r) \<noteq> None) \<and>
    csize s = (\<Sum>(k, r)\<leftarrow>cache s. psize (pages s r) + 512) \<and>
    distinct (cb_contents (flushBuf s)) \<and>
    (\<forall>r \<in> set (cb_contents (flushBuf s)). (key_of (pages s r), r) \<in> set (cache s) \<and> inFlush (pages s r))"
  using cache_reach_inv [OF assms] by (auto simp: cache_inv_def frame_bytes_def in_cache_def)

lemma page_cache_invariant_witness:
  "\<exists>s r. cache_reach demo_env s \<and> map_of (cache s) (1, 2, 3, 4) = Some r \<and>
    csize s = (\<Sum>(k, r)\<leftarrow>cache s. psize (pages s r) + 512) \<and> csize s = 576"
proof -
  have "shm_malloc demo_env (shm (demo_cache UnifiedMRU)) 64 = (1, Some (0, 0))"
    "0 < rounds demo_env" "header_size \<le> unat (64 :: 64 word)"
    "\<not> containsPage (1, 2, 3, 4) (demo_cache UnifiedMRU)" "strategy (demo_cache UnifiedMRU) \<noteq> UnifiedDBMIN"
    by (simp_all add: demo_env_def header_size_def containsPage_def demo_free)
  then obtain s' r where s': "getNewPage demo_env 0 (1, 2, 3, 4) None 64 (demo_cache UnifiedMRU) = Inr (s', Some r)"
    "map_of (cache s') (1, 2, 3, 4) = Some r" "csize s' = csize (demo_cache UnifiedMRU) + (64 + 512)"
    using getNewPage_miss [OF demo_free(1), of UnifiedMRU "(1, 2, 3, 4)" demo_env 64 1 0 0 0 None] by blast
  have reach: "cache_reach demo_env s'" by (rule reach_step [OF demo_reach step_getNewPage [OF s'(1)]])
  have "csize s' = 576" using s'(3) by (simp add: demo_cache_def cache_new_def)
  then show ?thesis using page_cache_invariant [OF reach] reach s'(2) by blast
qed



section \<open>What an eviction achieves\<close>

lemma evictPage_succeeds:
  assumes inv: "cache_inv s" and at: "map_of (cache s) k = Some r" and idle: "\<not> refCount (pages s r) > 0"
    and free: "\<not> cacheMutex s" "evictionAndFlushLock s = Unlocked"
    and room: "length (cb_contents (flushBuf s)) < cb_capacity (flushBuf s)"
  shows "\<exists>s'. evictPage env k True s = Inr (s', True) \<and> \<not> cacheMutex s' \<and> evictionAndFlushLock s' = Unlocked \<and>
    evictionMutex s' = evictionMutex s \<and> evicting s' = evicting s \<and> strategy s' = strategy s \<and>
    evictStopSize s' = evictStopSize s \<and> (\<forall>x. x \<noteq> r \<longrightarrow> pages s' x = pages s x) \<and>
    (\<forall>x. x \<noteq> r \<longrightarrow> in_cache s' x = in_cache s x) \<and>
    (in_cache s' r \<longrightarrow> inFlush (pages s' r) \<and> inEviction (pages s' r)) \<and>
    length (cb_contents (flushBuf s')) \<le> Suc (length (cb_contents (flushBuf s))) \<and>
    cb_capacity (flushBuf s') = cb_capacity (flushBuf s)"
proof -
  obtain b where b: "cb_addPageToTail r (flushBuf s) = Some b" "cb_contents b = cb_contents (flushBuf s) @ [r]"
    "cb_capacity b = cb_capacity (flushBuf s)"
    using cb_add_room [of "flushBuf s" r] room inv by (auto simp: cache_inv_def)
  have inc: "in_cache s r" "key_of (pages s r) = k" using at inv by (simp_all add: map_of_in_cache)
  then obtain m where m: "rawBytes (pages s r) = Some m"
    using cache_invD(2) [OF inv] by (fastforce simp: in_cache_def)
  have keep: "(key_of (pages s x), x) \<in> set (filter (\<lambda>(k', _). k' \<noteq> k) (cache s)) \<longleftrightarrow>
      (key_of (pages s x), x) \<in> set (cache s)" if "x \<noteq> r" for x
    using that at cache_invD(4) [OF inv, of "key_of (pages s x)" x] by auto
  have gone: "(key_of p, r) \<notin> set (filter (\<lambda>(k', _). k' \<noteq> k) (cache s))" for p
    using inc cache_invD(1) [OF inv, of "key_of p" r] by auto
  have len: "cb_len b = Suc (cb_len (flushBuf s))" using arg_cong [OF b(2), of length] by simp
  show ?thesis
    using at idle free b m keep gone len
    by (auto simp: evictPage_def enqueue_flush_def upd_page_def must_flush_def flushLock_def release_frame_def
        removePage_def lock_cache_mutex_def unlock_cache_mutex_def rw_unlock_def erase_page_def in_cache_def
        key_of_def Let_def)
qed

lemma evictPage_csize:
  assumes inv: "cache_inv s" and at: "map_of (cache s) k = Some r" and idle: "refCount (pages s r) = 0"
    and run: "evictPage env k True s = Inr (s', True)"
  shows "csize s' = csize s - (if in_cache s' r then 0 else psize (pages s r) + 512)"
proof -
  have inc: "(k, r) \<in> set (cache s)" and key: "key_of (pages s r) = k"
    using at inv by (auto simp: map_of_SomeD map_of_in_cache)
  define p where "p = (pages s r)\<lparr>pinned := False\<rparr>"
  consider "must_flush True p \<or> inFlush p" | "\<not> must_flush True p" "\<not> inFlush p" by blast
  then show ?thesis
  proof cases
    case 1
    then have "cache s' = cache s" "csize s' = csize s" "key_of (pages s' r) = k"
      using run at idle key
      by (auto simp: evictPage_def p_def andThen_Inr_iff upd_page_def enqueue_flush_def key_of_def Let_def
          split: if_splits option.splits)
    then show ?thesis using inc by (simp add: in_cache_def)
  next
    case 2
    then have c: "cache s' = filter (\<lambda>(k', _). k' \<noteq> k) (cache s)"
      "csize s' = csize s - (psize (pages s r) + 512)" "key_of (pages s' r) = k"
      using run at idle key
      by (auto simp: evictPage_def p_def andThen_Inr_iff upd_page_def flushLock_def release_frame_def
          removePage_def lock_cache_mutex_def unlock_cache_mutex_def erase_page_def rw_unlock_def key_of_def Let_def
          split: if_splits option.splits rwlock.splits)
    then show ?thesis by (simp add: in_cache_def)
  qed
qed

lemma distinct_cached_refs: "cache_inv s \<Longrightarrow> distinct (map snd (cache s))"
proof -
  assume inv: "cache_inv s"
  have "inj_on snd (set (cache s))"
    by (rule inj_onI) (use cache_invD(1) [OF inv] in \<open>auto simp: prod_eq_iff\<close>, (metis prod.collapse)+)
  moreover have "distinct (cache s)" using inv by (auto simp: cache_inv_def dest: distinct_map [THEN iffD1])
  ultimately show ?thesis by (simp add: distinct_map)
qed

text \<open>\<open>away s r\<close>: the page has been evicted, or is on its way to disk and will be evicted there.\<close>

definition away :: "'h cstate \<Rightarrow> nat \<Rightarrow> bool" where
  "away s r \<longleftrightarrow> \<not> in_cache s r \<or> inFlush (pages s r) \<and> inEviction (pages s r)"

definition cache_free :: "'h cstate \<Rightarrow> bool" where
  "cache_free s \<longleftrightarrow> \<not> cacheMutex s \<and> evictionAndFlushLock s = Unlocked"

text \<open>The bytes of the frames, with their alignment, of those of the pages \<open>rs\<close> that left the cache.\<close>

definition released :: "'h cstate \<Rightarrow> 'h cstate \<Rightarrow> nat list \<Rightarrow> 64 word" where
  "released s s' rs = (\<Sum>r\<leftarrow>filter (\<lambda>r. \<not> in_cache s' r) rs. psize (pages s r) + 512)"

lemma released_Nil [simp]: "released s s' [] = 0"
  by (simp add: released_def)

lemma released_Cons:
  assumes "\<forall>x \<in> set rs. pages t x = pages s x" "in_cache s' r = in_cache t r"
  shows "released s s' (r # rs) = (if in_cache t r then 0 else psize (pages s r) + 512) + released t s' rs"
proof -
  have "map (\<lambda>x. psize (pages t x) + 512) (filter (\<lambda>x. \<not> in_cache s' x) rs) =
      map (\<lambda>x. psize (pages s x) + 512) (filter (\<lambda>x. \<not> in_cache s' x) rs)"
    using assms(1) by simp
  then show ?thesis using assms(2) by (simp only: released_def filter.simps list.map sum_list.Cons sum_list_simps if_not_P split: if_split) simp
qed

lemma evict_queue_progress:
  assumes "cache_inv s" "cache_free s" "distinct q"
    "\<forall>r \<in> set q. in_cache s r \<and> refCount (pages s r) = 0"
    "length (cb_contents (flushBuf s)) + length q \<le> cb_capacity (flushBuf s)"
  shows "\<exists>s' done rest. evict_queue env q s = Inr s' \<and> q = done @ rest \<and> cache_free s' \<and>
    evictionMutex s' = evictionMutex s \<and> strategy s' = strategy s \<and> evictStopSize s' = evictStopSize s \<and>
    (rest = [] \<or> csize s' \<le> evictStopSize s) \<and> (\<forall>r \<in> set done. away s' r) \<and>
    csize s' = csize s - released s s' done \<and>
    (\<forall>i < length done. evictStopSize s < csize s - released s s' (take i done)) \<and>
    (\<forall>x. x \<notin> set done \<longrightarrow> pages s' x = pages s x \<and> in_cache s' x = in_cache s x)"
  using assms
proof (induction q arbitrary: s)
  case Nil
  then show ?case by auto
next
  case (Cons r q)
  show ?case
  proof (cases "csize s > evictStopSize s")
    case False
    then show ?thesis using Cons.prems(2) by (intro exI [of _ s] exI [of _ "[]"] exI [of _ "r # q"]) auto
  next
    case True
    have at: "map_of (cache s) (key_of (pages s r)) = Some r"
      using Cons.prems(1,4) by (simp add: map_of_in_cache)
    obtain t where t: "evictPage env (key_of (pages s r)) True s = Inr (t, True)" "cache_free t"
      "evictionMutex t = evictionMutex s" "strategy t = strategy s" "evictStopSize t = evictStopSize s"
      "\<forall>x. x \<noteq> r \<longrightarrow> pages t x = pages s x" "\<forall>x. x \<noteq> r \<longrightarrow> in_cache t x = in_cache s x"
      "away t r" "length (cb_contents (flushBuf t)) \<le> Suc (length (cb_contents (flushBuf s)))"
      "cb_capacity (flushBuf t) = cb_capacity (flushBuf s)"
      using evictPage_succeeds [OF Cons.prems(1) at, of env] Cons.prems(2,4,5)
      by (force simp: cache_free_def away_def)
    have size: "csize t = csize s - (if in_cache t r then 0 else psize (pages s r) + 512)"
      using evictPage_csize [OF Cons.prems(1) at _ t(1)] Cons.prems(4) by simp
    have inv: "cache_inv t" using good_evictPage [OF t(1)] Cons.prems(1) by (rule good_inv)
    have rq: "r \<notin> set q" "distinct q" using Cons.prems(3) by auto
    have "\<exists>s' done rest. evict_queue env q t = Inr s' \<and> q = done @ rest \<and> cache_free s' \<and>
      evictionMutex s' = evictionMutex t \<and> strategy s' = strategy t \<and> evictStopSize s' = evictStopSize t \<and>
      (rest = [] \<or> csize s' \<le> evictStopSize t) \<and> (\<forall>r \<in> set done. away s' r) \<and>
      csize s' = csize t - released t s' done \<and>
      (\<forall>i < length done. evictStopSize t < csize t - released t s' (take i done)) \<and>
      (\<forall>x. x \<notin> set done \<longrightarrow> pages s' x = pages t x \<and> in_cache s' x = in_cache t x)"
      by (rule Cons.IH [OF inv t(2) rq(2)]) (use Cons.prems t rq in auto)
    then obtain s' dn rest where s': "evict_queue env q t = Inr s'" "q = dn @ rest" "cache_free s'"
      "evictionMutex s' = evictionMutex t" "strategy s' = strategy t" "evictStopSize s' = evictStopSize t"
      "rest = [] \<or> csize s' \<le> evictStopSize t" "\<forall>r \<in> set dn. away s' r"
      "\<forall>x. x \<notin> set dn \<longrightarrow> pages s' x = pages t x \<and> in_cache s' x = in_cache t x"
      "csize s' = csize t - released t s' dn"
      "\<forall>i < length dn. evictStopSize t < csize t - released t s' (take i dn)" by blast
    have "away s' r" using s'(2,9) rq t(8) by (auto simp: away_def)
    moreover have rel: "csize s - released s s' (r # xs) = csize t - released t s' xs" if "set xs \<subseteq> set dn" for xs
    proof -
      have "\<forall>x \<in> set xs. pages t x = pages s x" "in_cache s' r = in_cache t r"
        using that rq s'(2,9) t(6) by auto
      from released_Cons [OF this] size show ?thesis by simp
    qed
    moreover have "evictStopSize s < csize s - released s s' (take i (r # dn))" if "i < Suc (length dn)" for i
    proof (cases i)
      case 0
      then show ?thesis using True by simp
    next
      case (Suc j)
      then show ?thesis using that rel [of "take j dn"] s'(11) t(5) by (simp add: set_take_subset)
    qed
    moreover have "evict_queue env (r # q) s = Inr s'"
      using True t(1) s'(1) by (simp add: evictPage_of_set_def on_set_def Let_def)
    ultimately show ?thesis
      using s' t rel [of dn] by (intro exI [of _ s'] exI [of _ "r # dn"] exI [of _ rest]) auto
  qed
qed

lemma mru_queue_facts:
  assumes "cache_inv s"
  shows "distinct (mru_queue s)" "set (mru_queue s) = {r. in_cache s r \<and> evictable (pages s r)}"
    "sorted (map (\<lambda>r. - accessSequenceId (pages s r)) (mru_queue s))" "length (mru_queue s) \<le> length (cache s)"
proof -
  show "distinct (mru_queue s)"
    using distinct_cached_refs [OF assms] by (simp add: mru_queue_def)
  show "set (mru_queue s) = {r. in_cache s r \<and> evictable (pages s r)}"
    using cache_invD(1) [OF assms] by (force simp: mru_queue_def in_cache_def)
  show "sorted (map (\<lambda>r. - accessSequenceId (pages s r)) (mru_queue s))"
    unfolding mru_queue_def by (rule sorted_sort_key)
  show "length (mru_queue s) \<le> length (cache s)"
    unfolding mru_queue_def using length_filter_le [of _ "map snd (cache s)"] by simp
qed

text \<open>C22: An eviction under the MRU and the LRU strategy.  In a reachable cache whose locks are free, in
  which no eviction is running and whose flush buffer has room for all cached pages, \<open>evict\<close> comes back and gives back every lock.  It has gone through the
  unreferenced pages that are not already on their way to disk in the order of their last access,
  the most recent first under both strategies (although \<open>PageCache.h\<close> documents strategy 0 as LRU), and
  evicted the first of them or sent them to disk, as many as it takes and no more: before each
  victim the cache was larger than the stop size, and at the end it is no larger or no such page is
  left.  The size has shrunk by the frames of the victims that were not only sent to disk.  Every
  other page is untouched.\<close>

theorem mru_eviction_outcome:
  assumes "cache_reach env s" and "locks_free s" and "\<not> evicting s"
    and "strategy s = UnifiedMRU \<or> strategy s = UnifiedLRU"
    and "length (cb_contents (flushBuf s)) + length (cache s) \<le> cb_capacity (flushBuf s)"
  shows "\<exists>s' victims rest. evict env s = Inr s' \<and> locks_free s' \<and> \<not> evicting s' \<and>
    set (victims @ rest) = {r. in_cache s r \<and> evictable (pages s r)} \<and>
    sorted (map (\<lambda>r. - accessSequenceId (pages s r)) (victims @ rest)) \<and>
    (\<forall>r \<in> set victims. \<not> in_cache s' r \<or> inFlush (pages s' r) \<and> inEviction (pages s' r)) \<and>
    (rest = [] \<or> csize s' \<le> evictStopSize s) \<and>
    (\<forall>i < length victims. evictStopSize s < csize s - released s s' (take i victims)) \<and>
    csize s' = csize s - released s s' victims \<and>
    (\<forall>x. x \<notin> set victims \<longrightarrow> pages s' x = pages s x \<and> in_cache s' x = in_cache s x)"
proof -
  have inv: "cache_inv s" by (rule cache_reach_inv [OF assms(1)])
  define t where "t = s\<lparr>evictionMutex := True, evicting := True\<rparr>"
  have t: "cache_inv t" "cache_free t" "mru_queue t = mru_queue s" "in_cache t = in_cache s"
    using good_inv [OF good_frame inv, of t] assms(2)
    by (auto simp: t_def cache_free_def locks_free_def mru_queue_def in_cache_def)
  have tf: "pages t = pages s" "evictionMutex t" "evictStopSize t = evictStopSize s" "in_cache t = in_cache s"
    using t(4) by (simp_all add: t_def)
  note q = mru_queue_facts [OF inv]
  have "\<exists>s' done rest. evict_queue env (mru_queue s) t = Inr s' \<and> mru_queue s = done @ rest \<and> cache_free s' \<and>
    evictionMutex s' = evictionMutex t \<and> strategy s' = strategy t \<and> evictStopSize s' = evictStopSize t \<and>
    (rest = [] \<or> csize s' \<le> evictStopSize t) \<and> (\<forall>r \<in> set done. away s' r) \<and>
    csize s' = csize t - released t s' done \<and>
    (\<forall>i < length done. evictStopSize t < csize t - released t s' (take i done)) \<and>
    (\<forall>x. x \<notin> set done \<longrightarrow> pages s' x = pages t x \<and> in_cache s' x = in_cache t x)"
    by (rule evict_queue_progress [OF t(1,2) q(1)])
      (use q t assms(5) in \<open>auto simp: t_def evictable_def\<close>)
  then obtain u dn rest where u: "evict_queue env (mru_queue s) t = Inr u" "mru_queue s = dn @ rest" "cache_free u"
    "evictionMutex u" "evictStopSize u = evictStopSize s" "rest = [] \<or> csize u \<le> evictStopSize s"
    "\<forall>r \<in> set dn. away u r" "\<forall>x. x \<notin> set dn \<longrightarrow> pages u x = pages s x \<and> in_cache u x = in_cache s x"
    "csize u = csize t - released t u dn"
    "\<forall>i < length dn. evictStopSize s < csize t - released t u (take i dn)"
    unfolding tf(1,3,4) using tf(2) by blast
  define s' where "s' = u\<lparr>evictionMutex := False, evicting := False\<rparr>"
  have mru: "evict_mru env t = Inr u"
  proof -
    let ?w = "t\<lparr>evictionAndFlushLock := Writer\<rparr>"
    have "evictionLock t = Inr ?w" using t(2) by (simp add: evictionLock_def cache_free_def)
    moreover have "rw_unlock ?w = Inr t" using t(2) by (cases t) (simp add: rw_unlock_def cache_free_def)
    moreover have "mru_queue ?w = mru_queue s" using t(3) by (simp add: mru_queue_def)
    ultimately show ?thesis using u(1) by (simp add: evict_mru_def Let_def)
  qed
  have "evict env s = Inr s'"
    using assms(2,3,4) mru u(4)
    by (auto simp: evict_def lock_eviction_mutex_def unlock_eviction_mutex_def locks_free_def t_def [symmetric] s'_def)
      (auto simp: t_def)
  moreover have "in_cache s' = in_cache u" "pages s' = pages u" "csize s' = csize u" by (auto simp: s'_def in_cache_def)
  moreover have "csize t = csize s" "released t u xs = released s s' xs" for xs
    by (simp_all add: released_def s'_def t_def in_cache_def)
  moreover have "locks_free s'" "\<not> evicting s'" using u(3) by (simp_all add: s'_def locks_free_def cache_free_def)
  ultimately show ?thesis
    using u q by (intro exI [of _ s'] exI [of _ dn] exI [of _ rest]) (auto simp: away_def)
qed

lemma demo_new_page:
  assumes "strategy (demo_cache st) \<noteq> UnifiedDBMIN"
  obtains s r where "getNewPage demo_env 0 (1, 2, 3, 4) None 64 (demo_cache st) = Inr (s, Some r)"
    "cache s = [((1, 2, 3, 4), r)]" "refCount (pages s r) = 1" "dirty (pages s r)" "locks_free s" "\<not> evicting s"
    "flushBuf s = cb_new 8" "strategy s = st" "evictStopSize s = 100" "csize s = 576" "cache_reach demo_env s" "\<not> inFlush (pages s r)"
proof -
  have "shm_malloc demo_env (shm (demo_cache st)) 64 = (1, Some (0, 0))"
    "0 < rounds demo_env" "header_size \<le> unat (64 :: 64 word)" "\<not> containsPage (1, 2, 3, 4) (demo_cache st)"
    by (simp_all add: demo_env_def header_size_def containsPage_def demo_free)
  then obtain s r where s: "getNewPage demo_env 0 (1, 2, 3, 4) None 64 (demo_cache st) = Inr (s, Some r)"
    "refCount (pages s r) = 1" "dirty (pages s r)" "csize s = csize (demo_cache st) + (64 + 512)" "locks_free s"
    "cache s = cache (demo_cache st) @ [((1, 2, 3, 4), r)]" "evicting s = evicting (demo_cache st)"
    "flushBuf s = flushBuf (demo_cache st)" "strategy s = strategy (demo_cache st)"
    "evictStopSize s = evictStopSize (demo_cache st)" "\<not> inFlush (pages s r)"
    using getNewPage_miss [OF demo_free(1) assms, of "(1, 2, 3, 4)" demo_env 64 1 0 0 0 None] by blast
  show ?thesis
    by (rule that [OF s(1)])
      (use s reach_step [OF demo_reach step_getNewPage [OF s(1)]] in \<open>simp_all add: demo_cache_def cache_new_def\<close>)
qed

lemma mru_eviction_outcome_witness:
  "\<exists>s s' r. evict demo_env s = Inr s' \<and> locks_free s' \<and> cache s = [((1, 2, 3, 4), r)] \<and> csize s = 576 \<and>
    evictStopSize s = 100 \<and> (\<not> in_cache s' r \<or> inFlush (pages s' r) \<and> inEviction (pages s' r) \<or> csize s' \<le> 100)"
proof -
  obtain s0 r where s0: "cache s0 = [((1, 2, 3, 4), r)]" "refCount (pages s0 r) = 1" "dirty (pages s0 r)"
    "locks_free s0" "\<not> evicting s0" "flushBuf s0 = cb_new 8" "strategy s0 = UnifiedMRU"
    "evictStopSize s0 = 100" "csize s0 = 576" "cache_reach demo_env s0"
    "\<not> inFlush (pages s0 r)" by (rule demo_new_page [of UnifiedMRU]) (simp add: demo_free)
  define s where "s = fst (decPageRefCount (1, 2, 3, 4) s0)"
  have s_upd: "s = upd_page r decRefCount s0" using s0(1) by (simp add: s_def decPageRefCount_def)
  have reach: "cache_reach demo_env s" unfolding s_def by (rule reach_dec [OF s0(10)])
  have s: "cache s = [((1, 2, 3, 4), r)]" "locks_free s" "\<not> evicting s" "flushBuf s = cb_new 8"
    "strategy s = UnifiedMRU \<or> strategy s = UnifiedLRU" "evictStopSize s = 100" "csize s = 576"
    using s0 by (simp_all add: s_upd upd_page_def locks_free_def)
  have r: "refCount (pages s r) = 0" "in_cache s r"
    using s0(2) cache_invD(1) [OF cache_reach_inv [OF reach], of "(1, 2, 3, 4)" r] s(1)
    by (auto simp: s_upd upd_page_def decRefCount_def in_cache_def)
  have "evictable (pages s r)"
    using s0(2,3,11) by (simp add: s_upd upd_page_def decRefCount_def evictable_def)
  have "length (cb_contents (flushBuf s)) + length (cache s) \<le> cb_capacity (flushBuf s)"
    using s(1,4) by (simp add: cb_new_def cb_len_def cb_capacity_def)
  from mru_eviction_outcome [OF reach s(2,3,5) this] obtain s' victims rest where
    e: "evict demo_env s = Inr s'" "locks_free s'"
    "set (victims @ rest) = {r. in_cache s r \<and> evictable (pages s r)}"
    "\<forall>r \<in> set victims. \<not> in_cache s' r \<or> inFlush (pages s' r) \<and> inEviction (pages s' r)"
    "rest = [] \<or> csize s' \<le> evictStopSize s" by blast
  have "r \<in> set (victims @ rest)" using \<open>evictable (pages s r)\<close> r(2) e(3) by simp
  then have "\<not> in_cache s' r \<or> inFlush (pages s' r) \<and> inEviction (pages s' r) \<or> csize s' \<le> 100"
    using e(4,5) s(6) by auto
  then show ?thesis using e(1,2) s(1,6,7) by blast
qed

section \<open>Faults\<close>

lemma allocate_spins:
  assumes "\<And>h. snd (shm_malloc env h n) = None" and "evicting s"
  shows "allocate j env n s = Inl Stuck"
  using assms(2)
proof (induction j arbitrary: s)
  case (Suc j)
  obtain h where "shm_malloc env (shm s) n = (h, None)" using assms(1) by (metis prod.collapse)
  then show ?case using Suc by simp
qed simp

text \<open>An eviction under the DBMIN strategy blocks the cache for good.  \<open>evict\<close> returns from its DBMIN
  branch without evicting anything, with the eviction mutex held and the eviction flag set: the next
  call that gets or creates a page waits for the mutex for ever, a further \<open>evictAllDirtyPages\<close> returns
  at once, and the loop that allocates a page while shared memory is full never ends, whatever the
  number of rounds.\<close>

theorem dbmin_eviction_never_unlocks:
  assumes "strategy s = UnifiedDBMIN" and "locks_free s" and "\<not> evicting s"
  shows "\<exists>s'. evict env s = Inr s' \<and> pages s' = pages s \<and> cache s' = cache s \<and>
    getPage env f part sq pid os s' = Inl Stuck \<and> getNewPage env node k os n s' = Inl Stuck \<and>
    getNewPageNonBlocking env node k os n s' = Inl Stuck \<and> evictAllDirtyPages env s' = Inr (s', 0) \<and>
    ((\<forall>h. snd (shm_malloc env h n) = None) \<longrightarrow> (\<forall>rounds. allocate rounds env n s' = Inl Stuck))"
proof -
  let ?s = "s\<lparr>evictionMutex := True, evicting := True\<rparr>"
  have "evict env s = Inr ?s"
    using assms by (simp add: evict_def lock_eviction_mutex_def locks_free_def)
  then show ?thesis
    using assms(1) allocate_spins [of env n ?s]
    by (simp add: getPage_def getNewPage_def getNewPageNonBlocking_def with_dbmin_def lock_eviction_mutex_def
        evictAllDirtyPages_def evict_all_with_def)
qed

lemma dbmin_eviction_never_unlocks_witness:
  "\<exists>s'. evict (demo_env\<lparr>shm_malloc := \<lambda>h n. (h, None)\<rparr>) (demo_cache UnifiedDBMIN) = Inr s' \<and>
    allocate 1000 (demo_env\<lparr>shm_malloc := \<lambda>h n. (h, None)\<rparr>) 64 s' = Inl Stuck"
proof -
  have "\<not> evicting (demo_cache UnifiedDBMIN)" by (simp add: demo_cache_def cache_new_def)
  from dbmin_eviction_never_unlocks [OF demo_free(3) demo_free(1) this,
      of "demo_env\<lparr>shm_malloc := \<lambda>h n. (h, None)\<rparr>" undefined 0 0 0 None 0 "(0, 0, 0, 0)" 64]
  show ?thesis by auto
qed

text \<open>Dropping a page leaves it in its locality set.  After \<open>freePage\<close> the set still offers the page for
  replacement; when \<open>evictForDBMIN\<close> takes the offer, the eviction fails because the page is no longer
  cached, and the function leaves its loop without the lock and releases it a second time.\<close>

theorem dbmin_eviction_unlocks_twice:
  assumes "freePage env r s = Inr (s', True)" and "locks_free s"
    and "selectPageForReplacement (pages s) (sets s l) = Some r"
    and "desiredSize (sets s l) \<le> scast (numCachedPages (sets s l))"
  shows "evictForDBMIN env (Some l) s' = Inl BadUnlock"
proof -
  let ?k = "key_of (pages s r)"
  obtain r' where at: "map_of (cache s) ?k = Some r'"
    and rel: "release_frame env r (psize (pages s r) + 512)
        ((erase_page ?k r' (s\<lparr>cacheMutex := True\<rparr>))\<lparr>cacheMutex := False\<rparr>) = Inr s'"
    using assms(1) by (auto simp: freePage_def Let_def andThen_Inr_iff lock_cache_mutex_def unlock_cache_mutex_def
        erase_page_def split: if_splits option.splits)
  then have s': "sets s' = sets s" "cache s' = filter (\<lambda>(k', _). k' \<noteq> ?k) (cache s)"
    "evictionAndFlushLock s' = Unlocked" "key_of (pages s' r) = ?k"
    "\<And>x. refCount (pages s' x) = refCount (pages s x)"
    using assms(2) by (auto simp: release_frame_def erase_page_def upd_page_def locks_free_def key_of_def
        split: option.splits)
  have gone: "map_of (cache s') ?k = None"
    using s'(2) by (auto simp: map_of_eq_None_iff)
  have sel: "selectPageForReplacement (pages s') (sets s' l) = Some r"
    using assms(3) s'(1,5) by (simp add: selectPageForReplacement_def)
  show ?thesis
    using s' gone sel assms(4)
    by (simp add: evictForDBMIN_def evictionLock_def rw_unlock_def evictPage_of_set_def evictPage_def)
qed

definition dbmin_demo :: "nat cstate" where
  "dbmin_demo = (demo_cache UnifiedDBMIN)\<lparr>cache := [((1, 2, 3, 4), 0)], csize := 576,
     sets := \<lambda>_. (locset_new JobData LRU Read TryCache Persistent 1 False)
                \<lparr>cachedPages := [0], numCachedPages := 1\<rparr>\<rparr>"

lemma dbmin_eviction_unlocks_twice_witness:
  "\<exists>s'. freePage demo_env 0 dbmin_demo = Inr (s', True) \<and> evictForDBMIN demo_env (Some 0) s' = Inl BadUnlock"
proof -
  have pg: "pages dbmin_demo 0 = demo_page" "key_of demo_page = (1, 2, 3, 4)" "locks_free dbmin_demo"
    "\<not> cacheMutex dbmin_demo" "cache dbmin_demo = [((1, 2, 3, 4), 0)]"
    "sets dbmin_demo 0 = (locset_new JobData LRU Read TryCache Persistent 1 False)
       \<lparr>cachedPages := [0], numCachedPages := 1\<rparr>"
    by (simp_all add: dbmin_demo_def demo_cache_def cache_new_def demo_page_def key_of_def locks_free_def)
  have "\<exists>s'. freePage demo_env 0 dbmin_demo = Inr (s', True)"
    using pg by (simp add: freePage_def lock_cache_mutex_def unlock_cache_mutex_def release_frame_def
        erase_page_def Let_def) (simp add: demo_page_def)
  then obtain s' where s': "freePage demo_env 0 dbmin_demo = Inr (s', True)" ..
  have "selectPageForReplacement (pages dbmin_demo) (sets dbmin_demo 0) = Some 0"
    using pg by (simp add: selectPageForReplacement_def eviction_order_def locset_new_def) (simp add: demo_page_def)
  moreover have "desiredSize (sets dbmin_demo 0) \<le> scast (numCachedPages (sets dbmin_demo 0))"
    using pg by (simp add: locset_new_def)
  ultimately have "evictForDBMIN demo_env (Some 0) s' = Inl BadUnlock"
    by (rule dbmin_eviction_unlocks_twice [OF s' pg(3)])
  then show ?thesis using s' by blast
qed

text \<open>A page whose write fails is lost.  The flushing thread only prints that \<open>appendPage\<close> failed and goes
  on as if the page were on disk: in a reachable cache, a page that was sent to disk by an eviction
  and that nobody refers to leaves the cache, its frame is released, and nothing has been written.\<close>

theorem failed_write_loses_page:
  assumes "cache_reach env s" and "locks_free s" and "cb_contents (flushBuf s) = r # q"
    and "refCount (pages s r) = 0" and "inEviction (pages s r)" and "dirty (pages s r)"
  shows "\<exists>s'. flush_round env True False s = Inr s' \<and> \<not> containsPage (key_of (pages s r)) s' \<and>
    rawBytes (pages s' r) = None \<and> \<not> dirty (pages s' r) \<and> written s' = written s"
proof -
  have inv: "cache_inv s" by (rule cache_reach_inv [OF assms(1)])
  then have ok: "cb_ok (flushBuf s)" by (simp add: cache_inv_def)
  obtain b where pop: "cb_popPageFromHead (flushBuf s) = (b, Some r)"
    using cb_pop_nonempty [OF ok assms(3)] by blast
  have inc: "in_cache s r" using inv assms(3) by (simp add: cache_inv_def)
  then have at: "map_of (cache s) (key_of (pages s r)) = Some r" using inv by (simp add: map_of_in_cache)
  obtain m where m: "rawBytes (pages s r) = Some m"
    using cache_invD(2) [OF inv] inc by (fastforce simp: in_cache_def)
  have gone: "map_of (filter (\<lambda>(k', _). k' \<noteq> k) xs) k = None" for k :: key and xs :: "(key \<times> nat) list"
    by (auto simp: map_of_eq_None_iff)
  show ?thesis
    using assms(2,4,5) m at gone
    by (simp add: flush_round_def pop Let_def flushLock_def locks_free_def release_frame_def upd_page_def
        removePage_def lock_cache_mutex_def unlock_cache_mutex_def erase_page_def rw_unlock_def containsPage_def
        key_of_def)
qed

lemma demo_flushing:
  obtains s r where "cache_reach demo_env s" "locks_free s" "cb_contents (flushBuf s) = [r]"
    "refCount (pages s r) = 0" "inEviction (pages s r)" "dirty (pages s r)" "key_of (pages s r) = (1, 2, 3, 4)"
proof -
  obtain s0 r where s0: "cache s0 = [((1, 2, 3, 4), r)]" "refCount (pages s0 r) = 1" "dirty (pages s0 r)"
    "locks_free s0" "flushBuf s0 = cb_new 8" "cache_reach demo_env s0" "\<not> inFlush (pages s0 r)"
    by (rule demo_new_page [of UnifiedMRU]) (simp add: demo_free)
  have key: "key_of (pages s0 r) = (1, 2, 3, 4)"
    using cache_invD(1) [OF cache_reach_inv [OF s0(6)], of "(1, 2, 3, 4)" r] s0(1) by simp
  define s where "s = upd_page r decRefCount s0"
  have reach: "cache_reach demo_env s"
    using reach_dec [OF s0(6), of "(1, 2, 3, 4)"] s0(1) by (simp add: s_def decPageRefCount_def)
  have s: "cache s = [((1, 2, 3, 4), r)]" "locks_free s" "flushBuf s = cb_new 8" "refCount (pages s r) = 0"
    "dirty (pages s r)" "\<not> inFlush (pages s r)" "key_of (pages s r) = (1, 2, 3, 4)"
    using s0 key by (simp_all add: s_def upd_page_def locks_free_def decRefCount_def key_of_def)
  obtain b where b: "cb_addPageToTail r (cb_new 8) = Some b" "cb_contents b = [r]"
  proof -
    have ok: "cb_ok (cb_new 8 :: nat cbuf)" by (rule cb_new_ok) simp
    have e: "cb_contents (cb_new 8 :: nat cbuf) = []" by (rule cb_new_ok) simp
    have "length (cb_contents (cb_new 8 :: nat cbuf)) < cb_capacity (cb_new 8 :: nat cbuf)"
      by (simp add: cb_new_def cb_len_def cb_capacity_def)
    from cb_add_room [OF ok this, of r] show ?thesis using that e by auto
  qed
  define s' where "s' = (upd_page r (\<lambda>p. p\<lparr>inFlush := True, inEviction := True\<rparr>)
      (upd_page r (\<lambda>p. p\<lparr>pinned := False\<rparr>) s))\<lparr>flushBuf := b, numEvicted := numEvicted s + 1\<rparr>"
  have "evictPage_of_set demo_env r None s = Inr (s', True)"
    using s b(1) by (simp add: evictPage_of_set_def evictPage_def must_flush_def enqueue_flush_def upd_page_def
        on_set_def key_of_def s'_def)
  then have "cache_reach demo_env s'" by (intro reach_step [OF reach] step_evictPage)
  then show ?thesis
    by (rule that [of s' r]) (use s b in \<open>simp_all add: s'_def upd_page_def locks_free_def key_of_def\<close>)
qed

lemma failed_write_loses_page_witness:
  "\<exists>s s'. cache_reach demo_env s \<and> containsPage (1, 2, 3, 4) s \<and> flush_round demo_env True False s = Inr s' \<and>
    \<not> containsPage (1, 2, 3, 4) s' \<and> written s' = written s"
proof -
  obtain s r where s: "cache_reach demo_env s" "locks_free s" "cb_contents (flushBuf s) = [r]"
    "refCount (pages s r) = 0" "inEviction (pages s r)" "dirty (pages s r)" "key_of (pages s r) = (1, 2, 3, 4)"
    by (rule demo_flushing)
  have "containsPage (1, 2, 3, 4) s"
    using cache_reach_inv [OF s(1)] s(3,7) map_of_in_cache [of s "(1, 2, 3, 4)" r]
    by (auto simp: cache_inv_def containsPage_def)
  then show ?thesis using failed_write_loses_page [OF s(1-6)] s(1,7) by auto
qed

text \<open>A set that is used again after its lifetime ended keeps its low priority.  \<open>pin\<close> files the set under
  its level for living data but does not take it out of the list of ended sets that \<open>unpin\<close> put it
  in, so the UnifiedIntelligent eviction still takes its pages before those of any other living set,
  although the set is no longer marked as ended.\<close>

theorem repinned_set_stays_ended:
  assumes "length (priorityList s) = 6"
    and "s' = cache_pin l policy op (cache_unpin l s)"
  shows "l \<in> set (priorityList s' ! level_no (ended_level (sets s' l))) \<and>
    l \<in> set (priorityList s' ! level_no (alive_level (sets s' l))) \<and> \<not> lifetimeEnded (sets s' l) \<and>
    l \<in> set (concat (take 2 (priorityList s')))"
proof -
  obtain a b c d e f where p: "priorityList s = [a, b, c, d, e, f]"
    using assms(1) by (auto simp: length_Suc_conv numeral_eq_Suc)
  show ?thesis
    unfolding assms(2)
    by (cases "persistenceType (sets s l)"; cases "localityType (sets s l)")
      (simp_all add: p cache_pin_def cache_unpin_def upd_set_def ls_pin_def ls_unpin_def addToPriorityList_def
        removeFromPriorityList_def alive_level_def ended_level_def Let_def numeral_eq_Suc)
qed

lemma repinned_set_stays_ended_witness:
  "\<exists>s'. s' = cache_pin 0 MRU Write (cache_unpin 0 (demo_cache UnifiedIntelligent)) \<and>
    0 \<in> set (concat (take 2 (priorityList s'))) \<and> \<not> lifetimeEnded (sets s' 0)"
proof -
  have "length (priorityList (demo_cache UnifiedIntelligent)) = 6" by (simp add: demo_cache_def cache_new_def)
  from repinned_set_stays_ended [OF this refl, of 0 MRU Write] show ?thesis by simp
qed

end
