(* ===== verification/PartitionMeta.thy ===== *)
theory PartitionMeta
  imports PageHeaders
begin

text \<open>
  The metadata of a page file (\<open>src/src/storage/headers/PartitionedFileMetaData.h\<close>): the counters, the
  partitions, the index from page ids to places on disk and its inverse, and the index of the pages
  shared with another set.  A hash map is the list of its entries, with at most one entry per key; the
  order in which a loop visits them is a parameter of the code that loops.  Ids and counters are
  \<open>unsigned int\<close>, naturals whose increments wrap; a null container is \<open>None\<close>.
\<close>

section \<open>State\<close>

record page_index =
  ix_partition :: nat
  ix_seq :: nat

record part_meta =
  pm_path :: "byte list"
  pm_id :: nat
  pm_numPages :: nat

type_synonym index_map = "(nat \<times> page_index) list"

record file_meta =
  m_version :: nat
  m_partitions :: "part_meta list option"
  m_pageSize :: nat
  numFlushedPages :: nat
  latestPageId :: nat
  pageIndexes :: index_map
  pageIds :: "(page_index \<times> nat) list"
  numSharedPages :: int
  sharedSetKey :: "nat \<times> nat \<times> nat"
  sharedPageIndexes :: "page_index list option"
  sharedPageMaps :: "(nat \<times> index_map) list option"

text \<open>The constructor leaves the latest page id and the shared set's key as the memory held them.\<close>

definition meta_new :: "nat \<Rightarrow> nat \<times> nat \<times> nat \<Rightarrow> file_meta" where
  "meta_new rawId rawKey = \<lparr>m_version = 0, m_partitions = None, m_pageSize = 0, numFlushedPages = 0,
     latestPageId = rawId, pageIndexes = [], pageIds = [], numSharedPages = 0, sharedSetKey = rawKey,
     sharedPageIndexes = None, sharedPageMaps = None\<rparr>"

definition part_new :: "byte list \<Rightarrow> nat \<Rightarrow> part_meta" where
  "part_new path i = \<lparr>pm_path = path, pm_id = i, pm_numPages = 0\<rparr>"

section \<open>Operations\<close>

text \<open>\<open>unordered_map::insert\<close> keeps an existing entry; \<open>m[k] = v\<close> replaces it.\<close>

definition map_insert :: "'k \<Rightarrow> 'v \<Rightarrow> ('k \<times> 'v) list \<Rightarrow> ('k \<times> 'v) list" where
  "map_insert k v m = (case map_of m k of None \<Rightarrow> (k, v) # m | Some _ \<Rightarrow> m)"

definition map_assign :: "'k \<Rightarrow> 'v \<Rightarrow> ('k \<times> 'v) list \<Rightarrow> ('k \<times> 'v) list" where
  "map_assign k v m = (k, v) # filter (\<lambda>e. fst e \<noteq> k) m"

definition incNumFlushedPages :: "file_meta \<Rightarrow> file_meta" where
  "incNumFlushedPages m = m\<lparr>numFlushedPages := u32 (numFlushedPages m + 1)\<rparr>"

definition addPageIndex :: "nat \<Rightarrow> nat \<Rightarrow> nat \<Rightarrow> file_meta \<Rightarrow> file_meta" where
  "addPageIndex pid part sq m = (let ix = \<lparr>ix_partition = part, ix_seq = sq\<rparr> in
     m\<lparr>pageIndexes := map_insert pid ix (pageIndexes m), pageIds := map_insert ix pid (pageIds m)\<rparr>)"

definition getPageIndex :: "nat \<Rightarrow> file_meta \<Rightarrow> page_index" where
  "getPageIndex pid m = (case map_of (pageIndexes m) pid of
     None \<Rightarrow> \<lparr>ix_partition = 2 ^ 32 - 1, ix_seq = 2 ^ 32 - 1\<rparr> | Some ix \<Rightarrow> ix)"

definition getPageId :: "nat \<Rightarrow> nat \<Rightarrow> file_meta \<Rightarrow> nat" where
  "getPageId part sq m = (case map_of (pageIds m) \<lparr>ix_partition = part, ix_seq = sq\<rparr> of
     None \<Rightarrow> 2 ^ 32 - 1 | Some pid \<Rightarrow> pid)"

definition addPartition :: "part_meta \<Rightarrow> file_meta \<Rightarrow> file_meta" where
  "addPartition p m = m\<lparr>m_partitions := Some ((case m_partitions m of None \<Rightarrow> [] | Some ps \<Rightarrow> ps) @ [p])\<rparr>"

definition getPartition :: "nat \<Rightarrow> file_meta \<Rightarrow> part_meta outcome" where
  "getPartition i m = (case m_partitions m of None \<Rightarrow> Inl NullDeref
     | Some ps \<Rightarrow> if i < length ps then Inr (ps ! i) else Inl OutOfRange)"

definition incNumPages :: "nat \<Rightarrow> file_meta \<Rightarrow> file_meta outcome" where
  "incNumPages i m = (case m_partitions m of None \<Rightarrow> Inl NullDeref
     | Some ps \<Rightarrow> if i < length ps
         then Inr (m\<lparr>m_partitions := Some (ps[i := (ps ! i)\<lparr>pm_numPages := u32 (pm_numPages (ps ! i) + 1)\<rparr>])\<rparr>)
         else Inl OutOfRange)"

definition addSharedPageIndex :: "nat \<Rightarrow> nat \<Rightarrow> nat \<Rightarrow> file_meta \<Rightarrow> file_meta" where
  "addSharedPageIndex pid part sq m =
     (let ix = \<lparr>ix_partition = part, ix_seq = sq\<rparr>;
          ixs = (case sharedPageIndexes m of None \<Rightarrow> [] | Some l \<Rightarrow> l);
          maps = (case sharedPageMaps m of None \<Rightarrow> [] | Some l \<Rightarrow> l);
          inner = (case map_of maps part of None \<Rightarrow> [] | Some l \<Rightarrow> l) in
      m\<lparr>sharedPageIndexes := Some (ixs @ [ix]),
        sharedPageMaps := Some (map_assign part (map_assign pid ix inner) maps),
        numSharedPages := numSharedPages m + 1\<rparr>)"

text \<open>
  The loop of \<open>removeSharedPageIndex\<close> erases the entry under its iterator and then advances the iterator
  that \<open>erase\<close> returned: the entry after an erased one is skipped, and erasing the last entry moves
  the iterator past the end.  \<open>sharedPageMaps[partitionId]\<close> indexes the pointer, not the map: only
  partition 0 reaches the map of partitions, from which the entry with key \<open>pageId\<close> is erased.
\<close>

fun erase_indexes :: "page_index \<Rightarrow> page_index list \<Rightarrow> page_index list outcome" where
  "erase_indexes ix [] = Inr []"
| "erase_indexes ix (r # rs) = (if r = ix
     then (case rs of [] \<Rightarrow> Inl WildAccess
           | y # ys \<Rightarrow> andThen (erase_indexes ix ys) (\<lambda>ys'. Inr (y # ys')))
     else andThen (erase_indexes ix rs) (\<lambda>rs'. Inr (r # rs')))"

definition removeSharedPageIndex :: "nat \<Rightarrow> nat \<Rightarrow> nat \<Rightarrow> file_meta \<Rightarrow> file_meta outcome" where
  "removeSharedPageIndex pid part sq m = (case (sharedPageIndexes m, sharedPageMaps m) of
     (Some ixs, Some maps) \<Rightarrow>
       andThen (erase_indexes \<lparr>ix_partition = part, ix_seq = sq\<rparr> ixs) (\<lambda>ixs'.
         if part = 0
         then Inr (m\<lparr>sharedPageIndexes := Some ixs',
                     sharedPageMaps := Some (filter (\<lambda>e. fst e \<noteq> pid) maps)\<rparr>)
         else Inl WildAccess)
   | _ \<Rightarrow> Inr m)"

section \<open>The index\<close>

lemma map_of_map_insert:
  "map_of (map_insert k v m) = (if k \<in> dom (map_of m) then map_of m else (map_of m)(k \<mapsto> v))"
  by (auto simp: map_insert_def split: option.splits)

lemma map_of_filter_other: "x \<noteq> k \<Longrightarrow> map_of (filter (\<lambda>e. fst e \<noteq> k) m) x = map_of m x"
  by (induction m) auto

lemma map_of_map_assign: "map_of (map_assign k v m) = (map_of m)(k \<mapsto> v)"
  by (rule ext) (auto simp: map_assign_def map_of_filter_other)

lemma map_insert_fresh: "k \<notin> fst ` set m \<Longrightarrow> map_insert k v m = (k, v) # m"
  by (simp add: map_insert_def map_of_eq_None_iff [THEN iffD2])

end
