(* ===== verification/PartitionedFiles.thy ===== *)
theory PartitionedFiles
  imports PartitionMeta
begin

text \<open>
  The page files of the storage manager (\<open>src/src/storage/source/PartitionedFile.cc\<close>): the pages of a
  set are appended to data files, one per partition, and a meta file records how many there are and
  where each page id is.  The state is the C++ object together with the disk it works on; a disk maps
  a path to the bytes of its file.
\<close>

section \<open>The disk\<close>

type_synonym path = "byte list"
type_synonym disk = "path \<Rightarrow> byte list option"

text \<open>
  What the operating system and the library decide: whether a path can be opened, how many bytes of a
  request \<open>write\<close> and \<open>fwrite\<close> transfer, and the order in which a loop visits a hash map.
\<close>

record file_env =
  canOpen :: "path \<Rightarrow> bool"
  wrote :: "nat \<Rightarrow> nat"
  visitPages :: "index_map \<Rightarrow> index_map"
  visitMaps :: "(nat \<times> index_map) list \<Rightarrow> (nat \<times> index_map) list"

definition overwrite :: "nat \<Rightarrow> byte list \<Rightarrow> byte list \<Rightarrow> byte list" where
  "overwrite pos bs c = take pos (c @ replicate (pos - length c) 0) @ bs @ drop (pos + length bs) c"

definition contents_of :: "disk \<Rightarrow> path \<Rightarrow> byte list" where
  "contents_of d p = (case d p of None \<Rightarrow> [] | Some c \<Rightarrow> c)"

definition create :: "path \<Rightarrow> disk \<Rightarrow> disk" where
  "create p d = d(p \<mapsto> contents_of d p)"

section \<open>State\<close>

text \<open>
  A stream opened with mode \<open>w\<close> cannot be read.  After \<open>fclose\<close> or \<open>close\<close> the member keeps its old
  value unless the code resets it.  An open data file is its read position.
\<close>

datatype meta_stream = NullStream | OpenStream bool | DanglingStream
datatype data_file = NoFile | OpenFile nat | ClosedFile

record pf =
  metaPath :: path
  dataPaths :: "path list"
  usingDirect :: bool
  cleared :: bool
  pageSize :: nat
  metaFile :: meta_stream
  dataFiles :: "data_file list"
  dataHandles :: "data_file list"
  metaData :: "file_meta option"
  disk :: disk

definition with_meta :: "pf \<Rightarrow> (file_meta \<Rightarrow> 'a outcome) \<Rightarrow> 'a outcome" where
  "with_meta f g = (case metaData f of None \<Rightarrow> Inl NullDeref | Some m \<Rightarrow> g m)"

definition vector_at :: "'a list \<Rightarrow> nat \<Rightarrow> 'a outcome" where
  "vector_at xs i = (if i < length xs then Inr (xs ! i) else Inl OutOfRange)"

definition to_int :: "nat \<Rightarrow> int" where
  "to_int n = (if n < 2 ^ 31 then int n else int n - 2 ^ 32)"

definition to_unsigned :: "int \<Rightarrow> nat" where
  "to_unsigned i = nat (i mod 2 ^ 32)"

definition size_t_error :: nat where
  "size_t_error = 2 ^ 64 - 1"

section \<open>Opening and closing\<close>

definition openMeta :: "file_env \<Rightarrow> pf \<Rightarrow> pf \<times> bool" where
  "openMeta E f =
     (if metaFile f \<noteq> NullStream then (f, False)
      else if canOpen E (metaPath f)
      then (case disk f (metaPath f) of
          None \<Rightarrow> (f\<lparr>metaFile := OpenStream False, disk := create (metaPath f) (disk f)\<rparr>, True)
        | Some _ \<Rightarrow> (f\<lparr>metaFile := OpenStream True\<rparr>, True))
      else (f, False))"

fun openData_loop :: "file_env \<Rightarrow> nat \<Rightarrow> path list \<Rightarrow> pf \<Rightarrow> (pf \<times> bool) outcome" where
  "openData_loop E i [] f = Inr (f, True)"
| "openData_loop E i (p # ps) f =
     (if canOpen E p
      then if i < length (dataFiles f)
        then openData_loop E (i + 1) ps
               (f\<lparr>dataFiles := (dataFiles f)[i := OpenFile 0], disk := create p (disk f)\<rparr>)
        else Inl OutOfRange
      else Inr (f, False))"

fun openDirect_loop :: "file_env \<Rightarrow> nat \<Rightarrow> path list \<Rightarrow> pf \<Rightarrow> (pf \<times> bool) outcome" where
  "openDirect_loop E i [] f = Inr (f, True)"
| "openDirect_loop E i (p # ps) f =
     (if canOpen E p
      then if i < length (dataHandles f)
        then openDirect_loop E (i + 1) ps
               (f\<lparr>dataHandles := (dataHandles f)[i := OpenFile 0], disk := create p (disk f)\<rparr>)
        else Inl OutOfRange
      else Inr (f, False))"

definition openDataDirect :: "file_env \<Rightarrow> pf \<Rightarrow> (pf \<times> bool) outcome" where
  "openDataDirect E f = openDirect_loop E 0 (dataPaths f) f"

definition openData :: "file_env \<Rightarrow> pf \<Rightarrow> (pf \<times> bool) outcome" where
  "openData E f = (if usingDirect f then openDataDirect E f else openData_loop E 0 (dataPaths f) f)"

definition openAll :: "file_env \<Rightarrow> pf \<Rightarrow> (pf \<times> bool) outcome" where
  "openAll E f = (case openMeta E f of (f, ok) \<Rightarrow> if ok then openData E f else Inr (f, False))"

definition fclose_meta :: "pf \<Rightarrow> pf outcome" where
  "fclose_meta f = (case metaFile f of NullStream \<Rightarrow> Inl NullDeref | DanglingStream \<Rightarrow> Inl WildAccess
     | OpenStream _ \<Rightarrow> Inr (f\<lparr>metaFile := DanglingStream\<rparr>))"

fun closeDirect_loop :: "nat \<Rightarrow> nat \<Rightarrow> pf \<Rightarrow> pf outcome" where
  "closeDirect_loop i 0 f = Inr f"
| "closeDirect_loop i (Suc n) f = andThen (vector_at (dataHandles f) i) (\<lambda>h.
     closeDirect_loop (i + 1) n
       (f\<lparr>dataHandles := (dataHandles f)[i := (if h = NoFile then NoFile else ClosedFile)]\<rparr>))"

definition closeDirect :: "pf \<Rightarrow> pf outcome" where
  "closeDirect f = andThen (fclose_meta f) (\<lambda>f. closeDirect_loop 0 (length (dataPaths f)) f)"

fun closeAll_loop :: "nat \<Rightarrow> nat \<Rightarrow> pf \<Rightarrow> pf outcome" where
  "closeAll_loop i 0 f = Inr f"
| "closeAll_loop i (Suc n) f = andThen (vector_at (dataFiles f) i) (\<lambda>h. case h of
       NoFile \<Rightarrow> Inl NullDeref
     | ClosedFile \<Rightarrow> Inl WildAccess
     | OpenFile _ \<Rightarrow> closeAll_loop (i + 1) n (f\<lparr>dataFiles := (dataFiles f)[i := NoFile]\<rparr>))"

definition closeAll :: "pf \<Rightarrow> pf outcome" where
  "closeAll f = (if usingDirect f then closeDirect f
     else andThen (fclose_meta f) (\<lambda>f. closeAll_loop 0 (length (dataPaths f)) (f\<lparr>metaFile := NullStream\<rparr>)))"

definition pf_destroy :: "pf \<Rightarrow> pf outcome" where
  "pf_destroy f = (if cleared f then Inr f else closeAll f)"

definition pf_clear :: "pf \<Rightarrow> pf outcome" where
  "pf_clear f = (if cleared f then Inr f
     else andThen (closeAll f) (\<lambda>f. Inr (f\<lparr>cleared := True,
            disk := (\<lambda>p. if p = metaPath f \<or> p \<in> set (dataPaths f) then None else disk f p)\<rparr>)))"

section \<open>Appending and loading pages\<close>

text \<open>
  Data files are opened for appending: a write adds what was transferred to the end of the file,
  also when that is less than the whole request.  The source bytes are the page's \<open>getRawSize()\<close>
  first bytes.
\<close>

definition page_image :: "page \<Rightarrow> byte list outcome" where
  "page_image p = (case rawBytes p of None \<Rightarrow> Inl NullDeref
     | Some m \<Rightarrow> if unat (psize p) \<le> length m then Inr (take (unat (psize p)) m) else Inl WildAccess)"

definition appended :: "file_env \<Rightarrow> byte list \<Rightarrow> byte list \<Rightarrow> byte list" where
  "appended E c bs = c @ take (wrote E (length bs)) bs"

definition append_write :: "file_env \<Rightarrow> path \<Rightarrow> byte list \<Rightarrow> pf \<Rightarrow> pf" where
  "append_write E p bs f = f\<lparr>disk := (disk f)(p \<mapsto> appended E (contents_of (disk f) p) bs)\<rparr>"

definition note_appended :: "nat \<Rightarrow> nat \<Rightarrow> pf \<Rightarrow> (pf \<times> int) outcome" where
  "note_appended part pid f = with_meta f (\<lambda>m.
     let m = incNumFlushedPages m;
         m = (if pid > latestPageId m \<or> latestPageId m = 2 ^ 32 - 1 then m\<lparr>latestPageId := pid\<rparr> else m)
     in andThen (getPartition part m) (\<lambda>p.
        andThen (incNumPages part (addPageIndex pid part (pm_numPages p) m)) (\<lambda>m.
          Inr (f\<lparr>metaData := Some m\<rparr>, to_int (pm_numPages p)))))"

definition file_end :: "disk \<Rightarrow> path \<Rightarrow> data_file" where
  "file_end d p = OpenFile (length (contents_of d p))"

definition appendPageDirect :: "file_env \<Rightarrow> nat \<Rightarrow> page option \<Rightarrow> pf \<Rightarrow> (pf \<times> int) outcome" where
  "appendPageDirect E part pg f =
     andThen (vector_at (dataHandles f) part) (\<lambda>h. case (h, pg) of
       (NoFile, _) \<Rightarrow> Inr (f, -1)
     | (_, None) \<Rightarrow> Inr (f, -1)
     | (_, Some p) \<Rightarrow>
         if cleared f \<or> rawBytes p = None \<or> h = ClosedFile then Inr (f, -1)
         else andThen (page_image p) (\<lambda>bs. andThen (vector_at (dataPaths f) part) (\<lambda>path.
           let f' = append_write E path bs f;
               f' = f'\<lparr>dataHandles := (dataHandles f')[part := file_end (disk f') path]\<rparr> in
           if wrote E (length bs) \<noteq> length bs then Inr (f', -1)
           else note_appended part (unat (pageID p)) f')))"

definition appendPage :: "file_env \<Rightarrow> nat \<Rightarrow> page option \<Rightarrow> pf \<Rightarrow> (pf \<times> int) outcome" where
  "appendPage E part pg f =
     (if usingDirect f then appendPageDirect E part pg f
      else andThen (vector_at (dataFiles f) part) (\<lambda>h. case (h, pg) of
        (NoFile, _) \<Rightarrow> Inr (f, -1)
      | (_, None) \<Rightarrow> Inr (f, -1)
      | (ClosedFile, _) \<Rightarrow> Inl WildAccess
      | (OpenFile pos, Some p) \<Rightarrow>
          if cleared f \<or> rawBytes p = None then Inr (f, -1)
          else andThen (page_image p) (\<lambda>bs. andThen (vector_at (dataPaths f) part) (\<lambda>path.
            let f' = append_write E path bs f;
                f' = f'\<lparr>dataFiles := (dataFiles f')[part := file_end (disk f') path]\<rparr> in
            if wrote E (length bs) \<noteq> length bs then Inr (f', -1)
            else note_appended part (unat (pageID p)) f'))))"

text \<open>A load gives the value it returns and the bytes it puts at the start of the caller's buffer.\<close>

definition read_at :: "disk \<Rightarrow> path \<Rightarrow> nat \<Rightarrow> nat \<Rightarrow> byte list" where
  "read_at d p pos n = take n (drop pos (contents_of d p))"

definition loadPageDirect :: "nat \<Rightarrow> nat \<Rightarrow> nat \<Rightarrow> pf \<Rightarrow> (pf \<times> nat \<times> byte list) outcome" where
  "loadPageDirect part sq n f =
     andThen (vector_at (dataHandles f) part) (\<lambda>h. if h = NoFile then Inr (f, size_t_error, [])
     else with_meta f (\<lambda>m. andThen (getPartition part m) (\<lambda>p.
       if sq < pm_numPages p
       then if h = ClosedFile then Inr (f, size_t_error, [])
         else andThen (vector_at (dataPaths f) part) (\<lambda>path.
           let pos = u64 (sq * m_pageSize m); bs = read_at (disk f) path pos n in
           Inr (f\<lparr>dataHandles := (dataHandles f)[part := OpenFile (pos + length bs)]\<rparr>, length bs, bs))
       else Inr (f, size_t_error, []))))"

definition pf_loadPage :: "nat \<Rightarrow> nat \<Rightarrow> nat \<Rightarrow> pf \<Rightarrow> (pf \<times> nat \<times> byte list) outcome" where
  "pf_loadPage part sq n f =
     (if usingDirect f then loadPageDirect part sq n f
      else andThen (vector_at (dataFiles f) part) (\<lambda>h. if h = NoFile then Inr (f, 0, [])
      else with_meta f (\<lambda>m. andThen (getPartition part m) (\<lambda>p.
        if sq < pm_numPages p
        then if h = ClosedFile then Inl WildAccess
          else andThen (vector_at (dataPaths f) part) (\<lambda>path.
            let pos = u64 (sq * m_pageSize m); bs = read_at (disk f) path pos n in
            Inr (f\<lparr>dataFiles := (dataFiles f)[part := OpenFile (pos + length bs)]\<rparr>, length bs, bs))
        else Inr (f, size_t_error, [])))))"

definition loadPageFromCurPos :: "nat \<Rightarrow> nat \<Rightarrow> nat \<Rightarrow> pf \<Rightarrow> (pf \<times> nat \<times> byte list) outcome" where
  "loadPageFromCurPos part sq n f =
     andThen (vector_at (dataFiles f) part) (\<lambda>h. case h of
       NoFile \<Rightarrow> Inr (f, 0, [])
     | ClosedFile \<Rightarrow> Inl WildAccess
     | OpenFile pos \<Rightarrow> with_meta f (\<lambda>m. andThen (getPartition part m) (\<lambda>p.
         if sq < pm_numPages p
         then andThen (vector_at (dataPaths f) part) (\<lambda>path.
           let bs = read_at (disk f) path pos n in
           Inr (f\<lparr>dataFiles := (dataFiles f)[part := OpenFile (pos + length bs)]\<rparr>, length bs, bs))
         else Inr (f, size_t_error, []))))"

text \<open>A short read fills the start of the page id; \<open>raw\<close> is what its other bytes held before.\<close>

definition loadPageIdFromCurPos :: "byte list \<Rightarrow> nat \<Rightarrow> nat \<Rightarrow> pf \<Rightarrow> (pf \<times> nat) outcome" where
  "loadPageIdFromCurPos raw part sq f =
     andThen (vector_at (dataFiles f) part) (\<lambda>h. case h of
       NoFile \<Rightarrow> Inr (f, 0)
     | ClosedFile \<Rightarrow> Inl WildAccess
     | OpenFile pos \<Rightarrow> with_meta f (\<lambda>m. andThen (getPartition part m) (\<lambda>p.
         if sq < pm_numPages p
         then andThen (vector_at (dataPaths f) part) (\<lambda>path.
           let bs = read_at (disk f) path pos 4 in
           Inr (f\<lparr>dataFiles := (dataFiles f)[part := OpenFile (pos + length bs)]\<rparr>,
                if bs = [] then 2 ^ 32 - 1 else num_of (bs @ drop (length bs) raw)))
         else Inr (f, 2 ^ 32 - 1))))"

definition loadPageId :: "nat \<Rightarrow> nat \<Rightarrow> pf \<Rightarrow> nat outcome" where
  "loadPageId part sq f = with_meta f (\<lambda>m. Inr (getPageId part sq m))"

section \<open>The meta file\<close>

subsection \<open>Writing\<close>

definition stream_write :: "file_env \<Rightarrow> nat \<Rightarrow> byte list \<Rightarrow> pf \<Rightarrow> (pf \<times> int) outcome" where
  "stream_write E pos bs f = (case metaFile f of
       NullStream \<Rightarrow> Inr (f, -1)
     | DanglingStream \<Rightarrow> Inl WildAccess
     | OpenStream _ \<Rightarrow> (let k = wrote E (length bs) in
         Inr (f\<lparr>disk := (disk f)(metaPath f \<mapsto>
                  overwrite pos (take k bs) (contents_of (disk f) (metaPath f)))\<rparr>,
              if k \<noteq> length bs then -1 else 0)))"

definition meta_size :: "pf \<Rightarrow> file_meta \<Rightarrow> nat" where
  "meta_size f m = (4 + 2 + 8 + 4 + 4 + 4)
     + sum_list (map (\<lambda>p. 4 + 4 + 8 + length p + 1) (dataPaths f))
     + numFlushedPages m * (4 + 4 + 4)
     + (4 + 4 + 4 + 4)
     + to_unsigned (numSharedPages m) * (4 + 4)"

fun part_cells :: "file_meta \<Rightarrow> nat \<Rightarrow> path list \<Rightarrow> byte list outcome" where
  "part_cells m i [] = Inr []"
| "part_cells m i (p # ps) = andThen (getPartition i m) (\<lambda>pm.
     andThen (part_cells m (i + 1) ps) (\<lambda>rest.
       Inr (bytes_of 4 i @ bytes_of 4 (pm_numPages pm) @ bytes_of 8 (length p + 1) @ p @ [0] @ rest)))"

definition index_cell :: "nat \<times> page_index \<Rightarrow> byte list" where
  "index_cell e = bytes_of 4 (fst e) @ bytes_of 4 (ix_partition (snd e)) @ bytes_of 4 (ix_seq (snd e))"

definition shared_entries :: "file_env \<Rightarrow> file_meta \<Rightarrow> index_map" where
  "shared_entries E m = (case sharedPageMaps m of None \<Rightarrow> []
     | Some maps \<Rightarrow> concat (map (\<lambda>e. visitPages E (snd e)) (visitMaps E maps)))"

definition meta_cells :: "file_env \<Rightarrow> pf \<Rightarrow> file_meta \<Rightarrow> byte list outcome" where
  "meta_cells E f m = andThen (part_cells m 0 (dataPaths f)) (\<lambda>parts. case sharedSetKey m of (db, ty, st) \<Rightarrow>
     Inr (bytes_of 4 1 @ bytes_of 2 (m_version m) @ bytes_of 8 (m_pageSize m)
        @ bytes_of 4 (numFlushedPages m) @ bytes_of 4 (latestPageId m)
        @ bytes_of 4 (length (dataPaths f)) @ parts
        @ concat (map index_cell (visitPages E (pageIndexes m)))
        @ bytes_of 4 db @ bytes_of 4 ty @ bytes_of 4 st @ bytes_of 4 (to_unsigned (numSharedPages m))
        @ concat (map index_cell (shared_entries E m))))"

text \<open>The cells are stored one after the other into a zeroed buffer of the computed size.\<close>

definition writeMeta :: "file_env \<Rightarrow> pf \<Rightarrow> (pf \<times> int) outcome" where
  "writeMeta E f =
     (if metaFile f = NullStream \<or> cleared f then Inr (f, -1)
      else with_meta f (\<lambda>m. let n = meta_size f m in
        andThen (stream_write E 0 (bytes_of 8 n) f) (\<lambda>(f, _).
        andThen (meta_cells E f m) (\<lambda>cells.
          if length cells \<le> n then stream_write E 8 (cells @ replicate (n - length cells) 0) f
          else Inl WildAccess))))"

definition seekNumFlushedPagesInPartitionMeta :: "nat \<Rightarrow> pf \<Rightarrow> nat" where
  "seekNumFlushedPagesInPartitionMeta i f =
     8 + u32 (4 + 2 + 8 + 4 + 4 + sum_list (map (\<lambda>p. 4 + 4 + 8 + length p + 1) (take i (dataPaths f))) + 4)"

fun updateMeta_loop :: "file_env \<Rightarrow> nat \<Rightarrow> nat \<Rightarrow> pf \<Rightarrow> (pf \<times> int) outcome" where
  "updateMeta_loop E i 0 f = Inr (f, 0)"
| "updateMeta_loop E i (Suc n) f = with_meta f (\<lambda>m. andThen (getPartition i m) (\<lambda>p.
     andThen (stream_write E (seekNumFlushedPagesInPartitionMeta i f) (bytes_of 4 (pm_numPages p)) f)
       (\<lambda>(f, r). if r < 0 then Inr (f, -1) else updateMeta_loop E (i + 1) n f)))"

definition seekNumFlushedPagesInMeta :: nat where
  "seekNumFlushedPagesInMeta = 8 + 4 + 2 + 8"

definition updateMeta :: "file_env \<Rightarrow> pf \<Rightarrow> (pf \<times> int) outcome" where
  "updateMeta E f =
     (if metaFile f = NullStream then Inr (f, -1)
      else with_meta f (\<lambda>m.
        andThen (stream_write E seekNumFlushedPagesInMeta (bytes_of 4 (numFlushedPages m)) f) (\<lambda>(f, r).
          if r < 0 then Inr (f, -1) else updateMeta_loop E 0 (length (dataPaths f)) f)))"

subsection \<open>Reading\<close>

text \<open>The parser walks a cursor over the buffer; a read past its end is \<open>WildAccess\<close>.\<close>

definition take_num :: "nat \<Rightarrow> byte list \<Rightarrow> (nat \<times> byte list) outcome" where
  "take_num n cur = (if n \<le> length cur then Inr (num_of (take n cur), drop n cur) else Inl WildAccess)"

definition take_string :: "byte list \<Rightarrow> path outcome" where
  "take_string cur = (if 0 \<in> set cur then Inr (takeWhile (\<lambda>b. b \<noteq> 0) cur) else Inl WildAccess)"

fun parse_partitions :: "nat \<Rightarrow> byte list \<Rightarrow> path list \<Rightarrow> file_meta \<Rightarrow>
    (byte list \<times> path list \<times> file_meta) outcome" where
  "parse_partitions 0 cur paths m = Inr (cur, paths, m)"
| "parse_partitions (Suc n) cur paths m =
     andThen (take_num 4 cur) (\<lambda>(pid, cur). andThen (take_num 4 cur) (\<lambda>(k, cur).
     andThen (take_num 8 cur) (\<lambda>(len, cur). andThen (take_string cur) (\<lambda>p.
       parse_partitions n (drop len cur) (paths @ [p])
         (addPartition \<lparr>pm_path = p, pm_id = pid, pm_numPages = k\<rparr> m)))))"

fun parse_indexes :: "(nat \<Rightarrow> nat \<Rightarrow> nat \<Rightarrow> file_meta \<Rightarrow> file_meta) \<Rightarrow> nat \<Rightarrow> byte list \<Rightarrow> file_meta \<Rightarrow>
    (byte list \<times> file_meta) outcome" where
  "parse_indexes add 0 cur m = Inr (cur, m)"
| "parse_indexes add (Suc n) cur m =
     andThen (take_num 4 cur) (\<lambda>(pid, cur). andThen (take_num 4 cur) (\<lambda>(part, cur).
     andThen (take_num 4 cur) (\<lambda>(sq, cur). parse_indexes add n cur (add pid part sq m))))"

definition parse_meta :: "byte list \<Rightarrow> path list \<Rightarrow> file_meta \<Rightarrow> (path list \<times> file_meta) outcome" where
  "parse_meta buf paths m =
     andThen (take_num 4 buf) (\<lambda>(_, cur). andThen (take_num 2 cur) (\<lambda>(ver, cur).
     andThen (take_num 8 cur) (\<lambda>(psz, cur). andThen (take_num 4 cur) (\<lambda>(n, cur).
     andThen (take_num 4 cur) (\<lambda>(lat, cur). andThen (take_num 4 cur) (\<lambda>(parts, cur).
     andThen (parse_partitions parts cur paths
       (m\<lparr>m_version := ver, m_pageSize := psz, numFlushedPages := n, latestPageId := lat\<rparr>))
       (\<lambda>(cur, paths, m).
     andThen (parse_indexes addPageIndex n cur m) (\<lambda>(cur, m).
     andThen (take_num 4 cur) (\<lambda>(db, cur). andThen (take_num 4 cur) (\<lambda>(ty, cur).
     andThen (take_num 4 cur) (\<lambda>(st, cur). andThen (take_num 4 cur) (\<lambda>(k, cur).
     andThen (parse_indexes addSharedPageIndex k cur
       (m\<lparr>sharedSetKey := (db, ty, st), numSharedPages := to_int k\<rparr>)) (\<lambda>(_, m).
       Inr (paths, m))))))))))))))"

definition buildMetaDataFromMetaPartition :: "file_env \<Rightarrow> nat \<Rightarrow> nat \<times> nat \<times> nat \<Rightarrow> pf \<Rightarrow> pf outcome" where
  "buildMetaDataFromMetaPartition E rawId rawKey f = (case openMeta E f of (f, ok) \<Rightarrow>
     if \<not> ok then Inl (FatalExit (-1))
     else let c = (if metaFile f = OpenStream True then contents_of (disk f) (metaPath f) else []) in
       if length c < 8 then Inl (FatalExit (-1))
       else let size = num_of (take 8 c); buf = take size (drop 8 c) in
         if length buf < size then Inl (FatalExit (-1))
         else andThen (parse_meta buf (dataPaths f) (meta_new rawId rawKey)) (\<lambda>(paths, m).
           Inr (f\<lparr>dataPaths := paths, metaData := Some m, pageSize := m_pageSize m\<rparr>)))"

definition meta_cell :: "nat \<Rightarrow> nat \<Rightarrow> pf \<Rightarrow> nat option outcome" where
  "meta_cell pos n f = (case metaFile f of
       NullStream \<Rightarrow> Inl NullDeref
     | DanglingStream \<Rightarrow> Inl WildAccess
     | OpenStream readable \<Rightarrow> (let c = contents_of (disk f) (metaPath f) in
         Inr (if readable \<and> pos + n \<le> length c then Some (num_of (take n (drop pos c))) else None)))"

definition getAndSetNumFlushedPages :: "pf \<Rightarrow> (pf \<times> nat) outcome" where
  "getAndSetNumFlushedPages f = (if metaFile f = NullStream then Inr (f, 2 ^ 32 - 1)
     else andThen (meta_cell seekNumFlushedPagesInMeta 4 f) (\<lambda>r. case r of
         None \<Rightarrow> Inr (f, 0)
       | Some n \<Rightarrow> with_meta f (\<lambda>m. Inr (f\<lparr>metaData := Some (m\<lparr>numFlushedPages := n\<rparr>)\<rparr>, n))))"

definition seekPageSizeInMeta :: nat where
  "seekPageSizeInMeta = 8 + 4 + 2"

definition getPageSizeInMeta :: "pf \<Rightarrow> nat outcome" where
  "getPageSizeInMeta f = (if metaFile f = NullStream then Inr size_t_error
     else andThen (meta_cell seekPageSizeInMeta 8 f) (\<lambda>r. Inr (case r of None \<Rightarrow> 0 | Some n \<Rightarrow> n)))"

definition getPageSize :: "pf \<Rightarrow> (pf \<times> nat) outcome" where
  "getPageSize f = (if pageSize f = 0
     then andThen (getPageSizeInMeta f) (\<lambda>n. Inr (f\<lparr>pageSize := n\<rparr>, n)) else Inr (f, pageSize f))"

section \<open>Creating and reopening a file\<close>

fun add_partitions :: "nat \<Rightarrow> path list \<Rightarrow> file_meta \<Rightarrow> file_meta" where
  "add_partitions i [] m = m"
| "add_partitions i (p # ps) m = add_partitions (i + 1) ps (addPartition (part_new p i) m)"

definition pf_create :: "file_env \<Rightarrow> nat \<times> nat \<times> nat \<Rightarrow> path \<Rightarrow> path list \<Rightarrow> nat \<Rightarrow> disk \<Rightarrow> pf outcome" where
  "pf_create E rawKey mp dps psz d =
     andThen (openAll E \<lparr>metaPath = mp, dataPaths = dps, usingDirect = True, cleared = False, pageSize = psz,
         metaFile = NullStream, dataFiles = map (\<lambda>_. NoFile) dps, dataHandles = map (\<lambda>_. NoFile) dps,
         metaData = Some (add_partitions 0 dps
           ((meta_new 0 rawKey)\<lparr>m_pageSize := psz, numFlushedPages := 0, m_version := 0,
                                latestPageId := 2 ^ 32 - 1\<rparr>)),
         disk = d\<rparr>) (\<lambda>(f, _).
     andThen (writeMeta E f) (\<lambda>(f, _). Inr f))"

definition pf_attach :: "path \<Rightarrow> disk \<Rightarrow> pf" where
  "pf_attach mp d = \<lparr>metaPath = mp, dataPaths = [], usingDirect = False, cleared = False, pageSize = 0,
     metaFile = NullStream, dataFiles = [], dataHandles = [], metaData = None, disk = d\<rparr>"

definition initializeDataFiles :: "pf \<Rightarrow> pf" where
  "initializeDataFiles f = f\<lparr>dataFiles := dataFiles f @ map (\<lambda>_. NoFile) (dataPaths f),
                              dataHandles := dataHandles f @ map (\<lambda>_. NoFile) (dataPaths f)\<rparr>"

text \<open>How \<open>UserType\<close> finds a set again after a restart.\<close>

definition pf_reopen :: "file_env \<Rightarrow> nat \<Rightarrow> nat \<times> nat \<times> nat \<Rightarrow> path \<Rightarrow> disk \<Rightarrow> (pf \<times> bool) outcome" where
  "pf_reopen E rawId rawKey mp d =
     andThen (buildMetaDataFromMetaPartition E rawId rawKey (pf_attach mp d)) (\<lambda>f.
       openData E (initializeDataFiles f))"

section \<open>Shared pages\<close>

definition setSharedSet :: "nat \<times> nat \<times> nat \<Rightarrow> pf \<Rightarrow> pf outcome" where
  "setSharedSet k f = with_meta f (\<lambda>m. Inr (f\<lparr>metaData := Some (m\<lparr>sharedSetKey := k\<rparr>)\<rparr>))"

definition addSharedPage :: "nat \<Rightarrow> nat \<Rightarrow> nat \<Rightarrow> pf \<Rightarrow> pf outcome" where
  "addSharedPage pid part sq f =
     with_meta f (\<lambda>m. Inr (f\<lparr>metaData := Some (addSharedPageIndex pid part sq m)\<rparr>))"

definition removeSharedPage :: "nat \<Rightarrow> nat \<Rightarrow> nat \<Rightarrow> pf \<Rightarrow> pf outcome" where
  "removeSharedPage pid part sq f = with_meta f (\<lambda>m.
     andThen (removeSharedPageIndex pid part sq m) (\<lambda>m. Inr (f\<lparr>metaData := Some m\<rparr>)))"

end
