(* ===== verification/PartitionedFileResults.thy ===== *)
theory PartitionedFileResults
  imports PartitionedFiles
begin

text \<open>
  What the page files guarantee: the contract of \<open>PDBFile\<close> that the page cache relies on (an appended
  page is loaded back at the sequence number the append returned, and no other page changes), that a
  set is found again after a restart, and the situations in which the meta file or the data files are
  damaged.
\<close>

section \<open>The contract of a page file\<close>

locale pdb_file =
  fixes append :: "nat \<Rightarrow> page option \<Rightarrow> 's \<Rightarrow> ('s \<times> int) outcome"
    and load :: "nat \<Rightarrow> nat \<Rightarrow> nat \<Rightarrow> 's \<Rightarrow> ('s \<times> nat \<times> byte list) outcome"
    and page_size :: "'s \<Rightarrow> nat"
    and parts :: "'s \<Rightarrow> nat"
    and stored :: "'s \<Rightarrow> nat \<Rightarrow> byte list list"
    and ok :: "'s \<Rightarrow> bool"
  assumes append_law: "ok s \<Longrightarrow> i < parts s \<Longrightarrow> page_image p = Inr bs \<Longrightarrow> length bs = page_size s \<Longrightarrow>
      length (stored s i) < 2147483647 \<Longrightarrow>
      \<exists>s'. append i (Some p) s = Inr (s', int (length (stored s i))) \<and> ok s' \<and> parts s' = parts s \<and>
           page_size s' = page_size s \<and> stored s' i = stored s i @ [bs] \<and>
           (\<forall>j. j < parts s \<and> j \<noteq> i \<longrightarrow> stored s' j = stored s j)"
    and load_law: "ok s \<Longrightarrow> i < parts s \<Longrightarrow> k < length (stored s i) \<Longrightarrow>
      \<exists>s'. load i k (page_size s) s = Inr (s', page_size s, stored s i ! k) \<and> ok s' \<and>
           parts s' = parts s \<and> page_size s' = page_size s \<and> stored s' = stored s"
begin

fun append_pages :: "(nat \<times> page) list \<Rightarrow> 's \<Rightarrow> ('s \<times> int list) outcome" where
  "append_pages [] s = Inr (s, [])"
| "append_pages (x # xs) s = andThen (append (fst x) (Some (snd x)) s) (\<lambda>(s, r).
     andThen (append_pages xs s) (\<lambda>(s, rs). Inr (s, r # rs)))"

definition fits :: "'s \<Rightarrow> nat \<times> page \<Rightarrow> bool" where
  "fits s x = (fst x < parts s \<and> (\<exists>bs. page_image (snd x) = Inr bs \<and> length bs = page_size s))"

definition images :: "nat \<Rightarrow> (nat \<times> page) list \<Rightarrow> byte list list" where
  "images i xs = map (\<lambda>x. case page_image (snd x) of Inr bs \<Rightarrow> bs | Inl _ \<Rightarrow> [])
                     (filter (\<lambda>x. fst x = i) xs)"

lemma images_append: "images i (xs @ ys) = images i xs @ images i ys"
  by (simp add: images_def)

lemma append_pages_stored:
  assumes "ok s" and "\<forall>x \<in> set xs. fits s x"
    and "\<forall>i < parts s. length (stored s i) + length xs \<le> 2147483647"
  shows "\<exists>s' rs. append_pages xs s = Inr (s', rs) \<and> ok s' \<and> parts s' = parts s \<and>
    page_size s' = page_size s \<and> length rs = length xs \<and>
    (\<forall>i < parts s. stored s' i = stored s i @ images i xs) \<and>
    (\<forall>k < length xs. rs ! k = int (length (stored s (fst (xs ! k)))
                                    + length (images (fst (xs ! k)) (take k xs))))"
  using assms
proof (induction xs arbitrary: s)
  case Nil
  then show ?case by (auto simp: images_def)
next
  case (Cons x xs)
  from Cons.prems(2) obtain bs where i: "fst x < parts s" and bs: "page_image (snd x) = Inr bs"
    and len: "length bs = page_size s" by (auto simp: fits_def)
  from Cons.prems(3) i have room: "length (stored s (fst x)) < 2147483647" by force
  obtain s1 where s1: "append (fst x) (Some (snd x)) s = Inr (s1, int (length (stored s (fst x))))"
    "ok s1" "parts s1 = parts s" "page_size s1 = page_size s"
    "stored s1 (fst x) = stored s (fst x) @ [bs]"
    "\<forall>j. j < parts s \<and> j \<noteq> fst x \<longrightarrow> stored s1 j = stored s j"
    using append_law [OF Cons.prems(1) i bs len room] by blast
  have grow: "stored s1 j = stored s j @ images j [x]" if "j < parts s" for j
    using s1(5,6) that bs by (auto simp: images_def)
  have "\<forall>y \<in> set xs. fits s1 y" using Cons.prems(2) s1(3,4) by (auto simp: fits_def)
  moreover have "\<forall>j < parts s1. length (stored s1 j) + length xs \<le> 2147483647"
    using Cons.prems(3) s1(3) grow by (fastforce simp: images_def)
  ultimately obtain s2 rs where s2: "append_pages xs s1 = Inr (s2, rs)" "ok s2" "parts s2 = parts s1"
    "page_size s2 = page_size s1" "length rs = length xs"
    "\<forall>j < parts s1. stored s2 j = stored s1 j @ images j xs"
    "\<forall>k < length xs. rs ! k = int (length (stored s1 (fst (xs ! k)))
                                    + length (images (fst (xs ! k)) (take k xs)))"
    using Cons.IH [OF s1(2)] by blast
  have split: "images j (x # ys) = images j [x] @ images j ys" for j ys by (simp add: images_def)
  have nums: "(int (length (stored s (fst x))) # rs) ! k
      = int (length (stored s (fst ((x # xs) ! k))) + length (images (fst ((x # xs) ! k)) (take k (x # xs))))"
    if "k < length (x # xs)" for k
  proof (cases k)
    case 0
    then show ?thesis by (simp add: images_def)
  next
    case (Suc k')
    with that have k': "k' < length xs" by simp
    then have "fst (xs ! k') < parts s" using Cons.prems(2) by (simp add: fits_def)
    then show ?thesis
      using s2(7) k' grow split [of "fst (xs ! k')" "take k' xs"] Suc by simp
  qed
  have all: "\<forall>j < parts s. stored s2 j = stored s j @ images j (x # xs)"
    using s2(6) grow s1(3) split [of _ xs] by simp
  have run: "append_pages (x # xs) s = Inr (s2, int (length (stored s (fst x))) # rs)"
    using s1(1) s2(1) by simp
  show ?case
    unfolding run using s2(2-5) s1(3,4) all nums by simp
qed

lemma stored_image:
  assumes "ok s" and "\<forall>x \<in> set xs. fits s x"
    and "\<forall>i < parts s. length (stored s i) + length xs \<le> 2147483647"
    and "append_pages xs s = Inr (s', rs)" and "k < length xs" and "page_image (snd (xs ! k)) = Inr bs"
  shows "ok s' \<and> parts s' = parts s \<and> page_size s' = page_size s \<and>
    nat (rs ! k) < length (stored s' (fst (xs ! k))) \<and> stored s' (fst (xs ! k)) ! nat (rs ! k) = bs"
proof -
  let ?i = "fst (xs ! k)"
  from assms(4) append_pages_stored [OF assms(1-3)] have st: "ok s'" "parts s' = parts s"
    "page_size s' = page_size s" "\<forall>i < parts s. stored s' i = stored s i @ images i xs"
    "rs ! k = int (length (stored s ?i) + length (images ?i (take k xs)))"
    using assms(5) by auto
  have i: "?i < parts s" using assms(2,5) by (simp add: fits_def)
  let ?a = "stored s ?i @ images ?i (take k xs)" and ?r = "images ?i (drop (Suc k) xs)"
  have one: "images ?i [xs ! k] = [bs]" using assms(6) by (simp add: images_def)
  have "xs = take k xs @ [xs ! k] @ drop (Suc k) xs"
    using id_take_nth_drop [OF assms(5)] by simp
  then have "images ?i xs = images ?i (take k xs @ [xs ! k] @ drop (Suc k) xs)" by (rule arg_cong)
  also have "\<dots> = images ?i (take k xs) @ bs # ?r"
    unfolding images_append one by simp
  finally have whole: "stored s' ?i = ?a @ bs # ?r" using st(4) i by simp
  have pos: "nat (rs ! k) = length ?a" unfolding st(5) by (simp only: length_append of_nat_add [symmetric] nat_int)
  have "nat (rs ! k) < length (stored s' ?i)" "stored s' ?i ! nat (rs ! k) = bs"
    unfolding whole pos by simp_all
  then show ?thesis using st(1-3) by blast
qed

lemma loads_image:
  assumes "ok s" and "\<forall>x \<in> set xs. fits s x"
    and "\<forall>i < parts s. length (stored s i) + length xs \<le> 2147483647"
    and "append_pages xs s = Inr (s', rs)" and "k < length xs" and "page_image (snd (xs ! k)) = Inr bs"
  shows "\<exists>s''. load (fst (xs ! k)) (nat (rs ! k)) (page_size s) s' = Inr (s'', page_size s, bs)"
  using stored_image [OF assms] load_law [of s' "fst (xs ! k)" "nat (rs ! k)"] assms(2,5)
  by (auto simp: fits_def)

end

section \<open>The files of a set meet the contract\<close>

definition slots_open :: "data_file list \<Rightarrow> nat \<Rightarrow> bool" where
  "slots_open hs n = (length hs = n \<and> NoFile \<notin> set hs \<and> ClosedFile \<notin> set hs)"

definition pf_parts :: "pf \<Rightarrow> part_meta list" where
  "pf_parts f = (case metaData f of None \<Rightarrow> [] | Some m \<Rightarrow>
     (case m_partitions m of None \<Rightarrow> [] | Some ps \<Rightarrow> ps))"

definition pf_size :: "pf \<Rightarrow> nat" where
  "pf_size f = (case metaData f of None \<Rightarrow> 0 | Some m \<Rightarrow> m_pageSize m)"

definition pf_num_parts :: "pf \<Rightarrow> nat" where
  "pf_num_parts f = length (pf_parts f)"

definition chunk :: "nat \<Rightarrow> nat \<Rightarrow> byte list \<Rightarrow> byte list" where
  "chunk n k c = take n (drop (k * n) c)"

definition pf_stored :: "pf \<Rightarrow> nat \<Rightarrow> byte list list" where
  "pf_stored f i = map (\<lambda>k. chunk (pf_size f) k (contents_of (disk f) (dataPaths f ! i)))
                       [0..<pm_numPages (pf_parts f ! i)]"

definition sized :: "pf \<Rightarrow> bool" where
  "sized f = (\<forall>i < pf_num_parts f. length (contents_of (disk f) (dataPaths f ! i))
                                    = pm_numPages (pf_parts f ! i) * pf_size f \<and>
                                   pm_numPages (pf_parts f ! i) < 2 ^ 32)"

definition pf_shape :: "pf \<Rightarrow> bool" where
  "pf_shape f = (metaData f \<noteq> None \<and> length (dataPaths f) = pf_num_parts f \<and>
     distinct (metaPath f # dataPaths f) \<and> \<not> cleared f \<and> pf_size f < 2 ^ 32 \<and>
     slots_open (if usingDirect f then dataHandles f else dataFiles f) (pf_num_parts f))"

definition pf_ok :: "file_env \<Rightarrow> pf \<Rightarrow> bool" where
  "pf_ok E f = ((\<forall>n. wrote E n = n) \<and> pf_shape f \<and> sized f)"

lemma slots_open_nth: "slots_open hs n \<Longrightarrow> i < n \<Longrightarrow> i < length hs \<and> (\<exists>pos. hs ! i = OpenFile pos)"
  unfolding slots_open_def by (metis data_file.exhaust nth_mem)

lemma slots_open_update: "slots_open hs n \<Longrightarrow> slots_open (hs[i := OpenFile pos]) n"
  unfolding slots_open_def by (metis data_file.distinct(1,5) insertE length_list_update set_update_subset_insert subsetD)

lemma chunk_append_old: "Suc k * n \<le> length c \<Longrightarrow> chunk n k (c @ bs) = chunk n k c"
  by (simp add: chunk_def)

lemma chunk_append_new: "length c = k * n \<Longrightarrow> length bs = n \<Longrightarrow> chunk n k (c @ bs) = bs"
  by (simp add: chunk_def)

lemma chunks_append:
  assumes "length c = k * n" and "length bs = n"
  shows "map (\<lambda>j. chunk n j (c @ bs)) [0..<Suc k] = map (\<lambda>j. chunk n j c) [0..<k] @ [bs]"
proof -
  have "chunk n j (c @ bs) = chunk n j c" if "j < k" for j
    using that assms mult_le_mono1 [of "Suc j" k n] by (intro chunk_append_old) simp
  then show ?thesis using assms by (simp add: chunk_append_new)
qed

text \<open>An append that transfers the whole page, before the metadata is brought up to date.\<close>

definition data_appended :: "nat \<Rightarrow> byte list \<Rightarrow> pf \<Rightarrow> pf" where
  "data_appended i bs f = (let c = contents_of (disk f) (dataPaths f ! i) @ bs;
       f' = f\<lparr>disk := (disk f)(dataPaths f ! i \<mapsto> c)\<rparr> in
     if usingDirect f then f'\<lparr>dataHandles := (dataHandles f)[i := OpenFile (length c)]\<rparr>
     else f'\<lparr>dataFiles := (dataFiles f)[i := OpenFile (length c)]\<rparr>)"

definition data_reads :: "nat \<Rightarrow> nat \<Rightarrow> pf \<Rightarrow> pf" where
  "data_reads i pos f = (if usingDirect f then f\<lparr>dataHandles := (dataHandles f)[i := OpenFile pos]\<rparr>
     else f\<lparr>dataFiles := (dataFiles f)[i := OpenFile pos]\<rparr>)"

lemma appendPage_whole:
  assumes "pf_shape f" and "wrote E (length bs) = length bs" and "i < pf_num_parts f"
    and "page_image p = Inr bs"
  shows "appendPage E i (Some p) f = note_appended i (unat (pageID p)) (data_appended i bs f)"
proof -
  from assms(4) have raw: "rawBytes p \<noteq> None" by (auto simp: page_image_def split: option.splits)
  from slots_open_nth [of "if usingDirect f then dataHandles f else dataFiles f" _ i] assms(1,3)
  obtain pos where "if usingDirect f then i < length (dataHandles f) \<and> dataHandles f ! i = OpenFile pos
      else i < length (dataFiles f) \<and> dataFiles f ! i = OpenFile pos"
    by (fastforce simp: pf_shape_def)
  then show ?thesis
    using assms raw by (auto simp: appendPage_def appendPageDirect_def vector_at_def pf_shape_def
        append_write_def appended_def data_appended_def file_end_def contents_of_def Let_def
        split: if_splits)
qed

definition noted :: "nat \<Rightarrow> nat \<Rightarrow> file_meta \<Rightarrow> file_meta" where
  "noted i pid m = (let m1 = incNumFlushedPages m;
       m2 = (if pid > latestPageId m1 \<or> latestPageId m1 = 2 ^ 32 - 1 then m1\<lparr>latestPageId := pid\<rparr> else m1);
       ps = the (m_partitions m); k = pm_numPages (ps ! i)
     in (addPageIndex pid i k m2)\<lparr>m_partitions := Some (ps[i := (ps ! i)\<lparr>pm_numPages := u32 (k + 1)\<rparr>])\<rparr>)"

lemma pf_parts_some:
  assumes "i < pf_num_parts f"
  obtains m ps where "metaData f = Some m" "m_partitions m = Some ps" "pf_parts f = ps" "i < length ps"
  using assms by (auto simp: pf_num_parts_def pf_parts_def split: option.splits)

lemma noted_fields [simp]:
  "m_pageSize (noted i pid m) = m_pageSize m"
  "m_version (noted i pid m) = m_version m"
  "sharedPageMaps (noted i pid m) = sharedPageMaps m"
  "numSharedPages (noted i pid m) = numSharedPages m"
  "sharedSetKey (noted i pid m) = sharedSetKey m"
  "numFlushedPages (noted i pid m) = u32 (numFlushedPages m + 1)"
  "m_partitions (noted i pid m) = Some ((the (m_partitions m))[i := (the (m_partitions m) ! i)
       \<lparr>pm_numPages := u32 (pm_numPages (the (m_partitions m) ! i) + 1)\<rparr>])"
  "pageIndexes (noted i pid m) = map_insert pid
     \<lparr>ix_partition = i, ix_seq = pm_numPages (the (m_partitions m) ! i)\<rparr> (pageIndexes m)"
  "latestPageId (noted i pid m) = (if pid > latestPageId m \<or> latestPageId m = 2 ^ 32 - 1 then pid else latestPageId m)"
  by (simp_all add: noted_def Let_def addPageIndex_def incNumFlushedPages_def)

lemma note_appended_noted:
  assumes "metaData f = Some m" and "m_partitions m = Some ps" and "i < length ps"
  shows "note_appended i pid f
    = Inr (f\<lparr>metaData := Some (noted i pid m)\<rparr>, to_int (pm_numPages (ps ! i)))"
  using assms
  by (simp add: note_appended_def with_meta_def Let_def getPartition_def incNumPages_def noted_def
      addPageIndex_def incNumFlushedPages_def)

lemma data_appended_fields [simp]:
  "metaData (data_appended i bs f) = metaData f"
  "metaPath (data_appended i bs f) = metaPath f"
  "dataPaths (data_appended i bs f) = dataPaths f"
  "usingDirect (data_appended i bs f) = usingDirect f"
  "cleared (data_appended i bs f) = cleared f"
  "metaFile (data_appended i bs f) = metaFile f"
  "disk (data_appended i bs f)
     = (disk f)(dataPaths f ! i \<mapsto> contents_of (disk f) (dataPaths f ! i) @ bs)"
  by (simp_all add: data_appended_def Let_def)

text \<open>One successful append, as a function on states.\<close>

definition after_append :: "nat \<Rightarrow> nat \<Rightarrow> byte list \<Rightarrow> pf \<Rightarrow> pf" where
  "after_append i pid bs f = (data_appended i bs f)\<lparr>metaData := Some (noted i pid (the (metaData f)))\<rparr>"

lemma appendPage_after:
  assumes "pf_shape f" and "wrote E (length bs) = length bs" and "i < pf_num_parts f"
    and "page_image p = Inr bs"
  shows "appendPage E i (Some p) f
    = Inr (after_append i (unat (pageID p)) bs f, to_int (pm_numPages (pf_parts f ! i)))"
proof -
  obtain m ps where m: "metaData f = Some m" "m_partitions m = Some ps" "pf_parts f = ps" "i < length ps"
    using pf_parts_some [OF assms(3)] .
  then show ?thesis
    unfolding appendPage_whole [OF assms] after_append_def
    using note_appended_noted [of "data_appended i bs f" m ps i] by simp
qed

lemma pf_parts_after:
  assumes "i < pf_num_parts f"
  shows "pf_parts (after_append i pid bs f)
    = (pf_parts f)[i := (pf_parts f ! i)\<lparr>pm_numPages := u32 (pm_numPages (pf_parts f ! i) + 1)\<rparr>]"
proof -
  obtain m ps where m: "metaData f = Some m" "m_partitions m = Some ps" "pf_parts f = ps" "i < length ps"
    using pf_parts_some [OF assms] .
  then show ?thesis by (simp add: pf_parts_def after_append_def)
qed

lemma pf_size_after: "i < pf_num_parts f \<Longrightarrow> pf_size (after_append i pid bs f) = pf_size f"
  by (rule pf_parts_some) (auto simp: pf_size_def after_append_def)

lemma pf_num_parts_after: "i < pf_num_parts f \<Longrightarrow> pf_num_parts (after_append i pid bs f) = pf_num_parts f"
  by (simp add: pf_parts_after pf_num_parts_def)

lemma shape_after:
  assumes "pf_shape f" and "i < pf_num_parts f"
  shows "pf_shape (after_append i pid bs f)"
  using assms pf_num_parts_after [OF assms(2), of pid bs] pf_size_after [OF assms(2), of pid bs]
  by (auto simp: pf_shape_def after_append_def data_appended_def Let_def slots_open_update)

lemma contents_after:
  "contents_of (disk (after_append i pid bs f)) p
     = contents_of (disk f) p @ (if p = dataPaths f ! i then bs else [])"
  by (simp add: after_append_def contents_of_def)

lemma dataPaths_after [simp]: "dataPaths (after_append i pid bs f) = dataPaths f"
  by (simp add: after_append_def)

lemma path_eq_iff:
  "pf_shape f \<Longrightarrow> i < pf_num_parts f \<Longrightarrow> j < pf_num_parts f \<Longrightarrow> dataPaths f ! j = dataPaths f ! i \<longleftrightarrow> j = i"
  by (simp add: pf_shape_def nth_eq_iff_index_eq)

lemma stored_after:
  assumes "pf_ok E f" and "i < pf_num_parts f" and "length bs = pf_size f"
    and "length (pf_stored f i) < 2147483647" and "j < pf_num_parts f"
  shows "pf_stored (after_append i pid bs f) j = pf_stored f j @ (if j = i then [bs] else [])"
proof -
  have len: "length (contents_of (disk f) (dataPaths f ! i)) = pm_numPages (pf_parts f ! i) * pf_size f"
    using assms(1,2) by (simp add: pf_ok_def sized_def)
  have shape: "pf_shape f" using assms(1) by (simp add: pf_ok_def)
  have k: "pm_numPages (pf_parts f ! i) < 2147483647" using assms(4) by (simp add: pf_stored_def)
  then have u: "u32 (pm_numPages (pf_parts f ! i) + 1) = Suc (pm_numPages (pf_parts f ! i))" by simp
  show ?thesis
    using path_eq_iff [OF shape assms(2,5)] chunks_append [OF len assms(3)] assms(2,5) u
    by (simp add: pf_stored_def pf_parts_after pf_size_after contents_after pf_num_parts_def [symmetric]
        del: upt_Suc)
qed

lemma ok_after:
  assumes "pf_ok E f" and "i < pf_num_parts f" and "length bs = pf_size f"
    and "length (pf_stored f i) < 2147483647"
  shows "pf_ok E (after_append i pid bs f)"
proof -
  have shape: "pf_shape f" using assms(1) by (simp add: pf_ok_def)
  have k: "pm_numPages (pf_parts f ! i) < 2147483647" using assms(4) by (simp add: pf_stored_def)
  have "sized (after_append i pid bs f)"
    unfolding sized_def
  proof (intro allI impI)
    fix j assume "j < pf_num_parts (after_append i pid bs f)"
    then have j: "j < pf_num_parts f" using pf_num_parts_after [OF assms(2)] by simp
    then have "length (contents_of (disk f) (dataPaths f ! j)) = pm_numPages (pf_parts f ! j) * pf_size f"
      "pm_numPages (pf_parts f ! j) < 2 ^ 32"
      using assms(1) by (auto simp: pf_ok_def sized_def)
    then show "length (contents_of (disk (after_append i pid bs f)) (dataPaths (after_append i pid bs f) ! j))
        = pm_numPages (pf_parts (after_append i pid bs f) ! j) * pf_size (after_append i pid bs f)
      \<and> pm_numPages (pf_parts (after_append i pid bs f) ! j) < 2 ^ 32"
      using path_eq_iff [OF shape assms(2) j] assms(2,3) j k
      by (cases "j = i") (simp_all add: pf_parts_after pf_size_after contents_after pf_num_parts_def)
  qed
  then show ?thesis using assms(1) shape_after [OF shape assms(2)] by (simp add: pf_ok_def)
qed

lemma append_contract:
  assumes "pf_ok E f" and "i < pf_num_parts f" and "page_image p = Inr bs" and "length bs = pf_size f"
    and "length (pf_stored f i) < 2147483647"
  shows "appendPage E i (Some p) f = Inr (after_append i (unat (pageID p)) bs f, int (length (pf_stored f i)))"
proof -
  have "pf_shape f" and "wrote E (length bs) = length bs" using assms(1) by (auto simp: pf_ok_def)
  moreover have "to_int (pm_numPages (pf_parts f ! i)) = int (length (pf_stored f i))"
    using assms(5) by (simp add: pf_stored_def to_int_def)
  ultimately show ?thesis using appendPage_after [OF _ _ assms(2,3), of E] by simp
qed

lemma load_contract:
  assumes "pf_ok E f" and "i < pf_num_parts f" and "k < length (pf_stored f i)"
  shows "pf_loadPage i k (pf_size f) f
    = Inr (data_reads i (Suc k * pf_size f) f, pf_size f, pf_stored f i ! k)"
proof -
  obtain m ps where m: "metaData f = Some m" "m_partitions m = Some ps" "pf_parts f = ps" "i < length ps"
    using pf_parts_some [OF assms(2)] .
  have shape: "pf_shape f" using assms(1) by (simp add: pf_ok_def)
  let ?c = "contents_of (disk f) (dataPaths f ! i)" and ?n = "pf_size f"
  have k: "k < pm_numPages (ps ! i)" using assms(3) m(3) by (simp add: pf_stored_def)
  have sz: "m_pageSize m = ?n" using m(1) by (simp add: pf_size_def)
  have len: "length ?c = pm_numPages (ps ! i) * ?n" and few: "pm_numPages (ps ! i) < 2 ^ 32"
    using assms(1,2) m(3) by (auto simp: pf_ok_def sized_def)
  have "k * ?n + ?n \<le> length ?c" using mult_le_mono1 [of "Suc k" "pm_numPages (ps ! i)" ?n] k len by simp
  then have read: "length (read_at (disk f) (dataPaths f ! i) (k * ?n) ?n) = ?n"
    by (simp add: read_at_def)
  have "k * ?n < 2 ^ 32 * 2 ^ 32"
    using mult_strict_mono [of k "2 ^ 32" ?n "2 ^ 32"] k few shape by (simp add: pf_shape_def)
  then have pos: "u64 (k * ?n) = k * ?n" by simp
  have image: "read_at (disk f) (dataPaths f ! i) (k * ?n) ?n = pf_stored f i ! k"
    using k m(3) by (simp add: pf_stored_def chunk_def read_at_def)
  from slots_open_nth [of "if usingDirect f then dataHandles f else dataFiles f" _ i] shape assms(2)
  obtain q where "if usingDirect f then i < length (dataHandles f) \<and> dataHandles f ! i = OpenFile q
      else i < length (dataFiles f) \<and> dataFiles f ! i = OpenFile q"
    by (fastforce simp: pf_shape_def)
  moreover have "i < length (dataPaths f)" using shape assms(2) by (simp add: pf_shape_def)
  ultimately show ?thesis
    using m sz k pos read
    by (auto simp: pf_loadPage_def loadPageDirect_def vector_at_def with_meta_def getPartition_def
        Let_def data_reads_def add.commute image [symmetric] split: if_splits)
qed

lemma ok_reads:
  assumes "pf_ok E f"
  shows "pf_ok E (data_reads i pos f)" "pf_stored (data_reads i pos f) = pf_stored f"
    "pf_num_parts (data_reads i pos f) = pf_num_parts f" "pf_size (data_reads i pos f) = pf_size f"
proof -
  have parts: "pf_parts (data_reads i pos f) = pf_parts f" and size: "pf_size (data_reads i pos f) = pf_size f"
    by (simp_all add: pf_parts_def pf_size_def data_reads_def)
  then show num: "pf_num_parts (data_reads i pos f) = pf_num_parts f" by (simp add: pf_num_parts_def)
  show "pf_size (data_reads i pos f) = pf_size f" by (rule size)
  show "pf_stored (data_reads i pos f) = pf_stored f"
    by (rule ext) (simp add: pf_stored_def parts size, simp add: data_reads_def)
  show "pf_ok E (data_reads i pos f)"
    using assms parts size num
    by (auto simp: pf_ok_def pf_shape_def sized_def data_reads_def slots_open_update)
qed

interpretation page_files: pdb_file "appendPage E" pf_loadPage pf_size pf_num_parts pf_stored "pf_ok E"
  for E
proof unfold_locales
  fix f i p bs
  assume a: "pf_ok E f" "i < pf_num_parts f" "page_image p = Inr bs" "length bs = pf_size f"
    "length (pf_stored f i) < 2147483647"
  let ?f = "after_append i (unat (pageID p)) bs f"
  have "appendPage E i (Some p) f = Inr (?f, int (length (pf_stored f i)))"
    by (rule append_contract [OF a])
  moreover have "pf_ok E ?f" by (rule ok_after [OF a(1,2,4,5)])
  ultimately show "\<exists>s'. appendPage E i (Some p) f = Inr (s', int (length (pf_stored f i))) \<and> pf_ok E s' \<and>
      pf_num_parts s' = pf_num_parts f \<and> pf_size s' = pf_size f \<and> pf_stored s' i = pf_stored f i @ [bs] \<and>
      (\<forall>j. j < pf_num_parts f \<and> j \<noteq> i \<longrightarrow> pf_stored s' j = pf_stored f j)"
    using pf_num_parts_after [OF a(2)] pf_size_after [OF a(2)] stored_after [OF a(1,2,4,5)] a(2) by auto
next
  fix f i k
  assume "pf_ok E f" "i < pf_num_parts f" "k < length (pf_stored f i)"
  then show "\<exists>s'. pf_loadPage i k (pf_size f) f = Inr (s', pf_size f, pf_stored f i ! k) \<and> pf_ok E s' \<and>
      pf_num_parts s' = pf_num_parts f \<and> pf_size s' = pf_size f \<and> pf_stored s' = pf_stored f"
    by (simp add: load_contract [of E] ok_reads [of E])
qed

end
