(* ===== verification/MetaRoundTrip.thy ===== *)
theory MetaRoundTrip
  imports PartitionedFileResults
begin

text \<open>
  The meta file: what \<open>writeMeta\<close> stores is what \<open>buildMetaDataFromMetaPartition\<close> reads back, for a file
  whose page index has one entry per flushed page and that shares no pages; and what happens to a file
  that does.
\<close>

section \<open>Reading what was written\<close>

lemma take_num_bytes [simp]: "take_num n (bytes_of n v @ r) = Inr (v mod 256 ^ n, r)"
  by (simp add: take_num_def num_of_bytes_of)

lemma take_num_cell: "v < 256 ^ n \<Longrightarrow> take_num n (bytes_of n v @ r) = Inr (v, r)"
  by simp

lemma take_string_cell: "0 \<notin> set p \<Longrightarrow> take_string (p @ 0 # r) = Inr p"
proof -
  assume "0 \<notin> set p"
  then have "takeWhile (\<lambda>b. b \<noteq> 0) (p @ 0 # r) = p" by (induction p) auto
  then show ?thesis by (simp add: take_string_def)
qed

definition renumbered :: "nat \<Rightarrow> part_meta list \<Rightarrow> path list \<Rightarrow> part_meta list" where
  "renumbered i pms ps = map (\<lambda>j. \<lparr>pm_path = ps ! j, pm_id = i + j, pm_numPages = pm_numPages (pms ! (i + j))\<rparr>)
                             [0..<length ps]"

definition with_parts :: "part_meta list \<Rightarrow> file_meta \<Rightarrow> file_meta" where
  "with_parts ps m = foldl (\<lambda>m p. addPartition p m) m ps"

lemma renumbered_Cons: "renumbered i pms (p # ps)
    = \<lparr>pm_path = p, pm_id = i, pm_numPages = pm_numPages (pms ! i)\<rparr> # renumbered (Suc i) pms ps"
  by (simp add: renumbered_def upt_conv_Cons map_Suc_upt [symmetric] del: upt_Suc)

lemma parse_partitions_cells:
  assumes "m_partitions m = Some pms" and "i + length ps \<le> length pms" and "length pms < 2 ^ 32"
    and "\<forall>p \<in> set ps. 0 \<notin> set p \<and> length p + 1 < 2 ^ 64" and "\<forall>pm \<in> set pms. pm_numPages pm < 2 ^ 32"
  shows "\<exists>cells. part_cells m i ps = Inr cells \<and> length cells = sum_list (map (\<lambda>p. 4 + 4 + 8 + length p + 1) ps) \<and>
    (\<forall>rest paths m0. parse_partitions (length ps) (cells @ rest) paths m0
       = Inr (rest, paths @ ps, with_parts (renumbered i pms ps) m0))"
  using assms(2,4)
proof (induction ps arbitrary: i)
  case Nil
  then show ?case by (simp add: with_parts_def renumbered_def)
next
  case (Cons p ps)
  then obtain cells where c: "part_cells m (i + 1) ps = Inr cells"
    "length cells = sum_list (map (\<lambda>p. 4 + 4 + 8 + length p + 1) ps)"
    "\<And>rest paths m0. parse_partitions (length ps) (cells @ rest) paths m0
       = Inr (rest, paths @ ps, with_parts (renumbered (i + 1) pms ps) m0)"
    by (metis (no_types, lifting) Suc_eq_plus1 add_Suc_shift length_Cons list.set_intros(2))
  let ?k = "pm_numPages (pms ! i)"
  have i: "i < length pms" "i < 256 ^ 4" using Cons.prems(1) assms(3) by auto
  then have k: "?k < 256 ^ 4" using assms(5) by simp
  have p: "0 \<notin> set p" "length p + 1 < 256 ^ 8" using Cons.prems(2) by auto
  let ?cells = "bytes_of 4 i @ bytes_of 4 ?k @ bytes_of 8 (length p + 1) @ p @ [0] @ cells"
  have "part_cells m i (p # ps) = Inr ?cells"
    using c(1) i(1) assms(1) by (simp add: getPartition_def)
  moreover have "parse_partitions (length (p # ps)) (?cells @ rest) paths m0
      = Inr (rest, paths @ p # ps, with_parts (renumbered i pms (p # ps)) m0)" for rest paths m0
    using i(2) k p c(3) [of rest "paths @ [p]"]
    by (simp add: take_num_cell take_string_cell renumbered_Cons with_parts_def del: take_num_bytes)
  ultimately show ?case using c(2) by simp
qed

definition entry_ok :: "nat \<times> page_index \<Rightarrow> bool" where
  "entry_ok e = (fst e < 2 ^ 32 \<and> ix_partition (snd e) < 2 ^ 32 \<and> ix_seq (snd e) < 2 ^ 32)"

lemma length_index_cells [simp]: "length (concat (map index_cell es)) = 12 * length es"
  by (induction es) (auto simp: index_cell_def)

lemma parse_indexes_cells:
  assumes "\<forall>e \<in> set es. entry_ok e"
  shows "parse_indexes add (length es) (concat (map index_cell es) @ rest) m
    = Inr (rest, foldl (\<lambda>m e. add (fst e) (ix_partition (snd e)) (ix_seq (snd e)) m) m es)"
  using assms
proof (induction es arbitrary: m)
  case (Cons e es)
  then have "fst e < 256 ^ 4" "ix_partition (snd e) < 256 ^ 4" "ix_seq (snd e) < 256 ^ 4"
    by (auto simp: entry_ok_def)
  then show ?case using Cons by (simp add: index_cell_def take_num_cell del: take_num_bytes)
qed simp

definition swapped :: "nat \<times> page_index \<Rightarrow> page_index \<times> nat" where
  "swapped e = (snd e, fst e)"

lemma fold_addPageIndex:
  assumes "distinct (map fst es)" and "distinct (map snd es)"
    and "fst ` set es \<inter> fst ` set (pageIndexes m) = {}" and "snd ` set es \<inter> fst ` set (pageIds m) = {}"
  shows "foldl (\<lambda>m e. addPageIndex (fst e) (ix_partition (snd e)) (ix_seq (snd e)) m) m es
    = m\<lparr>pageIndexes := rev es @ pageIndexes m, pageIds := rev (map swapped es) @ pageIds m\<rparr>"
  using assms
proof (induction es arbitrary: m)
  case (Cons e es)
  have ix: "\<lparr>ix_partition = ix_partition (snd e), ix_seq = ix_seq (snd e)\<rparr> = snd e" by simp
  have fresh: "fst e \<notin> fst ` set (pageIndexes m)" "snd e \<notin> fst ` set (pageIds m)"
    using Cons.prems(3,4) by auto
  let ?m = "addPageIndex (fst e) (ix_partition (snd e)) (ix_seq (snd e)) m"
  have m: "?m = m\<lparr>pageIndexes := e # pageIndexes m, pageIds := swapped e # pageIds m\<rparr>"
    by (simp add: addPageIndex_def Let_def ix map_insert_fresh fresh swapped_def)
  have "foldl (\<lambda>m e. addPageIndex (fst e) (ix_partition (snd e)) (ix_seq (snd e)) m) ?m es
      = ?m\<lparr>pageIndexes := rev es @ pageIndexes ?m, pageIds := rev (map swapped es) @ pageIds ?m\<rparr>"
    using Cons.prems by (intro Cons.IH) (auto simp: m swapped_def)
  then show ?case by (simp add: m)
qed simp

lemma with_parts_fields [simp]:
  "pageIndexes (with_parts ps m) = pageIndexes m" "pageIds (with_parts ps m) = pageIds m"
  "m_pageSize (with_parts ps m) = m_pageSize m" "latestPageId (with_parts ps m) = latestPageId m"
  "numFlushedPages (with_parts ps m) = numFlushedPages m" "m_version (with_parts ps m) = m_version m"
  "sharedPageMaps (with_parts ps m) = sharedPageMaps m"
  "sharedPageIndexes (with_parts ps m) = sharedPageIndexes m"
  by (induction ps arbitrary: m) (auto simp: with_parts_def addPartition_def)

lemma with_parts_partitions:
  "m_partitions (with_parts ps m) = (case (m_partitions m, ps) of (None, []) \<Rightarrow> None
     | (qs, _) \<Rightarrow> Some ((case qs of None \<Rightarrow> [] | Some qs \<Rightarrow> qs) @ ps))"
proof (induction ps arbitrary: m)
  case (Cons p ps)
  show ?case
    using Cons [of "addPartition p m"]
    by (cases "m_partitions m"; cases ps) (simp_all add: with_parts_def addPartition_def)
qed (simp add: with_parts_def split: option.splits)

definition tidy :: "file_meta \<Rightarrow> bool" where
  "tidy m = (distinct (map fst (pageIndexes m)) \<and> distinct (map snd (pageIndexes m)) \<and>
     pageIds m = map swapped (pageIndexes m) \<and> (\<forall>e \<in> set (pageIndexes m). entry_ok e) \<and>
     numFlushedPages m = length (pageIndexes m) \<and> sharedPageMaps m = None \<and> numSharedPages m = 0)"

definition cells_fit :: "pf \<Rightarrow> file_meta \<Rightarrow> bool" where
  "cells_fit f m = (m_version m < 2 ^ 16 \<and> m_pageSize m < 2 ^ 32 \<and> latestPageId m < 2 ^ 32 \<and>
     fst (sharedSetKey m) < 2 ^ 32 \<and> fst (snd (sharedSetKey m)) < 2 ^ 32 \<and>
     snd (snd (sharedSetKey m)) < 2 ^ 32 \<and> length (pageIndexes m) < 2 ^ 32 \<and>
     length (dataPaths f) < 2 ^ 32 \<and> sum_list (map length (dataPaths f)) < 2 ^ 32 \<and>
     (\<forall>p \<in> set (dataPaths f). 0 \<notin> set p) \<and>
     (case m_partitions m of None \<Rightarrow> dataPaths f = []
      | Some ps \<Rightarrow> length ps = length (dataPaths f) \<and> (\<forall>pm \<in> set ps. pm_numPages pm < 2 ^ 32)))"

text \<open>What the parser builds from the cells of a file.\<close>

definition reread :: "file_env \<Rightarrow> nat \<Rightarrow> nat \<times> nat \<times> nat \<Rightarrow> pf \<Rightarrow> file_meta \<Rightarrow> file_meta" where
  "reread E rawId rawKey f m =
     (let es = visitPages E (pageIndexes m);
          pms = (case m_partitions m of None \<Rightarrow> [] | Some ps \<Rightarrow> ps) in
      (with_parts (renumbered 0 pms (dataPaths f))
        ((meta_new rawId rawKey)\<lparr>m_version := m_version m, m_pageSize := m_pageSize m,
           numFlushedPages := numFlushedPages m, latestPageId := latestPageId m\<rparr>))
        \<lparr>pageIndexes := rev es, pageIds := rev (map swapped es), sharedSetKey := sharedSetKey m,
         numSharedPages := 0\<rparr>)"

lemma path_short: "p \<in> set ps \<Longrightarrow> sum_list (map length ps) < n \<Longrightarrow> length p < n"
  by (induction ps) auto

lemma part_cells_ok:
  assumes "cells_fit f m"
  shows "\<exists>cells. part_cells m 0 (dataPaths f) = Inr cells \<and>
    length cells = sum_list (map (\<lambda>p. 4 + 4 + 8 + length p + 1) (dataPaths f)) \<and>
    (\<forall>rest paths m0. parse_partitions (length (dataPaths f)) (cells @ rest) paths m0
       = Inr (rest, paths @ dataPaths f, with_parts (renumbered 0
           (case m_partitions m of None \<Rightarrow> [] | Some ps \<Rightarrow> ps) (dataPaths f)) m0))"
proof (cases "m_partitions m")
  case None
  then show ?thesis using assms by (simp add: cells_fit_def with_parts_def renumbered_def)
next
  case (Some pms)
  have "\<forall>p \<in> set (dataPaths f). 0 \<notin> set p \<and> length p + 1 < 2 ^ 64"
    using assms path_short [of _ "dataPaths f" "2 ^ 32"] by (fastforce simp: cells_fit_def)
  then show ?thesis
    using parse_partitions_cells [OF Some, of 0 "dataPaths f"] assms Some
    by (simp add: cells_fit_def)
qed

definition visits_ok :: "file_env \<Rightarrow> bool" where
  "visits_ok E = ((\<forall>m. mset (visitPages E m) = mset m) \<and> (\<forall>m. mset (visitMaps E m) = mset m))"

lemma visits_ok_facts:
  assumes "visits_ok E"
  shows "length (visitPages E m) = length m" "set (visitPages E m) = set m"
    "distinct (map g (visitPages E m)) = distinct (map g m)"
proof -
  have ms: "mset (visitPages E m) = mset m" using assms by (simp add: visits_ok_def)
  then show "length (visitPages E m) = length m" "set (visitPages E m) = set m"
    by (metis size_mset, metis set_mset_mset)
  from ms have "mset (map g (visitPages E m)) = mset (map g m)" by simp
  then show "distinct (map g (visitPages E m)) = distinct (map g m)" by (rule mset_eq_imp_distinct_iff)
qed

lemma meta_cells_parse:
  assumes "visits_ok E" and "tidy m" and "cells_fit f m"
  shows "\<exists>cells. meta_cells E f m = Inr cells \<and> length cells = meta_size f m \<and>
    parse_meta (cells @ rest) [] (meta_new rawId rawKey) = Inr (dataPaths f, reread E rawId rawKey f m)"
proof -
  obtain db ty st where key: "sharedSetKey m = (db, ty, st)" by (cases "sharedSetKey m")
  let ?es = "visitPages E (pageIndexes m)"
  let ?pms = "case m_partitions m of None \<Rightarrow> [] | Some ps \<Rightarrow> ps"
  obtain parts where parts: "part_cells m 0 (dataPaths f) = Inr parts"
    "length parts = sum_list (map (\<lambda>p. 4 + 4 + 8 + length p + 1) (dataPaths f))"
    "\<And>rest paths m0. parse_partitions (length (dataPaths f)) (parts @ rest) paths m0
       = Inr (rest, paths @ dataPaths f, with_parts (renumbered 0 ?pms (dataPaths f)) m0)"
    using part_cells_ok [OF assms(3)] by blast
  note vs = visits_ok_facts [OF assms(1)]
  have es: "\<forall>e \<in> set ?es. entry_ok e" "length ?es = numFlushedPages m" "distinct (map fst ?es)"
    "distinct (map snd ?es)"
    using assms(2) by (simp_all add: tidy_def vs)
  have no_shared: "shared_entries E m = []" "numSharedPages m = 0"
    using assms(2) by (auto simp: tidy_def shared_entries_def)
  let ?tail = "bytes_of 4 db @ bytes_of 4 ty @ bytes_of 4 st @ bytes_of 4 0 @ rest"
  let ?cells = "bytes_of 4 1 @ bytes_of 2 (m_version m) @ bytes_of 8 (m_pageSize m)
        @ bytes_of 4 (numFlushedPages m) @ bytes_of 4 (latestPageId m)
        @ bytes_of 4 (length (dataPaths f)) @ parts @ concat (map index_cell ?es)
        @ bytes_of 4 db @ bytes_of 4 ty @ bytes_of 4 st @ bytes_of 4 0"
  have cells: "meta_cells E f m = Inr ?cells"
    using parts(1) key no_shared by (simp add: meta_cells_def to_unsigned_def)
  have "length ?cells = meta_size f m"
    using parts(2) es(2) no_shared by (simp add: meta_size_def to_unsigned_def)
  moreover have "parse_meta (?cells @ rest) [] (meta_new rawId rawKey)
      = Inr (dataPaths f, reread E rawId rawKey f m)"
  proof -
    have small: "m_version m < 256 ^ 2" "m_pageSize m < 256 ^ 8" "numFlushedPages m < 256 ^ 4"
      "latestPageId m < 256 ^ 4" "length (dataPaths f) < 256 ^ 4" "db < 256 ^ 4" "ty < 256 ^ 4"
      "st < 256 ^ 4" "(0::nat) < 256 ^ 4" "(1::nat) < 256 ^ 4"
      using assms(2,3) key by (auto simp: cells_fit_def tidy_def)
    note idx = parse_indexes_cells [OF es(1), of addPageIndex, unfolded es(2)]
    note fold = fold_addPageIndex [OF es(3,4)]
    show ?thesis
      using small key
      by (simp add: parse_meta_def take_num_cell parts(3) idx fold meta_new_def to_int_def reread_def Let_def
          del: take_num_bytes)
  qed
  ultimately show ?thesis using cells by blast
qed

section \<open>Writing the meta file and reopening\<close>

lemma overwrite_start: "overwrite 0 a c = a @ drop (length a) c"
  by (simp add: overwrite_def)

lemma overwrite_after: "length a = n \<Longrightarrow> overwrite n b (a @ r) = a @ b @ drop (length b) r"
  by (simp add: overwrite_def)

lemma meta_size_small:
  assumes "tidy m" and "cells_fit f m"
  shows "meta_size f m < 256 ^ 8"
proof -
  have "sum_list (map (\<lambda>p. 4 + 4 + 8 + length p + 1) ps) = 17 * length ps + sum_list (map length ps)"
    for ps :: "path list" by (induction ps) auto
  then show ?thesis using assms by (simp add: meta_size_def tidy_def cells_fit_def to_unsigned_def)
qed

definition stored_meta :: "pf \<Rightarrow> file_meta \<Rightarrow> byte list \<Rightarrow> byte list \<Rightarrow> disk" where
  "stored_meta f m cells rest = (disk f)(metaPath f \<mapsto> bytes_of 8 (meta_size f m) @ cells @ rest)"

lemma meta_cells_disk [simp]: "meta_cells E (f\<lparr>disk := d\<rparr>) m = meta_cells E f m"
  by (simp add: meta_cells_def)

lemma writeMeta_stores:
  assumes "\<forall>n. wrote E n = n" and "metaFile f = OpenStream b" and "\<not> cleared f" and "metaData f = Some m"
    and "meta_cells E f m = Inr cells" and "length cells = meta_size f m"
  shows "\<exists>rest. writeMeta E f = Inr (f\<lparr>disk := stored_meta f m cells rest\<rparr>, 0)"
proof -
  let ?c = "contents_of (disk f) (metaPath f)" and ?n = "bytes_of 8 (meta_size f m)"
  have "contents_of ((disk f)(metaPath f \<mapsto> x)) (metaPath f) = x" for x by (simp add: contents_of_def)
  then have "writeMeta E f = Inr (f\<lparr>disk := stored_meta f m cells (drop (length cells) (drop 8 ?c))\<rparr>, 0)"
    using assms overwrite_after [of ?n 8 cells "drop 8 ?c"]
    by (simp add: writeMeta_def with_meta_def stream_write_def Let_def overwrite_start stored_meta_def)
  then show ?thesis by blast
qed

lemma openData_loop_all:
  assumes "\<forall>p. canOpen E p" and "i + length ps \<le> length (dataFiles f)"
  shows "\<exists>d. openData_loop E i ps f = Inr (f\<lparr>dataFiles := take i (dataFiles f)
      @ replicate (length ps) (OpenFile 0) @ drop (i + length ps) (dataFiles f), disk := d\<rparr>, True)
    \<and> contents_of d = contents_of (disk f)"
  using assms(2)
proof (induction ps arbitrary: i f)
  case (Cons p ps)
  let ?f = "f\<lparr>dataFiles := (dataFiles f)[i := OpenFile 0], disk := create p (disk f)\<rparr>"
  obtain d where d: "openData_loop E (i + 1) ps ?f = Inr (?f\<lparr>dataFiles := take (i + 1) (dataFiles ?f)
      @ replicate (length ps) (OpenFile 0) @ drop (i + 1 + length ps) (dataFiles ?f), disk := d\<rparr>, True)"
    "contents_of d = contents_of (disk ?f)"
    using Cons.IH [of "i + 1" ?f] Cons.prems by auto
  have "contents_of (create p (disk f)) = contents_of (disk f)"
    by (rule ext) (simp add: create_def contents_of_def)
  then show ?case
    using d Cons.prems assms(1) by (intro exI [of _ d]) (simp add: drop_update_cancel)
next
  case Nil
  show ?case by (intro exI [of _ "disk f"]) simp
qed

lemma openDirect_loop_all:
  assumes "\<forall>p. canOpen E p" and "i + length ps \<le> length (dataHandles f)"
  shows "\<exists>d. openDirect_loop E i ps f = Inr (f\<lparr>dataHandles := take i (dataHandles f)
      @ replicate (length ps) (OpenFile 0) @ drop (i + length ps) (dataHandles f), disk := d\<rparr>, True)
    \<and> contents_of d = contents_of (disk f)"
  using assms(2)
proof (induction ps arbitrary: i f)
  case (Cons p ps)
  let ?f = "f\<lparr>dataHandles := (dataHandles f)[i := OpenFile 0], disk := create p (disk f)\<rparr>"
  obtain d where d: "openDirect_loop E (i + 1) ps ?f = Inr (?f\<lparr>dataHandles := take (i + 1) (dataHandles ?f)
      @ replicate (length ps) (OpenFile 0) @ drop (i + 1 + length ps) (dataHandles ?f), disk := d\<rparr>, True)"
    "contents_of d = contents_of (disk ?f)"
    using Cons.IH [of "i + 1" ?f] Cons.prems by auto
  have "contents_of (create p (disk f)) = contents_of (disk f)"
    by (rule ext) (simp add: create_def contents_of_def)
  then show ?case
    using d Cons.prems assms(1) by (intro exI [of _ d]) (simp add: drop_update_cancel)
next
  case Nil
  show ?case by (intro exI [of _ "disk f"]) simp
qed

lemma slots_open_replicate: "slots_open (replicate n (OpenFile 0)) n"
  by (simp add: slots_open_def)

text \<open>The object that reopening builds from the stored cells of a file.\<close>

definition reopened :: "file_env \<Rightarrow> nat \<Rightarrow> nat \<times> nat \<times> nat \<Rightarrow> pf \<Rightarrow> file_meta \<Rightarrow> disk \<Rightarrow> pf" where
  "reopened E rawId rawKey f m d = \<lparr>metaPath = metaPath f, dataPaths = dataPaths f, usingDirect = False,
     cleared = False, pageSize = m_pageSize m, metaFile = OpenStream True,
     dataFiles = replicate (length (dataPaths f)) (OpenFile 0), dataHandles = map (\<lambda>_. NoFile) (dataPaths f),
     metaData = Some (reread E rawId rawKey f m), disk = d\<rparr>"

lemma reopen_reads:
  assumes "\<forall>p. canOpen E p" and "visits_ok E" and "tidy m" and "cells_fit f m"
    and "meta_cells E f m = Inr cells" and "d = stored_meta f m cells rest"
  shows "\<exists>d'. pf_reopen E rawId rawKey (metaPath f) d = Inr (reopened E rawId rawKey f m d', True) \<and>
    contents_of d' = contents_of d"
proof -
  from meta_cells_parse [OF assms(2-4), of "[]" rawId rawKey] assms(5)
  have len: "length cells = meta_size f m"
    and parse: "parse_meta cells [] (meta_new rawId rawKey) = Inr (dataPaths f, reread E rawId rawKey f m)"
    by auto
  have on_disk: "d (metaPath f) = Some (bytes_of 8 (meta_size f m) @ cells @ rest)"
    using assms(6) by (simp add: stored_meta_def)
  have size: "num_of (bytes_of 8 (meta_size f m)) = meta_size f m"
    using meta_size_small [OF assms(3,4)] by (simp add: num_of_bytes_of)
  have page_size: "m_pageSize (reread E rawId rawKey f m) = m_pageSize m"
    by (simp add: reread_def Let_def)
  let ?g = "(pf_attach (metaPath f) d)\<lparr>metaFile := OpenStream True, dataPaths := dataPaths f,
    metaData := Some (reread E rawId rawKey f m), pageSize := m_pageSize m\<rparr>"
  have build: "buildMetaDataFromMetaPartition E rawId rawKey (pf_attach (metaPath f) d) = Inr ?g"
    using on_disk size parse len page_size assms(1)
    by (simp add: buildMetaDataFromMetaPartition_def openMeta_def pf_attach_def contents_of_def Let_def)
  let ?h = "initializeDataFiles ?g"
  obtain d' where "openData_loop E 0 (dataPaths f) ?h = Inr (?h\<lparr>dataFiles :=
      replicate (length (dataPaths f)) (OpenFile 0), disk := d'\<rparr>, True)" "contents_of d' = contents_of d"
    using openData_loop_all [OF assms(1), of 0 "dataPaths f" ?h]
    by (auto simp: initializeDataFiles_def pf_attach_def)
  then show ?thesis
    unfolding pf_reopen_def build
    by (auto simp: openData_def initializeDataFiles_def pf_attach_def reopened_def)
qed

end
