(* ===== verification/PartitionedFileRestart.thy ===== *)
theory PartitionedFileRestart
  imports MetaRoundTrip
begin

text \<open>
  A set across a restart: the files of a live set keep one index entry per page, and the object that
  is rebuilt from the meta file finds every page where the first object put it.  The last part shows
  the states in which that fails.
\<close>

section \<open>Live files\<close>

definition the_meta :: "pf \<Rightarrow> file_meta" where
  "the_meta f = (case metaData f of None \<Rightarrow> meta_new 0 (0, 0, 0) | Some m \<Rightarrow> m)"

definition meta_open :: "pf \<Rightarrow> bool" where
  "meta_open f = (metaFile f \<noteq> NullStream \<and> metaFile f \<noteq> DanglingStream)"

definition indexed :: "pf \<Rightarrow> bool" where
  "indexed f = (\<forall>e \<in> set (pageIndexes (the_meta f)). ix_partition (snd e) < pf_num_parts f \<and>
     ix_seq (snd e) < pm_numPages (pf_parts f ! ix_partition (snd e)))"

definition live :: "file_env \<Rightarrow> pf \<Rightarrow> bool" where
  "live E f = (pf_ok E f \<and> meta_open f \<and> tidy (the_meta f) \<and> cells_fit f (the_meta f) \<and> indexed f)"

lemma the_meta_Some: "pf_shape f \<Longrightarrow> metaData f = Some (the_meta f)"
  by (auto simp: pf_shape_def the_meta_def)

lemma parts_the_meta:
  "pf_shape f \<Longrightarrow> pf_parts f = (case m_partitions (the_meta f) of None \<Rightarrow> [] | Some ps \<Rightarrow> ps)"
  by (auto simp: pf_shape_def the_meta_def pf_parts_def)

lemma after_append_meta:
  assumes "pf_shape f" and "i < pf_num_parts f"
  shows "the_meta (after_append i pid bs f) = noted i pid (the_meta f)"
    "m_partitions (the_meta f) = Some (pf_parts f)"
proof -
  obtain m ps where "metaData f = Some m" "m_partitions m = Some ps" "pf_parts f = ps" "i < length ps"
    using pf_parts_some [OF assms(2)] .
  then show "the_meta (after_append i pid bs f) = noted i pid (the_meta f)"
    "m_partitions (the_meta f) = Some (pf_parts f)"
    by (simp_all add: the_meta_def after_append_def)
qed

lemma in_list_update: "x \<in> set (xs[i := y]) \<Longrightarrow> x = y \<or> x \<in> set xs"
  using set_update_subset_insert [of xs i y] by auto

definition new_index :: "nat \<Rightarrow> pf \<Rightarrow> page_index" where
  "new_index i f = \<lparr>ix_partition = i, ix_seq = length (pf_stored f i)\<rparr>"

definition room_for :: "nat \<Rightarrow> nat \<Rightarrow> pf \<Rightarrow> bool" where
  "room_for i pid f = (length (pf_stored f i) < 2147483647 \<and> pid < 2 ^ 32 \<and>
     pid \<notin> fst ` set (pageIndexes (the_meta f)) \<and> length (pageIndexes (the_meta f)) < 2 ^ 31)"

lemma index_after:
  assumes "live E f" and "i < pf_num_parts f" and "room_for i pid f"
  shows "pageIndexes (the_meta (after_append i pid bs f)) = (pid, new_index i f) # pageIndexes (the_meta f)"
    "pageIds (the_meta (after_append i pid bs f)) = (new_index i f, pid) # pageIds (the_meta f)"
    "new_index i f \<notin> snd ` set (pageIndexes (the_meta f))"
proof -
  have shape: "pf_shape f" using assms(1) by (simp add: live_def pf_ok_def)
  note facts = after_append_meta [OF shape assms(2)]
  have ix: "new_index i f = \<lparr>ix_partition = i, ix_seq = pm_numPages (pf_parts f ! i)\<rparr>"
    by (simp add: new_index_def pf_stored_def)
  show fresh: "new_index i f \<notin> snd ` set (pageIndexes (the_meta f))"
    using assms(1) by (fastforce simp: live_def indexed_def ix)
  have "fst ` set (pageIds (the_meta f)) = snd ` set (pageIndexes (the_meta f))"
    using assms(1) by (simp add: live_def tidy_def swapped_def image_image)
  then show "pageIds (the_meta (after_append i pid bs f)) = (new_index i f, pid) # pageIds (the_meta f)"
    using fresh facts by (simp add: noted_def Let_def addPageIndex_def incNumFlushedPages_def ix map_insert_fresh)
  show "pageIndexes (the_meta (after_append i pid bs f)) = (pid, new_index i f) # pageIndexes (the_meta f)"
    using assms(3) facts by (simp add: room_for_def map_insert_fresh ix)
qed

lemma live_after:
  assumes "live E f" and "i < pf_num_parts f" and "length bs = pf_size f" and "room_for i pid f"
  shows "live E (after_append i pid bs f)"
proof -
  let ?g = "after_append i pid bs f" and ?m = "the_meta f"
  have ok: "pf_ok E f" and shape: "pf_shape f" using assms(1) by (auto simp: live_def pf_ok_def)
  have k: "pm_numPages (pf_parts f ! i) < 2147483647" "length (pf_stored f i) < 2147483647"
    using assms(4) by (auto simp: room_for_def pf_stored_def)
  note facts = after_append_meta(1) [OF shape assms(2), of pid bs] after_append_meta(2) [OF shape assms(2)]
    and idx = index_after(1,2) [OF assms(1,2,4), of bs] index_after(3) [OF assms(1,2,4)]
  have old: "tidy ?m" "cells_fit f ?m" "indexed f" "meta_open f" using assms(1) by (auto simp: live_def)
  have i: "i < length (dataPaths f)" "i < length (pf_parts f)" "length (dataPaths f) < 2 ^ 32"
    using shape old(2) assms(2) by (auto simp: pf_shape_def pf_num_parts_def cells_fit_def)
  have "pf_ok E ?g" by (rule ok_after [OF ok assms(2,3) k(2)])
  moreover have "meta_open ?g" using old(4) by (simp add: meta_open_def after_append_def)
  moreover have "tidy (the_meta ?g)"
    using old(1) idx facts assms(4) i k
    by (auto simp: tidy_def room_for_def swapped_def entry_ok_def new_index_def)
  moreover have "cells_fit ?g (the_meta ?g)"
    using old(2) idx(1) facts assms(4) k i(2)
    by (auto simp: cells_fit_def room_for_def dest: in_list_update)
  moreover have "indexed ?g"
    unfolding indexed_def idx(1)
    using old(3) assms(2) i(2) k pf_parts_after [OF assms(2), of pid bs]
    by (auto simp: indexed_def pf_num_parts_def new_index_def pf_stored_def nth_list_update)
  ultimately show ?thesis by (simp add: live_def)
qed

section \<open>Appending a list of pages\<close>

fun pf_appends :: "file_env \<Rightarrow> (nat \<times> page) list \<Rightarrow> pf \<Rightarrow> (pf \<times> int list) outcome" where
  "pf_appends E [] f = Inr (f, [])"
| "pf_appends E (x # xs) f = andThen (appendPage E (fst x) (Some (snd x)) f) (\<lambda>(f, r).
     andThen (pf_appends E xs f) (\<lambda>(f, rs). Inr (f, r # rs)))"

lemma pf_appends_eq: "pf_appends E xs f = page_files.append_pages E xs f"
  by (induction xs arbitrary: f) auto

definition writable :: "nat \<Rightarrow> nat \<Rightarrow> nat \<times> page \<Rightarrow> bool" where
  "writable n psz x = (fst x < n \<and> (case page_image (snd x) of Inl _ \<Rightarrow> False | Inr bs \<Rightarrow> length bs = psz))"

lemma writable_fits: "writable (pf_num_parts f) (pf_size f) x = page_files.fits f x"
  by (auto simp: writable_def page_files.fits_def split: sum.splits)

definition id_of :: "nat \<times> page \<Rightarrow> nat" where
  "id_of x = unat (pageID (snd x))"

definition new_ids :: "(nat \<times> page) list \<Rightarrow> pf \<Rightarrow> bool" where
  "new_ids xs f = (distinct (map id_of xs) \<and> (\<forall>x \<in> set xs. id_of x \<notin> fst ` set (pageIndexes (the_meta f))))"

lemma live_appends:
  assumes "live E f" and "\<forall>x \<in> set xs. writable (pf_num_parts f) (pf_size f) x" and "new_ids xs f"
    and "\<forall>i < pf_num_parts f. length (pf_stored f i) + length xs \<le> 2147483647"
    and "length (pageIndexes (the_meta f)) + length xs \<le> 2147483647"
  shows "\<exists>f' rs. pf_appends E xs f = Inr (f', rs) \<and> live E f' \<and> metaPath f' = metaPath f \<and>
    pf_num_parts f' = pf_num_parts f \<and> pf_size f' = pf_size f \<and>
    (\<forall>e \<in> set (pageIndexes (the_meta f)). e \<in> set (pageIndexes (the_meta f'))) \<and>
    (\<forall>k < length xs. (id_of (xs ! k), \<lparr>ix_partition = fst (xs ! k), ix_seq = nat (rs ! k)\<rparr>)
                      \<in> set (pageIndexes (the_meta f')))"
  using assms
proof (induction xs arbitrary: f)
  case (Cons x xs)
  let ?i = "fst x" and ?n = "length (pf_stored f (fst x))"
  from Cons.prems(2) obtain bs where i: "?i < pf_num_parts f" and bs: "page_image (snd x) = Inr bs"
    "length bs = pf_size f" by (auto simp: writable_def split: sum.splits)
  let ?f = "after_append ?i (id_of x) bs f"
  have ok: "pf_ok E f" using Cons.prems(1) by (simp add: live_def)
  have few: "?n < 2147483647" using Cons.prems(4) i by force
  have idlt: "id_of x < 4294967296"
    using unsigned_less [of "pageID (snd x)", where 'a = nat] by (simp add: id_of_def)
  have room: "room_for ?i (id_of x) f"
    using Cons.prems(3,5) few idlt by (simp add: room_for_def new_ids_def)
  have app: "appendPage E ?i (Some (snd x)) f = Inr (?f, int ?n)"
    using append_contract [OF ok i bs few] by (simp add: id_of_def)
  have live: "live E ?f" by (rule live_after [OF Cons.prems(1) i bs(2) room])
  have num: "pf_num_parts ?f = pf_num_parts f" and size: "pf_size ?f = pf_size f"
    using pf_num_parts_after [OF i] pf_size_after [OF i] by auto
  note idx = index_after(1) [OF Cons.prems(1) i room, of bs]
  have "new_ids xs ?f" using Cons.prems(3) unfolding new_ids_def idx by (simp, metis image_eqI)
  moreover have "\<forall>j < pf_num_parts ?f. length (pf_stored ?f j) + length xs \<le> 2147483647"
    using Cons.prems(4) stored_after [OF ok i bs(2) few] num by fastforce
  moreover have "length (pageIndexes (the_meta ?f)) + length xs \<le> 2147483647"
    using Cons.prems(5) idx by simp
  moreover have "\<forall>y \<in> set xs. writable (pf_num_parts ?f) (pf_size ?f) y"
    using Cons.prems(2) num size by simp
  ultimately obtain f' rs where f': "pf_appends E xs ?f = Inr (f', rs)" "live E f'"
    "metaPath f' = metaPath ?f" "pf_num_parts f' = pf_num_parts ?f" "pf_size f' = pf_size ?f"
    "\<forall>e \<in> set (pageIndexes (the_meta ?f)). e \<in> set (pageIndexes (the_meta f'))"
    "\<forall>k < length xs. (id_of (xs ! k), \<lparr>ix_partition = fst (xs ! k), ix_seq = nat (rs ! k)\<rparr>)
                      \<in> set (pageIndexes (the_meta f'))"
    using Cons.IH [OF live] by blast
  have run: "pf_appends E (x # xs) f = Inr (f', int ?n # rs)" using app f'(1) by simp
  have first: "(id_of x, \<lparr>ix_partition = ?i, ix_seq = ?n\<rparr>) \<in> set (pageIndexes (the_meta f'))"
    using f'(6) idx by (simp add: new_index_def)
  have all: "(id_of ((x # xs) ! k), \<lparr>ix_partition = fst ((x # xs) ! k), ix_seq = nat ((int ?n # rs) ! k)\<rparr>)
      \<in> set (pageIndexes (the_meta f'))" if "k < length (x # xs)" for k
    using that first f'(7) by (cases k) auto
  have path: "metaPath f' = metaPath f" using f'(3) by (simp add: after_append_def)
  show ?case unfolding run using f'(2,4,5,6) num size idx all path by simp
qed simp

section \<open>Creating\<close>

lemma contents_update_other: "p \<noteq> q \<Longrightarrow> contents_of (d(q \<mapsto> c)) p = contents_of d p"
  by (simp add: contents_of_def)

lemma add_partitions_with_parts:
  "add_partitions i ps m = with_parts (map (\<lambda>j. part_new (ps ! j) (i + j)) [0..<length ps]) m"
proof (induction ps arbitrary: i m)
  case (Cons p ps)
  then show ?case
    by (simp add: with_parts_def upt_conv_Cons map_Suc_upt [symmetric] comp_def del: upt_Suc)
qed (simp add: with_parts_def)

definition created_meta :: "nat \<times> nat \<times> nat \<Rightarrow> path list \<Rightarrow> nat \<Rightarrow> file_meta" where
  "created_meta rawKey dps psz = with_parts (map (\<lambda>j. part_new (dps ! j) j) [0..<length dps])
     ((meta_new 0 rawKey)\<lparr>m_pageSize := psz, numFlushedPages := 0, m_version := 0, latestPageId := 2 ^ 32 - 1\<rparr>)"

definition created :: "nat \<times> nat \<times> nat \<Rightarrow> path \<Rightarrow> path list \<Rightarrow> nat \<Rightarrow> bool \<Rightarrow> disk \<Rightarrow> pf" where
  "created rawKey mp dps psz b d = \<lparr>metaPath = mp, dataPaths = dps, usingDirect = True, cleared = False,
     pageSize = psz, metaFile = OpenStream b, dataFiles = map (\<lambda>_. NoFile) dps,
     dataHandles = replicate (length dps) (OpenFile 0), metaData = Some (created_meta rawKey dps psz), disk = d\<rparr>"

definition names_ok :: "path \<Rightarrow> path list \<Rightarrow> bool" where
  "names_ok mp dps = (distinct (mp # dps) \<and> (\<forall>p \<in> set dps. 0 \<notin> set p) \<and>
     length dps < 2 ^ 32 \<and> sum_list (map length dps) < 2 ^ 32)"

definition key_ok :: "nat \<times> nat \<times> nat \<Rightarrow> bool" where
  "key_ok k = (fst k < 2 ^ 32 \<and> fst (snd k) < 2 ^ 32 \<and> snd (snd k) < 2 ^ 32)"

lemma with_parts_more [simp]:
  "sharedSetKey (with_parts ps m) = sharedSetKey m" "numSharedPages (with_parts ps m) = numSharedPages m"
  by (induction ps arbitrary: m) (auto simp: with_parts_def addPartition_def)

lemma created_parts:
  "pf_parts (created rawKey mp dps psz b d) = map (\<lambda>j. part_new (dps ! j) j) [0..<length dps]"
  by (auto simp: pf_parts_def created_def created_meta_def with_parts_partitions meta_new_def
      split: list.splits option.splits)

lemma created_live:
  assumes "\<forall>n. wrote E n = n" and "names_ok mp dps" and "key_ok rawKey" and "psz < 2 ^ 32"
    and "\<forall>p \<in> set dps. contents_of d p = []"
  shows "live E (created rawKey mp dps psz b d)"
proof -
  let ?f = "created rawKey mp dps psz b d"
  have num: "pf_num_parts ?f = length dps" by (simp add: pf_num_parts_def created_parts)
  have size: "pf_size ?f = psz" by (simp add: pf_size_def created_def created_meta_def)
  have meta: "the_meta ?f = created_meta rawKey dps psz" by (simp add: the_meta_def created_def)
  have parts: "m_partitions (created_meta rawKey dps psz)
      = (if dps = [] then None else Some (map (\<lambda>j. part_new (dps ! j) j) [0..<length dps]))"
    by (auto simp: created_meta_def with_parts_partitions meta_new_def split: list.splits)
  have "pf_shape ?f"
    using num size assms(2,4) slots_open_replicate [of "length dps"]
    by (simp add: pf_shape_def names_ok_def) (simp add: created_def)
  moreover have "sized ?f"
    using assms(5) num by (simp add: sized_def created_parts part_new_def) (simp add: created_def)
  moreover have "tidy (the_meta ?f)" by (simp add: meta tidy_def created_meta_def meta_new_def)
  moreover have "cells_fit ?f (the_meta ?f)"
    using assms(2-4) parts
    by (simp add: meta cells_fit_def names_ok_def key_ok_def)
      (simp add: created_def created_meta_def meta_new_def part_new_def)
  moreover have "meta_open ?f" by (simp add: meta_open_def created_def)
  moreover have "indexed ?f" by (simp add: indexed_def meta created_meta_def meta_new_def)
  ultimately show ?thesis using assms(1) by (simp add: live_def pf_ok_def)
qed

lemma contents_create: "contents_of (create p d) = contents_of d"
  by (rule ext) (simp add: create_def contents_of_def)

lemma live_writeMeta:
  assumes "live E f" and "visits_ok E"
  obtains cells rest where "meta_cells E f (the_meta f) = Inr cells"
    "writeMeta E f = Inr (f\<lparr>disk := stored_meta f (the_meta f) cells rest\<rparr>, 0)"
    "\<forall>p \<in> set (dataPaths f). contents_of (stored_meta f (the_meta f) cells rest) p = contents_of (disk f) p"
proof -
  have shape: "pf_shape f" and env: "\<forall>n. wrote E n = n" and tidy: "tidy (the_meta f)"
    and fit: "cells_fit f (the_meta f)" using assms(1) by (auto simp: live_def pf_ok_def)
  obtain b where b: "metaFile f = OpenStream b"
    using assms(1) by (cases "metaFile f") (auto simp: live_def meta_open_def)
  obtain cells where cells: "meta_cells E f (the_meta f) = Inr cells" "length cells = meta_size f (the_meta f)"
    using meta_cells_parse [OF assms(2) tidy fit] by blast
  obtain rest where "writeMeta E f = Inr (f\<lparr>disk := stored_meta f (the_meta f) cells rest\<rparr>, 0)"
    using writeMeta_stores [OF env b _ the_meta_Some [OF shape] cells] shape by (auto simp: pf_shape_def)
  moreover have "contents_of (stored_meta f (the_meta f) cells rest) p = contents_of (disk f) p"
    if "p \<in> set (dataPaths f)" for p rest
    using that shape by (auto simp: stored_meta_def pf_shape_def intro!: contents_update_other)
  ultimately show thesis using that cells(1) by blast
qed

lemma pf_create_ok:
  assumes "\<forall>n. wrote E n = n" and "\<forall>p. canOpen E p" and "visits_ok E" and "names_ok mp dps"
    and "key_ok rawKey" and "psz < 2 ^ 32" and "\<forall>p \<in> set dps. contents_of d p = []"
  shows "\<exists>b d'. pf_create E rawKey mp dps psz d = Inr (created rawKey mp dps psz b d') \<and>
    (\<forall>p \<in> set dps. contents_of d' p = [])"
proof -
  let ?init = "\<lparr>metaPath = mp, dataPaths = dps, usingDirect = True, cleared = False, pageSize = psz,
     metaFile = NullStream, dataFiles = map (\<lambda>_. NoFile) dps, dataHandles = map (\<lambda>_. NoFile) dps,
     metaData = Some (created_meta rawKey dps psz), disk = d\<rparr>"
  obtain b d1 where m: "openMeta E ?init = (?init\<lparr>metaFile := OpenStream b, disk := d1\<rparr>, True)"
    and d1: "contents_of d1 = contents_of d"
    using that [of "if d mp = None then create mp d else d" "d mp \<noteq> None"] assms(2)
    by (cases "d mp") (auto simp: openMeta_def contents_create)
  obtain d2 where d2: "openDirect_loop E 0 dps (?init\<lparr>metaFile := OpenStream b, disk := d1\<rparr>)
      = Inr (created rawKey mp dps psz b d2, True)" "contents_of d2 = contents_of d1"
    using openDirect_loop_all [OF assms(2), of 0 dps "?init\<lparr>metaFile := OpenStream b, disk := d1\<rparr>"]
    by (auto simp: created_def)
  have meta: "add_partitions 0 dps ((meta_new 0 rawKey)\<lparr>m_pageSize := psz, numFlushedPages := 0,
      m_version := 0, latestPageId := 2 ^ 32 - 1\<rparr>) = created_meta rawKey dps psz"
    by (simp add: add_partitions_with_parts created_meta_def)
  have all: "openAll E ?init = Inr (created rawKey mp dps psz b d2, True)"
    using m d2(1) by (simp add: openAll_def openData_def openDataDirect_def)
  let ?f = "created rawKey mp dps psz b d2"
  have live: "live E ?f"
    using assms d1 d2(2) by (intro created_live) auto
  obtain cells rest where w: "writeMeta E ?f = Inr (?f\<lparr>disk := stored_meta ?f (the_meta ?f) cells rest\<rparr>, 0)"
    "\<forall>p \<in> set (dataPaths ?f). contents_of (stored_meta ?f (the_meta ?f) cells rest) p = contents_of (disk ?f) p"
    using live_writeMeta [OF live assms(3)] by metis
  have "pf_create E rawKey mp dps psz d
      = Inr (created rawKey mp dps psz b (stored_meta ?f (the_meta ?f) cells rest))"
    unfolding pf_create_def meta all by (simp add: w(1)) (simp add: created_def)
  moreover have "\<forall>p \<in> set dps. contents_of (stored_meta ?f (the_meta ?f) cells rest) p = []"
    using w(2) d1 d2(2) assms(7) by (simp add: created_def)
  ultimately show ?thesis by blast
qed

section \<open>Reopening\<close>

lemma reopened_parts:
  assumes "pf_shape f" and "m = the_meta f" and "cells_fit f m"
  shows "pf_parts (reopened E rawId rawKey f m d) = renumbered 0 (pf_parts f) (dataPaths f)"
  using assms parts_the_meta [OF assms(1)]
  by (cases "m_partitions m")
    (auto simp: pf_parts_def reopened_def reread_def Let_def with_parts_partitions meta_new_def
      renumbered_def cells_fit_def pf_shape_def split: list.splits option.splits)

lemma reopened_ok:
  assumes "live E f" and "\<forall>p \<in> set (dataPaths f). contents_of d p = contents_of (disk f) p"
  shows "pf_ok E (reopened E rawId rawKey f (the_meta f) d)"
    "pf_num_parts (reopened E rawId rawKey f (the_meta f) d) = pf_num_parts f"
    "pf_size (reopened E rawId rawKey f (the_meta f) d) = pf_size f"
    "\<forall>i < pf_num_parts f. pf_stored (reopened E rawId rawKey f (the_meta f) d) i = pf_stored f i"
proof -
  let ?g = "reopened E rawId rawKey f (the_meta f) d"
  have shape: "pf_shape f" and sized: "sized f" and env: "\<forall>n. wrote E n = n"
    and fit: "cells_fit f (the_meta f)"
    using assms(1) by (auto simp: live_def pf_ok_def)
  note parts = reopened_parts [OF shape refl fit, of E rawId rawKey d]
  have len: "length (dataPaths f) = pf_num_parts f" using shape by (simp add: pf_shape_def)
  have pages: "pm_numPages (pf_parts ?g ! i) = pm_numPages (pf_parts f ! i)" if "i < pf_num_parts f" for i
    using that len by (simp add: parts renumbered_def)
  show num: "pf_num_parts ?g = pf_num_parts f"
    by (simp add: pf_num_parts_def parts) (simp add: renumbered_def len pf_num_parts_def)
  show size: "pf_size ?g = pf_size f"
    using the_meta_Some [OF shape] by (simp add: pf_size_def reopened_def reread_def Let_def)
  have disk: "contents_of (disk ?g) (dataPaths ?g ! i) = contents_of (disk f) (dataPaths f ! i)"
    if "i < pf_num_parts f" for i
    using assms(2) that len by (simp add: reopened_def)
  have "pf_shape ?g"
    using shape num size len slots_open_replicate [of "pf_num_parts f"]
    by (simp add: pf_shape_def) (simp add: reopened_def)
  moreover have "sized ?g" using sized num pages disk size by (simp add: sized_def)
  ultimately show "pf_ok E ?g" using env by (simp add: pf_ok_def)
  show "\<forall>i < pf_num_parts f. pf_stored ?g i = pf_stored f i"
    using pages disk size by (simp add: pf_stored_def)
qed

lemma reopened_index:
  assumes "live E f" and "visits_ok E" and "(pid, ix) \<in> set (pageIndexes (the_meta f))"
  shows "getPageIndex pid (the_meta (reopened E rawId rawKey f (the_meta f) d)) = ix"
proof -
  have "pageIndexes (the_meta (reopened E rawId rawKey f (the_meta f) d))
      = rev (visitPages E (pageIndexes (the_meta f)))"
    by (simp add: the_meta_def reopened_def reread_def Let_def)
  moreover have "distinct (map fst (rev (visitPages E (pageIndexes (the_meta f)))))"
    using assms(1) visits_ok_facts(3) [OF assms(2), where g = fst]
    by (simp add: live_def tidy_def rev_map [symmetric])
  ultimately have "map_of (pageIndexes (the_meta (reopened E rawId rawKey f (the_meta f) d))) pid = Some ix"
    using assms(3) visits_ok_facts(2) [OF assms(2)] by (intro map_of_is_SomeI) auto
  then show ?thesis by (simp add: getPageIndex_def)
qed

lemma restart:
  assumes "live E f" and "visits_ok E" and "\<forall>p. canOpen E p"
  obtains f2 f3 where "writeMeta E f = Inr (f2, 0)"
    "pf_reopen E rawId rawKey (metaPath f) (disk f2) = Inr (f3, True)"
    "pf_ok E f3" "pf_num_parts f3 = pf_num_parts f" "pf_size f3 = pf_size f"
    "\<forall>i < pf_num_parts f. pf_stored f3 i = pf_stored f i"
    "\<forall>(pid, ix) \<in> set (pageIndexes (the_meta f)). getPageIndex pid (the_meta f3) = ix"
proof -
  obtain cells rest where w: "meta_cells E f (the_meta f) = Inr cells"
    "writeMeta E f = Inr (f\<lparr>disk := stored_meta f (the_meta f) cells rest\<rparr>, 0)"
    "\<forall>p \<in> set (dataPaths f). contents_of (stored_meta f (the_meta f) cells rest) p = contents_of (disk f) p"
    using live_writeMeta [OF assms(1,2)] .
  have tidy: "tidy (the_meta f)" and fit: "cells_fit f (the_meta f)" using assms(1) by (auto simp: live_def)
  obtain d3 where d3: "pf_reopen E rawId rawKey (metaPath f) (stored_meta f (the_meta f) cells rest)
      = Inr (reopened E rawId rawKey f (the_meta f) d3, True)"
    "contents_of d3 = contents_of (stored_meta f (the_meta f) cells rest)"
    using reopen_reads [OF assms(3,2) tidy fit w(1) refl] by blast
  have same: "\<forall>p \<in> set (dataPaths f). contents_of d3 p = contents_of (disk f) p" using w(3) d3(2) by simp
  have index: "\<forall>(pid, ix) \<in> set (pageIndexes (the_meta f)).
      getPageIndex pid (the_meta (reopened E rawId rawKey f (the_meta f) d3)) = ix"
    by (auto simp: reopened_index [OF assms(1,2)])
  show thesis
    using that [OF w(2), of "reopened E rawId rawKey f (the_meta f) d3"] d3(1) index
      reopened_ok [OF assms(1) same, of rawId rawKey] by simp
qed

section \<open>Pages are found again\<close>

text \<open>C25: A list of pages appended to an intact page file (in either mode, direct or buffered) can be
  loaded again: the append returns the page's sequence number in its partition, and loading that
  number gives the page's bytes, however many pages follow it.\<close>

theorem appended_pages_read_back:
  assumes "pf_ok E f" and "\<forall>x \<in> set xs. writable (pf_num_parts f) (pf_size f) x"
    and "\<forall>i < pf_num_parts f. length (pf_stored f i) + length xs \<le> 2147483647"
    and "k < length xs" and "page_image (snd (xs ! k)) = Inr bs"
  shows "\<exists>f' rs f''. pf_appends E xs f = Inr (f', rs) \<and>
    pf_loadPage (fst (xs ! k)) (nat (rs ! k)) (pf_size f) f' = Inr (f'', pf_size f, bs)"
proof -
  have fits: "\<forall>x \<in> set xs. page_files.fits f x" using assms(2) by (simp add: writable_fits)
  obtain f' rs where run: "page_files.append_pages E xs f = Inr (f', rs)"
    using page_files.append_pages_stored [OF assms(1) fits assms(3)] by blast
  then show ?thesis
    using page_files.loads_image [OF assms(1) fits assms(3) run assms(4,5)] by (simp add: pf_appends_eq)
qed

text \<open>C2: The pages of a set survive a restart: create the files of a set, append any pages with
  different ids to its partitions, write the meta file, and build a new object from the disk the way
  \<open>UserType\<close> does.  The new object knows the place of every page id, and loading that place gives
  the bytes of the page.\<close>

theorem pages_survive_restart:
  assumes "\<forall>n. wrote E n = n" and "\<forall>p. canOpen E p" and "visits_ok E"
    and "names_ok mp dps" and "key_ok rawKey" and "psz < 2 ^ 32" and "\<forall>p \<in> set dps. contents_of d p = []"
    and "\<forall>x \<in> set xs. writable (length dps) psz x" and "distinct (map id_of xs)"
    and "length xs \<le> 2147483647" and "k < length xs" and "page_image (snd (xs ! k)) = Inr bs"
  shows "\<exists>f0 f1 rs f2 f3 f4. pf_create E rawKey mp dps psz d = Inr f0 \<and> pf_appends E xs f0 = Inr (f1, rs) \<and>
    writeMeta E f1 = Inr (f2, 0) \<and> pf_reopen E rawId rawKey2 mp (disk f2) = Inr (f3, True) \<and>
    getPageIndex (id_of (xs ! k)) (the_meta f3) = \<lparr>ix_partition = fst (xs ! k), ix_seq = nat (rs ! k)\<rparr> \<and>
    pf_loadPage (fst (xs ! k)) (nat (rs ! k)) psz f3 = Inr (f4, psz, bs)"
proof -
  obtain b d' where f0: "pf_create E rawKey mp dps psz d = Inr (created rawKey mp dps psz b d')"
    and empty: "\<forall>p \<in> set dps. contents_of d' p = []"
    using pf_create_ok [OF assms(1-7)] by blast
  let ?f0 = "created rawKey mp dps psz b d'"
  have live0: "live E ?f0" using created_live [OF assms(1,4-6) empty] .
  have num0: "pf_num_parts ?f0 = length dps" and size0: "pf_size ?f0 = psz"
    by (simp_all add: pf_num_parts_def created_parts pf_size_def) (simp add: created_def created_meta_def)
  have stored0: "\<forall>i < pf_num_parts ?f0. pf_stored ?f0 i = []"
    by (simp add: num0) (simp add: pf_stored_def created_parts part_new_def)
  have none: "pageIndexes (the_meta ?f0) = []" by (simp add: the_meta_def created_def created_meta_def meta_new_def)
  have "\<forall>x \<in> set xs. writable (pf_num_parts ?f0) (pf_size ?f0) x" using assms(8) num0 size0 by simp
  moreover have "new_ids xs ?f0" using assms(9) none by (simp add: new_ids_def)
  moreover have room: "\<forall>i < pf_num_parts ?f0. length (pf_stored ?f0 i) + length xs \<le> 2147483647"
    using stored0 assms(10) by simp
  ultimately obtain f1 rs where f1: "pf_appends E xs ?f0 = Inr (f1, rs)" "live E f1"
    "metaPath f1 = metaPath ?f0" "pf_num_parts f1 = pf_num_parts ?f0" "pf_size f1 = pf_size ?f0"
    "(id_of (xs ! k), \<lparr>ix_partition = fst (xs ! k), ix_seq = nat (rs ! k)\<rparr>) \<in> set (pageIndexes (the_meta f1))"
    using live_appends [OF live0, of xs] assms(10,11) none by auto
  obtain f2 f3 where r: "writeMeta E f1 = Inr (f2, 0)"
    "pf_reopen E rawId rawKey2 (metaPath f1) (disk f2) = Inr (f3, True)"
    "pf_ok E f3" "pf_num_parts f3 = pf_num_parts f1" "pf_size f3 = pf_size f1"
    "\<forall>i < pf_num_parts f1. pf_stored f3 i = pf_stored f1 i"
    "\<forall>(pid, ix) \<in> set (pageIndexes (the_meta f1)). getPageIndex pid (the_meta f3) = ix"
    using restart [OF f1(2) assms(3,2), of rawId rawKey2] by blast
  have fits: "\<forall>x \<in> set xs. page_files.fits ?f0 x"
    using assms(8) num0 size0 by (simp add: writable_fits [symmetric])
  have image: "nat (rs ! k) < length (pf_stored f1 (fst (xs ! k)))"
    "pf_stored f1 (fst (xs ! k)) ! nat (rs ! k) = bs"
    using page_files.stored_image [OF _ fits room _ assms(11,12), of E f1 rs] live0 f1(1)
    by (auto simp: live_def pf_appends_eq)
  have i: "fst (xs ! k) < pf_num_parts f1" using assms(8,11) num0 f1(4) by (simp add: writable_def)
  then have "pf_loadPage (fst (xs ! k)) (nat (rs ! k)) psz f3
      = Inr (data_reads (fst (xs ! k)) (Suc (nat (rs ! k)) * psz) f3, psz, bs)"
    using load_contract [OF r(3), of "fst (xs ! k)" "nat (rs ! k)"] r(4-6) image f1(5) size0 by simp
  moreover have "getPageIndex (id_of (xs ! k)) (the_meta f3) = \<lparr>ix_partition = fst (xs ! k), ix_seq = nat (rs ! k)\<rparr>"
    using r(7) f1(6) by auto
  moreover have "metaPath f1 = mp" using f1(3) by (simp add: created_def)
  ultimately show ?thesis using f0 f1(1) r(1,2) by (intro exI conjI) auto
qed

definition whole_env :: file_env where
  "whole_env = \<lparr>canOpen = (\<lambda>_. True), wrote = (\<lambda>n. n), visitPages = rev, visitMaps = id\<rparr>"

definition demo_body :: "byte \<Rightarrow> 32 word \<Rightarrow> page" where
  "demo_body b pid = demo_page\<lparr>rawBytes := Some (replicate 40 b), psize := 40, pageID := pid\<rparr>"

definition demo_pages :: "(nat \<times> page) list" where
  "demo_pages = [(0, demo_body 7 5), (1, demo_body 8 6), (0, demo_body 9 3)]"

lemma demo_image [simp]: "page_image (demo_body b pid) = Inr (replicate 40 b)"
  by (simp add: page_image_def demo_body_def)

lemma demo_pages_writable: "\<forall>x \<in> set demo_pages. writable 2 40 x"
  by (simp add: demo_pages_def writable_def)

definition demo_file :: pf where
  "demo_file = created (0, 0, 0) [1] [[2], [3]] 40 False (\<lambda>_. None)"

lemma demo_live: "live whole_env demo_file"
  unfolding demo_file_def
  by (rule created_live) (simp_all add: whole_env_def names_ok_def key_ok_def contents_of_def)

lemma demo_file_facts: "pf_num_parts demo_file = 2" "pf_size demo_file = 40"
    "i < 2 \<Longrightarrow> pf_stored demo_file i = []" "pageIndexes (the_meta demo_file) = []"
  by (auto simp: demo_file_def pf_num_parts_def created_parts pf_stored_def part_new_def less_2_cases_iff)
    (simp_all add: pf_size_def the_meta_def created_def created_meta_def meta_new_def)

lemma demo_pages_facts: "demo_pages ! 2 = (0, demo_body 9 3)" "length demo_pages = 3"
    "map id_of demo_pages = [5, 6, 3]" "id_of (0, demo_body 9 3) = 3"
  by (simp_all add: demo_pages_def id_of_def demo_body_def)

lemma whole_env_facts: "wrote whole_env n = n" "canOpen whole_env p" "visits_ok whole_env"
  by (simp_all add: whole_env_def visits_ok_def)

theorem appended_pages_read_back_witness:
  "\<exists>f' rs f''. pf_appends whole_env demo_pages demo_file = Inr (f', rs) \<and>
    pf_loadPage 0 (nat (rs ! 2)) 40 f' = Inr (f'', 40, replicate 40 9)"
  using appended_pages_read_back [of whole_env demo_file demo_pages 2 "replicate 40 9"]
    demo_live demo_pages_writable
  by (simp add: live_def demo_file_facts demo_pages_facts)

theorem pages_survive_restart_witness:
  "\<exists>f0 f1 rs f2 f3 f4. pf_create whole_env (0, 0, 0) [1] [[2], [3]] 40 (\<lambda>_. None) = Inr f0 \<and>
    pf_appends whole_env demo_pages f0 = Inr (f1, rs) \<and> writeMeta whole_env f1 = Inr (f2, 0) \<and>
    pf_reopen whole_env 0 (0, 0, 0) [1] (disk f2) = Inr (f3, True) \<and>
    getPageIndex 3 (the_meta f3) = \<lparr>ix_partition = 0, ix_seq = nat (rs ! 2)\<rparr> \<and>
    pf_loadPage 0 (nat (rs ! 2)) 40 f3 = Inr (f4, 40, replicate 40 9)"
proof -
  have "names_ok [1] [[2], [3]]" "key_ok (0, 0, 0)" "\<forall>p \<in> set [[2], [3]]. contents_of (\<lambda>_. None) p = []"
    by (simp_all add: names_ok_def key_ok_def contents_of_def)
  then show ?thesis
    using pages_survive_restart [of whole_env "[1]" "[[2], [3]]" "(0, 0, 0)" 40 "\<lambda>_. None" demo_pages 2
        "replicate 40 9" 0 "(0, 0, 0)"] demo_pages_writable demo_pages_writable [unfolded numeral_2_eq_2]
    by (simp add: whole_env_facts demo_pages_facts)
qed

end
