(* ===== verification/PageFileFaults.thy ===== *)
theory PageFileFaults
  imports PartitionedFileRestart
begin

text \<open>
  The states in which a page file damages its own data: shared pages overflow the buffer of the meta
  file, a write that the disk cuts short shifts every later page of the partition, and a page that is
  written a second time keeps its first place in the index.
\<close>

section \<open>Shared pages\<close>

definition with_shared :: "nat \<Rightarrow> nat \<Rightarrow> nat \<Rightarrow> pf \<Rightarrow> file_meta" where
  "with_shared pid part sq f = addSharedPageIndex pid part sq (the_meta f)"

lemma mset_single_list: "mset xs = {#x#} \<Longrightarrow> xs = [x]"
  by (metis mset_single_iff)

lemma part_cells_shared: "part_cells (addSharedPageIndex pid part sq m) i ps = part_cells m i ps"
proof -
  have "getPartition j (addSharedPageIndex pid part sq m) = getPartition j m" for j
    by (simp add: addSharedPageIndex_def getPartition_def Let_def)
  then show ?thesis by (induction ps arbitrary: i) simp_all
qed

lemma shared_cells_overflow:
  assumes "visits_ok E" and "tidy m" and "cells_fit f m"
  shows "\<exists>cells. meta_cells E f (addSharedPageIndex pid part sq m) = Inr cells \<and>
    length cells = meta_size f (addSharedPageIndex pid part sq m) + 4"
proof -
  let ?ix = "\<lparr>ix_partition = part, ix_seq = sq\<rparr>" and ?m = "addSharedPageIndex pid part sq m"
  have none: "sharedPageMaps m = None" "numSharedPages m = 0" using assms(2) by (auto simp: tidy_def)
  have maps: "sharedPageMaps ?m = Some [(part, [(pid, ?ix)])]" "numSharedPages ?m = 1"
    "pageIndexes ?m = pageIndexes m" "numFlushedPages ?m = length (pageIndexes m)"
    using none assms(2) by (auto simp: addSharedPageIndex_def Let_def map_assign_def tidy_def)
  have ms: "mset (visitPages E [x]) = {#x#}" "mset (visitMaps E [y]) = {#y#}" for x y
    using assms(1) by (simp_all add: visits_ok_def)
  have "shared_entries E ?m = [(pid, ?ix)]"
    by (simp add: shared_entries_def maps mset_single_list [OF ms(1)] mset_single_list [OF ms(2)])
  moreover obtain parts where "part_cells m 0 (dataPaths f) = Inr parts"
    "length parts = sum_list (map (\<lambda>p. 4 + 4 + 8 + length p + 1) (dataPaths f))"
    using part_cells_ok [OF assms(3)] by blast
  moreover have "length (visitPages E (pageIndexes m)) = length (pageIndexes m)"
    by (rule visits_ok_facts(1) [OF assms(1)])
  moreover have "length (concat (map index_cell es)) = 12 * length es" for es by simp
  ultimately show ?thesis
    by (cases "sharedSetKey ?m")
      (simp add: meta_cells_def part_cells_shared maps meta_size_def to_unsigned_def index_cell_def)
qed

text \<open>\<open>writeMeta\<close> counts 8 bytes for each shared page and stores 12: for every live file that gets
  one shared page, writing the meta file writes past the end of its heap buffer.\<close>

theorem shared_page_overflows_meta:
  assumes "live E f" and "visits_ok E"
  shows "\<exists>f'. addSharedPage pid part sq f = Inr f' \<and> writeMeta E f' = Inl WildAccess"
proof -
  have shape: "pf_shape f" and tidy: "tidy (the_meta f)" and fit: "cells_fit f (the_meta f)"
    using assms(1) by (auto simp: live_def pf_ok_def)
  obtain b where b: "metaFile f = OpenStream b"
    using assms(1) by (cases "metaFile f") (auto simp: live_def meta_open_def)
  let ?m = "addSharedPageIndex pid part sq (the_meta f)"
  let ?f = "f\<lparr>metaData := Some ?m\<rparr>"
  obtain cells where cells: "meta_cells E f ?m = Inr cells" "length cells = meta_size f ?m + 4"
    using shared_cells_overflow [OF assms(2) tidy fit] by blast
  have same: "meta_cells E (?f\<lparr>disk := d\<rparr>) ?m = meta_cells E f ?m" "meta_size ?f ?m = meta_size f ?m" for d
    by (simp_all add: meta_cells_def meta_size_def)
  have "addSharedPage pid part sq f = Inr ?f"
    by (simp add: addSharedPage_def with_meta_def the_meta_Some [OF shape])
  moreover have "writeMeta E ?f = Inl WildAccess"
    using b shape cells same
    by (simp add: writeMeta_def with_meta_def stream_write_def Let_def pf_shape_def)
  ultimately show ?thesis by blast
qed

theorem shared_page_overflows_meta_witness:
  "\<exists>f'. addSharedPage 4 0 0 demo_file = Inr f' \<and> writeMeta whole_env f' = Inl WildAccess"
  by (rule shared_page_overflows_meta [OF demo_live whole_env_facts(3)])

section \<open>Writes that are cut short\<close>

text \<open>An append of which only the first \<open>j\<close> bytes reach the disk.\<close>

lemma appendPage_short:
  assumes "pf_shape f" and "wrote E (length bs) = j" and "j < length bs" and "i < pf_num_parts f"
    and "page_image p = Inr bs"
  shows "appendPage E i (Some p) f = Inr (data_appended i (take j bs) f, -1)"
proof -
  from assms(5) have raw: "rawBytes p \<noteq> None" by (auto simp: page_image_def split: option.splits)
  from slots_open_nth [of "if usingDirect f then dataHandles f else dataFiles f" _ i] assms(1,4)
  obtain pos where "if usingDirect f then i < length (dataHandles f) \<and> dataHandles f ! i = OpenFile pos
      else i < length (dataFiles f) \<and> dataFiles f ! i = OpenFile pos"
    by (fastforce simp: pf_shape_def)
  then show ?thesis
    using assms raw by (auto simp: appendPage_def appendPageDirect_def vector_at_def pf_shape_def
        append_write_def appended_def data_appended_def file_end_def contents_of_def Let_def
        split: if_splits)
qed

lemma shape_data_appended:
  assumes "pf_shape f" and "i < pf_num_parts f"
  shows "pf_shape (data_appended i bs f)" "pf_parts (data_appended i bs f) = pf_parts f"
    "pf_size (data_appended i bs f) = pf_size f" "pf_num_parts (data_appended i bs f) = pf_num_parts f"
proof -
  show parts: "pf_parts (data_appended i bs f) = pf_parts f" and size: "pf_size (data_appended i bs f) = pf_size f"
    by (simp_all add: pf_parts_def pf_size_def)
  then show num: "pf_num_parts (data_appended i bs f) = pf_num_parts f" by (simp add: pf_num_parts_def)
  show "pf_shape (data_appended i bs f)"
    using assms num size by (auto simp: pf_shape_def data_appended_def Let_def slots_open_update)
qed

lemma loadPage_reads:
  assumes "pf_shape f" and "i < pf_num_parts f" and "k < pm_numPages (pf_parts f ! i)" and "k < 2 ^ 32"
    and "bs = read_at (disk f) (dataPaths f ! i) (k * pf_size f) n"
  shows "pf_loadPage i k n f = Inr (data_reads i (k * pf_size f + length bs) f, length bs, bs)"
proof -
  obtain m ps where m: "metaData f = Some m" "m_partitions m = Some ps" "pf_parts f = ps" "i < length ps"
    using pf_parts_some [OF assms(2)] .
  have sz: "m_pageSize m = pf_size f" using m(1) by (simp add: pf_size_def)
  have "k * pf_size f < 2 ^ 32 * 2 ^ 32"
    using mult_strict_mono [of k "2 ^ 32" "pf_size f" "2 ^ 32"] assms(1,4) by (simp add: pf_shape_def)
  then have pos: "u64 (k * pf_size f) = k * pf_size f" by simp
  from slots_open_nth [of "if usingDirect f then dataHandles f else dataFiles f" _ i] assms(1,2)
  obtain q where "if usingDirect f then i < length (dataHandles f) \<and> dataHandles f ! i = OpenFile q
      else i < length (dataFiles f) \<and> dataFiles f ! i = OpenFile q"
    by (fastforce simp: pf_shape_def)
  moreover have "i < length (dataPaths f)" using assms(1,2) by (simp add: pf_shape_def)
  ultimately show ?thesis
    using m sz assms(3,5) pos
    by (auto simp: pf_loadPage_def loadPageDirect_def vector_at_def with_meta_def getPartition_def
        Let_def data_reads_def split: if_splits)
qed

text \<open>When the disk takes only part of a page, the append returns -1 but the part stays in the file:
  the next append of the partition reports success, and loading the page it reports gives the tail of
  the failed page followed by the start of the new one.\<close>

theorem short_write_shifts_pages:
  assumes "pf_ok E f" and "i < pf_num_parts f" and "length (pf_stored f i) < 2147483647"
    and "page_image p = Inr bs" and "length bs = pf_size f" and "wrote E' (pf_size f) = j" and "j < pf_size f"
    and "page_image q = Inr cs" and "length cs = pf_size f"
  shows "\<exists>f1 f2 k f3. appendPage E' i (Some p) f = Inr (f1, -1) \<and>
    appendPage E i (Some q) f1 = Inr (f2, int k) \<and>
    pf_loadPage i k (pf_size f) f2 = Inr (f3, pf_size f, take j bs @ take (pf_size f - j) cs)"
proof -
  let ?k = "length (pf_stored f i)" and ?n = "pf_size f"
  have shape: "pf_shape f" and env: "wrote E (length cs) = length cs" and sized: "sized f"
    using assms(1) by (auto simp: pf_ok_def)
  have k: "?k = pm_numPages (pf_parts f ! i)" by (simp add: pf_stored_def)
  let ?f1 = "data_appended i (take j bs) f"
  have s1: "appendPage E' i (Some p) f = Inr (?f1, -1)"
    using appendPage_short [OF shape _ _ assms(2,4)] assms(5-7) by simp
  note f1 = shape_data_appended [OF shape assms(2), of "take j bs"]
  let ?f2 = "after_append i (unat (pageID q)) cs ?f1"
  have i1: "i < pf_num_parts ?f1" using f1(4) assms(2) by simp
  have s2: "appendPage E i (Some q) ?f1 = Inr (?f2, int ?k)"
    using appendPage_after [OF f1(1) env i1 assms(8)] f1(2) k assms(3) by (simp add: to_int_def)
  have "length (contents_of (disk f) (dataPaths f ! i)) = ?k * ?n"
    using sized assms(2) k by (simp add: sized_def)
  then have read: "read_at (disk ?f2) (dataPaths ?f2 ! i) (?k * ?n) ?n = take j bs @ take (?n - j) cs"
    using assms(5,7) by (simp add: read_at_def contents_after) (simp add: contents_of_def)
  have "pm_numPages (pf_parts ?f2 ! i) = Suc ?k"
    using pf_parts_after [OF i1] f1(2) k assms(2,3) by (simp add: pf_num_parts_def)
  then have "pf_loadPage i ?k ?n ?f2 = Inr (data_reads i (?k * ?n + ?n) ?f2, ?n, take j bs @ take (?n - j) cs)"
    using loadPage_reads [OF shape_after [OF f1(1) i1, of "unat (pageID q)" cs], of i ?k] pf_num_parts_after [OF i1]
      pf_size_after [OF i1] f1(3) i1 assms(3,5,7,9) read by simp
  then show ?thesis using s1 s2 by blast
qed

definition short_env :: file_env where
  "short_env = whole_env\<lparr>wrote := (\<lambda>n. n div 2)\<rparr>"

theorem short_write_shifts_pages_witness:
  "\<exists>f1 f2 k f3. appendPage short_env 1 (Some (demo_body 7 5)) demo_file = Inr (f1, -1) \<and>
    appendPage whole_env 1 (Some (demo_body 8 6)) f1 = Inr (f2, int k) \<and>
    pf_loadPage 1 k 40 f2 = Inr (f3, 40, replicate 20 7 @ replicate 20 8)"
proof -
  have "pf_ok whole_env demo_file" using demo_live by (simp add: live_def)
  then show ?thesis
    using short_write_shifts_pages [of whole_env demo_file 1 "demo_body 7 5" "replicate 40 7" short_env 20
        "demo_body 8 6" "replicate 40 8"]
    by (simp add: demo_file_facts short_env_def)
qed

section \<open>Pages that are written again\<close>

text \<open>A page id that is appended a second time, as the flushing thread does with a page that was
  flushed before and got dirty again, keeps its first index entry: looking the id up and loading the
  place that is found gives the old bytes, although the append of the new ones succeeded.\<close>

theorem rewritten_page_stays_stale:
  assumes "live E f" and "i < pf_num_parts f" and "length (pf_stored f i) < 2147483647"
    and "page_image p = Inr bs" and "length bs = pf_size f"
    and "(unat (pageID p), ix) \<in> set (pageIndexes (the_meta f))"
  shows "\<exists>f1 k f2. appendPage E i (Some p) f = Inr (f1, int k) \<and> pf_stored f1 i ! k = bs \<and>
    getPageIndex (unat (pageID p)) (the_meta f1) = ix \<and>
    pf_loadPage (ix_partition ix) (ix_seq ix) (pf_size f) f1
      = Inr (f2, pf_size f, pf_stored f (ix_partition ix) ! ix_seq ix)"
proof -
  let ?pid = "unat (pageID p)"
  let ?f1 = "after_append i ?pid bs f" and ?k = "length (pf_stored f i)"
  have ok: "pf_ok E f" and shape: "pf_shape f" and tidy: "tidy (the_meta f)" and ixd: "indexed f"
    using assms(1) by (auto simp: live_def pf_ok_def)
  have app: "appendPage E i (Some p) f = Inr (?f1, int ?k)"
    by (rule append_contract [OF ok assms(2,4,5,3)])
  have ok1: "pf_ok E ?f1" by (rule ok_after [OF ok assms(2,5,3)])
  note num = pf_num_parts_after [OF assms(2), of ?pid bs] and size = pf_size_after [OF assms(2), of ?pid bs]
    and stored = stored_after [OF ok assms(2,5,3), of _ ?pid]
  have at: "map_of (pageIndexes (the_meta f)) ?pid = Some ix"
    using tidy assms(6) by (simp add: tidy_def)
  have "map_of (pageIndexes (the_meta ?f1)) ?pid = Some ix"
    using at by (simp add: after_append_meta(1) [OF shape assms(2)] map_of_map_insert domI)
  then have idx: "getPageIndex ?pid (the_meta ?f1) = ix" by (simp add: getPageIndex_def)
  have place: "ix_partition ix < pf_num_parts f" "ix_seq ix < length (pf_stored f (ix_partition ix))"
    using ixd assms(6) by (auto simp: indexed_def pf_stored_def)
  have "pf_loadPage (ix_partition ix) (ix_seq ix) (pf_size f) ?f1
      = Inr (data_reads (ix_partition ix) (Suc (ix_seq ix) * pf_size f) ?f1, pf_size f,
             pf_stored f (ix_partition ix) ! ix_seq ix)"
    using load_contract [OF ok1, of "ix_partition ix" "ix_seq ix"] place num size stored [OF place(1)]
    by (simp add: nth_append)
  moreover have "pf_stored ?f1 i ! ?k = bs" using stored [OF assms(2)] by (simp add: nth_append)
  ultimately show ?thesis using app idx by blast
qed

definition once_file :: pf where
  "once_file = after_append 0 5 (replicate 40 7) demo_file"

theorem rewritten_page_stays_stale_witness:
  "\<exists>f1 k f2. appendPage whole_env 1 (Some (demo_body 8 5)) once_file = Inr (f1, int k) \<and>
    pf_stored f1 1 ! k = replicate 40 8 \<and>
    getPageIndex 5 (the_meta f1) = \<lparr>ix_partition = 0, ix_seq = 0\<rparr> \<and>
    pf_loadPage 0 0 40 f1 = Inr (f2, 40, replicate 40 7)"
proof -
  have room: "room_for 0 5 demo_file" by (simp add: room_for_def demo_file_facts)
  have ok: "pf_ok whole_env demo_file" using demo_live by (simp add: live_def)
  have live: "live whole_env once_file"
    unfolding once_file_def by (rule live_after [OF demo_live]) (simp_all add: demo_file_facts room)
  have facts: "pf_num_parts once_file = 2" "pf_size once_file = 40"
    "pageIndexes (the_meta once_file) = [(5, \<lparr>ix_partition = 0, ix_seq = 0\<rparr>)]"
    using pf_num_parts_after [of 0 demo_file] pf_size_after [of 0 demo_file]
      index_after(1) [OF demo_live _ room]
    by (simp_all add: once_file_def demo_file_facts new_index_def)
  have stored: "pf_stored once_file 0 = [replicate 40 7]" "pf_stored once_file 1 = []"
    using stored_after [OF ok, of 0 "replicate 40 7" _ 5] by (simp_all add: once_file_def demo_file_facts)
  have id: "unat (pageID (demo_body 8 5)) = 5" by (simp add: demo_body_def)
  show ?thesis
    using rewritten_page_stays_stale [OF live, of 1 "demo_body 8 5" "replicate 40 8"
        "\<lparr>ix_partition = 0, ix_seq = 0\<rparr>"]
    by (simp add: facts stored stored [unfolded One_nat_def] id)
qed

end
