(* ===== verification/SequenceFiles.thy ===== *)
theory SequenceFiles
  imports PartitionedFiles
begin

text \<open>
  The single-file variant of the page file (\<open>src/src/storage/source/SequenceFile.cc\<close>): the file starts
  with its type and page size, and every page is stored with its id behind it.  The state is the C++
  object with the disk it works on.
\<close>

section \<open>State and operations\<close>

text \<open>The constructor leaves \<open>lastFlushedId\<close> as the memory held it.\<close>

record sf =
  s_path :: path
  s_file :: data_file
  s_last :: nat
  s_flushed :: nat
  s_pageSize :: nat
  s_disk :: disk

definition metaSize :: nat where
  "metaSize = 4 + 8"

definition s_contents :: "sf \<Rightarrow> byte list" where
  "s_contents f = contents_of (s_disk f) (s_path f)"

definition sf_openAll :: "file_env \<Rightarrow> sf \<Rightarrow> sf \<times> bool" where
  "sf_openAll E f = (if s_file f \<noteq> NoFile then (f, True)
     else if canOpen E (s_path f) then (f\<lparr>s_file := OpenFile 0, s_disk := create (s_path f) (s_disk f)\<rparr>, True)
     else (f, False))"

definition sf_new :: "file_env \<Rightarrow> nat \<Rightarrow> path \<Rightarrow> nat \<Rightarrow> disk \<Rightarrow> sf" where
  "sf_new E raw p psz d = fst (sf_openAll E \<lparr>s_path = p, s_file = NoFile, s_last = raw, s_flushed = 0,
     s_pageSize = psz, s_disk = d\<rparr>)"

text \<open>Closing a null stream is undefined; the failure of \<open>fclose\<close>, which keeps the stream, is \<open>ok\<close>.\<close>

definition sf_closeAll :: "bool \<Rightarrow> sf \<Rightarrow> (sf \<times> bool) outcome" where
  "sf_closeAll ok f = (case s_file f of NoFile \<Rightarrow> Inl NullDeref | ClosedFile \<Rightarrow> Inl WildAccess
     | OpenFile _ \<Rightarrow> if ok then Inr (f\<lparr>s_file := NoFile\<rparr>, True) else Inr (f\<lparr>s_file := ClosedFile\<rparr>, False))"

definition sf_destroy :: "bool \<Rightarrow> sf \<Rightarrow> sf outcome" where
  "sf_destroy ok f = (if s_file f = NoFile then Inr f
     else andThen (sf_closeAll ok f) (\<lambda>(f, _). Inr f))"

definition sf_clear :: "bool \<Rightarrow> sf \<Rightarrow> sf outcome" where
  "sf_clear ok f = andThen (sf_closeAll ok f) (\<lambda>(f, _).
     let f = (if s_file f \<noteq> NoFile then f\<lparr>s_file := NoFile, s_flushed := 0\<rparr> else f) in
     Inr (case s_disk f (s_path f) of None \<Rightarrow> f
          | Some _ \<Rightarrow> f\<lparr>s_disk := (s_disk f)(s_path f := None), s_path := []\<rparr>))"

definition sf_write :: "file_env \<Rightarrow> byte list \<Rightarrow> sf \<Rightarrow> sf" where
  "sf_write E bs f = (let c = appended E (s_contents f) bs in
     f\<lparr>s_disk := (s_disk f)(s_path f \<mapsto> c), s_file := OpenFile (length c)\<rparr>)"

text \<open>The bytes a page contributes: \<open>getSize()\<close> of them from the start of its raw bytes.\<close>

definition body_image :: "page \<Rightarrow> byte list outcome" where
  "body_image p = (case rawBytes p of None \<Rightarrow> Inl NullDeref
     | Some m \<Rightarrow> if unat (getSize p) \<le> length m then Inr (take (unat (getSize p)) m) else Inl WildAccess)"

definition sf_appendPage :: "file_env \<Rightarrow> nat \<Rightarrow> page option \<Rightarrow> sf \<Rightarrow> (sf \<times> int) outcome" where
  "sf_appendPage E part pg f = (case (s_file f, pg) of
       (NoFile, _) \<Rightarrow> Inr (f, -1)
     | (_, None) \<Rightarrow> Inl NullDeref
     | (ClosedFile, _) \<Rightarrow> Inl WildAccess
     | (_, Some p) \<Rightarrow> andThen (body_image p) (\<lambda>bs.
         let f = sf_write E (bytes_of 4 (unat (pageID p))) (sf_write E bs f) in
         Inr (f\<lparr>s_flushed := u32 (s_flushed f + 1), s_last := unat (pageID p)\<rparr>, 0)))"

definition sf_writeMeta :: "file_env \<Rightarrow> sf \<Rightarrow> (sf \<times> int) outcome" where
  "sf_writeMeta E f = (case s_file f of NoFile \<Rightarrow> Inr (f, -1) | ClosedFile \<Rightarrow> Inl WildAccess
     | OpenFile _ \<Rightarrow> (let bs = bytes_of 4 0 @ bytes_of 8 (s_pageSize f) in
         Inr (sf_write E bs f, if wrote E (length bs) \<noteq> length bs then -1 else 0)))"

definition sf_updateMeta :: "sf \<Rightarrow> sf \<times> int" where
  "sf_updateMeta f = (f, 0)"

definition sf_getPageSizeInMeta :: "sf \<Rightarrow> (sf \<times> nat) outcome" where
  "sf_getPageSizeInMeta f = (case s_file f of NoFile \<Rightarrow> Inr (f, size_t_error) | ClosedFile \<Rightarrow> Inl WildAccess
     | OpenFile _ \<Rightarrow> (let bs = take 8 (drop 4 (s_contents f)) in
         Inr (f\<lparr>s_file := OpenFile (4 + length bs)\<rparr>, if length bs < 8 then 0 else num_of bs)))"

definition sf_getPageSize :: "sf \<Rightarrow> (sf \<times> nat) outcome" where
  "sf_getPageSize f = (if s_pageSize f = 0
     then andThen (sf_getPageSizeInMeta f) (\<lambda>(f, n). Inr (f\<lparr>s_pageSize := n\<rparr>, n)) else Inr (f, s_pageSize f))"

text \<open>Seeking 4 bytes before the end fails in a file that is shorter; the read position then stays.\<close>

definition sf_getAndSetNumFlushedPages :: "sf \<Rightarrow> (sf \<times> nat) outcome" where
  "sf_getAndSetNumFlushedPages f = (case s_file f of
       NoFile \<Rightarrow> Inr (f\<lparr>s_flushed := 0\<rparr>, 0)
     | ClosedFile \<Rightarrow> Inl WildAccess
     | OpenFile _ \<Rightarrow> (let c = s_contents f in
         if length c < 4 then Inr (f\<lparr>s_flushed := 0\<rparr>, 0)
         else let pid = num_of (drop (length c - 4) c); n = u32 (pid + 1) in
              Inr (f\<lparr>s_file := OpenFile (length c), s_last := pid, s_flushed := n\<rparr>, n)))"

definition sf_seekPage :: "nat \<Rightarrow> sf \<Rightarrow> nat" where
  "sf_seekPage k f = u64 (metaSize + k * (s_pageSize f + 4))"

definition sf_loadPage :: "nat \<Rightarrow> nat \<Rightarrow> nat \<Rightarrow> sf \<Rightarrow> (sf \<times> nat \<times> byte list) outcome" where
  "sf_loadPage part k n f = (case s_file f of
       NoFile \<Rightarrow> Inr (f, 0, [])
     | ClosedFile \<Rightarrow> Inl WildAccess
     | OpenFile _ \<Rightarrow> (let pos = sf_seekPage k f; bs = take n (drop pos (s_contents f)) in
         Inr (f\<lparr>s_file := OpenFile (pos + length bs)\<rparr>, length bs, bs)))"

section \<open>Where the pages are\<close>

text \<open>The records of a file: the bytes of a page and its id.\<close>

definition records :: "(byte list \<times> nat) list \<Rightarrow> byte list" where
  "records rs = concat (map (\<lambda>r. fst r @ bytes_of 4 (snd r)) rs)"

definition sf_holds :: "nat \<Rightarrow> (byte list \<times> nat) list \<Rightarrow> sf \<Rightarrow> bool" where
  "sf_holds psz rs f = (s_pageSize f = psz \<and> (\<exists>pos. s_file f = OpenFile pos) \<and>
     s_contents f = bytes_of 4 0 @ bytes_of 8 psz @ records rs)"

lemma contents_sf_write:
  assumes "wrote E (length bs) = length bs"
  shows "s_contents (sf_write E bs f) = s_contents f @ bs"
  using assms by (simp add: sf_write_def Let_def s_contents_def contents_of_def appended_def)

lemma sf_write_fields [simp]:
  "s_pageSize (sf_write E bs f) = s_pageSize f" "s_flushed (sf_write E bs f) = s_flushed f"
  "s_path (sf_write E bs f) = s_path f" "\<exists>pos. s_file (sf_write E bs f) = OpenFile pos"
  by (simp_all add: sf_write_def Let_def)

fun sf_appends :: "file_env \<Rightarrow> page list \<Rightarrow> sf \<Rightarrow> sf outcome" where
  "sf_appends E [] f = Inr f"
| "sf_appends E (p # ps) f = andThen (sf_appendPage E 0 (Some p) f) (\<lambda>(f, _). sf_appends E ps f)"

definition record_of :: "page \<Rightarrow> byte list \<times> nat" where
  "record_of p = (case body_image p of Inr bs \<Rightarrow> bs | Inl _ \<Rightarrow> [], unat (pageID p))"

lemma sf_append_holds:
  assumes "\<forall>n. wrote E n = n" and "sf_holds psz rs f" and "body_image p = Inr bs"
  shows "\<exists>f'. sf_appendPage E part (Some p) f = Inr (f', 0) \<and> sf_holds psz (rs @ [record_of p]) f'"
proof -
  obtain pos where pos: "s_file f = OpenFile pos" using assms(2) by (auto simp: sf_holds_def)
  let ?f = "sf_write E (bytes_of 4 (unat (pageID p))) (sf_write E bs f)"
  have "s_contents ?f = s_contents f @ bs @ bytes_of 4 (unat (pageID p))"
    using assms(1) by (simp add: contents_sf_write)
  moreover have "sf_appendPage E part (Some p) f
      = Inr (?f\<lparr>s_flushed := u32 (s_flushed ?f + 1), s_last := unat (pageID p)\<rparr>, 0)"
    using assms(3) pos by (simp add: sf_appendPage_def Let_def)
  moreover obtain q where "s_file ?f = OpenFile q" using sf_write_fields(4) by blast
  ultimately show ?thesis
    using assms(2,3) by (auto simp: sf_holds_def records_def record_of_def s_contents_def)
qed

lemma sf_appends_holds:
  assumes "\<forall>n. wrote E n = n" and "sf_holds psz rs f" and "\<forall>p \<in> set ps. \<exists>bs. body_image p = Inr bs"
  shows "\<exists>f'. sf_appends E ps f = Inr f' \<and> sf_holds psz (rs @ map record_of ps) f'"
  using assms(2,3)
proof (induction ps arbitrary: rs f)
  case (Cons p ps)
  then obtain bs where "body_image p = Inr bs" by auto
  then obtain f1 where "sf_appendPage E 0 (Some p) f = Inr (f1, 0)" "sf_holds psz (rs @ [record_of p]) f1"
    using sf_append_holds [OF assms(1) Cons.prems(1)] by blast
  then show ?case using Cons.IH [of "rs @ [record_of p]" f1] Cons.prems(2) by auto
qed auto

lemma records_at:
  assumes "\<forall>r \<in> set rs. length (fst r) = n" and "k < length rs"
  shows "drop (k * (n + 4)) (records rs) = fst (rs ! k) @ bytes_of 4 (snd (rs ! k)) @ records (drop (Suc k) rs)"
  using assms
proof (induction rs arbitrary: k)
  case (Cons r rs)
  show ?case
  proof (cases k)
    case 0
    then show ?thesis by (simp add: records_def)
  next
    case (Suc j)
    have "drop (Suc j * (n + 4)) (records (r # rs)) = drop (j * (n + 4)) (records rs)"
      using Cons.prems(1) by (simp add: records_def drop_append)
    then show ?thesis using Cons Suc by simp
  qed
qed simp

section \<open>What a load finds\<close>

lemma sf_new_meta:
  assumes "\<forall>n. wrote E n = n" and "canOpen E p" and "contents_of d p = []"
  shows "\<exists>f. sf_writeMeta E (sf_new E raw p psz d) = Inr (f, 0) \<and> sf_holds psz [] f"
proof -
  let ?f = "sf_new E raw p psz d"
  have new: "s_file ?f = OpenFile 0" "s_pageSize ?f = psz" "s_contents ?f = []"
    using assms(2,3) by (simp_all add: sf_new_def sf_openAll_def s_contents_def create_def contents_of_def)
  obtain q where "s_file (sf_write E (bytes_of 4 0 @ bytes_of 8 psz) ?f) = OpenFile q"
    using sf_write_fields(4) by blast
  then show ?thesis
    using new assms(1) contents_sf_write [of E "bytes_of 4 0 @ bytes_of 8 psz" ?f]
    by (simp add: sf_writeMeta_def Let_def sf_holds_def records_def)
qed

text \<open>A sequence file steps from page to page by its page size plus 4 bytes, but stores each page's
  \<open>getSize()\<close> bytes, which is the page size without the header.  When the stored parts are \<open>gap\<close> bytes
  shorter than the file's page size, loading page \<open>k\<close> starts \<open>gap * k\<close> bytes behind the start of the page
  in the file; only for \<open>gap = 0\<close> does it give the page.\<close>

theorem sequence_load_drifts:
  assumes "\<forall>n. wrote E n = n" and "canOpen E p" and "contents_of d p = []"
    and "\<forall>pg \<in> set ps. \<exists>bs. body_image pg = Inr bs \<and> length bs + gap = psz"
    and "k < length ps" and "metaSize + k * (psz + 4) < 2 ^ 64"
  shows "\<exists>f0 f1 f2. sf_writeMeta E (sf_new E raw p psz d) = Inr (f0, 0) \<and> sf_appends E ps f0 = Inr f1 \<and>
    (let page = fst (record_of (ps ! k)); id = bytes_of 4 (snd (record_of (ps ! k)));
         after = records (map record_of (drop (Suc k) ps));
         bs = take psz (drop (gap * k) (page @ id @ after))
     in sf_loadPage 0 k psz f1 = Inr (f2, length bs, bs))"
proof -
  let ?rs = "map record_of ps"
  obtain f0 where f0: "sf_writeMeta E (sf_new E raw p psz d) = Inr (f0, 0)" "sf_holds psz [] f0"
    using sf_new_meta [OF assms(1-3)] by blast
  have bodies: "\<forall>pg \<in> set ps. \<exists>bs. body_image pg = Inr bs" using assms(4) by blast
  obtain f1 where f1: "sf_appends E ps f0 = Inr f1" "sf_holds psz ?rs f1"
    using sf_appends_holds [OF assms(1) f0(2) bodies] by auto
  then obtain pos where pos: "s_file f1 = OpenFile pos" "s_pageSize f1 = psz"
    and c: "s_contents f1 = bytes_of 4 0 @ bytes_of 8 psz @ records ?rs" by (auto simp: sf_holds_def)
  have len: "\<forall>r \<in> set ?rs. length (fst r) = psz - gap" using assms(4) by (force simp: record_of_def)
  have "gap \<le> psz" using assms(4,5) nth_mem by force
  then obtain n where "psz = gap + n" by (auto simp: le_iff_add)
  then have split: "k * (psz + 4) = gap * k + k * (psz - gap + 4)" by (simp add: algebra_simps)
  have "drop (sf_seekPage k f1) (s_contents f1) = drop (k * (psz + 4)) (records ?rs)"
    using assms(6) pos(2) by (simp add: c sf_seekPage_def metaSize_def)
  also have "\<dots> = drop (gap * k) (drop (k * (psz - gap + 4)) (records ?rs))" by (simp add: split)
  also have "\<dots> = drop (gap * k) (fst (record_of (ps ! k)) @ bytes_of 4 (snd (record_of (ps ! k)))
      @ records (map record_of (drop (Suc k) ps)))"
    using records_at [OF len, of k] assms(5) by (simp add: drop_map)
  finally have at: "drop (sf_seekPage k f1) (s_contents f1) = \<dots>" .
  have load: "sf_loadPage 0 k psz f1 = (let bs = take psz (drop (sf_seekPage k f1) (s_contents f1)) in
      Inr (f1\<lparr>s_file := OpenFile (sf_seekPage k f1 + length bs)\<rparr>, length bs, bs))"
    using pos(1) by (simp add: sf_loadPage_def Let_def)
  show ?thesis
    by (rule exI [of _ f0], rule exI [of _ f1]) (simp only: f0(1) f1(1) load at Let_def, simp)
qed

definition seq_env :: file_env where
  "seq_env = \<lparr>canOpen = (\<lambda>_. True), wrote = (\<lambda>n. n), visitPages = id, visitMaps = id\<rparr>"

definition seq_page :: "byte \<Rightarrow> 32 word \<Rightarrow> page" where
  "seq_page b pid = demo_page\<lparr>rawBytes := Some (replicate 40 b), psize := 40, pageID := pid\<rparr>"

lemma seq_page_body: "body_image (seq_page b pid) = Inr (replicate 4 b)"
  by (simp add: body_image_def seq_page_def getSize_def header_size_def)

theorem sequence_load_drifts_witness:
  "\<exists>f0 f1 f2. sf_writeMeta seq_env (sf_new seq_env 0 [1] 40 (\<lambda>_. None)) = Inr (f0, 0) \<and>
    sf_appends seq_env [seq_page 7 0, seq_page 8 1] f0 = Inr f1 \<and> sf_loadPage 0 1 40 f1 = Inr (f2, 0, [])"
  using sequence_load_drifts [of seq_env "[1]" "\<lambda>_. None" "[seq_page 7 0, seq_page 8 1]" 36 40 1 0]
  by (simp add: seq_env_def contents_of_def metaSize_def seq_page_body record_of_def records_def)

text \<open>A file that holds nothing but its header reports one flushed page: the last four bytes of the page
  size are taken for a page id.\<close>

lemma empty_file_reports_a_page:
  assumes "sf_holds psz [] f" and "psz < 2 ^ 32"
  shows "\<exists>f'. sf_getAndSetNumFlushedPages f = Inr (f', 1)"
proof -
  have "bytes_of 8 psz = bytes_of 4 psz @ bytes_of 4 (psz div 256 ^ 4)" using bytes_of_add [of 4 4 psz] by simp
  moreover have "psz div 256 ^ 4 = 0" using assms(2) by simp
  ultimately have "drop 8 (bytes_of 4 0 @ bytes_of 8 psz) = bytes_of 4 0" by simp
  then show ?thesis
    using assms(1) by (auto simp: sf_getAndSetNumFlushedPages_def Let_def sf_holds_def records_def num_of_bytes_of)
qed

end
