(* ===== verification/BufferManager.thy ===== *)
theory BufferManager
  imports PartitionedFiles
begin

text \<open>
  The buffer manager (\<open>src/src/bufferMgr/source/MyDB_BufferManager.cc\<close>, \<open>MyDB_Page.cc\<close> and
  \<open>MyDB_PageHandle.h\<close>): pages of table files and of one temporary file are held in a fixed number of
  RAM frames and replaced in the order of their last access.  Page objects are numbered; a table is a
  number and \<open>None\<close> the null table of temporary pages; the files are part of the state.  The clock
  values are 64-bit words, since the code compares them with an unsigned number.  A \<open>write\<close> is taken to transfer all its bytes
  (the code does not look at its result), and each table has a file of its own.
\<close>

section \<open>State\<close>

record bpage =
  bm_bytes :: "nat option"
  bm_dirty :: bool
  bm_table :: "nat option"
  bm_pos :: nat
  timeTick :: "64 word"
  bm_refs :: int

record bm =
  bpages :: "nat \<Rightarrow> bpage"
  nextPage :: nat
  lastUsed :: "nat list"
  allPages :: "((nat \<times> nat) \<times> nat) list"
  fds :: "nat option list"
  availableRam :: "nat list"
  availablePositions :: "nat list"
  bm_pageSize :: nat
  lastTimeTick :: "64 word"
  lastTempPos :: nat
  numPages :: nat
  ram :: "nat \<Rightarrow> byte list"
  files :: "nat option \<Rightarrow> byte list"

text \<open>\<open>lastUsed\<close> is an ordered set compared by clock value; the list holds it in that order, and a
  lookup finds a member with the same clock value.  \<open>availablePositions\<close> is a heap with the smallest
  position on top, kept here as a sorted list.\<close>

definition bm_new :: "nat \<Rightarrow> nat \<Rightarrow> (nat \<Rightarrow> byte list) \<Rightarrow> (nat option \<Rightarrow> byte list) \<Rightarrow> (nat \<Rightarrow> bpage) \<Rightarrow> bm" where
  "bm_new psz n rm fs raw = \<lparr>bpages = raw, nextPage = 0, lastUsed = [], allPages = [], fds = [],
     availableRam = [0..<n], availablePositions = [], bm_pageSize = psz, lastTimeTick = 0,
     lastTempPos = 0, numPages = n, ram = rm, files = fs\<rparr>"

definition on_page :: "nat \<Rightarrow> (bpage \<Rightarrow> bpage) \<Rightarrow> bm \<Rightarrow> bm" where
  "on_page p g m = m\<lparr>bpages := (bpages m)(p := g (bpages m p))\<rparr>"

definition lru_count :: "nat \<Rightarrow> bm \<Rightarrow> bool" where
  "lru_count p m = (\<exists>q \<in> set (lastUsed m). timeTick (bpages m q) = timeTick (bpages m p))"

definition lru_erase :: "nat \<Rightarrow> bm \<Rightarrow> bm" where
  "lru_erase p m = m\<lparr>lastUsed := filter (\<lambda>q. timeTick (bpages m q) \<noteq> timeTick (bpages m p)) (lastUsed m)\<rparr>"

definition lru_stamp :: "nat \<Rightarrow> bm \<Rightarrow> bm" where
  "lru_stamp p m = on_page p (\<lambda>g. g\<lparr>timeTick := lastTimeTick m + 1\<rparr>)
     (m\<lparr>lastTimeTick := lastTimeTick m + 1, lastUsed := lastUsed m @ [p]\<rparr>)"

definition new_bpage :: "nat option \<Rightarrow> nat \<Rightarrow> bm \<Rightarrow> bm \<times> nat" where
  "new_bpage t i m = (m\<lparr>bpages := (bpages m)(nextPage m := \<lparr>bm_bytes = None, bm_dirty = False, bm_table = t,
       bm_pos = i, timeTick = -1, bm_refs = 0\<rparr>), nextPage := nextPage m + 1\<rparr>, nextPage m)"

definition new_handle :: "nat \<Rightarrow> bm \<Rightarrow> bm" where
  "new_handle p m = on_page p (\<lambda>g. g\<lparr>bm_refs := bm_refs g + 1\<rparr>) m"

section \<open>Files and frames\<close>

definition write_back :: "nat \<Rightarrow> bm \<Rightarrow> bm" where
  "write_back p m = (case bm_bytes (bpages m p) of None \<Rightarrow> m | Some r \<Rightarrow>
     (let t = bm_table (bpages m p) in
      m\<lparr>files := (files m)(t := overwrite (bm_pos (bpages m p) * bm_pageSize m) (ram m r) (files m t))\<rparr>))"

definition clean_page :: "nat \<Rightarrow> bm \<Rightarrow> bm" where
  "clean_page p m = on_page p (\<lambda>g. g\<lparr>bm_dirty := False\<rparr>) m"

definition disk_chunk :: "bm \<Rightarrow> nat option \<Rightarrow> nat \<Rightarrow> byte list" where
  "disk_chunk m t i = take (bm_pageSize m) (drop (i * bm_pageSize m) (files m t))"

text \<open>A read puts what the file has at the start of the frame and leaves the rest of it alone.\<close>

definition read_frame :: "nat \<Rightarrow> nat \<Rightarrow> bm \<Rightarrow> bm" where
  "read_frame p r m = (let c = disk_chunk m (bm_table (bpages m p)) (bm_pos (bpages m p)) in
     m\<lparr>ram := (ram m)(r := c @ drop (length c) (ram m r))\<rparr>)"

definition take_frame :: "nat \<Rightarrow> bm \<Rightarrow> bm" where
  "take_frame p m = on_page p (\<lambda>g. g\<lparr>bm_bytes := Some (last (availableRam m))\<rparr>)
     (m\<lparr>availableRam := butlast (availableRam m)\<rparr>)"

section \<open>Replacement\<close>

definition killPage :: "nat \<Rightarrow> bm \<Rightarrow> bm" where
  "killPage p m = (let g = bpages m p in case bm_table g of
     None \<Rightarrow>
       (let m1 = m\<lparr>availablePositions := insort (bm_pos g) (availablePositions m),
                   availableRam := availableRam m @ (case bm_bytes g of None \<Rightarrow> [] | Some r \<Rightarrow> [r])\<rparr> in
        if lru_count p m1 then lru_erase p m1 else m1)
   | Some t \<Rightarrow>
       if \<not> lru_count p m \<and> bm_bytes g \<noteq> None then lru_stamp p m
       else if bm_bytes g = None then m\<lparr>allPages := filter (\<lambda>e. fst e \<noteq> (t, bm_pos g)) (allPages m)\<rparr>
       else m)"

definition kickOutPage :: "bm \<Rightarrow> bm outcome" where
  "kickOutPage m = (case lastUsed m of [] \<Rightarrow> Inl WildAccess
     | p # _ \<Rightarrow> (case bm_bytes (bpages m p) of None \<Rightarrow> Inl (FatalExit 1)
       | Some r \<Rightarrow>
         (let m = (if bm_dirty (bpages m p) then clean_page p (write_back p m) else m);
              m = lru_erase p m;
              m = on_page p (\<lambda>g. g\<lparr>bm_bytes := None\<rparr>) (m\<lparr>availableRam := availableRam m @ [r]\<rparr>)
          in Inr (if bm_refs (bpages m p) = 0 then killPage p m else m))))"

definition bm_flush :: "nat \<Rightarrow> bm \<Rightarrow> bm" where
  "bm_flush p m = (let g = bpages m p in
     if bm_bytes g \<noteq> None \<and> bm_dirty g \<and> bm_table g \<noteq> None then clean_page p (write_back p m) else m)"

definition make_room :: "bm \<Rightarrow> bm outcome" where
  "make_room m = (if availableRam m = [] then kickOutPage m else Inr m)"

definition access :: "nat \<Rightarrow> bm \<Rightarrow> bm outcome" where
  "access p m = (let g = bpages m p in
     if timeTick g > lastTimeTick m - of_nat (numPages m div 2) \<and> bm_bytes g \<noteq> None then Inr m
     else if lru_count p m then Inr (lru_stamp p (lru_erase p m))
     else if bm_bytes g = None
     then andThen (make_room m) (\<lambda>m.
       if availableRam m = [] then Inl (FatalExit 1)
       else let r = last (availableRam m); m = read_frame p r (take_frame p m) in Inr (lru_stamp p m))
     else Inr m)"

section \<open>The interface\<close>

definition open_file :: "nat option \<Rightarrow> bm \<Rightarrow> bm" where
  "open_file t m = (if t \<in> set (fds m) then m
     else m\<lparr>fds := t # fds m, files := (if t = None then (files m)(None := []) else files m)\<rparr>)"

definition bm_getPage :: "nat option \<Rightarrow> nat \<Rightarrow> bm \<Rightarrow> (bm \<times> nat) outcome" where
  "bm_getPage tab i m = (case tab of None \<Rightarrow> if None \<in> set (fds m) then Inl (FatalExit 1) else Inl NullDeref
     | Some t \<Rightarrow> (let m = open_file tab m in case map_of (allPages m) (t, i) of
         None \<Rightarrow> (case new_bpage tab i m of (m, p) \<Rightarrow>
           Inr (new_handle p (m\<lparr>allPages := ((t, i), p) # allPages m\<rparr>), p))
       | Some p \<Rightarrow> Inr (new_handle p m, p)))"

definition bm_getTempPage :: "bm \<Rightarrow> bm \<times> nat" where
  "bm_getTempPage m = (let m = open_file None m in
     case (case availablePositions m of
             [] \<Rightarrow> (m\<lparr>lastTempPos := lastTempPos m + 1\<rparr>, lastTempPos m)
           | pos # rest \<Rightarrow> (m\<lparr>availablePositions := rest\<rparr>, pos)) of (m, pos) \<Rightarrow>
     (case new_bpage None pos m of (m, p) \<Rightarrow> (new_handle p m, p)))"

definition find_page :: "nat \<Rightarrow> nat \<Rightarrow> bm \<Rightarrow> bm \<times> nat" where
  "find_page t i m = (case map_of (allPages m) (t, i) of
     None \<Rightarrow> (case new_bpage (Some t) i m of (m, p) \<Rightarrow> (m\<lparr>allPages := ((t, i), p) # allPages m\<rparr>, p))
   | Some p \<Rightarrow> (if lru_count p m then lru_erase p m else m, p))"

definition bm_getPinnedPage :: "nat option \<Rightarrow> nat \<Rightarrow> bm \<Rightarrow> (bm \<times> nat option) outcome" where
  "bm_getPinnedPage tab i m = (case tab of None \<Rightarrow> if None \<in> set (fds m) then Inl (FatalExit 1) else Inl NullDeref
     | Some t \<Rightarrow> (case find_page t i (open_file tab m) of (m, p) \<Rightarrow>
         if bm_bytes (bpages m p) = None
         then andThen (make_room m) (\<lambda>m.
           if availableRam m = [] then Inr (m, None)
           else let r = last (availableRam m); m = read_frame p r (take_frame p m) in
                Inr (new_handle p m, Some p))
         else Inr (new_handle p m, Some p)))"

definition bm_getPinnedTempPage :: "bm \<Rightarrow> (bm \<times> nat option) outcome" where
  "bm_getPinnedTempPage m = andThen (make_room m) (\<lambda>m.
     if availableRam m = [] then Inr (m, None)
     else case bm_getTempPage m of (m, p) \<Rightarrow> Inr (take_frame p m, Some p))"

text \<open>\<open>unpin\<close> changes the clock value of a page and inserts it; when the page is in the ordered set
  already, its key changes inside the set, which is undefined.\<close>

definition bm_unpin :: "nat \<Rightarrow> bm \<Rightarrow> bm outcome" where
  "bm_unpin p m = (if p \<in> set (lastUsed m) then Inl WildAccess else Inr (lru_stamp p m))"

definition wroteBytes :: "nat \<Rightarrow> bm \<Rightarrow> bm" where
  "wroteBytes p m = on_page p (\<lambda>g. g\<lparr>bm_dirty := True\<rparr>) m"

definition release_handle :: "nat \<Rightarrow> bm \<Rightarrow> bm" where
  "release_handle p m = (let m = on_page p (\<lambda>g. g\<lparr>bm_refs := bm_refs g - 1\<rparr>) m in
     if bm_refs (bpages m p) = 0 then killPage p m else m)"

fun destroy_loop :: "((nat \<times> nat) \<times> nat) list \<Rightarrow> bm \<Rightarrow> bm" where
  "destroy_loop [] m = m"
| "destroy_loop (e # es) m = (let p = snd e in destroy_loop es
     (if bm_bytes (bpages m p) \<noteq> None
      then on_page p (\<lambda>g. g\<lparr>bm_bytes := None\<rparr>) (if bm_dirty (bpages m p) then write_back p m else m)
      else m))"

definition bm_destroy :: "bm \<Rightarrow> bm" where
  "bm_destroy m = (let m = destroy_loop (allPages m) m in
     m\<lparr>availableRam := [], fds := [], files := (files m)(None := [])\<rparr>)"

text \<open>How a client uses a handle: it asks for the bytes and reads or stores them at once; after
  storing it says so.\<close>

definition read_page :: "nat \<Rightarrow> bm \<Rightarrow> (bm \<times> byte list) outcome" where
  "read_page p m = andThen (access p m) (\<lambda>m. case bm_bytes (bpages m p) of None \<Rightarrow> Inl NullDeref
     | Some r \<Rightarrow> Inr (m, ram m r))"

definition write_page :: "nat \<Rightarrow> byte list \<Rightarrow> bm \<Rightarrow> bm outcome" where
  "write_page p bs m = andThen (access p m) (\<lambda>m. case bm_bytes (bpages m p) of None \<Rightarrow> Inl NullDeref
     | Some r \<Rightarrow> Inr (wroteBytes p (m\<lparr>ram := (ram m)(r := bs)\<rparr>)))"

end
