(* ===== verification/BufferManagerInv.thy ===== *)
theory BufferManagerInv
  imports BufferManager
begin

text \<open>
  The invariant of the buffer manager: no frame is lost or shared, the clock orders the replacement
  list, and every page whose contents are known is either in its frame or on disk.  Each operation is
  shown to keep it.
\<close>

section \<open>The invariant\<close>

definition alive :: "bm \<Rightarrow> nat \<Rightarrow> bool" where
  "alive m p = (p < nextPage m \<and> (case bm_table (bpages m p) of
     None \<Rightarrow> bm_refs (bpages m p) > 0
   | Some t \<Rightarrow> map_of (allPages m) (t, bm_pos (bpages m p)) = Some p))"

abbreviation frame_of :: "bm \<Rightarrow> nat \<Rightarrow> nat option" where
  "frame_of m p \<equiv> bm_bytes (bpages m p)"

abbreviation tick_of :: "bm \<Rightarrow> nat \<Rightarrow> 64 word" where
  "tick_of m p \<equiv> timeTick (bpages m p)"

definition frames_inv :: "bm \<Rightarrow> bool" where
  "frames_inv m = (distinct (availableRam m) \<and> (\<forall>r \<in> set (availableRam m). r < numPages m) \<and>
     (\<forall>p r. alive m p \<and> frame_of m p = Some r \<longrightarrow> r < numPages m \<and> r \<notin> set (availableRam m)) \<and>
     (\<forall>p q r. alive m p \<and> alive m q \<and> frame_of m p = Some r \<and> frame_of m q = Some r \<longrightarrow> p = q) \<and>
     (\<forall>r < numPages m. r \<in> set (availableRam m) \<or> (\<exists>p. alive m p \<and> frame_of m p = Some r)) \<and>
     (\<forall>r < numPages m. length (ram m r) = bm_pageSize m))"

definition clock_inv :: "bm \<Rightarrow> bool" where
  "clock_inv m = (distinct (lastUsed m) \<and>
     (\<forall>p \<in> set (lastUsed m). alive m p \<and> frame_of m p \<noteq> None \<and> tick_of m p \<le> lastTimeTick m) \<and>
     sorted_wrt (\<lambda>p q. tick_of m p < tick_of m q) (lastUsed m) \<and>
     (\<forall>p. alive m p \<longrightarrow> tick_of m p = -1 \<or> tick_of m p \<le> lastTimeTick m) \<and>
     (\<forall>p q. alive m p \<and> alive m q \<and> tick_of m p = tick_of m q \<longrightarrow> p = q \<or> tick_of m p = -1) \<and>
     lastTimeTick m < 2 ^ 63)"

definition map_inv :: "bm \<Rightarrow> bool" where
  "map_inv m = (\<forall>t i p. map_of (allPages m) (t, i) = Some p \<longrightarrow>
     p < nextPage m \<and> bm_table (bpages m p) = Some t \<and> bm_pos (bpages m p) = i)"

definition bm_inv :: "bm \<Rightarrow> bool" where
  "bm_inv m = (frames_inv m \<and> clock_inv m \<and> map_inv m)"

text \<open>Where the contents of page \<open>i\<close> of table \<open>t\<close> are: in its frame, and on disk too unless the page is
  dirty; or only on disk.\<close>

definition on_disk :: "bm \<Rightarrow> nat \<times> nat \<Rightarrow> byte list \<Rightarrow> bool" where
  "on_disk m k bs = (disk_chunk m (Some (fst k)) (snd k) = bs \<and> length bs = bm_pageSize m)"

definition kept :: "bm \<Rightarrow> nat \<times> nat \<Rightarrow> byte list \<Rightarrow> bool" where
  "kept m k bs = (case map_of (allPages m) k of None \<Rightarrow> on_disk m k bs
     | Some p \<Rightarrow> (case frame_of m p of None \<Rightarrow> on_disk m k bs
       | Some r \<Rightarrow> ram m r = bs \<and> (bm_dirty (bpages m p) \<or> on_disk m k bs)))"

definition holds :: "(nat \<times> nat \<Rightarrow> byte list option) \<Rightarrow> bm \<Rightarrow> bool" where
  "holds S m = (bm_inv m \<and> (\<forall>k bs. S k = Some bs \<longrightarrow> kept m k bs))"

section \<open>Writing a page back\<close>

lemma overwrite_own: "length bs = n \<Longrightarrow> take n (drop (i * n) (overwrite (i * n) bs c)) = bs"
  by (simp add: overwrite_def)

lemma overwrite_nth:
  assumes "y < length c" and "y < pos \<or> pos + length bs \<le> y"
  shows "overwrite pos bs c ! y = c ! y"
proof (cases "y < pos")
  case True
  then show ?thesis using assms by (simp add: overwrite_def nth_append)
next
  case False
  with assms have "pos + length bs \<le> y" "pos \<le> length c" "\<not> y - pos < length bs" by auto
  then show ?thesis using assms(1) by (simp add: overwrite_def nth_append)
qed

lemma overwrite_other:
  assumes "length bs = n" and "i \<noteq> j" and "(j + 1) * n \<le> length c"
  shows "take n (drop (j * n) (overwrite (i * n) bs c)) = take n (drop (j * n) c)"
proof (rule nth_equalityI)
  let ?o = "overwrite (i * n) bs c"
  have len: "(j + 1) * n \<le> length ?o" using assms(1,3) by (simp add: overwrite_def)
  then show "length (take n (drop (j * n) ?o)) = length (take n (drop (j * n) c))"
    using assms(3) by simp
  fix x assume "x < length (take n (drop (j * n) ?o))"
  then have x: "x < n" by simp
  have "j * n + x < i * n \<or> i * n + n \<le> j * n + x"
  proof (cases "j < i")
    case True
    then have "(j + 1) * n \<le> i * n" by (intro mult_le_mono1) simp
    then show ?thesis using x by simp
  next
    case False
    then have "(i + 1) * n \<le> j * n" using assms(2) by (intro mult_le_mono1) simp
    then show ?thesis by simp
  qed
  moreover have "j * n + x < length c" using x assms(3) by simp
  ultimately have "?o ! (j * n + x) = c ! (j * n + x)" using overwrite_nth [of "j * n + x" c "i * n" bs] assms(1) by simp
  then show "take n (drop (j * n) ?o) ! x = take n (drop (j * n) c) ! x"
    using x assms(3) len by simp
qed

lemma write_back_fields [simp]:
  "bpages (write_back p m) = bpages m" "nextPage (write_back p m) = nextPage m"
  "lastUsed (write_back p m) = lastUsed m" "allPages (write_back p m) = allPages m"
  "availableRam (write_back p m) = availableRam m" "numPages (write_back p m) = numPages m"
  "bm_pageSize (write_back p m) = bm_pageSize m" "lastTimeTick (write_back p m) = lastTimeTick m"
  "ram (write_back p m) = ram m"
  by (auto simp: write_back_def Let_def split: option.splits)

lemma write_back_disk:
  assumes "frame_of m p = Some r" and "length (ram m r) = bm_pageSize m" and "on_disk m k bs"
    and "bm_table (bpages m p) \<noteq> Some (fst k) \<or> bm_pos (bpages m p) \<noteq> snd k"
  shows "on_disk (write_back p m) k bs"
proof -
  let ?n = "bm_pageSize m" and ?c = "files m (Some (fst k))"
  from assms(3) have "length (take ?n (drop (snd k * ?n) ?c)) = ?n" by (simp add: on_disk_def disk_chunk_def)
  then have "?n \<le> length ?c - snd k * ?n" by simp
  then have "(snd k + 1) * ?n \<le> length ?c \<or> ?n = 0" by (auto simp: algebra_simps)
  then show ?thesis
    using assms overwrite_other [OF assms(2), of "bm_pos (bpages m p)" "snd k" ?c]
    by (auto simp: on_disk_def disk_chunk_def write_back_def Let_def)
qed

lemma write_back_own:
  assumes "frame_of m p = Some r" and "length (ram m r) = bm_pageSize m"
    and "bm_table (bpages m p) = Some (fst k)" and "bm_pos (bpages m p) = snd k"
  shows "on_disk (write_back p m) k (ram m r)"
  using assms overwrite_own [OF assms(2)]
  by (simp add: on_disk_def disk_chunk_def write_back_def Let_def)

section \<open>The replacement list\<close>

lemma old_tick: "(x :: 64 word) \<le> y \<Longrightarrow> y < 2 ^ 63 \<Longrightarrow> x \<noteq> -1"
  by (auto simp: word_order.extremum_unique)

lemma lru_count_iff:
  assumes "clock_inv m" and "alive m p"
  shows "lru_count p m \<longleftrightarrow> p \<in> set (lastUsed m)"
proof
  assume "lru_count p m"
  then obtain q where q: "q \<in> set (lastUsed m)" "tick_of m q = tick_of m p" by (auto simp: lru_count_def)
  then have "alive m q" "tick_of m q \<noteq> -1" using assms(1) old_tick by (auto simp: clock_inv_def)
  then show "p \<in> set (lastUsed m)" using assms q by (metis clock_inv_def)
qed (auto simp: lru_count_def)

lemma lru_erase_eq:
  assumes "clock_inv m" and "alive m p"
  shows "lru_erase p m = m\<lparr>lastUsed := filter (\<lambda>q. q \<noteq> p) (lastUsed m)\<rparr>"
proof -
  have "timeTick (bpages m q) \<noteq> timeTick (bpages m p) \<longleftrightarrow> q \<noteq> p" if "q \<in> set (lastUsed m)" for q
  proof
    show "q \<noteq> p" if "timeTick (bpages m q) \<noteq> timeTick (bpages m p)" using that by auto
    have "alive m q" "tick_of m q \<noteq> -1"
      using assms(1) that old_tick by (auto simp: clock_inv_def)
    then show "timeTick (bpages m q) \<noteq> timeTick (bpages m p)" if "q \<noteq> p"
      using assms that by (metis clock_inv_def)
  qed
  then show ?thesis by (simp add: lru_erase_def cong: filter_cong)
qed

lemma kept_cong:
  assumes "allPages m' = allPages m" and "ram m' = ram m" and "files m' = files m"
    and "bm_pageSize m' = bm_pageSize m"
    and "\<And>p. frame_of m' p = frame_of m p \<and> bm_dirty (bpages m' p) = bm_dirty (bpages m p)"
  shows "kept m' k bs = kept m k bs"
  using assms by (auto simp: kept_def on_disk_def disk_chunk_def split: option.splits)

lemma alive_cong:
  assumes "allPages m' = allPages m" and "nextPage m' = nextPage m"
    and "\<And>p. bm_table (bpages m' p) = bm_table (bpages m p) \<and> bm_pos (bpages m' p) = bm_pos (bpages m p)
      \<and> (bm_refs (bpages m' p) > 0) = (bm_refs (bpages m p) > 0)"
  shows "alive m' p = alive m p"
  using assms by (auto simp: alive_def split: option.splits)

lemma frames_cong:
  assumes "\<And>p. alive m' p = alive m p" and "\<And>p. frame_of m' p = frame_of m p"
    and "availableRam m' = availableRam m" and "numPages m' = numPages m"
    and "ram m' = ram m" and "bm_pageSize m' = bm_pageSize m"
  shows "frames_inv m' = frames_inv m"
  using assms by (simp add: frames_inv_def)

lemma holds_unlisted:
  assumes "holds S m"
  shows "holds S (m\<lparr>lastUsed := filter P (lastUsed m)\<rparr>)"
proof -
  let ?m = "m\<lparr>lastUsed := filter P (lastUsed m)\<rparr>"
  have alive: "alive ?m p = alive m p" for p by (rule alive_cong) auto
  have inv: "bm_inv m" and kept: "\<forall>k bs. S k = Some bs \<longrightarrow> kept m k bs" using assms by (auto simp: holds_def)
  have "frames_inv ?m = frames_inv m" by (rule frames_cong) (auto simp: alive)
  moreover have "clock_inv ?m"
    using inv by (auto simp: bm_inv_def clock_inv_def alive sorted_wrt_filter)
  moreover have "map_inv ?m = map_inv m" by (simp add: map_inv_def)
  moreover have "kept ?m k bs = kept m k bs" for k bs by (rule kept_cong) auto
  ultimately show ?thesis using inv kept by (simp add: holds_def bm_inv_def)
qed

text \<open>Stamping a page that is buffered and not listed puts it at the young end of the list.\<close>

definition room_in_clock :: "bm \<Rightarrow> bool" where
  "room_in_clock m = (lastTimeTick m < 2 ^ 63 - 1)"

lemma tick_after: "(x :: 64 word) < 2 ^ 63 - 1 \<Longrightarrow> x < x + 1 \<and> x + 1 < 2 ^ 63"
  by (simp add: word_less_nat_alt unat_word_ariths)

lemma holds_stamped:
  assumes "holds S m" and "alive m p" and "frame_of m p \<noteq> None" and "p \<notin> set (lastUsed m)"
    and "room_in_clock m"
  shows "holds S (lru_stamp p m)"
proof -
  let ?m = "lru_stamp p m" and ?t = "lastTimeTick m + 1"
  have inv: "bm_inv m" and kept: "\<forall>k bs. S k = Some bs \<longrightarrow> kept m k bs" using assms(1) by (auto simp: holds_def)
  have t: "lastTimeTick m < ?t" "?t < 2 ^ 63"
    using tick_after [of "lastTimeTick m"] assms(5) by (auto simp: room_in_clock_def)
  have eqs: "bpages ?m q = (if q = p then (bpages m p)\<lparr>timeTick := ?t\<rparr> else bpages m q)" for q
    by (simp add: lru_stamp_def on_page_def)
  have fields: "lastUsed ?m = lastUsed m @ [p]" "lastTimeTick ?m = ?t" "allPages ?m = allPages m"
    "nextPage ?m = nextPage m" "availableRam ?m = availableRam m" "numPages ?m = numPages m" "ram ?m = ram m"
    "bm_pageSize ?m = bm_pageSize m" "files ?m = files m"
    by (simp_all add: lru_stamp_def on_page_def)
  have alive: "alive ?m q = alive m q" for q by (rule alive_cong) (auto simp: fields eqs)
  have "frames_inv ?m = frames_inv m" by (rule frames_cong) (auto simp: fields eqs alive)
  moreover have "map_inv ?m = map_inv m" by (auto simp: map_inv_def fields eqs)
  moreover have "kept ?m k bs = kept m k bs" for k bs by (rule kept_cong) (auto simp: fields eqs)
  moreover have "clock_inv ?m"
  proof -
    have c: "clock_inv m" using inv by (simp add: bm_inv_def)
    have old: "tick_of m q < ?t" if "q \<in> set (lastUsed m)" for q
      using c that t(1) by (auto simp: clock_inv_def)
    have le: "tick_of m q = -1 \<or> tick_of m q < ?t" if "alive m q" for q
      using c that t(1) by (fastforce simp: clock_inv_def)
    have "?t \<noteq> -1" using old_tick [OF order_refl t(2)] .
    have sorted: "sorted_wrt (\<lambda>a b. tick_of ?m a < tick_of ?m b) (lastUsed m @ [p])"
    proof -
      have "sorted_wrt (\<lambda>a b. tick_of m a < tick_of m b) (lastUsed m)" using c by (simp add: clock_inv_def)
      then have "sorted_wrt (\<lambda>a b. tick_of ?m a < tick_of ?m b) (lastUsed m)"
        by (rule sorted_wrt_mono_rel [rotated]) (use assms(4) in \<open>auto simp: eqs\<close>)
      then show ?thesis using old assms(4) by (auto simp: sorted_wrt_append eqs)
    qed
    have listed: "alive m q \<and> frame_of ?m q \<noteq> None \<and> tick_of ?m q \<le> ?t" if "q \<in> set (lastUsed m @ [p])" for q
      using c that assms(2,3) old by (auto simp: clock_inv_def eqs less_imp_le)
    have uniq: "q = q' \<or> tick_of ?m q = -1" if "alive m q" "alive m q'" "tick_of ?m q = tick_of ?m q'" for q q'
      using c that le [of q] le [of q'] by (auto simp: clock_inv_def eqs split: if_splits)
    have leq: "tick_of ?m q = -1 \<or> tick_of ?m q \<le> ?t" if "alive m q" for q
      using le [OF that] by (auto simp: eqs less_imp_le)
    show ?thesis
      unfolding clock_inv_def fields alive
      using c assms(4) listed uniq le sorted t(2) leq
      by (simp add: clock_inv_def)
  qed
  ultimately show ?thesis using inv kept by (simp add: holds_def bm_inv_def)
qed

lemma holds_touch:
  assumes "holds S m" and "alive m p" and "p \<in> set (lastUsed m)" and "room_in_clock m"
  shows "holds S (lru_stamp p (lru_erase p m))"
proof -
  let ?e = "m\<lparr>lastUsed := filter (\<lambda>q. q \<noteq> p) (lastUsed m)\<rparr>"
  have c: "clock_inv m" using assms(1) by (simp add: holds_def bm_inv_def)
  then have "frame_of m p \<noteq> None" using assms(3) by (auto simp: clock_inv_def)
  moreover have "alive ?e p" using assms(2) by (simp add: alive_def split: option.splits)
  ultimately show ?thesis
    unfolding lru_erase_eq [OF c assms(2)]
    using assms(4) by (intro holds_stamped holds_unlisted assms(1)) (auto simp: room_in_clock_def)
qed

section \<open>Page objects and handles\<close>

lemma holds_open_file:
  assumes "holds S m" shows "holds S (open_file t m)"
proof -
  let ?m = "open_file t m"
  have eqs: "bpages ?m = bpages m" "nextPage ?m = nextPage m" "lastUsed ?m = lastUsed m"
    "allPages ?m = allPages m" "availableRam ?m = availableRam m" "numPages ?m = numPages m"
    "ram ?m = ram m" "bm_pageSize ?m = bm_pageSize m" "lastTimeTick ?m = lastTimeTick m"
    "files ?m (Some k) = files m (Some k)" for k
    by (simp_all add: open_file_def)
  have alive: "alive ?m p = alive m p" for p by (rule alive_cong) (auto simp: eqs)
  have "frames_inv ?m = frames_inv m" by (rule frames_cong) (auto simp: eqs alive)
  moreover have "clock_inv ?m = clock_inv m" by (simp add: clock_inv_def eqs alive)
  moreover have "map_inv ?m = map_inv m" by (simp add: map_inv_def eqs)
  moreover have "kept ?m k bs = kept m k bs" for k bs
    by (auto simp: kept_def on_disk_def disk_chunk_def eqs split: option.splits)
  ultimately show ?thesis using assms by (simp add: holds_def bm_inv_def)
qed

text \<open>An update of a page that leaves its table, position, frame, dirty flag and clock value alone.\<close>

lemma holds_refs:
  assumes "holds S m" and "alive (on_page p (\<lambda>g. g\<lparr>bm_refs := n\<rparr>) m) p = alive m p"
  shows "holds S (on_page p (\<lambda>g. g\<lparr>bm_refs := n\<rparr>) m)"
proof -
  let ?m = "on_page p (\<lambda>g. g\<lparr>bm_refs := n\<rparr>) m"
  have eqs: "nextPage ?m = nextPage m" "lastUsed ?m = lastUsed m" "allPages ?m = allPages m"
    "availableRam ?m = availableRam m" "numPages ?m = numPages m" "ram ?m = ram m"
    "bm_pageSize ?m = bm_pageSize m" "lastTimeTick ?m = lastTimeTick m" "files ?m = files m"
    "frame_of ?m q = frame_of m q" "tick_of ?m q = tick_of m q" "bm_table (bpages ?m q) = bm_table (bpages m q)"
    "bm_pos (bpages ?m q) = bm_pos (bpages m q)" "bm_dirty (bpages ?m q) = bm_dirty (bpages m q)" for q
    by (simp_all add: on_page_def)
  have alive: "alive ?m q = alive m q" for q
  proof (cases "q = p")
    case False
    then show ?thesis by (simp add: alive_def on_page_def split: option.splits)
  qed (use assms(2) in simp)
  have "frames_inv ?m = frames_inv m" by (rule frames_cong) (auto simp: eqs alive)
  moreover have "clock_inv ?m = clock_inv m" by (simp add: clock_inv_def eqs alive)
  moreover have "map_inv ?m = map_inv m" by (simp add: map_inv_def eqs)
  moreover have "kept ?m k bs = kept m k bs" for k bs by (rule kept_cong) (auto simp: eqs)
  ultimately show ?thesis using assms by (simp add: holds_def bm_inv_def)
qed

text \<open>A new page object for a table position that has none.\<close>

lemma holds_new_page:
  assumes "holds S m" and "map_of (allPages m) (t, i) = None"
    and "new_bpage (Some t) i m = (m1, p)" and "m2 = m1\<lparr>allPages := ((t, i), p) # allPages m1\<rparr>"
  shows "holds S m2" "alive m2 p" "frame_of m2 p = None" "p \<notin> set (lastUsed m2)"
    "lastTimeTick m2 = lastTimeTick m" "map_of (allPages m2) (t, i) = Some p"
proof -
  let ?g = "\<lparr>bm_bytes = None, bm_dirty = False, bm_table = Some t, bm_pos = i, timeTick = -1, bm_refs = 0\<rparr>"
  have p: "p = nextPage m" and m2: "m2 = m\<lparr>bpages := (bpages m)(p := ?g), nextPage := p + 1,
      allPages := ((t, i), p) # allPages m\<rparr>"
    using assms(3,4) by (auto simp: new_bpage_def)
  have inv: "bm_inv m" and kept: "\<forall>k bs. S k = Some bs \<longrightarrow> kept m k bs" using assms(1) by (auto simp: holds_def)
  have mi: "map_inv m" using inv by (simp add: bm_inv_def)
  have fresh: "map_of (allPages m) k \<noteq> Some p" for k
    using mi by (cases k) (auto simp: map_inv_def p)
  have dead: "\<not> alive m p" by (simp add: alive_def p)
  have alive: "alive m2 q \<longleftrightarrow> q = p \<or> alive m q" for q
    using assms(2) by (cases "q = p") (auto simp: alive_def m2 p split: option.splits)
  have frames: "frames_inv m2"
    using inv dead by (simp add: bm_inv_def frames_inv_def alive) (auto simp: m2 split: if_splits)
  have out: "q \<noteq> p" if "q \<in> set (lastUsed m) \<or> alive m q" for q
    using that inv dead by (auto simp: bm_inv_def clock_inv_def)
  have same: "bpages m2 q = (if q = p then ?g else bpages m q)" for q by (simp add: m2)
  have fields: "lastUsed m2 = lastUsed m" "lastTimeTick m2 = lastTimeTick m" "ram m2 = ram m"
    "files m2 = files m" "bm_pageSize m2 = bm_pageSize m" by (simp_all add: m2)
  have c: "clock_inv m" using inv by (simp add: bm_inv_def)
  have sorted: "sorted_wrt (\<lambda>a b. tick_of m2 a < tick_of m2 b) (lastUsed m)"
    by (rule sorted_wrt_mono_rel [of _ "\<lambda>a b. tick_of m a < tick_of m b"])
      (use c out in \<open>auto simp: clock_inv_def same\<close>)
  have clock: "clock_inv m2"
    using c out sorted unfolding clock_inv_def fields alive by (auto simp: same)
  have map: "map_inv m2"
    using mi fresh by (auto simp: map_inv_def m2 p less_SucI)
  have kept2: "kept m2 k bs" if "kept m k bs" for k bs
    using that fresh [of k] assms(2)
    by (auto simp: kept_def on_disk_def disk_chunk_def m2 split: option.splits)
  show "holds S m2" using frames clock map kept kept2 by (simp add: holds_def bm_inv_def)
  show "alive m2 p" by (simp add: alive)
  show "frame_of m2 p = None" "lastTimeTick m2 = lastTimeTick m" "map_of (allPages m2) (t, i) = Some p"
    by (simp_all add: m2)
  show "p \<notin> set (lastUsed m2)" using inv dead by (auto simp: m2 bm_inv_def clock_inv_def)
qed

lemma map_alive: "map_inv m \<Longrightarrow> map_of (allPages m) k = Some p \<Longrightarrow> alive m p"
  by (cases k) (auto simp: map_inv_def alive_def)

lemma handle_given:
  assumes "holds S m" and "alive m p"
  shows "holds S (new_handle p m)" "alive (new_handle p m) p"
proof -
  let ?m = "on_page p (\<lambda>g. g\<lparr>bm_refs := bm_refs (bpages m p) + 1\<rparr>) m"
  have same: "new_handle p m = ?m" by (simp add: new_handle_def on_page_def)
  have alive: "alive ?m p" using assms(2) by (auto simp: alive_def on_page_def split: option.splits)
  show "holds S (new_handle p m)" unfolding same by (rule holds_refs [OF assms(1)]) (simp add: alive assms(2))
  show "alive (new_handle p m) p" unfolding same by (rule alive)
qed

section \<open>Loading and replacing\<close>

text \<open>A page without a frame takes the last free one, whose bytes become \<open>c\<close>.\<close>

definition given_frame :: "nat \<Rightarrow> byte list \<Rightarrow> bm \<Rightarrow> bm" where
  "given_frame p c m = take_frame p (m\<lparr>ram := (ram m)(last (availableRam m) := c)\<rparr>)"

lemma holds_given:
  assumes "holds S m" and "alive m p" and "frame_of m p = None" and "availableRam m \<noteq> []"
    and "r = last (availableRam m)" and "m' = given_frame p c m" and "length c = bm_pageSize m"
    and "\<And>k bs. bm_table (bpages m p) = Some (fst k) \<Longrightarrow> bm_pos (bpages m p) = snd k \<Longrightarrow> on_disk m k bs \<Longrightarrow> c = bs"
  shows "holds S m'" "alive m' p" "frame_of m' p = Some r" "lastUsed m' = lastUsed m"
    "lastTimeTick m' = lastTimeTick m" "p \<notin> set (lastUsed m)" "bm_refs (bpages m' p) = bm_refs (bpages m p)"
proof -
  have m': "bpages m' q = (if q = p then (bpages m p)\<lparr>bm_bytes := Some r\<rparr> else bpages m q)"
    "nextPage m' = nextPage m" "lastUsed m' = lastUsed m" "allPages m' = allPages m"
    "availableRam m' = butlast (availableRam m)" "numPages m' = numPages m"
    "ram m' = (ram m)(r := c)" "bm_pageSize m' = bm_pageSize m"
    "lastTimeTick m' = lastTimeTick m" "files m' = files m" for q
    using assms(5,6) by (simp_all add: given_frame_def take_frame_def on_page_def)
  have inv: "bm_inv m" and kept: "\<forall>k bs. S k = Some bs \<longrightarrow> kept m k bs" using assms(1) by (auto simp: holds_def)
  have f: "frames_inv m" and c: "clock_inv m" and mi: "map_inv m" using inv by (auto simp: bm_inv_def)
  define xs where "xs = butlast (availableRam m)"
  have avail: "availableRam m = xs @ [r]" using assms(4,5) by (simp add: xs_def)
  have r: "r < numPages m" "r \<notin> set xs" "distinct xs" "set (availableRam m) = insert r (set xs)"
    using f by (auto simp: frames_inv_def avail)
  have alive: "alive m' q = alive m q" for q by (rule alive_cong) (auto simp: m')
  have unused: "frame_of m q \<noteq> Some r" if "alive m q" for q
    using f that r(4) by (auto simp: frames_inv_def)
  show "p \<notin> set (lastUsed m)" using c assms(3) by (auto simp: clock_inv_def)
  show "alive m' p" "frame_of m' p = Some r" "lastUsed m' = lastUsed m" "lastTimeTick m' = lastTimeTick m"
    "bm_refs (bpages m' p) = bm_refs (bpages m p)"
    using assms(2) by (auto simp: m' alive)
  have frames: "frames_inv m'"
    unfolding frames_inv_def alive
  proof (intro conjI allI ballI impI)
    show "distinct (availableRam m')" using r(3) by (simp add: m' xs_def)
    show "x < numPages m'" if "x \<in> set (availableRam m')" for x
      using f that by (auto simp: frames_inv_def m' xs_def [symmetric] r(4))
    show "x < numPages m'" if "alive m q \<and> frame_of m' q = Some x" for q x
      using f that r(1) by (auto simp: frames_inv_def m' split: if_splits)
    show "x \<notin> set (availableRam m')" if "alive m q \<and> frame_of m' q = Some x" for q x
      using f that r(2,4) by (auto simp: frames_inv_def m' xs_def [symmetric] split: if_splits)
    show "q = q'" if "alive m q \<and> alive m q' \<and> frame_of m' q = Some x \<and> frame_of m' q' = Some x" for q q' x
      using f that unused [of q] unused [of q'] by (auto simp: frames_inv_def m' split: if_splits)
    show "x \<in> set (availableRam m') \<or> (\<exists>q. alive m q \<and> frame_of m' q = Some x)" if "x < numPages m'" for x
    proof (cases "x = r")
      case True
      then show ?thesis using assms(2) by (auto simp: m')
    next
      case False
      have "x \<in> set (availableRam m) \<or> (\<exists>q. alive m q \<and> frame_of m q = Some x)"
        using f that by (simp add: frames_inv_def m')
      then consider "x \<in> set xs" | q where "q \<noteq> p" "alive m q" "frame_of m q = Some x"
        using False assms(3) r(4) by (metis insert_iff option.distinct(1))
      then show ?thesis by cases (auto simp: m' xs_def [symmetric])
    qed
    show "length (ram m' x) = bm_pageSize m'" if "x < numPages m'" for x
      using f that assms(7) by (auto simp: frames_inv_def m')
  qed
  have clock: "clock_inv m'"
  proof -
    have ticks: "tick_of m' q = tick_of m q" for q by (simp add: m')
    have "frame_of m' q \<noteq> None" if "q \<in> set (lastUsed m)" for q using c that by (auto simp: clock_inv_def m')
    then show ?thesis using c unfolding clock_inv_def alive ticks by (simp add: m')
  qed
  have map: "map_inv m'" using mi by (auto simp: map_inv_def m')
  have "kept m' k bs" if "kept m k bs" for k bs
  proof -
    have disk: "on_disk m' k bs = on_disk m k bs" by (simp add: on_disk_def disk_chunk_def m')
    show ?thesis
    proof (cases "map_of (allPages m) k")
      case None
      then show ?thesis using that by (simp add: kept_def m' disk)
    next
      case (Some q)
      have q: "alive m q" by (rule map_alive [OF mi Some])
      show ?thesis
      proof (cases "q = p")
        case True
        have "bm_table (bpages m p) = Some (fst k)" "bm_pos (bpages m p) = snd k"
          using mi Some True by (cases k; auto simp: map_inv_def)+
        moreover have on: "on_disk m k bs" using that Some True assms(3) by (simp add: kept_def)
        ultimately have "ram m' r = bs" using assms(8) by (simp add: m')
        then show ?thesis using on Some True by (simp add: kept_def disk m')
      next
        case False
        then show ?thesis
          using that Some unused [OF q] by (auto simp: kept_def disk m' split: option.splits)
      qed
    qed
  qed
  then show "holds S m'" using frames clock map kept by (simp add: holds_def bm_inv_def)
qed

lemma last_frame:
  assumes "holds S m" and "availableRam m \<noteq> []"
  shows "last (availableRam m) < numPages m" "length (ram m (last (availableRam m))) = bm_pageSize m"
  using assms by (auto simp: holds_def bm_inv_def frames_inv_def)

lemma holds_load:
  assumes "holds S m" and "alive m p" and "frame_of m p = None" and "availableRam m \<noteq> []"
    and "m' = read_frame p (last (availableRam m)) (take_frame p m)"
  shows "holds S m'" "alive m' p" "frame_of m' p = Some (last (availableRam m))" "lastUsed m' = lastUsed m"
    "lastTimeTick m' = lastTimeTick m" "p \<notin> set (lastUsed m)" "bm_refs (bpages m' p) = bm_refs (bpages m p)"
proof -
  let ?c = "disk_chunk m (bm_table (bpages m p)) (bm_pos (bpages m p))" and ?r = "last (availableRam m)"
  have same: "m' = given_frame p (?c @ drop (length ?c) (ram m ?r)) m"
    using assms(5) by (simp add: given_frame_def read_frame_def take_frame_def on_page_def Let_def disk_chunk_def)
  have len: "length (?c @ drop (length ?c) (ram m ?r)) = bm_pageSize m"
    using last_frame(2) [OF assms(1,4)] by (simp add: disk_chunk_def)
  have eq: "?c @ drop (length ?c) (ram m ?r) = bs"
    if "bm_table (bpages m p) = Some (fst k)" "bm_pos (bpages m p) = snd k" "on_disk m k bs" for k bs
    using that last_frame(2) [OF assms(1,4)] by (auto simp: on_disk_def)
  note given = holds_given [OF assms(1-4) refl same len eq]
  show "holds S m'" "alive m' p" "frame_of m' p = Some ?r" "lastUsed m' = lastUsed m"
    "lastTimeTick m' = lastTimeTick m" "p \<notin> set (lastUsed m)" "bm_refs (bpages m' p) = bm_refs (bpages m p)"
    by (rule given; assumption)+
qed

lemma alive_write_back [simp]: "alive (write_back p m) q = alive m q"
  by (rule alive_cong) auto

text \<open>Writing a live buffered page back and marking it clean.\<close>

lemma holds_cleaned:
  assumes "holds S m" and "alive m p" and "frame_of m p = Some r"
  shows "holds S (clean_page p (write_back p m))"
proof -
  let ?w = "write_back p m" and ?m = "clean_page p (write_back p m)"
  have inv: "bm_inv m" and kept: "\<forall>k bs. S k = Some bs \<longrightarrow> kept m k bs" using assms(1) by (auto simp: holds_def)
  have f: "frames_inv m" and mi: "map_inv m" using inv by (auto simp: bm_inv_def)
  have eqs: "nextPage ?m = nextPage m" "lastUsed ?m = lastUsed m" "allPages ?m = allPages m"
    "availableRam ?m = availableRam m" "numPages ?m = numPages m" "ram ?m = ram m"
    "bm_pageSize ?m = bm_pageSize m" "lastTimeTick ?m = lastTimeTick m" "files ?m = files ?w"
    "frame_of ?m q = frame_of m q" "tick_of ?m q = tick_of m q" "bm_table (bpages ?m q) = bm_table (bpages m q)"
    "bm_pos (bpages ?m q) = bm_pos (bpages m q)" "bm_refs (bpages ?m q) = bm_refs (bpages m q)"
    "bm_dirty (bpages ?m q) = (if q = p then False else bm_dirty (bpages m q))" for q
    by (simp_all add: clean_page_def on_page_def)
  have alive: "alive ?m q = alive m q" for q by (rule alive_cong) (auto simp: eqs)
  have len: "length (ram m r) = bm_pageSize m" using f assms(2,3) by (auto simp: frames_inv_def)
  have disk: "on_disk ?m k bs = on_disk ?w k bs" for k bs by (simp add: on_disk_def disk_chunk_def eqs)
  have "frames_inv ?m = frames_inv m" by (rule frames_cong) (auto simp: eqs alive)
  moreover have "clock_inv ?m = clock_inv m" by (simp add: clock_inv_def eqs alive)
  moreover have "map_inv ?m = map_inv m" by (simp add: map_inv_def eqs)
  moreover have "kept ?m k bs" if "kept m k bs" for k bs
  proof (cases "map_of (allPages m) k = Some p")
    case True
    then have "bm_table (bpages m p) = Some (fst k)" "bm_pos (bpages m p) = snd k"
      using mi by (cases k; auto simp: map_inv_def)+
    then show ?thesis
      using that True assms(3) write_back_own [OF assms(3) len] by (simp add: kept_def eqs disk)
  next
    case False
    have "bm_table (bpages m p) \<noteq> Some (fst k) \<or> bm_pos (bpages m p) \<noteq> snd k"
      using assms(2) False by (auto simp: alive_def split: option.splits)
    then have "on_disk ?w k cs" if "on_disk m k cs" for cs
      by (rule write_back_disk [OF assms(3) len that])
    then show ?thesis using that False by (auto simp: kept_def eqs disk split: option.splits)
  qed
  ultimately show ?thesis using inv kept by (simp add: holds_def bm_inv_def)
qed

lemma holds_flush:
  assumes "holds S m" and "alive m p"
  shows "holds S (bm_flush p m)"
  using assms holds_cleaned by (auto simp: bm_flush_def Let_def)

text \<open>A clean buffered page that is not listed gives its frame back.\<close>

lemma holds_unbuffered:
  assumes "holds S m" and "alive m p" and "frame_of m p = Some r" and "\<not> bm_dirty (bpages m p)"
    and "p \<notin> set (lastUsed m)"
    and "m' = on_page p (\<lambda>g. g\<lparr>bm_bytes := None\<rparr>) (m\<lparr>availableRam := availableRam m @ [r]\<rparr>)"
  shows "holds S m'"
proof -
  have inv: "bm_inv m" and kept: "\<forall>k bs. S k = Some bs \<longrightarrow> kept m k bs" using assms(1) by (auto simp: holds_def)
  have f: "frames_inv m" and c: "clock_inv m" and mi: "map_inv m" using inv by (auto simp: bm_inv_def)
  have m': "bpages m' q = (if q = p then (bpages m p)\<lparr>bm_bytes := None\<rparr> else bpages m q)"
    "nextPage m' = nextPage m" "lastUsed m' = lastUsed m" "allPages m' = allPages m"
    "availableRam m' = availableRam m @ [r]" "numPages m' = numPages m" "ram m' = ram m"
    "bm_pageSize m' = bm_pageSize m" "lastTimeTick m' = lastTimeTick m" "files m' = files m" for q
    using assms(6) by (simp_all add: on_page_def)
  have alive: "alive m' q = alive m q" for q by (rule alive_cong) (auto simp: m')
  have r: "r < numPages m" "r \<notin> set (availableRam m)" using f assms(2,3) by (auto simp: frames_inv_def)
  have other: "q = p" if "alive m q" "frame_of m q = Some r" for q
    using f assms(2,3) that by (auto simp: frames_inv_def)
  have frames: "frames_inv m'"
    unfolding frames_inv_def alive
  proof (intro conjI allI ballI impI)
    show "distinct (availableRam m')" using f r(2) by (simp add: frames_inv_def m')
    show "x < numPages m'" if "x \<in> set (availableRam m')" for x
      using f that r(1) by (auto simp: frames_inv_def m')
    show "x < numPages m'" if "alive m q \<and> frame_of m' q = Some x" for q x
      using f that by (auto simp: frames_inv_def m' split: if_splits)
    show "x \<notin> set (availableRam m')" if "alive m q \<and> frame_of m' q = Some x" for q x
      using f that other [of q] by (auto simp: frames_inv_def m' split: if_splits)
    show "q = q'" if "alive m q \<and> alive m q' \<and> frame_of m' q = Some x \<and> frame_of m' q' = Some x" for q q' x
      using f that by (auto simp: frames_inv_def m' split: if_splits)
    show "x \<in> set (availableRam m') \<or> (\<exists>q. alive m q \<and> frame_of m' q = Some x)" if "x < numPages m'" for x
    proof (cases "x = r")
      case False
      have "x \<in> set (availableRam m) \<or> (\<exists>q. alive m q \<and> frame_of m q = Some x)"
        using f that by (simp add: frames_inv_def m')
      then consider "x \<in> set (availableRam m)" | q where "q \<noteq> p" "alive m q" "frame_of m q = Some x"
        using False assms(3) by (metis option.inject)
      then show ?thesis by cases (auto simp: m')
    qed (simp add: m')
    show "length (ram m' x) = bm_pageSize m'" if "x < numPages m'" for x
      using f that by (simp add: frames_inv_def m')
  qed
  have clock: "clock_inv m'"
  proof -
    have ticks: "tick_of m' q = tick_of m q" for q by (simp add: m')
    have "frame_of m' q \<noteq> None" if "q \<in> set (lastUsed m)" for q
      using c that assms(5) by (auto simp: clock_inv_def m')
    then show ?thesis using c unfolding clock_inv_def alive ticks by (simp add: m')
  qed
  have map: "map_inv m'" using mi by (auto simp: map_inv_def m')
  have disk: "on_disk m' k bs = on_disk m k bs" for k bs by (simp add: on_disk_def disk_chunk_def m')
  have "kept m' k bs" if "kept m k bs" for k bs
    using that assms(3,4) by (auto simp: kept_def disk m' split: option.splits)
  then show ?thesis using frames clock map kept by (simp add: holds_def bm_inv_def)
qed

section \<open>Handles and pins\<close>

text \<open>A page object with a handle is alive, and the page map has one entry for a position.\<close>

definition client_inv :: "bm \<Rightarrow> bool" where
  "client_inv m = (distinct (map fst (allPages m)) \<and> (\<forall>p < nextPage m. bm_refs (bpages m p) > 0 \<longrightarrow> alive m p))"

text \<open>A pinned page has a handle and a frame and is not on the replacement list.\<close>

definition pinned :: "bm \<Rightarrow> nat \<Rightarrow> bool" where
  "pinned m p = (p < nextPage m \<and> bm_refs (bpages m p) > 0 \<and> frame_of m p \<noteq> None \<and> p \<notin> set (lastUsed m))"

definition keeps :: "bm \<Rightarrow> bm \<Rightarrow> bool" where
  "keeps m m' = (\<forall>p. pinned m p \<longrightarrow> pinned m' p \<and> frame_of m' p = frame_of m p)"

lemma keeps_refl [simp]: "keeps m m"
  by (simp add: keeps_def)

lemma keeps_trans [trans]: "keeps m m' \<Longrightarrow> keeps m' m'' \<Longrightarrow> keeps m m''"
  by (auto simp: keeps_def)

lemma keepsI:
  assumes "nextPage m \<le> nextPage m'"
    and "\<And>p. pinned m p \<Longrightarrow> bm_refs (bpages m' p) \<ge> bm_refs (bpages m p) \<and> frame_of m' p = frame_of m p \<and> p \<notin> set (lastUsed m')"
  shows "keeps m m'"
  using assms by (fastforce simp: keeps_def pinned_def)

lemma client_cong:
  assumes "allPages m' = allPages m" and "nextPage m' = nextPage m"
    and "\<And>p. bm_table (bpages m' p) = bm_table (bpages m p) \<and> bm_pos (bpages m' p) = bm_pos (bpages m p)
      \<and> bm_refs (bpages m' p) = bm_refs (bpages m p)"
  shows "client_inv m' = client_inv m"
proof -
  have "alive m' p = alive m p" for p by (rule alive_cong) (use assms in auto)
  then show ?thesis using assms by (simp add: client_inv_def)
qed

lemma client_stamp [simp]: "client_inv (lru_stamp p m) = client_inv m"
  by (rule client_cong) (auto simp: lru_stamp_def on_page_def)

lemma client_erase [simp]: "client_inv (lru_erase p m) = client_inv m"
  by (rule client_cong) (auto simp: lru_erase_def)

lemma client_open_file [simp]: "client_inv (open_file t m) = client_inv m"
  by (rule client_cong) (auto simp: open_file_def)

lemma client_load [simp]: "client_inv (read_frame p r (take_frame p m)) = client_inv m"
  by (rule client_cong) (auto simp: read_frame_def take_frame_def on_page_def Let_def)

lemma client_take [simp]: "client_inv (take_frame p m) = client_inv m"
  by (rule client_cong) (auto simp: take_frame_def on_page_def)

lemma client_flush [simp]: "client_inv (bm_flush p m) = client_inv m"
  by (rule client_cong) (auto simp: bm_flush_def clean_page_def on_page_def Let_def)

lemma client_handle:
  assumes "client_inv m" and "alive m p"
  shows "client_inv (new_handle p m)"
proof -
  have "alive (new_handle p m) q" if "alive m q" for q
    using that by (auto simp: alive_def new_handle_def on_page_def split: option.splits)
  then show ?thesis using assms by (auto simp: client_inv_def new_handle_def on_page_def split: if_splits)
qed

lemma client_new_page:
  assumes "client_inv m" and "map_inv m" and "map_of (allPages m) (t, i) = None"
    and "new_bpage (Some t) i m = (m1, p)"
  shows "client_inv (m1\<lparr>allPages := ((t, i), p) # allPages m1\<rparr>)"
proof -
  let ?m = "m1\<lparr>allPages := ((t, i), p) # allPages m1\<rparr>"
  have eq: "p = nextPage m" "nextPage ?m = nextPage m + 1" "allPages ?m = ((t, i), p) # allPages m"
    "q \<noteq> p \<Longrightarrow> bpages ?m q = bpages m q" "bm_refs (bpages ?m p) = 0" for q
    using assms(4) by (auto simp: new_bpage_def)
  have "alive ?m q" if "alive m q" for q
  proof -
    have "q \<noteq> p" using that eq(1) by (auto simp: alive_def)
    then show ?thesis
      using that assms(3) eq(4) unfolding alive_def eq(2,3) by (auto split: option.splits)
  qed
  moreover have "(t, i) \<notin> fst ` set (allPages m)" using assms(3) by (simp add: map_of_eq_None_iff)
  moreover have "q < nextPage m \<Longrightarrow> q \<noteq> p" for q using eq(1) by simp
  ultimately show ?thesis
    using assms(1) eq unfolding client_inv_def by (auto simp: less_Suc_eq)
qed

lemma keeps_stamp: "p \<in> set (lastUsed m) \<or> \<not> pinned m p \<Longrightarrow> keeps m (lru_stamp p m)"
  by (rule keepsI) (auto simp: lru_stamp_def on_page_def pinned_def)

lemma keeps_unlisted: "keeps m (m\<lparr>lastUsed := filter P (lastUsed m)\<rparr>)"
  by (rule keepsI) (auto simp: pinned_def)

lemma keeps_handle: "keeps m (new_handle p m)"
  by (rule keepsI) (auto simp: new_handle_def on_page_def pinned_def)

lemma keeps_take: "frame_of m p = None \<Longrightarrow> keeps m (take_frame p m)"
  by (rule keepsI) (auto simp: take_frame_def on_page_def pinned_def)

lemma keeps_load: "frame_of m p = None \<Longrightarrow> keeps m (read_frame p r (take_frame p m))"
  by (rule keepsI) (auto simp: read_frame_def take_frame_def on_page_def pinned_def Let_def)

lemma keeps_new_page:
  assumes "new_bpage t i m = (m1, p)" and "p \<notin> set (lastUsed m)"
  shows "keeps m m1" "keeps m (m1\<lparr>allPages := xs\<rparr>)"
  using assms by (auto simp: new_bpage_def pinned_def intro!: keepsI)

end
