(* ===== verification/BufferManagerOps.thy ===== *)
theory BufferManagerOps
  imports BufferManagerInv
begin

text \<open>Every operation of the buffer manager keeps its invariant and the contents of every page.\<close>

section \<open>Replacement\<close>

lemma holds_forget:
  assumes "holds S m" and "alive m p" and "bm_table (bpages m p) = Some t" and "frame_of m p = None"
    and "m' = m\<lparr>allPages := filter (\<lambda>e. fst e \<noteq> (t, bm_pos (bpages m p))) (allPages m)\<rparr>"
  shows "holds S m'" "\<And>q. q \<noteq> p \<Longrightarrow> alive m' q = alive m q"
proof -
  let ?k = "(t, bm_pos (bpages m p))"
  have inv: "bm_inv m" and kept: "\<forall>k bs. S k = Some bs \<longrightarrow> kept m k bs" using assms(1) by (auto simp: holds_def)
  have f: "frames_inv m" and c: "clock_inv m" and mi: "map_inv m" using inv by (auto simp: bm_inv_def)
  have m': "bpages m' = bpages m" "nextPage m' = nextPage m" "lastUsed m' = lastUsed m"
    "availableRam m' = availableRam m" "numPages m' = numPages m" "ram m' = ram m"
    "bm_pageSize m' = bm_pageSize m" "lastTimeTick m' = lastTimeTick m" "files m' = files m"
    using assms(5) by simp_all
  have map: "map_of (allPages m') k = (if k = ?k then None else map_of (allPages m) k)" for k
  proof (cases "k = ?k")
    case True
    then show ?thesis using assms(5) by (auto simp: map_of_eq_None_iff)
  next
    case False
    then show ?thesis using assms(5) map_of_filter_other [of k ?k "allPages m"] by simp
  qed
  have at: "map_of (allPages m) ?k = Some p" using assms(2,3) by (simp add: alive_def)
  have alive: "alive m' q \<longleftrightarrow> alive m q \<and> q \<noteq> p" for q
    using at assms(3) by (auto simp: alive_def m' map split: option.splits)
  then show "\<And>q. q \<noteq> p \<Longrightarrow> alive m' q = alive m q" by simp
  have out: "q \<noteq> p" if "q \<in> set (lastUsed m) \<or> frame_of m q = Some r" for q r
    using that c assms(4) by (auto simp: clock_inv_def)
  have frames: "frames_inv m'"
  proof -
    note parts = f [unfolded frames_inv_def]
    have "x \<in> set (availableRam m) \<or> (\<exists>q. (alive m q \<and> q \<noteq> p) \<and> frame_of m q = Some x)"
      if "x < numPages m" for x
      using parts that out by metis
    then show ?thesis
      unfolding frames_inv_def alive m' using parts by (intro conjI) (blast, blast, blast, blast, blast, blast)
  qed
  have clock: "clock_inv m'" using c out unfolding clock_inv_def alive m' by blast
  have mapinv: "map_inv m'" using mi by (auto simp: map_inv_def m' map split: if_splits)
  have disk: "on_disk m' k bs = on_disk m k bs" for k bs by (simp add: on_disk_def disk_chunk_def m')
  have "kept m' k bs" if "kept m k bs" for k bs
    using that at assms(4) by (auto simp: kept_def disk m' map split: option.splits if_splits)
  then show "holds S m'" using frames clock mapinv kept by (simp add: holds_def bm_inv_def)
qed

lemma kickOutPage_steps:
  assumes "holds S m" and "lastUsed m = p # rest"
  obtains m1 where "kickOutPage m = Inr m1" "holds S m1" "availableRam m1 \<noteq> []" "lastUsed m1 = rest"
    "lastTimeTick m1 = lastTimeTick m" "\<And>q. q \<noteq> p \<Longrightarrow> alive m1 q = alive m q"
    "\<And>q. q \<noteq> p \<Longrightarrow> bpages m1 q = bpages m q" "numPages m1 = numPages m" "bm_pageSize m1 = bm_pageSize m"
    "nextPage m1 = nextPage m" "client_inv m \<longrightarrow> client_inv m1" "keeps m m1" "frame_of m1 p = None"
proof -
  have c: "clock_inv m" using assms(1) by (simp add: holds_def bm_inv_def)
  have p: "alive m p" "frame_of m p \<noteq> None" "p \<notin> set rest" using c assms(2) by (auto simp: clock_inv_def)
  then obtain r where r: "frame_of m p = Some r" by auto
  define a where a_def: "a = (if bm_dirty (bpages m p) then clean_page p (write_back p m) else m)"
  have a: "holds S a" "\<not> bm_dirty (bpages a p)" "bpages a q = (if q = p then (bpages m p)\<lparr>bm_dirty := False\<rparr> else bpages m q)"
    "nextPage a = nextPage m" "allPages a = allPages m" "lastUsed a = lastUsed m"
    "availableRam a = availableRam m" "lastTimeTick a = lastTimeTick m"
    "numPages a = numPages m" "bm_pageSize a = bm_pageSize m" for q
    using assms(1) holds_cleaned [OF assms(1) p(1) r] by (auto simp: a_def clean_page_def on_page_def)
  have alive_a: "alive a q = alive m q" for q by (rule alive_cong) (auto simp: a)
  have ca: "clock_inv a" using a(1) by (simp add: holds_def bm_inv_def)
  define b where b_def: "b = (lru_erase p a)"
  have rest: "filter (\<lambda>q. q \<noteq> p) rest = rest" using p(3) by (auto simp: filter_id_conv)
  have b: "b = a\<lparr>lastUsed := rest\<rparr>"
    using lru_erase_eq [OF ca, of p] alive_a p(1) assms(2) a(6) rest by (simp add: b_def)
  have hb: "holds S b"
    using holds_unlisted [OF a(1), of "\<lambda>q. q \<noteq> p"] lru_erase_eq [OF ca, of p] alive_a p(1) by (simp add: b_def)
  have bb: "bpages b q = bpages a q" "alive b q = alive a q" for q
    by (simp_all add: b alive_def split: option.splits)
  define c where c_def: "c = (on_page p (\<lambda>g. g\<lparr>bm_bytes := None\<rparr>) (b\<lparr>availableRam := availableRam b @ [r]\<rparr>))"
  have hc: "holds S c"
    unfolding c_def
  proof (rule holds_unbuffered [OF hb _ _ _ _ refl])
    show "alive b p" using bb(2) alive_a p(1) by simp
    show "frame_of b p = Some r" using bb(1) a(3) r by simp
    show "\<not> bm_dirty (bpages b p)" using bb(1) a(2) by simp
    show "p \<notin> set (lastUsed b)" using p(3) by (simp add: b)
  qed
  have cc: "bpages c q = (if q = p then (bpages m p)\<lparr>bm_dirty := False, bm_bytes := None\<rparr> else bpages m q)"
    "nextPage c = nextPage m" "allPages c = allPages m" "lastUsed c = rest" "lastTimeTick c = lastTimeTick m"
    "availableRam c = availableRam m @ [r]" "numPages c = numPages m" "bm_pageSize c = bm_pageSize m" for q
    by (simp_all add: c_def on_page_def b a)
  have alive_c: "alive c q = alive m q" for q by (rule alive_cong) (auto simp: cc)
  have kick: "kickOutPage m = Inr (if bm_refs (bpages c p) = 0 then killPage p c else c)"
    using assms(2) r by (simp add: kickOutPage_def Let_def a_def b_def c_def)
  have keep: "keeps m n" if "lastUsed n = rest" "nextPage n = nextPage m" "\<And>q. bpages n q = bpages c q" for n
    by (rule keepsI) (use that assms(2) in \<open>auto simp: cc pinned_def\<close>)
  have client: "client_inv c = client_inv m" by (rule client_cong) (auto simp: cc)
  show thesis
  proof (cases "bm_refs (bpages m p) = 0")
    case False
    have "keeps m c" by (rule keep) (simp_all add: cc)
    then show thesis
      using that [of c] kick False hc alive_c cc client by simp
  next
    case True
    then obtain t where t: "bm_table (bpages m p) = Some t" using p(1) by (auto simp: alive_def split: option.splits)
    define d where d_def: "d = (c\<lparr>allPages := filter (\<lambda>e. fst e \<noteq> (t, bm_pos (bpages c p))) (allPages c)\<rparr>)"
    have tc: "bm_table (bpages c p) = Some t" "frame_of c p = None" using t by (simp_all add: cc)
    have kill: "killPage p c = d" by (simp only: killPage_def Let_def tc option.case simp_thms if_True if_False d_def)
    have pc: "alive c p" using alive_c p(1) by simp
    note d = holds_forget [OF hc pc tc d_def]
    have dd: "allPages d = filter (\<lambda>e. fst e \<noteq> (t, bm_pos (bpages c p))) (allPages m)" "nextPage d = nextPage m"
      "bpages d q = bpages c q" "lastUsed d = rest" for q by (simp_all add: d_def cc)
    have "client_inv d" if "client_inv m"
    proof -
      have "alive d q" if "q < nextPage m" "0 < bm_refs (bpages m q)" for q
      proof -
        have "q \<noteq> p" using that(2) True by auto
        then have "alive d q = alive c q" by (rule d(2))
        then show ?thesis using alive_c [of q] that \<open>client_inv m\<close> by (simp add: client_inv_def)
      qed
      then show ?thesis
        using that True by (simp add: client_inv_def distinct_map_filter dd cc split: if_splits)
    qed
    moreover have "keeps m d" by (rule keep) (simp_all add: dd)
    ultimately show thesis
      using that [of d] kick True d alive_c p(1) cc kill dd by (simp add: d_def)
  qed
qed

text \<open>Room is made when a frame is free or a listed page can go; a page without a frame survives.\<close>

lemma make_room_steps:
  assumes "holds S m" and "availableRam m \<noteq> [] \<or> lastUsed m \<noteq> []"
  obtains m1 where "make_room m = Inr m1" "holds S m1" "availableRam m1 \<noteq> []"
    "lastTimeTick m1 = lastTimeTick m"
    "\<And>q. frame_of m q = None \<Longrightarrow> alive m1 q = alive m q \<and> bpages m1 q = bpages m q"
    "numPages m1 = numPages m" "bm_pageSize m1 = bm_pageSize m"
    "client_inv m \<longrightarrow> client_inv m1" "keeps m m1" "set (lastUsed m1) \<subseteq> set (lastUsed m)"
proof (cases "availableRam m = []")
  case False
  show thesis by (rule that [of m]) (use assms(1) False in \<open>simp_all add: make_room_def\<close>)
next
  case True
  then obtain p rest where lru: "lastUsed m = p # rest" using assms(2) by (cases "lastUsed m") auto
  have out: "q \<noteq> p" if "frame_of m q = None" for q
    using assms(1) lru that by (auto simp: holds_def bm_inv_def clock_inv_def)
  obtain m1 where m1: "kickOutPage m = Inr m1" "holds S m1" "availableRam m1 \<noteq> []" "lastUsed m1 = rest"
    "lastTimeTick m1 = lastTimeTick m" "\<And>q. q \<noteq> p \<Longrightarrow> alive m1 q = alive m q"
    "\<And>q. q \<noteq> p \<Longrightarrow> bpages m1 q = bpages m q" "numPages m1 = numPages m" "bm_pageSize m1 = bm_pageSize m"
    "nextPage m1 = nextPage m" "client_inv m \<longrightarrow> client_inv m1" "keeps m m1" "frame_of m1 p = None"
    using kickOutPage_steps [OF assms(1) lru] by metis
  show thesis
    by (rule that [of m1]) (use True m1 out lru in \<open>auto simp: make_room_def\<close>)
qed

lemma access_steps:
  assumes "holds S m" and "alive m p" and "room_in_clock m"
    and "frame_of m p \<noteq> None \<or> availableRam m \<noteq> [] \<or> lastUsed m \<noteq> []"
  obtains m1 where "access p m = Inr m1" "holds S m1" "alive m1 p" "frame_of m1 p \<noteq> None"
    "bm_table (bpages m1 p) = bm_table (bpages m p)" "bm_pos (bpages m1 p) = bm_pos (bpages m p)"
    "bm_pageSize m1 = bm_pageSize m" "client_inv m \<longrightarrow> client_inv m1" "keeps m m1"
proof -
  let ?recent = "tick_of m p > lastTimeTick m - of_nat (numPages m div 2) \<and> frame_of m p \<noteq> None"
  have c: "clock_inv m" using assms(1) by (simp add: holds_def bm_inv_def)
  note count = lru_count_iff [OF c assms(2)]
  have stamp: "alive (lru_stamp p n) p = alive n p" "frame_of (lru_stamp p n) p = frame_of n p"
    "bm_table (bpages (lru_stamp p n) p) = bm_table (bpages n p)"
    "bm_pos (bpages (lru_stamp p n) p) = bm_pos (bpages n p)" "bm_pageSize (lru_stamp p n) = bm_pageSize n" for n
    by (auto simp: lru_stamp_def on_page_def alive_def split: option.splits)
  have erase: "bpages (lru_erase p m) = bpages m" "bm_pageSize (lru_erase p m) = bm_pageSize m"
    "alive (lru_erase p m) p = alive m p"
    by (auto simp: lru_erase_def alive_def split: option.splits)
  consider (stay) "access p m = Inr m" "frame_of m p \<noteq> None"
    | (touch) "access p m = Inr (lru_stamp p (lru_erase p m))" "p \<in> set (lastUsed m)"
    | (load) "\<not> ?recent" "p \<notin> set (lastUsed m)" "frame_of m p = None"
    using count by (cases "?recent"; cases "lru_count p m"; cases "frame_of m p")
      (simp_all add: access_def Let_def)
  then show thesis
  proof cases
    case stay
    then show thesis using that [of m] assms by simp
  next
    case touch
    have "frame_of m p \<noteq> None" using c touch(2) by (auto simp: clock_inv_def)
    moreover have "keeps m (lru_stamp p (lru_erase p m))"
      by (rule keepsI) (use touch(2) in \<open>auto simp: lru_stamp_def lru_erase_def on_page_def pinned_def\<close>)
    ultimately show thesis
      using that [OF touch(1) holds_touch [OF assms(1,2) touch(2) assms(3)]] assms(2) stamp erase by simp
  next
    case load
    obtain m1 where m1: "make_room m = Inr m1" "holds S m1" "availableRam m1 \<noteq> []"
      "lastTimeTick m1 = lastTimeTick m"
      "\<And>q. frame_of m q = None \<Longrightarrow> alive m1 q = alive m q \<and> bpages m1 q = bpages m q"
      "numPages m1 = numPages m" "bm_pageSize m1 = bm_pageSize m" "client_inv m \<longrightarrow> client_inv m1" "keeps m m1"
      using make_room_steps [OF assms(1)] assms(4) load(3) by metis
    have p1: "alive m1 p" "bpages m1 p = bpages m p" using m1(5) load(3) assms(2) by auto
    let ?m2 = "read_frame p (last (availableRam m1)) (take_frame p m1)"
    have none: "frame_of m1 p = None" using p1(2) load(3) by simp
    note l = holds_load [OF m1(2) p1(1) none m1(3) refl]
    have same: "bm_table (bpages ?m2 p) = bm_table (bpages m p)" "bm_pos (bpages ?m2 p) = bm_pos (bpages m p)"
      "bm_pageSize ?m2 = bm_pageSize m"
      using p1(2) m1(7) by (simp_all add: read_frame_def take_frame_def on_page_def Let_def)
    have "access p m = Inr (lru_stamp p ?m2)"
      using load m1(1,3) count by (simp add: access_def Let_def)
    moreover have "holds S (lru_stamp p ?m2)"
      using l assms(3) m1(4) by (intro holds_stamped) (simp_all add: room_in_clock_def)
    moreover have "keeps m (lru_stamp p ?m2)"
      using m1(9) load(3) by (auto simp: keeps_def pinned_def lru_stamp_def read_frame_def
        take_frame_def on_page_def Let_def)
    ultimately show thesis using that [of "lru_stamp p ?m2"] l same stamp m1(8) by simp
  qed
qed

section \<open>Writing through a handle\<close>

lemma holds_written:
  assumes "holds S m" and "alive m p" and "frame_of m p = Some r" and "length bs = bm_pageSize m"
    and "m' = wroteBytes p (m\<lparr>ram := (ram m)(r := bs)\<rparr>)"
    and "S' = (case bm_table (bpages m p) of None \<Rightarrow> S | Some t \<Rightarrow> S((t, bm_pos (bpages m p)) \<mapsto> bs))"
  shows "holds S' m'"
proof -
  have inv: "bm_inv m" and kept: "\<forall>k bs. S k = Some bs \<longrightarrow> kept m k bs" using assms(1) by (auto simp: holds_def)
  have f: "frames_inv m" and c: "clock_inv m" and mi: "map_inv m" using inv by (auto simp: bm_inv_def)
  have m': "bpages m' q = (if q = p then (bpages m p)\<lparr>bm_dirty := True\<rparr> else bpages m q)"
    "nextPage m' = nextPage m" "lastUsed m' = lastUsed m" "allPages m' = allPages m"
    "availableRam m' = availableRam m" "numPages m' = numPages m" "ram m' = (ram m)(r := bs)"
    "bm_pageSize m' = bm_pageSize m" "lastTimeTick m' = lastTimeTick m" "files m' = files m" for q
    using assms(5) by (simp_all add: wroteBytes_def on_page_def)
  have eqs: "frame_of m' q = frame_of m q" "tick_of m' q = tick_of m q" "bm_table (bpages m' q) = bm_table (bpages m q)"
    "bm_pos (bpages m' q) = bm_pos (bpages m q)" for q by (simp_all add: m')
  have alive: "alive m' q = alive m q" for q by (rule alive_cong) (auto simp: m')
  have frames: "frames_inv m'" using f assms(4) unfolding frames_inv_def alive eqs by (simp add: m')
  have clock: "clock_inv m'" using c unfolding clock_inv_def alive eqs by (simp add: m')
  have map: "map_inv m'" using mi unfolding map_inv_def eqs by (simp add: m')
  have disk: "on_disk m' k cs = on_disk m k cs" for k cs by (simp add: on_disk_def disk_chunk_def m')
  have mine: "frame_of m q = Some r \<longleftrightarrow> q = p" if "alive m q" for q
    using f assms(2,3) that by (auto simp: frames_inv_def)
  have "kept m' k cs" if "S' k = Some cs" for k cs
  proof (cases "map_of (allPages m) k = Some p")
    case True
    then have "bm_table (bpages m p) = Some (fst k)" "bm_pos (bpages m p) = snd k"
      using mi by (cases k; auto simp: map_inv_def)+
    then have "cs = bs" using that assms(6) by (cases k) simp
    then show ?thesis using True assms(3) by (simp add: kept_def m')
  next
    case False
    have "S k = Some cs"
      using that assms(2,6) False by (auto simp: alive_def split: option.splits if_splits)
    then have "kept m k cs" using kept by blast
    then show ?thesis
      using False mine map_alive [OF mi, of k] by (auto simp: kept_def disk m' split: option.splits)
  qed
  then show ?thesis using frames clock map by (simp add: holds_def bm_inv_def)
qed

section \<open>Handles\<close>

text \<open>The last handle of a temporary page: its frame and its position are free again.\<close>

lemma holds_disposed:
  assumes "holds S m" and "alive m p" and "bm_table (bpages m p) = None"
    and "m' = (on_page p (\<lambda>g. g\<lparr>bm_refs := 0\<rparr>) m)\<lparr>availablePositions := ap,
       availableRam := availableRam m @ (case frame_of m p of None \<Rightarrow> [] | Some r \<Rightarrow> [r]),
       lastUsed := filter (\<lambda>q. q \<noteq> p) (lastUsed m)\<rparr>"
  shows "holds S m'"
proof -
  have inv: "bm_inv m" and kept: "\<forall>k bs. S k = Some bs \<longrightarrow> kept m k bs" using assms(1) by (auto simp: holds_def)
  have f: "frames_inv m" and c: "clock_inv m" and mi: "map_inv m" using inv by (auto simp: bm_inv_def)
  let ?fr = "case frame_of m p of None \<Rightarrow> [] | Some r \<Rightarrow> [r]"
  have m': "nextPage m' = nextPage m" "lastUsed m' = filter (\<lambda>q. q \<noteq> p) (lastUsed m)"
    "allPages m' = allPages m" "availableRam m' = availableRam m @ ?fr" "numPages m' = numPages m"
    "ram m' = ram m" "bm_pageSize m' = bm_pageSize m" "lastTimeTick m' = lastTimeTick m" "files m' = files m"
    using assms(4) by (simp_all add: on_page_def)
  have eqs: "frame_of m' q = frame_of m q" "tick_of m' q = tick_of m q" "bm_table (bpages m' q) = bm_table (bpages m q)"
    "bm_pos (bpages m' q) = bm_pos (bpages m q)" "bm_dirty (bpages m' q) = bm_dirty (bpages m q)"
    "q \<noteq> p \<Longrightarrow> bpages m' q = bpages m q" "bm_refs (bpages m' p) = 0" for q
    using assms(4) by (simp_all add: on_page_def)
  have alive: "alive m' q \<longleftrightarrow> alive m q \<and> q \<noteq> p" for q
    using assms(3) eqs by (cases "q = p") (auto simp: alive_def m' split: option.splits)
  note parts = f [unfolded frames_inv_def]
  have frames: "frames_inv m'"
    unfolding frames_inv_def alive eqs m'
  proof (intro conjI)
    show "distinct (availableRam m @ ?fr)" using parts assms(2) by (auto split: option.splits)
    show "\<forall>r \<in> set (availableRam m @ ?fr). r < numPages m" using parts assms(2) by (auto split: option.splits)
    show "\<forall>q r. (alive m q \<and> q \<noteq> p) \<and> frame_of m q = Some r \<longrightarrow> r < numPages m \<and> r \<notin> set (availableRam m @ ?fr)"
    proof (intro allI impI)
      fix q r assume q: "(alive m q \<and> q \<noteq> p) \<and> frame_of m q = Some r"
      then have "frame_of m p \<noteq> Some r" using parts assms(2) by blast
      then show "r < numPages m \<and> r \<notin> set (availableRam m @ ?fr)"
        using parts q by (cases "frame_of m p") auto
    qed
    show "\<forall>q q' r. (alive m q \<and> q \<noteq> p) \<and> (alive m q' \<and> q' \<noteq> p) \<and> frame_of m q = Some r \<and> frame_of m q' = Some r \<longrightarrow> q = q'"
      using parts by blast
    show "\<forall>r < numPages m. r \<in> set (availableRam m @ ?fr) \<or> (\<exists>q. (alive m q \<and> q \<noteq> p) \<and> frame_of m q = Some r)"
    proof (intro allI impI)
      fix r assume "r < numPages m"
      then consider "r \<in> set (availableRam m)" | q where "alive m q" "frame_of m q = Some r" using parts by blast
      then show "r \<in> set (availableRam m @ ?fr) \<or> (\<exists>q. (alive m q \<and> q \<noteq> p) \<and> frame_of m q = Some r)"
      proof cases
        case 2
        then show ?thesis by (cases "q = p") auto
      qed simp
    qed
    show "\<forall>r < numPages m. length (ram m r) = bm_pageSize m" using parts by blast
  qed
  have clock: "clock_inv m'"
    using c sorted_wrt_filter unfolding clock_inv_def alive eqs m' by (simp add: sorted_wrt_filter)
  have map: "map_inv m'" using mi unfolding map_inv_def eqs m' .
  have "kept m' k bs = kept m k bs" for k bs by (rule kept_cong) (simp_all add: m' eqs)
  then show ?thesis using frames clock map kept by (simp add: holds_def bm_inv_def)
qed

lemma holds_released:
  assumes "holds S m" and "alive m p" and "bm_refs (bpages m p) > 0" and "room_in_clock m"
  shows "holds S (release_handle p m)"
proof -
  let ?n = "bm_refs (bpages m p) - 1"
  let ?m = "on_page p (\<lambda>g. g\<lparr>bm_refs := ?n\<rparr>) m"
  have dec: "on_page p (\<lambda>g. g\<lparr>bm_refs := bm_refs g - 1\<rparr>) m = ?m" by (simp add: on_page_def)
  have eqs: "bm_refs (bpages ?m p) = ?n" "bm_table (bpages ?m p) = bm_table (bpages m p)"
    "frame_of ?m p = frame_of m p" "lastUsed ?m = lastUsed m" "bm_pos (bpages ?m p) = bm_pos (bpages m p)"
    "lastTimeTick ?m = lastTimeTick m" "tick_of ?m q = tick_of m q" for q by (simp_all add: on_page_def)
  have c: "clock_inv m" using assms(1) by (simp add: holds_def bm_inv_def)
  have count: "lru_count p ?m \<longleftrightarrow> p \<in> set (lastUsed m)"
    using lru_count_iff [OF c assms(2)] by (simp add: lru_count_def eqs)
  show ?thesis
  proof (cases "bm_table (bpages m p)")
    case (Some t)
    then have al: "alive ?m p = alive m p" by (simp add: alive_def on_page_def)
    have h: "holds S ?m" by (rule holds_refs [OF assms(1) al])
    have alive: "alive ?m p" using al assms(2) by simp
    have forget: "killPage p ?m = ?m\<lparr>allPages := filter (\<lambda>e. fst e \<noteq> (t, bm_pos (bpages ?m p))) (allPages ?m)\<rparr>"
      if "frame_of m p = None"
      using that Some eqs by (simp add: killPage_def Let_def)
    have "killPage p ?m = lru_stamp p ?m" if "frame_of m p \<noteq> None" "p \<notin> set (lastUsed m)"
      using that Some eqs count by (simp add: killPage_def Let_def)
    then have "holds S (killPage p ?m)" if "frame_of m p \<noteq> None" "p \<notin> set (lastUsed m)"
      using that holds_stamped [OF h alive] assms(4) eqs by (simp add: room_in_clock_def)
    moreover have "killPage p ?m = ?m" if "frame_of m p \<noteq> None" "p \<in> set (lastUsed m)"
      using that Some eqs count by (auto simp: killPage_def Let_def)
    moreover have "holds S (killPage p ?m)" if "frame_of m p = None"
      using holds_forget(1) [OF h alive _ _ refl, of t] that Some eqs forget by simp
    ultimately have "holds S (killPage p ?m)" using h by (cases "frame_of m p = None"; cases "p \<in> set (lastUsed m)") auto
    then show ?thesis using h by (simp add: release_handle_def dec Let_def)
  next
    case None
    show ?thesis
    proof (cases "?n = 0")
      case False
      have "alive ?m p = alive m p" using False assms(2,3) None by (simp add: alive_def on_page_def)
      then show ?thesis using holds_refs [OF assms(1)] False eqs by (simp add: release_handle_def dec Let_def)
    next
      case True
      let ?m1 = "?m\<lparr>availablePositions := insort (bm_pos (bpages m p)) (availablePositions m),
        availableRam := availableRam m @ (case frame_of m p of None \<Rightarrow> [] | Some r \<Rightarrow> [r])\<rparr>"
      have m1: "lru_count p ?m1 \<longleftrightarrow> p \<in> set (lastUsed m)" using count by (simp add: lru_count_def)
      have "filter (\<lambda>q. tick_of m q \<noteq> tick_of m p) (lastUsed m) = filter (\<lambda>q. q \<noteq> p) (lastUsed m)"
        using arg_cong [OF lru_erase_eq [OF c assms(2)], of lastUsed] by (simp add: lru_erase_def)
      moreover have "tick_of ?m1 q = tick_of m q" "lastUsed ?m1 = lastUsed m" for q by (simp_all add: on_page_def)
      ultimately have "lru_erase p ?m1 = ?m1\<lparr>lastUsed := filter (\<lambda>q. q \<noteq> p) (lastUsed m)\<rparr>"
        by (simp only: lru_erase_def)
      moreover have "filter (\<lambda>q. q \<noteq> p) (lastUsed m) = lastUsed m" if "p \<notin> set (lastUsed m)"
        using that by (auto simp: filter_id_conv)
      ultimately have "killPage p ?m = ?m1\<lparr>lastUsed := filter (\<lambda>q. q \<noteq> p) (lastUsed m)\<rparr>"
        using None eqs m1 by (auto simp: killPage_def Let_def on_page_def)
      then have "release_handle p m = ?m1\<lparr>lastUsed := filter (\<lambda>q. q \<noteq> p) (lastUsed m)\<rparr>"
        using True eqs by (simp add: release_handle_def dec Let_def)
      then show ?thesis
        using True holds_disposed [OF assms(1,2) None,
            of _ "insort (bm_pos (bpages m p)) (availablePositions m)"]
        by (simp add: on_page_def)
    qed
  qed
qed

lemma killPage_fields:
  "nextPage (killPage p m) = nextPage m"
  "bm_refs (bpages (killPage p m) q) = bm_refs (bpages m q)"
  "bm_table (bpages (killPage p m) q) = bm_table (bpages m q)"
  "bm_pos (bpages (killPage p m) q) = bm_pos (bpages m q)"
  "frame_of (killPage p m) q = frame_of m q"
  by (auto simp: killPage_def lru_erase_def lru_stamp_def on_page_def Let_def split: option.splits)

lemma killPage_map:
  "allPages (killPage p m) = (case bm_table (bpages m p) of None \<Rightarrow> allPages m
     | Some t \<Rightarrow> if frame_of m p = None then filter (\<lambda>e. fst e \<noteq> (t, bm_pos (bpages m p))) (allPages m) else allPages m)"
  by (auto simp: killPage_def lru_erase_def lru_stamp_def on_page_def Let_def split: option.splits)

lemma killPage_listed: "set (lastUsed (killPage p m)) \<subseteq> insert p (set (lastUsed m))"
  by (auto simp: killPage_def lru_erase_def lru_stamp_def on_page_def Let_def split: option.splits)

lemma client_killed:
  assumes "client_inv m" and "alive n p" and "bm_refs (bpages m p) = 0" and "allPages n = allPages m"
    and "bm_table (bpages n p) = bm_table (bpages m p)" and "bm_pos (bpages n p) = bm_pos (bpages m p)"
  shows "client_inv (killPage p m)"
proof -
  have "alive (killPage p m) q" if "alive m q" and "0 < bm_refs (bpages m q)" for q
  proof (cases "bm_table (bpages m q)")
    case None
    then show ?thesis using that by (simp add: alive_def killPage_fields)
  next
    case (Some t)
    then have q: "map_of (allPages m) (t, bm_pos (bpages m q)) = Some q" "q < nextPage m" using that(1) by (auto simp: alive_def)
    have "q \<noteq> p" using that(2) assms(3) by auto
    then have "(t, bm_pos (bpages m q)) \<noteq> (u, bm_pos (bpages m p))" if "bm_table (bpages m p) = Some u" for u
      using that q(1) assms(2,4-6) by (auto simp: alive_def)
    then have "map_of (allPages (killPage p m)) (t, bm_pos (bpages m q)) = Some q"
      using q(1) map_of_filter_other [of "(t, bm_pos (bpages m q))" _ "allPages m"]
      by (auto simp: killPage_map split: option.splits)
    then show ?thesis using Some q(2) by (simp add: alive_def killPage_fields)
  qed
  moreover have "distinct (map fst (allPages (killPage p m)))"
    using assms(1) by (auto simp: killPage_map client_inv_def distinct_map_filter split: option.splits)
  ultimately show ?thesis using assms(1) by (simp add: client_inv_def killPage_fields)
qed

lemma client_released:
  assumes "client_inv m" and "alive m p"
  shows "client_inv (release_handle p m)"
    and "\<And>q. pinned m q \<Longrightarrow> q \<noteq> p \<Longrightarrow> pinned (release_handle p m) q \<and> frame_of (release_handle p m) q = frame_of m q"
proof -
  define m1 where "m1 = on_page p (\<lambda>g. g\<lparr>bm_refs := bm_refs g - 1\<rparr>) m"
  have r: "release_handle p m = (if bm_refs (bpages m1 p) = 0 then killPage p m1 else m1)"
    by (simp add: release_handle_def m1_def Let_def)
  have m1: "allPages m1 = allPages m" "nextPage m1 = nextPage m" "lastUsed m1 = lastUsed m" "frame_of m1 q = frame_of m q"
    "bm_table (bpages m1 q) = bm_table (bpages m q)" "bm_pos (bpages m1 q) = bm_pos (bpages m q)"
    "bm_refs (bpages m1 q) = (if q = p then bm_refs (bpages m p) - 1 else bm_refs (bpages m q))" for q
    by (simp_all add: m1_def on_page_def)
  have "alive m1 q" if "alive m q" "0 < bm_refs (bpages m1 q)" for q
    using that by (auto simp: alive_def m1 split: option.splits if_splits)
  then have c1: "client_inv m1" using assms(1) by (auto simp: client_inv_def m1 split: if_splits)
  then show "client_inv (release_handle p m)"
    using client_killed [OF c1 assms(2)] by (simp add: r m1)
  show "pinned (release_handle p m) q \<and> frame_of (release_handle p m) q = frame_of m q"
    if "pinned m q" "q \<noteq> p" for q
    using that killPage_listed [of p m1] by (auto simp: r pinned_def killPage_fields m1)
qed

section \<open>Getting pages\<close>

lemma getPage_steps:
  assumes "holds S m"
  shows "\<exists>m' p. bm_getPage (Some t) i m = Inr (m', p) \<and> holds S m' \<and> alive m' p \<and>
    bm_table (bpages m' p) = Some t \<and> bm_pos (bpages m' p) = i \<and> (client_inv m \<longrightarrow> client_inv m') \<and> keeps m m'"
proof -
  let ?m = "open_file (Some t) m"
  have k0: "keeps m ?m" by (rule keepsI) (auto simp: pinned_def open_file_def)
  have h: "holds S ?m" by (rule holds_open_file [OF assms])
  then have mi: "map_inv ?m" by (simp add: holds_def bm_inv_def)
  show ?thesis
  proof (cases "map_of (allPages ?m) (t, i)")
    case None
    obtain m1 p where n: "new_bpage (Some t) i ?m = (m1, p)" by (cases "new_bpage (Some t) i ?m")
    let ?m2 = "m1\<lparr>allPages := ((t, i), p) # allPages m1\<rparr>"
    note fresh = holds_new_page [OF h None n refl]
    have at: "bm_table (bpages ?m2 p) = Some t" "bm_pos (bpages ?m2 p) = i"
      using n by (auto simp: new_bpage_def)
    have "bm_getPage (Some t) i m = Inr (new_handle p ?m2, p)" by (simp add: bm_getPage_def Let_def None n)
    moreover have "client_inv m \<longrightarrow> client_inv (new_handle p ?m2)"
      using client_handle [OF client_new_page [OF _ mi None n] fresh(2)] by simp
    moreover have "p \<notin> set (lastUsed ?m)" using fresh(4) n by (auto simp: new_bpage_def)
    then have "keeps m (new_handle p ?m2)"
      by (intro keeps_trans [OF k0] keeps_trans [OF keeps_new_page(2) [OF n] keeps_handle])
    ultimately show ?thesis
      using handle_given [OF fresh(1,2)] at by (auto simp: new_handle_def on_page_def)
  next
    case (Some p)
    have p: "alive ?m p" by (rule map_alive [OF mi Some])
    have at: "bm_table (bpages ?m p) = Some t" "bm_pos (bpages ?m p) = i" using mi Some by (auto simp: map_inv_def)
    have "bm_getPage (Some t) i m = Inr (new_handle p ?m, p)" by (simp add: bm_getPage_def Let_def Some)
    moreover have "client_inv m \<longrightarrow> client_inv (new_handle p ?m)" using client_handle [OF _ p] by simp
    moreover have "keeps m (new_handle p ?m)" by (rule keeps_trans [OF k0 keeps_handle])
    ultimately show ?thesis
      using handle_given [OF h p] at by (auto simp: new_handle_def on_page_def)
  qed
qed

text \<open>A new temporary page comes with its first handle.\<close>

lemma holds_new_temp:
  assumes "holds S m"
    and "m' = m\<lparr>lastTempPos := lt, availablePositions := ap,
       bpages := (bpages m)(nextPage m := \<lparr>bm_bytes = None, bm_dirty = False, bm_table = None,
         bm_pos = i, timeTick = -1, bm_refs = 1\<rparr>), nextPage := nextPage m + 1\<rparr>"
  shows "holds S m'" "alive m' (nextPage m)"
proof -
  let ?p = "nextPage m"
  have inv: "bm_inv m" and kept: "\<forall>k bs. S k = Some bs \<longrightarrow> kept m k bs" using assms(1) by (auto simp: holds_def)
  have f: "frames_inv m" and c: "clock_inv m" and mi: "map_inv m" using inv by (auto simp: bm_inv_def)
  let ?g = "\<lparr>bm_bytes = None, bm_dirty = False, bm_table = None, bm_pos = i, timeTick = -1, bm_refs = 1\<rparr>"
  have m': "bpages m' q = (if q = ?p then ?g else bpages m q)" "nextPage m' = ?p + 1" "lastUsed m' = lastUsed m"
    "allPages m' = allPages m" "availableRam m' = availableRam m" "numPages m' = numPages m"
    "ram m' = ram m" "bm_pageSize m' = bm_pageSize m" "lastTimeTick m' = lastTimeTick m" "files m' = files m" for q
    using assms(2) by simp_all
  have dead: "\<not> alive m ?p" by (simp add: alive_def)
  have alive: "alive m' q \<longleftrightarrow> q = ?p \<or> alive m q" for q
    by (cases "q = ?p") (auto simp: alive_def m' split: option.splits)
  then show "alive m' (nextPage m)" by simp
  have fresh: "map_of (allPages m) k \<noteq> Some ?p" for k using mi by (cases k) (auto simp: map_inv_def)
  have out: "q \<noteq> ?p" if "q \<in> set (lastUsed m) \<or> alive m q" for q using that c dead by (auto simp: clock_inv_def)
  have eq: "frame_of m' q = (if q = ?p then None else frame_of m q)" for q by (simp add: m')
  note parts = f [unfolded frames_inv_def]
  have frames: "frames_inv m'"
    unfolding frames_inv_def alive m'(2-) eq
  proof (intro conjI)
    show "\<forall>q r. (q = ?p \<or> alive m q) \<and> (if q = ?p then None else frame_of m q) = Some r \<longrightarrow>
        r < numPages m \<and> r \<notin> set (availableRam m)"
      using parts by (simp split: if_splits)
    show "\<forall>q q' r. (q = ?p \<or> alive m q) \<and> (q' = ?p \<or> alive m q') \<and> (if q = ?p then None else frame_of m q) = Some r
        \<and> (if q' = ?p then None else frame_of m q') = Some r \<longrightarrow> q = q'"
      using parts by (simp split: if_splits)
    show "\<forall>r < numPages m. r \<in> set (availableRam m) \<or>
        (\<exists>q. (q = ?p \<or> alive m q) \<and> (if q = ?p then None else frame_of m q) = Some r)"
      using parts dead by metis
  qed (use parts in \<open>blast+\<close>)
  have sorted: "sorted_wrt (\<lambda>a b. tick_of m' a < tick_of m' b) (lastUsed m)"
    by (rule sorted_wrt_mono_rel [of _ "\<lambda>a b. tick_of m a < tick_of m b"])
      (use c out in \<open>auto simp: clock_inv_def m'\<close>)
  have clock: "clock_inv m'"
    using c out sorted unfolding clock_inv_def alive by (auto simp: m')
  have map: "map_inv m'" using mi fresh by (auto simp: map_inv_def m' less_SucI)
  have disk: "on_disk m' k bs = on_disk m k bs" for k bs by (simp add: on_disk_def disk_chunk_def m')
  have "kept m' k bs" if "kept m k bs" for k bs
    using that fresh [of k] by (auto simp: kept_def disk m' split: option.splits)
  then show "holds S m'" using frames clock map kept by (simp add: holds_def bm_inv_def)
qed

lemma getTempPage_steps:
  assumes "holds S m" and "bm_getTempPage m = (m', p)"
  shows "holds S m'" "alive m' p" "frame_of m' p = None" "bm_table (bpages m' p) = None"
    "availableRam m' = availableRam m" "bm_pageSize m' = bm_pageSize m"
    "client_inv m \<Longrightarrow> client_inv m'" "keeps m m'"
proof -
  let ?m = "open_file None m"
  have h: "holds S ?m" by (rule holds_open_file [OF assms(1)])
  have "\<exists>lt ap i. m' = ?m\<lparr>lastTempPos := lt, availablePositions := ap,
       bpages := (bpages ?m)(nextPage ?m := \<lparr>bm_bytes = None, bm_dirty = False,
         bm_table = None, bm_pos = i, timeTick = -1, bm_refs = 1\<rparr>), nextPage := nextPage ?m + 1\<rparr>"
  proof (cases "availablePositions ?m")
    case Nil
    show ?thesis
      by (rule exI [of _ "lastTempPos ?m + 1"], rule exI [of _ "availablePositions ?m"], rule exI [of _ "lastTempPos ?m"])
        (use assms(2) Nil in \<open>auto simp: bm_getTempPage_def Let_def new_bpage_def new_handle_def on_page_def\<close>)
  next
    case (Cons pos rest)
    show ?thesis
      by (rule exI [of _ "lastTempPos ?m"], rule exI [of _ rest], rule exI [of _ pos])
        (use assms(2) Cons in \<open>auto simp: bm_getTempPage_def Let_def new_bpage_def new_handle_def on_page_def\<close>)
  qed
  then obtain lt ap i where e: "m' = ?m\<lparr>lastTempPos := lt, availablePositions := ap,
       bpages := (bpages ?m)(nextPage ?m := \<lparr>bm_bytes = None, bm_dirty = False,
         bm_table = None, bm_pos = i, timeTick = -1, bm_refs = 1\<rparr>), nextPage := nextPage ?m + 1\<rparr>" by blast
  have p: "p = nextPage ?m"
    using assms(2) by (auto simp: bm_getTempPage_def Let_def new_bpage_def split: prod.splits list.splits)
  show "holds S m'" "alive m' p" using holds_new_temp [OF h e] p by auto
  show "frame_of m' p = None" "bm_table (bpages m' p) = None" by (simp_all add: e p)
  show "availableRam m' = availableRam m" "bm_pageSize m' = bm_pageSize m"
    by (simp_all add: e) (simp_all add: open_file_def)
  have new: "allPages m' = allPages m" "nextPage m' = nextPage m + 1" "lastUsed m' = lastUsed m"
    "q \<noteq> p \<Longrightarrow> bpages m' q = bpages m q" for q
    by (simp_all add: e p) (simp_all add: open_file_def)
  have p': "p = nextPage m" using p by (simp add: open_file_def)
  have old: "q \<noteq> p" if "q < nextPage m" for q using that p by (simp add: open_file_def)
  show "keeps m m'" by (rule keepsI) (use new old in \<open>auto simp: pinned_def\<close>)
  show "client_inv m'" if "client_inv m"
  proof -
    have "alive m' q" if "q < nextPage m" "0 < bm_refs (bpages m q)" for q
      using that p' \<open>client_inv m\<close> new(4) [of q]
      by (auto simp: client_inv_def alive_def new(1,2) split: option.splits)
    then show ?thesis
      using that \<open>alive m' p\<close> new p' by (auto simp: client_inv_def less_Suc_eq)
  qed
qed

section \<open>Pinned pages\<close>

lemma find_page_steps:
  assumes "holds S m" and "find_page t i m = (m', p)"
  shows "holds S m'" "alive m' p" "bm_table (bpages m' p) = Some t" "bm_pos (bpages m' p) = i"
    "p \<notin> set (lastUsed m')" "bm_pageSize m' = bm_pageSize m" "availableRam m' = availableRam m"
    "lastTimeTick m' = lastTimeTick m" "set (lastUsed m') = set (lastUsed m) - {p}"
    "p \<in> set (lastUsed m) \<Longrightarrow> frame_of m' p \<noteq> None" "client_inv m \<Longrightarrow> client_inv m'" "keeps m m'"
proof -
  have c: "clock_inv m" and mi: "map_inv m" using assms(1) by (auto simp: holds_def bm_inv_def)
  have "holds S m' \<and> alive m' p \<and> bm_table (bpages m' p) = Some t \<and> bm_pos (bpages m' p) = i \<and>
    p \<notin> set (lastUsed m') \<and> bm_pageSize m' = bm_pageSize m \<and> availableRam m' = availableRam m \<and>
    lastTimeTick m' = lastTimeTick m \<and> set (lastUsed m') = set (lastUsed m) - {p} \<and>
    (p \<in> set (lastUsed m) \<longrightarrow> frame_of m' p \<noteq> None) \<and> (client_inv m \<longrightarrow> client_inv m') \<and> keeps m m'"
  proof (cases "map_of (allPages m) (t, i)")
    case None
    obtain m1 q where n: "new_bpage (Some t) i m = (m1, q)" by (cases "new_bpage (Some t) i m")
    have e: "m' = m1\<lparr>allPages := ((t, i), q) # allPages m1\<rparr>" "p = q"
      using assms(2) by (auto simp: find_page_def None n)
    note fresh = holds_new_page [OF assms(1) None n e(1)]
    have "bm_table (bpages m' q) = Some t" "bm_pos (bpages m' q) = i" "lastUsed m' = lastUsed m"
      "bm_pageSize m' = bm_pageSize m" "availableRam m' = availableRam m"
      using n by (auto simp: new_bpage_def e(1))
    moreover have "q \<notin> set (lastUsed m)" using fresh(4) calculation(3) by simp
    moreover have "keeps m m'" unfolding e(1) by (rule keeps_new_page(2) [OF n \<open>q \<notin> set (lastUsed m)\<close>])
    moreover have "client_inv m \<longrightarrow> client_inv m'" using client_new_page [OF _ mi None n] by (simp add: e(1))
    ultimately show ?thesis using fresh by (auto simp: e(2))
  next
    case (Some q)
    have q: "alive m q" "bm_table (bpages m q) = Some t" "bm_pos (bpages m q) = i"
      using map_alive [OF mi Some] mi Some by (auto simp: map_inv_def)
    let ?e = "m\<lparr>lastUsed := filter (\<lambda>r. r \<noteq> q) (lastUsed m)\<rparr>"
    have "filter (\<lambda>r. r \<noteq> q) (lastUsed m) = lastUsed m" if "q \<notin> set (lastUsed m)"
      using that by (auto simp: filter_id_conv)
    then have "?e = m" if "q \<notin> set (lastUsed m)" using that by simp
    then have e: "m' = ?e" "p = q"
      using assms(2) Some lru_count_iff [OF c q(1)] lru_erase_eq [OF c q(1)]
      by (auto simp: find_page_def)
    have "alive ?e q" using q(1) by (simp add: alive_def split: option.splits)
    moreover have "q \<in> set (lastUsed m) \<Longrightarrow> frame_of m q \<noteq> None" using c by (auto simp: clock_inv_def)
    moreover have "keeps m ?e" by (rule keeps_unlisted)
    moreover have "client_inv ?e = client_inv m" by (rule client_cong) auto
    ultimately show ?thesis using holds_unlisted [OF assms(1)] q by (auto simp: e)
  qed
  then show "holds S m'" "alive m' p" "bm_table (bpages m' p) = Some t" "bm_pos (bpages m' p) = i"
    "p \<notin> set (lastUsed m')" "bm_pageSize m' = bm_pageSize m" "availableRam m' = availableRam m"
    "lastTimeTick m' = lastTimeTick m" "set (lastUsed m') = set (lastUsed m) - {p}"
    "p \<in> set (lastUsed m) \<Longrightarrow> frame_of m' p \<noteq> None" "client_inv m \<Longrightarrow> client_inv m'" "keeps m m'" by blast+
qed

lemma open_file_fields [simp]:
  "availableRam (open_file t m) = availableRam m" "lastUsed (open_file t m) = lastUsed m"
  "lastTimeTick (open_file t m) = lastTimeTick m" "bm_pageSize (open_file t m) = bm_pageSize m"
  "bpages (open_file t m) = bpages m" "allPages (open_file t m) = allPages m"
  "nextPage (open_file t m) = nextPage m"
  by (simp_all add: open_file_def)

lemma new_handle_fields [simp]:
  "frame_of (new_handle p m) q = frame_of m q" "bm_table (bpages (new_handle p m) q) = bm_table (bpages m q)"
  "bm_pos (bpages (new_handle p m) q) = bm_pos (bpages m q)" "lastUsed (new_handle p m) = lastUsed m"
  by (simp_all add: new_handle_def on_page_def)

text \<open>A pinned page is buffered and off the replacement list.\<close>

lemma getPinnedPage_steps:
  assumes "holds S m" and "availableRam m \<noteq> [] \<or> lastUsed m \<noteq> [] \<or>
      (\<exists>p. map_of (allPages m) (t, i) = Some p \<and> frame_of m p \<noteq> None)"
  obtains m' p where "bm_getPinnedPage (Some t) i m = Inr (m', Some p)" "holds S m'" "alive m' p"
    "bm_table (bpages m' p) = Some t" "bm_pos (bpages m' p) = i" "frame_of m' p \<noteq> None" "p \<notin> set (lastUsed m')"
    "client_inv m \<longrightarrow> client_inv m'" "keeps m m'"
proof -
  let ?m = "open_file (Some t) m"
  have k0: "keeps m ?m" by (rule keepsI) (auto simp: pinned_def open_file_def)
  obtain m1 p where f: "find_page t i ?m = (m1, p)" by (cases "find_page t i ?m")
  note f1 = find_page_steps [OF holds_open_file [OF assms(1)] f]
  have c: "clock_inv m" using assms(1) by (simp add: holds_def bm_inv_def)
  have known: "frame_of m1 p = frame_of m q" if "map_of (allPages m) (t, i) = Some q" for q
    using f that by (auto simp: find_page_def lru_erase_def)
  show thesis
  proof (cases "frame_of m1 p")
    case (Some r)
    have "bm_getPinnedPage (Some t) i m = Inr (new_handle p m1, Some p)"
      by (simp add: bm_getPinnedPage_def f Some)
    moreover have "keeps m (new_handle p m1)" by (rule keeps_trans [OF k0 keeps_trans [OF f1(12) keeps_handle]])
    ultimately show thesis
      using that [of "new_handle p m1" p] handle_given [OF f1(1,2)] f1 Some client_handle [OF _ f1(2)] by simp
  next
    case None
    then have "p \<notin> set (lastUsed m)" using f1(10) by auto
    then have room: "availableRam m1 \<noteq> [] \<or> lastUsed m1 \<noteq> []"
      using assms(2) f1(7,9) known None by (auto simp flip: set_empty)
    obtain m2 where m2: "make_room m1 = Inr m2" "holds S m2" "availableRam m2 \<noteq> []"
      "\<And>q. frame_of m1 q = None \<Longrightarrow> alive m2 q = alive m1 q \<and> bpages m2 q = bpages m1 q"
      "client_inv m1 \<longrightarrow> client_inv m2" "keeps m1 m2" "set (lastUsed m2) \<subseteq> set (lastUsed m1)"
      using make_room_steps [OF f1(1) room] by metis
    have p2: "alive m2 p" "bpages m2 p = bpages m1 p" using m2(4) [OF None] f1(2) by auto
    let ?m3 = "read_frame p (last (availableRam m2)) (take_frame p m2)"
    have none: "frame_of m2 p = None" using p2(2) None by simp
    note l = holds_load [OF m2(2) p2(1) none m2(3) refl]
    have same: "bm_table (bpages ?m3 p) = Some t" "bm_pos (bpages ?m3 p) = i"
      using p2(2) f1(3,4) by (simp_all add: read_frame_def take_frame_def on_page_def Let_def)
    have "bm_getPinnedPage (Some t) i m = Inr (new_handle p ?m3, Some p)"
      by (simp add: bm_getPinnedPage_def f None m2(1,3) Let_def)
    moreover have "keeps m (new_handle p ?m3)"
      by (rule keeps_trans [OF k0 keeps_trans [OF f1(12) keeps_trans [OF m2(6) keeps_trans [OF keeps_load [OF none] keeps_handle]]]])
    moreover have "client_inv m \<longrightarrow> client_inv (new_handle p ?m3)"
      using client_handle [OF _ l(2)] m2(5) f1(11) by simp
    ultimately show thesis
      using that [of "new_handle p ?m3" p] handle_given [OF l(1,2)] l same by simp
  qed
qed

lemma getPinnedTempPage_steps:
  assumes "holds S m" and "availableRam m \<noteq> [] \<or> lastUsed m \<noteq> []"
  obtains m' p where "bm_getPinnedTempPage m = Inr (m', Some p)" "holds S m'" "alive m' p"
    "bm_table (bpages m' p) = None" "frame_of m' p \<noteq> None" "p \<notin> set (lastUsed m')"
    "client_inv m \<longrightarrow> client_inv m'" "keeps m m'"
proof -
  obtain m1 where m1: "make_room m = Inr m1" "holds S m1" "availableRam m1 \<noteq> []"
    "client_inv m \<longrightarrow> client_inv m1" "keeps m m1"
    using make_room_steps [OF assms] by metis
  obtain m2 p where t: "bm_getTempPage m1 = (m2, p)" by (cases "bm_getTempPage m1")
  note t2 = getTempPage_steps [OF m1(2) t]
  have same: "take_frame p m2 = given_frame p (ram m2 (last (availableRam m2))) m2"
    by (simp add: given_frame_def fun_upd_triv)
  have avail: "availableRam m2 \<noteq> []" using t2(5) m1(3) by simp
  have "holds S (take_frame p m2) \<and> alive (take_frame p m2) p \<and> frame_of (take_frame p m2) p \<noteq> None \<and>
      p \<notin> set (lastUsed (take_frame p m2))"
    using holds_given [OF t2(1,2,3) avail refl same last_frame(2) [OF t2(1) avail]] t2(4) by simp
  moreover have "bm_table (bpages (take_frame p m2) p) = None" using t2(4) by (simp add: take_frame_def on_page_def)
  moreover have "bm_getPinnedTempPage m = Inr (take_frame p m2, Some p)"
    by (simp add: bm_getPinnedTempPage_def m1(1,3) t)
  moreover have "keeps m (take_frame p m2)"
    by (rule keeps_trans [OF m1(5) keeps_trans [OF t2(8) keeps_take [OF t2(3)]]])
  moreover have "client_inv m \<longrightarrow> client_inv (take_frame p m2)" using m1(4) t2(7) by simp
  ultimately show thesis using that by blast
qed

lemma unpin_steps:
  assumes "holds S m" and "alive m p" and "frame_of m p \<noteq> None" and "p \<notin> set (lastUsed m)" and "room_in_clock m"
  shows "bm_unpin p m = Inr (lru_stamp p m)" "holds S (lru_stamp p m)"
  using assms holds_stamped by (auto simp: bm_unpin_def)

text \<open>The first state: every frame is free, and the files hold what they hold.\<close>

lemma holds_new:
  assumes "\<And>r. length (rm r) = psz"
  shows "holds (\<lambda>(t, i). if (i + 1) * psz \<le> length (fs (Some t)) then Some (take psz (drop (i * psz) (fs (Some t)))) else None)
    (bm_new psz n rm fs raw)"
proof -
  let ?m = "bm_new psz n rm fs raw"
  have dead: "\<not> alive ?m p" for p by (simp add: alive_def bm_new_def)
  have "frames_inv ?m" using assms by (simp add: frames_inv_def dead) (simp add: bm_new_def)
  moreover have "clock_inv ?m" by (simp add: clock_inv_def dead) (simp add: bm_new_def)
  moreover have "map_inv ?m" by (simp add: map_inv_def bm_new_def)
  moreover have "kept ?m (t, i) (take psz (drop (i * psz) (fs (Some t))))" if "(i + 1) * psz \<le> length (fs (Some t))" for t i
    using that by (simp add: kept_def on_disk_def disk_chunk_def bm_new_def)
  ultimately show ?thesis by (auto simp: holds_def bm_inv_def split: if_splits)
qed

end
