(* ===== verification/BufferManagerResults.thy ===== *)
theory BufferManagerResults
  imports BufferManagerOps
begin

text \<open>
  Clients of the buffer manager as sequences of operations, and what holds of every state they reach:
  the contents a client reads, the pages that keep their frame, and the error when no frame is left.
\<close>

section \<open>Sequences of client operations\<close>

datatype bm_op =
    GetPage nat nat
  | GetTempPage
  | GetPinnedPage nat nat
  | GetPinnedTempPage
  | Unpin nat
  | GetBytes nat
  | WriteBytes nat "byte list"
  | FlushPage nat
  | DropHandle nat

fun bm_apply :: "bm_op \<Rightarrow> bm \<Rightarrow> bm outcome" where
  "bm_apply (GetPage t i) m = andThen (bm_getPage (Some t) i m) (\<lambda>x. Inr (fst x))"
| "bm_apply GetTempPage m = Inr (fst (bm_getTempPage m))"
| "bm_apply (GetPinnedPage t i) m = andThen (bm_getPinnedPage (Some t) i m) (\<lambda>x. Inr (fst x))"
| "bm_apply GetPinnedTempPage m = andThen (bm_getPinnedTempPage m) (\<lambda>x. Inr (fst x))"
| "bm_apply (Unpin p) m = bm_unpin p m"
| "bm_apply (GetBytes p) m = andThen (read_page p m) (\<lambda>x. Inr (fst x))"
| "bm_apply (WriteBytes p bs) m = write_page p bs m"
| "bm_apply (FlushPage p) m = Inr (bm_flush p m)"
| "bm_apply (DropHandle p) m = Inr (release_handle p m)"

text \<open>What a client must respect: it uses pages it has a handle for, unpins only pinned pages and
  stores whole pages.  The clock has room for \<open>2 ^ 63 - 1\<close> accesses.\<close>

definition has_handle :: "bm \<Rightarrow> nat \<Rightarrow> bool" where
  "has_handle m p = (p < nextPage m \<and> bm_refs (bpages m p) > 0)"

fun op_ok :: "bm_op \<Rightarrow> bm \<Rightarrow> bool" where
  "op_ok (Unpin p) m = (pinned m p \<and> room_in_clock m)"
| "op_ok (GetBytes p) m = (has_handle m p \<and> room_in_clock m)"
| "op_ok (WriteBytes p bs) m = (has_handle m p \<and> room_in_clock m \<and> length bs = bm_pageSize m)"
| "op_ok (FlushPage p) m = has_handle m p"
| "op_ok (DropHandle p) m = (has_handle m p \<and> room_in_clock m)"
| "op_ok _ m = True"

text \<open>The contents the tables should have: a store of bytes changes them, nothing else does.\<close>

fun after_op :: "bm_op \<Rightarrow> bm \<Rightarrow> (nat \<times> nat \<Rightarrow> byte list option) \<Rightarrow> nat \<times> nat \<Rightarrow> byte list option" where
  "after_op (WriteBytes p bs) m S = (case bm_table (bpages m p) of None \<Rightarrow> S
     | Some t \<Rightarrow> S((t, bm_pos (bpages m p)) \<mapsto> bs))"
| "after_op _ m S = S"

definition disk_pages :: "nat \<Rightarrow> (nat option \<Rightarrow> byte list) \<Rightarrow> nat \<times> nat \<Rightarrow> byte list option" where
  "disk_pages psz fs = (\<lambda>(t, i). if (i + 1) * psz \<le> length (fs (Some t))
     then Some (take psz (drop (i * psz) (fs (Some t)))) else None)"

inductive bm_reach :: "(nat \<times> nat \<Rightarrow> byte list option) \<Rightarrow> bm \<Rightarrow> bool" where
  start: "(\<And>r. length (rm r) = psz) \<Longrightarrow> bm_reach (disk_pages psz fs) (bm_new psz n rm fs raw)"
| step: "bm_reach S m \<Longrightarrow> op_ok op m \<Longrightarrow> bm_apply op m = Inr m' \<Longrightarrow> bm_reach (after_op op m S) m'"

section \<open>Every step keeps the invariant\<close>

lemma has_handle_alive: "client_inv m \<Longrightarrow> has_handle m p \<Longrightarrow> alive m p"
  by (simp add: client_inv_def has_handle_def)

lemma no_room_access:
  assumes "holds S m" and "alive m p" and "frame_of m p = None" and "availableRam m = []" and "lastUsed m = []"
  shows "access p m = Inl WildAccess"
  using assms by (simp add: access_def lru_count_def make_room_def kickOutPage_def)

lemma read_page_steps:
  assumes "holds S m" and "alive m p" and "room_in_clock m"
    and "frame_of m p \<noteq> None \<or> availableRam m \<noteq> [] \<or> lastUsed m \<noteq> []"
  obtains m' r where "access p m = Inr m'" "read_page p m = Inr (m', ram m' r)" "holds S m'" "alive m' p"
    "frame_of m' p = Some r" "bm_table (bpages m' p) = bm_table (bpages m p)"
    "bm_pos (bpages m' p) = bm_pos (bpages m p)" "bm_pageSize m' = bm_pageSize m"
    "client_inv m \<longrightarrow> client_inv m'" "keeps m m'"
proof -
  obtain m1 where m1: "access p m = Inr m1" "holds S m1" "alive m1 p" "frame_of m1 p \<noteq> None"
    "bm_table (bpages m1 p) = bm_table (bpages m p)" "bm_pos (bpages m1 p) = bm_pos (bpages m p)"
    "bm_pageSize m1 = bm_pageSize m" "client_inv m \<longrightarrow> client_inv m1" "keeps m m1"
    using access_steps [OF assms] by metis
  then obtain r where "frame_of m1 p = Some r" by auto
  then show thesis using that [of m1 r] m1 by (simp add: read_page_def)
qed

text \<open>The pages of other clients stay pinned in their frames.\<close>

definition keeps_others :: "bm_op \<Rightarrow> bm \<Rightarrow> bm \<Rightarrow> bool" where
  "keeps_others op m m' = (\<forall>q. pinned m q \<and> op \<noteq> Unpin q \<and> op \<noteq> DropHandle q \<longrightarrow>
     pinned m' q \<and> frame_of m' q = frame_of m q)"

lemma keeps_others_keeps [intro]: "keeps m m' \<Longrightarrow> keeps_others op m m'"
  by (auto simp: keeps_others_def keeps_def)

definition sound_step :: "(nat \<times> nat \<Rightarrow> byte list option) \<Rightarrow> bm_op \<Rightarrow> bm \<Rightarrow> bm \<Rightarrow> bool" where
  "sound_step S op m m' = (holds (after_op op m S) m' \<and> client_inv m' \<and> keeps_others op m m')"

lemma sound_get:
  assumes "holds S m" and "client_inv m"
  shows "bm_apply (GetPage t i) m = Inr m' \<Longrightarrow> sound_step S (GetPage t i) m m'"
    and "bm_apply GetTempPage m = Inr m' \<Longrightarrow> sound_step S GetTempPage m m'"
proof -
  obtain m1 p where "bm_getPage (Some t) i m = Inr (m1, p)" "holds S m1" "client_inv m1" "keeps m m1"
    using getPage_steps [OF assms(1), of t i] assms(2) by blast
  then show "bm_apply (GetPage t i) m = Inr m' \<Longrightarrow> sound_step S (GetPage t i) m m'"
    by (auto simp: sound_step_def)
  obtain m2 q where "bm_getTempPage m = (m2, q)" by (cases "bm_getTempPage m")
  then show "bm_apply GetTempPage m = Inr m' \<Longrightarrow> sound_step S GetTempPage m m'"
    using getTempPage_steps [OF assms(1)] assms(2) by (auto simp: sound_step_def)
qed

lemma no_room_pinned:
  assumes "availableRam m = []" and "lastUsed m = []"
    and "\<And>p. map_of (allPages m) (t, i) = Some p \<Longrightarrow> frame_of m p = None"
  shows "bm_getPinnedPage (Some t) i m = Inl WildAccess" "bm_getPinnedTempPage m = Inl WildAccess"
proof -
  obtain m1 p where f: "find_page t i (open_file (Some t) m) = (m1, p)" by (cases "find_page t i (open_file (Some t) m)")
  then have "frame_of m1 p = None" "availableRam m1 = []" "lastUsed m1 = []"
    using assms by (auto simp: find_page_def new_bpage_def lru_erase_def split: option.splits if_splits)
  then show "bm_getPinnedPage (Some t) i m = Inl WildAccess"
    by (simp add: bm_getPinnedPage_def f make_room_def kickOutPage_def)
  show "bm_getPinnedTempPage m = Inl WildAccess"
    using assms by (simp add: bm_getPinnedTempPage_def make_room_def kickOutPage_def)
qed

lemma sound_pinned:
  assumes "holds S m" and "client_inv m"
  shows "bm_apply (GetPinnedPage t i) m = Inr m' \<Longrightarrow> sound_step S (GetPinnedPage t i) m m'"
    and "bm_apply GetPinnedTempPage m = Inr m' \<Longrightarrow> sound_step S GetPinnedTempPage m m'"
proof -
  let ?known = "\<exists>p. map_of (allPages m) (t, i) = Some p \<and> frame_of m p \<noteq> None"
  show "sound_step S (GetPinnedPage t i) m m'" if "bm_apply (GetPinnedPage t i) m = Inr m'"
  proof -
    have room: "availableRam m \<noteq> [] \<or> lastUsed m \<noteq> [] \<or> ?known"
    proof (rule ccontr)
      assume "\<not> ?thesis"
      then have "bm_getPinnedPage (Some t) i m = Inl WildAccess" by (intro no_room_pinned(1)) auto
      then show False using that by simp
    qed
    obtain m1 p where "bm_getPinnedPage (Some t) i m = Inr (m1, Some p)" "holds S m1"
      "client_inv m \<longrightarrow> client_inv m1" "keeps m m1"
      using getPinnedPage_steps [OF assms(1) room] by metis
    then show ?thesis using that assms(2) by (auto simp: sound_step_def)
  qed
  show "sound_step S GetPinnedTempPage m m'" if "bm_apply GetPinnedTempPage m = Inr m'"
  proof -
    have room: "availableRam m \<noteq> [] \<or> lastUsed m \<noteq> []"
      using that by (auto simp: bm_getPinnedTempPage_def make_room_def kickOutPage_def)
    obtain m1 p where "bm_getPinnedTempPage m = Inr (m1, Some p)" "holds S m1"
      "client_inv m \<longrightarrow> client_inv m1" "keeps m m1"
      using getPinnedTempPage_steps [OF assms(1) room] by metis
    then show ?thesis using that assms(2) by (auto simp: sound_step_def)
  qed
qed

lemma room_when_accessed:
  assumes "holds S m" and "alive m p" and "access p m = Inr m'"
  shows "frame_of m p \<noteq> None \<or> availableRam m \<noteq> [] \<or> lastUsed m \<noteq> []"
  using no_room_access [OF assms(1,2)] assms(3) by auto

lemma sound_bytes:
  assumes "holds S m" and "client_inv m"
  shows "op_ok (GetBytes p) m \<Longrightarrow> bm_apply (GetBytes p) m = Inr m' \<Longrightarrow> sound_step S (GetBytes p) m m'"
    and "op_ok (WriteBytes p bs) m \<Longrightarrow> bm_apply (WriteBytes p bs) m = Inr m' \<Longrightarrow> sound_step S (WriteBytes p bs) m m'"
proof -
  show "sound_step S (GetBytes p) m m'" if ok: "op_ok (GetBytes p) m" and app: "bm_apply (GetBytes p) m = Inr m'"
  proof -
    have al: "alive m p" "room_in_clock m" using ok has_handle_alive [OF assms(2)] by auto
    obtain n where acc: "access p m = Inr n" using app by (cases "access p m") (auto simp: read_page_def)
    obtain m1 r where "read_page p m = Inr (m1, ram m1 r)" "holds S m1" "client_inv m \<longrightarrow> client_inv m1" "keeps m m1"
      using read_page_steps [OF assms(1) al room_when_accessed [OF assms(1) al(1) acc]] by metis
    then show ?thesis using app assms(2) by (auto simp: sound_step_def)
  qed
  show "sound_step S (WriteBytes p bs) m m'" if ok: "op_ok (WriteBytes p bs) m" and app: "bm_apply (WriteBytes p bs) m = Inr m'"
  proof -
    have al: "alive m p" "room_in_clock m" "length bs = bm_pageSize m" using ok has_handle_alive [OF assms(2)] by auto
    obtain n where acc: "access p m = Inr n" using app by (cases "access p m") (auto simp: write_page_def)
    obtain m1 r where m1: "access p m = Inr m1" "holds S m1" "alive m1 p" "frame_of m1 p = Some r"
      "bm_table (bpages m1 p) = bm_table (bpages m p)" "bm_pos (bpages m1 p) = bm_pos (bpages m p)"
      "bm_pageSize m1 = bm_pageSize m" "client_inv m \<longrightarrow> client_inv m1" "keeps m m1"
      using read_page_steps [OF assms(1) al(1,2) room_when_accessed [OF assms(1) al(1) acc]] by metis
    let ?w = "wroteBytes p (m1\<lparr>ram := (ram m1)(r := bs)\<rparr>)"
    have m': "m' = ?w" using app m1(1,4) by (simp add: write_page_def)
    have len: "length bs = bm_pageSize m1" using al(3) m1(7) by simp
    have "client_inv ?w = client_inv m1" by (rule client_cong) (simp_all add: wroteBytes_def on_page_def)
    moreover have "keeps m ?w"
      by (rule keeps_trans [OF m1(9)]) (auto simp: keeps_def pinned_def wroteBytes_def on_page_def)
    moreover have "holds (after_op (WriteBytes p bs) m S) ?w"
      using holds_written [OF m1(2,3,4) len refl refl] m1(5,6) by (simp split: option.splits)
    ultimately show ?thesis using m1(8) assms(2) by (auto simp: sound_step_def m')
  qed
qed

lemma sound_rest:
  assumes "holds S m" and "client_inv m"
  shows "op_ok (Unpin p) m \<Longrightarrow> bm_apply (Unpin p) m = Inr m' \<Longrightarrow> sound_step S (Unpin p) m m'"
    and "op_ok (FlushPage p) m \<Longrightarrow> bm_apply (FlushPage p) m = Inr m' \<Longrightarrow> sound_step S (FlushPage p) m m'"
    and "op_ok (DropHandle p) m \<Longrightarrow> bm_apply (DropHandle p) m = Inr m' \<Longrightarrow> sound_step S (DropHandle p) m m'"
proof -
  show "sound_step S (Unpin p) m m'" if ok: "op_ok (Unpin p) m" and app: "bm_apply (Unpin p) m = Inr m'"
  proof -
    have p: "alive m p" "frame_of m p \<noteq> None" "p \<notin> set (lastUsed m)" "room_in_clock m"
      using ok has_handle_alive [OF assms(2)] by (auto simp: pinned_def has_handle_def)
    then have "m' = lru_stamp p m" "holds S (lru_stamp p m)" using unpin_steps [OF assms(1) p] app by auto
    moreover have "keeps_others (Unpin p) m (lru_stamp p m)"
      by (auto simp: keeps_others_def pinned_def lru_stamp_def on_page_def)
    ultimately show ?thesis using assms(2) by (simp add: sound_step_def)
  qed
  show "sound_step S (FlushPage p) m m'" if ok: "op_ok (FlushPage p) m" and app: "bm_apply (FlushPage p) m = Inr m'"
  proof -
    have "keeps m (bm_flush p m)"
      by (auto simp: keeps_def pinned_def bm_flush_def clean_page_def on_page_def Let_def)
    then show ?thesis
      using app holds_flush [OF assms(1) has_handle_alive [OF assms(2)]] ok assms(2) by (auto simp: sound_step_def)
  qed
  show "sound_step S (DropHandle p) m m'" if ok: "op_ok (DropHandle p) m" and app: "bm_apply (DropHandle p) m = Inr m'"
  proof -
    have p: "alive m p" "bm_refs (bpages m p) > 0" "room_in_clock m"
      using ok has_handle_alive [OF assms(2)] by (auto simp: has_handle_def)
    then show ?thesis
      using app holds_released [OF assms(1) p] client_released [OF assms(2) p(1)]
      by (auto simp: sound_step_def keeps_others_def)
  qed
qed

lemma bm_apply_sound:
  assumes "holds S m" and "client_inv m" and "op_ok op m" and "bm_apply op m = Inr m'"
  shows "sound_step S op m m'"
proof (cases op)
  case (GetPage t i)
  then show ?thesis using assms(4) sound_get(1) [OF assms(1,2)] by blast
next
  case GetTempPage
  then show ?thesis using assms(4) sound_get(2) [OF assms(1,2)] by blast
next
  case (GetPinnedPage t i)
  then show ?thesis using assms(4) sound_pinned(1) [OF assms(1,2)] by blast
next
  case GetPinnedTempPage
  then show ?thesis using assms(4) sound_pinned(2) [OF assms(1,2)] by blast
next
  case (Unpin p)
  then show ?thesis using assms(3,4) sound_rest(1) [OF assms(1,2)] by blast
next
  case (GetBytes p)
  then show ?thesis using assms(3,4) sound_bytes(1) [OF assms(1,2)] by blast
next
  case (WriteBytes p bs)
  then show ?thesis using assms(3,4) sound_bytes(2) [OF assms(1,2)] by blast
next
  case (FlushPage p)
  then show ?thesis using assms(3,4) sound_rest(2) [OF assms(1,2)] by blast
next
  case (DropHandle p)
  then show ?thesis using assms(3,4) sound_rest(3) [OF assms(1,2)] by blast
qed

lemma reach_inv: "bm_reach S m \<Longrightarrow> holds S m \<and> client_inv m"
proof (induction rule: bm_reach.induct)
  case (start rm psz fs n raw)
  then show ?case
    using holds_new [of rm psz fs n raw] by (auto simp: disk_pages_def client_inv_def bm_new_def)
next
  case (step S m op m')
  then show ?case using bm_apply_sound [of S m op m'] by (simp add: sound_step_def)
qed

section \<open>Properties\<close>

text \<open>One frame of two bytes, a table file of two pages, and sequences of operations on it.\<close>

definition one_frame :: bm where
  "one_frame = bm_new 2 1 (\<lambda>_. [0, 0]) ((\<lambda>_. [])(Some 7 := [1, 2, 3, 4]))
     (\<lambda>_. \<lparr>bm_bytes = None, bm_dirty = False, bm_table = None, bm_pos = 0, timeTick = 0, bm_refs = 0\<rparr>)"

fun bm_run :: "bm_op list \<Rightarrow> bm \<Rightarrow> bm outcome" where
  "bm_run [] m = Inr m"
| "bm_run (op # ops) m = (if op_ok op m then andThen (bm_apply op m) (bm_run ops) else Inl NullDeref)"

fun after_run :: "bm_op list \<Rightarrow> bm \<Rightarrow> (nat \<times> nat \<Rightarrow> byte list option) \<Rightarrow> nat \<times> nat \<Rightarrow> byte list option" where
  "after_run [] m S = S"
| "after_run (op # ops) m S = (case bm_apply op m of Inl e \<Rightarrow> S | Inr m' \<Rightarrow> after_run ops m' (after_op op m S))"

lemma run_reach: "bm_reach S m \<Longrightarrow> bm_run ops m = Inr m' \<Longrightarrow> bm_reach (after_run ops m S) m'"
proof (induction ops arbitrary: S m)
  case (Cons op ops)
  then obtain m1 where m1: "op_ok op m" "bm_apply op m = Inr m1" "bm_run ops m1 = Inr m'"
    by (cases "bm_apply op m") (auto split: if_splits)
  then show ?case using Cons.IH [OF step [OF Cons.prems(1) m1(1,2)] m1(3)] by simp
qed simp

definition one_disk :: "nat option \<Rightarrow> byte list" where
  "one_disk = (\<lambda>_. [])(Some 7 := [1, 2, 3, 4])"

lemma one_reached: "bm_run ops one_frame = Inr m \<Longrightarrow> bm_reach (after_run ops one_frame (disk_pages 2 one_disk)) m"
  unfolding one_frame_def one_disk_def by (rule run_reach [OF start]) simp_all

definition two_pages :: "bm_op list" where
  "two_pages = [GetPage 7 0, GetPage 7 1, WriteBytes 0 [9, 9], GetBytes 1]"

definition pin_last :: "bm_op list" where
  "pin_last = [GetPage 7 0, GetPinnedPage 7 1]"

definition run_then :: "bm_op list \<Rightarrow> (bm \<Rightarrow> bool) \<Rightarrow> bool" where
  "run_then ops P = (case bm_run ops one_frame of Inl _ \<Rightarrow> False | Inr m \<Rightarrow> P m)"

lemma run_thenE:
  assumes "run_then ops P"
  obtains m where "bm_run ops one_frame = Inr m" "P m" "bm_reach (after_run ops one_frame (disk_pages 2 one_disk)) m"
  using assms one_reached by (auto simp: run_then_def split: sum.splits)

lemma two_pages_store: "after_run two_pages one_frame (disk_pages 2 one_disk) (7, 0) = Some [9, 9]"
  by code_simp

text \<open>C11: In every state that clients reach, the bytes a client reads through a handle of a table page
  are the bytes last stored in that page, by any client, or else what the table file held; eviction,
  write-back and reloading in between are not seen.\<close>

theorem reads_are_current:
  assumes "bm_reach S m" and "op_ok (GetBytes p) m" and "read_page p m = Inr (m', cs)"
    and "bm_table (bpages m p) = Some t" and "S (t, bm_pos (bpages m p)) = Some bs"
  shows "cs = bs"
proof -
  have inv: "holds S m" "client_inv m" using reach_inv [OF assms(1)] by auto
  have al: "alive m p" "room_in_clock m" using assms(2) has_handle_alive [OF inv(2)] by auto
  obtain n where acc: "access p m = Inr n" using assms(3) by (cases "access p m") (auto simp: read_page_def)
  obtain m1 r where m1: "read_page p m = Inr (m1, ram m1 r)" "holds S m1" "alive m1 p" "frame_of m1 p = Some r"
    "bm_table (bpages m1 p) = bm_table (bpages m p)" "bm_pos (bpages m1 p) = bm_pos (bpages m p)"
    using read_page_steps [OF inv(1) al room_when_accessed [OF inv(1) al(1) acc]] by metis
  then have "map_of (allPages m1) (t, bm_pos (bpages m p)) = Some p" using assms(4) by (simp add: alive_def)
  moreover have "kept m1 (t, bm_pos (bpages m p)) bs" using m1(2) assms(5) by (simp add: holds_def)
  ultimately show ?thesis using m1(1,4) assms(3) by (simp add: kept_def)
qed

theorem reads_are_current_witness:
  "run_then two_pages (\<lambda>m. case read_page 0 m of Inl _ \<Rightarrow> False | Inr (_, cs) \<Rightarrow> cs = [9, 9])"
proof -
  have "run_then two_pages (\<lambda>m. op_ok (GetBytes 0) m \<and> bm_table (bpages m 0) = Some 7 \<and> bm_pos (bpages m 0) = 0
      \<and> (case read_page 0 m of Inl _ \<Rightarrow> False | Inr _ \<Rightarrow> True))"
    by code_simp
  then obtain m where m: "bm_run two_pages one_frame = Inr m" "op_ok (GetBytes 0) m" "bm_table (bpages m 0) = Some 7"
    "bm_pos (bpages m 0) = 0" "case read_page 0 m of Inl _ \<Rightarrow> False | Inr _ \<Rightarrow> True"
    "bm_reach (after_run two_pages one_frame (disk_pages 2 one_disk)) m"
    by (auto elim: run_thenE)
  then show ?thesis
    using reads_are_current [OF m(6,2) _ m(3)] two_pages_store by (auto simp: run_then_def split: sum.splits)
qed

text \<open>Some frame is free, or held by a page on the replacement list.\<close>

definition some_frame_left :: "bm \<Rightarrow> bool" where
  "some_frame_left m = (\<exists>r < numPages m. \<forall>q. alive m q \<and> frame_of m q = Some r \<longrightarrow> q \<in> set (lastUsed m))"

lemma some_frame_left_iff:
  assumes "holds S m"
  shows "some_frame_left m \<longleftrightarrow> availableRam m \<noteq> [] \<or> lastUsed m \<noteq> []"
proof
  have f: "frames_inv m" and c: "clock_inv m" using assms by (auto simp: holds_def bm_inv_def)
  assume "some_frame_left m"
  then obtain r where r: "r < numPages m" "\<And>q. alive m q \<Longrightarrow> frame_of m q = Some r \<Longrightarrow> q \<in> set (lastUsed m)"
    unfolding some_frame_left_def by blast
  have "r \<in> set (availableRam m) \<or> (\<exists>q. alive m q \<and> frame_of m q = Some r)"
    using f r(1) unfolding frames_inv_def by blast
  then show "availableRam m \<noteq> [] \<or> lastUsed m \<noteq> []"
  proof
    assume "\<exists>q. alive m q \<and> frame_of m q = Some r"
    then obtain q where "q \<in> set (lastUsed m)" using r(2) by blast
    then show ?thesis by (cases "lastUsed m") auto
  qed (cases "availableRam m"; simp)
next
  have f: "frames_inv m" and c: "clock_inv m" using assms by (auto simp: holds_def bm_inv_def)
  assume "availableRam m \<noteq> [] \<or> lastUsed m \<noteq> []"
  then consider r where "r \<in> set (availableRam m)" | p where "p \<in> set (lastUsed m)"
    by (metis list.set_intros(1) neq_Nil_conv)
  then show "some_frame_left m"
  proof cases
    case 1
    have "r < numPages m" using f 1 unfolding frames_inv_def by blast
    moreover have "frame_of m q \<noteq> Some r" if "alive m q" for q using f 1 that unfolding frames_inv_def by blast
    ultimately show ?thesis unfolding some_frame_left_def by blast
  next
    case 2
    then obtain r where r: "alive m p" "frame_of m p = Some r" using c by (auto simp: clock_inv_def)
    then have "r < numPages m" using f unfolding frames_inv_def by blast
    moreover have "q = p" if "alive m q" "frame_of m q = Some r" for q
      using f that r unfolding frames_inv_def by blast
    ultimately show ?thesis using 2 unfolding some_frame_left_def by blast
  qed
qed

text \<open>C28: A client that asks a handle for the bytes gets them exactly when the page has a frame already or
  some frame is free or held by a page that is not pinned; otherwise the manager reads the front of an
  empty replacement list.\<close>

theorem access_succeeds_iff:
  assumes "bm_reach S m" and "op_ok (GetBytes p) m"
  shows "if frame_of m p \<noteq> None \<or> some_frame_left m then \<exists>m' bs. read_page p m = Inr (m', bs)
    else read_page p m = Inl WildAccess"
proof -
  have inv: "holds S m" "client_inv m" using reach_inv [OF assms(1)] by auto
  have al: "alive m p" "room_in_clock m" using assms(2) has_handle_alive [OF inv(2)] by auto
  note left = some_frame_left_iff [OF inv(1)]
  have bad: "read_page p m = Inl WildAccess" if "\<not> (frame_of m p \<noteq> None \<or> some_frame_left m)"
    using no_room_access [OF inv(1) al(1)] that left by (simp add: read_page_def)
  have "\<exists>m' bs. read_page p m = Inr (m', bs)" if "frame_of m p \<noteq> None \<or> some_frame_left m"
    using read_page_steps [OF inv(1) al] that left by metis
  then show ?thesis using bad by simp
qed

theorem access_succeeds_iff_witness:
  "run_then pin_last (\<lambda>m. read_page 0 m = Inl WildAccess \<and> (\<exists>m' bs. read_page 1 m = Inr (m', bs)))"
proof -
  have "run_then pin_last (\<lambda>m. op_ok (GetBytes 0) m \<and> op_ok (GetBytes 1) m \<and> availableRam m = [] \<and> lastUsed m = []
      \<and> frame_of m 0 = None \<and> frame_of m 1 = Some 0)"
    by code_simp
  then obtain m where m: "bm_run pin_last one_frame = Inr m" "op_ok (GetBytes 0) m" "op_ok (GetBytes 1) m"
    "availableRam m = []" "lastUsed m = []" "frame_of m 0 = None" "frame_of m 1 = Some 0"
    "bm_reach (after_run pin_last one_frame (disk_pages 2 one_disk)) m"
    by (auto elim: run_thenE)
  have "\<not> some_frame_left m" using some_frame_left_iff [of _ m] reach_inv [OF m(8)] m(4,5) by blast
  then show ?thesis
    using access_succeeds_iff [OF m(8,2)] access_succeeds_iff [OF m(8,3)] m(1,6,7) by (simp add: run_then_def)
qed

text \<open>C27: A pinned page keeps its frame, and stays pinned, over every operation of every client except the
  release of a handle for it and its own unpinning.\<close>

theorem pinned_page_stays:
  assumes "bm_reach S m" and "pinned m q" and "op_ok op m" and "bm_apply op m = Inr m'"
    and "op \<noteq> Unpin q" and "op \<noteq> DropHandle q"
  shows "pinned m' q \<and> frame_of m' q = frame_of m q"
  using bm_apply_sound [of S m op m'] reach_inv [OF assms(1)] assms
  by (auto simp: sound_step_def keeps_others_def)

theorem pinned_page_stays_witness:
  "run_then pin_last (\<lambda>m. case bm_apply (GetPage 7 0) m of Inl _ \<Rightarrow> False | Inr m' \<Rightarrow> pinned m' 1 \<and> frame_of m' 1 = Some 0)"
proof -
  have "run_then pin_last (\<lambda>m. pinned m 1 \<and> frame_of m 1 = Some 0
      \<and> (case bm_apply (GetPage 7 0) m of Inl _ \<Rightarrow> False | Inr _ \<Rightarrow> True))"
    by code_simp
  then obtain m where m: "bm_run pin_last one_frame = Inr m" "pinned m 1" "frame_of m 1 = Some 0"
    "case bm_apply (GetPage 7 0) m of Inl _ \<Rightarrow> False | Inr _ \<Rightarrow> True"
    "bm_reach (after_run pin_last one_frame (disk_pages 2 one_disk)) m"
    by (auto elim: run_thenE)
  then show ?thesis
    using pinned_page_stays [OF m(5,2), of "GetPage 7 0"] by (auto simp: run_then_def split: sum.splits)
qed

text \<open>The header promises a null handle when a pinned page is asked for and every frame is pinned; in
  every such state the code reads the front of an empty replacement list instead.\<close>

theorem exhausted_pin_is_wild:
  assumes "bm_reach S m" and "\<not> some_frame_left m"
    and "\<And>p. map_of (allPages m) (t, i) = Some p \<Longrightarrow> frame_of m p = None"
  shows "bm_getPinnedPage (Some t) i m = Inl WildAccess \<and> bm_getPinnedTempPage m = Inl WildAccess"
proof -
  have "availableRam m = []" "lastUsed m = []"
    using assms(2) some_frame_left_iff [of S m] reach_inv [OF assms(1)] by auto
  then show ?thesis using no_room_pinned [of m t i] assms(3) by blast
qed

theorem exhausted_pin_is_wild_witness:
  "run_then pin_last (\<lambda>m. bm_getPinnedPage (Some 7) 0 m = Inl WildAccess)"
proof -
  have "run_then pin_last (\<lambda>m. availableRam m = [] \<and> lastUsed m = [] \<and> map_of (allPages m) (7, 0) = Some 0
      \<and> frame_of m 0 = None)"
    by code_simp
  then obtain m where m: "bm_run pin_last one_frame = Inr m" "availableRam m = []" "lastUsed m = []"
    "map_of (allPages m) (7, 0) = Some 0" "frame_of m 0 = None"
    "bm_reach (after_run pin_last one_frame (disk_pages 2 one_disk)) m"
    by (auto elim: run_thenE)
  have "\<not> some_frame_left m" using some_frame_left_iff [of _ m] reach_inv [OF m(6)] m(2,3) by blast
  then show ?thesis using exhausted_pin_is_wild [OF m(6), of 7 0] m(1,4,5) by (simp add: run_then_def)
qed

text \<open>Replacement takes the frame of the page with the smallest clock value among the pages that are
  not pinned, and touches no other page object.\<close>

theorem kickOutPage_takes_oldest:
  assumes "bm_reach S m" and "lastUsed m \<noteq> []"
  shows "\<exists>p m'. kickOutPage m = Inr m' \<and> p \<in> set (lastUsed m) \<and> frame_of m p \<noteq> None \<and> frame_of m' p = None \<and>
    (\<forall>q. alive m q \<and> frame_of m q \<noteq> None \<and> q \<noteq> p \<longrightarrow>
      bpages m' q = bpages m q \<and> (q \<in> set (lastUsed m) \<longrightarrow> tick_of m p < tick_of m q))"
proof -
  have inv: "holds S m" using reach_inv [OF assms(1)] by simp
  obtain p rest where lru: "lastUsed m = p # rest" using assms(2) by (cases "lastUsed m") auto
  have c: "clock_inv m" using inv by (simp add: holds_def bm_inv_def)
  have "tick_of m p < tick_of m q" if "q \<in> set rest" for q using c lru that by (simp add: clock_inv_def)
  moreover have "frame_of m p \<noteq> None" using c lru by (simp add: clock_inv_def)
  moreover obtain m1 where "kickOutPage m = Inr m1" "\<And>q. q \<noteq> p \<Longrightarrow> bpages m1 q = bpages m q" "frame_of m1 p = None"
    using kickOutPage_steps [OF inv lru] by metis
  ultimately show ?thesis using lru by (intro exI [of _ p] exI [of _ m1]) auto
qed

theorem kickOutPage_takes_oldest_witness:
  "run_then two_pages (\<lambda>m. \<exists>p m'. kickOutPage m = Inr m' \<and> frame_of m p \<noteq> None \<and> frame_of m' p = None)"
proof -
  have "run_then two_pages (\<lambda>m. lastUsed m \<noteq> [])" by code_simp
  then obtain m where m: "bm_run two_pages one_frame = Inr m" "lastUsed m \<noteq> []"
    "bm_reach (after_run two_pages one_frame (disk_pages 2 one_disk)) m"
    by (auto elim: run_thenE)
  then show ?thesis using kickOutPage_takes_oldest [OF m(3,2)] by (auto simp: run_then_def)
qed

section \<open>Shutting down\<close>

lemma write_back_other_file: "bm_table (bpages m p) = Some t \<Longrightarrow> files (write_back p m) None = files m None"
  by (simp add: write_back_def Let_def split: option.splits)

lemma destroy_loop_disk:
  assumes "distinct (map fst es)"
    and "\<And>e. e \<in> set es \<Longrightarrow> bm_table (bpages m (snd e)) = Some (fst (fst e)) \<and> bm_pos (bpages m (snd e)) = snd (fst e)"
    and "\<And>e r. e \<in> set es \<Longrightarrow> frame_of m (snd e) = Some r \<Longrightarrow> length (ram m r) = bm_pageSize m"
    and "case map_of es k of None \<Rightarrow> on_disk m k bs
      | Some p \<Rightarrow> (case frame_of m p of None \<Rightarrow> on_disk m k bs
        | Some r \<Rightarrow> ram m r = bs \<and> (bm_dirty (bpages m p) \<or> on_disk m k bs))"
  shows "on_disk (destroy_loop es m) k bs"
  using assms
proof (induction es arbitrary: m)
  case (Cons e es)
  define p where "p = snd e"
  define n where "n = (if bm_bytes (bpages m p) \<noteq> None
      then on_page p (\<lambda>g. g\<lparr>bm_bytes := None\<rparr>) (if bm_dirty (bpages m p) then write_back p m else m) else m)"
  have e: "bm_table (bpages m p) = Some (fst (fst e))" "bm_pos (bpages m p) = snd (fst e)"
    using Cons.prems(2) [of e] by (auto simp: p_def)
  have n: "bm_table (bpages n q) = bm_table (bpages m q)" "bm_pos (bpages n q) = bm_pos (bpages m q)"
    "bm_dirty (bpages n q) = bm_dirty (bpages m q)" "frame_of n q = (if q = p then None else frame_of m q)"
    "ram n = ram m" "bm_pageSize n = bm_pageSize m" for q
    by (auto simp: n_def on_page_def)
  have disk: "on_disk n k' cs = on_disk (if frame_of m p \<noteq> None \<and> bm_dirty (bpages m p) then write_back p m else m) k' cs" for k' cs
    by (simp add: n_def on_disk_def disk_chunk_def on_page_def)
  have keep: "on_disk n k cs" if "on_disk m k cs" "k \<noteq> fst e" for cs
    using that e write_back_disk [of m p _ k cs] Cons.prems(3) [of e] by (auto simp: disk p_def prod_eq_iff)
  have other: "snd e' \<noteq> p" if "e' \<in> set es" for e'
  proof
    assume "snd e' = p"
    then have "fst e' = fst e" using e Cons.prems(2) [of e'] that by (simp add: prod_eq_iff)
    then show False using Cons.prems(1) that by (metis distinct.simps(2) image_eqI list.set_map list.simps(9))
  qed
  have "on_disk (destroy_loop es n) k bs"
  proof (rule Cons.IH)
    show "distinct (map fst es)" using Cons.prems(1) by simp
    show "\<And>e. e \<in> set es \<Longrightarrow> bm_table (bpages n (snd e)) = Some (fst (fst e)) \<and> bm_pos (bpages n (snd e)) = snd (fst e)"
      using Cons.prems(2) n by simp
    show "\<And>e r. e \<in> set es \<Longrightarrow> frame_of n (snd e) = Some r \<Longrightarrow> length (ram n r) = bm_pageSize n"
      using Cons.prems(3) n by (auto split: if_splits)
    show "case map_of es k of None \<Rightarrow> on_disk n k bs
      | Some p \<Rightarrow> (case frame_of n p of None \<Rightarrow> on_disk n k bs
        | Some r \<Rightarrow> ram n r = bs \<and> (bm_dirty (bpages n p) \<or> on_disk n k bs))"
    proof (cases "k = fst e")
      case True
      then have none: "map_of es k = None" using Cons.prems(1) by (simp add: map_of_eq_None_iff)
      have "case frame_of m p of None \<Rightarrow> on_disk m k bs
        | Some r \<Rightarrow> ram m r = bs \<and> (bm_dirty (bpages m p) \<or> on_disk m k bs)"
        using Cons.prems(4) True by (cases e) (auto simp: p_def split: option.splits)
      then have "on_disk n k bs"
        using write_back_own [of m p _ k] e True Cons.prems(3) [of e]
        by (auto simp: disk p_def split: option.splits)
      then show ?thesis using none by simp
    next
      case False
      then have look: "map_of (e # es) k = map_of es k" by (cases e) simp
      show ?thesis
      proof (cases "map_of es k")
        case None
        then show ?thesis using Cons.prems(4) look keep [OF _ False] by simp
      next
        case (Some q)
        then have "q \<noteq> p" using other [of "(k, q)"] by (auto dest: map_of_SomeD)
        then show ?thesis
          using Cons.prems(4) look Some keep [OF _ False] by (auto simp: n split: option.splits)
      qed
    qed
  qed
  moreover have "destroy_loop (e # es) m = destroy_loop es n" by (simp only: destroy_loop.simps Let_def n_def p_def)
  ultimately show ?case by simp
qed simp

text \<open>C29: Destroying the manager leaves every table page on disk with the bytes last stored in it.\<close>

theorem destroy_writes_back:
  assumes "bm_reach S m" and "S (t, i) = Some bs"
  shows "disk_chunk (bm_destroy m) (Some t) i = bs"
proof -
  have inv: "holds S m" "client_inv m" using reach_inv [OF assms(1)] by auto
  have f: "frames_inv m" and mi: "map_inv m" using inv(1) by (auto simp: holds_def bm_inv_def)
  have entry: "map_of (allPages m) (fst e) = Some (snd e)" if "e \<in> set (allPages m)" for e
    using that inv(2) map_of_eq_Some_iff [of "allPages m" "fst e" "snd e"] by (simp add: client_inv_def)
  have "on_disk (destroy_loop (allPages m) m) (t, i) bs"
  proof (rule destroy_loop_disk)
    show "distinct (map fst (allPages m))" using inv(2) by (simp add: client_inv_def)
    show "bm_table (bpages m (snd e)) = Some (fst (fst e)) \<and> bm_pos (bpages m (snd e)) = snd (fst e)"
      if "e \<in> set (allPages m)" for e
      using entry [OF that] mi by (cases e; cases "fst e") (auto simp: map_inv_def)
    show "length (ram m r) = bm_pageSize m" if "e \<in> set (allPages m)" "frame_of m (snd e) = Some r" for e r
      using f that(2) map_alive [OF mi entry [OF that(1)]] unfolding frames_inv_def by blast
    show "case map_of (allPages m) (t, i) of None \<Rightarrow> on_disk m (t, i) bs
      | Some p \<Rightarrow> (case frame_of m p of None \<Rightarrow> on_disk m (t, i) bs
        | Some r \<Rightarrow> ram m r = bs \<and> (bm_dirty (bpages m p) \<or> on_disk m (t, i) bs))"
      using inv(1) assms(2) by (simp add: holds_def kept_def)
  qed
  then show ?thesis by (simp add: bm_destroy_def on_disk_def disk_chunk_def Let_def)
qed

theorem destroy_writes_back_witness: "run_then two_pages (\<lambda>m. disk_chunk (bm_destroy m) (Some 7) 0 = [9, 9])"
proof -
  have "run_then two_pages (\<lambda>m. True)" by code_simp
  then obtain m where m: "bm_run two_pages one_frame = Inr m"
    "bm_reach (after_run two_pages one_frame (disk_pages 2 one_disk)) m"
    by (auto elim: run_thenE)
  then show ?thesis using destroy_writes_back [OF m(2) two_pages_store] by (simp add: run_then_def)
qed

end
