(* ===== verification/LogicalPlans.thy ===== *)
theory LogicalPlans
  imports Prelude
begin

text \<open>
  The logical plan (\<open>src/src/logicalPlan\<close>): tuple-set specifiers, the atomic computations of TCAP and the
  indexed list that the parser fills and the planner reads.  An atomic computation is an object; \<open>acId\<close>
  tells objects apart that have the same contents.
\<close>

section \<open>Tuple specifiers and atomic computations\<close>

record tuple_spec =
  specName :: string
  specAtts :: "string list"

definition empty_spec :: tuple_spec where
  "empty_spec = \<lparr>specName = ''Empty'', specAtts = []\<rparr>"

datatype atomic_kind =
    ApplyLambda string
  | HashLeft string
  | HashRight string
  | HashOne
  | Flatten
  | ApplyFilter
  | ApplyAgg
  | ScanSet string string
  | WriteSet string string
  | ApplyJoin tuple_spec tuple_spec
  | ApplyPartition

record atomic_comp =
  acId :: nat
  acInput :: tuple_spec
  acOutput :: tuple_spec
  acProjection :: tuple_spec
  compName :: string
  acKind :: atomic_kind

fun atomicType :: "atomic_kind \<Rightarrow> string" where
  "atomicType (ApplyLambda _) = ''Apply''"
| "atomicType (HashLeft _) = ''HashLeft''"
| "atomicType (HashRight _) = ''HashRight''"
| "atomicType HashOne = ''HashOne''"
| "atomicType Flatten = ''Flatten''"
| "atomicType ApplyFilter = ''Filter''"
| "atomicType ApplyAgg = ''Aggregate''"
| "atomicType (ScanSet _ _) = ''Scan''"
| "atomicType (WriteSet _ _) = ''WriteSet''"
| "atomicType (ApplyJoin _ _) = ''JoinSets''"
| "atomicType ApplyPartition = ''Partition''"

abbreviation outName :: "atomic_comp \<Rightarrow> string" where
  "outName c \<equiv> specName (acOutput c)"

abbreviation inName :: "atomic_comp \<Rightarrow> string" where
  "inName c \<equiv> specName (acInput c)"

section \<open>What the parser builds\<close>

definition new_comp :: "tuple_spec \<Rightarrow> tuple_spec \<Rightarrow> tuple_spec \<Rightarrow> string \<Rightarrow> atomic_kind \<Rightarrow> nat \<Rightarrow> atomic_comp" where
  "new_comp inp out proj node k i = \<lparr>acId = i, acInput = inp, acOutput = out, acProjection = proj, compName = node, acKind = k\<rparr>"

definition makeFilter :: "tuple_spec \<Rightarrow> tuple_spec \<Rightarrow> tuple_spec \<Rightarrow> string \<Rightarrow> nat \<Rightarrow> atomic_comp" where
  "makeFilter out inp proj node i = new_comp inp out proj node ApplyFilter i"

definition makeApply :: "tuple_spec \<Rightarrow> tuple_spec \<Rightarrow> tuple_spec \<Rightarrow> string \<Rightarrow> string \<Rightarrow> nat \<Rightarrow> atomic_comp" where
  "makeApply out inp proj node opn i = new_comp inp out proj node (ApplyLambda opn) i"

definition makeAgg :: "tuple_spec \<Rightarrow> tuple_spec \<Rightarrow> string \<Rightarrow> nat \<Rightarrow> atomic_comp" where
  "makeAgg out inp node i = new_comp inp out inp node ApplyAgg i"

definition makePartition :: "tuple_spec \<Rightarrow> tuple_spec \<Rightarrow> string \<Rightarrow> nat \<Rightarrow> atomic_comp" where
  "makePartition out inp node i = new_comp inp out inp node ApplyPartition i"

definition makeJoin :: "tuple_spec \<Rightarrow> tuple_spec \<Rightarrow> tuple_spec \<Rightarrow> tuple_spec \<Rightarrow> tuple_spec \<Rightarrow> string \<Rightarrow> nat \<Rightarrow> atomic_comp" where
  "makeJoin out lin lproj rin rproj opn i = new_comp lin out lproj opn (ApplyJoin rin rproj) i"

definition makeHashLeft :: "tuple_spec \<Rightarrow> tuple_spec \<Rightarrow> tuple_spec \<Rightarrow> string \<Rightarrow> string \<Rightarrow> nat \<Rightarrow> atomic_comp" where
  "makeHashLeft out inp proj node opn i = new_comp inp out proj node (HashLeft opn) i"

definition makeHashRight :: "tuple_spec \<Rightarrow> tuple_spec \<Rightarrow> tuple_spec \<Rightarrow> string \<Rightarrow> string \<Rightarrow> nat \<Rightarrow> atomic_comp" where
  "makeHashRight out inp proj node opn i = new_comp inp out proj node (HashRight opn) i"

definition makeHashOne :: "tuple_spec \<Rightarrow> tuple_spec \<Rightarrow> tuple_spec \<Rightarrow> string \<Rightarrow> nat \<Rightarrow> atomic_comp" where
  "makeHashOne out inp proj node i = new_comp inp out proj node HashOne i"

definition makeFlatten :: "tuple_spec \<Rightarrow> tuple_spec \<Rightarrow> tuple_spec \<Rightarrow> string \<Rightarrow> nat \<Rightarrow> atomic_comp" where
  "makeFlatten out inp proj node i = new_comp inp out proj node Flatten i"

definition makeScan :: "tuple_spec \<Rightarrow> string \<Rightarrow> string \<Rightarrow> string \<Rightarrow> nat \<Rightarrow> atomic_comp" where
  "makeScan out db st node i = new_comp empty_spec out empty_spec node (ScanSet db st) i"

definition makeOutput :: "tuple_spec \<Rightarrow> tuple_spec \<Rightarrow> string \<Rightarrow> string \<Rightarrow> string \<Rightarrow> nat \<Rightarrow> atomic_comp" where
  "makeOutput out inp db st node i = new_comp inp out inp node (WriteSet db st) i"

section \<open>The list of computations\<close>

record comp_list =
  producers :: "string \<rightharpoonup> atomic_comp"
  consumers :: "string \<rightharpoonup> atomic_comp list"
  scans :: "atomic_comp list"

definition no_comps :: comp_list where
  "no_comps = \<lparr>producers = Map.empty, consumers = Map.empty, scans = []\<rparr>"

text \<open>Looking a name up with \<open>operator[]\<close> leaves a null pointer or an empty vector for it; later look-ups
  give the same, so the entry is not recorded.\<close>

definition getProducing :: "string \<Rightarrow> comp_list \<Rightarrow> atomic_comp option" where
  "getProducing n l = producers l n"

definition getConsuming :: "string \<Rightarrow> comp_list \<Rightarrow> atomic_comp list" where
  "getConsuming n l = (case consumers l n of None \<Rightarrow> [] | Some cs \<Rightarrow> cs)"

definition push_consumer :: "string \<Rightarrow> atomic_comp \<Rightarrow> comp_list \<Rightarrow> comp_list" where
  "push_consumer n c l = l\<lparr>consumers := (consumers l)(n \<mapsto> getConsuming n l @ [c])\<rparr>"

definition addAtomicComputation :: "atomic_comp \<Rightarrow> comp_list \<Rightarrow> comp_list" where
  "addAtomicComputation c l =
    (let l = (case acKind c of ScanSet _ _ \<Rightarrow> l\<lparr>scans := scans l @ [c]\<rparr> | _ \<Rightarrow> l);
         l = l\<lparr>producers := (producers l)(outName c \<mapsto> c)\<rparr>;
         l = push_consumer (inName c) c l
     in case acKind c of ApplyJoin r _ \<Rightarrow> push_consumer (specName r) c l | _ \<Rightarrow> l)"

fun addAll :: "atomic_comp list \<Rightarrow> comp_list \<Rightarrow> comp_list" where
  "addAll [] l = l"
| "addAll (c # cs) l = addAll cs (addAtomicComputation c l)"

definition makeAtomicComputationList :: "atomic_comp list \<Rightarrow> comp_list" where
  "makeAtomicComputationList cs = addAll cs no_comps"

section \<open>Who creates an attribute\<close>

definition findPosInOutputAtts :: "string \<Rightarrow> atomic_comp \<Rightarrow> nat outcome" where
  "findPosInOutputAtts a c = (let k = length (takeWhile (\<lambda>x. x \<noteq> a) (specAtts (acOutput c)))
     in if k = length (specAtts (acOutput c)) then Inl (FatalExit 1) else Inr k)"

text \<open>A class answers for itself, or asks the producer of a tuple set about one of its attributes.\<close>

datatype hop = Here string string | Ask string string

definition ask_at :: "tuple_spec \<Rightarrow> nat \<Rightarrow> hop outcome" where
  "ask_at s i = (if i < length (specAtts s) then Inr (Ask (specName s) (specAtts s ! i)) else Inl WildAccess)"

definition source_step :: "atomic_comp \<Rightarrow> string \<Rightarrow> hop outcome" where
  "source_step c a = (let lastAtt = length (specAtts (acOutput c)) - 1; proj = acProjection c in
     case acKind c of
       WriteSet _ _ \<Rightarrow> Inl (FatalExit 1)
     | k \<Rightarrow> andThen (findPosInOutputAtts a c) (\<lambda>i. case k of
         ApplyLambda lam \<Rightarrow> if i = lastAtt then Inr (Here (compName c) lam) else ask_at proj i
       | HashLeft _ \<Rightarrow> if i = lastAtt then ask_at (acInput c) 0 else ask_at proj i
       | HashRight _ \<Rightarrow> if i = lastAtt then ask_at (acInput c) 0 else ask_at proj i
       | HashOne \<Rightarrow> if length (specAtts proj) \<le> i then ask_at proj 0 else ask_at proj i
       | Flatten \<Rightarrow> if i = lastAtt then Inr (Here (compName c) '''') else ask_at proj i
       | ApplyFilter \<Rightarrow> ask_at proj i
       | ApplyJoin _ rproj \<Rightarrow> if i < length (specAtts proj) then ask_at proj i
           else if i < length (specAtts proj) + length (specAtts rproj)
           then ask_at rproj (i - length (specAtts proj)) else Inl (FatalExit 1)
       | _ \<Rightarrow> if i = 0 then Inr (Here (compName c) '''') else Inl (FatalExit 1)))"

partial_function (option) findSource :: "comp_list \<Rightarrow> atomic_comp \<Rightarrow> string \<Rightarrow> (string \<times> string) outcome option" where
  "findSource l c a = (case source_step c a of
     Inl e \<Rightarrow> Some (Inl e)
   | Inr h \<Rightarrow> (case h of Here n lam \<Rightarrow> Some (Inr (n, lam))
     | Ask s b \<Rightarrow> (case getProducing s l of None \<Rightarrow> Some (Inl NullDeref) | Some p \<Rightarrow> findSource l p b)))"

declare findSource.simps [code]

section \<open>Plans in order\<close>

text \<open>A specifier refers to the output of an earlier computation that is not a final output.\<close>

definition is_write :: "atomic_comp \<Rightarrow> bool" where
  "is_write c = (case acKind c of WriteSet _ _ \<Rightarrow> True | _ \<Rightarrow> False)"

definition spec_known :: "atomic_comp list \<Rightarrow> tuple_spec \<Rightarrow> bool" where
  "spec_known prev s = list_ex (\<lambda>p. \<not> is_write p \<and> outName p = specName s \<and>
     list_all (\<lambda>a. a \<in> set (specAtts (acOutput p))) (specAtts s)) prev"

text \<open>The attributes of an output are laid out the way its class says.\<close>

definition shape_ok :: "atomic_comp \<Rightarrow> bool" where
  "shape_ok c = (let n = length (specAtts (acOutput c)); proj = length (specAtts (acProjection c)) in
     case acKind c of
       ApplyLambda _ \<Rightarrow> n = proj + 1
     | HashLeft _ \<Rightarrow> n = proj + 1 \<and> specAtts (acInput c) \<noteq> []
     | HashRight _ \<Rightarrow> n = proj + 1 \<and> specAtts (acInput c) \<noteq> []
     | HashOne \<Rightarrow> proj \<noteq> 0
     | Flatten \<Rightarrow> n = proj + 1
     | ApplyFilter \<Rightarrow> n = proj
     | ApplyJoin _ rproj \<Rightarrow> n = proj + length (specAtts rproj)
     | WriteSet _ _ \<Rightarrow> True
     | _ \<Rightarrow> n \<le> 1)"

definition inputs_known :: "atomic_comp list \<Rightarrow> atomic_comp \<Rightarrow> bool" where
  "inputs_known prev c = (case acKind c of
       ScanSet _ _ \<Rightarrow> True
     | ApplyJoin r rproj \<Rightarrow> spec_known prev (acInput c) \<and> spec_known prev (acProjection c)
         \<and> spec_known prev r \<and> spec_known prev rproj
     | _ \<Rightarrow> spec_known prev (acInput c) \<and> spec_known prev (acProjection c))"

fun plan_ok :: "atomic_comp list \<Rightarrow> atomic_comp list \<Rightarrow> bool" where
  "plan_ok prev [] = True"
| "plan_ok prev (c # cs) = (shape_ok c \<and> inputs_known prev c \<and> outName c \<notin> outName ` set prev
     \<and> plan_ok (prev @ [c]) cs)"

section \<open>Finding computations\<close>

lemma add_producers [simp]:
  "producers (addAtomicComputation c l) = (producers l)(outName c \<mapsto> c)"
  by (auto simp: addAtomicComputation_def push_consumer_def Let_def split: atomic_kind.splits)

lemma getConsuming_push:
  "getConsuming n (push_consumer m c l) = getConsuming n l @ (if n = m then [c] else [])"
  by (simp add: getConsuming_def push_consumer_def)

definition asks_for :: "string \<Rightarrow> atomic_comp \<Rightarrow> atomic_comp list" where
  "asks_for n c = (if inName c = n then [c] else []) @
     (case acKind c of ApplyJoin r _ \<Rightarrow> if specName r = n then [c] else [] | _ \<Rightarrow> [])"

lemma getConsuming_add: "getConsuming n (addAtomicComputation c l) = getConsuming n l @ asks_for n c"
  by (auto simp: addAtomicComputation_def getConsuming_push asks_for_def Let_def getConsuming_def
      push_consumer_def split: atomic_kind.splits)

lemma getConsuming_addAll: "getConsuming n (addAll cs l) = getConsuming n l @ concat (map (asks_for n) cs)"
  by (induction cs arbitrary: l) (simp_all add: getConsuming_add)

lemma getConsuming_build: "getConsuming n (makeAtomicComputationList cs) = concat (map (asks_for n) cs)"
  by (simp add: makeAtomicComputationList_def getConsuming_addAll) (simp add: getConsuming_def no_comps_def)

lemma scans_addAll: "scans (addAll cs l) = scans l @ filter (\<lambda>c. atomicType (acKind c) = ''Scan'') cs"
  by (induction cs arbitrary: l)
    (auto simp: addAtomicComputation_def push_consumer_def Let_def split: atomic_kind.splits)

lemma producers_addAll:
  assumes "distinct (map outName cs)" and "c \<in> set cs"
  shows "producers (addAll cs l) (outName c) = Some c"
  using assms
proof (induction cs arbitrary: l)
  case (Cons d cs)
  have keep: "outName c \<notin> outName ` set cs \<Longrightarrow> producers (addAll cs l') (outName c) = producers l' (outName c)" for l'
    by (induction cs arbitrary: l') auto
  show ?case using Cons keep by (cases "c = d") auto
qed simp

lemma plan_ok_distinct: "plan_ok prev cs \<Longrightarrow> distinct (map outName cs) \<and> outName ` set cs \<inter> outName ` set prev = {}"
  by (induction prev cs rule: plan_ok.induct) auto

lemma plan_ok_at:
  assumes "plan_ok prev cs" and "i < length cs"
  shows "shape_ok (cs ! i)" "inputs_known (prev @ take i cs) (cs ! i)"
  using assms
proof (induction prev cs arbitrary: i rule: plan_ok.induct)
  case (2 prev c cs)
  { case 1 then show ?case using 2 by (cases i) auto }
  { case 2 then show ?case using "2.IH" "2.prems" by (cases i) auto }
qed simp_all

lemma getProducing_build:
  assumes "plan_ok [] cs" and "c \<in> set cs"
  shows "getProducing (outName c) (makeAtomicComputationList cs) = Some c"
  using producers_addAll [of cs c no_comps] plan_ok_distinct [OF assms(1)] assms(2)
  by (simp add: getProducing_def makeAtomicComputationList_def)

section \<open>Every attribute has a source\<close>

text \<open>
  Where a column comes from, read off the layout of the outputs: first the projected columns in their
  order, then the column the computation adds.  \<open>makes_column\<close> says which computation creates its
  column \<open>i\<close>, \<open>column_from\<close> from which column of which specifier it takes the others: a hash column
  belongs to the hashed attribute, the constant column of \<open>HashOne\<close> to the first projected one, and a
  join puts the columns of the right side behind those of the left.
\<close>

definition makes_column :: "atomic_comp \<Rightarrow> nat \<Rightarrow> bool" where
  "makes_column c i = (case acKind c of
       ApplyLambda _ \<Rightarrow> i = length (specAtts (acProjection c))
     | Flatten \<Rightarrow> i = length (specAtts (acProjection c))
     | ApplyAgg \<Rightarrow> i = 0 | ScanSet _ _ \<Rightarrow> i = 0 | ApplyPartition \<Rightarrow> i = 0
     | _ \<Rightarrow> False)"

definition column_from :: "atomic_comp \<Rightarrow> nat \<Rightarrow> (tuple_spec \<times> nat) option" where
  "column_from c i = (let proj = acProjection c; n = length (specAtts proj) in
     case acKind c of
       ApplyAgg \<Rightarrow> None | ScanSet _ _ \<Rightarrow> None | ApplyPartition \<Rightarrow> None | WriteSet _ _ \<Rightarrow> None
     | k \<Rightarrow> if i < n then Some (proj, i) else (case k of
         HashLeft _ \<Rightarrow> Some (acInput c, 0) | HashRight _ \<Rightarrow> Some (acInput c, 0) | HashOne \<Rightarrow> Some (proj, 0)
       | ApplyJoin _ rproj \<Rightarrow> if i < n + length (specAtts rproj) then Some (rproj, i - n) else None
       | _ \<Rightarrow> None))"

definition first_at :: "string \<Rightarrow> string list \<Rightarrow> nat \<Rightarrow> bool" where
  "first_at a xs i \<longleftrightarrow> i < length xs \<and> xs ! i = a \<and> a \<notin> set (take i xs)"

inductive origin :: "atomic_comp list \<Rightarrow> atomic_comp \<Rightarrow> nat \<Rightarrow> atomic_comp \<Rightarrow> bool" for cs where
  made: "makes_column c i \<Longrightarrow> origin cs c i c"
| taken: "column_from c i = Some (s, j) \<Longrightarrow> j < length (specAtts s) \<Longrightarrow> p \<in> set cs \<Longrightarrow> outName p = specName s \<Longrightarrow>
    first_at (specAtts s ! j) (specAtts (acOutput p)) k \<Longrightarrow> origin cs p k q \<Longrightarrow> origin cs c i q"

lemma first_at_unique: "first_at a xs i \<Longrightarrow> first_at a xs j \<Longrightarrow> i = j"
  unfolding first_at_def by (metis in_set_conv_nth length_take linorder_neqE_nat min_less_iff_conj nth_take)

lemma made_or_taken: "makes_column c i \<Longrightarrow> column_from c i = None"
  by (auto simp: makes_column_def column_from_def Let_def split: atomic_kind.splits)

inductive_cases origin_takenE: "origin cs c i q"

text \<open>A column has one origin.\<close>

lemma origin_unique:
  assumes "distinct (map outName cs)"
  shows "origin cs c i q \<Longrightarrow> origin cs c i q' \<Longrightarrow> q = q'"
proof (induction arbitrary: q' rule: origin.induct)
  case (made c i)
  show ?case
    by (rule origin_takenE [OF made.prems]) (simp_all add: made_or_taken [OF made.hyps])
next
  case (taken c i s j p k q)
  show ?case
  proof (rule origin_takenE [OF taken.prems])
    assume "makes_column c i"
    from made_or_taken [OF this] show ?case using taken.hyps(1) by simp
  next
    fix s' j' p' k'
    assume other: "column_from c i = Some (s', j')" "p' \<in> set cs" "outName p' = specName s'"
      "first_at (specAtts s' ! j') (specAtts (acOutput p')) k'" "origin cs p' k' q'"
    then have eq: "s' = s" "j' = j" using taken.hyps(1) by auto
    then have "p' = p" using other(2,3) taken.hyps(3,4) assms by (metis distinct_map inj_onD)
    moreover from this have "k' = k" using other(4) taken.hyps(5) eq first_at_unique by blast
    ultimately show ?case using taken.IH other(5) by simp
  qed
qed

text \<open>What \<open>findSource\<close> answers for a column that \<open>c\<close> creates.\<close>

definition creates :: "atomic_comp \<Rightarrow> string \<Rightarrow> string \<Rightarrow> bool" where
  "creates c n lam = (n = compName c \<and> (case acKind c of ApplyLambda l \<Rightarrow> lam = l
     | Flatten \<Rightarrow> lam = '''' | ApplyAgg \<Rightarrow> lam = '''' | ScanSet _ _ \<Rightarrow> lam = '''' | ApplyPartition \<Rightarrow> lam = ''''
     | _ \<Rightarrow> False))"

lemma findPos_in:
  assumes "a \<in> set (specAtts (acOutput c))"
  obtains i where "findPosInOutputAtts a c = Inr i" "first_at a (specAtts (acOutput c)) i"
proof -
  let ?xs = "specAtts (acOutput c)"
  let ?k = "length (takeWhile (\<lambda>x. x \<noteq> a) ?xs)"
  have "takeWhile (\<lambda>x. x \<noteq> a) ?xs \<noteq> ?xs" using assms by (simp add: takeWhile_eq_all_conv)
  then have ne: "?k \<noteq> length ?xs" by (metis takeWhile_eq_take take_all_iff order_refl)
  moreover have "?k \<le> length ?xs" by (rule length_takeWhile_le)
  ultimately have lt: "?k < length ?xs" by simp
  have "?xs ! ?k = a" using nth_length_takeWhile [OF lt] by simp
  moreover have "a \<notin> set (take ?k ?xs)"
    unfolding takeWhile_eq_take [symmetric] by (auto dest: set_takeWhileD)
  ultimately show thesis using lt ne
    by (intro that [of ?k]) (simp_all add: findPosInOutputAtts_def Let_def first_at_def)
qed

text \<open>One step of the search follows the layout.\<close>

lemma source_step_layout:
  assumes "shape_ok c" and "\<not> is_write c" and "findPosInOutputAtts a c = Inr i" and "i < length (specAtts (acOutput c))"
  shows "(\<exists>n lam. source_step c a = Inr (Here n lam) \<and> creates c n lam \<and> makes_column c i) \<or>
    (\<exists>s j. source_step c a = Inr (Ask (specName s) (specAtts s ! j)) \<and> column_from c i = Some (s, j) \<and> j < length (specAtts s))"
  using assms
  by (cases "acKind c")
    (auto simp: source_step_def shape_ok_def creates_def is_write_def makes_column_def column_from_def ask_at_def Let_def not_less)

lemma column_known:
  assumes "inputs_known prev c" and "column_from c i = Some (s, j)" and "\<not> is_write c"
  shows "spec_known prev s"
  using assms by (auto simp: inputs_known_def column_from_def Let_def split: atomic_kind.splits if_splits)

lemma spec_known_producer:
  assumes "spec_known prev s" and "j < length (specAtts s)"
  obtains p where "p \<in> set prev" "\<not> is_write p" "outName p = specName s" "specAtts s ! j \<in> set (specAtts (acOutput p))"
  using assms by (fastforce simp: spec_known_def list_ex_iff list_all_iff)

lemma findSource_at:
  assumes "plan_ok [] cs" and "i < length cs" and "\<not> is_write (cs ! i)"
    and "first_at a (specAtts (acOutput (cs ! i))) m"
  shows "\<exists>p \<in> set cs. \<exists>n lam. findSource (makeAtomicComputationList cs) (cs ! i) a = Some (Inr (n, lam)) \<and>
    creates p n lam \<and> origin cs (cs ! i) m p"
  using assms(2-)
proof (induction i arbitrary: a m rule: less_induct)
  case (less i)
  note at = plan_ok_at [OF assms(1) less.prems(1)]
  have "a \<in> set (specAtts (acOutput (cs ! i)))" using less.prems(3) by (auto simp: first_at_def)
  then obtain m' where m': "findPosInOutputAtts a (cs ! i) = Inr m'" "first_at a (specAtts (acOutput (cs ! i))) m'"
    by (rule findPos_in)
  then have m: "findPosInOutputAtts a (cs ! i) = Inr m" using less.prems(3) first_at_unique by blast
  have lt: "m < length (specAtts (acOutput (cs ! i)))" using less.prems(3) by (simp add: first_at_def)
  from source_step_layout [OF at(1) less.prems(2) m lt] show ?case
  proof
    assume "\<exists>n lam. source_step (cs ! i) a = Inr (Here n lam) \<and> creates (cs ! i) n lam \<and> makes_column (cs ! i) m"
    then show ?thesis using less.prems(1)
      by (auto simp: findSource.simps intro!: bexI [of _ "cs ! i"] origin.made)
  next
    assume "\<exists>s j. source_step (cs ! i) a = Inr (Ask (specName s) (specAtts s ! j)) \<and>
      column_from (cs ! i) m = Some (s, j) \<and> j < length (specAtts s)"
    then obtain s j where s: "source_step (cs ! i) a = Inr (Ask (specName s) (specAtts s ! j))"
      "column_from (cs ! i) m = Some (s, j)" "j < length (specAtts s)" by blast
    obtain p where p: "p \<in> set (take i cs)" "\<not> is_write p" "outName p = specName s" "specAtts s ! j \<in> set (specAtts (acOutput p))"
      using spec_known_producer [OF column_known [OF at(2) s(2) less.prems(2)] s(3)] by auto
    then obtain k where k: "k < i" "p = cs ! k" using less.prems(1) by (auto simp: in_set_conv_nth)
    have pin: "p \<in> set cs" using p(1) in_set_takeD by fast
    obtain l where l: "first_at (specAtts s ! j) (specAtts (acOutput p)) l" using findPos_in [OF p(4)] by blast
    have "getProducing (specName s) (makeAtomicComputationList cs) = Some p"
      using getProducing_build [OF assms(1) pin] p(3) by simp
    then have "findSource (makeAtomicComputationList cs) (cs ! i) a = findSource (makeAtomicComputationList cs) p (specAtts s ! j)"
      using s(1) by (subst findSource.simps) simp
    moreover obtain q n lam where "q \<in> set cs" "findSource (makeAtomicComputationList cs) p (specAtts s ! j) = Some (Inr (n, lam))"
      "creates q n lam" "origin cs p l q"
      using less.IH [of k "specAtts s ! j" l] k less.prems(1) p(2) l by auto
    ultimately show ?thesis using origin.taken [OF s(2,3) pin p(3) l] by auto
  qed
qed

text \<open>C31: In a plan in order - computations refer only to outputs of earlier ones that are not written out,
  output names are unique, and each output is laid out as its class says (\<open>shape_ok\<close>) - looking for the
  source of any attribute of any output that is not written out ends and names the computation that
  creates this attribute, with its lambda where it applies one: the one computation that \<open>origin\<close> leads to
  from the attribute's column.\<close>

theorem every_attribute_has_a_source:
  assumes "plan_ok [] cs" and "c \<in> set cs" and "\<not> is_write c" and "first_at a (specAtts (acOutput c)) i"
  shows "\<exists>p \<in> set cs. \<exists>n lam. findSource (makeAtomicComputationList cs) c a = Some (Inr (n, lam)) \<and>
    creates p n lam \<and> origin cs c i p \<and> (\<forall>q. origin cs c i q \<longrightarrow> q = p)"
proof -
  obtain k where k: "k < length cs" "c = cs ! k" using assms(2) by (auto simp: in_set_conv_nth)
  obtain p n lam where p: "p \<in> set cs" "findSource (makeAtomicComputationList cs) c a = Some (Inr (n, lam))"
    "creates p n lam" "origin cs c i p" using findSource_at [OF assms(1) k(1)] assms(3,4) k(2) by blast
  have "distinct (map outName cs)" using plan_ok_distinct [OF assms(1)] by simp
  then show ?thesis using p origin_unique [of cs c i p] by blast
qed

definition demo_spec :: "string \<Rightarrow> string list \<Rightarrow> tuple_spec" where
  "demo_spec n as = \<lparr>specName = n, specAtts = as\<rparr>"

text \<open>Two scans, a hash of each, and a join of them.\<close>

definition demo_join :: "atomic_comp list" where
  "demo_join =
    [makeScan (demo_spec ''A'' [''x'']) ''d'' ''a'' ''S_0'' 0,
     makeScan (demo_spec ''B'' [''y'']) ''d'' ''b'' ''S_1'' 1,
     makeApply (demo_spec ''C'' [''x'', ''k'']) (demo_spec ''A'' [''x'']) (demo_spec ''A'' [''x'']) ''J_2'' ''f'' 2,
     makeHashLeft (demo_spec ''D'' [''x'', ''h'']) (demo_spec ''C'' [''k'']) (demo_spec ''C'' [''x'']) ''J_2'' ''f'' 3,
     makeHashOne (demo_spec ''E'' [''y'', ''g'']) (demo_spec ''B'' [''y'']) (demo_spec ''B'' [''y'']) ''J_2'' 4,
     makeJoin (demo_spec ''F'' [''x'', ''y'']) (demo_spec ''D'' [''h'']) (demo_spec ''D'' [''x''])
       (demo_spec ''E'' [''g'']) (demo_spec ''E'' [''y'']) ''J_2'' 5]"

theorem every_attribute_has_a_source_witness:
  "\<exists>p \<in> set demo_join. \<exists>n lam. findSource (makeAtomicComputationList demo_join) (demo_join ! 5) ''y'' = Some (Inr (n, lam))
    \<and> creates p n lam \<and> origin demo_join (demo_join ! 5) 1 p"
proof -
  have ok: "plan_ok [] demo_join" by code_simp
  have c: "demo_join ! 5 \<in> set demo_join" by (simp add: demo_join_def)
  have w: "\<not> is_write (demo_join ! 5)" by code_simp
  have y: "first_at ''y'' (specAtts (acOutput (demo_join ! 5))) 1" by code_simp
  show ?thesis using every_attribute_has_a_source [OF ok c w y] by blast
qed

end
