(* ===== verification/PlanSources.thy ===== *)
theory PlanSources
  imports LogicalPlans
begin

text \<open>
  The state of the physical planner (\<open>src/src/queryPlanning/source/TCAPAnalyzer.cc\<close>) and its operations on
  sources, statistics and job stages.  Computations are found by name, as in \<open>LogicalPlan\<close>; set identifiers
  are shared objects and are referred to by their place in \<open>setObjs\<close>; the flags that \<open>ApplyJoin\<close> objects
  carry are sets of object numbers.
\<close>

section \<open>Computations, sets and stages\<close>

datatype alloc_policy = DefaultAllocator | NoReuseAllocator | NoReferenceCountAllocator

record computation =
  cpType :: string
  cpOutput :: "(string \<times> string) option"
  cpOutType :: string
  cpPolicy :: alloc_policy
  cpCombiner :: bool
  cpMaterialize :: bool
  cpCollect :: bool
  cpNumCollect :: int
  cpJoinType :: join_type
  cpInputs :: "string list"
  cpInputTypes :: "string list"
  cpLocalJoin :: bool

definition is_type :: "string \<Rightarrow> computation \<Rightarrow> bool" where
  "is_type t c = (cpType c = t)"

text \<open>Selections and aggregations ask the scanner of their output set, which may not exist.\<close>

definition outputSet :: "computation \<Rightarrow> (string \<times> string) outcome" where
  "outputSet c = (case cpOutput c of Some x \<Rightarrow> Inr x
     | None \<Rightarrow> if cpType c \<in> {''SelectionComp'', ''MultiSelectionComp'', ''ClusterAggregationComp''}
               then Inl NullDeref else Inr ('''', ''''))"

definition setOutput :: "string \<Rightarrow> string \<Rightarrow> computation \<Rightarrow> computation" where
  "setOutput db st c = (if is_type ''JoinComp'' c then c
     else c\<lparr>cpOutput := Some (db, st), cpMaterialize := (cpMaterialize c
       \<or> cpType c \<in> {''SelectionComp'', ''MultiSelectionComp'', ''ClusterAggregationComp'', ''PartitionComp''})\<rparr>)"

record set_id =
  sidDb :: string
  sidName :: string
  sidAgg :: bool
  sidPageSize :: nat
  sidDesired :: nat
  sidIndex :: int
  sidDataType :: string

definition sidKey :: "set_id \<Rightarrow> string" where
  "sidKey x = sidDb x @ '':'' @ sidName x"

record tupleset_stage =
  tsId :: nat
  sourceTS :: string
  targetTS :: string
  targetComp :: string
  buildTS :: "string list"
  tsOutType :: string
  sourceCtx :: nat
  sinkCtx :: nat
  combinerCtx :: "nat option"
  broadcasting :: bool
  repartition :: bool
  removeInput :: bool
  probing :: bool
  hashSets :: "(string \<times> string) list"
  joinTypeStr :: string
  tsPolicy :: alloc_policy
  repartJoin :: bool
  collectAsMap :: bool
  numCollect :: int
  localSink :: bool
  localProbe :: bool
  partComp :: string
  partLambda :: string
  aggHashOut :: bool
  joinSourceTS :: bool

datatype job_stage =
    TupleSetStage tupleset_stage
  | AggStage nat string nat nat bool
  | BroadcastBuild nat string string string nat string
  | PartitionedBuild nat string string string nat string

section \<open>The planner's state\<close>

record lambda_id =
  lbJob :: string
  lbComp :: string
  lbName :: string
  lbIdent :: string
  lbInput :: string

text \<open>What planning depends on besides the query.  Two fields are fixed when the program is compiled:
  \<open>tieLast\<close> is \<open>JOIN_HASH_TABLE_SIZE_RATIO > 1.5\<close>, and \<open>joinCostThreshold\<close> is \<open>JOIN_COST_THRESHOLD\<close> (15000 by
  default; \<open>SConstruct\<close> passes 2000).  The self-learning database (tables in SQLite) is a parameter: job names, the lambdas a set was
  partitioned by, and the lambda of a computation of a job.\<close>

record lambda_db =
  getJobName :: "string \<Rightarrow> string"
  getPartitionLambdas :: "string \<Rightarrow> string \<Rightarrow> lambda_id list"
  getLambda :: "string \<Rightarrow> string \<Rightarrow> string \<Rightarrow> lambda_id option"

record plan_env =
  jobId :: string
  isDynamic :: bool
  clusterNodes :: nat
  shufflePageSize :: nat
  broadcastPageSize :: nat
  confPageSize :: nat
  tieLast :: bool
  joinCostThreshold :: nat
  lambdaDb :: "lambda_db option"
  inputDepth :: nat

record planner =
  comps :: "string \<rightharpoonup> computation"
  traversedJoins :: "nat list"
  partitionedLHS :: "nat list"
  hashSetsToProbe :: "(string \<rightharpoonup> string) option"
  outputForJoinSets :: "string list"
  curSourceSets :: "string \<rightharpoonup> nat"
  curSourceNodes :: "string \<rightharpoonup> atomic_comp list"
  curProcessed :: "string \<rightharpoonup> nat"
  curSourceSetNames :: "string list"
  costOfCur :: nat
  exactSizeOfCur :: nat
  curSourceSetName :: string
  penalizedSourceSets :: "string list"
  setObjs :: "set_id list"
  jobStageId :: nat
  physicalPlan :: "job_stage list"
  interGlobalSets :: "nat list"
  buildThese :: "string list"

definition getNode :: "string \<Rightarrow> planner \<Rightarrow> computation outcome" where
  "getNode n s = (case comps s n of None \<Rightarrow> Inl (FatalExit 1) | Some c \<Rightarrow> Inr c)"

definition upd_node :: "string \<Rightarrow> (computation \<Rightarrow> computation) \<Rightarrow> planner \<Rightarrow> planner" where
  "upd_node n f s = s\<lparr>comps := (comps s)(n := map_option f (comps s n))\<rparr>"

definition new_set :: "string \<Rightarrow> string \<Rightarrow> planner \<Rightarrow> planner \<times> nat" where
  "new_set db st s = (s\<lparr>setObjs := setObjs s @ [\<lparr>sidDb = db, sidName = st, sidAgg = False, sidPageSize = 0,
     sidDesired = 0, sidIndex = 0, sidDataType = ''''\<rparr>]\<rparr>, length (setObjs s))"

definition upd_set :: "nat \<Rightarrow> (set_id \<Rightarrow> set_id) \<Rightarrow> planner \<Rightarrow> planner" where
  "upd_set i f s = s\<lparr>setObjs := (setObjs s)[i := f (setObjs s ! i)]\<rparr>"

text \<open>The number of pages a set should get; a division by zero traps.\<close>

definition desired_size :: "plan_env \<Rightarrow> nat \<Rightarrow> planner \<Rightarrow> nat outcome" where
  "desired_size E page s = (if page = 0 \<or> clusterNodes E = 0 then Inl DivByZero
     else Inr (max 1 (exactSizeOfCur s div page div clusterNodes E)))"

definition new_sized_set :: "plan_env \<Rightarrow> nat \<Rightarrow> string \<Rightarrow> planner \<Rightarrow> (planner \<times> nat) outcome" where
  "new_sized_set E page st s = andThen (desired_size E page s) (\<lambda>d.
     case new_set (jobId E) st s of (s, i) \<Rightarrow> Inr (upd_set i (\<lambda>x. x\<lparr>sidPageSize := page, sidDesired := d\<rparr>) s, i))"

section \<open>Job stages\<close>

fun joinTypeName :: "join_type \<Rightarrow> string" where
  "joinTypeName HashPartitionedJoin = ''HashPartitionedJoin''"
| "joinTypeName BroadcastJoin = ''BroadcastJoin''"
| "joinTypeName LocalJoin = ''LocalJoin''"
| "joinTypeName CrossProduct = ''CrossProduct''"
| "joinTypeName UnknownJoin = ''UnknownJoin''"

text \<open>\<open>operator[]\<close> of the map of hash sets adds an empty name for a key it does not have.\<close>

fun take_hash_sets :: "string list \<Rightarrow> (string \<rightharpoonup> string) \<Rightarrow> (string \<rightharpoonup> string) \<times> (string \<times> string) list" where
  "take_hash_sets [] m = (m, [])"
| "take_hash_sets (o1 # os) m = (let v = (case m o1 of None \<Rightarrow> '''' | Some v \<Rightarrow> v) in
     case take_hash_sets os (m(o1 \<mapsto> v)) of (m, hs) \<Rightarrow> (m, (o1, v) # hs))"

text \<open>The stage \<open>t\<close> holds the arguments of the call; \<open>wantsProbe\<close> is \<open>isProbing\<close>.\<close>

definition createTupleSetJobStage :: "tupleset_stage \<Rightarrow> bool \<Rightarrow> join_type \<Rightarrow> planner \<Rightarrow> planner \<times> tupleset_stage" where
  "createTupleSetJobStage t wantsProbe jt s =
    (let t = t\<lparr>tsId := jobStageId s, probing := False, hashSets := [], aggHashOut := False, joinTypeStr := ''Unknown'', joinSourceTS := False\<rparr>;
         s = s\<lparr>jobStageId := jobStageId s + 1\<rparr>;
         (s, t) = (case hashSetsToProbe s of None \<Rightarrow> (s, t)
           | Some m \<Rightarrow> if outputForJoinSets s \<noteq> [] \<and> wantsProbe
               then (case take_hash_sets (outputForJoinSets s) m of (m, hs) \<Rightarrow>
                 (s\<lparr>hashSetsToProbe := Some m, outputForJoinSets := []\<rparr>, t\<lparr>probing := True, hashSets := hs\<rparr>))
               else (s, t));
         t = (if wantsProbe then t\<lparr>joinTypeStr := joinTypeName jt\<rparr> else t);
         t = (if sidAgg (setObjs s ! sourceCtx t) then t\<lparr>aggHashOut := True, removeInput := True\<rparr> else t)
     in (s, t))"

definition push_stage :: "job_stage \<Rightarrow> planner \<Rightarrow> planner" where
  "push_stage st s = s\<lparr>physicalPlan := physicalPlan s @ [st]\<rparr>"

definition createAggregationJobStage :: "string \<Rightarrow> nat \<Rightarrow> nat \<Rightarrow> bool \<Rightarrow> planner \<Rightarrow> planner" where
  "createAggregationJobStage agg src snk mat s =
     push_stage (AggStage (jobStageId s) agg src snk mat) (s\<lparr>jobStageId := jobStageId s + 1\<rparr>)"

definition createBroadcastJoinBuildHTJobStage :: "string \<Rightarrow> string \<Rightarrow> string \<Rightarrow> nat \<Rightarrow> string \<Rightarrow> planner \<Rightarrow> planner" where
  "createBroadcastJoinBuildHTJobStage src tgt tc ctx h s =
     push_stage (BroadcastBuild (jobStageId s) src tgt tc ctx h) (s\<lparr>jobStageId := jobStageId s + 1\<rparr>)"

definition createHashPartitionedJoinBuildHTJobStage :: "string \<Rightarrow> string \<Rightarrow> string \<Rightarrow> nat \<Rightarrow> string \<Rightarrow> planner \<Rightarrow> planner" where
  "createHashPartitionedJoinBuildHTJobStage src tgt tc ctx h s =
     push_stage (PartitionedBuild (jobStageId s) src tgt tc ctx h) (s\<lparr>jobStageId := jobStageId s + 1\<rparr>)"

section \<open>Sources\<close>

text \<open>The boolean that \<open>removeSource\<close> returns is not initialised on every path and never used.\<close>

definition removeSource :: "string \<Rightarrow> planner \<Rightarrow> planner" where
  "removeSource n s = (case curSourceNodes s n of
       Some (x # y # ns) \<Rightarrow> s\<lparr>curSourceNodes := (curSourceNodes s)(n \<mapsto> y # ns), curProcessed := (curProcessed s)(n \<mapsto> 0)\<rparr>
     | _ \<Rightarrow> s\<lparr>curSourceNodes := (curSourceNodes s)(n := None), curSourceSetNames := remove1 n (curSourceSetNames s),
              penalizedSourceSets := remove1 n (penalizedSourceSets s),
              curSourceSets := (curSourceSets s)(n := None), curProcessed := (curProcessed s)(n := None)\<rparr>)"

definition processed :: "string \<Rightarrow> planner \<Rightarrow> nat" where
  "processed n s = (case curProcessed s n of None \<Rightarrow> 0 | Some k \<Rightarrow> k)"

definition add_source :: "nat \<Rightarrow> atomic_comp \<Rightarrow> planner \<Rightarrow> planner" where
  "add_source i c s = (let n = sidKey (setObjs s ! i) in
     s\<lparr>curSourceSetNames := curSourceSetNames s @ [n], curSourceSets := (curSourceSets s)(n \<mapsto> i),
       curSourceNodes := (curSourceNodes s)(n \<mapsto> (case curSourceNodes s n of None \<Rightarrow> [] | Some xs \<Rightarrow> xs) @ [c]),
       curProcessed := (curProcessed s)(n \<mapsto> processed n s)\<rparr>)"

definition updateSourceSets :: "comp_list \<Rightarrow> nat \<Rightarrow> (nat \<times> atomic_comp) option \<Rightarrow> planner \<Rightarrow> (planner \<times> bool) outcome" where
  "updateSourceSets G old new s =
    (let s = (case new of None \<Rightarrow> s | Some (i, c) \<Rightarrow> add_source i c s);
         oldName = sidKey (setObjs s ! old)
     in case curSourceNodes s oldName of
          None \<Rightarrow> Inr (s, False)
        | Some [] \<Rightarrow> Inl WildAccess
        | Some (x # xs) \<Rightarrow> andThen (getNode (compName x) s) (\<lambda>_.
            let k = processed oldName s; s = s\<lparr>curProcessed := (curProcessed s)(oldName \<mapsto> k)\<rparr> in
            Inr (if length (getConsuming (outName x) G) = k then removeSource oldName s else s, True)))"

definition getSourceComputation :: "string \<Rightarrow> planner \<Rightarrow> atomic_comp option outcome" where
  "getSourceComputation n s = (case curSourceNodes s n of None \<Rightarrow> Inr None | Some [] \<Rightarrow> Inl WildAccess
     | Some (x # xs) \<Rightarrow> Inr (Some x))"

definition getNumConsumers :: "comp_list \<Rightarrow> string \<Rightarrow> planner \<Rightarrow> (planner \<times> nat) outcome" where
  "getNumConsumers G n s = (case curSourceSets s n of None \<Rightarrow> Inr (s, 0)
     | Some _ \<Rightarrow> andThen (getSourceComputation n s) (\<lambda>c. case c of None \<Rightarrow> Inl NullDeref
       | Some x \<Rightarrow> (let k = processed n s in
           Inr (s\<lparr>curProcessed := (curProcessed s)(n \<mapsto> k)\<rparr>,
             if k \<le> length (getConsuming (outName x) G) then length (getConsuming (outName x) G) - k
             else u32 (2 ^ 32 + length (getConsuming (outName x) G) - k)))))"

definition incrementConsumerIndex :: "string \<Rightarrow> planner \<Rightarrow> planner" where
  "incrementConsumerIndex n s = s\<lparr>curProcessed := (curProcessed s)(n \<mapsto> processed n s + 1)\<rparr>"

section \<open>Statistics and the choice of a source\<close>

text \<open>Sizes of sets, model sets counted as empty, and the penalised costs, which only grow by factors of
  1000 from whole megabytes and are kept as naturals.\<close>

record data_stat =
  isModelSet :: bool
  statBytes :: nat

record statistics =
  dataStatistics :: "string \<rightharpoonup> data_stat"
  penalizedCosts :: "string \<rightharpoonup> nat"

definition getNumBytes :: "string \<Rightarrow> string \<Rightarrow> statistics \<Rightarrow> nat" where
  "getNumBytes db st S = (case dataStatistics S (db @ '':'' @ st) of None \<Rightarrow> 0
     | Some d \<Rightarrow> if isModelSet d then 0 else statBytes d)"

definition getCostOfSource :: "string \<Rightarrow> statistics \<Rightarrow> planner \<Rightarrow> nat" where
  "getCostOfSource n S s = (case curSourceSets s n of None \<Rightarrow> 0
     | Some i \<Rightarrow> getNumBytes (sidDb (setObjs s ! i)) (sidName (setObjs s ! i)) S)"

definition sourceCost :: "string \<Rightarrow> statistics \<Rightarrow> planner \<Rightarrow> statistics \<times> nat" where
  "sourceCost n S s = (let c = max 1 (getCostOfSource n S s div 1000000) in
     if n \<in> set (penalizedSourceSets s)
     then let b = (case penalizedCosts S n of None \<Rightarrow> c | Some p \<Rightarrow> if p > 0 then p else c)
          in (S\<lparr>penalizedCosts := (penalizedCosts S)(n \<mapsto> b * 1000)\<rparr>, b * 1000)
     else (S, c))"

text \<open>The loop keeps the smallest cost so far (\<open>None\<close> is \<open>DBL_MAX\<close>), its index and its exact size; with
  \<open>tieLast\<close>, the compile-time switch for nearest-neighbour search, later equals win.\<close>

fun best_loop :: "bool \<Rightarrow> nat \<Rightarrow> string list \<Rightarrow> planner \<Rightarrow> statistics \<times> (nat option \<times> nat \<times> nat) \<Rightarrow>
    statistics \<times> (nat option \<times> nat \<times> nat)" where
  "best_loop tie i [] s r = r"
| "best_loop tie i (n # ns) s (S, m, b, x) =
    (case sourceCost n S s of (S, c) \<Rightarrow>
      let (m, b, x) = (if m = None \<or> c < the m then (Some c, i, getCostOfSource n S s) else (m, b, x));
          b = (if tie \<and> m = Some c then i else b)
      in best_loop tie (i + 1) ns s (S, m, b, x))"

text \<open>Without statistics the first source is taken and nothing is recorded.\<close>

definition getBestSource :: "plan_env \<Rightarrow> statistics option \<Rightarrow> planner \<Rightarrow> (planner \<times> statistics option \<times> nat) outcome" where
  "getBestSource E S s = (case S of None \<Rightarrow> Inr (s, None, 0)
     | Some S \<Rightarrow> (case best_loop (tieLast E) 0 (curSourceSetNames s) s (S, None, 0, exactSizeOfCur s) of (S, m, b, x) \<Rightarrow>
         (case m of None \<Rightarrow> Inl WildAccess
          | Some c \<Rightarrow> Inr (s\<lparr>exactSizeOfCur := x, costOfCur := c, curSourceSetName := curSourceSetNames s ! b\<rparr>, Some S, b))))"

end
