(* ===== verification/TcapAnalyzer.thy ===== *)
theory TcapAnalyzer
  imports PlanSources
begin

text \<open>
  The recursion of the physical planner (\<open>TCAPAnalyzer::analyze\<close>): it follows the computations from a
  source and cuts the graph into job stages.  One call is \<open>analyze_step\<close>, which returns or names the calls
  that follow; \<open>analyze\<close> runs them with a bound on the depth.
\<close>

section \<open>Arguments and results of a call\<close>

record call_args =
  curSource :: atomic_comp
  sourceComp :: string
  curInput :: nat
  curNode :: atomic_comp
  prevNode :: "atomic_comp option"
  isProbing :: bool
  joinType :: join_type
  myPolicy :: alloc_policy
  joinSource :: string
  prevName :: string
  hasLocalProbe :: bool
  partCompSpec :: string
  partLambdaName :: string

datatype follow = Done bool | Go call_args | GoAll "call_args list"

text \<open>Now the current node is the source.\<close>

definition as_source :: "atomic_comp \<Rightarrow> nat \<Rightarrow> atomic_comp \<Rightarrow> join_type \<Rightarrow> string \<Rightarrow> call_args" where
  "as_source node input next jt prev = \<lparr>curSource = node, sourceComp = compName node, curInput = input, curNode = next,
     prevNode = Some node, isProbing = False, joinType = jt, myPolicy = DefaultAllocator, joinSource = '''',
     prevName = prev, hasLocalProbe = False, partCompSpec = '''', partLambdaName = ''''\<rparr>"

definition stage_source :: "call_args \<Rightarrow> string" where
  "stage_source a = (if joinSource a \<noteq> '''' then joinSource a else outName (curSource a))"

text \<open>The arguments of \<open>createTupleSetJobStage\<close> that all branches pass alike.\<close>

definition stage_args :: "call_args \<Rightarrow> string \<Rightarrow> string \<Rightarrow> nat \<Rightarrow> planner \<Rightarrow> tupleset_stage" where
  "stage_args a target outType snk s = \<lparr>tsId = 0, sourceTS = stage_source a, targetTS = target, targetComp = compName (curNode a),
     buildTS = buildThese s, tsOutType = outType, sourceCtx = curInput a, sinkCtx = snk, combinerCtx = None,
     broadcasting = False, repartition = False, removeInput = False, probing = False, hashSets = [], joinTypeStr = '''',
     tsPolicy = myPolicy a, repartJoin = False, collectAsMap = False, numCollect = 0, localSink = False,
     localProbe = hasLocalProbe a, partComp = partCompSpec a, partLambda = partLambdaName a, aggHashOut = False,
     joinSourceTS = False\<rparr>"

definition emit_stage :: "tupleset_stage \<Rightarrow> (tupleset_stage \<Rightarrow> tupleset_stage) \<Rightarrow> call_args \<Rightarrow> join_type \<Rightarrow> planner \<Rightarrow> planner" where
  "emit_stage t f a jt s = (case createTupleSetJobStage t (isProbing a) jt s of (s, t) \<Rightarrow> push_stage (TupleSetStage (f t)) s)"

definition drop_input :: "plan_env \<Rightarrow> comp_list \<Rightarrow> call_args \<Rightarrow> (nat \<times> atomic_comp) option \<Rightarrow> planner \<Rightarrow> planner outcome" where
  "drop_input E G a new s = (if isDynamic E then andThen (updateSourceSets G (curInput a) new s) (\<lambda>(s, _). Inr s) else Inr s)"

section \<open>Aggregations\<close>

definition agg_produce :: "plan_env \<Rightarrow> call_args \<Rightarrow> computation \<Rightarrow> bool \<Rightarrow> int \<Rightarrow> planner \<Rightarrow> (planner \<times> nat) outcome" where
  "agg_produce E a c collect k s = (let out = outName (curNode a) in
     andThen (new_sized_set E (shufflePageSize E) (out @ ''_aggregationData'') s) (\<lambda>(s, agg).
       let (s, comb) = (if cpCombiner c then (case new_set (jobId E) (out @ ''_combinerData'') s of (s, i) \<Rightarrow> (s, Some i)) else (s, None));
           t = (stage_args a (inName (curNode a)) ''IntermediateData'' agg s)\<lparr>combinerCtx := comb, repartition := True,
                 collectAsMap := collect, numCollect := k\<rparr>
       in Inr (emit_stage t id a (joinType a) s, agg)))"

definition agg_consume :: "call_args \<Rightarrow> nat \<Rightarrow> nat \<Rightarrow> bool \<Rightarrow> planner \<Rightarrow> planner" where
  "agg_consume a agg snk mat s = (let s = createAggregationJobStage (compName (curNode a)) agg snk mat s in
     s\<lparr>interGlobalSets := interGlobalSets s @ [agg]\<rparr>)"

section \<open>A node without consumers\<close>

definition sink_step :: "plan_env \<Rightarrow> comp_list \<Rightarrow> call_args \<Rightarrow> computation \<Rightarrow> planner \<Rightarrow> (planner \<times> follow) outcome" where
  "sink_step E G a c s = andThen (outputSet c) (\<lambda>(db, st). case new_set db st s of (s, snk) \<Rightarrow>
     if is_type ''ClusterAggregationComp'' c
     then andThen (agg_produce E a c (cpCollect c) (cpNumCollect c) s) (\<lambda>(s, agg).
       andThen (drop_input E G a None (agg_consume a agg snk True s)) (\<lambda>s. Inr (s, Done True)))
     else if cpType c \<in> {''WriteUserSet'', ''SelectionComp'', ''MultiSelectionComp'', ''PartitionComp''}
     then (let t = (stage_args a (inName (curNode a)) (cpOutType c) snk s)\<lparr>repartition := is_type ''PartitionComp'' c\<rparr> in
       andThen (drop_input E G a None (emit_stage t id a (joinType a) s)) (\<lambda>s. Inr (s, Done True)))
     else Inl (FatalExit 1))"

section \<open>Joins: which lambda partitions an input\<close>

fun mentions_in :: "string \<Rightarrow> bool" where
  "mentions_in (x # y # xs) = (x = CHR ''i'' \<and> y = CHR ''n'' \<or> mentions_in (y # xs))"
| "mentions_in _ = False"

definition first_att :: "tuple_spec \<Rightarrow> string outcome" where
  "first_att sp = (case specAtts sp of [] \<Rightarrow> Inl WildAccess | x # _ \<Rightarrow> Inr x)"

definition source_of_input :: "comp_list \<Rightarrow> tuple_spec \<Rightarrow> (string \<times> string) outcome" where
  "source_of_input G inp = (case getProducing (specName inp) G of None \<Rightarrow> Inl NullDeref
     | Some p \<Rightarrow> andThen (first_att inp) (\<lambda>x. case findSource G p x of None \<Rightarrow> Inl Stuck | Some r \<Rightarrow> r))"

definition getHashSource :: "comp_list \<Rightarrow> atomic_comp \<Rightarrow> atomic_comp \<Rightarrow> (string \<times> string) outcome" where
  "getHashSource G src j = (case acKind j of
     ApplyJoin rin rproj \<Rightarrow>
       andThen (first_att (acOutput src)) (\<lambda>sa. andThen (first_att (acProjection j)) (\<lambda>la. andThen (first_att rproj) (\<lambda>ra.
         if sa = la \<or> mentions_in sa \<and> mentions_in ra \<and> sa \<noteq> ra then source_of_input G (acInput j)
         else if sa = ra \<or> mentions_in sa \<and> mentions_in la \<and> sa \<noteq> la then source_of_input G rin
         else Inr ('''', ''''))))
   | _ \<Rightarrow> Inl NullDeref)"

fun match_loop :: "lambda_db \<Rightarrow> string \<Rightarrow> string \<Rightarrow> string \<Rightarrow> lambda_id list \<Rightarrow> bool outcome" where
  "match_loop D job c lam [] = Inr False"
| "match_loop D job c lam (p # ps) =
    (if lbJob p = job \<and> lbComp p = c \<and> lbName p = lam then Inr True
     else case getLambda D job c lam of None \<Rightarrow> Inl NullDeref
       | Some q \<Rightarrow> if lbIdent p = lbIdent q \<and> lbInput p = lbInput q then Inr True else match_loop D job c lam ps)"

text \<open>The names of the lambda are set when the set has any partition lambda, whether or not one matches.\<close>

definition matchSourceWithQuery :: "plan_env \<Rightarrow> comp_list \<Rightarrow> atomic_comp \<Rightarrow> atomic_comp \<Rightarrow> (string \<times> string) option \<Rightarrow>
    (bool \<times> string \<times> string) outcome" where
  "matchSourceWithQuery E G src j st = andThen (getHashSource G src j) (\<lambda>(c, lam).
     if c = '''' \<and> lam = '''' then Inr (False, '''', '''')
     else case lambdaDb E of None \<Rightarrow> Inl NullDeref
     | Some D \<Rightarrow> (let job = takeWhile (\<lambda>x. x \<noteq> CHR ''#'') (getJobName D (jobId E)) in
         case st of None \<Rightarrow> Inl NullDeref
         | Some (db, sn) \<Rightarrow> (let ps = getPartitionLambdas D db sn in
             andThen (match_loop D job c lam ps) (\<lambda>b. Inr (if ps = [] then (False, '''', '''') else (b, c, lam))))))"

section \<open>Joins: inputs\<close>

fun index_in :: "string \<Rightarrow> string list \<Rightarrow> int \<Rightarrow> int" where
  "index_in x [] i = -1"
| "index_in x (y # ys) i = (if x = y then i else index_in x ys (i + 1))"

definition indexInInputs :: "computation \<Rightarrow> string \<Rightarrow> string \<Rightarrow> int" where
  "indexInInputs c prev ty = (let n = int (length (cpInputs c)); i = index_in prev (cpInputs c) 0;
     i = (if i < 0 \<or> i > n then index_in ty (cpInputTypes c) 0 else i)
     in if i < 0 \<or> i > n then 0 else i)"

text \<open>The loop that follows the first inputs has no bound in the source: on inputs that form a cycle it goes on
  for ever.  Here it has fuel, and running out of it is the fault \<open>Stuck\<close>; \<open>PlannerInputs\<close> shows that on
  inputs without a cycle \<open>inputDepth\<close> can be chosen so that this does not happen.\<close>

fun scan_source :: "nat \<Rightarrow> planner \<Rightarrow> string \<Rightarrow> (string \<times> string) outcome" where
  "scan_source 0 s n = Inl Stuck"
| "scan_source (Suc d) s n = (case comps s n of None \<Rightarrow> Inl NullDeref
    | Some c \<Rightarrow> if is_type ''ScanUserSet'' c then outputSet c
        else (case cpInputs c of [] \<Rightarrow> Inl NullDeref | m # _ \<Rightarrow> scan_source d s m))"

fun getSources :: "nat \<Rightarrow> planner \<Rightarrow> string list \<Rightarrow> (string \<times> string) list outcome" where
  "getSources d s [] = Inr []"
| "getSources d s (n # ns) = andThen (scan_source d s n) (\<lambda>x. andThen (getSources d s ns) (\<lambda>xs. Inr (x # xs)))"

text \<open>The loop over the scanned sets stops at the first that is not the current input; without one the
  last set stays and there is no other set.\<close>

fun other_source :: "string \<times> string \<Rightarrow> (string \<times> string) list \<Rightarrow> string \<times> string \<Rightarrow> (string \<times> string) \<times> (string \<times> string) option" where
  "other_source cur [] l = (l, None)"
| "other_source cur (x # xs) l = (if x = cur then other_source cur xs x else (x, Some x))"

section \<open>Joins: the input that builds the hash table\<close>

definition penalize :: "planner \<Rightarrow> planner" where
  "penalize s = s\<lparr>buildThese := [], penalizedSourceSets :=
     (if curSourceSetName s \<in> set (penalizedSourceSets s) then penalizedSourceSets s
      else penalizedSourceSets s @ [curSourceSetName s])\<rparr>"

definition set_index :: "call_args \<Rightarrow> computation \<Rightarrow> planner \<Rightarrow> planner" where
  "set_index a c s = upd_set (curInput a) (\<lambda>x. x\<lparr>sidIndex := indexInInputs c (prevName a) (sidDataType x)\<rparr>) s"

definition hash_partitioned :: "computation \<Rightarrow> computation" where
  "hash_partitioned c = (if cpJoinType c \<noteq> CrossProduct then c\<lparr>cpJoinType := HashPartitionedJoin\<rparr> else c)"

definition join_target :: "call_args \<Rightarrow> string" where
  "join_target a = (case prevNode a of None \<Rightarrow> inName (curNode a) | Some p \<Rightarrow> outName p)"

definition set_probe :: "string \<Rightarrow> string \<Rightarrow> planner \<Rightarrow> planner" where
  "set_probe out h s = s\<lparr>hashSetsToProbe := Some ((case hashSetsToProbe s of None \<Rightarrow> Map.empty | Some m \<Rightarrow> m)(out \<mapsto> h))\<rparr>"

definition both_match :: "plan_env \<Rightarrow> comp_list \<Rightarrow> call_args \<Rightarrow> bool \<Rightarrow> planner \<Rightarrow> (planner \<times> bool) outcome" where
  "both_match E G a mine s = andThen (getNode (compName (curNode a)) s) (\<lambda>c.
     andThen (getSources (inputDepth E) s (cpInputs c)) (\<lambda>srcs.
     let cur = setObjs s ! curInput a;
         (scanned, other) = other_source (sidDb cur, sidName cur) srcs ('''', '''');
         n = fst scanned @ '':'' @ snd scanned;
         rhs = (case curSourceNodes s n of None \<Rightarrow> [] | Some xs \<Rightarrow> xs);
         s = s\<lparr>curSourceNodes := (curSourceNodes s)(n \<mapsto> rhs)\<rparr>
     in case rhs of [] \<Rightarrow> Inr (s, False)
        | r # _ \<Rightarrow> if mine then andThen (matchSourceWithQuery E G r (curNode a) other) (\<lambda>(b, _). Inr (s, b)) else Inr (s, False)))"

definition mark_local_scan :: "call_args \<Rightarrow> planner \<Rightarrow> planner" where
  "mark_local_scan a s = upd_node (sourceComp a) (\<lambda>c. if cpType c \<in> {''ScanUserSet'', ''ScanSet''} then c\<lparr>cpLocalJoin := True\<rparr> else c) s"

definition join_partition :: "plan_env \<Rightarrow> comp_list \<Rightarrow> call_args \<Rightarrow> planner \<Rightarrow> (planner \<times> string) outcome" where
  "join_partition E G a s = (let j = curNode a; me = compName j in
     andThen (new_sized_set E (broadcastPageSize E) (outName j @ ''_repartitionData'') (s\<lparr>partitionedLHS := acId j # partitionedLHS s\<rparr>)) (\<lambda>(s, snk).
     andThen (matchSourceWithQuery E G (curSource a) j (Some (sidDb (setObjs s ! curInput a), sidName (setObjs s ! curInput a)))) (\<lambda>(mine, pc, pl).
     andThen (getNode me s) (\<lambda>c.
     andThen (both_match E G a mine (set_index a c s)) (\<lambda>(s, other).
     let h = sidKey (setObjs s ! snk) in
     if \<not> mine \<or> \<not> other
     then (let s = upd_node me hash_partitioned s; jt = cpJoinType (hash_partitioned c);
               t = (stage_args a (join_target a) ''IntermediateData'' snk s)\<lparr>repartition := True, repartJoin := True\<rparr>;
               s = emit_stage t (\<lambda>t. t\<lparr>joinTypeStr := joinTypeName jt\<rparr>) a jt s;
               s = s\<lparr>interGlobalSets := interGlobalSets s @ [snk]\<rparr>
           in Inr (createHashPartitionedJoinBuildHTJobStage (stage_source a) (join_target a) me snk h s, h))
     else (let s = mark_local_scan a (upd_node me (\<lambda>c. c\<lparr>cpJoinType := LocalJoin\<rparr>) s);
               t = (stage_args a (join_target a) ''IntermediateData'' snk s)\<lparr>repartition := True, localSink := True\<rparr>
           in Inr (emit_stage t (\<lambda>t. t\<lparr>partComp := pc, partLambda := pl\<rparr>) a LocalJoin s, h)))))))"

definition join_broadcast :: "plan_env \<Rightarrow> call_args \<Rightarrow> planner \<Rightarrow> (planner \<times> string) outcome" where
  "join_broadcast E a s = (let j = curNode a; me = compName j in
     andThen (new_sized_set E (broadcastPageSize E) (outName j @ ''_broadcastData'') s) (\<lambda>(s, snk).
     andThen (getNode me s) (\<lambda>c.
     let s = set_index a c s; h = sidKey (setObjs s ! snk);
         t = (stage_args a (join_target a) ''IntermediateData'' snk s)\<lparr>broadcasting := True\<rparr>;
         s = emit_stage t id a (cpJoinType c) s;
         s = s\<lparr>interGlobalSets := interGlobalSets s @ [snk]\<rparr>
     in Inr (createBroadcastJoinBuildHTJobStage (stage_source a) (join_target a) me snk h s, h))))"

definition join_build_step :: "plan_env \<Rightarrow> comp_list \<Rightarrow> call_args \<Rightarrow> planner \<Rightarrow> (planner \<times> follow) outcome" where
  "join_build_step E G a s =
    (if isProbing a \<and> costOfCur s \<le> joinCostThreshold E then Inr (penalize s, Done False)
     else andThen (if costOfCur s > joinCostThreshold E then join_partition E G a s else join_broadcast E a s) (\<lambda>(s, h).
       let s = set_probe (outName (curNode a)) h s; s = s\<lparr>traversedJoins := acId (curNode a) # traversedJoins s\<rparr> in
       andThen (drop_input E G a None s) (\<lambda>s. Inr (s, Done True))))"

section \<open>Joins: the input that probes\<close>

definition join_probe_step :: "plan_env \<Rightarrow> comp_list \<Rightarrow> call_args \<Rightarrow> atomic_comp \<Rightarrow> string \<Rightarrow> planner \<Rightarrow> (planner \<times> follow) outcome" where
  "join_probe_step E G a next prev s = (let j = curNode a; me = compName j; out = outName j in
     if acId j \<in> set (partitionedLHS s)
     then andThen (new_sized_set E (broadcastPageSize E) (out @ ''_probingData'') s) (\<lambda>(s, snk).
       andThen (matchSourceWithQuery E G (curSource a) j (Some (sidDb (setObjs s ! curInput a), sidName (setObjs s ! curInput a)))) (\<lambda>(mine, pc, pl).
       andThen (getNode me s) (\<lambda>c.
       let s = set_index a c s in
       if \<not> mine \<or> cpJoinType c \<noteq> LocalJoin
       then (let s = upd_node me hash_partitioned s; jt = cpJoinType (hash_partitioned c);
                 t = (stage_args a (join_target a) ''IntermediateData'' snk s)\<lparr>repartition := True, repartJoin := True\<rparr>;
                 s = emit_stage t (\<lambda>t. t\<lparr>joinTypeStr := joinTypeName jt, joinSourceTS := True\<rparr>) a jt s;
                 s = s\<lparr>interGlobalSets := interGlobalSets s @ [snk]\<rparr>
             in if buildThese s = [] then Inl WildAccess
                else let s = s\<lparr>outputForJoinSets := outputForJoinSets s @ [out], buildThese := [last (buildThese s), out]\<rparr> in
                  Inr (s, Go ((as_source j snk next jt prev)\<lparr>isProbing := True, myPolicy := myPolicy a, joinSource := outName (curSource a)\<rparr>)))
       else Inr (s\<lparr>buildThese := buildThese s @ [out], outputForJoinSets := outputForJoinSets s @ [out]\<rparr>,
              Go (a\<lparr>curNode := next, prevNode := Some j, isProbing := True, joinType := cpJoinType c, joinSource := '''', prevName := prev,
                hasLocalProbe := True, partCompSpec := pc, partLambdaName := pl\<rparr>)))))
     else Inr (s\<lparr>buildThese := buildThese s @ [out], outputForJoinSets := outputForJoinSets s @ [out]\<rparr>,
            Go (a\<lparr>curNode := next, prevNode := Some j, isProbing := True, prevName := prev,
              partCompSpec := '''', partLambdaName := ''''\<rparr>)))"

section \<open>One call\<close>

definition agg_step :: "plan_env \<Rightarrow> comp_list \<Rightarrow> call_args \<Rightarrow> computation \<Rightarrow> atomic_comp \<Rightarrow> string \<Rightarrow> planner \<Rightarrow> (planner \<times> follow) outcome" where
  "agg_step E G a c next prev s = andThen (agg_produce E a c (cpCollect c) (cpNumCollect c) s) (\<lambda>(s, agg).
     andThen (if cpMaterialize c then andThen (outputSet c) (\<lambda>(db, st). Inr (new_set db st s))
              else Inr (case new_set (jobId E) (outName (curNode a) @ ''_aggregationResult'') s of (s, i) \<Rightarrow> (upd_set i (\<lambda>x. x\<lparr>sidAgg := True\<rparr>) s, i)))
       (\<lambda>(s, snk). let s = agg_consume a agg snk (cpMaterialize c) s in
         if isDynamic E then andThen (drop_input E G a (Some (snk, curNode a)) s) (\<lambda>s. Inr (s, Done True))
         else Inr (s\<lparr>buildThese := [outName (curNode a)]\<rparr>, Go (as_source (curNode a) snk next (joinType a) prev))))"

definition one_step :: "plan_env \<Rightarrow> comp_list \<Rightarrow> call_args \<Rightarrow> computation \<Rightarrow> atomic_comp \<Rightarrow> planner \<Rightarrow> (planner \<times> follow) outcome" where
  "one_step E G a c next s =
    (if is_type ''PartitionComp'' c \<and> acKind next \<noteq> ApplyPartition then Inl (FatalExit 1)
     else let j = curNode a; prev = (if compName next \<noteq> compName j then compName j else prevName a) in
     case acKind j of
       ApplyAgg \<Rightarrow> agg_step E G a c next prev s
     | ApplyJoin _ _ \<Rightarrow> if acId j \<notin> set (traversedJoins s) then join_build_step E G a s else join_probe_step E G a next prev s
     | _ \<Rightarrow> Inr (s\<lparr>buildThese := buildThese s @ [outName j]\<rparr>, Go (a\<lparr>curNode := next, prevNode := Some j, prevName := prev,
              partCompSpec := '''', partLambdaName := ''''\<rparr>)))"

text \<open>A node with several consumers ends the stage and becomes the source of all of them.  The vector of
  tuple sets is passed by reference to every one of these calls.\<close>

definition many_sink :: "plan_env \<Rightarrow> call_args \<Rightarrow> computation \<Rightarrow> planner \<Rightarrow> (planner \<times> nat) outcome" where
  "many_sink E a c s = (let out = outName (curNode a) in
     if \<not> cpMaterialize c
     then andThen (new_sized_set E (confPageSize E) out (upd_node (compName (curNode a)) (setOutput (jobId E) out) s)) (\<lambda>(s, i).
            Inr (s\<lparr>interGlobalSets := interGlobalSets s @ [i]\<rparr>, i))
     else andThen (outputSet c) (\<lambda>(db, st). Inr (new_set db st s)))"

definition many_step :: "plan_env \<Rightarrow> comp_list \<Rightarrow> call_args \<Rightarrow> computation \<Rightarrow> atomic_comp list \<Rightarrow> planner \<Rightarrow> (planner \<times> follow) outcome" where
  "many_step E G a c nexts s = (let j = curNode a; me = compName j; out = outName j in
     andThen (many_sink E a c s) (\<lambda>(s, snk).
     if is_type ''JoinComp'' c then Inr (s, Done False)
     else andThen (if \<not> is_type ''ClusterAggregationComp'' c
         then (let s = s\<lparr>buildThese := buildThese s @ [out]\<rparr> in
               Inr (emit_stage (stage_args a out (cpOutType c) snk s) id a (joinType a) s))
         else andThen (agg_produce E a c False 0 s) (\<lambda>(s, agg). andThen (getNode me s) (\<lambda>c.
               Inr (agg_consume a agg snk (cpMaterialize c) s)))) (\<lambda>s.
       if isDynamic E then andThen (drop_input E G a (Some (snk, j)) s) (\<lambda>s. Inr (s, Done True))
       else Inr (s\<lparr>buildThese := [out]\<rparr>, GoAll (map (\<lambda>next.
              as_source j snk next (joinType a) (if compName next \<noteq> me then me else prevName a)) nexts)))))"

definition analyze_step :: "plan_env \<Rightarrow> comp_list \<Rightarrow> call_args \<Rightarrow> planner \<Rightarrow> (planner \<times> follow) outcome" where
  "analyze_step E G a s = andThen (getNode (compName (curNode a)) s) (\<lambda>c.
     let a = (if cpPolicy c \<noteq> DefaultAllocator then a\<lparr>myPolicy := cpPolicy c\<rparr> else a) in
     case getConsuming (outName (curNode a)) G of
       [] \<Rightarrow> sink_step E G a c s
     | [next] \<Rightarrow> one_step E G a c next s
     | nexts \<Rightarrow> many_step E G a c nexts s)"

section \<open>The recursion\<close>

text \<open>\<open>None\<close> says that the calls are nested deeper than \<open>d\<close>.\<close>

definition runThen :: "'a outcome option \<Rightarrow> ('a \<Rightarrow> 'b outcome option) \<Rightarrow> 'b outcome option" where
  "runThen r f = (case r of None \<Rightarrow> None | Some (Inl e) \<Rightarrow> Some (Inl e) | Some (Inr x) \<Rightarrow> f x)"

lemma runThen_simps [simp]:
  "runThen None f = None" "runThen (Some (Inl e)) f = Some (Inl e)" "runThen (Some (Inr x)) f = f x"
  by (simp_all add: runThen_def)

function analyze :: "plan_env \<Rightarrow> comp_list \<Rightarrow> nat \<Rightarrow> call_args \<Rightarrow> planner \<Rightarrow> (planner \<times> bool) outcome option"
  and analyze_all :: "plan_env \<Rightarrow> comp_list \<Rightarrow> nat \<Rightarrow> call_args list \<Rightarrow> planner \<Rightarrow> (planner \<times> bool) outcome option" where
  "analyze E G 0 a s = None"
| "analyze E G (Suc d) a s = runThen (Some (analyze_step E G a s)) (\<lambda>(s, f). case f of
     Done b \<Rightarrow> Some (Inr (s, b)) | Go a \<Rightarrow> analyze E G d a s | GoAll as \<Rightarrow> analyze_all E G d as s)"
| "analyze_all E G d [] s = Some (Inr (s, True))"
| "analyze_all E G d (a # as) s = runThen (analyze E G d a s) (\<lambda>(s, b).
     if b then analyze_all E G d as s else Some (Inr (s, False)))"
  by pat_completeness auto

termination
proof (relation "inv_image (less_than <*lex*> less_than) (\<lambda>x. case x of
        Inl (E, G, d, a, s) \<Rightarrow> (d, 0) | Inr (E, G, d, as, s) \<Rightarrow> (d, 1 + length as))")
  show "wf (inv_image (less_than <*lex*> less_than) (\<lambda>x. case x of
        Inl (E :: plan_env, G :: comp_list, d, a :: call_args, s :: planner) \<Rightarrow> (d, 0)
      | Inr (E :: plan_env, G :: comp_list, d, as :: call_args list, s :: planner) \<Rightarrow> (d, 1 + length as)))"
    by (intro wf_inv_image wf_lex_prod wf_less_than)
qed simp_all

section \<open>Sources\<close>

definition source_set :: "atomic_comp \<Rightarrow> planner \<Rightarrow> (planner \<times> nat) outcome" where
  "source_set src s = andThen (getNode (compName src) s) (\<lambda>c.
     if cpType c \<in> {''ScanUserSet'', ''ScanSet'', ''ClusterAggregationComp'', ''SelectionComp'', ''MultiSelectionComp'', ''PartitionComp''}
     then andThen (outputSet c) (\<lambda>(db, st). Inr (new_set db st s)) else Inl (FatalExit 1))"

definition first_call :: "atomic_comp \<Rightarrow> nat \<Rightarrow> atomic_comp \<Rightarrow> call_args" where
  "first_call src i node = as_source src i node UnknownJoin (compName src)"

definition analyze_consumer :: "plan_env \<Rightarrow> comp_list \<Rightarrow> nat \<Rightarrow> atomic_comp \<Rightarrow> nat \<Rightarrow> atomic_comp \<Rightarrow> planner \<Rightarrow> (planner \<times> bool) outcome option" where
  "analyze_consumer E G d src i node s = analyze E G d (first_call src i node) (s\<lparr>buildThese := [outName src]\<rparr>)"

text \<open>Static planning: a consumer that is given up ends the loop over the consumers of its source, and the
  source counts as planned.\<close>

fun analyze_consumers :: "plan_env \<Rightarrow> comp_list \<Rightarrow> nat \<Rightarrow> atomic_comp \<Rightarrow> nat \<Rightarrow> atomic_comp list \<Rightarrow> planner \<Rightarrow> (planner \<times> bool) outcome option" where
  "analyze_consumers E G d src i [] s = Some (Inr (s, True))"
| "analyze_consumers E G d src i (c # cs) s = runThen (analyze_consumer E G d src i c s) (\<lambda>(s, b).
     if b then analyze_consumers E G d src i cs s else Some (Inr (s, True)))"

definition analyze_source :: "plan_env \<Rightarrow> comp_list \<Rightarrow> nat \<Rightarrow> atomic_comp \<Rightarrow> planner \<Rightarrow> (planner \<times> bool) outcome option" where
  "analyze_source E G d src s = runThen (Some (source_set src s)) (\<lambda>(s, i).
     analyze_consumers E G d src i (getConsuming (outName src) G) s)"

fun analyze_sources :: "plan_env \<Rightarrow> comp_list \<Rightarrow> nat \<Rightarrow> atomic_comp list \<Rightarrow> planner \<Rightarrow> (planner \<times> bool) outcome option" where
  "analyze_sources E G d [] s = Some (Inr (s, True))"
| "analyze_sources E G d (c # cs) s = runThen (analyze_source E G d c s) (\<lambda>(s, b).
     if b then analyze_sources E G d cs s else Some (Inr (s, False)))"

definition analyze_plan :: "plan_env \<Rightarrow> comp_list \<Rightarrow> nat \<Rightarrow> planner \<Rightarrow> (planner \<times> bool) outcome option" where
  "analyze_plan E G d s = analyze_sources E G d (scans G) (s\<lparr>jobStageId := 0\<rparr>)"

text \<open>Dynamic planning: the constructor collects the sources, and the scheduler plans one consumer of the
  best source after the other.\<close>

fun init_sources :: "atomic_comp list \<Rightarrow> planner \<Rightarrow> planner outcome" where
  "init_sources [] s = Inr s"
| "init_sources (c # cs) s = andThen (source_set c s) (\<lambda>(s, i).
     let n = sidKey (setObjs s ! i);
         s = (if n \<in> set (curSourceSetNames s) then s
              else s\<lparr>curSourceSetNames := curSourceSetNames s @ [n], curSourceSets := (curSourceSets s)(n \<mapsto> i),
                     curProcessed := (curProcessed s)(n \<mapsto> 0)\<rparr>)
     in init_sources cs (s\<lparr>curSourceNodes := (curSourceNodes s)(n \<mapsto>
          (case curSourceNodes s n of None \<Rightarrow> [] | Some xs \<Rightarrow> xs) @ [c])\<rparr>))"

text \<open>The costs of the current source are not initialised; \<open>rawCost\<close> and \<open>rawSize\<close> are what the memory held.\<close>

definition newTCAPAnalyzer :: "plan_env \<Rightarrow> comp_list \<Rightarrow> (string \<rightharpoonup> computation) \<Rightarrow> nat \<Rightarrow> nat \<Rightarrow> planner outcome" where
  "newTCAPAnalyzer E G cs rawCost rawSize = (let s = \<lparr>comps = cs, traversedJoins = [], partitionedLHS = [], hashSetsToProbe = None,
       outputForJoinSets = [], curSourceSets = Map.empty, curSourceNodes = Map.empty, curProcessed = Map.empty,
       curSourceSetNames = [], costOfCur = rawCost, exactSizeOfCur = rawSize, curSourceSetName = '''', penalizedSourceSets = [],
       setObjs = [], jobStageId = 0, physicalPlan = [], interGlobalSets = [], buildThese = []\<rparr>
     in if isDynamic E then init_sources (scans G) s else Inr s)"

definition getNextStagesOptimized :: "plan_env \<Rightarrow> comp_list \<Rightarrow> nat \<Rightarrow> atomic_comp \<Rightarrow> nat \<Rightarrow> nat \<Rightarrow> planner \<Rightarrow> (planner \<times> bool) outcome option" where
  "getNextStagesOptimized E G d src i k s = runThen (Some (getNode (compName src) s)) (\<lambda>_.
     let cs = getConsuming (outName src) G in
     if k < length cs then runThen (analyze_consumer E G d src i (cs ! k) s) (\<lambda>(s, b). Some (Inr (s, True)))
     else Some (Inr (s, False)))"

text \<open>One round of the scheduler (\<open>QuerySchedulerServer.cc\<close>): the next consumer of the best source.  The plan
  here holds the stages of all rounds; a round that adds stages ends the scheduler's inner loop.\<close>

definition plan_round :: "plan_env \<Rightarrow> comp_list \<Rightarrow> nat \<Rightarrow> string \<Rightarrow> nat \<Rightarrow> planner \<Rightarrow> (planner \<times> bool) outcome option" where
  "plan_round E G d n k s = runThen (Some (getSourceComputation n s)) (\<lambda>src.
     case src of None \<Rightarrow> Some (Inl NullDeref) | Some src \<Rightarrow> (case curSourceSets s n of None \<Rightarrow> Some (Inl NullDeref)
     | Some i \<Rightarrow> runThen (getNextStagesOptimized E G d src i k s) (\<lambda>(s', has).
         Some (Inr (if length (physicalPlan s) < length (physicalPlan s') then (incrementConsumerIndex n s', True)
           else if has then (s', False) else (removeSource n s', False))))))"

definition one_round :: "plan_env \<Rightarrow> comp_list \<Rightarrow> nat \<Rightarrow> statistics option \<Rightarrow> planner \<Rightarrow> (planner \<times> statistics option \<times> bool) outcome option" where
  "one_round E G d S s = runThen (Some (getBestSource E S s)) (\<lambda>(s, S, b).
     let n = curSourceSetNames s ! b; k = processed n s in
     runThen (plan_round E G d n k (s\<lparr>curProcessed := (curProcessed s)(n \<mapsto> k)\<rparr>)) (\<lambda>(s, got). Some (Inr (s, S, got))))"

text \<open>The inner loop, at most \<open>rounds\<close> of it.\<close>

fun next_stages :: "plan_env \<Rightarrow> comp_list \<Rightarrow> nat \<Rightarrow> nat \<Rightarrow> statistics option \<Rightarrow> planner \<Rightarrow> (planner \<times> statistics option) outcome option" where
  "next_stages E G d 0 S s = None"
| "next_stages E G d (Suc rounds) S s = (if curSourceSetNames s = [] then Some (Inr (s, S))
     else runThen (one_round E G d S s) (\<lambda>(s, S, got). if got then Some (Inr (s, S)) else next_stages E G d rounds S s))"

end
