(* ===== verification/PlannerSafety.thy ===== *)
theory PlannerSafety
  imports TcapAnalyzer
begin

text \<open>
  What the planner keeps: job stages are numbered in order, and a stage that probes the hash table of a
  join comes after the stage that builds it.
\<close>

section \<open>The invariant\<close>

fun stage_no :: "job_stage \<Rightarrow> nat" where
  "stage_no (TupleSetStage t) = tsId t"
| "stage_no (AggStage i _ _ _ _) = i"
| "stage_no (BroadcastBuild i _ _ _ _ _) = i"
| "stage_no (PartitionedBuild i _ _ _ _ _) = i"

definition set_keys :: "planner \<Rightarrow> string list" where
  "set_keys s = map sidKey (setObjs s)"

text \<open>The hash set that a stage builds: the two build stages name it, the sink of a local join is it.\<close>

fun builds :: "string list \<Rightarrow> job_stage \<Rightarrow> string option" where
  "builds ks (TupleSetStage t) = (if localSink t then Some (ks ! sinkCtx t) else None)"
| "builds ks (AggStage _ _ _ _ _) = None"
| "builds ks (BroadcastBuild _ _ _ _ _ h) = Some h"
| "builds ks (PartitionedBuild _ _ _ _ _ h) = Some h"

fun probes :: "job_stage \<Rightarrow> string list" where
  "probes (TupleSetStage t) = map snd (hashSets t)"
| "probes _ = []"

fun sink_valid :: "nat \<Rightarrow> job_stage \<Rightarrow> bool" where
  "sink_valid n (TupleSetStage t) = (sinkCtx t < n)"
| "sink_valid n _ = True"

definition built :: "string list \<Rightarrow> job_stage list \<Rightarrow> string set" where
  "built ks xs = {h. \<exists>x \<in> set xs. builds ks x = Some h}"

definition well_probed :: "string list \<Rightarrow> job_stage list \<Rightarrow> bool" where
  "well_probed ks xs = (\<forall>k < length xs. set (probes (xs ! k)) \<subseteq> built ks (take k xs))"

definition ready :: "planner \<Rightarrow> string \<Rightarrow> bool" where
  "ready s out = (\<exists>m h. hashSetsToProbe s = Some m \<and> m out = Some h \<and> h \<in> built (set_keys s) (physicalPlan s))"

definition plan_inv :: "atomic_comp list \<Rightarrow> planner \<Rightarrow> bool" where
  "plan_inv cs s = (map stage_no (physicalPlan s) = [0..<jobStageId s] \<and>
     well_probed (set_keys s) (physicalPlan s) \<and>
     (\<forall>x \<in> set (physicalPlan s). sink_valid (length (setObjs s)) x) \<and>
     (\<forall>j \<in> set cs. acId j \<in> set (traversedJoins s) \<longrightarrow> ready s (outName j)) \<and>
     (\<forall>out \<in> set (outputForJoinSets s). ready s out))"

lemma built_append [simp]: "built ks (xs @ [x]) = built ks xs \<union> {h. builds ks x = Some h}"
  by (auto simp: built_def)

lemma well_probed_append:
  "well_probed ks (xs @ [x]) \<longleftrightarrow> well_probed ks xs \<and> set (probes x) \<subseteq> built ks xs"
  by (auto simp: well_probed_def less_Suc_eq nth_append)

lemma builds_grow: "sink_valid (length ks) x \<Longrightarrow> builds (ks @ ls) x = builds ks x"
  by (cases x) (auto simp: nth_append)

lemma built_grow: "\<forall>x \<in> set xs. sink_valid (length ks) x \<Longrightarrow> built (ks @ ls) xs = built ks xs"
  by (simp add: built_def builds_grow)

lemma well_probed_grow:
  assumes "\<forall>x \<in> set xs. sink_valid (length ks) x"
  shows "well_probed (ks @ ls) xs = well_probed ks xs"
proof -
  have "built (ks @ ls) (take k xs) = built ks (take k xs)" for k
    by (rule built_grow) (use assms in_set_takeD in fast)
  then show ?thesis by (simp add: well_probed_def)
qed

lemma sink_valid_mono: "sink_valid n x \<Longrightarrow> n \<le> m \<Longrightarrow> sink_valid m x"
  by (cases x) auto

section \<open>Steps that leave the plan alone\<close>

definition quiet :: "planner \<Rightarrow> planner \<Rightarrow> bool" where
  "quiet s s' = (physicalPlan s' = physicalPlan s \<and> jobStageId s' = jobStageId s \<and> traversedJoins s' = traversedJoins s \<and>
     hashSetsToProbe s' = hashSetsToProbe s \<and> outputForJoinSets s' = outputForJoinSets s \<and>
     (\<exists>ks. set_keys s' = set_keys s @ ks))"

named_theorems quiets \<open>operations that leave the plan alone\<close>

lemma quiet_refl [quiets]: "quiet s s"
  by (simp add: quiet_def)

lemma quiet_trans [trans]: "quiet s s' \<Longrightarrow> quiet s' s'' \<Longrightarrow> quiet s s''"
  by (auto simp: quiet_def)

lemma quietI:
  assumes "physicalPlan s' = physicalPlan s" "jobStageId s' = jobStageId s" "traversedJoins s' = traversedJoins s"
    "hashSetsToProbe s' = hashSetsToProbe s" "outputForJoinSets s' = outputForJoinSets s" "set_keys s' = set_keys s"
  shows "quiet s s'"
  using assms by (simp add: quiet_def)

lemma quiet_length: "quiet s s' \<Longrightarrow> length (setObjs s) \<le> length (setObjs s')"
  unfolding quiet_def set_keys_def by (metis length_append length_map le_add1)

lemma quiet_inv:
  assumes "quiet s s'" and "plan_inv cs s"
  shows "plan_inv cs s'"
proof -
  have q: "physicalPlan s' = physicalPlan s" "jobStageId s' = jobStageId s" "traversedJoins s' = traversedJoins s"
    "hashSetsToProbe s' = hashSetsToProbe s" "outputForJoinSets s' = outputForJoinSets s"
    using assms(1) by (auto simp: quiet_def)
  obtain ks where ks: "set_keys s' = set_keys s @ ks" using assms(1) by (auto simp: quiet_def)
  have valid: "\<forall>x \<in> set (physicalPlan s). sink_valid (length (set_keys s)) x"
    using assms(2) by (simp add: plan_inv_def set_keys_def)
  then have "ready s' out = ready s out" for out by (simp add: ready_def q ks built_grow)
  moreover have "\<forall>x \<in> set (physicalPlan s). sink_valid (length (setObjs s')) x"
    using assms(2) quiet_length [OF assms(1)] sink_valid_mono by (auto simp: plan_inv_def)
  ultimately show ?thesis
    using assms(2) well_probed_grow [OF valid] by (simp add: plan_inv_def q ks)
qed

lemma new_set_quiet [quiets]: "new_set db st s = (s', i) \<Longrightarrow> quiet s s' \<and> i < length (setObjs s') \<and> setObjs s' ! i = \<lparr>sidDb = db, sidName = st, sidAgg = False, sidPageSize = 0, sidDesired = 0, sidIndex = 0, sidDataType = ''''\<rparr>"
  by (auto simp: new_set_def quiet_def set_keys_def)

lemma upd_set_quiet [quiets]:
  assumes "\<And>x. sidKey (f x) = sidKey x"
  shows "quiet s (upd_set i f s)"
proof (rule quietI)
  have "map sidKey ((setObjs s)[i := f (setObjs s ! i)]) = map sidKey (setObjs s)"
    by (rule nth_equalityI) (simp_all, metis assms nth_list_update_eq nth_list_update_neq)
  then show "set_keys (upd_set i f s) = set_keys s" by (simp add: set_keys_def upd_set_def)
qed (simp_all add: upd_set_def)

lemma new_sized_set_quiet [quiets]:
  assumes "new_sized_set E page st s = Inr (s', i)"
  shows "quiet s s'" "i < length (setObjs s')" "sidKey (setObjs s' ! i) = jobId E @ '':'' @ st"
proof -
  obtain s1 k where n: "new_set (jobId E) st s = (s1, k)" by (cases "new_set (jobId E) st s")
  obtain d where "desired_size E page s = Inr d" and e: "s' = upd_set k (\<lambda>x. x\<lparr>sidPageSize := page, sidDesired := d\<rparr>) s1" and k: "i = k"
    using assms by (simp add: new_sized_set_def andThen_Inr_iff n) metis
  note q = new_set_quiet [OF n]
  have "quiet s1 s'" unfolding e by (rule upd_set_quiet) (simp add: sidKey_def)
  then show "quiet s s'" using q quiet_trans by blast
  show "i < length (setObjs s')" "sidKey (setObjs s' ! i) = jobId E @ '':'' @ st"
    using q by (simp_all add: e k upd_set_def sidKey_def)
qed

lemma upd_node_quiet [quiets]: "quiet s (upd_node n f s)"
  by (rule quietI) (simp_all add: upd_node_def set_keys_def)

lemma removeSource_quiet [quiets]: "quiet s (removeSource n s)"
  by (auto simp: removeSource_def set_keys_def intro!: quietI split: option.splits list.splits)

lemma add_source_quiet [quiets]: "quiet s (add_source i c s)"
  by (rule quietI) (simp_all add: add_source_def set_keys_def Let_def)

lemma updateSourceSets_quiet [quiets]:
  assumes "updateSourceSets G old new s = Inr (s', b)"
  shows "quiet s s'"
proof -
  define s1 where "s1 = (case new of None \<Rightarrow> s | Some (i, c) \<Rightarrow> add_source i c s)"
  have q1: "quiet s s1" by (auto simp: s1_def quiet_refl intro: add_source_quiet split: option.splits)
  have "quiet s1 s'"
    using assms
    by (auto simp: updateSourceSets_def Let_def s1_def [symmetric] andThen_Inr_iff quiet_refl
        intro!: quiet_trans [OF _ removeSource_quiet] quietI split: option.splits list.splits if_splits)
      (auto simp: set_keys_def)
  then show ?thesis using q1 quiet_trans by blast
qed

lemma drop_input_quiet [quiets]: "drop_input E G a new s = Inr s' \<Longrightarrow> quiet s s'"
  by (auto simp: drop_input_def andThen_Inr_iff quiet_refl intro: updateSourceSets_quiet split: if_splits)

lemma penalize_quiet [quiets]: "quiet s (penalize s)"
  by (rule quietI) (simp_all add: penalize_def set_keys_def)

lemma set_index_quiet [quiets]: "quiet s (set_index a c s)"
  unfolding set_index_def by (rule upd_set_quiet) (simp add: sidKey_def)

lemma mark_local_scan_quiet [quiets]: "quiet s (mark_local_scan a s)"
  unfolding mark_local_scan_def by (rule upd_node_quiet)

lemma field_quiet [quiets]:
  "quiet s (s\<lparr>buildThese := x\<rparr>)" "quiet s (s\<lparr>interGlobalSets := y\<rparr>)" "quiet s (s\<lparr>partitionedLHS := z\<rparr>)"
  "quiet s (s\<lparr>curSourceNodes := w\<rparr>)" "quiet s (s\<lparr>curProcessed := v\<rparr>)"
  by (auto intro!: quietI simp: set_keys_def)

lemma both_match_quiet [quiets]:
  assumes "both_match E G a mine s = Inr (s', b)"
  shows "quiet s s'"
proof -
  define cur where "cur = setObjs s ! curInput a"
  obtain c srcs where src: "getSources (inputDepth E) s (cpInputs c) = Inr srcs" "getNode (compName (curNode a)) s = Inr c"
    using assms by (auto simp: both_match_def andThen_Inr_iff)
  obtain scanned other where o: "other_source (sidDb cur, sidName cur) srcs ('''', '''') = (scanned, other)"
    by (cases "other_source (sidDb cur, sidName cur) srcs ('''', '''')")
  show ?thesis
  proof (cases "case curSourceNodes s (fst scanned @ '':'' @ snd scanned) of None \<Rightarrow> [] | Some xs \<Rightarrow> xs")
    case Nil
    then show ?thesis
      using assms src o
      by (auto simp: both_match_def andThen_def Let_def cur_def [symmetric] intro: field_quiet)
  next
    case (Cons r rs)
    then show ?thesis
      using assms src o
      by (auto simp: both_match_def andThen_def Let_def cur_def [symmetric] intro: field_quiet split: if_splits sum.splits)
  qed
qed

section \<open>Steps that add a stage\<close>

text \<open>The plan grows by one stage, which has the next number.\<close>

definition adds :: "job_stage \<Rightarrow> planner \<Rightarrow> planner \<Rightarrow> bool" where
  "adds x s s' = (physicalPlan s' = physicalPlan s @ [x] \<and> jobStageId s' = jobStageId s + 1 \<and> stage_no x = jobStageId s \<and>
     setObjs s' = setObjs s \<and> traversedJoins s' = traversedJoins s \<and> hashSetsToProbe s' = hashSetsToProbe s \<and>
     comps s' = comps s \<and> set (outputForJoinSets s') \<subseteq> set (outputForJoinSets s))"

lemma adds_inv:
  assumes "plan_inv cs s" and "adds x s s'" and "set (probes x) \<subseteq> built (set_keys s) (physicalPlan s)"
    and "sink_valid (length (setObjs s)) x"
  shows "plan_inv cs s'"
proof -
  have a: "physicalPlan s' = physicalPlan s @ [x]" "jobStageId s' = jobStageId s + 1" "stage_no x = jobStageId s"
    "setObjs s' = setObjs s" "traversedJoins s' = traversedJoins s" "hashSetsToProbe s' = hashSetsToProbe s"
    "set (outputForJoinSets s') \<subseteq> set (outputForJoinSets s)"
    using assms(2) by (auto simp: adds_def)
  have keys: "set_keys s' = set_keys s" by (simp add: a set_keys_def)
  have "ready s out \<Longrightarrow> ready s' out" for out by (auto simp: ready_def keys a(1,6))
  then show ?thesis
    using assms(1,3,4) a(7) by (auto simp: plan_inv_def keys a(1-5) well_probed_append)
qed

lemma take_hash_sets_known:
  "\<forall>x \<in> set xs. m x \<noteq> None \<Longrightarrow> take_hash_sets xs m = (m, map (\<lambda>x. (x, the (m x))) xs)"
  by (induction xs arbitrary: m) (auto simp: fun_upd_idem Let_def)

lemma create_fields:
  assumes "createTupleSetJobStage t w jt s = (s', u)"
    and "\<And>m. hashSetsToProbe s = Some m \<Longrightarrow> \<forall>x \<in> set (outputForJoinSets s). m x \<noteq> None"
  shows "physicalPlan s' = physicalPlan s \<and> jobStageId s' = jobStageId s + 1 \<and> tsId u = jobStageId s \<and>
    setObjs s' = setObjs s \<and> traversedJoins s' = traversedJoins s \<and> hashSetsToProbe s' = hashSetsToProbe s \<and>
    comps s' = comps s \<and> set (outputForJoinSets s') \<subseteq> set (outputForJoinSets s) \<and>
    localSink u = localSink t \<and> sinkCtx u = sinkCtx t \<and>
    (hashSets u = [] \<or> (\<exists>m. hashSetsToProbe s = Some m \<and> hashSets u = map (\<lambda>x. (x, the (m x))) (outputForJoinSets s)))"
proof (cases "\<exists>m. hashSetsToProbe s = Some m \<and> outputForJoinSets s \<noteq> [] \<and> w")
  case True
  then obtain m where m: "hashSetsToProbe s = Some m" "outputForJoinSets s \<noteq> []" "w" by blast
  note hs = take_hash_sets_known [OF assms(2) [OF m(1)]]
  show ?thesis
    using assms(1) by (cases "sidAgg (setObjs s ! sourceCtx t)") (clarsimp simp: createTupleSetJobStage_def Let_def m hs)+
next
  case False
  then show ?thesis
    using assms(1) by (cases "sidAgg (setObjs s ! sourceCtx t)"; cases w; cases "hashSetsToProbe s")
      (clarsimp simp: createTupleSetJobStage_def Let_def)+
qed

text \<open>A stage changed after its creation in fields that the invariant does not look at.\<close>

definition keeps_stage :: "(tupleset_stage \<Rightarrow> tupleset_stage) \<Rightarrow> bool" where
  "keeps_stage f = (\<forall>t. tsId (f t) = tsId t \<and> hashSets (f t) = hashSets t \<and> localSink (f t) = localSink t \<and> sinkCtx (f t) = sinkCtx t)"

lemma emit_adds:
  assumes "plan_inv cs s" and "keeps_stage f" and "s' = emit_stage t f a jt s"
  obtains u where "adds (TupleSetStage u) s s'" "localSink u = localSink t" "sinkCtx u = sinkCtx t"
    "set (map snd (hashSets u)) \<subseteq> built (set_keys s) (physicalPlan s)"
proof -
  obtain s1 u where c: "createTupleSetJobStage t (isProbing a) jt s = (s1, u)"
    by (cases "createTupleSetJobStage t (isProbing a) jt s")
  have r: "\<forall>x \<in> set (outputForJoinSets s). \<exists>h. m x = Some h \<and> h \<in> built (set_keys s) (physicalPlan s)"
    if "hashSetsToProbe s = Some m" for m using assms(1) that by (auto simp: plan_inv_def ready_def)
  have f: "tsId (f u) = tsId u" "hashSets (f u) = hashSets u" "localSink (f u) = localSink u" "sinkCtx (f u) = sinkCtx u"
    using assms(2) by (simp_all add: keeps_stage_def)
  have cf: "physicalPlan s1 = physicalPlan s" "jobStageId s1 = jobStageId s + 1" "tsId u = jobStageId s"
    "setObjs s1 = setObjs s" "traversedJoins s1 = traversedJoins s" "hashSetsToProbe s1 = hashSetsToProbe s"
    "comps s1 = comps s" "set (outputForJoinSets s1) \<subseteq> set (outputForJoinSets s)" "localSink u = localSink t" "sinkCtx u = sinkCtx t"
    "hashSets u = [] \<or> (\<exists>m. hashSetsToProbe s = Some m \<and> hashSets u = map (\<lambda>x. (x, the (m x))) (outputForJoinSets s))"
    using create_fields [OF c] r by fastforce+
  show thesis
  proof (rule that [of "f u"])
    show "adds (TupleSetStage (f u)) s s'" using cf f by (simp add: adds_def assms(3) emit_stage_def c push_stage_def)
    show "localSink (f u) = localSink t" "sinkCtx (f u) = sinkCtx t" using cf f by simp_all
    show "set (map snd (hashSets (f u))) \<subseteq> built (set_keys s) (physicalPlan s)"
      using cf(11) r by (fastforce simp: f)
  qed
qed

section \<open>Where the recursion goes\<close>

fun targets :: "follow \<Rightarrow> atomic_comp list" where
  "targets (Done b) = []"
| "targets (Go a) = [curNode a]"
| "targets (GoAll as) = map curNode as"

definition goes_to :: "atomic_comp set \<Rightarrow> planner \<times> follow \<Rightarrow> bool" where
  "goes_to X r = (set (targets (snd r)) \<subseteq> X)"

lemma curNode_as_source [simp]: "curNode (as_source j i next jt prev) = next"
  by (simp add: as_source_def)

lemma sink_step_targets: "onInr (goes_to X) (sink_step E G a c s)"
  unfolding sink_step_def by (intro succeeds onInr_andThen_any) (simp_all add: goes_to_def)

lemma agg_step_targets: "next \<in> X \<Longrightarrow> onInr (goes_to X) (agg_step E G a c next prev s)"
  unfolding agg_step_def by (intro succeeds onInr_andThen_any) (simp_all add: goes_to_def)

lemma join_build_step_targets: "onInr (goes_to X) (join_build_step E G a s)"
  unfolding join_build_step_def by (intro succeeds onInr_andThen_any) (simp_all add: goes_to_def)

lemma join_probe_step_targets: "next \<in> X \<Longrightarrow> onInr (goes_to X) (join_probe_step E G a next prev s)"
  unfolding join_probe_step_def by (intro succeeds onInr_andThen_any) (simp_all add: goes_to_def)

lemma one_step_targets: "next \<in> X \<Longrightarrow> onInr (goes_to X) (one_step E G a c next s)"
  unfolding one_step_def
  by (intro succeeds) (auto split: atomic_kind.splits intro!: agg_step_targets join_build_step_targets join_probe_step_targets
      onInr_Inr simp: goes_to_def)

lemma many_step_targets: "set nexts \<subseteq> X \<Longrightarrow> onInr (goes_to X) (many_step E G a c nexts s)"
  unfolding many_step_def by (intro succeeds onInr_andThen_any) (simp_all add: goes_to_def image_image)

lemma analyze_step_targets:
  "onInr (goes_to (set (getConsuming (outName (curNode a)) G))) (analyze_step E G a s)"
proof -
  have "onInr (goes_to (set xs)) (case xs of [] \<Rightarrow> sink_step E G a c s
     | [next] \<Rightarrow> one_step E G a c next s | nexts \<Rightarrow> many_step E G a c nexts s)" for a c xs
    by (auto split: list.splits intro!: sink_step_targets one_step_targets many_step_targets)
  then show ?thesis
    unfolding analyze_step_def by (intro onInr_andThen_any) (simp add: Let_def)
qed

section \<open>Operations that keep the invariant\<close>

definition plan_keeps :: "atomic_comp list \<Rightarrow> planner \<Rightarrow> planner \<Rightarrow> bool" where
  "plan_keeps cs s s' = ((\<exists>ks. set_keys s' = set_keys s @ ks) \<and> (plan_inv cs s \<longrightarrow>
     plan_inv cs s' \<and> built (set_keys s) (physicalPlan s) \<subseteq> built (set_keys s') (physicalPlan s')))"

lemma plan_keeps_refl: "plan_keeps cs s s"
  by (simp add: plan_keeps_def)

lemma plan_keeps_trans [trans]: "plan_keeps cs s s' \<Longrightarrow> plan_keeps cs s' s'' \<Longrightarrow> plan_keeps cs s s''"
  unfolding plan_keeps_def by (metis append_assoc subset_trans)

lemma plan_keepsD: "plan_keeps cs s s' \<Longrightarrow> plan_inv cs s \<Longrightarrow> plan_inv cs s'"
  by (simp add: plan_keeps_def)

lemma plan_keeps_length: "plan_keeps cs s s' \<Longrightarrow> length (setObjs s) \<le> length (setObjs s')"
  unfolding plan_keeps_def set_keys_def by (metis length_append length_map le_add1)

lemma quiet_keeps:
  assumes "quiet s s'"
  shows "plan_keeps cs s s'"
proof -
  obtain ks where ks: "set_keys s' = set_keys s @ ks" "physicalPlan s' = physicalPlan s"
    using assms by (auto simp: quiet_def)
  then have "plan_inv cs s \<Longrightarrow> built (set_keys s') (physicalPlan s') = built (set_keys s) (physicalPlan s)"
    by (simp add: built_grow plan_inv_def set_keys_def)
  then show ?thesis using ks quiet_inv [OF assms] by (auto simp: plan_keeps_def)
qed

lemma adds_keeps:
  assumes "adds x s s'" and "plan_inv cs s \<Longrightarrow> set (probes x) \<subseteq> built (set_keys s) (physicalPlan s)"
    and "sink_valid (length (setObjs s)) x"
  shows "plan_keeps cs s s'"
  using assms adds_inv [OF _ assms(1) _ assms(3)] by (auto simp: plan_keeps_def adds_def set_keys_def)

lemma emit_keeps:
  assumes "keeps_stage f" and "sinkCtx t < length (setObjs s)"
  shows "plan_inv cs s \<Longrightarrow> plan_keeps cs s (emit_stage t f a jt s)"
    and "plan_inv cs s \<Longrightarrow> setObjs (emit_stage t f a jt s) = setObjs s"
    and "plan_inv cs s \<Longrightarrow> localSink t \<Longrightarrow> set_keys s ! sinkCtx t \<in> built (set_keys s) (physicalPlan (emit_stage t f a jt s))"
proof -
  assume i: "plan_inv cs s"
  obtain u where u: "adds (TupleSetStage u) s (emit_stage t f a jt s)" "localSink u = localSink t" "sinkCtx u = sinkCtx t"
    "set (map snd (hashSets u)) \<subseteq> built (set_keys s) (physicalPlan s)"
    by (rule emit_adds [OF i assms(1) refl])
  show "plan_keeps cs s (emit_stage t f a jt s)" by (rule adds_keeps [OF u(1)]) (use u assms(2) in auto)
  show "setObjs (emit_stage t f a jt s) = setObjs s" using u(1) by (simp add: adds_def)
  show "localSink t \<Longrightarrow> set_keys s ! sinkCtx t \<in> built (set_keys s) (physicalPlan (emit_stage t f a jt s))"
    using u(1-3) by (simp add: adds_def)
qed

lemma agg_stage_keeps: "plan_keeps cs s (createAggregationJobStage agg src snk mat s)"
  by (rule adds_keeps [where x = "AggStage (jobStageId s) agg src snk mat"])
    (simp_all add: adds_def createAggregationJobStage_def push_stage_def)

lemma broadcast_stage_keeps:
  "plan_keeps cs s (createBroadcastJoinBuildHTJobStage src tgt tc ctx h s)"
  "h \<in> built ks (physicalPlan (createBroadcastJoinBuildHTJobStage src tgt tc ctx h s))"
  by (rule adds_keeps [where x = "BroadcastBuild (jobStageId s) src tgt tc ctx h"])
    (simp_all add: adds_def createBroadcastJoinBuildHTJobStage_def push_stage_def)

lemma partitioned_stage_keeps:
  "plan_keeps cs s (createHashPartitionedJoinBuildHTJobStage src tgt tc ctx h s)"
  "h \<in> built ks (physicalPlan (createHashPartitionedJoinBuildHTJobStage src tgt tc ctx h s))"
  by (rule adds_keeps [where x = "PartitionedBuild (jobStageId s) src tgt tc ctx h"])
    (simp_all add: adds_def createHashPartitionedJoinBuildHTJobStage_def push_stage_def)

lemma stage_args_sink [simp]: "sinkCtx (stage_args a tgt ty snk s) = snk" "localSink (stage_args a tgt ty snk s) = False"
  by (simp_all add: stage_args_def)

lemma keeps_stage_simps [simp]: "keeps_stage id" "keeps_stage (\<lambda>t. t\<lparr>joinTypeStr := j\<rparr>)"
  "keeps_stage (\<lambda>t. t\<lparr>joinTypeStr := j, joinSourceTS := b\<rparr>)" "keeps_stage (\<lambda>t. t\<lparr>partComp := p, partLambda := q\<rparr>)"
  by (simp_all add: keeps_stage_def)

definition safe_to :: "atomic_comp list \<Rightarrow> planner \<times> 'a \<Rightarrow> bool" where
  "safe_to cs r = plan_inv cs (fst r)"

lemma agg_consume_keeps: "plan_keeps cs s (agg_consume a agg snk mat s)"
  unfolding agg_consume_def Let_def by (rule plan_keeps_trans [OF agg_stage_keeps quiet_keeps]) (rule field_quiet)

lemma new_sized_set_keeps:
  "onInr (\<lambda>(s', i). plan_keeps cs s s' \<and> i < length (setObjs s')) (new_sized_set E page st s)"
  by (rule onInrI) (auto dest: new_sized_set_quiet intro: quiet_keeps)

lemma emit_safe:
  "plan_inv cs s \<Longrightarrow> keeps_stage f \<Longrightarrow> sinkCtx t < length (setObjs s) \<Longrightarrow> plan_inv cs (emit_stage t f a jt s)"
  using emit_keeps(1) plan_keepsD by blast

lemma combiner_quiet:
  "(if b then (case new_set db st s of (s, i) \<Rightarrow> (s, Some i)) else (s, None)) = (s', r) \<Longrightarrow> quiet s s'"
  by (auto simp: quiet_refl dest: new_set_quiet split: if_splits prod.splits)

lemma agg_produce_safe:
  assumes "plan_inv cs s"
  shows "onInr (safe_to cs) (agg_produce E a c collect k s)"
  unfolding agg_produce_def
proof (intro succeeds onInr_andThen [OF new_sized_set_keeps [of cs]], goal_cases)
  case (1 out x s1 agg y s2 comb t)
  then have "plan_inv cs s1" "agg < length (setObjs s1)" "quiet s1 s2"
    using assms plan_keepsD combiner_quiet by fastforce+
  then have "plan_inv cs s2" "agg < length (setObjs s2)"
    using quiet_inv quiet_length less_le_trans by blast+
  then show ?case using 1 by (simp add: safe_to_def emit_safe)
qed

lemma agg_consume_safe: "plan_inv cs s \<Longrightarrow> plan_inv cs (agg_consume a agg snk mat s)"
  using agg_consume_keeps plan_keepsD by blast

lemma drop_input_safe: "plan_inv cs s \<Longrightarrow> onInr (plan_inv cs) (drop_input E G a new s)"
  by (rule onInrI) (metis drop_input_quiet quiet_inv)

lemma then_done:
  "plan_inv cs s \<Longrightarrow> onInr (safe_to cs) (andThen (drop_input E G a new s) (\<lambda>s. Inr (s, Done b)))"
  by (rule onInr_andThen [OF drop_input_safe], assumption) (simp add: onInr_Inr safe_to_def)

lemma safe_bind:
  "onInr (safe_to cs) r \<Longrightarrow> (\<And>s x. plan_inv cs s \<Longrightarrow> onInr P (f s x)) \<Longrightarrow> onInr P (andThen r (\<lambda>(s, x). f s x))"
  by (erule onInr_andThen) (auto simp: safe_to_def)

lemma new_set_safe: "plan_inv cs s \<Longrightarrow> new_set db st s = (s', i) \<Longrightarrow> plan_inv cs s' \<and> i < length (setObjs s')"
  using new_set_quiet quiet_inv by blast

lemma sink_step_safe:
  assumes "plan_inv cs s"
  shows "onInr (safe_to cs) (sink_step E G a c s)"
  unfolding sink_step_def
proof (intro succeeds onInr_andThen_any [of "outputSet c"], goal_cases)
  case (1 x db st s1 snk)
  then have "plan_inv cs s1" using assms new_set_safe by blast
  then show ?case by (intro safe_bind [OF agg_produce_safe] then_done agg_consume_safe)
next
  case (2 x db st s1 snk t)
  then have "plan_inv cs s1" "snk < length (setObjs s1)" using assms new_set_safe by blast+
  then show ?case by (intro then_done emit_safe) (simp_all add: 2)
qed

lemma plan_inv_quietly: "plan_inv cs s \<Longrightarrow> plan_inv cs (s\<lparr>buildThese := x\<rparr>)" "plan_inv cs s \<Longrightarrow> plan_inv cs (s\<lparr>interGlobalSets := y\<rparr>)"
  "plan_inv cs s \<Longrightarrow> plan_inv cs (upd_node n f s)" "plan_inv cs s \<Longrightarrow> plan_inv cs (set_index a c s)"
  "plan_inv cs s \<Longrightarrow> plan_inv cs (mark_local_scan a s)" "plan_inv cs s \<Longrightarrow> plan_inv cs (penalize s)"
  "plan_inv cs s \<Longrightarrow> plan_inv cs (s\<lparr>partitionedLHS := z\<rparr>)"
  by (rule quiet_inv; (rule quiets | assumption))+

lemma fresh_result_safe:
  assumes "plan_inv cs s"
  shows "onInr (\<lambda>(s, i). plan_inv cs s) (if m then andThen (outputSet c) (\<lambda>(db, st). Inr (new_set db st s))
     else Inr (case new_set db' st' s of (s, i) \<Rightarrow> (upd_set i (\<lambda>x. x\<lparr>sidAgg := True\<rparr>) s, i)))"
  using assms
  by (intro succeeds onInr_andThen_any) (auto dest: new_set_safe intro!: quiet_inv [OF upd_set_quiet] simp: sidKey_def split: prod.splits)

lemma agg_step_safe:
  assumes "plan_inv cs s"
  shows "onInr (safe_to cs) (agg_step E G a c next prev s)"
  unfolding agg_step_def
proof (intro safe_bind [OF agg_produce_safe [OF assms]] onInr_andThen [OF fresh_result_safe [of cs]] succeeds, goal_cases)
  case (2 s1 agg x s2 snk s3)
  then show ?case by (intro then_done) (simp add: agg_consume_safe)
qed (simp_all add: safe_to_def plan_inv_quietly agg_consume_safe)

lemma many_sink_safe:
  assumes "plan_inv cs s"
  shows "onInr (\<lambda>(s, i). plan_inv cs s \<and> i < length (setObjs s)) (many_sink E a c s)"
  unfolding many_sink_def
proof (intro succeeds onInr_andThen [OF new_sized_set_keeps [of cs]] onInr_andThen_any [of "outputSet c"], goal_cases)
  case (1 out x s1 i)
  then show ?case using assms plan_keepsD plan_inv_quietly by fastforce
next
  case (2 out x db st)
  then show ?case using assms new_set_safe by (cases "new_set db st s") auto
qed

lemma many_step_safe:
  assumes "plan_inv cs s"
  shows "onInr (safe_to cs) (many_step E G a c nexts s)"
  unfolding many_step_def
proof (intro succeeds onInr_andThen [OF many_sink_safe [OF assms]], goal_cases)
  case (2 j me out sunk s1 snk)
  then have 1: "plan_inv cs s1" "snk < length (setObjs s1)" by simp_all
  have 3: "onInr (plan_inv cs) (if \<not> is_type ''ClusterAggregationComp'' c
         then (let s = s1\<lparr>buildThese := buildThese s1 @ [out]\<rparr> in
               Inr (emit_stage (stage_args a out (cpOutType c) snk s) id a (joinType a) s))
         else andThen (agg_produce E a c False 0 s1) (\<lambda>(s, agg). andThen (getNode me s) (\<lambda>c.
               Inr (agg_consume a agg snk (cpMaterialize c) s))))"
    using 1 by (intro succeeds safe_bind [OF agg_produce_safe [of cs]] onInr_andThen_any [of "getNode me s" for s] agg_consume_safe
      emit_safe plan_inv_quietly) (simp_all add: plan_inv_quietly)
  then show ?case
  proof (rule onInr_andThen)
    fix s2 assume "plan_inv cs s2"
    then show "onInr (safe_to cs) (if isDynamic E then andThen (drop_input E G a (Some (snk, j)) s2) (\<lambda>s. Inr (s, Done True))
       else Inr (s2\<lparr>buildThese := [out]\<rparr>, GoAll (map (\<lambda>next.
              as_source j snk next (joinType a) (if compName next \<noteq> me then me else prevName a)) nexts)))"
      by (intro succeeds then_done) (simp_all add: safe_to_def plan_inv_quietly)
  qed
qed (simp add: safe_to_def)

section \<open>Joins\<close>

lemma ready_mono:
  assumes "plan_keeps cs s s'" and "plan_inv cs s" and "hashSetsToProbe s' = hashSetsToProbe s" and "ready s out"
  shows "ready s' out"
  using assms by (auto simp: ready_def plan_keeps_def)

lemma set_probe_inv:
  assumes "plan_inv cs s" and "h \<in> built (set_keys s) (physicalPlan s)"
    and "\<forall>j \<in> set cs. acId j = i \<longrightarrow> outName j = out"
  shows "plan_inv cs ((set_probe out h s)\<lparr>traversedJoins := i # traversedJoins s\<rparr>)"
proof -
  let ?s = "(set_probe out h s)\<lparr>traversedJoins := i # traversedJoins s\<rparr>"
  have keys: "set_keys ?s = set_keys s" by (simp add: set_keys_def set_probe_def)
  have "ready s x \<Longrightarrow> ready ?s x" "ready ?s out" for x
    using assms(2) by (auto simp: ready_def keys) (auto simp: set_probe_def)
  then show ?thesis
    using assms(1,3) by (auto simp: plan_inv_def keys) (auto simp: set_probe_def)
qed

lemma broadcast_stage_safe: "plan_inv cs s \<Longrightarrow> plan_inv cs (createBroadcastJoinBuildHTJobStage src tgt tc ctx h s)"
  by (rule plan_keepsD [OF broadcast_stage_keeps(1)])

lemma partitioned_stage_safe: "plan_inv cs s \<Longrightarrow> plan_inv cs (createHashPartitionedJoinBuildHTJobStage src tgt tc ctx h s)"
  by (rule plan_keepsD [OF partitioned_stage_keeps(1)])

definition builds_for :: "atomic_comp list \<Rightarrow> planner \<times> string \<Rightarrow> bool" where
  "builds_for cs r = (plan_inv cs (fst r) \<and> snd r \<in> built (set_keys (fst r)) (physicalPlan (fst r)))"

lemma join_broadcast_safe:
  assumes "plan_inv cs s"
  shows "onInr (builds_for cs) (join_broadcast E a s)"
  unfolding join_broadcast_def
proof (intro succeeds onInr_andThen [OF new_sized_set_keeps [of cs]] onInr_andThen_any, goal_cases)
  case (1 j me x s1 snk c s2 h t s3 s4)
  have "plan_inv cs s1" "snk < length (setObjs s1)" using 1 assms plan_keepsD by blast+
  then have "plan_inv cs s2" "snk < length (setObjs s2)"
    using 1 set_index_quiet quiet_inv quiet_length less_le_trans by blast+
  then have "plan_inv cs s4" using 1 by (simp add: plan_inv_quietly emit_safe)
  then show ?case using 1 by (simp add: builds_for_def broadcast_stage_keeps(2) broadcast_stage_safe)
qed

lemma match_safe:
  assumes "plan_inv cs s" and "snk < length (setObjs s)" and "both_match E G a mine (set_index a c s) = Inr (s', other)"
  shows "plan_inv cs s'" and "snk < length (setObjs s')"
proof -
  have "quiet s s'" using both_match_quiet [OF assms(3)] set_index_quiet quiet_trans by blast
  then show "plan_inv cs s'" "snk < length (setObjs s')" using assms quiet_inv quiet_length less_le_trans by blast+
qed

lemma local_sink_builds:
  assumes "plan_inv cs s" and "keeps_stage f" and "localSink t" and "sinkCtx t < length (setObjs s)"
  shows "builds_for cs (emit_stage t f a jt s, sidKey (setObjs s ! sinkCtx t))"
  using emit_keeps [OF assms(2,4,1)] emit_safe [OF assms(1,2,4)] assms(3,4)
  by (simp add: builds_for_def set_keys_def)

lemma node_objs [simp]: "setObjs (upd_node n f s) = setObjs s" "setObjs (mark_local_scan a s) = setObjs s"
  by (simp_all add: upd_node_def mark_local_scan_def)

lemma join_partition_safe:
  assumes "plan_inv cs s"
  shows "onInr (builds_for cs) (join_partition E G a s)"
  unfolding join_partition_def
proof (intro succeeds onInr_andThen [OF new_sized_set_keeps [of cs]] onInr_andThen_any, goal_cases)
  case (1 j me x s1 snk y mine r pc pl c z s2 other h s3 jt t s4 s5)
  then have s1: "plan_inv cs s1" "snk < length (setObjs s1)" using assms plan_keepsD plan_inv_quietly(7) by blast+
  have "plan_inv cs s2" "snk < length (setObjs s2)" using match_safe [OF s1] 1 by blast+
  then have "plan_inv cs s5" by (simp add: 1(10-) plan_inv_quietly emit_safe)
  then show ?case by (simp add: builds_for_def partitioned_stage_keeps(2) partitioned_stage_safe)
next
  case (2 j me x s1 snk y mine r pc pl c z s2 other h s3 t)
  then have s1: "plan_inv cs s1" "snk < length (setObjs s1)" using assms plan_keepsD plan_inv_quietly(7) by blast+
  have "plan_inv cs s2" "snk < length (setObjs s2)" using match_safe [OF s1] 2 by blast+
  then have "builds_for cs (emit_stage t (\<lambda>t. t\<lparr>partComp := pc, partLambda := pl\<rparr>) a LocalJoin s3, sidKey (setObjs s3 ! sinkCtx t))"
    by (intro local_sink_builds) (simp_all add: 2(10-) plan_inv_quietly)
  then show ?case by (simp add: 2(10-))
qed

lemma join_build_step_safe:
  assumes "plan_inv cs s" and "distinct (map acId cs)" and "curNode a \<in> set cs"
  shows "onInr (safe_to cs) (join_build_step E G a s)"
proof -
  have b: "onInr (builds_for cs) (if costOfCur s > joinCostThreshold E then join_partition E G a s else join_broadcast E a s)"
    by (intro succeeds join_partition_safe join_broadcast_safe assms)
  have same: "\<forall>j \<in> set cs. acId j = acId (curNode a) \<longrightarrow> outName j = outName (curNode a)"
    using assms(2,3) by (metis distinct_map inj_onD)
  show ?thesis
    unfolding join_build_step_def
  proof (intro succeeds onInr_andThen [OF b] then_done, goal_cases)
    case (2 x s1 h s2 s3)
    then show ?case using set_probe_inv [OF _ _ same] by (simp add: builds_for_def set_probe_def)
  qed (simp add: safe_to_def plan_inv_quietly assms)
qed

lemma add_probe_inv:
  assumes "plan_inv cs s" and "j \<in> set cs" and "acId j \<in> set (traversedJoins s)"
  shows "plan_inv cs (s\<lparr>buildThese := b, outputForJoinSets := outputForJoinSets s @ [outName j]\<rparr>)"
    "plan_inv cs (s\<lparr>outputForJoinSets := outputForJoinSets s @ [outName j], buildThese := b\<rparr>)"
  using assms by (auto simp: plan_inv_def ready_def set_keys_def)

lemma emit_joins: "plan_inv cs s \<Longrightarrow> keeps_stage f \<Longrightarrow> traversedJoins (emit_stage t f a jt s) = traversedJoins s"
  by (rule emit_adds [where cs = cs and f = f and s = s]) (auto simp: adds_def)

lemma upd_joins [simp]: "traversedJoins (upd_node n f s) = traversedJoins s" "traversedJoins (set_index a c s) = traversedJoins s"
  by (simp_all add: upd_node_def set_index_def upd_set_def)

lemma join_probe_step_safe:
  assumes "plan_inv cs s" and "curNode a \<in> set cs" and "acId (curNode a) \<in> set (traversedJoins s)"
  shows "onInr (safe_to cs) (join_probe_step E G a next prev s)"
  unfolding join_probe_step_def
proof (intro succeeds onInr_andThen_any, goal_cases)
  case (1 j me out x s1 snk y mine r pc pl c s2 s3 jt t s4 s5 s6)
  then have q: "quiet s s2" using new_sized_set_quiet(1) set_index_quiet quiet_trans by blast
  have "snk < length (setObjs s1)" using 1 new_sized_set_quiet(2) by blast
  moreover have "setObjs s2 = setObjs s1 \<or> length (setObjs s2) = length (setObjs s1)" "traversedJoins s2 = traversedJoins s"
    using q by (simp_all add: 1 quiet_def set_index_def upd_set_def)
  ultimately have "plan_inv cs s2" "snk < length (setObjs s2)" "acId (curNode a) \<in> set (traversedJoins s2)"
    using quiet_inv [OF q assms(1)] assms(3) by auto
  then have "plan_inv cs s5" "acId (curNode a) \<in> set (traversedJoins s5)"
    by (simp_all add: 1(13-) plan_inv_quietly emit_safe emit_joins [of cs])
  then show ?case using assms(2) by (simp add: safe_to_def add_probe_inv 1(1-3) 1(19-))
next
  case (2 j me out x s1 snk y mine r pc pl c s2)
  then have q: "quiet s s2" using new_sized_set_quiet(1) set_index_quiet quiet_trans by blast
  then have "plan_inv cs s2" "acId (curNode a) \<in> set (traversedJoins s2)"
    using assms(3) quiet_inv [OF q assms(1)] by (auto simp: quiet_def)
  then show ?case by (simp add: safe_to_def 2(1,3) add_probe_inv(1) [OF _ assms(2)])
next
  case (3 j me out)
  then show ?case using assms by (simp add: safe_to_def add_probe_inv)
qed

lemma one_step_safe:
  assumes "plan_inv cs s" and "distinct (map acId cs)" and "curNode a \<in> set cs"
  shows "onInr (safe_to cs) (one_step E G a c next s)"
proof -
  have "safe_to cs (s\<lparr>buildThese := b\<rparr>, f)" for b and f :: follow by (simp add: safe_to_def plan_inv_quietly assms)
  then show ?thesis
    unfolding one_step_def Let_def
    by (intro succeeds; cases "acKind (curNode a)")
      (auto intro!: succeeds agg_step_safe join_build_step_safe join_probe_step_safe assms)
qed

lemma analyze_step_safe:
  assumes "plan_inv cs s" and "distinct (map acId cs)" and "curNode a \<in> set cs"
  shows "onInr (safe_to cs) (analyze_step E G a s)"
proof -
  have "onInr (safe_to cs) (case xs of [] \<Rightarrow> sink_step E G a c s
     | [next] \<Rightarrow> one_step E G a c next s | nexts \<Rightarrow> many_step E G a c nexts s)" if "curNode a \<in> set cs" for a c xs
    by (auto split: list.splits intro!: sink_step_safe one_step_safe many_step_safe assms that)
  then show ?thesis
    unfolding analyze_step_def by (intro onInr_andThen_any) (simp add: Let_def assms(3))
qed

lemma safe_to_pair [simp]: "safe_to cs (s, x) = plan_inv cs s"
  by (simp add: safe_to_def)

section \<open>The recursion keeps the invariant\<close>

definition onSome :: "('a \<Rightarrow> bool) \<Rightarrow> 'a outcome option \<Rightarrow> bool" where
  "onSome P r = (case r of None \<Rightarrow> True | Some x \<Rightarrow> onInr P x)"

lemma onSome_runThen: "onSome Q r \<Longrightarrow> (\<And>x. Q x \<Longrightarrow> onSome P (f x)) \<Longrightarrow> onSome P (runThen r f)"
  by (cases r; cases "the r") (auto simp: onSome_def onInr_def)

lemma onInr_simps [simp]: "onInr P (Inl e)" "onInr P (Inr x) = P x"
  by (simp_all add: onInr_def)

lemma onSome_simps [simp]: "onSome P None" "onSome P (Some r) = onInr P r"
  by (simp_all add: onSome_def onInr_def)

lemma consuming_in: "set (getConsuming n (makeAtomicComputationList cs)) \<subseteq> set cs"
  by (auto simp: getConsuming_build asks_for_def split: atomic_kind.splits if_splits)

lemma analyze_safe:
  assumes d: "distinct (map acId cs)"
  shows "G = makeAtomicComputationList cs \<Longrightarrow> plan_inv cs s \<Longrightarrow> curNode a \<in> set cs \<Longrightarrow> onSome (safe_to cs) (analyze E G d a s)"
    and "G = makeAtomicComputationList cs \<Longrightarrow> plan_inv cs s \<Longrightarrow> curNode ` set as \<subseteq> set cs \<Longrightarrow> onSome (safe_to cs) (analyze_all E G d as s)"
proof (induction E G d a s and E G d as s rule: analyze_analyze_all.induct)
  case (2 E G d a s)
  have step: "onInr (\<lambda>r. safe_to cs r \<and> goes_to (set cs) r) (analyze_step E G a s)"
  proof (rule onInrI)
    fix x assume x: "analyze_step E G a s = Inr x"
    have "safe_to cs x" using analyze_step_safe [OF "2.prems"(2) d "2.prems"(3)] x by (rule onInrD)
    moreover have "goes_to (set cs) x"
      using onInrD [OF analyze_step_targets x] consuming_in [of "outName (curNode a)" cs]
      by (auto simp: goes_to_def "2.prems"(1))
    ultimately show "safe_to cs x \<and> goes_to (set cs) x" ..
  qed
  show ?case
    unfolding analyze.simps
  proof (rule onSome_runThen [of "\<lambda>r. safe_to cs r \<and> goes_to (set cs) r"])
    show "onSome (\<lambda>r. safe_to cs r \<and> goes_to (set cs) r) (Some (analyze_step E G a s))" using step by simp
    fix x assume "safe_to cs x \<and> goes_to (set cs) x"
    then show "onSome (safe_to cs) (case x of (s, f) \<Rightarrow> case f of Done b \<Rightarrow> Some (Inr (s, b))
      | Go a \<Rightarrow> analyze E G d a s | GoAll as \<Rightarrow> analyze_all E G d as s)"
      using "2.IH" "2.prems"(1) by (cases x) (auto simp: safe_to_pair goes_to_def split: follow.split)
  qed
next
  case (4 E G d a as s)
  show ?case
    unfolding analyze_all.simps
  proof (rule onSome_runThen)
    show "onSome (safe_to cs) (analyze E G d a s)" using 4 by simp
    fix x :: "planner \<times> bool" assume "safe_to cs x"
    then show "onSome (safe_to cs) (case x of (s, b) \<Rightarrow> if b then analyze_all E G d as s else Some (Inr (s, False)))"
      using 4 by (auto split: prod.split)
  qed
qed (simp_all add: safe_to_def)


section \<open>Whole plans\<close>

lemma source_set_quiet: "source_set src s = Inr (s', i) \<Longrightarrow> quiet s s'"
  by (auto simp: source_set_def andThen_Inr_iff dest: new_set_quiet split: if_splits prod.splits)

lemma analyze_consumer_safe:
  assumes "plan_inv cs s" and "distinct (map acId cs)" and "node \<in> set cs"
  shows "onSome (safe_to cs) (analyze_consumer (E) (makeAtomicComputationList cs) d src i node s)"
  unfolding analyze_consumer_def
  by (rule analyze_safe(1) [OF assms(2) refl]) (simp_all add: assms plan_inv_quietly first_call_def)

lemma analyze_consumers_safe:
  assumes "plan_inv cs s" and "distinct (map acId cs)" and "set nodes \<subseteq> set cs"
  shows "onSome (safe_to cs) (analyze_consumers E (makeAtomicComputationList cs) d src i nodes s)"
  using assms(1,3)
proof (induction nodes arbitrary: s)
  case (Cons c nodes)
  show ?case
    unfolding analyze_consumers.simps
  proof (rule onSome_runThen [of "safe_to cs"])
    show "onSome (safe_to cs) (analyze_consumer E (makeAtomicComputationList cs) d src i c s)"
      using Cons.prems by (simp add: analyze_consumer_safe assms(2))
    fix x :: "planner \<times> bool" assume "safe_to cs x"
    then show "onSome (safe_to cs) (case x of (s, b) \<Rightarrow> if b
        then analyze_consumers E (makeAtomicComputationList cs) d src i nodes s else Some (Inr (s, True)))"
      using Cons.IH Cons.prems(2) by (auto split: prod.split)
  qed
qed (simp add: safe_to_pair)

lemma source_set_safe: "plan_inv cs s \<Longrightarrow> onSome (safe_to cs) (Some (source_set src s))"
  by (auto intro!: onInrI simp: safe_to_pair dest!: source_set_quiet intro: quiet_inv)

lemma analyze_source_safe:
  assumes "plan_inv cs s" and "distinct (map acId cs)"
  shows "onSome (safe_to cs) (analyze_source E (makeAtomicComputationList cs) d src s)"
  unfolding analyze_source_def
  by (rule onSome_runThen [OF source_set_safe [OF assms(1)]])
    (auto simp: intro!: analyze_consumers_safe assms(2) consuming_in)

lemma analyze_sources_safe:
  assumes "plan_inv cs s" and "distinct (map acId cs)"
  shows "onSome (safe_to cs) (analyze_sources E (makeAtomicComputationList cs) d srcs s)"
  using assms(1)
proof (induction srcs arbitrary: s)
  case (Cons c srcs)
  show ?case
    unfolding analyze_sources.simps
    by (rule onSome_runThen [OF analyze_source_safe [OF Cons.prems assms(2)]])
      (use Cons.IH in \<open>auto split: prod.split\<close>)
qed (simp add: safe_to_pair)

lemma fresh_inv: "physicalPlan s = [] \<Longrightarrow> jobStageId s = 0 \<Longrightarrow> traversedJoins s = [] \<Longrightarrow> outputForJoinSets s = [] \<Longrightarrow> plan_inv cs s"
  by (simp add: plan_inv_def well_probed_def)

lemma init_sources_quiet: "init_sources srcs s = Inr s' \<Longrightarrow> quiet s s'"
proof (induction srcs arbitrary: s)
  case (Cons c srcs)
  obtain s1 i where 1: "source_set c s = Inr (s1, i)" using Cons.prems by (auto simp: andThen_Inr_iff)
  define n where "n = sidKey (setObjs s1 ! i)"
  define s2 where "s2 = (if n \<in> set (curSourceSetNames s1) then s1
     else s1\<lparr>curSourceSetNames := curSourceSetNames s1 @ [n], curSourceSets := (curSourceSets s1)(n \<mapsto> i),
             curProcessed := (curProcessed s1)(n \<mapsto> 0)\<rparr>)"
  have "quiet s1 s2" by (auto simp: s2_def set_keys_def intro!: quietI)
  then have "quiet s (s2\<lparr>curSourceNodes := f\<rparr>)" for f
    using source_set_quiet [OF 1] field_quiet(4) quiet_trans by blast
  moreover obtain f where "init_sources srcs (s2\<lparr>curSourceNodes := f\<rparr>) = Inr s'"
    using Cons.prems
    unfolding init_sources.simps 1 andThen_simps case_prod_conv Let_def n_def [symmetric] s2_def [symmetric] by blast
  ultimately show ?case using Cons.IH quiet_trans by blast
qed (simp add: quiet_refl)

lemma getBestSource_quiet: "getBestSource E S s = Inr (s', S', b) \<Longrightarrow> quiet s s'"
  by (auto simp: getBestSource_def set_keys_def intro!: quietI split: option.splits prod.splits)

lemma getNextStages_safe:
  assumes "plan_inv cs s" and "distinct (map acId cs)"
  shows "onSome (safe_to cs) (getNextStagesOptimized E (makeAtomicComputationList cs) d src i k s)"
proof -
  let ?G = "makeAtomicComputationList cs"
  have "onSome (safe_to cs) (runThen (analyze_consumer E ?G d src i (getConsuming (outName src) ?G ! k) s) (\<lambda>(s, b). Some (Inr (s, True))))"
    if "k < length (getConsuming (outName src) ?G)"
  proof (rule onSome_runThen [of "safe_to cs"])
    have "getConsuming (outName src) ?G ! k \<in> set cs" using that consuming_in nth_mem by blast
    then show "onSome (safe_to cs) (analyze_consumer E ?G d src i (getConsuming (outName src) ?G ! k) s)"
      by (rule analyze_consumer_safe [OF assms])
  qed (auto simp: safe_to_pair)
  then show ?thesis
    unfolding getNextStagesOptimized_def
    by (intro onSome_runThen [of "\<lambda>_. True"]) (auto simp: safe_to_pair assms Let_def intro!: onInrI)
qed

lemma plan_round_safe:
  assumes "plan_inv cs s" and "distinct (map acId cs)"
  shows "onSome (safe_to cs) (plan_round E (makeAtomicComputationList cs) d n k s)"
proof -
  have q: "quiet s' (incrementConsumerIndex n s')" for s'
    by (rule quietI) (simp_all add: incrementConsumerIndex_def set_keys_def)
  have "onSome (safe_to cs) (runThen (getNextStagesOptimized E (makeAtomicComputationList cs) d src i k s) (\<lambda>(s', has).
         Some (Inr (if length (physicalPlan s) < length (physicalPlan s') then (incrementConsumerIndex n s', True)
           else if has then (s', False) else (removeSource n s', False)))))" for src i
    by (rule onSome_runThen [OF getNextStages_safe [OF assms]])
      (auto intro: quiet_inv [OF q] quiet_inv [OF removeSource_quiet])
  then show ?thesis
    unfolding plan_round_def
    by (intro onSome_runThen [of "\<lambda>_. True"]) (auto intro!: onInrI split: option.split)
qed

lemma one_round_safe:
  assumes "plan_inv cs s" and "distinct (map acId cs)"
  shows "onSome (safe_to cs) (one_round E (makeAtomicComputationList cs) d S s)"
proof -
  have best: "onSome (\<lambda>r. plan_inv cs (fst r)) (Some (getBestSource E S s))"
    using assms(1) getBestSource_quiet quiet_inv by (fastforce intro!: onInrI)
  show ?thesis
    unfolding one_round_def
  proof (rule onSome_runThen [OF best], clarsimp simp: Let_def)
    fix s1 T b assume "plan_inv cs s1"
    then have "plan_inv cs (s1\<lparr>curProcessed := f\<rparr>)" for f by (rule quiet_inv [OF field_quiet(5)])
    then show "onSome (safe_to cs) (runThen (plan_round E (makeAtomicComputationList cs) d n k (s1\<lparr>curProcessed := f\<rparr>))
        (\<lambda>(s, got). Some (Inr (s, T, got))))" for n k f
      by (intro onSome_runThen [OF plan_round_safe [OF _ assms(2)]]) auto
  qed
qed

lemma next_stages_safe:
  assumes "plan_inv cs s" and "distinct (map acId cs)"
  shows "onSome (safe_to cs) (next_stages E (makeAtomicComputationList cs) d rounds S s)"
  using assms(1)
proof (induction rounds arbitrary: S s)
  case (Suc rounds)
  have "onSome (safe_to cs) (runThen (one_round E (makeAtomicComputationList cs) d S s) (\<lambda>(s, S, got).
      if got then Some (Inr (s, S)) else next_stages E (makeAtomicComputationList cs) d rounds S s))"
    by (rule onSome_runThen [OF one_round_safe [OF Suc.prems assms(2)]]) (auto intro: Suc.IH)
  then show ?case using Suc.prems by simp
qed simp

end
