(* ===== verification/PlannerInputs.thy ===== *)
theory PlannerInputs
  imports PlannerSafety
begin

text \<open>
  Planning never searches for ever.  The planner follows the inputs of computations back to scanned sets
  (\<open>JoinComp::getSources\<close>) and attributes back to the computations that create them (\<open>findSource\<close>); the first
  search ends when the inputs form no cycle, the second in every plan in order.  No step of the planner
  changes the type or the inputs of a computation, so both stay true while it runs.
\<close>

section \<open>Results other than a search without end\<close>

definition returns_with :: "('a \<Rightarrow> bool) \<Rightarrow> 'a outcome \<Rightarrow> bool" where
  "returns_with P r = (case r of Inl e \<Rightarrow> e \<noteq> Stuck | Inr x \<Rightarrow> P x)"

lemma returns_simps [simp]: "returns_with P (Inl e) = (e \<noteq> Stuck)" "returns_with P (Inr x) = P x"
  by (simp_all add: returns_with_def)

lemma returns_bind:
  "returns_with P r \<Longrightarrow> (\<And>x. P x \<Longrightarrow> returns_with Q (f x)) \<Longrightarrow> returns_with Q (andThen r f)"
  by (cases r) auto

lemma returns_mono: "returns_with P r \<Longrightarrow> (\<And>x. P x \<Longrightarrow> Q x) \<Longrightarrow> returns_with Q r"
  by (cases r) auto

named_theorems returning \<open>operations that do not search for ever and leave the inputs alone\<close>

section \<open>Types and inputs of computations\<close>

definition shape :: "(string \<rightharpoonup> computation) \<Rightarrow> string \<rightharpoonup> string \<times> string list" where
  "shape cm = (\<lambda>n. map_option (\<lambda>k. (cpType k, cpInputs k)) (cm n))"

definition inputs_kept :: "planner \<Rightarrow> planner \<Rightarrow> bool" where
  "inputs_kept s s' \<longleftrightarrow> shape (comps s') = shape (comps s)"

lemma inputs_kept_refl [simp]: "inputs_kept s s"
  by (simp add: inputs_kept_def)

lemma inputs_kept_comps: "comps s' = comps s \<Longrightarrow> inputs_kept s s'"
  by (simp add: inputs_kept_def)

lemma inputs_kept_trans: "inputs_kept s s' \<Longrightarrow> inputs_kept s' s'' \<Longrightarrow> inputs_kept s s''"
  by (simp add: inputs_kept_def)

lemma inputs_kept_node: "(\<And>k. cpType (f k) = cpType k \<and> cpInputs (f k) = cpInputs k) \<Longrightarrow> inputs_kept s (upd_node n f s)"
  by (simp add: inputs_kept_def shape_def upd_node_def fun_eq_iff option.map_comp comp_def)

lemma inputs_kept_fields [simp]:
  "inputs_kept s (t\<lparr>buildThese := x1\<rparr>) = inputs_kept s t" "inputs_kept s (t\<lparr>interGlobalSets := x2\<rparr>) = inputs_kept s t"
  "inputs_kept s (t\<lparr>partitionedLHS := x3\<rparr>) = inputs_kept s t" "inputs_kept s (t\<lparr>traversedJoins := x4\<rparr>) = inputs_kept s t"
  "inputs_kept s (t\<lparr>outputForJoinSets := x5\<rparr>) = inputs_kept s t" "inputs_kept s (t\<lparr>curSourceNodes := x6\<rparr>) = inputs_kept s t"
  "inputs_kept s (t\<lparr>curProcessed := x7\<rparr>) = inputs_kept s t" "inputs_kept s (t\<lparr>setObjs := x8\<rparr>) = inputs_kept s t"
  "inputs_kept s (t\<lparr>jobStageId := x9\<rparr>) = inputs_kept s t" "inputs_kept s (t\<lparr>hashSetsToProbe := x10\<rparr>) = inputs_kept s t"
  by (simp_all add: inputs_kept_def)

lemma comps_new_set: "new_set db st s = (s', i) \<Longrightarrow> comps s' = comps s"
  by (auto simp: new_set_def)

lemma comps_simps [simp]:
  "comps (upd_set i f s) = comps s" "comps (penalize s) = comps s" "comps (set_index a c s) = comps s"
  "comps (push_stage st s) = comps s" "comps (add_source i j s) = comps s" "comps (set_probe out h s) = comps s"
  "comps (createAggregationJobStage agg src snk mat s) = comps s"
  "comps (createBroadcastJoinBuildHTJobStage src' tgt tc ctx h' s) = comps s"
  "comps (createHashPartitionedJoinBuildHTJobStage src' tgt tc ctx h' s) = comps s"
  "comps (agg_consume b agg' snk mat s) = comps s"
  by (simp_all add: upd_set_def penalize_def set_index_def push_stage_def add_source_def set_probe_def Let_def
      createAggregationJobStage_def createBroadcastJoinBuildHTJobStage_def
      createHashPartitionedJoinBuildHTJobStage_def agg_consume_def)

lemma comps_removeSource [simp]: "comps (removeSource n s) = comps s"
  by (simp add: removeSource_def split: option.split list.split)

lemma comps_create: "comps (fst (createTupleSetJobStage t p jt s)) = comps s"
  by (auto simp: createTupleSetJobStage_def Let_def split: option.splits prod.splits)

lemma comps_emit [simp]: "comps (emit_stage t f a jt s) = comps s"
  using comps_create [of t "isProbing a" jt s] by (auto simp: emit_stage_def split: prod.split)

lemma shape_nodes [simp]:
  "shape (comps (upd_node n hash_partitioned s)) = shape (comps s)"
  "shape (comps (upd_node n (\<lambda>c. c\<lparr>cpJoinType := jt\<rparr>) s)) = shape (comps s)"
  "shape (comps (mark_local_scan a s)) = shape (comps s)"
  "shape (comps (upd_node n (setOutput db st) s)) = shape (comps s)"
  by (rule inputs_kept_node [unfolded inputs_kept_def], simp add: hash_partitioned_def setOutput_def,
      rule inputs_kept_node [unfolded inputs_kept_def], simp,
      unfold mark_local_scan_def, rule inputs_kept_node [unfolded inputs_kept_def], simp,
      rule inputs_kept_node [unfolded inputs_kept_def], simp add: setOutput_def)

section \<open>Operations without searches\<close>

lemma getNode_returns: "returns_with (\<lambda>k. comps s n = Some k) (getNode n s)"
  by (simp add: getNode_def split: option.split)

lemma outputSet_returns: "returns_with (\<lambda>_. True) (outputSet c)"
  by (simp add: outputSet_def split: option.split)

lemma new_sized_set_returns: "returns_with (\<lambda>(s', i). comps s' = comps s) (new_sized_set E page st s)"
  by (auto simp: new_sized_set_def desired_size_def new_set_def upd_set_def)

lemma updateSourceSets_returns: "returns_with (\<lambda>(s', b). comps s' = comps s) (updateSourceSets G old new s)"
  by (auto simp: updateSourceSets_def Let_def getNode_def andThen_def split: option.splits list.splits sum.splits)

lemma drop_input_returns: "returns_with (\<lambda>s'. comps s' = comps s) (drop_input E G a new s)"
  unfolding drop_input_def
  by (auto intro: returns_bind [OF updateSourceSets_returns])

lemma agg_produce_returns: "returns_with (\<lambda>(s', i). comps s' = comps s) (agg_produce E a c collect k s)"
  unfolding agg_produce_def Let_def
  by (rule returns_bind [OF new_sized_set_returns])
    (auto simp: comps_new_set split: prod.splits if_splits)

section \<open>The two searches\<close>

text \<open>
  No chain of first inputs from a computation that is not a scan goes round, and none is as long as the
  fuel: \<open>rank\<close> falls from a computation to its first input.
\<close>

definition inputs_end :: "nat \<Rightarrow> (string \<rightharpoonup> computation) \<Rightarrow> bool" where
  "inputs_end d cm \<longleftrightarrow> 0 < d \<and> (\<exists>rank :: string \<Rightarrow> nat. \<forall>n k m ms. cm n = Some k \<and> cpType k \<noteq> ''ScanUserSet'' \<and>
     cpInputs k = m # ms \<longrightarrow> rank m < rank n \<and> rank n < d)"

lemma inputs_end_shape:
  "inputs_end d cm \<longleftrightarrow> 0 < d \<and> (\<exists>rank. \<forall>n t m ms. shape cm n = Some (t, m # ms) \<and> t \<noteq> ''ScanUserSet'' \<longrightarrow>
     rank m < rank n \<and> rank n < (d :: nat))"
proof -
  have "(\<forall>n k m ms. cm n = Some k \<and> cpType k \<noteq> ''ScanUserSet'' \<and> cpInputs k = m # ms \<longrightarrow> rank m < rank n \<and> rank n < d) =
      (\<forall>n t m ms. shape cm n = Some (t, m # ms) \<and> t \<noteq> ''ScanUserSet'' \<longrightarrow> rank m < rank n \<and> rank n < d)"
    for rank :: "string \<Rightarrow> nat" unfolding shape_def map_option_eq_Some by auto
  then show ?thesis unfolding inputs_end_def by simp
qed

lemma inputs_end_kept: "inputs_kept s s' \<Longrightarrow> inputs_end d (comps s) \<Longrightarrow> inputs_end d (comps s')"
  by (simp add: inputs_end_shape inputs_kept_def)

lemma scan_source_ranked:
  assumes "\<forall>n k m ms. comps s n = Some k \<and> cpType k \<noteq> ''ScanUserSet'' \<and> cpInputs k = m # ms \<longrightarrow> rank m < rank n"
  shows "rank n < d \<Longrightarrow> returns_with (\<lambda>_. True) (scan_source d s n)"
proof (induction d arbitrary: n)
  case (Suc d)
  show ?case
  proof (cases "comps s n")
    case (Some k)
    show ?thesis
    proof (cases "cpInputs k")
      case (Cons m ms)
      then show ?thesis
        using Some Suc.IH [of m] Suc.prems assms outputSet_returns [of k] by (force simp: is_type_def)
    qed (use Some outputSet_returns [of k] in simp)
  qed simp
qed simp

lemma scan_source_returns:
  assumes "inputs_end d (comps s)"
  shows "returns_with (\<lambda>_. True) (scan_source d s n)"
proof -
  obtain rank where r: "\<forall>n k m ms. comps s n = Some k \<and> cpType k \<noteq> ''ScanUserSet'' \<and> cpInputs k = m # ms \<longrightarrow>
      rank m < rank n \<and> rank n < d" and d: "0 < d" using assms unfolding inputs_end_def by blast
  show ?thesis
  proof (cases "\<exists>k m ms. comps s n = Some k \<and> cpType k \<noteq> ''ScanUserSet'' \<and> cpInputs k = m # ms")
    case True
    then have "rank n < d" using r by blast
    then show ?thesis using scan_source_ranked [of s rank n d] r by blast
  next
    case False
    then show ?thesis
      using d outputSet_returns by (cases d) (auto simp: is_type_def split: option.split list.split)
  qed
qed

lemma getSources_returns: "inputs_end d (comps s) \<Longrightarrow> returns_with (\<lambda>_. True) (getSources d s ns)"
proof (induction ns)
  case (Cons n ns)
  show ?case unfolding getSources.simps
    by (rule returns_bind [OF scan_source_returns [OF Cons.prems]], rule returns_bind [OF Cons.IH [OF Cons.prems]]) simp
qed simp

lemma findSource_error: "source_step c a = Inl e \<Longrightarrow> findSource G c a = Some (Inl e)"
  by (subst findSource.simps) simp

lemma source_step_returns: "returns_with (\<lambda>_. True) (source_step c a)"
  by (auto simp: source_step_def findPosInOutputAtts_def ask_at_def Let_def andThen_def split: atomic_kind.split)

text \<open>Whatever attribute is asked for, the search ends.\<close>

lemma findSource_returns:
  assumes "plan_ok [] cs" and "p \<in> set cs"
  shows "\<exists>r. findSource (makeAtomicComputationList cs) p a = Some r \<and> r \<noteq> Inl Stuck"
proof (cases "\<not> is_write p \<and> a \<in> set (specAtts (acOutput p))")
  case True
  obtain k where k: "k < length cs" "p = cs ! k" using assms(2) by (auto simp: in_set_conv_nth)
  obtain i where i: "first_at a (specAtts (acOutput p)) i" using True findPos_in by blast
  show ?thesis using findSource_at [OF assms(1) k(1), of a i] True i k(2) by auto
next
  case False
  then obtain e where e: "source_step p a = Inl e"
  proof (cases "is_write p")
    case True
    then show ?thesis using that by (auto simp: is_write_def source_step_def Let_def split: atomic_kind.splits)
  next
    case no: False
    then have "takeWhile (\<lambda>x. x \<noteq> a) (specAtts (acOutput p)) = specAtts (acOutput p)"
      using False by (auto simp: takeWhile_eq_all_conv)
    then have "findPosInOutputAtts a p = Inl (FatalExit 1)" by (simp only: findPosInOutputAtts_def Let_def) simp
    then show ?thesis using that no by (cases "acKind p") (simp_all add: source_step_def Let_def is_write_def)
  qed
  then show ?thesis using source_step_returns [of p a] findSource_error [OF e] by auto
qed

lemma producers_in: "producers (addAll cs l) n = Some p \<Longrightarrow> p \<in> set cs \<or> producers l n = Some p"
  by (induction cs arbitrary: l) (force split: if_splits)+

lemma getProducing_in: "getProducing n (makeAtomicComputationList cs) = Some p \<Longrightarrow> p \<in> set cs"
  using producers_in [of cs no_comps n p] by (auto simp: getProducing_def makeAtomicComputationList_def no_comps_def)

section \<open>Joins\<close>

lemma first_att_returns: "returns_with (\<lambda>_. True) (first_att sp)"
  by (simp add: first_att_def split: list.split)

lemma source_of_input_returns:
  assumes "plan_ok [] cs" shows "returns_with (\<lambda>_. True) (source_of_input (makeAtomicComputationList cs) inp)"
proof (cases "getProducing (specName inp) (makeAtomicComputationList cs)")
  case (Some p)
  note p = findSource_returns [OF assms getProducing_in [OF Some]]
  have "returns_with (\<lambda>_. True) (case findSource (makeAtomicComputationList cs) p x of None \<Rightarrow> Inl Stuck | Some r \<Rightarrow> r)" for x
  proof -
    obtain r where "findSource (makeAtomicComputationList cs) p x = Some r" "r \<noteq> Inl Stuck" using p by blast
    then show ?thesis by (cases r) auto
  qed
  then show ?thesis by (simp add: source_of_input_def Some returns_bind [OF first_att_returns])
qed (simp add: source_of_input_def)

lemma getHashSource_returns:
  assumes "plan_ok [] cs" shows "returns_with (\<lambda>_. True) (getHashSource (makeAtomicComputationList cs) src j)"
  by (auto simp: getHashSource_def source_of_input_returns [OF assms] split: atomic_kind.split
      intro!: returns_bind [OF first_att_returns])

lemma match_loop_returns: "returns_with (\<lambda>_. True) (match_loop D job c lam ps)"
  by (induction ps) (auto split: option.split)

lemma match_returns:
  assumes "plan_ok [] cs" shows "returns_with (\<lambda>_. True) (matchSourceWithQuery E (makeAtomicComputationList cs) src j st)"
  unfolding matchSourceWithQuery_def
  by (rule returns_bind [OF getHashSource_returns [OF assms]])
    (auto simp: Let_def split: option.split intro!: returns_bind [OF match_loop_returns])

lemma both_match_returns:
  assumes "plan_ok [] cs" and "inputs_end (inputDepth E) (comps s)"
  shows "returns_with (\<lambda>(s', b). comps s' = comps s) (both_match E (makeAtomicComputationList cs) a mine s)"
  unfolding both_match_def
proof (rule returns_bind [OF getNode_returns], rule returns_bind [OF getSources_returns [OF assms(2)]])
  fix c srcs
  obtain sc ot where o: "other_source (sidDb (setObjs s ! curInput a), sidName (setObjs s ! curInput a)) srcs ('''', '''') = (sc, ot)"
    by (metis surj_pair)
  show "returns_with (\<lambda>(s', b). comps s' = comps s)
    (let cur = setObjs s ! curInput a; (scanned, other) = other_source (sidDb cur, sidName cur) srcs ('''', '''');
         n = fst scanned @ '':'' @ snd scanned;
         rhs = (case curSourceNodes s n of None \<Rightarrow> [] | Some xs \<Rightarrow> xs);
         s = s\<lparr>curSourceNodes := (curSourceNodes s)(n \<mapsto> rhs)\<rparr>
     in case rhs of [] \<Rightarrow> Inr (s, False)
        | r # _ \<Rightarrow> if mine then andThen (matchSourceWithQuery E (makeAtomicComputationList cs) r (curNode a) other)
            (\<lambda>(b, _). Inr (s, b)) else Inr (s, False))"
    by (auto simp: o Let_def split: list.split intro!: returns_bind [OF match_returns [OF assms(1)]])
qed

text \<open>\<open>keeps s r\<close>: the operation that gave \<open>r\<close> in \<open>s\<close> did not search for ever and left types and inputs alone.\<close>

abbreviation keeps :: "planner \<Rightarrow> (planner \<times> 'a) outcome \<Rightarrow> bool" where
  "keeps s \<equiv> returns_with (\<lambda>(s', x). inputs_kept s s')"

lemma join_partition_keeps:
  assumes "plan_ok [] cs" and "inputs_end (inputDepth E) (comps s)"
  shows "keeps s (join_partition E (makeAtomicComputationList cs) a s)"
  unfolding join_partition_def Let_def
proof (rule returns_bind [OF new_sized_set_returns], clarify, rule returns_bind [OF match_returns [OF assms(1)]], clarify,
    rule returns_bind [OF getNode_returns], rule returns_bind [OF both_match_returns [OF assms(1)]])
  fix t :: planner and c
  assume "comps t = comps (s\<lparr>partitionedLHS := acId (curNode a) # partitionedLHS s\<rparr>)"
  then show "inputs_end (inputDepth E) (comps (set_index a c t))" using assms(2) by simp
qed (auto simp: inputs_kept_def)

lemma join_broadcast_keeps: "keeps s (join_broadcast E a s)"
  unfolding join_broadcast_def Let_def
  by (rule returns_bind [OF new_sized_set_returns], clarify, rule returns_bind [OF getNode_returns]) (auto simp: inputs_kept_def)

lemma join_build_step_keeps:
  assumes "plan_ok [] cs" and "inputs_end (inputDepth E) (comps s)"
  shows "keeps s (join_build_step E (makeAtomicComputationList cs) a s)"
proof -
  let ?G = "makeAtomicComputationList cs"
  have "keeps s (if costOfCur s > joinCostThreshold E then join_partition E ?G a s else join_broadcast E a s)"
    using join_partition_keeps [OF assms] join_broadcast_keeps by simp
  then show ?thesis
    unfolding join_build_step_def Let_def
    by (auto intro!: returns_bind [where P = "\<lambda>(s', x). inputs_kept s s'"] returns_bind [OF drop_input_returns] simp: inputs_kept_def)
qed

lemma join_probe_step_keeps:
  assumes "plan_ok [] cs"
  shows "keeps s (join_probe_step E (makeAtomicComputationList cs) a next prev s)"
proof (cases "acId (curNode a) \<in> set (partitionedLHS s)")
  case True
  show ?thesis
    unfolding join_probe_step_def Let_def if_P [OF True]
    by (rule returns_bind [OF new_sized_set_returns], clarify, rule returns_bind [OF match_returns [OF assms]], clarify,
      rule returns_bind [OF getNode_returns]) (auto simp: inputs_kept_def)
qed (simp add: join_probe_step_def Let_def inputs_kept_def)

section \<open>Steps and plans\<close>

lemma sink_step_keeps: "keeps s (sink_step E G a c s)"
  unfolding sink_step_def Let_def
  by (rule returns_bind [OF outputSet_returns])
    (auto simp: inputs_kept_def new_set_def intro!: returns_bind [OF agg_produce_returns] returns_bind [OF drop_input_returns])

lemma agg_step_keeps: "keeps s (agg_step E G a c next prev s)"
  unfolding agg_step_def Let_def
  by (rule returns_bind [OF agg_produce_returns])
    (auto simp: inputs_kept_def new_set_def upd_set_def intro!: returns_bind [where P = "\<lambda>(s', i). comps s' = comps s"]
      returns_bind [OF drop_input_returns] returns_bind [OF outputSet_returns])

lemma many_sink_keeps: "keeps s (many_sink E a c s)"
  unfolding many_sink_def Let_def
  by (auto simp: inputs_kept_def new_set_def intro!: returns_bind [OF new_sized_set_returns] returns_bind [OF outputSet_returns])

lemma many_step_keeps: "keeps s (many_step E G a c nexts s)"
  unfolding many_step_def Let_def
proof (rule returns_bind [OF many_sink_keeps], clarify)
  fix t snk
  assume t: "inputs_kept s t"
  show "keeps s (if is_type ''JoinComp'' c then Inr (t, Done False)
     else andThen (if \<not> is_type ''ClusterAggregationComp'' c
         then Inr (emit_stage (stage_args a (outName (curNode a)) (cpOutType c) snk
           (t\<lparr>buildThese := buildThese t @ [outName (curNode a)]\<rparr>)) id a (joinType a) (t\<lparr>buildThese := buildThese t @ [outName (curNode a)]\<rparr>))
         else andThen (agg_produce E a c False 0 t) (\<lambda>(s, agg). andThen (getNode (compName (curNode a)) s) (\<lambda>c.
               Inr (agg_consume a agg snk (cpMaterialize c) s)))) (\<lambda>s.
       if isDynamic E then andThen (drop_input E G a (Some (snk, curNode a)) s) (\<lambda>s. Inr (s, Done True))
       else Inr (s\<lparr>buildThese := [outName (curNode a)]\<rparr>, GoAll (map (\<lambda>next.
              as_source (curNode a) snk next (joinType a) (if compName next \<noteq> compName (curNode a) then compName (curNode a) else prevName a)) nexts))))"
    using t by (auto simp: inputs_kept_def intro!: returns_bind [where P = "inputs_kept s"] returns_bind [OF agg_produce_returns]
      returns_bind [OF getNode_returns] returns_bind [OF drop_input_returns])
qed

lemma one_step_keeps:
  assumes "plan_ok [] cs" and "inputs_end (inputDepth E) (comps s)"
  shows "keeps s (one_step E (makeAtomicComputationList cs) a c next s)"
  using agg_step_keeps join_build_step_keeps [OF assms] join_probe_step_keeps [OF assms(1)]
  by (auto simp: one_step_def Let_def split: atomic_kind.split)

lemma analyze_step_keeps:
  assumes "plan_ok [] cs" and "inputs_end (inputDepth E) (comps s)"
  shows "keeps s (analyze_step E (makeAtomicComputationList cs) a s)"
  unfolding analyze_step_def Let_def
  by (rule returns_bind [OF getNode_returns])
    (auto split: list.split intro: sink_step_keeps one_step_keeps [OF assms] many_step_keeps)

text \<open>The recursion and the loops over consumers and sources.\<close>

definition never_stuck :: "planner \<Rightarrow> (planner \<times> 'a) outcome option \<Rightarrow> bool" where
  "never_stuck s r = (case r of None \<Rightarrow> True | Some r \<Rightarrow> keeps s r)"

lemma never_stuck_simps [simp]: "never_stuck s None" "never_stuck s (Some r) = keeps s r"
  by (simp_all add: never_stuck_def)

lemma never_stuck_comps: "comps t = comps s \<Longrightarrow> never_stuck t r = never_stuck s r"
  by (cases r) (simp_all add: inputs_kept_def)

lemma never_stuck_runThen:
  assumes "never_stuck s r" and "\<And>s' x. inputs_kept s s' \<Longrightarrow> never_stuck s' (f (s', x))"
  shows "never_stuck s (runThen r f)"
proof (cases r)
  case (Some q)
  then show ?thesis
  proof (cases q)
    case (Inr y)
    obtain s' x where y: "y = (s', x)" by (cases y)
    have st: "inputs_kept s s'" using assms(1) Some Inr y by simp
    from assms(2) [OF st, of x] show ?thesis
    proof (cases "f (s', x)")
      case (Some w)
      then show ?thesis using \<open>never_stuck s' (f (s', x))\<close> st \<open>r = Some q\<close> Inr y
        by (cases w) (auto intro: inputs_kept_trans)
    qed (simp add: \<open>r = Some q\<close> Inr y)
  qed (use assms(1) in simp)
qed simp

lemma analyze_never_stuck:
  assumes "plan_ok [] cs"
  shows "G = makeAtomicComputationList cs \<Longrightarrow> inputs_end (inputDepth E) (comps s) \<Longrightarrow> never_stuck s (analyze E G d a s)"
    and "G = makeAtomicComputationList cs \<Longrightarrow> inputs_end (inputDepth E) (comps s) \<Longrightarrow> never_stuck s (analyze_all E G d as s)"
proof (induction E G d a s and E G d as s rule: analyze_analyze_all.induct)
  case (2 E G d a s)
  show ?case
    unfolding analyze.simps
  proof (rule never_stuck_runThen)
    show "never_stuck s (Some (analyze_step E G a s))" using analyze_step_keeps [OF assms "2.prems"(2)] "2.prems"(1) by simp
    fix s' f
    assume "inputs_kept s s'"
    then have "inputs_end (inputDepth E) (comps s')" using "2.prems"(2) by (rule inputs_end_kept)
    then show "never_stuck s' (case (s', f) of (s, f) \<Rightarrow> case f of Done b \<Rightarrow> Some (Inr (s, b))
      | Go a \<Rightarrow> analyze E G d a s | GoAll as \<Rightarrow> analyze_all E G d as s)"
      using "2.IH" "2.prems"(1) by (auto split: follow.split)
  qed
next
  case (4 E G d a as s)
  show ?case
    unfolding analyze_all.simps
  proof (rule never_stuck_runThen)
    show "never_stuck s (analyze E G d a s)" using 4 by simp
    fix s' b
    assume "inputs_kept s s'"
    then have "inputs_end (inputDepth E) (comps s')" using "4.prems"(2) by (rule inputs_end_kept)
    then show "never_stuck s' (case (s', b) of (s, b) \<Rightarrow> if b then analyze_all E G d as s else Some (Inr (s, False)))"
      using 4 by auto
  qed
qed simp_all

lemma analyze_consumers_never_stuck:
  assumes "plan_ok [] cs" and "inputs_end (inputDepth E) (comps s)"
  shows "never_stuck s (analyze_consumers E (makeAtomicComputationList cs) d src i nodes s)"
  using assms(2)
proof (induction nodes arbitrary: s)
  case (Cons c nodes)
  show ?case
    unfolding analyze_consumers.simps
  proof (rule never_stuck_runThen)
    have eq: "never_stuck (s\<lparr>buildThese := [outName src]\<rparr>) r = never_stuck s r" for r :: "(planner \<times> bool) outcome option"
      by (rule never_stuck_comps) simp
    show "never_stuck s (analyze_consumer E (makeAtomicComputationList cs) d src i c s)"
      using analyze_never_stuck(1) [OF assms(1) refl, of E "s\<lparr>buildThese := [outName src]\<rparr>" d "first_call src i c"]
        Cons.prems by (simp add: analyze_consumer_def eq)
    fix s' b
    assume "inputs_kept s s'"
    then have "inputs_end (inputDepth E) (comps s')" using Cons.prems by (rule inputs_end_kept)
    then show "never_stuck s' (case (s', b) of (s, b) \<Rightarrow> if b
        then analyze_consumers E (makeAtomicComputationList cs) d src i nodes s else Some (Inr (s, True)))"
      using Cons.IH by auto
  qed
qed simp

lemma source_set_keeps: "keeps s (source_set src s)"
  unfolding source_set_def
  by (rule returns_bind [OF getNode_returns])
    (auto simp: inputs_kept_def new_set_def intro!: returns_bind [OF outputSet_returns])

lemma analyze_source_never_stuck:
  assumes "plan_ok [] cs" and "inputs_end (inputDepth E) (comps s)"
  shows "never_stuck s (analyze_source E (makeAtomicComputationList cs) d src s)"
  unfolding analyze_source_def
proof (rule never_stuck_runThen)
  show "never_stuck s (Some (source_set src s))" using source_set_keeps by simp
  fix s' i
  assume "inputs_kept s s'"
  then have "inputs_end (inputDepth E) (comps s')" using assms(2) by (rule inputs_end_kept)
  then show "never_stuck s' (case (s', i) of (s, i) \<Rightarrow> analyze_consumers E (makeAtomicComputationList cs) d src i
      (getConsuming (outName src) (makeAtomicComputationList cs)) s)"
    using analyze_consumers_never_stuck [OF assms(1)] by simp
qed

lemma analyze_sources_never_stuck:
  assumes "plan_ok [] cs" and "inputs_end (inputDepth E) (comps s)"
  shows "never_stuck s (analyze_sources E (makeAtomicComputationList cs) d srcs s)"
  using assms(2)
proof (induction srcs arbitrary: s)
  case (Cons c srcs)
  show ?case
    unfolding analyze_sources.simps
  proof (rule never_stuck_runThen)
    show "never_stuck s (analyze_source E (makeAtomicComputationList cs) d c s)"
      by (rule analyze_source_never_stuck [OF assms(1) Cons.prems])
    fix s' b
    assume "inputs_kept s s'"
    then have "inputs_end (inputDepth E) (comps s')" using Cons.prems by (rule inputs_end_kept)
    then show "never_stuck s' (case (s', b) of (s, b) \<Rightarrow> if b
        then analyze_sources E (makeAtomicComputationList cs) d srcs s else Some (Inr (s, False)))"
      using Cons.IH by auto
  qed
qed simp

lemma analyze_plan_never_stuck:
  assumes "plan_ok [] cs" and "inputs_end (inputDepth E) (comps s)"
  shows "analyze_plan E (makeAtomicComputationList cs) d s \<noteq> Some (Inl Stuck)"
proof
  assume "analyze_plan E (makeAtomicComputationList cs) d s = Some (Inl Stuck)"
  moreover have "inputs_end (inputDepth E) (comps (s\<lparr>jobStageId := 0\<rparr>))" using assms(2) by simp
  note analyze_sources_never_stuck [OF assms(1) this, of d "scans (makeAtomicComputationList cs)"]
  ultimately show False by (simp add: analyze_plan_def)
qed

end
