(* ===== verification/PlannerResults.thy ===== *)
theory PlannerResults
  imports PlannerInputs
begin

text \<open>
  What the planner delivers: the recursion ends on every well-formed plan, stages are numbered in order and
  every hash table is built before it is probed, a pipeline without joins becomes one stage, and the
  cheapest source is taken first.  Two runs show pipelines that the planner loses or mixes up.
\<close>

section \<open>The recursion ends\<close>

definition scans_apart :: "atomic_comp list \<Rightarrow> bool" where
  "scans_apart cs = list_all (\<lambda>c. atomicType (acKind c) = ''Scan'' \<longrightarrow> inName c \<notin> outName ` set cs) cs"

lemma spec_known_out: "spec_known prev s \<Longrightarrow> specName s \<in> outName ` set prev"
  unfolding spec_known_def list_ex_iff by (metis image_eqI)

lemma asks_for_earlier:
  assumes "plan_ok [] cs" and "scans_apart cs" and "k < length cs" and "asks_for n (cs ! k) \<noteq> []" and "n \<in> outName ` set cs"
  shows "n \<in> outName ` set (take k cs)"
proof -
  note at = plan_ok_at(2) [OF assms(1,3), simplified]
  have apart: "atomicType (acKind (cs ! k)) = ''Scan'' \<Longrightarrow> inName (cs ! k) \<noteq> n"
    using assms(2,3,5) by (auto simp: scans_apart_def list_all_length)
  show ?thesis
    using at assms(4) apart spec_known_out
    by (cases "acKind (cs ! k)") (fastforce simp: inputs_known_def asks_for_def split: if_splits)+
qed

lemma consumer_later:
  assumes "plan_ok [] cs" and "scans_apart cs" and "i < length cs"
    and "c \<in> set (getConsuming (outName (cs ! i)) (makeAtomicComputationList cs))"
  shows "\<exists>k. i < k \<and> k < length cs \<and> c = cs ! k"
proof -
  obtain k where k: "k < length cs" "c \<in> set (asks_for (outName (cs ! i)) (cs ! k))"
    using assms(4) by (auto simp: getConsuming_build in_set_conv_nth) (metis nth_mem)
  then have c: "c = cs ! k" by (auto simp: asks_for_def split: atomic_kind.splits if_splits)
  have "outName (cs ! i) \<in> outName ` set (take k cs)"
    by (rule asks_for_earlier [OF assms(1,2) k(1)]) (use k(2) assms(3) in auto)
  then obtain j where "j < k" "outName (cs ! j) = outName (cs ! i)"
    using k(1) by (auto simp: in_set_conv_nth)
  moreover have "distinct (map outName cs)" using plan_ok_distinct [OF assms(1)] by simp
  ultimately have "j = i" using k(1) assms(3) using nth_eq_iff_index_eq [of "map outName cs" j i] by simp
  then show ?thesis using \<open>j < k\<close> k(1) c by blast
qed

lemma runThen_returns: "r \<noteq> None \<Longrightarrow> (\<And>x. r = Some (Inr x) \<Longrightarrow> f x \<noteq> None) \<Longrightarrow> runThen r f \<noteq> None"
  by (cases r; cases "the r") auto

lemma analyze_returns:
  assumes "plan_ok [] cs" and "scans_apart cs" and "G = makeAtomicComputationList cs"
  shows "i < length cs \<Longrightarrow> length cs - i \<le> d \<Longrightarrow> curNode a = cs ! i \<Longrightarrow> analyze E G d a s \<noteq> None"
proof (induction d arbitrary: i a s)
  case (Suc d)
  have all: "analyze_all E G d as s \<noteq> None" if "curNode ` set as \<subseteq> {c. \<exists>k. i < k \<and> k < length cs \<and> c = cs ! k}" for as s
    using that
  proof (induction as arbitrary: s)
    case (Cons b as)
    then obtain k where "i < k" "k < length cs" "curNode b = cs ! k" by auto
    then have "analyze E G d b s \<noteq> None" using Suc.IH [of k b s] Suc.prems(2) by simp
    then show ?case unfolding analyze_all.simps by (rule runThen_returns) (use Cons in \<open>auto split: prod.split\<close>)
  qed simp
  have later: "set (targets f) \<subseteq> {c. \<exists>k. i < k \<and> k < length cs \<and> c = cs ! k}"
    if "analyze_step E G a s = Inr (s', f)" for s' f
    using onInrD [OF analyze_step_targets that] consumer_later [OF assms(1,2) Suc.prems(1)] Suc.prems(3) assms(3)
    by (auto simp: goes_to_def)
  show ?case
    unfolding analyze.simps
  proof (rule runThen_returns)
    fix x assume "Some (analyze_step E G a s) = Some (Inr x)"
    then have "analyze_step E G a s = Inr (fst x, snd x)" by simp
    note l = later [OF this]
    show "(case x of (s, f) \<Rightarrow> case f of Done b \<Rightarrow> Some (Inr (s, b)) | Go a \<Rightarrow> analyze E G d a s
      | GoAll as \<Rightarrow> analyze_all E G d as s) \<noteq> None"
    proof (cases "snd x")
      case (Go b)
      then obtain k where "i < k" "k < length cs" "curNode b = cs ! k" using l by auto
      then show ?thesis using Suc.IH [of k b "fst x"] Suc.prems(2) Go by (simp add: case_prod_unfold)
    qed (use l all in \<open>auto simp: case_prod_unfold\<close>)
  qed simp
qed simp

lemma analyze_consumers_return:
  assumes "plan_ok [] cs" and "scans_apart cs" and "set nodes \<subseteq> set cs" and "length cs \<le> d"
  shows "analyze_consumers E (makeAtomicComputationList cs) d src i nodes s \<noteq> None"
  using assms(3)
proof (induction nodes arbitrary: s)
  case (Cons c nodes)
  obtain k where "k < length cs" "c = cs ! k" using Cons.prems by (auto simp: in_set_conv_nth)
  then have "analyze_consumer E (makeAtomicComputationList cs) d src i c s \<noteq> None"
    unfolding analyze_consumer_def using assms(4)
    by (intro analyze_returns [OF assms(1,2) refl, where i = k]) (auto simp: first_call_def)
  then show ?case
    unfolding analyze_consumers.simps by (rule runThen_returns) (use Cons in \<open>auto split: prod.split\<close>)
qed simp

text \<open>C14: Static planning returns.  On a plan in order - computations refer only to outputs of earlier ones,
  with unique output names and well-formed layouts, and no scan reads an output of the plan - and when the first inputs of the
  query's computations form no cycle, no call of the recursion is nested deeper than the plan has
  computations and no search through inputs or attributes goes on for ever (no \<open>Stuck\<close>): the planner
  returns a plan or ends the process with another fault.  \<open>inputDepth\<close> is the fuel of the search through
  inputs; any number above the longest chain of first inputs does.  On inputs that form a cycle the
  loop of \<open>JoinComp::getSources\<close> does not end.\<close>

theorem static_planning_ends:
  assumes "plan_ok [] cs" and "scans_apart cs" and "length cs \<le> d" and "inputs_end (inputDepth E) (comps s)"
  shows "\<exists>r. analyze_plan E (makeAtomicComputationList cs) d s = Some r \<and> r \<noteq> Inl Stuck"
proof -
  let ?G = "makeAtomicComputationList cs"
  have "analyze_sources E ?G d srcs s \<noteq> None" for srcs s
  proof (induction srcs arbitrary: s)
    case (Cons c srcs)
    have "analyze_source E ?G d c s \<noteq> None"
      unfolding analyze_source_def
      by (rule runThen_returns) (simp_all add: case_prod_unfold analyze_consumers_return [OF assms(1,2) consuming_in assms(3)] del: not_None_eq)
    then show ?case
      unfolding analyze_sources.simps by (rule runThen_returns) (use Cons in \<open>auto split: prod.split\<close>)
  qed simp
  then show ?thesis
    using analyze_plan_never_stuck [OF assms(1,4), of d] by (auto simp: analyze_plan_def)
qed

text \<open>A join of two scanned sets, written out.\<close>

definition demo_comp :: "string \<Rightarrow> (string \<times> string) option \<Rightarrow> string list \<Rightarrow> computation" where
  "demo_comp t out ins = \<lparr>cpType = t, cpOutput = out, cpOutType = ''T'', cpPolicy = DefaultAllocator, cpCombiner = False,
     cpMaterialize = False, cpCollect = False, cpNumCollect = 0, cpJoinType = UnknownJoin, cpInputs = ins,
     cpInputTypes = ins, cpLocalJoin = False\<rparr>"

definition demo_env :: "bool \<Rightarrow> plan_env" where
  "demo_env dyn = \<lparr>jobId = ''j'', isDynamic = dyn, clusterNodes = 2, shufflePageSize = 10, broadcastPageSize = 10,
     confPageSize = 10, tieLast = False, joinCostThreshold = 15000, lambdaDb = None, inputDepth = 9\<rparr>"

definition demo_query :: "atomic_comp list" where
  "demo_query =
    [makeScan (demo_spec ''A'' [''x'']) ''d'' ''a'' ''S'' 0,
     makeScan (demo_spec ''B'' [''y'']) ''d'' ''b'' ''R'' 1,
     makeJoin (demo_spec ''F'' [''x'', ''y'']) (demo_spec ''A'' [''x'']) (demo_spec ''A'' [''x''])
       (demo_spec ''B'' [''y'']) (demo_spec ''B'' [''y'']) ''J'' 2,
     makeOutput (demo_spec ''o'' []) (demo_spec ''F'' [''x'']) ''d'' ''o'' ''W'' 3]"

definition demo_comps :: "string \<rightharpoonup> computation" where
  "demo_comps = [''S'' \<mapsto> demo_comp ''ScanUserSet'' (Some (''d'', ''a'')) [], ''R'' \<mapsto> demo_comp ''ScanUserSet'' (Some (''d'', ''b'')) [],
     ''J'' \<mapsto> demo_comp ''JoinComp'' None [''S'', ''R''], ''W'' \<mapsto> demo_comp ''WriteUserSet'' (Some (''d'', ''o'')) [''J'']]"

definition demo_start :: planner where
  "demo_start = (case newTCAPAnalyzer (demo_env False) (makeAtomicComputationList demo_query) demo_comps 0 0 of Inr s \<Rightarrow> s)"

lemma demo_inputs: "inputs_end 9 demo_comps"
proof -
  have "demo_comps n = Some k \<Longrightarrow> cpType k \<noteq> ''ScanUserSet'' \<Longrightarrow> cpInputs k = m # ms \<Longrightarrow>
      (if m = ''W'' then 2 else if m = ''J'' then 1 else 0 :: nat) < (if n = ''W'' then 2 else if n = ''J'' then 1 else 0)" for n k m ms
    by (auto simp: demo_comps_def demo_comp_def split: if_splits)
  moreover have "(if n = ''W'' then 2 else if n = ''J'' then 1 else 0 :: nat) < 9" for n by simp
  ultimately show ?thesis unfolding inputs_end_def
    by (intro conjI exI [of _ "\<lambda>n. if n = ''W'' then 2 else if n = ''J'' then 1 else 0"] allI impI) simp_all
qed

theorem static_planning_ends_witness:
  "\<exists>r. analyze_plan (demo_env False) (makeAtomicComputationList demo_query) 4 demo_start = Some r \<and> r \<noteq> Inl Stuck"
proof (rule static_planning_ends)
  show "plan_ok [] demo_query" by code_simp
  show "scans_apart demo_query" by code_simp
  show "length demo_query \<le> 4" by code_simp
  have "comps demo_start = demo_comps" by (simp add: demo_start_def newTCAPAnalyzer_def demo_env_def)
  then show "inputs_end (inputDepth (demo_env False)) (comps demo_start)" using demo_inputs by (simp add: demo_env_def)
qed

section \<open>Tables are built before they are probed\<close>

definition built_before_probed :: "planner \<Rightarrow> bool" where
  "built_before_probed s = (\<forall>k < length (physicalPlan s). \<forall>h \<in> set (probes (physicalPlan s ! k)).
     \<exists>m < k. builds (set_keys s) (physicalPlan s ! m) = Some h)"

lemma plan_inv_result:
  assumes "plan_inv cs s"
  shows "map stage_no (physicalPlan s) = [0..<jobStageId s] \<and> built_before_probed s"
proof -
  have "\<exists>m < k. builds (set_keys s) (physicalPlan s ! m) = Some h"
    if "k < length (physicalPlan s)" "h \<in> set (probes (physicalPlan s ! k))" for k h
  proof -
    have "h \<in> built (set_keys s) (take k (physicalPlan s))"
      using assms that by (auto simp: plan_inv_def well_probed_def)
    then obtain m where "m < k" "builds (set_keys s) (physicalPlan s ! m) = Some h"
      using that(1) by (auto simp: built_def in_set_conv_nth)
    then show ?thesis by blast
  qed
  then show ?thesis using assms by (auto simp: built_before_probed_def plan_inv_def)
qed

lemma newTCAPAnalyzer_fresh:
  assumes "newTCAPAnalyzer E G cm c x = Inr s"
  shows "physicalPlan s = [] \<and> jobStageId s = 0 \<and> traversedJoins s = [] \<and> outputForJoinSets s = []"
  using assms by (fastforce simp: newTCAPAnalyzer_def Let_def quiet_def dest: init_sources_quiet split: if_splits)

lemma newTCAPAnalyzer_inv: "newTCAPAnalyzer E G cm c x = Inr s \<Longrightarrow> plan_inv cs s"
  using newTCAPAnalyzer_fresh fresh_inv by blast

text \<open>C15: A static plan numbers its stages from 0 in the order in which they run, and every stage that probes
  the hash table of a join comes after the stage that builds this table: in every prefix of the plan the
  tables a stage asks for are there.\<close>

theorem static_plan_builds_before_probing:
  assumes "distinct (map acId cs)" and "newTCAPAnalyzer E (makeAtomicComputationList cs) cm c x = Inr s"
    and "analyze_plan E (makeAtomicComputationList cs) d s = Some (Inr (s', b))"
  shows "map stage_no (physicalPlan s') = [0..<jobStageId s'] \<and> built_before_probed s'"
proof -
  have "plan_inv cs s" using newTCAPAnalyzer_inv [OF assms(2)] .
  then have "plan_inv cs (s\<lparr>jobStageId := 0\<rparr>)" using newTCAPAnalyzer_fresh [OF assms(2)] by (cases s) simp
  then have "plan_inv cs s'"
    using analyze_sources_safe [OF _ assms(1), of "s\<lparr>jobStageId := 0\<rparr>" E d "scans (makeAtomicComputationList cs)"] assms(3)
    by (simp add: analyze_plan_def)
  then show ?thesis by (rule plan_inv_result)
qed

theorem static_plan_builds_before_probing_witness:
  "\<exists>s' b. analyze_plan (demo_env False) (makeAtomicComputationList demo_query) 4 demo_start = Some (Inr (s', b))
    \<and> probes (physicalPlan s' ! 2) = [''j:F_broadcastData''] \<and> built_before_probed s'"
proof -
  have "case analyze_plan (demo_env False) (makeAtomicComputationList demo_query) 4 demo_start of
    Some (Inr (s', b)) \<Rightarrow> probes (physicalPlan s' ! 2) = [''j:F_broadcastData''] | _ \<Rightarrow> False" by code_simp
  then obtain s' b where r: "analyze_plan (demo_env False) (makeAtomicComputationList demo_query) 4 demo_start = Some (Inr (s', b))"
    "probes (physicalPlan s' ! 2) = [''j:F_broadcastData'']" by (auto split: option.splits sum.splits)
  have "distinct (map acId demo_query)" by code_simp
  moreover have "newTCAPAnalyzer (demo_env False) (makeAtomicComputationList demo_query) demo_comps 0 0 = Inr demo_start"
    by (simp add: demo_start_def newTCAPAnalyzer_def demo_env_def Let_def)
  ultimately have "built_before_probed s'" using static_plan_builds_before_probing r(1) by blast
  then show ?thesis using r by blast
qed

section \<open>Dynamic planning\<close>

text \<open>The scheduler plans, runs what was planned, measures the results and plans on.  What it measures between
  two rounds is arbitrary here.\<close>

inductive scheduled :: "plan_env \<Rightarrow> comp_list \<Rightarrow> nat \<Rightarrow> planner \<Rightarrow> planner \<Rightarrow> bool" for E G d s where
  begin_plan: "scheduled E G d s s"
| next_round: "scheduled E G d s s1 \<Longrightarrow> next_stages E G d r S s1 = Some (Inr (s2, S')) \<Longrightarrow> scheduled E G d s s2"

definition clearPenalizedCosts :: "statistics \<Rightarrow> statistics" where
  "clearPenalizedCosts S = S\<lparr>penalizedCosts := Map.empty\<rparr>"

text \<open>The outer loop of the scheduler, \<open>n\<close> times, when the measured sizes stay the same.\<close>

fun plan_rounds :: "plan_env \<Rightarrow> comp_list \<Rightarrow> nat \<Rightarrow> nat \<Rightarrow> nat \<Rightarrow> statistics option \<Rightarrow> planner \<Rightarrow>
    (planner \<times> statistics option) outcome option" where
  "plan_rounds E G d r 0 S s = Some (Inr (s, S))"
| "plan_rounds E G d r (Suc n) S s = runThen (next_stages E G d r S s) (\<lambda>(s, S). plan_rounds E G d r n (map_option clearPenalizedCosts S) s)"

lemma plan_rounds_scheduled:
  "plan_rounds E G d r n S s1 = Some (Inr (s2, S2)) \<Longrightarrow> scheduled E G d s s1 \<Longrightarrow> scheduled E G d s s2"
proof (induction n arbitrary: S s1)
  case (Suc n)
  obtain s3 S3 where "next_stages E G d r S s1 = Some (Inr (s3, S3))" "plan_rounds E G d r n (map_option clearPenalizedCosts S3) s3 = Some (Inr (s2, S2))"
    using Suc.prems(1) by (auto simp: runThen_def split: option.splits sum.splits)
  then show ?case using Suc.IH Suc.prems(2) next_round by blast
qed simp

text \<open>C3: Whatever sizes the scheduler measures between the rounds of dynamic planning, and so in whatever
  order it takes the sources, the stages of all rounds are numbered in the order they run, and none probes
  a hash table that no earlier stage has built.\<close>

theorem dynamic_plan_builds_before_probing:
  assumes "distinct (map acId cs)" and "newTCAPAnalyzer E (makeAtomicComputationList cs) cm c x = Inr s"
    and "scheduled E (makeAtomicComputationList cs) d s s'"
  shows "map stage_no (physicalPlan s') = [0..<jobStageId s'] \<and> built_before_probed s'"
proof -
  have "plan_inv cs s'"
    using assms(3)
  proof induction
    case (next_round s1 r S s2 S')
    then show ?case using next_stages_safe [OF _ assms(1), of s1 E d r S] by simp
  qed (rule newTCAPAnalyzer_inv [OF assms(2)])
  then show ?thesis by (rule plan_inv_result)
qed

text \<open>What evaluates a run of the planner, without looking under the continuation of a fallible step.\<close>

lemma analyze_numeral [simp]: "analyze E G (numeral k) a s = runThen (Some (analyze_step E G a s)) (\<lambda>(s, f). case f of
     Done b \<Rightarrow> Some (Inr (s, b)) | Go a \<Rightarrow> analyze E G (pred_numeral k) a s | GoAll as \<Rightarrow> analyze_all E G (pred_numeral k) as s)"
  "next_stages E G d (numeral r) S s = (if curSourceSetNames s = [] then Some (Inr (s, S))
     else runThen (one_round E G d S s) (\<lambda>(s, S, got). if got then Some (Inr (s, S)) else next_stages E G d (pred_numeral r) S s))"
  "plan_rounds E G d q (numeral r) S s = runThen (next_stages E G d q S s) (\<lambda>(s, S). plan_rounds E G d q (pred_numeral r) (map_option clearPenalizedCosts S) s)"
  "scan_source (numeral r) s n = (case comps s n of None \<Rightarrow> Inl NullDeref
    | Some c \<Rightarrow> if is_type ''ScanUserSet'' c then outputSet c
        else (case cpInputs c of [] \<Rightarrow> Inl NullDeref | m # _ \<Rightarrow> scan_source (pred_numeral r) s m))"
  by (simp_all add: numeral_eq_Suc)

lemma eval_congs: "r = r' \<Longrightarrow> andThen r f = andThen r' f" "q = q' \<Longrightarrow> runThen q g = runThen q' g" "v = v' \<Longrightarrow> Let v h = Let v' h"
  by simp_all

lemmas weak_congs = eval_congs(1) eval_congs(2) eval_congs(3) if_weak_cong option.case_cong_weak sum.case_cong_weak list.case_cong_weak follow.case_cong_weak
  prod.case_cong_weak atomic_kind.case_cong_weak hop.case_cong_weak

lemmas planner_defs = Let_def getNextStagesOptimized_def analyze_consumer_def newTCAPAnalyzer_def source_set_def outputSet_def setOutput_def sidKey_def
  getNode_def upd_node_def new_set_def upd_set_def desired_size_def new_sized_set_def createTupleSetJobStage_def push_stage_def
  createAggregationJobStage_def createBroadcastJoinBuildHTJobStage_def createHashPartitionedJoinBuildHTJobStage_def removeSource_def
  processed_def add_source_def updateSourceSets_def getSourceComputation_def incrementConsumerIndex_def getNumBytes_def
  getCostOfSource_def sourceCost_def getBestSource_def as_source_def stage_source_def stage_args_def emit_stage_def drop_input_def
  agg_produce_def agg_consume_def sink_step_def first_att_def source_of_input_def getHashSource_def matchSourceWithQuery_def
  indexInInputs_def penalize_def set_index_def hash_partitioned_def join_target_def set_probe_def both_match_def
  mark_local_scan_def join_partition_def join_broadcast_def join_build_step_def join_probe_step_def
  agg_step_def one_step_def many_sink_def many_step_def analyze_step_def first_call_def plan_round_def one_round_def is_type_def clearPenalizedCosts_def

lemmas list_defs = makeAtomicComputationList_def no_comps_def makeScan_def makeOutput_def makeJoin_def makeAgg_def makeHashOne_def
  makeApply_def new_comp_def demo_spec_def addAtomicComputation_def push_consumer_def getConsuming_def empty_spec_def demo_comp_def

definition no_stats :: statistics where
  "no_stats = \<lparr>dataStatistics = Map.empty, penalizedCosts = Map.empty\<rparr>"

lemma demo_rounds:
  "\<exists>s s' S'. newTCAPAnalyzer (demo_env True) (makeAtomicComputationList demo_query) demo_comps 0 0 = Inr s
    \<and> plan_rounds (demo_env True) (makeAtomicComputationList demo_query) 4 3 2 (Some no_stats) s = Some (Inr (s', S'))
    \<and> probes (physicalPlan s' ! 2) = [''j:F_broadcastData'']"
  by (simp add: planner_defs list_defs demo_env_def demo_query_def demo_comps_def no_stats_def cong: weak_congs)

theorem dynamic_plan_builds_before_probing_witness:
  "\<exists>s s'. scheduled (demo_env True) (makeAtomicComputationList demo_query) 4 s s'
    \<and> probes (physicalPlan s' ! 2) = [''j:F_broadcastData''] \<and> built_before_probed s'"
proof -
  obtain s s' S' where s: "newTCAPAnalyzer (demo_env True) (makeAtomicComputationList demo_query) demo_comps 0 0 = Inr s"
    and r: "plan_rounds (demo_env True) (makeAtomicComputationList demo_query) 4 3 2 (Some no_stats) s = Some (Inr (s', S'))"
    "probes (physicalPlan s' ! 2) = [''j:F_broadcastData'']" using demo_rounds by blast
  have "distinct (map acId demo_query)" by code_simp
  moreover have "scheduled (demo_env True) (makeAtomicComputationList demo_query) 4 s s'"
    by (rule plan_rounds_scheduled [OF r(1) begin_plan])
  ultimately have "built_before_probed s'" using dynamic_plan_builds_before_probing [OF _ s] by blast
  then show ?thesis using r(2) \<open>scheduled _ _ _ _ _\<close> by blast
qed

section \<open>A pipeline becomes one stage\<close>

definition passes_through :: "planner \<Rightarrow> atomic_comp \<Rightarrow> bool" where
  "passes_through s c = ((case acKind c of ApplyAgg \<Rightarrow> False | ApplyJoin _ _ \<Rightarrow> False | _ \<Rightarrow> True) \<and>
     (case comps s (compName c) of None \<Rightarrow> False | Some k \<Rightarrow> \<not> is_type ''PartitionComp'' k))"

definition ends_pipeline :: "planner \<Rightarrow> atomic_comp \<Rightarrow> bool" where
  "ends_pipeline s c = (case comps s (compName c) of None \<Rightarrow> False
     | Some k \<Rightarrow> cpType k \<in> {''WriteUserSet'', ''SelectionComp'', ''MultiSelectionComp'', ''PartitionComp''} \<and>
         (cpOutput k \<noteq> None \<or> cpType k \<in> {''WriteUserSet'', ''PartitionComp''}))"

fun pipeline :: "comp_list \<Rightarrow> planner \<Rightarrow> atomic_comp list \<Rightarrow> bool" where
  "pipeline G s [] = False"
| "pipeline G s [c] = (getConsuming (outName c) G = [] \<and> ends_pipeline s c)"
| "pipeline G s (c # c' # cs) = (passes_through s c \<and> getConsuming (outName c) G = [c'] \<and> pipeline G s (c' # cs))"

lemma pipeline_comps: "comps s' = comps s \<Longrightarrow> pipeline G s' xs = pipeline G s xs"
  by (induction G s xs rule: pipeline.induct) (simp_all add: passes_through_def ends_pipeline_def)

text \<open>The allocator policy of a stage is that of the last node that asks for one.\<close>

fun policy_along :: "planner \<Rightarrow> alloc_policy \<Rightarrow> atomic_comp list \<Rightarrow> alloc_policy" where
  "policy_along s p [] = p"
| "policy_along s p (c # cs) = policy_along s (case comps s (compName c) of
     Some k \<Rightarrow> if cpPolicy k \<noteq> DefaultAllocator then cpPolicy k else p | None \<Rightarrow> p) cs"

lemma policy_along_comps: "comps s' = comps s \<Longrightarrow> policy_along s' p xs = policy_along s p xs"
  by (induction s p xs rule: policy_along.induct) simp_all

text \<open>The set a computation writes; one without an output writes a set without a name.\<close>

definition written_set :: "computation \<Rightarrow> string \<times> string" where
  "written_set k = (case cpOutput k of Some x \<Rightarrow> x | None \<Rightarrow> ('''', ''''))"

lemma emit_plain:
  assumes "\<not> isProbing a" and "\<not> removeInput t"
  shows "emit_stage t id a jt s = s\<lparr>jobStageId := jobStageId s + 1, physicalPlan := physicalPlan s @ [TupleSetStage
    (t\<lparr>tsId := jobStageId s, probing := False, hashSets := [], aggHashOut := sidAgg (setObjs s ! sourceCtx t),
       joinTypeStr := ''Unknown'', joinSourceTS := False, removeInput := sidAgg (setObjs s ! sourceCtx t)\<rparr>)]\<rparr>"
  using assms
  by (cases "hashSetsToProbe s"; cases "sidAgg (setObjs s ! sourceCtx t)"; cases t)
    (simp_all add: emit_stage_def createTupleSetJobStage_def Let_def push_stage_def)

text \<open>The stage of a pipeline \<open>xs\<close> whose last node is of computation \<open>k\<close>.\<close>

definition pipeline_stage :: "call_args \<Rightarrow> string list \<Rightarrow> atomic_comp list \<Rightarrow> computation \<Rightarrow> planner \<Rightarrow> bool \<Rightarrow> tupleset_stage" where
  "pipeline_stage a pre xs k s agg = \<lparr>tsId = jobStageId s, sourceTS = stage_source a, targetTS = inName (last xs),
     targetComp = compName (last xs), buildTS = pre @ map outName (butlast xs), tsOutType = cpOutType k,
     sourceCtx = curInput a, sinkCtx = length (setObjs s), combinerCtx = None, broadcasting = False,
     repartition = is_type ''PartitionComp'' k, removeInput = agg, probing = False, hashSets = [],
     joinTypeStr = ''Unknown'', tsPolicy = policy_along s (myPolicy a) xs, repartJoin = False, collectAsMap = False,
     numCollect = 0, localSink = False, localProbe = False, partComp = '''', partLambda = '''', aggHashOut = agg,
     joinSourceTS = False\<rparr>"

definition one_stage :: "call_args \<Rightarrow> string list \<Rightarrow> atomic_comp list \<Rightarrow> planner \<Rightarrow> planner \<Rightarrow> bool" where
  "one_stage a pre xs s s' = (\<exists>k out. comps s (compName (last xs)) = Some k \<and>
     physicalPlan s' = physicalPlan s @ [TupleSetStage (pipeline_stage a pre xs k s (sidAgg (setObjs s' ! curInput a)))] \<and>
     setObjs s' = setObjs s @ [out] \<and> (sidDb out, sidName out) = written_set k \<and>
     jobStageId s' = jobStageId s + 1)"

definition plain_call :: "call_args \<Rightarrow> bool" where
  "plain_call a \<longleftrightarrow> \<not> isProbing a \<and> \<not> hasLocalProbe a \<and> partCompSpec a = '''' \<and> partLambdaName a = ''''"

lemma sink_one_stage:
  assumes "\<not> isDynamic E" and "plain_call a" and "ends_pipeline s (curNode a)"
    and "comps s (compName (curNode a)) = Some k" and "cpPolicy k = DefaultAllocator \<or> myPolicy a = cpPolicy k"
  shows "\<exists>s'. sink_step E G a k s = Inr (s', Done True) \<and> one_stage a (buildThese s) [curNode a] s s'"
proof -
  have o: "outputSet k = Inr (written_set k)"
    using assms(3,4) by (cases "cpOutput k") (auto simp: ends_pipeline_def outputSet_def written_set_def)
  obtain db st where w: "written_set k = (db, st)" by (cases "written_set k")
  obtain s1 i where n: "new_set db st s = (s1, i)" by (cases "new_set db st s")
  then have s1: "i = length (setObjs s)" "physicalPlan s1 = physicalPlan s" "buildThese s1 = buildThese s"
    "jobStageId s1 = jobStageId s" by (auto simp: new_set_def)
  obtain out where out: "setObjs s1 = setObjs s @ [out]" "sidDb out = db" "sidName out = st"
    using n by (auto simp: new_set_def)
  define t where "t = (stage_args a (inName (curNode a)) (cpOutType k) i s1)\<lparr>repartition := is_type ''PartitionComp'' k\<rparr>"
  have r: "sink_step E G a k s = Inr (emit_stage t id a (joinType a) s1, Done True)"
    using assms(1,3,4) by (auto simp: sink_step_def o w n Let_def t_def drop_input_def ends_pipeline_def is_type_def)
  have pol: "policy_along s (myPolicy a) [curNode a] = myPolicy a" using assms(4,5) by auto
  have "one_stage a (buildThese s) [curNode a] s (emit_stage t id a (joinType a) s1)"
    using emit_plain [of a t "joinType a" s1] assms(2,4) s1 out w pol
    by (simp add: one_stage_def plain_call_def t_def stage_args_def pipeline_stage_def)
  then show ?thesis using r by blast
qed

lemma pipeline_one_stage:
  assumes "\<not> isDynamic E"
  shows "pipeline G s xs \<Longrightarrow> length xs \<le> d \<Longrightarrow> curNode a = hd xs \<Longrightarrow> plain_call a \<Longrightarrow>
    \<exists>s'. analyze E G d a s = Some (Inr (s', True)) \<and> one_stage a (buildThese s) xs s s'"
proof (induction xs arbitrary: s a d rule: induct_list012)
  case (2 c)
  then obtain k d' where k: "comps s (compName c) = Some k" "d = Suc d'"
    by (cases d) (auto simp: ends_pipeline_def split: option.splits)
  define b where "b = (if cpPolicy k \<noteq> DefaultAllocator then a\<lparr>myPolicy := cpPolicy k\<rparr> else a)"
  have b: "curNode b = c" "plain_call b" "stage_source b = stage_source a" "curInput b = curInput a"
    "cpPolicy k = DefaultAllocator \<or> myPolicy b = cpPolicy k"
    "policy_along s (myPolicy b) [c] = policy_along s (myPolicy a) [c]"
    using 2 k(1) by (auto simp: b_def stage_source_def plain_call_def)
  obtain s' where "sink_step E G b k s = Inr (s', Done True)" "one_stage b (buildThese s) [c] s s'"
    using sink_one_stage [OF assms b(2), of s k G] 2(1) b(1,5) k(1) by auto
  moreover from this have "one_stage a (buildThese s) [c] s s'"
    using b by (simp add: one_stage_def pipeline_stage_def)
  ultimately show ?case
    using 2 b(1) k by (simp add: analyze_step_def getNode_def b_def [symmetric] Let_def)
next
  case (3 c c' cs)
  obtain k d' where k: "comps s (compName c) = Some k" "d = Suc d'" "\<not> is_type ''PartitionComp'' k"
    using "3.prems" by (cases d) (auto simp: passes_through_def split: option.splits)
  define b where "b = (if cpPolicy k \<noteq> DefaultAllocator then a\<lparr>myPolicy := cpPolicy k\<rparr> else a)"
  have b: "curNode b = c" "plain_call b" "stage_source b = stage_source a" "curInput b = curInput a"
    using 3 by (auto simp: b_def stage_source_def plain_call_def)
  define e where "e = b\<lparr>curNode := c', prevNode := Some c, prevName := (if compName c' \<noteq> compName c then compName c else prevName b),
    partCompSpec := [], partLambdaName := []\<rparr>"
  have e: "curNode e = c'" "plain_call e" "stage_source e = stage_source a" "curInput e = curInput a"
    using b unfolding e_def stage_source_def plain_call_def by (auto split: if_splits)
  have pol: "policy_along s (myPolicy a) (c # c' # cs) = policy_along s (myPolicy e) (c' # cs)"
  proof -
    have "myPolicy e = (if cpPolicy k \<noteq> DefaultAllocator then cpPolicy k else myPolicy a)"
      by (simp add: e_def b_def)
    then show ?thesis using k(1) by simp
  qed
  have step: "analyze_step E G a s = Inr (s\<lparr>buildThese := buildThese s @ [outName c]\<rparr>, Go e)"
    using "3.prems" b k(1,3)
    by (cases "acKind c") (simp_all add: analyze_step_def getNode_def b_def [symmetric] Let_def one_step_def passes_through_def e_def)
  define s1 where "s1 = s\<lparr>buildThese := buildThese s @ [outName c]\<rparr>"
  have s1: "buildThese s1 = buildThese s @ [outName c]" "setObjs s1 = setObjs s" "physicalPlan s1 = physicalPlan s" "comps s1 = comps s"
    "jobStageId s1 = jobStageId s" by (simp_all add: s1_def)
  have "pipeline G s1 (c' # cs)" using "3.prems"(1) pipeline_comps [OF s1(4)] by simp
  moreover have "length (c' # cs) \<le> d'" using "3.prems"(2) k(2) by simp
  ultimately obtain s' where s': "analyze E G d' e s1 = Some (Inr (s', True))" "one_stage e (buildThese s1) (c' # cs) s1 s'"
    using "3.IH"(2) [of s1 d' e] e(1,2) by auto
  have "analyze E G d a s = Some (Inr (s', True))" using s'(1) by (simp add: k(2) step s1_def)
  moreover have "one_stage a (buildThese s) (c # c' # cs) s s'"
    using s'(2) pol policy_along_comps [OF s1(4)]
    by (simp add: one_stage_def pipeline_stage_def s1 e(3,4) del: policy_along.simps)
  ultimately show ?case by blast
qed simp

text \<open>C13: Static planning fuses a pipeline.  From a source through any chain of lambdas, filters, hashes and
  flattens, each the only consumer of the one before, to a node that writes a set, the planner emits exactly
  one stage and adds exactly one set, the output set of the last node's computation.  The stage reads the
  source's tuple set from the source's input, computes the tuple sets of the chain in order, writes the
  last node's input to that set, has that computation's output type and the allocator policy of the
  last node that asks for one, repartitions if and only if that computation is a partition, removes its
  input if and only if it is the result of an aggregation, and neither probes nor broadcasts.\<close>

theorem pipeline_becomes_one_stage:
  assumes "pipeline G s xs" and "\<not> isDynamic E" and "length xs \<le> d"
  shows "\<exists>s' k out agg. analyze_consumer E G d src i (hd xs) s = Some (Inr (s', True)) \<and>
    comps s (compName (last xs)) = Some k \<and> setObjs s' = setObjs s @ [out] \<and>
    (sidDb out, sidName out) = (case cpOutput k of Some x \<Rightarrow> x | None \<Rightarrow> ('''', '''')) \<and>
    agg = sidAgg (setObjs s' ! i) \<and> jobStageId s' = jobStageId s + 1 \<and>
    physicalPlan s' = physicalPlan s @ [TupleSetStage
      \<lparr>tsId = jobStageId s, sourceTS = outName src, targetTS = inName (last xs), targetComp = compName (last xs),
       buildTS = outName src # map outName (butlast xs), tsOutType = cpOutType k, sourceCtx = i,
       sinkCtx = length (setObjs s), combinerCtx = None, broadcasting = False, repartition = (cpType k = ''PartitionComp''),
       removeInput = agg, probing = False, hashSets = [], joinTypeStr = ''Unknown'',
       tsPolicy = policy_along s DefaultAllocator xs, repartJoin = False, collectAsMap = False, numCollect = 0,
       localSink = False, localProbe = False, partComp = '''', partLambda = '''', aggHashOut = agg, joinSourceTS = False\<rparr>]"
proof -
  define s1 where "s1 = s\<lparr>buildThese := [outName src]\<rparr>"
  define a where "a = first_call src i (hd xs)"
  have s1: "buildThese s1 = [outName src]" "setObjs s1 = setObjs s" "physicalPlan s1 = physicalPlan s" "comps s1 = comps s"
    "jobStageId s1 = jobStageId s" by (simp_all add: s1_def)
  have a: "curNode a = hd xs" "plain_call a" "stage_source a = outName src" "curInput a = i" "myPolicy a = DefaultAllocator"
    by (simp_all add: a_def first_call_def as_source_def stage_source_def plain_call_def)
  have "pipeline G s1 xs" using assms(1) pipeline_comps [OF s1(4)] by simp
  then obtain s' where s': "analyze E G d a s1 = Some (Inr (s', True))" "one_stage a [outName src] xs s1 s'"
    using pipeline_one_stage [OF assms(2) _ assms(3) a(1,2), of G s1] s1(1) by auto
  have "analyze_consumer E G d src i (hd xs) s = Some (Inr (s', True))"
    using s'(1) by (simp add: analyze_consumer_def s1_def a_def)
  then show ?thesis
    using s'(2) policy_along_comps [OF s1(4)]
    by (auto simp: one_stage_def pipeline_stage_def s1 a written_set_def is_type_def)
qed

definition demo_pipe :: "atomic_comp list" where
  "demo_pipe =
    [makeScan (demo_spec ''A'' [''x'']) ''d'' ''a'' ''S'' 0,
     makeApply (demo_spec ''P'' [''x'', ''p'']) (demo_spec ''A'' [''x'']) (demo_spec ''A'' [''x'']) ''C'' ''f'' 1,
     makeFilter (demo_spec ''Q'' [''x'']) (demo_spec ''P'' [''p'']) (demo_spec ''P'' [''x'']) ''C'' 2,
     makeOutput (demo_spec ''o'' []) (demo_spec ''Q'' [''x'']) ''d'' ''o'' ''W'' 3]"

definition demo_pipe_start :: planner where
  "demo_pipe_start = demo_start\<lparr>comps := [''S'' \<mapsto> demo_comp ''ScanUserSet'' (Some (''d'', ''a'')) [],
     ''C'' \<mapsto> demo_comp ''SelectionComp'' None [''S''], ''W'' \<mapsto> demo_comp ''WriteUserSet'' (Some (''d'', ''o'')) [''C'']]\<rparr>"

theorem pipeline_becomes_one_stage_witness:
  "\<exists>s' t out. analyze_consumer (demo_env False) (makeAtomicComputationList demo_pipe) 3 (hd demo_pipe) 0 (demo_pipe ! 1) demo_pipe_start
      = Some (Inr (s', True)) \<and> physicalPlan s' = [TupleSetStage t] \<and> buildTS t = [''A'', ''P'', ''Q''] \<and>
    setObjs s' = [out] \<and> (sidDb out, sidName out) = (''d'', ''o'')"
proof -
  let ?G = "makeAtomicComputationList demo_pipe"
  have p: "pipeline ?G demo_pipe_start (tl demo_pipe)" by code_simp
  have d: "\<not> isDynamic (demo_env False)" by code_simp
  have l: "length (tl demo_pipe) \<le> 3" by code_simp
  have names: "hd (tl demo_pipe) = demo_pipe ! 1" "outName (hd demo_pipe) # map outName (butlast (tl demo_pipe)) = [''A'', ''P'', ''Q'']"
    "compName (last (tl demo_pipe)) = ''W''"
    by (simp_all add: demo_pipe_def makeScan_def makeApply_def makeFilter_def makeOutput_def new_comp_def demo_spec_def)
  have start: "map_option cpOutput (comps demo_pipe_start ''W'') = Some (Some (''d'', ''o''))"
    "setObjs demo_pipe_start = []" "physicalPlan demo_pipe_start = []" by code_simp+
  obtain s' k out t where r: "analyze_consumer (demo_env False) ?G 3 (hd demo_pipe) 0 (demo_pipe ! 1) demo_pipe_start = Some (Inr (s', True))"
    "comps demo_pipe_start ''W'' = Some k" "setObjs s' = setObjs demo_pipe_start @ [out]"
    "(sidDb out, sidName out) = (case cpOutput k of Some x \<Rightarrow> x | None \<Rightarrow> ('''', ''''))"
    "physicalPlan s' = physicalPlan demo_pipe_start @ [TupleSetStage t]"
    "buildTS t = outName (hd demo_pipe) # map outName (butlast (tl demo_pipe))"
    using pipeline_becomes_one_stage [OF p d l, of "hd demo_pipe" 0] unfolding names(1,3)
    by (metis tupleset_stage.select_convs(5))
  then show ?thesis using start names(2) by (intro exI [of _ s'] exI [of _ t] exI [of _ out]) auto
qed

section \<open>Which source comes first\<close>

text \<open>
  The cost model: the recorded bytes of the set a source reads (none for a model set, an unknown set or
  an unknown source), in whole megabytes but at least one; a penalised source costs a thousand times
  what was last recorded for it, or a thousand times its megabytes if nothing was.
\<close>

definition source_bytes :: "statistics \<Rightarrow> planner \<Rightarrow> string \<Rightarrow> nat" where
  "source_bytes S s n = (case curSourceSets s n of None \<Rightarrow> 0 | Some i \<Rightarrow>
     (case dataStatistics S (sidDb (setObjs s ! i) @ '':'' @ sidName (setObjs s ! i)) of
        Some d \<Rightarrow> (if isModelSet d then 0 else statBytes d) | None \<Rightarrow> 0))"

definition cost :: "statistics \<Rightarrow> planner \<Rightarrow> string \<Rightarrow> nat" where
  "cost S s n =
     (if n \<notin> set (penalizedSourceSets s) then max 1 (source_bytes S s n div 1000000)
      else if penalizedCosts S n \<notin> {None, Some 0} then the (penalizedCosts S n) * 1000
      else max 1 (source_bytes S s n div 1000000) * 1000)"

lemma getCostOfSource_bytes: "getCostOfSource n S s = source_bytes S s n"
  by (simp add: getCostOfSource_def getNumBytes_def source_bytes_def split: option.split)

lemma sourceCost_cost: "snd (sourceCost n S s) = cost S s n"
  by (auto simp: sourceCost_def Let_def cost_def getCostOfSource_bytes split: option.split)

lemma source_bytes_stats: "source_bytes (fst (sourceCost m S s)) s n = source_bytes S s n"
  by (simp add: sourceCost_def Let_def source_bytes_def split: option.split)

lemma cost_other: "n \<noteq> m \<Longrightarrow> cost (fst (sourceCost m S s)) s n = cost S s n"
  unfolding cost_def source_bytes_stats by (auto simp: sourceCost_def Let_def)

text \<open>What the loop knows: the smallest cost so far, the first place with it, or what it started with.\<close>

definition found :: "statistics \<Rightarrow> planner \<Rightarrow> nat \<Rightarrow> string list \<Rightarrow> nat option \<times> nat \<times> nat \<Rightarrow> nat option \<times> nat \<times> nat \<Rightarrow> bool" where
  "found S s i ns r r' = (\<exists>c. fst r' = Some c \<and> (\<forall>n \<in> set ns. c \<le> cost S s n) \<and> (\<forall>c0. fst r = Some c0 \<longrightarrow> c \<le> c0) \<and>
     (r' = r \<or> (\<forall>c0. fst r = Some c0 \<longrightarrow> c < c0) \<and> (\<exists>k < length ns. r' = (Some (cost S s (ns ! k)), i + k, getCostOfSource (ns ! k) S s) \<and>
       (\<forall>j < k. c < cost S s (ns ! j)))))"

lemma best_loop_found:
  assumes "distinct ns" and "fst r \<noteq> None \<or> ns \<noteq> []"
  shows "found S s i ns r (snd (best_loop False i ns s (S, r)))"
  using assms
proof (induction ns arbitrary: i S r)
  case Nil
  then show ?case by (cases r) (auto simp: found_def)
next
  case (Cons n ns)
  obtain m b x where r: "r = (m, b, x)" by (cases r)
  define S1 where "S1 = fst (sourceCost n S s)"
  define r1 where "r1 = (if m = None \<or> cost S s n < the m then (Some (cost S s n), i, getCostOfSource n S1 s) else r)"
  have eq: "best_loop False i (n # ns) s (S, r) = best_loop False (i + 1) ns s (S1, r1)"
    by (simp add: r r1_def S1_def sourceCost_cost case_prod_unfold Let_def)
  have ih: "found S1 s (i + 1) ns r1 (snd (best_loop False (i + 1) ns s (S1, r1)))"
    by (rule Cons.IH) (use Cons.prems in \<open>auto simp: r1_def r\<close>)
  have same: "cost S1 s k = cost S s k" if "k \<in> set ns" for k
    using that Cons.prems(1) unfolding S1_def by (intro cost_other) auto
  have size: "getCostOfSource k S1 s = getCostOfSource k S s" for k
    by (simp only: S1_def getCostOfSource_bytes source_bytes_stats)
  obtain c where c: "fst (snd (best_loop False (i + 1) ns s (S1, r1))) = Some c" "\<forall>n \<in> set ns. c \<le> cost S1 s n"
    "\<forall>c0. fst r1 = Some c0 \<longrightarrow> c \<le> c0"
    "snd (best_loop False (i + 1) ns s (S1, r1)) = r1 \<or> (\<forall>c0. fst r1 = Some c0 \<longrightarrow> c < c0) \<and> (\<exists>k < length ns.
       snd (best_loop False (i + 1) ns s (S1, r1)) = (Some (cost S1 s (ns ! k)), i + 1 + k, getCostOfSource (ns ! k) S1 s) \<and>
       (\<forall>j < k. c < cost S1 s (ns ! j)))"
    using ih unfolding found_def by blast
  define r' where "r' = snd (best_loop False (i + 1) ns s (S1, r1))"
  have low: "c \<le> cost S s n" "\<forall>c0. m = Some c0 \<longrightarrow> c \<le> c0"
    using c(3) by (auto simp: r1_def r split: if_splits)
  have "r' = r \<or> (\<forall>c0. m = Some c0 \<longrightarrow> c < c0) \<and> (\<exists>k < length (n # ns). r' = (Some (cost S s ((n # ns) ! k)), i + k, getCostOfSource ((n # ns) ! k) S s) \<and>
       (\<forall>j < k. c < cost S s ((n # ns) ! j)))"
    using c(4)
  proof
    assume 1: "snd (best_loop False (i + 1) ns s (S1, r1)) = r1"
    show ?thesis
    proof (cases "m = None \<or> cost S s n < the m")
      case True
      then show ?thesis using 1 c(1) by (intro disjI2 conjI exI [of _ 0]) (auto simp: r'_def r1_def size)
    qed (use 1 in \<open>auto simp: r'_def r1_def\<close>)
  next
    assume 2: "(\<forall>c0. fst r1 = Some c0 \<longrightarrow> c < c0) \<and> (\<exists>k < length ns.
       snd (best_loop False (i + 1) ns s (S1, r1)) = (Some (cost S1 s (ns ! k)), i + 1 + k, getCostOfSource (ns ! k) S1 s) \<and>
       (\<forall>j < k. c < cost S1 s (ns ! j)))"
    then obtain k where k: "k < length ns" "r' = (Some (cost S s (ns ! k)), i + Suc k, getCostOfSource (ns ! k) S s)"
      "\<forall>j < k. c < cost S s (ns ! j)" by (auto simp: r'_def same size)
    have "c < cost S s n \<and> (\<forall>c0. m = Some c0 \<longrightarrow> c < c0)"
      using 2 by (auto simp: r1_def r split: if_splits)
    then show ?thesis using k by (intro disjI2 conjI exI [of _ "Suc k"]) (auto simp: less_Suc_eq_0_disj)
  qed
  then show ?case using c(1,2) low unfolding found_def eq by (auto simp: same r r'_def)
qed

text \<open>With \<open>tieLast\<close> the place is that of the last source with the smallest cost; the smallest cost and
  the size are the same as without.\<close>

lemma best_loop_tie:
  "best_loop tie i ns s (S, m, b, x) = (T, m', b', x') \<Longrightarrow>
   \<exists>b''. best_loop False i ns s (S, m, b0, x) = (T, m', b'', x')"
proof (induction ns arbitrary: i S m b b0 x)
  case (Cons n ns)
  obtain S1 c where c: "sourceCost n S s = (S1, c)" by (cases "sourceCost n S s")
  show ?case
  proof (cases "m = None \<or> c < the m")
    case True
    then show ?thesis using Cons.prems Cons.IH [of "i + 1" S1 "Some c" _ "getCostOfSource n S1 s" i]
      by (auto simp: c Let_def split: if_splits)
  next
    case False
    then show ?thesis using Cons.prems Cons.IH [of "i + 1" S1 m _ x b0]
      by (auto simp: c Let_def split: if_splits)
  qed
qed simp

lemma best_loop_last:
  "distinct ns \<Longrightarrow> best_loop True i ns s (S, m, b, x) = (T, m', b', x') \<Longrightarrow>
   (\<exists>k < length ns. m' = Some (cost S s (ns ! k)) \<and> b' = i + k \<and>
      (\<forall>j. k < j \<longrightarrow> j < length ns \<longrightarrow> cost S s (ns ! k) < cost S s (ns ! j))) \<or>
   b' = b \<and> m' = m \<and> (\<forall>n \<in> set ns. \<exists>c. m = Some c \<and> c < cost S s n)"
proof (induction ns arbitrary: i S m b x)
  case (Cons n ns)
  define S1 where "S1 = fst (sourceCost n S s)"
  define hit where "hit \<longleftrightarrow> m = None \<or> cost S s n \<le> the m"
  define m1 where "m1 = (if hit then Some (cost S s n) else m)"
  define b1 where "b1 = (if hit then i else b)"
  define x1 where "x1 = (if m = None \<or> cost S s n < the m then getCostOfSource n S1 s else x)"
  have step: "best_loop True i (n # ns) s (S, m, b, x) = best_loop True (i + 1) ns s (S1, m1, b1, x1)"
    by (auto simp: S1_def hit_def m1_def b1_def x1_def sourceCost_cost case_prod_unfold Let_def)
  have same: "cost S1 s (ns ! j) = cost S s (ns ! j)" if "j < length ns" for j
    using that Cons.prems(1) unfolding S1_def by (intro cost_other) auto
  then have same_all: "cost S1 s k = cost S s k" if "k \<in> set ns" for k
    using that by (metis in_set_conv_nth)
  have "distinct ns" using Cons.prems(1) by simp
  from Cons.IH [OF this Cons.prems(2) [unfolded step]] show ?case
  proof
    assume "\<exists>k < length ns. m' = Some (cost S1 s (ns ! k)) \<and> b' = i + 1 + k \<and>
      (\<forall>j. k < j \<longrightarrow> j < length ns \<longrightarrow> cost S1 s (ns ! k) < cost S1 s (ns ! j))"
    then obtain k where k: "k < length ns" "m' = Some (cost S s (ns ! k))" "b' = i + Suc k"
      "\<forall>j. k < j \<longrightarrow> j < length ns \<longrightarrow> cost S s (ns ! k) < cost S s (ns ! j)" by (auto simp: same)
    then show ?thesis
      by (intro disjI1 exI [of _ "Suc k"]) (auto simp: nth_Cons split: nat.split)
  next
    assume fin: "b' = b1 \<and> m' = m1 \<and> (\<forall>n \<in> set ns. \<exists>c. m1 = Some c \<and> c < cost S1 s n)"
    show ?thesis
    proof (cases hit)
      case True
      then show ?thesis using fin by (intro disjI1 exI [of _ 0]) (auto simp: m1_def b1_def same_all nth_Cons split: nat.split)
    next
      case False
      then show ?thesis using fin by (intro disjI2) (auto simp: m1_def b1_def hit_def same_all)
    qed
  qed
qed simp

text \<open>The loop records the new cost of every penalised source it looks at, and nothing else.\<close>

lemma best_loop_stats:
  "distinct ns \<Longrightarrow> best_loop tie i ns s (S, r) = (T, r') \<Longrightarrow>
   dataStatistics T = dataStatistics S \<and> penalizedCosts T =
     (\<lambda>n. if n \<in> set ns \<and> n \<in> set (penalizedSourceSets s) then Some (cost S s n) else penalizedCosts S n)"
proof (induction ns arbitrary: i S r)
  case (Cons n ns)
  obtain m b x where r: "r = (m, b, x)" by (cases r)
  define S1 where "S1 = fst (sourceCost n S s)"
  obtain j r1 where step: "best_loop tie j ns s (S1, r1) = (T, r')"
    using Cons.prems(2) by (auto simp: r S1_def case_prod_unfold Let_def)
  have s1: "dataStatistics S1 = dataStatistics S"
    "penalizedCosts S1 = (if n \<in> set (penalizedSourceSets s) then (penalizedCosts S)(n \<mapsto> cost S s n) else penalizedCosts S)"
    using sourceCost_cost [of n S s]
    by (auto simp: S1_def sourceCost_def Let_def split: if_splits)
  have "cost S1 s k = cost S s k" if "k \<in> set ns" for k
    using that Cons.prems(1) unfolding S1_def by (intro cost_other) auto
  then show ?case using Cons.IH [OF _ step] Cons.prems(1) s1 by (auto simp: fun_eq_iff)
qed simp

text \<open>C30: The planner takes one of the cheapest sources: the first, or the last where the program is
  compiled for nearest-neighbour search (\<open>tieLast\<close>).  The cost of a source is its size in megabytes, at
  least one, and a penalised source costs a thousand times what it last did.  The cost that the join
  rules look at afterwards is that of this source, the size is that of the first of the cheapest (of
  the chosen source itself unless the last is taken), and the new costs of the penalised sources, and
  only these, are recorded.  The names of the sources are assumed to be distinct.\<close>

theorem best_source_is_cheapest:
  assumes "distinct (curSourceSetNames s)" and "curSourceSetNames s \<noteq> []"
  shows "\<exists>s' T b k. getBestSource E (Some S) s = Inr (s', Some T, b) \<and>
    b < length (curSourceSetNames s) \<and> k < length (curSourceSetNames s) \<and> (\<not> tieLast E \<longrightarrow> b = k) \<and>
    (\<forall>n \<in> set (curSourceSetNames s). cost S s (curSourceSetNames s ! b) \<le> cost S s n) \<and>
    cost S s (curSourceSetNames s ! k) = cost S s (curSourceSetNames s ! b) \<and>
    (\<forall>j < k. cost S s (curSourceSetNames s ! k) < cost S s (curSourceSetNames s ! j)) \<and>
    (tieLast E \<longrightarrow> (\<forall>j. b < j \<longrightarrow> j < length (curSourceSetNames s) \<longrightarrow>
       cost S s (curSourceSetNames s ! b) < cost S s (curSourceSetNames s ! j))) \<and>
    curSourceSetName s' = curSourceSetNames s ! b \<and> costOfCur s' = cost S s (curSourceSetNames s ! b) \<and>
    exactSizeOfCur s' = source_bytes S s (curSourceSetNames s ! k) \<and>
    penalizedCosts T = (\<lambda>n. if n \<in> set (curSourceSetNames s) \<and> n \<in> set (penalizedSourceSets s)
       then Some (cost S s n) else penalizedCosts S n)"
proof -
  define ns where "ns = curSourceSetNames s"
  obtain T m b x where r: "best_loop (tieLast E) 0 ns s (S, None, 0, exactSizeOfCur s) = (T, m, b, x)" by (metis prod_cases4)
  obtain k where r': "best_loop False 0 ns s (S, None, 0, exactSizeOfCur s) = (T, m, k, x)"
    using best_loop_tie [OF r] by blast
  have "found S s 0 ns (None, 0, exactSizeOfCur s) (m, k, x)"
    using best_loop_found [of ns "(None, 0, exactSizeOfCur s)" S s 0] assms by (simp add: r' [unfolded ns_def] ns_def)
  then have k: "m = Some (cost S s (ns ! k))" "k < length ns" "x = source_bytes S s (ns ! k)"
      "\<forall>n \<in> set ns. cost S s (ns ! k) \<le> cost S s n" "\<forall>j < k. cost S s (ns ! k) < cost S s (ns ! j)"
    by (auto simp: found_def getCostOfSource_bytes)
  have b: "b < length ns \<and> cost S s (ns ! b) = cost S s (ns ! k) \<and> (\<not> tieLast E \<longrightarrow> b = k) \<and>
      (tieLast E \<longrightarrow> (\<forall>j. b < j \<longrightarrow> j < length ns \<longrightarrow> cost S s (ns ! b) < cost S s (ns ! j)))"
  proof (cases "tieLast E")
    case True
    then have "best_loop True 0 ns s (S, None, 0, exactSizeOfCur s) = (T, m, b, x)" using r by simp
    from best_loop_last [OF _ this] assms(1) k(1) show ?thesis using True by (auto simp: ns_def)
  qed (use r r' k in auto)
  have "penalizedCosts T = (\<lambda>n. if n \<in> set ns \<and> n \<in> set (penalizedSourceSets s) then Some (cost S s n) else penalizedCosts S n)"
    using best_loop_stats [OF _ r] assms(1) by (simp add: ns_def)
  moreover have "getBestSource E (Some S) s =
      Inr (s\<lparr>exactSizeOfCur := x, costOfCur := cost S s (ns ! k), curSourceSetName := ns ! b\<rparr>, Some T, b)"
    using r k(1) by (simp add: getBestSource_def ns_def)
  ultimately show ?thesis using k b unfolding ns_def by auto
qed

definition demo_sizes :: statistics where
  "demo_sizes = \<lparr>dataStatistics = [''d:a'' \<mapsto> \<lparr>isModelSet = False, statBytes = 9000000\<rparr>, ''d:b'' \<mapsto> \<lparr>isModelSet = False, statBytes = 4000000\<rparr>],
     penalizedCosts = Map.empty\<rparr>"

definition demo_sources :: planner where
  "demo_sources = demo_start\<lparr>curSourceSetNames := [''d:a'', ''d:b''], curSourceSets := [''d:a'' \<mapsto> 0, ''d:b'' \<mapsto> 1],
     setObjs := map (\<lambda>n. \<lparr>sidDb = ''d'', sidName = n, sidAgg = False, sidPageSize = 0, sidDesired = 0, sidIndex = 0, sidDataType = ''x''\<rparr>)
       [''a'', ''b'']\<rparr>"

theorem best_source_is_cheapest_witness:
  "\<exists>s' T b. getBestSource (demo_env True) (Some demo_sizes) demo_sources = Inr (s', Some T, b) \<and> b = 1 \<and>
    curSourceSetName s' = ''d:b'' \<and> costOfCur s' = 4 \<and> exactSizeOfCur s' = 4000000"
proof -
  have names: "curSourceSetNames demo_sources = [''d:a'', ''d:b'']" by (simp add: demo_sources_def)
  have costs: "cost demo_sizes demo_sources ''d:a'' = 9" "cost demo_sizes demo_sources ''d:b'' = 4"
    "source_bytes demo_sizes demo_sources ''d:b'' = 4000000"
    by (simp_all add: cost_def source_bytes_def demo_sizes_def demo_sources_def demo_start_def
      newTCAPAnalyzer_def demo_env_def)
  obtain s' T b k where r: "getBestSource (demo_env True) (Some demo_sizes) demo_sources = Inr (s', Some T, b)"
    "b < 2" "b = k" "\<forall>n \<in> {''d:a'', ''d:b''}. cost demo_sizes demo_sources ([''d:a'', ''d:b''] ! b) \<le> cost demo_sizes demo_sources n"
    "curSourceSetName s' = [''d:a'', ''d:b''] ! b" "costOfCur s' = cost demo_sizes demo_sources ([''d:a'', ''d:b''] ! b)"
    "exactSizeOfCur s' = source_bytes demo_sizes demo_sources ([''d:a'', ''d:b''] ! k)"
    using best_source_is_cheapest [of demo_sources "demo_env True" demo_sizes] by (auto simp: names demo_env_def)
  then have "b = 1" using costs by (auto simp: less_2_cases_iff)
  with r costs show ?thesis by auto
qed

section \<open>A pipeline that is lost\<close>

text \<open>A join of a small aggregate with a set, joined with a third set.  The set is large enough to be
  partitioned, so the aggregate is repartitioned before it probes.\<close>

definition lost_B :: atomic_comp where
  "lost_B = makeScan (demo_spec ''B'' [''y'']) ''d'' ''b'' ''B'' 0"

definition lost_C :: atomic_comp where
  "lost_C = makeScan (demo_spec ''C'' [''z'']) ''d'' ''c'' ''C'' 1"

definition lost_D :: atomic_comp where
  "lost_D = makeScan (demo_spec ''D'' [''w'']) ''d'' ''e'' ''D'' 2"

definition lost_A :: atomic_comp where
  "lost_A = makeAgg (demo_spec ''A'' [''x'']) (demo_spec ''C'' [''z'']) ''G'' 3"

definition lost_J1 :: atomic_comp where
  "lost_J1 = makeJoin (demo_spec ''J1'' [''x'', ''y'']) (demo_spec ''A'' [''x'']) (demo_spec ''A'' [''x''])
  (demo_spec ''B'' [''y'']) (demo_spec ''B'' [''y'']) ''J'' 4"

definition lost_J2 :: atomic_comp where
  "lost_J2 = makeJoin (demo_spec ''J2'' [''x'', ''y'', ''w'']) (demo_spec ''J1'' [''x'']) (demo_spec ''J1'' [''x'', ''y''])
  (demo_spec ''D'' [''w'']) (demo_spec ''D'' [''w'']) ''K'' 5"

definition lost_W :: atomic_comp where
  "lost_W = makeOutput (demo_spec ''o'' []) (demo_spec ''J2'' [''x'']) ''d'' ''o'' ''W'' 6"

definition lost_query :: "atomic_comp list" where
  "lost_query = [lost_B, lost_C, lost_D, lost_A, lost_J1, lost_J2, lost_W]"

definition lost_plan :: comp_list where
  "lost_plan = makeAtomicComputationList lost_query"

definition lost_comps :: "string \<rightharpoonup> computation" where
  "lost_comps = [''B'' \<mapsto> demo_comp ''ScanUserSet'' (Some (''d'', ''b'')) [], ''C'' \<mapsto> demo_comp ''ScanUserSet'' (Some (''d'', ''c'')) [],
     ''D'' \<mapsto> demo_comp ''ScanUserSet'' (Some (''d'', ''e'')) [], ''G'' \<mapsto> demo_comp ''ClusterAggregationComp'' (Some (''d'', ''g'')) [''C''],
     ''J'' \<mapsto> demo_comp ''JoinComp'' None [''G'', ''B''], ''K'' \<mapsto> demo_comp ''JoinComp'' None [''J'', ''D''],
     ''W'' \<mapsto> demo_comp ''WriteUserSet'' (Some (''d'', ''o'')) [''K'']]"

definition no_lambdas :: lambda_db where
  "no_lambdas = \<lparr>getJobName = \<lambda>j. j, getPartitionLambdas = \<lambda>d n. [], getLambda = \<lambda>j c l. None\<rparr>"

definition lost_env :: plan_env where
  "lost_env = (demo_env True)\<lparr>lambdaDb := Some no_lambdas\<rparr>"

definition lost_sizes :: statistics where
  "lost_sizes = \<lparr>dataStatistics = [''d:b'' \<mapsto> \<lparr>isModelSet = False, statBytes = 16000 * 1000000\<rparr>,
     ''d:c'' \<mapsto> \<lparr>isModelSet = False, statBytes = 20000 * 1000000\<rparr>, ''d:e'' \<mapsto> \<lparr>isModelSet = False, statBytes = 30000 * 1000000\<rparr>],
     penalizedCosts = Map.empty\<rparr>"

lemma lost_query_fine: "plan_ok [] lost_query" "scans_apart lost_query"
  by code_simp+

lemmas lost_defs = lost_B_def lost_C_def lost_D_def lost_A_def lost_J1_def lost_J2_def lost_W_def

lemma lost_plan_simps:
  "getConsuming ''A'' lost_plan = [lost_J1]" "getConsuming ''B'' lost_plan = [lost_J1]" "getConsuming ''C'' lost_plan = [lost_A]"
  "getConsuming ''D'' lost_plan = [lost_J2]" "getConsuming ''J1'' lost_plan = [lost_J2]" "getConsuming ''J2'' lost_plan = [lost_W]"
  "getConsuming ''o'' lost_plan = []" "scans lost_plan = [lost_B, lost_C, lost_D]"
  "getProducing ''A'' lost_plan = Some lost_A" "getProducing ''B'' lost_plan = Some lost_B" "getProducing ''C'' lost_plan = Some lost_C"
  "getProducing ''D'' lost_plan = Some lost_D" "getProducing ''J1'' lost_plan = Some lost_J1" 
  by (simp_all add: lost_plan_def lost_query_def lost_defs list_defs getProducing_def)

lemma lost_node_simps:
  "acOutput lost_B = demo_spec ''B'' [''y'']" "compName lost_B = ''B''" "acId lost_B = 0" "acInput lost_B = empty_spec" "acKind lost_B = ScanSet ''d'' ''b''"
  "acOutput lost_C = demo_spec ''C'' [''z'']" "compName lost_C = ''C''" "acId lost_C = 1" "acInput lost_C = empty_spec" "acKind lost_C = ScanSet ''d'' ''c''"
  "acOutput lost_D = demo_spec ''D'' [''w'']" "compName lost_D = ''D''" "acId lost_D = 2" "acInput lost_D = empty_spec" "acKind lost_D = ScanSet ''d'' ''e''"
  "acOutput lost_A = demo_spec ''A'' [''x'']" "compName lost_A = ''G''" "acId lost_A = 3" "acInput lost_A = demo_spec ''C'' [''z'']" "acKind lost_A = ApplyAgg"
  "acOutput lost_J1 = demo_spec ''J1'' [''x'', ''y'']" "compName lost_J1 = ''J''" "acId lost_J1 = 4" "acInput lost_J1 = demo_spec ''A'' [''x'']"
  "acKind lost_J1 = ApplyJoin (demo_spec ''B'' [''y'']) (demo_spec ''B'' [''y''])" "acProjection lost_J1 = demo_spec ''A'' [''x'']"
  "acOutput lost_J2 = demo_spec ''J2'' [''x'', ''y'', ''w'']" "compName lost_J2 = ''K''" "acId lost_J2 = 5" "acInput lost_J2 = demo_spec ''J1'' [''x'']"
  "acKind lost_J2 = ApplyJoin (demo_spec ''D'' [''w'']) (demo_spec ''D'' [''w''])" "acProjection lost_J2 = demo_spec ''J1'' [''x'', ''y'']"
  "acOutput lost_W = demo_spec ''o'' []" "compName lost_W = ''W''" "acId lost_W = 6" "acInput lost_W = demo_spec ''J2'' [''x'']"
  "specName (demo_spec n as) = n" "specAtts (demo_spec n as) = as"
  by (simp_all add: lost_defs list_defs)

lemma lost_env_simps: "jobId lost_env = ''j''" "isDynamic lost_env" "clusterNodes lost_env = 2" "shufflePageSize lost_env = 10"
  "broadcastPageSize lost_env = 10" "confPageSize lost_env = 10" "\<not> tieLast lost_env" "joinCostThreshold lost_env = 15000" "lambdaDb lost_env = Some no_lambdas" "inputDepth lost_env = 9"
  "getJobName no_lambdas j = j" "getPartitionLambdas no_lambdas d n = []"
  by (simp_all add: lost_env_def demo_env_def no_lambdas_def)

lemma lost_comps_simps:
  "lost_comps ''B'' = Some (demo_comp ''ScanUserSet'' (Some (''d'', ''b'')) [])" "lost_comps ''C'' = Some (demo_comp ''ScanUserSet'' (Some (''d'', ''c'')) [])"
  "lost_comps ''D'' = Some (demo_comp ''ScanUserSet'' (Some (''d'', ''e'')) [])" "lost_comps ''G'' = Some (demo_comp ''ClusterAggregationComp'' (Some (''d'', ''g'')) [''C''])"
  "lost_comps ''J'' = Some (demo_comp ''JoinComp'' None [''G'', ''B''])" "lost_comps ''K'' = Some (demo_comp ''JoinComp'' None [''J'', ''D''])"
  "lost_comps ''W'' = Some (demo_comp ''WriteUserSet'' (Some (''d'', ''o'')) [''K''])"
  by (simp_all add: lost_comps_def)

lemma lost_sources:
  "findSource lost_plan lost_B ''y'' = Some (Inr (''B'', ''''))" "findSource lost_plan lost_A ''x'' = Some (Inr (''G'', ''''))"
  "findSource lost_plan lost_D ''w'' = Some (Inr (''D'', ''''))"
  by (subst findSource.simps, simp add: source_step_def findPosInOutputAtts_def lost_node_simps)+

text \<open>Where a stage leaves its result for good.\<close>

fun writes_to :: "string list \<Rightarrow> job_stage \<Rightarrow> string option" where
  "writes_to ks (TupleSetStage t) = Some (ks ! sinkCtx t)"
| "writes_to ks (AggStage _ _ _ i _) = Some (ks ! i)"
| "writes_to ks _ = None"

text \<open>Dynamic planning can lose the rest of a query.  The consumer of a source counts as planned once a
  stage came out of it, also when the planner gave it up later on: here the small aggregate is repartitioned
  to probe the first join, and is then given up because the table of the second join is not built yet.  After five
  rounds no source is left; the tables of both joins are built, but no stage probes either of them, none reads the
  repartitioned aggregate, and none writes the output of the query.\<close>

theorem dynamic_plan_loses_output:
  "\<exists>s s' S'. newTCAPAnalyzer lost_env lost_plan lost_comps 0 0 = Inr s
    \<and> plan_rounds lost_env lost_plan 7 9 5 (Some lost_sizes) s = Some (Inr (s', S')) \<and> curSourceSetNames s' = []
    \<and> map (builds (set_keys s')) (physicalPlan s') =
        [None, Some ''j:J1_repartitionData'', None, None, None, None, Some ''j:J2_repartitionData'']
    \<and> list_all (\<lambda>x. probes x = [] \<and> writes_to (set_keys s') x \<noteq> Some ''d:o'') (physicalPlan s')
    \<and> list_all (\<lambda>x. case x of TupleSetStage t \<Rightarrow> set_keys s' ! sourceCtx t \<noteq> ''j:J1_probingData'' | _ \<Rightarrow> True) (physicalPlan s')"
  by (simp add: planner_defs lost_plan_simps lost_node_simps lost_env_simps lost_comps_simps lost_sources lost_sizes_def demo_comp_def
      set_keys_def cong: weak_congs)

section \<open>Stages of a node with several consumers\<close>

definition shared_query :: "atomic_comp list" where
  "shared_query =
    [makeScan (demo_spec ''A'' [''x'']) ''d'' ''a'' ''S'' 0,
     makeApply (demo_spec ''N'' [''x'', ''p'']) (demo_spec ''A'' [''x'']) (demo_spec ''A'' [''x'']) ''C'' ''f'' 1,
     makeFilter (demo_spec ''F'' [''x'']) (demo_spec ''N'' [''p'']) (demo_spec ''N'' [''x'']) ''V'' 2,
     makeApply (demo_spec ''H'' [''x'', ''q'']) (demo_spec ''N'' [''x'']) (demo_spec ''N'' [''x'']) ''U'' ''g'' 3,
     makeOutput (demo_spec ''o'' []) (demo_spec ''F'' [''x'']) ''d'' ''o'' ''W'' 4,
     makeOutput (demo_spec ''r'' []) (demo_spec ''H'' [''x'']) ''d'' ''r'' ''Y'' 5]"

definition shared_comps :: "string \<rightharpoonup> computation" where
  "shared_comps = [''S'' \<mapsto> demo_comp ''ScanUserSet'' (Some (''d'', ''a'')) [], ''C'' \<mapsto> demo_comp ''SelectionComp'' None [''S''],
     ''V'' \<mapsto> demo_comp ''SelectionComp'' None [''C''], ''U'' \<mapsto> demo_comp ''SelectionComp'' None [''C''],
     ''W'' \<mapsto> demo_comp ''WriteUserSet'' (Some (''d'', ''o'')) [''V''], ''Y'' \<mapsto> demo_comp ''WriteUserSet'' (Some (''d'', ''r'')) [''U'']]"

text \<open>When a node has two consumers, static planning hands one vector of tuple sets to the calls for both, and
  does not clear it in between: the stage of the second consumer is told to compute the tuple set of the first
  one as well, which no lambda of its own asks for.\<close>

theorem second_consumer_inherits_tuple_sets:
  "\<exists>s s'. newTCAPAnalyzer (demo_env False) (makeAtomicComputationList shared_query) shared_comps 0 0 = Inr s
    \<and> analyze_plan (demo_env False) (makeAtomicComputationList shared_query) 6 s = Some (Inr (s', True))
    \<and> map (\<lambda>x. case x of TupleSetStage t \<Rightarrow> (buildTS t, targetTS t) | _ \<Rightarrow> ([], '''')) (physicalPlan s') =
        [([''A'', ''N''], ''N''), ([''N'', ''F''], ''F''), ([''N'', ''F'', ''H''], ''H'')]"
  by (simp add: planner_defs list_defs demo_env_def shared_query_def shared_comps_def makeFilter_def analyze_plan_def analyze_source_def
      cong: weak_congs)

end
