(* ===== verification/JoinMaps.thy ===== *)
theory JoinMaps
  imports HashMaps
begin

text \<open>
  The hash table of joins: \<open>JoinPairArray\<close> and its iterator (\<open>JoinPairArray.h\<close>,
  \<open>JoinPairArray.cc\<close>) and \<open>JoinMap\<close> (\<open>JoinMap.h\<close>, \<open>JoinMap.cc\<close>), under
  \<open>src/src/builtInPDBObjects/headers\<close>.

  The table is keyed by hash words. A slot holds the hash, the first value pushed under it and
  \<open>next\<close>, the number of the overflow list with the later ones (\<open>UINT32_MAX\<close> when there is none). A
  slot list is an ordinary linear-probing table of \<open>HashMaps\<close> whose key is the stored hash and
  whose value is the pair of first value and \<open>next\<close>; the proofs below work over that view.

  The environment says whether the allocator can serve an array of that many slots (\<open>jRoomArr\<close>),
  copy a value or the overflow lists into a doubled array (\<open>jRoomMove\<close>, \<open>jRoomShare\<close>), add a new
  overflow list (\<open>jRoomFirst\<close>) and add an element to an overflow list (\<open>jRoomMore\<close>). An element is
  default-constructed in place (\<open>jFresh\<close>); \<open>JoinTuple\<close> has no constructor of its own that allocates, and a column type whose
  default constructor does, and could throw there, is not modelled.
\<close>

section \<open>JoinPairArray\<close>

record 'v jslot =
  jsHash :: nat
  jsNext :: nat
  jsValue :: "'v option"

record 'v jarray =
  jUsed :: nat
  jNum :: nat
  jMax :: nat
  jData :: "'v jslot list"
  jOverflows :: "'v list list"

record 'v jenv =
  jFresh :: 'v
  jRoomArr :: "nat \<Rightarrow> bool"
  jRoomMove :: "'v jarray \<Rightarrow> 'v \<Rightarrow> bool"
  jRoomShare :: "'v jarray \<Rightarrow> bool"
  jRoomFirst :: "'v jarray \<Rightarrow> nat \<Rightarrow> bool"
  jRoomMore :: "'v jarray \<Rightarrow> nat \<Rightarrow> bool"

definition NONEXT :: nat where
  "NONEXT = 4294967295"

definition jslot_unused :: "'v jslot" where
  "jslot_unused = \<lparr>jsHash = UNUSED, jsNext = NONEXT, jsValue = None\<rparr>"

definition jhash :: "nat \<Rightarrow> nat" where
  "jhash me = (if me = UNUSED then 858931273 else me)"

definition ja_new :: "nat \<Rightarrow> 'v jarray outcome" where
  "ja_new n =
     (if \<not> got_power n 1 32 then Inl (FatalExit 1)
      else Inr \<lparr>jUsed = 0, jNum = n, jMax = fill_limit n, jData = replicate n jslot_unused,
                jOverflows = []\<rparr>)"

definition ja_isOverFull :: "'v jarray \<Rightarrow> bool" where
  "ja_isOverFull pa \<longleftrightarrow> jMax pa \<le> jUsed pa"

definition ja_numUsedSlots :: "'v jarray \<Rightarrow> nat" where
  "ja_numUsedSlots pa = jUsed pa"

text \<open>The probe loop that \<open>count\<close>, \<open>setUnused\<close>, \<open>lookup\<close> and \<open>push\<close> share.\<close>

fun jprobe :: "'v jslot list \<Rightarrow> nat \<Rightarrow> nat \<Rightarrow> nat \<Rightarrow> nat \<Rightarrow> probe_result outcome" where
  "jprobe d num hv slot 0 = Inr RanOff"
| "jprobe d num hv slot (Suc n) =
     (if slot < length d then
        (if jsHash (d ! slot) = UNUSED then Inr (EmptySlot slot)
         else if jsHash (d ! slot) = hv then Inr (FoundSlot slot)
         else jprobe d num hv (if slot = num - 1 then 0 else slot + 1) n)
      else Inl WildAccess)"

definition ja_probe :: "'v jarray \<Rightarrow> nat \<Rightarrow> probe_result outcome" where
  "ja_probe pa me =
     (if jNum pa = 1 then Inl DivByZero
      else jprobe (jData pa) (jNum pa) (jhash me) (jhash me mod u32 (jNum pa + 4294967295)) (jNum pa))"

definition overflow_at :: "'v jarray \<Rightarrow> nat \<Rightarrow> 'v list outcome" where
  "overflow_at pa k = (if k < length (jOverflows pa) then Inr (jOverflows pa ! k) else Inl WildAccess)"

definition ja_count :: "'v jarray \<Rightarrow> nat \<Rightarrow> nat outcome" where
  "ja_count pa me =
     andThen (ja_probe pa me)
       (\<lambda>r. case r of
              FoundSlot s \<Rightarrow>
                let k = jsNext (jData pa ! s) in
                if k \<noteq> NONEXT then andThen (overflow_at pa k) (\<lambda>l. Inr (1 + length l)) else Inr 1
            | _ \<Rightarrow> Inr 0)"

text \<open>\<open>setUnused\<close> takes back the last value pushed under a hash: the last element of the overflow
  list, or the slot itself when there is none.\<close>

definition ja_setUnused :: "'v jarray \<Rightarrow> nat \<Rightarrow> 'v jarray outcome" where
  "ja_setUnused pa me =
     andThen (ja_probe pa me)
       (\<lambda>r. case r of
              EmptySlot s \<Rightarrow> Inr pa
            | FoundSlot s \<Rightarrow>
                let k = jsNext (jData pa ! s);
                    clear = pa\<lparr>jData := (jData pa)[s := jslot_unused]\<rparr> in
                if k \<noteq> NONEXT
                then andThen (overflow_at pa k)
                       (\<lambda>l. if l \<noteq> [] then Inr (pa\<lparr>jOverflows := (jOverflows pa)[k := butlast l]\<rparr>)
                            else Inr clear)
                else Inr clear
            | RanOff \<Rightarrow> Inl (FatalExit 1))"

text \<open>\<open>lookup\<close> returns a \<open>JoinRecordList\<close>, the number of a slot.\<close>

definition ja_lookup :: "'v jarray \<Rightarrow> nat \<Rightarrow> nat outcome" where
  "ja_lookup pa me =
     andThen (ja_probe pa me)
       (\<lambda>r. case r of EmptySlot s \<Rightarrow> Inr s | FoundSlot s \<Rightarrow> Inr s | RanOff \<Rightarrow> Inl (FatalExit 1))"

definition slot_at :: "'v jarray \<Rightarrow> nat \<Rightarrow> 'v jslot outcome" where
  "slot_at pa s = (if s < length (jData pa) then Inr (jData pa ! s) else Inl WildAccess)"

definition rl_getHash :: "'v jarray \<Rightarrow> nat \<Rightarrow> nat outcome" where
  "rl_getHash pa s = andThen (slot_at pa s) (\<lambda>x. Inr (jsHash x))"

definition rl_size :: "'v jarray \<Rightarrow> nat \<Rightarrow> nat outcome" where
  "rl_size pa s =
     andThen (slot_at pa s)
       (\<lambda>x. if jsHash x = UNUSED then Inr 0
            else if jsNext x \<noteq> NONEXT then
              (if jsNext x < length (jOverflows pa) then Inr (length (jOverflows pa ! jsNext x) + 1)
               else Inr 0)
            else Inr 1)"

definition rl_get :: "'v jarray \<Rightarrow> nat \<Rightarrow> nat \<Rightarrow> 'v outcome" where
  "rl_get pa s i =
     andThen (slot_at pa s)
       (\<lambda>x. if i = 0 then (case jsValue x of None \<Rightarrow> Inl WildAccess | Some v \<Rightarrow> Inr v)
            else andThen (overflow_at pa (jsNext x))
                   (\<lambda>l. if i - 1 < length l then Inr (l ! (i - 1)) else Inl WildAccess))"

text \<open>\<open>push\<close> returns a reference to the value it constructed: the value of a slot or an element of an
  overflow list.\<close>

datatype jref = InSlot nat | InOverflow nat nat

definition push_more ::
  "'v jenv \<Rightarrow> 'v jarray \<Rightarrow> nat \<Rightarrow> 'v jarray \<times> jref outcome" where
  "push_more E pa k =
     (case overflow_at pa k of
        Inl e \<Rightarrow> (pa, Inl e)
      | Inr l \<Rightarrow>
          if jRoomMore E pa k
          then (pa\<lparr>jOverflows := (jOverflows pa)[k := l @ [jFresh E]]\<rparr>, Inr (InOverflow k (length l)))
          else (pa, Inl NotEnoughSpace))"

definition ja_push :: "'v jenv \<Rightarrow> 'v jarray \<Rightarrow> nat \<Rightarrow> 'v jarray \<times> jref outcome" where
  "ja_push E pa me =
     (case ja_probe pa me of
        Inl e \<Rightarrow> (pa, Inl e)
      | Inr RanOff \<Rightarrow> (pa, Inl (FatalExit 1))
      | Inr (EmptySlot s) \<Rightarrow>
          (pa\<lparr>jData := (jData pa)[s := \<lparr>jsHash = jhash me, jsNext = NONEXT, jsValue = Some (jFresh E)\<rparr>],
              jUsed := u32 (jUsed pa + 1)\<rparr>, Inr (InSlot s))
      | Inr (FoundSlot s) \<Rightarrow>
          if jsNext (jData pa ! s) = NONEXT then
            (if jRoomFirst E pa s
             then (let k = u32 (length (jOverflows pa) + 1 + 4294967295) in
                   push_more E
                     (pa\<lparr>jOverflows := jOverflows pa @ [[]],
                         jData := (jData pa)[s := (jData pa ! s)\<lparr>jsNext := k\<rparr>]\<rparr>) k)
             else (pa, Inl NotEnoughSpace))
          else push_more E pa (jsNext (jData pa ! s)))"

definition ja_store :: "'v jarray \<Rightarrow> jref \<Rightarrow> 'v \<Rightarrow> 'v jarray" where
  "ja_store pa r v =
     (case r of
        InSlot s \<Rightarrow> pa\<lparr>jData := (jData pa)[s := (jData pa ! s)\<lparr>jsValue := Some v\<rparr>]\<rparr>
      | InOverflow k i \<Rightarrow> pa\<lparr>jOverflows := (jOverflows pa)[k := (jOverflows pa ! k)[i := v]]\<rparr>)"

text \<open>The loop of \<open>doubleArray\<close>. It reaches the new slot's \<open>next\<close> field from the address of the value
  that \<open>push\<close> returned, which is only there when that value is in a slot.\<close>

fun j_rehash :: "'v jenv \<Rightarrow> nat \<Rightarrow> nat \<Rightarrow> 'v jarray \<Rightarrow> 'v jarray \<Rightarrow> 'v jarray outcome" where
  "j_rehash E i 0 old new = Inr new"
| "j_rehash E i (Suc n) old new =
     (let x = jData old ! i in
      if jsHash x \<noteq> UNUSED then
        (case ja_push E new (jsHash x) of
           (new', Inl e) \<Rightarrow> Inl e
         | (new', Inr (InOverflow k j)) \<Rightarrow> Inl WildAccess
         | (new', Inr (InSlot s)) \<Rightarrow>
             (case jsValue x of
                None \<Rightarrow> Inl WildAccess
              | Some v \<Rightarrow>
                  if jRoomMove E new' v then
                    (let new'' = ja_store new' (InSlot s) v in
                     j_rehash E (Suc i) n old
                       (new''\<lparr>jData := (jData new'')[s := (jData new'' ! s)\<lparr>jsNext := jsNext x\<rparr>]\<rparr>))
                  else Inl NotEnoughSpace))
      else j_rehash E (Suc i) n old new)"

definition ja_doubleArray :: "'v jenv \<Rightarrow> 'v jarray \<Rightarrow> 'v jarray outcome" where
  "ja_doubleArray E pa =
     (let howMany = u32 (jNum pa * 2) in
      if \<not> jRoomArr E howMany then Inl NotEnoughSpace
      else andThen (ja_new howMany) (\<lambda>new.
           andThen (j_rehash E 0 (jNum pa) pa new) (\<lambda>new'.
             if jRoomShare E pa then Inr (new'\<lparr>jOverflows := jOverflows pa\<rparr>) else Inl NotEnoughSpace)))"

section \<open>JoinMap\<close>

record 'v jmap =
  jmArray :: "'v jarray"
  jmPartition :: nat
  jmNumPartitions :: nat

text \<open>Two of the constructors leave the partition fields as the storage had them (\<open>raw\<close>).\<close>

definition jm_new_partition :: "'v jenv \<Rightarrow> nat \<Rightarrow> nat \<Rightarrow> nat \<Rightarrow> 'v jmap outcome" where
  "jm_new_partition E initSize pid np =
     (let n = (if initSize < 2 then 2 else initSize) in
      if \<not> jRoomArr E n then Inl NotEnoughSpace
      else andThen (ja_new n) (\<lambda>a. Inr \<lparr>jmArray = a, jmPartition = pid, jmNumPartitions = np\<rparr>))"

definition jm_new_sized :: "'v jenv \<Rightarrow> nat \<times> nat \<Rightarrow> nat \<Rightarrow> 'v jmap outcome" where
  "jm_new_sized E raw initSize =
     (let n = (if initSize < 2 then 2 else initSize) in
      if \<not> jRoomArr E n then Inl NotEnoughSpace
      else andThen (ja_new n)
             (\<lambda>a. Inr \<lparr>jmArray = a, jmPartition = fst raw, jmNumPartitions = snd raw\<rparr>))"

definition jm_new :: "'v jenv \<Rightarrow> nat \<times> nat \<Rightarrow> 'v jmap outcome" where
  "jm_new E raw =
     (if \<not> jRoomArr E 2 then Inl NotEnoughSpace
      else andThen (ja_new 2)
             (\<lambda>a. Inr \<lparr>jmArray = a, jmPartition = fst raw, jmNumPartitions = snd raw\<rparr>))"

definition jm_setUnused :: "'v jmap \<Rightarrow> nat \<Rightarrow> 'v jmap outcome" where
  "jm_setUnused m me = andThen (ja_setUnused (jmArray m) me) (\<lambda>a. Inr (m\<lparr>jmArray := a\<rparr>))"

definition jm_push :: "'v jenv \<Rightarrow> 'v jmap \<Rightarrow> nat \<Rightarrow> 'v jmap \<times> jref outcome" where
  "jm_push E m me =
     (if ja_isOverFull (jmArray m) then
        (case ja_doubleArray E (jmArray m) of
           Inl e \<Rightarrow> (m, Inl e)
         | Inr a \<Rightarrow> (case ja_push E a me of (a', r) \<Rightarrow> (m\<lparr>jmArray := a'\<rparr>, r)))
      else (case ja_push E (jmArray m) me of (a', r) \<Rightarrow> (m\<lparr>jmArray := a'\<rparr>, r)))"

definition jm_store :: "'v jmap \<Rightarrow> jref \<Rightarrow> 'v \<Rightarrow> 'v jmap" where
  "jm_store m r v = m\<lparr>jmArray := ja_store (jmArray m) r v\<rparr>"

definition jm_lookup :: "'v jmap \<Rightarrow> nat \<Rightarrow> nat outcome" where
  "jm_lookup m me = ja_lookup (jmArray m) me"

definition jm_count :: "'v jmap \<Rightarrow> nat \<Rightarrow> nat outcome" where
  "jm_count m me = ja_count (jmArray m) me"

definition jm_size :: "'v jmap \<Rightarrow> nat" where
  "jm_size m = ja_numUsedSlots (jmArray m)"

text \<open>\<open>deepCopyJoinMap\<close> copies a map to the current allocation block: a map with an array of its own
  is made first and replaced by one of the source's size; every overflow list becomes a vector of its
  own (\<open>roomBucket\<close>: its array, its elements and the \<open>push_back\<close>), every used slot is assigned
  (\<open>roomCopy\<close>), and of an unused slot only the hash is written, \<open>raw\<close> being what the storage held.\<close>

fun copy_buckets :: "(nat \<Rightarrow> 'v list \<Rightarrow> bool) \<Rightarrow> nat \<Rightarrow> 'v list list \<Rightarrow> 'v list list outcome" where
  "copy_buckets roomBucket i [] = Inr []"
| "copy_buckets roomBucket i (b # bs) =
     (if roomBucket i b then andThen (copy_buckets roomBucket (Suc i) bs) (\<lambda>cs. Inr (b # cs))
      else Inl NotEnoughSpace)"

fun copy_slots :: "('v \<Rightarrow> bool) \<Rightarrow> (nat \<Rightarrow> nat) \<Rightarrow> nat \<Rightarrow> 'v jslot list \<Rightarrow> 'v jslot list outcome" where
  "copy_slots roomCopy raw i [] = Inr []"
| "copy_slots roomCopy raw i (x # xs) =
     (if jsHash x = UNUSED
      then andThen (copy_slots roomCopy raw (Suc i) xs)
             (\<lambda>ys. Inr (\<lparr>jsHash = UNUSED, jsNext = raw i, jsValue = None\<rparr> # ys))
      else (case jsValue x of
              None \<Rightarrow> Inl WildAccess
            | Some v \<Rightarrow> if roomCopy v then andThen (copy_slots roomCopy raw (Suc i) xs) (\<lambda>ys. Inr (x # ys))
                        else Inl NotEnoughSpace))"

definition jm_deepCopy :: "'v jenv \<Rightarrow> (nat \<Rightarrow> 'v list \<Rightarrow> bool) \<Rightarrow> ('v \<Rightarrow> bool) \<Rightarrow> (nat \<Rightarrow> nat) \<Rightarrow> 'v jmap
    \<Rightarrow> 'v jmap outcome" where
  "jm_deepCopy E roomBucket roomCopy raw m =
     (let a = jmArray m in
      if \<not> jRoomArr E 2 \<or> \<not> jRoomArr E (jNum a) then Inl NotEnoughSpace
      else andThen (copy_buckets roomBucket 0 (jOverflows a)) (\<lambda>ovs.
           andThen (copy_slots roomCopy raw 0 (jData a)) (\<lambda>d.
           Inr (m\<lparr>jmArray := \<lparr>jUsed = jUsed a, jNum = jNum a, jMax = jMax a, jData = d, jOverflows = ovs\<rparr>\<rparr>))))"

section \<open>Iterator\<close>

text \<open>The iterator visits the used slots by increasing hash; \<open>iterationOrder\<close> holds slot numbers
  with their hashes. As no two slots hold the same hash, any sorting of it has the same result.\<close>

record jiter =
  jiOrder :: "(nat \<times> nat) list"
  jiPos :: nat
  jiDone :: bool

definition ji_order :: "'v jarray \<Rightarrow> (nat \<times> nat) list" where
  "ji_order pa =
     sort_key snd
       (map (\<lambda>s. (s, jsHash (jData pa ! s)))
          (filter (\<lambda>s. jsHash (jData pa ! s) \<noteq> UNUSED) [0 ..< jNum pa]))"

definition ji_begin :: "'v jarray \<Rightarrow> jiter" where
  "ji_begin pa = \<lparr>jiOrder = ji_order pa, jiPos = 0, jiDone = (ji_order pa = [])\<rparr>"

definition ji_next :: "jiter \<Rightarrow> jiter" where
  "ji_next it =
     (let p = (if jiDone it then jiPos it else u32 (jiPos it + 1)) in
      it\<lparr>jiPos := p, jiDone := (jiDone it \<or> p = length (jiOrder it))\<rparr>)"

definition ji_deref :: "jiter \<Rightarrow> nat outcome" where
  "ji_deref it =
     (if jiPos it < length (jiOrder it) then Inr (fst (jiOrder it ! jiPos it)) else Inl WildAccess)"

text \<open>\<open>operator+\<close>, by which the merging of join pages skips ahead (\<open>howMuch\<close> is not negative
  there), and the comparison with \<open>end ()\<close>, whose \<open>done\<close> is set.\<close>

definition ji_plus :: "jiter \<Rightarrow> nat \<Rightarrow> jiter" where
  "ji_plus it howMuch =
     (if length (jiOrder it) \<le> u32 (jiPos it + howMuch)
      then it\<lparr>jiDone := True, jiPos := length (jiOrder it)\<rparr>
      else it\<lparr>jiPos := u32 (jiPos it + howMuch)\<rparr>)"

definition ji_neq :: "jiter \<Rightarrow> jiter \<Rightarrow> bool" where
  "ji_neq it me \<longleftrightarrow> \<not> jiDone it \<or> \<not> jiDone me"

definition ji_end :: "nat \<Rightarrow> jiter" where
  "ji_end raw = \<lparr>jiOrder = [], jiPos = raw, jiDone = True\<rparr>"

definition ji_getHash :: "'v jarray \<Rightarrow> jiter \<Rightarrow> nat outcome" where
  "ji_getHash pa it = andThen (ji_deref it) (rl_getHash pa)"

text \<open>The loop \<open>for (iter = begin (); iter != end (); ++iter)\<close>: the record lists it visits, in order;
  \<open>n\<close> bounds the number of its rounds.\<close>

fun ji_collect :: "nat \<Rightarrow> nat \<Rightarrow> jiter \<Rightarrow> nat list option" where
  "ji_collect raw n it =
     (if \<not> ji_neq it (ji_end raw) then Some []
      else (case n of
              0 \<Rightarrow> None
            | Suc n' \<Rightarrow>
                (case ji_deref it of
                   Inl e \<Rightarrow> None
                 | Inr s \<Rightarrow> map_option ((#) s) (ji_collect raw n' (ji_next it)))))"

end
