(* ===== verification/JoinMapFacts.thy ===== *)
theory JoinMapFacts
  imports JoinMaps
begin

text \<open>
  What the join map does: its invariant, the lists of values it holds by hash, and the effect of
  \<open>push\<close>, \<open>setUnused\<close>, \<open>lookup\<close>, the doubling and the iterator on them. The table underneath is
  seen as a table of \<open>HashMaps\<close> (\<open>array_view\<close>), so probing, insertion and removal are the lemmas
  proved there.
\<close>

section \<open>The table underneath\<close>

definition slot_view :: "'v jslot \<Rightarrow> (nat, 'v \<times> nat) slot" where
  "slot_view s = \<lparr>hashv = jsHash s, pair = map_option (\<lambda>v. (jsHash s, v, jsNext s)) (jsValue s)\<rparr>"

definition array_view :: "'v jarray \<Rightarrow> (nat, 'v \<times> nat) parray" where
  "array_view pa =
     \<lparr>paUsed = jUsed pa, paNum = jNum pa, paMax = jMax pa, paData = map slot_view (jData pa)\<rparr>"

definition view_env :: "'v jenv \<Rightarrow> (nat, 'v \<times> nat) menv" where
  "view_env E = \<lparr>khash = (\<lambda>h. h), freshVal = (jFresh E, NONEXT), roomArr = jRoomArr E,
     roomKey = (\<lambda>_ _. True), roomMove = (\<lambda>_ _. True), roomVal = (\<lambda>_ _. True)\<rparr>"

lemma array_view_simps [simp]:
  "paUsed (array_view pa) = jUsed pa" "paNum (array_view pa) = jNum pa"
  "paMax (array_view pa) = jMax pa" "paData (array_view pa) = map slot_view (jData pa)"
  by (simp_all add: array_view_def)

lemma view_env_simps [simp]:
  "khash (view_env E) = (\<lambda>h. h)" "freshVal (view_env E) = (jFresh E, NONEXT)"
  "roomKey (view_env E) pa k"
  by (simp_all add: view_env_def)

lemma slot_view_simps [simp]:
  "hashv (slot_view s) = jsHash s"
  "pair (slot_view s) = map_option (\<lambda>v. (jsHash s, v, jsNext s)) (jsValue s)"
  by (simp_all add: slot_view_def)

lemma slot_view_unused [simp]: "slot_view jslot_unused = unused_slot"
  by (simp add: slot_view_def jslot_unused_def unused_slot_def)

lemma hasher_id [simp]: "hasher (\<lambda>h. h) h = jhash h"
  by (simp add: hasher_def jhash_def)

lemma jhash_idem [simp]: "jhash (jhash h) = jhash h"
  by (simp add: jhash_def UNUSED_def)

lemma jhash_not_UNUSED [simp]: "jhash h \<noteq> UNUSED" "UNUSED \<noteq> jhash h"
  by (simp_all add: jhash_def UNUSED_def)

lemma jhash_used [simp]: "h \<noteq> UNUSED \<Longrightarrow> jhash h = h"
  by (simp add: jhash_def)

text \<open>The invariant of an environment's table does not depend on what the environment allows.\<close>

lemma slot_ok_view:
  "slot_ok (view_env E) s \<longleftrightarrow> (\<forall>h p. pair s = Some (h, p) \<longrightarrow> hashv s = jhash h) \<and> (pair s = None \<longrightarrow> hashv s = UNUSED)"
  by (cases "pair s") (auto simp: slot_ok_def)

lemma view_inv_any: "pa_inv (view_env E) pa = pa_inv (view_env E') pa"
  unfolding pa_inv_def slots_ok_def slot_ok_view reachable_slots_def startOf_def view_env_simps ..

definition links_ok :: "'v jslot list \<Rightarrow> 'v list list \<Rightarrow> bool" where
  "links_ok d ovs \<longleftrightarrow>
     length ovs \<le> NONEXT
     \<and> (\<forall>i < length d. jsValue (d ! i) \<noteq> None \<longrightarrow> jsNext (d ! i) \<noteq> NONEXT \<longrightarrow> jsNext (d ! i) < length ovs)
     \<and> (\<forall>i < length d. \<forall>j < length d. jsValue (d ! i) \<noteq> None \<longrightarrow> jsValue (d ! j) \<noteq> None \<longrightarrow>
          jsNext (d ! i) = jsNext (d ! j) \<longrightarrow> jsNext (d ! i) \<noteq> NONEXT \<longrightarrow> i = j)"

definition jinv :: "'v jarray \<Rightarrow> bool" where
  "jinv pa \<longleftrightarrow> (\<forall>E. pa_inv (view_env E) (array_view pa)) \<and> links_ok (jData pa) (jOverflows pa)"

text \<open>The values held under a hash, in the order they were pushed.\<close>

definition record_list :: "'v list list \<Rightarrow> 'v \<times> nat \<Rightarrow> 'v list" where
  "record_list ovs p = fst p # (if snd p = NONEXT then [] else ovs ! snd p)"

definition jcontents :: "'v jarray \<Rightarrow> nat \<Rightarrow> 'v list" where
  "jcontents pa h =
     (case pa_map (array_view pa) h of None \<Rightarrow> [] | Some p \<Rightarrow> record_list (jOverflows pa) p)"

definition heldAt :: "'v jarray \<Rightarrow> nat \<Rightarrow> nat \<Rightarrow> 'v \<Rightarrow> nat \<Rightarrow> bool" where
  "heldAt pa i h v n \<longleftrightarrow>
     i < length (jData pa) \<and> jsValue (jData pa ! i) = Some v \<and> jsHash (jData pa ! i) = h
     \<and> jsNext (jData pa ! i) = n"

lemma holdsAt_view: "holdsAt (paData (array_view pa)) i h p \<longleftrightarrow> heldAt pa i h (fst p) (snd p)"
  by (cases p) (auto simp: holdsAt_def heldAt_def)

lemma jinv_view: "jinv pa \<Longrightarrow> pa_inv (view_env E) (array_view pa)"
  by (simp add: jinv_def)

lemma jinv_intro: "pa_inv (view_env E) (array_view pa) \<Longrightarrow> links_ok (jData pa) (jOverflows pa) \<Longrightarrow> jinv pa"
  unfolding jinv_def using view_inv_any by blast

lemma jinv_length: "jinv pa \<Longrightarrow> length (jData pa) = jNum pa"
  using jinv_view[of pa undefined] by (simp add: pa_inv_def)

lemma jinv_num: "jinv pa \<Longrightarrow> 2 \<le> jNum pa" "jinv pa \<Longrightarrow> jNum pa \<le> 2 ^ 31"
  using jinv_view[of pa undefined] by (simp_all add: pa_inv_def)

lemma jinv_hash:
  assumes "jinv pa" "i < length (jData pa)"
  shows "jsHash (jData pa ! i) = UNUSED \<longleftrightarrow> jsValue (jData pa ! i) = None"
    "jhash (jsHash (jData pa ! i)) = jsHash (jData pa ! i) \<or> jsValue (jData pa ! i) = None"
proof -
  have so: "slots_ok (view_env undefined) (map slot_view (jData pa))"
    using jinv_view[OF assms(1), of undefined] by (simp add: pa_inv_def)
  show "jsHash (jData pa ! i) = UNUSED \<longleftrightarrow> jsValue (jData pa ! i) = None"
    using slots_ok_used[OF so, of i] assms(2) by simp
  show "jhash (jsHash (jData pa ! i)) = jsHash (jData pa ! i) \<or> jsValue (jData pa ! i) = None"
    using slots_ok_hash[OF so, of i "jsHash (jData pa ! i)"] assms(2) by (cases "jsValue (jData pa ! i)") auto
qed

lemma pa_map_held:
  assumes "jinv pa"
  shows "pa_map (array_view pa) h = Some (v, n) \<longleftrightarrow> (\<exists>i. heldAt pa i h v n)"
  using pa_map_iff[OF pa_inv_keys[OF jinv_view[OF assms]], where k = h and v = "(v, n)"]
  by (simp only: holdsAt_view fst_conv snd_conv)

lemma jcontents_held:
  assumes "jinv pa" "heldAt pa i h v n"
  shows "jcontents pa h = record_list (jOverflows pa) (v, n)"
  using pa_map_held[OF assms(1), of h v n] assms(2) by (auto simp: jcontents_def)

lemma jcontents_absent:
  assumes "jinv pa" "\<And>i v n. \<not> heldAt pa i h v n"
  shows "jcontents pa h = []" "pa_map (array_view pa) h = None"
proof -
  show "pa_map (array_view pa) h = None"
    using pa_map_held[OF assms(1), of h] assms(2) by (metis not_None_eq surj_pair)
  then show "jcontents pa h = []" by (simp add: jcontents_def)
qed

lemma jcontents_cong:
  "pa_map (array_view p) = pa_map (array_view q) \<Longrightarrow> jOverflows p = jOverflows q \<Longrightarrow> jcontents p = jcontents q"
  by (intro ext) (simp add: jcontents_def split: option.split)

lemma jcontents_eq_Nil: "jcontents pa h = [] \<longleftrightarrow> pa_map (array_view pa) h = None"
  by (simp add: jcontents_def record_list_def split: option.split)

lemma held_once: "jinv pa \<Longrightarrow> heldAt pa i h v n \<Longrightarrow> heldAt pa j h w m \<Longrightarrow> i = j \<and> v = w \<and> n = m"
proof -
  assume i: "jinv pa" and h: "heldAt pa i h v n" "heldAt pa j h w m"
  have "keys_once (paData (array_view pa))" using pa_inv_keys[OF jinv_view[OF i]] .
  then have "i = j"
    using h holdsAt_view[of pa i h "(v, n)"] holdsAt_view[of pa j h "(w, m)"]
    unfolding keys_once_def fst_conv snd_conv by blast
  then show ?thesis using h by (auto simp: heldAt_def)
qed

lemma jcontents_eqI:
  assumes "jinv pa'" and "\<And>h. (\<forall>i v n. \<not> heldAt pa' i h v n) \<Longrightarrow> f h = []"
    and "\<And>h i v n. heldAt pa' i h v n \<Longrightarrow> f h = record_list (jOverflows pa') (v, n)"
  shows "jcontents pa' = f"
proof
  fix h
  show "jcontents pa' h = f h"
  proof (cases "\<exists>i v n. heldAt pa' i h v n")
    case True
    then obtain i v n where h: "heldAt pa' i h v n" by blast
    show ?thesis using jcontents_held[OF assms(1) h] assms(3)[OF h] by simp
  next
    case False
    then have n: "\<And>i v n. \<not> heldAt pa' i h v n" by blast
    show ?thesis using jcontents_absent(1)[OF assms(1) n] assms(2)[of h] n by simp
  qed
qed

section \<open>Probing\<close>

lemma jprobe_view:
  assumes "\<forall>x \<in> set d. jsHash x \<noteq> UNUSED \<longrightarrow> jsValue x \<noteq> None"
  shows "jprobe d num hv slot n = probe (map slot_view d) num hv hv slot n"
  using assms
proof (induction n arbitrary: slot)
  case (Suc n)
  show ?case
  proof (cases "slot < length d")
    case True
    then have "d ! slot \<in> set d" by simp
    then show ?thesis using Suc True by (cases "jsValue (d ! slot)") auto
  qed simp
qed simp

lemma ja_probe_view_inv:
  assumes "pa_inv (view_env E) (array_view pa)"
  shows "ja_probe pa me = pa_probe (view_env E) (array_view pa) (jhash me)"
proof -
  have so: "slots_ok (view_env E) (map slot_view (jData pa))" using assms by (simp add: pa_inv_def)
  have "\<forall>x \<in> set (jData pa). jsHash x \<noteq> UNUSED \<longrightarrow> jsValue x \<noteq> None"
  proof
    fix x assume "x \<in> set (jData pa)"
    then obtain i where "i < length (jData pa)" "x = jData pa ! i" by (metis in_set_conv_nth)
    then show "jsHash x \<noteq> UNUSED \<longrightarrow> jsValue x \<noteq> None" using slots_ok_used[OF so, of i] by simp
  qed
  then show ?thesis by (simp add: ja_probe_def pa_probe_def jprobe_view)
qed

lemma ja_probe_view: "jinv pa \<Longrightarrow> ja_probe pa me = pa_probe (view_env E) (array_view pa) (jhash me)"
  by (rule ja_probe_view_inv[OF jinv_view])

lemma ja_probe_held:
  assumes "jinv pa" "heldAt pa i (jhash me) v n"
  shows "ja_probe pa me = Inr (FoundSlot i)"
  using probe_present[OF jinv_view[OF assms(1)], of i "jhash me" "(v, n)"] assms(2)
    ja_probe_view[OF assms(1)] holdsAt_view[of pa i "jhash me" "(v, n)"] by simp

lemma ja_probe_cases:
  fixes pa :: "'v jarray"
  assumes "jinv pa"
  obtains
    (held) i v n where "heldAt pa i (jhash me) v n" "ja_probe pa me = Inr (FoundSlot i)"
      "jcontents pa (jhash me) = record_list (jOverflows pa) (v, n)"
  | (empty) s where "ja_probe pa me = Inr (EmptySlot s)" "s < length (jData pa)"
      "jsHash (jData pa ! s) = UNUSED" "jsValue (jData pa ! s) = None" "jcontents pa (jhash me) = []"
      "pa_map (array_view pa) (jhash me) = None"
proof (cases "\<exists>i v n. heldAt pa i (jhash me) v n")
  case True
  then obtain i v n where "heldAt pa i (jhash me) v n" by blast
  then show thesis using held ja_probe_held[OF assms] jcontents_held[OF assms] by blast
next
  case False
  define E where "E = (undefined :: 'v jenv)"
  note ab = jcontents_absent[OF assms, of "jhash me"]
  have "\<And>i p. \<not> holdsAt (paData (array_view pa)) i (jhash me) p"
    using False by (simp only: holdsAt_view) blast
  then have "\<And>i v. \<not> holdsAt (paData (array_view pa)) i (jhash me) v" .
  then obtain t where t: "t < paNum (array_view pa)"
    "pa_probe (view_env E) (array_view pa) (jhash me) =
       Inr (EmptySlot ((startOf (view_env E) (paNum (array_view pa)) (jhash me) + t)
         mod paNum (array_view pa)))"
    "path_used (paData (array_view pa)) (startOf (view_env E) (paNum (array_view pa)) (jhash me)) t"
    "pair (paData (array_view pa) ! ((startOf (view_env E) (paNum (array_view pa)) (jhash me) + t)
         mod paNum (array_view pa))) = None"
    by (rule probe_absent[OF jinv_view[OF assms, of E]])
  note t = t(1,2,4)[unfolded array_view_simps]
  define s where "s = (startOf (view_env E) (jNum pa) (jhash me) + t) mod jNum pa"
  have s: "s < length (jData pa)" using jinv_num(1)[OF assms] jinv_length[OF assms] by (simp add: s_def)
  then have "jsValue (jData pa ! s) = None" using t(3) by (simp add: s_def[symmetric])
  then show thesis
    using empty[of s] t(2) ja_probe_view[OF assms, of me E] jinv_hash(1)[OF assms s] s ab False
    by (simp add: s_def[symmetric])
qed

lemma held_link: "jinv pa \<Longrightarrow> heldAt pa i h v n \<Longrightarrow> n \<noteq> NONEXT \<Longrightarrow> n < length (jOverflows pa)"
  by (auto simp: jinv_def links_ok_def heldAt_def)

lemma held_link_once:
  "jinv pa \<Longrightarrow> heldAt pa i h v n \<Longrightarrow> heldAt pa j g w n \<Longrightarrow> n \<noteq> NONEXT \<Longrightarrow> i = j \<and> g = h"
  unfolding jinv_def links_ok_def heldAt_def by (metis option.discI)

lemma held_slot: "heldAt pa i h v n \<Longrightarrow> jData pa ! i = \<lparr>jsHash = h, jsNext = n, jsValue = Some v\<rparr>"
  by (simp add: heldAt_def)

lemma held_less: "heldAt pa i h v n \<Longrightarrow> i < length (jData pa)"
  by (simp add: heldAt_def)

lemma held_not_UNUSED: "jinv pa \<Longrightarrow> heldAt pa i h v n \<Longrightarrow> h \<noteq> UNUSED"
  using jinv_hash(1)[of pa i] by (auto simp: heldAt_def)

section \<open>Reading\<close>

lemma ja_count_spec:
  assumes "jinv pa"
  shows "ja_count pa me = Inr (length (jcontents pa (jhash me)))"
  using assms
proof (cases rule: ja_probe_cases[where me = me])
  case (held i v n)
  then show ?thesis
    using held_link[OF assms held(1)] held_slot[OF held(1)]
    by (simp add: ja_count_def overflow_at_def record_list_def)
next
  case (empty s)
  then show ?thesis by (simp add: ja_count_def)
qed

lemma rl_spec:
  assumes "jinv pa" "heldAt pa s h v n"
  shows "rl_getHash pa s = Inr h" "rl_size pa s = Inr (length (jcontents pa h))"
    "i < length (jcontents pa h) \<Longrightarrow> rl_get pa s i = Inr (jcontents pa h ! i)"
proof -
  note f = held_link[OF assms] held_slot[OF assms(2)] held_less[OF assms(2)]
    held_not_UNUSED[OF assms] jcontents_held[OF assms]
  show "rl_getHash pa s = Inr h" using f by (simp add: rl_getHash_def slot_at_def)
  show "rl_size pa s = Inr (length (jcontents pa h))"
    using f by (simp add: rl_size_def slot_at_def record_list_def)
  show "rl_get pa s i = Inr (jcontents pa h ! i)" if "i < length (jcontents pa h)"
    using f that by (cases i) (auto simp: rl_get_def slot_at_def record_list_def overflow_at_def split: if_splits)
qed

lemma ja_lookup_spec:
  assumes "jinv pa"
  obtains s where "ja_lookup pa me = Inr s" "rl_size pa s = Inr (length (jcontents pa (jhash me)))"
    "\<And>i. i < length (jcontents pa (jhash me)) \<Longrightarrow> rl_get pa s i = Inr (jcontents pa (jhash me) ! i)"
  using assms
proof (cases rule: ja_probe_cases[where me = me])
  case (held i v n)
  then show thesis using that[of i] rl_spec[OF assms held(1)] by (simp add: ja_lookup_def)
next
  case (empty s)
  then show thesis using that[of s] by (simp add: ja_lookup_def rl_size_def slot_at_def)
qed

section \<open>Writing into a slot or an overflow list\<close>

lemma slot_update_view:
  assumes "heldAt pa i h v n"
  shows "array_view (pa\<lparr>jData := (jData pa)[i := \<lparr>jsHash = h, jsNext = m, jsValue = Some w\<rparr>], jOverflows := ovs\<rparr>)
    = pa_store (array_view pa) i (w, m)"
  using assms held_slot[OF assms]
  by (simp add: array_view_def pa_store_def map_update slot_view_def heldAt_def)

lemma slot_update:
  assumes inv: "jinv pa" and h: "heldAt pa i h v n"
    and lk: "links_ok ((jData pa)[i := \<lparr>jsHash = h, jsNext = m, jsValue = Some w\<rparr>]) ovs"
    and rest: "\<And>j g u k. heldAt pa j g u k \<Longrightarrow> j \<noteq> i \<Longrightarrow> k \<noteq> NONEXT \<Longrightarrow> ovs ! k = jOverflows pa ! k"
  defines "pa' \<equiv> pa\<lparr>jData := (jData pa)[i := \<lparr>jsHash = h, jsNext = m, jsValue = Some w\<rparr>], jOverflows := ovs\<rparr>"
  shows "jinv pa'" "jcontents pa' = (jcontents pa)(h := record_list ovs (w, m))" "heldAt pa' i h w m"
proof -
  define E where "E = (undefined :: 'a jenv)"
  note view = slot_update_view[OF h, where m = m and w = w and ovs = ovs, folded pa'_def]
  have ha: "holdsAt (paData (array_view pa)) i h (v, n)" using h by (simp only: holdsAt_view) simp
  note st = pa_store_spec[OF jinv_view[OF inv, of E] ha, where w = "(w, m)", folded view]
  have ov: "jOverflows pa' = ovs" by (simp add: pa'_def)
  show inv': "jinv pa'"
    using jinv_intro[OF st(1)] lk by (simp add: pa'_def)
  show "heldAt pa' i h w m" using held_less[OF h] by (simp add: heldAt_def pa'_def)
  show "jcontents pa' = (jcontents pa)(h := record_list ovs (w, m))"
  proof
    fix g
    show "jcontents pa' g = ((jcontents pa)(h := record_list ovs (w, m))) g"
    proof (cases "g = h")
      case True
      then show ?thesis by (simp add: jcontents_def st(2) ov)
    next
      case False
      then have m: "pa_map (array_view pa') g = pa_map (array_view pa) g" by (simp add: st(2))
      show ?thesis
      proof (cases "pa_map (array_view pa) g")
        case None
        then show ?thesis using False m by (simp add: jcontents_def)
      next
        case (Some p)
        obtain u k where p: "p = (u, k)" by (cases p)
        obtain j where j: "heldAt pa j g u k" using Some p pa_map_held[OF inv] by blast
        then have "j \<noteq> i" using False h by (auto simp: heldAt_def)
        then have "k \<noteq> NONEXT \<Longrightarrow> ovs ! k = jOverflows pa ! k" using rest[OF j] by blast
        then show ?thesis using False m Some p by (simp add: jcontents_def record_list_def ov)
      qed
    qed
  qed
qed

lemma links_update_value:
  assumes "links_ok d ovs" "i < length d" "jsValue (d ! i) \<noteq> None" "length ovs' = length ovs"
  shows "links_ok (d[i := \<lparr>jsHash = h, jsNext = jsNext (d ! i), jsValue = Some w\<rparr>]) ovs'"
  using assms unfolding links_ok_def by (simp add: nth_list_update) metis

lemma overflow_update:
  fixes l :: "'v list"
  assumes inv: "jinv pa" and h: "heldAt pa i h v k" and k: "k \<noteq> NONEXT"
  defines "pa' \<equiv> pa\<lparr>jOverflows := (jOverflows pa)[k := l]\<rparr>"
  shows "jinv pa'" "jcontents pa' = (jcontents pa)(h := v # l)" "heldAt pa' i h v k"
proof -
  let ?x = "\<lparr>jsHash = h, jsNext = k, jsValue = Some v\<rparr>"
  have e: "pa' = pa\<lparr>jData := (jData pa)[i := ?x], jOverflows := (jOverflows pa)[k := l]\<rparr>"
    using list_update_id[of "jData pa" i] unfolding held_slot[OF h] by (simp add: pa'_def)
  have "links_ok ((jData pa)[i := ?x]) ((jOverflows pa)[k := l])"
    using links_update_value[of "jData pa" "jOverflows pa" i "(jOverflows pa)[k := l]" h v] inv h
    by (simp add: jinv_def heldAt_def)
  moreover have "(jOverflows pa)[k := l] ! q = jOverflows pa ! q"
    if "heldAt pa j g u q" "j \<noteq> i" "q \<noteq> NONEXT" for j g u q
    using held_link_once[OF inv h, of j g u] that by (metis nth_list_update_neq)
  ultimately have u: "jinv pa'" "jcontents pa' = (jcontents pa)(h := record_list ((jOverflows pa)[k := l]) (v, k))"
    "heldAt pa' i h v k"
    unfolding e using slot_update[OF inv h] by blast+
  show "jinv pa'" "heldAt pa' i h v k" by (rule u)+
  show "jcontents pa' = (jcontents pa)(h := v # l)"
    using u(2) held_link[OF inv h k] k by (simp add: record_list_def)
qed

lemma value_update:
  assumes inv: "jinv pa" and h: "heldAt pa i h v n"
  shows "jinv (ja_store pa (InSlot i) w)"
    "jcontents (ja_store pa (InSlot i) w) = (jcontents pa)(h := w # tl (jcontents pa h))"
proof -
  let ?x = "\<lparr>jsHash = h, jsNext = n, jsValue = Some w\<rparr>"
  have e: "ja_store pa (InSlot i) w = pa\<lparr>jData := (jData pa)[i := ?x], jOverflows := jOverflows pa\<rparr>"
    using held_slot[OF h] by (simp add: ja_store_def)
  have "links_ok ((jData pa)[i := ?x]) (jOverflows pa)"
    using links_update_value[of "jData pa" "jOverflows pa" i "jOverflows pa" h w] inv h
    by (simp add: jinv_def heldAt_def)
  from slot_update[OF inv h this]
  show "jinv (ja_store pa (InSlot i) w)"
    "jcontents (ja_store pa (InSlot i) w) = (jcontents pa)(h := w # tl (jcontents pa h))"
    unfolding e jcontents_held[OF inv h] by (simp_all add: record_list_def)
qed

lemma link_new:
  assumes inv: "jinv pa" and h: "heldAt pa i h v NONEXT" and lim: "length (jOverflows pa) < NONEXT"
  defines "pa' \<equiv> pa\<lparr>jOverflows := jOverflows pa @ [[]],
      jData := (jData pa)[i := (jData pa ! i)\<lparr>jsNext := length (jOverflows pa)\<rparr>]\<rparr>"
  shows "jinv pa'" "jcontents pa' = jcontents pa" "heldAt pa' i h v (length (jOverflows pa))"
proof -
  let ?x = "\<lparr>jsHash = h, jsNext = length (jOverflows pa), jsValue = Some v\<rparr>"
  have e: "pa' = pa\<lparr>jData := (jData pa)[i := ?x], jOverflows := jOverflows pa @ [[]]\<rparr>"
    using held_slot[OF h] by (simp add: pa'_def)
  have lk: "links_ok (jData pa) (jOverflows pa)" using inv by (simp add: jinv_def)
  have "links_ok ((jData pa)[i := ?x]) (jOverflows pa @ [[]])"
    unfolding links_ok_def
  proof (intro conjI allI impI)
    show "length (jOverflows pa @ [[]]) \<le> NONEXT" using lim by simp
  next
    fix j assume "j < length ((jData pa)[i := ?x])" "jsValue ((jData pa)[i := ?x] ! j) \<noteq> None"
      "jsNext ((jData pa)[i := ?x] ! j) \<noteq> NONEXT"
    then show "jsNext ((jData pa)[i := ?x] ! j) < length (jOverflows pa @ [[]])"
      using lk unfolding links_ok_def by (cases "j = i") (auto simp: less_Suc_eq)
  next
    fix j k assume jk: "j < length ((jData pa)[i := ?x])" "k < length ((jData pa)[i := ?x])"
      "jsValue ((jData pa)[i := ?x] ! j) \<noteq> None" "jsValue ((jData pa)[i := ?x] ! k) \<noteq> None"
      "jsNext ((jData pa)[i := ?x] ! j) = jsNext ((jData pa)[i := ?x] ! k)"
      "jsNext ((jData pa)[i := ?x] ! j) \<noteq> NONEXT"
    have less: "jsNext (jData pa ! q) < length (jOverflows pa)"
      if "q < length (jData pa)" "jsValue (jData pa ! q) \<noteq> None" "jsNext (jData pa ! q) \<noteq> NONEXT" for q
      using lk that by (auto simp: links_ok_def)
    show "j = k"
    proof (cases "j = i \<or> k = i")
      case True
      show ?thesis
      proof (rule ccontr)
        assume "j \<noteq> k"
        then show False using True jk less[of j] less[of k] by auto
      qed
    next
      case False
      then show ?thesis using jk lk by (auto simp: links_ok_def)
    qed
  qed
  moreover have "(jOverflows pa @ [[]]) ! q = jOverflows pa ! q"
    if "heldAt pa j g u q" "j \<noteq> i" "q \<noteq> NONEXT" for j g u q
    using held_link[OF inv that(1,3)] by (simp add: nth_append)
  ultimately have u: "jinv pa'"
    "jcontents pa' = (jcontents pa)(h := record_list (jOverflows pa @ [[]]) (v, length (jOverflows pa)))"
    "heldAt pa' i h v (length (jOverflows pa))"
    unfolding e using slot_update[OF inv h] by blast+
  show "jinv pa'" "heldAt pa' i h v (length (jOverflows pa))" by (rule u)+
  have "record_list (jOverflows pa @ [[]]) (v, length (jOverflows pa)) = jcontents pa h"
    using jcontents_held[OF inv h] lim by (simp add: record_list_def)
  then show "jcontents pa' = jcontents pa" using u(2) by simp
qed

section \<open>Pushing under a new hash\<close>

lemma ja_push_view:
  fixes pa :: "'v jarray"
  assumes inv: "pa_inv (view_env E) (array_view pa)" and k: "pa_map (array_view pa) (jhash me) = None"
    and nf: "\<not> ja_isOverFull pa"
  obtains pa' s where "ja_push E pa me = (pa', Inr (InSlot s))"
    "pa_index (view_env E) (array_view pa) (jhash me) = (array_view pa', Inr s)"
    "pa_inv (view_env E) (array_view pa')"
    "pa_map (array_view pa') = (pa_map (array_view pa))(jhash me \<mapsto> (jFresh E, NONEXT))"
    "heldAt pa' s (jhash me) (jFresh E) NONEXT" "s < length (jData pa)" "jsValue (jData pa ! s) = None"
    "pa' = pa\<lparr>jData := (jData pa)[s := \<lparr>jsHash = jhash me, jsNext = NONEXT, jsValue = Some (jFresh E)\<rparr>],
       jUsed := Suc (jUsed pa)\<rparr>"
proof -
  have nf': "\<not> pa_isOverFull (array_view pa)" using nf by (simp add: ja_isOverFull_def pa_isOverFull_def)
  obtain vw s where vw: "pa_index (view_env E) (array_view pa) (jhash me) = (vw, Inr s)" "pa_inv (view_env E) vw"
    "pa_map vw = (pa_map (array_view pa))(jhash me \<mapsto> freshVal (view_env E))"
    "pair (paData (array_view pa) ! s) = None" "s < length (paData (array_view pa))"
    "vw = (array_view pa)\<lparr>paData := (paData (array_view pa))
        [s := \<lparr>hashv = hasher (khash (view_env E)) (jhash me), pair = Some (jhash me, freshVal (view_env E))\<rparr>],
       paUsed := Suc (paUsed (array_view pa))\<rparr>"
    by (rule pa_index_absent[OF inv k _ nf']) simp
  define pa' where "pa' = pa\<lparr>jData := (jData pa)[s := \<lparr>jsHash = jhash me, jsNext = NONEXT, jsValue = Some (jFresh E)\<rparr>],
       jUsed := Suc (jUsed pa)\<rparr>"
  have s: "s < length (jData pa)" "jsValue (jData pa ! s) = None" using vw(4,5) by auto
  have v: "vw = array_view pa'"
    unfolding vw(6) by (simp add: pa'_def array_view_def map_update slot_view_def)
  have "jUsed pa < fill_limit (jNum pa)" "2 \<le> jNum pa" "jNum pa \<le> 2 ^ 31"
    using inv nf by (simp_all add: pa_inv_def ja_isOverFull_def)
  then have u: "u32 (Suc (jUsed pa)) = Suc (jUsed pa)" using fill_limit_bounds(2)[of "jNum pa"] by simp
  have "pa_map (array_view pa') (jhash me) \<noteq> pa_map (array_view pa) (jhash me)"
    using vw(3) k unfolding v by simp
  then have ne: "array_view pa' \<noteq> array_view pa" by metis
  have "pa_probe (view_env E) (array_view pa) (jhash me) = Inr (EmptySlot s)"
  proof (cases "pa_probe (view_env E) (array_view pa) (jhash me)")
    case (Inl e)
    then show ?thesis using vw(1) by (simp add: pa_index_def)
  next
    case (Inr r)
    then show ?thesis using vw(1) ne unfolding v by (cases r) (simp_all add: pa_index_def)
  qed
  then have "ja_probe pa me = Inr (EmptySlot s)" using ja_probe_view_inv[OF inv, of me] by simp
  then have "ja_push E pa me = (pa', Inr (InSlot s))" using u by (simp add: ja_push_def pa'_def)
  moreover have "heldAt pa' s (jhash me) (jFresh E) NONEXT" using s by (simp add: pa'_def heldAt_def)
  ultimately show thesis
    by (rule that[OF _ vw(1)[unfolded v] vw(2)[unfolded v] vw(3)[unfolded v view_env_simps] _ s pa'_def])
qed

lemma links_replace:
  assumes lk: "links_ok d ovs" and x: "jsValue x = None \<or> jsNext x = NONEXT"
  shows "links_ok (d[s := x]) ovs"
proof -
  have old: "d[s := x] ! i = d ! i"
    if "i < length d" "jsValue (d[s := x] ! i) \<noteq> None" "jsNext (d[s := x] ! i) \<noteq> NONEXT" for i
    using that x by (cases "i = s") auto
  show ?thesis
    unfolding links_ok_def
  proof (intro conjI allI impI)
    show "length ovs \<le> NONEXT" using lk by (simp add: links_ok_def)
  next
    fix i assume "i < length (d[s := x])" "jsValue (d[s := x] ! i) \<noteq> None" "jsNext (d[s := x] ! i) \<noteq> NONEXT"
    then show "jsNext (d[s := x] ! i) < length ovs"
      using lk old[of i] unfolding links_ok_def by simp
  next
    fix i j assume "i < length (d[s := x])" "j < length (d[s := x])"
      "jsValue (d[s := x] ! i) \<noteq> None" "jsValue (d[s := x] ! j) \<noteq> None"
      "jsNext (d[s := x] ! i) = jsNext (d[s := x] ! j)" "jsNext (d[s := x] ! i) \<noteq> NONEXT"
    then show "i = j" using lk old[of i] old[of j] unfolding links_ok_def by simp
  qed
qed

text \<open>What a push that succeeded has done: the new value is the last one under its hash, it can be
  assigned through the reference, and \<open>setUnused\<close> takes it back again.\<close>

definition pushed :: "'v jarray \<Rightarrow> nat \<Rightarrow> 'v \<Rightarrow> 'v jarray \<Rightarrow> jref \<Rightarrow> bool" where
  "pushed pa me x pa' r \<longleftrightarrow>
     jinv pa' \<and> jNum pa' = jNum pa
     \<and> jcontents pa' = (jcontents pa)(jhash me := jcontents pa (jhash me) @ [x])
     \<and> (\<forall>w. jinv (ja_store pa' r w) \<and> jNum (ja_store pa' r w) = jNum pa
          \<and> jcontents (ja_store pa' r w) = (jcontents pa)(jhash me := jcontents pa (jhash me) @ [w])
          \<and> (\<exists>u. ja_setUnused (ja_store pa' r w) me = Inr u \<and> jinv u \<and> jNum u = jNum pa
               \<and> jcontents u = jcontents pa))"

lemma push_new:
  assumes inv: "jinv pa" and k: "jcontents pa (jhash me) = []" and nf: "\<not> ja_isOverFull pa"
  obtains pa' r where "ja_push E pa me = (pa', Inr r)" "pushed pa me (jFresh E) pa' r"
proof -
  note vinv = jinv_view[OF inv, of E]
  have k': "pa_map (array_view pa) (jhash me) = None" using k by (simp add: jcontents_eq_Nil)
  obtain pa' s where p: "ja_push E pa me = (pa', Inr (InSlot s))"
    "pa_index (view_env E) (array_view pa) (jhash me) = (array_view pa', Inr s)"
    "pa_inv (view_env E) (array_view pa')"
    "pa_map (array_view pa') = (pa_map (array_view pa))(jhash me \<mapsto> (jFresh E, NONEXT))"
    "heldAt pa' s (jhash me) (jFresh E) NONEXT" "s < length (jData pa)" "jsValue (jData pa ! s) = None"
    "pa' = pa\<lparr>jData := (jData pa)[s := \<lparr>jsHash = jhash me, jsNext = NONEXT, jsValue = Some (jFresh E)\<rparr>],
       jUsed := Suc (jUsed pa)\<rparr>"
    by (rule ja_push_view[OF vinv k' nf])
  have lk: "links_ok (jData pa) (jOverflows pa)" using inv by (simp add: jinv_def)
  have inv': "jinv pa'" using jinv_intro[OF p(3)] links_replace[OF lk] p(8) by simp
  have c': "jcontents pa' = (jcontents pa)(jhash me := [jFresh E])"
  proof -
    have ov: "jOverflows pa' = jOverflows pa" by (simp add: p(8))
    show ?thesis unfolding jcontents_def p(4) ov by (auto simp: fun_eq_iff record_list_def)
  qed
  let ?u = "pa\<lparr>jData := (jData pa)[s := jslot_unused], jUsed := Suc (jUsed pa)\<rparr>"
  have nf': "\<not> pa_isOverFull (array_view pa)" using nf by (simp add: ja_isOverFull_def pa_isOverFull_def)
  have s0: "slot_view (jData pa ! s) = unused_slot"
    using p(6,7) jinv_hash(1)[OF inv p(6)] by (simp add: slot_view_def unused_slot_def)
  have uv: "array_view ?u = (array_view pa)\<lparr>paUsed := Suc (paUsed (array_view pa))\<rparr>"
    using s0 p(6) by (simp add: array_view_def map_update) (metis list_update_id nth_map)
  note un = setUnused_after_insert(3,4)[OF vinv k' nf' p(2), unfolded uv[symmetric]]
  have ui: "jinv ?u"
    using jinv_intro[OF un(1)] links_replace[OF lk, of jslot_unused] by (simp add: jslot_unused_def)
  have uc: "jcontents ?u = jcontents pa" by (rule jcontents_cong[OF un(2)]) simp_all
  have st: "jinv (ja_store pa' (InSlot s) w) \<and> jNum (ja_store pa' (InSlot s) w) = jNum pa
      \<and> jcontents (ja_store pa' (InSlot s) w) = (jcontents pa)(jhash me := jcontents pa (jhash me) @ [w])
      \<and> ja_setUnused (ja_store pa' (InSlot s) w) me = Inr ?u" for w
  proof (intro conjI)
    note vu = value_update[OF inv' p(5), of w]
    show "jinv (ja_store pa' (InSlot s) w)" by (rule vu)
    show "jNum (ja_store pa' (InSlot s) w) = jNum pa" by (simp add: ja_store_def p(8))
    show "jcontents (ja_store pa' (InSlot s) w) = (jcontents pa)(jhash me := jcontents pa (jhash me) @ [w])"
      using vu(2) by (simp add: c' k)
    have "heldAt (ja_store pa' (InSlot s) w) s (jhash me) w NONEXT"
      using p(5) by (simp add: heldAt_def ja_store_def)
    then have "ja_probe (ja_store pa' (InSlot s) w) me = Inr (FoundSlot s)" by (rule ja_probe_held[OF vu(1)])
    then show "ja_setUnused (ja_store pa' (InSlot s) w) me = Inr ?u"
      using p(6) by (simp add: ja_setUnused_def ja_store_def p(8))
  qed
  have "pushed pa me (jFresh E) pa' (InSlot s)"
    unfolding pushed_def using inv' c' k st ui uc p(8) by auto
  then show thesis using that p(1) by blast
qed

section \<open>Pushing under a hash that is present\<close>

lemma setUnused_overflow:
  assumes inv: "jinv pa" and h: "heldAt pa i (jhash me) v k" and k: "k \<noteq> NONEXT" and ne: "jOverflows pa ! k \<noteq> []"
  shows "ja_setUnused pa me = Inr (pa\<lparr>jOverflows := (jOverflows pa)[k := butlast (jOverflows pa ! k)]\<rparr>)"
  using ja_probe_held[OF inv h] held_link[OF inv h k] held_slot[OF h] k ne
  by (simp add: ja_setUnused_def overflow_at_def)

lemma push_more_spec:
  assumes inv: "jinv pa" and h: "heldAt pa i (jhash me) v k" and k: "k \<noteq> NONEXT"
  shows "push_more E pa k = (pa, Inl NotEnoughSpace)
    \<or> (\<exists>pa' r. push_more E pa k = (pa', Inr r) \<and> pushed pa me (jFresh E) pa' r)"
proof (cases "jRoomMore E pa k")
  case False
  then show ?thesis using held_link[OF inv h k] by (simp add: push_more_def overflow_at_def)
next
  case True
  let ?l = "jOverflows pa ! k"
  define app where "app w = pa\<lparr>jOverflows := (jOverflows pa)[k := ?l @ [w]]\<rparr>" for w
  have kl: "k < length (jOverflows pa)" using held_link[OF inv h k] .
  have p: "push_more E pa k = (app (jFresh E), Inr (InOverflow k (length ?l)))"
    using True kl by (simp add: push_more_def overflow_at_def app_def)
  have c: "jcontents pa (jhash me) = v # ?l"
    using jcontents_held[OF inv h] k by (simp add: record_list_def)
  have a: "jinv (app w)" "jNum (app w) = jNum pa"
    "jcontents (app w) = (jcontents pa)(jhash me := jcontents pa (jhash me) @ [w])" for w
    using overflow_update[OF inv h k, of "?l @ [w]"] c by (simp_all add: app_def)
  have st: "ja_store (app x) (InOverflow k (length ?l)) w = app w" for x w
    using kl by (simp add: ja_store_def app_def)
  have "ja_setUnused (app w) me = Inr pa" for w
  proof -
    have hw: "heldAt (app w) i (jhash me) v k" using h by (simp add: app_def heldAt_def)
    have "jOverflows (app w) ! k = ?l @ [w]" using kl by (simp add: app_def)
    then show ?thesis using setUnused_overflow[OF a(1) hw k] by (simp add: app_def)
  qed
  then have "pushed pa me (jFresh E) (app (jFresh E)) (InOverflow k (length ?l))"
    unfolding pushed_def st using a inv by auto
  then show ?thesis using p by blast
qed

definition jenv_ok :: "'v jenv \<Rightarrow> bool" where
  "jenv_ok E \<longleftrightarrow> (\<forall>n. jRoomArr E n \<longrightarrow> n \<le> 2 ^ 30)
     \<and> (\<forall>pa s. jRoomFirst E pa s \<longrightarrow> length (jOverflows pa) < NONEXT)"

lemma pushed_cong:
  "pushed pa me x pa' r \<Longrightarrow> jNum qa = jNum pa \<Longrightarrow> jcontents qa = jcontents pa \<Longrightarrow> pushed qa me x pa' r"
  by (simp add: pushed_def)

definition push_result :: "'v jenv \<Rightarrow> 'v jarray \<Rightarrow> nat \<Rightarrow> 'v jarray \<times> jref outcome \<Rightarrow> bool" where
  "push_result E pa me res \<longleftrightarrow>
     (case res of
        (pa', Inr r) \<Rightarrow> pushed pa me (jFresh E) pa' r
      | (pa', Inl e) \<Rightarrow> e = NotEnoughSpace \<and> jinv pa' \<and> jNum pa' = jNum pa \<and> jcontents pa' = jcontents pa
          \<and> jcontents pa (jhash me) \<noteq> [])"

lemma push_resultI:
  "pushed pa me (jFresh E) pa' r \<Longrightarrow> push_result E pa me (pa', Inr r)"
  "jinv pa' \<Longrightarrow> jNum pa' = jNum pa \<Longrightarrow> jcontents pa' = jcontents pa \<Longrightarrow> jcontents pa (jhash me) \<noteq> []
    \<Longrightarrow> push_result E pa me (pa', Inl NotEnoughSpace)"
  by (simp_all add: push_result_def)

lemma ja_push_spec:
  assumes inv: "jinv pa" and ok: "jenv_ok E" and nf: "\<not> ja_isOverFull pa"
  shows "push_result E pa me (ja_push E pa me)"
  using inv
proof (cases rule: ja_probe_cases[where me = me])
  case (empty s)
  then obtain pa' r where "ja_push E pa me = (pa', Inr r)" "pushed pa me (jFresh E) pa' r"
    using push_new[OF inv _ nf] by blast
  then show ?thesis using push_resultI(1) by simp
next
  case (held i v k)
  have ne: "jcontents pa (jhash me) \<noteq> []" using held(3) by (simp add: record_list_def)
  show ?thesis
  proof (cases "k = NONEXT")
    case False
    then have "ja_push E pa me = push_more E pa k"
      using held(2) held_slot[OF held(1)] by (simp add: ja_push_def)
    then show ?thesis using push_more_spec[OF inv held(1) False] push_resultI inv ne by metis
  next
    case True
    note h = held(1)[unfolded True]
    show ?thesis
    proof (cases "jRoomFirst E pa i")
      case False
      then have "ja_push E pa me = (pa, Inl NotEnoughSpace)"
        using held(2) held_slot[OF h] by (simp add: ja_push_def)
      then show ?thesis using push_resultI inv ne by metis
    next
      case room: True
      then have lim: "length (jOverflows pa) < NONEXT" using ok unfolding jenv_ok_def by blast
      let ?k = "length (jOverflows pa)"
      let ?pa = "pa\<lparr>jOverflows := jOverflows pa @ [[]],
          jData := (jData pa)[i := (jData pa ! i)\<lparr>jsNext := ?k\<rparr>]\<rparr>"
      note ln = link_new[OF inv h lim]
      have "u32 (?k + 1 + 4294967295) = ?k" using lim by (simp add: u32_def NONEXT_def)
      then have e: "ja_push E pa me = push_more E ?pa ?k"
        using held(2) held_slot[OF h] room by (simp add: ja_push_def Let_def)
      have "?k \<noteq> NONEXT" using lim by simp
      from push_more_spec[OF ln(1,3) this, of E] show ?thesis
      proof (elim disjE exE conjE)
        assume "push_more E ?pa ?k = (?pa, Inl NotEnoughSpace)"
        then show ?thesis unfolding e using ln ne by (simp add: push_resultI)
      next
        fix pa' r assume p: "push_more E ?pa ?k = (pa', Inr r)" "pushed ?pa me (jFresh E) pa' r"
        have "pushed pa me (jFresh E) pa' r" by (rule pushed_cong[OF p(2)]) (simp_all add: ln(2))
        then show ?thesis unfolding e p(1) by (rule push_resultI)
      qed
    qed
  qed
qed

section \<open>Doubling\<close>

lemma ja_new_ok:
  assumes "2 \<le> n" "n \<le> 2 ^ 31"
  obtains pa where "ja_new n = Inr pa" "pa_inv (view_env E) (array_view pa)" "pa_map (array_view pa) = Map.empty"
    "jUsed pa = 0" "jNum pa = n" "jMax pa = fill_limit n" "jOverflows pa = []"
    "jData pa = replicate n jslot_unused"
proof -
  define pa :: "'a jarray" where "pa = \<lparr>jUsed = 0, jNum = n, jMax = fill_limit n,
    jData = replicate n jslot_unused, jOverflows = []\<rparr>"
  have new: "ja_new n = Inr pa" using assms by (simp add: ja_new_def got_power_32 pa_def del: One_nat_def)
  obtain vw :: "(nat, 'a \<times> nat) parray" where vw: "pa_new n = Inr vw" "pa_inv (view_env E) vw" "pa_map vw = Map.empty"
    by (rule pa_new_ok[OF assms, where E = "view_env E"])
  have "vw = array_view pa"
    using vw(1) by (simp add: pa_new_def pa_def array_view_def split: if_splits)
  then show thesis using that[of pa] new vw(2,3) by (simp add: pa_def)
qed

lemma j_rehash_spec:
  fixes old new :: "'v jarray"
  assumes "slots_ok (view_env E) (paData (array_view old))" "i + n = length (jData old)"
    and "distinct (map fst (List.map_filter pair (drop i (paData (array_view old)))))"
    and "fst ` set (List.map_filter pair (drop i (paData (array_view old)))) \<inter> dom (pa_map (array_view new)) = {}"
    and "pa_inv (view_env E) (array_view new)"
    and "jUsed new + length (List.map_filter pair (drop i (paData (array_view old)))) \<le> jMax new"
  shows "j_rehash E i n old new = Inl NotEnoughSpace
    \<or> (\<exists>new'. j_rehash E i n old new = Inr new' \<and> pa_inv (view_env E) (array_view new')
         \<and> jNum new' = jNum new
         \<and> pa_map (array_view new') =
             pa_map (array_view new) ++ map_of (List.map_filter pair (drop i (paData (array_view old))))
         \<and> jUsed new' = jUsed new + length (List.map_filter pair (drop i (paData (array_view old)))))"
  using assms(2-6)
proof (induction n arbitrary: i new)
  case 0
  then show ?case by (simp add: map_filter_simps)
next
  case (Suc n)
  let ?d = "paData (array_view old)"
  have i: "i < length (jData old)" "i < length ?d" "Suc i + n = length (jData old)" using Suc.prems(1) by auto
  have mf: "List.map_filter pair (drop i ?d) =
     (case pair (?d ! i) of None \<Rightarrow> [] | Some p \<Rightarrow> [p]) @ List.map_filter pair (drop (Suc i) ?d)"
    by (rule drop_at_map_filter[OF i(2)])
  have used: "jsHash (jData old ! i) = UNUSED \<longleftrightarrow> jsValue (jData old ! i) = None"
    using slots_ok_used[OF assms(1) i(2)] i(1) by simp
  show ?case
  proof (cases "jsValue (jData old ! i)")
    case None
    then have m: "List.map_filter pair (drop i ?d) = List.map_filter pair (drop (Suc i) ?d)"
      using mf i(1) by simp
    have "j_rehash E i (Suc n) old new = j_rehash E (Suc i) n old new" using None used by simp
    then show ?thesis using Suc.IH[OF i(3), of new] Suc.prems(2-5) unfolding m by simp
  next
    case (Some v)
    define h where "h = jsHash (jData old ! i)"
    define nx where "nx = jsNext (jData old ! i)"
    have hu: "h \<noteq> UNUSED" using Some used by (simp add: h_def)
    then have jh: "jhash h = h" by simp
    have m: "List.map_filter pair (drop i ?d) = (h, v, nx) # List.map_filter pair (drop (Suc i) ?d)"
      using mf i(1) Some by (simp add: h_def nx_def)
    have none: "pa_map (array_view new) (jhash h) = None" using Suc.prems(3) unfolding m jh by auto
    have nf: "\<not> ja_isOverFull new" using Suc.prems(5) unfolding m ja_isOverFull_def by simp
    obtain new1 s where n1: "ja_push E new h = (new1, Inr (InSlot s))"
      "pa_inv (view_env E) (array_view new1)"
      "pa_map (array_view new1) = (pa_map (array_view new))(jhash h \<mapsto> (jFresh E, NONEXT))"
      "heldAt new1 s (jhash h) (jFresh E) NONEXT"
      "new1 = new\<lparr>jData := (jData new)[s := \<lparr>jsHash = jhash h, jsNext = NONEXT, jsValue = Some (jFresh E)\<rparr>],
         jUsed := Suc (jUsed new)\<rparr>"
      by (rule ja_push_view[OF Suc.prems(4) none nf])
    show ?thesis
    proof (cases "jRoomMove E new1 v")
      case False
      then have "j_rehash E i (Suc n) old new = Inl NotEnoughSpace"
        using n1(1) Some hu by (simp add: h_def[symmetric])
      then show ?thesis by simp
    next
      case True
      define new2 where "new2 = new1\<lparr>jData := (jData new1)[s := \<lparr>jsHash = h, jsNext = nx, jsValue = Some v\<rparr>],
         jOverflows := jOverflows new1\<rparr>"
      have nums: "jNum new1 = jNum new" "jUsed new1 = Suc (jUsed new)" "jMax new1 = jMax new"
        by (simp_all add: n1(5))
      have e2: "j_rehash E i (Suc n) old new = j_rehash E (Suc i) n old new2"
        using n1(1) Some hu True held_slot[OF n1(4)] held_less[OF n1(4)] jh
        by (simp add: h_def[symmetric] nx_def[symmetric] ja_store_def new2_def)
      have v2: "array_view new2 = pa_store (array_view new1) s (v, nx)"
        unfolding new2_def using slot_update_view[OF n1(4), unfolded jh] .
      have ha: "holdsAt (paData (array_view new1)) s h (jFresh E, NONEXT)"
        using n1(4) jh by (simp only: holdsAt_view) simp
      note st = pa_store_spec[OF n1(2) ha, where w = "(v, nx)", folded v2]
      have mp: "pa_map (array_view new2) = (pa_map (array_view new))(h \<mapsto> (v, nx))"
        unfolding st(2) n1(3) jh by simp
      have kr: "h \<notin> fst ` set (List.map_filter pair (drop (Suc i) ?d))" using Suc.prems(2) unfolding m by simp
      have mr: "map_of (List.map_filter pair (drop (Suc i) ?d)) h = None"
        using kr by (simp add: map_of_eq_None_iff)
      have prems: "distinct (map fst (List.map_filter pair (drop (Suc i) ?d)))"
        "fst ` set (List.map_filter pair (drop (Suc i) ?d)) \<inter> dom (pa_map (array_view new2)) = {}"
        "jUsed new2 + length (List.map_filter pair (drop (Suc i) ?d)) \<le> jMax new2"
        using Suc.prems(2,3,5) kr nums unfolding m mp by (auto simp: new2_def)
      have add: "pa_map (array_view new2) ++ map_of (List.map_filter pair (drop (Suc i) ?d)) =
          pa_map (array_view new) ++ map_of (List.map_filter pair (drop i ?d))"
        unfolding m mp using mr by (auto simp: map_add_def fun_eq_iff split: option.splits)
      have len: "jUsed new2 + length (List.map_filter pair (drop (Suc i) ?d)) =
          jUsed new + length (List.map_filter pair (drop i ?d))"
        unfolding m using nums by (simp add: new2_def)
      have "jNum new2 = jNum new" using nums by (simp add: new2_def)
      with Suc.IH[OF i(3) prems(1,2) st(1) prems(3)] show ?thesis
        unfolding e2 add len by (simp only:)
    qed
  qed
qed

lemma links_of_held:
  assumes "length ovs \<le> NONEXT"
    and "\<And>i h v n. heldAt pa i h v n \<Longrightarrow> n \<noteq> NONEXT \<Longrightarrow> n < length ovs"
    and "\<And>i h v n j g w. heldAt pa i h v n \<Longrightarrow> heldAt pa j g w n \<Longrightarrow> n \<noteq> NONEXT \<Longrightarrow> i = j"
  shows "links_ok (jData pa) ovs"
  unfolding links_ok_def
proof (intro conjI allI impI)
  show "length ovs \<le> NONEXT" by (rule assms(1))
next
  fix i assume "i < length (jData pa)" "jsValue (jData pa ! i) \<noteq> None" "jsNext (jData pa ! i) \<noteq> NONEXT"
  then show "jsNext (jData pa ! i) < length ovs"
    using assms(2)[of i "jsHash (jData pa ! i)" _ "jsNext (jData pa ! i)"] by (auto simp: heldAt_def)
next
  fix i j assume "i < length (jData pa)" "j < length (jData pa)" "jsValue (jData pa ! i) \<noteq> None"
    "jsValue (jData pa ! j) \<noteq> None" "jsNext (jData pa ! i) = jsNext (jData pa ! j)"
    "jsNext (jData pa ! i) \<noteq> NONEXT"
  then show "i = j"
    using assms(3)[of i "jsHash (jData pa ! i)" _ "jsNext (jData pa ! i)" j "jsHash (jData pa ! j)"]
    by (auto simp: heldAt_def)
qed

lemma double_spec:
  assumes inv: "jinv pa" and sz: "jNum pa \<le> 2 ^ 30"
  shows "ja_doubleArray E pa = Inl NotEnoughSpace
    \<or> (\<exists>new. ja_doubleArray E pa = Inr new \<and> jinv new \<and> jcontents new = jcontents pa
         \<and> \<not> ja_isOverFull new \<and> jNum new = 2 * jNum pa \<and> jRoomArr E (2 * jNum pa))"
proof (cases "jRoomArr E (2 * jNum pa)")
  case False
  then show ?thesis using sz by (simp add: ja_doubleArray_def mult.commute)
next
  case True
  note vinv = jinv_view[OF inv, of E]
  note N = jinv_num(1)[OF inv]
  have ok: "slots_ok (view_env E) (paData (array_view pa))" and once: "keys_once (paData (array_view pa))"
    and c: "card (used_set (paData (array_view pa))) \<le> fill_limit (jNum pa)"
    using vinv by (auto simp: pa_inv_def)
  have "2 \<le> 2 * jNum pa" "2 * jNum pa \<le> 2 ^ 31" using N sz by auto
  then obtain n0 :: "'a jarray" where n0: "ja_new (2 * jNum pa) = Inr n0" "pa_inv (view_env E) (array_view n0)"
    "pa_map (array_view n0) = Map.empty" "jUsed n0 = 0" "jNum n0 = 2 * jNum pa"
    "jMax n0 = fill_limit (2 * jNum pa)"
    by (rule ja_new_ok)
  have le: "length (List.map_filter pair (drop 0 (paData (array_view pa)))) \<le> fill_limit (jNum pa)"
    using c length_entries[OF once] by simp
  have "2 * jNum pa = jNum pa * 2" by simp
  then have D: "ja_doubleArray E pa = andThen (j_rehash E 0 (jNum pa) pa n0)
      (\<lambda>new'. if jRoomShare E pa then Inr (new'\<lparr>jOverflows := jOverflows pa\<rparr>) else Inl NotEnoughSpace)"
    using True n0(1) sz by (simp add: ja_doubleArray_def Let_def mult.commute)
  have le2: "fill_limit (jNum pa) < fill_limit (2 * jNum pa)" using fill_limit_bounds(3)[OF N] .
  have "j_rehash E 0 (jNum pa) pa n0 = Inl NotEnoughSpace
    \<or> (\<exists>new'. j_rehash E 0 (jNum pa) pa n0 = Inr new' \<and> pa_inv (view_env E) (array_view new')
         \<and> jNum new' = jNum n0
         \<and> pa_map (array_view new') =
             pa_map (array_view n0) ++ map_of (List.map_filter pair (drop 0 (paData (array_view pa))))
         \<and> jUsed new' = jUsed n0 + length (List.map_filter pair (drop 0 (paData (array_view pa)))))"
  proof (rule j_rehash_spec[OF ok _ _ _ n0(2)])
    show "0 + jNum pa = length (jData pa)" using jinv_length[OF inv] by simp
    show "distinct (map fst (List.map_filter pair (drop 0 (paData (array_view pa)))))"
      using distinct_entries[OF once] by simp
    show "fst ` set (List.map_filter pair (drop 0 (paData (array_view pa)))) \<inter> dom (pa_map (array_view n0)) = {}"
      by (simp add: n0(3))
    show "jUsed n0 + length (List.map_filter pair (drop 0 (paData (array_view pa)))) \<le> jMax n0"
      using le le2 n0(4,6) by simp
  qed
  then show ?thesis
  proof (elim disjE exE conjE)
    assume "j_rehash E 0 (jNum pa) pa n0 = Inl NotEnoughSpace"
    then show ?thesis by (simp add: D)
  next
    fix new assume n: "j_rehash E 0 (jNum pa) pa n0 = Inr new" "pa_inv (view_env E) (array_view new)"
      "jNum new = jNum n0"
      "pa_map (array_view new) = pa_map (array_view n0) ++ map_of (List.map_filter pair (drop 0 (paData (array_view pa))))"
      "jUsed new = jUsed n0 + length (List.map_filter pair (drop 0 (paData (array_view pa))))"
    show ?thesis
    proof (cases "jRoomShare E pa")
      case False
      then show ?thesis by (simp add: D n(1))
    next
      case share: True
      define q where "q = new\<lparr>jOverflows := jOverflows pa\<rparr>"
      have d: "ja_doubleArray E pa = Inr q" using share by (simp add: D n(1) q_def)
      have vq: "array_view q = array_view new" by (simp add: array_view_def q_def)
      have mq: "pa_map (array_view q) = pa_map (array_view pa)"
        unfolding vq n(4) n0(3) by (simp add: pa_map_def pa_entries_def)
      have onceq: "keys_once (paData (array_view q))" using n(2) vq by (simp add: pa_inv_def)
      have mh: "heldAt q i h v m \<Longrightarrow> \<exists>j. heldAt pa j h v m" for i h v m
        using pa_map_iff[OF onceq, of h "(v, m)"] pa_map_held[OF inv, of h v m] mq
        by (simp only: holdsAt_view fst_conv snd_conv) blast
      have "links_ok (jData q) (jOverflows pa)"
      proof (rule links_of_held)
        show "length (jOverflows pa) \<le> NONEXT" using inv by (simp add: jinv_def links_ok_def)
        show "m < length (jOverflows pa)" if "heldAt q i h v m" "m \<noteq> NONEXT" for i h v m
          using mh[OF that(1)] held_link[OF inv] that(2) by blast
        show "i = j" if h: "heldAt q i h v m" "heldAt q j g w m" "m \<noteq> NONEXT" for i h v m j g w
        proof -
          have "g = h" using mh[OF h(1)] mh[OF h(2)] held_link_once[OF inv _ _ h(3)] by blast
          then show ?thesis
            using onceq h(1,2) holdsAt_view[of q i h "(v, m)"] holdsAt_view[of q j h "(w, m)"]
            unfolding keys_once_def fst_conv snd_conv by blast
        qed
      qed
      moreover have "jOverflows q = jOverflows pa" by (simp add: q_def)
      ultimately have iq: "jinv q" using jinv_intro[of E q] n(2) vq by simp
      have cq: "jcontents q = jcontents pa" by (rule jcontents_cong[OF mq]) (simp add: q_def)
      have mx: "jMax new = fill_limit (2 * jNum pa)" using n(2,3) n0(5) by (simp add: pa_inv_def)
      have "\<not> ja_isOverFull q"
        using mx n(5) n0(4) le le2 by (simp add: ja_isOverFull_def q_def)
      then show ?thesis using d iq cq True n(3) n0(5) by (simp add: q_def)
    qed
  qed
qed

section \<open>The map\<close>

definition jm_inv :: "'v jmap \<Rightarrow> bool" where
  "jm_inv m \<longleftrightarrow> jinv (jmArray m) \<and> jNum (jmArray m) \<le> 2 ^ 30"

definition jm_contents :: "'v jmap \<Rightarrow> nat \<Rightarrow> 'v list" where
  "jm_contents m = jcontents (jmArray m)"

text \<open>A push that succeeded, seen at the map: \<open>setUnused\<close> undoes it, whatever has been assigned
  through the reference.\<close>

definition jm_pushed :: "'v jmap \<Rightarrow> nat \<Rightarrow> 'v \<Rightarrow> 'v jmap \<Rightarrow> jref \<Rightarrow> bool" where
  "jm_pushed m me x m' r \<longleftrightarrow>
     jm_inv m' \<and> jm_contents m' = (jm_contents m)(jhash me := jm_contents m (jhash me) @ [x])
     \<and> (\<forall>w. jm_inv (jm_store m' r w)
          \<and> jm_contents (jm_store m' r w) = (jm_contents m)(jhash me := jm_contents m (jhash me) @ [w])
          \<and> (\<exists>u. jm_setUnused (jm_store m' r w) me = Inr u \<and> jm_inv u \<and> jm_contents u = jm_contents m))"

lemma pushed_at_map:
  assumes p: "pushed a me x a' r" and sz: "jNum a \<le> 2 ^ 30" and c: "jcontents a = jm_contents m"
  shows "jm_pushed m me x (m\<lparr>jmArray := a'\<rparr>) r"
proof -
  have un: "\<exists>u. jm_setUnused (jm_store (m\<lparr>jmArray := a'\<rparr>) r w) me = Inr u \<and> jm_inv u
      \<and> jm_contents u = jm_contents m" for w
  proof -
    obtain u where "ja_setUnused (ja_store a' r w) me = Inr u" "jinv u" "jNum u = jNum a" "jcontents u = jcontents a"
      using p unfolding pushed_def by blast
    then show ?thesis
      using sz c by (simp add: jm_setUnused_def jm_store_def jm_inv_def jm_contents_def)
  qed
  show ?thesis
    using p sz un unfolding jm_pushed_def pushed_def c[symmetric]
    by (simp add: jm_inv_def jm_contents_def jm_store_def)
qed

lemma jm_push_spec:
  assumes inv: "jm_inv m" and ok: "jenv_ok E"
  shows "(\<exists>m' r. jm_push E m me = (m', Inr r) \<and> jm_pushed m me (jFresh E) m' r)
    \<or> (\<exists>m'. jm_push E m me = (m', Inl NotEnoughSpace) \<and> jm_inv m' \<and> jm_contents m' = jm_contents m)"
proof -
  have at: "(\<exists>m' r. (m\<lparr>jmArray := fst (ja_push E a me)\<rparr>, snd (ja_push E a me)) = (m', Inr r)
          \<and> jm_pushed m me (jFresh E) m' r)
      \<or> (\<exists>m'. (m\<lparr>jmArray := fst (ja_push E a me)\<rparr>, snd (ja_push E a me)) = (m', Inl NotEnoughSpace)
          \<and> jm_inv m' \<and> jm_contents m' = jm_contents m)"
    if a: "jinv a" "\<not> ja_isOverFull a" "jNum a \<le> 2 ^ 30" "jcontents a = jm_contents m" for a
  proof -
    obtain a' res where p: "ja_push E a me = (a', res)" by (cases "ja_push E a me")
    have r: "push_result E a me (a', res)" using ja_push_spec[OF a(1) ok a(2), of me] p by simp
    show ?thesis
    proof (cases res)
      case (Inr r')
      then have "pushed a me (jFresh E) a' r'" using r by (simp add: push_result_def)
      then show ?thesis using pushed_at_map[OF _ a(3,4)] p Inr by auto
    next
      case (Inl e)
      then show ?thesis using r p a(3,4) by (auto simp: push_result_def jm_inv_def jm_contents_def)
    qed
  qed
  have i: "jinv (jmArray m)" "jNum (jmArray m) \<le> 2 ^ 30" using inv by (auto simp: jm_inv_def)
  show ?thesis
  proof (cases "ja_isOverFull (jmArray m)")
    case False
    then have "jm_push E m me = (m\<lparr>jmArray := fst (ja_push E (jmArray m) me)\<rparr>, snd (ja_push E (jmArray m) me))"
      by (simp add: jm_push_def split: prod.split)
    then show ?thesis using at[OF i(1) False i(2)] by (simp add: jm_contents_def)
  next
    case True
    from double_spec[OF i, of E] show ?thesis
    proof (elim disjE exE conjE)
      assume "ja_doubleArray E (jmArray m) = Inl NotEnoughSpace"
      then show ?thesis using True inv by (simp add: jm_push_def)
    next
      fix new assume d: "ja_doubleArray E (jmArray m) = Inr new" "jinv new"
        "jcontents new = jcontents (jmArray m)" "\<not> ja_isOverFull new" "jNum new = 2 * jNum (jmArray m)"
        "jRoomArr E (2 * jNum (jmArray m))"
      have "jNum new \<le> 2 ^ 30" using d(5,6) ok unfolding jenv_ok_def by metis
      moreover have "jm_push E m me = (m\<lparr>jmArray := fst (ja_push E new me)\<rparr>, snd (ja_push E new me))"
        using True d(1) by (simp add: jm_push_def split: prod.split)
      ultimately show ?thesis using at[OF d(2,4)] d(3) by (simp add: jm_contents_def)
    qed
  qed
qed

lemma jm_count_spec: "jm_inv m \<Longrightarrow> jm_count m me = Inr (length (jm_contents m (jhash me)))"
  by (simp add: jm_count_def jm_inv_def jm_contents_def ja_count_spec)

lemma jm_new_partition_spec:
  assumes "jenv_ok E" "n \<le> 2 ^ 30"
  shows "jm_new_partition E n pid np = Inl NotEnoughSpace
    \<or> (\<exists>m. jm_new_partition E n pid np = Inr m \<and> jm_inv m \<and> jm_contents m = (\<lambda>_. []) \<and> jmPartition m = pid
         \<and> jmNumPartitions m = np)"
proof -
  define k where "k = (if n < 2 then 2 else n)"
  have "2 \<le> k" "k \<le> 2 ^ 31" using assms(2) by (auto simp: k_def)
  then obtain a :: "'a jarray" where a: "ja_new k = Inr a" "pa_inv (view_env E) (array_view a)"
    "pa_map (array_view a) = Map.empty" "jOverflows a = []" "jNum a = k" "jData a = replicate k jslot_unused"
    by (rule ja_new_ok)
  have "links_ok (jData a) (jOverflows a)" unfolding a(4,6) by (simp add: links_ok_def jslot_unused_def)
  then have "jinv a" using jinv_intro[OF a(2)] by simp
  moreover have "jNum a \<le> 2 ^ 30" using a(5) assms(2) by (simp add: k_def)
  moreover have "jcontents a = (\<lambda>_. [])" by (simp add: jcontents_def a(3) fun_eq_iff)
  ultimately show ?thesis
    using a(1) by (simp add: jm_new_partition_def k_def[symmetric] jm_inv_def jm_contents_def)
qed

text \<open>Taking back the last of several values.\<close>

lemma jm_setUnused_butlast:
  assumes inv: "jm_inv m" and two: "2 \<le> length (jm_contents m (jhash me))"
  obtains u where "jm_setUnused m me = Inr u" "jm_inv u"
    "jm_contents u = (jm_contents m)(jhash me := butlast (jm_contents m (jhash me)))"
proof -
  let ?a = "jmArray m"
  have i: "jinv ?a" using inv by (simp add: jm_inv_def)
  from i show thesis
  proof (cases rule: ja_probe_cases[where me = me])
    case (empty s)
    then show thesis using two by (simp add: jm_contents_def)
  next
    case (held i' v k)
    have k: "k \<noteq> NONEXT" "jOverflows ?a ! k \<noteq> []"
      using two held(3) by (auto simp: jm_contents_def record_list_def split: if_splits)
    note ou = overflow_update[OF i held(1) k(1), of "butlast (jOverflows ?a ! k)"]
    note su = setUnused_overflow[OF i held(1) k]
    let ?u = "m\<lparr>jmArray := ?a\<lparr>jOverflows := (jOverflows ?a)[k := butlast (jOverflows ?a ! k)]\<rparr>\<rparr>"
    have "jm_setUnused m me = Inr ?u" by (simp add: jm_setUnused_def su)
    moreover have "jm_inv ?u" using ou(1) inv by (simp add: jm_inv_def)
    moreover have "jm_contents ?u = (jm_contents m)(jhash me := butlast (jm_contents m (jhash me)))"
      using ou(2) held(3) k by (simp add: jm_contents_def record_list_def)
    ultimately show thesis using that by blast
  qed
qed

lemma jm_setUnused_absent:
  assumes "jm_inv m" "jm_contents m (jhash me) = []"
  shows "jm_setUnused m me = Inr m"
proof -
  have i: "jinv (jmArray m)" using assms(1) by (simp add: jm_inv_def)
  from i show ?thesis
    by (cases rule: ja_probe_cases[where me = me])
      (use assms(2) in \<open>simp_all add: jm_setUnused_def ja_setUnused_def jm_contents_def record_list_def\<close>)
qed

section \<open>Iterating\<close>

declare ji_collect.simps [simp del]

lemma ji_collect_from:
  assumes "p \<le> length ord" "length ord < 2 ^ 32" "length ord - p \<le> n"
  shows "ji_collect raw n \<lparr>jiOrder = ord, jiPos = p, jiDone = (p = length ord)\<rparr> = Some (map fst (drop p ord))"
  using assms
proof (induction n arbitrary: p)
  case 0
  then show ?case by (simp add: ji_collect.simps ji_neq_def ji_end_def)
next
  case (Suc n)
  show ?case
  proof (cases "p = length ord")
    case True
    then show ?thesis by (simp add: ji_collect.simps ji_neq_def ji_end_def)
  next
    case False
    then have p: "p < length ord" using Suc.prems(1) by simp
    then have nx: "ji_next \<lparr>jiOrder = ord, jiPos = p, jiDone = False\<rparr>
        = \<lparr>jiOrder = ord, jiPos = Suc p, jiDone = (Suc p = length ord)\<rparr>"
      using Suc.prems(2) by (simp add: ji_next_def Let_def)
    have "drop p ord = ord ! p # drop (Suc p) ord" using p by (simp add: Cons_nth_drop_Suc)
    then show ?thesis
      using False p Suc.IH[of "Suc p"] Suc.prems
      by (subst ji_collect.simps) (simp add: ji_neq_def ji_end_def ji_deref_def nx)
  qed
qed

text \<open>The record lists a loop over the map visits, in order.\<close>

definition ji_slots :: "'v jarray \<Rightarrow> nat list" where
  "ji_slots pa = map fst (ji_order pa)"

lemma length_ji_order: "length (ji_order pa) \<le> jNum pa"
  by (simp add: ji_order_def) (metis diff_zero length_filter_le length_upt)

lemma ji_collect_begin:
  assumes "jNum pa < 2 ^ 32"
  shows "ji_collect raw (jNum pa) (ji_begin pa) = Some (ji_slots pa)"
proof -
  have "ji_begin pa = \<lparr>jiOrder = ji_order pa, jiPos = 0, jiDone = (0 = length (ji_order pa))\<rparr>"
    by (simp add: ji_begin_def)
  then show ?thesis
    using ji_collect_from[of 0 "ji_order pa" "jNum pa" raw] length_ji_order[of pa] assms
    by (simp add: ji_slots_def)
qed

lemma ji_order_set:
  assumes "jinv pa"
  shows "(s, h) \<in> set (ji_order pa) \<longleftrightarrow> (\<exists>v n. heldAt pa s h v n)"
proof -
  have "(s, h) \<in> set (ji_order pa) \<longleftrightarrow> s < jNum pa \<and> h \<noteq> UNUSED \<and> jsHash (jData pa ! s) = h"
    by (auto simp: ji_order_def)
  then show ?thesis
    using jinv_length[OF assms] jinv_hash(1)[OF assms, of s] by (auto simp: heldAt_def)
qed

lemma ji_order_sorted:
  assumes "jinv pa"
  shows "sorted (map snd (ji_order pa))" "distinct (map snd (ji_order pa))"
proof -
  show "sorted (map snd (ji_order pa))" unfolding ji_order_def by (rule sorted_sort_key)
  have d: "distinct (ji_order pa)"
    unfolding ji_order_def by (simp add: distinct_map inj_on_def)
  have "inj_on snd (set (ji_order pa))"
    using ji_order_set[OF assms] held_once[OF assms] by (fastforce simp: inj_on_def)
  then show "distinct (map snd (ji_order pa))" using d by (simp add: distinct_map)
qed

text \<open>The hashes that have values, in increasing order; the slots visited are theirs.\<close>

definition ji_hashes :: "'v jarray \<Rightarrow> nat list" where
  "ji_hashes pa = map snd (ji_order pa)"

lemma ji_hashes_set:
  assumes "jinv pa"
  shows "set (ji_hashes pa) = {h. jcontents pa h \<noteq> []}"
proof (intro set_eqI)
  fix h
  have "h \<in> set (ji_hashes pa) \<longleftrightarrow> (\<exists>s. (s, h) \<in> set (ji_order pa))" by (force simp: ji_hashes_def)
  also have "\<dots> \<longleftrightarrow> (\<exists>s v n. heldAt pa s h v n)" using ji_order_set[OF assms] by auto
  also have "\<dots> \<longleftrightarrow> jcontents pa h \<noteq> []"
  proof
    assume "\<exists>s v n. heldAt pa s h v n"
    then show "jcontents pa h \<noteq> []" using jcontents_held[OF assms] by (auto simp: record_list_def)
  next
    assume "jcontents pa h \<noteq> []"
    then show "\<exists>s v n. heldAt pa s h v n" using jcontents_absent(1)[OF assms, of h] by blast
  qed
  finally show "h \<in> set (ji_hashes pa) \<longleftrightarrow> h \<in> {h. jcontents pa h \<noteq> []}" by simp
qed

lemma ji_slots_records:
  assumes "jinv pa"
  shows "list_all2 (\<lambda>s h. \<exists>v n. heldAt pa s h v n) (ji_slots pa) (ji_hashes pa)"
  unfolding ji_slots_def ji_hashes_def list_all2_map1 list_all2_map2
  using ji_order_set[OF assms] by (auto intro: list.rel_refl_strong)

section \<open>The deep copy\<close>

lemma copy_buckets_same: "copy_buckets room i bs = Inr cs \<Longrightarrow> cs = bs"
  by (induction bs arbitrary: i cs) (auto simp: andThen_Inr_iff split: if_splits)

lemma copy_slots_view:
  assumes "copy_slots room raw i xs = Inr ys" "\<forall>x \<in> set xs. jsHash x = UNUSED \<longrightarrow> jsValue x = None"
  shows "map slot_view ys = map slot_view xs
    \<and> list_all2 (\<lambda>x y. jsValue y = jsValue x \<and> (jsValue x \<noteq> None \<longrightarrow> jsNext y = jsNext x)) xs ys"
  using assms
proof (induction xs arbitrary: i ys)
  case (Cons x xs)
  then show ?case by (auto simp: andThen_Inr_iff slot_view_def split: if_splits option.splits)
qed simp

lemma jm_deepCopy_spec:
  assumes inv: "jm_inv m" and c: "jm_deepCopy E roomBucket roomCopy raw m = Inr m'"
  shows "jm_inv m'" "jm_contents m' = jm_contents m"
proof -
  let ?a = "jmArray m"
  have i: "jinv ?a" using inv by (simp add: jm_inv_def)
  obtain d where d: "copy_slots roomCopy raw 0 (jData ?a) = Inr d"
    "m' = m\<lparr>jmArray := \<lparr>jUsed = jUsed ?a, jNum = jNum ?a, jMax = jMax ?a, jData = d, jOverflows = jOverflows ?a\<rparr>\<rparr>"
    using c by (auto simp: jm_deepCopy_def andThen_Inr_iff Let_def split: if_splits dest: copy_buckets_same)
  have u: "\<forall>x \<in> set (jData ?a). jsHash x = UNUSED \<longrightarrow> jsValue x = None"
    using jinv_hash(1)[OF i] by (metis in_set_conv_nth)
  note cv = copy_slots_view[OF d(1) u]
  have v: "array_view (jmArray m') = array_view ?a" using cv by (simp add: d(2) array_view_def)
  have l: "length d = length (jData ?a)" using cv list_all2_lengthD by fastforce
  have nth: "jsValue (d ! k) = jsValue (jData ?a ! k)" "jsValue (jData ?a ! k) \<noteq> None \<Longrightarrow> jsNext (d ! k) = jsNext (jData ?a ! k)"
    if "k < length d" for k
    using cv that l by (auto simp: list_all2_conv_all_nth)
  have "links_ok d (jOverflows ?a)"
    using i nth unfolding jinv_def links_ok_def l by simp
  then have "jinv (jmArray m')" using jinv_intro[of undefined "jmArray m'"] jinv_view[OF i] v by (simp add: d(2))
  then show "jm_inv m'" using inv by (simp add: jm_inv_def d(2))
  show "jm_contents m' = jm_contents m"
    unfolding jm_contents_def by (rule jcontents_cong) (simp_all add: v, simp add: d(2))
qed

end
