(* ===== verification/JoinSinks.thy ===== *)
theory JoinSinks
  imports JoinMapFacts
begin

text \<open>
  The sinks that build the hash tables of joins (\<open>src/src/lambdas/headers/JoinTuple.h\<close>):
  \<open>JoinSink\<close> for one table, \<open>PartitionedJoinSink\<close> for one table per partition and node,
  \<open>JoinSinkMerger\<close>, which merges tables into one, and \<open>JoinSinkShuffler\<close>, which copies a
  table onto the pages sent to a node.

  A row is a hash and the tuple that \<open>pack\<close> assembles from the columns. \<open>packRoom\<close> says whether
  \<open>pack\<close> (or \<open>packData\<close>) can copy a tuple into the page; when it throws part of the way, the value it
  was writing is left as \<open>packPart\<close> of the tuple.
\<close>

record 'v sinkenv =
  seJoin :: "'v jenv"
  packRoom :: "'v jmap \<Rightarrow> 'v \<Rightarrow> bool"
  packPart :: "'v \<Rightarrow> 'v"

text \<open>The handlers of \<open>NotEnoughSpace\<close> call \<open>setUnused\<close> and throw again.\<close>

definition undo_push :: "'v jmap \<Rightarrow> nat \<Rightarrow> 'v jmap \<times> unit outcome" where
  "undo_push m h =
     (case jm_setUnused m h of Inl e \<Rightarrow> (m, Inl e) | Inr m' \<Rightarrow> (m', Inl NotEnoughSpace))"

definition pack_or_undo :: "'v sinkenv \<Rightarrow> 'v jmap \<Rightarrow> jref \<Rightarrow> nat \<Rightarrow> 'v \<Rightarrow> 'v jmap \<times> unit outcome" where
  "pack_or_undo S m r h v =
     (if packRoom S m v then (jm_store m r v, Inr ())
      else undo_push (jm_store m r (packPart S v)) h)"

text \<open>One row. When the hash is new, one \<open>try\<close> covers \<open>push\<close> and \<open>pack\<close>; when it is there, each has
  its own, with the same handler.\<close>

definition sink_row :: "'v sinkenv \<Rightarrow> 'v jmap \<Rightarrow> nat \<Rightarrow> 'v \<Rightarrow> 'v jmap \<times> unit outcome" where
  "sink_row S m h v =
     (case jm_count m h of
        Inl e \<Rightarrow> (m, Inl e)
      | Inr c \<Rightarrow>
          if c = 0 then
            (case jm_push (seJoin S) m h of
               (m', Inl NotEnoughSpace) \<Rightarrow> undo_push m' h
             | (m', Inl e) \<Rightarrow> (m', Inl e)
             | (m', Inr r) \<Rightarrow> pack_or_undo S m' r h v)
          else
            (case jm_push (seJoin S) m h of
               (m', Inl NotEnoughSpace) \<Rightarrow> undo_push m' h
             | (m', Inl e) \<Rightarrow> (m', Inl e)
             | (m', Inr r) \<Rightarrow> pack_or_undo S m' r h v))"

text \<open>\<open>JoinSink::writeOut\<close>, from row \<open>i\<close> on with \<open>n\<close> rows to go; the handlers also erase the rows
  before the failing one from the columns.\<close>

fun sink_rows :: "'v sinkenv \<Rightarrow> nat \<Rightarrow> nat \<Rightarrow> 'v jmap \<Rightarrow> nat list \<Rightarrow> 'v list
    \<Rightarrow> 'v jmap \<times> nat list \<times> 'v list \<times> unit outcome" where
  "sink_rows S i 0 m hs vs = (m, hs, vs, Inr ())"
| "sink_rows S i (Suc n) m hs vs =
     (if i < length hs \<and> i < length vs then
        (case sink_row S m (hs ! i) (vs ! i) of
           (m', Inr _) \<Rightarrow> sink_rows S (Suc i) n m' hs vs
         | (m', Inl NotEnoughSpace) \<Rightarrow> (m', drop i hs, drop i vs, Inl NotEnoughSpace)
         | (m', Inl e) \<Rightarrow> (m', hs, vs, Inl e))
      else (m, hs, vs, Inl WildAccess))"

definition join_sink_writeOut :: "'v sinkenv \<Rightarrow> 'v jmap \<Rightarrow> nat list \<Rightarrow> 'v list
    \<Rightarrow> 'v jmap \<times> nat list \<times> 'v list \<times> unit outcome" where
  "join_sink_writeOut S m hs vs = sink_rows S 0 (length hs) m hs vs"

definition join_sink_new :: "'v jenv \<Rightarrow> nat \<times> nat \<Rightarrow> 'v jmap outcome" where
  "join_sink_new E raw = jm_new E raw"

section \<open>Partitioned sink\<close>

record psink =
  psParts :: nat
  psNodes :: nat
  psType :: join_type
  psCur :: nat

text \<open>\<open>createNewOutputContainer\<close>: per node a vector of maps, each made with its partition number.\<close>

fun node_maps :: "'v jenv \<Rightarrow> nat \<Rightarrow> nat \<Rightarrow> nat \<Rightarrow> nat \<Rightarrow> 'v jmap list outcome" where
  "node_maps E np i j 0 = Inr []"
| "node_maps E np i j (Suc n) =
     andThen (jm_new_partition E 2 (i * np + j) np)
       (\<lambda>m. andThen (node_maps E np i (Suc j) n) (\<lambda>ms. Inr (m # ms)))"

fun all_node_maps :: "'v jenv \<Rightarrow> nat \<Rightarrow> nat \<Rightarrow> nat \<Rightarrow> 'v jmap list list outcome" where
  "all_node_maps E np i 0 = Inr []"
| "all_node_maps E np i (Suc n) =
     andThen (node_maps E np i 0 np)
       (\<lambda>ms. andThen (all_node_maps E np (Suc i) n) (\<lambda>mss. Inr (ms # mss)))"

definition partitioned_sink_new :: "'v jenv \<Rightarrow> psink \<Rightarrow> 'v jmap list list outcome" where
  "partitioned_sink_new E P = all_node_maps E (psParts P) 0 (psNodes P)"

text \<open>Where a hash goes. \<open>noMod\<close> is whether the code is compiled with \<open>NO_MOD_PARTITION\<close>.\<close>

definition partition_index :: "bool \<Rightarrow> psink \<Rightarrow> nat \<Rightarrow> nat outcome" where
  "partition_index noMod P h =
     (let k = psParts P * psNodes P in
      if k = 0 then Inl DivByZero
      else if psType P \<noteq> CrossProduct then
        (if \<not> noMod then Inr (h mod k) else Inr ((h div k) mod k))
      else Inr (psCur P mod k))"

text \<open>One row of \<open>PartitionedJoinSink::writeOut\<close>: the body of \<open>JoinSink\<close>'s loop on the map the row's
  hash selects.\<close>

definition partition_row :: "bool \<Rightarrow> 'v sinkenv \<Rightarrow> psink \<Rightarrow> 'v jmap list list \<Rightarrow> nat \<Rightarrow> 'v
    \<Rightarrow> 'v jmap list list \<times> unit outcome" where
  "partition_row noMod S P ms h v =
     (case partition_index noMod P h of
        Inl e \<Rightarrow> (ms, Inl e)
      | Inr k \<Rightarrow>
          if psParts P = 0 then (ms, Inl DivByZero)
          else (let i = k div psParts P; j = k mod psParts P in
            if i < length ms \<and> j < length (ms ! i) then
              (case sink_row S (ms ! i ! j) h v of
                 (m', r) \<Rightarrow> (ms[i := (ms ! i)[j := m']], r))
            else (ms, Inl WildAccess)))"

fun partition_rows :: "bool \<Rightarrow> 'v sinkenv \<Rightarrow> psink \<Rightarrow> nat \<Rightarrow> nat \<Rightarrow> 'v jmap list list \<Rightarrow> nat list \<Rightarrow> 'v list
    \<Rightarrow> 'v jmap list list \<times> nat list \<times> 'v list \<times> unit outcome" where
  "partition_rows noMod S P i 0 ms hs vs = (ms, hs, vs, Inr ())"
| "partition_rows noMod S P i (Suc n) ms hs vs =
     (if i < length hs \<and> i < length vs then
        (case partition_row noMod S P ms (hs ! i) (vs ! i) of
           (ms', Inr _) \<Rightarrow> partition_rows noMod S P (Suc i) n ms' hs vs
         | (ms', Inl NotEnoughSpace) \<Rightarrow> (ms', drop i hs, drop i vs, Inl NotEnoughSpace)
         | (ms', Inl e) \<Rightarrow> (ms', hs, vs, Inl e))
      else (ms, hs, vs, Inl WildAccess))"

text \<open>In a cross product every call takes the next partition for all its rows.\<close>

definition partitioned_sink_writeOut :: "bool \<Rightarrow> 'v sinkenv \<Rightarrow> psink \<Rightarrow> 'v jmap list list \<Rightarrow> nat list
    \<Rightarrow> 'v list \<Rightarrow> psink \<times> 'v jmap list list \<times> nat list \<times> 'v list \<times> unit outcome" where
  "partitioned_sink_writeOut noMod S P ms hs vs =
     (let P' = (if psType P = CrossProduct then P\<lparr>psCur := psCur P + 1\<rparr> else P) in
      (P', partition_rows noMod S P' 0 (length hs) ms hs vs))"

section \<open>Merging\<close>

record merger =
  mgPartition :: nat
  mgKeys :: nat
  mgMapIndex :: nat
  mgListIndex :: nat

text \<open>The inner loop: the values of one record list, from index \<open>i\<close> on with \<open>n\<close> to go. It returns the
  index at which it ran out of space, and does not take back what it pushed there.\<close>

fun merge_list :: "'v sinkenv \<Rightarrow> 'v jarray \<Rightarrow> nat \<Rightarrow> nat \<Rightarrow> nat \<Rightarrow> nat \<Rightarrow> 'v jmap
    \<Rightarrow> 'v jmap \<times> (nat option) outcome" where
  "merge_list S src s h i 0 m = (m, Inr None)"
| "merge_list S src s h i (Suc n) m =
     (case jm_push (seJoin S) m h of
        (m', Inl NotEnoughSpace) \<Rightarrow> (m', Inr (Some i))
      | (m', Inl e) \<Rightarrow> (m', Inl e)
      | (m', Inr r) \<Rightarrow>
          (case rl_get src s i of
             Inl e \<Rightarrow> (m', Inl e)
           | Inr v \<Rightarrow>
               if packRoom S m' v then merge_list S src s h (Suc i) n (jm_store m' r v)
               else (jm_store m' r (packPart S v), Inr (Some i))))"

text \<open>The loop over the record lists of one map that \<open>JoinSinkMerger\<close> and \<open>JoinSinkShuffler\<close> share
  (the slots \<open>ji_slots\<close> of its array are what its iterator visits): \<open>c\<close> counts the lists, those
  before \<open>start\<close> are skipped, \<open>li\<close> is the list index and \<open>keys\<close> the number of lists entered; \<open>f\<close> is
  the loop over the values of one list. It returns the position at which \<open>f\<close> ran out of space.\<close>

fun lists_loop :: "(nat \<Rightarrow> nat \<Rightarrow> nat \<Rightarrow> nat \<Rightarrow> 'v jmap \<Rightarrow> 'v jmap \<times> (nat option) outcome) \<Rightarrow> 'v jarray
    \<Rightarrow> nat list \<Rightarrow> nat \<Rightarrow> nat \<Rightarrow> nat \<Rightarrow> nat \<Rightarrow> 'v jmap
    \<Rightarrow> nat \<times> nat \<times> 'v jmap \<times> ((nat \<times> nat) option) outcome" where
  "lists_loop f src [] c start li keys m = (li, keys, m, Inr None)"
| "lists_loop f src (s # ss) c start li keys m =
     (if c < start then lists_loop f src ss (c + 1) start li keys m
      else (case rl_size src s of
         Inl e \<Rightarrow> (li, keys, m, Inl e)
       | Inr cnt \<Rightarrow>
          (case rl_getHash src s of
             Inl e \<Rightarrow> (li, keys, m, Inl e)
           | Inr h \<Rightarrow>
               if 0 < cnt then
                 (case f s h li (cnt - li) m of
                    (m', Inl e) \<Rightarrow> (li, keys + 1, m', Inl e)
                  | (m', Inr (Some i)) \<Rightarrow> (li, keys + 1, m', Inr (Some (c, i)))
                  | (m', Inr None) \<Rightarrow> lists_loop f src ss (c + 1) start 0 (keys + 1) m')
               else lists_loop f src ss (c + 1) start li keys m)))"

text \<open>Merging one map: the merger with the position left by the loop, and whether all was merged.\<close>

definition merge_map :: "'v sinkenv \<Rightarrow> merger \<Rightarrow> 'v jarray \<Rightarrow> 'v jmap \<Rightarrow> merger \<times> 'v jmap \<times> bool outcome" where
  "merge_map S g src m =
     (case lists_loop (merge_list S src) src (ji_slots src) 0 (mgMapIndex g) (mgListIndex g) (mgKeys g) m of
        (li, keys, m', Inl e) \<Rightarrow> (g\<lparr>mgKeys := keys, mgListIndex := li\<rparr>, m', Inl e)
      | (li, keys, m', Inr (Some (c, i))) \<Rightarrow> (g\<lparr>mgKeys := keys, mgListIndex := i, mgMapIndex := c\<rparr>, m', Inr False)
      | (li, keys, m', Inr None) \<Rightarrow> (g\<lparr>mgKeys := keys, mgListIndex := li, mgMapIndex := 0\<rparr>, m', Inr True))"

definition merger_writeOut :: "'v sinkenv \<Rightarrow> merger \<Rightarrow> 'v jmap \<Rightarrow> 'v jmap \<Rightarrow> merger \<times> 'v jmap \<times> unit outcome" where
  "merger_writeOut S g src m =
     (case merge_map S g (jmArray src) m of
        (g', m', Inl e) \<Rightarrow> (g', m', Inl e)
      | (g', m', Inr done_all) \<Rightarrow> (g', m', Inr ()))"

text \<open>\<open>writeVectorOut\<close> merges the maps of its partition out of a vector, and exits when it runs out of
  space.\<close>

fun merger_writeVectorOut :: "'v sinkenv \<Rightarrow> merger \<Rightarrow> 'v jmap list \<Rightarrow> 'v jmap \<Rightarrow> merger \<times> 'v jmap \<times> unit outcome" where
  "merger_writeVectorOut S g [] m = (g, m, Inr ())"
| "merger_writeVectorOut S g (src # srcs) m =
     (if jmPartition src \<noteq> mgPartition g then merger_writeVectorOut S g srcs m
      else (case merge_map S g (jmArray src) m of
              (g', m', Inl e) \<Rightarrow> (g', m', Inl e)
            | (g', m', Inr False) \<Rightarrow> (g', m', Inl (FatalExit 1))
            | (g', m', Inr True) \<Rightarrow> merger_writeVectorOut S g' srcs m'))"

section \<open>Shuffling\<close>

record shuffler =
  shMapIndex :: nat
  shListIndex :: nat

fun shuffle_list :: "'v sinkenv \<Rightarrow> 'v jarray \<Rightarrow> nat \<Rightarrow> nat \<Rightarrow> nat \<Rightarrow> nat \<Rightarrow> 'v jmap
    \<Rightarrow> 'v jmap \<times> (nat option) outcome" where
  "shuffle_list S src s h i 0 m = (m, Inr None)"
| "shuffle_list S src s h i (Suc n) m =
     (case rl_get src s i of
        Inl e \<Rightarrow> (m, Inl e)
      | Inr v \<Rightarrow>
          (case sink_row S m h v of
             (m', Inr _) \<Rightarrow> shuffle_list S src s h (Suc i) n m'
           | (m', Inl NotEnoughSpace) \<Rightarrow> (m', Inr (Some i))
           | (m', Inl e) \<Rightarrow> (m', Inl e)))"

text \<open>\<open>writeOut\<close>: a new map on the output page takes the records from the stored position on. When
  the page is full the position is stored and the map is kept unless it is empty; \<open>roomBack\<close> says
  whether \<open>push_back\<close> on the page's vector succeeds, which nobody catches there. The boolean is what
  \<open>writeOut\<close> returns.\<close>

definition shuffler_writeOut :: "'v sinkenv \<Rightarrow> ('v jmap list \<Rightarrow> bool) \<Rightarrow> shuffler \<Rightarrow> 'v jmap \<Rightarrow> 'v jmap list
    \<Rightarrow> shuffler \<times> 'v jmap list \<times> bool outcome" where
  "shuffler_writeOut S roomBack g src maps =
     (case jm_new_partition (seJoin S) (u32 (jm_size src + 2 ^ 64 - shMapIndex g))
             (jmPartition src) (jmNumPartitions src) of
        Inl NotEnoughSpace \<Rightarrow>
          (g, maps, if 1000000000 < jm_size src then Inl (FatalExit 1) else Inr False)
      | Inl e \<Rightarrow> (g, maps, Inl e)
      | Inr m \<Rightarrow>
          (case lists_loop (shuffle_list S (jmArray src)) (jmArray src) (ji_slots (jmArray src)) 0
                  (shMapIndex g) (shListIndex g) 0 m of
             (li, keys, m', Inl e) \<Rightarrow> (g\<lparr>shListIndex := li\<rparr>, maps, Inl e)
           | (li, keys, m', Inr (Some (c, i))) \<Rightarrow>
               (let g' = \<lparr>shMapIndex = c, shListIndex = i\<rparr> in
                if jm_size m' \<noteq> 0 then
                  (if roomBack maps then (g', maps @ [m'], Inr False) else (g', maps, Inl NotEnoughSpace))
                else (g', maps, Inr False))
           | (li, keys, m', Inr None) \<Rightarrow>
               if roomBack maps then (\<lparr>shMapIndex = 0, shListIndex = li\<rparr>, maps @ [m'], Inr True)
               else (g\<lparr>shListIndex := li\<rparr>, maps, Inr False)))"

section \<open>Rows added to a table\<close>

definition add_rows :: "(nat \<Rightarrow> 'v list) \<Rightarrow> (nat \<times> 'v) list \<Rightarrow> nat \<Rightarrow> 'v list" where
  "add_rows c rows h = c h @ map snd (filter (\<lambda>r. jhash (fst r) = h) rows)"

lemma add_rows_Nil [simp]: "add_rows c [] = c"
  by (simp add: add_rows_def fun_eq_iff)

lemma add_rows_append: "add_rows c (rs @ qs) = add_rows (add_rows c rs) qs"
  by (simp add: add_rows_def fun_eq_iff)

lemma add_rows_Cons: "add_rows c (r # qs) = add_rows (add_rows c [r]) qs"
  using add_rows_append[of c "[r]" qs] by simp

lemma add_rows_one: "add_rows c [(h, v)] = c(jhash h := c (jhash h) @ [v])"
  by (auto simp: add_rows_def fun_eq_iff)

text \<open>The last value under the hash was taken back although the push of the row had not added one.\<close>

definition row_lost :: "'v sinkenv \<Rightarrow> 'v jmap \<Rightarrow> nat \<Rightarrow> 'v jmap \<Rightarrow> bool" where
  "row_lost S m h m' \<longleftrightarrow>
     jm_contents m (jhash h) \<noteq> []
     \<and> (\<exists>m1. jm_push (seJoin S) m h = (m1, Inl NotEnoughSpace) \<and> jm_inv m1 \<and> jm_contents m1 = jm_contents m
          \<and> jm_setUnused m1 h = Inr m')"

lemma jm_setUnused_total:
  assumes "jm_inv m"
  obtains u where "jm_setUnused m h = Inr u"
proof -
  have i: "jinv (jmArray m)" using assms by (simp add: jm_inv_def)
  from i show thesis
  proof (cases rule: ja_probe_cases[where me = h])
    case (empty s)
    then show thesis using that[of m] by (simp add: jm_setUnused_def ja_setUnused_def)
  next
    case (held j v n)
    then have "n \<noteq> NONEXT \<Longrightarrow> n < length (jOverflows (jmArray m))" using held_link[OF i] by blast
    then have "\<exists>a. ja_setUnused (jmArray m) h = Inr a"
      using held(2) held_slot[OF held(1)] by (auto simp: ja_setUnused_def overflow_at_def Let_def)
    then show thesis using that by (auto simp: jm_setUnused_def)
  qed
qed

lemma undo_pushed:
  assumes "jm_pushed m h x m' r"
  obtains u where "undo_push (jm_store m' r w) h = (u, Inl NotEnoughSpace)" "jm_inv u" "jm_contents u = jm_contents m"
  using assms unfolding jm_pushed_def by (metis (no_types, lifting) sum.simps(6) undo_push_def)

lemma sink_row_cases:
  assumes inv: "jm_inv m" and ok: "jenv_ok (seJoin S)"
  obtains
    (written) m' where "sink_row S m h v = (m', Inr ())" "jm_inv m'"
      "jm_contents m' = add_rows (jm_contents m) [(h, v)]"
  | (full) m' where "sink_row S m h v = (m', Inl NotEnoughSpace)" "jm_inv m'" "jm_contents m' = jm_contents m"
  | (lost) m' where "sink_row S m h v = (m', Inl NotEnoughSpace)" "row_lost S m h m'"
proof -
  have eq: "sink_row S m h v =
      (case jm_push (seJoin S) m h of
         (m', Inl NotEnoughSpace) \<Rightarrow> undo_push m' h
       | (m', Inl e) \<Rightarrow> (m', Inl e)
       | (m', Inr r) \<Rightarrow> pack_or_undo S m' r h v)"
    using jm_count_spec[OF inv, of h] by (simp add: sink_row_def)
  from jm_push_spec[OF inv ok, of h] show thesis
  proof (elim disjE exE conjE)
    fix m' r assume p: "jm_push (seJoin S) m h = (m', Inr r)" "jm_pushed m h (jFresh (seJoin S)) m' r"
    show thesis
    proof (cases "packRoom S m' v")
      case True
      then have "sink_row S m h v = (jm_store m' r v, Inr ())" using p(1) by (simp add: eq pack_or_undo_def)
      then show thesis using written p(2) by (auto simp: jm_pushed_def add_rows_one)
    next
      case False
      then have "sink_row S m h v = undo_push (jm_store m' r (packPart S v)) h"
        using p(1) by (simp add: eq pack_or_undo_def)
      then show thesis using full undo_pushed[OF p(2)] by metis
    qed
  next
    fix m' assume p: "jm_push (seJoin S) m h = (m', Inl NotEnoughSpace)" "jm_inv m'"
      "jm_contents m' = jm_contents m"
    obtain u where u: "jm_setUnused m' h = Inr u" using jm_setUnused_total[OF p(2)] by blast
    then have s: "sink_row S m h v = (u, Inl NotEnoughSpace)" using p(1) by (simp add: eq undo_push_def)
    show thesis
    proof (cases "jm_contents m (jhash h) = []")
      case True
      then have "u = m'" using jm_setUnused_absent[OF p(2), of h] p(3) u by simp
      then show thesis using full s p(2,3) by blast
    next
      case False
      then show thesis using lost s p u unfolding row_lost_def by blast
    qed
  qed
qed

section \<open>JoinSink\<close>

definition rows_result :: "'v sinkenv \<Rightarrow> 'v jmap \<Rightarrow> (nat \<times> 'v) list \<Rightarrow> nat \<Rightarrow> 'v jmap \<Rightarrow> bool" where
  "rows_result S m rows i m' \<longleftrightarrow>
     (\<exists>mi. jm_inv mi \<and> jm_contents mi = add_rows (jm_contents m) (take i rows)
        \<and> (jm_inv m' \<and> jm_contents m' = jm_contents mi
            \<or> i < length rows \<and> row_lost S mi (fst (rows ! i)) m'))"

lemma sink_rows_cases:
  assumes "jenv_ok (seJoin S)" "length hs = length vs" "jm_inv m" "i + n = length hs"
    and "jm_inv m0" "jm_contents m = add_rows (jm_contents m0) (take i (zip hs vs))"
  shows "(\<exists>m'. sink_rows S i n m hs vs = (m', hs, vs, Inr ()) \<and> jm_inv m'
            \<and> jm_contents m' = add_rows (jm_contents m0) (zip hs vs))
    \<or> (\<exists>m' j. sink_rows S i n m hs vs = (m', drop j hs, drop j vs, Inl NotEnoughSpace) \<and> j < length hs
            \<and> rows_result S m0 (zip hs vs) j m')"
  using assms(3-6)
proof (induction n arbitrary: i m)
  case 0
  then show ?case using assms(2) by simp
next
  case (Suc n)
  have i: "i < length hs" "i < length vs" using Suc.prems(2) assms(2) by auto
  have tk: "take (Suc i) (zip hs vs) = take i (zip hs vs) @ [(hs ! i, vs ! i)]"
    using i by (simp add: take_Suc_conv_app_nth)
  show ?case
  proof (cases rule: sink_row_cases[OF Suc.prems(1) assms(1), of "hs ! i" "vs ! i"])
    case (1 m')
    have "sink_rows S i (Suc n) m hs vs = sink_rows S (Suc i) n m' hs vs" using i 1(1) by simp
    moreover have "jm_contents m' = add_rows (jm_contents m0) (take (Suc i) (zip hs vs))"
      unfolding tk add_rows_append Suc.prems(4)[symmetric] by (rule 1(3))
    ultimately show ?thesis using Suc.IH[OF 1(2) _ Suc.prems(3)] Suc.prems(2) by simp
  next
    case (2 m')
    have "sink_rows S i (Suc n) m hs vs = (m', drop i hs, drop i vs, Inl NotEnoughSpace)"
      using i 2(1) by simp
    moreover have "rows_result S m0 (zip hs vs) i m'"
      unfolding rows_result_def using Suc.prems(1,4) 2(2,3) by blast
    ultimately show ?thesis using i(1) by blast
  next
    case (3 m')
    have "sink_rows S i (Suc n) m hs vs = (m', drop i hs, drop i vs, Inl NotEnoughSpace)"
      using i 3(1) by simp
    moreover have "fst (zip hs vs ! i) = hs ! i" using i by simp
    then have "rows_result S m0 (zip hs vs) i m'"
      unfolding rows_result_def using Suc.prems(1,4) 3(2) i by auto
    ultimately show ?thesis using i(1) by blast
  qed
qed

section \<open>PartitionedJoinSink\<close>

definition psink_ok :: "psink \<Rightarrow> bool" where
  "psink_ok P \<longleftrightarrow> 0 < psParts P \<and> 0 < psNodes P"

abbreviation partitions :: "psink \<Rightarrow> nat" where
  "partitions P \<equiv> psParts P * psNodes P"

definition part_map :: "psink \<Rightarrow> 'v jmap list list \<Rightarrow> nat \<Rightarrow> 'v jmap" where
  "part_map P ms k = ms ! (k div psParts P) ! (k mod psParts P)"

definition parts_inv :: "psink \<Rightarrow> 'v jmap list list \<Rightarrow> bool" where
  "parts_inv P ms \<longleftrightarrow> length ms = psNodes P \<and> (\<forall>i < psNodes P. length (ms ! i) = psParts P)
     \<and> (\<forall>k < partitions P. jm_inv (part_map P ms k))"

definition set_part :: "psink \<Rightarrow> 'v jmap list list \<Rightarrow> nat \<Rightarrow> 'v jmap \<Rightarrow> 'v jmap list list" where
  "set_part P ms k m = ms[k div psParts P := (ms ! (k div psParts P))[k mod psParts P := m]]"

text \<open>The partition of a row, and the rows that go to partition \<open>k\<close>.\<close>

definition rows_of :: "bool \<Rightarrow> psink \<Rightarrow> nat \<Rightarrow> (nat \<times> 'v) list \<Rightarrow> (nat \<times> 'v) list" where
  "rows_of noMod P k rows = filter (\<lambda>r. partition_index noMod P (fst r) = Inr k) rows"

lemma part_bounds:
  assumes "psink_ok P" "k < partitions P"
  shows "k div psParts P < psNodes P" "k mod psParts P < psParts P"
  using assms by (auto simp: psink_ok_def less_mult_imp_div_less mult.commute)

lemma partition_index_bound:
  assumes "psink_ok P"
  obtains k where "partition_index noMod P h = Inr k" "k < partitions P"
proof -
  have p: "0 < partitions P" using assms by (simp add: psink_ok_def)
  define k where "k = (if psType P \<noteq> CrossProduct
      then (if \<not> noMod then h mod partitions P else (h div partitions P) mod partitions P)
      else psCur P mod partitions P)"
  have "partition_index noMod P h = Inr k" using p by (simp add: partition_index_def Let_def k_def)
  moreover have "k < partitions P" using p by (simp add: k_def)
  ultimately show thesis by (rule that)
qed

lemma part_map_set:
  assumes "psink_ok P" "parts_inv P ms" "k < partitions P" "q < partitions P"
  shows "part_map P (set_part P ms k m) q = (if q = k then m else part_map P ms q)"
proof -
  note b = part_bounds[OF assms(1,3)] part_bounds[OF assms(1,4)]
  have l: "length ms = psNodes P" "length (ms ! (k div psParts P)) = psParts P"
    using assms(2) b by (auto simp: parts_inv_def)
  have "q = k" if "q div psParts P = k div psParts P" "q mod psParts P = k mod psParts P"
    using that by (metis div_mult_mod_eq)
  then show ?thesis
    using b l by (auto simp: part_map_def set_part_def nth_list_update)
qed

lemma parts_inv_set:
  assumes "psink_ok P" "parts_inv P ms" "k < partitions P" "jm_inv m"
  shows "parts_inv P (set_part P ms k m)"
proof -
  have "length (set_part P ms k m ! i) = psParts P" if "i < psNodes P" for i
    using assms(2) that by (cases "i = k div psParts P") (auto simp: set_part_def parts_inv_def)
  then show ?thesis
    using assms part_map_set[OF assms(1,2,3)] unfolding parts_inv_def by (simp add: set_part_def)
qed

lemma partition_row_eq:
  assumes "psink_ok P" "parts_inv P ms" "partition_index noMod P h = Inr k" "k < partitions P"
  shows "partition_row noMod S P ms h v =
    (set_part P ms k (fst (sink_row S (part_map P ms k) h v)), snd (sink_row S (part_map P ms k) h v))"
proof -
  note b = part_bounds[OF assms(1,4)]
  then show ?thesis
    using assms by (auto simp: partition_row_def parts_inv_def psink_ok_def Let_def part_map_def set_part_def
        split: prod.split)
qed

definition parts_hold :: "bool \<Rightarrow> psink \<Rightarrow> 'v jmap list list \<Rightarrow> (nat \<times> 'v) list \<Rightarrow> 'v jmap list list \<Rightarrow> bool" where
  "parts_hold noMod P ms rows ms' \<longleftrightarrow>
     parts_inv P ms'
     \<and> (\<forall>k < partitions P. jm_contents (part_map P ms' k)
          = add_rows (jm_contents (part_map P ms k)) (rows_of noMod P k rows))"

definition parts_result :: "bool \<Rightarrow> 'v sinkenv \<Rightarrow> psink \<Rightarrow> 'v jmap list list \<Rightarrow> (nat \<times> 'v) list \<Rightarrow> nat
    \<Rightarrow> 'v jmap list list \<Rightarrow> bool" where
  "parts_result noMod S P ms rows i ms' \<longleftrightarrow>
     parts_hold noMod P ms (take i rows) ms'
     \<or> (i < length rows \<and> (\<exists>mi k m'. parts_hold noMod P ms (take i rows) mi
          \<and> partition_index noMod P (fst (rows ! i)) = Inr k
          \<and> row_lost S (part_map P mi k) (fst (rows ! i)) m' \<and> ms' = set_part P mi k m'))"

lemma parts_hold_snoc:
  assumes P: "psink_ok P" and h: "parts_hold noMod P ms0 rows ms"
    and k: "partition_index noMod P h = Inr k" "k < partitions P"
    and m: "jm_inv m" "jm_contents m = add_rows (jm_contents (part_map P ms k)) [(h, v)]"
  shows "parts_hold noMod P ms0 (rows @ [(h, v)]) (set_part P ms k m)"
proof -
  have inv: "parts_inv P ms" using h by (simp add: parts_hold_def)
  have "jm_contents (part_map P (set_part P ms k m) q)
      = add_rows (jm_contents (part_map P ms0 q)) (rows_of noMod P q (rows @ [(h, v)]))"
    if q: "q < partitions P" for q
  proof -
    have old: "jm_contents (part_map P ms q) = add_rows (jm_contents (part_map P ms0 q)) (rows_of noMod P q rows)"
      using h q by (simp add: parts_hold_def)
    show ?thesis
    proof (cases "q = k")
      case True
      have "rows_of noMod P k (rows @ [(h, v)]) = rows_of noMod P k rows @ [(h, v)]"
        using k(1) by (simp add: rows_of_def)
      then show ?thesis
        using True old part_map_set[OF P inv k(2) q] m(2) by (simp add: add_rows_append)
    next
      case False
      then have "rows_of noMod P q (rows @ [(h, v)]) = rows_of noMod P q rows"
        using k(1) by (simp add: rows_of_def)
      then show ?thesis using False old part_map_set[OF P inv k(2) q] by simp
    qed
  qed
  then show ?thesis using parts_inv_set[OF P inv k(2) m(1)] by (simp add: parts_hold_def)
qed

lemma partition_rows_cases:
  assumes P: "psink_ok P" and E: "jenv_ok (seJoin S)" and len: "length hs = length vs"
    and "i + n = length hs" "parts_hold noMod P ms0 (take i (zip hs vs)) ms"
  shows "(\<exists>ms'. partition_rows noMod S P i n ms hs vs = (ms', hs, vs, Inr ())
            \<and> parts_hold noMod P ms0 (zip hs vs) ms')
    \<or> (\<exists>ms' j. partition_rows noMod S P i n ms hs vs = (ms', drop j hs, drop j vs, Inl NotEnoughSpace)
            \<and> j < length hs \<and> parts_result noMod S P ms0 (zip hs vs) j ms')"
  using assms(4,5)
proof (induction n arbitrary: i ms)
  case 0
  then show ?case using len by simp
next
  case (Suc n)
  have i: "i < length hs" "i < length vs" using Suc.prems(1) len by auto
  have tk: "take (Suc i) (zip hs vs) = take i (zip hs vs) @ [(hs ! i, vs ! i)]"
    using i by (simp add: take_Suc_conv_app_nth)
  have at: "zip hs vs ! i = (hs ! i, vs ! i)" using i by simp
  have inv: "parts_inv P ms" using Suc.prems(2) by (simp add: parts_hold_def)
  obtain k where k: "partition_index noMod P (hs ! i) = Inr k" "k < partitions P"
    by (rule partition_index_bound[OF P])
  note pr = partition_row_eq[OF P inv k, of S "vs ! i"]
  have mk: "jm_inv (part_map P ms k)" using inv k(2) by (simp add: parts_inv_def)
  show ?case
  proof (cases rule: sink_row_cases[OF mk E, of "hs ! i" "vs ! i"])
    case (1 m')
    then have "partition_rows noMod S P i (Suc n) ms hs vs =
        partition_rows noMod S P (Suc i) n (set_part P ms k m') hs vs" using i pr by simp
    moreover have "parts_hold noMod P ms0 (take (Suc i) (zip hs vs)) (set_part P ms k m')"
      unfolding tk by (rule parts_hold_snoc[OF P Suc.prems(2) k 1(2,3)])
    ultimately show ?thesis using Suc.IH[of "Suc i"] Suc.prems(1) by simp
  next
    case (2 m')
    then have e: "partition_rows noMod S P i (Suc n) ms hs vs =
        (set_part P ms k m', drop i hs, drop i vs, Inl NotEnoughSpace)" using i pr by simp
    have "parts_hold noMod P ms0 (take i (zip hs vs)) (set_part P ms k m')"
      using Suc.prems(2) parts_inv_set[OF P inv k(2) 2(2)] part_map_set[OF P inv k(2)] 2(3)
      unfolding parts_hold_def by simp
    then show ?thesis unfolding e parts_result_def using i(1) by blast
  next
    case (3 m')
    then have e: "partition_rows noMod S P i (Suc n) ms hs vs =
        (set_part P ms k m', drop i hs, drop i vs, Inl NotEnoughSpace)" using i pr by simp
    have "parts_result noMod S P ms0 (zip hs vs) i (set_part P ms k m')"
      unfolding parts_result_def at fst_conv using Suc.prems(2) k(1) 3(2) i by auto
    then show ?thesis unfolding e using i(1) by blast
  qed
qed

text \<open>The container a partitioned sink starts with.\<close>

lemma node_maps_spec:
  assumes "jenv_ok E" "node_maps E np i j n = Inr ms"
  shows "length ms = n \<and> (\<forall>q < n. jm_inv (ms ! q) \<and> jm_contents (ms ! q) = (\<lambda>_. [])
    \<and> jmPartition (ms ! q) = i * np + (j + q) \<and> jmNumPartitions (ms ! q) = np)"
  using assms(2)
proof (induction n arbitrary: j ms)
  case (Suc n)
  obtain m ms1 where m: "jm_new_partition E 2 (i * np + j) np = Inr m" "node_maps E np i (Suc j) n = Inr ms1"
    "ms = m # ms1"
    using Suc.prems by (auto simp: andThen_Inr_iff)
  have "jm_inv m \<and> jm_contents m = (\<lambda>_. []) \<and> jmPartition m = i * np + j \<and> jmNumPartitions m = np"
    using jm_new_partition_spec[OF assms(1), of 2 "i * np + j" np] m(1) by simp
  then show ?case using Suc.IH[OF m(2)] m(3) by (auto simp: nth_Cons less_Suc_eq_0_disj split: nat.split)
qed simp

lemma all_node_maps_spec:
  assumes "jenv_ok E" "all_node_maps E np i n = Inr mss"
  shows "length mss = n \<and> (\<forall>q < n. length (mss ! q) = np \<and> (\<forall>j < np. jm_inv (mss ! q ! j)
    \<and> jm_contents (mss ! q ! j) = (\<lambda>_. []) \<and> jmPartition (mss ! q ! j) = (i + q) * np + j))"
  using assms(2)
proof (induction n arbitrary: i mss)
  case (Suc n)
  obtain ms mss1 where m: "node_maps E np i 0 np = Inr ms" "all_node_maps E np (Suc i) n = Inr mss1" "mss = ms # mss1"
    using Suc.prems by (auto simp: andThen_Inr_iff)
  show ?case
    using node_maps_spec[OF assms(1) m(1)] Suc.IH[OF m(2)] m(3)
    by (auto simp: less_Suc_eq_0_disj)
qed simp

lemma partitioned_sink_new_spec:
  assumes "psink_ok P" "jenv_ok E" "partitioned_sink_new E P = Inr ms"
  shows "parts_inv P ms" "k < partitions P \<Longrightarrow> jm_contents (part_map P ms k) = (\<lambda>_. [])"
    "k < partitions P \<Longrightarrow> jmPartition (part_map P ms k) = k"
proof -
  note a = all_node_maps_spec[OF assms(2) assms(3)[unfolded partitioned_sink_new_def]]
  have b: "k div psParts P < psNodes P" "k mod psParts P < psParts P" if "k < partitions P" for k
    using part_bounds[OF assms(1) that] by auto
  show "parts_inv P ms" using a b by (auto simp: parts_inv_def part_map_def)
  show "jm_contents (part_map P ms k) = (\<lambda>_. [])" if "k < partitions P" using a b[OF that] by (simp add: part_map_def)
  show "jmPartition (part_map P ms k) = k" if "k < partitions P"
    using a b[OF that] by (simp add: part_map_def)
qed

section \<open>Merging and shuffling\<close>

text \<open>The records of a table in the order a loop over it meets them, from the \<open>i\<close>-th record of the
  \<open>c\<close>-th list on.\<close>

definition recs :: "'v jarray \<Rightarrow> nat \<Rightarrow> (nat \<times> 'v) list" where
  "recs src h = map (Pair h) (jcontents src h)"

definition rem_records :: "'v jarray \<Rightarrow> nat list \<Rightarrow> nat \<Rightarrow> nat \<Rightarrow> (nat \<times> 'v) list" where
  "rem_records src hs c i =
     (case drop c hs of [] \<Rightarrow> [] | h # rest \<Rightarrow> drop i (recs src h) @ concat (map (recs src) rest))"

lemma rem_records_simps [simp]:
  "rem_records src [] c i = []"
  "rem_records src (h # hs) (Suc c) i = rem_records src hs c i"
  "rem_records src (h # hs) 0 i = drop i (recs src h) @ rem_records src hs 0 0"
  by (simp_all add: rem_records_def split: list.split)

lemma rem_records_all: "rem_records src hs 0 0 = concat (map (recs src) hs)"
  by (induction hs) simp_all

abbreviation all_records :: "'v jarray \<Rightarrow> (nat \<times> 'v) list" where
  "all_records src \<equiv> concat (map (recs src) (ji_hashes src))"

lemma recs_nth: "i < length (jcontents src h) \<Longrightarrow> recs src h ! i = (h, jcontents src h ! i)"
  by (simp add: recs_def)

lemma length_recs [simp]: "length (recs src h) = length (jcontents src h)"
  by (simp add: recs_def)

text \<open>Either the rows have been added, or all up to one that did not fit, which may be there in part.\<close>

definition stopped_at :: "'v sinkenv \<Rightarrow> (nat \<Rightarrow> 'v list) \<Rightarrow> (nat \<times> 'v) list \<Rightarrow> nat \<times> 'v \<Rightarrow> 'v jmap \<Rightarrow> bool" where
  "stopped_at S c rows r m' \<longleftrightarrow>
     jm_inv m' \<and> (jm_contents m' = add_rows c rows
       \<or> jm_contents m' = add_rows c (rows @ [(fst r, packPart S (snd r))]))"

lemma merge_list_cases:
  assumes src: "jinv src" "heldAt src s h v0 n0" and E: "jenv_ok (seJoin S)"
    and "jm_inv m" "n = length (jcontents src h) - i"
  shows "(\<exists>m'. merge_list S src s h i n m = (m', Inr None) \<and> jm_inv m'
            \<and> jm_contents m' = add_rows (jm_contents m) (drop i (recs src h)))
    \<or> (\<exists>m' j. merge_list S src s h i n m = (m', Inr (Some j)) \<and> i \<le> j \<and> j < length (recs src h)
            \<and> stopped_at S (jm_contents m) (take (j - i) (drop i (recs src h))) (recs src h ! j) m')"
  using assms(4,5)
proof (induction n arbitrary: i m)
  case 0
  then show ?case by simp
next
  case (Suc n)
  define w where "w = jcontents src h ! i"
  have i: "i < length (jcontents src h)" "n = length (jcontents src h) - Suc i" using Suc.prems(2) by auto
  have jh: "jhash h = h" using held_not_UNUSED[OF src] by simp
  have dr: "drop i (recs src h) = (h, w) # drop (Suc i) (recs src h)"
    using i(1) by (simp add: Cons_nth_drop_Suc[symmetric] recs_nth w_def)
  have get: "rl_get src s i = Inr w" using rl_spec(3)[OF src i(1)] by (simp add: w_def)
  have nth: "recs src h ! i = (h, w)" using i(1) by (simp add: recs_nth w_def)
  from jm_push_spec[OF Suc.prems(1) E, of h] show ?case
  proof (elim disjE exE conjE)
    fix m' assume p: "jm_push (seJoin S) m h = (m', Inl NotEnoughSpace)" "jm_inv m'" "jm_contents m' = jm_contents m"
    then have "merge_list S src s h i (Suc n) m = (m', Inr (Some i))" by simp
    then show ?thesis using p i(1) by (auto simp: stopped_at_def)
  next
    fix m' r assume p: "jm_push (seJoin S) m h = (m', Inr r)" "jm_pushed m h (jFresh (seJoin S)) m' r"
    have st: "jm_inv (jm_store m' r x)" "jm_contents (jm_store m' r x) = add_rows (jm_contents m) [(h, x)]" for x
      using p(2) by (simp_all add: jm_pushed_def add_rows_one)
    show ?thesis
    proof (cases "packRoom S m' w")
      case False
      then have "merge_list S src s h i (Suc n) m = (jm_store m' r (packPart S w), Inr (Some i))"
        using p(1) get by simp
      moreover have "stopped_at S (jm_contents m) [] (recs src h ! i) (jm_store m' r (packPart S w))"
        using st nth by (simp add: stopped_at_def)
      ultimately show ?thesis using i(1) by auto
    next
      case True
      then have e: "merge_list S src s h i (Suc n) m = merge_list S src s h (Suc i) n (jm_store m' r w)"
        using p(1) get by simp
      have ac: "add_rows (jm_contents m) ((h, w) # qs) = add_rows (jm_contents (jm_store m' r w)) qs" for qs
        by (subst add_rows_Cons) (simp add: st(2))
      from Suc.IH[OF st(1) i(2), of w] show ?thesis
      proof (elim disjE exE conjE)
        fix m2 assume a: "merge_list S src s h (Suc i) n (jm_store m' r w) = (m2, Inr None)" "jm_inv m2"
          "jm_contents m2 = add_rows (jm_contents (jm_store m' r w)) (drop (Suc i) (recs src h))"
        have "jm_contents m2 = add_rows (jm_contents m) (drop i (recs src h))"
          unfolding dr ac by (rule a(3))
        then show ?thesis unfolding e using a by blast
      next
        fix m2 j assume a: "merge_list S src s h (Suc i) n (jm_store m' r w) = (m2, Inr (Some j))" "Suc i \<le> j"
          "j < length (recs src h)"
          "stopped_at S (jm_contents (jm_store m' r w)) (take (j - Suc i) (drop (Suc i) (recs src h))) (recs src h ! j) m2"
        have ji: "j - i = Suc (j - Suc i)" using a(2) by simp
        have "stopped_at S (jm_contents m) (take (j - i) (drop i (recs src h))) (recs src h ! j) m2"
          using a(4) unfolding stopped_at_def dr ji take_Suc_Cons append_Cons ac .
        then show ?thesis unfolding e using a by auto
      qed
    qed
  qed
qed

text \<open>The loop over the lists, for any loop over one list that adds its records or stops at one.\<close>

definition adds_list :: "(nat \<Rightarrow> nat \<Rightarrow> nat \<Rightarrow> nat \<Rightarrow> 'v jmap \<Rightarrow> 'v jmap \<times> (nat option) outcome)
    \<Rightarrow> ((nat \<Rightarrow> 'v list) \<Rightarrow> (nat \<times> 'v) list \<Rightarrow> nat \<times> 'v \<Rightarrow> 'v jmap \<Rightarrow> bool) \<Rightarrow> 'v jarray \<Rightarrow> bool" where
  "adds_list f Q src \<longleftrightarrow>
     (\<forall>s h v n i m. heldAt src s h v n \<longrightarrow> jm_inv m \<longrightarrow>
        (\<exists>m'. f s h i (length (jcontents src h) - i) m = (m', Inr None) \<and> jm_inv m'
              \<and> jm_contents m' = add_rows (jm_contents m) (drop i (recs src h)))
        \<or> (\<exists>m' j. f s h i (length (jcontents src h) - i) m = (m', Inr (Some j)) \<and> i \<le> j
              \<and> j < length (recs src h)
              \<and> Q (jm_contents m) (take (j - i) (drop i (recs src h))) (recs src h ! j) m'))
     \<and> (\<forall>c rows0 rows r m. Q (add_rows c rows0) rows r m \<longrightarrow> Q c (rows0 @ rows) r m)"

lemma lists_loop_cases:
  assumes src: "jinv src" and f: "adds_list f Q src"
    and "list_all2 (\<lambda>s h. \<exists>v n. heldAt src s h v n) ss hs" "jm_inv m" "c \<le> start \<or> li = 0"
  shows "(\<exists>li' keys' m'. lists_loop f src ss c start li keys m = (li', keys', m', Inr None) \<and> jm_inv m'
            \<and> li' = (if length hs \<le> start - c then li else 0)
            \<and> jm_contents m' = add_rows (jm_contents m) (rem_records src hs (start - c) li))
    \<or> (\<exists>li' keys' m' p i rows. lists_loop f src ss c start li keys m = (li', keys', m', Inr (Some (p, i)))
            \<and> c \<le> p
            \<and> rem_records src hs (start - c) li = rows @ rem_records src hs (p - c) i
            \<and> rem_records src hs (p - c) i \<noteq> []
            \<and> Q (jm_contents m) rows (hd (rem_records src hs (p - c) i)) m')"
  using assms(3-5)
proof (induction ss arbitrary: hs c li keys m)
  case Nil
  then show ?case by simp
next
  case (Cons s ss)
  obtain h hs1 v0 n0 where hs: "hs = h # hs1" "heldAt src s h v0 n0" "list_all2 (\<lambda>s h. \<exists>v n. heldAt src s h v n) ss hs1"
    using Cons.prems(1) by (auto simp: list_all2_Cons1)
  note rl = rl_spec[OF src hs(2)]
  have pos: "0 < length (jcontents src h)" using jcontents_held[OF src hs(2)] by (simp add: record_list_def)
  show ?case
  proof (cases "c < start")
    case True
    define k where "k = start - c - 1"
    have k: "start - c = Suc k" "start - (c + 1) = k" using True by (auto simp: k_def)
    have e: "lists_loop f src (s # ss) c start li keys m = lists_loop f src ss (c + 1) start li keys m" using True by simp
    have "c + 1 \<le> start \<or> li = 0" using True by simp
    from Cons.IH[OF hs(3) Cons.prems(2) this, of keys] show ?thesis
    proof (elim disjE exE conjE)
      fix li' keys' m' assume "lists_loop f src ss (c + 1) start li keys m = (li', keys', m', Inr None)" "jm_inv m'"
        "li' = (if length hs1 \<le> start - (c + 1) then li else 0)"
        "jm_contents m' = add_rows (jm_contents m) (rem_records src hs1 (start - (c + 1)) li)"
      then show ?thesis unfolding e hs(1) k by simp
    next
      fix li' keys' m' p i rows assume a: "lists_loop f src ss (c + 1) start li keys m = (li', keys', m', Inr (Some (p, i)))"
        "c + 1 \<le> p" "rem_records src hs1 (start - (c + 1)) li = rows @ rem_records src hs1 (p - (c + 1)) i"
        "rem_records src hs1 (p - (c + 1)) i \<noteq> []"
        "Q (jm_contents m) rows (hd (rem_records src hs1 (p - (c + 1)) i)) m'"
      define q where "q = p - (c + 1)"
      have q: "p - c = Suc q" "p - (c + 1) = q" using a(2) by (auto simp: q_def)
      show ?thesis unfolding e hs(1) k
        using a k q by (intro disjI2 exI[of _ li'] exI[of _ keys'] exI[of _ m'] exI[of _ p] exI[of _ i] exI[of _ rows]) simp
    qed
  next
    case False
    then have z: "start - c = 0" "start - (c + 1) = 0" by simp_all
    have e: "lists_loop f src (s # ss) c start li keys m =
       (case f s h li (length (jcontents src h) - li) m of
          (m', Inl e) \<Rightarrow> (li, keys + 1, m', Inl e)
        | (m', Inr (Some i)) \<Rightarrow> (li, keys + 1, m', Inr (Some (c, i)))
        | (m', Inr None) \<Rightarrow> lists_loop f src ss (c + 1) start 0 (keys + 1) m')"
      using False pos rl(1,2) by (simp split: prod.split sum.split option.split)
    have one: "(\<exists>m'. f s h li (length (jcontents src h) - li) m = (m', Inr None) \<and> jm_inv m'
              \<and> jm_contents m' = add_rows (jm_contents m) (drop li (recs src h)))
        \<or> (\<exists>m' j. f s h li (length (jcontents src h) - li) m = (m', Inr (Some j)) \<and> li \<le> j
              \<and> j < length (recs src h)
              \<and> Q (jm_contents m) (take (j - li) (drop li (recs src h))) (recs src h ! j) m')"
      using f hs(2) Cons.prems(2) unfolding adds_list_def by blast
    have rr: "rem_records src hs (start - c) li = drop li (recs src h) @ rem_records src hs1 0 0"
      unfolding z hs(1) by simp
    from one show ?thesis
    proof (elim disjE exE conjE)
      fix m' j assume a: "f s h li (length (jcontents src h) - li) m = (m', Inr (Some j))" "li \<le> j"
        "j < length (recs src h)" "Q (jm_contents m) (take (j - li) (drop li (recs src h))) (recs src h ! j) m'"
      have d: "drop li (recs src h) = take (j - li) (drop li (recs src h)) @ drop j (recs src h)"
        using a(2) by (metis append_take_drop_id drop_drop le_add_diff_inverse2)
      have hd: "drop j (recs src h) \<noteq> []" "hd (drop j (recs src h)) = recs src h ! j"
        using a(3) by (simp_all add: hd_drop_conv_nth)
      have "lists_loop f src (s # ss) c start li keys m = (li, keys + 1, m', Inr (Some (c, j)))"
        unfolding e a(1) by simp
      moreover have "rem_records src hs (start - c) li
          = take (j - li) (drop li (recs src h)) @ rem_records src hs (c - c) j"
        unfolding z hs(1) using d by simp
      moreover have "hd (rem_records src hs (c - c) j) = recs src h ! j" "rem_records src hs (c - c) j \<noteq> []"
        unfolding hs(1) using hd by simp_all
      ultimately show ?thesis using a(4)
        by (intro disjI2 exI[of _ li] exI[of _ "keys + 1"] exI[of _ m'] exI[of _ c] exI[of _ j]
            exI[of _ "take (j - li) (drop li (recs src h))"]) (simp del: rem_records_simps)
    next
      fix m1 assume a: "f s h li (length (jcontents src h) - li) m = (m1, Inr None)"
        "jm_inv m1" "jm_contents m1 = add_rows (jm_contents m) (drop li (recs src h))"
      have e1: "lists_loop f src (s # ss) c start li keys m = lists_loop f src ss (c + 1) start 0 (keys + 1) m1"
        unfolding e a(1) by simp
      have "c + 1 \<le> start \<or> (0::nat) = 0" by simp
      from Cons.IH[OF hs(3) a(2) this, of "keys + 1"] show ?thesis
      proof (elim disjE exE conjE)
        fix li' keys' m' assume b: "lists_loop f src ss (c + 1) start 0 (keys + 1) m1 = (li', keys', m', Inr None)"
          "jm_inv m'" "li' = (if length hs1 \<le> start - (c + 1) then 0 else 0)"
          "jm_contents m' = add_rows (jm_contents m1) (rem_records src hs1 (start - (c + 1)) 0)"
        have "jm_contents m' = add_rows (jm_contents m) (rem_records src hs (start - c) li)"
          unfolding rr add_rows_append a(3)[symmetric] using b(4) z by simp
        then show ?thesis unfolding e1 using b z hs(1) by simp
      next
        fix li' keys' m' p i rows assume b: "lists_loop f src ss (c + 1) start 0 (keys + 1) m1 = (li', keys', m', Inr (Some (p, i)))"
          "c + 1 \<le> p" "rem_records src hs1 (start - (c + 1)) 0 = rows @ rem_records src hs1 (p - (c + 1)) i"
          "rem_records src hs1 (p - (c + 1)) i \<noteq> []"
          "Q (jm_contents m1) rows (hd (rem_records src hs1 (p - (c + 1)) i)) m'"
        define q where "q = p - (c + 1)"
        have q: "p - c = Suc q" "p - (c + 1) = q" using b(2) by (auto simp: q_def)
        have s: "Q (jm_contents m) (drop li (recs src h) @ rows) (hd (rem_records src hs1 q i)) m'"
          using b(5) f unfolding adds_list_def a(3) q by blast
        have "rem_records src hs1 0 0 = rows @ rem_records src hs1 q i" using b(3) z q by simp
        then show ?thesis unfolding e1 rr q using b(1,2,4) s q hs(1)
          by (intro disjI2 exI[of _ li'] exI[of _ keys'] exI[of _ m'] exI[of _ p] exI[of _ i]
              exI[of _ "drop li (recs src h) @ rows"]) simp
      qed
    qed
  qed
qed

lemma stopped_at_compose: "stopped_at S (add_rows c rows0) rows r m \<Longrightarrow> stopped_at S c (rows0 @ rows) r m"
  by (simp add: stopped_at_def add_rows_append)

lemma merge_list_adds: "jinv src \<Longrightarrow> jenv_ok (seJoin S) \<Longrightarrow> adds_list (merge_list S src) (stopped_at S) src"
  unfolding adds_list_def
  by (intro conjI allI impI merge_list_cases) (simp_all add: stopped_at_compose)

text \<open>The shuffler stops like a sink: nothing of the record that did not fit is left, unless its push
  threw under a hash that is present.\<close>

definition shuffle_stop :: "'v sinkenv \<Rightarrow> (nat \<Rightarrow> 'v list) \<Rightarrow> (nat \<times> 'v) list \<Rightarrow> nat \<times> 'v \<Rightarrow> 'v jmap \<Rightarrow> bool" where
  "shuffle_stop S c rows r m' \<longleftrightarrow>
     (\<exists>mi. jm_inv mi \<and> jm_contents mi = add_rows c rows
        \<and> (jm_inv m' \<and> jm_contents m' = jm_contents mi \<or> row_lost S mi (fst r) m'))"

lemma shuffle_list_cases:
  assumes src: "jinv src" "heldAt src s h v0 n0" and E: "jenv_ok (seJoin S)"
    and "jm_inv m" "n = length (jcontents src h) - i"
  shows "(\<exists>m'. shuffle_list S src s h i n m = (m', Inr None) \<and> jm_inv m'
            \<and> jm_contents m' = add_rows (jm_contents m) (drop i (recs src h)))
    \<or> (\<exists>m' j. shuffle_list S src s h i n m = (m', Inr (Some j)) \<and> i \<le> j \<and> j < length (recs src h)
            \<and> shuffle_stop S (jm_contents m) (take (j - i) (drop i (recs src h))) (recs src h ! j) m')"
  using assms(4,5)
proof (induction n arbitrary: i m)
  case 0
  then show ?case by simp
next
  case (Suc n)
  define w where "w = jcontents src h ! i"
  have i: "i < length (jcontents src h)" "n = length (jcontents src h) - Suc i" using Suc.prems(2) by auto
  have dr: "drop i (recs src h) = (h, w) # drop (Suc i) (recs src h)"
    using i(1) by (simp add: Cons_nth_drop_Suc[symmetric] recs_nth w_def)
  have get: "rl_get src s i = Inr w" using rl_spec(3)[OF src i(1)] by (simp add: w_def)
  have nth: "recs src h ! i = (h, w)" using i(1) by (simp add: recs_nth w_def)
  show ?case
  proof (cases rule: sink_row_cases[OF Suc.prems(1) E, of h w])
    case (1 m')
    have e: "shuffle_list S src s h i (Suc n) m = shuffle_list S src s h (Suc i) n m'" using 1(1) get by simp
    have ac: "add_rows (jm_contents m) ((h, w) # qs) = add_rows (jm_contents m') qs" for qs
      by (subst add_rows_Cons) (simp add: 1(3))
    from Suc.IH[OF 1(2) i(2)] show ?thesis
    proof (elim disjE exE conjE)
      fix m2 assume a: "shuffle_list S src s h (Suc i) n m' = (m2, Inr None)" "jm_inv m2"
        "jm_contents m2 = add_rows (jm_contents m') (drop (Suc i) (recs src h))"
      have "jm_contents m2 = add_rows (jm_contents m) (drop i (recs src h))" unfolding dr ac by (rule a(3))
      then show ?thesis unfolding e using a by blast
    next
      fix m2 j assume a: "shuffle_list S src s h (Suc i) n m' = (m2, Inr (Some j))" "Suc i \<le> j"
        "j < length (recs src h)"
        "shuffle_stop S (jm_contents m') (take (j - Suc i) (drop (Suc i) (recs src h))) (recs src h ! j) m2"
      have ji: "j - i = Suc (j - Suc i)" using a(2) by simp
      have "shuffle_stop S (jm_contents m) (take (j - i) (drop i (recs src h))) (recs src h ! j) m2"
        using a(4) unfolding shuffle_stop_def dr ji take_Suc_Cons ac .
      then show ?thesis unfolding e using a by auto
    qed
  next
    case (2 m')
    then have "shuffle_list S src s h i (Suc n) m = (m', Inr (Some i))" using get by simp
    moreover have "shuffle_stop S (jm_contents m) [] (recs src h ! i) m'"
      unfolding shuffle_stop_def using 2(2,3) by auto
    ultimately show ?thesis using i(1) by auto
  next
    case (3 m')
    then have "shuffle_list S src s h i (Suc n) m = (m', Inr (Some i))" using get by simp
    moreover have "shuffle_stop S (jm_contents m) [] (recs src h ! i) m'"
      unfolding shuffle_stop_def nth using Suc.prems(1) 3(2) by auto
    ultimately show ?thesis using i(1) by auto
  qed
qed

lemma shuffle_list_adds: "jinv src \<Longrightarrow> jenv_ok (seJoin S) \<Longrightarrow> adds_list (shuffle_list S src) (shuffle_stop S) src"
proof -
  assume a: "jinv src" "jenv_ok (seJoin S)"
  have "shuffle_stop S (add_rows c rows0) rows r m \<Longrightarrow> shuffle_stop S c (rows0 @ rows) r m" for c rows0 rows r m
    by (simp add: shuffle_stop_def add_rows_append)
  then show ?thesis unfolding adds_list_def
    by (intro conjI allI impI shuffle_list_cases[OF a(1) _ a(2)]) simp_all
qed

text \<open>Adding all records of a table appends its lists.\<close>

lemma filter_one: "distinct xs \<Longrightarrow> x \<in> set xs \<Longrightarrow> filter (\<lambda>g. g = x) xs = [x]"
  by (induction xs) (auto simp: filter_empty_conv)

lemma filter_recs:
  assumes "\<forall>g \<in> set hs. jhash g = g"
  shows "map snd (filter (\<lambda>r. jhash (fst r) = h) (concat (map (recs src) hs)))
    = concat (map (jcontents src) (filter (\<lambda>g. g = h) hs))"
  using assms
proof (induction hs)
  case (Cons g hs)
  have "filter (\<lambda>r. jhash (fst r) = h) (recs src g) = (if g = h then recs src g else [])"
    using Cons.prems by (auto simp: recs_def filter_map comp_def)
  moreover have "map snd (recs src k) = jcontents src k" for k by (simp add: recs_def comp_def)
  ultimately show ?case using Cons by simp
qed simp

lemma add_all_records:
  assumes "jinv src"
  shows "add_rows c (all_records src) h = c h @ jcontents src h"
proof -
  have j: "\<forall>g \<in> set (ji_hashes src). jhash g = g"
  proof
    fix g assume "g \<in> set (ji_hashes src)"
    then obtain s v n where "heldAt src s g v n" using ji_order_set[OF assms] by (force simp: ji_hashes_def)
    then show "jhash g = g" using held_not_UNUSED[OF assms] by simp
  qed
  have d: "distinct (ji_hashes src)" using ji_order_sorted(2)[OF assms] by (simp add: ji_hashes_def)
  have "concat (map (jcontents src) (filter (\<lambda>g. g = h) (ji_hashes src))) = jcontents src h"
  proof (cases "h \<in> set (ji_hashes src)")
    case True
    then show ?thesis using filter_one[OF d] by simp
  next
    case False
    then have "filter (\<lambda>g. g = h) (ji_hashes src) = []" by (auto simp: filter_empty_conv)
    then show ?thesis using False ji_hashes_set[OF assms] by simp
  qed
  then show ?thesis unfolding add_rows_def filter_recs[OF j] by simp
qed

end
