(* ===== verification/TupleSets.thy ===== *)
theory TupleSets
  imports PdbVector "HOL-Library.AList"
begin

text \<open>
  Tuple sets: \<open>TupleSet\<close> (\<open>src/src/lambdas/headers/TupleSet.h\<close>), the machine that sets up an output
  tuple set from an input (\<open>TupleSetMachine.h\<close>), and the executors \<open>FilterExecutor.h\<close>,
  \<open>HashOneExecutor.h\<close> and that of a lambda with one parameter (\<open>CPlusPlusLambda.h\<close>,
  \<open>SimpleComputeExecutor.h\<close>).

  A tuple set maps positions to columns. A column is a \<open>std::vector\<close> that is reached through a
  \<open>void *\<close>; an entry has its address and whether the tuple set must delete it. Copies from one tuple
  set to another are shallow, so several entries share a column and an entry can outlive it. The heap
  holds the columns by address. The cells of the types that are used are \<open>Handle<Object>\<close> (\<open>Obj\<close>,
  \<open>None\<close> being null), \<open>size_t\<close> and \<open>bool\<close>; a column knows the default value of its type. Using a
  deleted column, or a cell as the wrong type, is \<open>WildAccess\<close>.
\<close>

section \<open>Columns\<close>

datatype 'o cell = Obj "'o option" | Num nat | Flag bool

record 'o column =
  cDefault :: "'o cell"
  cCells :: "'o cell list"

type_synonym tset = "(nat \<times> nat \<times> bool) list"

record 'o heap =
  hpCols :: "nat \<Rightarrow> 'o column option"
  hpNext :: nat
  hpSets :: "nat \<Rightarrow> tset"

definition new_column :: "'o column \<Rightarrow> 'o heap \<Rightarrow> 'o heap \<times> nat" where
  "new_column c h = (h\<lparr>hpCols := (hpCols h)(hpNext h := Some c), hpNext := Suc (hpNext h)\<rparr>, hpNext h)"

definition delete_column :: "nat \<Rightarrow> 'o heap \<Rightarrow> 'o heap outcome" where
  "delete_column a h =
     (if hpCols h a = None then Inl WildAccess else Inr (h\<lparr>hpCols := (hpCols h)(a := None)\<rparr>))"

definition read_column :: "nat \<Rightarrow> 'o heap \<Rightarrow> 'o column outcome" where
  "read_column a h = (case hpCols h a of None \<Rightarrow> Inl WildAccess | Some c \<Rightarrow> Inr c)"

definition set_cells :: "nat \<Rightarrow> 'o cell list \<Rightarrow> 'o heap \<Rightarrow> 'o heap outcome" where
  "set_cells a xs h =
     (case hpCols h a of
        None \<Rightarrow> Inl WildAccess
      | Some c \<Rightarrow> Inr (h\<lparr>hpCols := (hpCols h)(a := Some (c\<lparr>cCells := xs\<rparr>))\<rparr>))"

definition resize_cells :: "'o cell \<Rightarrow> nat \<Rightarrow> 'o cell list \<Rightarrow> 'o cell list" where
  "resize_cells d n xs = take n xs @ replicate (n - length xs) d"

fun as_flags :: "'o cell list \<Rightarrow> bool list outcome" where
  "as_flags [] = Inr []"
| "as_flags (Flag b # xs) = andThen (as_flags xs) (\<lambda>bs. Inr (b # bs))"
| "as_flags (_ # xs) = Inl WildAccess"

text \<open>The filter function a column carries: as many cells as there are set flags, filled with the
  cells whose flag is set.\<close>

fun filter_loop :: "'o cell list \<Rightarrow> bool list \<Rightarrow> 'o cell list outcome" where
  "filter_loop [] flags = Inr []"
| "filter_loop (x # xs) [] = Inl WildAccess"
| "filter_loop (x # xs) (b # bs) = andThen (filter_loop xs bs) (\<lambda>ys. Inr (if b then x # ys else ys))"

definition filter_cells :: "'o column \<Rightarrow> bool list \<Rightarrow> 'o column outcome" where
  "filter_cells c flags =
     andThen (filter_loop (cCells c) flags)
       (\<lambda>ys. Inr (c\<lparr>cCells := resize_cells (cDefault c) (length (filter id flags)) ys\<rparr>))"

text \<open>The column function \<open>replicate\<close>: cell \<open>i\<close> is copied \<open>timesToReplicate[i]\<close> times.\<close>

fun replicate_loop :: "'a list \<Rightarrow> nat list \<Rightarrow> nat \<Rightarrow> nat \<Rightarrow> 'a list outcome" where
  "replicate_loop xs reps i 0 = Inr []"
| "replicate_loop xs reps i (Suc n) =
     (if reps ! i = 0 then replicate_loop xs reps (Suc i) n
      else if i < length xs then
        andThen (replicate_loop xs reps (Suc i) n) (\<lambda>ys. Inr (replicate (reps ! i) (xs ! i) @ ys))
      else Inl WildAccess)"

definition replicate_column :: "'a list \<Rightarrow> nat list \<Rightarrow> 'a list outcome" where
  "replicate_column xs reps = replicate_loop xs reps 0 (length reps)"

section \<open>Tuple sets\<close>

definition ts_put :: "nat \<Rightarrow> nat \<Rightarrow> nat \<times> bool \<Rightarrow> 'o heap \<Rightarrow> 'o heap" where
  "ts_put t i e h = h\<lparr>hpSets := (hpSets h)(t := AList.update i e (hpSets h t))\<rparr>"

definition ts_at :: "nat \<Rightarrow> nat \<Rightarrow> 'o heap \<Rightarrow> (nat \<times> bool) option" where
  "ts_at t i h = map_of (hpSets h t) i"

definition hasColumn :: "nat \<Rightarrow> nat \<Rightarrow> 'o heap \<Rightarrow> bool" where
  "hasColumn t i h \<longleftrightarrow> ts_at t i h \<noteq> None"

definition getNumColumns :: "nat \<Rightarrow> 'o heap \<Rightarrow> nat" where
  "getNumColumns t h = length (hpSets h t)"

definition getColumn :: "nat \<Rightarrow> nat \<Rightarrow> 'o heap \<Rightarrow> nat outcome" where
  "getColumn t i h = (case ts_at t i h of None \<Rightarrow> Inl (FatalExit 1) | Some (a, d) \<Rightarrow> Inr a)"

definition getNumRows :: "nat \<Rightarrow> nat \<Rightarrow> 'o heap \<Rightarrow> int outcome" where
  "getNumRows t i h =
     (case ts_at t i h of
        None \<Rightarrow> Inr (-1)
      | Some (a, d) \<Rightarrow> andThen (read_column a h) (\<lambda>c. Inr (int (length (cCells c)))))"

text \<open>An entry that is replaced has its column deleted if the tuple set must delete it.\<close>

definition drop_entry :: "nat \<Rightarrow> nat \<Rightarrow> 'o heap \<Rightarrow> 'o heap outcome" where
  "drop_entry t i h =
     (case ts_at t i h of
        None \<Rightarrow> Inr h
      | Some (a, d) \<Rightarrow> if d then delete_column a h else Inr h)"

definition addColumn :: "nat \<Rightarrow> nat \<Rightarrow> nat \<Rightarrow> bool \<Rightarrow> 'o heap \<Rightarrow> 'o heap outcome" where
  "addColumn t i a needToDelete h = andThen (drop_entry t i h) (\<lambda>h. Inr (ts_put t i (a, needToDelete) h))"

text \<open>\<open>usingMe\<close> is the column of flags, by reference.\<close>

definition filterColumn :: "nat \<Rightarrow> nat \<Rightarrow> nat \<Rightarrow> 'o heap \<Rightarrow> 'o heap outcome" where
  "filterColumn t i usingMe h =
     (case ts_at t i h of
        None \<Rightarrow> Inr h
      | Some (a, d) \<Rightarrow>
          andThen (read_column a h) (\<lambda>c.
          andThen (read_column usingMe h) (\<lambda>f.
          andThen (as_flags (cCells f)) (\<lambda>flags.
          andThen (filter_cells c flags) (\<lambda>c'.
            (case new_column c' h of
               (h1, a') \<Rightarrow>
                 andThen (if d then delete_column a h1 else Inr h1) (\<lambda>h2. Inr (ts_put t i (a', True) h2))))))))"

text \<open>A shallow copy. Reading a position the source does not have makes an entry with a null column
  there, which the next use dereferences.\<close>

definition copyColumn :: "nat \<Rightarrow> nat \<Rightarrow> nat \<Rightarrow> nat \<Rightarrow> 'o heap \<Rightarrow> 'o heap outcome" where
  "copyColumn from i t j h =
     andThen (drop_entry t j h) (\<lambda>h1.
       (case ts_at from i h1 of
          None \<Rightarrow> Inl NullDeref
        | Some (a, d) \<Rightarrow> Inr (ts_put t j (a, False) h1)))"

text \<open>\<open>TupleSet::replicate\<close> deletes the old column before it reads the one to replicate.\<close>

definition replicateColumn :: "nat \<Rightarrow> nat \<Rightarrow> nat \<Rightarrow> nat list \<Rightarrow> nat \<Rightarrow> 'o heap \<Rightarrow> 'o heap outcome" where
  "replicateColumn from i j reps t h =
     andThen (drop_entry t j h) (\<lambda>h1.
       (case ts_at from i h1 of
          None \<Rightarrow> Inl NullDeref
        | Some (a, d) \<Rightarrow>
            andThen (read_column a h1) (\<lambda>c.
            andThen (replicate_column (cCells c) reps) (\<lambda>xs.
              (case new_column (c\<lparr>cCells := xs\<rparr>) h1 of
                 (h2, a') \<Rightarrow> Inr (ts_put t j (a', True) h2))))))"

fun delete_all :: "tset \<Rightarrow> 'o heap \<Rightarrow> 'o heap outcome" where
  "delete_all [] h = Inr h"
| "delete_all ((i, a, d) # es) h = andThen (if d then delete_column a h else Inr h) (delete_all es)"

definition ts_destroy :: "nat \<Rightarrow> 'o heap \<Rightarrow> 'o heap outcome" where
  "ts_destroy t h = andThen (delete_all (hpSets h t) h) (\<lambda>h'. Inr (h'\<lparr>hpSets := (hpSets h')(t := [])\<rparr>))"

section \<open>The setup machine\<close>

text \<open>\<open>match\<close>: the position in the input schema of each attribute; one that is missing is only reported.\<close>

fun att_position :: "string list \<Rightarrow> string \<Rightarrow> nat \<Rightarrow> nat option" where
  "att_position [] s counter = None"
| "att_position (t # ts) s counter = (if s = t then Some counter else att_position ts s (counter + 1))"

definition ts_match :: "string list \<Rightarrow> string list \<Rightarrow> nat list" where
  "ts_match inputSchema attsToMatch = List.map_filter (\<lambda>s. att_position inputSchema s 0) attsToMatch"

fun setup_loop :: "nat \<Rightarrow> nat \<Rightarrow> nat list \<Rightarrow> nat \<Rightarrow> 'o heap \<Rightarrow> 'o heap outcome" where
  "setup_loop input out [] counter h = Inr h"
| "setup_loop input out (i # is) counter h =
     andThen (copyColumn input i out counter h) (setup_loop input out is (counter + 1))"

definition ts_setup :: "nat \<Rightarrow> nat \<Rightarrow> nat list \<Rightarrow> 'o heap \<Rightarrow> 'o heap outcome" where
  "ts_setup input out matches h = setup_loop input out matches 0 h"

fun machine_replicate :: "nat \<Rightarrow> nat \<Rightarrow> nat list \<Rightarrow> nat list \<Rightarrow> nat \<Rightarrow> 'o heap \<Rightarrow> 'o heap outcome" where
  "machine_replicate input out [] counts offset h = Inr h"
| "machine_replicate input out (i # is) counts offset h =
     andThen (replicateColumn input i offset counts out h) (machine_replicate input out is counts (offset + 1))"

section \<open>Executors\<close>

text \<open>What the constructors of the executors compute: the tuple set they return, the positions to copy,
  the position to work on and that of a new column.\<close>

record exec_io =
  xOut :: nat
  xMatches :: "nat list"
  xAtt :: nat
  xOutAtt :: nat

definition exec_new :: "nat \<Rightarrow> string list \<Rightarrow> string list \<Rightarrow> string list \<Rightarrow> exec_io outcome" where
  "exec_new out inputSchema attsToOperateOn attsToInclude =
     (case ts_match inputSchema attsToOperateOn of
        [] \<Rightarrow> Inl WildAccess
      | a # as \<Rightarrow>
          Inr \<lparr>xOut = out, xMatches = ts_match inputSchema attsToInclude, xAtt = a, xOutAtt = length attsToInclude\<rparr>)"

fun filter_all :: "nat \<Rightarrow> nat \<Rightarrow> nat \<Rightarrow> nat \<Rightarrow> 'o heap \<Rightarrow> 'o heap outcome" where
  "filter_all out usingMe i 0 h = Inr h"
| "filter_all out usingMe i (Suc n) h =
     andThen (filterColumn out i usingMe h) (filter_all out usingMe (Suc i) n)"

definition filter_process :: "exec_io \<Rightarrow> nat \<Rightarrow> 'o heap \<Rightarrow> 'o heap outcome" where
  "filter_process X input h =
     andThen (ts_setup input (xOut X) (xMatches X) h) (\<lambda>h1.
     andThen (getColumn input (xAtt X) h1) (\<lambda>f.
       filter_all (xOut X) f 0 (getNumColumns (xOut X) h1) h1))"

text \<open>The output column is made when it is not there.\<close>

definition ensure_column :: "nat \<Rightarrow> nat \<Rightarrow> 'o cell \<Rightarrow> 'o heap \<Rightarrow> 'o heap outcome" where
  "ensure_column t i d h =
     (if hasColumn t i h then Inr h
      else (case new_column \<lparr>cDefault = d, cCells = []\<rparr> h of (h1, a) \<Rightarrow> addColumn t i a True h1))"

text \<open>\<open>HashOneExecutor\<close> counts the rows of position \<open>whichAtt\<close> of the output; a negative number makes
  \<open>resize\<close> throw.\<close>

definition hashOne_process :: "exec_io \<Rightarrow> nat \<Rightarrow> 'o heap \<Rightarrow> 'o heap outcome" where
  "hashOne_process X input h =
     andThen (ts_setup input (xOut X) (xMatches X) h) (\<lambda>h1.
     andThen (ensure_column (xOut X) (xOutAtt X) (Num 0) h1) (\<lambda>h2.
     andThen (getColumn (xOut X) (xOutAtt X) h2) (\<lambda>a.
     andThen (getNumRows (xOut X) (xAtt X) h2) (\<lambda>n.
       if n < 0 then Inl OutOfRange else set_cells a (replicate (nat n) (Num 1)) h2))))"

text \<open>The executor of a lambda of one parameter. \<open>func\<close> is the user's function; it runs in the current
  allocation block and can throw, which leaves the cells it has written.\<close>

fun lambda_loop :: "('o cell \<Rightarrow> 'o cell outcome) \<Rightarrow> 'o cell list \<Rightarrow> nat \<Rightarrow> nat \<Rightarrow> 'o cell list \<Rightarrow> 'o cell list \<times> unit outcome" where
  "lambda_loop func xs i 0 ys = (ys, Inr ())"
| "lambda_loop func xs i (Suc n) ys =
     (case func (xs ! i) of
        Inl e \<Rightarrow> (ys, Inl e)
      | Inr v \<Rightarrow> lambda_loop func xs (Suc i) n (ys[i := v]))"

definition lambda_process :: "('o cell \<Rightarrow> 'o cell outcome) \<Rightarrow> 'o cell \<Rightarrow> exec_io \<Rightarrow> nat \<Rightarrow> 'o heap \<Rightarrow> 'o heap \<times> unit outcome" where
  "lambda_process func d X input h =
     (case andThen (ts_setup input (xOut X) (xMatches X) h) (\<lambda>h1.
           andThen (getColumn input (xAtt X) h1) (\<lambda>inAtt.
           andThen (ensure_column (xOut X) (xOutAtt X) d h1) (\<lambda>h2.
           andThen (getColumn (xOut X) (xOutAtt X) h2) (\<lambda>out.
           andThen (read_column inAtt h2) (\<lambda>c.
           andThen (read_column out h2) (\<lambda>oc. Inr (h2, out, cCells c, oc))))))) of
        Inl e \<Rightarrow> (h, Inl e)
      | Inr (h2, out, xs, oc) \<Rightarrow>
          (case lambda_loop func xs 0 (length xs) (resize_cells (cDefault oc) (length xs) (cCells oc)) of
             (ys, r) \<Rightarrow>
               (case set_cells out ys h2 of Inl e \<Rightarrow> (h2, Inl e) | Inr h3 \<Rightarrow> (h3, r))))"

end
