(* ===== verification/JoinProbes.thy ===== *)
theory JoinProbes
  imports JoinSinks TupleSets
begin

text \<open>
  Probing the hash tables of joins: \<open>JoinProbe::process\<close> and \<open>PartitionedJoinProbe::process\<close>
  (\<open>src/src/lambdas/headers/JoinTuple.h\<close>), with the replication of the input columns
  (\<open>TupleSetSetupMachine::replicate\<close>, \<open>src/src/lambdas/headers/TupleSetMachine.h\<close>, and the
  \<open>replicate\<close> function every column carries, which is in \<open>TupleSets\<close>).

  The output columns that take the tuples of the hash table are one column of tuples here, as
  \<open>unpack\<close> writes all of them at the same position. They are kept from one call to the next.
  \<open>unpackRoom\<close> says whether \<open>unpack\<close> can allocate the new cell it makes when the column is too short.
\<close>

record probe_state =
  prCounts :: "nat list"

text \<open>\<open>copyTo\<close>: a position past the end is pushed at the end, an earlier one is overwritten.\<close>

definition column_put :: "('v list \<Rightarrow> bool) \<Rightarrow> 'v list \<Rightarrow> nat \<Rightarrow> 'v \<Rightarrow> 'v list outcome" where
  "column_put unpackRoom col pos v =
     (if length col \<le> pos then (if unpackRoom col then Inr (col @ [v]) else Inl NotEnoughSpace)
      else Inr (col[pos := v]))"

text \<open>The hits of one row: \<open>which\<close> counts up to \<open>numHits\<close>, \<open>n\<close> are left.\<close>

fun unpack_hits :: "('v list \<Rightarrow> bool) \<Rightarrow> 'v jarray \<Rightarrow> nat \<Rightarrow> nat \<Rightarrow> nat \<Rightarrow> 'v list \<Rightarrow> nat
    \<Rightarrow> ('v list \<times> nat) outcome" where
  "unpack_hits room a s which 0 col pos = Inr (col, pos)"
| "unpack_hits room a s which (Suc n) col pos =
     andThen (rl_get a s which)
       (\<lambda>v. andThen (column_put room col pos v)
         (\<lambda>col'. unpack_hits room a s (Suc which) n col' (pos + 1)))"

text \<open>One row: the count, then the record list; the list's size wins when they differ. The result has
  the number of hits, the column and the position of the next output row.\<close>

definition probe_row :: "('v list \<Rightarrow> bool) \<Rightarrow> 'v jmap \<Rightarrow> nat \<Rightarrow> 'v list \<Rightarrow> nat \<Rightarrow> (nat \<times> 'v list \<times> nat) outcome" where
  "probe_row room m h col pos =
     andThen (jm_count m h)
       (\<lambda>numHits. if 0 < numHits then
          andThen (jm_lookup m h) (\<lambda>s.
          andThen (rl_size (jmArray m) s) (\<lambda>cnt.
            let hits = (if numHits \<noteq> cnt then cnt else numHits) in
            andThen (unpack_hits room (jmArray m) s 0 hits col pos) (\<lambda>(col', pos'). Inr (hits, col', pos'))))
        else Inr (0, col, pos))"

text \<open>The loop over the rows; \<open>table\<close> selects the hash table of a row. \<open>counts[i]\<close> is assigned after
  the hits of row \<open>i\<close> have been unpacked.\<close>

fun probe_rows :: "('v list \<Rightarrow> bool) \<Rightarrow> (nat \<Rightarrow> 'v jmap outcome) \<Rightarrow> nat list \<Rightarrow> nat \<Rightarrow> nat \<Rightarrow> nat list \<Rightarrow> 'v list \<Rightarrow> nat
    \<Rightarrow> (nat list \<times> 'v list \<times> nat) outcome" where
  "probe_rows room table hs i 0 counts col pos = Inr (counts, col, pos)"
| "probe_rows room table hs i (Suc n) counts col pos =
     (if i < length hs \<and> i < length counts then
        andThen (table (hs ! i)) (\<lambda>m.
        andThen (probe_row room m (hs ! i) col pos) (\<lambda>(k, col', pos').
          probe_rows room table hs (Suc i) n (counts[i := k]) col' pos'))
      else Inl WildAccess)"

text \<open>\<open>counts.resize\<close> keeps a prefix and fills with zeros; \<open>eraseEnd\<close> resizes the columns.\<close>

definition resize_counts :: "nat list \<Rightarrow> nat \<Rightarrow> nat list" where
  "resize_counts counts n =
     (if length counts \<noteq> n then take n counts @ replicate (n - length counts) 0 else counts)"

text \<open>\<open>JoinProbe::process\<close>: \<open>att\<close> is one of the input's columns that go to the output. \<open>None\<close> is a
  null hash table, for which the result is a null tuple set.\<close>

definition probe_tables :: "('v list \<Rightarrow> bool) \<Rightarrow> (nat \<Rightarrow> 'v jmap outcome) \<Rightarrow> probe_state \<Rightarrow> 'v list \<Rightarrow> nat list \<Rightarrow> 'a list
    \<Rightarrow> (probe_state \<times> 'v list \<times> 'a list) outcome" where
  "probe_tables room table st col hs att =
     andThen (probe_rows room table hs 0 (length hs) (resize_counts (prCounts st) (length hs)) col 0)
       (\<lambda>(counts, col', pos).
          andThen (replicate_column att counts)
            (\<lambda>att'. Inr (\<lparr>prCounts = counts\<rparr>, take pos col', att')))"

definition join_probe :: "('v list \<Rightarrow> bool) \<Rightarrow> 'v jmap option \<Rightarrow> probe_state \<Rightarrow> 'v list \<Rightarrow> nat list \<Rightarrow> 'a list
    \<Rightarrow> (probe_state \<times> 'v list \<times> 'a list) option outcome" where
  "join_probe room input st col hs att =
     (case input of
        None \<Rightarrow> Inr None
      | Some m \<Rightarrow> andThen (probe_tables room (\<lambda>h. Inr m) st col hs att) (\<lambda>r. Inr (Some r)))"

text \<open>\<open>PartitionedJoinProbe::process\<close>: the table of a row is that of its partition on this node, or
  in a cross product the one of the thread.\<close>

definition probe_index :: "psink \<Rightarrow> nat \<Rightarrow> nat \<Rightarrow> nat outcome" where
  "probe_index P threadId h =
     (if psType P \<noteq> CrossProduct then
        (if psParts P * psNodes P = 0 then Inl DivByZero
         else Inr (h mod (psParts P * psNodes P) mod psParts P))
      else Inr threadId)"

definition probe_table :: "psink \<Rightarrow> nat \<Rightarrow> 'v jmap list \<Rightarrow> nat \<Rightarrow> 'v jmap outcome" where
  "probe_table P threadId tables h =
     andThen (probe_index P threadId h)
       (\<lambda>k. if k < length tables then Inr (tables ! k) else Inl WildAccess)"

definition partitioned_probe :: "('v list \<Rightarrow> bool) \<Rightarrow> psink \<Rightarrow> nat \<Rightarrow> 'v jmap list \<Rightarrow> probe_state \<Rightarrow> 'v list \<Rightarrow> nat list
    \<Rightarrow> 'a list \<Rightarrow> (probe_state \<times> 'v list \<times> 'a list) outcome" where
  "partitioned_probe room P threadId tables st col hs att =
     probe_tables room (probe_table P threadId tables) st col hs att"

section \<open>What a probe computes\<close>

lemma unpack_hits_spec:
  assumes "\<And>i. i < length vs \<Longrightarrow> rl_get a s i = Inr (vs ! i)" "which + n = length vs" "pos \<le> length col"
  shows "unpack_hits room a s which n col pos = Inl NotEnoughSpace
    \<or> (\<exists>col'. unpack_hits room a s which n col pos = Inr (col', pos + n) \<and> pos + n \<le> length col'
          \<and> take (pos + n) col' = take pos col @ drop which vs)"
  using assms(2,3)
proof (induction n arbitrary: which col pos)
  case 0
  then show ?case by simp
next
  case (Suc n)
  have w: "which < length vs" "Suc which + n = length vs" using Suc.prems(1) by auto
  note g = assms(1)[OF w(1)]
  have d: "drop which vs = vs ! which # drop (Suc which) vs" using w(1) by (simp add: Cons_nth_drop_Suc)
  show ?case
  proof (cases "column_put room col pos (vs ! which)")
    case (Inl e)
    then have "e = NotEnoughSpace" by (auto simp: column_put_def split: if_splits)
    then show ?thesis using Inl g by simp
  next
    case (Inr col1)
    have c1: "Suc pos \<le> length col1" "take (Suc pos) col1 = take pos col @ [vs ! which]"
      using Inr Suc.prems(2) by (auto simp: column_put_def split: if_splits)
    have e: "unpack_hits room a s which (Suc n) col pos = unpack_hits room a s (Suc which) n col1 (Suc pos)"
      using Inr g by simp
    from Suc.IH[OF w(2) c1(1)] show ?thesis unfolding e d using c1(2) by auto
  qed
qed

lemma probe_row_spec:
  assumes inv: "jm_inv m" and pos: "pos \<le> length col"
  shows "probe_row room m h col pos = Inl NotEnoughSpace
    \<or> (\<exists>col'. probe_row room m h col pos
             = Inr (length (jm_contents m (jhash h)), col', pos + length (jm_contents m (jhash h)))
          \<and> pos + length (jm_contents m (jhash h)) \<le> length col'
          \<and> take (pos + length (jm_contents m (jhash h))) col' = take pos col @ jm_contents m (jhash h))"
proof -
  have i: "jinv (jmArray m)" using inv by (simp add: jm_inv_def)
  let ?vs = "jcontents (jmArray m) (jhash h)"
  show ?thesis
  proof (cases "?vs = []")
    case True
    then show ?thesis using jm_count_spec[OF inv, of h] pos by (simp add: probe_row_def jm_contents_def)
  next
    case False
    obtain s where s: "ja_lookup (jmArray m) h = Inr s" "rl_size (jmArray m) s = Inr (length ?vs)"
      "\<And>i. i < length ?vs \<Longrightarrow> rl_get (jmArray m) s i = Inr (?vs ! i)"
      using ja_lookup_spec[OF i] by blast
    have e: "probe_row room m h col pos =
        andThen (unpack_hits room (jmArray m) s 0 (length ?vs) col pos) (\<lambda>(col', pos'). Inr (length ?vs, col', pos'))"
      using jm_count_spec[OF inv, of h] False s(1,2)
      by (simp add: probe_row_def jm_contents_def jm_lookup_def Let_def)
    have "unpack_hits room (jmArray m) s 0 (length ?vs) col pos = Inl NotEnoughSpace
      \<or> (\<exists>col'. unpack_hits room (jmArray m) s 0 (length ?vs) col pos = Inr (col', pos + length ?vs)
            \<and> pos + length ?vs \<le> length col' \<and> take (pos + length ?vs) col' = take pos col @ drop 0 ?vs)"
      by (rule unpack_hits_spec) (use s(3) pos in simp_all)
    then show ?thesis
      unfolding e jm_contents_def by (elim disjE exE conjE) simp_all
  qed
qed

lemma probe_rows_spec:
  assumes inv: "\<And>h. h \<in> set hs \<Longrightarrow> \<exists>m. table h = Inr m \<and> jm_inv m"
    and c: "\<And>h m. h \<in> set hs \<Longrightarrow> table h = Inr m \<Longrightarrow> c h = jm_contents m (jhash h)"
    and "i + n = length hs" "length counts = length hs" "pos \<le> length col"
  shows "probe_rows room table hs i n counts col pos = Inl NotEnoughSpace
    \<or> (\<exists>col' pos'. probe_rows room table hs i n counts col pos
             = Inr (take i counts @ map (\<lambda>h. length (c h)) (drop i hs), col', pos')
          \<and> take pos' col' = take pos col @ concat (map c (drop i hs)))"
  using assms(3-5)
proof (induction n arbitrary: i counts col pos)
  case 0
  then show ?case by simp
next
  case (Suc n)
  have i: "i < length hs" "Suc i + n = length hs" using Suc.prems(1) by auto
  obtain m where m: "table (hs ! i) = Inr m" "jm_inv m" using inv[of "hs ! i"] i(1) by auto
  have ch: "c (hs ! i) = jm_contents m (jhash (hs ! i))" using c[of "hs ! i" m] i(1) m(1) by simp
  have d: "drop i hs = hs ! i # drop (Suc i) hs" using i(1) by (simp add: Cons_nth_drop_Suc)
  let ?k = "length (c (hs ! i))"
  from probe_row_spec[OF m(2) Suc.prems(3), of room "hs ! i"] show ?case
  proof (elim disjE exE conjE)
    assume "probe_row room m (hs ! i) col pos = Inl NotEnoughSpace"
    then show ?thesis using m(1) i(1) Suc.prems(2) by simp
  next
    fix col1 assume a: "probe_row room m (hs ! i) col pos =
        Inr (length (jm_contents m (jhash (hs ! i))), col1, pos + length (jm_contents m (jhash (hs ! i))))"
      "pos + length (jm_contents m (jhash (hs ! i))) \<le> length col1"
      "take (pos + length (jm_contents m (jhash (hs ! i)))) col1 = take pos col @ jm_contents m (jhash (hs ! i))"
    note a = a[folded ch]
    have e: "probe_rows room table hs i (Suc n) counts col pos =
        probe_rows room table hs (Suc i) n (counts[i := ?k]) col1 (pos + ?k)"
      using m(1) i(1) Suc.prems(2) a(1) by simp
    have len: "length (counts[i := ?k]) = length hs" using Suc.prems(2) by simp
    have "take (Suc i) (counts[i := ?k]) = take i counts @ [?k]" using i(1) Suc.prems(2) by simp
    then show ?thesis using Suc.IH[OF i(2) len a(2)] unfolding e d using a(3) by auto
  qed
qed

lemma replicate_loop_spec:
  "i + n = length reps \<Longrightarrow> length xs = length reps \<Longrightarrow>
   replicate_loop xs reps i n = Inr (concat (map2 (\<lambda>k x. replicate k x) (drop i reps) (drop i xs)))"
proof (induction n arbitrary: i)
  case (Suc n)
  then have "i < length reps" "i < length xs" by auto
  then have "drop i reps = reps ! i # drop (Suc i) reps" "drop i xs = xs ! i # drop (Suc i) xs"
    by (simp_all add: Cons_nth_drop_Suc)
  then show ?case using Suc by simp
qed simp

lemma probe_tables_spec:
  assumes "\<And>h. h \<in> set hs \<Longrightarrow> \<exists>m. table h = Inr m \<and> jm_inv m"
    and "\<And>h m. h \<in> set hs \<Longrightarrow> table h = Inr m \<Longrightarrow> c h = jm_contents m (jhash h)"
    and "length att = length hs"
  shows "probe_tables room table st col hs att = Inl NotEnoughSpace
    \<or> probe_tables room table st col hs att
        = Inr (\<lparr>prCounts = map (\<lambda>h. length (c h)) hs\<rparr>, concat (map c hs),
               concat (map2 (\<lambda>h x. replicate (length (c h)) x) hs att))"
proof -
  have len: "length (resize_counts (prCounts st) (length hs)) = length hs"
    by (cases "length (prCounts st) \<le> length hs") (simp_all add: resize_counts_def)
  let ?counts = "resize_counts (prCounts st) (length hs)"
  have "probe_rows room table hs 0 (length hs) ?counts col 0 = Inl NotEnoughSpace
    \<or> (\<exists>col' pos'. probe_rows room table hs 0 (length hs) ?counts col 0
             = Inr (take 0 ?counts @ map (\<lambda>h. length (c h)) (drop 0 hs), col', pos')
          \<and> take pos' col' = take 0 col @ concat (map c (drop 0 hs)))"
    by (rule probe_rows_spec) (use assms(1,2) len in simp_all)
  then show ?thesis
  proof (elim disjE exE conjE)
    assume "probe_rows room table hs 0 (length hs) (resize_counts (prCounts st) (length hs)) col 0 = Inl NotEnoughSpace"
    then show ?thesis by (simp add: probe_tables_def)
  next
    fix col' pos' assume a: "probe_rows room table hs 0 (length hs) (resize_counts (prCounts st) (length hs)) col 0 =
        Inr (take 0 (resize_counts (prCounts st) (length hs)) @ map (\<lambda>h. length (c h)) (drop 0 hs), col', pos')"
      "take pos' col' = take 0 col @ concat (map c (drop 0 hs))"
    have "replicate_column att (map (\<lambda>h. length (c h)) hs) =
        Inr (concat (map2 (\<lambda>h x. replicate (length (c h)) x) hs att))"
      using assms(3) by (simp add: replicate_column_def replicate_loop_spec zip_map1 comp_def case_prod_unfold)
    then show ?thesis using a by (simp add: probe_tables_def)
  qed
qed

text \<open>Zipping the two kinds of output columns gives the pairs.\<close>

lemma zip_replicated:
  "length att = length hs \<Longrightarrow>
   zip (concat (map2 (\<lambda>h x. replicate (length (c h)) x) hs att)) (concat (map c hs))
     = concat (map2 (\<lambda>h x. map (Pair x) (c h)) hs att)"
proof (induction hs arbitrary: att)
  case (Cons h hs)
  then obtain x xs where a: "att = x # xs" "length xs = length hs" by (cases att) auto
  have "zip (replicate (length (c h)) x) (c h) = map (Pair x) (c h)"
    by (induction "c h") (auto simp: zip_replicate1)
  then show ?case using Cons.IH[OF a(2)] a(1) by (simp add: zip_append)
qed simp

end
