(* ===== verification/JoinResults.thy ===== *)
theory JoinResults
  imports JoinProbes
begin

text \<open>
  The properties of the join tables: \<open>push\<close> as an operation on lists of values by hash, the
  iteration, the sinks with their repairs, the partitioning, the merge, and the join itself, a table
  built by a sink and read by a probe.
\<close>

section \<open>A concrete environment\<close>

definition join_env :: "nat jenv" where
  "join_env = \<lparr>jFresh = 0, jRoomArr = (\<lambda>n. n \<le> 1024), jRoomMove = (\<lambda>_ _. True), jRoomShare = (\<lambda>_. True),
     jRoomFirst = (\<lambda>pa _. length (jOverflows pa) < 100), jRoomMore = (\<lambda>pa k. length (jOverflows pa ! k) < 2)\<rparr>"

definition join_sinkenv :: "nat sinkenv" where
  "join_sinkenv = \<lparr>seJoin = join_env, packRoom = (\<lambda>_ v. v < 50), packPart = (\<lambda>v. 0)\<rparr>"

definition empty_join_map :: "nat jmap" where
  "empty_join_map = \<lparr>jmArray = \<lparr>jUsed = 0, jNum = 8, jMax = 5, jData = replicate 8 jslot_unused, jOverflows = []\<rparr>,
     jmPartition = 0, jmNumPartitions = 1\<rparr>"

lemma join_env_ok: "jenv_ok join_env" "jenv_ok (seJoin join_sinkenv)"
  by (auto simp: jenv_ok_def join_env_def join_sinkenv_def NONEXT_def)

lemma empty_join_map_new: "jm_new_partition join_env 8 0 1 = Inr empty_join_map"
  by (simp add: jm_new_partition_def ja_new_def got_power_32 join_env_def empty_join_map_def fill_limit_def
      del: One_nat_def)

lemma empty_join_map_ok: "jm_inv empty_join_map" "jm_contents empty_join_map = (\<lambda>_. [])"
  using jm_new_partition_spec[OF join_env_ok(1), of 8 0 1] empty_join_map_new by auto

section \<open>The table\<close>

text \<open>C20: \<open>JoinMap::push\<close> appends a value to the list of its hash: after the value has been assigned
  through the returned reference, that hash has its old values followed by the new one, every other
  hash has what it had, \<open>count\<close> has grown by one, and \<open>setUnused\<close> takes the value back. If it
  throws \<open>NotEnoughSpace\<close>, from the doubling of the array or from the overflow lists, the contents
  are as before.\<close>

theorem join_push_refines:
  assumes "jm_inv m" "jenv_ok E"
  shows "case jm_push E m h of
      (m', Inr r) \<Rightarrow>
        jm_inv (jm_store m' r v)
        \<and> jm_contents (jm_store m' r v) = (jm_contents m)(jhash h := jm_contents m (jhash h) @ [v])
        \<and> jm_count (jm_store m' r v) h = Inr (Suc (length (jm_contents m (jhash h))))
        \<and> (\<exists>u. jm_setUnused (jm_store m' r v) h = Inr u \<and> jm_inv u \<and> jm_contents u = jm_contents m)
    | (m', Inl e) \<Rightarrow> e = NotEnoughSpace \<and> jm_inv m' \<and> jm_contents m' = jm_contents m"
  using jm_push_spec[OF assms, of h]
proof (elim disjE exE conjE)
  fix m' r assume "jm_push E m h = (m', Inr r)" "jm_pushed m h (jFresh E) m' r"
  then show ?thesis using jm_count_spec[of "jm_store m' r v" h] by (simp add: jm_pushed_def)
qed simp

theorem join_push_refines_witness:
  "jm_inv empty_join_map \<and> jenv_ok join_env
   \<and> (case jm_push join_env empty_join_map 3 of
        (m', Inr r) \<Rightarrow>
          jm_inv (jm_store m' r 7)
          \<and> jm_contents (jm_store m' r 7) = (jm_contents empty_join_map)(jhash 3 := jm_contents empty_join_map (jhash 3) @ [7])
          \<and> jm_count (jm_store m' r 7) 3 = Inr (Suc (length (jm_contents empty_join_map (jhash 3))))
          \<and> (\<exists>u. jm_setUnused (jm_store m' r 7) 3 = Inr u \<and> jm_inv u \<and> jm_contents u = jm_contents empty_join_map)
      | (m', Inl e) \<Rightarrow> e = NotEnoughSpace \<and> jm_inv m' \<and> jm_contents m' = jm_contents empty_join_map)"
  using join_push_refines[OF empty_join_map_ok(1) join_env_ok(1), where h = 3 and v = 7] empty_join_map_ok(1) join_env_ok(1)
  by (intro conjI)

text \<open>C35: A loop from \<open>begin ()\<close> to \<open>end ()\<close> over a join map ends within \<open>numSlots\<close> rounds and visits
  the hashes that have values, each once and in increasing order; the record list it sees for a hash
  has exactly the values pushed under it.\<close>

theorem join_iteration_sorted:
  assumes "jm_inv m"
  shows "\<exists>slots hs. ji_collect raw (jNum (jmArray m)) (ji_begin (jmArray m)) = Some slots
    \<and> sorted hs \<and> distinct hs \<and> set hs = {h. jm_contents m h \<noteq> []} \<and> length slots = length hs
    \<and> (\<forall>k < length hs. rl_getHash (jmArray m) (slots ! k) = Inr (hs ! k)
         \<and> rl_size (jmArray m) (slots ! k) = Inr (length (jm_contents m (hs ! k)))
         \<and> (\<forall>i < length (jm_contents m (hs ! k)). rl_get (jmArray m) (slots ! k) i = Inr (jm_contents m (hs ! k) ! i)))"
proof -
  let ?a = "jmArray m"
  have i: "jinv ?a" and n: "jNum ?a < 2 ^ 32" using assms by (auto simp: jm_inv_def)
  have l: "list_all2 (\<lambda>s h. \<exists>v n. heldAt ?a s h v n) (ji_slots ?a) (ji_hashes ?a)" by (rule ji_slots_records[OF i])
  have "rl_getHash ?a (ji_slots ?a ! k) = Inr (ji_hashes ?a ! k)
      \<and> rl_size ?a (ji_slots ?a ! k) = Inr (length (jm_contents m (ji_hashes ?a ! k)))
      \<and> (\<forall>i < length (jm_contents m (ji_hashes ?a ! k)). rl_get ?a (ji_slots ?a ! k) i = Inr (jm_contents m (ji_hashes ?a ! k) ! i))"
    if k: "k < length (ji_hashes ?a)" for k
  proof -
    obtain v n where "heldAt ?a (ji_slots ?a ! k) (ji_hashes ?a ! k) v n"
      using l k by (auto simp: list_all2_conv_all_nth)
    from rl_spec[OF i this] show ?thesis by (simp add: jm_contents_def)
  qed
  moreover have "length (ji_slots ?a) = length (ji_hashes ?a)" using l by (rule list_all2_lengthD)
  ultimately show ?thesis
    using ji_collect_begin[OF n, of raw] ji_order_sorted[OF i] ji_hashes_set[OF i]
    by (intro exI[of _ "ji_slots ?a"] exI[of _ "ji_hashes ?a"]) (simp add: ji_hashes_def jm_contents_def)
qed

theorem join_iteration_sorted_witness:
  "jm_inv empty_join_map
   \<and> (\<exists>slots hs. ji_collect 9 (jNum (jmArray empty_join_map)) (ji_begin (jmArray empty_join_map)) = Some slots
        \<and> sorted hs \<and> distinct hs \<and> set hs = {h. jm_contents empty_join_map h \<noteq> []} \<and> length slots = length hs)"
  using join_iteration_sorted[OF empty_join_map_ok(1), of 9] empty_join_map_ok(1) by metis

section \<open>The sinks\<close>

lemma join_sink_resumable_fact:
  assumes "jm_inv m" "jenv_ok (seJoin S)" "length hs = length vs"
  shows "case join_sink_writeOut S m hs vs of
      (m', hs', vs', Inr _) \<Rightarrow>
        hs' = hs \<and> vs' = vs \<and> jm_inv m' \<and> jm_contents m' = add_rows (jm_contents m) (zip hs vs)
    | (m', hs', vs', Inl e) \<Rightarrow>
        e = NotEnoughSpace
        \<and> (\<exists>i mi. i < length hs \<and> hs' = drop i hs \<and> vs' = drop i vs
             \<and> jm_inv mi \<and> jm_contents mi = add_rows (jm_contents m) (take i (zip hs vs))
             \<and> (jm_inv m' \<and> jm_contents m' = jm_contents mi \<or> row_lost S mi (hs ! i) m'))"
proof -
  have "0 + length hs = length hs" "jm_contents m = add_rows (jm_contents m) (take 0 (zip hs vs))" by simp_all
  from sink_rows_cases[OF assms(2,3,1) this(1) assms(1) this(2)] show ?thesis
  proof (elim disjE exE conjE)
    fix m' i assume a: "sink_rows S 0 (length hs) m hs vs = (m', drop i hs, drop i vs, Inl NotEnoughSpace)"
      "i < length hs" "rows_result S m (zip hs vs) i m'"
    have "fst (zip hs vs ! i) = hs ! i" using a(2) assms(3) by simp
    then show ?thesis using a unfolding rows_result_def join_sink_writeOut_def by auto
  qed (simp add: join_sink_writeOut_def)
qed

text \<open>C33: \<open>JoinSink::writeOut\<close> can be resumed: either every row is in the map, after what was there,
  and the columns are untouched; or it throws \<open>NotEnoughSpace\<close> at some row \<open>i\<close>, the columns hold
  exactly the rows from \<open>i\<close> on, and the map has the rows before \<open>i\<close>. The one exception: when \<open>push\<close>
  itself threw for row \<open>i\<close> and the hash was already present, \<open>setUnused\<close> has taken back the last good
  value of that hash.\<close>

theorem join_sink_resumable:
  assumes "jm_inv m" "jenv_ok (seJoin S)" "length hs = length vs"
  shows "case join_sink_writeOut S m hs vs of
      (m', hs', vs', Inr _) \<Rightarrow>
        hs' = hs \<and> vs' = vs \<and> jm_inv m' \<and> jm_contents m' = add_rows (jm_contents m) (zip hs vs)
    | (m', hs', vs', Inl e) \<Rightarrow>
        e = NotEnoughSpace
        \<and> (\<exists>i mi. i < length hs \<and> hs' = drop i hs \<and> vs' = drop i vs
             \<and> jm_inv mi \<and> jm_contents mi = add_rows (jm_contents m) (take i (zip hs vs))
             \<and> (jm_inv m' \<and> jm_contents m' = jm_contents mi \<or> row_lost S mi (hs ! i) m'))"
  by (rule join_sink_resumable_fact[OF assms])

theorem join_sink_resumable_witness:
  "jm_inv empty_join_map \<and> jenv_ok (seJoin join_sinkenv) \<and> length [3, 6, 3::nat] = length [1, 2, 99::nat]
   \<and> (case join_sink_writeOut join_sinkenv empty_join_map [3, 6, 3] [1, 2, 99] of
        (m', hs', vs', Inr _) \<Rightarrow>
          hs' = [3, 6, 3] \<and> vs' = [1, 2, 99] \<and> jm_inv m'
          \<and> jm_contents m' = add_rows (jm_contents empty_join_map) (zip [3, 6, 3] [1, 2, 99])
      | (m', hs', vs', Inl e) \<Rightarrow>
          e = NotEnoughSpace
          \<and> (\<exists>i mi. i < length [3, 6, 3::nat] \<and> hs' = drop i [3, 6, 3] \<and> vs' = drop i [1, 2, 99]
               \<and> jm_inv mi \<and> jm_contents mi = add_rows (jm_contents empty_join_map) (take i (zip [3, 6, 3] [1, 2, 99]))
               \<and> (jm_inv m' \<and> jm_contents m' = jm_contents mi \<or> row_lost join_sinkenv mi ([3, 6, 3] ! i) m')))"
proof -
  have l: "length [3, 6, 3::nat] = length [1, 2, 99::nat]" by simp
  from join_sink_resumable[OF empty_join_map_ok(1) join_env_ok(2) l] show ?thesis
    using empty_join_map_ok(1) join_env_ok(2) l by (intro conjI)
qed

text \<open>The exception of the previous property is real: when \<open>push\<close> throws for a hash that has two
  or more values, the row's handler removes the last of them although this row had added none, and
  the row is still to be written, so one earlier record is in no table.\<close>

theorem join_sink_drops_record:
  assumes "jm_inv m" "jenv_ok (seJoin S)" "2 \<le> length (jm_contents m (jhash h))"
    and "jm_push (seJoin S) m h = (m1, Inl NotEnoughSpace)"
  shows "\<exists>m'. sink_row S m h v = (m', Inl NotEnoughSpace) \<and> jm_inv m'
    \<and> jm_contents m' = (jm_contents m)(jhash h := butlast (jm_contents m (jhash h)))"
proof -
  have m1: "jm_inv m1" "jm_contents m1 = jm_contents m"
    using jm_push_spec[OF assms(1,2), of h] assms(4) by auto
  have "2 \<le> length (jm_contents m1 (jhash h))" using assms(3) m1(2) by simp
  then obtain u where "jm_setUnused m1 h = Inr u" "jm_inv u"
    "jm_contents u = (jm_contents m1)(jhash h := butlast (jm_contents m1 (jhash h)))"
    using jm_setUnused_butlast[OF m1(1)] by blast
  then show ?thesis
    using jm_count_spec[OF assms(1), of h] assms(4) m1(2) by (simp add: sink_row_def undo_push_def)
qed


definition full_join_map :: "nat jmap" where
  "full_join_map = \<lparr>jmArray = \<lparr>jUsed = 1, jNum = 8, jMax = 5,
     jData = (replicate 8 jslot_unused)[3 := \<lparr>jsHash = 3, jsNext = 0, jsValue = Some 1\<rparr>], jOverflows = [[2, 4]]\<rparr>,
     jmPartition = 0, jmNumPartitions = 1\<rparr>"

lemma jprobe_numeral: "jprobe d num hv slot (numeral n) =
  (if slot < length d then
        (if jsHash (d ! slot) = UNUSED then Inr (EmptySlot slot)
         else if jsHash (d ! slot) = hv then Inr (FoundSlot slot)
         else jprobe d num hv (if slot = num - 1 then 0 else slot + 1) (pred_numeral n))
      else Inl WildAccess)"
  unfolding numeral_eq_Suc by simp

lemmas join_eval = sink_row_def jm_count_def ja_count_def ja_probe_def jprobe_numeral jm_push_def ja_push_def
  ja_isOverFull_def pack_or_undo_def jm_store_def ja_store_def push_more_def overflow_at_def join_env_def
  join_sinkenv_def NONEXT_def jhash_def jslot_unused_def u32_def UNUSED_def Let_def

lemma full_join_map_run:
  "join_sink_writeOut join_sinkenv empty_join_map [3, 3, 3] [1, 2, 4] = (full_join_map, [3, 3, 3], [1, 2, 4], Inr ())"
  by (simp add: join_sink_writeOut_def empty_join_map_def full_join_map_def join_eval)


lemma full_join_map_ok: "jm_inv full_join_map" "jm_contents full_join_map = (\<lambda>h. if h = 3 then [1, 2, 4] else [])"
proof -
  have l: "length [3, 3, 3::nat] = length [1, 2, 4::nat]" by simp
  have "jm_inv full_join_map \<and> jm_contents full_join_map = add_rows (jm_contents empty_join_map) (zip [3, 3, 3] [1, 2, 4])"
    using join_sink_resumable_fact[OF empty_join_map_ok(1) join_env_ok(2) l, unfolded full_join_map_run] by simp
  then show "jm_inv full_join_map" "jm_contents full_join_map = (\<lambda>h. if h = 3 then [1, 2, 4] else [])"
    by (auto simp: empty_join_map_ok(2) add_rows_def jhash_def UNUSED_def fun_eq_iff)
qed

lemma full_join_map_throws: "jm_push (seJoin join_sinkenv) full_join_map 3 = (full_join_map, Inl NotEnoughSpace)"
  by (simp add: full_join_map_def join_eval)

theorem join_sink_drops_record_witness:
  "jm_inv full_join_map \<and> jenv_ok (seJoin join_sinkenv) \<and> 2 \<le> length (jm_contents full_join_map (jhash 3))
   \<and> jm_push (seJoin join_sinkenv) full_join_map 3 = (full_join_map, Inl NotEnoughSpace)
   \<and> (\<exists>m'. sink_row join_sinkenv full_join_map 3 9 = (m', Inl NotEnoughSpace) \<and> jm_inv m'
        \<and> jm_contents m' = (jm_contents full_join_map)(jhash 3 := butlast (jm_contents full_join_map (jhash 3))))"
proof -
  have two: "2 \<le> length (jm_contents full_join_map (jhash 3))"
    by (simp add: full_join_map_ok(2) jhash_def UNUSED_def)
  from join_sink_drops_record[OF full_join_map_ok(1) join_env_ok(2) two full_join_map_throws]
  show ?thesis using full_join_map_ok(1) join_env_ok(2) two full_join_map_throws by (intro conjI)
qed


text \<open>C18: \<open>PartitionedJoinSink::writeOut\<close> on a new container never leaves the bounds of its two
  vectors: the partition of every hash has a node index below the number of nodes and a map index
  below the number of partitions per node. When it returns, the map of each partition holds exactly
  the rows of that partition, in order; when it throws \<open>NotEnoughSpace\<close> at row \<open>i\<close>, the columns hold
  the rows from \<open>i\<close> on and the maps those before (with the exception of the plain sink).\<close>

theorem partitioned_sink_in_bounds:
  assumes "psink_ok P" "jenv_ok (seJoin S)" "partitioned_sink_new (seJoin S) P = Inr ms" "length hs = length vs"
  shows "(\<forall>h. \<exists>k. partition_index noMod P h = Inr k \<and> k div psParts P < length ms
            \<and> k mod psParts P < length (ms ! (k div psParts P)))
    \<and> (case partitioned_sink_writeOut noMod S P ms hs vs of
         (P', ms', hs', vs', Inr _) \<Rightarrow>
           hs' = hs \<and> vs' = vs
           \<and> (\<forall>k < partitions P. jm_inv (part_map P ms' k)
                \<and> jm_contents (part_map P ms' k) = add_rows (\<lambda>_. []) (rows_of noMod P' k (zip hs vs)))
       | (P', ms', hs', vs', Inl e) \<Rightarrow>
           e = NotEnoughSpace
           \<and> (\<exists>i < length hs. hs' = drop i hs \<and> vs' = drop i vs \<and> parts_result noMod S P' ms (zip hs vs) i ms'))"
proof
  note new = partitioned_sink_new_spec[OF assms(1-3)]
  have pi: "parts_inv P ms" by (rule new(1))
  show "\<forall>h. \<exists>k. partition_index noMod P h = Inr k \<and> k div psParts P < length ms
            \<and> k mod psParts P < length (ms ! (k div psParts P))"
  proof
    fix h
    obtain k where k: "partition_index noMod P h = Inr k" "k < partitions P"
      by (rule partition_index_bound[OF assms(1)])
    then show "\<exists>k. partition_index noMod P h = Inr k \<and> k div psParts P < length ms
            \<and> k mod psParts P < length (ms ! (k div psParts P))"
      using part_bounds[OF assms(1) k(2)] pi by (auto simp: parts_inv_def)
  qed
  define P1 where "P1 = (if psType P = CrossProduct then P\<lparr>psCur := psCur P + 1\<rparr> else P)"
  have P1: "psink_ok P1" "psParts P1 = psParts P" "psNodes P1 = psNodes P"
    using assms(1) by (auto simp: P1_def psink_ok_def)
  have pm: "part_map P1 xs k = part_map P xs k" for xs :: "'a jmap list list" and k
    by (simp add: part_map_def P1)
  have h0: "parts_hold noMod P1 ms (take 0 (zip hs vs)) ms"
    using pi by (simp add: parts_hold_def parts_inv_def P1 pm rows_of_def)
  have "0 + length hs = length hs" by simp
  from partition_rows_cases[OF P1(1) assms(2,4) this h0]
  show "case partitioned_sink_writeOut noMod S P ms hs vs of
         (P', ms', hs', vs', Inr _) \<Rightarrow>
           hs' = hs \<and> vs' = vs
           \<and> (\<forall>k < partitions P. jm_inv (part_map P ms' k)
                \<and> jm_contents (part_map P ms' k) = add_rows (\<lambda>_. []) (rows_of noMod P' k (zip hs vs)))
       | (P', ms', hs', vs', Inl e) \<Rightarrow>
           e = NotEnoughSpace
           \<and> (\<exists>i < length hs. hs' = drop i hs \<and> vs' = drop i vs \<and> parts_result noMod S P' ms (zip hs vs) i ms')"
  proof (elim disjE exE conjE)
    fix ms' assume a: "partition_rows noMod S P1 0 (length hs) ms hs vs = (ms', hs, vs, Inr ())"
      "parts_hold noMod P1 ms (zip hs vs) ms'"
    have "\<forall>k < partitions P. jm_inv (part_map P ms' k)
        \<and> jm_contents (part_map P ms' k) = add_rows (\<lambda>_. []) (rows_of noMod P1 k (zip hs vs))"
      using a(2) new(2) unfolding parts_hold_def parts_inv_def P1 pm by simp
    then show ?thesis using a(1) by (simp add: partitioned_sink_writeOut_def P1_def[symmetric] Let_def)
  next
    fix ms' j assume a: "partition_rows noMod S P1 0 (length hs) ms hs vs = (ms', drop j hs, drop j vs, Inl NotEnoughSpace)"
      "j < length hs" "parts_result noMod S P1 ms (zip hs vs) j ms'"
    then show ?thesis by (auto simp: partitioned_sink_writeOut_def P1_def[symmetric] Let_def)
  qed
qed

section \<open>Merging and shuffling\<close>

text \<open>C36: merging a map into another, from the position \<open>(mapIndex, listIndex)\<close> the merger is at:
  either all records from that position on are appended to the lists of their hashes and the map index
  is reset, or the merge stops at a record that does not fit, stores its position and returns without
  an error. From position \<open>(0, 0)\<close> a finished merge appends every list of the source; from any
  other one the first records of the source are left out, whichever map the position came from.\<close>

theorem merge_appends_from_position:
  assumes "jm_inv src" "jm_inv m" "jenv_ok (seJoin S)"
  shows "case merger_writeOut S g src m of
      (g', m', Inr _) \<Rightarrow>
        (let a = jmArray src; hs = ji_hashes a; todo = rem_records a hs (mgMapIndex g) (mgListIndex g) in
          mgMapIndex g' = 0 \<and> jm_inv m' \<and> jm_contents m' = add_rows (jm_contents m) todo
            \<and> (mgMapIndex g = 0 \<longrightarrow> mgListIndex g = 0 \<longrightarrow>
                 mgListIndex g' = 0 \<and> (\<forall>h. jm_contents m' h = jm_contents m h @ jm_contents src h))
          \<or> (\<exists>rows r rest. todo = rows @ r # rest
               \<and> rem_records a hs (mgMapIndex g') (mgListIndex g') = r # rest
               \<and> stopped_at S (jm_contents m) rows r m'))
    | (g', m', Inl e) \<Rightarrow> False"
proof -
  let ?a = "jmArray src"
  have i: "jinv ?a" using assms(1) by (simp add: jm_inv_def)
  have "0 \<le> mgMapIndex g \<or> mgListIndex g = 0" by simp
  from lists_loop_cases[OF i merge_list_adds[OF i assms(3)] ji_slots_records[OF i] assms(2) this, of "mgKeys g"]
  show ?thesis
  proof (elim disjE exE conjE)
    fix li' keys' m' assume a: "lists_loop (merge_list S ?a) ?a (ji_slots ?a) 0 (mgMapIndex g) (mgListIndex g) (mgKeys g) m
        = (li', keys', m', Inr None)" "jm_inv m'"
      "li' = (if length (ji_hashes ?a) \<le> mgMapIndex g - 0 then mgListIndex g else 0)"
      "jm_contents m' = add_rows (jm_contents m) (rem_records ?a (ji_hashes ?a) (mgMapIndex g - 0) (mgListIndex g))"
    have "\<forall>h. jm_contents m' h = jm_contents m h @ jm_contents src h" if "mgMapIndex g = 0" "mgListIndex g = 0"
      using a(4) that add_all_records[OF i] by (simp add: rem_records_all jm_contents_def)
    then show ?thesis
      using a by (simp add: merger_writeOut_def merge_map_def)
  next
    fix li' keys' m' p i' rows assume a: "lists_loop (merge_list S ?a) ?a (ji_slots ?a) 0 (mgMapIndex g) (mgListIndex g) (mgKeys g) m
        = (li', keys', m', Inr (Some (p, i')))"
      "rem_records ?a (ji_hashes ?a) (mgMapIndex g - 0) (mgListIndex g) = rows @ rem_records ?a (ji_hashes ?a) (p - 0) i'"
      "rem_records ?a (ji_hashes ?a) (p - 0) i' \<noteq> []"
      "stopped_at S (jm_contents m) rows (hd (rem_records ?a (ji_hashes ?a) (p - 0) i')) m'"
    obtain r rest where r: "rem_records ?a (ji_hashes ?a) p i' = r # rest"
      using a(3) by (cases "rem_records ?a (ji_hashes ?a) p i'") auto
    have "merger_writeOut S g src m = (g\<lparr>mgKeys := keys', mgListIndex := i', mgMapIndex := p\<rparr>, m', Inr ())"
      using a(1) by (simp add: merger_writeOut_def merge_map_def)
    moreover have "rem_records ?a (ji_hashes ?a) (mgMapIndex g) (mgListIndex g) = rows @ r # rest"
      "stopped_at S (jm_contents m) rows r m'"
      using a(2,4) r by simp_all
    ultimately show ?thesis using r
      by (simp add: Let_def) (intro disjI2 exI[of _ "fst r"] exI[of _ "snd r"] conjI; simp)
  qed
qed

text \<open>When the last step of \<open>JoinSinkShuffler::writeOut\<close>, putting the copied map on the page,
  throws, the call returns false and keeps its map index but has already set its list index to zero.
  The retry on the next page then starts with the first record of that list, so the records before
  the old list index, which an earlier page has, are sent a second time.\<close>

theorem shuffle_repeats_records:
  assumes "jm_inv src" "jenv_ok (seJoin S)" "jm_inv m" "shMapIndex g < length (ji_hashes (jmArray src))"
    and "jm_new_partition (seJoin S) (u32 (jm_size src + 2 ^ 64 - shMapIndex g)) (jmPartition src)
           (jmNumPartitions src) = Inr m"
    and "lists_loop (shuffle_list S (jmArray src)) (jmArray src) (ji_slots (jmArray src)) 0
           (shMapIndex g) (shListIndex g) 0 m = (li, keys, m', Inr None)"
    and "\<not> roomBack maps"
  shows "shuffler_writeOut S roomBack g src maps = (\<lparr>shMapIndex = shMapIndex g, shListIndex = 0\<rparr>, maps, Inr False)
    \<and> rem_records (jmArray src) (ji_hashes (jmArray src)) (shMapIndex g) 0
        = take (shListIndex g) (recs (jmArray src) (ji_hashes (jmArray src) ! shMapIndex g))
          @ rem_records (jmArray src) (ji_hashes (jmArray src)) (shMapIndex g) (shListIndex g)"
proof
  let ?a = "jmArray src"
  have i: "jinv ?a" using assms(1) by (simp add: jm_inv_def)
  have "0 \<le> shMapIndex g \<or> shListIndex g = 0" by simp
  from lists_loop_cases[OF i shuffle_list_adds[OF i assms(2)] ji_slots_records[OF i] assms(3) this, of 0]
  have "li = 0" using assms(4,6) by (elim disjE exE conjE) simp_all
  then show "shuffler_writeOut S roomBack g src maps
      = (\<lparr>shMapIndex = shMapIndex g, shListIndex = 0\<rparr>, maps, Inr False)"
    using assms(5-7) by (simp add: shuffler_writeOut_def)
  have "drop (shMapIndex g) (ji_hashes ?a) = ji_hashes ?a ! shMapIndex g # drop (Suc (shMapIndex g)) (ji_hashes ?a)"
    using assms(4) by (simp add: Cons_nth_drop_Suc)
  then show "rem_records ?a (ji_hashes ?a) (shMapIndex g) 0
        = take (shListIndex g) (recs ?a (ji_hashes ?a ! shMapIndex g))
          @ rem_records ?a (ji_hashes ?a) (shMapIndex g) (shListIndex g)"
    by (simp add: rem_records_def)
qed

section \<open>The join\<close>

lemma filter_pairs:
  "map (Pair x \<circ> snd) (filter (\<lambda>r. p (fst r)) rows) = concat (map (\<lambda>(g, v). if p g then [(x, v)] else []) rows)"
  by (induction rows) auto

text \<open>C8: a table built by \<open>JoinSink\<close> and read by \<open>JoinProbe\<close> computes the join on the hashes: when
  the sink and the probe succeed, row by row of the output the probing row and the tuple are exactly
  the pairs that nested loops over the probing rows and the built rows with equal hash would give, in
  that order; the probe can fail with \<open>NotEnoughSpace\<close> only.\<close>

theorem join_is_nested_loops:
  assumes "jm_inv m" "jm_contents m = (\<lambda>_. [])" "jenv_ok (seJoin S)" "length bs = length vs" "length att = length ps"
    and "join_sink_writeOut S m bs vs = (m', bs', vs', Inr ())"
  shows "case join_probe room (Some m') st col ps att of
      Inr (Some (st', col', att')) \<Rightarrow>
        length att' = length col'
        \<and> zip att' col' = concat (map2 (\<lambda>h x. [(x, v). (g, v) \<leftarrow> zip bs vs, jhash g = jhash h]) ps att)
    | Inr None \<Rightarrow> False
    | Inl e \<Rightarrow> e = NotEnoughSpace"
proof -
  have m': "jm_inv m'" "jm_contents m' = add_rows (\<lambda>_. []) (zip bs vs)"
    using join_sink_resumable_fact[OF assms(1,3,4)] assms(2) unfolding assms(6) by auto
  define c where "c h = jm_contents m' (jhash h)" for h
  have c: "c h = map snd (filter (\<lambda>r. jhash (fst r) = jhash h) (zip bs vs))" for h
    by (simp add: c_def m'(2) add_rows_def)
  have pairs: "map (Pair x) (c h) = [(x, v). (g, v) \<leftarrow> zip bs vs, jhash g = jhash h]" for x h
    unfolding c using filter_pairs[of x "\<lambda>g. jhash g = jhash h" "zip bs vs"] by simp
  have len: "length (concat (map2 (\<lambda>h x. replicate (length (c h)) x) ps att)) = length (concat (map c ps))"
    using assms(5) by (induction ps arbitrary: att) (auto simp: length_Suc_conv)
  have "probe_tables room (\<lambda>h. Inr m') st col ps att = Inl NotEnoughSpace
    \<or> probe_tables room (\<lambda>h. Inr m') st col ps att
        = Inr (\<lparr>prCounts = map (\<lambda>h. length (c h)) ps\<rparr>, concat (map c ps),
               concat (map2 (\<lambda>h x. replicate (length (c h)) x) ps att))"
    by (rule probe_tables_spec) (use m'(1) assms(5) in \<open>simp_all add: c_def\<close>)
  then show ?thesis
  proof (elim disjE)
    assume "probe_tables room (\<lambda>h. Inr m') st col ps att = Inl NotEnoughSpace"
    then show ?thesis by (simp add: join_probe_def)
  next
    assume a: "probe_tables room (\<lambda>h. Inr m') st col ps att
        = Inr (\<lparr>prCounts = map (\<lambda>h. length (c h)) ps\<rparr>, concat (map c ps),
               concat (map2 (\<lambda>h x. replicate (length (c h)) x) ps att))"
    have "zip (concat (map2 (\<lambda>h x. replicate (length (c h)) x) ps att)) (concat (map c ps))
        = concat (map2 (\<lambda>h x. [(x, v). (g, v) \<leftarrow> zip bs vs, jhash g = jhash h]) ps att)"
      unfolding zip_replicated[OF assms(5)] pairs ..
    then show ?thesis using a len by (simp add: join_probe_def)
  qed
qed


text \<open>C19: the partitioned join loses no match: let a sink that is not compiled with
  \<open>NO_MOD_PARTITION\<close> have put its rows into the maps of all nodes. The table that
  \<open>PartitionedJoinProbe\<close> picks on a node for a hash of that node is within the node's tables and
  holds exactly the built rows that have the same partition and the same stored hash, so every row
  with that very hash.\<close>

theorem partitioned_join_loses_no_match:
  assumes "psink_ok P" "psType P \<noteq> CrossProduct" "jenv_ok (seJoin S)" "partitioned_sink_new (seJoin S) P = Inr ms"
    and "length bs = length vs" "partitioned_sink_writeOut False S P ms bs vs = (P', ms', bs', vs', Inr ())"
    and "h mod partitions P div psParts P = node"
  shows "\<exists>m. probe_table P threadId (ms' ! node) h = Inr m \<and> jm_inv m
    \<and> jm_contents m (jhash h)
        = map snd (filter (\<lambda>r. jhash (fst r) = jhash h \<and> fst r mod partitions P = h mod partitions P) (zip bs vs))"
proof -
  have p: "0 < partitions P" "0 < psParts P" using assms(1) by (auto simp: psink_ok_def)
  have P': "P' = P" using assms(2,6) by (simp add: partitioned_sink_writeOut_def)
  define k where "k = h mod partitions P"
  have k: "k < partitions P" using p(1) by (simp add: k_def)
  note new = partitioned_sink_new_spec[OF assms(1,3,4)]
  have h0: "parts_hold False P ms (take 0 (zip bs vs)) ms"
    using new(1) by (simp add: parts_hold_def rows_of_def)
  have w: "partition_rows False S P 0 (length bs) ms bs vs = (ms', bs', vs', Inr ())"
    using assms(6) unfolding partitioned_sink_writeOut_def by (auto simp: assms(2))
  have "0 + length bs = length bs" by simp
  from partition_rows_cases[OF assms(1,3,5) this h0] w
  have h: "parts_hold False P ms (zip bs vs) ms'" by (elim disjE exE conjE) simp_all
  have inv: "parts_inv P ms'" using h by (simp add: parts_hold_def)
  have node: "node = k div psParts P" using assms(7) by (simp add: k_def)
  have b: "node < psNodes P" "k mod psParts P < psParts P" using part_bounds[OF assms(1) k] node by auto
  have "probe_table P threadId (ms' ! node) h = Inr (part_map P ms' k)"
    using assms(2) p b inv by (simp add: probe_table_def probe_index_def k_def part_map_def node parts_inv_def)
  moreover have "jm_inv (part_map P ms' k)" using inv k by (simp add: parts_inv_def)
  moreover have "jm_contents (part_map P ms' k) = add_rows (\<lambda>_. []) (rows_of False P k (zip bs vs))"
    using h k new(2)[OF k] by (simp add: parts_hold_def)
  moreover have "rows_of False P k rows = filter (\<lambda>r. fst r mod partitions P = k) rows" for rows :: "(nat \<times> 'a) list"
    using assms(2) p by (simp add: rows_of_def partition_index_def Let_def)
  ultimately show ?thesis by (simp add: add_rows_def k_def conj_commute)
qed

section \<open>Instances\<close>

definition two_node_sink :: psink where
  "two_node_sink = \<lparr>psParts = 1, psNodes = 2, psType = HashPartitionedJoin, psCur = 0\<rparr>"

definition small_join_map :: "nat \<Rightarrow> nat jmap" where
  "small_join_map k = \<lparr>jmArray = \<lparr>jUsed = 0, jNum = 2, jMax = 1, jData = replicate 2 jslot_unused, jOverflows = []\<rparr>,
     jmPartition = k, jmNumPartitions = 1\<rparr>"

lemma two_node_sink_ok: "psink_ok two_node_sink" "psType two_node_sink \<noteq> CrossProduct"
  by (simp_all add: psink_ok_def two_node_sink_def)

lemma two_node_sink_new:
  "partitioned_sink_new (seJoin join_sinkenv) two_node_sink = Inr [[small_join_map 0], [small_join_map 1]]"
proof -
  have "jm_new_partition join_env 2 k 1 = Inr (small_join_map k)" for k
    by (simp add: jm_new_partition_def ja_new_def got_power_32 join_env_def small_join_map_def fill_limit_def
        del: One_nat_def)
  moreover have "seJoin join_sinkenv = join_env" by (simp add: join_sinkenv_def)
  ultimately show ?thesis
    by (simp add: partitioned_sink_new_def two_node_sink_def eval_nat_numeral)
qed

lemma two_node_sink_run:
  "partitioned_sink_writeOut False join_sinkenv two_node_sink [[small_join_map 0], [small_join_map 1]] [7] [5]
   = (two_node_sink,
      [[small_join_map 0], [\<lparr>jmArray = \<lparr>jUsed = 1, jNum = 2, jMax = 1,
         jData = [\<lparr>jsHash = 7, jsNext = NONEXT, jsValue = Some 5\<rparr>, jslot_unused], jOverflows = []\<rparr>,
         jmPartition = 1, jmNumPartitions = 1\<rparr>]], [7], [5], Inr ())"
  by (simp add: partitioned_sink_writeOut_def two_node_sink_def partition_row_def partition_index_def
      small_join_map_def replicate_num join_eval)

theorem partitioned_sink_in_bounds_witness:
  "psink_ok two_node_sink \<and> jenv_ok (seJoin join_sinkenv)
   \<and> partitioned_sink_new (seJoin join_sinkenv) two_node_sink = Inr [[small_join_map 0], [small_join_map 1]]
   \<and> length [7::nat] = length [5::nat]
   \<and> (\<forall>h. \<exists>k. partition_index False two_node_sink h = Inr k
        \<and> k div psParts two_node_sink < length [[small_join_map 0], [small_join_map 1]]
        \<and> k mod psParts two_node_sink < length ([[small_join_map 0], [small_join_map 1]] ! (k div psParts two_node_sink)))"
proof -
  have l: "length [7::nat] = length [5::nat]" by simp
  from partitioned_sink_in_bounds[OF two_node_sink_ok(1) join_env_ok(2) two_node_sink_new l, of False]
  show ?thesis using two_node_sink_ok(1) join_env_ok(2) two_node_sink_new l by (intro conjI; elim conjE)
qed

theorem partitioned_join_loses_no_match_witness:
  "\<exists>ms'. partitioned_sink_writeOut False join_sinkenv two_node_sink [[small_join_map 0], [small_join_map 1]] [7] [5]
       = (two_node_sink, ms', [7], [5], Inr ())
     \<and> (\<exists>m. probe_table two_node_sink 0 (ms' ! 1) 7 = Inr m \<and> jm_inv m \<and> jm_contents m (jhash 7) = [5])"
proof -
  have l: "length [7::nat] = length [5::nat]" by simp
  have n: "(7::nat) mod partitions two_node_sink div psParts two_node_sink = 1" by (simp add: two_node_sink_def)
  have e: "map snd (filter (\<lambda>r. jhash (fst r) = jhash 7 \<and> fst r mod partitions two_node_sink = 7 mod partitions two_node_sink)
      (zip [7] [5])) = [5::nat]" by simp
  note m = partitioned_join_loses_no_match[OF two_node_sink_ok join_env_ok(2) two_node_sink_new l two_node_sink_run n,
      of 0, unfolded e]
  show ?thesis by (rule exI, rule conjI[OF two_node_sink_run m])
qed

theorem merge_appends_from_position_witness:
  "jm_inv full_join_map \<and> jm_inv empty_join_map \<and> jenv_ok (seJoin join_sinkenv)
   \<and> (case merger_writeOut join_sinkenv \<lparr>mgPartition = 0, mgKeys = 0, mgMapIndex = 0, mgListIndex = 0\<rparr> full_join_map
         empty_join_map of
       (g', m', Inr _) \<Rightarrow> jm_inv m'
     | (g', m', Inl e) \<Rightarrow> False)"
  using merge_appends_from_position[OF full_join_map_ok(1) empty_join_map_ok(1) join_env_ok(2),
      of "\<lparr>mgPartition = 0, mgKeys = 0, mgMapIndex = 0, mgListIndex = 0\<rparr>"]
    full_join_map_ok(1) empty_join_map_ok(1) join_env_ok(2)
  by (auto simp: Let_def stopped_at_def split: prod.splits sum.splits)

lemma full_join_order: "ji_order (jmArray full_join_map) = [(3, 3)]"
  by (simp add: ji_order_def full_join_map_def jslot_unused_def UNUSED_def upt_rec replicate_num update_numeral)

theorem shuffle_repeats_records_witness:
  "\<exists>m. jm_new_partition (seJoin join_sinkenv) (u32 (jm_size full_join_map + 2 ^ 64 - 0)) 0 1 = Inr m
     \<and> shuffler_writeOut join_sinkenv (\<lambda>_. False) \<lparr>shMapIndex = 0, shListIndex = 2\<rparr> full_join_map []
         = (\<lparr>shMapIndex = 0, shListIndex = 0\<rparr>, [], Inr False)
     \<and> rem_records (jmArray full_join_map) [3] 0 0
         = [(3, 1), (3, 2)] @ rem_records (jmArray full_join_map) [3] 0 2"
proof -
  let ?g = "\<lparr>shMapIndex = 0, shListIndex = 2\<rparr>"
  have h: "ji_hashes (jmArray full_join_map) = [3]" "ji_slots (jmArray full_join_map) = [3]"
    by (simp_all add: ji_hashes_def ji_slots_def full_join_order)
  have new: "jm_new_partition (seJoin join_sinkenv) (u32 (jm_size full_join_map + 2 ^ 64 - shMapIndex ?g))
      (jmPartition full_join_map) (jmNumPartitions full_join_map) = Inr (small_join_map 0\<lparr>jmNumPartitions := 1\<rparr>)"
    by (simp add: jm_size_def ja_numUsedSlots_def full_join_map_def u32_def jm_new_partition_def ja_new_def
        got_power_32 join_env_def join_sinkenv_def small_join_map_def fill_limit_def del: One_nat_def)
  have inv: "jm_inv (small_join_map 0\<lparr>jmNumPartitions := 1\<rparr>)"
    using jm_new_partition_spec[OF join_env_ok(2), of 1 0 1] new
    by (simp add: jm_size_def ja_numUsedSlots_def full_join_map_def u32_def)
  have lt: "shMapIndex ?g < length (ji_hashes (jmArray full_join_map))" by (simp add: h)
  obtain li keys m' where loop: "lists_loop (shuffle_list join_sinkenv (jmArray full_join_map)) (jmArray full_join_map)
      (ji_slots (jmArray full_join_map)) 0 (shMapIndex ?g) (shListIndex ?g) 0 (small_join_map 0\<lparr>jmNumPartitions := 1\<rparr>)
      = (li, keys, m', Inr None)"
    unfolding h
    by (simp add: full_join_map_def small_join_map_def rl_size_def slot_at_def rl_getHash_def rl_get_def
        replicate_num update_numeral join_eval)
  from shuffle_repeats_records[OF full_join_map_ok(1) join_env_ok(2) inv lt new loop, of "\<lambda>_. False" "[]"]
  have "shuffler_writeOut join_sinkenv (\<lambda>_. False) ?g full_join_map [] = (\<lparr>shMapIndex = 0, shListIndex = 0\<rparr>, [], Inr False)
    \<and> rem_records (jmArray full_join_map) [3] 0 0
        = take 2 (recs (jmArray full_join_map) 3) @ rem_records (jmArray full_join_map) [3] 0 2"
    by (simp add: h)
  moreover have "recs (jmArray full_join_map) 3 = [(3, 1), (3, 2), (3, 4)]"
    using full_join_map_ok(2) by (simp add: recs_def jm_contents_def)
  ultimately show ?thesis using new by (simp add: full_join_map_def)
qed

theorem join_is_nested_loops_witness:
  "case join_probe (\<lambda>_. True) (Some full_join_map) \<lparr>prCounts = []\<rparr> [] [3, 5] [''a'', ''b''] of
     Inr (Some (st', col', att')) \<Rightarrow> zip att' col' = [(''a'', 1), (''a'', 2), (''a'', 4)]
   | Inr None \<Rightarrow> False
   | Inl e \<Rightarrow> e = NotEnoughSpace"
proof -
  have l: "length [3, 3, 3::nat] = length [1, 2, 4::nat]" "length [''a'', ''b''] = length [3, 5::nat]" by simp_all
  from join_is_nested_loops[OF empty_join_map_ok join_env_ok(2) l full_join_map_run, of "\<lambda>_. True" "\<lparr>prCounts = []\<rparr>" "[]"]
  show ?thesis by (auto simp: jhash_def UNUSED_def split: sum.splits option.splits)
qed

end
