(* ===== verification/Pipelines.thy ===== *)
theory Pipelines
  imports Prelude
begin

text \<open>
  \<open>Pipeline\<close> (\<open>src/src/lambdas/headers/Pipeline.h\<close>): the loop that pulls tuple sets from a source,
  passes them through the executors and writes them into the output container of a page, going on
  with a new page whenever the current one is full.

  The pipeline calls its source, its executors, its sink and three functions for pages; they are
  fields of \<open>pipe_ops\<close>. All of them may change the rest of the program, the type \<open>'w\<close>: the source's
  position, the tuple sets, and the current allocation block. A \<open>TupleSetPtr\<close> is a \<open>'t option\<close>,
  \<open>None\<close> being null. The trace records which pages the pipeline has got and given back. The
  iteration counter is an \<open>int\<close>; a run counts its pages with it and stays far below \<open>2\<^sup>3\<^sup>1\<close>.
\<close>

section \<open>State\<close>

record ('w, 't, 'c) pipe_ops =
  opNewPage :: "'w \<Rightarrow> 'w \<times> nat option \<times> nat"
  opWriteBack :: "nat \<Rightarrow> 'c \<Rightarrow> 'w \<Rightarrow> 'w"
  opDiscard :: "nat \<Rightarrow> 'w \<Rightarrow> 'w"
  opOpenBlock :: "nat option \<Rightarrow> nat \<Rightarrow> 'w \<Rightarrow> 'w"
  opScratchBlock :: "nat \<Rightarrow> 'w \<Rightarrow> 'w"
  opNext :: "'w \<Rightarrow> 'w \<times> 't option outcome"
  opStages :: "('w \<Rightarrow> 't option \<Rightarrow> 'w \<times> 't option outcome) list"
  opNewSink :: "'w \<Rightarrow> 'w \<times> 'c outcome"
  opWriteOut :: "'w \<Rightarrow> 't option \<Rightarrow> 'c \<Rightarrow> 'w \<times> 'c \<times> unit outcome"

record 'c holder =
  hLocation :: "nat option"
  hSize :: nat
  hSink :: "'c option"
  hIteration :: int

datatype 'c page_event = GotPage nat | WroteBack nat 'c | Discarded nat

record ('w, 'c) pipe =
  pUnwritten :: "'c holder list"
  pDelay :: int
  pWorld :: 'w
  pTrace :: "'c page_event list"

definition pipe_new :: "'w \<Rightarrow> ('w, 'c) pipe" where
  "pipe_new w = \<lparr>pUnwritten = [], pDelay = 4, pWorld = w, pTrace = []\<rparr>"

text \<open>\<open>std::make_shared<MemoryHolder> (getNewPage ())\<close>: the constructor makes the page the current
  allocation block, a null one too.\<close>

definition new_holder :: "('w, 't, 'c) pipe_ops \<Rightarrow> ('w, 'c) pipe \<Rightarrow> ('w, 'c) pipe \<times> 'c holder" where
  "new_holder D p =
     (case opNewPage D (pWorld p) of
        (w, loc, n) \<Rightarrow>
          (p\<lparr>pWorld := opOpenBlock D loc n w,
             pTrace := pTrace p @ (case loc of None \<Rightarrow> [] | Some l \<Rightarrow> [GotPage l])\<rparr>,
           \<lparr>hLocation = loc, hSize = n, hSink = None, hIteration = 0\<rparr>))"

definition new_sink :: "('w, 't, 'c) pipe_ops \<Rightarrow> ('w, 'c) pipe \<Rightarrow> ('w, 'c) pipe \<times> 'c outcome" where
  "new_sink D p = (case opNewSink D (pWorld p) of (w, r) \<Rightarrow> (p\<lparr>pWorld := w\<rparr>, r))"

section \<open>Giving pages back\<close>

text \<open>\<open>cleanPages\<close>, over the queue. A page without a container gets one before it is discarded.\<close>

definition give_back :: "('w, 't, 'c) pipe_ops \<Rightarrow> int \<Rightarrow> 'c holder \<Rightarrow> ('w, 'c) pipe \<Rightarrow> ('w, 'c) pipe \<times> unit outcome" where
  "give_back D it h p =
     (case hLocation h of
        None \<Rightarrow> (p, Inl NullDeref)
      | Some l \<Rightarrow>
          (case hSink h of
             None \<Rightarrow>
               (case new_sink D p of
                  (p', Inl e) \<Rightarrow> (p', Inl e)
                | (p', Inr c) \<Rightarrow>
                    (p'\<lparr>pWorld := opDiscard D l (pWorld p'), pTrace := pTrace p' @ [Discarded l]\<rparr>, Inr ()))
           | Some c \<Rightarrow>
               (let w = (if it = 999999999 then opScratchBlock D 1024 (pWorld p) else pWorld p) in
                (p\<lparr>pWorld := opWriteBack D l c w, pTrace := pTrace p @ [WroteBack l c]\<rparr>, Inr ()))))"

fun clean_queue :: "('w, 't, 'c) pipe_ops \<Rightarrow> int \<Rightarrow> 'c holder list \<Rightarrow> ('w, 'c) pipe \<Rightarrow> ('w, 'c) pipe \<times> unit outcome" where
  "clean_queue D it [] p = (p\<lparr>pUnwritten := []\<rparr>, Inr ())"
| "clean_queue D it (h # hs) p =
     (if hIteration h + pDelay p < it then
        (case give_back D it h p of
           (p', Inl e) \<Rightarrow> (p'\<lparr>pUnwritten := h # hs\<rparr>, Inl e)
         | (p', Inr _) \<Rightarrow> clean_queue D it hs p')
      else (p\<lparr>pUnwritten := h # hs\<rparr>, Inr ()))"

definition cleanPages :: "('w, 't, 'c) pipe_ops \<Rightarrow> int \<Rightarrow> ('w, 'c) pipe \<Rightarrow> ('w, 'c) pipe \<times> unit outcome" where
  "cleanPages D it p = clean_queue D it (pUnwritten p) p"

text \<open>The destructor reverses the queue and cleans everything.\<close>

definition pipe_destroy :: "('w, 't, 'c) pipe_ops \<Rightarrow> ('w, 'c) pipe \<Rightarrow> ('w, 'c) pipe \<times> unit outcome" where
  "pipe_destroy D p = cleanPages D 999999999 (p\<lparr>pUnwritten := rev (pUnwritten p)\<rparr>)"

section \<open>Running\<close>

text \<open>The current page and the iteration counter of \<open>run\<close>; \<open>Leave\<close> is an early \<open>return\<close>.\<close>

datatype flow = Go | Leave

definition set_iteration :: "int \<Rightarrow> 'c holder \<Rightarrow> 'c holder" where
  "set_iteration it h = h\<lparr>hIteration := it\<rparr>"

text \<open>What the handlers of \<open>NotEnoughSpace\<close> share: the page joins the queue, old ones are given back,
  and a new page is obtained.\<close>

definition turn_page :: "('w, 't, 'c) pipe_ops \<Rightarrow> ('w, 'c) pipe \<Rightarrow> 'c holder \<Rightarrow> int
    \<Rightarrow> ('w, 'c) pipe \<times> 'c holder \<times> int \<times> flow outcome" where
  "turn_page D p m it =
     (case cleanPages D (it + 1) (p\<lparr>pUnwritten := pUnwritten p @ [set_iteration it m]\<rparr>) of
        (p', Inl e) \<Rightarrow> (p', m, it + 1, Inl e)
      | (p', Inr _) \<Rightarrow>
          (case new_holder D p' of
             (p'', m') \<Rightarrow> (p'', m', it + 1, Inr (if hLocation m' = None then Leave else Go))))"

text \<open>The handlers around the source and the executors also create the new page's container, outside
  any \<open>try\<close>.\<close>

definition turn_page_sink :: "('w, 't, 'c) pipe_ops \<Rightarrow> ('w, 'c) pipe \<Rightarrow> 'c holder \<Rightarrow> int
    \<Rightarrow> ('w, 'c) pipe \<times> 'c holder \<times> int \<times> flow outcome" where
  "turn_page_sink D p m it =
     (case turn_page D p m it of
        (p', m', it', Inl e) \<Rightarrow> (p', m', it', Inl e)
      | (p', m', it', Inr Leave) \<Rightarrow> (p', m', it', Inr Leave)
      | (p', m', it', Inr Go) \<Rightarrow>
          (case new_sink D p' of
             (p'', Inl e) \<Rightarrow> (p'', m', it', Inl e)
           | (p'', Inr c) \<Rightarrow> (p'', m'\<lparr>hSink := Some c\<rparr>, it', Inr Go)))"

text \<open>The next chunk, with one retry on a new page.\<close>

definition run_next :: "('w, 't, 'c) pipe_ops \<Rightarrow> ('w, 'c) pipe \<Rightarrow> 'c holder \<Rightarrow> int
    \<Rightarrow> ('w, 'c) pipe \<times> 'c holder \<times> int \<times> (flow \<times> 't option) outcome" where
  "run_next D p m it =
     (case opNext D (pWorld p) of
        (w, Inl NotEnoughSpace) \<Rightarrow>
          (case turn_page_sink D (p\<lparr>pWorld := w\<rparr>) m it of
             (p', m', it', Inl e) \<Rightarrow> (p', m', it', Inl e)
           | (p', m', it', Inr Leave) \<Rightarrow> (p', m', it', Inr (Leave, None))
           | (p', m', it', Inr Go) \<Rightarrow>
               (case opNext D (pWorld p') of
                  (w', Inl NotEnoughSpace) \<Rightarrow> (p'\<lparr>pWorld := w'\<rparr>, m', it', Inl (FatalExit 1))
                | (w', Inl e) \<Rightarrow> (p'\<lparr>pWorld := w'\<rparr>, m', it', Inl e)
                | (w', Inr t) \<Rightarrow> (p'\<lparr>pWorld := w'\<rparr>, m', it', Inr (Go, t))))
      | (w, Inl e) \<Rightarrow> (p\<lparr>pWorld := w\<rparr>, m, it, Inl e)
      | (w, Inr t) \<Rightarrow> (p\<lparr>pWorld := w\<rparr>, m, it, Inr (Go, t)))"

text \<open>The executors, each with one retry on a new page.\<close>

fun run_stages :: "('w, 't, 'c) pipe_ops \<Rightarrow> ('w \<Rightarrow> 't option \<Rightarrow> 'w \<times> 't option outcome) list
    \<Rightarrow> ('w, 'c) pipe \<Rightarrow> 'c holder \<Rightarrow> int \<Rightarrow> 't option
    \<Rightarrow> ('w, 'c) pipe \<times> 'c holder \<times> int \<times> (flow \<times> 't option) outcome" where
  "run_stages D [] p m it t = (p, m, it, Inr (Go, t))"
| "run_stages D (q # qs) p m it t =
     (case q (pWorld p) t of
        (w, Inl NotEnoughSpace) \<Rightarrow>
          (case turn_page_sink D (p\<lparr>pWorld := w\<rparr>) m it of
             (p', m', it', Inl e) \<Rightarrow> (p', m', it', Inl e)
           | (p', m', it', Inr Leave) \<Rightarrow> (p', m', it', Inr (Leave, None))
           | (p', m', it', Inr Go) \<Rightarrow>
               (case q (pWorld p') t of
                  (w', Inl NotEnoughSpace) \<Rightarrow> (p'\<lparr>pWorld := w'\<rparr>, m', it', Inl (FatalExit 1))
                | (w', Inl e) \<Rightarrow> (p'\<lparr>pWorld := w'\<rparr>, m', it', Inl e)
                | (w', Inr t') \<Rightarrow> run_stages D qs (p'\<lparr>pWorld := w'\<rparr>) m' it' t'))
      | (w, Inl e) \<Rightarrow> (p\<lparr>pWorld := w\<rparr>, m, it, Inl e)
      | (w, Inr t') \<Rightarrow> run_stages D qs (p\<lparr>pWorld := w\<rparr>) m it t')"

text \<open>One round of the loop around \<open>writeOut\<close>: both the creation of a missing container and \<open>writeOut\<close>
  are inside the \<open>try\<close>. The first component says whether the chunk is written.\<close>

definition write_round :: "('w, 't, 'c) pipe_ops \<Rightarrow> ('w, 'c) pipe \<Rightarrow> 'c holder \<Rightarrow> int \<Rightarrow> 't option
    \<Rightarrow> bool \<times> ('w, 'c) pipe \<times> 'c holder \<times> int \<times> flow outcome" where
  "write_round D p m it t =
     (case (case hSink m of Some c \<Rightarrow> (p, Inr c) | None \<Rightarrow> new_sink D p) of
        (p1, Inl NotEnoughSpace) \<Rightarrow> (False, turn_page D p1 m it)
      | (p1, Inl e) \<Rightarrow> (False, p1, m, it, Inl e)
      | (p1, Inr c) \<Rightarrow>
          (case opWriteOut D (pWorld p1) t c of
             (w, c', Inr _) \<Rightarrow> (True, p1\<lparr>pWorld := w\<rparr>, m\<lparr>hSink := Some c'\<rparr>, it, Inr Go)
           | (w, c', Inl NotEnoughSpace) \<Rightarrow>
               (False, turn_page D (p1\<lparr>pWorld := w\<rparr>) (m\<lparr>hSink := Some c'\<rparr>) it)
           | (w, c', Inl e) \<Rightarrow> (False, p1\<lparr>pWorld := w\<rparr>, m\<lparr>hSink := Some c'\<rparr>, it, Inl e)))"

text \<open>Both loops can go on for ever; \<open>n\<close> bounds their rounds, and \<open>None\<close> is reaching the bound.\<close>

fun run_write :: "('w, 't, 'c) pipe_ops \<Rightarrow> nat \<Rightarrow> ('w, 'c) pipe \<Rightarrow> 'c holder \<Rightarrow> int \<Rightarrow> 't option
    \<Rightarrow> (('w, 'c) pipe \<times> 'c holder \<times> int \<times> flow outcome) option" where
  "run_write D 0 p m it t = None"
| "run_write D (Suc n) p m it t =
     (case write_round D p m it t of
        (False, p', m', it', Inr Go) \<Rightarrow> run_write D n p' m' it' t
      | (_, r) \<Rightarrow> Some r)"

fun run_loop :: "('w, 't, 'c) pipe_ops \<Rightarrow> nat \<Rightarrow> ('w, 'c) pipe \<Rightarrow> 'c holder \<Rightarrow> int
    \<Rightarrow> (('w, 'c) pipe \<times> 'c holder \<times> int \<times> flow outcome) option" where
  "run_loop D 0 p m it = None"
| "run_loop D (Suc n) p m it =
     (case run_next D p m it of
        (p1, m1, it1, Inl e) \<Rightarrow> Some (p1, m1, it1, Inl e)
      | (p1, m1, it1, Inr (Leave, _)) \<Rightarrow> Some (p1, m1, it1, Inr Leave)
      | (p1, m1, it1, Inr (Go, None)) \<Rightarrow> Some (p1, m1, it1, Inr Go)
      | (p1, m1, it1, Inr (Go, Some t)) \<Rightarrow>
          (case run_stages D (opStages D) p1 m1 it1 (Some t) of
             (p2, m2, it2, Inl e) \<Rightarrow> Some (p2, m2, it2, Inl e)
           | (p2, m2, it2, Inr (Leave, _)) \<Rightarrow> Some (p2, m2, it2, Inr Leave)
           | (p2, m2, it2, Inr (Go, t')) \<Rightarrow>
               (case run_write D n p2 m2 it2 t' of
                  None \<Rightarrow> None
                | Some (p3, m3, it3, Inr Go) \<Rightarrow> run_loop D n p3 m3 it3
                | Some r \<Rightarrow> Some r)))"

text \<open>\<open>run\<close>. The second component is how it ended: with all data written (\<open>Go\<close>), by returning early
  because there was no further page (\<open>Leave\<close>), or by an exception, which drops the current page.\<close>

definition pipe_run :: "('w, 't, 'c) pipe_ops \<Rightarrow> nat \<Rightarrow> ('w, 'c) pipe \<Rightarrow> (('w, 'c) pipe \<times> flow outcome) option" where
  "pipe_run D n p =
     (case new_holder D p of
        (p1, m) \<Rightarrow>
          if hLocation m = None then Some (p1, Inl (FatalExit 1))
          else (case new_sink D p1 of
            (p2, Inl e) \<Rightarrow> Some (p2, Inl e)
          | (p2, Inr c) \<Rightarrow>
              (case run_loop D n p2 (m\<lparr>hSink := Some c\<rparr>) 0 of
                 None \<Rightarrow> None
               | Some (p3, m3, it3, Inr Go) \<Rightarrow>
                   Some (p3\<lparr>pUnwritten := pUnwritten p3 @ [set_iteration it3 m3]\<rparr>, Inr Go)
               | Some (p3, m3, it3, r) \<Rightarrow> Some (p3, r))))"

end
