(* ===== verification/PipelineFacts.thy ===== *)
theory PipelineFacts
  imports Pipelines
begin

text \<open>
  What a pipeline does with its pages: every page it gets is given back once, in the order in which it
  was obtained, or is still in the queue; an exception loses at most the current one.
\<close>

section \<open>Pages\<close>

fun gots :: "'c page_event list \<Rightarrow> nat list" where
  "gots [] = []"
| "gots (GotPage l # es) = l # gots es"
| "gots (_ # es) = gots es"

fun gives :: "'c page_event list \<Rightarrow> nat list" where
  "gives [] = []"
| "gives (WroteBack l c # es) = l # gives es"
| "gives (Discarded l # es) = l # gives es"
| "gives (_ # es) = gives es"

fun outputs :: "'c page_event list \<Rightarrow> 'c list" where
  "outputs [] = []"
| "outputs (WroteBack l c # es) = c # outputs es"
| "outputs (_ # es) = outputs es"

lemma gots_append [simp]: "gots (es @ fs) = gots es @ gots fs"
  by (induction es rule: gots.induct) auto

lemma gives_append [simp]: "gives (es @ fs) = gives es @ gives fs"
  by (induction es rule: gives.induct) auto

lemma outputs_append [simp]: "outputs (es @ fs) = outputs es @ outputs fs"
  by (induction es rule: outputs.induct) auto

definition locs :: "'c holder list \<Rightarrow> nat list" where
  "locs hs = List.map_filter hLocation hs"

definition sinks :: "'c holder list \<Rightarrow> 'c list" where
  "sinks hs = List.map_filter hSink hs"

lemma locs_simps [simp]:
  "locs [] = []" "locs (hs @ gs) = locs hs @ locs gs"
  "locs (h # hs) = (case hLocation h of None \<Rightarrow> [] | Some l \<Rightarrow> [l]) @ locs hs"
  by (auto simp: locs_def map_filter_def split: option.splits)

lemma sinks_simps [simp]:
  "sinks [] = []" "sinks (hs @ gs) = sinks hs @ sinks gs"
  "sinks (h # hs) = (case hSink h of None \<Rightarrow> [] | Some c \<Rightarrow> [c]) @ sinks hs"
  by (auto simp: sinks_def map_filter_def split: option.splits)

lemma locs_rev [simp]: "locs (rev hs) = rev (locs hs)"
  by (simp add: locs_def map_filter_def rev_map rev_filter)

lemma set_iteration_simps [simp]:
  "hLocation (set_iteration it h) = hLocation h" "hSink (set_iteration it h) = hSink h"
  "hIteration (set_iteration it h) = it"
  by (simp_all add: set_iteration_def)

definition all_located :: "'c holder list \<Rightarrow> bool" where
  "all_located hs \<longleftrightarrow> (\<forall>h \<in> set hs. hLocation h \<noteq> None)"

lemma all_located_simps [simp]:
  "all_located []" "all_located (h # hs) \<longleftrightarrow> hLocation h \<noteq> None \<and> all_located hs"
  "all_located (hs @ gs) \<longleftrightarrow> all_located hs \<and> all_located gs" "all_located (rev hs) \<longleftrightarrow> all_located hs"
  by (auto simp: all_located_def)

lemma new_sink_fields:
  assumes "new_sink D p = (p', r)"
  shows "p' = p\<lparr>pWorld := fst (opNewSink D (pWorld p))\<rparr>" "r = snd (opNewSink D (pWorld p))"
  using assms by (auto simp: new_sink_def split: prod.splits)

lemma give_back_pages:
  assumes "give_back D it h p = (p', r)" "hLocation h = Some l"
  shows "pDelay p' = pDelay p" "gots (pTrace p') = gots (pTrace p)"
    "r = Inr () \<Longrightarrow> gives (pTrace p') = gives (pTrace p) @ [l]
       \<and> outputs (pTrace p') = outputs (pTrace p) @ (case hSink h of None \<Rightarrow> [] | Some c \<Rightarrow> [c])"
    "r = Inl e \<Longrightarrow> pTrace p' = pTrace p"
  using assms by (auto simp: give_back_def new_sink_def Let_def split: option.splits prod.splits sum.splits)

text \<open>Cleaning moves a prefix of the queue into the trace.\<close>

lemma clean_queue_pages:
  assumes "clean_queue D it hs p = (p', r)" "all_located hs"
  shows "\<exists>k \<le> length hs. pUnwritten p' = drop k hs \<and> pDelay p' = pDelay p \<and> gots (pTrace p') = gots (pTrace p)
    \<and> gives (pTrace p') = gives (pTrace p) @ locs (take k hs)
    \<and> outputs (pTrace p') = outputs (pTrace p) @ sinks (take k hs)
    \<and> (r = Inr () \<longrightarrow> k < length hs \<longrightarrow> it \<le> hIteration (hs ! k) + pDelay p)"
  using assms
proof (induction hs arbitrary: p)
  case Nil
  then show ?case by auto
next
  case (Cons h hs)
  obtain l where l: "hLocation h = Some l" using Cons.prems(2) by auto
  show ?case
  proof (cases "hIteration h + pDelay p < it")
    case False
    then have "p' = p\<lparr>pUnwritten := h # hs\<rparr>" using Cons.prems(1) by auto
    then show ?thesis using False by (intro exI[of _ 0]) auto
  next
    case True
    obtain p1 r1 where g: "give_back D it h p = (p1, r1)" by (cases "give_back D it h p")
    note gb = give_back_pages[OF g l]
    show ?thesis
    proof (cases r1)
      case (Inl e)
      then have "p' = p1\<lparr>pUnwritten := h # hs\<rparr>" "r = Inl e" using Cons.prems(1) True g by auto
      then show ?thesis using gb(1) gb(4)[OF Inl] by (intro exI[of _ 0]) auto
    next
      case (Inr u)
      then have c: "clean_queue D it hs p1 = (p', r)" using Cons.prems(1) True g by simp
      obtain k where k: "k \<le> length hs" "pUnwritten p' = drop k hs" "pDelay p' = pDelay p1"
        "gots (pTrace p') = gots (pTrace p1)" "gives (pTrace p') = gives (pTrace p1) @ locs (take k hs)"
        "outputs (pTrace p') = outputs (pTrace p1) @ sinks (take k hs)"
        "r = Inr () \<longrightarrow> k < length hs \<longrightarrow> it \<le> hIteration (hs ! k) + pDelay p1"
        using Cons.IH[OF c] Cons.prems(2) by auto
      show ?thesis using k gb Inr l by (intro exI[of _ "Suc k"]) auto
    qed
  qed
qed

text \<open>The books of a running pipeline: \<open>cur\<close> are the pages that are in nobody's queue.\<close>

definition acct :: "('w, 'c) pipe \<Rightarrow> nat list \<Rightarrow> bool" where
  "acct p cur \<longleftrightarrow> pDelay p = 4 \<and> all_located (pUnwritten p)
     \<and> gots (pTrace p) = gives (pTrace p) @ locs (pUnwritten p) @ cur
     \<and> (\<forall>h \<in> set (pUnwritten p). hIteration h < int (length (gots (pTrace p))))"

lemma acct_world [simp]: "acct (p\<lparr>pWorld := w\<rparr>) cur = acct p cur"
  by (simp add: acct_def)

lemma cleanPages_acct:
  assumes "cleanPages D it p = (p', r)" "acct p cur"
  shows "acct p' cur" "gots (pTrace p') = gots (pTrace p)"
proof -
  obtain k where k: "k \<le> length (pUnwritten p)" "pUnwritten p' = drop k (pUnwritten p)" "pDelay p' = pDelay p"
    "gots (pTrace p') = gots (pTrace p)" "gives (pTrace p') = gives (pTrace p) @ locs (take k (pUnwritten p))"
    using clean_queue_pages[OF assms(1)[unfolded cleanPages_def]] assms(2) by (auto simp: acct_def)
  have "locs (take k (pUnwritten p)) @ locs (drop k (pUnwritten p)) = locs (pUnwritten p)"
    by (simp flip: locs_simps(2))
  then show "acct p' cur" using assms(2) k
    by (auto simp: acct_def all_located_def dest: in_set_dropD)
  show "gots (pTrace p') = gots (pTrace p)" by (rule k(4))
qed

text \<open>The current page \<open>m\<close> and the counter.\<close>

definition current :: "('w, 'c) pipe \<Rightarrow> 'c holder \<Rightarrow> int \<Rightarrow> bool" where
  "current p m it \<longleftrightarrow> hLocation m \<noteq> None \<and> acct p (locs [m]) \<and> it < int (length (gots (pTrace p)))"

lemma current_simps [simp]:
  "current (p\<lparr>pWorld := w\<rparr>) m it = current p m it" "current p (m\<lparr>hSink := s\<rparr>) it = current p m it"
  by (auto simp: current_def)

lemma new_sink_current [simp]: "new_sink D p = (p', r) \<Longrightarrow> current p' m it = current p m it"
  using new_sink_fields(1) by fastforce

lemma new_holder_acct:
  assumes "new_holder D p = (p', m)" "acct p []"
  shows "hLocation m = None \<Longrightarrow> acct p' []"
    "hLocation m \<noteq> None \<Longrightarrow> acct p' (locs [m]) \<and> length (gots (pTrace p')) = Suc (length (gots (pTrace p)))"
    "hSink m = None"
proof -
  have b: "\<forall>h \<in> set (pUnwritten p). hIteration h < int (length (gots (pTrace p))) + 1"
    using assms(2) by (force simp: acct_def)
  show "hLocation m = None \<Longrightarrow> acct p' []" "hSink m = None"
    using assms by (auto simp: new_holder_def split: prod.splits option.splits)
  show "hLocation m \<noteq> None \<Longrightarrow> acct p' (locs [m]) \<and> length (gots (pTrace p')) = Suc (length (gots (pTrace p)))"
    using assms b by (auto simp: new_holder_def acct_def add.commute split: prod.splits option.splits)
qed

lemma turn_page_current:
  assumes "turn_page D p m it = (p', m', it', r)" "current p m it"
  shows "case r of Inr Go \<Rightarrow> current p' m' it' \<and> hSink m' = None | Inr Leave \<Rightarrow> acct p' [] | Inl e \<Rightarrow> acct p' []"
proof -
  let ?q = "p\<lparr>pUnwritten := pUnwritten p @ [set_iteration it m]\<rparr>"
  have q: "acct ?q []" using assms(2) by (auto simp: current_def acct_def)
  obtain p1 r1 where c: "cleanPages D (it + 1) ?q = (p1, r1)" by (cases "cleanPages D (it + 1) ?q")
  note a = cleanPages_acct[OF c q]
  show ?thesis
  proof (cases r1)
    case (Inl e)
    then show ?thesis using assms(1) c a by (auto simp: turn_page_def)
  next
    case (Inr u)
    obtain p2 m2 where n: "new_holder D p1 = (p2, m2)" by (cases "new_holder D p1")
    have r: "p' = p2" "m' = m2" "it' = it + 1" "r = Inr (if hLocation m2 = None then Leave else Go)"
      using assms(1) c Inr n by (auto simp: turn_page_def)
    have l: "length (gots (pTrace p1)) = length (gots (pTrace p))" using a(2) by simp
    show ?thesis using new_holder_acct[OF n a(1)] l assms(2) unfolding r by (auto simp: current_def)
  qed
qed

lemma current_lost: "current p m it \<Longrightarrow> \<exists>cur. acct p cur \<and> length cur \<le> 1"
  by (auto simp: current_def intro!: exI[of _ "locs [m]"] split: option.splits)

lemma none_lost: "acct p [] \<Longrightarrow> \<exists>cur. acct p cur \<and> length cur \<le> 1"
  by (rule exI[of _ "[]"]) simp

lemma turn_page_sink_current:
  assumes "turn_page_sink D p m it = (p', m', it', r)" "current p m it"
  shows "case r of Inr Go \<Rightarrow> current p' m' it' | Inr Leave \<Rightarrow> acct p' [] | Inl e \<Rightarrow> \<exists>cur. acct p' cur \<and> length cur \<le> 1"
proof -
  obtain p1 m1 it1 r1 where t: "turn_page D p m it = (p1, m1, it1, r1)" by (cases "turn_page D p m it") auto
  note tp = turn_page_current[OF t assms(2)]
  obtain p2 r2 where s: "new_sink D p1 = (p2, r2)" by (cases "new_sink D p1")
  show ?thesis
  proof (cases r1)
    case (Inl e)
    then show ?thesis using assms(1) t tp none_lost[of p1] by (auto simp: turn_page_sink_def)
  next
    case (Inr fl)
    then show ?thesis using assms(1) t tp s new_sink_current[OF s] current_lost[of p2 m1 it1]
      by (cases fl; cases r2) (auto simp: turn_page_sink_def)
  qed
qed

text \<open>How a step of the run ends: \<open>good\<close> when it goes on.\<close>

definition ends_acct :: "('w, 'c) pipe \<Rightarrow> 'c holder \<Rightarrow> int \<Rightarrow> flow outcome \<Rightarrow> bool" where
  "ends_acct p m it r \<longleftrightarrow>
     (case r of Inr Go \<Rightarrow> current p m it | Inr Leave \<Rightarrow> acct p [] | Inl e \<Rightarrow> \<exists>cur. acct p cur \<and> length cur \<le> 1)"

lemma ends_acct_simps [simp]:
  "ends_acct p m it (Inr Go) = current p m it" "ends_acct p m it (Inr Leave) = acct p []"
  "ends_acct p m it (Inl e) = (\<exists>cur. acct p cur \<and> length cur \<le> 1)"
  by (simp_all add: ends_acct_def)

lemma turn_page_sink_ends: "turn_page_sink D p m it = (p', m', it', r) \<Longrightarrow> current p m it \<Longrightarrow> ends_acct p' m' it' r"
  using turn_page_sink_current[of D p m it p' m' it' r] by (auto simp: ends_acct_def split: sum.splits flow.splits)

lemma run_next_ends:
  assumes "run_next D p m it = (p', m', it', r)" "current p m it"
  shows "ends_acct p' m' it' (map_sum id fst r)"
proof -
  obtain w r1 where n: "opNext D (pWorld p) = (w, r1)" by (cases "opNext D (pWorld p)")
  have c: "current (p\<lparr>pWorld := w\<rparr>) m it" using assms(2) by simp
  obtain p1 m1 it1 r2 where t: "turn_page_sink D (p\<lparr>pWorld := w\<rparr>) m it = (p1, m1, it1, r2)"
    by (cases "turn_page_sink D (p\<lparr>pWorld := w\<rparr>) m it") auto
  note e = turn_page_sink_ends[OF t c]
  show ?thesis
    using assms n t e current_lost[OF assms(2)] current_lost[of p1 m1 it1]
    by (auto simp: run_next_def split: prod.splits sum.splits fault.splits flow.splits)
qed

lemma run_stages_ends:
  assumes "run_stages D qs p m it t = (p', m', it', r)" "current p m it"
  shows "ends_acct p' m' it' (map_sum id fst r)"
  using assms
proof (induction qs arbitrary: p m it t)
  case Nil
  then show ?case by auto
next
  case (Cons q qs)
  obtain w r1 where n: "q (pWorld p) t = (w, r1)" by (cases "q (pWorld p) t")
  have c: "current (p\<lparr>pWorld := w\<rparr>) m it" using Cons.prems(2) by simp
  obtain p1 m1 it1 r2 where tp: "turn_page_sink D (p\<lparr>pWorld := w\<rparr>) m it = (p1, m1, it1, r2)"
    by (cases "turn_page_sink D (p\<lparr>pWorld := w\<rparr>) m it") auto
  note e = turn_page_sink_ends[OF tp c]
  show ?case
    using Cons.prems n tp e current_lost[OF Cons.prems(2)] current_lost[of p1 m1 it1] Cons.IH
    by (auto split: prod.splits sum.splits fault.splits flow.splits)
qed

lemma write_round_ends:
  assumes "write_round D p m it t = (b, p', m', it', r)" "current p m it"
  shows "ends_acct p' m' it' r"
proof -
  obtain p1 r1 where s: "(case hSink m of Some c \<Rightarrow> (p, Inr c) | None \<Rightarrow> new_sink D p) = (p1, r1)"
    by (cases "case hSink m of Some c \<Rightarrow> (p, Inr c) | None \<Rightarrow> new_sink D p")
  have c1: "current p1 m it" using s assms(2) by (auto split: option.splits)
  have tp: "ends_acct p2 m2 it2 r2" if "turn_page D q k i = (p2, m2, it2, r2)" "current q k i" for q k i p2 m2 it2 r2
    using turn_page_current[OF that] by (auto simp: ends_acct_def intro: exI[of _ "[]"] split: sum.splits flow.splits)
  show ?thesis
  proof (cases r1)
    case (Inl e)
    then show ?thesis using assms(1) s c1 current_lost[OF c1] tp[OF _ c1]
      by (cases e) (auto simp: write_round_def)
  next
    case (Inr c)
    obtain w c' r2 where w: "opWriteOut D (pWorld p1) t c = (w, c', r2)" by (cases "opWriteOut D (pWorld p1) t c") auto
    have c2: "current (p1\<lparr>pWorld := w\<rparr>) (m\<lparr>hSink := Some c'\<rparr>) it" using c1 by simp
    show ?thesis
      using assms(1) s Inr w c2 current_lost[OF c2] tp[OF _ c2]
      by (auto simp: write_round_def split: sum.splits fault.splits)
  qed
qed

text \<open>A round that fails ends with a new page, which has no container yet.\<close>

lemma write_round_fresh:
  assumes "write_round D p m it t = (False, p', m', it', Inr Go)" "current p m it"
  shows "hSink m' = None"
proof -
  obtain p1 r1 where s: "(case hSink m of Some c \<Rightarrow> (p, Inr c) | None \<Rightarrow> new_sink D p) = (p1, r1)"
    by (cases "case hSink m of Some c \<Rightarrow> (p, Inr c) | None \<Rightarrow> new_sink D p")
  have c1: "current p1 m it" using s assms(2) by (auto split: option.splits)
  have tp: "hSink m' = None" if "turn_page D q k it = (p', m', it', Inr Go)" "current q k it" for q k
    using turn_page_current[OF that] by simp
  show ?thesis
  proof (cases r1)
    case (Inl e)
    then show ?thesis using assms(1) s tp[OF _ c1] by (cases e) (auto simp: write_round_def)
  next
    case (Inr c)
    obtain w c' r2 where w: "opWriteOut D (pWorld p1) t c = (w, c', r2)" by (cases "opWriteOut D (pWorld p1) t c") auto
    have c2: "current (p1\<lparr>pWorld := w\<rparr>) (m\<lparr>hSink := Some c'\<rparr>) it" using c1 by simp
    show ?thesis using assms(1) s Inr w tp[OF _ c2] by (auto simp: write_round_def split: sum.splits fault.splits)
  qed
qed

lemma run_write_ends:
  assumes "run_write D n p m it t = Some (p', m', it', r)" "current p m it"
  shows "ends_acct p' m' it' r"
  using assms
proof (induction n arbitrary: p m it)
  case (Suc n)
  obtain b p1 m1 it1 r1 where w: "write_round D p m it t = (b, p1, m1, it1, r1)"
    by (cases "write_round D p m it t") auto
  note e = write_round_ends[OF w Suc.prems(2)]
  show ?case using Suc.prems(1) w e Suc.IH[of p1 m1 it1]
    by (auto split: bool.splits sum.splits flow.splits)
qed simp

lemma run_loop_ends:
  assumes "run_loop D n p m it = Some (p', m', it', r)" "current p m it"
  shows "ends_acct p' m' it' r"
  using assms
proof (induction n arbitrary: p m it)
  case (Suc n)
  obtain p1 m1 it1 r1 where nx: "run_next D p m it = (p1, m1, it1, r1)" by (cases "run_next D p m it") auto
  note e1 = run_next_ends[OF nx Suc.prems(2)]
  obtain p2 m2 it2 r2 where st: "\<And>t. r1 = Inr (Go, Some t) \<Longrightarrow> run_stages D (opStages D) p1 m1 it1 (Some t) = (p2, m2, it2, r2)"
    by (cases r1) (auto, metis prod_cases4)
  show ?case
  proof (cases "\<exists>t. r1 = Inr (Go, Some t)")
    case False
    then show ?thesis using Suc.prems(1) nx e1 by (auto split: sum.splits prod.splits flow.splits option.splits)
  next
    case True
    then obtain t where t: "r1 = Inr (Go, Some t)" by blast
    then have c1: "current p1 m1 it1" using e1 by simp
    note e2 = run_stages_ends[OF st[OF t] c1]
    show ?thesis
    proof (cases "\<exists>t'. r2 = Inr (Go, t')")
      case False
      then show ?thesis using Suc.prems(1) nx t st[OF t] e2 by (auto split: sum.splits prod.splits flow.splits)
    next
      case True
      then obtain t' where t': "r2 = Inr (Go, t')" by blast
      then have c2: "current p2 m2 it2" using e2 by simp
      show ?thesis
        using Suc.prems(1) nx t st[OF t] t' run_write_ends[OF _ c2, of D n t'] Suc.IH
        by (auto split: option.splits sum.splits flow.splits prod.splits)
    qed
  qed
qed simp

text \<open>A run that returns leaves every page it got either given back or in the queue.\<close>

lemma pipe_run_acct:
  assumes "pipe_run D n (pipe_new w) = Some (p, r)"
  shows "r = Inr fl \<Longrightarrow> acct p []" "\<exists>cur. acct p cur \<and> length cur \<le> 1"
proof -
  obtain p1 m where h: "new_holder D (pipe_new w) = (p1, m)" by (cases "new_holder D (pipe_new w)")
  have l: "hLocation m = None \<Longrightarrow> acct p1 []" "hLocation m \<noteq> None \<Longrightarrow> current p1 m 0"
    using h by (auto simp: new_holder_def pipe_new_def acct_def current_def split: prod.splits option.splits)
  obtain p2 r2 where s: "new_sink D p1 = (p2, r2)" by (cases "new_sink D p1")
  have c2: "current p2 (m\<lparr>hSink := c\<rparr>) 0" if "hLocation m \<noteq> None" for c using l(2)[OF that] s by simp
  have fin: "acct (p3\<lparr>pUnwritten := pUnwritten p3 @ [set_iteration it3 m3]\<rparr>) []" if "current p3 m3 it3" for p3 m3 it3
    using that by (auto simp: current_def acct_def)
  have "(\<forall>fl. r = Inr fl \<longrightarrow> acct p []) \<and> (\<exists>cur. acct p cur \<and> length cur \<le> 1)"
  proof (cases "hLocation m = None")
    case True
    then have "p = p1" "r = Inl (FatalExit 1)" using assms h by (auto simp: pipe_run_def)
    then show ?thesis using l(1)[OF True] by (auto intro: exI[of _ "[]"])
  next
    case False
    show ?thesis
    proof (cases r2)
      case (Inl e)
      then have "p = p2" "r = Inl e" using assms h False s by (auto simp: pipe_run_def)
      moreover have "current p2 m 0" using l(2)[OF False] s by simp
      ultimately show ?thesis using current_lost by blast
    next
      case (Inr c)
      then obtain p3 m3 it3 r3 where rl: "run_loop D n p2 (m\<lparr>hSink := Some c\<rparr>) 0 = Some (p3, m3, it3, r3)"
        using assms h False s by (auto simp: pipe_run_def split: option.splits)
      note e = run_loop_ends[OF rl c2[OF False]]
      show ?thesis using assms h False s Inr rl e fin
        by (cases r3) (auto simp: pipe_run_def intro: exI[of _ "[]"] split: flow.splits)
    qed
  qed
  then show "r = Inr fl \<Longrightarrow> acct p []" "\<exists>cur. acct p cur \<and> length cur \<le> 1" by auto
qed

lemma pipe_destroy_pages:
  assumes "acct p []" "pipe_destroy D p = (p', r)" "r = Inr () \<longrightarrow> length (gots (pTrace p)) < 999999990"
  shows "gots (pTrace p') = gots (pTrace p)" "\<exists>rest. mset (gives (pTrace p')) + rest = mset (gots (pTrace p'))"
    "r = Inr () \<Longrightarrow> pUnwritten p' = [] \<and> gives (pTrace p') = gives (pTrace p) @ rev (locs (pUnwritten p))
       \<and> outputs (pTrace p') = outputs (pTrace p) @ rev (sinks (pUnwritten p))"
proof -
  have a: "all_located (rev (pUnwritten p))" using assms(1) by (simp add: acct_def)
  obtain k where k: "k \<le> length (pUnwritten p)" "pUnwritten p' = drop k (rev (pUnwritten p))"
    "gots (pTrace p') = gots (pTrace p)"
    "gives (pTrace p') = gives (pTrace p) @ locs (take k (rev (pUnwritten p)))"
    "outputs (pTrace p') = outputs (pTrace p) @ sinks (take k (rev (pUnwritten p)))"
    "r = Inr () \<longrightarrow> k < length (pUnwritten p) \<longrightarrow> 999999999 \<le> hIteration (rev (pUnwritten p) ! k) + pDelay p"
    using clean_queue_pages[OF _ a, of D 999999999 "p\<lparr>pUnwritten := rev (pUnwritten p)\<rparr>" p' r] assms(2)
    by (auto simp: pipe_destroy_def cleanPages_def)
  show "gots (pTrace p') = gots (pTrace p)" by (rule k(3))
  have "locs (rev (pUnwritten p)) = locs (take k (rev (pUnwritten p))) @ locs (drop k (rev (pUnwritten p)))"
    by (simp flip: locs_simps(2) del: locs_rev)
  then have "mset (locs (pUnwritten p)) = mset (locs (take k (rev (pUnwritten p)))) + mset (locs (drop k (rev (pUnwritten p))))"
    by (metis locs_rev mset_append mset_rev)
  then show "\<exists>rest. mset (gives (pTrace p')) + rest = mset (gots (pTrace p'))"
    using assms(1) k(3,4) by (auto simp: acct_def intro: exI[of _ "mset (locs (drop k (rev (pUnwritten p))))"])
  show "pUnwritten p' = [] \<and> gives (pTrace p') = gives (pTrace p) @ rev (locs (pUnwritten p))
      \<and> outputs (pTrace p') = outputs (pTrace p) @ rev (sinks (pUnwritten p))" if r: "r = Inr ()"
  proof -
    have "k = length (pUnwritten p)"
    proof (rule ccontr)
      assume "k \<noteq> length (pUnwritten p)"
      then have "k < length (pUnwritten p)" using k(1) by simp
      then have "rev (pUnwritten p) ! k \<in> set (pUnwritten p)" by (metis length_rev nth_mem set_rev)
      then have "hIteration (rev (pUnwritten p) ! k) < int (length (gots (pTrace p)))" "pDelay p = 4"
        using assms(1) by (auto simp: acct_def)
      then show False using k(6) r assms(3) \<open>k < length (pUnwritten p)\<close> by simp
    qed
    then show ?thesis using k by (simp add: sinks_def map_filter_def rev_map rev_filter)
  qed
qed

end
