(* ===== verification/PipelineRows.thy ===== *)
theory PipelineRows
  imports PipelineFacts "HOL-Library.Sublist"
begin

text \<open>
  The contract between a pipeline and its parts, the locale \<open>pipe_parts\<close>, and what follows from it:
  the containers of the pages hold the rows of the source, in order, with none lost or repeated, and
  the run ends when every new page takes at least one row.

  \<open>todo\<close> are the chunks still to come from the source, each as the list of rows that will be written
  for it; \<open>rows k w t\<close> are those of the chunk in tuple set \<open>t\<close> before executor number \<open>k\<close>; \<open>holds c rs\<close>
  says that the rows \<open>rs\<close> and no others have been written into container \<open>c\<close>.
\<close>

definition keeps :: "('w \<Rightarrow> bool) \<Rightarrow> ('w \<Rightarrow> 'r list list) \<Rightarrow> (nat \<Rightarrow> 'w \<Rightarrow> 't \<Rightarrow> 'r list option) \<Rightarrow> 'w \<Rightarrow> 'w \<Rightarrow> bool" where
  "keeps winv todo rows w w' \<longleftrightarrow> winv w' \<and> todo w' = todo w \<and> (\<forall>k t. rows k w' t = rows k w t)"

lemma same_trans: "keeps i td rw a b \<Longrightarrow> keeps i td rw b c \<Longrightarrow> keeps i td rw a c"
  by (auto simp: keeps_def)

lemma same_refl: "i w \<Longrightarrow> keeps i td rw w w"
  by (simp add: keeps_def)

definition held :: "('c \<Rightarrow> 'r list \<Rightarrow> bool) \<Rightarrow> ('w, 'c) pipe \<Rightarrow> 'c holder list \<Rightarrow> 'r list \<Rightarrow> bool" where
  "held holds p ms fin \<longleftrightarrow>
     (\<exists>segs. list_all2 holds (outputs (pTrace p) @ sinks (pUnwritten p @ ms)) segs \<and> concat segs = fin)"

lemma held_world [simp]: "held H (p\<lparr>pWorld := w\<rparr>) ms fin = held H p ms fin"
  by (simp add: held_def)

lemma held_fresh: "held H p [] fin \<Longrightarrow> hSink m = None \<Longrightarrow> held H p [m] fin"
  by (simp add: held_def)

lemma held_none [simp]: "hSink m = None \<Longrightarrow> held H p [m] fin = held H p [] fin"
  by (simp add: held_def)

lemma held_fresh_sink:
  assumes "held H p [] fin" "H c []" "hSink m = Some c"
  shows "held H p [m] fin"
proof -
  obtain segs where s: "list_all2 H (outputs (pTrace p) @ sinks (pUnwritten p)) segs" "concat segs = fin"
    using assms(1) by (auto simp: held_def)
  then have "list_all2 H ((outputs (pTrace p) @ sinks (pUnwritten p)) @ [c]) (segs @ [[]])"
    using assms(2) by (intro list_all2_appendI) auto
  then show ?thesis unfolding held_def using assms(3) s(2) by (intro exI[of _ "segs @ [[]]"]) simp
qed

lemma held_put: "held H p [] fin \<Longrightarrow> H c [] \<Longrightarrow> held H p [m\<lparr>hSink := Some c\<rparr>] fin"
  by (rule held_fresh_sink) simp_all

lemma put_same: "hSink m = Some c \<Longrightarrow> m\<lparr>hSink := Some c\<rparr> = m"
  by simp

lemma held_queue: "held H p [m] fin \<Longrightarrow> held H (p\<lparr>pUnwritten := pUnwritten p @ [set_iteration it m]\<rparr>) [] fin"
  by (simp add: held_def)

text \<open>The last segment belongs to the current page.\<close>

lemma held_last:
  assumes "held H p [m] fin" "hSink m = Some c"
  obtains old where "H c old" "\<And>c' more. H c' (old @ more) \<Longrightarrow> held H p [m\<lparr>hSink := Some c'\<rparr>] (fin @ more)"
proof -
  let ?cs = "outputs (pTrace p) @ sinks (pUnwritten p)"
  obtain segs where s: "list_all2 H (?cs @ [c]) segs" "concat segs = fin"
    using assms by (auto simp: held_def)
  then obtain pre old where o: "segs = pre @ [old]" "list_all2 H ?cs pre" "H c old"
    by (auto simp: list_all2_append1 list_all2_Cons1 simp del: append_assoc)
  have "held H p [m\<lparr>hSink := Some c'\<rparr>] (fin @ more)" if "H c' (old @ more)" for c' more
  proof -
    have "list_all2 H (?cs @ [c']) (pre @ [old @ more])" using o(2) that by (intro list_all2_appendI) auto
    moreover have "concat (pre @ [old @ more]) = fin @ more" using s(2) o(1) by simp
    ultimately show ?thesis unfolding held_def by (intro exI[of _ "pre @ [old @ more]"]) simp
  qed
  with o(3) show thesis using that by blast
qed

locale pipe_parts =
  fixes D :: "('w, 't, 'c) pipe_ops"
    and winv :: "'w \<Rightarrow> bool"
    and todo :: "'w \<Rightarrow> 'r list list"
    and rows :: "nat \<Rightarrow> 'w \<Rightarrow> 't \<Rightarrow> 'r list option"
    and holds :: "'c \<Rightarrow> 'r list \<Rightarrow> bool"
  assumes new_page: "winv w \<Longrightarrow> keeps winv todo rows w (fst (opNewPage D w))"
    and open_block: "winv w \<Longrightarrow> keeps winv todo rows w (opOpenBlock D loc n w)"
    and scratch: "winv w \<Longrightarrow> keeps winv todo rows w (opScratchBlock D n w)"
    and write_back: "winv w \<Longrightarrow> keeps winv todo rows w (opWriteBack D l c w)"
    and discard: "winv w \<Longrightarrow> keeps winv todo rows w (opDiscard D l w)"
    and make_sink: "winv w \<Longrightarrow> opNewSink D w = (w', made) \<Longrightarrow> keeps winv todo rows w w' \<and> (\<forall>c. made = Inr c \<longrightarrow> holds c [])"
    and next_full: "winv w \<Longrightarrow> opNext D w = (w', Inl NotEnoughSpace) \<Longrightarrow> keeps winv todo rows w w'"
    and next_end: "winv w \<Longrightarrow> opNext D w = (w', Inr None) \<Longrightarrow> todo w = []"
    and next_chunk: "winv w \<Longrightarrow> opNext D w = (w', Inr (Some t)) \<Longrightarrow>
        winv w' \<and> (\<exists>rs. rows 0 w' t = Some rs \<and> todo w = rs # todo w')"
    and stage_full: "winv w \<Longrightarrow> k < length (opStages D) \<Longrightarrow> rows k w t = Some rs \<Longrightarrow>
        (opStages D ! k) w (Some t) = (w', Inl NotEnoughSpace) \<Longrightarrow> winv w' \<and> todo w' = todo w \<and> rows k w' t = Some rs"
    and stage_done: "winv w \<Longrightarrow> k < length (opStages D) \<Longrightarrow> rows k w t = Some rs \<Longrightarrow>
        (opStages D ! k) w (Some t) = (w', Inr r) \<Longrightarrow>
        winv w' \<and> todo w' = todo w \<and> (\<exists>t'. r = Some t' \<and> rows (Suc k) w' t' = Some rs)"
    and write_done: "winv w \<Longrightarrow> rows (length (opStages D)) w t = Some rs \<Longrightarrow> holds c old \<Longrightarrow>
        opWriteOut D w (Some t) c = (w', c', Inr u) \<Longrightarrow> winv w' \<and> todo w' = todo w \<and> holds c' (old @ rs)"
    and write_full: "winv w \<Longrightarrow> rows (length (opStages D)) w t = Some rs \<Longrightarrow> holds c old \<Longrightarrow>
        opWriteOut D w (Some t) c = (w', c', Inl NotEnoughSpace) \<Longrightarrow>
        winv w' \<and> todo w' = todo w
        \<and> (\<exists>i \<le> length rs. holds c' (old @ take i rs) \<and> rows (length (opStages D)) w' t = Some (drop i rs))"
begin

abbreviation "same \<equiv> keeps winv todo rows"

lemma same_inv: "same w w' \<Longrightarrow> winv w'"
  by (simp add: keeps_def)

lemma new_sink_same:
  assumes "new_sink D p = (p', r)" "winv (pWorld p)"
  shows "same (pWorld p) (pWorld p')" "r = Inr c \<Longrightarrow> holds c []" "held holds p' ms fin = held holds p ms fin"
  using assms make_sink by (fastforce simp: new_sink_def held_def split: prod.splits)+

lemma give_back_same:
  assumes "give_back D it h p = (p', r)" "winv (pWorld p)"
  shows "same (pWorld p) (pWorld p')"
proof (cases "hLocation h")
  case None
  then show ?thesis using assms by (auto simp: give_back_def same_refl)
next
  case (Some l)
  show ?thesis
  proof (cases "hSink h")
    case None
    obtain p1 r1 where s: "new_sink D p = (p1, r1)" by (cases "new_sink D p")
    note n = new_sink_same(1)[OF s assms(2)]
    show ?thesis using assms(1) None Some s n same_trans[OF n discard[OF same_inv[OF n]]]
      by (auto simp: give_back_def split: sum.splits)
  next
    case (Some c)
    then show ?thesis using assms \<open>hLocation h = Some l\<close> write_back scratch[OF assms(2)]
        same_trans[OF scratch[OF assms(2)] write_back[OF same_inv[OF scratch[OF assms(2)]]]]
      by (auto simp: give_back_def Let_def split: if_splits)
  qed
qed

lemma clean_queue_same:
  assumes "clean_queue D it hs p = (p', r)" "winv (pWorld p)"
  shows "same (pWorld p) (pWorld p')"
  using assms
proof (induction hs arbitrary: p)
  case Nil
  then show ?case by (auto simp: same_refl)
next
  case (Cons h hs)
  obtain p1 r1 where g: "give_back D it h p = (p1, r1)" by (cases "give_back D it h p")
  note s = give_back_same[OF g Cons.prems(2)]
  have "same (pWorld p1) (pWorld p')" if "clean_queue D it hs p1 = (p', r)"
    by (rule Cons.IH[OF that same_inv[OF s]])
  then show ?case using Cons.prems g s same_trans[OF s]
    by (auto simp: same_refl split: if_splits sum.splits)
qed

lemma cleanPages_held:
  assumes "cleanPages D it p = (p', r)" "winv (pWorld p)" "all_located (pUnwritten p)"
  shows "same (pWorld p) (pWorld p')" "held holds p' [] fin = held holds p [] fin"
proof -
  show "same (pWorld p) (pWorld p')" using clean_queue_same assms(1,2) unfolding cleanPages_def by blast
  obtain k where k: "pUnwritten p' = drop k (pUnwritten p)"
    "outputs (pTrace p') = outputs (pTrace p) @ sinks (take k (pUnwritten p))"
    using clean_queue_pages[OF assms(1)[unfolded cleanPages_def] assms(3)] by auto
  have "sinks (take k (pUnwritten p)) @ sinks (drop k (pUnwritten p)) = sinks (pUnwritten p)"
    by (simp flip: sinks_simps(2))
  then show "held holds p' [] fin = held holds p [] fin" using k by (simp add: held_def)
qed

lemma turn_page_held:
  assumes "turn_page D p m it = (p', m', it', r)" "current p m it" "winv (pWorld p)" "held holds p [m] fin"
  shows "same (pWorld p) (pWorld p')" "held holds p' [] fin"
proof -
  let ?q = "p\<lparr>pUnwritten := pUnwritten p @ [set_iteration it m]\<rparr>"
  have q: "winv (pWorld ?q)" "all_located (pUnwritten ?q)" using assms(2,3) by (auto simp: current_def acct_def)
  obtain p1 r1 where c: "cleanPages D (it + 1) ?q = (p1, r1)" by (cases "cleanPages D (it + 1) ?q")
  have s1: "same (pWorld p) (pWorld p1)" using cleanPages_held(1)[OF c q] by simp
  have h1: "held holds p1 [] fin" using cleanPages_held(2)[OF c q] held_queue[OF assms(4)] by simp
  obtain w loc n where np: "opNewPage D (pWorld p1) = (w, loc, n)" by (cases "opNewPage D (pWorld p1)") auto
  have s2: "same (pWorld p1) w" using new_page[OF same_inv[OF s1]] np by simp
  have s3: "same (pWorld p) (opOpenBlock D loc n w)"
    using same_trans[OF s1 same_trans[OF s2 open_block[OF same_inv[OF s2]]]] .
  show "same (pWorld p) (pWorld p')" "held holds p' [] fin"
    using assms(1) c s1 s3 h1 np
    by (cases r1; auto simp: turn_page_def new_holder_def held_def split: option.splits)+
qed

lemma turn_page_sink_held:
  assumes "turn_page_sink D p m it = (p', m', it', r)" "current p m it" "winv (pWorld p)" "held holds p [m] fin"
  shows "same (pWorld p) (pWorld p')" "r = Inr Leave \<Longrightarrow> held holds p' [] fin" "r = Inr Go \<Longrightarrow> held holds p' [m'] fin"
proof -
  obtain p1 m1 it1 r1 where t: "turn_page D p m it = (p1, m1, it1, r1)" by (cases "turn_page D p m it") auto
  note tp = turn_page_held[OF t assms(2-4)]
  obtain p2 r2 where s: "new_sink D p1 = (p2, r2)" by (cases "new_sink D p1")
  note ns = new_sink_same[OF s same_inv[OF tp(1)]]
  show "same (pWorld p) (pWorld p')" "r = Inr Leave \<Longrightarrow> held holds p' [] fin" "r = Inr Go \<Longrightarrow> held holds p' [m'] fin"
    using assms(1) t tp s ns same_trans[OF tp(1) ns(1)]
    by (auto simp: held_put turn_page_sink_def split: sum.splits flow.splits)
qed

lemma run_next_held:
  assumes "run_next D p m it = (p', m', it', r)" "current p m it" "winv (pWorld p)" "held holds p [m] fin"
  shows "r = Inr (Leave, t) \<Longrightarrow> held holds p' [] fin"
    and "r = Inr (Go, None) \<Longrightarrow> todo (pWorld p) = [] \<and> held holds p' [m'] fin"
    and "r = Inr (Go, Some u) \<Longrightarrow> winv (pWorld p') \<and> held holds p' [m'] fin
           \<and> (\<exists>rs. rows 0 (pWorld p') u = Some rs \<and> todo (pWorld p) = rs # todo (pWorld p'))"
proof -
  obtain w r1 where n: "opNext D (pWorld p) = (w, r1)" by (cases "opNext D (pWorld p)")
  obtain p1 m1 it1 r2 where t: "turn_page_sink D (p\<lparr>pWorld := w\<rparr>) m it = (p1, m1, it1, r2)"
    by (cases "turn_page_sink D (p\<lparr>pWorld := w\<rparr>) m it") auto
  obtain w' r3 where n': "opNext D (pWorld p1) = (w', r3)" by (cases "opNext D (pWorld p1)")
  have full: "same (pWorld p) (pWorld p1)" "r2 = Inr Leave \<Longrightarrow> held holds p1 [] fin" "r2 = Inr Go \<Longrightarrow> held holds p1 [m1] fin"
    if "r1 = Inl NotEnoughSpace"
  proof -
    have s: "same (pWorld p) w" using next_full[OF assms(3)] n that by simp
    then show "same (pWorld p) (pWorld p1)" "r2 = Inr Leave \<Longrightarrow> held holds p1 [] fin" "r2 = Inr Go \<Longrightarrow> held holds p1 [m1] fin"
      using turn_page_sink_held[OF t, of fin] assms same_trans[OF s] by (auto dest: same_inv)
  qed
  have td: "todo (pWorld p1) = todo (pWorld p)" "winv (pWorld p1)" if "r1 = Inl NotEnoughSpace"
    using full(1)[OF that] by (auto simp: keeps_def)
  show "r = Inr (Leave, t) \<Longrightarrow> held holds p' [] fin"
    using assms(1) n t n' full(2) by (auto simp: run_next_def split: sum.splits fault.splits flow.splits)
  show "r = Inr (Go, None) \<Longrightarrow> todo (pWorld p) = [] \<and> held holds p' [m'] fin"
    using assms(1,4) n t n' full(3) td next_end[OF td(2)] next_end[OF assms(3)]
    by (auto simp: run_next_def split: sum.splits fault.splits flow.splits)
  show "r = Inr (Go, Some u) \<Longrightarrow> winv (pWorld p') \<and> held holds p' [m'] fin
           \<and> (\<exists>rs. rows 0 (pWorld p') u = Some rs \<and> todo (pWorld p) = rs # todo (pWorld p'))"
    using assms(1,4) n t n' full(3) td next_chunk[OF td(2), of w' u] next_chunk[OF assms(3), of w u]
    by (auto simp: run_next_def split: sum.splits fault.splits flow.splits)
qed

lemma run_stages_held:
  assumes "run_stages D qs p m it (Some t) = (p', m', it', r)" "qs = drop k (opStages D)" "k \<le> length (opStages D)"
    "current p m it" "winv (pWorld p)" "held holds p [m] fin" "rows k (pWorld p) t = Some rs"
  shows "(\<forall>u. r = Inr (Leave, u) \<longrightarrow> held holds p' [] fin)
    \<and> (\<forall>u. r = Inr (Go, u) \<longrightarrow> winv (pWorld p') \<and> todo (pWorld p') = todo (pWorld p) \<and> held holds p' [m'] fin
          \<and> (\<exists>t'. u = Some t' \<and> rows (length (opStages D)) (pWorld p') t' = Some rs))"
  using assms
proof (induction qs arbitrary: k p m it t)
  case Nil
  then have "k = length (opStages D)" by simp
  then show ?case using Nil by auto
next
  case (Cons q qs)
  have k: "k < length (opStages D)" "q = opStages D ! k" "qs = drop (Suc k) (opStages D)"
    using Cons.prems(2,3) by (metis drop_all le_neq_implies_less list.distinct(1) order_refl)
      (metis Cons.prems(2) nth_via_drop, metis Cons.prems(2) drop_Suc drop_tl list.sel(3))
  obtain w r1 where q: "q (pWorld p) (Some t) = (w, r1)" by (cases "q (pWorld p) (Some t)")
  obtain p1 m1 it1 r2 where tp: "turn_page_sink D (p\<lparr>pWorld := w\<rparr>) m it = (p1, m1, it1, r2)"
    by (cases "turn_page_sink D (p\<lparr>pWorld := w\<rparr>) m it") auto
  obtain w' r3 where q': "q (pWorld p1) (Some t) = (w', r3)" by (cases "q (pWorld p1) (Some t)")
  have c: "current (p\<lparr>pWorld := w\<rparr>) m it" using Cons.prems(4) by simp
  show ?case
  proof (cases r1)
    case (Inr v)
    have d: "winv w \<and> todo w = todo (pWorld p) \<and> (\<exists>t'. v = Some t' \<and> rows (Suc k) w t' = Some rs)"
      using stage_done[OF Cons.prems(5) k(1) Cons.prems(7)] q k(2) Inr by auto
    then obtain t' where t': "v = Some t'" "rows (Suc k) w t' = Some rs" by blast
    have "run_stages D qs (p\<lparr>pWorld := w\<rparr>) m it (Some t') = (p', m', it', r)"
      using Cons.prems(1) q Inr t' by simp
    from Cons.IH[OF this k(3)] show ?thesis using k(1) d t' Cons.prems(4,6) by simp
  next
    case (Inl e)
    show ?thesis
    proof (cases "e = NotEnoughSpace")
      case False
      then have "r = Inl e" using Cons.prems(1) q Inl by (auto split: fault.splits)
      then show ?thesis by simp
    next
      case True
      have f: "winv w" "todo w = todo (pWorld p)" "rows k w t = Some rs"
        using stage_full[OF Cons.prems(5) k(1) Cons.prems(7)] q k(2) Inl True by auto
      have tps: "same w (pWorld p1)" "r2 = Inr Leave \<Longrightarrow> held holds p1 [] fin" "r2 = Inr Go \<Longrightarrow> held holds p1 [m1] fin"
        using turn_page_sink_held[OF tp c, of fin] f(1) Cons.prems(6) by auto
      have w1: "winv (pWorld p1)" "todo (pWorld p1) = todo (pWorld p)" "rows k (pWorld p1) t = Some rs"
        using tps(1) f by (auto simp: keeps_def)
      have cur: "r2 = Inr Go \<Longrightarrow> current p1 m1 it1" using turn_page_sink_ends[OF tp c] by simp
      show ?thesis
      proof (cases "r2 = Inr Go")
        case False
        then show ?thesis using Cons.prems(1) q Inl True tp tps(2)
          by (auto split: sum.splits flow.splits)
      next
        case go: True
        show ?thesis
        proof (cases r3)
          case (Inl e')
          then have "\<exists>e''. r = Inl e''" using Cons.prems(1) q \<open>r1 = Inl e\<close> True tp go q' by (auto split: fault.splits)
          then show ?thesis by auto
        next
          case (Inr v)
          have d: "winv w' \<and> todo w' = todo (pWorld p1) \<and> (\<exists>t'. v = Some t' \<and> rows (Suc k) w' t' = Some rs)"
            using stage_done[OF w1(1) k(1) w1(3)] q' k(2) Inr by auto
          then obtain t' where t': "v = Some t'" "rows (Suc k) w' t' = Some rs" by blast
          have "run_stages D qs (p1\<lparr>pWorld := w'\<rparr>) m1 it1 (Some t') = (p', m', it', r)"
            using Cons.prems(1) q \<open>r1 = Inl e\<close> True tp go q' Inr t' by simp
          from Cons.IH[OF this k(3)] show ?thesis using k(1) d t' cur[OF go] tps(3)[OF go] w1(2) by simp
        qed
      qed
    qed
  qed
qed

lemma write_round_held:
  assumes "write_round D p m it (Some t) = (b, p', m', it', r)" "current p m it" "winv (pWorld p)"
    "held holds p [m] fin" "rows (length (opStages D)) (pWorld p) t = Some rs" "r = Inr fl"
  shows "\<exists>i \<le> length rs. winv (pWorld p') \<and> todo (pWorld p') = todo (pWorld p)
    \<and> held holds p' (if fl = Go then [m'] else []) (fin @ take i rs)
    \<and> (if b then fl = Go \<and> i = length rs else rows (length (opStages D)) (pWorld p') t = Some (drop i rs))"
proof -
  obtain p1 r1 where s: "(case hSink m of Some c \<Rightarrow> (p, Inr c) | None \<Rightarrow> new_sink D p) = (p1, r1)"
    by (cases "case hSink m of Some c \<Rightarrow> (p, Inr c) | None \<Rightarrow> new_sink D p")
  have same1: "same (pWorld p) (pWorld p1)" "held holds p1 [m] fin" "current p1 m it"
    and sink: "\<And>c. r1 = Inr c \<Longrightarrow> held holds p1 [m\<lparr>hSink := Some c\<rparr>] fin"
    using s assms(2-4) new_sink_same[of p p1 r1]
    by (auto split: option.splits simp: same_refl held_put put_same)
  have w1: "winv (pWorld p1)" "todo (pWorld p1) = todo (pWorld p)" "rows (length (opStages D)) (pWorld p1) t = Some rs"
    using same1(1) assms(5) by (auto simp: keeps_def)
  have tp: "\<exists>i \<le> length rs. winv (pWorld p2) \<and> todo (pWorld p2) = todo (pWorld p)
      \<and> held holds p2 (if fl2 = Go then [m2] else []) (fin @ take i rs)
      \<and> rows (length (opStages D)) (pWorld p2) t = Some (drop i rs)"
    if "turn_page D q k it = (p2, m2, it2, Inr fl2)" "current q k it" "winv (pWorld q)" "held holds q [k] (fin @ take j rs)"
      "todo (pWorld q) = todo (pWorld p)" "rows (length (opStages D)) (pWorld q) t = Some (drop j rs)" "j \<le> length rs"
    for q k p2 m2 it2 fl2 j
  proof -
    note h = turn_page_held[OF that(1-4)]
    have "fl2 = Go \<Longrightarrow> hSink m2 = None" using turn_page_current[OF that(1,2)] by simp
    then have "held holds p2 (if fl2 = Go then [m2] else []) (fin @ take j rs)" using h(2) held_fresh[OF h(2)] by auto
    then show ?thesis using h(1) that(5-7) by (auto simp: keeps_def)
  qed
  show ?thesis
  proof (cases r1)
    case (Inl e)
    then have "e = NotEnoughSpace" "\<not> b" and t: "turn_page D p1 m it = (p', m', it', Inr fl)"
      using assms(1,6) s by (auto simp: write_round_def split: fault.splits)
    then show ?thesis using tp[OF t same1(3) w1(1), of 0] same1(2) w1 by simp
  next
    case (Inr c)
    obtain w c' r2 where w: "opWriteOut D (pWorld p1) (Some t) c = (w, c', r2)"
      by (cases "opWriteOut D (pWorld p1) (Some t) c") auto
    have "hSink (m\<lparr>hSink := Some c\<rparr>) = Some c" by simp
    from held_last[OF sink[OF Inr] this] obtain old where old: "holds c old"
      "\<And>c' more. holds c' (old @ more) \<Longrightarrow> held holds p1 [m\<lparr>hSink := Some c'\<rparr>] (fin @ more)"
      by (metis (no_types, lifting) holder.surjective holder.update_convs(3))
    have c2: "current (p1\<lparr>pWorld := w\<rparr>) (m\<lparr>hSink := Some c'\<rparr>) it" using same1(3) by simp
    show ?thesis
    proof (cases r2)
      case (Inr u)
      then have "winv w \<and> todo w = todo (pWorld p1) \<and> holds c' (old @ rs)"
        using write_done[OF w1(1,3) old(1)] w by simp
      moreover have "b" "p' = p1\<lparr>pWorld := w\<rparr>" "m' = m\<lparr>hSink := Some c'\<rparr>" "fl = Go"
        using assms(1,6) s \<open>r1 = Inr c\<close> w Inr by (auto simp: write_round_def)
      ultimately show ?thesis using old(2)[of c' rs] w1(2) by (intro exI[of _ "length rs"]) simp
    next
      case (Inl e)
      then have e: "e = NotEnoughSpace" "\<not> b"
        and t: "turn_page D (p1\<lparr>pWorld := w\<rparr>) (m\<lparr>hSink := Some c'\<rparr>) it = (p', m', it', Inr fl)"
        using assms(1,6) s \<open>r1 = Inr c\<close> w by (auto simp: write_round_def split: fault.splits)
      obtain i where i: "i \<le> length rs" "winv w" "todo w = todo (pWorld p1)" "holds c' (old @ take i rs)"
        "rows (length (opStages D)) w t = Some (drop i rs)"
        using write_full[OF w1(1,3) old(1), of w c'] w Inl e by auto
      show ?thesis using tp[OF t c2, of i] i old(2)[OF i(4)] w1(2) e(2) by simp
    qed
  qed
qed

lemma run_write_held:
  assumes "run_write D n p m it (Some t) = Some (p', m', it', Inr fl)" "current p m it" "winv (pWorld p)"
    "held holds p [m] fin" "rows (length (opStages D)) (pWorld p) t = Some rs"
  shows "winv (pWorld p') \<and> todo (pWorld p') = todo (pWorld p)
    \<and> (\<exists>i \<le> length rs. held holds p' (if fl = Go then [m'] else []) (fin @ take i rs) \<and> (fl = Go \<longrightarrow> i = length rs))"
  using assms
proof (induction n arbitrary: p m it fin rs)
  case (Suc n)
  obtain b p1 m1 it1 r1 where w: "write_round D p m it (Some t) = (b, p1, m1, it1, r1)"
    by (cases "write_round D p m it (Some t)") auto
  have ends: "ends_acct p1 m1 it1 r1" by (rule write_round_ends[OF w Suc.prems(2)])
  show ?case
  proof (cases "\<not> b \<and> r1 = Inr Go")
    case True
    then have rec: "run_write D n p1 m1 it1 (Some t) = Some (p', m', it', Inr fl)" using Suc.prems(1) w by simp
    obtain i where i: "i \<le> length rs" "winv (pWorld p1)" "todo (pWorld p1) = todo (pWorld p)"
      "held holds p1 [m1] (fin @ take i rs)" "rows (length (opStages D)) (pWorld p1) t = Some (drop i rs)"
      using write_round_held[OF w Suc.prems(2-5), of Go] True by auto
    have c: "current p1 m1 it1" using ends True by simp
    from Suc.IH[OF rec c i(2,4,5)] obtain j where j: "j \<le> length (drop i rs)" "winv (pWorld p')"
      "todo (pWorld p') = todo (pWorld p)" "fl = Go \<longrightarrow> j = length (drop i rs)"
      "held holds p' (if fl = Go then [m'] else []) ((fin @ take i rs) @ take j (drop i rs))"
      using i(3) by auto
    have "(fin @ take i rs) @ take j (drop i rs) = fin @ take (i + j) rs" by (simp add: take_add)
    then show ?thesis using j i(1) by (intro conjI exI[of _ "i + j"]) auto
  next
    case False
    then have r: "p' = p1" "m' = m1" "it' = it1" "r1 = Inr fl"
      using Suc.prems(1) w by (auto split: bool.splits sum.splits flow.splits)
    obtain i where i: "i \<le> length rs" "winv (pWorld p1)" "todo (pWorld p1) = todo (pWorld p)"
      "held holds p1 (if fl = Go then [m1] else []) (fin @ take i rs)"
      "if b then fl = Go \<and> i = length rs else rows (length (opStages D)) (pWorld p1) t = Some (drop i rs)"
      using write_round_held[OF w Suc.prems(2-5) r(4)] by auto
    have "fl = Go \<Longrightarrow> b" using False r(4) by auto
    then show ?thesis using i r by (auto split: if_splits)
  qed
qed simp

lemma run_loop_held:
  assumes "run_loop D n p m it = Some (p', m', it', Inr fl)" "current p m it" "winv (pWorld p)" "held holds p [m] fin"
  shows "\<exists>pre. prefix pre (concat (todo (pWorld p))) \<and> held holds p' (if fl = Go then [m'] else []) (fin @ pre)
    \<and> (fl = Go \<longrightarrow> pre = concat (todo (pWorld p)))"
  using assms
proof (induction n arbitrary: p m it fin)
  case (Suc n)
  obtain p1 m1 it1 r1 where nx: "run_next D p m it = (p1, m1, it1, r1)" by (cases "run_next D p m it") auto
  note nh = run_next_held[OF nx Suc.prems(2-4)]
  note ne = run_next_ends[OF nx Suc.prems(2)]
  have stop: "r1 = Inr (Leave, u) \<or> r1 = Inr (Go, None) \<Longrightarrow> ?case" for u
    using Suc.prems(1) nx nh(1)[of u] nh(2) by (elim disjE) (auto intro: exI[of _ "[]"])
  consider (stop) u where "r1 = Inr (Leave, u) \<or> r1 = Inr (Go, None)" | (chunk) t where "r1 = Inr (Go, Some t)"
    using Suc.prems(1) nx by (cases r1) (auto, metis flow.exhaust option.exhaust)
  then show ?case
  proof cases
    case stop
    then show ?thesis using \<open>\<And>u. r1 = Inr (Leave, u) \<or> r1 = Inr (Go, None) \<Longrightarrow> _\<close> by blast
  next
    case (chunk t)
    obtain rs where rs: "winv (pWorld p1)" "held holds p1 [m1] fin" "rows 0 (pWorld p1) t = Some rs"
      "todo (pWorld p) = rs # todo (pWorld p1)" using nh(3)[OF chunk] by blast
    have c1: "current p1 m1 it1" using ne chunk by simp
    obtain p2 m2 it2 r2 where st: "run_stages D (opStages D) p1 m1 it1 (Some t) = (p2, m2, it2, r2)"
      by (cases "run_stages D (opStages D) p1 m1 it1 (Some t)") auto
    note sh = run_stages_held[OF st _ _ c1 rs(1-3), simplified]
    show ?thesis
    proof (cases "\<exists>u. r2 = Inr (Go, u)")
      case False
      then obtain u where u: "r2 = Inr (Leave, u)"
        using Suc.prems(1) nx chunk st by (cases r2) (auto split: flow.splits prod.splits)
      then have "p' = p2" "fl = Leave" using Suc.prems(1) nx chunk st by auto
      then show ?thesis using sh u by (auto intro: exI[of _ "[]"])
    next
      case True
      then obtain u where u: "r2 = Inr (Go, u)" by blast
      obtain t' where t': "u = Some t'" "winv (pWorld p2)" "todo (pWorld p2) = todo (pWorld p1)" "held holds p2 [m2] fin"
        "rows (length (opStages D)) (pWorld p2) t' = Some rs" using sh u by auto
      have c2: "current p2 m2 it2" using run_stages_ends[OF st c1] u by simp
      obtain p3 m3 it3 r3 where wr: "run_write D n p2 m2 it2 (Some t') = Some (p3, m3, it3, r3)"
        using Suc.prems(1) nx chunk st u t'(1) by (auto split: option.splits)
      show ?thesis
      proof (cases "r3 = Inr Go")
        case True
        then have rec: "run_loop D n p3 m3 it3 = Some (p', m', it', Inr fl)"
          using Suc.prems(1) nx chunk st u t'(1) wr by simp
        have wh: "winv (pWorld p3)" "todo (pWorld p3) = todo (pWorld p1)" "held holds p3 [m3] (fin @ rs)"
          using run_write_held[OF wr[unfolded True] c2 t'(2,4,5)] t'(3) by auto
        have c3: "current p3 m3 it3" using run_write_ends[OF wr c2] True by simp
        from Suc.IH[OF rec c3 wh(1,3)] obtain pre where pre: "prefix pre (concat (todo (pWorld p1)))"
          "held holds p' (if fl = Go then [m'] else []) ((fin @ rs) @ pre)" "fl = Go \<longrightarrow> pre = concat (todo (pWorld p1))"
          using wh(2) by auto
        then show ?thesis using rs(4) by (intro exI[of _ "rs @ pre"]) auto
      next
        case False
        then have r: "p' = p3" "m' = m3" "it' = it3" "r3 = Inr fl"
          using Suc.prems(1) nx chunk st u t'(1) wr by (auto split: sum.splits flow.splits)
        with False have "fl = Leave" by (cases fl) auto
        obtain i where "held holds p3 [] (fin @ take i rs)"
          using run_write_held[OF wr[unfolded r(4)] c2 t'(2,4,5)] \<open>fl = Leave\<close> by auto
        then show ?thesis using r \<open>fl = Leave\<close> rs(4)
          by (intro exI[of _ "take i rs"]) (auto simp: take_is_prefix prefix_prefix)
      qed
    qed
  qed
qed simp

text \<open>A run puts the rows of the source, in order, into the containers of its pages.\<close>

lemma pipe_run_held:
  assumes "pipe_run D n (pipe_new w) = Some (p, Inr fl)" "winv w"
  shows "\<exists>pre. prefix pre (concat (todo w)) \<and> held holds p [] pre \<and> (fl = Go \<longrightarrow> pre = concat (todo w))"
proof -
  obtain p1 m where h: "new_holder D (pipe_new w) = (p1, m)" by (cases "new_holder D (pipe_new w)")
  obtain w1 loc sz where np: "opNewPage D w = (w1, loc, sz)" by (cases "opNewPage D w") auto
  have p1: "pWorld p1 = opOpenBlock D loc sz w1" "hLocation m = loc"
    "p1 = (pipe_new w)\<lparr>pWorld := opOpenBlock D loc sz w1, pTrace := (case loc of None \<Rightarrow> [] | Some l \<Rightarrow> [GotPage l])\<rparr>"
    using h np by (auto simp: new_holder_def pipe_new_def split: option.splits)
  have s1: "same w (pWorld p1)" using new_page[OF assms(2)] np open_block[of w1] p1(1)
    by (auto intro: same_trans dest: same_inv)
  have loc: "hLocation m \<noteq> None" using assms(1) h by (auto simp: pipe_run_def split: if_splits)
  have c1: "current p1 m 0" using loc p1 by (auto simp: current_def acct_def pipe_new_def)
  have e1: "held holds p1 [] []" using p1(3) by (auto simp: held_def pipe_new_def split: option.splits)
  obtain p2 r2 where s: "new_sink D p1 = (p2, r2)" by (cases "new_sink D p1")
  then obtain c where c: "r2 = Inr c" using assms(1) h loc by (auto simp: pipe_run_def split: sum.splits)
  note ns = new_sink_same[OF s same_inv[OF s1]]
  obtain p3 m3 it3 r3 where rl: "run_loop D n p2 (m\<lparr>hSink := Some c\<rparr>) 0 = Some (p3, m3, it3, r3)"
    using assms(1) h loc s c by (auto simp: pipe_run_def split: option.splits)
  then have r3: "r3 = Inr fl" "p = (if fl = Go then p3\<lparr>pUnwritten := pUnwritten p3 @ [set_iteration it3 m3]\<rparr> else p3)"
    using assms(1) h loc s c by (auto simp: pipe_run_def split: sum.splits flow.splits)
  have td: "todo (pWorld p2) = todo w" "winv (pWorld p2)" using same_trans[OF s1 ns(1)] by (auto simp: keeps_def)
  have "current p2 (m\<lparr>hSink := Some c\<rparr>) 0" using c1 s by simp
  moreover have "held holds p2 [m\<lparr>hSink := Some c\<rparr>] []"
    by (rule held_fresh_sink[of _ _ _ c]) (use ns(2)[OF c] ns(3)[of "[]" "[]"] e1 in auto)
  ultimately obtain pre where "prefix pre (concat (todo w))" "held holds p3 (if fl = Go then [m3] else []) pre"
    "fl = Go \<longrightarrow> pre = concat (todo w)"
    using run_loop_held[OF rl[unfolded r3(1)] _ td(2), of "[]"] td(1) by auto
  then show ?thesis using r3(2) held_queue[of holds p3 m3 pre it3] by (intro exI[of _ pre]) auto
qed

end

text \<open>A run ends if the sink can always make a container and an empty container takes at least one row.\<close>

definition takes_a_row :: "('w, 't, 'c) pipe_ops \<Rightarrow> ('w \<Rightarrow> bool) \<Rightarrow> (nat \<Rightarrow> 'w \<Rightarrow> 't \<Rightarrow> 'r list option) \<Rightarrow> ('c \<Rightarrow> 'r list \<Rightarrow> bool) \<Rightarrow> bool" where
  "takes_a_row D winv rows holds \<longleftrightarrow>
     (\<forall>w. winv w \<longrightarrow> snd (opNewSink D w) \<noteq> Inl NotEnoughSpace)
     \<and> (\<forall>w t c rs w' c'. winv w \<longrightarrow> rows (length (opStages D)) w t = Some rs \<longrightarrow> holds c [] \<longrightarrow>
          opWriteOut D w (Some t) c = (w', c', Inl NotEnoughSpace) \<longrightarrow>
          (\<exists>i > 0. i \<le> length rs \<and> rows (length (opStages D)) w' t = Some (drop i rs)))"

context pipe_parts
begin

lemma write_round_progress:
  assumes "takes_a_row D winv rows holds" "write_round D p m it (Some t) = (False, p', m', it', Inr Go)"
    "current p m it" "winv (pWorld p)" "rows (length (opStages D)) (pWorld p) t = Some rs"
    "hSink m = None \<or> (\<exists>c. hSink m = Some c \<and> holds c [])"
  shows "hSink m' = None \<and> current p' m' it' \<and> winv (pWorld p')
    \<and> (\<exists>i > 0. i \<le> length rs \<and> rows (length (opStages D)) (pWorld p') t = Some (drop i rs))"
proof -
  obtain p1 r1 where s: "(case hSink m of Some c \<Rightarrow> (p, Inr c) | None \<Rightarrow> new_sink D p) = (p1, r1)"
    by (cases "case hSink m of Some c \<Rightarrow> (p, Inr c) | None \<Rightarrow> new_sink D p")
  have ns: "snd (opNewSink D (pWorld p)) \<noteq> Inl NotEnoughSpace" using assms(1,4) by (simp add: takes_a_row_def)
  have r1: "r1 \<noteq> Inl NotEnoughSpace" using s ns by (auto simp: new_sink_def split: option.splits prod.splits)
  then obtain c where c: "r1 = Inr c" using assms(2) s by (cases r1) (auto simp: write_round_def split: fault.splits)
  have w1: "same (pWorld p) (pWorld p1)" "current p1 m it" "holds c []"
    using s assms(3,4,6) c new_sink_same[of p p1 r1] by (auto split: option.splits simp: same_refl)
  then have w1': "winv (pWorld p1)" "rows (length (opStages D)) (pWorld p1) t = Some rs"
    using assms(5) by (auto simp: keeps_def)
  obtain w c' r2 where w: "opWriteOut D (pWorld p1) (Some t) c = (w, c', r2)"
    by (cases "opWriteOut D (pWorld p1) (Some t) c") auto
  have r2: "r2 = Inl NotEnoughSpace"
    and tp: "turn_page D (p1\<lparr>pWorld := w\<rparr>) (m\<lparr>hSink := Some c'\<rparr>) it = (p', m', it', Inr Go)"
    using assms(2) s c w by (cases r2; auto simp: write_round_def split: fault.splits)+
  obtain i where i: "i > 0" "i \<le> length rs" "rows (length (opStages D)) w t = Some (drop i rs)"
    using assms(1) w1' w1(3) w r2 unfolding takes_a_row_def by blast
  obtain j where wf: "winv w" "holds c' ([] @ take j rs)"
    using write_full[OF w1' w1(3)] w r2 by blast
  have cur: "current (p1\<lparr>pWorld := w\<rparr>) (m\<lparr>hSink := Some c'\<rparr>) it" using w1(2) by simp
  have all: "all_located (pUnwritten (p1\<lparr>pWorld := w, pUnwritten := pUnwritten p1 @ [set_iteration it (m\<lparr>hSink := Some c'\<rparr>)]\<rparr>))"
    using w1(2) by (auto simp: current_def acct_def)
  obtain p2 r3 where cp: "cleanPages D (it + 1) (p1\<lparr>pWorld := w, pUnwritten := pUnwritten p1 @ [set_iteration it (m\<lparr>hSink := Some c'\<rparr>)]\<rparr>) = (p2, r3)"
    by (cases "cleanPages D (it + 1) (p1\<lparr>pWorld := w, pUnwritten := pUnwritten p1 @ [set_iteration it (m\<lparr>hSink := Some c'\<rparr>)]\<rparr>)")
  have s2: "same w (pWorld p2)" using cleanPages_held(1)[OF cp _ all] wf(1) by simp
  obtain w3 loc sz where np: "opNewPage D (pWorld p2) = (w3, loc, sz)" by (cases "opNewPage D (pWorld p2)") auto
  have s3: "same w (opOpenBlock D loc sz w3)"
    using new_page[OF same_inv[OF s2]] np same_trans[OF s2 same_trans[OF _ open_block[of w3]]] by (auto dest: same_inv)
  have "pWorld p' = opOpenBlock D loc sz w3"
    using tp cp np by (cases r3) (auto simp: turn_page_def new_holder_def)
  then show ?thesis using turn_page_current[OF tp cur] s3 i by (auto simp: keeps_def)
qed

lemma run_write_fresh_some:
  assumes "takes_a_row D winv rows holds" "current p m it" "winv (pWorld p)"
    "rows (length (opStages D)) (pWorld p) t = Some rs" "hSink m = None \<or> (\<exists>c. hSink m = Some c \<and> holds c [])" "length rs < n"
  shows "run_write D n p m it (Some t) \<noteq> None"
  using assms(2-)
proof (induction n arbitrary: p m it rs)
  case 0
  then have False by linarith
  then show ?case ..
next
  case (Suc n)
  obtain b p1 m1 it1 r1 where w: "write_round D p m it (Some t) = (b, p1, m1, it1, r1)"
    by (cases "write_round D p m it (Some t)") auto
  show ?case
  proof (cases "\<not> b \<and> r1 = Inr Go")
    case True
    then have w': "write_round D p m it (Some t) = (False, p1, m1, it1, Inr Go)" using w by simp
    obtain i where "hSink m1 = None" "current p1 m1 it1" "winv (pWorld p1)" "i > 0" "i \<le> length rs"
      "rows (length (opStages D)) (pWorld p1) t = Some (drop i rs)"
      using write_round_progress[OF assms(1) w' Suc.prems(1-4)] by blast
    then show ?thesis using Suc.IH[of p1 m1 it1 "drop i rs"] w' Suc.prems(5) by auto
  next
    case False
    then show ?thesis using w by (auto split: bool.splits sum.splits flow.splits)
  qed
qed

lemma run_write_some:
  assumes "takes_a_row D winv rows holds" "current p m it" "winv (pWorld p)" "held holds p [m] fin"
    "rows (length (opStages D)) (pWorld p) t = Some rs" "Suc (length rs) < n"
  shows "run_write D n p m it (Some t) \<noteq> None"
proof -
  obtain n' where n: "n = Suc n'" using assms(6) by (cases n) auto
  obtain b p1 m1 it1 r1 where w: "write_round D p m it (Some t) = (b, p1, m1, it1, r1)"
    by (cases "write_round D p m it (Some t)") auto
  show ?thesis
  proof (cases "\<not> b \<and> r1 = Inr Go")
    case True
    then have w': "write_round D p m it (Some t) = (False, p1, m1, it1, Inr Go)" using w by simp
    obtain i where i: "winv (pWorld p1)" "rows (length (opStages D)) (pWorld p1) t = Some (drop i rs)"
      using write_round_held[OF w' assms(2-5)] by auto
    have "current p1 m1 it1" using write_round_ends[OF w' assms(2)] by simp
    moreover have "hSink m1 = None" by (rule write_round_fresh[OF w' assms(2)])
    ultimately show ?thesis using run_write_fresh_some[OF assms(1) _ i, of m1 it1 n'] assms(6) n w' by simp
  next
    case False
    then show ?thesis using w n by (auto split: bool.splits sum.splits flow.splits)
  qed
qed

lemma run_loop_some:
  assumes "takes_a_row D winv rows holds" "current p m it" "winv (pWorld p)" "held holds p [m] fin"
    "\<forall>ch \<in> set (todo (pWorld p)). length ch \<le> b" "length (todo (pWorld p)) + b + 3 \<le> n"
  shows "run_loop D n p m it \<noteq> None"
  using assms(2-)
proof (induction n arbitrary: p m it fin)
  case 0
  then have False by linarith
  then show ?case ..
next
  case (Suc n)
  obtain p1 m1 it1 r1 where nx: "run_next D p m it = (p1, m1, it1, r1)" by (cases "run_next D p m it") auto
  show ?case
  proof (cases "\<exists>t. r1 = Inr (Go, Some t)")
    case False
    then show ?thesis using nx by (auto split: sum.splits prod.splits flow.splits option.splits)
  next
    case True
    then obtain t where t: "r1 = Inr (Go, Some t)" by blast
    obtain rs where rs: "winv (pWorld p1)" "held holds p1 [m1] fin" "rows 0 (pWorld p1) t = Some rs"
      "todo (pWorld p) = rs # todo (pWorld p1)" using run_next_held(3)[OF nx Suc.prems(1-3) t] by blast
    have c1: "current p1 m1 it1" using run_next_ends[OF nx Suc.prems(1)] t by simp
    obtain p2 m2 it2 r2 where st: "run_stages D (opStages D) p1 m1 it1 (Some t) = (p2, m2, it2, r2)"
      by (cases "run_stages D (opStages D) p1 m1 it1 (Some t)") auto
    note sh = run_stages_held[OF st _ _ c1 rs(1-3), simplified]
    show ?thesis
    proof (cases "\<exists>u. r2 = Inr (Go, u)")
      case False
      then show ?thesis using nx t st by (auto split: sum.splits prod.splits flow.splits)
    next
      case True
      then obtain u where u: "r2 = Inr (Go, u)" by blast
      obtain t' where t': "u = Some t'" "winv (pWorld p2)" "todo (pWorld p2) = todo (pWorld p1)" "held holds p2 [m2] fin"
        "rows (length (opStages D)) (pWorld p2) t' = Some rs" using sh u by auto
      have c2: "current p2 m2 it2" using run_stages_ends[OF st c1] u by simp
      have "Suc (length rs) < n" using Suc.prems(4,5) rs(4) by auto
      then obtain p3 m3 it3 r3 where wr: "run_write D n p2 m2 it2 (Some t') = Some (p3, m3, it3, r3)"
        using run_write_some[OF assms(1) c2 t'(2,4,5), of n] by (metis not_None_eq prod_cases4)
      show ?thesis
      proof (cases "r3 = Inr Go")
        case False
        then show ?thesis using nx t st u t'(1) wr by (auto split: sum.splits flow.splits)
      next
        case True
        have wh: "winv (pWorld p3)" "todo (pWorld p3) = todo (pWorld p1)" "held holds p3 [m3] (fin @ rs)"
          using run_write_held[OF wr[unfolded True] c2 t'(2,4,5)] t'(3) by auto
        have c3: "current p3 m3 it3" using run_write_ends[OF wr c2] True by simp
        have "run_loop D n p3 m3 it3 \<noteq> None"
          by (rule Suc.IH[OF c3 wh(1,3)]) (use Suc.prems(4,5) rs(4) wh(2) in auto)
        then show ?thesis using nx t st u t'(1) wr True by simp
      qed
    qed
  qed
qed

lemma pipe_run_some:
  assumes "takes_a_row D winv rows holds" "winv w" "\<forall>ch \<in> set (todo w). length ch \<le> b" "length (todo w) + b + 3 \<le> n"
  shows "pipe_run D n (pipe_new w) \<noteq> None"
proof -
  obtain p1 m where h: "new_holder D (pipe_new w) = (p1, m)" by (cases "new_holder D (pipe_new w)")
  obtain w1 loc sz where np: "opNewPage D w = (w1, loc, sz)" by (cases "opNewPage D w") auto
  have p1: "hLocation m = loc"
    "p1 = (pipe_new w)\<lparr>pWorld := opOpenBlock D loc sz w1, pTrace := (case loc of None \<Rightarrow> [] | Some l \<Rightarrow> [GotPage l])\<rparr>"
    using h np by (auto simp: new_holder_def pipe_new_def split: option.splits)
  have s1: "same w (pWorld p1)" using new_page[OF assms(2)] np open_block[of w1] p1(2)
    by (auto intro: same_trans dest: same_inv)
  obtain p2 r2 where s: "new_sink D p1 = (p2, r2)" by (cases "new_sink D p1")
  note ns = new_sink_same[OF s same_inv[OF s1]]
  show ?thesis
  proof (cases "loc = None \<or> (\<exists>e. r2 = Inl e)")
    case True
    then show ?thesis using h s p1(1) by (auto simp: pipe_run_def)
  next
    case False
    then obtain c where c: "r2 = Inr c" "hLocation m \<noteq> None" using p1(1) by (cases r2) auto
    have "current p1 m 0" using c(2) p1 by (auto simp: current_def acct_def pipe_new_def)
    then have c2: "current p2 (m\<lparr>hSink := Some c\<rparr>) 0" using s by simp
    have "held holds p1 [] []" using p1(2) by (auto simp: held_def pipe_new_def split: option.splits)
    then have h2: "held holds p2 [m\<lparr>hSink := Some c\<rparr>] []" using ns(2)[OF c(1)] ns(3) held_put by metis
    have td: "todo (pWorld p2) = todo w" "winv (pWorld p2)" using same_trans[OF s1 ns(1)] by (auto simp: keeps_def)
    have "run_loop D n p2 (m\<lparr>hSink := Some c\<rparr>) 0 \<noteq> None"
      using run_loop_some[OF assms(1) c2 td(2) h2] assms(3,4) td(1) by simp
    then show ?thesis using h s c by (auto simp: pipe_run_def split: sum.splits flow.splits)
  qed
qed

end

end
