(* ===== verification/TupleSetFacts.thy ===== *)
theory TupleSetFacts
  imports TupleSets
begin

text \<open>
  Ownership of columns. Every column has exactly one entry that must delete it, and a shallow copy
  refers to a column of a tuple set with a smaller number (executors number their outputs along the
  pipeline). So no column is leaked, deleted twice or used after it was deleted, although entries of
  later tuple sets dangle between two chunks.
\<close>

section \<open>Ownership\<close>

definition owns :: "'o heap \<Rightarrow> nat \<Rightarrow> nat \<Rightarrow> nat \<Rightarrow> bool" where
  "owns h t i a \<longleftrightarrow> ts_at t i h = Some (a, True)"

definition heap_ok :: "'o heap \<Rightarrow> bool" where
  "heap_ok h \<longleftrightarrow>
     (\<forall>t i a. owns h t i a \<longrightarrow> hpCols h a \<noteq> None)
     \<and> (\<forall>t i t' i' a. owns h t i a \<longrightarrow> owns h t' i' a \<longrightarrow> t = t' \<and> i = i')
     \<and> (\<forall>a. hpCols h a \<noteq> None \<longrightarrow> (\<exists>t i. owns h t i a))
     \<and> (\<forall>a. hpCols h a \<noteq> None \<longrightarrow> a < hpNext h)
     \<and> (\<forall>t i a d. ts_at t i h = Some (a, d) \<longrightarrow> a < hpNext h)
     \<and> (\<forall>t i a u j. ts_at t i h = Some (a, False) \<longrightarrow> owns h u j a \<longrightarrow> u < t)
     \<and> (\<forall>t. distinct (map fst (hpSets h t)))"

lemma heap_okD:
  assumes "heap_ok h"
  shows "owns h t i a \<Longrightarrow> hpCols h a \<noteq> None"
    "owns h t i a \<Longrightarrow> owns h t' i' a \<Longrightarrow> t = t' \<and> i = i'"
    "hpCols h a \<noteq> None \<Longrightarrow> \<exists>t i. owns h t i a"
    "hpCols h a \<noteq> None \<Longrightarrow> a < hpNext h"
    "ts_at t i h = Some (a, d) \<Longrightarrow> a < hpNext h"
    "ts_at t i h = Some (a, False) \<Longrightarrow> owns h u j a \<Longrightarrow> u < t"
    "distinct (map fst (hpSets h t))"
  using assms unfolding heap_ok_def by (metis)+

text \<open>The cells at an address and those that an entry shows.\<close>

definition cells_at :: "'o heap \<Rightarrow> nat \<Rightarrow> 'o cell list option" where
  "cells_at h a = map_option cCells (hpCols h a)"

definition view :: "'o heap \<Rightarrow> nat \<Rightarrow> nat \<Rightarrow> 'o cell list option" where
  "view h t i = (case ts_at t i h of None \<Rightarrow> None | Some (a, d) \<Rightarrow> cells_at h a)"

lemma view_Some: "view h t i = Some xs \<longleftrightarrow> (\<exists>a d c. ts_at t i h = Some (a, d) \<and> hpCols h a = Some c \<and> cCells c = xs)"
  by (auto simp: view_def cells_at_def split: option.splits)

lemma ts_put_simps [simp]:
  "ts_at s k (ts_put t i e h) = (if s = t \<and> k = i then Some e else ts_at s k h)"
  "hpCols (ts_put t i e h) = hpCols h" "hpNext (ts_put t i e h) = hpNext h"
  by (auto simp: ts_at_def ts_put_def update_conv)

lemma ts_put_distinct: "\<forall>s. distinct (map fst (hpSets h s)) \<Longrightarrow> distinct (map fst (hpSets (ts_put t i e h) s))"
  by (simp add: ts_put_def distinct_update)

lemma ts_at_cols [simp]: "ts_at s k (h\<lparr>hpCols := c\<rparr>) = ts_at s k h" "ts_at s k (h\<lparr>hpNext := n\<rparr>) = ts_at s k h"
  by (simp_all add: ts_at_def)

lemma ts_at_keys: "ts_at t i h \<noteq> None \<longleftrightarrow> i \<in> set (map fst (hpSets h t))"
  by (auto simp: ts_at_def map_of_eq_None_iff)

definition keys :: "'o heap \<Rightarrow> nat \<Rightarrow> nat set" where
  "keys h t = {i. ts_at t i h \<noteq> None}"

lemma columns_number:
  assumes "heap_ok h" "keys h t = {..<n}"
  shows "getNumColumns t h = n"
proof -
  have "set (map fst (hpSets h t)) = {..<n}" using assms(2) unfolding keys_def ts_at_keys by simp
  then show ?thesis using distinct_card[OF heap_okD(7)[OF assms(1), of t]] by (simp add: getNumColumns_def)
qed

text \<open>What stays the same when the entries \<open>J\<close> of tuple set \<open>t\<close> are replaced.\<close>

definition others :: "nat \<Rightarrow> nat set \<Rightarrow> 'o heap \<Rightarrow> 'o heap \<Rightarrow> bool" where
  "others t J h h' \<longleftrightarrow>
     (\<forall>s i. (s = t \<and> i \<in> J) \<or> ts_at s i h' = ts_at s i h)
     \<and> (\<forall>s i. s \<le> t \<longrightarrow> (s = t \<and> i \<in> J) \<or> view h' s i = view h s i)
     \<and> (\<forall>a. (\<forall>i. \<not> owns h t i a) \<longrightarrow> hpCols h a \<noteq> None \<longrightarrow> hpCols h' a = hpCols h a)"

lemma othersD:
  assumes "others t J h h'"
  shows "s \<noteq> t \<or> i \<notin> J \<Longrightarrow> ts_at s i h' = ts_at s i h"
    "s < t \<or> s = t \<and> i \<notin> J \<Longrightarrow> view h' s i = view h s i"
    "(\<And>i. \<not> owns h t i a) \<Longrightarrow> hpCols h a = Some c \<Longrightarrow> hpCols h' a = Some c"
proof -
  note o = assms[unfolded others_def]
  show "s \<noteq> t \<or> i \<notin> J \<Longrightarrow> ts_at s i h' = ts_at s i h" using o by blast
  show "s < t \<or> s = t \<and> i \<notin> J \<Longrightarrow> view h' s i = view h s i"
    using o by (metis le_eq_less_or_eq less_irrefl)
  show "(\<And>i. \<not> owns h t i a) \<Longrightarrow> hpCols h a = Some c \<Longrightarrow> hpCols h' a = Some c"
    using o by (metis option.distinct(1))
qed

lemma others_refl: "others t J h h"
  by (simp add: others_def)

lemma others_mono: "others t J h h' \<Longrightarrow> J \<subseteq> K \<Longrightarrow> others t K h h'"
  unfolding others_def by blast

lemma others_stays_foreign:
  assumes "others t J h h1" "heap_ok h" "heap_ok h1" "hpCols h a \<noteq> None" "\<And>i. \<not> owns h t i a"
  shows "\<not> owns h1 t i a"
proof
  assume o1: "owns h1 t i a"
  obtain u k where u: "owns h u k a" using heap_okD(3)[OF assms(2,4)] by blast
  then have "u \<noteq> t" using assms(5) by auto
  then have "owns h1 u k a" using u othersD(1)[OF assms(1), of u k] by (simp add: owns_def)
  then show False using heap_okD(2)[OF assms(3) o1] \<open>u \<noteq> t\<close> by blast
qed

lemma others_trans:
  assumes "others t J h h1" "others t K h1 h2" "heap_ok h" "heap_ok h1"
  shows "others t (J \<union> K) h h2"
  unfolding others_def
proof (intro conjI allI impI)
  fix s i show "s = t \<and> i \<in> J \<union> K \<or> ts_at s i h2 = ts_at s i h"
    using othersD(1)[OF assms(1), of s i] othersD(1)[OF assms(2), of s i] by (cases "s = t \<and> i \<in> J \<union> K") auto
next
  fix s i assume "s \<le> t"
  then show "s = t \<and> i \<in> J \<union> K \<or> view h2 s i = view h s i"
    using othersD(2)[OF assms(1), of s i] othersD(2)[OF assms(2), of s i]
    by (cases "s = t \<and> i \<in> J \<union> K"; cases "s = t") (auto simp: le_less)
next
  fix a assume a: "\<forall>i. \<not> owns h t i a" "hpCols h a \<noteq> None"
  then obtain c where c: "hpCols h a = Some c" by auto
  have "hpCols h1 a = Some c" using othersD(3)[OF assms(1) _ c] a(1) by blast
  moreover have "\<not> owns h1 t i a" for i using others_stays_foreign[OF assms(1,3,4) a(2)] a(1) by blast
  ultimately show "hpCols h2 a = hpCols h a" using othersD(3)[OF assms(2)] c by simp
qed

lemma drop_entry_ok:
  assumes "heap_ok h"
  obtains h1 where "drop_entry t j h = Inr h1" "hpSets h1 = hpSets h" "hpNext h1 = hpNext h"
    "\<And>a. hpCols h1 a = (if owns h t j a then None else hpCols h a)"
proof (cases "\<exists>a. owns h t j a")
  case True
  then obtain a where a: "owns h t j a" by blast
  then have t: "ts_at t j h = Some (a, True)" "hpCols h a \<noteq> None" using heap_okD(1)[OF assms a] by (auto simp: owns_def)
  have "owns h t j b \<longleftrightarrow> b = a" for b using t(1) by (auto simp: owns_def)
  then show thesis using that[of "h\<lparr>hpCols := (hpCols h)(a := None)\<rparr>"] t
    by (auto simp: drop_entry_def delete_column_def)
next
  case False
  then have "drop_entry t j h = Inr h" by (auto simp: drop_entry_def owns_def split: option.splits)
  then show thesis using that False by auto
qed

text \<open>A shallow copy of a column of an earlier tuple set.\<close>

lemma put_copy_ok:
  assumes ok: "heap_ok h" and d: "drop_entry t j h = Inr h1"
    and up: "\<And>u k. owns h u k a \<Longrightarrow> u < t" and a: "a < hpNext h"
  defines "h' \<equiv> ts_put t j (a, False) h1"
  shows "heap_ok h'" "others t {j} h h'" "view h' t j = cells_at h a"
proof -
  obtain h2 where "drop_entry t j h = Inr h2" "hpSets h2 = hpSets h" "hpNext h2 = hpNext h"
    "\<And>a. hpCols h2 a = (if owns h t j a then None else hpCols h a)" using drop_entry_ok[OF ok] by blast
  then have h1: "hpSets h1 = hpSets h" "hpNext h1 = hpNext h" "\<And>a. hpCols h1 a = (if owns h t j a then None else hpCols h a)"
    using d by auto
  have at1: "ts_at s i h1 = ts_at s i h" for s i using h1(1) by (simp add: ts_at_def)
  have at: "ts_at s i h' = (if s = t \<and> i = j then Some (a, False) else ts_at s i h)" for s i
    by (simp add: h'_def at1)
  have ow: "owns h' s i b \<longleftrightarrow> owns h s i b \<and> (s, i) \<noteq> (t, j)" for s i b by (auto simp: owns_def at)
  have cols: "hpCols h' b = (if owns h t j b then None else hpCols h b)" for b by (simp add: h'_def h1(3))
  have nx: "hpNext h' = hpNext h" by (simp add: h'_def h1(2))
  show "heap_ok h'" unfolding heap_ok_def
  proof (intro conjI allI impI)
    fix s i b assume "owns h' s i b"
    then show "hpCols h' b \<noteq> None" using heap_okD(1,2)[OF ok] by (auto simp: ow cols)
  next
    fix s i s' i' b assume "owns h' s i b" "owns h' s' i' b"
    then show "s = s'" "i = i'" using heap_okD(2)[OF ok] by (auto simp: ow)
  next
    fix b assume "hpCols h' b \<noteq> None"
    then have "hpCols h b \<noteq> None" "\<not> owns h t j b" by (auto simp: cols split: if_splits)
    then show "\<exists>s i. owns h' s i b" using heap_okD(3)[OF ok] by (fastforce simp: ow)
  next
    fix b assume "hpCols h' b \<noteq> None"
    then show "b < hpNext h'" using heap_okD(4)[OF ok] by (auto simp: cols nx split: if_splits)
  next
    fix s i b e assume "ts_at s i h' = Some (b, e)"
    then show "b < hpNext h'" using heap_okD(5)[OF ok] a by (auto simp: at nx split: if_splits)
  next
    fix s i b u k assume "ts_at s i h' = Some (b, False)" "owns h' u k b"
    then show "u < s" using heap_okD(6)[OF ok] up by (auto simp: at ow split: if_splits)
  next
    fix s show "distinct (map fst (hpSets h' s))" unfolding h'_def
      by (rule ts_put_distinct) (simp add: h1(1) heap_okD(7)[OF ok])
  qed
  have "view h' s i = view h s i" if "(s, i) \<noteq> (t, j)" "s \<le> t" for s i
  proof (cases "ts_at s i h")
    case (Some e)
    obtain b dl where e: "e = (b, dl)" by (cases e)
    have "\<not> owns h t j b"
    proof
      assume o: "owns h t j b"
      show False
      proof (cases dl)
        case True
        then have "owns h s i b" using Some e by (simp add: owns_def)
        then show False using heap_okD(2)[OF ok o] that(1) by auto
      next
        case False
        then show False using heap_okD(6)[OF ok _ o] Some e that(2) by fastforce
      qed
    qed
    then show ?thesis using that(1) Some e by (auto simp: view_def at cells_at_def cols)
  qed (use that(1) in \<open>auto simp: view_def at\<close>)
  then show "others t {j} h h'" by (auto simp: others_def at cols)
  have "\<not> owns h t j a" using up by blast
  then show "view h' t j = cells_at h a" by (simp add: view_def at cells_at_def cols)
qed

text \<open>A new column.\<close>

lemma put_new_ok:
  fixes h :: "'o heap" and c :: "'o column"
  assumes ok: "heap_ok h" and d: "drop_entry t j h = Inr h1"
  defines "h' \<equiv> ts_put t j (hpNext h, True) (fst (new_column c h1))"
  shows "heap_ok h'" "others t {j} h h'" "view h' t j = Some (cCells c)" "hpCols h' (hpNext h) = Some c"
proof -
  obtain h2 where "drop_entry t j h = Inr h2" "hpSets h2 = hpSets h" "hpNext h2 = hpNext h"
    "\<And>a. hpCols h2 a = (if owns h t j a then None else hpCols h a)" using drop_entry_ok[OF ok] by blast
  then have h1: "hpSets h1 = hpSets h" "hpNext h1 = hpNext h" "\<And>a. hpCols h1 a = (if owns h t j a then None else hpCols h a)"
    using d by auto
  let ?n = "hpNext h"
  have at: "ts_at s i h' = (if s = t \<and> i = j then Some (?n, True) else ts_at s i h)" for s i
    by (simp add: h'_def new_column_def ts_at_def ts_put_def update_conv h1)
  have fresh: "\<not> owns h s i ?n" for s i using heap_okD(5)[OF ok] by (auto simp: owns_def)
  have ow: "owns h' s i b \<longleftrightarrow> (if (s, i) = (t, j) then b = ?n else owns h s i b)" for s i b by (auto simp: owns_def at)
  have cols: "hpCols h' b = (if b = ?n then Some c else if owns h t j b then None else hpCols h b)" for b
    by (simp add: h'_def new_column_def h1)
  have nx: "hpNext h' = Suc ?n" by (simp add: h'_def new_column_def h1(2))
  show "heap_ok h'" unfolding heap_ok_def
  proof (intro conjI allI impI)
    fix s i b assume "owns h' s i b"
    then show "hpCols h' b \<noteq> None" using heap_okD(1,2)[OF ok] by (auto simp: ow cols split: if_splits)
  next
    fix s i s' i' b assume "owns h' s i b" "owns h' s' i' b"
    then show "s = s'" "i = i'" using heap_okD(2)[OF ok] fresh by (auto simp: ow split: if_splits)
  next
    fix b assume b: "hpCols h' b \<noteq> None"
    show "\<exists>s i. owns h' s i b"
    proof (cases "b = ?n")
      case True
      then have "owns h' t j b" by (simp add: ow)
      then show ?thesis by blast
    next
      case False
      then have "hpCols h b \<noteq> None" "\<not> owns h t j b" using b by (auto simp: cols split: if_splits)
      then obtain s i where "owns h s i b" "(s, i) \<noteq> (t, j)" using heap_okD(3)[OF ok] by fastforce
      then have "owns h' s i b" by (auto simp: ow)
      then show ?thesis by blast
    qed
  next
    fix b assume "hpCols h' b \<noteq> None"
    then show "b < hpNext h'" using heap_okD(4)[OF ok, of b] by (auto simp: cols nx split: if_splits)
  next
    fix s i b e assume "ts_at s i h' = Some (b, e)"
    then show "b < hpNext h'" using heap_okD(5)[OF ok, of s i b e] by (auto simp: at nx split: if_splits)
  next
    fix s i b u k assume a: "ts_at s i h' = Some (b, False)" "owns h' u k b"
    then have "ts_at s i h = Some (b, False)" by (auto simp: at split: if_splits)
    moreover from this have "b \<noteq> ?n" using heap_okD(5)[OF ok, of s i b False] by auto
    ultimately show "u < s" using heap_okD(6)[OF ok, of s i b u k] a by (auto simp: ow split: if_splits)
  next
    fix s show "distinct (map fst (hpSets h' s))" unfolding h'_def
      by (rule ts_put_distinct) (simp add: h1(1) new_column_def heap_okD(7)[OF ok])
  qed
  have "view h' s i = view h s i" if "(s, i) \<noteq> (t, j)" "s \<le> t" for s i
  proof (cases "ts_at s i h")
    case (Some e)
    obtain b dl where e: "e = (b, dl)" by (cases e)
    have n: "b \<noteq> ?n" using heap_okD(5)[OF ok, of s i b dl] Some e by auto
    have "\<not> owns h t j b"
    proof
      assume o: "owns h t j b"
      show False
      proof (cases dl)
        case True
        then have "owns h s i b" using Some e by (simp add: owns_def)
        then show False using heap_okD(2)[OF ok o] that(1) by auto
      next
        case False
        then show False using heap_okD(6)[OF ok _ o] Some e that(2) by fastforce
      qed
    qed
    then show ?thesis using that(1) Some e n by (auto simp: view_def at cells_at_def cols)
  qed (use that(1) in \<open>auto simp: view_def at\<close>)
  moreover have "hpCols h ?n = None" using heap_okD(4)[OF ok, of ?n] by (cases "hpCols h ?n") auto
  ultimately show "others t {j} h h'" by (auto simp: others_def at cols)
  show "view h' t j = Some (cCells c)" "hpCols h' (hpNext h) = Some c" by (simp_all add: view_def at cells_at_def cols)
qed


section \<open>Operations\<close>

lemma copyColumn_ok:
  assumes ok: "heap_ok h" and lt: "from < t" and e: "ts_at from i h = Some (a, d)"
  obtains h' where "copyColumn from i t j h = Inr h'" "heap_ok h'" "others t {j} h h'"
    "view h' t j = view h from i" "ts_at t j h' = Some (a, False)"
proof -
  obtain h1 where d: "drop_entry t j h = Inr h1" "hpSets h1 = hpSets h" using drop_entry_ok[OF ok, of t j] by metis
  have e1: "ts_at from i h1 = Some (a, d)" using e d(2) by (simp add: ts_at_def)
  have up: "u < t" if "owns h u k a" for u k
  proof (cases d)
    case True
    then have "owns h from i a" using e by (simp add: owns_def)
    then show ?thesis using heap_okD(2)[OF ok that] lt by auto
  next
    case False
    then show ?thesis using heap_okD(6)[OF ok _ that] e lt by fastforce
  qed
  note p = put_copy_ok[OF ok d(1) up heap_okD(5)[OF ok e]]
  have "copyColumn from i t j h = Inr (ts_put t j (a, False) h1)" using d(1) e1 by (simp add: copyColumn_def)
  moreover have "view h from i = cells_at h a" using e by (simp add: view_def)
  ultimately show thesis using that p by simp
qed

lemma filter_loop_zip: "length xs = length bs \<Longrightarrow> filter_loop xs bs = Inr (map fst (filter snd (zip xs bs)))"
  by (induction xs bs rule: list_induct2) auto

lemma length_filter_zip: "length xs = length bs \<Longrightarrow> length (filter snd (zip xs bs)) = length (filter id bs)"
  by (induction xs bs rule: list_induct2) auto

lemma keys_put: "others t {c} h h1 \<Longrightarrow> ts_at t c h1 \<noteq> None \<Longrightarrow> keys h1 t = insert c (keys h t)"
  using othersD(1)[of t "{c}" h h1 t] by (auto simp: keys_def) (metis option.distinct(1))+

lemma filter_cells_zip:
  "length bs = length (cCells c) \<Longrightarrow> filter_cells c bs = Inr (c\<lparr>cCells := map fst (filter snd (zip (cCells c) bs))\<rparr>)"
  by (simp add: filter_cells_def filter_loop_zip resize_cells_def length_filter_zip)

lemma filterColumn_ok:
  assumes ok: "heap_ok h" and v: "view h t i = Some xs" and f: "hpCols h f = Some fc" "as_flags (cCells fc) = Inr bs"
    and len: "length bs = length xs"
  obtains h' where "filterColumn t i f h = Inr h'" "heap_ok h'" "others t {i} h h'"
    "view h' t i = Some (map fst (filter snd (zip xs bs)))" "ts_at t i h' \<noteq> None"
proof -
  obtain a d c where e: "ts_at t i h = Some (a, d)" "hpCols h a = Some c" "cCells c = xs" using v by (auto simp: view_Some)
  let ?c = "c\<lparr>cCells := map fst (filter snd (zip xs bs))\<rparr>"
  obtain h1 where d: "drop_entry t i h = Inr h1" using drop_entry_ok[OF ok, of t i] by metis
  have an: "a \<noteq> hpNext h" using heap_okD(4)[OF ok] e(2) by fastforce
  have "filterColumn t i f h = Inr (ts_put t i (hpNext h, True) (fst (new_column ?c h1)))"
  proof (cases d)
    case True
    then have "h1 = h\<lparr>hpCols := (hpCols h)(a := None)\<rparr>" using d(1) e by (auto simp: drop_entry_def delete_column_def)
    then show ?thesis using e f len an True
      by (cases h) (simp add: filterColumn_def read_column_def filter_cells_zip new_column_def delete_column_def fun_upd_twist)
  next
    case False
    then have "h1 = h" using d(1) e by (auto simp: drop_entry_def)
    then show ?thesis using e f len False
      by (simp add: filterColumn_def read_column_def filter_cells_zip new_column_def)
  qed
  then show thesis by (rule that) (use put_new_ok[OF ok d, of ?c] in simp_all)
qed

text \<open>The setup loop.\<close>

lemma setup_loop_ok:
  assumes "heap_ok h" "input < out" "\<forall>i \<in> set is. ts_at input i h \<noteq> None"
  shows "\<exists>h'. setup_loop input out is c h = Inr h' \<and> heap_ok h' \<and> others out {c ..< c + length is} h h'
    \<and> (\<forall>k < length is. view h' out (c + k) = view h input (is ! k)) \<and> keys h' out = keys h out \<union> {c ..< c + length is}"
  using assms(1,3)
proof (induction "is" arbitrary: c h)
  case Nil
  then show ?case by (simp add: others_refl)
next
  case (Cons i "is")
  obtain a d where e: "ts_at input i h = Some (a, d)" using Cons.prems(2) by auto
  obtain h1 where h1: "copyColumn input i out c h = Inr h1" "heap_ok h1" "others out {c} h h1"
    "view h1 out c = view h input i" "ts_at out c h1 = Some (a, False)"
    using copyColumn_ok[OF Cons.prems(1) assms(2) e] by blast
  have inp: "ts_at input k h1 = ts_at input k h" "view h1 input k = view h input k" for k
    using othersD(1,2)[OF h1(3), of input k] assms(2) by auto
  have "\<forall>k \<in> set is. ts_at input k h1 \<noteq> None" using Cons.prems(2) inp(1) by simp
  from Cons.IH[OF h1(2) this, of "c + 1"] obtain h' where h': "setup_loop input out is (c + 1) h1 = Inr h'" "heap_ok h'"
    "others out {c + 1 ..< c + 1 + length is} h1 h'" "\<forall>k < length is. view h' out (c + 1 + k) = view h1 input (is ! k)"
    "keys h' out = keys h1 out \<union> {c + 1 ..< c + 1 + length is}" by blast
  have J: "{c} \<union> {c + 1 ..< c + 1 + length is} = {c ..< c + length (i # is)}" by auto
  have "keys h1 out = insert c (keys h out)" using keys_put[OF h1(3)] h1(5) by simp
  moreover have "view h' out c = view h input i" using othersD(2)[OF h'(3), of out c] h1(4) by simp
  ultimately show ?case
    using h1(1) h' others_trans[OF h1(3) h'(3) Cons.prems(1) h1(2)] J inp(2)
    by (intro exI[of _ h']) (auto simp: less_Suc_eq_0_disj)
qed

lemma filter_all_ok:
  assumes "heap_ok h" "\<forall>k \<in> {i ..< i + n}. \<exists>xs. view h out k = Some xs \<and> length xs = length bs"
    "hpCols h f = Some fc" "as_flags (cCells fc) = Inr bs" "\<And>k. \<not> owns h out k f"
  shows "\<exists>h'. filter_all out f i n h = Inr h' \<and> heap_ok h' \<and> others out {i ..< i + n} h h' \<and> keys h' out = keys h out
    \<and> (\<forall>k \<in> {i ..< i + n}. view h' out k = map_option (\<lambda>xs. map fst (filter snd (zip xs bs))) (view h out k))"
  using assms
proof (induction n arbitrary: i h)
  case 0
  then show ?case by (simp add: others_refl)
next
  case (Suc n)
  obtain xs where xs: "view h out i = Some xs" "length xs = length bs" using Suc.prems(2) by force
  obtain h1 where h1: "filterColumn out i f h = Inr h1" "heap_ok h1" "others out {i} h h1"
    "view h1 out i = Some (map fst (filter snd (zip xs bs)))" "ts_at out i h1 \<noteq> None"
    using filterColumn_ok[OF Suc.prems(1) xs(1) Suc.prems(3,4)] xs(2) by metis
  have v1: "view h1 out k = view h out k" if "k \<noteq> i" for k using othersD(2)[OF h1(3), of out k] that by auto
  have "\<forall>k \<in> {Suc i ..< Suc i + n}. \<exists>xs. view h1 out k = Some xs \<and> length xs = length bs" using Suc.prems(2) v1 by auto
  moreover have "hpCols h1 f = Some fc" using othersD(3)[OF h1(3)] Suc.prems(3,5) by blast
  moreover have "\<not> owns h1 out k f" for k using others_stays_foreign[OF h1(3) Suc.prems(1) h1(2)] Suc.prems(3,5) by auto
  ultimately obtain h' where h': "filter_all out f (Suc i) n h1 = Inr h'" "heap_ok h'" "others out {Suc i ..< Suc i + n} h1 h'"
    "keys h' out = keys h1 out"
    "\<forall>k \<in> {Suc i ..< Suc i + n}. view h' out k = map_option (\<lambda>xs. map fst (filter snd (zip xs bs))) (view h1 out k)"
    using Suc.IH[OF h1(2) _ _ Suc.prems(4), of "Suc i"] by blast
  have J: "{i} \<union> {Suc i ..< Suc i + n} = {i ..< i + Suc n}" by auto
  have J': "{i ..< i + Suc n} = insert i {Suc i ..< Suc i + n}" by auto
  have "ts_at out i h \<noteq> None" using xs(1) by (auto simp: view_def split: option.splits)
  then have "keys h1 out = keys h out" using keys_put[OF h1(3,5)] by (auto simp: keys_def)
  moreover have "view h' out i = view h1 out i" using othersD(2)[OF h'(3), of out i] by simp
  ultimately show ?case using h1(1,4) h' others_trans[OF h1(3) h'(3) Suc.prems(1) h1(2)] J xs(1) v1
    unfolding J' by (intro exI[of _ h']) auto
qed

text \<open>What the filter executor computes: the rows whose flag is set, in every column it passes on.\<close>

lemma filter_process_ok:
  assumes ok: "heap_ok h" and lt: "input < xOut X" and ks: "keys h (xOut X) \<subseteq> {..< length (xMatches X)}"
    and cols: "\<forall>k \<in> set (xMatches X). \<exists>xs. view h input k = Some xs \<and> length xs = length bs"
    and flags: "view h input (xAtt X) = Some fl" "as_flags fl = Inr bs"
  obtains h' where "filter_process X input h = Inr h'" "heap_ok h'" "others (xOut X) UNIV h h'"
    "keys h' (xOut X) = {..< length (xMatches X)}"
    "\<And>k. k < length (xMatches X) \<Longrightarrow>
       view h' (xOut X) k = map_option (\<lambda>xs. map fst (filter snd (zip xs bs))) (view h input (xMatches X ! k))"
proof -
  let ?o = "xOut X" and ?n = "length (xMatches X)"
  have ex: "\<forall>k \<in> set (xMatches X). ts_at input k h \<noteq> None" using cols by (auto simp: view_def split: option.splits)
  obtain h1 where h1: "setup_loop input ?o (xMatches X) 0 h = Inr h1" "heap_ok h1" "others ?o {0 ..< ?n} h h1"
    "\<forall>k < ?n. view h1 ?o k = view h input (xMatches X ! k)" "keys h1 ?o = keys h ?o \<union> {0 ..< ?n}"
    using setup_loop_ok[OF ok lt ex, of 0] by auto
  have k1: "keys h1 ?o = {..< ?n}" using h1(5) ks by auto
  note num = columns_number[OF h1(2) k1]
  obtain a d c where f: "ts_at input (xAtt X) h = Some (a, d)" "hpCols h a = Some c" "cCells c = fl"
    using flags(1) by (auto simp: view_Some)
  have f1: "ts_at input (xAtt X) h1 = Some (a, d)" using othersD(1)[OF h1(3), of input "xAtt X"] lt f(1) by simp
  have "view h1 input (xAtt X) = Some fl" using othersD(2)[OF h1(3), of input "xAtt X"] lt flags(1) by simp
  then obtain c1 where c1: "hpCols h1 a = Some c1" "cCells c1 = fl" using f1 by (auto simp: view_Some)
  have own: "\<not> owns h1 ?o k a" for k
  proof
    assume o: "owns h1 ?o k a"
    show False
    proof (cases d)
      case True
      then have "owns h1 input (xAtt X) a" using f1 by (simp add: owns_def)
      then show False using heap_okD(2)[OF h1(2) o] lt by auto
    next
      case False
      then show False using heap_okD(6)[OF h1(2) _ o] f1 lt by fastforce
    qed
  qed
  have "\<forall>k \<in> {0 ..< 0 + ?n}. \<exists>xs. view h1 ?o k = Some xs \<and> length xs = length bs" using h1(4) cols by simp
  from filter_all_ok[OF h1(2) this c1(1) _ own] flags(2) c1(2) obtain h' where h':
    "filter_all ?o a 0 ?n h1 = Inr h'" "heap_ok h'" "others ?o {0 ..< ?n} h1 h'" "keys h' ?o = keys h1 ?o"
    "\<forall>k \<in> {0 ..< ?n}. view h' ?o k = map_option (\<lambda>xs. map fst (filter snd (zip xs bs))) (view h1 ?o k)"
    by auto
  have "filter_process X input h = Inr h'"
    using h1(1) f1 num h'(1) by (simp add: filter_process_def ts_setup_def getColumn_def)
  then show thesis
    using that[of h'] h'(2,4,5) k1 h1(4) others_mono[OF others_trans[OF h1(3) h'(3) ok h1(2)], of UNIV] by auto
qed


text \<open>Writing a column that the tuple set owns.\<close>

lemma set_cells_ok:
  assumes ok: "heap_ok h" and o: "owns h t j a"
  obtains h' where "set_cells a xs h = Inr h'" "heap_ok h'" "others t {j} h h'" "view h' t j = Some xs"
    "\<And>s i. ts_at s i h' = ts_at s i h"
proof -
  obtain c where c: "hpCols h a = Some c" using heap_okD(1)[OF ok o] by auto
  let ?h = "h\<lparr>hpCols := (hpCols h)(a := Some (c\<lparr>cCells := xs\<rparr>))\<rparr>"
  have "set_cells a xs h = Inr ?h" using c by (simp add: set_cells_def)
  moreover have "owns ?h = owns h" by (intro ext) (simp add: owns_def)
  then have "heap_ok ?h" using ok c by (auto simp: heap_ok_def)
  moreover have "others t {j} h ?h" unfolding others_def
  proof (intro conjI allI impI)
    fix s i assume st: "s \<le> t"
    show "s = t \<and> i \<in> {j} \<or> view ?h s i = view h s i"
    proof (cases "ts_at s i h")
      case (Some e)
      obtain b d where e: "e = (b, d)" by (cases e)
      show ?thesis
      proof (cases "b = a")
        case True
        have "d" using heap_okD(6)[OF ok _ o, of s i] Some e True st by (cases d) auto
        then have "owns h s i a" using Some e True by (simp add: owns_def)
        then show ?thesis using heap_okD(2)[OF ok o] by auto
      qed (use Some e in \<open>auto simp: view_def cells_at_def\<close>)
    qed (auto simp: view_def)
  qed (use o in \<open>auto simp: c\<close>)
  moreover have "view ?h t j = Some xs" using o by (simp add: view_def owns_def cells_at_def)
  ultimately show thesis using that by simp
qed

lemma ensure_column_ok:
  assumes ok: "heap_ok h" and ow: "\<And>a. ts_at t j h \<noteq> Some (a, False)"
  obtains h' a where "ensure_column t j d h = Inr h'" "heap_ok h'" "others t {j} h h'" "owns h' t j a"
    "keys h' t = insert j (keys h t)"
proof (cases "hasColumn t j h")
  case True
  then obtain a e where e: "ts_at t j h = Some (a, e)" by (auto simp: hasColumn_def)
  then have "owns h t j a" using ow by (cases e) (auto simp: owns_def)
  moreover have "keys h t = insert j (keys h t)" using e by (auto simp: keys_def)
  ultimately show thesis using that[of h a] True ok by (simp add: ensure_column_def others_refl)
next
  case False
  then have none: "ts_at t j h = None" by (cases "ts_at t j h") (auto simp: hasColumn_def)
  let ?c = "\<lparr>cDefault = d, cCells = []\<rparr>"
  have dr: "drop_entry t j h = Inr h" using none by (simp add: drop_entry_def)
  note p = put_new_ok[OF ok dr, of ?c]
  let ?h = "ts_put t j (hpNext h, True) (fst (new_column ?c h))"
  have "drop_entry t j (fst (new_column ?c h)) = Inr (fst (new_column ?c h))"
    using none by (simp add: drop_entry_def new_column_def)
  then have "ensure_column t j d h = Inr ?h" using False by (simp add: ensure_column_def new_column_def addColumn_def)
  moreover have "owns ?h t j (hpNext h)" by (simp add: owns_def)
  moreover have "keys ?h t = insert j (keys h t)" by (rule keys_put[OF p(2)]) simp
  ultimately show thesis using that p(1,2) by blast
qed

lemma lambda_loop_ok:
  assumes "lambda_loop func xs i n ys = (zs, r)" "i + n = length xs" "length ys = length xs"
  shows "length zs = length xs \<and> (\<forall>k < i. zs ! k = ys ! k)
    \<and> (case r of Inr _ \<Rightarrow> \<forall>k \<in> {i ..< length xs}. func (xs ! k) = Inr (zs ! k)
       | Inl e \<Rightarrow> \<exists>k < length xs. func (xs ! k) = Inl e)"
  using assms
proof (induction n arbitrary: i ys)
  case 0
  then show ?case by auto
next
  case (Suc n)
  show ?case
  proof (cases "func (xs ! i)")
    case (Inl e)
    then have "r = Inl e" "zs = ys" "i < length xs" using Suc.prems by auto
    then show ?thesis using Inl Suc.prems(3) by auto
  next
    case (Inr v)
    then have l: "lambda_loop func xs (Suc i) n (ys[i := v]) = (zs, r)" using Suc.prems(1) by simp
    have z: "length zs = length xs" "\<forall>k < Suc i. zs ! k = ys[i := v] ! k"
      "case r of Inr _ \<Rightarrow> \<forall>k \<in> {Suc i ..< length xs}. func (xs ! k) = Inr (zs ! k)
        | Inl e \<Rightarrow> \<exists>k < length xs. func (xs ! k) = Inl e"
      using Suc.IH[OF l] Suc.prems(2,3) by auto
    have zi: "zs ! i = v" "\<forall>k < i. zs ! k = ys ! k" using z(2) Suc.prems(2,3) by auto
    have "{i ..< length xs} = insert i {Suc i ..< length xs}" using Suc.prems(2) by auto
    then show ?thesis using z(1,3) zi Inr by (auto split: sum.splits)
  qed
qed

text \<open>What the executor of a lambda computes: the columns it passes on and the function's value of every
  row; when the function throws, nothing that was visible before has changed.\<close>

lemma lambda_process_ok:
  assumes ok: "heap_ok h" and lt: "input < xOut X" and out: "xOutAtt X = length (xMatches X)"
    and ow: "\<And>a. ts_at (xOut X) (xOutAtt X) h \<noteq> Some (a, False)"
    and cols: "\<forall>k \<in> set (xMatches X). ts_at input k h \<noteq> None" and arg: "view h input (xAtt X) = Some xs"
  obtains h' r where "lambda_process func d X input h = (h', r)" "heap_ok h'" "others (xOut X) UNIV h h'"
    "keys h' (xOut X) = keys h (xOut X) \<union> {.. xOutAtt X}" "\<And>a. ts_at (xOut X) (xOutAtt X) h' \<noteq> Some (a, False)"
    "r = Inr () \<Longrightarrow> (\<forall>k < length (xMatches X). view h' (xOut X) k = view h input (xMatches X ! k))
       \<and> (\<exists>ys. view h' (xOut X) (xOutAtt X) = Some ys \<and> list_all2 (\<lambda>x y. func x = Inr y) xs ys)"
    "\<And>e. r = Inl e \<Longrightarrow> \<exists>x \<in> set xs. func x = Inl e"
proof -
  let ?o = "xOut X" and ?n = "length (xMatches X)"
  obtain h1 where h1: "setup_loop input ?o (xMatches X) 0 h = Inr h1" "heap_ok h1" "others ?o {0 ..< ?n} h h1"
    "\<forall>k < ?n. view h1 ?o k = view h input (xMatches X ! k)" "keys h1 ?o = keys h ?o \<union> {0 ..< ?n}"
    using setup_loop_ok[OF ok lt cols, of 0] by auto
  have o1: "ts_at ?o (xOutAtt X) h1 = ts_at ?o (xOutAtt X) h" using othersD(1)[OF h1(3), of ?o "xOutAtt X"] out by simp
  have ow1: "ts_at ?o (xOutAtt X) h1 \<noteq> Some (a, False)" for a using ow[of a] by (simp add: o1)
  obtain h2 b where h2: "ensure_column ?o (xOutAtt X) d h1 = Inr h2" "heap_ok h2" "others ?o {xOutAtt X} h1 h2"
    "owns h2 ?o (xOutAtt X) b" "keys h2 ?o = insert (xOutAtt X) (keys h1 ?o)"
    using ensure_column_ok[OF h1(2) ow1, where d = d] by metis
  have v1: "view h1 input (xAtt X) = Some xs" using othersD(2)[OF h1(3), of input "xAtt X"] lt arg by simp
  have v2: "view h2 input (xAtt X) = Some xs" using othersD(2)[OF h2(3), of input "xAtt X"] lt v1 by simp
  obtain a e where a1: "ts_at input (xAtt X) h1 = Some (a, e)" using v1 by (auto simp: view_Some)
  have a2: "ts_at input (xAtt X) h2 = Some (a, e)" using othersD(1)[OF h2(3), of input "xAtt X"] lt a1 by simp
  obtain c where c: "hpCols h2 a = Some c" "cCells c = xs" using v2 a2 by (auto simp: view_Some)
  obtain oc where oc: "hpCols h2 b = Some oc" using heap_okD(1)[OF h2(2,4)] by auto
  let ?ys = "resize_cells (cDefault oc) (length xs) (cCells oc)"
  obtain zs r where l: "lambda_loop func xs 0 (length xs) ?ys = (zs, r)" by (cases "lambda_loop func xs 0 (length xs) ?ys")
  obtain h3 where h3: "set_cells b zs h2 = Inr h3" "heap_ok h3" "others ?o {xOutAtt X} h2 h3" "view h3 ?o (xOutAtt X) = Some zs"
    "\<And>s i. ts_at s i h3 = ts_at s i h2" using set_cells_ok[OF h2(2,4)] by metis
  have lo: "length zs = length xs" "case r of Inr _ \<Rightarrow> \<forall>k \<in> {0 ..< length xs}. func (xs ! k) = Inr (zs ! k)
      | Inl e \<Rightarrow> \<exists>k < length xs. func (xs ! k) = Inl e"
    using lambda_loop_ok[OF l] by (auto simp: resize_cells_def)
  have p: "lambda_process func d X input h = (h3, r)"
    using h1(1) a1 h2(1,4) c oc l h3(1)
    by (simp add: lambda_process_def ts_setup_def getColumn_def owns_def read_column_def)
  have oth: "others ?o UNIV h h3"
    using others_mono[OF others_trans[OF h1(3) others_trans[OF h2(3) h3(3) h1(2) h2(2)] ok h1(2)]] by blast
  have pass: "view h3 ?o k = view h input (xMatches X ! k)" if "k < ?n" for k
    using othersD(2)[OF h2(3), of ?o k] othersD(2)[OF h3(3), of ?o k] h1(4) that out by simp
  have "keys h3 ?o = keys h2 ?o" by (simp add: keys_def h3(5))
  then have ks: "keys h3 ?o = keys h ?o \<union> {.. xOutAtt X}" using h2(5) h1(5) out by auto
  have ow3: "ts_at ?o (xOutAtt X) h3 \<noteq> Some (a, False)" for a using h2(4) by (simp add: h3(5) owns_def)
  have vals: "list_all2 (\<lambda>x y. func x = Inr y) xs zs" if "r = Inr ()"
    using lo that by (simp add: list_all2_conv_all_nth)
  have lost: "\<exists>x \<in> set xs. func x = Inl e" if "r = Inl e" for e using lo(2) that nth_mem by force
  show thesis by (rule that[OF p h3(2) oth ks ow3]) (use pass vals h3(4) lost in auto)
qed

section \<open>Destruction\<close>

lemma delete_all_ok:
  assumes "distinct (map fst es)" "\<And>i a. (i, a, True) \<in> set es \<Longrightarrow> hpCols h a \<noteq> None"
    "\<And>i j a. (i, a, True) \<in> set es \<Longrightarrow> (j, a, True) \<in> set es \<Longrightarrow> i = j"
  shows "\<exists>h'. delete_all es h = Inr h' \<and> hpSets h' = hpSets h \<and> hpNext h' = hpNext h
    \<and> (\<forall>a. hpCols h' a = (if \<exists>i. (i, a, True) \<in> set es then None else hpCols h a))"
  using assms
proof (induction es arbitrary: h)
  case Nil
  then show ?case by simp
next
  case (Cons e es)
  obtain i a d where e: "e = (i, a, d)" by (cases e) auto
  show ?case
  proof (cases d)
    case True
    let ?h = "h\<lparr>hpCols := (hpCols h)(a := None)\<rparr>"
    have no: "(j, a, True) \<notin> set es" for j
      using Cons.prems(1) Cons.prems(3)[of i a j] True by (force simp: e)
    have "delete_column a h = Inr ?h" using Cons.prems(2)[of i a] True by (simp add: delete_column_def e)
    moreover have "\<exists>h'. delete_all es ?h = Inr h' \<and> hpSets h' = hpSets ?h \<and> hpNext h' = hpNext ?h
        \<and> (\<forall>b. hpCols h' b = (if \<exists>i. (i, b, True) \<in> set es then None else hpCols ?h b))"
    proof (rule Cons.IH)
      show "hpCols ?h b \<noteq> None" if "(j, b, True) \<in> set es" for j b
      proof -
        have "b \<noteq> a" using no that by auto
        then show ?thesis using Cons.prems(2)[of j b] that by simp
      qed
      show "distinct (map fst es)" using Cons.prems(1) by (simp add: e)
      show "k = l" if "(k, b, True) \<in> set es" "(l, b, True) \<in> set es" for k l b
        using Cons.prems(3)[of k b l] that by simp
    qed
    ultimately obtain h' where h': "delete_all (e # es) h = Inr h'" "hpSets h' = hpSets h" "hpNext h' = hpNext h"
      "\<And>b. hpCols h' b = (if \<exists>i. (i, b, True) \<in> set es then None else hpCols ?h b)" using True by (auto simp: e)
    have "(\<exists>i. (i, b, True) \<in> set (e # es)) \<longleftrightarrow> b = a \<or> (\<exists>i. (i, b, True) \<in> set es)" for b using True by (auto simp: e)
    then have "hpCols h' b = (if \<exists>i. (i, b, True) \<in> set (e # es) then None else hpCols h b)" for b using h'(4)[of b] by simp
    with h'(1-3) show ?thesis by blast
  next
    case False
    have "\<exists>h'. delete_all es h = Inr h' \<and> hpSets h' = hpSets h \<and> hpNext h' = hpNext h
        \<and> (\<forall>b. hpCols h' b = (if \<exists>i. (i, b, True) \<in> set es then None else hpCols h b))"
    proof (rule Cons.IH)
      show "distinct (map fst es)" using Cons.prems(1) by (simp add: e)
      show "hpCols h b \<noteq> None" if "(j, b, True) \<in> set es" for j b using Cons.prems(2)[of j b] that by simp
      show "k = l" if "(k, b, True) \<in> set es" "(l, b, True) \<in> set es" for k l b
        using Cons.prems(3)[of k b l] that by simp
    qed
    moreover have "(\<exists>i. (i, b, True) \<in> set (e # es)) \<longleftrightarrow> (\<exists>i. (i, b, True) \<in> set es)" for b using False by (auto simp: e)
    ultimately show ?thesis using False by (simp add: e)
  qed
qed

lemma ts_destroy_ok:
  assumes ok: "heap_ok h"
  obtains h' where "ts_destroy t h = Inr h'" "heap_ok h'" "\<And>s i. ts_at s i h' = (if s = t then None else ts_at s i h)"
    "\<And>a. hpCols h' a = (if \<exists>i. owns h t i a then None else hpCols h a)"
proof -
  let ?es = "hpSets h t"
  have mem: "(i, a, True) \<in> set ?es \<longleftrightarrow> owns h t i a" for i a
    using heap_okD(7)[OF ok, of t] by (auto simp: owns_def ts_at_def dest: map_of_SomeD)
  have "\<exists>h'. delete_all ?es h = Inr h' \<and> hpSets h' = hpSets h \<and> hpNext h' = hpNext h
    \<and> (\<forall>a. hpCols h' a = (if \<exists>i. (i, a, True) \<in> set ?es then None else hpCols h a))"
    by (rule delete_all_ok[OF heap_okD(7)[OF ok]]) (use heap_okD(1)[OF ok] heap_okD(2)[OF ok] in \<open>auto simp: mem\<close>)
  then obtain h1 where h1: "delete_all ?es h = Inr h1" "hpSets h1 = hpSets h" "hpNext h1 = hpNext h"
    "\<And>a. hpCols h1 a = (if \<exists>i. owns h t i a then None else hpCols h a)" by (auto simp: mem)
  let ?h = "h1\<lparr>hpSets := (hpSets h1)(t := [])\<rparr>"
  have at: "ts_at s i ?h = (if s = t then None else ts_at s i h)" for s i by (simp add: ts_at_def h1(2))
  have ow: "owns ?h s i a \<longleftrightarrow> owns h s i a \<and> s \<noteq> t" for s i a by (simp add: owns_def at)
  have "heap_ok ?h" unfolding heap_ok_def
  proof (intro conjI allI impI)
    fix s i a assume "owns ?h s i a"
    then show "hpCols ?h a \<noteq> None" using heap_okD(1,2)[OF ok, of s i a] by (auto simp: ow h1(4))
  next
    fix s i s' i' a assume "owns ?h s i a" "owns ?h s' i' a"
    then show "s = s'" "i = i'" using heap_okD(2)[OF ok] by (auto simp: ow)
  next
    fix a assume "hpCols ?h a \<noteq> None"
    then have "hpCols h a \<noteq> None" "\<And>i. \<not> owns h t i a" by (auto simp: h1(4) split: if_splits)
    then show "\<exists>s i. owns ?h s i a" using heap_okD(3)[OF ok, of a] by (metis ow)
  next
    fix a assume "hpCols ?h a \<noteq> None"
    then show "a < hpNext ?h" using heap_okD(4)[OF ok, of a] by (auto simp: h1(3,4) split: if_splits)
  next
    fix s i a d assume "ts_at s i ?h = Some (a, d)"
    then show "a < hpNext ?h" using heap_okD(5)[OF ok, of s i a d] by (auto simp: at h1(3) split: if_splits)
  next
    fix s i a u j assume "ts_at s i ?h = Some (a, False)" "owns ?h u j a"
    then show "u < s" using heap_okD(6)[OF ok, of s i a u j] by (auto simp: at ow split: if_splits)
  next
    fix s show "distinct (map fst (hpSets ?h s))" using heap_okD(7)[OF ok, of s] by (simp add: h1(2))
  qed
  then show thesis using that[of ?h] h1(1,4) at by (simp add: ts_destroy_def)
qed

end
