(* ===== verification/VectorPipelines.thy ===== *)
theory VectorPipelines
  imports PipelineRows TupleSetFacts
begin

text \<open>
  The parts of a selection: \<open>VectorTupleSetIterator\<close> (\<open>src/src/lambdas/headers/VectorTupleSetIterator.h\<close>),
  which cuts the vectors of the input pages into chunks, \<open>VectorSink\<close> (\<open>VectorSink.h\<close>), which appends
  a column to the vector of the output page, and the pipeline made of them, a lambda and a filter.

  An input page is its number and its vector of handles. Reading the vector of a page that has been
  handed back is \<open>WildAccess\<close>. \<open>chunkSize\<close> is taken to be below \<open>2\<^sup>3\<^sup>1\<close>, as it is stored in an \<open>int\<close>.
\<close>

section \<open>VectorTupleSetIterator\<close>

record 'o vsource =
  vsPages :: "(nat \<times> 'o option vec) list"
  vsDone :: "nat list"
  vsRec :: "nat option"
  vsLast :: "nat option"
  vsVec :: "(nat \<times> 'o option vec) option"
  vsChunk :: nat
  vsPos :: nat
  vsOut :: "nat option"

text \<open>\<open>myRec = getAnotherVector ()\<close>, with the root object when there is a page.\<close>

definition another_vector :: "'o vsource \<Rightarrow> 'o vsource" where
  "another_vector s =
     (case vsPages s of
        [] \<Rightarrow> s\<lparr>vsRec := None\<rparr>
      | p # ps \<Rightarrow> s\<lparr>vsPages := ps, vsRec := Some (fst p), vsVec := Some p\<rparr>)"

definition done_last :: "'o vsource \<Rightarrow> 'o vsource" where
  "done_last s = (case vsLast s of None \<Rightarrow> s | Some r \<Rightarrow> s\<lparr>vsDone := vsDone s @ [r]\<rparr>)"

definition vs_new :: "(nat \<times> 'o option vec) list \<Rightarrow> nat \<Rightarrow> nat \<Rightarrow> 'o heap \<Rightarrow> ('o vsource \<times> 'o heap) outcome" where
  "vs_new pages chunk out h =
     (let s = another_vector \<lparr>vsPages = pages, vsDone = [], vsRec = None, vsLast = None, vsVec = None,
                vsChunk = chunk, vsPos = 0, vsOut = Some out\<rparr> in
      if vsRec s = None then Inr (s\<lparr>vsVec := None, vsOut := None\<rparr>, h)
      else (case new_column \<lparr>cDefault = Obj None, cCells = []\<rparr> h of
              (h1, a) \<Rightarrow> andThen (addColumn out 0 a True h1) (\<lambda>h2. Inr (s, h2))))"

definition vec_in_use :: "'o vsource \<Rightarrow> 'o option vec outcome" where
  "vec_in_use s =
     (case vsVec s of
        None \<Rightarrow> Inl NullDeref
      | Some (r, v) \<Rightarrow> if r \<in> set (vsDone s) then Inl WildAccess else Inr v)"

text \<open>The loop that skips empty pages, over the pages that are left. The boolean is whether it found one
  that is not empty; otherwise \<open>getNextTupleSet\<close> returns null.\<close>

fun skip_empty :: "(nat \<times> 'o option vec) list \<Rightarrow> 'o vsource \<Rightarrow> ('o vsource \<times> bool) outcome" where
  "skip_empty ps s =
     andThen (vec_in_use s) (\<lambda>v.
       if vec_size v = 0 then
         (let s1 = another_vector ((done_last s)\<lparr>vsLast := vsRec s\<rparr>) in
          if vsRec s1 = None then Inr (s1, False)
          else (case ps of [] \<Rightarrow> Inr (s1, False) | _ # qs \<Rightarrow> skip_empty qs s1))
       else Inr (s, True))"

fun fill_chunk :: "'o option vec \<Rightarrow> nat \<Rightarrow> nat \<Rightarrow> 'o cell list outcome" where
  "fill_chunk v pos 0 = Inr []"
| "fill_chunk v pos (Suc n) =
     andThen (vec_get v pos) (\<lambda>x. andThen (fill_chunk v (pos + 1) n) (\<lambda>xs. Inr (Obj x # xs)))"

definition next_chunk :: "'o vsource \<Rightarrow> 'o heap \<Rightarrow> ('o vsource \<times> 'o heap \<times> nat option) outcome" where
  "next_chunk s h =
     andThen (vec_in_use s) (\<lambda>v.
       let mySize = vec_size v;
           n = (if mySize < vsChunk s + vsPos s then mySize - vsPos s else vsChunk s) in
       (case vsOut s of
          None \<Rightarrow> Inl NullDeref
        | Some out \<Rightarrow>
            andThen (getColumn out 0 h) (\<lambda>a.
            andThen (fill_chunk v (vsPos s) n) (\<lambda>xs.
            andThen (set_cells a xs h) (\<lambda>h'. Inr (s\<lparr>vsPos := vsPos s + n\<rparr>, h', Some out))))))"

definition vs_next :: "'o vsource \<Rightarrow> 'o heap \<Rightarrow> ('o vsource \<times> 'o heap \<times> nat option) outcome" where
  "vs_next s0 h =
     (if vsVec s0 = None then Inr (s0, h, None)
      else (let s = (done_last s0)\<lparr>vsLast := None\<rparr> in
        andThen (skip_empty (vsPages s) s) (\<lambda>(s1, found).
          if \<not> found then Inr (s1, h, None)
          else andThen (vec_in_use s1) (\<lambda>v.
            if vsPos s1 = vec_size v then
              (let s2 = another_vector (s1\<lparr>vsLast := vsRec s1\<rparr>) in
               if vsRec s2 = None then Inr (s2, h, None)
               else andThen (skip_empty (vsPages s2) s2) (\<lambda>(s3, found).
                      if \<not> found then Inr (s3, h, None) else next_chunk (s3\<lparr>vsPos := 0\<rparr>) h))
            else next_chunk s1 h))))"

definition vs_destroy :: "'o vsource \<Rightarrow> 'o vsource" where
  "vs_destroy s = (done_last s)\<lparr>vsLast := None\<rparr>"

section \<open>VectorSink\<close>

text \<open>\<open>push_back\<close> of a handle: the array may have to double (\<open>room\<close>), and the assignment copies the
  object into the page when it is not there (\<open>copyRoom\<close>); a throw of the latter leaves the doubled
  array.\<close>

record 'o vsink =
  vkRoom :: "nat \<Rightarrow> bool"
  vkCopy :: "'o option vec \<Rightarrow> 'o option \<Rightarrow> bool"

definition sink_push :: "'o vsink \<Rightarrow> 'o option vec \<Rightarrow> 'o option \<Rightarrow> 'o option vec \<times> unit outcome" where
  "sink_push K v x =
     (case (if arr_isFull (myArray v)
            then andThen (arr_doubleSize (vkRoom K) (myArray v)) (\<lambda>(old, new). Inr (v\<lparr>myArray := new\<rparr>))
            else Inr v) of
        Inl e \<Rightarrow> (v, Inl e)
      | Inr v' \<Rightarrow>
          if vkCopy K v' x then
            (case arr_push_back (myArray v') x of
               Inl e \<Rightarrow> (v', Inl e)
             | Inr a \<Rightarrow> (v'\<lparr>myArray := a\<rparr>, Inr ()))
          else (v', Inl NotEnoughSpace))"

text \<open>The loop of \<open>writeOut\<close>: on a throw it also returns the number of cells to erase.\<close>

fun vector_rows :: "'o vsink \<Rightarrow> 'o cell list \<Rightarrow> nat \<Rightarrow> nat \<Rightarrow> 'o option vec \<Rightarrow> 'o option vec \<times> (fault \<times> nat) option" where
  "vector_rows K xs i 0 v = (v, None)"
| "vector_rows K xs i (Suc n) v =
     (case xs ! i of
        Obj x \<Rightarrow>
          (case sink_push K v x of
             (v', Inl e) \<Rightarrow> (v', Some (e, i))
           | (v', Inr _) \<Rightarrow> vector_rows K xs (i + 1) n v')
      | _ \<Rightarrow> (v, Some (WildAccess, i)))"

definition vector_sink_writeOut :: "'o vsink \<Rightarrow> nat \<Rightarrow> 'o heap \<Rightarrow> nat \<Rightarrow> 'o option vec \<Rightarrow> 'o heap \<times> 'o option vec \<times> unit outcome" where
  "vector_sink_writeOut K att h input v =
     (case andThen (getColumn input att h) (\<lambda>a. andThen (read_column a h) (\<lambda>c. Inr (a, c))) of
        Inl e \<Rightarrow> (h, v, Inl e)
      | Inr (a, c) \<Rightarrow>
          (case vector_rows K (cCells c) 0 (length (cCells c)) v of
             (v', None) \<Rightarrow> (h, v', Inr ())
           | (v', Some (NotEnoughSpace, i)) \<Rightarrow>
               (case set_cells a (drop i (cCells c)) h of
                  Inl e \<Rightarrow> (h, v', Inl e)
                | Inr h' \<Rightarrow> (h', v', Inl NotEnoughSpace))
           | (v', Some (e, i)) \<Rightarrow> (h, v', Inl e)))"

definition vector_sink_new :: "'o vsink \<Rightarrow> 'o option vec outcome" where
  "vector_sink_new K = vec_new (vkRoom K)"

section \<open>The pipeline of a selection\<close>

text \<open>The world: the iterator, the heap of columns, the pages that can still be handed out and the page
  that is the current allocation block (\<open>None\<close> for any other block). The lambda's function runs in it.\<close>

record 'o sel_world =
  swSource :: "'o vsource"
  swHeap :: "'o heap"
  swPages :: "(nat \<times> nat) list"
  swBlock :: "nat option"

definition sel_lambda :: exec_io where
  "sel_lambda = \<lparr>xOut = 1, xMatches = [0], xAtt = 0, xOutAtt = 1\<rparr>"

definition sel_filter :: exec_io where
  "sel_filter = \<lparr>xOut = 2, xMatches = [0], xAtt = 1, xOutAtt = 1\<rparr>"

lemma sel_executors:
  "exec_new 1 [''in''] [''in''] [''in''] = Inr sel_lambda"
  "exec_new 2 [''in'', ''keep''] [''keep''] [''in''] = Inr sel_filter"
  by (simp_all add: exec_new_def ts_match_def map_filter_def sel_lambda_def sel_filter_def)

definition sel_next :: "'o sel_world \<Rightarrow> 'o sel_world \<times> nat option outcome" where
  "sel_next w =
     (case vs_next (swSource w) (swHeap w) of
        Inl e \<Rightarrow> (w, Inl e)
      | Inr (s, h, t) \<Rightarrow> (w\<lparr>swSource := s, swHeap := h\<rparr>, Inr t))"

definition sel_apply :: "(nat option \<Rightarrow> 'o cell \<Rightarrow> 'o cell outcome) \<Rightarrow> 'o sel_world \<Rightarrow> nat option \<Rightarrow> 'o sel_world \<times> nat option outcome" where
  "sel_apply func w t =
     (case t of
        None \<Rightarrow> (w, Inr None)
      | Some input \<Rightarrow>
          (case lambda_process (func (swBlock w)) (Flag False) sel_lambda input (swHeap w) of
             (h, Inl e) \<Rightarrow> (w\<lparr>swHeap := h\<rparr>, Inl e)
           | (h, Inr _) \<Rightarrow> (w\<lparr>swHeap := h\<rparr>, Inr (Some (xOut sel_lambda)))))"

definition sel_keep :: "'o sel_world \<Rightarrow> nat option \<Rightarrow> 'o sel_world \<times> nat option outcome" where
  "sel_keep w t =
     (case t of
        None \<Rightarrow> (w, Inr None)
      | Some input \<Rightarrow>
          (case filter_process sel_filter input (swHeap w) of
             Inl e \<Rightarrow> (w, Inl e)
           | Inr h \<Rightarrow> (w\<lparr>swHeap := h\<rparr>, Inr (Some (xOut sel_filter)))))"

definition sel_write :: "'o vsink \<Rightarrow> 'o sel_world \<Rightarrow> nat option \<Rightarrow> 'o option vec \<Rightarrow> 'o sel_world \<times> 'o option vec \<times> unit outcome" where
  "sel_write K w t v =
     (case t of
        None \<Rightarrow> (w, v, Inl NullDeref)
      | Some input \<Rightarrow>
          (case vector_sink_writeOut K 0 (swHeap w) input v of
             (h, v', r) \<Rightarrow> (w\<lparr>swHeap := h\<rparr>, v', r)))"

definition sel_ops :: "'o vsink \<Rightarrow> (nat option \<Rightarrow> 'o cell \<Rightarrow> 'o cell outcome)
    \<Rightarrow> ('o sel_world, nat, 'o option vec) pipe_ops" where
  "sel_ops K func =
     \<lparr>opNewPage = (\<lambda>w. case swPages w of [] \<Rightarrow> (w, None, 0) | (l, n) # ps \<Rightarrow> (w\<lparr>swPages := ps\<rparr>, Some l, n)),
      opWriteBack = (\<lambda>l c w. w), opDiscard = (\<lambda>l w. w),
      opOpenBlock = (\<lambda>loc n w. w\<lparr>swBlock := loc\<rparr>), opScratchBlock = (\<lambda>n w. w\<lparr>swBlock := None\<rparr>),
      opNext = sel_next, opStages = [sel_apply func, sel_keep],
      opNewSink = (\<lambda>w. (w, vector_sink_new K)), opWriteOut = sel_write K\<rparr>"

end
