(* ===== verification/VectorPipelineFacts.thy ===== *)
theory VectorPipelineFacts
  imports VectorPipelines
begin

text \<open>
  The parts of a selection keep the contract of \<open>pipe_parts\<close>: what \<open>VectorTupleSetIterator\<close> delivers,
  what \<open>VectorSink\<close> has written when it returns or throws, and the interpretation of the locale.
\<close>

section \<open>The source\<close>

function chunks :: "nat \<Rightarrow> 'a list \<Rightarrow> 'a list list" where
  "chunks k xs = (if k = 0 \<or> xs = [] then [] else take k xs # chunks k (drop k xs))"
  by pat_completeness auto
termination by (relation "measure (\<lambda>(k, xs). length xs)") auto

declare chunks.simps [simp del]

lemma chunks_Nil [simp]: "chunks k [] = []"
  by (simp add: chunks.simps)

lemma chunks_step: "0 < k \<Longrightarrow> xs \<noteq> [] \<Longrightarrow> chunks k xs = take k xs # chunks k (drop k xs)"
  by (simp add: chunks.simps)

lemma concat_chunks: "0 < k \<Longrightarrow> concat (chunks k xs) = xs"
  by (induction k xs rule: chunks.induct) (subst chunks.simps, auto)

lemma length_chunk: "ch \<in> set (chunks k xs) \<Longrightarrow> length ch \<le> k"
  by (induction k xs rule: chunks.induct) (subst (asm) (2) chunks.simps, auto split: if_splits)

lemma length_chunks: "length (chunks k xs) \<le> length xs"
proof (induction k xs rule: chunks.induct)
  case (1 k xs)
  show ?case
  proof (cases "k = 0 \<or> xs = []")
    case False
    then have "length (chunks k (drop k xs)) \<le> length (drop k xs)" "length (drop k xs) < length xs"
      using 1 by (auto simp: neq_Nil_conv)
    then have "Suc (length (chunks k (drop k xs))) \<le> length xs" by linarith
    then show ?thesis using False by (simp add: chunks_step)
  qed (simp add: chunks.simps)
qed

definition opt :: "'a option \<Rightarrow> 'a list" where
  "opt x = (case x of None \<Rightarrow> [] | Some a \<Rightarrow> [a])"

lemma opt_simps [simp]: "opt None = []" "opt (Some a) = [a]"
  by (simp_all add: opt_def)

text \<open>Every input page, in the order in which it is used.\<close>

definition src_pages :: "'o vsource \<Rightarrow> nat list" where
  "src_pages s = vsDone s @ opt (vsLast s) @ opt (vsRec s) @ map fst (vsPages s)"

definition src_active :: "'o vsource \<Rightarrow> bool" where
  "src_active s \<longleftrightarrow> 0 < vsChunk s \<and> (\<forall>p \<in> set (vsPages s). vec_inv (snd p)) \<and> vsOut s = Some 0
     \<and> (\<exists>r v. vsRec s = Some r \<and> vsVec s = Some (r, v) \<and> vec_inv v) \<and> distinct (src_pages s)"

definition src_ended :: "'o vsource \<Rightarrow> bool" where
  "src_ended s \<longleftrightarrow> vsRec s = None \<and> vsPages s = [] \<and> (case vsVec s of None \<Rightarrow> True | Some (r, v) \<Rightarrow> vsLast s = Some r)"

definition the_vec :: "'o vsource \<Rightarrow> 'o option list" where
  "the_vec s = (case vsVec s of None \<Rightarrow> [] | Some (r, v) \<Rightarrow> vec_elems v)"

definition page_chunks :: "'o vsource \<Rightarrow> 'o option list list" where
  "page_chunks s = concat (map (\<lambda>p. chunks (vsChunk s) (vec_elems (snd p))) (vsPages s))"

definition pending :: "'o vsource \<Rightarrow> 'o option list list" where
  "pending s = (if src_ended s then [] else chunks (vsChunk s) (drop (vsPos s) (the_vec s)) @ page_chunks s)"

definition src_ok :: "'o vsource \<Rightarrow> bool" where
  "src_ok s \<longleftrightarrow> vsVec s = None \<and> src_ended s \<or> src_active s \<and> vsPos s \<le> length (the_vec s)"

lemma vec_in_use_active:
  assumes "src_active s"
  obtains r v where "vec_in_use s = Inr v" "vsVec s = Some (r, v)" "vsRec s = Some r" "vec_inv v" "the_vec s = vec_elems v"
    "vec_size v = length (the_vec s)"
  using assms by (auto simp: src_active_def vec_in_use_def src_pages_def the_vec_def vec_size_elems)

lemma active_not_ended: "src_active s \<Longrightarrow> \<not> src_ended s"
  by (auto simp: src_active_def src_ended_def)

text \<open>Getting another vector when the current one is finished.\<close>

definition advance :: "'o vsource \<Rightarrow> 'o vsource" where
  "advance s = another_vector ((done_last s)\<lparr>vsLast := vsRec s\<rparr>)"

lemma done_last_fields [simp]:
  "vsPages (done_last s) = vsPages s" "vsRec (done_last s) = vsRec s" "vsVec (done_last s) = vsVec s"
  "vsChunk (done_last s) = vsChunk s" "vsPos (done_last s) = vsPos s" "vsOut (done_last s) = vsOut s"
  "vsDone (done_last s) = vsDone s @ opt (vsLast s)" "vsLast (done_last s) = vsLast s"
  by (auto simp: done_last_def split: option.splits)

lemma another_vector_fields [simp]:
  "vsChunk (another_vector s) = vsChunk s" "vsPos (another_vector s) = vsPos s" "vsOut (another_vector s) = vsOut s"
  "vsDone (another_vector s) = vsDone s" "vsLast (another_vector s) = vsLast s"
  by (auto simp: another_vector_def split: list.splits)

lemma advance_end:
  assumes "src_active s" "vsPages s = []"
  shows "src_ended (advance s)" "vsRec (advance s) = None" "src_pages (advance s) = src_pages s"
  using assms by (auto simp: advance_def another_vector_def src_ended_def src_active_def src_pages_def)

lemma advance_more:
  assumes "src_active s" "vsPages s = p # ps"
  shows "src_active (advance s)" "vsRec (advance s) = Some (fst p)" "vsPages (advance s) = ps"
    "src_pages (advance s) = src_pages s" "the_vec (advance s) = vec_elems (snd p)"
    "page_chunks s = chunks (vsChunk s) (the_vec (advance s)) @ page_chunks (advance s)"
    "vsPos (advance s) = vsPos s" "vsChunk (advance s) = vsChunk s"
  using assms by (cases p; auto simp: advance_def another_vector_def src_active_def src_pages_def the_vec_def page_chunks_def)+

declare skip_empty.simps [simp del]

text \<open>The loop that skips empty pages.\<close>

lemma skip_empty_ok:
  assumes "src_active s" "ps = vsPages s"
  shows "\<exists>s' b. skip_empty ps s = Inr (s', b) \<and> vsPos s' = vsPos s \<and> vsChunk s' = vsChunk s \<and> src_pages s' = src_pages s
    \<and> (b \<longrightarrow> src_active s' \<and> the_vec s' \<noteq> [] \<and> (the_vec s \<noteq> [] \<longrightarrow> s' = s)
          \<and> chunks (vsChunk s) (the_vec s') @ page_chunks s' = chunks (vsChunk s) (the_vec s) @ page_chunks s)
    \<and> (\<not> b \<longrightarrow> src_ended s' \<and> the_vec s = [] \<and> page_chunks s = [])"
  using assms
proof (induction ps arbitrary: s)
  case Nil
  obtain r v where v: "vec_in_use s = Inr v" "vec_size v = length (the_vec s)" using vec_in_use_active[OF Nil.prems(1)] by metis
  note a = advance_end[OF Nil.prems(1) Nil.prems(2)[symmetric]]
  show ?case
  proof (cases "the_vec s = []")
    case True
    then have "skip_empty [] s = Inr (advance s, False)" using v a(2) by (simp add: skip_empty.simps advance_def Let_def)
    then show ?thesis using a True Nil.prems(2) by (auto simp: page_chunks_def advance_def)
  next
    case False
    then have "skip_empty [] s = Inr (s, True)" using v by (simp add: skip_empty.simps)
    then show ?thesis using False Nil.prems(1) by auto
  qed
next
  case (Cons p ps)
  obtain r v where v: "vec_in_use s = Inr v" "vec_size v = length (the_vec s)" using vec_in_use_active[OF Cons.prems(1)] by metis
  note a = advance_more[OF Cons.prems(1) Cons.prems(2)[symmetric]]
  show ?case
  proof (cases "the_vec s = []")
    case True
    then have "skip_empty (p # ps) s = skip_empty ps (advance s)"
      using v a(2) by (subst skip_empty.simps) (simp add: advance_def Let_def)
    moreover obtain s' b where "skip_empty ps (advance s) = Inr (s', b)" "vsPos s' = vsPos (advance s)"
      "vsChunk s' = vsChunk (advance s)" "src_pages s' = src_pages (advance s)"
      "b \<longrightarrow> src_active s' \<and> the_vec s' \<noteq> [] \<and> (the_vec (advance s) \<noteq> [] \<longrightarrow> s' = advance s)
          \<and> chunks (vsChunk (advance s)) (the_vec s') @ page_chunks s'
            = chunks (vsChunk (advance s)) (the_vec (advance s)) @ page_chunks (advance s)"
      "\<not> b \<longrightarrow> src_ended s' \<and> the_vec (advance s) = [] \<and> page_chunks (advance s) = []"
      using Cons.IH[OF a(1) a(3)[symmetric]] by blast
    ultimately show ?thesis using a True by auto
  next
    case False
    then have "skip_empty (p # ps) s = Inr (s, True)" using v by (subst skip_empty.simps) simp
    then show ?thesis using False Cons.prems(1) by auto
  qed
qed

lemma fill_chunk_ok:
  "vec_inv v \<Longrightarrow> pos + n \<le> vec_size v \<Longrightarrow> fill_chunk v pos n = Inr (map Obj (take n (drop pos (vec_elems v))))"
proof (induction n arbitrary: pos)
  case (Suc n)
  have l: "pos < length (vec_elems v)" using Suc.prems by (simp add: vec_size_elems)
  have "vec_get v pos = Inr (vec_elems v ! pos)" by (rule vec_get_elems) (use Suc.prems in auto)
  moreover have "drop pos (vec_elems v) = vec_elems v ! pos # drop (pos + 1) (vec_elems v)" using l by (simp add: Cons_nth_drop_Suc)
  ultimately show ?case using Suc.IH[of "pos + 1"] Suc.prems by simp
qed simp

lemma next_chunk_ok:
  assumes s: "src_active s" "vsPos s < length (the_vec s)" and h: "heap_ok h" "owns h 0 0 a"
  obtains s' h' xs where "next_chunk s h = Inr (s', h', Some 0)" "src_active s'" "vsPos s' \<le> length (the_vec s')"
    "src_pages s' = src_pages s" "heap_ok h'" "others 0 {0} h h'" "\<And>t i. ts_at t i h' = ts_at t i h"
    "view h' 0 0 = Some (map Obj xs)" "pending s = xs # pending s'"
proof -
  obtain r v where v: "vec_in_use s = Inr v" "vsVec s = Some (r, v)" "vec_inv v" "the_vec s = vec_elems v"
    "vec_size v = length (the_vec s)" using vec_in_use_active[OF s(1)] by metis
  let ?k = "vsChunk s" and ?p = "vsPos s" and ?n = "length (the_vec s)"
  define n where "n = (if ?n < ?k + ?p then ?n - ?p else ?k)"
  let ?xs = "take n (drop ?p (vec_elems v))"
  have out: "vsOut s = Some 0" "0 < ?k" using s(1) by (auto simp: src_active_def)
  have np: "?p + n \<le> ?n" using s(2) by (auto simp: n_def)
  obtain h' where h': "set_cells a (map Obj ?xs) h = Inr h'" "heap_ok h'" "others 0 {0} h h'" "view h' 0 0 = Some (map Obj ?xs)"
    "\<And>t i. ts_at t i h' = ts_at t i h" using set_cells_ok[OF h] by metis
  let ?s = "s\<lparr>vsPos := ?p + n\<rparr>"
  have nn: "(if vec_size v < ?k + ?p then vec_size v - ?p else ?k) = n" by (simp add: n_def v(5))
  have "fill_chunk v ?p n = Inr (map Obj ?xs)" using fill_chunk_ok[OF v(3), of ?p n] np v(5) by simp
  then have "next_chunk s h = Inr (?s, h', Some 0)"
    using v(1) out h'(1) h(2) by (simp add: next_chunk_def getColumn_def owns_def nn Let_def)
  moreover have act: "src_active ?s" using s(1) by (auto simp: src_active_def src_pages_def)
  moreover have "vsPos ?s \<le> length (the_vec ?s)" using np by (simp add: the_vec_def)
  moreover have "pending s = ?xs # pending ?s"
  proof -
    have ne: "drop ?p (vec_elems v) \<noteq> []" using s(2) v(4) by simp
    have tk: "take ?k (drop ?p (vec_elems v)) = ?xs \<and> drop ?k (drop ?p (vec_elems v)) = drop (?p + n) (vec_elems v)"
    proof (cases "length (vec_elems v) < ?k + ?p")
      case True
      then have "n = length (vec_elems v) - ?p" "length (vec_elems v) \<le> ?p + n" using v(4) np by (simp_all add: n_def)
      then show ?thesis
        using True by simp_all
    next
      case False
      then have "n = ?k" using v(4) by (simp add: n_def)
      then show ?thesis
        by (simp_all add: add.commute)
    qed
    have "chunks ?k (drop ?p (the_vec s)) = ?xs # chunks ?k (drop (?p + n) (the_vec s))"
      unfolding v(4) by (subst chunks_step[OF out(2) ne]) (simp only: conjunct1[OF tk] conjunct2[OF tk])
    then have "pending s = (?xs # chunks ?k (drop (?p + n) (the_vec s))) @ page_chunks s"
      using active_not_ended[OF s(1)] by (simp add: pending_def)
    moreover have "pending ?s = chunks ?k (drop (?p + n) (the_vec s)) @ page_chunks s"
      using active_not_ended[OF act] by (simp add: pending_def the_vec_def page_chunks_def)
    ultimately show ?thesis by simp
  qed
  ultimately show thesis using that h'(2-5) by (simp add: src_pages_def)
qed

text \<open>What one call delivers: the next chunk in the iterator's column, or null at the end. After null
  the iterator must not be called again, as it has handed the last page back.\<close>

definition delivers :: "'o vsource \<Rightarrow> 'o heap \<Rightarrow> 'o vsource \<Rightarrow> 'o heap \<Rightarrow> nat option \<Rightarrow> bool" where
  "delivers s h s' h' t \<longleftrightarrow>
     src_pages s' = src_pages s \<and> heap_ok h' \<and> others 0 {0} h h' \<and> (\<forall>t i. ts_at t i h' = ts_at t i h)
     \<and> (case t of
          None \<Rightarrow> pending s = [] \<and> src_ended s'
        | Some u \<Rightarrow> u = 0 \<and> src_ok s' \<and> (\<exists>xs. view h' 0 0 = Some (map Obj xs) \<and> pending s = xs # pending s'))"

lemma deliversI_None: "src_pages s' = src_pages s \<Longrightarrow> heap_ok h \<Longrightarrow> pending s = [] \<Longrightarrow> src_ended s' \<Longrightarrow> delivers s h s' h None"
  by (simp add: delivers_def others_refl)

lemma next_chunk_delivers:
  assumes "src_active s1" "vsPos s1 < length (the_vec s1)" "heap_ok h" "owns h 0 0 a" "pending s1 = pending s" "src_pages s1 = src_pages s"
  shows "\<exists>s' h' t. next_chunk s1 h = Inr (s', h', t) \<and> delivers s h s' h' t"
proof -
  obtain s2 h2 xs where n: "next_chunk s1 h = Inr (s2, h2, Some 0)" "src_active s2" "vsPos s2 \<le> length (the_vec s2)"
    "src_pages s2 = src_pages s1" "heap_ok h2" "others 0 {0} h h2" "\<And>t i. ts_at t i h2 = ts_at t i h"
    "view h2 0 0 = Some (map Obj xs)" "pending s1 = xs # pending s2"
    using next_chunk_ok[OF assms(1-4)] by blast
  then have "delivers s h s2 h2 (Some 0)" using assms(5,6) by (simp add: delivers_def src_ok_def)
  then show ?thesis using n(1) by blast
qed

lemma vs_next_active:
  assumes True: "src_active s" and pos: "vsPos s \<le> length (the_vec s)" and h: "heap_ok h" "owns h 0 0 a"
  shows "\<exists>s' h' t. vs_next s h = Inr (s', h', t) \<and> delivers s h s' h' t"
proof -
  let ?s = "(done_last s)\<lparr>vsLast := None\<rparr>"
  have act: "src_active ?s" "src_pages ?s = src_pages s" "the_vec ?s = the_vec s" "page_chunks ?s = page_chunks s" "vsPos ?s = vsPos s"
    using True by (auto simp: src_active_def src_pages_def the_vec_def page_chunks_def)
  have pend: "pending s = chunks (vsChunk s) (drop (vsPos s) (the_vec s)) @ page_chunks s"
    using active_not_ended[OF True] by (simp add: pending_def)
  have vv: "vsVec s \<noteq> None" using True by (auto simp: src_active_def)
  obtain s1 b where sk: "skip_empty (vsPages ?s) ?s = Inr (s1, b)" "vsPos s1 = vsPos s" "vsChunk s1 = vsChunk s" "src_pages s1 = src_pages s"
    "b \<Longrightarrow> src_active s1 \<and> the_vec s1 \<noteq> [] \<and> (the_vec s \<noteq> [] \<longrightarrow> s1 = ?s)
       \<and> chunks (vsChunk s) (the_vec s1) @ page_chunks s1 = chunks (vsChunk s) (the_vec s) @ page_chunks s"
    "\<not> b \<Longrightarrow> src_ended s1 \<and> the_vec s = [] \<and> page_chunks s = []"
    using skip_empty_ok[OF act(1) refl] act by auto
  show ?thesis
  proof (cases b)
    case False
    then have "vs_next s h = Inr (s1, h, None)" using sk(1) vv by (auto simp: vs_next_def)
    moreover have "delivers s h s1 h None" by (rule deliversI_None) (use sk(4,6) False pend h(1) in simp_all)
    ultimately show ?thesis by blast
  next
    case b: True
    note k = sk(5)[OF b]
    have pos1: "vsPos s1 \<le> length (the_vec s1)" using k pos sk(2) act(3) by (cases "the_vec s = []") auto
    have pend1: "pending s = chunks (vsChunk s1) (drop (vsPos s1) (the_vec s1)) @ page_chunks s1"
    proof (cases "the_vec s = []")
      case True
      then have "vsPos s1 = 0" using pos sk(2) by simp
      then show ?thesis using pend k sk(3) True by simp
    next
      case False
      then show ?thesis using pend k act sk(2,3) by simp
    qed
    have act1: "src_active s1" using k by simp
    obtain rr v where v: "vec_in_use s1 = Inr v" "vec_size v = length (the_vec s1)" using vec_in_use_active[OF act1] by metis
    show ?thesis
    proof (cases "vsPos s1 = length (the_vec s1)")
      case False
      then have nc: "vs_next s h = next_chunk s1 h" using sk(1) b v vv by (auto simp: vs_next_def)
      have "\<not> src_ended s1" using k active_not_ended by blast
      then have "pending s1 = pending s" using pend1 by (simp add: pending_def)
      then show ?thesis unfolding nc using next_chunk_delivers[OF act1 _ h] False pos1 sk(4) by simp
    next
      case True
      let ?s2 = "another_vector (s1\<lparr>vsLast := vsRec s1\<rparr>)"
      have last1: "vsLast s1 = None"
      proof (cases "the_vec s = []")
        case False
        then show ?thesis using k by simp
      next
        case e: True
        then have "vsPos s1 = 0" using pos sk(2) by simp
        then show ?thesis using True k by simp
      qed
      have adv: "?s2 = advance s1" using last1 by (simp add: advance_def done_last_def)
      have pend2: "pending s = page_chunks s1" using pend1 True by simp
      show ?thesis
      proof (cases "vsPages s1")
        case Nil
        note a = advance_end[OF act1 Nil]
        have "vs_next s h = Inr (advance s1, h, None)" using sk(1) b v vv True a(2) by (auto simp: vs_next_def adv)
        moreover have "delivers s h (advance s1) h None"
          by (rule deliversI_None) (use a sk(4) pend2 Nil h(1) in \<open>simp_all add: page_chunks_def\<close>)
        ultimately show ?thesis by blast
      next
        case (Cons p ps)
        note a = advance_more[OF act1 Cons]
        obtain s3 c where sk3: "skip_empty (vsPages (advance s1)) (advance s1) = Inr (s3, c)" "src_pages s3 = src_pages s1"
          "vsChunk s3 = vsChunk s1"
          "c \<Longrightarrow> src_active s3 \<and> the_vec s3 \<noteq> []
            \<and> chunks (vsChunk s1) (the_vec s3) @ page_chunks s3 = chunks (vsChunk s1) (the_vec (advance s1)) @ page_chunks (advance s1)"
          "\<not> c \<Longrightarrow> src_ended s3 \<and> the_vec (advance s1) = [] \<and> page_chunks (advance s1) = []"
          using skip_empty_ok[OF a(1) refl] a(4,8) by auto
        show ?thesis
        proof (cases c)
          case False
          then have "vs_next s h = Inr (s3, h, None)" using sk(1) b v vv True a(2) sk3(1) by (auto simp: vs_next_def adv)
          moreover have "delivers s h s3 h None" by (rule deliversI_None) (use sk3(2,5) False sk(4) pend2 a(6) h(1) in simp_all)
          ultimately show ?thesis by blast
        next
          case c: True
          note k3 = sk3(4)[OF c]
          let ?s3 = "s3\<lparr>vsPos := 0\<rparr>"
          have act3: "src_active ?s3" "the_vec ?s3 = the_vec s3" "page_chunks ?s3 = page_chunks s3" "src_pages ?s3 = src_pages s3"
            using k3 by (auto simp: src_active_def src_pages_def the_vec_def page_chunks_def)
          have nc: "vs_next s h = next_chunk ?s3 h" using sk(1) b v vv True a(2) sk3(1) c by (auto simp: vs_next_def adv)
          have "pending ?s3 = pending s"
            using pend2 a(6) k3 act3 active_not_ended[OF act3(1)] sk3(3) by (simp add: pending_def)
          then show ?thesis unfolding nc using next_chunk_delivers[OF act3(1) _ h] k3 act3(2,4) sk3(2) sk(4) by simp
        qed
      qed
    qed
  qed
qed

lemma vs_next_ok:
  assumes "src_ok s" "heap_ok h" "vsVec s \<noteq> None \<longrightarrow> owns h 0 0 a"
  obtains s' h' t where "vs_next s h = Inr (s', h', t)" "delivers s h s' h' t"
proof (cases "vsVec s")
  case None
  then have "src_ended s" using assms(1) by (auto simp: src_ok_def src_active_def)
  then show thesis using that[of s h None] None assms(2) by (simp add: vs_next_def pending_def deliversI_None)
next
  case (Some q)
  then show thesis using vs_next_active[of s h a] that assms by (auto simp: src_ok_def)
qed

end
