(* ===== verification/PipelineSafety.thy ===== *)
theory PipelineSafety
  imports PipelineRows
begin

text \<open>
  What a run can fail with. When the parts of a pipeline fail only with \<open>NotEnoughSpace\<close> (locale
  \<open>safe_parts\<close>), a run ends normally, with \<open>exit(1)\<close>, or with a \<open>NotEnoughSpace\<close> that the code does
  not catch; it never reads what it has given back.
\<close>

definition expected :: "fault \<Rightarrow> bool" where
  "expected e \<longleftrightarrow> e = NotEnoughSpace \<or> e = FatalExit 1"

lemma expected_simps [simp]: "expected NotEnoughSpace" "expected (FatalExit 1)"
  by (simp_all add: expected_def)

locale safe_parts = pipe_parts D winv todo rows holds
  for D :: "('w, 't, 'c) pipe_ops"
    and winv :: "'w \<Rightarrow> bool"
    and todo :: "'w \<Rightarrow> 'r list list"
    and rows :: "nat \<Rightarrow> 'w \<Rightarrow> 't \<Rightarrow> 'r list option"
    and holds :: "'c \<Rightarrow> 'r list \<Rightarrow> bool" +
  assumes sink_safe: "winv w \<Longrightarrow> opNewSink D w = (w', Inl e) \<Longrightarrow> e = NotEnoughSpace"
    and next_safe: "winv w \<Longrightarrow> opNext D w = (w', Inl e) \<Longrightarrow> e = NotEnoughSpace"
    and stage_safe: "winv w \<Longrightarrow> k < length (opStages D) \<Longrightarrow> rows k w t = Some rs \<Longrightarrow>
        (opStages D ! k) w (Some t) = (w', Inl e) \<Longrightarrow> e = NotEnoughSpace"
    and write_safe: "winv w \<Longrightarrow> rows (length (opStages D)) w t = Some rs \<Longrightarrow> holds c old \<Longrightarrow>
        opWriteOut D w (Some t) c = (w', c', Inl e) \<Longrightarrow> e = NotEnoughSpace"
begin

lemma new_sink_safe: "new_sink D p = (p', Inl e) \<Longrightarrow> winv (pWorld p) \<Longrightarrow> e = NotEnoughSpace"
  using sink_safe by (auto simp: new_sink_def split: prod.splits)

lemma give_back_safe:
  "give_back D it h p = (p', Inl e) \<Longrightarrow> winv (pWorld p) \<Longrightarrow> hLocation h \<noteq> None \<Longrightarrow> e = NotEnoughSpace"
  using new_sink_safe by (auto simp: give_back_def Let_def split: option.splits sum.splits prod.splits)

lemma clean_queue_safe:
  "clean_queue D it hs p = (p', Inl e) \<Longrightarrow> winv (pWorld p) \<Longrightarrow> all_located hs \<Longrightarrow> e = NotEnoughSpace"
proof (induction hs arbitrary: p)
  case (Cons h hs)
  obtain p1 r1 where g: "give_back D it h p = (p1, r1)" by (cases "give_back D it h p")
  have "winv (pWorld p1)" using give_back_same[OF g Cons.prems(2)] by (rule same_inv)
  then show ?case using Cons g give_back_safe[of it h p p1] by (auto split: if_splits sum.splits)
qed simp

lemma turn_page_safe:
  assumes "turn_page D p m it = (p', m', it', Inl e)" "current p m it" "winv (pWorld p)"
  shows "e = NotEnoughSpace"
proof -
  let ?q = "p\<lparr>pUnwritten := pUnwritten p @ [set_iteration it m]\<rparr>"
  have q: "winv (pWorld ?q)" "all_located (pUnwritten ?q)" using assms(2,3) by (auto simp: current_def acct_def)
  have "\<exists>p1. cleanPages D (it + 1) ?q = (p1, Inl e)"
    using assms(1) by (auto simp: turn_page_def split: prod.splits sum.splits)
  then show ?thesis using clean_queue_safe[OF _ q] unfolding cleanPages_def by blast
qed

lemma turn_page_sink_safe:
  assumes "turn_page_sink D p m it = (p', m', it', Inl e)" "current p m it" "winv (pWorld p)" "held holds p [m] fin"
  shows "e = NotEnoughSpace"
proof -
  obtain p1 m1 it1 r1 where t: "turn_page D p m it = (p1, m1, it1, r1)" by (cases "turn_page D p m it") auto
  have w: "winv (pWorld p1)" using turn_page_held(1)[OF t assms(2-4)] by (rule same_inv)
  show ?thesis using assms(1) t turn_page_safe[OF _ assms(2,3)] new_sink_safe[OF _ w]
    by (auto simp: turn_page_sink_def split: sum.splits flow.splits prod.splits)
qed

lemma run_next_safe:
  assumes "run_next D p m it = (p', m', it', Inl e)" "current p m it" "winv (pWorld p)" "held holds p [m] fin"
  shows "expected e"
proof -
  obtain w r1 where n: "opNext D (pWorld p) = (w, r1)" by (cases "opNext D (pWorld p)")
  obtain p1 m1 it1 r2 where t: "turn_page_sink D (p\<lparr>pWorld := w\<rparr>) m it = (p1, m1, it1, r2)"
    by (cases "turn_page_sink D (p\<lparr>pWorld := w\<rparr>) m it") auto
  obtain w' r3 where n': "opNext D (pWorld p1) = (w', r3)" by (cases "opNext D (pWorld p1)")
  have "r1 = Inl NotEnoughSpace" using assms(1) n next_safe[OF assms(3)]
    by (cases r1) (auto simp: run_next_def split: fault.splits)
  then have w: "winv w" using next_full[OF assms(3)] n by (simp add: keeps_def)
  have q: "current (p\<lparr>pWorld := w\<rparr>) m it" "winv (pWorld (p\<lparr>pWorld := w\<rparr>))" "held holds (p\<lparr>pWorld := w\<rparr>) [m] fin"
    using assms(2,4) w by simp_all
  have w1: "winv (pWorld p1)" using turn_page_sink_held(1)[OF t q] by (rule same_inv)
  show ?thesis using assms(1) n t n' \<open>r1 = _\<close> turn_page_sink_safe[OF _ q] next_safe[OF w1]
    by (auto simp: run_next_def split: sum.splits flow.splits fault.splits)
qed

lemma run_stages_safe:
  assumes "run_stages D qs p m it (Some t) = (p', m', it', Inl e)" "qs = drop k (opStages D)" "k \<le> length (opStages D)"
    "current p m it" "winv (pWorld p)" "held holds p [m] fin" "rows k (pWorld p) t = Some rs"
  shows "expected e"
  using assms
proof (induction qs arbitrary: k p m it t)
  case Nil
  then show ?case by simp
next
  case (Cons q qs)
  have k: "k < length (opStages D)" "q = opStages D ! k" "qs = drop (Suc k) (opStages D)"
    using Cons.prems(2,3) by (metis drop_all le_neq_implies_less list.distinct(1) order_refl)
      (metis Cons.prems(2) nth_via_drop, metis Cons.prems(2) drop_Suc drop_tl list.sel(3))
  obtain w r1 where q: "q (pWorld p) (Some t) = (w, r1)" by (cases "q (pWorld p) (Some t)")
  show ?case
  proof (cases r1)
    case (Inr v)
    obtain t' where t': "v = Some t'" "rows (Suc k) w t' = Some rs" "winv w"
      using stage_done[OF Cons.prems(5) k(1) Cons.prems(7)] q k(2) Inr by auto
    have "run_stages D qs (p\<lparr>pWorld := w\<rparr>) m it (Some t') = (p', m', it', Inl e)" using Cons.prems(1) q Inr t' by simp
    from Cons.IH[OF this k(3)] show ?thesis using k(1) t' Cons.prems(4,6) by simp
  next
    case (Inl e1)
    then have e1: "e1 = NotEnoughSpace" using stage_safe[OF Cons.prems(5) k(1) Cons.prems(7)] q k(2) by blast
    have f: "winv w" "rows k w t = Some rs" using stage_full[OF Cons.prems(5) k(1) Cons.prems(7)] q k(2) Inl e1 by auto
    obtain p1 m1 it1 r2 where tp: "turn_page_sink D (p\<lparr>pWorld := w\<rparr>) m it = (p1, m1, it1, r2)"
      by (cases "turn_page_sink D (p\<lparr>pWorld := w\<rparr>) m it") auto
    have c: "current (p\<lparr>pWorld := w\<rparr>) m it" "winv (pWorld (p\<lparr>pWorld := w\<rparr>))" "held holds (p\<lparr>pWorld := w\<rparr>) [m] fin"
      using Cons.prems(4,6) f(1) by simp_all
    note tps = turn_page_sink_held[OF tp c]
    have w1: "winv (pWorld p1)" "rows k (pWorld p1) t = Some rs" using tps(1) f by (auto simp: keeps_def)
    show ?thesis
    proof (cases "r2 = Inr Go")
      case False
      then show ?thesis using Cons.prems(1) q Inl e1 tp turn_page_sink_safe[OF _ c]
        by (auto split: sum.splits flow.splits)
    next
      case True
      obtain w' r3 where q': "q (pWorld p1) (Some t) = (w', r3)" by (cases "q (pWorld p1) (Some t)")
      have c1: "current p1 m1 it1" using turn_page_sink_ends[OF tp c(1)] True by simp
      show ?thesis
      proof (cases r3)
        case (Inl e2)
        then have "e2 = NotEnoughSpace" using stage_safe[OF w1(1) k(1) w1(2)] q' k(2) by blast
        then show ?thesis using Cons.prems(1) q \<open>r1 = Inl e1\<close> e1 tp True q' Inl by auto
      next
        case (Inr v)
        obtain t' where t': "v = Some t'" "rows (Suc k) w' t' = Some rs" "winv w'"
          using stage_done[OF w1(1) k(1) w1(2)] q' k(2) Inr by auto
        have "run_stages D qs (p1\<lparr>pWorld := w'\<rparr>) m1 it1 (Some t') = (p', m', it', Inl e)"
          using Cons.prems(1) q \<open>r1 = Inl e1\<close> e1 tp True q' Inr t' by simp
        from Cons.IH[OF this k(3)] show ?thesis using k(1) t' c1 tps(3)[OF True] by simp
      qed
    qed
  qed
qed

lemma write_round_safe:
  assumes "write_round D p m it (Some t) = (b, p', m', it', Inl e)" "current p m it" "winv (pWorld p)"
    "held holds p [m] fin" "rows (length (opStages D)) (pWorld p) t = Some rs"
  shows "e = NotEnoughSpace"
proof -
  obtain p1 r1 where s: "(case hSink m of Some c \<Rightarrow> (p, Inr c) | None \<Rightarrow> new_sink D p) = (p1, r1)"
    by (cases "case hSink m of Some c \<Rightarrow> (p, Inr c) | None \<Rightarrow> new_sink D p")
  have same1: "same (pWorld p) (pWorld p1)" "current p1 m it"
    and sink: "\<And>c. r1 = Inr c \<Longrightarrow> held holds p1 [m\<lparr>hSink := Some c\<rparr>] fin"
    and r1: "\<And>e1. r1 = Inl e1 \<Longrightarrow> e1 = NotEnoughSpace"
    using s assms(2-4) new_sink_same[of p p1 r1] new_sink_safe
    by (auto split: option.splits simp: same_refl held_put put_same)
  have w1: "winv (pWorld p1)" "rows (length (opStages D)) (pWorld p1) t = Some rs"
    using same1(1) assms(5) by (auto simp: keeps_def)
  show ?thesis
  proof (cases r1)
    case (Inl e1)
    then have "turn_page D p1 m it = (p', m', it', Inl e)" using assms(1) s r1 by (auto simp: write_round_def)
    then show ?thesis using turn_page_safe same1(2) w1(1) by blast
  next
    case (Inr c)
    obtain w c' r2 where w: "opWriteOut D (pWorld p1) (Some t) c = (w, c', r2)"
      by (cases "opWriteOut D (pWorld p1) (Some t) c") auto
    have "hSink (m\<lparr>hSink := Some c\<rparr>) = Some c" by simp
    from held_last[OF sink[OF Inr] this] obtain old where old: "holds c old" by blast
    have r2: "r2 = Inl NotEnoughSpace"
      using assms(1) s Inr w write_safe[OF w1 old] by (cases r2) (auto simp: write_round_def split: fault.splits)
    then have t: "turn_page D (p1\<lparr>pWorld := w\<rparr>) (m\<lparr>hSink := Some c'\<rparr>) it = (p', m', it', Inl e)"
      using assms(1) s Inr w by (simp add: write_round_def)
    have "winv w" using write_full[OF w1 old] w r2 by blast
    then show ?thesis using turn_page_safe[OF t] same1(2) by simp
  qed
qed

lemma run_write_safe:
  assumes "run_write D n p m it (Some t) = Some (p', m', it', Inl e)" "current p m it" "winv (pWorld p)"
    "held holds p [m] fin" "rows (length (opStages D)) (pWorld p) t = Some rs"
  shows "e = NotEnoughSpace"
  using assms
proof (induction n arbitrary: p m it fin rs)
  case (Suc n)
  obtain b p1 m1 it1 r1 where w: "write_round D p m it (Some t) = (b, p1, m1, it1, r1)"
    by (cases "write_round D p m it (Some t)") auto
  show ?case
  proof (cases r1)
    case (Inl e1)
    then show ?thesis using Suc.prems(1) w write_round_safe[OF _ Suc.prems(2-5)] by (cases b) auto
  next
    case (Inr fl)
    then have go: "\<not> b" "fl = Go" using Suc.prems(1) w by (cases b; cases fl; auto)+
    then have rec: "run_write D n p1 m1 it1 (Some t) = Some (p', m', it', Inl e)" using Suc.prems(1) w Inr by simp
    obtain i where i: "winv (pWorld p1)" "held holds p1 [m1] (fin @ take i rs)" "rows (length (opStages D)) (pWorld p1) t = Some (drop i rs)"
      using write_round_held[OF w Suc.prems(2-5), of Go] Inr go by auto
    have "current p1 m1 it1" using write_round_ends[OF w Suc.prems(2)] Inr go by simp
    then show ?thesis using Suc.IH[OF rec _ i] by blast
  qed
qed simp

lemma run_loop_safe:
  assumes "run_loop D n p m it = Some (p', m', it', Inl e)" "current p m it" "winv (pWorld p)" "held holds p [m] fin"
  shows "expected e"
  using assms
proof (induction n arbitrary: p m it fin)
  case (Suc n)
  obtain p1 m1 it1 r1 where nx: "run_next D p m it = (p1, m1, it1, r1)" by (cases "run_next D p m it") auto
  note nh = run_next_held[OF nx Suc.prems(2-4)]
  show ?case
  proof (cases "\<exists>t. r1 = Inr (Go, Some t)")
    case False
    then have "r1 = Inl e" using Suc.prems(1) nx by (auto split: sum.splits prod.splits flow.splits option.splits)
    then show ?thesis using run_next_safe[OF _ Suc.prems(2-4)] nx by blast
  next
    case True
    then obtain t where t: "r1 = Inr (Go, Some t)" by blast
    obtain rs where rs: "winv (pWorld p1)" "held holds p1 [m1] fin" "rows 0 (pWorld p1) t = Some rs" using nh(3)[OF t] by blast
    have c1: "current p1 m1 it1" using run_next_ends[OF nx Suc.prems(2)] t by simp
    obtain p2 m2 it2 r2 where st: "run_stages D (opStages D) p1 m1 it1 (Some t) = (p2, m2, it2, r2)"
      by (cases "run_stages D (opStages D) p1 m1 it1 (Some t)") auto
    note sh = run_stages_held[OF st _ _ c1 rs, simplified]
    show ?thesis
    proof (cases "\<exists>u. r2 = Inr (Go, u)")
      case False
      then have "r2 = Inl e" using Suc.prems(1) nx t st by (auto split: sum.splits prod.splits flow.splits)
      then show ?thesis using run_stages_safe[of "opStages D" p1 m1 it1 t p2 m2 it2 e 0, OF _ _ _ c1 rs] st by simp
    next
      case True
      then obtain u where u: "r2 = Inr (Go, u)" by blast
      obtain t' where t': "u = Some t'" "winv (pWorld p2)" "held holds p2 [m2] fin"
        "rows (length (opStages D)) (pWorld p2) t' = Some rs" using sh u by auto
      have c2: "current p2 m2 it2" using run_stages_ends[OF st c1] u by simp
      obtain p3 m3 it3 r3 where wr: "run_write D n p2 m2 it2 (Some t') = Some (p3, m3, it3, r3)"
        using Suc.prems(1) nx t st u t'(1) by (auto split: option.splits)
      show ?thesis
      proof (cases r3)
        case (Inl e3)
        then show ?thesis using Suc.prems(1) nx t st u t'(1) wr run_write_safe[OF _ c2 t'(2-4), of n p3 m3 it3 e3] by simp
      next
        case (Inr fl)
        then have go: "fl = Go" using Suc.prems(1) nx t st u t'(1) wr by (cases fl) auto
        have wh: "winv (pWorld p3)" "held holds p3 [m3] (fin @ rs)"
          using run_write_held[OF wr[unfolded Inr go] c2 t'(2-4)] by auto
        have c3: "current p3 m3 it3" using run_write_ends[OF wr c2] Inr go by simp
        have "run_loop D n p3 m3 it3 = Some (p', m', it', Inl e)" using Suc.prems(1) nx t st u t'(1) wr Inr go by simp
        then show ?thesis using Suc.IH[OF _ c3 wh] by blast
      qed
    qed
  qed
qed simp

lemma pipe_run_safe:
  assumes "pipe_run D n (pipe_new w) = Some (p, Inl e)" "winv w"
  shows "expected e"
proof -
  obtain p1 m where h: "new_holder D (pipe_new w) = (p1, m)" by (cases "new_holder D (pipe_new w)")
  obtain w1 loc sz where np: "opNewPage D w = (w1, loc, sz)" by (cases "opNewPage D w") auto
  have p1: "hLocation m = loc"
    "p1 = (pipe_new w)\<lparr>pWorld := opOpenBlock D loc sz w1, pTrace := (case loc of None \<Rightarrow> [] | Some l \<Rightarrow> [GotPage l])\<rparr>"
    using h np by (auto simp: new_holder_def pipe_new_def split: option.splits)
  have s1: "same w (pWorld p1)" using new_page[OF assms(2)] np open_block[of w1] p1(2)
    by (auto intro: same_trans dest: same_inv)
  note w1 = same_inv[OF s1]
  obtain p2 r2 where s: "new_sink D p1 = (p2, r2)" by (cases "new_sink D p1")
  note ns = new_sink_same[OF s w1]
  show ?thesis
  proof (cases "loc = None \<or> (\<exists>e. r2 = Inl e)")
    case True
    then show ?thesis using assms(1) h s p1(1) new_sink_safe[OF _ w1] by (auto simp: pipe_run_def split: if_splits)
  next
    case False
    then obtain c where c: "r2 = Inr c" "hLocation m \<noteq> None" using p1(1) by (cases r2) auto
    have "current p1 m 0" using c(2) p1 by (auto simp: current_def acct_def pipe_new_def)
    then have c2: "current p2 (m\<lparr>hSink := Some c\<rparr>) 0" using s by simp
    have "held holds p1 [] []" using p1(2) by (auto simp: held_def pipe_new_def split: option.splits)
    then have h2: "held holds p2 [m\<lparr>hSink := Some c\<rparr>] []" using ns(2)[OF c(1)] ns(3) held_put by metis
    obtain p3 m3 it3 r3 where rl: "run_loop D n p2 (m\<lparr>hSink := Some c\<rparr>) 0 = Some (p3, m3, it3, r3)"
      using assms(1) h s c by (auto simp: pipe_run_def split: option.splits)
    then have "r3 = Inl e" using assms(1) h s c by (auto simp: pipe_run_def split: sum.splits flow.splits)
    then show ?thesis using run_loop_safe[OF _ c2 same_inv[OF ns(1)] h2] rl by blast
  qed
qed

end

end
