(* ===== verification/SelectionRuns.thy ===== *)
theory SelectionRuns
  imports VectorPipelineFacts PipelineSafety
begin

text \<open>
  A whole selection: the source and the sink of \<open>VectorPipelines\<close>, a lambda and a filter, run by
  \<open>Pipelines\<close>. The parts keep the contract \<open>pipe_parts\<close>, so the output pages hold the selected
  rows of the input pages in order; every page is given back once; and the run ends.
\<close>

section \<open>The sink\<close>

definition vec_ready :: "'a vec \<Rightarrow> bool" where
  "vec_ready v \<longleftrightarrow> vec_inv v \<and> numSlots (myArray v) < 2 ^ 31"

definition small_room :: "(nat \<Rightarrow> bool) \<Rightarrow> bool" where
  "small_room room \<longleftrightarrow> (\<forall>n. room n \<longrightarrow> n < 2 ^ 31)"

lemma grown_array:
  assumes "vec_ready v" "small_room room" "arr_isFull (myArray v)" "arr_doubleSize room (myArray v) = Inr (old, new)"
  shows "arr_inv new \<and> 0 < numSlots new \<and> numSlots new < 2 ^ 31 \<and> usedSlots new < numSlots new \<and> arr_elems new = vec_elems v"
proof -
  let ?a = "myArray v" and ?n = "numSlots (myArray v) * 2"
  have v: "arr_inv ?a" "0 < numSlots ?a" "numSlots ?a < 2 ^ 31" "usedSlots ?a = numSlots ?a"
    using assms(1,3) by (auto simp: vec_ready_def vec_inv_def arr_isFull_def)
  have n: "u32 ?n = ?n" using v(3) by simp
  have room: "room ?n" using assms(4) n by (auto simp: arr_doubleSize_def arr_resize_def split: if_splits)
  then have small: "?n < 2 ^ 31" using assms(2) by (simp add: small_room_def)
  then have lt: "?n < 4294967296" by simp
  obtain o2 n2 where r: "arr_resize room ?n ?a = Inr (o2, n2)" "arr_inv n2" "numSlots n2 = ?n" "arr_elems n2 = take ?n (arr_elems ?a)"
    using arr_resize_ok[of ?a room, OF v(1) room lt] by blast
  have eq: "n2 = new" using assms(4) r(1) n by (simp add: arr_doubleSize_def)
  have len: "length (arr_elems ?a) = numSlots ?a" using v by (simp add: length_arr_elems)
  have "usedSlots new = numSlots ?a" using r(2,4) eq len length_arr_elems[of new] by simp
  then show ?thesis using r eq len v small by (simp add: vec_elems_def)
qed

lemma sink_push_ok:
  assumes "vec_ready v" "small_room (vkRoom K)" "sink_push K v x = (v', r)"
  shows "vec_ready v' \<and> (r = Inr () \<and> vec_elems v' = vec_elems v @ [x]
    \<or> r = Inl NotEnoughSpace \<and> vec_elems v' = vec_elems v \<and> (vec_elems v = [] \<longrightarrow> (\<exists>u. vec_elems u = [] \<and> \<not> vkCopy K u x)))"
proof -
  have put: "\<exists>a'. arr_push_back a x = Inr a' \<and> vec_ready (u\<lparr>myArray := a'\<rparr>) \<and> vec_elems (u\<lparr>myArray := a'\<rparr>) = arr_elems a @ [x]"
    if "arr_inv a" "0 < numSlots a" "numSlots a < 2 ^ 31" "usedSlots a < numSlots a" for a u
    using arr_push_back_ok[OF that(1,4), of x] that(2,3) by (auto simp: vec_ready_def vec_inv_def vec_elems_def)
  show ?thesis
  proof (cases "arr_isFull (myArray v)")
    case False
    have a: "arr_inv (myArray v)" "0 < numSlots (myArray v)" "numSlots (myArray v) < 2 ^ 31" "usedSlots (myArray v) < numSlots (myArray v)"
      using assms(1) False by (auto simp: vec_ready_def vec_inv_def arr_isFull_def arr_inv_def)
    show ?thesis using assms(1,3) False put[OF a, of v] by (auto simp: sink_push_def vec_elems_def split: if_splits)
  next
    case True
    have ne: "vec_elems v \<noteq> []"
      using assms(1) True length_arr_elems[of "myArray v"] by (auto simp: vec_ready_def vec_inv_def arr_isFull_def vec_elems_def)
    show ?thesis
    proof (cases "arr_doubleSize (vkRoom K) (myArray v)")
      case (Inl e)
      have "e = NotEnoughSpace"
      proof (rule ccontr)
        assume ne: "e \<noteq> NotEnoughSpace"
        have n: "u32 (numSlots (myArray v) * 2) < 4294967296" by simp
        have "vkRoom K (u32 (numSlots (myArray v) * 2))" using Inl ne by (auto simp: arr_doubleSize_def arr_resize_def split: if_splits)
        then show False using arr_resize_ok[of "myArray v" "vkRoom K", OF _ _ n] Inl assms(1)
          by (auto simp: arr_doubleSize_def vec_ready_def vec_inv_def)
      qed
      then show ?thesis using Inl True assms(1,3) ne by (auto simp: sink_push_def)
    next
      case (Inr q)
      obtain old new where q: "q = (old, new)" by (cases q)
      have g: "arr_inv new" "0 < numSlots new" "numSlots new < 2 ^ 31" "usedSlots new < numSlots new" "arr_elems new = vec_elems v"
        using grown_array[OF assms(1,2) True] Inr q by auto
      have "vec_ready (v\<lparr>myArray := new\<rparr>)" "vec_elems (v\<lparr>myArray := new\<rparr>) = vec_elems v"
        using g by (auto simp: vec_ready_def vec_inv_def vec_elems_def)
      then show ?thesis using assms(3) True Inr q put[OF g(1-4), of "v\<lparr>myArray := new\<rparr>"] g(5) ne
        by (auto simp: sink_push_def split: if_splits)
    qed
  qed
qed

lemma vector_rows_ok:
  assumes "vec_ready v" "small_room (vkRoom K)" "i + n = length os" "vector_rows K (map Obj os) i n v = (v', r)"
  shows "vec_ready v' \<and> (r = None \<and> vec_elems v' = vec_elems v @ drop i os
    \<or> (\<exists>j. r = Some (NotEnoughSpace, j) \<and> i \<le> j \<and> j < length os \<and> vec_elems v' = vec_elems v @ take (j - i) (drop i os)
        \<and> (j = i \<longrightarrow> vec_elems v = [] \<longrightarrow> (\<exists>u x. vec_elems u = [] \<and> \<not> vkCopy K u x))))"
  using assms(1,3,4)
proof (induction n arbitrary: i v)
  case 0
  then show ?case by simp
next
  case (Suc n)
  have i: "i < length os" "map Obj os ! i = Obj (os ! i)" using Suc.prems(2) by auto
  have d: "drop i os = os ! i # drop (i + 1) os" using i(1) by (simp add: Cons_nth_drop_Suc)
  obtain v1 r1 where p: "sink_push K v (os ! i) = (v1, r1)" by (cases "sink_push K v (os ! i)")
  note pk = sink_push_ok[OF Suc.prems(1) assms(2) p]
  show ?case
  proof (cases r1)
    case (Inl e)
    then have "r = Some (NotEnoughSpace, i)" "v' = v1" "e = NotEnoughSpace" using Suc.prems(3) i p pk by auto
    then show ?thesis using pk Inl i(1) by auto
  next
    case (Inr u)
    then have v1: "vec_ready v1" "vec_elems v1 = vec_elems v @ [os ! i]" using pk by auto
    have rec: "vector_rows K (map Obj os) (i + 1) n v1 = (v', r)" using Suc.prems(3) i p Inr by simp
    have len: "(i + 1) + n = length os" using Suc.prems(2) by simp
    from Suc.IH[OF v1(1) len rec] have ih: "vec_ready v'" "r = None \<and> vec_elems v' = vec_elems v1 @ drop (i + 1) os
      \<or> (\<exists>j. r = Some (NotEnoughSpace, j) \<and> i + 1 \<le> j \<and> j < length os \<and> vec_elems v' = vec_elems v1 @ take (j - (i + 1)) (drop (i + 1) os))"
      by auto
    have tk: "take (j - i) (drop i os) = os ! i # take (j - (i + 1)) (drop (i + 1) os)" if "i + 1 \<le> j" for j
    proof -
      have "j - i = Suc (j - (i + 1))" using that by simp
      then show ?thesis using d by simp
    qed
    show ?thesis using ih(2)
    proof
      assume "r = None \<and> vec_elems v' = vec_elems v1 @ drop (i + 1) os"
      then show ?thesis using ih(1) v1(2) d by simp
    next
      assume "\<exists>j. r = Some (NotEnoughSpace, j) \<and> i + 1 \<le> j \<and> j < length os \<and> vec_elems v' = vec_elems v1 @ take (j - (i + 1)) (drop (i + 1) os)"
      then obtain j where "r = Some (NotEnoughSpace, j)" "i + 1 \<le> j" "j < length os"
        "vec_elems v' = vec_elems v1 @ take (j - (i + 1)) (drop (i + 1) os)" by blast
      then show ?thesis using ih(1) v1(2) tk[of j] by (intro conjI disjI2 exI[of _ j]) auto
    qed
  qed
qed

text \<open>\<open>writeOut\<close>: all rows are appended, or those that were are erased from the column.\<close>

lemma view_owner:
  assumes "heap_ok h" "view h t i = Some xs"
  obtains a d u j where "ts_at t i h = Some (a, d)" "owns h u j a" "getColumn t i h = Inr a" "\<exists>c. read_column a h = Inr c \<and> cCells c = xs"
proof -
  obtain a d c where a: "ts_at t i h = Some (a, d)" "hpCols h a = Some c" "cCells c = xs" using assms(2) by (auto simp: view_Some)
  obtain u j where "owns h u j a" using heap_okD(3)[OF assms(1)] a(2) by blast
  then show thesis using that a by (simp add: getColumn_def read_column_def)
qed

lemma vector_sink_writeOut_ok:
  assumes ok: "heap_ok h" and vw: "view h t att = Some (map Obj os)" and v: "vec_ready v" "small_room (vkRoom K)"
    and w: "vector_sink_writeOut K att h t v = (h', v', r)"
  shows "heap_ok h' \<and> (\<forall>s i. ts_at s i h' = ts_at s i h) \<and> vec_ready v'
    \<and> (r = Inr () \<and> h' = h \<and> vec_elems v' = vec_elems v @ os
      \<or> (\<exists>j < length os. r = Inl NotEnoughSpace \<and> view h' t att = Some (map Obj (drop j os)) \<and> vec_elems v' = vec_elems v @ take j os
          \<and> (j = 0 \<longrightarrow> vec_elems v = [] \<longrightarrow> (\<exists>u x. vec_elems u = [] \<and> \<not> vkCopy K u x))))"
proof -
  obtain a d u k where a: "ts_at t att h = Some (a, d)" "owns h u k a" "getColumn t att h = Inr a" "\<exists>c. read_column a h = Inr c \<and> cCells c = map Obj os"
    using view_owner[OF ok vw] by metis
  then obtain c where c: "read_column a h = Inr c" "cCells c = map Obj os" by blast
  obtain v1 r1 where vr: "vector_rows K (map Obj os) 0 (length os) v = (v1, r1)" by (cases "vector_rows K (map Obj os) 0 (length os) v")
  have vk: "vec_ready v1" "r1 = None \<and> vec_elems v1 = vec_elems v @ os
    \<or> (\<exists>j. r1 = Some (NotEnoughSpace, j) \<and> j < length os \<and> vec_elems v1 = vec_elems v @ take j os
        \<and> (j = 0 \<longrightarrow> vec_elems v = [] \<longrightarrow> (\<exists>u x. vec_elems u = [] \<and> \<not> vkCopy K u x)))"
    using vector_rows_ok[OF v _ vr] by auto
  show ?thesis using vk(2)
  proof
    assume "r1 = None \<and> vec_elems v1 = vec_elems v @ os"
    then show ?thesis using w a(3) c vr vk(1) ok by (simp add: vector_sink_writeOut_def)
  next
    assume "\<exists>j. r1 = Some (NotEnoughSpace, j) \<and> j < length os \<and> vec_elems v1 = vec_elems v @ take j os
        \<and> (j = 0 \<longrightarrow> vec_elems v = [] \<longrightarrow> (\<exists>u x. vec_elems u = [] \<and> \<not> vkCopy K u x))"
    then obtain j where j: "r1 = Some (NotEnoughSpace, j)" "j < length os" "vec_elems v1 = vec_elems v @ take j os"
      "j = 0 \<longrightarrow> vec_elems v = [] \<longrightarrow> (\<exists>u x. vec_elems u = [] \<and> \<not> vkCopy K u x)" by blast
    obtain h2 where h2: "set_cells a (drop j (map Obj os)) h = Inr h2" "heap_ok h2" "view h2 u k = Some (drop j (map Obj os))"
      "\<And>s i. ts_at s i h2 = ts_at s i h" using set_cells_ok[OF ok a(2)] by metis
    have "view h2 t att = Some (map Obj (drop j os))"
      using h2(3,4) a(1,2) by (simp add: view_def owns_def drop_map)
    then show ?thesis using w a(3) c vr j h2 vk(1) by (auto simp: vector_sink_writeOut_def)
  qed
qed

section \<open>The contract\<close>

definition obj_list :: "'o cell list \<Rightarrow> 'o option list option" where
  "obj_list cs = those (map (\<lambda>c. case c of Obj x \<Rightarrow> Some x | _ \<Rightarrow> None) cs)"

lemma obj_list_map [simp]: "obj_list (map Obj os) = Some os"
  by (induction os) (auto simp: obj_list_def)

lemma obj_list_Some: "obj_list cs = Some os \<longleftrightarrow> cs = map Obj os"
  by (induction cs arbitrary: os) (auto simp: obj_list_def split: cell.splits)

definition objs_at :: "'o heap \<Rightarrow> nat \<Rightarrow> nat \<Rightarrow> 'o option list option" where
  "objs_at h t i = (case view h t i of None \<Rightarrow> None | Some cs \<Rightarrow> obj_list cs)"

lemma objs_at_Some: "objs_at h t i = Some os \<longleftrightarrow> view h t i = Some (map Obj os)"
  by (auto simp: objs_at_def obj_list_Some split: option.splits)

text \<open>The rows that will be written for the chunk in tuple set \<open>t\<close>: those the filter keeps.\<close>

definition rows_in :: "('o option \<Rightarrow> bool) \<Rightarrow> nat \<Rightarrow> 'o heap \<Rightarrow> nat \<Rightarrow> 'o option list option" where
  "rows_in keep k h t =
     (if t \<noteq> k then None
      else if k = 0 then map_option (filter keep) (objs_at h 0 0)
      else if k = 1 then
        (case objs_at h 1 0 of
           None \<Rightarrow> None
         | Some os \<Rightarrow> if view h 1 1 = Some (map (Flag \<circ> keep) os) then Some (filter keep os) else None)
      else if k = 2 then objs_at h 2 0
      else None)"

definition sel_rows :: "('o option \<Rightarrow> bool) \<Rightarrow> nat \<Rightarrow> 'o sel_world \<Rightarrow> nat \<Rightarrow> 'o option list option" where
  "sel_rows keep k w t = rows_in keep k (swHeap w) t"

definition sel_todo :: "('o option \<Rightarrow> bool) \<Rightarrow> 'o sel_world \<Rightarrow> 'o option list list" where
  "sel_todo keep w = map (filter keep) (pending (swSource w))"

definition sel_inv :: "'o sel_world \<Rightarrow> bool" where
  "sel_inv w \<longleftrightarrow> src_ok (swSource w) \<and> heap_ok (swHeap w)
     \<and> (vsVec (swSource w) \<noteq> None \<longrightarrow> (\<exists>a. owns (swHeap w) 0 0 a))
     \<and> (\<forall>a. ts_at 1 1 (swHeap w) \<noteq> Some (a, False)) \<and> keys (swHeap w) 2 \<subseteq> {0}"

definition sel_holds :: "'o option vec \<Rightarrow> 'o option list \<Rightarrow> bool" where
  "sel_holds v rs \<longleftrightarrow> vec_ready v \<and> vec_elems v = rs"

text \<open>The lambda's function decides each row, or throws \<open>NotEnoughSpace\<close> in the current block.\<close>

definition decides :: "(nat option \<Rightarrow> 'o cell \<Rightarrow> 'o cell outcome) \<Rightarrow> ('o option \<Rightarrow> bool) \<Rightarrow> bool" where
  "decides func keep \<longleftrightarrow> (\<forall>b x. func b (Obj x) = Inr (Flag (keep x)) \<or> func b (Obj x) = Inl NotEnoughSpace)"

lemma decidesD: "decides func keep \<Longrightarrow> func b (Obj x) = Inr v \<Longrightarrow> v = Flag (keep x)"
  unfolding decides_def by (metis Inl_Inr_False sum.inject(2))

lemma sel_same:
  "swHeap w' = swHeap w \<Longrightarrow> swSource w' = swSource w \<Longrightarrow> sel_inv w \<Longrightarrow> keeps sel_inv (sel_todo keep) (sel_rows keep) w w'"
  by (simp add: keeps_def sel_inv_def sel_todo_def sel_rows_def)

text \<open>The source in the world.\<close>

lemma sel_next_ok:
  assumes "sel_inv w"
  obtains w' t where "sel_next w = (w', Inr t)" "case t of None \<Rightarrow> sel_todo keep w = []
    | Some u \<Rightarrow> sel_inv w' \<and> (\<exists>rs. sel_rows keep 0 w' u = Some rs \<and> sel_todo keep w = rs # sel_todo keep w')"
proof -
  let ?s = "swSource w" and ?h = "swHeap w"
  obtain a where a: "vsVec ?s \<noteq> None \<longrightarrow> owns ?h 0 0 a" using assms by (auto simp: sel_inv_def)
  have ok: "src_ok ?s" "heap_ok ?h" using assms by (auto simp: sel_inv_def)
  obtain s h t where v: "vs_next ?s ?h = Inr (s, h, t)" "delivers ?s ?h s h t" by (rule vs_next_ok[OF ok a])
  let ?w = "w\<lparr>swSource := s, swHeap := h\<rparr>"
  have "sel_next w = (?w, Inr t)" using v(1) by (simp add: sel_next_def)
  moreover have "case t of None \<Rightarrow> sel_todo keep w = []
    | Some u \<Rightarrow> sel_inv ?w \<and> (\<exists>rs. sel_rows keep 0 ?w u = Some rs \<and> sel_todo keep w = rs # sel_todo keep ?w)"
  proof (cases t)
    case None
    then show ?thesis using v(2) by (simp add: delivers_def sel_todo_def)
  next
    case (Some u)
    then obtain xs where d: "u = 0" "src_ok s" "view h 0 0 = Some (map Obj xs)" "pending ?s = xs # pending s" "heap_ok h"
      "\<forall>t i. ts_at t i h = ts_at t i ?h" using v(2) by (auto simp: delivers_def)
    have "\<not> src_ended ?s" using d(4) by (auto simp: pending_def)
    then have "src_active ?s" using ok(1) by (simp add: src_ok_def)
    then have vn: "vsVec ?s \<noteq> None" by (auto simp: src_active_def)
    then have "sel_inv ?w" using d(2,5,6) a assms by (auto simp: sel_inv_def owns_def keys_def)
    then show ?thesis using Some d by (simp add: sel_todo_def sel_rows_def rows_in_def objs_at_def)
  qed
  ultimately show thesis using that by blast
qed

lemma owner_0: "others t UNIV h h' \<Longrightarrow> 0 < t \<Longrightarrow> owns h' 0 0 a = owns h 0 0 a"
  using othersD(1)[of t UNIV h h' 0 0] by (simp add: owns_def)

text \<open>The lambda: on \<open>NotEnoughSpace\<close> the chunk is still there, otherwise the flags are in a new column.\<close>

lemma sel_apply_ok:
  assumes "sel_inv w" "decides func keep" "sel_rows keep 0 w t = Some rs" "sel_apply func w (Some t) = (w', r)"
  shows "(r = Inl NotEnoughSpace \<longrightarrow> sel_inv w' \<and> sel_todo keep w' = sel_todo keep w \<and> sel_rows keep 0 w' t = Some rs)
    \<and> (\<forall>u. r = Inr u \<longrightarrow> sel_inv w' \<and> sel_todo keep w' = sel_todo keep w \<and> u = Some 1 \<and> sel_rows keep 1 w' 1 = Some rs)
    \<and> (\<forall>e. r = Inl e \<longrightarrow> e = NotEnoughSpace)"
proof -
  let ?h = "swHeap w"
  obtain os where os: "t = 0" "view ?h 0 0 = Some (map Obj os)" "rs = filter keep os"
    using assms(3) by (auto simp: sel_rows_def rows_in_def objs_at_Some split: if_splits)
  have X: "(0::nat) < xOut sel_lambda" "xOutAtt sel_lambda = length (xMatches sel_lambda)"
    "xOut sel_lambda = 1" "xOutAtt sel_lambda = 1" "xMatches sel_lambda = [0]" "xAtt sel_lambda = 0"
    by (simp_all add: sel_lambda_def)
  have ok: "heap_ok ?h" and ow: "\<And>a. ts_at (xOut sel_lambda) (xOutAtt sel_lambda) ?h \<noteq> Some (a, False)"
    using assms(1) X by (auto simp: sel_inv_def)
  have cols: "\<forall>k \<in> set (xMatches sel_lambda). ts_at 0 k ?h \<noteq> None" using os(2) X by (auto simp: view_Some)
  have arg: "view ?h 0 (xAtt sel_lambda) = Some (map Obj os)" using os(2) X by simp
  obtain h' q where l0: "lambda_process (func (swBlock w)) (Flag False) sel_lambda 0 ?h = (h', q)" "heap_ok h'" "others (xOut sel_lambda) UNIV ?h h'"
    "\<And>a. ts_at (xOut sel_lambda) (xOutAtt sel_lambda) h' \<noteq> Some (a, False)"
    "q = Inr () \<Longrightarrow> (\<forall>k < length (xMatches sel_lambda). view h' (xOut sel_lambda) k = view ?h 0 (xMatches sel_lambda ! k))
       \<and> (\<exists>ys. view h' (xOut sel_lambda) (xOutAtt sel_lambda) = Some ys \<and> list_all2 (\<lambda>x y. func (swBlock w) x = Inr y) (map Obj os) ys)"
    "\<And>e. q = Inl e \<Longrightarrow> \<exists>x \<in> set (map Obj os). func (swBlock w) x = Inl e"
    by (rule lambda_process_ok[OF ok X(1,2) ow cols arg, of "func (swBlock w)" "Flag False"]) (rule that; simp)
  note l = l0[unfolded X(3-6)]
  have v0: "view h' 0 0 = view ?h 0 0" using othersD(2)[OF l(3), of 0 0] by simp
  have k2: "keys h' 2 = keys ?h 2" using othersD(1)[OF l(3), of 2] by (simp add: keys_def)
  have w': "w' = w\<lparr>swHeap := h'\<rparr>" "r = (case q of Inl e \<Rightarrow> Inl e | Inr _ \<Rightarrow> Inr (Some 1))"
    using assms(4) l(1) os(1) X(3) by (auto simp: sel_apply_def split: sum.splits)
  have inv: "sel_inv w'" using assms(1) l(2,4) owner_0[OF l(3)] k2 w'(1) by (auto simp: sel_inv_def)
  have td: "sel_todo keep w' = sel_todo keep w" using w'(1) by (simp add: sel_todo_def)
  have r0: "sel_rows keep 0 w' t = Some rs" using assms(3) w'(1) v0 os(1) by (simp add: sel_rows_def rows_in_def objs_at_def)
  have r1: "sel_rows keep 1 w' 1 = Some rs" if q: "q = Inr ()"
  proof -
    obtain ys where ys: "view h' 1 0 = Some (map Obj os)" "view h' 1 1 = Some ys"
      "list_all2 (\<lambda>x y. func (swBlock w) x = Inr y) (map Obj os) ys" using l(5)[OF q] os(2) by auto
    have len: "length ys = length os" using ys(3) by (auto dest: list_all2_lengthD)
    have "ys = map (Flag \<circ> keep) os"
    proof (rule nth_equalityI)
      fix i assume "i < length ys"
      then have i: "i < length os" "func (swBlock w) (Obj (os ! i)) = Inr (ys ! i)"
        using len list_all2_nthD2[OF ys(3), of i] by simp_all
      then show "ys ! i = map (Flag \<circ> keep) os ! i" using decidesD[OF assms(2) i(2)] by simp
    qed (simp add: len)
    then show ?thesis using ys os(3) w'(1) by (simp add: sel_rows_def rows_in_def objs_at_def)
  qed
  have er: "e = NotEnoughSpace" if "q = Inl e" for e
    using l(6)[OF that] assms(2) unfolding decides_def by (metis (no_types, lifting) Inl_Inr_False ex_map_conv sum.inject(1))
  show ?thesis using inv td r0 r1 w'(2) er by (cases q) auto
qed

lemma filter_flags: "map fst (filter snd (zip (map Obj os) (map keep os))) = map Obj (filter keep os)"
  by (induction os) auto

lemma as_flags_map: "as_flags (map (Flag \<circ> keep) os) = Inr (map keep os)"
  by (induction os) auto

lemma sel_keep_ok:
  assumes "sel_inv w" "sel_rows keep 1 w t = Some rs"
  obtains w' where "sel_keep w (Some t) = (w', Inr (Some 2))" "sel_inv w'" "sel_todo keep w' = sel_todo keep w" "sel_rows keep 2 w' 2 = Some rs"
proof -
  let ?h = "swHeap w"
  obtain os where os: "t = 1" "view ?h 1 0 = Some (map Obj os)" "view ?h 1 1 = Some (map (Flag \<circ> keep) os)" "rs = filter keep os"
    using assms(2) by (auto simp: sel_rows_def rows_in_def objs_at_Some split: if_splits option.splits)
  have X: "xOut sel_filter = 2" "xMatches sel_filter = [0]" "xAtt sel_filter = 1" by (simp_all add: sel_filter_def)
  have ok: "heap_ok ?h" and lt: "(1::nat) < xOut sel_filter" and ks: "keys ?h (xOut sel_filter) \<subseteq> {..< length (xMatches sel_filter)}"
    using assms(1) X by (auto simp: sel_inv_def)
  have cols: "\<forall>k \<in> set (xMatches sel_filter). \<exists>xs. view ?h 1 k = Some xs \<and> length xs = length (map keep os)" using os(2) X by auto
  have fl: "view ?h 1 (xAtt sel_filter) = Some (map (Flag \<circ> keep) os)" using os(3) X by simp
  obtain h' where f0: "filter_process sel_filter 1 ?h = Inr h'" "heap_ok h'" "others (xOut sel_filter) UNIV ?h h'"
    "keys h' (xOut sel_filter) = {..< length (xMatches sel_filter)}"
    "\<And>k. k < length (xMatches sel_filter) \<Longrightarrow>
       view h' (xOut sel_filter) k = map_option (\<lambda>xs. map fst (filter snd (zip xs (map keep os)))) (view ?h 1 (xMatches sel_filter ! k))"
    using filter_process_ok[OF ok lt ks cols fl as_flags_map] by blast
  note f = f0(1,2) f0(3,4)[unfolded X] f0(5)[of 0, unfolded X]
  let ?w = "w\<lparr>swHeap := h'\<rparr>"
  have "view h' 2 0 = Some (map Obj rs)" using f(5) os(2,4) filter_flags[of os keep] by simp
  then have "sel_rows keep 2 ?w 2 = Some rs" by (simp add: sel_rows_def rows_in_def objs_at_def)
  moreover have "sel_inv ?w" using assms(1) f(2,4) owner_0[OF f(3)] othersD(1)[OF f(3), of 1 1] by (auto simp: sel_inv_def)
  moreover have "sel_keep w (Some t) = (?w, Inr (Some 2))" using f(1) os(1) X(1) by (simp add: sel_keep_def)
  moreover have "sel_todo keep ?w = sel_todo keep w" by (simp add: sel_todo_def)
  ultimately show thesis using that by blast
qed

text \<open>The sink: the rows that are written leave the column.\<close>

lemma sel_write_ok:
  assumes "sel_inv w" "small_room (vkRoom K)" "sel_rows keep 2 w t = Some rs" "sel_holds c old" "sel_write K w (Some t) c = (w', c', r)"
  shows "sel_inv w' \<and> sel_todo keep w' = sel_todo keep w
    \<and> (r = Inr () \<and> sel_holds c' (old @ rs)
      \<or> (\<exists>i \<le> length rs. r = Inl NotEnoughSpace \<and> sel_holds c' (old @ take i rs) \<and> sel_rows keep 2 w' t = Some (drop i rs)
          \<and> (i = 0 \<longrightarrow> old = [] \<longrightarrow> (\<exists>u x. vec_elems u = [] \<and> \<not> vkCopy K u x))))"
proof -
  have t: "t = 2" "view (swHeap w) 2 0 = Some (map Obj rs)" using assms(3) by (auto simp: sel_rows_def rows_in_def objs_at_Some split: if_splits)
  have ok: "heap_ok (swHeap w)" and c: "vec_ready c" "vec_elems c = old" using assms(1,4) by (auto simp: sel_inv_def sel_holds_def)
  obtain h' v' q where w: "vector_sink_writeOut K 0 (swHeap w) 2 c = (h', v', q)" by (cases "vector_sink_writeOut K 0 (swHeap w) 2 c") auto
  have w': "w' = w\<lparr>swHeap := h'\<rparr>" "c' = v'" "r = q" using assms(5) w t(1) by (auto simp: sel_write_def)
  have k: "heap_ok h'" "\<forall>s i. ts_at s i h' = ts_at s i (swHeap w)" "vec_ready v'"
    "q = Inr () \<and> h' = swHeap w \<and> vec_elems v' = vec_elems c @ rs
      \<or> (\<exists>j < length rs. q = Inl NotEnoughSpace \<and> view h' 2 0 = Some (map Obj (drop j rs)) \<and> vec_elems v' = vec_elems c @ take j rs
          \<and> (j = 0 \<longrightarrow> vec_elems c = [] \<longrightarrow> (\<exists>u x. vec_elems u = [] \<and> \<not> vkCopy K u x)))"
    using vector_sink_writeOut_ok[OF ok t(2) c(1) assms(2) w] by auto
  have "sel_inv w'" using assms(1) k(1,2) w'(1) by (auto simp: sel_inv_def owns_def keys_def)
  moreover have "sel_todo keep w' = sel_todo keep w" using w'(1) by (simp add: sel_todo_def)
  moreover have "r = Inr () \<and> sel_holds c' (old @ rs)
      \<or> (\<exists>i \<le> length rs. r = Inl NotEnoughSpace \<and> sel_holds c' (old @ take i rs) \<and> sel_rows keep 2 w' t = Some (drop i rs)
          \<and> (i = 0 \<longrightarrow> old = [] \<longrightarrow> (\<exists>u x. vec_elems u = [] \<and> \<not> vkCopy K u x)))"
    using k(4)
  proof
    assume "q = Inr () \<and> h' = swHeap w \<and> vec_elems v' = vec_elems c @ rs"
    then show ?thesis using k(3) w' c by (simp add: sel_holds_def)
  next
    assume "\<exists>j < length rs. q = Inl NotEnoughSpace \<and> view h' 2 0 = Some (map Obj (drop j rs)) \<and> vec_elems v' = vec_elems c @ take j rs
          \<and> (j = 0 \<longrightarrow> vec_elems c = [] \<longrightarrow> (\<exists>u x. vec_elems u = [] \<and> \<not> vkCopy K u x))"
    then obtain j where "j < length rs" "q = Inl NotEnoughSpace" "view h' 2 0 = Some (map Obj (drop j rs))"
      "vec_elems v' = vec_elems c @ take j rs" "j = 0 \<longrightarrow> vec_elems c = [] \<longrightarrow> (\<exists>u x. vec_elems u = [] \<and> \<not> vkCopy K u x)" by blast
    then show ?thesis using k(3) w' c t(1)
      by (intro disjI2 exI[of _ j]) (simp add: sel_holds_def sel_rows_def rows_in_def objs_at_def)
  qed
  ultimately show ?thesis by blast
qed

text \<open>The assumptions about the sink and the function hold in every world.\<close>

definition sel_good :: "'o vsink \<Rightarrow> (nat option \<Rightarrow> 'o cell \<Rightarrow> 'o cell outcome) \<Rightarrow> ('o option \<Rightarrow> bool) \<Rightarrow> 'o sel_world \<Rightarrow> bool" where
  "sel_good K func keep w \<longleftrightarrow> sel_inv w \<and> small_room (vkRoom K) \<and> decides func keep"

lemma good_same:
  "swHeap w' = swHeap w \<Longrightarrow> swSource w' = swSource w \<Longrightarrow> sel_good K func keep w
     \<Longrightarrow> keeps (sel_good K func keep) (sel_todo keep) (sel_rows keep) w w'"
  by (simp add: keeps_def sel_good_def sel_inv_def sel_todo_def sel_rows_def)

lemma sel_ops_simps [simp]:
  "opNewPage (sel_ops K func) = (\<lambda>w. case swPages w of [] \<Rightarrow> (w, None, 0) | (l, n) # ps \<Rightarrow> (w\<lparr>swPages := ps\<rparr>, Some l, n))"
  "opWriteBack (sel_ops K func) = (\<lambda>l c w. w)" "opDiscard (sel_ops K func) = (\<lambda>l w. w)"
  "opOpenBlock (sel_ops K func) = (\<lambda>loc n w. w\<lparr>swBlock := loc\<rparr>)" "opScratchBlock (sel_ops K func) = (\<lambda>n w. w\<lparr>swBlock := None\<rparr>)"
  "opNext (sel_ops K func) = sel_next" "opStages (sel_ops K func) = [sel_apply func, sel_keep]"
  "opNewSink (sel_ops K func) = (\<lambda>w. (w, vector_sink_new K))" "opWriteOut (sel_ops K func) = sel_write K"
  by (simp_all add: sel_ops_def)

lemma vector_sink_new_ok: "vector_sink_new K = Inr c \<Longrightarrow> sel_holds c []"
  by (auto simp: vector_sink_new_def vec_new_def sel_holds_def vec_ready_def vec_inv_def vec_elems_def split: if_splits)

lemma sel_stage_ok:
  assumes g: "sel_good K func keep w" and k: "k < 2" and rs: "sel_rows keep k w t = Some rs"
    and st: "([sel_apply func, sel_keep] ! k) w (Some t) = (w', r)"
  shows "(r = Inl NotEnoughSpace \<longrightarrow> sel_good K func keep w' \<and> sel_todo keep w' = sel_todo keep w \<and> sel_rows keep k w' t = Some rs)
    \<and> (\<forall>u. r = Inr u \<longrightarrow> sel_good K func keep w' \<and> sel_todo keep w' = sel_todo keep w \<and> (\<exists>t'. u = Some t' \<and> sel_rows keep (Suc k) w' t' = Some rs))
    \<and> (\<forall>e. r = Inl e \<longrightarrow> e = NotEnoughSpace)"
proof (cases "k = 0")
  case True
  have inv: "sel_inv w" "decides func keep" using g by (auto simp: sel_good_def)
  have "sel_rows keep 0 w t = Some rs" "sel_apply func w (Some t) = (w', r)" using True rs st by simp_all
  from sel_apply_ok[OF inv this] g True show ?thesis by (auto simp: sel_good_def)
next
  case False
  then have k1: "k = 1" using k by simp
  have inv: "sel_inv w" "sel_rows keep 1 w t = Some rs" using g rs k1 by (auto simp: sel_good_def)
  obtain w2 where "sel_keep w (Some t) = (w2, Inr (Some 2))" "sel_inv w2" "sel_todo keep w2 = sel_todo keep w" "sel_rows keep 2 w2 2 = Some rs"
    by (rule sel_keep_ok[OF inv])
  then show ?thesis using st k1 g by (auto simp: sel_good_def numeral_2_eq_2)
qed

interpretation sel: safe_parts "sel_ops K func" "sel_good K func keep" "sel_todo keep" "sel_rows keep" sel_holds
  for K func keep
proof unfold_locales
  fix w w' :: "'a sel_world" and loc n l c made
  assume g: "sel_good K func keep w"
  show "keeps (sel_good K func keep) (sel_todo keep) (sel_rows keep) w (fst (opNewPage (sel_ops K func) w))"
    by (rule good_same) (use g in \<open>auto split: list.splits\<close>)
  show "keeps (sel_good K func keep) (sel_todo keep) (sel_rows keep) w (opOpenBlock (sel_ops K func) loc n w)"
    "keeps (sel_good K func keep) (sel_todo keep) (sel_rows keep) w (opScratchBlock (sel_ops K func) n w)"
    "keeps (sel_good K func keep) (sel_todo keep) (sel_rows keep) w (opWriteBack (sel_ops K func) l c w)"
    "keeps (sel_good K func keep) (sel_todo keep) (sel_rows keep) w (opDiscard (sel_ops K func) l w)"
    by (rule good_same; use g in simp)+
  show "keeps (sel_good K func keep) (sel_todo keep) (sel_rows keep) w w' \<and> (\<forall>c. made = Inr c \<longrightarrow> sel_holds c [])"
    if "opNewSink (sel_ops K func) w = (w', made)"
    using that g vector_sink_new_ok by (auto intro: good_same)
next
  fix w w' :: "'a sel_world" and t e
  assume g: "sel_good K func keep w"
  then have inv: "sel_inv w" by (simp add: sel_good_def)
  obtain w2 u where n: "sel_next w = (w2, Inr u)" "case u of None \<Rightarrow> sel_todo keep w = []
    | Some v \<Rightarrow> sel_inv w2 \<and> (\<exists>rs. sel_rows keep 0 w2 v = Some rs \<and> sel_todo keep w = rs # sel_todo keep w2)"
    by (rule sel_next_ok[OF inv, of keep])
  show "keeps (sel_good K func keep) (sel_todo keep) (sel_rows keep) w w'" if "opNext (sel_ops K func) w = (w', Inl NotEnoughSpace)"
    using that n(1) by simp
  show "sel_todo keep w = []" if "opNext (sel_ops K func) w = (w', Inr None)" using that n by simp
  show "sel_good K func keep w' \<and> (\<exists>rs. sel_rows keep 0 w' t = Some rs \<and> sel_todo keep w = rs # sel_todo keep w')"
    if "opNext (sel_ops K func) w = (w', Inr (Some t))" using that n g by (simp add: sel_good_def)
  show "e = NotEnoughSpace" if "opNext (sel_ops K func) w = (w', Inl e)" using that n(1) by simp
  show "e = NotEnoughSpace" if "opNewSink (sel_ops K func) w = (w', Inl e)"
    using that by (auto simp: vector_sink_new_def vec_new_def split: if_splits)
next
  fix w w' :: "'a sel_world" and k t rs r e
  assume a: "sel_good K func keep w" "k < length (opStages (sel_ops K func))" "sel_rows keep k w t = Some rs"
  then have k: "k < 2" by simp
  note st = sel_stage_ok[OF a(1) k a(3)]
  show "sel_good K func keep w' \<and> sel_todo keep w' = sel_todo keep w \<and> sel_rows keep k w' t = Some rs"
    if "(opStages (sel_ops K func) ! k) w (Some t) = (w', Inl NotEnoughSpace)" using st that by simp
  show "sel_good K func keep w' \<and> sel_todo keep w' = sel_todo keep w \<and> (\<exists>t'. r = Some t' \<and> sel_rows keep (Suc k) w' t' = Some rs)"
    if "(opStages (sel_ops K func) ! k) w (Some t) = (w', Inr r)" using st that by simp
  show "e = NotEnoughSpace" if "(opStages (sel_ops K func) ! k) w (Some t) = (w', Inl e)" using st that by simp
next
  fix w w' :: "'a sel_world" and t rs and c c' :: "'a option vec" and old u e
  assume a: "sel_good K func keep w" "sel_rows keep (length (opStages (sel_ops K func))) w t = Some rs" "sel_holds c old"
  have b: "sel_inv w" "small_room (vkRoom K)" "sel_rows keep 2 w t = Some rs" using a(1,2) by (auto simp: sel_good_def numeral_2_eq_2)
  note wr = sel_write_ok[OF b a(3)]
  show "sel_good K func keep w' \<and> sel_todo keep w' = sel_todo keep w \<and> sel_holds c' (old @ rs)"
    if "opWriteOut (sel_ops K func) w (Some t) c = (w', c', Inr u)" using wr that a(1) by (auto simp: sel_good_def)
  show "sel_good K func keep w' \<and> sel_todo keep w' = sel_todo keep w
      \<and> (\<exists>i \<le> length rs. sel_holds c' (old @ take i rs) \<and> sel_rows keep (length (opStages (sel_ops K func))) w' t = Some (drop i rs))"
    if "opWriteOut (sel_ops K func) w (Some t) c = (w', c', Inl NotEnoughSpace)"
    using wr that a(1) by (auto simp: sel_good_def numeral_2_eq_2)
  show "e = NotEnoughSpace" if "opWriteOut (sel_ops K func) w (Some t) c = (w', c', Inl e)" using wr that by auto
qed

section \<open>Starting\<close>

definition sel_start :: "(nat \<times> 'o option vec) list \<Rightarrow> nat \<Rightarrow> (nat \<times> nat) list \<Rightarrow> 'o sel_world outcome" where
  "sel_start pages chunk outs =
     andThen (vs_new pages chunk 0 \<lparr>hpCols = (\<lambda>_. None), hpNext = 0, hpSets = (\<lambda>_. [])\<rparr>)
       (\<lambda>(s, h). Inr \<lparr>swSource = s, swHeap = h, swPages = outs, swBlock = None\<rparr>)"

definition input_rows :: "(nat \<times> 'o option vec) list \<Rightarrow> 'o option list" where
  "input_rows pages = concat (map (vec_elems \<circ> snd) pages)"

definition inputs_ok :: "(nat \<times> 'o option vec) list \<Rightarrow> bool" where
  "inputs_ok pages \<longleftrightarrow> distinct (map fst pages) \<and> (\<forall>q \<in> set pages. vec_inv (snd q))"

lemma first_heap:
  assumes "heap_ok h" "ts_at 0 0 h = None" "new_column c h = (h1, a)"
  shows "addColumn 0 0 a True h1 = Inr (ts_put 0 0 (a, True) h1)" "heap_ok (ts_put 0 0 (a, True) h1)"
    "owns (ts_put 0 0 (a, True) h1) 0 0 a"
proof -
  have d: "drop_entry 0 0 h = Inr h" using assms(2) by (simp add: drop_entry_def)
  have a: "a = hpNext h" "h1 = fst (new_column c h)" using assms(3) by (auto simp: new_column_def)
  show "heap_ok (ts_put 0 0 (a, True) h1)" using put_new_ok(1)[OF assms(1) d, of c] a by simp
  show "addColumn 0 0 a True h1 = Inr (ts_put 0 0 (a, True) h1)"
    using assms(2,3) by (auto simp: addColumn_def drop_entry_def new_column_def ts_at_def)
  show "owns (ts_put 0 0 (a, True) h1) 0 0 a" by (simp add: owns_def)
qed

lemma concat_page_chunks:
  "0 < k \<Longrightarrow> concat (concat (map (\<lambda>p. chunks k (vec_elems (snd p))) ps)) = input_rows ps"
  by (induction ps) (auto simp: input_rows_def concat_chunks)

lemma length_page_chunks:
  "length (concat (map (\<lambda>p. chunks k (vec_elems (snd p))) ps)) \<le> length (input_rows ps)"
  by (induction ps) (auto simp: input_rows_def intro: add_mono length_chunks)

lemma sel_start_ok:
  assumes "0 < chunk" "inputs_ok pages"
  obtains w where "sel_start pages chunk outs = Inr w" "sel_inv w" "swPages w = outs"
    "concat (pending (swSource w)) = input_rows pages" "length (pending (swSource w)) \<le> length (input_rows pages)"
    "\<forall>ch \<in> set (pending (swSource w)). length ch \<le> chunk"
proof -
  define h0 :: "'a heap" where "h0 = \<lparr>hpCols = (\<lambda>_. None), hpNext = 0, hpSets = (\<lambda>_. [])\<rparr>"
  have h0: "heap_ok h0" "\<And>t i. ts_at t i h0 = None" by (auto simp: h0_def heap_ok_def owns_def ts_at_def)
  show thesis
  proof (cases pages)
    case Nil
    let ?s = "\<lparr>vsPages = [], vsDone = [], vsRec = None, vsLast = None, vsVec = None, vsChunk = chunk, vsPos = 0, vsOut = None\<rparr> :: 'a vsource"
    have e: "src_ended ?s" by (simp add: src_ended_def)
    have "sel_start pages chunk outs = Inr \<lparr>swSource = ?s, swHeap = h0, swPages = outs, swBlock = None\<rparr>"
      using Nil by (simp add: sel_start_def vs_new_def another_vector_def h0_def Let_def)
    moreover have "sel_inv \<lparr>swSource = ?s, swHeap = h0, swPages = outs, swBlock = None\<rparr>"
      using e h0 by (simp add: sel_inv_def src_ok_def keys_def)
    ultimately show thesis using that e Nil by (simp add: pending_def input_rows_def)
  next
    case (Cons p ps)
    let ?s = "\<lparr>vsPages = ps, vsDone = [], vsRec = Some (fst p), vsLast = None, vsVec = Some p, vsChunk = chunk, vsPos = 0, vsOut = Some 0\<rparr>"
    obtain h1 a where n: "new_column \<lparr>cDefault = Obj None, cCells = []\<rparr> h0 = (h1, a)" by (cases "new_column \<lparr>cDefault = Obj None, cCells = []\<rparr> h0")
    note f = first_heap[OF h0 n]
    let ?w = "\<lparr>swSource = ?s, swHeap = ts_put 0 0 (a, True) h1, swPages = outs, swBlock = None\<rparr>"
    have h1: "ts_at t i h1 = None" for t i using n h0(2) by (auto simp: new_column_def ts_at_def)
    have act: "src_active ?s" using assms Cons by (cases p) (auto simp: src_active_def src_pages_def inputs_ok_def)
    have "sel_start pages chunk outs = Inr ?w"
      using Cons n f(1) by (simp add: sel_start_def vs_new_def another_vector_def h0_def[symmetric] Let_def)
    moreover have "sel_inv ?w" using act f(2,3) h1 by (auto simp: sel_inv_def src_ok_def keys_def)
    moreover have pend: "pending ?s = concat (map (\<lambda>p. chunks chunk (vec_elems (snd p))) pages)"
      using active_not_ended[OF act] Cons by (cases p) (simp add: pending_def the_vec_def page_chunks_def)
    moreover have "\<forall>ch \<in> set (pending ?s). length ch \<le> chunk" unfolding pend by (auto dest: length_chunk)
    ultimately show thesis
      using that[of ?w] concat_page_chunks[OF assms(1), of pages] length_page_chunks[of chunk pages] by simp
  qed
qed

end
