(* ===== verification/SelectionResults.thy ===== *)
theory SelectionResults
  imports SelectionRuns
begin

text \<open>
  The properties of pipelines: of any pipeline, what happens to its pages and when it does not end; and
  of a selection from vectors to vectors, what it writes, how it can fail and that it ends.
\<close>

section \<open>Demonstration\<close>

text \<open>Three rows on one input page, the odd ones kept, and room for one row on an output page.\<close>

definition demo_vec :: "nat option vec" where
  "demo_vec = \<lparr>myArray = \<lparr>numSlots = 3, usedSlots = 3, cells = [Some (Some 5), Some (Some 6), Some (Some 7)]\<rparr>\<rparr>"

definition demo_keep :: "nat option \<Rightarrow> bool" where
  "demo_keep x = (case x of None \<Rightarrow> False | Some k \<Rightarrow> odd k)"

definition demo_func :: "nat option \<Rightarrow> nat cell \<Rightarrow> nat cell outcome" where
  "demo_func b c = (case c of Obj x \<Rightarrow> Inr (Flag (demo_keep x)) | _ \<Rightarrow> Inl WildAccess)"

definition demo_sink :: "nat vsink" where
  "demo_sink = \<lparr>vkRoom = (\<lambda>n. n < 2), vkCopy = (\<lambda>v x. True)\<rparr>"

definition demo_source :: "nat \<Rightarrow> nat vsource" where
  "demo_source pos = \<lparr>vsPages = [], vsDone = [], vsRec = Some 9, vsLast = None, vsVec = Some (9, demo_vec),
     vsChunk = 4, vsPos = pos, vsOut = Some 0\<rparr>"

definition demo_end :: "nat vsource" where
  "demo_end = \<lparr>vsPages = [], vsDone = [], vsRec = None, vsLast = Some 9, vsVec = Some (9, demo_vec),
     vsChunk = 4, vsPos = 3, vsOut = Some 0\<rparr>"

definition demo_heap :: "nat \<Rightarrow> nat option list \<Rightarrow> nat heap" where
  "demo_heap k xs =
     (let c0 = \<lparr>cDefault = Obj None, cCells = [Obj (Some 5), Obj (Some 6), Obj (Some 7)]\<rparr>;
          c1 = \<lparr>cDefault = Flag False, cCells = [Flag True, Flag False, Flag True]\<rparr> in
      if k = 2 then \<lparr>hpCols = [0 \<mapsto> c0\<lparr>cCells := []\<rparr>], hpNext = 1, hpSets = (\<lambda>_. [])(0 := [(0, 0, True)])\<rparr>
      else if k = 3 then \<lparr>hpCols = [0 \<mapsto> c0], hpNext = 1, hpSets = (\<lambda>_. [])(0 := [(0, 0, True)])\<rparr>
      else if k = 4 then \<lparr>hpCols = [0 \<mapsto> c0, 1 \<mapsto> c1], hpNext = 2,
        hpSets = (\<lambda>_. [])(0 := [(0, 0, True)], 1 := [(0, 0, False), (1, 1, True)])\<rparr>
      else \<lparr>hpCols = [0 \<mapsto> c0, 1 \<mapsto> c1, 2 \<mapsto> \<lparr>cDefault = Obj None, cCells = map Obj xs\<rparr>], hpNext = 3,
        hpSets = (\<lambda>_. [])(0 := [(0, 0, True)], 1 := [(0, 0, False), (1, 1, True)], 2 := [(0, 2, True)])\<rparr>)"

definition demo_out :: "nat option list \<Rightarrow> nat option vec" where
  "demo_out xs = \<lparr>myArray = \<lparr>numSlots = 1, usedSlots = length xs, cells = (if xs = [] then [None] else map Some xs)\<rparr>\<rparr>"

lemma demo_vec_simps [simp]: "vec_size demo_vec = 3" "vec_get demo_vec 0 = Inr (Some 5)"
  "vec_get demo_vec (Suc 0) = Inr (Some 6)" "vec_get demo_vec (Suc (Suc 0)) = Inr (Some 7)"
  "vec_elems demo_vec = [Some 5, Some 6, Some 7]"
  by (simp_all add: demo_vec_def vec_size_def arr_numUsedSlots_def vec_get_def arr_getObj_def read_cell_def vec_elems_def arr_elems_def)

lemma demo_out_elems [simp]: "vec_elems (demo_out []) = []" "vec_elems (demo_out [x]) = [x]"
  by (simp_all add: demo_out_def vec_elems_def arr_elems_def)

lemma fill_numeral:
  "fill_chunk v pos (numeral k) =
     andThen (vec_get v pos) (\<lambda>x. andThen (fill_chunk v (pos + 1) (pred_numeral k)) (\<lambda>xs. Inr (Obj x # xs)))"
  by (simp add: numeral_eq_Suc)

lemma lambda_numeral:
  "lambda_loop f xs i (numeral k) ys =
     (case f (xs ! i) of Inl e \<Rightarrow> (ys, Inl e) | Inr v \<Rightarrow> lambda_loop f xs (Suc i) (pred_numeral k) (ys[i := v]))"
  by (simp add: numeral_eq_Suc)

lemmas column_eval = ts_setup_def copyColumn_def drop_entry_def ts_at_def ts_put_def getColumn_def ensure_column_def
  hasColumn_def new_column_def addColumn_def read_column_def resize_cells_def set_cells_def delete_column_def
  demo_heap_def Let_def

lemmas source_eval = vs_next_def done_last_def skip_empty.simps vec_in_use_def next_chunk_def another_vector_def
  fill_numeral demo_source_def demo_end_def

lemma demo_next: "vs_next (demo_source 0) (demo_heap 2 []) = Inr (demo_source 3, demo_heap 3 [], Some 0)"
  by (simp add: source_eval column_eval)

lemma demo_last: "vs_next (demo_source 3) h = Inr (demo_end, h, None)"
  by (simp add: source_eval Let_def)

lemma demo_lambda: "lambda_process (demo_func b) (Flag False) sel_lambda 0 (demo_heap 3 []) = (demo_heap 4 [], Inr ())"
  by (simp add: lambda_process_def sel_lambda_def column_eval lambda_numeral demo_func_def demo_keep_def)

lemma demo_filter: "filter_process sel_filter 1 (demo_heap 4 []) = Inr (demo_heap 5 [Some 5, Some 7])"
  by (simp add: filter_process_def sel_filter_def column_eval getNumColumns_def filterColumn_def filter_cells_def)

lemmas sink_eval = vector_sink_writeOut_def sink_push_def demo_sink_def demo_out_def arr_isFull_def arr_push_back_def
  write_cell_def u32_def arr_doubleSize_def arr_resize_def column_eval

lemma demo_write_one: "vector_sink_writeOut demo_sink 0 (demo_heap 5 [Some 5, Some 7]) 2 (demo_out [])
    = (demo_heap 5 [Some 7], demo_out [Some 5], Inl NotEnoughSpace)"
  by (simp add: sink_eval)

lemma demo_write_two: "vector_sink_writeOut demo_sink 0 (demo_heap 5 [Some 7]) 2 (demo_out [])
    = (demo_heap 5 [Some 7], demo_out [Some 7], Inr ())"
  by (simp add: sink_eval)

lemma demo_new_sink: "vector_sink_new demo_sink = Inr (demo_out [])"
  by (simp add: vector_sink_new_def vec_new_def demo_sink_def demo_out_def arr_new_def)

definition demo_world :: "nat sel_world" where
  "demo_world = \<lparr>swSource = demo_source 0, swHeap = demo_heap 2 [], swPages = [(20, 64), (21, 64), (22, 64)], swBlock = None\<rparr>"

lemma demo_start: "sel_start [(9, demo_vec)] 4 [(20, 64), (21, 64), (22, 64)] = Inr demo_world"
  by (simp add: sel_start_def vs_new_def another_vector_def demo_world_def demo_source_def column_eval)

lemma demo_ok: "inputs_ok [(9 :: nat, demo_vec)]" "small_room (vkRoom demo_sink)" "decides demo_func demo_keep"
  "input_rows [(9 :: nat, demo_vec)] = [Some 5, Some 6, Some 7]"
proof -
  have "cells (myArray demo_vec) ! i \<noteq> None" if "i < 3" for i
    using that by (simp add: demo_vec_def nth_Cons split: nat.splits)
  then show "inputs_ok [(9 :: nat, demo_vec)]" by (simp add: inputs_ok_def vec_inv_def arr_inv_def) (simp add: demo_vec_def)
  show "small_room (vkRoom demo_sink)" by (simp add: small_room_def demo_sink_def)
  show "decides demo_func demo_keep" by (simp add: decides_def demo_func_def)
  show "input_rows [(9 :: nat, demo_vec)] = [Some 5, Some 6, Some 7]" by (simp add: input_rows_def)
qed

definition demo_ops :: "(nat sel_world, nat, nat option vec) pipe_ops" where
  "demo_ops = sel_ops demo_sink demo_func"

lemma sel_outs [simp]: "xOut sel_lambda = 1" "xOut sel_filter = 2"
  by (simp_all add: sel_lambda_def sel_filter_def)

lemmas pipe_eval = pipe_run_def new_holder_def new_sink_def pipe_new_def run_next_def sel_next_def sel_apply_def sel_keep_def
  sel_write_def write_round_def turn_page_def cleanPages_def set_iteration_def demo_world_def demo_next demo_last demo_lambda
  demo_filter[simplified] demo_write_one demo_write_two demo_new_sink

definition demo_pipe :: "(nat sel_world, nat option vec) pipe" where
  "demo_pipe = \<lparr>pUnwritten = [\<lparr>hLocation = Some 20, hSize = 64, hSink = Some (demo_out [Some 5]), hIteration = 0\<rparr>,
       \<lparr>hLocation = Some 21, hSize = 64, hSink = Some (demo_out [Some 7]), hIteration = 1\<rparr>], pDelay = 4,
     pWorld = \<lparr>swSource = demo_end, swHeap = demo_heap 5 [Some 7], swPages = [(22, 64)], swBlock = Some 21\<rparr>,
     pTrace = [GotPage 20, GotPage 21]\<rparr>"

lemma demo_run: "pipe_run (sel_ops demo_sink demo_func) (Suc (Suc (Suc (Suc n)))) (pipe_new demo_world) = Some (demo_pipe, Inr Go)"
  by (simp add: pipe_eval demo_pipe_def)

lemma demo_destroy: "\<exists>p'. pipe_destroy (sel_ops demo_sink demo_func) demo_pipe = (p', Inr ()) \<and> outputs (pTrace p') = [demo_out [Some 7], demo_out [Some 5]]"
  by (simp add: pipe_destroy_def cleanPages_def demo_pipe_def give_back_def Let_def)

section \<open>Pages\<close>

text \<open>C10: whatever the source, the executors and the sink do, a run that returns, normally or early, and the
  destructor that follows give back every page the pipeline got, and each one once: the pages written
  back or discarded are those obtained, and none is left in the queue. (The destructor cleans with the
  iteration 999999999, so the run must have used fewer pages.)\<close>

theorem pages_given_back_once:
  assumes "pipe_run D n (pipe_new w) = Some (p, Inr fl)" and "pipe_destroy D p = (p', Inr ())"
    and "length (gots (pTrace p)) < 999999990"
  shows "pUnwritten p' = [] \<and> mset (gives (pTrace p')) = mset (gots (pTrace p'))"
proof -
  have a: "acct p []" using pipe_run_acct(1)[OF assms(1)] by simp
  have b: "Inr () = Inr () \<longrightarrow> length (gots (pTrace p)) < 999999990" using assms(3) by simp
  note d = pipe_destroy_pages[OF a assms(2) b]
  show ?thesis using d(1) d(3)[OF refl] a by (simp add: acct_def)
qed

theorem pages_given_back_once_witness:
  "\<exists>p'. pipe_run (sel_ops demo_sink demo_func) (Suc (Suc (Suc (Suc 0)))) (pipe_new demo_world) = Some (demo_pipe, Inr Go)
     \<and> pipe_destroy (sel_ops demo_sink demo_func) demo_pipe = (p', Inr ()) \<and> length (gots (pTrace demo_pipe)) < 999999990
     \<and> pUnwritten p' = [] \<and> mset (gives (pTrace p')) = mset (gots (pTrace p'))"
proof -
  obtain p' where d: "pipe_destroy (sel_ops demo_sink demo_func) demo_pipe = (p', Inr ())" using demo_destroy by blast
  have l: "length (gots (pTrace demo_pipe)) < 999999990" by (simp add: demo_pipe_def)
  show ?thesis using pages_given_back_once[OF demo_run[of 0] d l] demo_run[of 0] d l by blast
qed

text \<open>What makes the loop around \<open>writeOut\<close> run for ever.\<close>

definition row_never_fits :: "('w, 't, 'c) pipe_ops \<Rightarrow> ('w \<Rightarrow> bool) \<Rightarrow> ('c \<Rightarrow> bool) \<Rightarrow> 't option \<Rightarrow> bool" where
  "row_never_fits D I J t \<longleftrightarrow>
     (\<forall>w. I w \<longrightarrow> (\<exists>w' l k. opNewPage D w = (w', Some l, k) \<and> I (opOpenBlock D (Some l) k w')))
     \<and> (\<forall>w. I w \<longrightarrow> (\<exists>w' c. opNewSink D w = (w', Inr c) \<and> I w' \<and> J c))
     \<and> (\<forall>w c. I w \<longrightarrow> J c \<longrightarrow> (\<exists>w' c'. opWriteOut D w t c = (w', c', Inl NotEnoughSpace) \<and> I w'))
     \<and> (\<forall>w l c k. I w \<longrightarrow> I (opWriteBack D l c w) \<and> I (opDiscard D l w) \<and> I (opScratchBlock D k w))"

lemma give_back_goes_on:
  assumes "row_never_fits D I J t" "I (pWorld p)" "hLocation h \<noteq> None"
  shows "\<exists>p'. give_back D it h p = (p', Inr ()) \<and> I (pWorld p')"
proof -
  obtain l where l: "hLocation h = Some l" using assms(3) by blast
  obtain w c where s: "opNewSink D (pWorld p) = (w, Inr c)" "I w" using assms(1,2) unfolding row_never_fits_def by blast
  have k: "I (opWriteBack D l c' w')" "I (opDiscard D l w')" "I (opScratchBlock D k w')" if "I w'" for w' c' k
    using assms(1) that unfolding row_never_fits_def by blast+
  show ?thesis using l s k assms(2) by (cases "hSink h") (auto simp: give_back_def new_sink_def Let_def)
qed

lemma clean_queue_goes_on:
  assumes "row_never_fits D I J t" "I (pWorld p)" "all_located hs"
  shows "\<exists>p'. clean_queue D it hs p = (p', Inr ()) \<and> I (pWorld p') \<and> all_located (pUnwritten p')"
  using assms(2,3)
proof (induction hs arbitrary: p)
  case (Cons h hs)
  obtain p1 where g: "give_back D it h p = (p1, Inr ())" "I (pWorld p1)"
    using give_back_goes_on[OF assms(1) Cons.prems(1)] Cons.prems(2) by fastforce
  show ?case using Cons.IH[OF g(2)] Cons.prems g(1) by auto
qed simp

text \<open>C34: the loop around \<open>writeOut\<close> does not end when a row does not fit an empty page while pages can
  still be had: if in every world \<open>getNewPage\<close> gives a page, a container can be made on it and writing the
  chunk into it throws \<open>NotEnoughSpace\<close>, then no number of rounds is enough. (The executors' loop exits
  in this case; this one has no such check.)\<close>

theorem oversized_row_never_ends:
  assumes "row_never_fits D I J t" and "I (pWorld p)" and "all_located (pUnwritten p)" and "hLocation m \<noteq> None"
    and "\<forall>c. hSink m = Some c \<longrightarrow> J c"
  shows "run_write D n p m it t = None"
  using assms(2-)
proof (induction n arbitrary: p m it)
  case (Suc n)
  note w = assms(1)[unfolded row_never_fits_def]
  obtain w1 c1 where s: "opNewSink D (pWorld p) = (w1, Inr c1)" "I w1" "J c1" using w Suc.prems(1) by blast
  define q where "q = (case hSink m of Some c \<Rightarrow> (p, Inr c :: 'c outcome) | None \<Rightarrow> new_sink D p)"
  obtain p2 c where q: "q = (p2, Inr c)" "I (pWorld p2)" "J c" "pUnwritten p2 = pUnwritten p"
    using s Suc.prems(1,4) by (cases "hSink m") (auto simp: q_def new_sink_def)
  obtain w3 c' where wo: "opWriteOut D (pWorld p2) t c = (w3, c', Inl NotEnoughSpace)" "I w3" using w q(2,3) by blast
  let ?p = "p2\<lparr>pWorld := w3, pUnwritten := pUnwritten p2 @ [set_iteration it (m\<lparr>hSink := Some c'\<rparr>)]\<rparr>"
  have "all_located (pUnwritten ?p)" "I (pWorld ?p)" using Suc.prems(2,3) q(4) wo(2) by auto
  then obtain p4 where cl: "cleanPages D (it + 1) ?p = (p4, Inr ())" "I (pWorld p4)" "all_located (pUnwritten p4)"
    using clean_queue_goes_on[OF assms(1)] unfolding cleanPages_def by blast
  obtain w5 l k where np: "opNewPage D (pWorld p4) = (w5, Some l, k)" "I (opOpenBlock D (Some l) k w5)" using w cl(2) by blast
  obtain p6 m6 where nh: "new_holder D p4 = (p6, m6)" "I (pWorld p6)" "all_located (pUnwritten p6)" "hLocation m6 = Some l" "hSink m6 = None"
    using np cl(3) by (auto simp: new_holder_def)
  have "write_round D p m it t = (False, p6, m6, it + 1, Inr Go)"
    using q(1)[unfolded q_def] wo(1) cl(1) nh(1,4) by (simp add: write_round_def turn_page_def)
  then show ?case using Suc.IH[of p6 m6 "it + 1"] nh by simp
qed simp

definition tiny_sink :: "nat vsink" where
  "tiny_sink = demo_sink\<lparr>vkCopy := (\<lambda>v x. False)\<rparr>"

definition endless_ops :: "(nat sel_world, nat, nat option vec) pipe_ops" where
  "endless_ops = (sel_ops tiny_sink demo_func)\<lparr>opNewPage := (\<lambda>w. (w, Some 20, 64))\<rparr>"

theorem oversized_row_never_ends_witness:
  "row_never_fits endless_ops (\<lambda>w. swHeap w = demo_heap 5 [Some 5]) (\<lambda>c. c = demo_out []) (Some 2)
   \<and> run_write endless_ops 1000000 (pipe_new (demo_world\<lparr>swHeap := demo_heap 5 [Some 5]\<rparr>))
       \<lparr>hLocation = Some 20, hSize = 64, hSink = None, hIteration = 0\<rparr> 0 (Some 2) = None"
proof -
  have sink: "vector_sink_new tiny_sink = Inr (demo_out [])"
    by (simp add: vector_sink_new_def vec_new_def tiny_sink_def demo_sink_def demo_out_def arr_new_def)
  have full: "vector_sink_writeOut tiny_sink 0 (demo_heap 5 [Some 5]) 2 (demo_out []) = (demo_heap 5 [Some 5], demo_out [], Inl NotEnoughSpace)"
    by (simp add: tiny_sink_def sink_eval)
  have r: "row_never_fits endless_ops (\<lambda>w. swHeap w = demo_heap 5 [Some 5]) (\<lambda>c. c = demo_out []) (Some 2)"
    by (simp add: row_never_fits_def endless_ops_def sink full sel_write_def)
  show ?thesis using r
      oversized_row_never_ends[OF r, of "pipe_new (demo_world\<lparr>swHeap := demo_heap 5 [Some 5]\<rparr>)"
        "\<lparr>hLocation = Some 20, hSize = 64, hSink = None, hIteration = 0\<rparr>" 1000000 0]
    by (simp add: pipe_new_def)
qed

section \<open>Selections\<close>

lemma held_elems: "list_all2 sel_holds cs segs \<Longrightarrow> map vec_elems cs = segs"
  by (induction cs segs rule: list_all2_induct) (auto simp: sel_holds_def)

lemma start_good:
  assumes "0 < chunk" "inputs_ok pages" "small_room (vkRoom K)" "decides func keep" "sel_start pages chunk outs = Inr w"
  shows "sel_good K func keep w" "concat (sel_todo keep w) = filter keep (input_rows pages)"
    "length (sel_todo keep w) \<le> length (input_rows pages)" "\<forall>ch \<in> set (sel_todo keep w). length ch \<le> chunk"
proof -
  obtain w' where w: "sel_start pages chunk outs = Inr w'" "sel_inv w'" "concat (pending (swSource w')) = input_rows pages"
    "length (pending (swSource w')) \<le> length (input_rows pages)" "\<forall>ch \<in> set (pending (swSource w')). length ch \<le> chunk"
    by (rule sel_start_ok[OF assms(1,2), of outs])
  then have e: "w' = w" using assms(5) by simp
  show "sel_good K func keep w" using w(2) e assms(3,4) by (simp add: sel_good_def)
  show "concat (sel_todo keep w) = filter keep (input_rows pages)"
    using w(3) e by (simp add: sel_todo_def filter_concat[symmetric])
  show "length (sel_todo keep w) \<le> length (input_rows pages)" using w(4) e by (simp add: sel_todo_def)
  show "\<forall>ch \<in> set (sel_todo keep w). length ch \<le> chunk"
    using w(5) e by (auto simp: sel_todo_def intro: order_trans[OF length_filter_le])
qed

text \<open>C4: a selection from the vectors of the input pages to the vectors of the output pages: after the run
  and the destructor, the output pages (the last ones in reverse) hold a prefix of the rows that the
  lambda keeps, in order and none twice; and all of them, if the run did not return early for want of a
  page. This holds for every chunk size, for any number of times that a page is full in the middle of a
  chunk or that the lambda runs out of memory, and through the columns shared between tuple sets.\<close>

theorem selection_keeps_rows:
  assumes "0 < chunk" and "inputs_ok pages" and "small_room (vkRoom K)" and "decides func keep"
    and "sel_start pages chunk outs = Inr w" and "pipe_run (sel_ops K func) n (pipe_new w) = Some (p, Inr fl)"
    and "pipe_destroy (sel_ops K func) p = (p', Inr ())" and "length (gots (pTrace p)) < 999999990"
  shows "\<exists>early late. outputs (pTrace p') = early @ rev late
    \<and> prefix (concat (map vec_elems (early @ late))) (filter keep (input_rows pages))
    \<and> (fl = Go \<longrightarrow> concat (map vec_elems (early @ late)) = filter keep (input_rows pages))"
proof -
  note g = start_good[OF assms(1-5)]
  obtain pre where pre: "prefix pre (filter keep (input_rows pages))" "held sel_holds p [] pre"
    "fl = Go \<longrightarrow> pre = filter keep (input_rows pages)"
    using sel.pipe_run_held[OF assms(6) g(1)] g(2) by auto
  obtain segs where s: "list_all2 sel_holds (outputs (pTrace p) @ sinks (pUnwritten p)) segs" "concat segs = pre"
    using pre(2) by (auto simp: held_def)
  have "acct p []" using pipe_run_acct(1)[OF assms(6)] by simp
  then have "outputs (pTrace p') = outputs (pTrace p) @ rev (sinks (pUnwritten p))"
    using pipe_destroy_pages(3)[OF _ assms(7)] assms(8) by simp
  then show ?thesis using pre held_elems[OF s(1)] s(2)
    by (intro exI[of _ "outputs (pTrace p)"] exI[of _ "sinks (pUnwritten p)"]) simp
qed

theorem selection_keeps_rows_witness:
  "\<exists>p' early late. pipe_run (sel_ops demo_sink demo_func) (Suc (Suc (Suc (Suc 0)))) (pipe_new demo_world) = Some (demo_pipe, Inr Go)
     \<and> pipe_destroy (sel_ops demo_sink demo_func) demo_pipe = (p', Inr ())
     \<and> outputs (pTrace p') = early @ rev late \<and> concat (map vec_elems (early @ late)) = [Some 5, Some 7]"
proof -
  obtain p' where d: "pipe_destroy (sel_ops demo_sink demo_func) demo_pipe = (p', Inr ())" using demo_destroy by blast
  have l: "length (gots (pTrace demo_pipe)) < 999999990" "(0 :: nat) < 4" by (simp_all add: demo_pipe_def)
  have f: "filter demo_keep (input_rows [(9 :: nat, demo_vec)]) = [Some 5, Some 7]" by (simp add: demo_ok(4) demo_keep_def)
  show ?thesis using selection_keeps_rows[OF l(2) demo_ok(1-3) demo_start demo_run[of 0] d l(1)] demo_run[of 0] d
    unfolding f by blast
qed

text \<open>C9: a selection never uses memory it must not: whatever the input, a run that throws does so with
  \<open>NotEnoughSpace\<close> (from creating a container outside the \<open>try\<close> blocks) or by \<open>exit(1)\<close> (no first page, or an
  executor out of memory twice). No page is read after it was handed back, no column after it was deleted,
  none is deleted twice, no cell is read as another type and no null pointer is followed.\<close>

theorem selection_fails_only_for_space:
  assumes "0 < chunk" and "inputs_ok pages" and "small_room (vkRoom K)" and "decides func keep"
    and "sel_start pages chunk outs = Inr w" and "pipe_run (sel_ops K func) n (pipe_new w) = Some (p, Inl e)"
  shows "e = NotEnoughSpace \<or> e = FatalExit 1"
  using sel.pipe_run_safe[OF assms(6) start_good(1)[OF assms(1-5)]] by (simp add: expected_def)

theorem selection_fails_only_for_space_witness:
  "\<exists>w p. sel_start [(9, demo_vec)] 4 [] = Inr w
     \<and> pipe_run (sel_ops demo_sink demo_func) 7 (pipe_new w) = Some (p, Inl (FatalExit 1))
     \<and> ((FatalExit 1 :: fault) = NotEnoughSpace \<or> (FatalExit 1 :: fault) = FatalExit 1)"
proof -
  let ?w = "demo_world\<lparr>swPages := []\<rparr>"
  have s: "sel_start [(9, demo_vec)] 4 [] = Inr ?w"
    by (simp add: sel_start_def vs_new_def another_vector_def demo_world_def demo_source_def column_eval)
  obtain p where r: "pipe_run (sel_ops demo_sink demo_func) 7 (pipe_new ?w) = Some (p, Inl (FatalExit 1))"
    by (simp add: pipe_run_def new_holder_def pipe_new_def)
  have "(0 :: nat) < 4" by simp
  from selection_fails_only_for_space[OF this demo_ok(1-3) s r] show ?thesis using s r by blast
qed

text \<open>C16: a selection ends: if a container can be made on a new page and an empty page takes any one row, then
  a number of rounds that grows with the number of input rows and the chunk size is enough, however many
  pages that takes, for any input.\<close>

theorem selection_ends:
  assumes "0 < chunk" and "inputs_ok pages" and "small_room (vkRoom K)" and "decides func keep"
    and "vkRoom K 1" and "\<forall>v x. vec_elems v = [] \<longrightarrow> vkCopy K v x" and "length (input_rows pages) + chunk + 3 \<le> n"
  shows "\<exists>w p r. sel_start pages chunk outs = Inr w \<and> pipe_run (sel_ops K func) n (pipe_new w) = Some (p, r)"
proof -
  obtain w where w: "sel_start pages chunk outs = Inr w" by (rule sel_start_ok[OF assms(1,2), of outs])
  note g = start_good[OF assms(1-4) w]
  have "takes_a_row (sel_ops K func) (sel_good K func keep) (sel_rows keep) sel_holds"
    unfolding takes_a_row_def
  proof (intro conjI allI impI)
    fix w show "snd (opNewSink (sel_ops K func) w) \<noteq> Inl NotEnoughSpace"
      using assms(5) by (simp add: vector_sink_new_def vec_new_def)
  next
    fix w t c rs w' c'
    assume a: "sel_good K func keep w" "sel_rows keep (length (opStages (sel_ops K func))) w t = Some rs" "sel_holds c []"
      "opWriteOut (sel_ops K func) w (Some t) c = (w', c', Inl NotEnoughSpace)"
    have b: "sel_inv w" "small_room (vkRoom K)" "sel_rows keep 2 w t = Some rs" "sel_write K w (Some t) c = (w', c', Inl NotEnoughSpace)"
      using a by (auto simp: sel_good_def numeral_2_eq_2)
    obtain i where i: "i \<le> length rs" "sel_rows keep 2 w' t = Some (drop i rs)" "i = 0 \<longrightarrow> (\<exists>u x. vec_elems u = [] \<and> \<not> vkCopy K u x)"
      using sel_write_ok[OF b(1-3) a(3) b(4)] by auto
    then have "i > 0" using assms(6) by auto
    then show "\<exists>i > 0. i \<le> length rs \<and> sel_rows keep (length (opStages (sel_ops K func))) w' t = Some (drop i rs)"
      using i by (auto simp: numeral_2_eq_2)
  qed
  then have "pipe_run (sel_ops K func) n (pipe_new w) \<noteq> None"
    by (rule sel.pipe_run_some[OF _ g(1) g(4)]) (use g(3) assms(7) in linarith)
  then show ?thesis using w by auto
qed

theorem selection_ends_witness:
  "\<exists>w p r. sel_start [(9, demo_vec)] 4 [(20, 64)] = Inr w \<and> pipe_run (sel_ops demo_sink demo_func) 10 (pipe_new w) = Some (p, r)"
proof -
  have a: "(0 :: nat) < 4" "vkRoom demo_sink 1" "\<forall>v x. vec_elems v = [] \<longrightarrow> vkCopy demo_sink v x"
    "length (input_rows [(9 :: nat, demo_vec)]) + 4 + 3 \<le> 10"
    by (simp_all add: demo_sink_def demo_ok(4))
  show ?thesis by (rule selection_ends[OF a(1) demo_ok(1-3) a(2-4)])
qed

end
