(* ===== verification/Spec2Isabelle.thy ===== *)
theory Spec2Isabelle
  imports TopKQueues HashSinks Handles PageCacheResults PageFileFaults SequenceFiles BufferManagerResults
    PlannerResults JoinResults SelectionResults
begin

text \<open>
  Verification library of netsDB, a distributed database for user-defined analytics and model
  inference (C++, everything under \<open>src/src\<close>).

  \<^bold>\<open>The program and its parts.\<close>  A worker node keeps data sets as pages.  Objects are created \<^emph>\<open>inside\<close>
  a page by the object model: an allocator hands out chunks of the current allocation block, objects
  carry a reference count in front of them, handles point to them by offset, and containers (array,
  vector, pair array, map, top-k queue) are objects that live in the same block, so that a page can be
  sent or stored byte for byte.  A pipeline pulls tuple sets from a source,
  passes them through executors and folds them into such containers with a sink, taking a new page
  whenever one is full; the aggregation and join sinks keep their state in the maps.  Below them the storage manager gives a set its
  pages: the page cache holds pages in shared memory, pins and counts them, evicts them by a
  replacement strategy, and hands dirty ones through a bounded buffer to flushing threads, which append
  them to the set's partitioned file.  The meta file lets a restarted node find the pages again.  A
  query arrives as a list of atomic computations; the physical planner follows them from the stored sets and
  cuts them into the job stages that the workers run.

  \<^bold>\<open>How the theories are laid out.\<close>  Each theory translates one part of the source, in the order the code
  has it; the state of a C++ object is a record, an operation is a function from state to state or to
  \<open>fault + result\<close> (\<open>Prelude\<close>), where the faults are the program's exceptions, undefined behaviour such
  as an access outside the storage an object owns, \<open>exit\<close>, and being blocked for ever.

  \<^item> \<open>Prelude\<close>: faults, outcomes, \<open>uint32_t\<close> and \<open>size_t\<close> wrap-around, list lemmas.
  \<^item> \<open>PdbVector\<close> (\<open>builtInPDBObjects/headers/Array.cc\<close>, \<open>PDBVector.cc\<close>): slots are an \<open>'a option list\<close>,
    \<open>None\<close> an unconstructed slot; the locale \<open>growable\<close> is what its clients use, proved for vectors.
  \<^item> \<open>TopKQueues\<close> (\<open>TopKQueue.cc\<close>): the binary heap over two vectors, against the multiset of the best.
  \<^item> \<open>HashMaps\<close> (\<open>PairArray.cc\<close>, \<open>PDBMap.cc\<close>): open addressing with linear probing, growth and the
    iterator, against a partial map; the locale \<open>key_table\<close> is what the sink relies on.
  \<^item> \<open>HashSinks\<close> (\<open>lambdas/headers/HashSink.h\<close>): the row loop with its two exception handlers, against
    the fold of the rows; it resumes after \<open>NotEnoughSpace\<close> without losing or repeating a row.
  \<^item> \<open>JoinMaps\<close> (\<open>JoinPairArray.cc\<close>, \<open>JoinMap.cc\<close>): the hash table with several records per key, its
    overflow lists and its sorted iterator; \<open>JoinMapFacts\<close> proves it against a multimap.  \<open>JoinSinks\<close>
    and \<open>JoinProbes\<close> (\<open>lambdas/headers/JoinTuple.h\<close>) are the sinks, the merger, the shuffler and the two
    probes, and \<open>JoinResults\<close> compares whole joins with nested loops.
  \<^item> \<open>TupleSets\<close> (\<open>TupleSet.h\<close>, \<open>TupleSetMachine.h\<close>, \<open>FilterExecutor.h\<close>, \<open>HashOneExecutor.h\<close>,
    \<open>CPlusPlusLambda.h\<close>): columns on a heap, shallow copies and who deletes them, and the executors;
    \<open>TupleSetFacts\<close> shows that no column is leaked, deleted twice or used after its deletion.
  \<^item> \<open>Pipelines\<close> (\<open>Pipeline.h\<close>): the loop over chunks, executors and pages; the functions it is given are
    the fields of \<open>pipe_ops\<close>, and the number of rounds is bounded, \<open>None\<close> being the bound.  \<open>PipelineFacts\<close>
    follows the pages, \<open>PipelineRows\<close> the rows, under the locale \<open>pipe_parts\<close>, the contract of its parts,
    and \<open>PipelineSafety\<close> what a run can fail with, under \<open>safe_parts\<close>.
  \<^item> \<open>VectorPipelines\<close> (\<open>VectorTupleSetIterator.h\<close>, \<open>VectorSink.h\<close>): the source and the sink of a
    selection and its pipeline.  \<open>VectorPipelineFacts\<close> and \<open>SelectionRuns\<close> show that the source, the executors
    and the sink keep the contract; \<open>SelectionResults\<close> holds the properties of pipelines and selections.
  \<^item> \<open>BlockAllocator\<close> (\<open>objectModel/headers/Allocator.cc\<close>): blocks, free-chunk buckets, the three policies,
    inactive blocks, and the step relation \<open>alloc_reach\<close>.
  \<^item> \<open>Handles\<close> (\<open>RefCountedObject.cc\<close>, \<open>Handle.cc\<close>, \<open>InterfaceFunctions.cc\<close>): counts, every constructor and
    assignment of a handle, deep copies, object creation; locale \<open>object_store\<close>, proved for the allocator.
  \<^item> \<open>PageHeaders\<close> (\<open>storage/source/PDBPage.cc\<close>): the page as bytes, little-endian cells, appended areas.
  \<^item> \<open>CircularBuffer\<close> (\<open>PageCircularBuffer.cc\<close>): locale \<open>fifo\<close> and the ring that implements it for
    calls that do not overlap; \<open>cs_step\<close> splits adds and pops at their two writes and lets them overlap.
  \<^item> \<open>LocalitySets\<close> (\<open>LocalitySet.cc\<close>): the pages of a set in access order, selection for replacement.
  \<^item> \<open>PageCaching\<close> (\<open>PageCache.cc\<close>, \<open>PDBFlushConsumerWork.cc\<close>): the whole cache state with its three locks,
    every operation, the five strategies, and one round of the flushing thread.  \<open>PageCacheSafety\<close> holds
    the invariant and the relation \<open>good\<close> that every operation keeps, \<open>PageCacheResults\<close> the properties
    over all reachable states.
  \<^item> \<open>PartitionMeta\<close> (\<open>PartitionedFileMetaData.h\<close>), \<open>PartitionedFiles\<close> (\<open>PartitionedFile.cc\<close>): the object
    and the disk, byte for byte.  \<open>PartitionedFileResults\<close> states the contract of \<open>PDBFile\<close> as the locale
    \<open>pdb_file\<close> and proves it for both I/O modes; \<open>MetaRoundTrip\<close> proves that the parser reads what the
    writer stores; \<open>PartitionedFileRestart\<close> composes creation, appends, the meta file and reopening;
    \<open>PageFileFaults\<close> shows the states in which files are damaged.
  \<^item> \<open>SequenceFiles\<close> (\<open>SequenceFile.cc\<close>): the older file format, page after page with its id in front.
  \<^item> \<open>BufferManager\<close> (\<open>bufferMgr/source\<close>): the legacy buffer manager with its pages, frames, handles and
    files.  \<open>BufferManagerInv\<close> holds the invariant, \<open>BufferManagerOps\<close> that every operation keeps it, and
    \<open>BufferManagerResults\<close> the properties over all sequences of operations.
  \<^item> \<open>LogicalPlans\<close> (\<open>logicalPlan\<close>): tuple specifications, the atomic computations of TCAP, the list that
    finds producers and consumers, and the search for the creator of an attribute, against the relation
    \<open>origin\<close> that follows a column through the layouts of the outputs.
  \<^item> \<open>PlanSources\<close>, \<open>TcapAnalyzer\<close> (\<open>queryPlanning/source/TCAPAnalyzer.cc\<close>): the planner's state, its
    sources, costs and job stages, and the recursion that cuts a query into stages; one call of it is
    \<open>analyze_step\<close>, with a function for each branch.  The scheduler's planning loop is
    \<open>next_stages\<close>.  \<open>PlannerSafety\<close> holds the invariant that stages are numbered in order and hash
    tables are built before they are probed, \<open>PlannerInputs\<close> shows that no search of the planner goes on
    for ever when the inputs form no cycle, \<open>PlannerResults\<close> holds the properties of whole plans.

  \<^bold>\<open>What the lemmas show.\<close>  For each component: an invariant and that every operation keeps it on every
  branch, faults included; the functional behaviour against an abstract value (list, multiset, partial
  map, queue, byte list); and where the code does not do what it means to, a theorem with a concrete
  state (as in \<open>PageFileFaults\<close>, and at the end of the other result theories).

  \<^bold>\<open>Machine integers.\<close>  Sizes, offsets and ids of pages are words.  In the containers, the allocator and the
  files they are naturals with the wrap-around written out (\<open>u32\<close>, \<open>u64\<close>).  Reference counts of pages
  and access stamps are \<open>int\<close>: a program keeps them far from their bounds.

  \<^bold>\<open>Loops.\<close>  Loops over data are structural.  The probe of a hash table runs at most once around the
  table, which is enough since the invariant keeps an unused slot.  \<open>dbmin_loop\<close> has one round more than
  the set has pages: each round of the source that goes on removes a page.  \<open>allocate\<close> takes its number
  of rounds from the environment, because the source retries until another thread frees memory; what
  is proved of it holds for every number of rounds, and reaching the bound is the fault \<open>Stuck\<close>.
  The planner's recursion has a bound on its depth; the number of computations of the plan is enough, which
  is a theorem.  The scheduler's inner loop has a bound on its rounds, because the source can repeat it for
  ever; reaching either bound is the value \<open>None\<close>.  The walk from a join to its scanned sets is
  bounded by \<open>inputDepth\<close>; any number above the longest chain of inputs does, and inputs that form a cycle
  have none (the source loops for ever).

  \<^bold>\<open>Parameters.\<close>  Code that is not the program's is an argument: hash and copy functions of user types
  and their sizes, the shared-memory allocator (an address or none), the bytes fresh memory holds, what
  the operating system lets be opened, how many bytes a \<open>write\<close> transfers, and the order in which a loop
  visits a hash map, and for the planner the self-learning database and what its uninitialised members
  held.  The hypotheses on them state documented behaviour and each has a witness.

  \<^bold>\<open>Not modelled.\<close>  Input and output over sockets, the catalog's SQL, thread creation and condition
  variables (an operation that holds a lock is one step, but for the overlapping adds and pops of
  \<open>CircularBuffer\<close>; waiting is a value or \<open>Stuck\<close>), type codes and
  virtual tables (they depend on the loader), the TCAP compiler's generated lexer and parser, numeric
  kernels, benchmarks, and vendored code.  User sets and temporary sets only join the page cache, the
  partitioned file and the locality set, which are modelled, under locks.  The work queue and the
  buzzer are calls of pthread conditions around a counter, and the dispatcher's policies a random
  or cyclic choice of a node.  The slab allocator places the memory that the page cache takes from a
  parameter.  Of the lambdas, the templates that compile expressions into executors are not modelled;
  their executors have the shape of that of \<open>lambda_process\<close>.
\<close>

end
